(* ===== verification/Prelude.thy ===== *)
theory Prelude
  imports Main "HOL-Library.Word"
begin

text \<open>
  Shared vocabulary of the development: the machine integer types of the C++ sources, results
  that may be an assertion failure, byte strings, and the arithmetic of sequence numbers.

  \<^item> \<open>u8\<close>, \<open>u16\<close>, \<open>u32\<close> and \<open>u64\<close> are the unsigned types of \<open>cstdint\<close>; addition and
    subtraction wrap around.
  \<^item> \<open>byte_buffer\<close> is the content of a \<open>byte_buffer\<close>, \<open>byte_buffer_slice\<close>, \<open>byte_buffer_view\<close> or
    \<open>span<uint8_t>\<close>.
  \<^item> A \<open>res\<close> is either a \<open>fault\<close> or a value. A fault is a failed \<open>srsran_assert\<close>, enabled in the
    default build by \<open>ASSERT_LEVEL\<close>, or a loop that did not end within the bound its model gives it;
    that no fault occurs includes that the loops end. An access to the value of an \<open>expected\<close> that holds an error,
    which ends the program too, is a fault as well.
  \<^item> The locale \<open>sn_ring\<close> holds the arithmetic of sequence numbers modulo \<open>2 ^ k\<close> that the RLC
    entities compute with \<open>uint32_t\<close> subtraction followed by \<open>% mod\<close>.
\<close>

unbundle bit_operations_syntax

type_synonym u8 = "8 word"
type_synonym u16 = "16 word"
type_synonym u32 = "32 word"
type_synonym u64 = "64 word"

type_synonym byte_buffer = "u8 list"

section \<open>Results that may be an assertion failure\<close>

datatype fault = Assertion_Failure string | Loop_Bound_Exceeded

type_synonym 'a res = "fault + 'a"

named_theorems res_simps \<open>evaluation of results\<close>

definition bind_res :: "'a res \<Rightarrow> ('a \<Rightarrow> 'b res) \<Rightarrow> 'b res" where
  "bind_res r f = (case r of Inl e \<Rightarrow> Inl e | Inr x \<Rightarrow> f x)"

definition srsran_assert :: "bool \<Rightarrow> string \<Rightarrow> unit res" where
  "srsran_assert b msg = (if b then Inr () else Inl (Assertion_Failure msg))"

definition is_ok :: "'a res \<Rightarrow> bool" where
  "is_ok r = (case r of Inl _ \<Rightarrow> False | Inr _ \<Rightarrow> True)"

definition fault_of :: "'a res \<Rightarrow> fault option" where
  "fault_of r = (case r of Inl e \<Rightarrow> Some e | Inr _ \<Rightarrow> None)"

lemma bind_res_simps [simp, res_simps]:
  "bind_res (Inl e) f = Inl e"
  "bind_res (Inr x) f = f x"
  by (simp_all add: bind_res_def)

lemma bind_res_Inr_iff:
  "bind_res r f = Inr y \<longleftrightarrow> (\<exists>x. r = Inr x \<and> f x = Inr y)"
  by (cases r) auto

lemma is_ok_simps [simp, res_simps]: "\<not> is_ok (Inl e)" "is_ok (Inr x)"
  by (simp_all add: is_ok_def)

lemma is_ok_iff: "is_ok r \<longleftrightarrow> (\<exists>x. r = Inr x)"
  by (cases r) auto

lemma is_ok_bind: "is_ok (bind_res r f) \<longleftrightarrow> (\<exists>x. r = Inr x \<and> is_ok (f x))"
  by (cases r) auto

section \<open>Sequence numbers modulo a power of two\<close>

named_theorems sn_simps \<open>distances between sequence numbers\<close>

text \<open>
  The distance from \<open>r\<close> up to \<open>x\<close> on the ring of \<open>m\<close> sequence numbers, computed the way the
  sources do: a wrapping 32 bit subtraction, then the remainder.
\<close>

definition sn_dist :: "u32 \<Rightarrow> u32 \<Rightarrow> u32 \<Rightarrow> u32" where
  "sn_dist m r x = (x - r) mod m"

locale sn_ring =
  fixes k :: nat and m :: u32
  assumes k_pos: "0 < k" and k_less: "k < 32" and m_def: "m = push_bit k 1"
begin

definition N :: nat where
  "N = 2 ^ k"

definition dist :: "u32 \<Rightarrow> u32 \<Rightarrow> nat" where
  "dist r x = unat (sn_dist m r x)"

lemma N_pos [simp]: "0 < N"
  by (simp add: N_def)

lemma N_dvd: "N dvd 2 ^ 32"
  unfolding N_def by (rule le_imp_power_dvd) (use k_less in simp)

lemma N_dvd_card: "N dvd 4294967296"
  using N_dvd by simp

lemma unat_m: "unat m = N"
proof -
  have "unat (push_bit k 1 :: u32) = take_bit 32 (push_bit k 1)"
    by (simp only: unsigned_push_bit_eq) simp
  also have "\<dots> = 2 ^ k"
    using k_less by (simp add: take_bit_nat_eq_self)
  finally show ?thesis by (simp only: m_def N_def)
qed

lemma m_pos: "0 < m"
  using unat_m by (simp add: word_less_nat_alt)

lemma dist_int: "int (dist r x) = (int (unat x) - int (unat r)) mod int N"
proof -
  have dvd: "int N dvd 2 ^ 32" using N_dvd by (metis int_dvd_int_iff of_nat_numeral of_nat_power)
  have "int (dist r x) = uint (x - r) mod int N"
    by (simp add: dist_def sn_dist_def unat_mod unat_m zmod_int)
  also have "\<dots> = ((uint x - uint r) mod 2 ^ 32) mod int N"
    by (simp add: uint_word_ariths)
  also have "\<dots> = (uint x - uint r) mod int N"
    using dvd by (rule mod_mod_cancel)
  finally show ?thesis by simp
qed

lemma dist_less [simp]: "dist r x < N"
  by (simp add: dist_def sn_dist_def unat_mod unat_m)

lemma dist_self [simp]: "dist r r = 0"
  by (simp add: dist_def sn_dist_def)

lemma sn_less_iff: "x < m \<longleftrightarrow> unat x < N"
  by (simp add: word_less_nat_alt unat_m)

lemma dist_inj:
  assumes "x < m" "y < m" "dist r x = dist r y"
  shows "x = y"
proof -
  have "(int (unat x) - int (unat r)) mod int N = (int (unat y) - int (unat r)) mod int N"
    using assms(3) dist_int [of r x] dist_int [of r y] by simp
  then have "(int (unat x) - int (unat r) + int (unat r)) mod int N
      = (int (unat y) - int (unat r) + int (unat r)) mod int N"
    by (rule mod_add_cong) simp
  then have "int (unat x mod N) = int (unat y mod N)"
    by (simp add: zmod_int)
  then have "unat x mod N = unat y mod N"
    by (simp only: of_nat_eq_iff)
  then show ?thesis
    using assms(1,2) by (simp add: word_unat_eq_iff sn_less_iff)
qed

lemma dist_0_iff: "x < m \<Longrightarrow> r < m \<Longrightarrow> dist r x = 0 \<longleftrightarrow> x = r"
  using dist_inj [of x r r] by auto

lemma mod_m_less [simp]: "x mod m < m"
  by (simp add: sn_less_iff unat_mod unat_m)

lemma mod_m_ident: "x < m \<Longrightarrow> x mod m = x"
  by (simp add: sn_less_iff word_unat_eq_iff unat_mod unat_m)

lemma dist_mod [simp]: "dist r (x mod m) = dist r x"
proof -
  have "int (dist r (x mod m)) = int (dist r x)"
    by (simp add: dist_int unat_mod unat_m zmod_int mod_diff_left_eq)
  then show ?thesis by simp
qed

lemma unat_add_mod: "unat (x + y) mod N = (unat x + unat y) mod N" for x y :: u32
  by (simp add: unat_word_ariths mod_mod_cancel [OF N_dvd_card])

lemma mod_add_of_nat:
  "((x + of_nat a) mod m + of_nat b) mod m = (x + of_nat (a + b)) mod m" for x :: u32
proof -
  have "unat (((x + of_nat a) mod m + of_nat b) mod m)
      = (unat (x + of_nat a) mod N + unat (of_nat b :: u32)) mod N"
    by (simp add: unat_mod unat_m unat_add_mod)
  also have "\<dots> = (unat (x + of_nat a) + unat (of_nat b :: u32)) mod N"
    by (rule mod_add_left_eq)
  also have "\<dots> = unat ((x + of_nat a) + of_nat b) mod N"
    by (rule unat_add_mod [symmetric])
  finally show ?thesis
    by (simp add: word_unat_eq_iff unat_mod unat_m add.assoc)
qed

lemma dist_add: "dist r (x + y) = (dist r x + unat y) mod N"
proof -
  have "int (dist r (x + y)) = (int (unat (x + y) mod N) - int (unat r)) mod int N"
    by (simp add: dist_int zmod_int mod_diff_left_eq)
  also have "\<dots> = (int (unat x) + int (unat y) - int (unat r)) mod int N"
    by (simp only: unat_add_mod zmod_int mod_diff_left_eq of_nat_add)
  also have "\<dots> = (int (unat x) - int (unat r) + int (unat y)) mod int N"
    by (simp only: diff_add_eq)
  also have "\<dots> = (int (dist r x) + int (unat y)) mod int N"
    by (simp only: dist_int mod_add_left_eq)
  finally have "int (dist r (x + y)) = int ((dist r x + unat y) mod N)"
    by (simp only: zmod_int of_nat_add)
  then show ?thesis by (simp only: of_nat_eq_iff)
qed

lemma dist_rebase: "dist s x = (dist r x + N - dist r s) mod N"
proof -
  have le: "dist r s \<le> dist r x + N" using dist_less [of r s] by (simp add: less_imp_le trans_le_add2)
  have "int ((dist r x + N - dist r s) mod N) = (int (dist r x) - int (dist r s) + int N) mod int N"
    using le by (simp add: zmod_int of_nat_diff algebra_simps)
  also have "\<dots> = (int (dist r x) - int (dist r s)) mod int N"
    by (rule mod_add_self2)
  also have "\<dots> = ((int (unat x) - int (unat r)) - (int (unat s) - int (unat r))) mod int N"
    by (simp only: dist_int mod_diff_eq)
  also have "\<dots> = int (dist s x)"
    by (simp add: dist_int)
  finally show ?thesis by simp
qed

lemma dist_rebase_ge:
  assumes "dist r s \<le> dist r x"
  shows "dist s x = dist r x - dist r s"
proof -
  have "dist s x = (N + (dist r x - dist r s)) mod N"
    using assms by (simp add: dist_rebase [of s x r] add.commute)
  moreover have "dist r x - dist r s < N"
    using dist_less [of r x] by (rule le_less_trans [rotated]) simp
  ultimately show ?thesis by simp
qed

lemma dist_rebase_less:
  assumes "dist r x < dist r s"
  shows "dist s x = dist r x + N - dist r s"
proof -
  have "dist r x + N - dist r s < N"
    using assms dist_less [of r s] by arith
  then show ?thesis by (simp add: dist_rebase [of s x r])
qed

lemma dist_succ: "dist r ((x + 1) mod m) = (dist r x + 1) mod N"
  by (simp add: dist_add)

lemma dist_succ_less: "dist r x + 1 < N \<Longrightarrow> dist r ((x + 1) mod m) = dist r x + 1"
  by (subst dist_succ) simp

lemma sn_dist_less_iff: "sn_dist m r x < sn_dist m r y \<longleftrightarrow> dist r x < dist r y"
  by (simp add: dist_def word_less_nat_alt)

lemma sn_dist_le_iff: "sn_dist m r x \<le> sn_dist m r y \<longleftrightarrow> dist r x \<le> dist r y"
  by (simp add: dist_def word_le_nat_alt)

lemma sn_dist_eq_iff: "sn_dist m r x = sn_dist m r y \<longleftrightarrow> dist r x = dist r y"
  by (simp add: dist_def word_unat_eq_iff)

end

end
