(* ===== verification/Circular_Map.thy ===== *)
theory Circular_Map
  imports Prelude
begin

text \<open>
  The containers that index objects by sequence number: \<open>circular_map\<close>
  (include/srsran/adt/circular_map.h, the \<open>ForcePower2Size\<close> variant over \<open>std::vector\<close>) and
  \<open>sdu_window\<close> (include/srsran/support/sdu_window.h), which wraps it for the RLC and PDCP windows.

  The vector of optional key/value pairs is a function from slot indices, the map keeps its number
  of elements in \<open>count\<close>. The abstract view of a map is \<open>cm_lookup\<close>, a partial function from keys;
  the invariant \<open>cm_wf\<close> says that every object sits in the slot of its key and that \<open>count\<close> is the
  number of occupied slots. The locale \<open>sn_store\<close> is the contract that the entities rely on, with
  its interpretation on \<open>sdu_window\<close> at the end.
\<close>

unbundle bit_operations_syntax

section \<open>circular\_map\<close>

record 'v circular_map =
  cm_data :: "nat \<Rightarrow> (u32 \<times> 'v) option"
  cm_max_size :: nat
  cm_count :: nat

definition new_circular_map :: "nat \<Rightarrow> 'v circular_map" where
  "new_circular_map sz = \<lparr>cm_data = (\<lambda>_. None), cm_max_size = sz, cm_count = 0\<rparr>"

definition get_circular_idx :: "'v circular_map \<Rightarrow> u32 \<Rightarrow> nat" where
  "get_circular_idx m key = unat key AND (cm_max_size m - 1)"

definition contains :: "'v circular_map \<Rightarrow> u32 \<Rightarrow> bool" where
  "contains m key =
     (case cm_data m (get_circular_idx m key) of None \<Rightarrow> False | Some (k, _) \<Rightarrow> k = key)"

definition insert_cm :: "'v circular_map \<Rightarrow> u32 \<Rightarrow> 'v \<Rightarrow> bool \<times> 'v circular_map" where
  "insert_cm m key obj =
     (let idx = get_circular_idx m key in
      if cm_data m idx \<noteq> None then (False, m)
      else (True, m\<lparr>cm_data := (cm_data m)(idx := Some (key, obj)), cm_count := cm_count m + 1\<rparr>))"

definition erase :: "'v circular_map \<Rightarrow> u32 \<Rightarrow> bool \<times> 'v circular_map" where
  "erase m key =
     (if \<not> contains m key then (False, m)
      else (True, m\<lparr>cm_data := (cm_data m)(get_circular_idx m key := None),
                    cm_count := cm_count m - 1\<rparr>))"

definition overwrite :: "'v circular_map \<Rightarrow> u32 \<Rightarrow> 'v \<Rightarrow> 'v circular_map" where
  "overwrite m key obj =
     (let m' = (case cm_data m (get_circular_idx m key) of
                  None \<Rightarrow> m
                | Some (k, _) \<Rightarrow> snd (erase m k))
      in snd (insert_cm m' key obj))"

definition at_cm :: "'v circular_map \<Rightarrow> u32 \<Rightarrow> 'v res" where
  "at_cm m key =
     bind_res (srsran_assert (contains m key) ''Accessing non-existent ID'')
       (\<lambda>_. case cm_data m (get_circular_idx m key) of
              Some (_, v) \<Rightarrow> Inr v
            | None \<Rightarrow> Inl (Assertion_Failure ''unreachable''))"

definition clear_cm :: "'v circular_map \<Rightarrow> 'v circular_map" where
  "clear_cm m = m\<lparr>cm_data := (\<lambda>_. None), cm_count := 0\<rparr>"

definition full_cm :: "'v circular_map \<Rightarrow> bool" where
  "full_cm m = (cm_count m = cm_max_size m)"

definition empty_cm :: "'v circular_map \<Rightarrow> bool" where
  "empty_cm m = (cm_count m = 0)"

text \<open>Writing through the reference that \<open>operator[]\<close> returns.\<close>

definition assign_cm :: "'v circular_map \<Rightarrow> u32 \<Rightarrow> 'v \<Rightarrow> 'v circular_map" where
  "assign_cm m key v = m\<lparr>cm_data := (cm_data m)(get_circular_idx m key := Some (key, v))\<rparr>"

section \<open>sdu\_window\<close>

text \<open>
  The object given to \<open>add_sn\<close> is the default-constructed one with the fields that the caller assigns
  through the returned reference.
\<close>

type_synonym 'v sdu_window = "'v circular_map"

definition has_sn :: "'v sdu_window \<Rightarrow> u32 \<Rightarrow> bool" where
  "has_sn w sn = contains w sn"

definition add_sn :: "'v sdu_window \<Rightarrow> u32 \<Rightarrow> 'v \<Rightarrow> 'v sdu_window res" where
  "add_sn w sn obj =
     (if has_sn w sn then Inl (Assertion_Failure ''sn already present in window'')
      else Inr (overwrite w sn obj))"

definition remove_sn :: "'v sdu_window \<Rightarrow> u32 \<Rightarrow> 'v sdu_window res" where
  "remove_sn w sn =
     (if \<not> has_sn w sn then Inl (Assertion_Failure ''Cannot remove sn'')
      else Inr (snd (erase w sn)))"

section \<open>The abstract view\<close>

definition cm_lookup :: "'v circular_map \<Rightarrow> u32 \<Rightarrow> 'v option" where
  "cm_lookup m key =
     (case cm_data m (get_circular_idx m key) of
        None \<Rightarrow> None
      | Some (k, v) \<Rightarrow> if k = key then Some v else None)"

definition cm_wf :: "'v circular_map \<Rightarrow> bool" where
  "cm_wf m \<longleftrightarrow>
     (\<exists>j. cm_max_size m = 2 ^ j) \<and>
     (\<forall>i kv. cm_data m i = Some kv \<longrightarrow> i = get_circular_idx m (fst kv)) \<and>
     cm_count m = card {i. cm_data m i \<noteq> None}"

text \<open>A slot that holds no other key: where \<open>overwrite\<close> evicts nothing.\<close>

definition slot_free :: "'v circular_map \<Rightarrow> u32 \<Rightarrow> bool" where
  "slot_free m key \<longleftrightarrow>
     (case cm_data m (get_circular_idx m key) of None \<Rightarrow> True | Some (k, _) \<Rightarrow> k = key)"

named_theorems cm_defs \<open>unfolding the operations of a circular map\<close>

lemmas [cm_defs] = get_circular_idx_def contains_def insert_cm_def erase_def overwrite_def
  at_cm_def cm_lookup_def assign_cm_def has_sn_def add_sn_def remove_sn_def clear_cm_def
  full_cm_def empty_cm_def slot_free_def new_circular_map_def

lemma get_circular_idx_frame [simp]:
  "get_circular_idx (m\<lparr>cm_data := d\<rparr>) key = get_circular_idx m key"
  "get_circular_idx (m\<lparr>cm_count := c\<rparr>) key = get_circular_idx m key"
  by (simp_all add: get_circular_idx_def)

lemma contains_lookup: "contains m key \<longleftrightarrow> cm_lookup m key \<noteq> None"
  by (auto simp: contains_def cm_lookup_def split: option.splits)

lemma has_sn_lookup: "has_sn w sn \<longleftrightarrow> cm_lookup w sn \<noteq> None"
  by (simp add: has_sn_def contains_lookup)

lemma at_cm_Some: "cm_lookup m key = Some v \<Longrightarrow> at_cm m key = Inr v"
  by (auto simp: at_cm_def cm_lookup_def contains_def srsran_assert_def split: option.splits if_splits)

lemma at_cm_ok: "is_ok (at_cm m key) \<longleftrightarrow> contains m key"
  by (auto simp: at_cm_def contains_def srsran_assert_def split: option.splits)

lemma idx_less:
  assumes "cm_wf m"
  shows "get_circular_idx m key < cm_max_size m"
proof -
  obtain j where j: "cm_max_size m = 2 ^ j" using assms by (auto simp: cm_wf_def)
  have "get_circular_idx m key = take_bit j (unat key)"
    by (simp add: get_circular_idx_def j take_bit_eq_mask mask_eq_exp_minus_1)
  then show ?thesis by (simp add: j)
qed

lemma idx_mod:
  assumes "cm_max_size m = 2 ^ j"
  shows "get_circular_idx m key = unat key mod 2 ^ j"
  by (simp add: get_circular_idx_def assms take_bit_eq_mask mask_eq_exp_minus_1
      flip: take_bit_eq_mod)

lemma finite_slots: "cm_wf m \<Longrightarrow> finite {i. cm_data m i \<noteq> None}"
proof -
  assume wf: "cm_wf m"
  have "{i. cm_data m i \<noteq> None} \<subseteq> {..< cm_max_size m}"
    using wf idx_less [OF wf] by (auto simp: cm_wf_def)
  then show ?thesis by (rule finite_subset) simp
qed

lemma cm_wf_new: "cm_wf (new_circular_map (2 ^ j))"
  by (auto simp: cm_wf_def new_circular_map_def)

lemma cm_lookup_new [simp]: "cm_lookup (new_circular_map n) key = None"
  by (simp add: cm_lookup_def new_circular_map_def)

subsection \<open>Every operation keeps the invariant and has its effect on the view\<close>

lemma cm_lookup_erase:
  assumes "cm_wf m"
  shows "cm_lookup (snd (erase m key)) = (cm_lookup m)(key := None)"
proof
  fix x
  show "cm_lookup (snd (erase m key)) x = ((cm_lookup m)(key := None)) x"
    using assms
    by (auto simp: erase_def contains_def cm_lookup_def split: option.splits if_splits)
qed

lemma card_slots_pos: "cm_wf m \<Longrightarrow> contains m key \<Longrightarrow> 0 < cm_count m"
proof -
  assume wf: "cm_wf m" and c: "contains m key"
  then have "get_circular_idx m key \<in> {i. cm_data m i \<noteq> None}"
    by (auto simp: contains_def split: option.splits)
  with finite_slots [OF wf] show ?thesis
    using wf by (auto simp: cm_wf_def card_gt_0_iff)
qed

lemma cm_wf_erase:
  assumes wf: "cm_wf m"
  shows "cm_wf (snd (erase m key))"
proof (cases "contains m key")
  case True
  let ?i = "get_circular_idx m key"
  have i: "?i \<in> {i. cm_data m i \<noteq> None}"
    using True by (auto simp: contains_def split: option.splits)
  have eq: "{i. ((cm_data m)(?i := None)) i \<noteq> None} = {i. cm_data m i \<noteq> None} - {?i}"
    by auto
  have "card {i. ((cm_data m)(?i := None)) i \<noteq> None} = card {i. cm_data m i \<noteq> None} - 1"
    unfolding eq using i by (rule card_Diff_singleton)
  then show ?thesis
    using wf True by (auto simp: cm_wf_def erase_def get_circular_idx_def split: if_splits)
next
  case False
  then show ?thesis using wf by (simp add: erase_def)
qed

lemma erase_frame [simp]:
  "cm_max_size (snd (erase m key)) = cm_max_size m"
  "cm_data (snd (erase m key)) i =
     (if contains m key \<and> i = get_circular_idx m key then None else cm_data m i)"
  by (auto simp: erase_def)

lemma idx_erase [simp]: "get_circular_idx (snd (erase m k)) key = get_circular_idx m key"
  by (simp add: get_circular_idx_def)

lemma cm_wf_insert:
  assumes wf: "cm_wf m"
  shows "cm_wf (snd (insert_cm m key v))"
proof (cases "cm_data m (get_circular_idx m key)")
  case None
  let ?i = "get_circular_idx m key"
  have eq: "{i. ((cm_data m)(?i := Some (key, v))) i \<noteq> None} = insert ?i {i. cm_data m i \<noteq> None}"
    by auto
  have "card {i. ((cm_data m)(?i := Some (key, v))) i \<noteq> None} = card {i. cm_data m i \<noteq> None} + 1"
    unfolding eq using None finite_slots [OF wf] by simp
  then show ?thesis
    using wf None by (auto simp: cm_wf_def insert_cm_def Let_def get_circular_idx_def split: if_splits)
next
  case (Some kv)
  then show ?thesis using wf by (simp add: insert_cm_def Let_def)
qed

lemma cm_lookup_insert:
  assumes "cm_wf m" "cm_data m (get_circular_idx m key) = None"
  shows "cm_lookup (snd (insert_cm m key v)) = (cm_lookup m)(key \<mapsto> v)"
proof
  fix x
  show "cm_lookup (snd (insert_cm m key v)) x = ((cm_lookup m)(key \<mapsto> v)) x"
    using assms by (auto simp: insert_cm_def Let_def cm_lookup_def split: option.splits if_splits)
qed

lemma cm_wf_overwrite:
  assumes "cm_wf m"
  shows "cm_wf (overwrite m key v)"
  using assms by (auto simp: overwrite_def Let_def intro!: cm_wf_insert cm_wf_erase split: option.splits)

lemma slot_empty_after_erase:
  assumes "cm_wf m" "cm_data m (get_circular_idx m key) = Some (k, v)"
  shows "cm_data (snd (erase m k)) (get_circular_idx m key) = None"
proof -
  have "get_circular_idx m key = get_circular_idx m (fst (k, v))"
    using assms unfolding cm_wf_def by blast
  then have "get_circular_idx m k = get_circular_idx m key"
    by simp
  then show ?thesis using assms(2) by (simp add: contains_def)
qed

lemma cm_lookup_overwrite_evict:
  assumes wf: "cm_wf m"
  shows "cm_lookup (overwrite m key v) =
    (case cm_data m (get_circular_idx m key) of
       None \<Rightarrow> (cm_lookup m)(key \<mapsto> v)
     | Some (k, _) \<Rightarrow> (cm_lookup m)(k := None, key \<mapsto> v))"
proof (cases "cm_data m (get_circular_idx m key)")
  case None
  then show ?thesis by (simp add: overwrite_def cm_lookup_insert [OF wf])
next
  case (Some kv)
  obtain k w where kv: "kv = (k, w)" by (cases kv)
  have e: "cm_data (snd (erase m k)) (get_circular_idx (snd (erase m k)) key) = None"
    using slot_empty_after_erase [OF wf Some [unfolded kv]] by simp
  show ?thesis
    using cm_lookup_insert [OF cm_wf_erase [OF wf] e, of v]
    by (simp add: overwrite_def Some kv cm_lookup_erase [OF wf])
qed

lemma cm_lookup_overwrite:
  assumes "cm_wf m" "slot_free m key"
  shows "cm_lookup (overwrite m key v) = (cm_lookup m)(key \<mapsto> v)"
  using assms
  by (auto simp: cm_lookup_overwrite_evict slot_free_def split: option.splits)

lemma cm_wf_assign:
  assumes "cm_wf m" "contains m key"
  shows "cm_wf (assign_cm m key v)"
proof -
  let ?i = "get_circular_idx m key"
  have "{i. ((cm_data m)(?i := Some (key, v))) i \<noteq> None} = {i. cm_data m i \<noteq> None}"
    using assms(2) by (auto simp: contains_def split: option.splits)
  then show ?thesis
    using assms by (auto simp: cm_wf_def assign_cm_def get_circular_idx_def split: if_splits)
qed

lemma cm_lookup_assign:
  assumes "cm_wf m" "contains m key"
  shows "cm_lookup (assign_cm m key v) = (cm_lookup m)(key \<mapsto> v)"
proof
  fix x
  show "cm_lookup (assign_cm m key v) x = ((cm_lookup m)(key \<mapsto> v)) x"
    using assms by (auto simp: assign_cm_def contains_def cm_lookup_def split: option.splits if_splits)
qed

lemma cm_max_size_ops [simp]:
  "cm_max_size (snd (insert_cm m key v)) = cm_max_size m"
  "cm_max_size (overwrite m key v) = cm_max_size m"
  "cm_max_size (assign_cm m key v) = cm_max_size m"
  "cm_max_size (clear_cm m) = cm_max_size m"
  "cm_max_size (new_circular_map n) = n"
  by (auto simp: insert_cm_def overwrite_def assign_cm_def clear_cm_def new_circular_map_def Let_def
      split: option.splits)

lemma cm_wf_clear: "cm_wf m \<Longrightarrow> cm_wf (clear_cm m)"
  by (auto simp: cm_wf_def clear_cm_def)

lemma cm_lookup_clear [simp]: "cm_lookup (clear_cm m) key = None"
  by (simp add: cm_lookup_def clear_cm_def)

lemma slot_freeI:
  assumes "cm_wf m"
    and "\<And>k. cm_lookup m k \<noteq> None \<Longrightarrow> get_circular_idx m k = get_circular_idx m key \<Longrightarrow> k = key"
  shows "slot_free m key"
proof (cases "cm_data m (get_circular_idx m key)")
  case None
  then show ?thesis by (simp add: slot_free_def)
next
  case (Some kv)
  have idx: "get_circular_idx m key = get_circular_idx m (fst kv)"
    using assms(1) Some unfolding cm_wf_def by blast
  have "cm_lookup m (fst kv) \<noteq> None"
    using Some idx by (cases kv) (simp add: cm_lookup_def)
  then have "fst kv = key" using assms(2) idx by metis
  with Some show ?thesis by (cases kv) (simp add: slot_free_def)
qed

lemma cm_count_le: "cm_wf m \<Longrightarrow> cm_count m \<le> cm_max_size m"
proof -
  assume wf: "cm_wf m"
  have "{i. cm_data m i \<noteq> None} \<subseteq> {..< cm_max_size m}"
    using wf idx_less [OF wf] by (auto simp: cm_wf_def)
  then have "card {i. cm_data m i \<noteq> None} \<le> card {..< cm_max_size m}"
    by (rule card_mono [rotated]) simp
  then show ?thesis using wf by (simp add: cm_wf_def)
qed

section \<open>The contract of a window of sequence numbers\<close>

text \<open>
  What the RLC entities rely on: a store of objects by sequence number whose operations act on the
  abstract view as updates of a partial function, provided the slot of a new key is not taken by
  another key.
\<close>

locale sn_store =
  fixes inv :: "'s \<Rightarrow> bool"
    and fresh :: "'s \<Rightarrow> u32 \<Rightarrow> bool"
    and look :: "'s \<Rightarrow> u32 \<Rightarrow> 'v option"
    and has :: "'s \<Rightarrow> u32 \<Rightarrow> bool"
    and get :: "'s \<Rightarrow> u32 \<Rightarrow> 'v res"
    and add :: "'s \<Rightarrow> u32 \<Rightarrow> 'v \<Rightarrow> 's res"
    and put :: "'s \<Rightarrow> u32 \<Rightarrow> 'v \<Rightarrow> 's"
    and rem :: "'s \<Rightarrow> u32 \<Rightarrow> 's res"
  assumes has_look: "has s k \<longleftrightarrow> look s k \<noteq> None"
    and get_look: "look s k = Some v \<Longrightarrow> get s k = Inr v"
    and get_none: "look s k = None \<Longrightarrow> \<not> is_ok (get s k)"
    and add_new: "inv s \<Longrightarrow> fresh s k \<Longrightarrow> look s k = None \<Longrightarrow>
           \<exists>s'. add s k v = Inr s' \<and> inv s' \<and> look s' = (look s)(k \<mapsto> v)"
    and add_dup: "look s k \<noteq> None \<Longrightarrow> \<not> is_ok (add s k v)"
    and put_old: "inv s \<Longrightarrow> look s k \<noteq> None \<Longrightarrow>
           inv (put s k v) \<and> look (put s k v) = (look s)(k \<mapsto> v)"
    and rem_old: "inv s \<Longrightarrow> look s k \<noteq> None \<Longrightarrow>
           \<exists>s'. rem s k = Inr s' \<and> inv s' \<and> look s' = (look s)(k := None)"
    and rem_none: "look s k = None \<Longrightarrow> \<not> is_ok (rem s k)"
begin

lemma get_ok_iff: "is_ok (get s k) \<longleftrightarrow> has s k"
  using get_none [of s k] get_look [of s k] has_look [of s k] by fastforce

lemma add_ok_iff: "inv s \<Longrightarrow> fresh s k \<Longrightarrow> is_ok (add s k v) \<longleftrightarrow> \<not> has s k"
  using add_dup [of s k v] add_new [of s k v] has_look [of s k] by fastforce

lemma rem_ok_iff: "inv s \<Longrightarrow> is_ok (rem s k) \<longleftrightarrow> has s k"
  using rem_old [of s k] rem_none [of s k] has_look [of s k] by fastforce

lemma add_then_get: "inv s \<Longrightarrow> fresh s k \<Longrightarrow> add s k v = Inr s' \<Longrightarrow> get s' k = Inr v"
  using add_new [of s k v] add_dup [of s k v] get_look [of s' k v] by fastforce

lemma add_then_rem:
  assumes "inv s" "fresh s k" "add s k v = Inr s'"
  shows "\<exists>s''. rem s' k = Inr s'' \<and> look s'' = look s"
proof -
  have "look s k = None" using add_dup [of s k v] assms(3) by (cases "look s k") auto
  with add_new [OF assms(1,2) this, of v] assms(3)
  have "inv s'" and l: "look s' = (look s)(k \<mapsto> v)" by auto
  then obtain s'' where "rem s' k = Inr s''" "look s'' = (look s')(k := None)"
    using rem_old [of s' k] by auto
  then show ?thesis using l \<open>look s k = None\<close> by (auto simp: fun_eq_iff)
qed

end

lemma add_sn_new:
  assumes "cm_wf w" "slot_free w sn" "cm_lookup w sn = None"
  shows "add_sn w sn v = Inr (overwrite w sn v)"
  using assms(3) by (simp add: add_sn_def has_sn_lookup)

lemma remove_sn_old: "cm_lookup w sn \<noteq> None \<Longrightarrow> remove_sn w sn = Inr (snd (erase w sn))"
  by (simp add: remove_sn_def has_sn_lookup)

interpretation win: sn_store cm_wf slot_free cm_lookup has_sn at_cm add_sn assign_cm remove_sn
proof (unfold_locales, goal_cases)
  case (1 s k) then show ?case by (rule has_sn_lookup)
next
  case (2 s k v) then show ?case by (rule at_cm_Some)
next
  case (3 s k) then show ?case by (simp add: at_cm_ok contains_lookup)
next
  case (4 s k v) then show ?case
    by (simp add: add_sn_new cm_wf_overwrite cm_lookup_overwrite)
next
  case (5 s k v) then show ?case by (simp add: add_sn_def has_sn_lookup)
next
  case (6 s k v) then show ?case by (simp add: cm_wf_assign cm_lookup_assign contains_lookup)
next
  case (7 s k) then show ?case by (simp add: remove_sn_old cm_wf_erase cm_lookup_erase)
next
  case (8 s k) then show ?case by (simp add: remove_sn_def has_sn_lookup)
qed

section \<open>Keys of one window never collide\<close>

text \<open>
  The windows are allocated with the window size of the SN length, half of the ring. Keys whose
  distance from a common base is below the capacity fall into different slots.
\<close>

context sn_ring
begin

lemma window_slots_inj:
  assumes "j \<le> k" "dist b x < 2 ^ j" "dist b y < 2 ^ j" "x < m" "y < m"
    and "unat x mod 2 ^ j = unat y mod 2 ^ j"
  shows "x = y"
proof -
  have d: "int N = 2 ^ k" by (simp add: N_def)
  have dvd: "(2::int) ^ j dvd int N" unfolding d using assms(1) by (rule le_imp_power_dvd)
  have eq: "int (dist b z) mod 2 ^ j = (int (unat z) - int (unat b)) mod 2 ^ j" for z
    unfolding dist_int by (rule mod_mod_cancel [OF dvd])
  have "int (unat x) mod 2 ^ j = int (unat y) mod 2 ^ j"
    using assms(6) by (metis of_nat_mod of_nat_numeral of_nat_power)
  then have "int (dist b x) mod 2 ^ j = int (dist b y) mod 2 ^ j"
    unfolding eq by (rule mod_diff_cong) simp
  then have "int (dist b x mod 2 ^ j) = int (dist b y mod 2 ^ j)"
    by (simp add: zmod_int)
  then have "dist b x = dist b y" using assms(2,3) by simp
  then show ?thesis using assms(4,5) by (rule dist_inj [rotated 2])
qed

lemma slot_free_window:
  assumes wf: "cm_wf w" and sz: "cm_max_size w = 2 ^ j" "j \<le> k"
    and key: "key < m" "dist b key < 2 ^ j"
    and keys: "\<And>x. cm_lookup w x \<noteq> None \<Longrightarrow> x < m \<and> dist b x < 2 ^ j"
  shows "slot_free w key"
  using wf
proof (rule slot_freeI)
  fix x
  assume "cm_lookup w x \<noteq> None" and idx: "get_circular_idx w x = get_circular_idx w key"
  then have "x < m" "dist b x < 2 ^ j" using keys by auto
  then show "x = key"
    using window_slots_inj [OF sz(2) _ key(2) _ key(1)] idx by (simp add: idx_mod [OF sz(1)])
qed

end

end
