(* ===== verification/Rlc_Types.thy ===== *)
theory Rlc_Types
  imports Circular_Map
begin

text \<open>
  The data that the RLC modes share: sequence number lengths, header fields and configurations
  (include/srsran/rlc/rlc_config.h), the buffer state that is reported to the MAC
  (include/srsran/rlc/rlc_buffer_state.h), the PDCP SN peek used for SDU discard
  (include/srsran/pdcp/pdcp_sn_util.h), and the bit lemmas that the PDU codecs rest on.

  The locale \<open>sn_ring\<close> of the prelude is interpreted here on the cardinalities that the entities
  compute with: \<open>um_ring\<close> for the UM and \<open>am_ring\<close> for the AM lengths.
\<close>

unbundle bit_operations_syntax

section \<open>Sequence number lengths\<close>

datatype rlc_um_sn_size = Size6bits | Size12bits

datatype rlc_am_sn_size = Am_Size12bits | Am_Size18bits

fun to_number_um_sn :: "rlc_um_sn_size \<Rightarrow> nat" where
  "to_number_um_sn Size6bits = 6"
| "to_number_um_sn Size12bits = 12"

fun to_number_am_sn :: "rlc_am_sn_size \<Rightarrow> nat" where
  "to_number_am_sn Am_Size12bits = 12"
| "to_number_am_sn Am_Size18bits = 18"

definition cardinality :: "nat \<Rightarrow> u32" where
  "cardinality sn_size = push_bit sn_size 1"

definition window_size :: "nat \<Rightarrow> u32" where
  "window_size sn_size = cardinality (sn_size - 1)"

interpretation um_ring: sn_ring "to_number_um_sn s" "cardinality (to_number_um_sn s)" for s
  by (unfold_locales; cases s) (simp_all add: cardinality_def)

interpretation am_ring: sn_ring "to_number_am_sn s" "cardinality (to_number_am_sn s)" for s
  by (unfold_locales; cases s) (simp_all add: cardinality_def)

lemma cardinality_um: "cardinality (to_number_um_sn s) = (case s of Size6bits \<Rightarrow> 64 | Size12bits \<Rightarrow> 4096)"
  by (cases s) (simp_all add: cardinality_def push_bit_eq_mult)

lemma cardinality_am:
  "cardinality (to_number_am_sn s) = (case s of Am_Size12bits \<Rightarrow> 4096 | Am_Size18bits \<Rightarrow> 262144)"
  by (cases s) (simp_all add: cardinality_def push_bit_eq_mult)

lemma window_size_um: "window_size (to_number_um_sn s) = (case s of Size6bits \<Rightarrow> 32 | Size12bits \<Rightarrow> 2048)"
  by (cases s) (simp_all add: window_size_def cardinality_def push_bit_eq_mult)

lemma window_size_am:
  "window_size (to_number_am_sn s) = (case s of Am_Size12bits \<Rightarrow> 2048 | Am_Size18bits \<Rightarrow> 131072)"
  by (cases s) (simp_all add: window_size_def cardinality_def push_bit_eq_mult)

section \<open>Header fields\<close>

datatype rlc_dc_field = Dc_Control | Dc_Data

fun to_number_dc :: "rlc_dc_field \<Rightarrow> u8" where
  "to_number_dc Dc_Control = 0"
| "to_number_dc Dc_Data = 1"

definition dc_of_number :: "u8 \<Rightarrow> rlc_dc_field" where
  "dc_of_number b = (if b = 0 then Dc_Control else Dc_Data)"

datatype rlc_si_field = Full_Sdu | First_Segment | Last_Segment | Middle_Segment

fun to_number_si :: "rlc_si_field \<Rightarrow> u16" where
  "to_number_si Full_Sdu = 0"
| "to_number_si First_Segment = 1"
| "to_number_si Last_Segment = 2"
| "to_number_si Middle_Segment = 3"

text \<open>The cast from the two bits that the header parsers mask out.\<close>

definition si_of_number :: "u8 \<Rightarrow> rlc_si_field" where
  "si_of_number b = (if b = 0 then Full_Sdu else if b = 1 then First_Segment
     else if b = 2 then Last_Segment else Middle_Segment)"

fun has_so :: "rlc_si_field \<Rightarrow> bool" where
  "has_so Last_Segment = True"
| "has_so Middle_Segment = True"
| "has_so Full_Sdu = False"
| "has_so First_Segment = False"

lemma has_so_iff: "has_so si \<longleftrightarrow> si = Last_Segment \<or> si = Middle_Segment"
  by (cases si) simp_all

lemma si_of_to_number [simp]: "si_of_number (ucast (to_number_si si)) = si"
  by (cases si) (simp_all add: si_of_number_def)

section \<open>Configurations\<close>

record rlc_rx_um_config =
  rxum_sn_field_length :: rlc_um_sn_size
  rxum_t_reassembly :: int

record rlc_rx_am_config =
  rxam_sn_field_length :: rlc_am_sn_size
  rxam_t_reassembly :: int
  rxam_t_status_prohibit :: int
  rxam_max_sn_per_status :: "u32 option"

datatype pdcp_sn_size = Pdcp_Invalid | Pdcp_Size12bits | Pdcp_Size18bits

record rlc_tx_um_config =
  txum_sn_field_length :: rlc_um_sn_size
  txum_pdcp_sn_len :: pdcp_sn_size
  txum_queue_size :: nat
  txum_queue_size_bytes :: nat

record rlc_tx_am_config =
  txam_sn_field_length :: rlc_am_sn_size
  txam_pdcp_sn_len :: pdcp_sn_size
  txam_t_poll_retx :: int
  txam_max_retx_thresh :: u32
  txam_poll_pdu :: int
  txam_poll_byte :: int
  txam_queue_size :: nat
  txam_queue_size_bytes :: nat
  txam_max_window :: u32

record rlc_tx_tm_config =
  txtm_queue_size :: nat
  txtm_queue_size_bytes :: nat

section \<open>Buffer state\<close>

text \<open>\<open>hol_toa\<close> is the time of arrival of the head-of-line SDU, as a count of clock ticks.\<close>

record rlc_buffer_state =
  pending_bytes :: nat
  hol_toa :: "nat option"

section \<open>Timers\<close>

text \<open>
  A \<open>unique_timer\<close> (include/srsran/support/timers.h, lib/support/timers.cpp) as its owner sees it: whether
  a duration was set and whether it is running. \<open>run\<close> asserts that a duration was set; an expiry is an
  event that finds the timer running and leaves it stopped before the callback is invoked.
\<close>

record unique_timer =
  timer_set :: bool
  is_running :: bool

definition timer_run :: "unique_timer \<Rightarrow> unique_timer res" where
  "timer_run t =
     bind_res (srsran_assert (timer_set t) ''Calling timer::run with invalid duration'')
       (\<lambda>_. Inr (t\<lparr>is_running := True\<rparr>))"

definition timer_stop :: "unique_timer \<Rightarrow> unique_timer" where
  "timer_stop t = t\<lparr>is_running := False\<rparr>"

definition new_timer :: "int \<Rightarrow> unique_timer" where
  "new_timer duration = \<lparr>timer_set = (0 < duration), is_running = False\<rparr>"

lemma timer_run_ok [simp]: "timer_set t \<Longrightarrow> timer_run t = Inr (t\<lparr>is_running := True\<rparr>)"
  by (simp add: timer_run_def srsran_assert_def)

lemma timer_run_fault: "is_ok (timer_run t) \<longleftrightarrow> timer_set t"
  by (simp add: timer_run_def srsran_assert_def)

lemma timer_simps [simp]:
  "timer_set (timer_stop t) = timer_set t" "is_running (timer_stop t) = False"
  "timer_set (new_timer d) = (0 < d)" "is_running (new_timer d) = False"
  by (simp_all add: timer_stop_def new_timer_def)

section \<open>Metrics and deliveries of a receiver\<close>

text \<open>
  What a receiving entity does to its environment: SDUs handed to the upper layer, and the counters of
  \<open>rlc_rx_metrics_container\<close> (lib/rlc/rlc_rx_metrics_container.h).
\<close>

datatype rlc_rx_action =
    On_New_Sdu byte_buffer
  | Metrics_Add_Sdus nat nat
  | Metrics_Add_Pdus nat nat
  | Metrics_Add_Lost_Pdus nat
  | Metrics_Add_Malformed_Pdus nat
  | Metrics_Add_Ctrl_Pdus nat nat
  | On_Status_Report_Changed

fun delivered :: "rlc_rx_action list \<Rightarrow> byte_buffer list" where
  "delivered [] = []"
| "delivered (On_New_Sdu sdu # as) = sdu # delivered as"
| "delivered (_ # as) = delivered as"

lemma delivered_append [simp]: "delivered (xs @ ys) = delivered xs @ delivered ys"
  by (induction xs rule: delivered.induct) auto

section \<open>Bit lemmas of the PDU codecs\<close>

text \<open>
  The masks of the sources as \<open>take_bit\<close>, and the bits of a number below a power of two. With these,
  two expressions over shifts and masks are compared bit by bit (\<open>bit_word_eqI\<close>, \<open>bit_simps\<close>).
\<close>

named_theorems mask_simps \<open>hexadecimal masks as \<open>take_bit\<close>\<close>

lemma and_masks [mask_simps]:
  fixes x :: "'a::len word"
  shows "x AND 3 = take_bit 2 x" "x AND 7 = take_bit 3 x"
    "x AND 15 = take_bit 4 x" "x AND 31 = take_bit 5 x" "x AND 63 = take_bit 6 x"
    "x AND 127 = take_bit 7 x" "x AND 255 = take_bit 8 x"
  by (simp_all add: take_bit_eq_mask mask_eq_exp_minus_1)

lemma and_shifted_mask:
  fixes x :: "'a::len word"
  shows "x AND push_bit k (mask n) = push_bit k (take_bit n (drop_bit k x))"
  by (rule bit_word_eqI) (auto simp: bit_simps)

lemma and_mid_masks [mask_simps]:
  fixes x :: "'a::len word"
  shows "x AND 12 = push_bit 2 (take_bit 2 (drop_bit 2 x))"
    "x AND 240 = push_bit 4 (take_bit 4 (drop_bit 4 x))"
    "x AND 252 = push_bit 2 (take_bit 6 (drop_bit 2 x))"
    "x AND 192 = push_bit 6 (take_bit 2 (drop_bit 6 x))"
  by (simp_all flip: and_shifted_mask) (simp_all add: mask_eq_exp_minus_1 push_bit_eq_mult)

lemma and_single_bit:
  fixes x :: "'a::len word"
  shows "x AND 2 \<noteq> 0 \<longleftrightarrow> bit x 1" "x AND 4 \<noteq> 0 \<longleftrightarrow> bit x 2" "x AND 8 \<noteq> 0 \<longleftrightarrow> bit x 3"
    "x AND 16 \<noteq> 0 \<longleftrightarrow> bit x 4" "x AND 32 \<noteq> 0 \<longleftrightarrow> bit x 5" "x AND 128 \<noteq> 0 \<longleftrightarrow> bit x 7"
  using and_exp_eq_0_iff_not_bit [of x 1] and_exp_eq_0_iff_not_bit [of x 2]
    and_exp_eq_0_iff_not_bit [of x 3] and_exp_eq_0_iff_not_bit [of x 4]
    and_exp_eq_0_iff_not_bit [of x 5] and_exp_eq_0_iff_not_bit [of x 7]
  by simp_all

lemma unat_exp:
  assumes "k < LENGTH('a)"
  shows "unat (2 ^ k :: 'a::len word) = 2 ^ k"
proof -
  have "unat (push_bit k 1 :: 'a word) = take_bit LENGTH('a) (push_bit k 1)"
    by (simp only: unsigned_push_bit_eq) simp
  also have "\<dots> = 2 ^ k"
    using assms by (simp add: take_bit_nat_eq_self)
  finally show ?thesis by (simp add: push_bit_eq_mult)
qed

lemma bit_bounded:
  fixes x :: "'a::len word"
  assumes "x < 2 ^ k" "k < LENGTH('a)" "bit x n"
  shows "n < k"
proof (rule ccontr)
  assume "\<not> n < k"
  have "unat x < 2 ^ k"
    using assms(1,2) by (simp add: word_less_nat_alt unat_exp)
  then have "take_bit k (unat x) = unat x"
    by (simp add: take_bit_nat_eq_self)
  moreover have "bit (unat x) n" using assms(3) by (simp add: bit_unsigned_iff)
  ultimately have "bit (take_bit k (unat x)) n" by simp
  then show False using \<open>\<not> n < k\<close> by (simp add: bit_take_bit_iff)
qed

lemma si_bits:
  "take_bit 2 (to_number_si si) = to_number_si si"
  by (cases si) simp_all

lemma bit_si: "bit (to_number_si si) n \<Longrightarrow> n < 2"
  using si_bits [of si] by (metis bit_take_bit_iff)

lemma bit_dc: "bit (to_number_dc dc) n \<Longrightarrow> n < 1"
  by (cases dc) (simp_all add: bit_1_iff)

lemma bit_si_high: "2 \<le> n \<Longrightarrow> \<not> bit (to_number_si si) n"
  using bit_si [of si n] by auto

lemma bit_dc_high: "1 \<le> n \<Longrightarrow> \<not> bit (to_number_dc dc) n"
  using bit_dc [of dc n] by auto

lemma dc_of_to_number [simp]: "dc_of_number (to_number_dc dc) = dc"
  by (cases dc) (simp_all add: dc_of_number_def)

text \<open>A 16 bit field written as two bytes, upper byte first, and read back.\<close>

lemma join_u16_bytes:
  "push_bit 8 (ucast (ucast (drop_bit 8 x) AND 255 :: u8)) OR ucast (ucast (x AND 255) AND 255 :: u8) = x"
  for x :: u16
  by (rule bit_word_eqI) (auto simp: mask_simps bit_simps)

end
