(* ===== verification/Pdcp_Sn.thy ===== *)
theory Pdcp_Sn
  imports Rlc_Types
begin

text \<open>
  Reading the PDCP sequence number from the front of an RLC SDU (include/srsran/pdcp/pdcp_sn_util.h),
  which the transmitting entities use as the key for SDU discard, and the bit decoder that it is
  written with (lib/support/bit_encoding.cpp).

  A \<open>bit_decoder\<close> holds the bytes from its iterator on and the number of bits of the first one that were
  read. Shown: the value that is returned, as a function of the header bytes, on every branch.
\<close>

unbundle bit_operations_syntax

record bit_decoder =
  bd_rest :: byte_buffer
  bd_offset :: nat

function unpack_loop :: "'a::len word \<Rightarrow> nat \<Rightarrow> bit_decoder \<Rightarrow> bool \<times> 'a word \<times> bit_decoder" where
  "unpack_loop val n_bits d =
     (if n_bits = 0 then (True, val, d)
      else case bd_rest d of
        [] \<Rightarrow> (False, val, d)
      | b # rest \<Rightarrow>
          if 8 - bd_offset d > n_bits then
            (let mask = push_bit (8 - bd_offset d) 1 - push_bit (8 - bd_offset d - n_bits) 1 :: u8
             in unpack_loop (val + ucast (drop_bit (8 - bd_offset d - n_bits) (b AND mask))) 0
                  (d\<lparr>bd_offset := bd_offset d + n_bits\<rparr>))
          else
            (let mask = push_bit (8 - bd_offset d) 1 - 1 :: u8
             in unpack_loop (val + push_bit (n_bits + bd_offset d - 8) (ucast (b AND mask)))
                  (n_bits - (8 - bd_offset d)) \<lparr>bd_rest = rest, bd_offset = 0\<rparr>))"
  by auto
termination
  by (relation "measure (\<lambda>(_, n, d). 2 * n + (if bd_offset d = 0 then 0 else 1))") auto

declare unpack_loop.simps [simp del]

definition unpack :: "nat \<Rightarrow> bit_decoder \<Rightarrow> (bool \<times> 'a::len word \<times> bit_decoder) res" where
  "unpack n_bits d =
     bind_res (srsran_assert (n_bits \<le> LENGTH('a)) ''unpack_bits() only supports up to sizeof(T) * 8 bits'')
       (\<lambda>_. Inr (unpack_loop 0 n_bits d))"

text \<open>
  The D/C field, the reserved bits and the SN; \<open>is_srb\<close> tells the bearer type. The two reads of the
  \<open>switch\<close> are both executed, whether or not the first one succeeds.
\<close>

definition get_pdcp_sn_fields :: "nat \<Rightarrow> nat \<Rightarrow> bit_decoder \<Rightarrow> u32 option res" where
  "get_pdcp_sn_fields n_reserved n_sn d =
     bind_res (unpack n_reserved d) (\<lambda>(ok1, reserved :: u8, d).
     bind_res (unpack n_sn d) (\<lambda>(ok2, pdcp_sn, d).
       Inr (if \<not> (ok1 \<and> ok2) then None else if reserved \<noteq> 0 then None else Some pdcp_sn)))"

definition get_pdcp_sn :: "byte_buffer \<Rightarrow> pdcp_sn_size \<Rightarrow> bool \<Rightarrow> u32 option res" where
  "get_pdcp_sn pdcp_pdu pdcp_sn_len is_srb =
     (if pdcp_pdu = [] then Inr None
      else if is_srb \<and> pdcp_sn_len \<noteq> Pdcp_Size12bits then Inr None
      else
        bind_res (unpack 1 \<lparr>bd_rest = pdcp_pdu, bd_offset = 0\<rparr>) (\<lambda>(read_ok, dc_field :: u8, d).
          if \<not> read_ok then Inr None
          else if \<not> is_srb \<and> dc_field = 0 then Inr None
          else if is_srb \<and> dc_field = 1 then Inr None
          else
            (case pdcp_sn_len of
               Pdcp_Size12bits \<Rightarrow> get_pdcp_sn_fields 3 12 d
             | Pdcp_Size18bits \<Rightarrow> get_pdcp_sn_fields 5 18 d
             | Pdcp_Invalid \<Rightarrow> Inr None)))"

lemma unpack_loop_zero [simp]: "unpack_loop val 0 d = (True, val, d)"
  by (subst unpack_loop.simps) simp

lemma unpack_loop_end [simp]: "0 < n \<Longrightarrow> unpack_loop val n \<lparr>bd_rest = [], bd_offset = k\<rparr> = (False, val, \<lparr>bd_rest = [], bd_offset = k\<rparr>)"
  by (subst unpack_loop.simps) simp

lemma unpack_loop_within:
  "0 < n \<Longrightarrow> n < 8 - k \<Longrightarrow>
     unpack_loop val n \<lparr>bd_rest = b # rest, bd_offset = k\<rparr> =
       (True, val + ucast (drop_bit (8 - k - n) (b AND (push_bit (8 - k) 1 - push_bit (8 - k - n) 1))),
        \<lparr>bd_rest = b # rest, bd_offset = k + n\<rparr>)"
  by (subst unpack_loop.simps) (simp add: Let_def)

lemma unpack_loop_byte:
  "8 - k \<le> n \<Longrightarrow> 0 < n \<Longrightarrow>
     unpack_loop val n \<lparr>bd_rest = b # rest, bd_offset = k\<rparr> =
       unpack_loop (val + push_bit (n + k - 8) (ucast (b AND (push_bit (8 - k) 1 - 1))))
         (n - (8 - k)) \<lparr>bd_rest = rest, bd_offset = 0\<rparr>"
  by (subst unpack_loop.simps) (simp add: Let_def)

lemmas unpack_steps = unpack_loop_within unpack_loop_byte unpack_loop_end

text \<open>The D/C bit, and the value of the SN fields of the first bytes.\<close>

definition pdcp_sn_of_12bit :: "u8 \<Rightarrow> u8 \<Rightarrow> u32" where
  "pdcp_sn_of_12bit b0 b1 = push_bit 8 (ucast (b0 AND 15)) OR ucast b1"

definition pdcp_sn_of_18bit :: "u8 \<Rightarrow> u8 \<Rightarrow> u8 \<Rightarrow> u32" where
  "pdcp_sn_of_18bit b0 b1 b2 = push_bit 16 (ucast (b0 AND 3)) OR push_bit 8 (ucast b1) OR ucast b2"

lemma add_as_or:
  fixes x y :: "'a::len word"
  shows "x AND y = 0 \<Longrightarrow> x + y = x OR y"
  by (simp add: disjunctive_add_eq_or)

lemma sn_12bit_sum:
  "push_bit 8 (ucast (b0 AND 15)) + ucast b1 = pdcp_sn_of_12bit b0 b1" for b0 b1 :: u8
  unfolding pdcp_sn_of_12bit_def
  by (rule add_as_or, rule bit_word_eqI) (auto simp: bit_simps mask_simps dest: bit_imp_le_length)

lemma sn_18bit_sum:
  "push_bit 16 (ucast (b0 AND 3)) + push_bit 8 (ucast b1) + ucast b2 = pdcp_sn_of_18bit b0 b1 b2"
  for b0 b1 b2 :: u8
proof -
  have "push_bit 16 (ucast (b0 AND 3)) + push_bit 8 (ucast b1) =
      (push_bit 16 (ucast (b0 AND 3)) OR push_bit 8 (ucast b1) :: u32)"
    by (rule add_as_or, rule bit_word_eqI) (auto simp: bit_simps mask_simps dest: bit_imp_le_length)
  moreover have "(push_bit 16 (ucast (b0 AND 3)) OR push_bit 8 (ucast b1) :: u32) + ucast b2 =
      push_bit 16 (ucast (b0 AND 3)) OR push_bit 8 (ucast b1) OR ucast b2"
    by (subst add_as_or) (rule bit_word_eqI, auto simp: bit_simps mask_simps or.assoc dest: bit_imp_le_length)
  ultimately show ?thesis by (simp add: pdcp_sn_of_18bit_def)
qed

lemma unpack_dc:
  "unpack (Suc 0) \<lparr>bd_rest = b # rest, bd_offset = 0\<rparr> =
     Inr (True, of_bool (bit b 7) :: u8, \<lparr>bd_rest = b # rest, bd_offset = Suc 0\<rparr>)"
proof -
  have "ucast (drop_bit 7 (b AND 128)) = (of_bool (bit b 7) :: u8)"
    by (rule bit_word_eqI) (auto simp: bit_simps bit_numeral_iff)
  then show ?thesis
    by (simp add: unpack_def srsran_assert_def unpack_loop_within)
qed

lemma and_255: "b AND 255 = b" for b :: u8
  by (rule bit_word_eqI) (simp add: mask_simps bit_simps)

lemma unpack_fields_12:
  "get_pdcp_sn_fields 3 12 \<lparr>bd_rest = b0 # rest, bd_offset = Suc 0\<rparr> =
     Inr (case rest of [] \<Rightarrow> None
          | b1 # _ \<Rightarrow> if drop_bit 4 b0 AND 7 = 0 then Some (pdcp_sn_of_12bit b0 b1) else None)"
  by (cases rest)
    (simp_all add: get_pdcp_sn_fields_def unpack_def srsran_assert_def unpack_steps and_255 sn_12bit_sum)

lemma unpack_fields_18:
  "get_pdcp_sn_fields 5 18 \<lparr>bd_rest = b0 # rest, bd_offset = Suc 0\<rparr> =
     Inr (case rest of
            b1 # b2 # _ \<Rightarrow> if drop_bit 2 b0 AND 31 = 0 then Some (pdcp_sn_of_18bit b0 b1 b2) else None
          | _ \<Rightarrow> None)"
  by (cases rest; cases "tl rest")
    (simp_all add: get_pdcp_sn_fields_def unpack_def srsran_assert_def unpack_steps and_255 sn_18bit_sum)

text \<open>
  The sequence number that is read from the front of a DRB PDU. There is none for a control PDU
  (D/C bit clear), for a PDU that is shorter than its header and for reserved bits that are set; otherwise
  it is the 12 bit field of the first two bytes or the 18 bit field of the first three. No call fails an
  assertion.
\<close>

theorem get_pdcp_sn_drb:
  "get_pdcp_sn pdu sz False =
     Inr (case (sz, pdu) of
            (Pdcp_Size12bits, b0 # b1 # _) \<Rightarrow>
              if bit b0 7 \<and> drop_bit 4 b0 AND 7 = 0 then Some (pdcp_sn_of_12bit b0 b1) else None
          | (Pdcp_Size18bits, b0 # b1 # b2 # _) \<Rightarrow>
              if bit b0 7 \<and> drop_bit 2 b0 AND 31 = 0 then Some (pdcp_sn_of_18bit b0 b1 b2) else None
          | _ \<Rightarrow> None)"
  by (cases pdu; cases sz)
    (auto simp: get_pdcp_sn_def unpack_dc unpack_fields_12 unpack_fields_18 split: list.splits)

lemma get_pdcp_sn_ok: "\<exists>r. get_pdcp_sn pdu sz is_srb = Inr r"
  by (cases pdu; cases sz) (auto simp: get_pdcp_sn_def unpack_dc unpack_fields_12 unpack_fields_18)

lemma take_bit_self_less:
  fixes x :: u32
  assumes "take_bit k x = x" "k < 32"
  shows "x < 2 ^ k"
proof -
  have "unat x = take_bit k (unat x)" using assms(1) by (metis unsigned_take_bit_eq)
  then have "unat x < 2 ^ k" by (metis take_bit_nat_less_exp)
  then show ?thesis using assms(2) by (simp add: word_less_nat_alt unat_exp)
qed

lemma pdcp_sn_bound:
  "pdcp_sn_of_12bit b0 b1 < 2 ^ 12" "pdcp_sn_of_18bit b0 b1 b2 < 2 ^ 18"
proof -
  have "take_bit 12 (pdcp_sn_of_12bit b0 b1) = pdcp_sn_of_12bit b0 b1"
    by (rule bit_word_eqI) (auto simp: pdcp_sn_of_12bit_def bit_simps mask_simps dest: bit_imp_le_length)
  then show "pdcp_sn_of_12bit b0 b1 < 2 ^ 12"
    by (rule take_bit_self_less) simp
  have "take_bit 18 (pdcp_sn_of_18bit b0 b1 b2) = pdcp_sn_of_18bit b0 b1 b2"
    by (rule bit_word_eqI) (auto simp: pdcp_sn_of_18bit_def bit_simps mask_simps dest: bit_imp_le_length)
  then show "pdcp_sn_of_18bit b0 b1 b2 < 2 ^ 18"
    by (rule take_bit_self_less) simp
qed

text \<open>The sequence numbers that are read never equal the marks that the SDU queue writes into its slots.\<close>

lemma get_pdcp_sn_bound:
  assumes "get_pdcp_sn pdu sz is_srb = Inr (Some sn)"
  shows "sn < 2 ^ 18"
proof -
  have 12: "pdcp_sn_of_12bit b0 b1 < 2 ^ 18" for b0 b1
    using pdcp_sn_bound(1) by (rule less_trans) simp
  show ?thesis
    using assms 12 pdcp_sn_bound(2)
    by (cases pdu; cases sz)
      (auto simp: get_pdcp_sn_def unpack_dc unpack_fields_12 unpack_fields_18 split: list.splits if_splits)
qed

end
