(* ===== verification/Security_Engine.thy ===== *)
theory Security_Engine
  imports Prelude
begin

text \<open>
  The security engine of the PDCP entities (include/srsran/security/security.h, security_engine.h,
  lib/security/security_engine_impl.cpp) with its integrity and ciphering engines
  (lib/security/integrity_engine_generic.cpp, integrity_engine_nia2_cmac.cpp,
  lib/security/ciphering_engine_nea1.cpp, ciphering_engine_nea2.cpp, ciphering_engine_nea3.cpp).

  The cryptographic functions themselves, which for NEA2 and NIA2 are calls into the mbedTLS library, are the
  fields of a parameter, the record \<open>crypto_prims\<close>: \<open>nia1\<close>, \<open>nia2\<close> and \<open>nia3\<close> give the MAC of a message,
  \<open>nea1\<close>, \<open>nea2\<close> and \<open>nea3\<close> cipher it; the two that call the library may report a failure. What is relied on
  of them is \<open>crypto_ok\<close>: a MAC has four bytes, and a stream cipher keeps the length of a message and undoes
  itself. \<open>append_ok\<close> says whether the buffer pool can extend a buffer.

  Shown: what the transmitting side protects and ciphers the receiving side deciphers, verifies and returns
  unchanged, for every combination of algorithms; and a verified message carries the MAC of its content.
\<close>

section \<open>Configuration\<close>

datatype ciphering_algorithm = Nea0 | Nea1 | Nea2 | Nea3

datatype integrity_algorithm = Nia0 | Nia1 | Nia2 | Nia3

datatype security_direction = Uplink | Downlink

datatype integrity_enabled = Integrity_Off | Integrity_On

datatype ciphering_enabled = Ciphering_Off | Ciphering_On

datatype sec_domain = Domain_Rrc | Domain_Up

definition sec_mac_len :: nat where
  "sec_mac_len = 4"

record sec_128_as_config =
  domain :: sec_domain
  k_128_int :: "byte_buffer option"
  k_128_enc :: byte_buffer
  integ_algo :: "integrity_algorithm option"
  cipher_algo :: ciphering_algorithm

datatype security_error = Buffer_Failure | Engine_Failure | Integrity_Failure | Ciphering_Failure

record security_result =
  result_buf :: "security_error + byte_buffer"
  result_count :: u32

section \<open>The cryptographic functions\<close>

text \<open>Key, COUNT, bearer, direction and message, in the order of the sources.\<close>

record crypto_prims =
  nia1 :: "byte_buffer \<Rightarrow> u32 \<Rightarrow> u8 \<Rightarrow> security_direction \<Rightarrow> byte_buffer \<Rightarrow> byte_buffer"
  nia2 :: "byte_buffer \<Rightarrow> u32 \<Rightarrow> u8 \<Rightarrow> security_direction \<Rightarrow> byte_buffer \<Rightarrow> security_error + byte_buffer"
  nia3 :: "byte_buffer \<Rightarrow> u32 \<Rightarrow> u8 \<Rightarrow> security_direction \<Rightarrow> byte_buffer \<Rightarrow> byte_buffer"
  nea1 :: "byte_buffer \<Rightarrow> u32 \<Rightarrow> u8 \<Rightarrow> security_direction \<Rightarrow> byte_buffer \<Rightarrow> byte_buffer"
  nea2 :: "byte_buffer \<Rightarrow> u32 \<Rightarrow> u8 \<Rightarrow> security_direction \<Rightarrow> byte_buffer \<Rightarrow> byte_buffer option"
  nea3 :: "byte_buffer \<Rightarrow> u32 \<Rightarrow> u8 \<Rightarrow> security_direction \<Rightarrow> byte_buffer \<Rightarrow> byte_buffer"

text \<open>
  The named hypotheses on the cryptographic functions: a MAC has \<open>sec_mac_len\<close> bytes; the ciphers are stream
  ciphers.
\<close>

definition mac_ok :: "crypto_prims \<Rightarrow> bool" where
  "mac_ok P \<longleftrightarrow>
     (\<forall>k c b d m. length (nia1 P k c b d m) = sec_mac_len \<and> length (nia3 P k c b d m) = sec_mac_len \<and>
        (\<exists>mac. nia2 P k c b d m = Inr mac \<and> length mac = sec_mac_len))"

definition cipher_ok :: "crypto_prims \<Rightarrow> bool" where
  "cipher_ok P \<longleftrightarrow>
     (\<forall>k c b d m.
        length (nea1 P k c b d m) = length m \<and> nea1 P k c b d (nea1 P k c b d m) = m \<and>
        length (nea3 P k c b d m) = length m \<and> nea3 P k c b d (nea3 P k c b d m) = m \<and>
        (\<exists>m'. nea2 P k c b d m = Some m' \<and> length m' = length m \<and> nea2 P k c b d m' = Some m))"

definition crypto_ok :: "crypto_prims \<Rightarrow> bool" where
  "crypto_ok P \<longleftrightarrow> mac_ok P \<and> cipher_ok P"

section \<open>The integrity engines\<close>

record integrity_engine =
  ie_key :: byte_buffer
  ie_bearer_id :: u8
  ie_direction :: security_direction
  ie_algo :: integrity_algorithm

text \<open>
  The MAC of a message: the algorithms of \<open>integrity_engine_generic\<close> by the \<open>switch\<close> that both of its
  functions have, NIA2 by \<open>compute_mac\<close> of its own engine.
\<close>

definition compute_mac :: "crypto_prims \<Rightarrow> integrity_engine \<Rightarrow> byte_buffer \<Rightarrow> u32 \<Rightarrow> security_error + byte_buffer" where
  "compute_mac P e v count =
     (case ie_algo e of
        Nia0 \<Rightarrow> Inr (replicate sec_mac_len 0)
      | Nia1 \<Rightarrow> Inr (nia1 P (ie_key e) count (ie_bearer_id e) (ie_direction e) v)
      | Nia2 \<Rightarrow> nia2 P (ie_key e) count (ie_bearer_id e) (ie_direction e) v
      | Nia3 \<Rightarrow> Inr (nia3 P (ie_key e) count (ie_bearer_id e) (ie_direction e) v))"

text \<open>
  Both engines log the content of the result at the end, also after a failed \<open>append\<close>: that access to the
  value of an \<open>expected\<close> that holds an error throws.
\<close>

definition protect_integrity ::
  "crypto_prims \<Rightarrow> bool \<Rightarrow> integrity_engine \<Rightarrow> byte_buffer \<Rightarrow> u32 \<Rightarrow> security_result res" where
  "protect_integrity P append_ok e buf count =
     (case compute_mac P e buf count of
        Inl err \<Rightarrow> Inr \<lparr>result_buf = Inl err, result_count = count\<rparr>
      | Inr mac \<Rightarrow>
          if \<not> append_ok then Inl (Assertion_Failure ''Bad expected access'')
          else Inr \<lparr>result_buf = Inr (buf @ mac), result_count = count\<rparr>)"

definition verify_integrity :: "crypto_prims \<Rightarrow> integrity_engine \<Rightarrow> byte_buffer \<Rightarrow> u32 \<Rightarrow> security_result" where
  "verify_integrity P e buf count =
     (if length buf \<le> sec_mac_len then \<lparr>result_buf = Inl Integrity_Failure, result_count = count\<rparr>
      else
        (let v = take (length buf - sec_mac_len) buf; m = drop (length buf - sec_mac_len) buf in
         case compute_mac P e v count of
           Inl err \<Rightarrow> \<lparr>result_buf = Inl err, result_count = count\<rparr>
         | Inr mac \<Rightarrow>
             if mac \<noteq> m then \<lparr>result_buf = Inl Integrity_Failure, result_count = count\<rparr>
             else \<lparr>result_buf = Inr v, result_count = count\<rparr>))"

section \<open>The ciphering engines\<close>

record ciphering_engine =
  ce_key :: byte_buffer
  ce_bearer_id :: u8
  ce_direction :: security_direction
  ce_algo :: ciphering_algorithm

text \<open>
  The bytes from \<open>offset\<close> on are ciphered in place. There is no engine for NEA0.
\<close>

definition apply_ciphering ::
  "crypto_prims \<Rightarrow> ciphering_engine \<Rightarrow> byte_buffer \<Rightarrow> nat \<Rightarrow> u32 \<Rightarrow> security_result" where
  "apply_ciphering P e buf offset count =
     (let msg = drop offset buf;
          out = (case ce_algo e of
                   Nea0 \<Rightarrow> Some msg
                 | Nea1 \<Rightarrow> Some (nea1 P (ce_key e) count (ce_bearer_id e) (ce_direction e) msg)
                 | Nea2 \<Rightarrow> nea2 P (ce_key e) count (ce_bearer_id e) (ce_direction e) msg
                 | Nea3 \<Rightarrow> Some (nea3 P (ce_key e) count (ce_bearer_id e) (ce_direction e) msg))
      in case out of
           None \<Rightarrow> \<lparr>result_buf = Inl Ciphering_Failure, result_count = count\<rparr>
         | Some msg' \<Rightarrow> \<lparr>result_buf = Inr (take offset buf @ msg'), result_count = count\<rparr>)"

section \<open>security\_engine\_impl\<close>

record security_engine =
  integ_eng :: "integrity_engine option"
  cipher_eng :: "ciphering_engine option"

definition new_security_engine ::
  "sec_128_as_config \<Rightarrow> u8 \<Rightarrow> security_direction \<Rightarrow> integrity_enabled \<Rightarrow> ciphering_enabled \<Rightarrow> security_engine res" where
  "new_security_engine sec_cfg bearer_id direction integ ciph =
     bind_res
       (if integ = Integrity_On then
          (case integ_algo sec_cfg of
             None \<Rightarrow> Inl (Assertion_Failure ''Cannot enable integrity protection: No algorithm selected'')
           | Some algo \<Rightarrow>
               (case k_128_int sec_cfg of
                  None \<Rightarrow> Inl (Assertion_Failure ''Cannot enable integrity protection: No key'')
                | Some key \<Rightarrow>
                    Inr (Some \<lparr>ie_key = key, ie_bearer_id = bearer_id, ie_direction = direction, ie_algo = algo\<rparr>)))
        else Inr None)
       (\<lambda>integ_eng.
          Inr \<lparr>integ_eng = integ_eng,
               cipher_eng =
                 (if ciph = Ciphering_On \<and> cipher_algo sec_cfg \<noteq> Nea0 then
                    Some \<lparr>ce_key = k_128_enc sec_cfg, ce_bearer_id = bearer_id, ce_direction = direction,
                          ce_algo = cipher_algo sec_cfg\<rparr>
                  else None)\<rparr>)"

definition encrypt_and_protect_integrity ::
  "crypto_prims \<Rightarrow> bool \<Rightarrow> security_engine \<Rightarrow> byte_buffer \<Rightarrow> nat \<Rightarrow> u32 \<Rightarrow> security_result res" where
  "encrypt_and_protect_integrity P append_ok e buf offset count =
     bind_res
       (case integ_eng e of
          None \<Rightarrow> Inr \<lparr>result_buf = Inr buf, result_count = count\<rparr>
        | Some ie \<Rightarrow> protect_integrity P append_ok ie buf count)
       (\<lambda>result.
          case result_buf result of
            Inl _ \<Rightarrow> Inr result
          | Inr buf \<Rightarrow>
              (case cipher_eng e of
                 None \<Rightarrow> Inr result
               | Some ce \<Rightarrow> Inr (apply_ciphering P ce buf offset (result_count result))))"

definition decrypt_and_verify_integrity ::
  "crypto_prims \<Rightarrow> security_engine \<Rightarrow> byte_buffer \<Rightarrow> nat \<Rightarrow> u32 \<Rightarrow> security_result" where
  "decrypt_and_verify_integrity P e buf offset count =
     (let result = (case cipher_eng e of
                      None \<Rightarrow> \<lparr>result_buf = Inr buf, result_count = count\<rparr>
                    | Some ce \<Rightarrow> apply_ciphering P ce buf offset count)
      in case result_buf result of
           Inl _ \<Rightarrow> result
         | Inr buf \<Rightarrow>
             (case integ_eng e of
                None \<Rightarrow> result
              | Some ie \<Rightarrow> verify_integrity P ie buf (result_count result)))"

section \<open>Lemmas\<close>

text \<open>The number of bytes that the engine appends.\<close>

definition mac_size :: "security_engine \<Rightarrow> nat" where
  "mac_size e = (if integ_eng e = None then 0 else sec_mac_len)"

lemma compute_mac_ok:
  assumes "mac_ok P"
  obtains mac where "compute_mac P e v count = Inr mac" "length mac = sec_mac_len"
proof -
  have *: "length (nia1 P k c b d m) = sec_mac_len" "length (nia3 P k c b d m) = sec_mac_len"
    "\<exists>mac. nia2 P k c b d m = Inr mac \<and> length mac = sec_mac_len" for k c b d m
    using assms by (auto simp: mac_ok_def)
  have "\<exists>mac. compute_mac P e v count = Inr mac \<and> length mac = sec_mac_len"
    by (cases "ie_algo e") (use * in \<open>simp_all add: compute_mac_def\<close>)
  then show ?thesis using that by blast
qed

lemma verify_protected:
  assumes "compute_mac P e buf count = Inr mac" "length mac = sec_mac_len" "buf \<noteq> []"
  shows "verify_integrity P e (buf @ mac) count = \<lparr>result_buf = Inr buf, result_count = count\<rparr>"
  using assms by (auto simp: verify_integrity_def Let_def)

lemma apply_ciphering_twice:
  assumes "cipher_ok P" "offset \<le> length buf"
  shows "\<exists>buf'. apply_ciphering P e buf offset count = \<lparr>result_buf = Inr buf', result_count = count\<rparr> \<and>
     length buf' = length buf \<and> take offset buf' = take offset buf \<and>
     apply_ciphering P e buf' offset count = \<lparr>result_buf = Inr buf, result_count = count\<rparr>"
proof -
  define m where "m = drop offset buf"
  have buf: "take offset buf @ m = buf" and len: "length (take offset buf) = offset"
    using assms(2) by (simp_all add: m_def)
  have sc: "length (nea1 P k c b d x) = length x \<and> nea1 P k c b d (nea1 P k c b d x) = x \<and>
      length (nea3 P k c b d x) = length x \<and> nea3 P k c b d (nea3 P k c b d x) = x \<and>
      (\<exists>m'. nea2 P k c b d x = Some m' \<and> length m' = length x \<and> nea2 P k c b d m' = Some x)" for k c b d x
    using assms(1) unfolding cipher_ok_def by blast
  have l1: "length (nea1 P k c b d x) = length x" and i1: "nea1 P k c b d (nea1 P k c b d x) = x"
    and l3: "length (nea3 P k c b d x) = length x" and i3: "nea3 P k c b d (nea3 P k c b d x) = x" for k c b d x
    using sc by blast+
  have lm: "length m = length buf - offset" by (simp add: m_def)
  consider m' where "ce_algo e = Nea2" "nea2 P (ce_key e) count (ce_bearer_id e) (ce_direction e) m = Some m'"
      "length m' = length m" "nea2 P (ce_key e) count (ce_bearer_id e) (ce_direction e) m' = Some m"
    | "ce_algo e \<noteq> Nea2"
    using sc by blast
  then show ?thesis
  proof cases
    case 1
    then show ?thesis
      using assms(2) lm by (intro exI [of _ "take offset buf @ m'"])
        (simp add: apply_ciphering_def Let_def buf flip: m_def)
  next
    case 2
    then show ?thesis
      using assms(2) lm
      by (cases "ce_algo e") (simp_all add: apply_ciphering_def Let_def l1 l3 i1 i3 buf flip: m_def)
  qed
qed

lemma verify_integrity_count [simp]: "result_count (verify_integrity P e buf count) = count"
  by (auto simp: verify_integrity_def Let_def split: sum.split)

lemma apply_ciphering_count [simp]: "result_count (apply_ciphering P e buf offset count) = count"
  by (auto simp: apply_ciphering_def Let_def split: option.split)

lemma decrypt_count [simp]: "result_count (decrypt_and_verify_integrity P e buf offset count) = count"
  by (auto simp: decrypt_and_verify_integrity_def Let_def split: option.split sum.split)

lemma apply_ciphering_length:
  "cipher_ok P \<Longrightarrow> offset \<le> length buf \<Longrightarrow> result_buf (apply_ciphering P e buf offset count) = Inr buf' \<Longrightarrow>
     length buf' = length buf"
  using apply_ciphering_twice [of P offset buf e count] by auto

lemma decrypt_length:
  assumes "cipher_ok P" "offset \<le> length buf"
    "result_buf (decrypt_and_verify_integrity P e buf offset count) = Inr sdu"
  shows "length buf = length sdu + mac_size e"
proof -
  have "length b = length b' + sec_mac_len"
    if "result_buf (verify_integrity P ie b c) = Inr b'" for ie b c b'
    using that by (auto simp: verify_integrity_def Let_def split: if_splits sum.splits)
  then show ?thesis
    using assms apply_ciphering_length [OF assms(1,2)]
    by (fastforce simp: decrypt_and_verify_integrity_def Let_def mac_size_def split: option.splits sum.splits)
qed

text \<open>What is protected and ciphered with an engine is returned by the engine of the same configuration.\<close>

lemma encrypt_decrypt:
  assumes "crypto_ok P" "offset \<le> length buf" "buf \<noteq> []"
  shows "\<exists>pdu. encrypt_and_protect_integrity P True e buf offset count =
           Inr \<lparr>result_buf = Inr pdu, result_count = count\<rparr> \<and>
         length pdu = length buf + mac_size e \<and> take offset pdu = take offset buf \<and>
         decrypt_and_verify_integrity P e pdu offset count = \<lparr>result_buf = Inr buf, result_count = count\<rparr>"
proof -
  have mac: "mac_ok P" and ciph: "cipher_ok P" using assms(1) by (simp_all add: crypto_ok_def)
  obtain mac where prot: "(case integ_eng e of
          None \<Rightarrow> Inr \<lparr>result_buf = Inr buf, result_count = count\<rparr>
        | Some ie \<Rightarrow> protect_integrity P True ie buf count) = Inr \<lparr>result_buf = Inr (buf @ mac), result_count = count\<rparr>"
    and ver: "\<And>ie. integ_eng e = Some ie \<Longrightarrow>
        verify_integrity P ie (buf @ mac) count = \<lparr>result_buf = Inr buf, result_count = count\<rparr>"
    and len: "length mac = mac_size e"
  proof (cases "integ_eng e")
    case None
    then show ?thesis using that [of "[]"] by (simp add: mac_size_def)
  next
    case (Some ie)
    obtain mac where "compute_mac P ie buf count = Inr mac" "length mac = sec_mac_len"
      using mac by (rule compute_mac_ok)
    then show ?thesis
      using that [of mac] Some assms(3) by (simp add: mac_size_def protect_integrity_def verify_protected)
  qed
  have le: "offset \<le> length (buf @ mac)" using assms(2) by simp
  show ?thesis
  proof (cases "cipher_eng e")
    case None
    then show ?thesis
      using assms(2) prot ver len
      by (auto simp: encrypt_and_protect_integrity_def decrypt_and_verify_integrity_def Let_def mac_size_def
          split: option.split)
  next
    case (Some ce)
    obtain pdu where p: "apply_ciphering P ce (buf @ mac) offset count = \<lparr>result_buf = Inr pdu, result_count = count\<rparr>"
        "length pdu = length (buf @ mac)" "take offset pdu = take offset (buf @ mac)"
        "apply_ciphering P ce pdu offset count = \<lparr>result_buf = Inr (buf @ mac), result_count = count\<rparr>"
      using apply_ciphering_twice [OF ciph le] by blast
    then show ?thesis
      using assms(2) prot ver len Some
      by (auto simp: encrypt_and_protect_integrity_def decrypt_and_verify_integrity_def Let_def mac_size_def
          split: option.split)
  qed
qed

end
