(* ===== verification/Pdcp_Common.thy ===== *)
theory Pdcp_Common
  imports Pdcp_Sn Security_Engine
begin

text \<open>
  What the two PDCP entities share: the configuration enumerations (include/srsran/pdcp/pdcp_config.h,
  pdcp_sn_size.h), the arithmetic of SN, HFN and COUNT (lib/pdcp/pdcp_sn.h), header length and window size
  (lib/pdcp/pdcp_entity_tx_rx_base.h), the fields of the PDU header (lib/pdcp/pdcp_pdu.h), writing and reading
  the header of a data PDU (lib/pdcp/pdcp_entity_tx.cpp, pdcp_entity_rx.cpp), and the counter of cryptographic
  tasks in flight (lib/pdcp/pdcp_crypto_token.h).

  Shown: COUNT is the pair of its HFN and SN; the COUNT that is reconstructed from an SN is the only one with
  that SN in the window around the reference; the header of a data PDU is read back as it was written; and the
  token counter.
\<close>

unbundle bit_operations_syntax

section \<open>Configuration\<close>

datatype pdcp_rb_type = Srb | Drb

datatype pdcp_rlc_mode = Mode_Um | Mode_Am

record pdcp_max_count =
  mc_notify :: u32
  mc_hard :: u32

text \<open>The default of \<open>pdcp_custom_config_base\<close>, which both directions inherit.\<close>

definition default_max_count :: pdcp_max_count where
  "default_max_count = \<lparr>mc_notify = 0xc0000000, mc_hard = 0xfffffffe\<rparr>"

text \<open>The constants that are declared for the receiving direction.\<close>

definition pdcp_rx_default_max_count :: pdcp_max_count where
  "pdcp_rx_default_max_count = \<lparr>mc_notify = 0xc0000000, mc_hard = 0xd0000000\<rparr>"

text \<open>
  The number of bits; the conversion of \<open>invalid\<close>, with the value after the last one of the enumeration, fails an
  assertion, which is a branch of the constructors of the entities.
\<close>

fun pdcp_sn_size_to_uint :: "pdcp_sn_size \<Rightarrow> nat" where
  "pdcp_sn_size_to_uint Pdcp_Size12bits = 12"
| "pdcp_sn_size_to_uint Pdcp_Size18bits = 18"
| "pdcp_sn_size_to_uint Pdcp_Invalid = 19"

fun pdcp_data_pdu_header_size :: "pdcp_sn_size \<Rightarrow> nat res" where
  "pdcp_data_pdu_header_size Pdcp_Size12bits = Inr 2"
| "pdcp_data_pdu_header_size Pdcp_Size18bits = Inr 3"
| "pdcp_data_pdu_header_size Pdcp_Invalid =
     Inl (Assertion_Failure ''Cannot determine PDCP data PDU header size: unsupported sn_size'')"

fun pdcp_window_size :: "pdcp_sn_size \<Rightarrow> u32 res" where
  "pdcp_window_size Pdcp_Size12bits = Inr 2048"
| "pdcp_window_size Pdcp_Size18bits = Inr 131072"
| "pdcp_window_size Pdcp_Invalid =
     Inl (Assertion_Failure ''Cannot determine PDCP window size: unsupported sn_size'')"

text \<open>The size that is spelled out where a header is skipped.\<close>

definition hdr_size :: "pdcp_sn_size \<Rightarrow> nat" where
  "hdr_size sz = (if sz = Pdcp_Size12bits then 2 else 3)"

section \<open>SN, HFN and COUNT\<close>

definition pdcp_compute_sn :: "pdcp_sn_size \<Rightarrow> u32 \<Rightarrow> u32" where
  "pdcp_compute_sn sz count = count AND drop_bit (32 - pdcp_sn_size_to_uint sz) 0xffffffff"

definition pdcp_compute_hfn :: "pdcp_sn_size \<Rightarrow> u32 \<Rightarrow> u32" where
  "pdcp_compute_hfn sz count = drop_bit (pdcp_sn_size_to_uint sz) count"

definition pdcp_compute_count :: "pdcp_sn_size \<Rightarrow> u32 \<Rightarrow> u32 \<Rightarrow> u32" where
  "pdcp_compute_count sz hfn sn = push_bit (pdcp_sn_size_to_uint sz) hfn OR sn"

definition pdcp_sn_cardinality :: "pdcp_sn_size \<Rightarrow> u32" where
  "pdcp_sn_cardinality sz = push_bit (pdcp_sn_size_to_uint sz) 1"

text \<open>
  The COUNT of a received SN, given the lower end \<open>lower\<close> of the window. The first comparison is made on
  64 bit signed integers, the second one on 32 bit unsigned integers.
\<close>

definition estimate_hfn :: "pdcp_sn_size \<Rightarrow> u32 \<Rightarrow> u32 \<Rightarrow> u32 \<Rightarrow> u32" where
  "estimate_hfn sz w lower sn =
     (if uint sn < uint (pdcp_compute_sn sz lower) - uint w then pdcp_compute_hfn sz lower + 1
      else if sn \<ge> pdcp_compute_sn sz lower + w then pdcp_compute_hfn sz lower - 1
      else pdcp_compute_hfn sz lower)"

definition estimate_count :: "pdcp_sn_size \<Rightarrow> u32 \<Rightarrow> u32 \<Rightarrow> u32 \<Rightarrow> u32" where
  "estimate_count sz w lower sn = pdcp_compute_count sz (estimate_hfn sz w lower sn) sn"

section \<open>The PDU header\<close>

datatype pdcp_dc_field = Pdcp_Control | Pdcp_Data

definition pdcp_pdu_get_dc :: "u8 \<Rightarrow> pdcp_dc_field" where
  "pdcp_pdu_get_dc first_byte = (if drop_bit 7 first_byte AND 1 = 0 then Pdcp_Control else Pdcp_Data)"

text \<open>The control PDU type; the values without an enumerator are kept as numbers.\<close>

definition pdcp_control_pdu_get_cpt :: "u8 \<Rightarrow> u8" where
  "pdcp_control_pdu_get_cpt first_byte = drop_bit 4 first_byte AND 7"

definition cpt_status_report :: u8 where
  "cpt_status_report = 0"

definition read_data_pdu_header :: "pdcp_sn_size \<Rightarrow> nat \<Rightarrow> byte_buffer \<Rightarrow> u32 option" where
  "read_data_pdu_header sz hdr_len_bytes buf =
     (if length buf \<le> hdr_len_bytes then None
      else
        (case sz of
           Pdcp_Size12bits \<Rightarrow>
             Some (push_bit 8 (ucast (buf ! 0 AND 0x0f)) OR ucast (buf ! 1 AND 0xff))
         | Pdcp_Size18bits \<Rightarrow>
             Some (push_bit 16 (ucast (buf ! 0 AND 0x03)) OR push_bit 8 (ucast (buf ! 1 AND 0xff)) OR ucast (buf ! 2 AND 0xff))
         | Pdcp_Invalid \<Rightarrow> None))"

text \<open>
  The header in front of the payload; \<open>None\<close> when the buffer pool has no room for it (\<open>prepend_ok\<close> is false).
\<close>

definition write_data_pdu_header ::
  "bool \<Rightarrow> bool \<Rightarrow> pdcp_sn_size \<Rightarrow> u32 \<Rightarrow> byte_buffer \<Rightarrow> byte_buffer option res" where
  "write_data_pdu_header prepend_ok is_srb sz sn buf =
     bind_res (srsran_assert (\<not> (is_srb \<and> sz = Pdcp_Size18bits)) ''Invalid SN size for SRB.'') (\<lambda>_.
       if \<not> prepend_ok then Inr None
       else
         (let dc = (if is_srb then 0x00 else 0x80 :: u8) in
          case sz of
            Pdcp_Size12bits \<Rightarrow>
              Inr (Some ([dc OR ucast (drop_bit 8 (sn AND 0x00000f00)), ucast (sn AND 0x000000ff)] @ buf))
          | Pdcp_Size18bits \<Rightarrow>
              Inr (Some ([dc OR ucast (drop_bit 16 (sn AND 0x00030000)), ucast (drop_bit 8 (sn AND 0x0000ff00)),
                          ucast (sn AND 0x000000ff)] @ buf))
          | Pdcp_Invalid \<Rightarrow> Inr None))"

section \<open>Cryptographic tasks in flight\<close>

text \<open>
  \<open>tokens\<close> is an atomic counter that wraps around: \<open>stop\<close> takes one token more than was granted, so the
  counter passes from 0 to \<open>UINT32_MAX\<close> when the last task has returned its token; that sets the event.
\<close>

record pdcp_crypto_token_manager =
  pending_crypto :: bool
  tokens :: u32

definition new_token_manager :: pdcp_crypto_token_manager where
  "new_token_manager = \<lparr>pending_crypto = False, tokens = 0\<rparr>"

definition increment_token :: "pdcp_crypto_token_manager \<Rightarrow> pdcp_crypto_token_manager" where
  "increment_token m = m\<lparr>tokens := tokens m + 1\<rparr>"

definition return_token :: "pdcp_crypto_token_manager \<Rightarrow> pdcp_crypto_token_manager res" where
  "return_token m =
     bind_res (srsran_assert (tokens m \<noteq> 0xffffffff) ''Error counting crypto tokens.'')
       (\<lambda>_. Inr (m\<lparr>tokens := tokens m - 1, pending_crypto := pending_crypto m \<or> tokens m = 0\<rparr>))"

definition token_start :: "pdcp_crypto_token_manager \<Rightarrow> pdcp_crypto_token_manager" where
  "token_start m = increment_token (m\<lparr>pending_crypto := False\<rparr>)"

definition token_stop :: "pdcp_crypto_token_manager \<Rightarrow> pdcp_crypto_token_manager res" where
  "token_stop m = return_token m"

section \<open>COUNT is the pair of HFN and SN\<close>

abbreviation valid_sn_size :: "pdcp_sn_size \<Rightarrow> bool" where
  "valid_sn_size sz \<equiv> sz \<noteq> Pdcp_Invalid"

lemma sn_bits_less: "pdcp_sn_size_to_uint sz < 32"
  by (cases sz) simp_all

lemma compute_sn_take_bit: "pdcp_compute_sn sz c = take_bit (pdcp_sn_size_to_uint sz) c"
proof -
  have "drop_bit (32 - pdcp_sn_size_to_uint sz) 0xffffffff = (mask (pdcp_sn_size_to_uint sz) :: u32)"
    by (cases sz) (simp_all add: mask_eq_exp_minus_1)
  then show ?thesis by (simp add: pdcp_compute_sn_def take_bit_eq_mask)
qed

lemma compute_sn_less: "uint (pdcp_compute_sn sz c) < 2 ^ pdcp_sn_size_to_uint sz"
  unfolding compute_sn_take_bit
  by (simp add: unsigned_take_bit_eq take_bit_int_less_exp)

lemma compute_count_split: "pdcp_compute_count sz (pdcp_compute_hfn sz c) (pdcp_compute_sn sz c) = c"
  unfolding pdcp_compute_count_def pdcp_compute_hfn_def compute_sn_take_bit
  by (rule bit_word_eqI) (auto simp: bit_simps)

lemma compute_count_ring:
  assumes "uint sn < 2 ^ pdcp_sn_size_to_uint sz"
  shows "pdcp_compute_count sz hfn sn = hfn * 2 ^ pdcp_sn_size_to_uint sz + sn"
proof -
  define n where "n = pdcp_sn_size_to_uint sz"
  have "take_bit n sn = sn"
    using assms by (simp add: word_uint_eq_iff n_def unsigned_take_bit_eq take_bit_int_eq_self)
  then have "\<not> bit sn i" if "n \<le> i" for i
    using that by (metis bit_take_bit_iff leD)
  then have "push_bit n hfn AND sn = 0"
    by (intro bit_word_eqI) (auto simp: bit_simps)
  then show ?thesis
    by (simp add: pdcp_compute_count_def add_as_or push_bit_eq_mult n_def)
qed

lemma compute_sn_count:
  assumes "uint sn < 2 ^ pdcp_sn_size_to_uint sz"
  shows "pdcp_compute_sn sz (pdcp_compute_count sz hfn sn) = sn"
proof -
  have "take_bit (pdcp_sn_size_to_uint sz) sn = sn"
    using assms by (simp add: word_uint_eq_iff unsigned_take_bit_eq take_bit_int_eq_self)
  then show ?thesis
    by (simp add: compute_sn_take_bit pdcp_compute_count_def take_bit_or take_bit_push_bit)
qed

section \<open>The reconstructed COUNT\<close>

text \<open>Half of the range of sequence numbers, as an integer.\<close>

definition half_window :: "pdcp_sn_size \<Rightarrow> int" where
  "half_window sz = 2 ^ (pdcp_sn_size_to_uint sz - 1)"

lemma half_window_double: "2 ^ pdcp_sn_size_to_uint sz = 2 * half_window sz"
  by (cases sz) (simp_all add: half_window_def)

lemma half_window_pos: "0 < half_window sz"
  by (simp add: half_window_def)

lemma half_window_bound: "half_window sz \<le> 2 ^ 18"
  by (cases sz) (simp_all add: half_window_def)

lemma window_size_half: "pdcp_window_size sz = Inr w \<Longrightarrow> uint w = half_window sz"
  by (cases sz) (auto simp: half_window_def)

lemma uint_sn_plus_window:
  assumes "uint w = half_window sz"
  shows "uint (pdcp_compute_sn sz c + w) = uint (pdcp_compute_sn sz c) + half_window sz"
proof -
  have "uint (pdcp_compute_sn sz c) + uint w < 2 ^ 32"
    using compute_sn_less [of sz c] half_window_bound [of sz] half_window_double [of sz] assms by simp
  then show ?thesis
    using assms by (simp add: uint_plus_if')
qed

text \<open>The reconstructed COUNT lies in the window around the reference and has the SN it was made from.\<close>

lemma estimate_count_offset:
  assumes "uint w = half_window sz" "uint sn < 2 ^ pdcp_sn_size_to_uint sz"
  shows "\<exists>k. - half_window sz \<le> k \<and> k < half_window sz \<and> estimate_count sz w lower sn = lower + word_of_int k"
proof -
  define n where "n = pdcp_sn_size_to_uint sz"
  define s where "s = pdcp_compute_sn sz lower"
  define h where "h = pdcp_compute_hfn sz lower"
  define \<delta> :: int where
    "\<delta> = (if uint sn < uint s - half_window sz then 1 else if uint s + half_window sz \<le> uint sn then - 1 else 0)"
  have s_less: "uint s < 2 * half_window sz" and s_pos: "0 \<le> uint s"
    using compute_sn_less [of sz lower] by (simp_all add: s_def half_window_double)
  have "lower = h * 2 ^ n + s"
    using compute_count_split [of sz lower] compute_count_ring [OF compute_sn_less, of sz h lower]
    by (simp add: s_def h_def n_def)
  moreover have "estimate_hfn sz w lower sn = h + word_of_int \<delta>"
    unfolding estimate_hfn_def \<delta>_def h_def [symmetric] s_def [symmetric] word_le_def
    using uint_sn_plus_window [OF assms(1), of lower] by (simp add: assms(1) flip: s_def)
  then have "estimate_count sz w lower sn = (h + word_of_int \<delta>) * 2 ^ n + sn"
    by (simp add: estimate_count_def compute_count_ring [OF assms(2)] n_def)
  ultimately have "estimate_count sz w lower sn = lower + (word_of_int \<delta> * 2 ^ n + sn - s)"
    by (simp only: distrib_right) (simp only: algebra_simps)
  moreover have "word_of_int \<delta> * 2 ^ n + sn - s = (word_of_int (\<delta> * 2 ^ n + uint sn - uint s) :: u32)"
    by simp
  ultimately have eq: "estimate_count sz w lower sn = lower + word_of_int (\<delta> * 2 ^ n + uint sn - uint s)"
    by (simp only:)
  have "2 ^ n = 2 * half_window sz" "uint sn < 2 * half_window sz"
    using assms(2) by (simp_all only: n_def half_window_double)
  then have "- half_window sz \<le> \<delta> * 2 ^ n + uint sn - uint s \<and> \<delta> * 2 ^ n + uint sn - uint s < half_window sz"
    using s_less s_pos uint_ge_0 [of sn] half_window_pos [of sz] unfolding \<delta>_def
    by (simp split: if_split; linarith)
  then show ?thesis using eq by blast
qed

lemma compute_sn_estimate:
  "uint sn < 2 ^ pdcp_sn_size_to_uint sz \<Longrightarrow> pdcp_compute_sn sz (estimate_count sz w lower sn) = sn"
  by (simp add: estimate_count_def compute_sn_count)

lemma sn_offset_inj:
  assumes "pdcp_compute_sn sz (c + word_of_int j) = pdcp_compute_sn sz (c + word_of_int k)"
    and "- half_window sz \<le> j" "j < half_window sz" "- half_window sz \<le> k" "k < half_window sz"
  shows "j = k"
proof -
  define n where "n = pdcp_sn_size_to_uint sz"
  have n: "n < 32" using sn_bits_less by (simp add: n_def)
  have "uint (pdcp_compute_sn sz (c + word_of_int i)) = (uint c + i) mod 2 ^ n" for i
  proof -
    have "uint (pdcp_compute_sn sz (c + word_of_int i)) = ((uint c + i) mod 2 ^ 32) mod 2 ^ n"
      unfolding compute_sn_take_bit unsigned_take_bit_eq
      by (simp add: take_bit_eq_mod n_def uint_word_ariths uint_word_of_int mod_add_right_eq)
    also have "\<dots> = (uint c + i) mod 2 ^ n"
      by (rule mod_mod_cancel) (use n in \<open>intro le_imp_power_dvd; simp\<close>)
    finally show ?thesis .
  qed
  then have "(uint c + j) mod 2 ^ n = (uint c + k) mod 2 ^ n"
    using assms(1) by metis
  then have "2 ^ n dvd (uint c + j) - (uint c + k)"
    by (simp only: mod_eq_dvd_iff)
  then have "2 * half_window sz dvd j - k"
    by (simp add: n_def half_window_double)
  moreover have "\<bar>j - k\<bar> < 2 * half_window sz" using assms(2-5) by linarith
  ultimately show ?thesis
    by (metis abs_of_nonneg dvd_imp_le_int linorder_not_le right_minus_eq half_window_pos less_imp_le
        zero_le_mult_iff zero_le_numeral)
qed

lemma estimate_count_correct:
  assumes "uint w = half_window sz" "- half_window sz \<le> k" "k < half_window sz"
  shows "estimate_count sz w lower (pdcp_compute_sn sz (lower + word_of_int k)) = lower + word_of_int k"
proof -
  let ?sn = "pdcp_compute_sn sz (lower + word_of_int k)"
  have sn: "uint ?sn < 2 ^ pdcp_sn_size_to_uint sz" by (rule compute_sn_less)
  obtain j where j: "- half_window sz \<le> j" "j < half_window sz"
      "estimate_count sz w lower ?sn = lower + word_of_int j"
    using estimate_count_offset [OF assms(1) sn] by blast
  then have "pdcp_compute_sn sz (lower + word_of_int j) = ?sn"
    using compute_sn_estimate [OF sn, of w lower] by simp
  then show ?thesis
    using sn_offset_inj [of sz lower j k] assms(2,3) j by simp
qed

section \<open>The header\<close>

lemma read_header_bits:
  "uint (push_bit 8 (ucast (b0 AND 15)) OR ucast (b1 AND 255) :: u32) < 2 ^ 12"
  "uint (push_bit 16 (ucast (b0 AND 3)) OR push_bit 8 (ucast (b1 AND 255)) OR ucast (b2 AND 255) :: u32) < 2 ^ 18"
  for b0 b1 b2 :: u8
proof -
  have less: "uint x < 2 ^ n" if "n < 32" "\<And>i. n \<le> i \<Longrightarrow> \<not> bit x i" for x :: u32 and n
  proof -
    have "take_bit n x = x" by (rule bit_word_eqI) (use that(2) in \<open>auto simp: bit_simps intro: ccontr simp flip: not_le\<close>)
    then show ?thesis
      using that(1) by (metis take_bit_int_less_exp unsigned_take_bit_eq)
  qed
  show "uint (push_bit 8 (ucast (b0 AND 15)) OR ucast (b1 AND 255) :: u32) < 2 ^ 12"
    by (rule less) (auto simp: bit_simps mask_simps dest: bit_imp_le_length)
  show "uint (push_bit 16 (ucast (b0 AND 3)) OR push_bit 8 (ucast (b1 AND 255)) OR ucast (b2 AND 255) :: u32) < 2 ^ 18"
    by (rule less) (auto simp: bit_simps mask_simps dest: bit_imp_le_length)
qed

lemma read_header_less:
  "read_data_pdu_header sz n buf = Some sn \<Longrightarrow> uint sn < 2 ^ pdcp_sn_size_to_uint sz"
  using read_header_bits
  by (cases sz) (auto simp: read_data_pdu_header_def split: if_splits)

lemma header_size_valid: "pdcp_data_pdu_header_size sz = Inr n \<Longrightarrow> n = hdr_size sz \<and> valid_sn_size sz"
  by (cases sz) (auto simp: hdr_size_def)

lemma get_dc_bit: "pdcp_pdu_get_dc b = (if bit b 7 then Pdcp_Data else Pdcp_Control)"
proof -
  have "drop_bit 7 b AND 1 = of_bool (bit b 7)"
    by (rule bit_word_eqI) (auto simp: bit_simps)
  then show ?thesis by (simp add: pdcp_pdu_get_dc_def)
qed

lemma read_write_header:
  assumes "valid_sn_size sz" "\<not> (srb \<and> sz = Pdcp_Size18bits)" "buf \<noteq> []" "uint sn < 2 ^ pdcp_sn_size_to_uint sz"
  shows "\<exists>h. write_data_pdu_header True srb sz sn buf = Inr (Some (h @ buf)) \<and> length h = hdr_size sz \<and>
     read_data_pdu_header sz (hdr_size sz) (h @ buf) = Some sn \<and>
     pdcp_pdu_get_dc (hd (h @ buf)) = (if srb then Pdcp_Control else Pdcp_Data)"
proof -
  have high: "i < pdcp_sn_size_to_uint sz" if "bit sn i" for i
  proof -
    have "take_bit (pdcp_sn_size_to_uint sz) sn = sn"
      using assms(4) by (simp add: word_uint_eq_iff unsigned_take_bit_eq take_bit_int_eq_self)
    then show ?thesis using that by (metis bit_take_bit_iff)
  qed
  have dc15: "(dc OR x) AND 15 = x AND 15" and dc3: "(dc OR x) AND 3 = x AND 3" if "dc = 0 \<or> dc = 128" for dc x :: u8
    using that by (auto simp: bit.conj_disj_distrib2)
  have m: "drop_bit 8 (sn AND 0xf00) = take_bit 4 (drop_bit 8 sn)" "drop_bit 16 (sn AND 0x30000) = take_bit 2 (drop_bit 16 sn)"
    "drop_bit 8 (sn AND 0xff00) = take_bit 8 (drop_bit 8 sn)"
    by (simp_all add: drop_bit_and mask_simps)
  have b12: "push_bit 8 (ucast ((dc OR ucast (drop_bit 8 (sn AND 0xf00))) AND 15)) OR ucast (ucast (sn AND 255) AND 255 :: u8) = sn"
    if "sz = Pdcp_Size12bits" "dc = 0 \<or> dc = 128" for dc :: u8
    unfolding dc15 [OF that(2)] unfolding m mask_simps
    by (rule bit_word_eqI) (use high that(1) in \<open>fastforce simp: bit_simps\<close>)
  have b18: "push_bit 16 (ucast ((dc OR ucast (drop_bit 16 (sn AND 0x30000))) AND 3)) OR
      push_bit 8 (ucast (ucast (drop_bit 8 (sn AND 0xff00)) AND 255 :: u8)) OR ucast (ucast (sn AND 255) AND 255 :: u8) = sn"
    if "sz = Pdcp_Size18bits" "dc = 0 \<or> dc = 128" for dc :: u8
    unfolding dc3 [OF that(2)] unfolding m mask_simps
    by (rule bit_word_eqI) (use high that(1) in \<open>fastforce simp: bit_simps\<close>)
  have dc: "pdcp_pdu_get_dc ((if srb then 0 else 0x80) OR x) = (if srb then Pdcp_Control else Pdcp_Data)"
    if "\<not> bit x 7" for x
    using that by (auto simp: get_dc_bit bit_simps)
  have x: "\<not> bit (ucast (drop_bit 8 (sn AND 0xf00)) :: u8) 7" "\<not> bit (ucast (drop_bit 16 (sn AND 0x30000)) :: u8) 7"
    by (simp_all add: m bit_simps)
  show ?thesis
  proof (cases sz)
    case Pdcp_Size12bits
    then show ?thesis
      using assms(3) b12 [of "if srb then 0 else 0x80"] dc [OF x(1)]
      by (auto simp: write_data_pdu_header_def srsran_assert_def Let_def read_data_pdu_header_def hdr_size_def)
  next
    case Pdcp_Size18bits
    then show ?thesis
      using assms(2,3) b18 [of "if srb then 0 else 0x80"] dc [OF x(2)]
      by (auto simp: write_data_pdu_header_def srsran_assert_def Let_def read_data_pdu_header_def hdr_size_def
          numeral_2_eq_2)
  qed (use assms(1) in simp)
qed

end
