(* ===== verification/Pdcp_Rx.thy ===== *)
theory Pdcp_Rx
  imports Pdcp_Common
begin

text \<open>
  The receiving PDCP entity (lib/pdcp/pdcp_entity_rx.h, pdcp_entity_rx.cpp): reconstruction of COUNT,
  deciphering and integrity verification in the tasks of a cryptographic executor, reordering and in-order
  delivery in the tasks of the executor of the UE, t-Reordering, re-establishment, buffering and stopping.

  A handler returns the new entity, the actions towards its environment and the tasks that it hands to an
  executor; a task carries a crypto token, which is returned when the task is destroyed. The record
  \<open>pdcp_rx_sys\<close> is the entity with the tasks in flight: \<open>pdcp_rx_step\<close> runs any of them next, in any order, between
  the calls from outside. What the environment decides is an argument: whether a buffer can be copied,
  whether an executor accepts a task, the clock, and the index of the worker that runs a cryptographic task.
  The loops of the source end for every state and are functions with a termination proof. Logging, tracing
  and header compression, which the source does not implement, are left out; latencies appear as the time of
  arrival that the metrics are computed from.
\<close>

unbundle bit_operations_syntax

section \<open>State\<close>

record pdcp_rx_config =
  prc_rb_type :: pdcp_rb_type
  prc_rlc_mode :: pdcp_rlc_mode
  prc_sn_size :: pdcp_sn_size
  prc_direction :: security_direction
  prc_t_reordering :: int
  prc_max_count :: pdcp_max_count

definition t_reordering_infinity :: int where
  "t_reordering_infinity = -1"

record pdcp_rx_pdu_info =
  rpi_buf :: byte_buffer
  rpi_count :: u32
  rpi_time_of_arrival :: nat

record pdcp_rx_sdu_info =
  rsi_buf :: byte_buffer
  rsi_count :: u32
  rsi_time_of_arrival :: nat

record pdcp_rx_state =
  pst_next :: u32
  pst_deliv :: u32
  pst_reord :: u32

record pdcp_entity_rx = pdcp_rx_state +
  prx_cfg :: pdcp_rx_config
  prx_bearer_id :: u8
  prx_hdr_len_bytes :: nat
  prx_window_size :: u32
  prx_max_count_notified :: bool
  prx_max_count_overflow :: bool
  prx_stopped :: bool
  prx_sec_engine_pool :: "security_engine option list"
  prx_integrity_enabled :: integrity_enabled
  prx_ciphering_enabled :: ciphering_enabled
  prx_window :: "pdcp_rx_sdu_info sdu_window"
  prx_reordering_timer :: unique_timer
  prx_token_mngr :: pdcp_crypto_token_manager
  prx_buffering :: bool
  prx_pdu_buffer :: "byte_buffer list"
  prx_max_nof_crypto_workers :: nat

definition prx_is_srb :: "pdcp_entity_rx \<Rightarrow> bool" where
  "prx_is_srb s \<longleftrightarrow> prc_rb_type (prx_cfg s) = Srb"

definition prx_is_um :: "pdcp_entity_rx \<Rightarrow> bool" where
  "prx_is_um s \<longleftrightarrow> prc_rlc_mode (prx_cfg s) = Mode_Um"

datatype pdcp_rx_action =
    Pdcp_On_New_Sdu u32 byte_buffer nat
  | Rx_On_Integrity_Failure
  | Rx_On_Protocol_Failure
  | Rx_On_Max_Count_Reached
  | Rx_On_Status_Report byte_buffer
  | Rx_Metrics_Pdus nat
  | Rx_Metrics_Data_Pdus nat
  | Rx_Metrics_Dropped_Pdus
  | Rx_Metrics_Sdus nat
  | Rx_Metrics_Integrity_Verified
  | Rx_Metrics_Integrity_Failed
  | Rx_Metrics_T_Reordering_Timeout

text \<open>The COUNT of a delivered SDU is the one in the log message that precedes the delivery.\<close>

fun delivered_sdus :: "pdcp_rx_action list \<Rightarrow> (u32 \<times> byte_buffer) list" where
  "delivered_sdus [] = []"
| "delivered_sdus (Pdcp_On_New_Sdu count sdu toa # as) = (count, sdu) # delivered_sdus as"
| "delivered_sdus (_ # as) = delivered_sdus as"

datatype pdcp_rx_ue_task = Handle_Failure security_error | Reorder pdcp_rx_pdu_info

section \<open>Construction\<close>

definition new_pdcp_rx :: "pdcp_rx_config \<Rightarrow> u8 \<Rightarrow> nat \<Rightarrow> pdcp_entity_rx res" where
  "new_pdcp_rx cfg bearer_id max_nof_crypto_workers =
     bind_res (pdcp_data_pdu_header_size (prc_sn_size cfg)) (\<lambda>hdr_len.
     bind_res (pdcp_window_size (prc_sn_size cfg)) (\<lambda>w.
       Inr \<lparr>pst_next = 0, pst_deliv = 0, pst_reord = 0, prx_cfg = cfg, prx_bearer_id = bearer_id,
         prx_hdr_len_bytes = hdr_len, prx_window_size = w,
         prx_max_count_notified = False, prx_max_count_overflow = False, prx_stopped = False,
         prx_sec_engine_pool = replicate max_nof_crypto_workers None,
         prx_integrity_enabled = Integrity_Off, prx_ciphering_enabled = Ciphering_Off,
         prx_window = new_circular_map (unat w),
         prx_reordering_timer = new_timer (prc_t_reordering cfg),
         prx_token_mngr = new_token_manager, prx_buffering = False, prx_pdu_buffer = [],
         prx_max_nof_crypto_workers = max_nof_crypto_workers\<rparr>))"

section \<open>Delivery\<close>

lemma dec_distance: "x \<noteq> y \<Longrightarrow> unat (y - (x + 1)) < unat (y - x)" for x y :: u32
proof -
  assume "x \<noteq> y"
  then have "y - x \<noteq> 0" by simp
  then have "unat (y - x - 1) < unat (y - x)"
    by (simp add: unat_minus_one unat_gt_0)
  then show ?thesis by (simp add: diff_diff_add)
qed

text \<open>One SDU to the upper layer; it leaves the window.\<close>

definition deliver_count :: "u32 \<Rightarrow> pdcp_entity_rx \<Rightarrow> (pdcp_entity_rx \<times> pdcp_rx_action list) res" where
  "deliver_count count s =
     bind_res (at_cm (prx_window s) count) (\<lambda>info.
     bind_res (remove_sn (prx_window s) count) (\<lambda>w.
       Inr (s\<lparr>prx_window := w\<rparr>,
         [Rx_Metrics_Sdus (length (rsi_buf info)), Pdcp_On_New_Sdu count (rsi_buf info) (rsi_time_of_arrival info)])))"

lemma deliver_count_frame:
  "deliver_count c s = Inr (s', as) \<Longrightarrow> \<exists>w. s' = s\<lparr>prx_window := w\<rparr>"
  by (auto simp: deliver_count_def bind_res_Inr_iff)

function deliver_all_consecutive_counts :: "pdcp_entity_rx \<Rightarrow> (pdcp_entity_rx \<times> pdcp_rx_action list) res" where
  "deliver_all_consecutive_counts s =
     (if pst_deliv s \<noteq> pst_next s \<and> has_sn (prx_window s) (pst_deliv s) then
        (case deliver_count (pst_deliv s) s of
           Inl e \<Rightarrow> Inl e
         | Inr (s', as) \<Rightarrow>
             (case deliver_all_consecutive_counts (s'\<lparr>pst_deliv := pst_deliv s' + 1\<rparr>) of
                Inl e \<Rightarrow> Inl e
              | Inr (s'', as') \<Rightarrow> Inr (s'', as @ as')))
      else Inr (s, []))"
  by pat_completeness auto
termination
  by (relation "measure (\<lambda>s. unat (pst_next s - pst_deliv s))")
    (auto dest!: deliver_count_frame intro: dec_distance)

text \<open>Everything below \<open>pst_next\<close>, whatever is missing: the re-establishment of a UM bearer.\<close>

function deliver_from :: "u32 \<Rightarrow> pdcp_entity_rx \<Rightarrow> (pdcp_entity_rx \<times> pdcp_rx_action list) res" where
  "deliver_from count s =
     (if count < pst_next s then
        (if has_sn (prx_window s) count then
           (case deliver_count count s of
              Inl e \<Rightarrow> Inl e
            | Inr (s', as) \<Rightarrow>
                (case deliver_from (count + 1) s' of
                   Inl e \<Rightarrow> Inl e
                 | Inr (s'', as') \<Rightarrow> Inr (s'', as @ as')))
         else deliver_from (count + 1) s)
      else Inr (s, []))"
  by pat_completeness auto
termination
  by (relation "measure (\<lambda>(c, s). unat (pst_next s - c))")
    (auto dest!: deliver_count_frame intro: dec_distance)

definition deliver_all_sdus :: "pdcp_entity_rx \<Rightarrow> (pdcp_entity_rx \<times> pdcp_rx_action list) res" where
  "deliver_all_sdus s = deliver_from (pst_deliv s) s"

function discard_all_sdus :: "pdcp_entity_rx \<Rightarrow> pdcp_entity_rx res" where
  "discard_all_sdus s =
     (if pst_deliv s \<noteq> pst_next s then
        (case (if has_sn (prx_window s) (pst_deliv s) then remove_sn (prx_window s) (pst_deliv s)
               else Inr (prx_window s)) of
           Inl e \<Rightarrow> Inl e
         | Inr w \<Rightarrow> discard_all_sdus (s\<lparr>prx_window := w, pst_deliv := pst_deliv s + 1\<rparr>))
      else Inr s)"
  by pat_completeness auto
termination
  by (relation "measure (\<lambda>s. unat (pst_next s - pst_deliv s))") (auto intro: dec_distance)

section \<open>t-Reordering\<close>

function deliver_until_reord :: "pdcp_entity_rx \<Rightarrow> (pdcp_entity_rx \<times> pdcp_rx_action list) res" where
  "deliver_until_reord s =
     (if pst_deliv s \<noteq> pst_reord s then
        (if has_sn (prx_window s) (pst_deliv s) then
           (case deliver_count (pst_deliv s) s of
              Inl e \<Rightarrow> Inl e
            | Inr (s', as) \<Rightarrow>
                (case deliver_until_reord (s'\<lparr>pst_deliv := pst_deliv s' + 1\<rparr>) of
                   Inl e \<Rightarrow> Inl e
                 | Inr (s'', as') \<Rightarrow> Inr (s'', as @ as')))
         else deliver_until_reord (s\<lparr>pst_deliv := pst_deliv s + 1\<rparr>))
      else Inr (s, []))"
  by pat_completeness auto
termination
  by (relation "measure (\<lambda>s. unat (pst_reord s - pst_deliv s))")
    (auto dest!: deliver_count_frame intro: dec_distance)

declare deliver_all_consecutive_counts.simps [simp del] deliver_from.simps [simp del]
  discard_all_sdus.simps [simp del] deliver_until_reord.simps [simp del]

definition handle_t_reordering_expire :: "pdcp_entity_rx \<Rightarrow> (pdcp_entity_rx \<times> pdcp_rx_action list) res" where
  "handle_t_reordering_expire s =
     bind_res (deliver_until_reord s) (\<lambda>(s, as).
     bind_res (deliver_all_consecutive_counts s) (\<lambda>(s, as').
     bind_res
       (if pst_deliv s < pst_next s \<and> prc_t_reordering (prx_cfg s) \<noteq> 0 then
          bind_res (timer_run (prx_reordering_timer s)) (\<lambda>t.
            Inr (s\<lparr>pst_reord := pst_next s, prx_reordering_timer := t\<rparr>))
        else Inr s)
       (\<lambda>s. Inr (s, Rx_Metrics_T_Reordering_Timeout # as @ as'))))"

text \<open>The expiry stops the timer before the callback runs.\<close>

definition reordering_callback :: "pdcp_entity_rx \<Rightarrow> (pdcp_entity_rx \<times> pdcp_rx_action list) res" where
  "reordering_callback s =
     (let s = s\<lparr>prx_reordering_timer := timer_stop (prx_reordering_timer s)\<rparr> in
      if prx_stopped s then Inr (s, []) else handle_t_reordering_expire s)"

section \<open>Reordering\<close>

definition handle_reordering_timers :: "pdcp_entity_rx \<Rightarrow> (pdcp_entity_rx \<times> pdcp_rx_action list) res" where
  "handle_reordering_timers s =
     (let t = prc_t_reordering (prx_cfg s);
          s = (if is_running (prx_reordering_timer s) \<and> pst_deliv s \<ge> pst_reord s then
                 s\<lparr>prx_reordering_timer := timer_stop (prx_reordering_timer s)\<rparr>
               else s)
      in if t = t_reordering_infinity then Inr (s, [])
         else if t = 0 then handle_t_reordering_expire (s\<lparr>pst_reord := pst_next s\<rparr>)
         else if \<not> is_running (prx_reordering_timer s) \<and> pst_deliv s < pst_next s then
           bind_res (timer_run (prx_reordering_timer s)) (\<lambda>t.
             Inr (s\<lparr>pst_reord := pst_next s, prx_reordering_timer := t\<rparr>, []))
         else Inr (s, []))"

text \<open>
  Whether the COUNT was received before. An entry of another COUNT would be dropped for the new one.
\<close>

definition store_sdu :: "pdcp_rx_pdu_info \<Rightarrow> pdcp_entity_rx \<Rightarrow> pdcp_entity_rx option res" where
  "store_sdu pdu_info s =
     (let count = rpi_count pdu_info; w = prx_window s in
      bind_res
        (if has_sn w count then
           bind_res (at_cm w count) (\<lambda>info.
             if rsi_count info = count then Inr None
             else bind_res (remove_sn w count) (\<lambda>w. Inr (Some w)))
         else Inr (Some w))
        (\<lambda>w. case w of
           None \<Rightarrow> Inr None
         | Some w \<Rightarrow>
             bind_res (add_sn w count \<lparr>rsi_buf = rpi_buf pdu_info, rsi_count = count,
                 rsi_time_of_arrival = rpi_time_of_arrival pdu_info\<rparr>) (\<lambda>w.
               Inr (Some (s\<lparr>prx_window := w\<rparr>)))))"

definition rx_apply_reordering ::
  "pdcp_rx_pdu_info \<Rightarrow> pdcp_entity_rx \<Rightarrow> (pdcp_entity_rx \<times> pdcp_rx_action list) res" where
  "rx_apply_reordering pdu_info s =
     (let rcvd_count = rpi_count pdu_info in
      if rcvd_count < pst_deliv s then Inr (s, [])
      else
        bind_res (store_sdu pdu_info s) (\<lambda>stored.
          case stored of
            None \<Rightarrow> Inr (s, [])
          | Some s \<Rightarrow>
              (let s = (if rcvd_count \<ge> pst_next s then s\<lparr>pst_next := rcvd_count + 1\<rparr> else s) in
               bind_res (if rcvd_count = pst_deliv s then deliver_all_consecutive_counts s else Inr (s, [])) (\<lambda>(s, as).
               bind_res (handle_reordering_timers s) (\<lambda>(s, as').
                 Inr (s, as @ as'))))))"

section \<open>Security\<close>

definition apply_deciphering_and_integrity_check ::
  "crypto_prims \<Rightarrow> nat \<Rightarrow> byte_buffer \<Rightarrow> u32 \<Rightarrow> pdcp_entity_rx \<Rightarrow> security_result res" where
  "apply_deciphering_and_integrity_check P worker_idx buf count s =
     (if worker_idx \<ge> prx_max_nof_crypto_workers s then
        Inl (Assertion_Failure ''Worker index exceeds number of crypto workers.'')
      else
        (case prx_sec_engine_pool s ! worker_idx of
           None \<Rightarrow>
             if prx_is_srb s then
               (if length buf \<le> sec_mac_len then Inr \<lparr>result_buf = Inl Buffer_Failure, result_count = count\<rparr>
                else Inr \<lparr>result_buf = Inr (take (length buf - sec_mac_len) buf), result_count = count\<rparr>)
             else Inr \<lparr>result_buf = Inr buf, result_count = count\<rparr>
         | Some sec_engine \<Rightarrow>
             Inr (decrypt_and_verify_integrity P sec_engine buf (hdr_size (prc_sn_size (prx_cfg s))) count)))"

definition release_token :: "pdcp_entity_rx \<Rightarrow> pdcp_entity_rx res" where
  "release_token s = bind_res (return_token (prx_token_mngr s)) (\<lambda>m. Inr (s\<lparr>prx_token_mngr := m\<rparr>))"

text \<open>The task of the cryptographic executor. \<open>ue_ok\<close>: the executor of the UE accepts the next task.\<close>

definition rx_apply_security ::
  "crypto_prims \<Rightarrow> nat \<Rightarrow> bool \<Rightarrow> pdcp_rx_pdu_info \<Rightarrow> pdcp_entity_rx \<Rightarrow> (pdcp_entity_rx \<times> pdcp_rx_ue_task list) res" where
  "rx_apply_security P worker_idx ue_ok pdu_info s =
     bind_res (apply_deciphering_and_integrity_check P worker_idx (rpi_buf pdu_info) (rpi_count pdu_info) s) (\<lambda>result.
     bind_res
       (case result_buf result of
          Inl sec_err \<Rightarrow> Inr (Handle_Failure sec_err)
        | Inr buf \<Rightarrow>
            bind_res (srsran_assert (length buf \<ge> hdr_size (prc_sn_size (prx_cfg s)))
                ''Trying to trim more bytes than those available'') (\<lambda>_.
              Inr (Reorder (pdu_info\<lparr>rpi_buf := drop (hdr_size (prc_sn_size (prx_cfg s))) buf\<rparr>))))
       (\<lambda>task.
          if ue_ok then Inr (s, [task])
          else bind_res (release_token s) (\<lambda>s. Inr (s, []))))"

fun handle_failure :: "security_error \<Rightarrow> pdcp_rx_action list" where
  "handle_failure Integrity_Failure = [Rx_Metrics_Integrity_Failed, Rx_On_Integrity_Failure]"
| "handle_failure Ciphering_Failure = [Rx_On_Protocol_Failure]"
| "handle_failure Buffer_Failure = [Rx_On_Protocol_Failure]"
| "handle_failure Engine_Failure = [Rx_On_Protocol_Failure]"

text \<open>A task of the executor of the UE; its token is returned when it is destroyed.\<close>

definition run_ue_task :: "pdcp_rx_ue_task \<Rightarrow> pdcp_entity_rx \<Rightarrow> (pdcp_entity_rx \<times> pdcp_rx_action list) res" where
  "run_ue_task task s =
     bind_res
       (case task of
          Handle_Failure sec_err \<Rightarrow> Inr (s, handle_failure sec_err)
        | Reorder pdu_info \<Rightarrow>
            bind_res (rx_apply_reordering pdu_info s) (\<lambda>(s, as). Inr (s, Rx_Metrics_Integrity_Verified # as)))
       (\<lambda>(s, as). bind_res (release_token s) (\<lambda>s. Inr (s, as)))"

definition rx_configure_security ::
  "sec_128_as_config \<Rightarrow> integrity_enabled \<Rightarrow> ciphering_enabled \<Rightarrow> pdcp_entity_rx \<Rightarrow> pdcp_entity_rx res" where
  "rx_configure_security sec_cfg integ ciph s =
     bind_res (srsran_assert ((prx_is_srb s \<and> domain sec_cfg = Domain_Rrc) \<or> (\<not> prx_is_srb s \<and> domain sec_cfg = Domain_Up))
         ''Invalid sec_domain'') (\<lambda>_.
       if integ = Integrity_On \<and> (k_128_int sec_cfg = None \<or> integ_algo sec_cfg = None) then Inr s
       else
         bind_res (srsran_assert (integ = Integrity_On \<or> \<not> prx_is_srb s)
             ''Integrity protection cannot be disabled for SRBs.'') (\<lambda>_.
         bind_res (new_security_engine sec_cfg (prx_bearer_id s) (prc_direction (prx_cfg s)) integ ciph) (\<lambda>sec_engine.
           Inr (s\<lparr>prx_integrity_enabled := integ, prx_ciphering_enabled := ciph,
                  prx_sec_engine_pool := replicate (prx_max_nof_crypto_workers s) (Some sec_engine)\<rparr>))))"

section \<open>Handling of PDUs\<close>

record pdcp_rx_env =
  env_now :: nat
  env_copy_ok :: bool
  env_crypto_ok :: bool

definition check_max_count :: "u32 \<Rightarrow> pdcp_entity_rx \<Rightarrow> pdcp_entity_rx \<times> pdcp_rx_action list" where
  "check_max_count rcvd_count s =
     (let mc = prc_max_count (prx_cfg s) in
      case (if rcvd_count > mc_notify mc \<and> \<not> prx_max_count_notified s
            then (s\<lparr>prx_max_count_notified := True\<rparr>, [Rx_On_Max_Count_Reached]) else (s, [])) of
        (s, as) \<Rightarrow>
          if rcvd_count \<ge> mc_hard mc \<and> \<not> prx_max_count_overflow s
          then (s\<lparr>prx_max_count_overflow := True\<rparr>, as @ [Rx_On_Protocol_Failure]) else (s, as))"

definition rx_handle_data_pdu ::
  "pdcp_rx_env \<Rightarrow> byte_buffer \<Rightarrow> pdcp_entity_rx \<Rightarrow> (pdcp_entity_rx \<times> pdcp_rx_action list \<times> pdcp_rx_pdu_info list) res" where
  "rx_handle_data_pdu env pdu s =
     (if length pdu \<le> prx_hdr_len_bytes s then Inr (s, [Rx_Metrics_Data_Pdus (length pdu), Rx_Metrics_Dropped_Pdus], [])
      else
        (case read_data_pdu_header (prc_sn_size (prx_cfg s)) (prx_hdr_len_bytes s) pdu of
           None \<Rightarrow> Inr (s, [Rx_Metrics_Data_Pdus (length pdu), Rx_Metrics_Dropped_Pdus], [])
         | Some sn \<Rightarrow>
             (let rcvd_count = estimate_count (prc_sn_size (prx_cfg s)) (prx_window_size s) (pst_deliv s) sn;
                  (s, as) = check_max_count rcvd_count s; as = Rx_Metrics_Data_Pdus (length pdu) # as
              in if rcvd_count \<ge> mc_hard (prc_max_count (prx_cfg s)) then Inr (s, as, [])
                 else
                   (let pdu_info = \<lparr>rpi_buf = pdu, rpi_count = rcvd_count, rpi_time_of_arrival = env_now env\<rparr>;
                        s = s\<lparr>prx_token_mngr := increment_token (prx_token_mngr s)\<rparr>
                    in if env_crypto_ok env then Inr (s, as, [pdu_info])
                       else bind_res (release_token s) (\<lambda>s. Inr (s, as, []))))))"

definition rx_handle_control_pdu :: "byte_buffer \<Rightarrow> pdcp_rx_action list res" where
  "rx_handle_control_pdu pdu =
     bind_res (srsran_assert (pdcp_pdu_get_dc (hd pdu) = Pdcp_Control) ''Invalid D/C field in control PDU.'') (\<lambda>_.
       Inr (if pdcp_control_pdu_get_cpt (hd pdu) = cpt_status_report then [Rx_On_Status_Report pdu] else []))"

definition pdu_buffer_size :: nat where
  "pdu_buffer_size = 2048"

definition rx_handle_pdu ::
  "pdcp_rx_env \<Rightarrow> byte_buffer \<Rightarrow> pdcp_entity_rx \<Rightarrow> (pdcp_entity_rx \<times> pdcp_rx_action list \<times> pdcp_rx_pdu_info list) res" where
  "rx_handle_pdu env buf s =
     (if prx_stopped s then Inr (s, [], [])
      else if prx_buffering s then
        (if length (prx_pdu_buffer s) \<ge> pdu_buffer_size then Inr (s, [], [])
         else Inr (s\<lparr>prx_pdu_buffer := prx_pdu_buffer s @ [buf]\<rparr>, [], []))
      else if buf = [] then Inr (s, [Rx_Metrics_Pdus 0, Rx_Metrics_Dropped_Pdus], [])
      else if \<not> env_copy_ok env then Inr (s, [Rx_Metrics_Pdus (length buf), Rx_Metrics_Dropped_Pdus], [])
      else if prx_is_srb s \<or> pdcp_pdu_get_dc (hd buf) = Pdcp_Data then
        bind_res (rx_handle_data_pdu env buf s) (\<lambda>(s, as, ts). Inr (s, Rx_Metrics_Pdus (length buf) # as, ts))
      else
        bind_res (rx_handle_control_pdu buf) (\<lambda>as. Inr (s, Rx_Metrics_Pdus (length buf) # as, [])))"

section \<open>Control of the entity\<close>

definition rx_stop :: "pdcp_entity_rx \<Rightarrow> pdcp_entity_rx res" where
  "rx_stop s =
     (if \<not> prx_stopped s then
        bind_res (token_stop (prx_token_mngr s)) (\<lambda>m.
          Inr (s\<lparr>prx_stopped := True, prx_reordering_timer := timer_stop (prx_reordering_timer s), prx_token_mngr := m\<rparr>))
      else Inr s)"

definition rx_notify_pdu_processing_stopped :: "pdcp_entity_rx \<Rightarrow> pdcp_entity_rx res" where
  "rx_notify_pdu_processing_stopped s =
     (if \<not> prx_stopped s then bind_res (token_stop (prx_token_mngr s)) (\<lambda>m. Inr (s\<lparr>prx_token_mngr := m\<rparr>))
      else Inr s)"

definition rx_restart_pdu_processing :: "pdcp_entity_rx \<Rightarrow> pdcp_entity_rx" where
  "rx_restart_pdu_processing s =
     (if \<not> prx_stopped s then s\<lparr>prx_token_mngr := token_start (prx_token_mngr s)\<rparr> else s)"

definition rx_begin_buffering :: "pdcp_entity_rx \<Rightarrow> pdcp_entity_rx" where
  "rx_begin_buffering s = s\<lparr>prx_buffering := True\<rparr>"

text \<open>The buffered PDUs in the order of arrival, each in an environment of its own.\<close>

fun drain_pdu_buffer ::
  "(nat \<Rightarrow> pdcp_rx_env) \<Rightarrow> byte_buffer list \<Rightarrow> pdcp_entity_rx \<Rightarrow>
     (pdcp_entity_rx \<times> pdcp_rx_action list \<times> pdcp_rx_pdu_info list) res" where
  "drain_pdu_buffer env [] s = Inr (s, [], [])"
| "drain_pdu_buffer env (buf # bufs) s =
     bind_res (rx_handle_pdu (env (length bufs)) buf s) (\<lambda>(s, as, ts).
     bind_res (drain_pdu_buffer env bufs s) (\<lambda>(s, as', ts').
       Inr (s, as @ as', ts @ ts')))"

definition rx_end_buffering ::
  "(nat \<Rightarrow> pdcp_rx_env) \<Rightarrow> pdcp_entity_rx \<Rightarrow> (pdcp_entity_rx \<times> pdcp_rx_action list \<times> pdcp_rx_pdu_info list) res" where
  "rx_end_buffering env s =
     drain_pdu_buffer env (prx_pdu_buffer s) (s\<lparr>prx_buffering := False, prx_pdu_buffer := []\<rparr>)"

text \<open>What is stored, t-Reordering and the state variables; then the new keys.\<close>

definition rx_reestablish_state :: "pdcp_entity_rx \<Rightarrow> (pdcp_entity_rx \<times> pdcp_rx_action list) res" where
  "rx_reestablish_state s =
     bind_res (if prx_is_srb s then discard_all_sdus s else Inr s) (\<lambda>s.
       if prx_is_srb s \<or> prx_is_um s then
         (let s = (if is_running (prx_reordering_timer s)
                   then s\<lparr>prx_reordering_timer := timer_stop (prx_reordering_timer s)\<rparr> else s)
          in bind_res (if prx_is_um s then deliver_all_sdus s else Inr (s, [])) (\<lambda>(s, as).
               Inr (s\<lparr>pst_next := 0, pst_deliv := 0, pst_reord := 0\<rparr>, as)))
       else Inr (s, []))"

definition rx_reestablish :: "sec_128_as_config \<Rightarrow> pdcp_entity_rx \<Rightarrow> (pdcp_entity_rx \<times> pdcp_rx_action list) res" where
  "rx_reestablish sec_cfg s =
     bind_res (rx_reestablish_state s) (\<lambda>(s, as).
     bind_res (rx_configure_security sec_cfg (prx_integrity_enabled s) (prx_ciphering_enabled s) s) (\<lambda>s.
       Inr (s, as)))"

definition rx_get_count :: "pdcp_entity_rx \<Rightarrow> u32 \<times> u32" where
  "rx_get_count s =
     (pdcp_compute_hfn (prc_sn_size (prx_cfg s)) (pst_deliv s), pdcp_compute_sn (prc_sn_size (prx_cfg s)) (pst_deliv s))"

definition rx_set_count :: "u32 \<Rightarrow> u32 \<Rightarrow> pdcp_entity_rx \<Rightarrow> pdcp_entity_rx" where
  "rx_set_count hfn sn s =
     (let count = pdcp_compute_count (prc_sn_size (prx_cfg s)) hfn sn
      in s\<lparr>pst_next := count, pst_deliv := count, pst_reord := count\<rparr>)"

section \<open>The entity with its tasks\<close>

text \<open>
  \<open>sys_halted\<close> records, for the caller's side of the protocol, that a token was taken to wait for the tasks
  (by \<open>rx_stop\<close> or \<open>rx_notify_pdu_processing_stopped\<close>) and not given back by \<open>rx_restart_pdu_processing\<close>.
\<close>

record pdcp_rx_sys =
  sys_ent :: pdcp_entity_rx
  sys_crypto :: "pdcp_rx_pdu_info list"
  sys_ue :: "pdcp_rx_ue_task list"
  sys_halted :: bool

datatype pdcp_rx_event =
    Rx_Ev_Pdu pdcp_rx_env byte_buffer
  | Rx_Ev_Crypto nat nat bool
  | Rx_Ev_Ue nat
  | Rx_Ev_Reordering_Expiry
  | Rx_Ev_Begin_Buffering
  | Rx_Ev_End_Buffering "nat \<Rightarrow> pdcp_rx_env"
  | Rx_Ev_Configure_Security sec_128_as_config integrity_enabled ciphering_enabled
  | Rx_Ev_Reestablish sec_128_as_config
  | Rx_Ev_Set_Count u32 u32
  | Rx_Ev_Notify_Stopped
  | Rx_Ev_Restart
  | Rx_Ev_Stop

definition remove_at :: "nat \<Rightarrow> 'a list \<Rightarrow> 'a list" where
  "remove_at i xs = take i xs @ drop (Suc i) xs"

fun pdcp_rx_step :: "crypto_prims \<Rightarrow> pdcp_rx_event \<Rightarrow> pdcp_rx_sys \<Rightarrow> (pdcp_rx_sys \<times> pdcp_rx_action list) res" where
  "pdcp_rx_step P (Rx_Ev_Pdu env buf) y =
     bind_res (rx_handle_pdu env buf (sys_ent y)) (\<lambda>(s, as, ts).
       Inr (y\<lparr>sys_ent := s, sys_crypto := sys_crypto y @ ts\<rparr>, as))"
| "pdcp_rx_step P (Rx_Ev_Crypto i worker_idx ue_ok) y =
     (if i < length (sys_crypto y) then
        bind_res (rx_apply_security P worker_idx ue_ok (sys_crypto y ! i) (sys_ent y)) (\<lambda>(s, ts).
          Inr (y\<lparr>sys_ent := s, sys_crypto := remove_at i (sys_crypto y), sys_ue := sys_ue y @ ts\<rparr>, []))
      else Inr (y, []))"
| "pdcp_rx_step P (Rx_Ev_Ue i) y =
     (if i < length (sys_ue y) then
        bind_res (run_ue_task (sys_ue y ! i) (sys_ent y)) (\<lambda>(s, as).
          Inr (y\<lparr>sys_ent := s, sys_ue := remove_at i (sys_ue y)\<rparr>, as))
      else Inr (y, []))"
| "pdcp_rx_step P Rx_Ev_Reordering_Expiry y =
     (if is_running (prx_reordering_timer (sys_ent y)) then
        bind_res (reordering_callback (sys_ent y)) (\<lambda>(s, as). Inr (y\<lparr>sys_ent := s\<rparr>, as))
      else Inr (y, []))"
| "pdcp_rx_step P Rx_Ev_Begin_Buffering y = Inr (y\<lparr>sys_ent := rx_begin_buffering (sys_ent y)\<rparr>, [])"
| "pdcp_rx_step P (Rx_Ev_End_Buffering env) y =
     bind_res (rx_end_buffering env (sys_ent y)) (\<lambda>(s, as, ts).
       Inr (y\<lparr>sys_ent := s, sys_crypto := sys_crypto y @ ts\<rparr>, as))"
| "pdcp_rx_step P (Rx_Ev_Configure_Security sec_cfg integ ciph) y =
     bind_res (rx_configure_security sec_cfg integ ciph (sys_ent y)) (\<lambda>s. Inr (y\<lparr>sys_ent := s\<rparr>, []))"
| "pdcp_rx_step P (Rx_Ev_Reestablish sec_cfg) y =
     bind_res (rx_reestablish sec_cfg (sys_ent y)) (\<lambda>(s, as). Inr (y\<lparr>sys_ent := s\<rparr>, as))"
| "pdcp_rx_step P (Rx_Ev_Set_Count hfn sn) y = Inr (y\<lparr>sys_ent := rx_set_count hfn sn (sys_ent y)\<rparr>, [])"
| "pdcp_rx_step P Rx_Ev_Notify_Stopped y =
     bind_res (rx_notify_pdu_processing_stopped (sys_ent y)) (\<lambda>s. Inr (y\<lparr>sys_ent := s, sys_halted := True\<rparr>, []))"
| "pdcp_rx_step P Rx_Ev_Restart y =
     Inr (y\<lparr>sys_ent := rx_restart_pdu_processing (sys_ent y),
            sys_halted := (sys_halted y \<and> prx_stopped (sys_ent y))\<rparr>, [])"
| "pdcp_rx_step P Rx_Ev_Stop y =
     bind_res (rx_stop (sys_ent y)) (\<lambda>s. Inr (y\<lparr>sys_ent := s, sys_halted := True\<rparr>, []))"

definition new_pdcp_rx_sys :: "pdcp_entity_rx \<Rightarrow> pdcp_rx_sys" where
  "new_pdcp_rx_sys s = \<lparr>sys_ent = s, sys_crypto = [], sys_ue = [], sys_halted = False\<rparr>"

fun pdcp_rx_run ::
  "crypto_prims \<Rightarrow> pdcp_rx_event list \<Rightarrow> pdcp_rx_sys \<Rightarrow> (pdcp_rx_sys \<times> pdcp_rx_action list) res" where
  "pdcp_rx_run P [] y = Inr (y, [])"
| "pdcp_rx_run P (ev # evs) y =
     bind_res (pdcp_rx_step P ev y) (\<lambda>(y, as).
     bind_res (pdcp_rx_run P evs y) (\<lambda>(y, as'). Inr (y, as @ as')))"

lemma delivered_sdus_append [simp]: "delivered_sdus (xs @ ys) = delivered_sdus xs @ delivered_sdus ys"
  by (induction xs rule: delivered_sdus.induct) auto

end
