(* ===== verification/Pdcp_Rx_Inv.thy ===== *)
theory Pdcp_Rx_Inv
  imports Pdcp_Rx
begin

text \<open>
  Invariants of the receiving PDCP entity. \<open>below d look\<close> is the content of the window without the COUNTs
  below \<open>d\<close>, and \<open>delivers look d as\<close> says that the actions hand exactly these SDUs to the upper layer, in the
  order of COUNT: the three delivery loops are characterised with them. \<open>rx_win\<close> is the invariant of the
  window and the state variables, \<open>rx_inv\<close> adds the timer and the state between two handlers, and
  \<open>sys_inv\<close> adds the tasks in flight and their tokens.
\<close>

unbundle bit_operations_syntax

section \<open>The delivery loops\<close>

definition below :: "u32 \<Rightarrow> (u32 \<Rightarrow> 'a option) \<Rightarrow> u32 \<Rightarrow> 'a option" where
  "below d look c = (if c < d then None else look c)"

definition delivers :: "(u32 \<Rightarrow> pdcp_rx_sdu_info option) \<Rightarrow> u32 \<Rightarrow> pdcp_rx_action list \<Rightarrow> bool" where
  "delivers look d as \<longleftrightarrow>
     sorted_wrt (<) (map fst (delivered_sdus as)) \<and>
     set (delivered_sdus as) = {(c, rsi_buf info) | c info. look c = Some info \<and> c < d}"

lemma unat_inc: "x < y \<Longrightarrow> unat (x + 1) = Suc (unat x)" for x y :: u32
proof -
  assume "x < y"
  then have "unat x + 1 < 2 ^ 32"
    using unsigned_less [of y, where ?'a = nat] by (simp add: word_less_nat_alt)
  then show ?thesis by (simp add: unat_plus_if')
qed

lemma inc_le_iff: "x < y \<Longrightarrow> x + 1 \<le> z \<longleftrightarrow> x < z" for x y z :: u32
  using unat_inc [of x y] by (simp add: word_le_nat_alt word_less_nat_alt Suc_le_eq)

lemma less_inc_iff: "x < y \<Longrightarrow> z < x + 1 \<longleftrightarrow> z \<le> x" for x y z :: u32
  using unat_inc [of x y] by (simp add: word_le_nat_alt word_less_nat_alt less_Suc_eq_le)

lemma delivers_nil: "(\<And>c info. look c = Some info \<Longrightarrow> d \<le> c) \<Longrightarrow> delivers look d []"
  by (fastforce simp: delivers_def simp flip: not_less)

lemma below_below: "d \<le> e \<Longrightarrow> below e (below d look) = below e look"
  by (auto simp: below_def fun_eq_iff)

lemma delivers_append:
  assumes "delivers look d as" "delivers (below d look) e as'" "d \<le> e"
  shows "delivers look e (as @ as')"
proof -
  have lt: "c < d" if "c \<in> set (map fst (delivered_sdus as))" for c
    using assms(1) that by (auto simp: delivers_def)
  have ge: "d \<le> c" if "c \<in> set (map fst (delivered_sdus as'))" for c
    using assms(2) that by (auto simp: delivers_def below_def split: if_splits)
  have "sorted_wrt (<) (map fst (delivered_sdus (as @ as')))"
    using assms(1,2) order_less_le_trans [OF lt ge]
    unfolding delivers_def delivered_sdus_append map_append sorted_wrt_append by blast
  moreover have "set (delivered_sdus (as @ as')) = {(c, rsi_buf info) | c info. look c = Some info \<and> c < e}"
  proof -
    have "set (delivered_sdus as) = {(c, rsi_buf info) | c info. look c = Some info \<and> c < d}"
      "set (delivered_sdus as') = {(c, rsi_buf info) | c info. below d look c = Some info \<and> c < e}"
      using assms(1,2) by (simp_all add: delivers_def)
    moreover have "below d look c = Some info \<longleftrightarrow> look c = Some info \<and> d \<le> c" for c info
      by (auto simp: below_def not_less)
    moreover have "c < d \<or> d \<le> c \<and> c < e \<longleftrightarrow> c < e" for c
      using assms(3) by auto
    moreover note less_le_trans [OF _ assms(3)]
    ultimately show ?thesis by auto
  qed
  ultimately show ?thesis by (simp add: delivers_def)
qed

lemma delivers_cong: "delivers look d as \<Longrightarrow> delivered_sdus as' = delivered_sdus as \<Longrightarrow> delivers look d as'"
  by (simp add: delivers_def)

text \<open>One SDU.\<close>

lemma deliver_count_ok:
  assumes "cm_wf (prx_window s)" "cm_lookup (prx_window s) c = Some info"
  obtains w where
    "deliver_count c s = Inr (s\<lparr>prx_window := w\<rparr>, [Rx_Metrics_Sdus (length (rsi_buf info)), Pdcp_On_New_Sdu c (rsi_buf info) (rsi_time_of_arrival info)])"
    "cm_wf w" "cm_max_size w = cm_max_size (prx_window s)" "cm_lookup w = (cm_lookup (prx_window s))(c := None)"
proof -
  let ?w = "snd (erase (prx_window s) c)"
  have "at_cm (prx_window s) c = Inr info" using assms(2) by (rule at_cm_Some)
  moreover have "remove_sn (prx_window s) c = Inr ?w" using assms(2) by (simp add: remove_sn_old)
  ultimately show ?thesis
    using that [of ?w] cm_wf_erase [OF assms(1)] cm_lookup_erase [OF assms(1)]
    by (simp add: deliver_count_def)
qed

lemma delivers_one:
  assumes "look c = Some info" "\<And>c' i. look c' = Some i \<Longrightarrow> c \<le> c'" "c < d"
  shows "delivers look (c + 1) [Rx_Metrics_Sdus (length (rsi_buf info)), Pdcp_On_New_Sdu c (rsi_buf info) toa]"
  using assms(1,2) less_inc_iff [OF assms(3)] by (force simp: delivers_def)

text \<open>
  What the loops rely on: a well-formed window whose keys are not below the next COUNT to deliver.
\<close>

definition win_from :: "u32 \<Rightarrow> pdcp_entity_rx \<Rightarrow> bool" where
  "win_from d s \<longleftrightarrow> cm_wf (prx_window s) \<and> (\<forall>c info. cm_lookup (prx_window s) c = Some info \<longrightarrow> d \<le> c)"

text \<open>What a loop does to the window when it ends at \<open>d\<close>.\<close>

definition emptied_to :: "u32 \<Rightarrow> pdcp_entity_rx \<Rightarrow> pdcp_rx_sdu_info sdu_window \<Rightarrow> pdcp_rx_action list \<Rightarrow> bool" where
  "emptied_to d s w as \<longleftrightarrow>
     cm_wf w \<and> cm_max_size w = cm_max_size (prx_window s) \<and>
     cm_lookup w = below d (cm_lookup (prx_window s)) \<and> delivers (cm_lookup (prx_window s)) d as"

lemma emptied_to_nil: "win_from d s \<Longrightarrow> emptied_to d s (prx_window s) []"
  by (auto simp: emptied_to_def win_from_def below_def fun_eq_iff not_le intro!: delivers_nil)

lemma step_present:
  assumes "win_from c s" "cm_lookup (prx_window s) c = Some info" "c < d"
  obtains w as where "deliver_count c s = Inr (s\<lparr>prx_window := w\<rparr>, as)"
    "win_from (c + 1) (s\<lparr>prx_window := w\<rparr>)" "emptied_to (c + 1) s w as"
proof -
  have wf: "cm_wf (prx_window s)" and ge: "\<And>c' i. cm_lookup (prx_window s) c' = Some i \<Longrightarrow> c \<le> c'"
    using assms(1) by (auto simp: win_from_def)
  obtain w where w: "deliver_count c s = Inr (s\<lparr>prx_window := w\<rparr>, [Rx_Metrics_Sdus (length (rsi_buf info)), Pdcp_On_New_Sdu c (rsi_buf info) (rsi_time_of_arrival info)])"
    "cm_wf w" "cm_max_size w = cm_max_size (prx_window s)" "cm_lookup w = (cm_lookup (prx_window s))(c := None)"
    using deliver_count_ok [OF wf assms(2)] .
  have b: "cm_lookup w = below (c + 1) (cm_lookup (prx_window s))"
    using w(4) ge less_inc_iff [OF assms(3)]
    by (auto simp: below_def fun_eq_iff not_le) (metis antisym not_None_eq)
  have "win_from (c + 1) (s\<lparr>prx_window := w\<rparr>)"
    using w(2) b by (auto simp: win_from_def below_def not_less split: if_splits)
  moreover have "emptied_to (c + 1) s w [Rx_Metrics_Sdus (length (rsi_buf info)), Pdcp_On_New_Sdu c (rsi_buf info) (rsi_time_of_arrival info)]"
    using w(2,3) b delivers_one [of "cm_lookup (prx_window s)" c info d, OF assms(2) _ assms(3)] ge by (simp add: emptied_to_def)
  ultimately show ?thesis using that w(1) by blast
qed

lemma step_absent:
  assumes "win_from c s" "cm_lookup (prx_window s) c = None" "c < d"
  shows "win_from (c + 1) s"
  using assms inc_le_iff [OF assms(3)] unfolding win_from_def
  by (metis option.distinct(1) order_le_less)

lemma emptied_to_trans:
  assumes "emptied_to d s w as" "emptied_to e (s\<lparr>prx_window := w\<rparr>) w' as'" "d \<le> e"
  shows "emptied_to e s w' (as @ as')"
  using assms delivers_append [of _ d as e as'] by (auto simp: emptied_to_def below_below)

lemma emptied_to_frame:
  "emptied_to e (s\<lparr>pst_deliv := d\<rparr>) w as = emptied_to e s w as"
  "win_from c (s\<lparr>pst_deliv := d\<rparr>) = win_from c s"
  by (simp_all add: emptied_to_def win_from_def)

lemma deliver_until_reord_ok:
  assumes "win_from (pst_deliv s) s" "pst_deliv s \<le> pst_reord s"
  shows "\<exists>w as. deliver_until_reord s = Inr (s\<lparr>prx_window := w, pst_deliv := pst_reord s\<rparr>, as) \<and>
     emptied_to (pst_reord s) s w as"
  using assms
proof (induction s rule: deliver_until_reord.induct)
  case (1 s)
  show ?case
  proof (cases "pst_deliv s = pst_reord s")
    case True
    have "emptied_to (pst_reord s) s (prx_window s) []"
      using emptied_to_nil [OF "1.prems"(1)] True by simp
    moreover have "s\<lparr>prx_window := prx_window s, pst_deliv := pst_reord s\<rparr> = s"
      by (simp flip: True)
    ultimately show ?thesis using True by (subst deliver_until_reord.simps) (auto intro!: exI [of _ "prx_window s"])
  next
    case False
    then have lt: "pst_deliv s < pst_reord s" using "1.prems"(2) by simp
    then have le: "pst_deliv s + 1 \<le> pst_reord s" by (simp add: inc_le_iff)
    show ?thesis
    proof (cases "cm_lookup (prx_window s) (pst_deliv s)")
      case None
      let ?s = "s\<lparr>pst_deliv := pst_deliv s + 1\<rparr>"
      obtain w as where IH: "deliver_until_reord ?s = Inr (?s\<lparr>prx_window := w, pst_deliv := pst_reord s\<rparr>, as)"
          "emptied_to (pst_reord s) ?s w as"
        using "1.IH"(2) False None le step_absent [OF "1.prems"(1) None lt]
        by (auto simp: has_sn_lookup emptied_to_frame)
      then show ?thesis
        using False None by (subst deliver_until_reord.simps) (auto simp: has_sn_lookup emptied_to_frame)
    next
      case (Some info)
      obtain w as where w: "deliver_count (pst_deliv s) s = Inr (s\<lparr>prx_window := w\<rparr>, as)"
        "win_from (pst_deliv s + 1) (s\<lparr>prx_window := w\<rparr>)" "emptied_to (pst_deliv s + 1) s w as"
        using step_present [OF "1.prems"(1) Some lt] .
      let ?s = "s\<lparr>prx_window := w, pst_deliv := pst_deliv s + 1\<rparr>"
      obtain w' as' where IH: "deliver_until_reord ?s = Inr (?s\<lparr>prx_window := w', pst_deliv := pst_reord s\<rparr>, as')"
          "emptied_to (pst_reord s) ?s w' as'"
        using "1.IH"(1) [OF False _ w(1)] Some le w(2)
        by (auto simp: has_sn_lookup emptied_to_frame)
      have "emptied_to (pst_reord s) s w' (as @ as')"
        using emptied_to_trans [OF w(3) _ le] IH(2) by (simp add: emptied_to_frame)
      then show ?thesis
        using False Some w(1) IH(1) by (subst deliver_until_reord.simps) (auto simp: has_sn_lookup)
    qed
  qed
qed

lemma deliver_consecutive_ok:
  assumes "win_from (pst_deliv s) s" "pst_deliv s \<le> pst_next s"
  shows "\<exists>w d as. deliver_all_consecutive_counts s = Inr (s\<lparr>prx_window := w, pst_deliv := d\<rparr>, as) \<and>
     emptied_to d s w as \<and> pst_deliv s \<le> d \<and> d \<le> pst_next s \<and> (d = pst_next s \<or> cm_lookup w d = None)"
  using assms
proof (induction s rule: deliver_all_consecutive_counts.induct)
  case (1 s)
  show ?case
  proof (cases "pst_deliv s = pst_next s \<or> cm_lookup (prx_window s) (pst_deliv s) = None")
    case True
    have "emptied_to (pst_deliv s) s (prx_window s) []" using emptied_to_nil [OF "1.prems"(1)] .
    then show ?thesis
      using True "1.prems"(2)
      by (subst deliver_all_consecutive_counts.simps)
        (auto simp: has_sn_lookup intro!: exI [of _ "prx_window s"] exI [of _ "pst_deliv s"])
  next
    case False
    then obtain info where Some: "cm_lookup (prx_window s) (pst_deliv s) = Some info"
      and ne: "pst_deliv s \<noteq> pst_next s" by auto
    then have lt: "pst_deliv s < pst_next s" using "1.prems"(2) by simp
    then have le: "pst_deliv s + 1 \<le> pst_next s" "pst_deliv s \<le> pst_deliv s + 1"
      by (simp_all add: inc_le_iff) (metis less_inc_iff order_less_imp_le order_refl)
    obtain w as where w: "deliver_count (pst_deliv s) s = Inr (s\<lparr>prx_window := w\<rparr>, as)"
      "win_from (pst_deliv s + 1) (s\<lparr>prx_window := w\<rparr>)" "emptied_to (pst_deliv s + 1) s w as"
      using step_present [OF "1.prems"(1) Some lt] .
    let ?s = "s\<lparr>prx_window := w, pst_deliv := pst_deliv s + 1\<rparr>"
    obtain w' d as' where IH:
        "deliver_all_consecutive_counts ?s = Inr (?s\<lparr>prx_window := w', pst_deliv := d\<rparr>, as')"
        "emptied_to d ?s w' as'" "pst_deliv s + 1 \<le> d" "d \<le> pst_next s" "d = pst_next s \<or> cm_lookup w' d = None"
      using "1.IH" [OF _ w(1) refl] Some ne le(1) w(2)
      by (auto simp: has_sn_lookup emptied_to_frame)
    have "emptied_to d s w' (as @ as')"
      using emptied_to_trans [OF w(3) _ IH(3)] IH(2) by (simp add: emptied_to_frame)
    then show ?thesis
      using Some ne w(1) IH le(2)
      by (subst deliver_all_consecutive_counts.simps)
        (auto simp: has_sn_lookup intro!: exI [of _ w'] exI [of _ d])
  qed
qed

section \<open>The window and the state variables\<close>

text \<open>
  The configuration of an entity as its constructor makes it, with the hard limit far enough from the end of
  the range of COUNT that no reconstructed COUNT below the limit has wrapped around.
\<close>

definition rx_cfg :: "pdcp_entity_rx \<Rightarrow> bool" where
  "rx_cfg s \<longleftrightarrow>
     valid_sn_size (prc_sn_size (prx_cfg s)) \<and> uint (prx_window_size s) = half_window (prc_sn_size (prx_cfg s)) \<and>
     prx_hdr_len_bytes s = hdr_size (prc_sn_size (prx_cfg s)) \<and>
     length (prx_sec_engine_pool s) = prx_max_nof_crypto_workers s \<and>
     uint (mc_hard (prc_max_count (prx_cfg s))) \<le> 2 ^ 32 - half_window (prc_sn_size (prx_cfg s)) \<and>
     timer_set (prx_reordering_timer s) = (0 < prc_t_reordering (prx_cfg s)) \<and> - 1 \<le> prc_t_reordering (prx_cfg s)"

definition rx_win :: "(u32 \<Rightarrow> byte_buffer \<Rightarrow> bool) \<Rightarrow> pdcp_entity_rx \<Rightarrow> bool" where
  "rx_win D s \<longleftrightarrow>
     cm_wf (prx_window s) \<and> cm_max_size (prx_window s) = unat (prx_window_size s) \<and>
     pst_deliv s \<le> pst_next s \<and> pst_next s \<le> mc_hard (prc_max_count (prx_cfg s)) \<and>
     unat (pst_next s) \<le> unat (pst_deliv s) + unat (prx_window_size s) \<and>
     (\<forall>c info. cm_lookup (prx_window s) c = Some info \<longrightarrow>
        pst_deliv s \<le> c \<and> c < pst_next s \<and> rsi_count info = c \<and> D c (rsi_buf info))"

text \<open>
  Between two handlers the next COUNT to deliver is not stored; while t-Reordering runs there is a gap before
  \<open>pst_reord\<close>, and while it does not run, unless it is configured to infinity, there is no gap.
\<close>

definition rx_inv :: "(u32 \<Rightarrow> byte_buffer \<Rightarrow> bool) \<Rightarrow> pdcp_entity_rx \<Rightarrow> bool" where
  "rx_inv D s \<longleftrightarrow>
     rx_cfg s \<and> rx_win D s \<and> cm_lookup (prx_window s) (pst_deliv s) = None \<and>
     (is_running (prx_reordering_timer s) \<longrightarrow>
        pst_deliv s < pst_reord s \<and> pst_reord s \<le> pst_next s \<and> 0 < prc_t_reordering (prx_cfg s)) \<and>
     (\<not> is_running (prx_reordering_timer s) \<and> \<not> prx_stopped s \<and> prc_t_reordering (prx_cfg s) \<noteq> t_reordering_infinity \<longrightarrow>
        pst_deliv s = pst_next s)"

text \<open>The COUNTs that a task may carry.\<close>

definition count_ok :: "pdcp_entity_rx \<Rightarrow> u32 \<Rightarrow> bool" where
  "count_ok s c \<longleftrightarrow>
     c < mc_hard (prc_max_count (prx_cfg s)) \<and> unat c < unat (pst_deliv s) + unat (prx_window_size s)"

lemma rx_win_from: "rx_win D s \<Longrightarrow> win_from (pst_deliv s) s"
  by (auto simp: rx_win_def win_from_def)

lemma rx_win_emptied:
  assumes "rx_win D s" "emptied_to d s w as" "pst_deliv s \<le> d" "d \<le> pst_next s"
  shows "rx_win D (s\<lparr>prx_window := w, pst_deliv := d\<rparr>)"
  using assms by (auto simp: rx_win_def emptied_to_def below_def not_less split: if_splits)
    (simp add: word_le_nat_alt)

lemma power_of_two_window: "rx_cfg s \<Longrightarrow> \<exists>j. unat (prx_window_size s) = 2 ^ j"
proof -
  assume "rx_cfg s"
  then have "int (unat (prx_window_size s)) = half_window (prc_sn_size (prx_cfg s))"
    by (simp add: rx_cfg_def)
  then have "unat (prx_window_size s) = 2 ^ (pdcp_sn_size_to_uint (prc_sn_size (prx_cfg s)) - 1)"
    unfolding half_window_def by (metis of_nat_eq_iff of_nat_numeral of_nat_power)
  then show ?thesis by blast
qed

lemma mod_inj_window:
  fixes x y W d :: nat
  assumes "x mod W = y mod W" "d \<le> x" "x < d + W" "d \<le> y" "y < d + W"
  shows "x = y"
proof (rule ccontr)
  assume "x \<noteq> y"
  have "W dvd (if x < y then y - x else x - y)"
    using assms(1) mod_eq_dvd_iff_nat [of x y W] mod_eq_dvd_iff_nat [of y x W] by simp
  then have "W \<le> (if x < y then y - x else x - y)"
    using \<open>x \<noteq> y\<close> by (intro dvd_imp_le) (auto split: if_splits)
  then show False using assms(2-5) by (auto split: if_splits)
qed

lemma rx_slot_free:
  assumes "rx_cfg s" "rx_win D s" "pst_deliv s \<le> c" "count_ok s c"
  shows "slot_free (prx_window s) c"
proof (rule slot_freeI)
  show "cm_wf (prx_window s)" using assms(2) by (simp add: rx_win_def)
  obtain j where j: "unat (prx_window_size s) = 2 ^ j" using power_of_two_window [OF assms(1)] by blast
  then have sz: "cm_max_size (prx_window s) = 2 ^ j" using assms(2) by (simp add: rx_win_def)
  fix k
  assume k: "cm_lookup (prx_window s) k \<noteq> None" "get_circular_idx (prx_window s) k = get_circular_idx (prx_window s) c"
  then have "unat k mod 2 ^ j = unat c mod 2 ^ j" by (simp add: idx_mod [OF sz])
  moreover have "unat (pst_deliv s) \<le> unat k" "unat k < unat (pst_deliv s) + 2 ^ j"
    using assms(2) k(1) j by (fastforce simp: rx_win_def word_le_nat_alt word_less_nat_alt)+
  moreover have "unat (pst_deliv s) \<le> unat c" "unat c < unat (pst_deliv s) + 2 ^ j"
    using assms(3,4) j by (auto simp: count_ok_def word_le_nat_alt)
  ultimately have "unat k = unat c" by (rule mod_inj_window)
  then show "k = c" by (simp add: word_unat_eq_iff)
qed

section \<open>t-Reordering\<close>

lemma t_reordering_expire_ok:
  assumes cfg: "rx_cfg s" and win: "rx_win D s" and r: "pst_deliv s \<le> pst_reord s" "pst_reord s \<le> pst_next s"
    and t: "0 < prc_t_reordering (prx_cfg s) \<or> pst_reord s = pst_next s"
  shows "\<exists>w d r tm as. handle_t_reordering_expire s =
      Inr (s\<lparr>prx_window := w, pst_deliv := d, pst_reord := r, prx_reordering_timer := tm\<rparr>, as) \<and>
     emptied_to d s w as \<and> pst_reord s \<le> d \<and> d \<le> pst_next s \<and> (d = pst_next s \<or> cm_lookup w d = None) \<and>
     timer_set tm = timer_set (prx_reordering_timer s) \<and>
     (if d < pst_next s then r = pst_next s \<and> is_running tm \<and> 0 < prc_t_reordering (prx_cfg s)
      else tm = prx_reordering_timer s)"
proof -
  obtain w as where w: "deliver_until_reord s = Inr (s\<lparr>prx_window := w, pst_deliv := pst_reord s\<rparr>, as)"
      "emptied_to (pst_reord s) s w as"
    using deliver_until_reord_ok [OF rx_win_from [OF win] r(1)] by blast
  let ?s = "s\<lparr>prx_window := w, pst_deliv := pst_reord s\<rparr>"
  have win': "rx_win D ?s" using rx_win_emptied [OF win w(2) r] .
  obtain w' d as' where w': "deliver_all_consecutive_counts ?s = Inr (?s\<lparr>prx_window := w', pst_deliv := d\<rparr>, as')"
      "emptied_to d ?s w' as'" "pst_reord s \<le> d" "d \<le> pst_next s" "d = pst_next s \<or> cm_lookup w' d = None"
    using deliver_consecutive_ok [OF rx_win_from [OF win']] win' by (auto simp: rx_win_def)
  have e: "emptied_to d s w' (as @ as')"
    using emptied_to_trans [OF w(2) _ w'(3)] w'(2) by (simp add: emptied_to_frame)
  then have e': "emptied_to d s w' (Rx_Metrics_T_Reordering_Timeout # as @ as')"
    by (simp add: emptied_to_def delivers_def)
  show ?thesis
  proof (cases "d < pst_next s")
    case True
    then have "0 < prc_t_reordering (prx_cfg s)" using t w'(3) by auto
    moreover from this have "timer_set (prx_reordering_timer s)" using cfg by (simp add: rx_cfg_def)
    ultimately show ?thesis
      using True w(1) w' e'
      by - (rule exI [of _ w'], rule exI [of _ d], rule exI [of _ "pst_next s"],
          rule exI [of _ "(prx_reordering_timer s)\<lparr>is_running := True\<rparr>"],
          auto simp: handle_t_reordering_expire_def)
  next
    case False
    then show ?thesis
      using w(1) w' e'
      by - (rule exI [of _ w'], rule exI [of _ d], rule exI [of _ "pst_reord s"], rule exI [of _ "prx_reordering_timer s"],
          auto simp: handle_t_reordering_expire_def)
  qed
qed

end
