(* ===== verification/Pdcp_Rx_Reorder.thy ===== *)
theory Pdcp_Rx_Reorder
  imports Pdcp_Rx_Inv
begin

text \<open>
  Every handler of the receiving PDCP entity keeps the invariant \<open>rx_inv\<close>, never faults, and delivers SDUs in the
  order of COUNT: reordering, the expiry of t-Reordering, re-establishment, and the cryptographic tasks.
\<close>

section \<open>Storing an SDU\<close>

definition sdu_of :: "pdcp_rx_pdu_info \<Rightarrow> pdcp_rx_sdu_info" where
  "sdu_of i = \<lparr>rsi_buf = rpi_buf i, rsi_count = rpi_count i, rsi_time_of_arrival = rpi_time_of_arrival i\<rparr>"

lemma store_duplicate:
  assumes "rx_win D s" "cm_lookup (prx_window s) (rpi_count i) = Some info"
  shows "store_sdu i s = Inr None"
  using assms by (auto simp: store_sdu_def has_sn_lookup at_cm_Some rx_win_def)

lemma store_new:
  assumes "cm_lookup (prx_window s) (rpi_count i) = None"
  shows "store_sdu i s = Inr (Some (s\<lparr>prx_window := overwrite (prx_window s) (rpi_count i) (sdu_of i)\<rparr>))"
  using assms by (simp add: store_sdu_def has_sn_lookup add_sn_def sdu_of_def Let_def)

definition max_next :: "u32 \<Rightarrow> u32 \<Rightarrow> u32" where
  "max_next n c = (if n \<le> c then c + 1 else n)"

lemma max_next_ge: "c < h \<Longrightarrow> n \<le> max_next n c" "c < h \<Longrightarrow> c < max_next n c"
  using unat_inc [of c h] by (auto simp: max_next_def word_le_nat_alt word_less_nat_alt)

lemma rx_win_stored:
  assumes cfg: "rx_cfg s" and win: "rx_win D s" and c: "pst_deliv s \<le> rpi_count i" "count_ok s (rpi_count i)"
    and D: "D (rpi_count i) (rpi_buf i)"
  defines "s1 \<equiv> s\<lparr>prx_window := overwrite (prx_window s) (rpi_count i) (sdu_of i), pst_next := max_next (pst_next s) (rpi_count i)\<rparr>"
  shows "rx_win D s1"
    and "cm_lookup (prx_window s1) = (cm_lookup (prx_window s))(rpi_count i \<mapsto> sdu_of i)"
proof -
  let ?c = "rpi_count i"
  have wf: "cm_wf (prx_window s)" using win by (simp add: rx_win_def)
  have look: "cm_lookup (overwrite (prx_window s) ?c (sdu_of i)) = (cm_lookup (prx_window s))(?c \<mapsto> sdu_of i)"
    by (rule cm_lookup_overwrite [OF wf rx_slot_free [OF cfg win c]])
  then show "cm_lookup (prx_window s1) = (cm_lookup (prx_window s))(?c \<mapsto> sdu_of i)" by (simp add: s1_def)
  have lt: "?c < mc_hard (prc_max_count (prx_cfg s))" using c(2) by (simp add: count_ok_def)
  note ge = max_next_ge [OF lt, of "pst_next s"]
  have "unat (max_next (pst_next s) ?c) \<le> unat (pst_deliv s) + unat (prx_window_size s)"
    using win c(2) unat_inc [OF lt] by (auto simp: max_next_def rx_win_def count_ok_def)
  moreover have "max_next (pst_next s) ?c \<le> mc_hard (prc_max_count (prx_cfg s))"
    using win lt inc_le_iff [OF lt] by (auto simp: max_next_def rx_win_def)
  moreover have "pst_deliv s \<le> max_next (pst_next s) ?c"
    using c(1) ge(2) by simp
  moreover have "k < max_next (pst_next s) ?c" if "k < pst_next s" for k
    using that ge(1) by simp
  ultimately show "rx_win D s1"
    using win c(1) ge(2) D look cm_wf_overwrite [OF wf]
    by (auto simp: rx_win_def s1_def sdu_of_def split: if_splits)
qed

section \<open>Reordering\<close>

text \<open>The state after a handler that touches the window, the state variables and the timer.\<close>

definition rx_upd ::
  "u32 \<Rightarrow> pdcp_rx_sdu_info sdu_window \<Rightarrow> u32 \<Rightarrow> u32 \<Rightarrow> unique_timer \<Rightarrow> pdcp_entity_rx \<Rightarrow> pdcp_entity_rx" where
  "rx_upd n w d r t s =
     s\<lparr>pst_next := n, prx_window := w, pst_deliv := d, pst_reord := r, prx_reordering_timer := t\<rparr>"

lemma rx_upd_simps [simp]:
  "pst_next (rx_upd n w d r t s) = n" "prx_window (rx_upd n w d r t s) = w" "pst_deliv (rx_upd n w d r t s) = d"
  "pst_reord (rx_upd n w d r t s) = r" "prx_reordering_timer (rx_upd n w d r t s) = t"
  "prx_cfg (rx_upd n w d r t s) = prx_cfg s" "prx_bearer_id (rx_upd n w d r t s) = prx_bearer_id s"
  "prx_hdr_len_bytes (rx_upd n w d r t s) = prx_hdr_len_bytes s"
  "prx_window_size (rx_upd n w d r t s) = prx_window_size s"
  "prx_stopped (rx_upd n w d r t s) = prx_stopped s"
  "prx_sec_engine_pool (rx_upd n w d r t s) = prx_sec_engine_pool s"
  "prx_integrity_enabled (rx_upd n w d r t s) = prx_integrity_enabled s"
  "prx_ciphering_enabled (rx_upd n w d r t s) = prx_ciphering_enabled s"
  "prx_token_mngr (rx_upd n w d r t s) = prx_token_mngr s"
  "prx_buffering (rx_upd n w d r t s) = prx_buffering s"
  "prx_pdu_buffer (rx_upd n w d r t s) = prx_pdu_buffer s"
  "prx_max_nof_crypto_workers (rx_upd n w d r t s) = prx_max_nof_crypto_workers s"
  by (simp_all add: rx_upd_def)

lemma rx_win_next_absent: "rx_win D s \<Longrightarrow> cm_lookup (prx_window s) (pst_next s) = None"
  by (cases "cm_lookup (prx_window s) (pst_next s)") (auto simp: rx_win_def)

lemma rx_cfg_upd: "rx_cfg s \<Longrightarrow> timer_set t = timer_set (prx_reordering_timer s) \<Longrightarrow> rx_cfg (rx_upd n w d r t s)"
  by (simp add: rx_cfg_def)

lemma rx_win_upd: "rx_win D (s\<lparr>pst_next := n, prx_window := w, pst_deliv := d\<rparr>) \<Longrightarrow> rx_win D (rx_upd n w d r t s)"
  by (simp add: rx_win_def)

text \<open>The timers at the end of the handler, in a state where the consecutive COUNTs are delivered.\<close>

lemma reordering_timers_ok:
  assumes cfg: "rx_cfg s" and win: "rx_win D s" and gap: "pst_deliv s = pst_next s \<or> cm_lookup (prx_window s) (pst_deliv s) = None"
    and run: "is_running (prx_reordering_timer s) \<longrightarrow> pst_reord s \<le> pst_next s \<and> 0 < prc_t_reordering (prx_cfg s)"
  shows "\<exists>w d r t as. handle_reordering_timers s = Inr (rx_upd (pst_next s) w d r t s, as) \<and>
     rx_inv D (rx_upd (pst_next s) w d r t s) \<and> pst_deliv s \<le> d \<and> emptied_to d s w as"
proof -
  let ?t = "prc_t_reordering (prx_cfg s)"
  define tm where "tm = (if is_running (prx_reordering_timer s) \<and> pst_deliv s \<ge> pst_reord s
      then timer_stop (prx_reordering_timer s) else prx_reordering_timer s)"
  define s1 where "s1 = s\<lparr>prx_reordering_timer := tm\<rparr>"
  have tset: "timer_set tm = timer_set (prx_reordering_timer s)" by (simp add: tm_def)
  have eq: "handle_reordering_timers s =
      (if ?t = t_reordering_infinity then Inr (s1, [])
       else if ?t = 0 then handle_t_reordering_expire (s1\<lparr>pst_reord := pst_next s1\<rparr>)
       else if \<not> is_running tm \<and> pst_deliv s < pst_next s then
         bind_res (timer_run tm) (\<lambda>t. Inr (s1\<lparr>pst_reord := pst_next s, prx_reordering_timer := t\<rparr>, []))
       else Inr (s1, []))"
    by (auto simp: handle_reordering_timers_def Let_def s1_def tm_def)
  have gap': "cm_lookup (prx_window s) (pst_deliv s) = None"
    using gap rx_win_next_absent [OF win] by auto
  have t1: "- 1 \<le> ?t" and set: "timer_set (prx_reordering_timer s) = (0 < ?t)" using cfg by (simp_all add: rx_cfg_def)
  have le: "pst_deliv s \<le> pst_next s" using win by (simp add: rx_win_def)
  have nil: "emptied_to (pst_deliv s) s (prx_window s) []" by (rule emptied_to_nil [OF rx_win_from [OF win]])
  have same: "rx_upd (pst_next s) (prx_window s) (pst_deliv s) (pst_reord s) tm s = s1"
    by (simp add: rx_upd_def s1_def)
  have tm_run: "is_running tm \<Longrightarrow> pst_deliv s < pst_reord s \<and> pst_reord s \<le> pst_next s \<and> 0 < ?t"
    using run by (auto simp: tm_def not_le split: if_splits)
  have inv1: "rx_inv D s1" if "is_running tm \<or> ?t = t_reordering_infinity \<or> pst_deliv s = pst_next s"
    using cfg win gap' that tm_run tset by (auto simp: rx_inv_def rx_cfg_def rx_win_def s1_def)
  consider "?t = t_reordering_infinity" | "?t = 0" | "0 < ?t" "\<not> is_running tm" "pst_deliv s < pst_next s"
    | "0 < ?t" "is_running tm \<or> pst_deliv s = pst_next s"
    using t1 le by (fastforce simp: t_reordering_infinity_def)
  then show ?thesis
  proof cases
    case 1
    then have "handle_reordering_timers s = Inr (s1, [])" by (simp add: eq)
    then show ?thesis
      using inv1 1 nil unfolding same [symmetric] by blast
  next
    case 2
    let ?s = "s1\<lparr>pst_reord := pst_next s\<rparr>"
    have "rx_cfg ?s" "rx_win D ?s" using cfg win tset by (simp_all add: rx_cfg_def rx_win_def s1_def)
    then obtain w d r t' as where e: "handle_t_reordering_expire ?s =
        Inr (?s\<lparr>prx_window := w, pst_deliv := d, pst_reord := r, prx_reordering_timer := t'\<rparr>, as)"
      "emptied_to d ?s w as" "pst_next s \<le> d" "d \<le> pst_next s" "timer_set t' = timer_set tm"
      "if d < pst_next s then r = pst_next s \<and> is_running t' \<and> 0 < ?t else t' = tm"
      using t_reordering_expire_ok [of ?s D] le by (auto simp: s1_def)
    then have d: "d = pst_next s" and t': "t' = tm" by auto
    have e2: "emptied_to d s w as" using e(2) by (simp add: emptied_to_def s1_def)
    have "\<not> is_running tm" using tm_run 2 by auto
    moreover have win2: "rx_win D (s\<lparr>prx_window := w, pst_deliv := d\<rparr>)"
      using rx_win_emptied [OF win e2] le d by simp
    moreover have "cm_lookup w (pst_next s) = None" using rx_win_next_absent [OF win2] by simp
    ultimately have "rx_inv D (rx_upd (pst_next s) w d r tm s)"
      using rx_cfg_upd [OF cfg tset] d by (auto simp: rx_inv_def rx_win_def)
    moreover have "handle_reordering_timers s = Inr (rx_upd (pst_next s) w d r tm s, as)"
      using e(1) 2 t' by (simp add: eq t_reordering_infinity_def rx_upd_def s1_def)
    ultimately show ?thesis using e2 d le by blast
  next
    case 3
    let ?tm = "tm\<lparr>is_running := True\<rparr>"
    have "timer_run tm = Inr ?tm" using 3 set tset by simp
    then have "handle_reordering_timers s = Inr (rx_upd (pst_next s) (prx_window s) (pst_deliv s) (pst_next s) ?tm s, [])"
      using 3 by (simp add: eq t_reordering_infinity_def rx_upd_def s1_def)
    moreover have "rx_inv D (rx_upd (pst_next s) (prx_window s) (pst_deliv s) (pst_next s) ?tm s)"
      using cfg win gap' 3 tset by (auto simp: rx_inv_def rx_cfg_def rx_win_def)
    ultimately show ?thesis using nil by blast
  next
    case 4
    then have "handle_reordering_timers s = Inr (s1, [])" by (auto simp: eq t_reordering_infinity_def)
    then show ?thesis
      using inv1 4 nil unfolding same [symmetric] by blast
  qed
qed

lemma reordering_unfold:
  assumes "pst_deliv s \<le> rpi_count i" "cm_lookup (prx_window s) (rpi_count i) = None"
  defines "s1 \<equiv> s\<lparr>prx_window := overwrite (prx_window s) (rpi_count i) (sdu_of i), pst_next := max_next (pst_next s) (rpi_count i)\<rparr>"
  shows "rx_apply_reordering i s =
    bind_res (if rpi_count i = pst_deliv s1 then deliver_all_consecutive_counts s1 else Inr (s1, []))
      (\<lambda>(s, as). bind_res (handle_reordering_timers s) (\<lambda>(s, as'). Inr (s, as @ as')))"
proof -
  let ?s = "s\<lparr>prx_window := overwrite (prx_window s) (rpi_count i) (sdu_of i)\<rparr>"
  have eq: "(if pst_next ?s \<le> rpi_count i then ?s\<lparr>pst_next := rpi_count i + 1\<rparr> else ?s) = s1"
    by (simp add: s1_def max_next_def)
  have nl: "(rpi_count i < pst_deliv s) = False" using assms(1) by simp
  show ?thesis
    by (simp only: rx_apply_reordering_def Let_def store_new [OF assms(2)] bind_res_simps option.case nl if_False eq)
qed

text \<open>
  A COUNT that is new is stored; the SDUs below the new \<open>pst_deliv\<close> are delivered and the others stay.
\<close>

lemma reordering_ok:
  assumes inv: "rx_inv D s" and c: "pst_deliv s \<le> rpi_count i" "count_ok s (rpi_count i)"
    and new: "cm_lookup (prx_window s) (rpi_count i) = None" and D: "D (rpi_count i) (rpi_buf i)"
  defines "look \<equiv> (cm_lookup (prx_window s))(rpi_count i \<mapsto> sdu_of i)"
  shows "\<exists>w d r t as. rx_apply_reordering i s = Inr (rx_upd (max_next (pst_next s) (rpi_count i)) w d r t s, as) \<and>
     rx_inv D (rx_upd (max_next (pst_next s) (rpi_count i)) w d r t s) \<and> pst_deliv s \<le> d \<and>
     cm_lookup w = below d look \<and> delivers look d as"
proof -
  let ?c = "rpi_count i" and ?n = "max_next (pst_next s) (rpi_count i)"
  have cfg: "rx_cfg s" and win: "rx_win D s" and gap: "cm_lookup (prx_window s) (pst_deliv s) = None"
    and run: "is_running (prx_reordering_timer s) \<Longrightarrow> pst_deliv s < pst_reord s \<and> pst_reord s \<le> pst_next s \<and>
        0 < prc_t_reordering (prx_cfg s)"
    using inv by (simp_all add: rx_inv_def)
  let ?s1 = "s\<lparr>prx_window := overwrite (prx_window s) ?c (sdu_of i), pst_next := ?n\<rparr>"
  have win1: "rx_win D ?s1" and look1: "cm_lookup (prx_window ?s1) = look"
    using rx_win_stored [OF cfg win c D] by (simp_all add: look_def)
  have lt: "?c < mc_hard (prc_max_count (prx_cfg s))" using c(2) by (simp add: count_ok_def)
  obtain w d as where e: "(if ?c = pst_deliv ?s1 then deliver_all_consecutive_counts ?s1 else Inr (?s1, [])) =
      Inr (?s1\<lparr>prx_window := w, pst_deliv := d\<rparr>, as)" "emptied_to d ?s1 w as" "pst_deliv s \<le> d" "d \<le> ?n"
      "d = ?n \<or> cm_lookup w d = None"
  proof (cases "?c = pst_deliv s")
    case True
    have le1: "pst_deliv ?s1 \<le> pst_next ?s1" using win1 unfolding rx_win_def by blast
    show ?thesis
      using deliver_consecutive_ok [OF rx_win_from [OF win1] le1] that True by auto
  next
    case False
    have "emptied_to (pst_deliv s) ?s1 (prx_window ?s1) []"
      using emptied_to_nil [OF rx_win_from [OF win1]] by simp
    moreover have "cm_lookup (prx_window ?s1) (pst_deliv s) = None"
      using gap False unfolding look1 by (simp add: look_def)
    moreover have "pst_deliv s \<le> ?n" using win1 by (simp add: rx_win_def)
    moreover have "?s1\<lparr>prx_window := prx_window ?s1, pst_deliv := pst_deliv s\<rparr> = ?s1" by simp
    ultimately show ?thesis using that [of "pst_deliv s" "prx_window ?s1" "[]"] False by simp
  qed
  let ?s2 = "?s1\<lparr>prx_window := w, pst_deliv := d\<rparr>"
  have win2: "rx_win D ?s2" using rx_win_emptied [OF win1 e(2)] e(3,4) by simp
  have cfg2: "rx_cfg ?s2" using cfg by (simp add: rx_cfg_def)
  have run2: "is_running (prx_reordering_timer ?s2) \<longrightarrow> pst_reord ?s2 \<le> pst_next ?s2 \<and> 0 < prc_t_reordering (prx_cfg ?s2)"
    using run max_next_ge(1) [OF lt, of "pst_next s"] by auto
  have gap2: "pst_deliv ?s2 = pst_next ?s2 \<or> cm_lookup (prx_window ?s2) (pst_deliv ?s2) = None"
    using e(5) by simp
  obtain w' d' r t as' where f: "handle_reordering_timers ?s2 = Inr (rx_upd ?n w' d' r t ?s2, as')"
      "rx_inv D (rx_upd ?n w' d' r t ?s2)" "d \<le> d'" "emptied_to d' ?s2 w' as'"
    using reordering_timers_ok [OF cfg2 win2 gap2 run2] by auto
  have upd: "rx_upd ?n w' d' r t ?s2 = rx_upd ?n w' d' r t s" by (simp add: rx_upd_def)
  have "emptied_to d' ?s1 w' (as @ as')"
    using emptied_to_trans [OF e(2) _ f(3)] f(4) by (simp add: emptied_to_frame)
  then have "cm_lookup w' = below d' look" "delivers look d' (as @ as')"
    using look1 by (simp_all add: emptied_to_def)
  moreover have "rx_apply_reordering i s = Inr (rx_upd ?n w' d' r t s, as @ as')"
    using e(1) f(1) upd unfolding reordering_unfold [OF c(1) new] by simp
  moreover have "pst_deliv s \<le> d'" using e(3) f(3) by simp
  ultimately show ?thesis using f(2) upd by auto
qed

end
