(* ===== verification/Pdcp_Rx_Sys.thy ===== *)
theory Pdcp_Rx_Sys
  imports Pdcp_Rx_Reorder
begin

text \<open>
  The receiving PDCP entity with its tasks in flight: \<open>sys_inv\<close> is the invariant of the whole, \<open>rx_allowed\<close> the
  obligations of the caller for each event (PDUs that are long enough for the header and the MAC, workers that
  exist, waiting for the tasks before keys or state variables change, and the order of stopping and restarting),
  and every allowed event is handled without a fault, keeps the invariant and delivers in the order of COUNT.
\<close>

unbundle bit_operations_syntax

section \<open>Deliveries\<close>

definition emits :: "(u32 \<Rightarrow> byte_buffer \<Rightarrow> bool) \<Rightarrow> u32 \<Rightarrow> u32 \<Rightarrow> pdcp_rx_action list \<Rightarrow> bool" where
  "emits D a b as \<longleftrightarrow>
     sorted_wrt (<) (map fst (delivered_sdus as)) \<and>
     (\<forall>(c, sdu) \<in> set (delivered_sdus as). a \<le> c \<and> c < b \<and> D c sdu)"

lemma emits_nil: "delivered_sdus as = [] \<Longrightarrow> emits D a b as"
  by (simp add: emits_def)

lemma emits_cong: "emits D a b as \<Longrightarrow> delivered_sdus as' = delivered_sdus as \<Longrightarrow> emits D a b as'"
  by (simp add: emits_def)

lemma emits_append:
  assumes "emits D a b as" "emits D b c as'" "a \<le> b" "b \<le> c"
  shows "emits D a c (as @ as')"
proof -
  have "x < y" if "x \<in> set (map fst (delivered_sdus as))" "y \<in> set (map fst (delivered_sdus as'))" for x y
    using that assms(1,2) by (fastforce simp: emits_def)
  then have "sorted_wrt (<) (map fst (delivered_sdus (as @ as')))"
    using assms(1,2) unfolding emits_def delivered_sdus_append map_append sorted_wrt_append by blast
  moreover have "a \<le> x \<and> x < c \<and> D x y" if "(x, y) \<in> set (delivered_sdus (as @ as'))" for x y
    using that assms by (fastforce simp: emits_def)
  ultimately show ?thesis by (auto simp: emits_def)
qed

lemma emits_delivers:
  assumes "delivers look d as" "\<And>c info. look c = Some info \<Longrightarrow> a \<le> c \<and> D c (rsi_buf info)"
  shows "emits D a d as"
  using assms by (auto simp: emits_def delivers_def)

section \<open>Tasks\<close>

text \<open>The bytes that a cryptographic task may remove at the end of a PDU.\<close>

definition trailer :: "pdcp_entity_rx \<Rightarrow> nat" where
  "trailer s =
     (if prx_is_srb s \<or> (\<exists>e. Some e \<in> set (prx_sec_engine_pool s) \<and> integ_eng e \<noteq> None) then sec_mac_len else 0)"

definition long_enough :: "pdcp_entity_rx \<Rightarrow> byte_buffer \<Rightarrow> bool" where
  "long_enough s buf \<longleftrightarrow> hdr_size (prc_sn_size (prx_cfg s)) + trailer s \<le> length buf"

definition crypto_task_ok :: "(u32 \<Rightarrow> byte_buffer \<Rightarrow> bool) \<Rightarrow> pdcp_entity_rx \<Rightarrow> pdcp_rx_pdu_info \<Rightarrow> bool" where
  "crypto_task_ok C s i \<longleftrightarrow> count_ok s (rpi_count i) \<and> long_enough s (rpi_buf i) \<and> C (rpi_count i) (rpi_buf i)"

definition ue_task_ok :: "(u32 \<Rightarrow> byte_buffer \<Rightarrow> bool) \<Rightarrow> pdcp_entity_rx \<Rightarrow> pdcp_rx_ue_task \<Rightarrow> bool" where
  "ue_task_ok D s t \<longleftrightarrow> (case t of Handle_Failure _ \<Rightarrow> True | Reorder i \<Rightarrow> count_ok s (rpi_count i) \<and> D (rpi_count i) (rpi_buf i))"

text \<open>What a PDU that satisfies \<open>C\<close> deciphers to satisfies \<open>D\<close>, with the keys that are in use.\<close>

definition sec_link ::
  "crypto_prims \<Rightarrow> (u32 \<Rightarrow> byte_buffer \<Rightarrow> bool) \<Rightarrow> (u32 \<Rightarrow> byte_buffer \<Rightarrow> bool) \<Rightarrow> pdcp_entity_rx \<Rightarrow> bool" where
  "sec_link P C D s \<longleftrightarrow>
     (\<forall>w count buf r buf'. C count buf \<longrightarrow> apply_deciphering_and_integrity_check P w buf count s = Inr r \<longrightarrow>
        result_buf r = Inr buf' \<longrightarrow> D count (drop (hdr_size (prc_sn_size (prx_cfg s))) buf'))"

lemma deciphering_ok:
  assumes "rx_cfg s" "cipher_ok P" "long_enough s buf" "w < prx_max_nof_crypto_workers s"
  shows "\<exists>r. apply_deciphering_and_integrity_check P w buf count s = Inr r \<and>
     (\<forall>buf'. result_buf r = Inr buf' \<longrightarrow> hdr_size (prc_sn_size (prx_cfg s)) \<le> length buf')"
proof (cases "prx_sec_engine_pool s ! w")
  case None
  then show ?thesis
    using assms(3,4) by (auto simp: apply_deciphering_and_integrity_check_def long_enough_def trailer_def)
next
  case (Some e)
  have "Some e \<in> set (prx_sec_engine_pool s)"
    using Some assms(1,4) by (metis nth_mem rx_cfg_def)
  then have "mac_size e \<le> trailer s" by (auto simp: mac_size_def trailer_def)
  then show ?thesis
    using assms(3,4) Some decrypt_length [OF assms(2), of "hdr_size (prc_sn_size (prx_cfg s))" buf e count]
    by (fastforce simp: apply_deciphering_and_integrity_check_def long_enough_def)
qed

section \<open>The invariant of the whole\<close>

definition nof_tasks :: "pdcp_rx_sys \<Rightarrow> nat" where
  "nof_tasks y = length (sys_crypto y) + length (sys_ue y)"

definition tokens_ok :: "nat \<Rightarrow> bool \<Rightarrow> pdcp_crypto_token_manager \<Rightarrow> bool" where
  "tokens_ok n halted m \<longleftrightarrow>
     n \<le> 2 ^ 31 \<and> tokens m = of_nat n - of_bool halted \<and> (pending_crypto m \<longleftrightarrow> halted \<and> n = 0)"

definition sys_inv ::
  "(u32 \<Rightarrow> byte_buffer \<Rightarrow> bool) \<Rightarrow> (u32 \<Rightarrow> byte_buffer \<Rightarrow> bool) \<Rightarrow> pdcp_rx_sys \<Rightarrow> bool" where
  "sys_inv C D y \<longleftrightarrow>
     rx_inv D (sys_ent y) \<and> (\<forall>i \<in> set (sys_crypto y). crypto_task_ok C (sys_ent y) i) \<and>
     (\<forall>t \<in> set (sys_ue y). ue_task_ok D (sys_ent y) t) \<and>
     tokens_ok (nof_tasks y) (sys_halted y) (prx_token_mngr (sys_ent y)) \<and>
     (prx_stopped (sys_ent y) \<longrightarrow> sys_halted y)"

lemma tokens_increment:
  "tokens_ok n False m \<Longrightarrow> n < 2 ^ 31 \<Longrightarrow> tokens_ok (Suc n) False (increment_token m)"
  by (simp add: tokens_ok_def increment_token_def)

lemma tokens_return:
  assumes "tokens_ok (Suc n) h m"
  shows "\<exists>m'. return_token m = Inr m' \<and> tokens_ok n h m'"
proof -
  have n: "n < 2 ^ 31" using assms by (simp add: tokens_ok_def)
  have t: "tokens m = of_nat (if h then n else Suc n)" using assms by (simp add: tokens_ok_def)
  have u: "unat (of_nat (if h then n else Suc n) :: u32) = (if h then n else Suc n)"
    using n by (simp add: unat_of_nat)
  have "tokens m \<noteq> 0xffffffff"
    using n unfolding t word_unat_eq_iff u by simp
  moreover have "tokens m = 0 \<longleftrightarrow> h \<and> n = 0"
    unfolding t word_unat_eq_iff u by auto
  ultimately show ?thesis
    using assms by (auto simp: return_token_def srsran_assert_def tokens_ok_def)
qed

lemma tokens_stop:
  assumes "tokens_ok n False m"
  shows "\<exists>m'. token_stop m = Inr m' \<and> tokens_ok n True m'"
proof -
  have n: "n \<le> 2 ^ 31" and t: "tokens m = of_nat n" using assms by (simp_all add: tokens_ok_def)
  have u: "unat (of_nat n :: u32) = n" using n by (simp add: unat_of_nat)
  have "tokens m \<noteq> 0xffffffff" using n unfolding t word_unat_eq_iff u by simp
  moreover have "tokens m = 0 \<longleftrightarrow> n = 0" unfolding t word_unat_eq_iff u by simp
  ultimately show ?thesis
    using assms by (auto simp: token_stop_def return_token_def srsran_assert_def tokens_ok_def)
qed

lemma tokens_start: "tokens_ok n True m \<Longrightarrow> tokens_ok n False (token_start m)"
  by (simp add: tokens_ok_def token_start_def increment_token_def)

section \<open>PDUs\<close>

text \<open>A reconstructed COUNT below the hard limit did not wrap around.\<close>

lemma estimate_count_ok:
  assumes "rx_cfg s" "rx_win D s" "read_data_pdu_header (prc_sn_size (prx_cfg s)) n pdu = Some sn"
  defines "c \<equiv> estimate_count (prc_sn_size (prx_cfg s)) (prx_window_size s) (pst_deliv s) sn"
  assumes "c < mc_hard (prc_max_count (prx_cfg s))"
  shows "count_ok s c"
proof -
  let ?W = "half_window (prc_sn_size (prx_cfg s))" and ?h = "mc_hard (prc_max_count (prx_cfg s))"
  have w: "uint (prx_window_size s) = ?W" and h: "uint ?h \<le> 2 ^ 32 - ?W"
    using assms(1) by (simp_all add: rx_cfg_def)
  obtain k where k: "- ?W \<le> k" "k < ?W" "c = pst_deliv s + word_of_int k"
    using estimate_count_offset [OF w read_header_less [OF assms(3)], of "pst_deliv s"] by (auto simp: c_def)
  have d: "uint (pst_deliv s) \<le> uint ?h"
    using assms(2) by (auto simp: rx_win_def word_le_def)
  have c: "uint c = (uint (pst_deliv s) + k) mod 2 ^ 32"
    by (simp add: k(3) uint_word_ariths uint_word_of_int mod_add_right_eq)
  have "0 \<le> uint (pst_deliv s) + k"
  proof (rule ccontr)
    assume neg: "\<not> 0 \<le> uint (pst_deliv s) + k"
    have lo: "- (2 ^ 18) \<le> uint (pst_deliv s) + k"
      using k(1) half_window_bound [of "prc_sn_size (prx_cfg s)"] uint_ge_0 [of "pst_deliv s"] by linarith
    have "uint c = (uint (pst_deliv s) + k + 2 ^ 32) mod 2 ^ 32" by (simp add: c)
    also have "\<dots> = uint (pst_deliv s) + k + 2 ^ 32"
      using neg lo by (intro mod_pos_pos_trivial) simp_all
    finally have "uint ?h \<le> uint c" using k(1) h uint_ge_0 [of "pst_deliv s"] by linarith
    then show False using assms(5) by (simp add: word_less_def)
  qed
  moreover have "uint (pst_deliv s) + k < 2 ^ 32" using d h k(2) by linarith
  ultimately have "uint c = uint (pst_deliv s) + k" by (simp add: c)
  then have "uint c < uint (pst_deliv s) + uint (prx_window_size s)" using k(2) w by simp
  then have "unat c < unat (pst_deliv s) + unat (prx_window_size s)"
    by (simp flip: of_nat_less_iff [where ?'a = int])
  then show ?thesis using assms(5) by (simp add: count_ok_def)
qed

text \<open>Handlers that leave the window, the state variables, the timer and the configuration alone.\<close>

definition same_core :: "pdcp_entity_rx \<Rightarrow> pdcp_entity_rx \<Rightarrow> bool" where
  "same_core s s' \<longleftrightarrow>
     pst_next s' = pst_next s \<and> pst_deliv s' = pst_deliv s \<and> pst_reord s' = pst_reord s \<and> prx_cfg s' = prx_cfg s \<and>
     prx_hdr_len_bytes s' = prx_hdr_len_bytes s \<and> prx_window_size s' = prx_window_size s \<and>
     prx_stopped s' = prx_stopped s \<and> prx_sec_engine_pool s' = prx_sec_engine_pool s \<and>
     prx_window s' = prx_window s \<and> prx_reordering_timer s' = prx_reordering_timer s \<and>
     prx_max_nof_crypto_workers s' = prx_max_nof_crypto_workers s"

lemma same_core_refl [simp]: "same_core s s"
  by (simp add: same_core_def)

lemma same_core_trans: "same_core s s' \<Longrightarrow> same_core s' s'' \<Longrightarrow> same_core s s''"
  by (simp add: same_core_def)

lemma same_core_inv:
  assumes "same_core s s'"
  shows "rx_inv D s' = rx_inv D s" "count_ok s' = count_ok s" "long_enough s' = long_enough s"
    "crypto_task_ok C s' = crypto_task_ok C s" "ue_task_ok D s' = ue_task_ok D s"
proof -
  show c: "count_ok s' = count_ok s" and l: "long_enough s' = long_enough s" and "rx_inv D s' = rx_inv D s"
    using assms
    by (simp_all add: same_core_def rx_inv_def rx_cfg_def rx_win_def count_ok_def long_enough_def trailer_def
        prx_is_srb_def fun_eq_iff)
  show "crypto_task_ok C s' = crypto_task_ok C s" "ue_task_ok D s' = ue_task_ok D s"
    by (simp_all add: crypto_task_ok_def ue_task_ok_def fun_eq_iff c l split: pdcp_rx_ue_task.split)
qed

definition rcvd_count :: "pdcp_entity_rx \<Rightarrow> u32 \<Rightarrow> u32" where
  "rcvd_count s sn = estimate_count (prc_sn_size (prx_cfg s)) (prx_window_size s) (pst_deliv s) sn"

definition pdu_ok :: "(u32 \<Rightarrow> byte_buffer \<Rightarrow> bool) \<Rightarrow> pdcp_entity_rx \<Rightarrow> byte_buffer \<Rightarrow> bool" where
  "pdu_ok C s buf \<longleftrightarrow>
     ((prx_is_srb s \<or> pdcp_pdu_get_dc (hd buf) = Pdcp_Data) \<and> prx_hdr_len_bytes s < length buf \<longrightarrow>
        long_enough s buf \<and>
        (\<forall>sn. read_data_pdu_header (prc_sn_size (prx_cfg s)) (prx_hdr_len_bytes s) buf = Some sn \<longrightarrow>
           rcvd_count s sn < mc_hard (prc_max_count (prx_cfg s)) \<longrightarrow> C (rcvd_count s sn) buf))"

lemma check_max_count_frame:
  "check_max_count c s = (s', as) \<Longrightarrow>
     s' = s\<lparr>prx_max_count_notified := prx_max_count_notified s', prx_max_count_overflow := prx_max_count_overflow s'\<rparr> \<and>
     delivered_sdus as = []"
  by (auto simp: check_max_count_def Let_def split: if_splits)

lemma handle_data_pdu_ok:
  assumes inv: "rx_inv D s" and tok: "tokens_ok n False (prx_token_mngr s)" "n < 2 ^ 31"
    and pdu: "pdu_ok C s buf" "prx_is_srb s \<or> pdcp_pdu_get_dc (hd buf) = Pdcp_Data"
  shows "\<exists>s' as ts. rx_handle_data_pdu env buf s = Inr (s', as, ts) \<and> same_core s s' \<and> delivered_sdus as = [] \<and>
     tokens_ok (n + length ts) False (prx_token_mngr s') \<and> (\<forall>i \<in> set ts. crypto_task_ok C s i) \<and>
     length ts \<le> 1 \<and> prx_buffering s' = prx_buffering s"
proof (cases "length buf \<le> prx_hdr_len_bytes s \<or>
    read_data_pdu_header (prc_sn_size (prx_cfg s)) (prx_hdr_len_bytes s) buf = None")
  case True
  then show ?thesis using tok(1) by (auto simp: rx_handle_data_pdu_def)
next
  case False
  then obtain sn where len: "\<not> length buf \<le> prx_hdr_len_bytes s"
    and sn: "read_data_pdu_header (prc_sn_size (prx_cfg s)) (prx_hdr_len_bytes s) buf = Some sn" by auto
  obtain s1 as where chk: "check_max_count (rcvd_count s sn) s = (s1, as)" by (cases "check_max_count (rcvd_count s sn) s")
  obtain a b where s1: "s1 = s\<lparr>prx_max_count_notified := a, prx_max_count_overflow := b\<rparr>" "delivered_sdus as = []"
    by (rule that) (rule conjunct1 [OF check_max_count_frame [OF chk]], rule conjunct2 [OF check_max_count_frame [OF chk]])
  let ?i = "\<lparr>rpi_buf = buf, rpi_count = rcvd_count s sn, rpi_time_of_arrival = env_now env\<rparr>"
  let ?s2 = "s1\<lparr>prx_token_mngr := increment_token (prx_token_mngr s1)\<rparr>"
  have eq: "rx_handle_data_pdu env buf s =
      (if rcvd_count s sn \<ge> mc_hard (prc_max_count (prx_cfg s)) then Inr (s1, Rx_Metrics_Data_Pdus (length buf) # as, [])
       else if env_crypto_ok env then Inr (?s2, Rx_Metrics_Data_Pdus (length buf) # as, [?i])
       else bind_res (release_token ?s2) (\<lambda>s. Inr (s, Rx_Metrics_Data_Pdus (length buf) # as, [])))"
    using len sn chk s1(1) by (simp add: rx_handle_data_pdu_def Let_def rcvd_count_def [symmetric])
  have core: "same_core s s1" "same_core s ?s2" "prx_buffering s1 = prx_buffering s"
    and tk: "prx_token_mngr s1 = prx_token_mngr s"
    by (simp_all add: same_core_def s1)
  have tok2: "tokens_ok (Suc n) False (prx_token_mngr ?s2)" using tokens_increment [OF tok] tk by simp
  then obtain m' where m': "return_token (prx_token_mngr ?s2) = Inr m'" "tokens_ok n False m'"
    using tokens_return by blast
  have task: "crypto_task_ok C s ?i" if "rcvd_count s sn < mc_hard (prc_max_count (prx_cfg s))"
    using estimate_count_ok [of s D, OF _ _ sn] inv that pdu len sn
    by (auto simp: crypto_task_ok_def rx_inv_def pdu_ok_def rcvd_count_def)
  consider "mc_hard (prc_max_count (prx_cfg s)) \<le> rcvd_count s sn"
    | "rcvd_count s sn < mc_hard (prc_max_count (prx_cfg s))" "env_crypto_ok env"
    | "rcvd_count s sn < mc_hard (prc_max_count (prx_cfg s))" "\<not> env_crypto_ok env" by fastforce
  then show ?thesis
  proof cases
    case 1 then show ?thesis using core tok(1) tk s1(2) by (simp add: eq)
  next
    case 2 then show ?thesis using core tok2 s1(2) task by (simp add: eq not_le [symmetric])
  next
    case 3
    then have "rx_handle_data_pdu env buf s = Inr (?s2\<lparr>prx_token_mngr := m'\<rparr>, Rx_Metrics_Data_Pdus (length buf) # as, [])"
      using m'(1) by (simp add: eq release_token_def)
    moreover have "same_core s (?s2\<lparr>prx_token_mngr := m'\<rparr>)" using core(2) by (simp add: same_core_def)
    ultimately show ?thesis using core(3) m'(2) s1(2) by simp
  qed
qed

lemma handle_pdu_ok:
  assumes inv: "rx_inv D s" and tok: "tokens_ok n False (prx_token_mngr s)" "n < 2 ^ 31" and pdu: "pdu_ok C s buf"
  shows "\<exists>s' as ts. rx_handle_pdu env buf s = Inr (s', as, ts) \<and> same_core s s' \<and> delivered_sdus as = [] \<and>
     tokens_ok (n + length ts) False (prx_token_mngr s') \<and> (\<forall>i \<in> set ts. crypto_task_ok C s i) \<and>
     length ts \<le> 1 \<and> prx_buffering s' = prx_buffering s"
proof (cases "\<not> prx_stopped s \<and> \<not> prx_buffering s \<and> buf \<noteq> [] \<and> env_copy_ok env \<and>
    (prx_is_srb s \<or> pdcp_pdu_get_dc (hd buf) = Pdcp_Data)")
  case True
  then obtain s' as ts where "rx_handle_data_pdu env buf s = Inr (s', as, ts)" "same_core s s'" "delivered_sdus as = []"
      "tokens_ok (n + length ts) False (prx_token_mngr s')" "\<forall>i \<in> set ts. crypto_task_ok C s i"
      "length ts \<le> 1" "prx_buffering s' = prx_buffering s"
    using handle_data_pdu_ok [OF inv tok pdu, of env] by blast
  then show ?thesis using True by (simp add: rx_handle_pdu_def)
next
  case False
  have "pdcp_pdu_get_dc b = Pdcp_Control \<longleftrightarrow> pdcp_pdu_get_dc b \<noteq> Pdcp_Data" for b
    by (simp add: pdcp_pdu_get_dc_def)
  then show ?thesis
    using False tok(1)
    by (auto simp: rx_handle_pdu_def rx_handle_control_pdu_def srsran_assert_def same_core_def)
qed

lemma handle_pdu_idle:
  assumes "prx_stopped s \<or> prx_buffering s"
  shows "\<exists>s'. rx_handle_pdu env buf s = Inr (s', [], []) \<and> same_core s s' \<and> prx_token_mngr s' = prx_token_mngr s"
  using assms by (auto simp: rx_handle_pdu_def same_core_def)

lemma pdu_ok_core: "same_core s s' \<Longrightarrow> pdu_ok C s' buf = pdu_ok C s buf"
  using same_core_inv(3) [of s s']
  by (simp add: pdu_ok_def rcvd_count_def prx_is_srb_def) (simp add: same_core_def)

lemma drain_buffer_ok:
  assumes "rx_inv D s" "tokens_ok n False (prx_token_mngr s)" "n + length bufs < 2 ^ 31"
    "\<forall>buf \<in> set bufs. pdu_ok C s buf"
  shows "\<exists>s' as ts. drain_pdu_buffer env bufs s = Inr (s', as, ts) \<and> same_core s s' \<and> delivered_sdus as = [] \<and>
     tokens_ok (n + length ts) False (prx_token_mngr s') \<and> (\<forall>i \<in> set ts. crypto_task_ok C s i)"
  using assms
proof (induction bufs arbitrary: s n)
  case Nil
  then show ?case by simp
next
  case (Cons buf bufs)
  obtain s1 as ts where 1: "rx_handle_pdu (env (length bufs)) buf s = Inr (s1, as, ts)" "same_core s s1"
      "delivered_sdus as = []" "tokens_ok (n + length ts) False (prx_token_mngr s1)"
      "\<forall>i \<in> set ts. crypto_task_ok C s i" "length ts \<le> 1"
    using handle_pdu_ok [OF Cons.prems(1,2), of C buf "env (length bufs)"] Cons.prems(3,4) by auto
  obtain s2 as' ts' where 2: "drain_pdu_buffer env bufs s1 = Inr (s2, as', ts')" "same_core s1 s2"
      "delivered_sdus as' = []" "tokens_ok (n + length ts + length ts') False (prx_token_mngr s2)"
      "\<forall>i \<in> set ts'. crypto_task_ok C s1 i"
    using Cons.IH [of s1 "n + length ts"] Cons.prems 1 by (auto simp: same_core_inv [OF 1(2)] pdu_ok_core [OF 1(2)])
  have core: "same_core s s2" using 1(2) 2(2) by (rule same_core_trans)
  have "drain_pdu_buffer env (buf # bufs) s = Inr (s2, as @ as', ts @ ts')"
    using 1(1) 2(1) by simp
  moreover have "\<forall>i \<in> set (ts @ ts'). crypto_task_ok C s i"
    using 1(5) 2(5) by (auto simp: same_core_inv [OF 1(2)])
  ultimately show ?case using 1(3) 2(3,4) core by (simp add: add.assoc)
qed

section \<open>The tasks of the executors\<close>

lemma apply_security_ok:
  assumes "rx_cfg s" "cipher_ok P" "crypto_task_ok C s i" "w < prx_max_nof_crypto_workers s" "sec_link P C D s"
    "tokens_ok (Suc n) h (prx_token_mngr s)"
  shows "\<exists>s' ts. rx_apply_security P w ue_ok i s = Inr (s', ts) \<and> same_core s s' \<and>
     (\<forall>t \<in> set ts. ue_task_ok D s t) \<and> tokens_ok (n + length ts) h (prx_token_mngr s')"
proof -
  let ?h = "hdr_size (prc_sn_size (prx_cfg s))"
  obtain r where r: "apply_deciphering_and_integrity_check P w (rpi_buf i) (rpi_count i) s = Inr r"
      "\<And>buf'. result_buf r = Inr buf' \<Longrightarrow> ?h \<le> length buf'"
    using deciphering_ok [OF assms(1,2) _ assms(4), of "rpi_buf i" "rpi_count i"] assms(3)
    by (auto simp: crypto_task_ok_def)
  obtain m' where m': "return_token (prx_token_mngr s) = Inr m'" "tokens_ok n h m'"
    using tokens_return [OF assms(6)] by blast
  have core: "same_core s (s\<lparr>prx_token_mngr := m'\<rparr>)" by (simp add: same_core_def)
  obtain t where t: "(case result_buf r of
          Inl sec_err \<Rightarrow> Inr (Handle_Failure sec_err)
        | Inr buf \<Rightarrow>
            bind_res (srsran_assert (length buf \<ge> ?h) ''Trying to trim more bytes than those available'') (\<lambda>_.
              Inr (Reorder (i\<lparr>rpi_buf := drop ?h buf\<rparr>)))) = Inr t" "ue_task_ok D s t"
  proof (cases "result_buf r")
    case (Inl err)
    then show ?thesis using that [of "Handle_Failure err"] by (simp add: ue_task_ok_def)
  next
    case (Inr buf')
    have "C (rpi_count i) (rpi_buf i)" "count_ok s (rpi_count i)" using assms(3) by (simp_all add: crypto_task_ok_def)
    then have "ue_task_ok D s (Reorder (i\<lparr>rpi_buf := drop ?h buf'\<rparr>))"
      using assms(5) r(1) Inr by (auto simp: ue_task_ok_def sec_link_def)
    then show ?thesis
      using that [of "Reorder (i\<lparr>rpi_buf := drop ?h buf'\<rparr>)"] Inr r(2) by (simp add: srsran_assert_def)
  qed
  have "rx_apply_security P w ue_ok i s =
      (if ue_ok then Inr (s, [t]) else bind_res (release_token s) (\<lambda>s. Inr (s, [])))"
    unfolding rx_apply_security_def r(1) bind_res_simps t(1) by simp
  then show ?thesis
    using t(2) m' core assms(6) by (cases ue_ok) (simp_all add: release_token_def)
qed

definition advances :: "pdcp_entity_rx \<Rightarrow> pdcp_entity_rx \<Rightarrow> bool" where
  "advances s s' \<longleftrightarrow>
     pst_deliv s \<le> pst_deliv s' \<and> prx_cfg s' = prx_cfg s \<and> prx_window_size s' = prx_window_size s \<and>
     prx_sec_engine_pool s' = prx_sec_engine_pool s \<and> prx_max_nof_crypto_workers s' = prx_max_nof_crypto_workers s"

definition later_rx :: "pdcp_entity_rx \<Rightarrow> pdcp_entity_rx \<Rightarrow> bool" where
  "later_rx s s' \<longleftrightarrow> advances s s' \<and> prx_stopped s' = prx_stopped s"

lemma advances_tasks:
  assumes "advances s s'"
  shows "crypto_task_ok C s i \<Longrightarrow> crypto_task_ok C s' i" "ue_task_ok D s t \<Longrightarrow> ue_task_ok D s' t"
proof -
  have c: "count_ok s' c" if "count_ok s c" for c
    using assms that by (auto simp: advances_def count_ok_def word_le_nat_alt)
  have l: "long_enough s' = long_enough s"
    using assms by (simp add: advances_def long_enough_def trailer_def prx_is_srb_def fun_eq_iff)
  show "crypto_task_ok C s i \<Longrightarrow> crypto_task_ok C s' i" using c l by (simp add: crypto_task_ok_def)
  show "ue_task_ok D s t \<Longrightarrow> ue_task_ok D s' t"
    using c by (auto simp: ue_task_ok_def split: pdcp_rx_ue_task.splits)
qed

lemma later_rx_refl: "later_rx s s"
  by (simp add: later_rx_def advances_def)

lemma same_core_later: "same_core s s' \<Longrightarrow> later_rx s s'"
  by (simp add: same_core_def later_rx_def advances_def)

lemma rx_apply_reordering_ok:
  assumes inv: "rx_inv D s" and c: "count_ok s (rpi_count i)" "D (rpi_count i) (rpi_buf i)"
  shows "\<exists>s' as. rx_apply_reordering i s = Inr (s', as) \<and> rx_inv D s' \<and> later_rx s s' \<and>
     prx_token_mngr s' = prx_token_mngr s \<and> emits D (pst_deliv s) (pst_deliv s') as"
proof -
  have win: "rx_win D s" using inv by (simp add: rx_inv_def)
  consider "rpi_count i < pst_deliv s" | info where "pst_deliv s \<le> rpi_count i" "cm_lookup (prx_window s) (rpi_count i) = Some info"
    | "pst_deliv s \<le> rpi_count i" "cm_lookup (prx_window s) (rpi_count i) = None"
    by (meson not_le option.exhaust)
  then show ?thesis
  proof cases
    case 1
    then show ?thesis using inv by (simp add: rx_apply_reordering_def later_rx_refl emits_nil)
  next
    case 2
    then show ?thesis
      using inv store_duplicate [OF win 2(2)] later_rx_refl [of s]
      by (auto simp: rx_apply_reordering_def Let_def emits_nil)
  next
    case 3
    let ?look = "(cm_lookup (prx_window s))(rpi_count i \<mapsto> sdu_of i)" and ?n = "max_next (pst_next s) (rpi_count i)"
    obtain w d r t as where r: "rx_apply_reordering i s = Inr (rx_upd ?n w d r t s, as)" "rx_inv D (rx_upd ?n w d r t s)"
        "pst_deliv s \<le> d" "delivers ?look d as"
      using reordering_ok [OF inv 3(1) c(1) 3(2) c(2)] by blast
    have "emits D (pst_deliv s) d as"
      using win 3(1) c(2) by (intro emits_delivers [OF r(4)]) (auto simp: rx_win_def sdu_of_def split: if_splits)
    then show ?thesis using r(1-3) by (simp add: later_rx_def advances_def)
  qed
qed

lemma run_ue_task_ok:
  assumes inv: "rx_inv D s" and t: "ue_task_ok D s t" and tok: "tokens_ok (Suc n) h (prx_token_mngr s)"
  shows "\<exists>s' as. run_ue_task t s = Inr (s', as) \<and> rx_inv D s' \<and> later_rx s s' \<and>
     tokens_ok n h (prx_token_mngr s') \<and> emits D (pst_deliv s) (pst_deliv s') as"
proof -
  obtain m' where m': "return_token (prx_token_mngr s) = Inr m'" "tokens_ok n h m'"
    using tokens_return [OF tok] by blast
  obtain s1 as where s1: "(case t of
          Handle_Failure sec_err \<Rightarrow> Inr (s, handle_failure sec_err)
        | Reorder i \<Rightarrow> bind_res (rx_apply_reordering i s) (\<lambda>(s, as). Inr (s, Rx_Metrics_Integrity_Verified # as))) = Inr (s1, as)"
      "rx_inv D s1" "later_rx s s1" "prx_token_mngr s1 = prx_token_mngr s" "emits D (pst_deliv s) (pst_deliv s1) as"
  proof (cases t)
    case (Handle_Failure err)
    have "delivered_sdus (handle_failure err) = []" by (cases err) simp_all
    then show ?thesis using that [of s "handle_failure err"] Handle_Failure inv by (simp add: later_rx_refl emits_nil)
  next
    case (Reorder i)
    obtain s1 as where "rx_apply_reordering i s = Inr (s1, as)" "rx_inv D s1" "later_rx s s1"
        "prx_token_mngr s1 = prx_token_mngr s" "emits D (pst_deliv s) (pst_deliv s1) as"
      using rx_apply_reordering_ok [OF inv, of i] t Reorder by (auto simp: ue_task_ok_def)
    then show ?thesis
      using that [of s1 "Rx_Metrics_Integrity_Verified # as"] Reorder by (simp add: emits_def)
  qed
  have core: "same_core s1 (s1\<lparr>prx_token_mngr := m'\<rparr>)" by (simp add: same_core_def)
  have "run_ue_task t s = Inr (s1\<lparr>prx_token_mngr := m'\<rparr>, as)"
    unfolding run_ue_task_def s1(1) using m'(1) s1(4) by (simp add: release_token_def)
  moreover have "later_rx s (s1\<lparr>prx_token_mngr := m'\<rparr>)" using s1(3) by (simp add: later_rx_def advances_def)
  ultimately show ?thesis using s1(2,5) m'(2) same_core_inv(1) [OF core] by simp
qed

section \<open>The expiry of t-Reordering\<close>

lemma reordering_callback_ok:
  assumes inv: "rx_inv D s" and run: "is_running (prx_reordering_timer s)"
  shows "\<exists>s' as. reordering_callback s = Inr (s', as) \<and> rx_inv D s' \<and> later_rx s s' \<and>
     prx_token_mngr s' = prx_token_mngr s \<and> emits D (pst_deliv s) (pst_deliv s') as"
proof -
  let ?s = "s\<lparr>prx_reordering_timer := timer_stop (prx_reordering_timer s)\<rparr>"
  have cfg: "rx_cfg ?s" and win: "rx_win D ?s" and r: "pst_deliv s \<le> pst_reord s" "pst_reord s \<le> pst_next s"
    and t: "0 < prc_t_reordering (prx_cfg s)"
    using inv run by (auto simp: rx_inv_def rx_cfg_def rx_win_def)
  show ?thesis
  proof (cases "prx_stopped s")
    case True
    then have "rx_inv D ?s" using inv by (auto simp: rx_inv_def rx_cfg_def rx_win_def)
    then show ?thesis using True by (simp add: reordering_callback_def Let_def later_rx_def advances_def emits_nil)
  next
    case False
    obtain w d r' tm as where e: "handle_t_reordering_expire ?s =
        Inr (?s\<lparr>prx_window := w, pst_deliv := d, pst_reord := r', prx_reordering_timer := tm\<rparr>, as)"
      "emptied_to d ?s w as" "pst_reord s \<le> d" "d \<le> pst_next s" "d = pst_next s \<or> cm_lookup w d = None"
      "timer_set tm = timer_set (prx_reordering_timer s)"
      "if d < pst_next s then r' = pst_next s \<and> is_running tm \<and> 0 < prc_t_reordering (prx_cfg s)
       else tm = timer_stop (prx_reordering_timer s)"
      using t_reordering_expire_ok [OF cfg win] r t by auto
    let ?s' = "?s\<lparr>prx_window := w, pst_deliv := d, pst_reord := r', prx_reordering_timer := tm\<rparr>"
    have le: "pst_deliv s \<le> d" using r(1) e(3) by simp
    have win': "rx_win D (?s\<lparr>prx_window := w, pst_deliv := d\<rparr>)" using rx_win_emptied [OF win e(2)] le e(4) by simp
    have none: "cm_lookup w d = None" using e(5) rx_win_next_absent [OF win'] by auto
    have "rx_inv D ?s'"
      using cfg win' none e(4,6,7) t by (auto simp: rx_inv_def rx_cfg_def rx_win_def split: if_splits)
    moreover have "emits D (pst_deliv s) d as"
      using e(2) win by (intro emits_delivers [of "cm_lookup (prx_window s)"]) (auto simp: emptied_to_def rx_win_def)
    ultimately show ?thesis
      using False e(1) le by (simp add: reordering_callback_def Let_def later_rx_def advances_def)
  qed
qed

section \<open>Re-establishment and control\<close>

lemma discard_all_ok:
  assumes "win_from (pst_deliv s) s" "pst_deliv s \<le> pst_next s"
  shows "\<exists>w. discard_all_sdus s = Inr (s\<lparr>prx_window := w, pst_deliv := pst_next s\<rparr>) \<and>
     cm_wf w \<and> cm_max_size w = cm_max_size (prx_window s) \<and> cm_lookup w = below (pst_next s) (cm_lookup (prx_window s))"
  using assms
proof (induction s rule: discard_all_sdus.induct)
  case (1 s)
  show ?case
  proof (cases "pst_deliv s = pst_next s")
    case True
    moreover have "s\<lparr>prx_window := prx_window s, pst_deliv := pst_next s\<rparr> = s" by (simp flip: True)
    moreover have "emptied_to (pst_next s) s (prx_window s) []" using emptied_to_nil [of "pst_next s" s] "1.prems"(1) True by simp
    ultimately show ?thesis
      by (subst discard_all_sdus.simps) (auto simp: emptied_to_def intro!: exI [of _ "prx_window s"])
  next
    case False
    then have lt: "pst_deliv s < pst_next s" using "1.prems"(2) by simp
    then have le: "pst_deliv s + 1 \<le> pst_next s" by (simp add: inc_le_iff)
    obtain w where w: "(if has_sn (prx_window s) (pst_deliv s) then remove_sn (prx_window s) (pst_deliv s)
        else Inr (prx_window s)) = Inr w" "win_from (pst_deliv s + 1) (s\<lparr>prx_window := w\<rparr>)"
        "cm_wf w" "cm_max_size w = cm_max_size (prx_window s)"
        "cm_lookup w = below (pst_deliv s + 1) (cm_lookup (prx_window s))"
    proof (cases "cm_lookup (prx_window s) (pst_deliv s)")
      case None
      have "win_from (pst_deliv s + 1) s" by (rule step_absent [OF "1.prems"(1) None lt])
      then show ?thesis
        using that [of "prx_window s"] None emptied_to_nil [of "pst_deliv s + 1" s]
        by (auto simp: has_sn_lookup win_from_def emptied_to_def)
    next
      case (Some info)
      obtain w as where "deliver_count (pst_deliv s) s = Inr (s\<lparr>prx_window := w\<rparr>, as)"
        "win_from (pst_deliv s + 1) (s\<lparr>prx_window := w\<rparr>)" "emptied_to (pst_deliv s + 1) s w as"
        using step_present [OF "1.prems"(1) Some lt] .
      moreover from this(1) have "remove_sn (prx_window s) (pst_deliv s) = Inr w"
        by (auto simp: deliver_count_def bind_res_Inr_iff dest: arg_cong [of _ _ prx_window])
      ultimately show ?thesis using that [of w] Some by (simp add: has_sn_lookup emptied_to_def)
    qed
    let ?s = "s\<lparr>prx_window := w, pst_deliv := pst_deliv s + 1\<rparr>"
    obtain w' where "discard_all_sdus ?s = Inr (?s\<lparr>prx_window := w', pst_deliv := pst_next s\<rparr>)" "cm_wf w'"
        "cm_max_size w' = cm_max_size w" "cm_lookup w' = below (pst_next s) (cm_lookup w)"
      using "1.IH" [OF False w(1)] le w(2) by (auto simp: emptied_to_frame)
    then show ?thesis
      using False w le by (subst discard_all_sdus.simps) (auto simp: below_below)
  qed
qed

lemma deliver_from_ok:
  assumes "win_from c s" "c \<le> pst_next s"
  shows "\<exists>w as. deliver_from c s = Inr (s\<lparr>prx_window := w\<rparr>, as) \<and> emptied_to (pst_next s) s w as"
  using assms
proof (induction c s rule: deliver_from.induct)
  case (1 c s)
  show ?case
  proof (cases "c < pst_next s")
    case False
    then have c: "c = pst_next s" using "1.prems"(2) by simp
    have "emptied_to (pst_next s) s (prx_window s) []" using emptied_to_nil [OF "1.prems"(1)] c by simp
    then show ?thesis using False by (subst deliver_from.simps) (auto intro!: exI [of _ "prx_window s"])
  next
    case True
    then have le: "c + 1 \<le> pst_next s" by (simp add: inc_le_iff)
    show ?thesis
    proof (cases "cm_lookup (prx_window s) c")
      case None
      then show ?thesis
        using "1.IH"(2) True None le step_absent [OF "1.prems"(1) None True]
        by (subst deliver_from.simps) (simp add: has_sn_lookup)
    next
      case (Some info)
      obtain w as where w: "deliver_count c s = Inr (s\<lparr>prx_window := w\<rparr>, as)"
        "win_from (c + 1) (s\<lparr>prx_window := w\<rparr>)" "emptied_to (c + 1) s w as"
        using step_present [OF "1.prems"(1) Some True] .
      let ?s = "s\<lparr>prx_window := w\<rparr>"
      obtain w' as' where IH: "deliver_from (c + 1) ?s = Inr (?s\<lparr>prx_window := w'\<rparr>, as')" "emptied_to (pst_next s) ?s w' as'"
        using "1.IH"(1) [OF True _ w(1) refl] Some le w(2) by (auto simp: has_sn_lookup)
      have "emptied_to (pst_next s) s w' (as @ as')" using emptied_to_trans [OF w(3) IH(2) le] .
      then show ?thesis
        using True Some w(1) IH(1) by (subst deliver_from.simps) (auto simp: has_sn_lookup)
    qed
  qed
qed

definition sec_args_ok :: "sec_128_as_config \<Rightarrow> integrity_enabled \<Rightarrow> pdcp_entity_rx \<Rightarrow> bool" where
  "sec_args_ok sec_cfg integ s \<longleftrightarrow>
     domain sec_cfg = (if prx_is_srb s then Domain_Rrc else Domain_Up) \<and> (prx_is_srb s \<longrightarrow> integ = Integrity_On)"

lemma new_engine_ok:
  assumes "\<not> (integ = Integrity_On \<and> (k_128_int sec_cfg = None \<or> integ_algo sec_cfg = None))"
  shows "\<exists>e. new_security_engine sec_cfg bearer_id direction integ ciph = Inr e"
proof (cases integ)
  case Integrity_Off
  then show ?thesis by (simp add: new_security_engine_def)
next
  case Integrity_On
  then obtain algo key where "integ_algo sec_cfg = Some algo" "k_128_int sec_cfg = Some key" using assms by auto
  then show ?thesis using Integrity_On by (simp add: new_security_engine_def)
qed

lemma configure_security_ok:
  assumes sec: "sec_args_ok sec_cfg integ s"
  shows "\<exists>pool i c. rx_configure_security sec_cfg integ ciph s =
      Inr (s\<lparr>prx_integrity_enabled := i, prx_ciphering_enabled := c, prx_sec_engine_pool := pool\<rparr>) \<and>
    (length (prx_sec_engine_pool s) = prx_max_nof_crypto_workers s \<longrightarrow> length pool = prx_max_nof_crypto_workers s)"
proof -
  have dom: "srsran_assert ((prx_is_srb s \<and> domain sec_cfg = Domain_Rrc) \<or> (\<not> prx_is_srb s \<and> domain sec_cfg = Domain_Up)) m = Inr ()"
    and int: "srsran_assert (integ = Integrity_On \<or> \<not> prx_is_srb s) m = Inr ()" for m
    using sec by (auto simp: sec_args_ok_def srsran_assert_def)
  note unf = rx_configure_security_def dom int bind_res_simps
  show ?thesis
  proof (cases "integ = Integrity_On \<and> (k_128_int sec_cfg = None \<or> integ_algo sec_cfg = None)")
    case True
    then have "rx_configure_security sec_cfg integ ciph s = Inr s" unfolding unf by (rule if_P)
    then show ?thesis
      by - (rule exI [of _ "prx_sec_engine_pool s"], rule exI [of _ "prx_integrity_enabled s"],
          rule exI [of _ "prx_ciphering_enabled s"], simp)
  next
    case False
    obtain e where e: "new_security_engine sec_cfg (prx_bearer_id s) (prc_direction (prx_cfg s)) integ ciph = Inr e"
      using new_engine_ok [OF False] by blast
    have "rx_configure_security sec_cfg integ ciph s =
        Inr (s\<lparr>prx_integrity_enabled := integ, prx_ciphering_enabled := ciph,
               prx_sec_engine_pool := replicate (prx_max_nof_crypto_workers s) (Some e)\<rparr>)"
      by (simp only: unf False if_False e)
    then show ?thesis
      by - (rule exI [of _ "replicate (prx_max_nof_crypto_workers s) (Some e)"], rule exI [of _ integ], rule exI [of _ ciph], simp)
  qed
qed

text \<open>A bearer whose state variables are reset holds nothing.\<close>

lemma reset_inv:
  assumes "rx_cfg s" "rx_win D s" "cm_wf w" "cm_max_size w = cm_max_size (prx_window s)" "\<And>c. cm_lookup w c = None"
    "t = timer_stop (prx_reordering_timer s)"
  shows "rx_inv D (rx_upd 0 w 0 0 t s)"
  using assms by (auto simp: rx_inv_def rx_cfg_def rx_win_def)

lemma below_next_empty: "rx_win D s \<Longrightarrow> below (pst_next s) (cm_lookup (prx_window s)) = (\<lambda>_. None)"
proof (rule ext)
  fix c
  assume "rx_win D s"
  then show "below (pst_next s) (cm_lookup (prx_window s)) c = None"
    by (cases "cm_lookup (prx_window s) c") (auto simp: rx_win_def below_def)
qed

lemma timer_stop_idle: "\<not> is_running t \<Longrightarrow> timer_stop t = t"
  by (simp add: timer_stop_def)

lemma stop_if_running:
  "(if is_running (prx_reordering_timer x) then x\<lparr>prx_reordering_timer := timer_stop (prx_reordering_timer x)\<rparr> else x) =
     x\<lparr>prx_reordering_timer := timer_stop (prx_reordering_timer x)\<rparr>"
  by (simp add: timer_stop_idle)

lemma rx_inv_pool:
  "rx_inv D s \<Longrightarrow> length pool = prx_max_nof_crypto_workers s \<Longrightarrow>
     rx_inv D (s\<lparr>prx_integrity_enabled := i, prx_ciphering_enabled := c, prx_sec_engine_pool := pool\<rparr>)"
  by (simp add: rx_inv_def rx_cfg_def rx_win_def)

text \<open>
  Re-establishment: an SRB forgets what is stored, a UM bearer delivers it in the order of COUNT, and both start
  from COUNT zero; an AM bearer keeps its state. The integrity protection stays as configured.
\<close>

lemma reestablish_state_ok:
  assumes inv: "rx_inv D s"
  shows "\<exists>s' as. rx_reestablish_state s = Inr (s', as) \<and> rx_inv D s' \<and> emits D (pst_deliv s) (pst_next s) as \<and>
     (if prx_is_srb s \<or> prx_is_um s
      then \<exists>w. s' = rx_upd 0 w 0 0 (timer_stop (prx_reordering_timer s)) s \<and> (\<forall>c. cm_lookup w c = None)
      else s' = s \<and> as = []) \<and>
     (prx_is_srb s \<longrightarrow> delivered_sdus as = []) \<and>
     (\<not> prx_is_srb s \<and> prx_is_um s \<longrightarrow> delivers (cm_lookup (prx_window s)) (pst_next s) as)"
proof (cases "prx_is_srb s \<or> prx_is_um s")
  case False
  then show ?thesis using inv by (simp add: rx_reestablish_state_def emits_nil)
next
  case True
  have cfg: "rx_cfg s" and win: "rx_win D s" using inv by (simp_all add: rx_inv_def)
  have le: "pst_deliv s \<le> pst_next s" using win by (simp add: rx_win_def)
  define t where "t = timer_stop (prx_reordering_timer s)"
  obtain w d where d: "(if prx_is_srb s then discard_all_sdus s else Inr s) = Inr (s\<lparr>prx_window := w, pst_deliv := d\<rparr>)"
      "rx_win D (s\<lparr>prx_window := w, pst_deliv := d\<rparr>)" "pst_deliv s \<le> d"
      "if prx_is_srb s then \<forall>c. cm_lookup w c = None else w = prx_window s"
  proof (cases "prx_is_srb s")
    case True
    obtain w where w: "discard_all_sdus s = Inr (s\<lparr>prx_window := w, pst_deliv := pst_next s\<rparr>)" "cm_wf w"
        "cm_max_size w = cm_max_size (prx_window s)" "cm_lookup w = below (pst_next s) (cm_lookup (prx_window s))"
      using discard_all_ok [OF rx_win_from [OF win] le] by blast
    then have "rx_win D (s\<lparr>prx_window := w, pst_deliv := pst_next s\<rparr>)"
      using win below_next_empty [OF win] by (simp add: rx_win_def)
    then show ?thesis using that [of "pst_next s" w] True w le below_next_empty [OF win] by simp
  next
    case False
    then show ?thesis using that [of "pst_deliv s" "prx_window s"] win by simp
  qed
  let ?s1 = "s\<lparr>prx_window := w, pst_deliv := d, prx_reordering_timer := t\<rparr>"
  have win1: "rx_win D ?s1" using d(2) by (simp add: rx_win_def)
  have le1: "d \<le> pst_next s" using d(2) by (simp add: rx_win_def)
  obtain w' as where w': "(if prx_is_um s then deliver_all_sdus ?s1 else Inr (?s1, [])) = Inr (?s1\<lparr>prx_window := w'\<rparr>, as)"
      "cm_wf w'" "cm_max_size w' = cm_max_size (prx_window s)" "\<And>c. cm_lookup w' c = None"
      "emits D (pst_deliv s) (pst_next s) as" "prx_is_srb s \<Longrightarrow> delivered_sdus as = []"
      "\<not> prx_is_srb s \<Longrightarrow> delivers (cm_lookup (prx_window s)) (pst_next s) as"
  proof (cases "prx_is_um s")
    case um: True
    obtain w' as where w': "deliver_all_sdus ?s1 = Inr (?s1\<lparr>prx_window := w'\<rparr>, as)" "emptied_to (pst_next s) ?s1 w' as"
      using deliver_from_ok [of d ?s1] rx_win_from [OF win1] le1 by (auto simp: deliver_all_sdus_def)
    have e: "emits D (pst_deliv s) (pst_next s) as"
      using w'(2) win1 order_trans [OF d(3)]
      by (intro emits_delivers [of "cm_lookup w"]) (auto simp: emptied_to_def rx_win_def)
    have none: "\<And>c. cm_lookup w' c = None" using w'(2) below_next_empty [OF win1] by (simp add: emptied_to_def)
    have "cm_wf w'" "cm_max_size w' = cm_max_size (prx_window s)"
      using w'(2) d(2) win by (simp_all add: emptied_to_def rx_win_def)
    moreover have "prx_is_srb s \<Longrightarrow> delivered_sdus as = []" "\<not> prx_is_srb s \<Longrightarrow> delivers (cm_lookup (prx_window s)) (pst_next s) as"
      using w'(2) d(4) by (auto simp: emptied_to_def delivers_def)
    ultimately show ?thesis using that [of w' as] um w'(1) e none by auto
  next
    case False
    then show ?thesis
      using that [of w "[]"] True d win1 win by (auto simp: emits_nil rx_win_def)
  qed
  have "rx_inv D (rx_upd 0 w' 0 0 t s)" by (rule reset_inv [OF cfg win w'(2,3,4) t_def])
  moreover have "rx_reestablish_state s = Inr (rx_upd 0 w' 0 0 t s, as)"
  proof -
    have "rx_reestablish_state s = bind_res (if prx_is_um s then deliver_all_sdus ?s1 else Inr (?s1, []))
        (\<lambda>(s, as). Inr (s\<lparr>pst_next := 0, pst_deliv := 0, pst_reord := 0\<rparr>, as))"
      using True unfolding rx_reestablish_state_def d(1) bind_res_simps stop_if_running Let_def
      by (simp add: prx_is_srb_def prx_is_um_def t_def)
    then show ?thesis unfolding w'(1) by (simp add: rx_upd_def)
  qed
  ultimately show ?thesis using True w' by (auto simp: t_def)
qed

lemma reestablish_ok:
  assumes inv: "rx_inv D s" and sec: "sec_args_ok sec_cfg (prx_integrity_enabled s) s"
  shows "\<exists>s' as. rx_reestablish sec_cfg s = Inr (s', as) \<and> rx_inv D s' \<and> prx_token_mngr s' = prx_token_mngr s \<and>
     prx_stopped s' = prx_stopped s \<and> emits D (pst_deliv s) (pst_next s) as"
proof -
  obtain s1 as where s1: "rx_reestablish_state s = Inr (s1, as)" "rx_inv D s1" "emits D (pst_deliv s) (pst_next s) as"
    and frame: "prx_token_mngr s1 = prx_token_mngr s" "prx_stopped s1 = prx_stopped s" "prx_cfg s1 = prx_cfg s"
      "prx_integrity_enabled s1 = prx_integrity_enabled s"
    using reestablish_state_ok [OF inv] by (auto split: if_splits)
  have "sec_args_ok sec_cfg (prx_integrity_enabled s1) s1"
    using sec frame by (simp add: sec_args_ok_def prx_is_srb_def)
  from configure_security_ok [OF this, of "prx_ciphering_enabled s1"] obtain pool i c where c:
    "rx_configure_security sec_cfg (prx_integrity_enabled s1) (prx_ciphering_enabled s1) s1 =
       Inr (s1\<lparr>prx_integrity_enabled := i, prx_ciphering_enabled := c, prx_sec_engine_pool := pool\<rparr>)"
    "length (prx_sec_engine_pool s1) = prx_max_nof_crypto_workers s1 \<longrightarrow> length pool = prx_max_nof_crypto_workers s1"
    by blast
  have "length pool = prx_max_nof_crypto_workers s1" using c(2) s1(2) by (simp add: rx_inv_def rx_cfg_def)
  then show ?thesis
    using s1 c(1) frame rx_inv_pool [OF s1(2)] by (simp add: rx_reestablish_def)
qed

lemma set_count_inv:
  assumes "rx_inv D s" "pst_deliv s = pst_next s" "\<not> is_running (prx_reordering_timer s)"
    "pdcp_compute_count (prc_sn_size (prx_cfg s)) hfn sn \<le> mc_hard (prc_max_count (prx_cfg s))"
  shows "rx_inv D (rx_set_count hfn sn s)"
proof -
  have "cm_lookup (prx_window s) c = None" for c
    using assms(1,2) unfolding rx_inv_def rx_win_def by (metis leD option.exhaust)
  then show ?thesis
    using assms by (auto simp: rx_inv_def rx_cfg_def rx_win_def rx_set_count_def Let_def)
qed

section \<open>Every allowed event\<close>

definition busy :: "pdcp_rx_sys \<Rightarrow> bool" where
  "busy y \<longleftrightarrow> sys_crypto y \<noteq> [] \<or> sys_ue y \<noteq> []"

fun rx_allowed :: "(u32 \<Rightarrow> byte_buffer \<Rightarrow> bool) \<Rightarrow> pdcp_rx_event \<Rightarrow> pdcp_rx_sys \<Rightarrow> bool" where
  "rx_allowed C (Rx_Ev_Pdu env buf) y \<longleftrightarrow>
     prx_stopped (sys_ent y) \<or> prx_buffering (sys_ent y) \<or>
     \<not> sys_halted y \<and> nof_tasks y < 2 ^ 31 \<and> pdu_ok C (sys_ent y) buf"
| "rx_allowed C (Rx_Ev_Crypto i worker_idx ue_ok) y \<longleftrightarrow> worker_idx < prx_max_nof_crypto_workers (sys_ent y)"
| "rx_allowed C (Rx_Ev_Ue i) y \<longleftrightarrow> True"
| "rx_allowed C Rx_Ev_Reordering_Expiry y \<longleftrightarrow> True"
| "rx_allowed C Rx_Ev_Begin_Buffering y \<longleftrightarrow> True"
| "rx_allowed C (Rx_Ev_End_Buffering env) y \<longleftrightarrow>
     \<not> sys_halted y \<and> nof_tasks y + length (prx_pdu_buffer (sys_ent y)) < 2 ^ 31 \<and>
     (\<forall>buf \<in> set (prx_pdu_buffer (sys_ent y)). pdu_ok C (sys_ent y) buf)"
| "rx_allowed C (Rx_Ev_Configure_Security sec_cfg integ ciph) y \<longleftrightarrow>
     \<not> busy y \<and> sec_args_ok sec_cfg integ (sys_ent y)"
| "rx_allowed C (Rx_Ev_Reestablish sec_cfg) y \<longleftrightarrow>
     \<not> busy y \<and> sec_args_ok sec_cfg (prx_integrity_enabled (sys_ent y)) (sys_ent y)"
| "rx_allowed C (Rx_Ev_Set_Count hfn sn) y \<longleftrightarrow>
     \<not> busy y \<and> pst_deliv (sys_ent y) = pst_next (sys_ent y) \<and> \<not> is_running (prx_reordering_timer (sys_ent y)) \<and>
     pdcp_compute_count (prc_sn_size (prx_cfg (sys_ent y))) hfn sn \<le> mc_hard (prc_max_count (prx_cfg (sys_ent y)))"
| "rx_allowed C Rx_Ev_Notify_Stopped y \<longleftrightarrow> prx_stopped (sys_ent y) \<or> \<not> sys_halted y"
| "rx_allowed C Rx_Ev_Restart y \<longleftrightarrow> prx_stopped (sys_ent y) \<or> sys_halted y"
| "rx_allowed C Rx_Ev_Stop y \<longleftrightarrow> prx_stopped (sys_ent y) \<or> \<not> sys_halted y"

text \<open>The events that keep the keys and do not reset the state variables.\<close>

fun keeps_counts :: "pdcp_rx_event \<Rightarrow> bool" where
  "keeps_counts (Rx_Ev_Configure_Security sec_cfg integ ciph) = False"
| "keeps_counts (Rx_Ev_Reestablish sec_cfg) = False"
| "keeps_counts (Rx_Ev_Set_Count hfn sn) = False"
| "keeps_counts _ = True"

lemma length_remove_at: "i < length xs \<Longrightarrow> length (remove_at i xs) = length xs - 1"
  by (simp add: remove_at_def)

lemma set_remove_at: "set (remove_at i xs) \<subseteq> set xs"
  by (auto simp: remove_at_def dest: in_set_takeD in_set_dropD)

lemma sys_inv_later:
  assumes "sys_inv C D y" "rx_inv D s'" "later_rx (sys_ent y) s'"
    and tok: "tokens_ok (length (sys_crypto y') + length (sys_ue y')) (sys_halted y) (prx_token_mngr s')"
    and y': "sys_ent y' = s'" "sys_halted y' = sys_halted y"
    and tasks: "\<forall>i \<in> set (sys_crypto y'). crypto_task_ok C (sys_ent y) i" "\<forall>t \<in> set (sys_ue y'). ue_task_ok D (sys_ent y) t"
  shows "sys_inv C D y'"
proof -
  have adv: "advances (sys_ent y) s'" and "prx_stopped s' = prx_stopped (sys_ent y)" using assms(3) by (simp_all add: later_rx_def)
  then show ?thesis
    using assms(1,2) tok y' tasks advances_tasks [OF adv] by (simp add: sys_inv_def nof_tasks_def)
qed

text \<open>What is shown of an event: no fault, the invariant, and deliveries that continue in the order of COUNT.\<close>

definition step_good ::
  "crypto_prims \<Rightarrow> (u32 \<Rightarrow> byte_buffer \<Rightarrow> bool) \<Rightarrow> (u32 \<Rightarrow> byte_buffer \<Rightarrow> bool) \<Rightarrow> pdcp_rx_event \<Rightarrow> pdcp_rx_sys \<Rightarrow> bool" where
  "step_good P C D ev y \<longleftrightarrow>
     (\<exists>y' as. pdcp_rx_step P ev y = Inr (y', as) \<and> sys_inv C D y' \<and>
        (keeps_counts ev \<longrightarrow>
           advances (sys_ent y) (sys_ent y') \<and> emits D (pst_deliv (sys_ent y)) (pst_deliv (sys_ent y')) as))"

lemma step_goodI:
  "pdcp_rx_step P ev y = Inr (y', as) \<Longrightarrow> sys_inv C D y' \<Longrightarrow>
     (keeps_counts ev \<Longrightarrow>
        advances (sys_ent y) (sys_ent y') \<and> emits D (pst_deliv (sys_ent y)) (pst_deliv (sys_ent y')) as) \<Longrightarrow>
     step_good P C D ev y"
  by (auto simp: step_good_def)

lemma sys_inv_halted: "sys_inv C D y \<Longrightarrow> sys_halted y \<Longrightarrow> sys_inv C D (y\<lparr>sys_halted := True\<rparr>)"
  by (simp add: sys_inv_def nof_tasks_def)

lemma sys_invD:
  assumes "sys_inv C D y"
  shows "rx_inv D (sys_ent y)" "\<forall>i \<in> set (sys_crypto y). crypto_task_ok C (sys_ent y) i"
    "\<forall>t \<in> set (sys_ue y). ue_task_ok D (sys_ent y) t"
    "tokens_ok (nof_tasks y) (sys_halted y) (prx_token_mngr (sys_ent y))"
    "prx_stopped (sys_ent y) \<longrightarrow> sys_halted y"
  using assms by (simp_all add: sys_inv_def)

lemma step_pdu:
  assumes inv: "sys_inv C D y" and ok: "rx_allowed C (Rx_Ev_Pdu env buf) y"
  shows "step_good P C D (Rx_Ev_Pdu env buf) y"
proof -
  let ?s = "sys_ent y"
  note rx = sys_invD(1) [OF inv] and cr = sys_invD(2) [OF inv] and ue = sys_invD(3) [OF inv]
    and tok = sys_invD(4) [OF inv] and st = sys_invD(5) [OF inv]
  note later_rx = sys_inv_later [OF inv]
  show ?thesis
  proof (cases "prx_stopped ?s \<or> prx_buffering ?s")
    case True
    obtain s' where s': "rx_handle_pdu env buf ?s = Inr (s', [], [])" "same_core ?s s'" "prx_token_mngr s' = prx_token_mngr ?s"
      using handle_pdu_idle [OF True] by blast
    let ?y = "y\<lparr>sys_ent := s'\<rparr>"
    have "sys_inv C D ?y"
      by (rule later_rx [of s']) (use s' rx tok cr ue in \<open>simp_all add: same_core_inv same_core_later nof_tasks_def\<close>)
    then show ?thesis
      using s' same_core_later [OF s'(2)] by (simp add: step_good_def later_rx_def emits_nil)
  next
    case False
    then have a: "\<not> sys_halted y" "nof_tasks y < 2 ^ 31" "pdu_ok C ?s buf" using ok by auto
    obtain s' as ts where s': "rx_handle_pdu env buf ?s = Inr (s', as, ts)" "same_core ?s s'" "delivered_sdus as = []"
        "tokens_ok (nof_tasks y + length ts) False (prx_token_mngr s')" "\<forall>i \<in> set ts. crypto_task_ok C ?s i"
      using handle_pdu_ok [OF rx _ a(2,3), of env] tok a(1) by auto
    let ?y = "y\<lparr>sys_ent := s', sys_crypto := sys_crypto y @ ts\<rparr>"
    have "sys_inv C D ?y"
      by (rule later_rx [of s']) (use s' rx cr ue a(1) in \<open>auto simp: same_core_inv same_core_later nof_tasks_def add_ac\<close>)
    then show ?thesis
      using s' same_core_later [OF s'(2)] by (simp add: step_good_def later_rx_def emits_nil)
  qed
qed

lemma step_crypto:
  assumes inv: "sys_inv C D y" and ok: "rx_allowed C (Rx_Ev_Crypto i w ue_ok) y" and P: "cipher_ok P" and sec: "sec_link P C D (sys_ent y)"
  shows "step_good P C D (Rx_Ev_Crypto i w ue_ok) y"
proof -
  let ?s = "sys_ent y"
  note rx = sys_invD(1) [OF inv] and cr = sys_invD(2) [OF inv] and ue = sys_invD(3) [OF inv]
    and tok = sys_invD(4) [OF inv] and st = sys_invD(5) [OF inv]
  note later_rx = sys_inv_later [OF inv]
  show ?thesis
  proof (cases "i < length (sys_crypto y)")
    case False then show ?thesis using inv later_rx_refl by (simp add: step_good_def later_rx_def emits_nil)
  next
    case True
    define n where "n = length (sys_crypto y) - 1 + length (sys_ue y)"
    have n: "nof_tasks y = Suc n" using True by (simp add: nof_tasks_def n_def)
    obtain s' ts where s': "rx_apply_security P w ue_ok (sys_crypto y ! i) ?s = Inr (s', ts)" "same_core ?s s'"
        "\<forall>t \<in> set ts. ue_task_ok D ?s t" "tokens_ok (n + length ts) (sys_halted y) (prx_token_mngr s')"
      using apply_security_ok [OF _ P _ _ sec, of "sys_crypto y ! i" w n "sys_halted y" ue_ok]
        rx cr tok ok True by (auto simp: rx_inv_def n)
    let ?y = "y\<lparr>sys_ent := s', sys_crypto := remove_at i (sys_crypto y), sys_ue := sys_ue y @ ts\<rparr>"
    have "sys_inv C D ?y"
      by (rule later_rx [of s'])
        (use s' rx cr ue True in \<open>auto simp: same_core_inv same_core_later length_remove_at n_def add_ac
            dest: subsetD [OF set_remove_at]\<close>)
    then show ?thesis
      using True s' same_core_later [OF s'(2)] by (simp add: step_good_def later_rx_def emits_nil)
  qed
qed

lemma step_ue:
  assumes inv: "sys_inv C D y" and ok: "rx_allowed C (Rx_Ev_Ue i) y"
  shows "step_good P C D (Rx_Ev_Ue i) y"
proof -
  let ?s = "sys_ent y"
  note rx = sys_invD(1) [OF inv] and cr = sys_invD(2) [OF inv] and ue = sys_invD(3) [OF inv]
    and tok = sys_invD(4) [OF inv] and st = sys_invD(5) [OF inv]
  note later_rx = sys_inv_later [OF inv]
  show ?thesis
  proof (cases "i < length (sys_ue y)")
    case False then show ?thesis using inv later_rx_refl by (simp add: step_good_def later_rx_def emits_nil)
  next
    case True
    define n where "n = length (sys_crypto y) + (length (sys_ue y) - 1)"
    have n: "nof_tasks y = Suc n" using True by (simp add: nof_tasks_def n_def)
    obtain s' as where s': "run_ue_task (sys_ue y ! i) ?s = Inr (s', as)" "rx_inv D s'" "later_rx ?s s'"
        "tokens_ok n (sys_halted y) (prx_token_mngr s')" "emits D (pst_deliv ?s) (pst_deliv s') as"
      using run_ue_task_ok [OF rx, of "sys_ue y ! i" n "sys_halted y"] ue tok True by (auto simp: n)
    let ?y = "y\<lparr>sys_ent := s', sys_ue := remove_at i (sys_ue y)\<rparr>"
    have "sys_inv C D ?y"
      by (rule later_rx [of s']) (use s' cr ue True in \<open>auto simp: length_remove_at n_def dest: subsetD [OF set_remove_at]\<close>)
    then show ?thesis using True s' by (simp add: step_good_def later_rx_def)
  qed
qed

lemma step_reordering_expiry:
  assumes inv: "sys_inv C D y" and ok: "rx_allowed C Rx_Ev_Reordering_Expiry y"
  shows "step_good P C D Rx_Ev_Reordering_Expiry y"
proof -
  let ?s = "sys_ent y"
  note rx = sys_invD(1) [OF inv] and cr = sys_invD(2) [OF inv] and ue = sys_invD(3) [OF inv]
    and tok = sys_invD(4) [OF inv] and st = sys_invD(5) [OF inv]
  note later_rx = sys_inv_later [OF inv]
  show ?thesis
  proof (cases "is_running (prx_reordering_timer ?s)")
    case False then show ?thesis using inv later_rx_refl by (simp add: step_good_def later_rx_def emits_nil)
  next
    case True
    obtain s' as where s': "reordering_callback ?s = Inr (s', as)" "rx_inv D s'" "later_rx ?s s'"
        "prx_token_mngr s' = prx_token_mngr ?s" "emits D (pst_deliv ?s) (pst_deliv s') as"
      using reordering_callback_ok [OF rx True] by blast
    have "sys_inv C D (y\<lparr>sys_ent := s'\<rparr>)"
      by (rule later_rx [of s']) (use s' tok cr ue in \<open>simp_all add: nof_tasks_def\<close>)
    then show ?thesis using True s' by (simp add: step_good_def later_rx_def)
  qed
qed

lemma step_begin_buffering:
  assumes inv: "sys_inv C D y" and ok: "rx_allowed C Rx_Ev_Begin_Buffering y"
  shows "step_good P C D Rx_Ev_Begin_Buffering y"
proof -
  let ?s = "sys_ent y"
  note rx = sys_invD(1) [OF inv] and cr = sys_invD(2) [OF inv] and ue = sys_invD(3) [OF inv]
    and tok = sys_invD(4) [OF inv] and st = sys_invD(5) [OF inv]
  note later_rx = sys_inv_later [OF inv]
  have core: "same_core ?s (rx_begin_buffering ?s)" "prx_token_mngr (rx_begin_buffering ?s) = prx_token_mngr ?s"
    by (simp_all add: same_core_def rx_begin_buffering_def)
  have "sys_inv C D (y\<lparr>sys_ent := rx_begin_buffering ?s\<rparr>)"
    by (rule later_rx [of "rx_begin_buffering ?s"])
      (use rx tok cr ue core in \<open>simp_all add: same_core_inv same_core_later nof_tasks_def\<close>)
  then show ?thesis using same_core_later [OF core(1)] by (simp add: step_good_def later_rx_def emits_nil)
qed

lemma step_end_buffering:
  assumes inv: "sys_inv C D y" and ok: "rx_allowed C (Rx_Ev_End_Buffering env) y"
  shows "step_good P C D (Rx_Ev_End_Buffering env) y"
proof -
  let ?s = "sys_ent y"
  note rx = sys_invD(1) [OF inv] and cr = sys_invD(2) [OF inv] and ue = sys_invD(3) [OF inv]
    and tok = sys_invD(4) [OF inv] and st = sys_invD(5) [OF inv]
  note later_rx = sys_inv_later [OF inv]
  let ?s1 = "?s\<lparr>prx_buffering := False, prx_pdu_buffer := []\<rparr>"
  have core: "same_core ?s ?s1" by (simp add: same_core_def)
  have a: "\<not> sys_halted y" "nof_tasks y + length (prx_pdu_buffer ?s) < 2 ^ 31" "\<forall>buf \<in> set (prx_pdu_buffer ?s). pdu_ok C ?s buf"
    using ok by auto
  obtain s' as ts where s': "rx_end_buffering env ?s = Inr (s', as, ts)" "same_core ?s1 s'" "delivered_sdus as = []"
      "tokens_ok (nof_tasks y + length ts) False (prx_token_mngr s')" "\<forall>i \<in> set ts. crypto_task_ok C ?s1 i"
    using drain_buffer_ok [of D ?s1 "nof_tasks y" "prx_pdu_buffer ?s" C env] rx tok a
    by (auto simp: same_core_inv [OF core] pdu_ok_core [OF core] rx_end_buffering_def)
  have core': "same_core ?s s'" using core s'(2) by (rule same_core_trans)
  let ?y = "y\<lparr>sys_ent := s', sys_crypto := sys_crypto y @ ts\<rparr>"
  have "sys_inv C D ?y"
    by (rule later_rx [of s'])
      (use s' rx cr ue a(1) same_core_inv(4) [OF core] in
          \<open>auto simp: same_core_inv [OF core'] same_core_later [OF core'] nof_tasks_def add_ac\<close>)
  then show ?thesis using s' same_core_later [OF core'] by (simp add: step_good_def later_rx_def emits_nil)
qed

lemma step_configure_security:
  assumes inv: "sys_inv C D y" and ok: "rx_allowed C (Rx_Ev_Configure_Security sec_cfg integ ciph) y"
  shows "step_good P C D (Rx_Ev_Configure_Security sec_cfg integ ciph) y"
proof -
  let ?s = "sys_ent y"
  note rx = sys_invD(1) [OF inv] and cr = sys_invD(2) [OF inv] and ue = sys_invD(3) [OF inv]
    and tok = sys_invD(4) [OF inv] and st = sys_invD(5) [OF inv]
  note later_rx = sys_inv_later [OF inv]
  then have a: "sys_crypto y = []" "sys_ue y = []" "sec_args_ok sec_cfg integ ?s" using ok by (auto simp: busy_def)
  obtain pool i c where c: "rx_configure_security sec_cfg integ ciph ?s =
      Inr (?s\<lparr>prx_integrity_enabled := i, prx_ciphering_enabled := c, prx_sec_engine_pool := pool\<rparr>)"
      "length pool = prx_max_nof_crypto_workers ?s"
    using configure_security_ok [OF a(3), of ciph] rx by (auto simp: rx_inv_def rx_cfg_def)
  then show ?thesis
    using a(1,2) rx_inv_pool [OF rx c(2)] tok st by (simp add: step_good_def sys_inv_def nof_tasks_def)
qed

lemma step_reestablish:
  assumes inv: "sys_inv C D y" and ok: "rx_allowed C (Rx_Ev_Reestablish sec_cfg) y"
  shows "step_good P C D (Rx_Ev_Reestablish sec_cfg) y"
proof -
  let ?s = "sys_ent y"
  note rx = sys_invD(1) [OF inv] and cr = sys_invD(2) [OF inv] and ue = sys_invD(3) [OF inv]
    and tok = sys_invD(4) [OF inv] and st = sys_invD(5) [OF inv]
  note later_rx = sys_inv_later [OF inv]
  then have a: "sys_crypto y = []" "sys_ue y = []" "sec_args_ok sec_cfg (prx_integrity_enabled ?s) ?s"
    using ok by (auto simp: busy_def)
  then show ?thesis
    using reestablish_ok [OF rx a(3)] tok st by (auto simp: step_good_def sys_inv_def nof_tasks_def)
qed

lemma step_set_count:
  assumes inv: "sys_inv C D y" and ok: "rx_allowed C (Rx_Ev_Set_Count hfn sn) y"
  shows "step_good P C D (Rx_Ev_Set_Count hfn sn) y"
proof -
  let ?s = "sys_ent y"
  note rx = sys_invD(1) [OF inv] and cr = sys_invD(2) [OF inv] and ue = sys_invD(3) [OF inv]
    and tok = sys_invD(4) [OF inv] and st = sys_invD(5) [OF inv]
  note later_rx = sys_inv_later [OF inv]
  then have a: "sys_crypto y = []" "sys_ue y = []" using ok by (auto simp: busy_def)
  have "rx_inv D (rx_set_count hfn sn ?s)" using set_count_inv [OF rx] ok by simp
  then show ?thesis
    using a tok st by (simp add: step_good_def sys_inv_def nof_tasks_def rx_set_count_def Let_def)
qed

lemma step_notify_stopped:
  assumes inv: "sys_inv C D y" and ok: "rx_allowed C Rx_Ev_Notify_Stopped y"
  shows "step_good P C D Rx_Ev_Notify_Stopped y"
proof -
  let ?s = "sys_ent y"
  note rx = sys_invD(1) [OF inv] and cr = sys_invD(2) [OF inv] and ue = sys_invD(3) [OF inv]
    and tok = sys_invD(4) [OF inv] and st = sys_invD(5) [OF inv]
  note later_rx = sys_inv_later [OF inv]
  show ?thesis
  proof (cases "prx_stopped ?s")
    case True
    then show ?thesis
      using inv st by (simp add: sys_inv_halted step_good_def rx_notify_pdu_processing_stopped_def advances_def emits_nil)
  next
    case False
    then obtain m where m: "token_stop (prx_token_mngr ?s) = Inr m" "tokens_ok (nof_tasks y) True m"
      using tokens_stop tok ok by auto
    let ?s1 = "?s\<lparr>prx_token_mngr := m\<rparr>"
    have core: "same_core ?s ?s1" by (simp add: same_core_def)
    show ?thesis
      using False m inv
      by (auto simp: step_good_def rx_notify_pdu_processing_stopped_def sys_inv_def same_core_inv [OF core] nof_tasks_def advances_def emits_nil)
  qed
qed

lemma step_restart:
  assumes inv: "sys_inv C D y" and ok: "rx_allowed C Rx_Ev_Restart y"
  shows "step_good P C D Rx_Ev_Restart y"
proof -
  let ?s = "sys_ent y"
  note rx = sys_invD(1) [OF inv] and cr = sys_invD(2) [OF inv] and ue = sys_invD(3) [OF inv]
    and tok = sys_invD(4) [OF inv] and st = sys_invD(5) [OF inv]
  note later_rx = sys_inv_later [OF inv]
  show ?thesis
  proof (cases "prx_stopped ?s")
    case True
    then show ?thesis
      using inv st by (simp add: sys_inv_halted step_good_def rx_restart_pdu_processing_def advances_def emits_nil)
  next
    case False
    let ?s1 = "?s\<lparr>prx_token_mngr := token_start (prx_token_mngr ?s)\<rparr>"
    have core: "same_core ?s ?s1" by (simp add: same_core_def)
    have "tokens_ok (nof_tasks y) False (token_start (prx_token_mngr ?s))"
      using tokens_start tok ok False by auto
    then show ?thesis
      using False inv
      by (auto simp: step_good_def rx_restart_pdu_processing_def sys_inv_def same_core_inv [OF core] nof_tasks_def advances_def emits_nil)
  qed
qed

lemma step_stop:
  assumes inv: "sys_inv C D y" and ok: "rx_allowed C Rx_Ev_Stop y"
  shows "step_good P C D Rx_Ev_Stop y"
proof -
  let ?s = "sys_ent y"
  note rx = sys_invD(1) [OF inv] and cr = sys_invD(2) [OF inv] and ue = sys_invD(3) [OF inv]
    and tok = sys_invD(4) [OF inv] and st = sys_invD(5) [OF inv]
  note later_rx = sys_inv_later [OF inv]
  show ?thesis
  proof (cases "prx_stopped ?s")
    case True
    then show ?thesis using inv st by (simp add: sys_inv_halted step_good_def rx_stop_def advances_def emits_nil)
  next
    case False
    then obtain m where m: "token_stop (prx_token_mngr ?s) = Inr m" "tokens_ok (nof_tasks y) True m"
      using tokens_stop tok ok by auto
    let ?s1 = "?s\<lparr>prx_stopped := True, prx_reordering_timer := timer_stop (prx_reordering_timer ?s), prx_token_mngr := m\<rparr>"
    have "rx_inv D ?s1" using rx by (auto simp: rx_inv_def rx_cfg_def rx_win_def)
    moreover have "advances ?s ?s1" by (simp add: advances_def)
    ultimately show ?thesis
      using False m cr ue advances_tasks [of ?s ?s1]
      by (auto simp: step_good_def rx_stop_def sys_inv_def nof_tasks_def emits_nil)
  qed
qed

lemma step_ok:
  assumes "sys_inv C D y" "rx_allowed C ev y" "cipher_ok P" "sec_link P C D (sys_ent y)"
  shows "step_good P C D ev y"
  using assms by (cases ev)
    (simp_all only: step_pdu step_crypto step_ue step_reordering_expiry step_begin_buffering step_end_buffering step_configure_security step_reestablish step_set_count step_notify_stopped step_restart step_stop)

end
