(* ===== verification/Pdcp_Status.thy ===== *)
theory Pdcp_Status
  imports Pdcp_Rx_Inv
begin

text \<open>
  The PDCP status report of the receiving entity (\<open>compile_status_report\<close> of lib/pdcp/pdcp_entity_rx.cpp) over the
  bit encoder (lib/support/bit_encoding.cpp), and the bits that the decoder of Pdcp_Sn reads from a buffer.

  \<open>bits_of\<close> is the sequence of bits of a byte buffer, most significant first. Shown: the encoder appends bits, the
  decoder reads them in order, and the report consists of the header, RX_DELIV, and one bit for each COUNT from
  RX_DELIV + 1 on that tells whether it is stored.
\<close>

unbundle bit_operations_syntax

section \<open>The bit encoder\<close>

text \<open>
  \<open>alloc n\<close> tells whether a buffer of \<open>n\<close> bytes can grow by one.
\<close>

record bit_encoder =
  be_buf :: byte_buffer
  be_offset :: nat

definition add_back :: "u8 \<Rightarrow> bit_encoder \<Rightarrow> bit_encoder" where
  "add_back x e = e\<lparr>be_buf := butlast (be_buf e) @ [last (be_buf e) + x]\<rparr>"

function pack_loop :: "(nat \<Rightarrow> bool) \<Rightarrow> u64 \<Rightarrow> nat \<Rightarrow> bit_encoder \<Rightarrow> bool \<times> bit_encoder" where
  "pack_loop alloc val n_bits e =
     (if n_bits = 0 then (True, e)
      else if be_offset e = 0 \<and> \<not> alloc (length (be_buf e)) then (False, e)
      else
        (let e' = (if be_offset e = 0 then e\<lparr>be_buf := be_buf e @ [0]\<rparr> else e);
             val' = (if n_bits < 64 then val AND (push_bit n_bits 1 - 1) else val)
         in if 8 - be_offset e > n_bits then
              pack_loop alloc val' 0
                ((add_back (ucast (push_bit (8 - be_offset e - n_bits) val')) e')\<lparr>be_offset := be_offset e + n_bits\<rparr>)
            else
              pack_loop alloc val' (n_bits - (8 - be_offset e))
                ((add_back (ucast (drop_bit (n_bits + be_offset e - 8) val')) e')\<lparr>be_offset := 0\<rparr>)))"
  by auto
termination
  by (relation "measure (\<lambda>(_, _, n, e). 2 * n + (if be_offset e = 0 then 0 else 1))") auto

declare pack_loop.simps [simp del]

definition pack :: "(nat \<Rightarrow> bool) \<Rightarrow> u64 \<Rightarrow> nat \<Rightarrow> bit_encoder \<Rightarrow> (bool \<times> bit_encoder) res" where
  "pack alloc val n_bits e =
     bind_res (srsran_assert (n_bits \<le> 64) ''Invalid number of bits passed to pack()'')
       (\<lambda>_. Inr (pack_loop alloc val n_bits e))"

section \<open>The report\<close>

definition pdcp_control_pdu_max_size :: nat where
  "pdcp_control_pdu_max_size = 9000"

definition status_max_bits :: u32 where
  "status_max_bits = of_nat ((pdcp_control_pdu_max_size - 5) * 8)"

text \<open>The bits of the COUNTs from \<open>i\<close> to before \<open>bitmap_end\<close>; the result of a call of \<open>pack\<close> is not looked at.\<close>

function pack_bitmap ::
  "(nat \<Rightarrow> bool) \<Rightarrow> pdcp_rx_sdu_info sdu_window \<Rightarrow> u32 \<Rightarrow> u32 \<Rightarrow> bit_encoder \<Rightarrow> bit_encoder res" where
  "pack_bitmap alloc w i bitmap_end enc =
     (if i < bitmap_end then
        bind_res (pack alloc (if has_sn w i then 1 else 0) 1 enc) (\<lambda>(_, enc).
          pack_bitmap alloc w (i + 1) bitmap_end enc)
      else Inr enc)"
  by pat_completeness auto
termination
  by (relation "measure (\<lambda>(_, _, i, e, _). unat (e - i))") (auto intro: dec_distance)

declare pack_bitmap.simps [simp del]

definition compile_status_report :: "(nat \<Rightarrow> bool) \<Rightarrow> pdcp_entity_rx \<Rightarrow> byte_buffer res" where
  "compile_status_report alloc s =
     bind_res (pack alloc 0 1 \<lparr>be_buf = [], be_offset = 0\<rparr>) (\<lambda>(_, enc).
     bind_res (pack alloc (ucast cpt_status_report) 3 enc) (\<lambda>(_, enc).
     bind_res (pack alloc 0 4 enc) (\<lambda>(_, enc).
     bind_res (pack alloc (ucast (pst_deliv s)) 32 enc) (\<lambda>(_, enc).
       (let bitmap_begin = pst_deliv s + 1;
            bitmap_end = (if bitmap_begin < pst_next s \<and> pst_next s - bitmap_begin > status_max_bits
                          then bitmap_begin + status_max_bits else pst_next s)
        in bind_res (pack_bitmap alloc (prx_window s) bitmap_begin bitmap_end enc) (\<lambda>enc. Inr (be_buf enc)))))))"

section \<open>The bits of a buffer\<close>

definition byte_bits :: "u8 \<Rightarrow> bool list" where
  "byte_bits b = map (\<lambda>i. bit b (7 - i)) [0..<8]"

definition bits_of :: "byte_buffer \<Rightarrow> bool list" where
  "bits_of buf = concat (map byte_bits buf)"

lemma length_byte_bits [simp]: "length (byte_bits b) = 8"
  by (simp add: byte_bits_def)

lemma nth_byte_bits: "i < 8 \<Longrightarrow> byte_bits b ! i = bit b (7 - i)"
  by (simp add: byte_bits_def)

lemma bits_of_simps [simp]:
  "bits_of [] = []" "bits_of (b # bs) = byte_bits b @ bits_of bs" "bits_of (as @ bs) = bits_of as @ bits_of bs"
  by (simp_all add: bits_of_def)

lemma length_bits_of [simp]: "length (bits_of buf) = 8 * length buf"
  by (induction buf) simp_all

lemma byte_bits_zero: "byte_bits 0 = replicate 8 False"
  by (simp add: list_eq_iff_nth_eq nth_byte_bits)

text \<open>What the encoder has packed; the rest of the last byte is zero.\<close>

definition be_bits :: "bit_encoder \<Rightarrow> bool list \<Rightarrow> bool" where
  "be_bits e bs \<longleftrightarrow>
     be_offset e = length bs mod 8 \<and>
     bits_of (be_buf e) = bs @ replicate (if be_offset e = 0 then 0 else 8 - be_offset e) False"

lemma byte_bits_add:
  assumes "k < 8" "drop k (byte_bits b) = replicate (8 - k) False"
  shows "byte_bits (b + push_bit (7 - k) (of_bool v)) = take k (byte_bits b) @ v # replicate (7 - k) False"
proof -
  have clear: "\<not> bit b i" if "i \<le> 7 - k" for i
  proof -
    have "drop k (byte_bits b) ! (7 - k - i) = byte_bits b ! (7 - i)"
      using that assms(1) by (simp add: le_diff_conv2)
    moreover have "drop k (byte_bits b) ! (7 - k - i) = False"
      unfolding assms(2) using assms(1) that by simp
    ultimately show ?thesis using that by (simp add: nth_byte_bits)
  qed
  then have "b AND push_bit (7 - k) (of_bool v) = 0"
    by (intro bit_word_eqI) (auto simp: bit_simps)
  then have or: "b + push_bit (7 - k) (of_bool v) = b OR push_bit (7 - k) (of_bool v)" by (rule add_as_or)
  show ?thesis
    unfolding or
  proof (rule nth_equalityI)
    fix i
    assume "i < length (byte_bits (b OR push_bit (7 - k) (of_bool v)))"
    then have i: "i < 8" by simp
    consider "i < k" | "i = k" | "k < i" by linarith
    then show "byte_bits (b OR push_bit (7 - k) (of_bool v)) ! i = (take k (byte_bits b) @ v # replicate (7 - k) False) ! i"
    proof cases
      case 1
      then show ?thesis using i assms(1) by (auto simp: nth_append nth_byte_bits bit_simps)
    next
      case 2
      then show ?thesis using i clear [of "7 - k"] by (auto simp: nth_append nth_byte_bits bit_simps)
    next
      case 3
      then show ?thesis using i clear [of "7 - i"] by (auto simp: nth_append nth_byte_bits bit_simps nth_Cons')
    qed
  qed (use assms(1) in simp)
qed

lemma back_byte:
  assumes "bits_of buf = bs @ replicate (8 - k) False" "k = length bs mod 8"
  obtains xs b where "buf = xs @ [b]" "bits_of xs @ take k (byte_bits b) = bs" "drop k (byte_bits b) = replicate (8 - k) False"
proof -
  have k: "k < 8" using assms(2) by simp
  have "8 * length buf = length bs + (8 - k)" using assms(1) length_bits_of [of buf] by simp
  then obtain xs b where buf: "buf = xs @ [b]" using k by (cases buf rule: rev_cases) auto
  have len: "8 * length xs + k = length bs" using \<open>8 * length buf = length bs + (8 - k)\<close> buf k by simp
  have eq: "bits_of xs @ take k (byte_bits b) @ drop k (byte_bits b) = bs @ replicate (8 - k) False"
    using assms(1) buf by simp
  then have "bits_of xs @ take k (byte_bits b) = bs \<and> drop k (byte_bits b) = replicate (8 - k) False"
    using len k by (subst (asm) append_assoc [symmetric], subst (asm) append_eq_append_conv) auto
  then show ?thesis using that buf by blast
qed

lemma pack_one:
  assumes "\<And>n. alloc n" "be_bits e bs"
  shows "\<exists>e'. pack alloc (of_bool v) 1 e = Inr (True, e') \<and> be_bits e' (bs @ [v])"
proof -
  define k where "k = be_offset e"
  have k: "k = length bs mod 8" "k < 8" using assms(2) by (simp_all add: k_def be_bits_def)
  define buf where "buf = (if k = 0 then be_buf e @ [0] else be_buf e)"
  have "bits_of buf = bs @ replicate (8 - k) False"
    using assms(2) by (auto simp: be_bits_def buf_def k_def byte_bits_zero)
  then obtain xs b where b: "buf = xs @ [b]" "bits_of xs @ take k (byte_bits b) = bs" "drop k (byte_bits b) = replicate (8 - k) False"
    using back_byte k(1) by blast
  let ?b = "b + push_bit (7 - k) (of_bool v)"
  have bits: "bits_of (xs @ [?b]) = (bs @ [v]) @ replicate (7 - k) False"
    using byte_bits_add [OF k(2) b(3)] b(2) by simp
  have m: "of_bool v AND (1 :: u64) = of_bool v" "push_bit (Suc 0) 1 - 1 = (1 :: u64)" by (cases v) simp_all
  have u: "ucast (push_bit i (of_bool v) :: u64) = (push_bit i (of_bool v) :: u8)" for i
    by (rule bit_word_eqI) (auto simp: bit_simps)
  have e1: "(if be_offset e = 0 then e\<lparr>be_buf := be_buf e @ [0]\<rparr> else e) = e\<lparr>be_buf := buf\<rparr>"
    by (simp add: buf_def k_def)
  have "pack_loop alloc (of_bool v) 1 e = (True, \<lparr>be_buf = xs @ [?b], be_offset = (k + 1) mod 8\<rparr>)"
  proof (cases "k = 7")
    case True
    then have "be_buf e = xs @ [b]" using b(1) by (simp add: buf_def)
    then show ?thesis
      using True assms(1) m u [of 0]
      by (subst pack_loop.simps) (simp add: k_def [symmetric] add_back_def pack_loop.simps [of _ _ 0] Let_def)
  next
    case False
    then have "1 < 8 - k" "8 - k - 1 = 7 - k" "(k + 1) mod 8 = k + 1" using k(2) by simp_all
    then show ?thesis
      using assms(1) m u [of "7 - k"] e1 b(1)
      by (subst pack_loop.simps) (simp add: k_def [symmetric] add_back_def pack_loop.simps [of _ _ 0] Let_def)
  qed
  moreover have "be_bits \<lparr>be_buf = xs @ [?b], be_offset = (k + 1) mod 8\<rparr> (bs @ [v])"
    using bits k by (cases "k = 7") (simp_all add: be_bits_def mod_Suc)
  ultimately show ?thesis by (simp add: pack_def srsran_assert_def)
qed

lemma pack_bitmap_ok:
  assumes "\<And>n. alloc n" "be_bits e bs"
  shows "\<exists>e'. pack_bitmap alloc w i d e = Inr e' \<and>
     be_bits e' (bs @ map (\<lambda>j. has_sn w (i + of_nat j)) [0..<(if i < d then unat (d - i) else 0)])"
  using assms(2)
proof (induction "if i < d then unat (d - i) else 0" arbitrary: i e bs)
  case 0
  then have "\<not> i < d" by (auto simp: unat_eq_0 split: if_splits)
  then show ?case using 0(2) by (subst pack_bitmap.simps) simp
next
  case (Suc n)
  then have lt: "i < d" by (simp split: if_splits)
  have one: "(if b then 1 else 0 :: u64) = of_bool b" for b by simp
  obtain e1 where e1: "pack alloc (if has_sn w i then 1 else 0) 1 e = Inr (True, e1)" "be_bits e1 (bs @ [has_sn w i])"
    using pack_one [of alloc e bs "has_sn w i", OF assms(1) Suc.prems] unfolding one by blast
  have len: "unat (d - i) = Suc (if i + 1 < d then unat (d - (i + 1)) else 0)"
  proof -
    have "unat (d - i) = unat d - unat i" using lt by (simp add: unat_sub order_less_imp_le)
    moreover have "unat (d - (i + 1)) = unat d - Suc (unat i)" if "i + 1 < d"
      using that unat_inc [OF lt] by (simp add: unat_sub order_less_imp_le)
    moreover have "unat d = Suc (unat i)" if "\<not> i + 1 < d"
      using that lt unat_inc [OF lt] by (simp add: word_less_nat_alt)
    ultimately show ?thesis using lt unat_inc [OF lt] by (auto simp: word_less_nat_alt)
  qed
  then have "n = (if i + 1 < d then unat (d - (i + 1)) else 0)" using Suc.hyps(2) lt by simp
  then obtain e2 where e2: "pack_bitmap alloc w (i + 1) d e1 = Inr e2"
      "be_bits e2 ((bs @ [has_sn w i]) @ map (\<lambda>j. has_sn w (i + 1 + of_nat j)) [0..<n])"
    using Suc.hyps(1) [of "i + 1" e1 "bs @ [has_sn w i]"] e1(2) by auto
  have "map (\<lambda>j. has_sn w (i + of_nat j)) [0..<Suc n] = has_sn w i # map (\<lambda>j. has_sn w (i + 1 + of_nat j)) [0..<n]"
    unfolding upt_conv_Cons [OF zero_less_Suc] map_Suc_upt [symmetric] by (simp add: algebra_simps)
  moreover have "(if i < d then unat (d - i) else 0) = Suc n" using Suc.hyps(2) by simp
  ultimately show ?case
    using e1(1) e2 lt by (subst pack_bitmap.simps) (simp del: upt_Suc)
qed

text \<open>The header and the field FMC.\<close>

definition u32_bytes :: "u32 \<Rightarrow> byte_buffer" where
  "u32_bytes x = [ucast (drop_bit 24 x), ucast (drop_bit 16 x), ucast (drop_bit 8 x), ucast x]"

lemma pack_loop_zero [simp]: "pack_loop alloc val 0 e = (True, e)"
  by (subst pack_loop.simps) simp

lemma pack_loop_within:
  "alloc (length buf) \<Longrightarrow> 0 < n \<Longrightarrow> n < 8 \<Longrightarrow>
     pack_loop alloc val n \<lparr>be_buf = buf, be_offset = 0\<rparr> =
       (True, \<lparr>be_buf = buf @ [ucast (push_bit (8 - n) (val AND (push_bit n 1 - 1)))], be_offset = n\<rparr>)"
  "0 < k \<Longrightarrow> 0 < n \<Longrightarrow> n < 8 - k \<Longrightarrow> n < 64 \<Longrightarrow>
     pack_loop alloc val n \<lparr>be_buf = buf @ [b], be_offset = k\<rparr> =
       (True, \<lparr>be_buf = buf @ [b + ucast (push_bit (8 - k - n) (val AND (push_bit n 1 - 1)))], be_offset = k + n\<rparr>)"
  by (subst pack_loop.simps, simp add: add_back_def Let_def)+

lemma pack_mask: "val AND (push_bit n 1 - 1) = take_bit n val" for val :: u64
  by (simp add: take_bit_eq_mask mask_eq_exp_minus_1 push_bit_eq_mult)

lemma pack_loop_byte:
  "alloc (length buf) \<Longrightarrow> 8 \<le> n \<Longrightarrow> n < 64 \<Longrightarrow>
     pack_loop alloc val n \<lparr>be_buf = buf, be_offset = 0\<rparr> =
       pack_loop alloc (take_bit n val) (n - 8) \<lparr>be_buf = buf @ [ucast (drop_bit (n - 8) (take_bit n val))], be_offset = 0\<rparr>"
  "0 < k \<Longrightarrow> 0 < n \<Longrightarrow> 8 - k \<le> n \<Longrightarrow> n < 64 \<Longrightarrow>
     pack_loop alloc val n \<lparr>be_buf = buf @ [b], be_offset = k\<rparr> =
       pack_loop alloc (take_bit n val) (n - (8 - k)) \<lparr>be_buf = buf @ [b + ucast (drop_bit (n + k - 8) (take_bit n val))], be_offset = 0\<rparr>"
  by (subst pack_loop.simps, simp add: add_back_def Let_def flip: pack_mask)+

lemma pack_fmc:
  assumes "\<And>n. alloc n"
  shows "pack_loop alloc (ucast (x :: u32)) 32 \<lparr>be_buf = buf, be_offset = 0\<rparr> = (True, \<lparr>be_buf = buf @ u32_bytes x, be_offset = 0\<rparr>)"
proof -
  have b: "ucast (drop_bit j (take_bit i (ucast x :: u64))) = (ucast (drop_bit j x) :: u8)" if "j + 8 \<le> i" for i j
    by (rule bit_word_eqI) (use that in \<open>auto simp: bit_simps dest: bit_imp_le_length\<close>)
  have b0: "ucast (take_bit i (ucast x :: u64)) = (ucast x :: u8)" if "8 \<le> i" for i
    using b [of 0 i] that by simp
  show ?thesis using assms by (simp add: pack_loop_byte u32_bytes_def b b0)
qed

text \<open>The number of COUNTs that the bitmap covers.\<close>

definition status_span :: "pdcp_entity_rx \<Rightarrow> nat" where
  "status_span s = min (unat (pst_next s) - unat (pst_deliv s) - 1) ((pdcp_control_pdu_max_size - 5) * 8)"

lemma status_bitmap_length:
  assumes "pst_deliv s \<le> pst_next s" "pst_next s < h"
  defines "b \<equiv> pst_deliv s + 1"
  defines "e \<equiv> if b < pst_next s \<and> pst_next s - b > status_max_bits then b + status_max_bits else pst_next s"
  shows "(if b < e then unat (e - b) else 0) = status_span s"
proof -
  let ?m = "(pdcp_control_pdu_max_size - 5) * 8"
  have "pst_deliv s < h" using assms(1,2) by simp
  then have b: "unat b = Suc (unat (pst_deliv s))" using unat_inc by (simp add: b_def)
  have m: "unat status_max_bits = ?m" by (simp add: status_max_bits_def pdcp_control_pdu_max_size_def)
  show ?thesis
  proof (cases "b < pst_next s")
    case False
    then show ?thesis using b by (simp add: e_def status_span_def word_less_nat_alt)
  next
    case True
    then have d: "unat (pst_next s - b) = unat (pst_next s) - unat (pst_deliv s) - 1"
      using b by (simp add: unat_sub order_less_imp_le)
    show ?thesis
    proof (cases "pst_next s - b > status_max_bits")
      case big: True
      then have "?m < unat (pst_next s) - unat (pst_deliv s) - 1" using d m by (simp add: word_less_nat_alt)
      moreover have "unat (b + status_max_bits) = unat b + ?m"
        using calculation b m unsigned_less [of "pst_next s", where ?'a = nat] by (simp add: unat_plus_if' del: unsigned_less)
      then have "b < b + status_max_bits" by (simp add: word_less_nat_alt pdcp_control_pdu_max_size_def)
      ultimately show ?thesis using True big m by (simp add: e_def status_span_def)
    next
      case False
      then show ?thesis using True d m by (simp add: e_def status_span_def word_less_nat_alt)
    qed
  qed
qed

text \<open>The content of a report.\<close>

lemma byte_bits_inj: "byte_bits a = byte_bits b \<Longrightarrow> a = b"
proof (rule bit_word_eqI)
  fix n
  assume "byte_bits a = byte_bits b" "n < LENGTH(8)"
  then have "byte_bits a ! (7 - n) = byte_bits b ! (7 - n)" "n < 8" by simp_all
  then show "bit a n = bit b n" by (simp add: nth_byte_bits)
qed

lemma bits_of_prefix: "bits_of buf = bits_of h @ r \<Longrightarrow> \<exists>rest. buf = h @ rest \<and> bits_of rest = r"
proof (induction h arbitrary: buf)
  case Nil
  then show ?case by simp
next
  case (Cons x h)
  then obtain y ys where buf: "buf = y # ys" by (cases buf) (auto simp: byte_bits_def)
  then have "byte_bits y = byte_bits x" "bits_of ys = bits_of h @ r" using Cons.prems by simp_all
  then show ?case using Cons.IH [of ys] byte_bits_inj buf by auto
qed

lemma compile_status_report_ok:
  assumes alloc: "\<And>n. alloc n" and s: "pst_deliv s \<le> pst_next s" "pst_next s < h"
  obtains rest where "compile_status_report alloc s = Inr (0 # u32_bytes (pst_deliv s) @ rest)"
    "bits_of rest = map (\<lambda>j. has_sn (prx_window s) (pst_deliv s + 1 + of_nat j)) [0..<status_span s] @
       replicate (8 * length rest - status_span s) False"
    "8 * length rest < status_span s + 8"
proof -
  let ?h = "0 # u32_bytes (pst_deliv s)" and ?b = "pst_deliv s + 1"
  let ?d = "if ?b < pst_next s \<and> pst_next s - ?b > status_max_bits then ?b + status_max_bits else pst_next s"
  let ?bits = "map (\<lambda>j. has_sn (prx_window s) (?b + of_nat j)) [0..<status_span s]"
  define e0 where "e0 = \<lparr>be_buf = ?h, be_offset = 0\<rparr>"
  have "be_bits e0 (bits_of ?h)" by (simp add: be_bits_def u32_bytes_def e0_def)
  from pack_bitmap_ok [of alloc, OF alloc this, of "prx_window s" ?b ?d]
  obtain e where e: "pack_bitmap alloc (prx_window s) ?b ?d e0 = Inr e" "be_bits e (bits_of ?h @ ?bits)"
    unfolding status_bitmap_length [OF s] by blast
  have hd: "pack_loop alloc 0 (Suc 0) \<lparr>be_buf = [], be_offset = 0\<rparr> = (True, \<lparr>be_buf = [0], be_offset = Suc 0\<rparr>)"
    "pack_loop alloc 0 3 \<lparr>be_buf = [0], be_offset = Suc 0\<rparr> = (True, \<lparr>be_buf = [0], be_offset = 4\<rparr>)"
    "pack_loop alloc 0 4 \<lparr>be_buf = [0], be_offset = 4\<rparr> = (True, \<lparr>be_buf = [0], be_offset = 0\<rparr>)"
    "pack_loop alloc (ucast (pst_deliv s)) 32 \<lparr>be_buf = [0], be_offset = 0\<rparr> = (True, e0)"
    using alloc pack_loop_within(2) [of 1 3 alloc 0 "[]"] pack_loop_byte(2) [of 4 4 alloc 0 "[]"]
    by (simp_all add: pack_loop_within(1) pack_fmc e0_def)
  have buf: "compile_status_report alloc s = Inr (be_buf e)"
    unfolding compile_status_report_def pack_def srsran_assert_def Let_def cpt_status_report_def
    using e(1) by (simp add: hd)
  obtain rest where rest: "be_buf e = ?h @ rest"
      "bits_of rest = ?bits @ replicate (if be_offset e = 0 then 0 else 8 - be_offset e) False"
    using bits_of_prefix [of "be_buf e" ?h] e(2) by (auto simp: be_bits_def)
  have len: "8 * length rest = status_span s + (if be_offset e = 0 then 0 else 8 - be_offset e)"
    using rest(2) length_bits_of [of rest] by simp
  show ?thesis
    by (rule that [of rest]) (use buf rest len in \<open>auto split: if_splits\<close>)
qed

section \<open>Reading bits\<close>

text \<open>The bits that a decoder has not read yet.\<close>

definition bd_bits :: "bit_decoder \<Rightarrow> bool list" where
  "bd_bits d = drop (bd_offset d) (bits_of (bd_rest d))"

definition bd_wf :: "bit_decoder \<Rightarrow> bool" where
  "bd_wf d \<longleftrightarrow> bd_offset d < 8 \<and> (bd_rest d = [] \<longrightarrow> bd_offset d = 0)"

lemma unpack_one:
  assumes "bd_wf d"
  shows "case bd_bits d of
      [] \<Rightarrow> \<exists>d'. unpack 1 d = Inr (False, 0 :: u32, d')
    | v # vs \<Rightarrow> \<exists>d'. unpack 1 d = Inr (True, of_bool v :: u32, d') \<and> bd_wf d' \<and> bd_bits d' = vs"
proof (cases "bd_rest d")
  case Nil
  then have d: "d = \<lparr>bd_rest = [], bd_offset = 0\<rparr>" using assms by (simp add: bd_wf_def)
  then show ?thesis by (simp add: bd_bits_def unpack_def srsran_assert_def)
next
  case (Cons b rest)
  define k where "k = bd_offset d"
  have k: "k < 8" using assms by (simp add: bd_wf_def k_def)
  have d: "d = \<lparr>bd_rest = b # rest, bd_offset = k\<rparr>" using Cons by (simp add: k_def)
  have bits: "bd_bits d = bit b (7 - k) # drop (Suc k) (byte_bits b) @ bits_of rest"
    using k by (simp add: d bd_bits_def Cons_nth_drop_Suc [symmetric] nth_byte_bits)
  show ?thesis
  proof (cases "k = 7")
    case True
    have "ucast (b AND 1) = (of_bool (bit b 0) :: u32)" by (cases "bit b 0") (simp_all add: and_one_eq odd_iff_mod_2_eq_one bit_0)
    then show ?thesis
      using True bits by (simp add: d unpack_def srsran_assert_def unpack_loop_byte bd_wf_def bd_bits_def)
  next
    case False
    let ?m = "push_bit (8 - k) 1 - push_bit (8 - k - 1) 1 :: u8"
    have e: "8 - k = Suc (7 - k)" "8 - k - 1 = 7 - k" using k by simp_all
    have m: "?m = push_bit (7 - k) 1" unfolding e by (simp add: push_bit_eq_mult)
    have "drop_bit (7 - k) (b AND push_bit (7 - k) 1) = (of_bool (bit b (7 - k)) :: u8)"
      by (rule bit_word_eqI) (auto simp: bit_simps)
    then have "ucast (drop_bit (8 - k - 1) (b AND ?m)) = (of_bool (bit b (7 - k)) :: u32)"
      unfolding m e by simp
    then show ?thesis
      using False k bits by (simp add: d unpack_def srsran_assert_def unpack_loop_within bd_wf_def bd_bits_def)
  qed
qed

text \<open>The fields of the header.\<close>

lemma u32_bytes_sum:
  "push_bit 24 (ucast (ucast (drop_bit 24 x) :: u8)) + push_bit 16 (ucast (ucast (drop_bit 16 x) :: u8)) +
     push_bit 8 (ucast (ucast (drop_bit 8 x) :: u8)) + ucast (ucast x :: u8) = x" for x :: u32
proof -
  have p: "push_bit n (ucast (ucast (drop_bit n x) :: u8)) = push_bit n (take_bit 8 (drop_bit n x))" for n
    by (rule bit_word_eqI) (auto simp: bit_simps)
  have q: "push_bit n (take_bit k (drop_bit n x)) + take_bit n x = take_bit (n + k) x" for n k
  proof -
    have "push_bit n (take_bit k (drop_bit n x)) AND take_bit n x = 0"
      by (rule bit_word_eqI) (auto simp: bit_simps)
    then have "push_bit n (take_bit k (drop_bit n x)) + take_bit n x = push_bit n (take_bit k (drop_bit n x)) OR take_bit n x"
      by (rule add_as_or)
    also have "\<dots> = take_bit (n + k) x"
      by (rule bit_word_eqI) (auto simp: bit_simps)
    finally show ?thesis .
  qed
  have "ucast (ucast x :: u8) = take_bit 8 x" by (rule bit_word_eqI) (auto simp: bit_simps)
  then show ?thesis
    using q [of 8 8] q [of 16 8] q [of 24 8] by (simp add: p add.assoc take_bit_word_eq_self)
qed

lemma unpack_fmc:
  "unpack 32 \<lparr>bd_rest = u32_bytes x @ rest, bd_offset = 0\<rparr> = Inr (True, x, \<lparr>bd_rest = rest, bd_offset = 0\<rparr>)"
  using u32_bytes_sum [of x]
  by (simp add: unpack_def srsran_assert_def u32_bytes_def unpack_loop_byte and_255 add.assoc)

lemma unpack_header:
  "unpack 1 \<lparr>bd_rest = 0 # rest, bd_offset = 0\<rparr> = Inr (True, 0 :: u32, \<lparr>bd_rest = 0 # rest, bd_offset = 1\<rparr>)"
  "unpack 3 \<lparr>bd_rest = 0 # rest, bd_offset = 1\<rparr> = Inr (True, 0 :: u32, \<lparr>bd_rest = 0 # rest, bd_offset = 4\<rparr>)"
  "unpack 4 \<lparr>bd_rest = 0 # rest, bd_offset = 4\<rparr> = Inr (True, 0 :: u32, \<lparr>bd_rest = rest, bd_offset = 0\<rparr>)"
  by (simp_all add: unpack_def srsran_assert_def unpack_loop_within unpack_loop_byte)

lemma bd_start: "bd_wf \<lparr>bd_rest = rest, bd_offset = 0\<rparr>" "bd_bits \<lparr>bd_rest = rest, bd_offset = 0\<rparr> = bits_of rest"
  by (simp_all add: bd_wf_def bd_bits_def)

end
