(* ===== verification/Pdcp_Rx_Props.thy ===== *)
theory Pdcp_Rx_Props
  imports Pdcp_Rx_Sys Pdcp_Status
begin

text \<open>
  What the receiving PDCP entity guarantees over whole runs, with any interleaving of PDUs, tasks of the two
  executors, timer expiries and control calls: no fault, SDUs in the order of COUNT and at most once, only SDUs
  that the peer sent with that COUNT, and the event that tells when the tasks have finished. Then the
  behaviours that fall outside: PDUs that are too short for their MAC, the default limit of COUNT, and stopping
  twice.
\<close>

unbundle bit_operations_syntax

section \<open>Runs\<close>

fun rx_admissible ::
  "crypto_prims \<Rightarrow> (u32 \<Rightarrow> byte_buffer \<Rightarrow> bool) \<Rightarrow> pdcp_rx_event list \<Rightarrow> pdcp_rx_sys \<Rightarrow> bool" where
  "rx_admissible P C [] y \<longleftrightarrow> True"
| "rx_admissible P C (ev # evs) y \<longleftrightarrow>
     rx_allowed C ev y \<and> (case pdcp_rx_step P ev y of Inl _ \<Rightarrow> True | Inr (y', _) \<Rightarrow> rx_admissible P C evs y')"

definition anything :: "u32 \<Rightarrow> byte_buffer \<Rightarrow> bool" where
  "anything c buf = True"

lemma sec_link_anything: "sec_link P C anything s"
  by (simp add: sec_link_def anything_def)

text \<open>A configuration whose hard limit keeps the reconstruction of COUNT away from the end of its range.\<close>

definition rx_config_ok :: "pdcp_rx_config \<Rightarrow> bool" where
  "rx_config_ok cfg \<longleftrightarrow>
     prc_sn_size cfg \<noteq> Pdcp_Invalid \<and> - 1 \<le> prc_t_reordering cfg \<and>
     uint (mc_hard (prc_max_count cfg)) \<le> 2 ^ 32 - half_window (prc_sn_size cfg)"

lemma new_pdcp_rx_inv:
  assumes "rx_config_ok cfg" "new_pdcp_rx cfg bearer_id n = Inr s"
  shows "sys_inv C D (new_pdcp_rx_sys s)" "pst_deliv s = 0" "prx_cfg s = cfg"
    "prx_sec_engine_pool s = replicate n None" "prx_max_nof_crypto_workers s = n"
proof -
  obtain h w where hw: "pdcp_data_pdu_header_size (prc_sn_size cfg) = Inr h" "pdcp_window_size (prc_sn_size cfg) = Inr w"
    using assms(2) by (auto simp: new_pdcp_rx_def bind_res_Inr_iff)
  have w: "uint w = half_window (prc_sn_size cfg)" by (rule window_size_half [OF hw(2)])
  then have "unat w = 2 ^ (pdcp_sn_size_to_uint (prc_sn_size cfg) - 1)"
    unfolding half_window_def by (metis of_nat_eq_iff of_nat_numeral of_nat_power uint_nat)
  then have wf: "cm_wf (new_circular_map (unat w))" by (simp add: cm_wf_new)
  have "rx_inv D s"
    using assms hw w wf header_size_valid [OF hw(1)]
    by (auto simp: new_pdcp_rx_def rx_inv_def rx_cfg_def rx_win_def rx_config_ok_def)
  then show "sys_inv C D (new_pdcp_rx_sys s)" "pst_deliv s = 0" "prx_cfg s = cfg"
    "prx_sec_engine_pool s = replicate n None" "prx_max_nof_crypto_workers s = n"
    using assms(2) hw
    by (auto simp: new_pdcp_rx_def sys_inv_def new_pdcp_rx_sys_def tokens_ok_def nof_tasks_def new_token_manager_def)
qed

lemma run_safe:
  assumes "sys_inv C anything y" "cipher_ok P" "rx_admissible P C evs y"
  shows "\<exists>y' as. pdcp_rx_run P evs y = Inr (y', as) \<and> sys_inv C anything y'"
  using assms
proof (induction evs arbitrary: y)
  case Nil
  then show ?case by simp
next
  case (Cons ev evs)
  obtain y1 as where 1: "pdcp_rx_step P ev y = Inr (y1, as)" "sys_inv C anything y1"
    using step_ok [OF Cons.prems(1) _ Cons.prems(2) sec_link_anything, of ev] Cons.prems(3) by (auto simp: step_good_def)
  then show ?case using Cons.IH [of y1] Cons.prems(2,3) by auto
qed

text \<open>Between two changes of the keys or of the state variables the deliveries are in the order of COUNT.\<close>

lemma run_in_order:
  assumes "sys_inv C D y" "cipher_ok P" "sec_link P C D (sys_ent y)" "rx_admissible P C evs y" "\<forall>ev \<in> set evs. keeps_counts ev"
  shows "\<exists>y' as. pdcp_rx_run P evs y = Inr (y', as) \<and> sys_inv C D y' \<and>
     pst_deliv (sys_ent y) \<le> pst_deliv (sys_ent y') \<and> emits D (pst_deliv (sys_ent y)) (pst_deliv (sys_ent y')) as"
  using assms
proof (induction evs arbitrary: y)
  case Nil
  then show ?case by (simp add: emits_nil)
next
  case (Cons ev evs)
  obtain y1 as where 1: "pdcp_rx_step P ev y = Inr (y1, as)" "sys_inv C D y1" "advances (sys_ent y) (sys_ent y1)"
      "emits D (pst_deliv (sys_ent y)) (pst_deliv (sys_ent y1)) as"
    using step_ok [OF Cons.prems(1) _ Cons.prems(2,3), of ev] Cons.prems(4,5) by (auto simp: step_good_def)
  have "apply_deciphering_and_integrity_check P w buf c (sys_ent y1) = apply_deciphering_and_integrity_check P w buf c (sys_ent y)"
    for w buf c
    using 1(3) by (simp add: apply_deciphering_and_integrity_check_def advances_def prx_is_srb_def split: option.split)
  then have "sec_link P C D (sys_ent y1)" using Cons.prems(3) 1(3) by (simp add: sec_link_def advances_def)
  then obtain y2 as' where 2: "pdcp_rx_run P evs y1 = Inr (y2, as')" "sys_inv C D y2"
      "pst_deliv (sys_ent y1) \<le> pst_deliv (sys_ent y2)" "emits D (pst_deliv (sys_ent y1)) (pst_deliv (sys_ent y2)) as'"
    using Cons.IH [of y1] 1 Cons.prems by auto
  have le: "pst_deliv (sys_ent y) \<le> pst_deliv (sys_ent y1)" using 1(3) by (simp add: advances_def)
  show ?case using 1(1) 2(1,2) le 2(3) emits_append [OF 1(4) 2(4) le 2(3)] by auto
qed

section \<open>PDUs of the peer\<close>

text \<open>
  The data PDU that a transmitting entity makes of an SDU with a COUNT: the header with its SN in front, then
  integrity protection and ciphering.
\<close>

definition sent_pdu ::
  "crypto_prims \<Rightarrow> security_engine \<Rightarrow> bool \<Rightarrow> pdcp_sn_size \<Rightarrow> u32 \<Rightarrow> byte_buffer \<Rightarrow> byte_buffer \<Rightarrow> bool" where
  "sent_pdu P e srb sz count sdu pdu \<longleftrightarrow>
     (\<exists>buf. write_data_pdu_header True srb sz (pdcp_compute_sn sz count) sdu = Inr (Some buf) \<and>
        encrypt_and_protect_integrity P True e buf (hdr_size sz) count = Inr \<lparr>result_buf = Inr pdu, result_count = count\<rparr>)"

lemma read_header_prefix:
  assumes "take (hdr_size sz) a = take (hdr_size sz) b" "hdr_size sz < length a" "hdr_size sz < length b"
  shows "read_data_pdu_header sz (hdr_size sz) a = read_data_pdu_header sz (hdr_size sz) b"
proof -
  have n: "a ! i = b ! i" if "i < hdr_size sz" for i using assms(1) that by (metis nth_take)
  show ?thesis
    using n [of 0] n [of 1] n [of 2] assms(2,3) by (cases sz) (simp_all add: read_data_pdu_header_def hdr_size_def)
qed

lemma sent_pdu_received:
  assumes P: "crypto_ok P" and sz: "valid_sn_size sz" "\<not> (srb \<and> sz = Pdcp_Size18bits)" and sdu: "sdu \<noteq> []"
    and sent: "sent_pdu P e srb sz count sdu pdu"
  shows "read_data_pdu_header sz (hdr_size sz) pdu = Some (pdcp_compute_sn sz count)"
    "hdr_size sz + mac_size e < length pdu"
    "\<exists>h. decrypt_and_verify_integrity P e pdu (hdr_size sz) count = \<lparr>result_buf = Inr (h @ sdu), result_count = count\<rparr> \<and>
       length h = hdr_size sz"
    "pdcp_pdu_get_dc (hd pdu) = (if srb then Pdcp_Control else Pdcp_Data)"
proof -
  obtain buf where buf: "write_data_pdu_header True srb sz (pdcp_compute_sn sz count) sdu = Inr (Some buf)"
      "encrypt_and_protect_integrity P True e buf (hdr_size sz) count = Inr \<lparr>result_buf = Inr pdu, result_count = count\<rparr>"
    using sent by (auto simp: sent_pdu_def)
  obtain h where h: "buf = h @ sdu" "length h = hdr_size sz"
      "read_data_pdu_header sz (hdr_size sz) buf = Some (pdcp_compute_sn sz count)"
      "pdcp_pdu_get_dc (hd buf) = (if srb then Pdcp_Control else Pdcp_Data)"
    using read_write_header [OF sz sdu compute_sn_less, of count] buf(1) by auto
  have pos: "0 < hdr_size sz" by (simp add: hdr_size_def)
  have ne: "buf \<noteq> []" and le: "hdr_size sz \<le> length buf" and lt: "hdr_size sz < length buf" using h(1,2) sdu by auto
  have p: "length pdu = length buf + mac_size e" "take (hdr_size sz) pdu = take (hdr_size sz) buf"
      "decrypt_and_verify_integrity P e pdu (hdr_size sz) count = \<lparr>result_buf = Inr buf, result_count = count\<rparr>"
    using encrypt_decrypt [OF P le ne, of e count] buf(2) by auto
  show "read_data_pdu_header sz (hdr_size sz) pdu = Some (pdcp_compute_sn sz count)"
    using read_header_prefix [OF p(2)] p(1) lt h(3) by simp
  show "hdr_size sz + mac_size e < length pdu" using p(1) lt by simp
  show "\<exists>h. decrypt_and_verify_integrity P e pdu (hdr_size sz) count = \<lparr>result_buf = Inr (h @ sdu), result_count = count\<rparr> \<and>
      length h = hdr_size sz"
    using p(3) h(1,2) by auto
  have "hd pdu = hd buf" using p(2) pos by (metis hd_take)
  then show "pdcp_pdu_get_dc (hd pdu) = (if srb then Pdcp_Control else Pdcp_Data)" using h(4) by simp
qed

definition in_window :: "pdcp_entity_rx \<Rightarrow> u32 \<Rightarrow> bool" where
  "in_window s c \<longleftrightarrow>
     - half_window (prc_sn_size (prx_cfg s)) \<le> uint c - uint (pst_deliv s) \<and>
     uint c - uint (pst_deliv s) < half_window (prc_sn_size (prx_cfg s))"

definition from_peer ::
  "crypto_prims \<Rightarrow> security_engine \<Rightarrow> (u32 \<Rightarrow> byte_buffer) \<Rightarrow> pdcp_entity_rx \<Rightarrow> byte_buffer \<Rightarrow> bool" where
  "from_peer P e sdus s buf \<longleftrightarrow>
     (\<not> prx_is_srb s \<and> pdcp_pdu_get_dc (hd buf) = Pdcp_Control) \<or>
     (\<exists>c. sent_pdu P e (prx_is_srb s) (prc_sn_size (prx_cfg s)) c (sdus c) buf \<and> in_window s c)"

fun peer_event :: "crypto_prims \<Rightarrow> security_engine \<Rightarrow> (u32 \<Rightarrow> byte_buffer) \<Rightarrow> pdcp_rx_event \<Rightarrow> pdcp_rx_sys \<Rightarrow> bool" where
  "peer_event P e sdus (Rx_Ev_Pdu env buf) y \<longleftrightarrow> from_peer P e sdus (sys_ent y) buf"
| "peer_event P e sdus (Rx_Ev_End_Buffering env) y \<longleftrightarrow>
     (\<forall>buf \<in> set (prx_pdu_buffer (sys_ent y)). from_peer P e sdus (sys_ent y) buf)"
| "peer_event P e sdus ev y \<longleftrightarrow> True"

fun peer_admissible ::
  "crypto_prims \<Rightarrow> security_engine \<Rightarrow> (u32 \<Rightarrow> byte_buffer) \<Rightarrow> pdcp_rx_event list \<Rightarrow> pdcp_rx_sys \<Rightarrow> bool" where
  "peer_admissible P e sdus [] y \<longleftrightarrow> True"
| "peer_admissible P e sdus (ev # evs) y \<longleftrightarrow>
     keeps_counts ev \<and> rx_allowed anything ev y \<and> peer_event P e sdus ev y \<and>
     (case pdcp_rx_step P ev y of Inl _ \<Rightarrow> True | Inr (y', _) \<Rightarrow> peer_admissible P e sdus evs y')"

text \<open>The COUNT of a PDU from the peer is reconstructed.\<close>

lemma from_peer_pdu_ok:
  assumes P: "crypto_ok P" and cfg: "rx_cfg s" "\<not> (prx_is_srb s \<and> prc_sn_size (prx_cfg s) = Pdcp_Size18bits)"
    and sdus: "\<And>c. sdus c \<noteq> []" and peer: "from_peer P e sdus s buf" and any: "pdu_ok anything s buf"
  shows "pdu_ok (\<lambda>c. sent_pdu P e (prx_is_srb s) (prc_sn_size (prx_cfg s)) c (sdus c)) s buf"
proof (cases "\<not> prx_is_srb s \<and> pdcp_pdu_get_dc (hd buf) = Pdcp_Control")
  case True
  then show ?thesis by (simp add: pdu_ok_def)
next
  case False
  let ?sz = "prc_sn_size (prx_cfg s)"
  obtain c where c: "sent_pdu P e (prx_is_srb s) ?sz c (sdus c) buf" "in_window s c"
    using peer False by (auto simp: from_peer_def)
  have sz: "valid_sn_size ?sz" and w: "uint (prx_window_size s) = half_window ?sz" and h: "prx_hdr_len_bytes s = hdr_size ?sz"
    using cfg(1) by (simp_all add: rx_cfg_def)
  have rd: "read_data_pdu_header ?sz (prx_hdr_len_bytes s) buf = Some (pdcp_compute_sn ?sz c)"
    using sent_pdu_received(1) [OF P sz cfg(2) sdus c(1)] h by simp
  have "pst_deliv s + word_of_int (uint c - uint (pst_deliv s)) = c" by simp
  then have "rcvd_count s (pdcp_compute_sn ?sz c) = c"
    using estimate_count_correct [OF w, of "uint c - uint (pst_deliv s)" "pst_deliv s"] c(2)
    by (simp add: rcvd_count_def in_window_def)
  then show ?thesis using any c(1) rd by (simp add: pdu_ok_def)
qed

lemma peer_event_allowed:
  assumes "crypto_ok P" "rx_cfg (sys_ent y)" "\<not> (prx_is_srb (sys_ent y) \<and> prc_sn_size (prx_cfg (sys_ent y)) = Pdcp_Size18bits)"
    "\<And>c. sdus c \<noteq> []" "peer_event P e sdus ev y" "rx_allowed anything ev y"
  shows "rx_allowed (\<lambda>c. sent_pdu P e (prx_is_srb (sys_ent y)) (prc_sn_size (prx_cfg (sys_ent y))) c (sdus c)) ev y"
  using assms(5,6) from_peer_pdu_ok [OF assms(1-4)] by (cases ev) auto

lemma sec_link_peer:
  assumes "crypto_ok P" "rx_cfg s" "\<not> (prx_is_srb s \<and> prc_sn_size (prx_cfg s) = Pdcp_Size18bits)" "\<And>c. sdus c \<noteq> []"
    and pool: "set (prx_sec_engine_pool s) \<subseteq> {Some e}"
  shows "sec_link P (\<lambda>c. sent_pdu P e (prx_is_srb s) (prc_sn_size (prx_cfg s)) c (sdus c)) (\<lambda>c sdu. sdu = sdus c) s"
  unfolding sec_link_def
proof (intro allI impI)
  fix w count buf r buf'
  let ?sz = "prc_sn_size (prx_cfg s)"
  assume c: "sent_pdu P e (prx_is_srb s) ?sz count (sdus count) buf"
    and r: "apply_deciphering_and_integrity_check P w buf count s = Inr r" "result_buf r = Inr buf'"
  have sz: "valid_sn_size ?sz" using assms(2) by (simp add: rx_cfg_def)
  have w: "w < prx_max_nof_crypto_workers s" using r(1) by (auto simp: apply_deciphering_and_integrity_check_def split: if_splits)
  then have "prx_sec_engine_pool s ! w = Some e"
    using pool assms(2) by (metis nth_mem rx_cfg_def singletonD subsetD)
  then have "r = decrypt_and_verify_integrity P e buf (hdr_size ?sz) count"
    using r(1) w by (simp add: apply_deciphering_and_integrity_check_def)
  then show "drop (hdr_size ?sz) buf' = sdus count"
    using sent_pdu_received(3) [OF assms(1) sz assms(3,4) c] r(2) by auto
qed

lemma run_peer:
  assumes "crypto_ok P" "\<not> (prx_is_srb (sys_ent y) \<and> prc_sn_size (prx_cfg (sys_ent y)) = Pdcp_Size18bits)" "\<And>c. sdus c \<noteq> []"
    "set (prx_sec_engine_pool (sys_ent y)) \<subseteq> {Some e}"
    "sys_inv (\<lambda>c. sent_pdu P e (prx_is_srb (sys_ent y)) (prc_sn_size (prx_cfg (sys_ent y))) c (sdus c)) (\<lambda>c sdu. sdu = sdus c) y"
    "peer_admissible P e sdus evs y"
  shows "\<exists>y' as. pdcp_rx_run P evs y = Inr (y', as) \<and> pst_deliv (sys_ent y) \<le> pst_deliv (sys_ent y') \<and>
     emits (\<lambda>c sdu. sdu = sdus c) (pst_deliv (sys_ent y)) (pst_deliv (sys_ent y')) as"
  using assms(2,4-6)
proof (induction evs arbitrary: y)
  case Nil
  then show ?case by (simp add: emits_nil)
next
  case (Cons ev evs)
  let ?C = "\<lambda>s c. sent_pdu P e (prx_is_srb s) (prc_sn_size (prx_cfg s)) c (sdus c)" and ?D = "\<lambda>c sdu. sdu = sdus c"
  have cfg: "rx_cfg (sys_ent y)" using Cons.prems(3) by (simp add: sys_inv_def rx_inv_def)
  have P: "cipher_ok P" using assms(1) by (simp add: crypto_ok_def)
  have ok: "rx_allowed (?C (sys_ent y)) ev y"
    using peer_event_allowed [OF assms(1) cfg Cons.prems(1) assms(3)] Cons.prems(4) by simp
  have sec: "sec_link P (?C (sys_ent y)) ?D (sys_ent y)"
    using sec_link_peer [OF assms(1) cfg Cons.prems(1) assms(3) Cons.prems(2)] .
  obtain y1 as where 1: "pdcp_rx_step P ev y = Inr (y1, as)" "sys_inv (?C (sys_ent y)) ?D y1"
      "advances (sys_ent y) (sys_ent y1)" "emits ?D (pst_deliv (sys_ent y)) (pst_deliv (sys_ent y1)) as"
    using step_ok [OF Cons.prems(3) ok P sec] Cons.prems(4) by (auto simp: step_good_def)
  have same: "prx_is_srb (sys_ent y1) = prx_is_srb (sys_ent y)" "prx_cfg (sys_ent y1) = prx_cfg (sys_ent y)"
      "prx_sec_engine_pool (sys_ent y1) = prx_sec_engine_pool (sys_ent y)" and le: "pst_deliv (sys_ent y) \<le> pst_deliv (sys_ent y1)"
    using 1(3) by (simp_all add: advances_def prx_is_srb_def)
  obtain y2 as' where 2: "pdcp_rx_run P evs y1 = Inr (y2, as')" "pst_deliv (sys_ent y1) \<le> pst_deliv (sys_ent y2)"
      "emits ?D (pst_deliv (sys_ent y1)) (pst_deliv (sys_ent y2)) as'"
    using Cons.IH [of y1] 1(1,2) Cons.prems same by auto
  show ?case using 1(1) 2(1,2) le emits_append [OF 1(4) 2(3) le 2(2)] by auto
qed

section \<open>A sample\<close>

text \<open>Cryptographic functions that satisfy the hypotheses: a constant MAC and a cipher that adds the COUNT bitwise.\<close>

definition xor_stream :: "byte_buffer \<Rightarrow> u32 \<Rightarrow> u8 \<Rightarrow> security_direction \<Rightarrow> byte_buffer \<Rightarrow> byte_buffer" where
  "xor_stream k c b d m = map (\<lambda>x. x XOR ucast c) m"

definition sample_prims :: crypto_prims where
  "sample_prims =
     \<lparr>nia1 = (\<lambda>k c b d m. [1, 2, 3, 4]), nia2 = (\<lambda>k c b d m. Inr [ucast c, 2, 3, 4]), nia3 = (\<lambda>k c b d m. [1, 2, 3, 4]),
      nea1 = xor_stream, nea2 = (\<lambda>k c b d m. Some (xor_stream k c b d m)), nea3 = xor_stream\<rparr>"

lemma sample_prims_ok: "crypto_ok sample_prims" "cipher_ok sample_prims"
proof -
  have x: "(x XOR y) XOR y = x" for x y :: u8 by (simp add: xor.assoc)
  have "xor_stream k c b d (xor_stream k c b d m) = m" "length (xor_stream k c b d m) = length m" for k c b d m
    by (simp_all add: xor_stream_def x comp_def)
  then show "cipher_ok sample_prims" by (simp add: cipher_ok_def sample_prims_def)
  moreover have "mac_ok sample_prims" by (simp add: mac_ok_def sample_prims_def sec_mac_len_def)
  ultimately show "crypto_ok sample_prims" by (simp add: crypto_ok_def)
qed

definition sample_rx_cfg :: "pdcp_rb_type \<Rightarrow> pdcp_max_count \<Rightarrow> pdcp_rx_config" where
  "sample_rx_cfg rb mc = \<lparr>prc_rb_type = rb, prc_rlc_mode = Mode_Am, prc_sn_size = Pdcp_Size12bits,
     prc_direction = Uplink, prc_t_reordering = 10, prc_max_count = mc\<rparr>"

definition sample_rx_env :: pdcp_rx_env where
  "sample_rx_env = \<lparr>env_now = 0, env_copy_ok = True, env_crypto_ok = True\<rparr>"

definition sample_rx :: "pdcp_rb_type \<Rightarrow> pdcp_max_count \<Rightarrow> pdcp_entity_rx" where
  "sample_rx rb mc = projr (new_pdcp_rx (sample_rx_cfg rb mc) 0 1)"

lemma sample_rx_new: "new_pdcp_rx (sample_rx_cfg rb mc) 0 1 = Inr (sample_rx rb mc)"
  by (simp add: sample_rx_def new_pdcp_rx_def sample_rx_cfg_def)

lemma sample_rx_cfg_ok: "rx_config_ok (sample_rx_cfg rb pdcp_rx_default_max_count)"
  by (simp add: rx_config_ok_def sample_rx_cfg_def pdcp_rx_default_max_count_def half_window_def)

text \<open>One round of a loop at a time, for evaluation.\<close>

lemma until_reord_steps:
  "pst_deliv s = pst_reord s \<Longrightarrow> deliver_until_reord s = Inr (s, [])"
  "pst_deliv s \<noteq> pst_reord s \<Longrightarrow> \<not> has_sn (prx_window s) (pst_deliv s) \<Longrightarrow>
     deliver_until_reord s = deliver_until_reord (s\<lparr>pst_deliv := pst_deliv s + 1\<rparr>)"
  "pst_deliv s \<noteq> pst_reord s \<Longrightarrow> has_sn (prx_window s) (pst_deliv s) \<Longrightarrow>
     deliver_until_reord s = bind_res (deliver_count (pst_deliv s) s) (\<lambda>(s', as).
       bind_res (deliver_until_reord (s'\<lparr>pst_deliv := pst_deliv s' + 1\<rparr>)) (\<lambda>(s'', as'). Inr (s'', as @ as')))"
  by (subst deliver_until_reord.simps; auto simp: bind_res_def split: sum.split)+

lemma consecutive_steps:
  "pst_deliv s = pst_next s \<or> \<not> has_sn (prx_window s) (pst_deliv s) \<Longrightarrow> deliver_all_consecutive_counts s = Inr (s, [])"
  "pst_deliv s \<noteq> pst_next s \<Longrightarrow> has_sn (prx_window s) (pst_deliv s) \<Longrightarrow>
     deliver_all_consecutive_counts s = bind_res (deliver_count (pst_deliv s) s) (\<lambda>(s', as).
       bind_res (deliver_all_consecutive_counts (s'\<lparr>pst_deliv := pst_deliv s' + 1\<rparr>)) (\<lambda>(s'', as'). Inr (s'', as @ as')))"
  by (subst deliver_all_consecutive_counts.simps; auto simp: bind_res_def split: sum.split)+

lemmas rx_eval = sample_rx_def new_pdcp_rx_sys_def new_pdcp_rx_def sample_rx_cfg_def rx_handle_pdu_def sample_rx_env_def
  prx_is_srb_def pdcp_pdu_get_dc_def pdu_ok_def nof_tasks_def long_enough_def trailer_def hdr_size_def rx_handle_data_pdu_def
  read_data_pdu_header_def anything_def estimate_count_def estimate_hfn_def pdcp_compute_count_def pdcp_compute_hfn_def
  pdcp_compute_sn_def check_max_count_def pdcp_rx_default_max_count_def default_max_count_def increment_token_def new_token_manager_def
  rx_apply_security_def apply_deciphering_and_integrity_check_def srsran_assert_def remove_at_def run_ue_task_def
  rx_apply_reordering_def store_sdu_def cm_defs Let_def handle_reordering_timers_def t_reordering_infinity_def new_timer_def
  release_token_def return_token_def timer_run_def reordering_callback_def handle_t_reordering_expire_def
  until_reord_steps consecutive_steps deliver_count_def timer_stop_def rx_stop_def token_stop_def

section \<open>Properties\<close>


definition sample_rx_events :: "pdcp_rx_event list" where
  "sample_rx_events = [Rx_Ev_Pdu sample_rx_env [0x80, 2, 7], Rx_Ev_Crypto 0 0 True, Rx_Ev_Ue 0, Rx_Ev_Reordering_Expiry, Rx_Ev_Stop]"


text \<open>
  C1. Once an entity has its keys, every SDU that it delivers is the SDU that the peer sent with that COUNT, no COUNT is
  delivered twice and the COUNTs ascend, however the executors and the timer interleave. PDUs may be lost, reordered or
  repeated under these conditions: each PDU that arrives was made by the peer with the same keys, and its COUNT differs from
  RX_DELIV at its arrival by at most a window (from one window below to one less than a window above), so that a PDU
  repeated after the window has moved past it is outside; the caller keeps its side as in \<open>rx_admissible\<close>; the
  hard limit of COUNT is at least half of the SN range below \<open>2 ^ 32\<close> (\<open>rx_config_ok\<close>, which excludes the default limit); an SRB has SNs
  of 12 bits; SDUs are not empty; and during the run security is not configured again, the entity is not re-established and the
  state variables are not set.
\<close>

theorem pdcp_rx_delivers_sent:
  assumes cfg: "rx_config_ok cfg" "\<not> (prc_rb_type cfg = Srb \<and> prc_sn_size cfg = Pdcp_Size18bits)"
    and new: "new_pdcp_rx cfg bearer_id n = Inr s" "rx_configure_security sec_cfg integ ciph s = Inr s1"
    and peer: "new_security_engine sec_cfg bearer_id (prc_direction cfg) integ ciph = Inr e"
    and P: "crypto_ok P" and sdus: "\<forall>c. sdus c \<noteq> []"
    and adm: "peer_admissible P e sdus evs (new_pdcp_rx_sys s1)"
  shows "\<exists>y as. pdcp_rx_run P evs (new_pdcp_rx_sys s1) = Inr (y, as) \<and>
     sorted_wrt (<) (map fst (delivered_sdus as)) \<and> (\<forall>(c, sdu) \<in> set (delivered_sdus as). sdu = sdus c)"
proof -
  note inv = new_pdcp_rx_inv [OF cfg(1) new(1)]
  have b: "prx_bearer_id s = bearer_id" using new(1) by (auto simp: new_pdcp_rx_def bind_res_Inr_iff)
  have "\<not> (integ = Integrity_On \<and> (k_128_int sec_cfg = None \<or> integ_algo sec_cfg = None))"
    using peer by (auto simp: new_security_engine_def split: option.splits)
  then have s1: "s1 = s\<lparr>prx_integrity_enabled := integ, prx_ciphering_enabled := ciph, prx_sec_engine_pool := replicate n (Some e)\<rparr>"
    using new(2) peer inv(3,5) b by (auto simp: rx_configure_security_def bind_res_Inr_iff split: if_splits)
  let ?y = "new_pdcp_rx_sys s1"
  let ?C = "\<lambda>c. sent_pdu P e (prx_is_srb (sys_ent ?y)) (prc_sn_size (prx_cfg (sys_ent ?y))) c (sdus c)"
  let ?D = "\<lambda>c sdu. sdu = sdus c"
  have "rx_inv ?D s" using inv(1) [of ?C ?D] by (simp add: sys_inv_def new_pdcp_rx_sys_def)
  then have rx: "rx_inv ?D s1" using rx_inv_pool inv(5) s1 by simp
  have "sys_inv ?C ?D ?y"
    using rx inv(1) [of ?C ?D] s1 by (simp add: sys_inv_def new_pdcp_rx_sys_def nof_tasks_def)
  moreover have "\<not> (prx_is_srb (sys_ent ?y) \<and> prc_sn_size (prx_cfg (sys_ent ?y)) = Pdcp_Size18bits)"
    "set (prx_sec_engine_pool (sys_ent ?y)) \<subseteq> {Some e}"
    using cfg(2) inv(3) s1 by (auto simp: new_pdcp_rx_sys_def prx_is_srb_def)
  ultimately show ?thesis
    using run_peer [OF P, of ?y sdus e evs] sdus adm by (fastforce simp: emits_def)
qed

definition sample_sec_cfg :: sec_128_as_config where
  "sample_sec_cfg = \<lparr>domain = Domain_Up, k_128_int = Some [], k_128_enc = [], integ_algo = Some Nia2, cipher_algo = Nea2\<rparr>"

definition sample_engine :: security_engine where
  "sample_engine =
     \<lparr>integ_eng = Some \<lparr>ie_key = [], ie_bearer_id = 0, ie_direction = Uplink, ie_algo = Nia2\<rparr>,
      cipher_eng = Some \<lparr>ce_key = [], ce_bearer_id = 0, ce_direction = Uplink, ce_algo = Nea2\<rparr>\<rparr>"

definition sample_sdus :: "u32 \<Rightarrow> byte_buffer" where
  "sample_sdus c = [ucast c, 9]"

text \<open>The PDUs with COUNT 2 and 0, of which the second one is deciphered first.\<close>

definition sample_peer_events :: "pdcp_rx_event list" where
  "sample_peer_events =
     [Rx_Ev_Pdu sample_rx_env [0x80, 2, 0, 11, 0, 0, 1, 6], Rx_Ev_Pdu sample_rx_env [0x80, 0, 0, 9, 0, 2, 3, 4],
      Rx_Ev_Crypto 1 0 True, Rx_Ev_Ue 0, Rx_Ev_Crypto 0 0 True, Rx_Ev_Ue 0, Rx_Ev_Reordering_Expiry]"

lemma sample_selectors:
  "nia2 sample_prims = (\<lambda>k c b d m. Inr [ucast c, 2, 3, 4])"
  "nea2 sample_prims = (\<lambda>k c b d m. Some (map (\<lambda>x. x XOR ucast c) m))"
  "integ_eng sample_engine = Some \<lparr>ie_key = [], ie_bearer_id = 0, ie_direction = Uplink, ie_algo = Nia2\<rparr>"
  "cipher_eng sample_engine = Some \<lparr>ce_key = [], ce_bearer_id = 0, ce_direction = Uplink, ce_algo = Nea2\<rparr>"
  by (simp_all add: sample_prims_def xor_stream_def sample_engine_def fun_eq_iff)

lemmas sec_eval = sample_selectors encrypt_and_protect_integrity_def protect_integrity_def
  compute_mac_def apply_ciphering_def decrypt_and_verify_integrity_def verify_integrity_def sec_mac_len_def

lemma sample_sent:
  "sent_pdu sample_prims sample_engine False Pdcp_Size12bits 2 (sample_sdus 2) [0x80, 2, 0, 11, 0, 0, 1, 6]"
  "sent_pdu sample_prims sample_engine False Pdcp_Size12bits 0 (sample_sdus 0) [0x80, 0, 0, 9, 0, 2, 3, 4]"
  by (simp_all add: sent_pdu_def write_data_pdu_header_def srsran_assert_def pdcp_compute_sn_def hdr_size_def
      sample_sdus_def sec_eval Let_def)

lemma sample_from_peer:
  assumes "\<not> prx_is_srb s" "prc_sn_size (prx_cfg s) = Pdcp_Size12bits"
  shows "in_window s 2 \<Longrightarrow> from_peer sample_prims sample_engine sample_sdus s [0x80, 2, 0, 11, 0, 0, 1, 6]"
    "in_window s 0 \<Longrightarrow> from_peer sample_prims sample_engine sample_sdus s [0x80, 0, 0, 9, 0, 2, 3, 4]"
  using assms sample_sent unfolding from_peer_def by auto

definition sample_rx_secured :: pdcp_entity_rx where
  "sample_rx_secured =
     (sample_rx Drb pdcp_rx_default_max_count)\<lparr>prx_integrity_enabled := Integrity_On, prx_ciphering_enabled := Ciphering_On,
        prx_sec_engine_pool := [Some sample_engine]\<rparr>"

theorem pdcp_rx_delivers_sent_witness:
  "\<exists>y as. pdcp_rx_run sample_prims sample_peer_events (new_pdcp_rx_sys sample_rx_secured) = Inr (y, as) \<and>
     sorted_wrt (<) (map fst (delivered_sdus as)) \<and> (\<forall>(c, sdu) \<in> set (delivered_sdus as). sdu = sample_sdus c)"
proof (rule pdcp_rx_delivers_sent)
  show "rx_config_ok (sample_rx_cfg Drb pdcp_rx_default_max_count)" by (rule sample_rx_cfg_ok)
  show "new_pdcp_rx (sample_rx_cfg Drb pdcp_rx_default_max_count) 0 1 = Inr (sample_rx Drb pdcp_rx_default_max_count)"
    by (rule sample_rx_new)
  show "rx_configure_security sample_sec_cfg Integrity_On Ciphering_On (sample_rx Drb pdcp_rx_default_max_count) = Inr sample_rx_secured"
    by (simp add: rx_configure_security_def sample_sec_cfg_def sample_rx_secured_def rx_eval new_security_engine_def sample_engine_def)
  show "new_security_engine sample_sec_cfg 0 (prc_direction (sample_rx_cfg Drb pdcp_rx_default_max_count)) Integrity_On Ciphering_On =
      Inr sample_engine"
    by (simp add: new_security_engine_def sample_sec_cfg_def sample_rx_cfg_def sample_engine_def)
  show "crypto_ok sample_prims" by (rule sample_prims_ok)
  show "peer_admissible sample_prims sample_engine sample_sdus sample_peer_events (new_pdcp_rx_sys sample_rx_secured)"
    by (simp add: rx_eval sample_peer_events_def sample_rx_secured_def sample_from_peer in_window_def half_window_def sec_eval)
qed (simp_all add: sample_rx_cfg_def sample_sdus_def)

text \<open>
  C22. The event that the caller waits for before it destroys the entity or changes its keys: after PDU processing has
  been stopped, and until it is restarted, the event is set exactly when no cryptographic task and no UE task is in
  flight. This holds for every interleaving in which the caller keeps the obligations of \<open>rx_admissible\<close>.
\<close>

theorem pdcp_rx_awaitable:
  assumes "rx_config_ok cfg" "new_pdcp_rx cfg bearer_id n = Inr s" "cipher_ok P"
    "rx_admissible P anything evs (new_pdcp_rx_sys s)" "pdcp_rx_run P evs (new_pdcp_rx_sys s) = Inr (y, as)"
  shows "pending_crypto (prx_token_mngr (sys_ent y)) \<longleftrightarrow> sys_halted y \<and> sys_crypto y = [] \<and> sys_ue y = []"
  using run_safe [OF new_pdcp_rx_inv(1) [OF assms(1,2)] assms(3,4)] assms(5)
  by (auto simp: sys_inv_def tokens_ok_def nof_tasks_def)

text \<open>A task is still in flight when the entity is stopped.\<close>

definition sample_stop_events :: "pdcp_rx_event list" where
  "sample_stop_events = [Rx_Ev_Pdu sample_rx_env [0x80, 2, 7], Rx_Ev_Stop]"

theorem pdcp_rx_awaitable_witness:
  "\<exists>y as. pdcp_rx_run sample_prims sample_stop_events (new_pdcp_rx_sys (sample_rx Drb pdcp_rx_default_max_count)) = Inr (y, as) \<and>
     sys_halted y \<and> \<not> pending_crypto (prx_token_mngr (sys_ent y))"
proof -
  let ?y = "new_pdcp_rx_sys (sample_rx Drb pdcp_rx_default_max_count)"
  have adm: "rx_admissible sample_prims anything sample_stop_events ?y"
    by (simp add: rx_eval sample_stop_events_def)
  obtain y as where run: "pdcp_rx_run sample_prims sample_stop_events ?y = Inr (y, as)" "sys_halted y" "sys_crypto y \<noteq> []"
    by (simp add: rx_eval sample_stop_events_def)
  then show ?thesis
    using pdcp_rx_awaitable [OF sample_rx_cfg_ok sample_rx_new sample_prims_ok(2) adm run(1)] by auto
qed



text \<open>What the report relies on.\<close>

lemma status_window:
  assumes "rx_inv D s"
  shows "pst_deliv s \<le> pst_next s" "pst_next s < pst_next s + 1"
    "\<And>j. unat (pst_next s) - unat (pst_deliv s) - 1 \<le> j \<Longrightarrow> j < 2 ^ 17 \<Longrightarrow> cm_lookup (prx_window s) (pst_deliv s + 1 + of_nat j) = None"
    "\<And>c. cm_lookup (prx_window s) c \<noteq> None \<Longrightarrow> unat c - unat (pst_deliv s) - 1 < unat (pst_next s) - unat (pst_deliv s) - 1"
proof -
  let ?d = "pst_deliv s" and ?n = "pst_next s" and ?sz = "prc_sn_size (prx_cfg s)"
  have "1 < half_window ?sz" by (cases ?sz) (simp_all add: half_window_def)
  moreover have "uint ?n \<le> uint (mc_hard (prc_max_count (prx_cfg s)))" "uint (mc_hard (prc_max_count (prx_cfg s))) \<le> 2 ^ 32 - half_window ?sz"
    using assms by (simp_all add: rx_inv_def rx_win_def rx_cfg_def word_le_def)
  ultimately have n: "uint ?n + 1 < 2 ^ 32" by linarith
  show le: "?d \<le> ?n" using assms by (simp add: rx_inv_def rx_win_def)
  show "?n < ?n + 1" using n by (simp add: word_less_def uint_plus_if')
  have stored: "?d < c \<and> c < ?n" if "cm_lookup (prx_window s) c \<noteq> None" for c
  proof -
    have "?d \<le> c" "c < ?n" using assms that by (auto simp: rx_inv_def rx_win_def)
    moreover have "c \<noteq> ?d" using assms that by (auto simp: rx_inv_def)
    ultimately show ?thesis by simp
  qed
  show "cm_lookup (prx_window s) (?d + 1 + of_nat j) = None" if j: "unat ?n - unat ?d - 1 \<le> j" "j < 2 ^ 17" for j
  proof -
    have "unat (?d + 1 + of_nat j) = (unat ?d + 1 + j) mod 2 ^ 32"
      by (simp add: unat_word_ariths unat_of_nat take_bit_eq_mod mod_simps)
    then have "unat (?d + 1 + of_nat j) < unat ?d \<or> unat ?n \<le> unat (?d + 1 + of_nat j)"
    proof (cases "unat ?d + 1 + j < 2 ^ 32")
      case True
      then show ?thesis using j(1) \<open>unat (?d + 1 + of_nat j) = _\<close> by simp
    next
      case False
      moreover have "unat ?d < 2 ^ 32" using unsigned_less [of ?d, where ?'a = nat] by simp
      ultimately have "(unat ?d + 1 + j) mod 2 ^ 32 = unat ?d + 1 + j - 2 ^ 32" "unat ?d + 1 + j - 2 ^ 32 < unat ?d"
        using j(2) by (simp_all add: mod_if)
      then show ?thesis using \<open>unat (?d + 1 + of_nat j) = _\<close> by simp
    qed
    then have "\<not> (?d < ?d + 1 + of_nat j \<and> ?d + 1 + of_nat j < ?n)" unfolding word_less_nat_alt by linarith
    then show ?thesis using stored by blast
  qed
  show "unat c - unat ?d - 1 < unat ?n - unat ?d - 1" if "cm_lookup (prx_window s) c \<noteq> None" for c
    using stored [OF that] unfolding word_less_nat_alt by linarith
qed

section \<open>The status report\<close>

text \<open>
  C23. The status report of the receiver fits into a control PDU, its header and its first field are read back as
  written, the field being RX_DELIV, and the bits that follow tell for each COUNT after RX_DELIV whether it is stored,
  up to the last stored COUNT or the limit of the size.
\<close>

theorem pdcp_status_report_exact:
  assumes "rx_inv D s" "\<forall>n. alloc n"
  shows "\<exists>rest. compile_status_report alloc s = Inr (0 # u32_bytes (pst_deliv s) @ rest) \<and>
     length (0 # u32_bytes (pst_deliv s) @ rest) \<le> pdcp_control_pdu_max_size \<and>
     unpack 32 \<lparr>bd_rest = u32_bytes (pst_deliv s) @ rest, bd_offset = 0\<rparr> = Inr (True, pst_deliv s, \<lparr>bd_rest = rest, bd_offset = 0\<rparr>) \<and>
     (\<forall>j < 8 * length rest. bits_of rest ! j \<longleftrightarrow> cm_lookup (prx_window s) (pst_deliv s + 1 + of_nat j) \<noteq> None) \<and>
     (\<forall>c. cm_lookup (prx_window s) c \<noteq> None \<longrightarrow>
        unat c - unat (pst_deliv s) - 1 < 8 * length rest \<or> 8 * length rest = 8 * (pdcp_control_pdu_max_size - 5))"
proof -
  note w = status_window [OF assms(1)]
  obtain rest where rest: "compile_status_report alloc s = Inr (0 # u32_bytes (pst_deliv s) @ rest)"
    "bits_of rest = map (\<lambda>j. has_sn (prx_window s) (pst_deliv s + 1 + of_nat j)) [0..<status_span s] @
       replicate (8 * length rest - status_span s) False"
    "8 * length rest < status_span s + 8"
    using compile_status_report_ok [of alloc s "pst_next s + 1"] assms(2) w(1,2) by auto
  have len: "status_span s \<le> 8 * length rest" using arg_cong [OF rest(2), of length] by simp
  have full: "8 * length rest = 8 * (pdcp_control_pdu_max_size - 5)"
    if "status_span s = (pdcp_control_pdu_max_size - 5) * 8"
    using that rest(3) len by (simp add: pdcp_control_pdu_max_size_def)
  have small: "8 * length rest \<le> 8 * (pdcp_control_pdu_max_size - 5)"
    using rest(3) by (auto simp: status_span_def pdcp_control_pdu_max_size_def min_def split: if_splits)
  have span: "status_span s = unat (pst_next s) - unat (pst_deliv s) - 1 \<or> status_span s = (pdcp_control_pdu_max_size - 5) * 8"
    by (simp add: status_span_def min_def)
  have bit: "bits_of rest ! j \<longleftrightarrow> cm_lookup (prx_window s) (pst_deliv s + 1 + of_nat j) \<noteq> None" if "j < 8 * length rest" for j
  proof (cases "j < status_span s")
    case True
    then show ?thesis by (simp add: rest(2) nth_append has_sn_lookup)
  next
    case False
    then have "unat (pst_next s) - unat (pst_deliv s) - 1 \<le> j" using that span full by auto
    then have "cm_lookup (prx_window s) (pst_deliv s + 1 + of_nat j) = None"
      using w(3) [of j] that small by (simp add: pdcp_control_pdu_max_size_def)
    then show ?thesis using False that len by (simp add: rest(2) nth_append)
  qed
  have "unat c - unat (pst_deliv s) - 1 < 8 * length rest \<or> 8 * length rest = 8 * (pdcp_control_pdu_max_size - 5)"
    if "cm_lookup (prx_window s) c \<noteq> None" for c
    using w(4) [OF that] span full len by auto
  then show ?thesis
    using rest(1) small bit unpack_fmc by (intro exI [of _ rest]) (auto simp: u32_bytes_def pdcp_control_pdu_max_size_def)
qed

text \<open>The SDU with COUNT 2 is stored, those with COUNT 0 and 1 are missing.\<close>

theorem pdcp_status_report_exact_witness:
  "\<exists>s as rest. rx_apply_reordering \<lparr>rpi_buf = [7], rpi_count = 2, rpi_time_of_arrival = 0\<rparr> (sample_rx Drb pdcp_rx_default_max_count) = Inr (s, as) \<and>
     compile_status_report (\<lambda>_. True) s = Inr (0 # u32_bytes (pst_deliv s) @ rest) \<and> bits_of rest ! 1"
proof -
  let ?s = "sample_rx Drb pdcp_rx_default_max_count" and ?i = "\<lparr>rpi_buf = [7], rpi_count = 2, rpi_time_of_arrival = 0\<rparr>"
  have inv: "rx_inv anything ?s"
    using new_pdcp_rx_inv(1) [OF sample_rx_cfg_ok sample_rx_new, of anything anything Drb] by (simp add: sys_inv_def new_pdcp_rx_sys_def)
  have "pst_deliv ?s \<le> rpi_count ?i" "count_ok ?s (rpi_count ?i)" "cm_lookup (prx_window ?s) (rpi_count ?i) = None"
    by (simp_all add: rx_eval count_ok_def)
  then obtain s as where s: "rx_apply_reordering ?i ?s = Inr (s, as)" "rx_inv anything s"
    using reordering_ok [OF inv, of ?i] by (auto simp: anything_def)
  have look: "pst_deliv s = 0" "cm_lookup (prx_window s) 2 \<noteq> None"
    using s(1) by (auto simp: rx_eval)
  obtain rest where rest: "compile_status_report (\<lambda>_. True) s = Inr (0 # u32_bytes (pst_deliv s) @ rest)"
      "\<forall>j < 8 * length rest. bits_of rest ! j \<longleftrightarrow> cm_lookup (prx_window s) (pst_deliv s + 1 + of_nat j) \<noteq> None"
      "\<forall>c. cm_lookup (prx_window s) c \<noteq> None \<longrightarrow>
        unat c - unat (pst_deliv s) - 1 < 8 * length rest \<or> 8 * length rest = 8 * (pdcp_control_pdu_max_size - 5)"
    using pdcp_status_report_exact [OF s(2), of "\<lambda>_. True"] by auto
  have "1 < 8 * length rest" using rest(3) look by (auto simp: pdcp_control_pdu_max_size_def)
  then have "bits_of rest ! 1" using rest(2) look by auto
  then show ?thesis using s(1) rest(1) by blast
qed

section \<open>Outside the obligations\<close>

text \<open>
  C37. On a signalling bearer, before security is activated, a PDU of five bytes ends the program: it passes the length
  checks (longer than the header, longer than a MAC), removing the MAC leaves one byte, and removing the header then
  fails the assertion of \<open>trim_head\<close>. No key is needed to send it.
\<close>

theorem pdcp_rx_short_srb_pdu_faults:
  assumes "new_pdcp_rx cfg bearer_id n = Inr s" "prc_rb_type cfg = Srb" "prc_sn_size cfg = Pdcp_Size12bits" "0 < n"
    "length buf = 5" "env_copy_ok env" "env_crypto_ok env"
    "rcvd_count s (the (read_data_pdu_header Pdcp_Size12bits 2 buf)) < mc_hard (prc_max_count cfg)"
  shows "pdcp_rx_run P [Rx_Ev_Pdu env buf, Rx_Ev_Crypto 0 0 ue_ok] (new_pdcp_rx_sys s) =
    Inl (Assertion_Failure ''Trying to trim more bytes than those available'')"
proof -
  have s: "prx_cfg s = cfg" "prx_hdr_len_bytes s = 2" "\<not> prx_stopped s" "\<not> prx_buffering s"
      "prx_sec_engine_pool s = replicate n None" "prx_max_nof_crypto_workers s = n"
    using assms(1,3) by (auto simp: new_pdcp_rx_def)
  obtain sn where sn: "read_data_pdu_header Pdcp_Size12bits 2 buf = Some sn"
    using assms(5) by (simp add: read_data_pdu_header_def)
  obtain s1 as where chk: "check_max_count (rcvd_count s sn) s = (s1, as)" by (cases "check_max_count (rcvd_count s sn) s")
  let ?i = "\<lparr>rpi_buf = buf, rpi_count = rcvd_count s sn, rpi_time_of_arrival = env_now env\<rparr>"
  let ?s = "s1\<lparr>prx_token_mngr := increment_token (prx_token_mngr s1)\<rparr>"
  have s1: "prx_cfg s1 = cfg" "prx_sec_engine_pool s1 = replicate n None" "prx_max_nof_crypto_workers s1 = n"
    using s arg_cong [OF conjunct1 [OF check_max_count_frame [OF chk]], of prx_cfg]
      arg_cong [OF conjunct1 [OF check_max_count_frame [OF chk]], of prx_sec_engine_pool]
      arg_cong [OF conjunct1 [OF check_max_count_frame [OF chk]], of prx_max_nof_crypto_workers] by simp_all
  have est: "estimate_count Pdcp_Size12bits (prx_window_size s) (pst_deliv s) sn = rcvd_count s sn"
    using s(1) assms(3) by (simp add: rcvd_count_def)
  have "rx_handle_data_pdu env buf s = Inr (?s, Rx_Metrics_Data_Pdus 5 # as, [?i])"
    using sn chk assms(3,5,7,8) s s1(1) est by (simp add: rx_handle_data_pdu_def not_le [symmetric])
  moreover have "buf \<noteq> []" using assms(5) by auto
  ultimately have h: "rx_handle_pdu env buf s = Inr (?s, Rx_Metrics_Pdus 5 # Rx_Metrics_Data_Pdus 5 # as, [?i])"
    using assms(2,5,6) s by (simp add: rx_handle_pdu_def prx_is_srb_def)
  have "rx_apply_security P 0 ue_ok ?i ?s = Inl (Assertion_Failure ''Trying to trim more bytes than those available'')"
    using assms(2,3,4,5) s1
    by (simp add: rx_apply_security_def apply_deciphering_and_integrity_check_def prx_is_srb_def sec_mac_len_def
        srsran_assert_def hdr_size_def)
  then show ?thesis using h by (simp add: new_pdcp_rx_sys_def)
qed

theorem pdcp_rx_short_srb_pdu_faults_witness:
  "pdcp_rx_run sample_prims [Rx_Ev_Pdu sample_rx_env [0, 0, 0, 0, 0], Rx_Ev_Crypto 0 0 True] (new_pdcp_rx_sys (sample_rx Srb default_max_count)) =
    Inl (Assertion_Failure ''Trying to trim more bytes than those available'')"
  by (rule pdcp_rx_short_srb_pdu_faults [OF sample_rx_new])
    (simp_all add: rx_eval rcvd_count_def)

lemma wrapped_count:
  assumes "2048 \<le> sn" "sn < 4096"
  shows "estimate_count Pdcp_Size12bits 2048 0 sn = sn - 4096"
proof -
  have "uint sn < 2 ^ pdcp_sn_size_to_uint Pdcp_Size12bits" using assms(2) by (simp add: word_less_def)
  moreover have neg: "\<not> uint sn < - 2048" using uint_ge_0 [of sn] by linarith
  have "estimate_hfn Pdcp_Size12bits 2048 0 sn = - 1"
    using assms(1) neg by (simp add: estimate_hfn_def pdcp_compute_sn_def pdcp_compute_hfn_def)
  ultimately show ?thesis using compute_count_ring by (simp add: estimate_count_def)
qed

lemma wrapped_count_limits:
  fixes sn :: u32
  assumes "2048 \<le> sn" "sn < 4094"
  shows "0xc0000000 < sn - 4096" "sn - 4096 < 0xfffffffe"
proof -
  have "unat (sn - 4096) = unat sn + (2 ^ 32 - 4096)"
    using assms by (simp add: unat_sub_if_size word_less_nat_alt word_le_nat_alt word_size)
  then show "0xc0000000 < sn - 4096" "sn - 4096 < 0xfffffffe"
    using assms by (simp_all add: word_less_nat_alt word_le_nat_alt)
qed

text \<open>Reordering an SDU far ahead in an empty entity, and the expiry of t-Reordering after that.\<close>

lemma reorder_into_empty:
  assumes "cm_wf (prx_window s)" "\<And>c. cm_lookup (prx_window s) c = None" "pst_deliv s = 0" "pst_next s = 0"
    "\<not> is_running (prx_reordering_timer s)" "timer_set (prx_reordering_timer s)" "0 < prc_t_reordering (prx_cfg s)"
    "0 < rpi_count i" "rpi_count i < h"
  shows "rx_apply_reordering i s =
     Inr (s\<lparr>prx_window := overwrite (prx_window s) (rpi_count i) (sdu_of i), pst_next := rpi_count i + 1, pst_reord := rpi_count i + 1,
        prx_reordering_timer := (prx_reordering_timer s)\<lparr>is_running := True\<rparr>\<rparr>, [])"
    "cm_wf (overwrite (prx_window s) (rpi_count i) (sdu_of i))"
    "cm_lookup (overwrite (prx_window s) (rpi_count i) (sdu_of i)) = [rpi_count i \<mapsto> sdu_of i]"
proof -
  have "rpi_count i \<noteq> 0" "0 < rpi_count i + 1" using assms(8) less_inc_iff [OF assms(9)] by auto
  then show "rx_apply_reordering i s =
     Inr (s\<lparr>prx_window := overwrite (prx_window s) (rpi_count i) (sdu_of i), pst_next := rpi_count i + 1, pst_reord := rpi_count i + 1,
        prx_reordering_timer := (prx_reordering_timer s)\<lparr>is_running := True\<rparr>\<rparr>, [])"
    using assms store_new [of s i]
    by (simp add: rx_apply_reordering_def handle_reordering_timers_def t_reordering_infinity_def Let_def)
  show "cm_wf (overwrite (prx_window s) (rpi_count i) (sdu_of i))" by (rule cm_wf_overwrite [OF assms(1)])
  have "slot_free (prx_window s) (rpi_count i)" using assms(1,2) by (intro slot_freeI) simp_all
  then show "cm_lookup (overwrite (prx_window s) (rpi_count i) (sdu_of i)) = [rpi_count i \<mapsto> sdu_of i]"
    using cm_lookup_overwrite [OF assms(1)] assms(2) by (simp add: fun_eq_iff)
qed

lemma sorted_singleton:
  fixes c :: u32
  assumes "sorted_wrt (<) (map fst xs)" "set xs = {(c, b)}"
  shows "xs = [(c, b)]"
proof (cases xs)
  case Nil
  then show ?thesis using assms(2) by simp
next
  case (Cons x ys)
  then have x: "x = (c, b)" and ys: "set ys \<subseteq> {(c, b)}" using assms(2) by auto
  have "y \<notin> set ys" for y
  proof
    assume "y \<in> set ys"
    then have "fst x < fst y" "y = (c, b)" using assms(1) Cons ys by auto
    then show False using x by simp
  qed
  then have "ys = []" by (metis last_in_set)
  then show ?thesis using Cons x by simp
qed

lemma expire_single:
  assumes "cm_wf (prx_window s)" "cm_lookup (prx_window s) = [c \<mapsto> info]" "pst_deliv s = 0" "c < h"
    "pst_next s = c + 1" "pst_reord s = c + 1"
  shows "\<exists>s' as. handle_t_reordering_expire s = Inr (s', as) \<and> pst_deliv s' = c + 1 \<and> delivered_sdus as = [(c, rsi_buf info)]"
proof -
  have "win_from (pst_deliv s) s" using assms(1,3) by (simp add: win_from_def)
  then obtain w as where w: "deliver_until_reord s = Inr (s\<lparr>prx_window := w, pst_deliv := pst_reord s\<rparr>, as)"
      "emptied_to (c + 1) s w as"
    using deliver_until_reord_ok [of s] assms(3,6) by auto
  have "c < c + 1" using less_inc_iff [OF assms(4)] by simp
  then have "delivered_sdus as = [(c, rsi_buf info)]"
    using w(2) assms(2) by (intro sorted_singleton) (auto simp: emptied_to_def delivers_def split: if_splits)
  then show ?thesis using w(1) assms(5,6) by (simp add: handle_t_reordering_expire_def consecutive_steps(1))
qed

text \<open>
  C38. With the limits of COUNT that an entity gets by default, which are those of the transmitting direction, the COUNT
  that is reconstructed for the first PDU of a data bearer with SNs of 12 bits, before security is configured, wraps around when its SN is
  in the upper half of the range: the PDU is accepted with a COUNT next to the end of the range, and at the expiry of
  t-Reordering, after more than four thousand million rounds of the loop, RX_DELIV has passed every COUNT that the
  peer can still send.
\<close>

theorem pdcp_rx_default_limit_wraps:
  assumes new: "new_pdcp_rx cfg bearer_id n = Inr s" "0 < n"
    and cfg: "prc_rb_type cfg = Drb" "prc_sn_size cfg = Pdcp_Size12bits" "prc_max_count cfg = default_max_count" "0 < prc_t_reordering cfg"
    and pdu: "pdcp_pdu_get_dc (hd buf) = Pdcp_Data" "read_data_pdu_header Pdcp_Size12bits 2 buf = Some sn" "2048 \<le> sn" "sn < 4094"
    and env: "env_copy_ok env" "env_crypto_ok env"
  shows "\<exists>y as. pdcp_rx_run P [Rx_Ev_Pdu env buf, Rx_Ev_Crypto 0 0 True, Rx_Ev_Ue 0, Rx_Ev_Reordering_Expiry] (new_pdcp_rx_sys s) = Inr (y, as) \<and>
    pst_deliv (sys_ent y) = sn - 4096 + 1 \<and> delivered_sdus as = [(sn - 4096, drop 2 buf)]"
proof -
  let ?c = "sn - 4096" and ?m = "prx_token_mngr s" and ?t = "prx_reordering_timer s"
  let ?i = "\<lparr>rpi_buf = buf, rpi_count = ?c, rpi_time_of_arrival = env_now env\<rparr>"
  let ?j = "\<lparr>rpi_buf = drop 2 buf, rpi_count = ?c, rpi_time_of_arrival = env_now env\<rparr>"
  have s: "prx_cfg s = cfg" "prx_hdr_len_bytes s = 2" "\<not> prx_stopped s" "\<not> prx_buffering s" "prx_window_size s = 2048"
      "prx_sec_engine_pool s = replicate n None" "prx_max_nof_crypto_workers s = n" "?m = new_token_manager"
      "pst_deliv s = 0" "pst_next s = 0" "prx_window s = new_circular_map 2048" "\<not> is_running ?t" "timer_set ?t"
      "\<not> prx_max_count_notified s" "\<not> prx_max_count_overflow s"
    using new(1) cfg by (auto simp: new_pdcp_rx_def new_timer_def)
  note lim = wrapped_count_limits [OF pdu(3,4)]
  have sn: "sn < 4096" using pdu(4) by (rule order_less_trans) simp
  have buf: "2 < length buf" "buf \<noteq> []" using pdu(2) by (auto simp: read_data_pdu_header_def split: if_splits)
  define s1 where "s1 = s\<lparr>prx_max_count_notified := True, prx_token_mngr := increment_token ?m\<rparr>"
  have 1: "rx_handle_pdu env buf s =
      Inr (s1, [Rx_Metrics_Pdus (length buf), Rx_Metrics_Data_Pdus (length buf), Rx_On_Max_Count_Reached], [?i])"
    using s cfg pdu(1,2) env buf lim wrapped_count [OF pdu(3) sn]
    by (simp add: rx_handle_pdu_def rx_handle_data_pdu_def check_max_count_def default_max_count_def prx_is_srb_def s1_def
        Let_def not_le [symmetric])
  have 2: "rx_apply_security P 0 True ?i s1 = Inr (s1, [Reorder ?j])"
    using s cfg new(2) buf(1)
    by (simp add: rx_apply_security_def apply_deciphering_and_integrity_check_def prx_is_srb_def s1_def hdr_size_def srsran_assert_def)
  have wf: "cm_wf (prx_window s1)" "\<And>c. cm_lookup (prx_window s1) c = None"
    using cm_wf_new [of 11] by (simp_all add: s1_def s(11))
  have "(0 :: u32) < ?c" using lim(1) by (rule order_less_trans [rotated]) simp
  then obtain s2 where 3: "rx_apply_reordering ?j s1 = Inr (s2, [])" "cm_wf (prx_window s2)" "cm_lookup (prx_window s2) = [?c \<mapsto> sdu_of ?j]"
      "pst_deliv s2 = 0" "pst_next s2 = ?c + 1" "pst_reord s2 = ?c + 1" "is_running (prx_reordering_timer s2)"
      "prx_token_mngr s2 = prx_token_mngr s1" "\<not> prx_stopped s2"
    using reorder_into_empty [of s1 ?j, OF wf] s cfg(4) lim(2) by (simp add: s1_def)
  define s3 where "s3 = s2\<lparr>prx_token_mngr := new_token_manager\<rparr>"
  have 4: "run_ue_task (Reorder ?j) s1 = Inr (s3, [Rx_Metrics_Integrity_Verified])"
    using 3(1,8) by (simp add: run_ue_task_def release_token_def return_token_def srsran_assert_def s1_def s3_def s(8)
        increment_token_def new_token_manager_def)
  obtain s4 as where 5: "reordering_callback s3 = Inr (s4, as)" "pst_deliv s4 = ?c + 1" "delivered_sdus as = [(?c, drop 2 buf)]"
    using expire_single [of "s3\<lparr>prx_reordering_timer := timer_stop (prx_reordering_timer s3)\<rparr>" ?c "sdu_of ?j", OF _ _ _ lim(2)] 3
    by (auto simp: reordering_callback_def s3_def sdu_of_def)
  have run: "is_running (prx_reordering_timer s3)" using 3(7) by (simp add: s3_def)
  show ?thesis using 1 2 4 5 run by (simp add: new_pdcp_rx_sys_def remove_at_def)
qed

theorem pdcp_rx_default_limit_wraps_witness:
  "\<exists>y as. pdcp_rx_run sample_prims [Rx_Ev_Pdu sample_rx_env [0x88, 0, 7], Rx_Ev_Crypto 0 0 True, Rx_Ev_Ue 0, Rx_Ev_Reordering_Expiry]
      (new_pdcp_rx_sys (sample_rx Drb default_max_count)) = Inr (y, as) \<and>
    pst_deliv (sys_ent y) = - 2047 \<and> delivered_sdus as = [(- 2048, [7])]"
  using pdcp_rx_default_limit_wraps [OF sample_rx_new, of Drb default_max_count "[0x88, 0, 7]" 2048 sample_rx_env sample_prims]
  by (simp add: sample_rx_cfg_def pdcp_pdu_get_dc_def read_data_pdu_header_def sample_rx_env_def del: pdcp_rx_run.simps)

text \<open>
  An entity whose caller has announced that PDU processing stopped cannot be stopped before it is restarted: the
  second \<open>stop\<close> of the token manager returns a token that was never taken. It fails the assertion when no task is in
  flight.
\<close>

theorem pdcp_rx_stop_while_halted_faults:
  assumes "new_pdcp_rx cfg bearer_id n = Inr s"
  shows "pdcp_rx_run P [Rx_Ev_Notify_Stopped, Rx_Ev_Stop] (new_pdcp_rx_sys s) =
    Inl (Assertion_Failure ''Error counting crypto tokens.'')"
  using assms
  by (auto simp: new_pdcp_rx_def bind_res_Inr_iff new_pdcp_rx_sys_def rx_notify_pdu_processing_stopped_def rx_stop_def token_stop_def
      return_token_def new_token_manager_def srsran_assert_def)

theorem pdcp_rx_stop_while_halted_faults_witness:
  "pdcp_rx_run sample_prims [Rx_Ev_Notify_Stopped, Rx_Ev_Stop] (new_pdcp_rx_sys (sample_rx Drb default_max_count)) =
    Inl (Assertion_Failure ''Error counting crypto tokens.'')"
  by (rule pdcp_rx_stop_while_halted_faults [OF sample_rx_new])

end
