(* ===== verification/Rlc_Um_Pdu.thy ===== *)
theory Rlc_Um_Pdu
  imports Rlc_Types
begin

text \<open>
  The header of UMD PDUs (lib/rlc/rlc_um_pdu.h): header sizes, the parser
  \<open>rlc_um_read_data_pdu_header\<close>, \<open>rlc_um_nr_packed_length\<close> and the writer
  \<open>rlc_um_write_data_pdu_header\<close>. The writer is modelled by the bytes that it stores at the front of
  the span; its return value is their number.

  Shown: the parser inverts the writer exactly for the headers on which the two agree about the
  presence of the SO field, the length function is the length written, the parser accepts a byte
  string if and only if the header bytes are there and the reserved bits are clear, and it never
  yields a sequence number outside of its field.
\<close>

unbundle bit_operations_syntax

definition rlc_um_pdu_header_size_complete_sdu :: nat where
  "rlc_um_pdu_header_size_complete_sdu = 1"

fun rlc_um_pdu_header_size_no_so :: "rlc_um_sn_size \<Rightarrow> nat" where
  "rlc_um_pdu_header_size_no_so Size6bits = 1"
| "rlc_um_pdu_header_size_no_so Size12bits = 2"

fun rlc_um_pdu_header_size_with_so :: "rlc_um_sn_size \<Rightarrow> nat" where
  "rlc_um_pdu_header_size_with_so Size6bits = 3"
| "rlc_um_pdu_header_size_with_so Size12bits = 4"

record rlc_um_pdu_header =
  um_si :: rlc_si_field
  um_sn_size :: rlc_um_sn_size
  um_sn :: u16
  um_so :: u16

definition empty_um_header :: rlc_um_pdu_header where
  "empty_um_header = \<lparr>um_si = Full_Sdu, um_sn_size = Size6bits, um_sn = 0, um_so = 0\<rparr>"

text \<open>The optional part: the SO field, read for last and middle segments.\<close>

definition rlc_um_read_so :: "byte_buffer \<Rightarrow> rlc_um_pdu_header \<Rightarrow> rlc_um_pdu_header option" where
  "rlc_um_read_so rest header =
     (if um_si header = Last_Segment \<or> um_si header = Middle_Segment then
        (case rest of
           [] \<Rightarrow> None
         | b1 # rest1 \<Rightarrow>
            (let so = push_bit 8 (ucast (b1 AND 0xff)) in
             case rest1 of
               [] \<Rightarrow> None
             | b2 # _ \<Rightarrow> Some (header\<lparr>um_so := so OR ucast (b2 AND 0xff)\<rparr>)))
      else Some header)"

definition rlc_um_read_data_pdu_header ::
  "byte_buffer \<Rightarrow> rlc_um_sn_size \<Rightarrow> rlc_um_pdu_header \<Rightarrow> rlc_um_pdu_header option" where
  "rlc_um_read_data_pdu_header pdu sn_size header0 =
     (case pdu of
        [] \<Rightarrow> None
      | b # rest \<Rightarrow>
         (let header = header0\<lparr>um_sn_size := sn_size\<rparr> in
          case sn_size of
            Size6bits \<Rightarrow>
              (let header = header\<lparr>um_si := si_of_number (drop_bit 6 b AND 0x03),
                                   um_sn := ucast (b AND 0x3f)\<rparr> in
               if um_si header = Full_Sdu \<and> um_sn header \<noteq> 0 then None
               else rlc_um_read_so rest header)
          | Size12bits \<Rightarrow>
              (let header = header\<lparr>um_si := si_of_number (drop_bit 6 b AND 0x03),
                                   um_sn := push_bit 8 (ucast (b AND 0x0f))\<rparr> in
               if um_si header = Full_Sdu \<and> um_sn header \<noteq> 0 then None
               else if um_si header = First_Segment \<and> drop_bit 4 b AND 0x03 \<noteq> 0 then None
               else if um_si header \<noteq> Full_Sdu then
                 (case rest of
                    [] \<Rightarrow> None
                  | b2 # rest2 \<Rightarrow>
                      rlc_um_read_so rest2
                        (header\<lparr>um_sn := um_sn header OR ucast (b2 AND 0xff)\<rparr>))
               else rlc_um_read_so rest header)))"

definition rlc_um_nr_packed_length :: "rlc_um_pdu_header \<Rightarrow> nat" where
  "rlc_um_nr_packed_length header =
     (if um_si header = Full_Sdu then 1
      else (if um_sn_size header = Size6bits then 1 else 2) + (if um_so header \<noteq> 0 then 2 else 0))"

definition rlc_um_write_data_pdu_header :: "rlc_um_pdu_header \<Rightarrow> byte_buffer" where
  "rlc_um_write_data_pdu_header header =
     (let b0 = ucast (push_bit 6 (to_number_si (um_si header) AND 0x03)) :: u8 in
      if um_si header = Full_Sdu then [b0]
      else
        (let fixed =
           (if um_sn_size header = Size6bits then [b0 OR ucast (um_sn header AND 0x3f)]
            else [b0 OR ucast (drop_bit 8 (um_sn header) AND 0xf), ucast (um_sn header AND 0xff)])
         in fixed @
            (if um_so header \<noteq> 0 then [ucast (drop_bit 8 (um_so header)), ucast (um_so header AND 0xff)]
             else [])))"

section \<open>Well-formed headers\<close>

text \<open>
  The sequence number fits its field, and the SO field is present (non-zero) exactly in the segments
  for which the parser reads it. A complete SDU carries no sequence number.
\<close>

definition um_header_ok :: "rlc_um_pdu_header \<Rightarrow> bool" where
  "um_header_ok h \<longleftrightarrow>
     um_sn h < push_bit (to_number_um_sn (um_sn_size h)) 1 \<and>
     (um_si h = Full_Sdu \<longrightarrow> um_sn h = 0) \<and>
     (has_so (um_si h) \<longleftrightarrow> um_so h \<noteq> 0)"

lemma um_sn_bits:
  "um_header_ok h \<Longrightarrow> bit (um_sn h) n \<Longrightarrow> n < to_number_um_sn (um_sn_size h)"
  by (rule bit_bounded [of "um_sn h"], simp add: um_header_ok_def push_bit_eq_mult)
     (cases "um_sn_size h"; simp)+

subsection \<open>The first byte\<close>

lemma um_first_byte_6:
  "drop_bit 6 (ucast (push_bit 6 (to_number_si si AND 3)) OR ucast (sn AND 63) :: u8) AND 3
     = ucast (to_number_si si)"
  by (rule bit_word_eqI) (auto simp: mask_simps bit_simps dest: bit_si)

lemma um_first_byte_12:
  "drop_bit 6 (ucast (push_bit 6 (to_number_si si AND 3)) OR ucast (drop_bit 8 sn AND 15) :: u8) AND 3
     = ucast (to_number_si si)"
  by (rule bit_word_eqI) (auto simp: mask_simps bit_simps dest: bit_si)

lemma um_first_byte_full:
  "drop_bit 6 (ucast (push_bit 6 (to_number_si si AND 3)) :: u8) AND 3 = ucast (to_number_si si)"
  by (rule bit_word_eqI) (auto simp: mask_simps bit_simps dest: bit_si)

lemma um_sn_6:
  fixes sn :: u16
  assumes "\<And>n. bit sn n \<Longrightarrow> n < 6"
  shows "ucast ((ucast (push_bit 6 (to_number_si si AND 3)) OR ucast (sn AND 63) :: u8) AND 63) = sn"
  by (rule bit_word_eqI) (auto simp: mask_simps bit_simps dest: assms dest!: bit_si)

lemma um_sn_12:
  fixes sn :: u16
  assumes "\<And>n. bit sn n \<Longrightarrow> n < 12"
  shows "push_bit 8 (ucast ((ucast (push_bit 6 (to_number_si si AND 3)) OR
            ucast (drop_bit 8 sn AND 15) :: u8) AND 15)) OR
         ucast ((ucast (sn AND 255) :: u8) AND 255) = sn"
  by (rule bit_word_eqI) (auto simp: mask_simps bit_simps dest: assms dest!: bit_si)

lemma um_reserved_12:
  "drop_bit 4 (ucast (push_bit 6 (to_number_si si AND 3)) OR ucast (drop_bit 8 sn AND 15) :: u8) AND 3 = 0"
  by (rule bit_word_eqI) (auto simp: mask_simps bit_simps dest: bit_si)

section \<open>Lengths\<close>

lemma length_write_um:
  "length (rlc_um_write_data_pdu_header h) = rlc_um_nr_packed_length h"
  by (simp add: rlc_um_write_data_pdu_header_def rlc_um_nr_packed_length_def Let_def)

lemma packed_length_sizes:
  "rlc_um_nr_packed_length h =
     (if um_si h = Full_Sdu then rlc_um_pdu_header_size_complete_sdu
      else if um_so h \<noteq> 0 then rlc_um_pdu_header_size_with_so (um_sn_size h)
      else rlc_um_pdu_header_size_no_so (um_sn_size h))"
  by (cases "um_sn_size h") (simp_all add: rlc_um_nr_packed_length_def rlc_um_pdu_header_size_complete_sdu_def)

lemma packed_length_le_4: "rlc_um_nr_packed_length h \<le> 4"
  by (simp add: rlc_um_nr_packed_length_def)

section \<open>Round trip\<close>

lemma read_so_write:
  assumes "has_so (um_si h)"
  shows "rlc_um_read_so ([ucast (drop_bit 8 so), ucast (so AND 255)] @ pay) h = Some (h\<lparr>um_so := so\<rparr>)"
  using assms join_u16_bytes [of so] by (auto simp: rlc_um_read_so_def has_so_iff Let_def)

lemma read_so_none: "\<not> has_so (um_si h) \<Longrightarrow> rlc_um_read_so rest h = Some h"
  by (simp add: rlc_um_read_so_def has_so_iff)

lemma um_read_full:
  assumes "um_si h = Full_Sdu" "um_sn h = 0" "um_so h = 0"
  shows "rlc_um_read_data_pdu_header (rlc_um_write_data_pdu_header h @ pay) (um_sn_size h) empty_um_header
    = Some h"
  using assms
  by (cases "um_sn_size h")
     (simp_all add: rlc_um_read_data_pdu_header_def rlc_um_write_data_pdu_header_def si_of_number_def
        read_so_none empty_um_header_def)

lemma um_read_6:
  assumes "drop_bit 6 b AND 3 = ucast (to_number_si si)" "ucast (b AND 63) = sn" "si \<noteq> Full_Sdu"
  shows "rlc_um_read_data_pdu_header (b # rest) Size6bits h0
    = rlc_um_read_so rest (h0\<lparr>um_sn_size := Size6bits, um_si := si, um_sn := sn\<rparr>)"
  by (simp add: rlc_um_read_data_pdu_header_def assms)

lemma um_read_12:
  assumes "drop_bit 6 b AND 3 = ucast (to_number_si si)" "drop_bit 4 b AND 3 = 0"
    "push_bit 8 (ucast (b AND 15)) OR ucast (b2 AND 255) = sn" "si \<noteq> Full_Sdu"
  shows "rlc_um_read_data_pdu_header (b # b2 # rest) Size12bits h0
    = rlc_um_read_so rest (h0\<lparr>um_sn_size := Size12bits, um_si := si, um_sn := sn\<rparr>)"
  using assms(4) by (simp add: rlc_um_read_data_pdu_header_def assms(1,2) assms(3) [symmetric] Let_def)

lemma um_write_6:
  assumes "um_header_ok h" "um_si h \<noteq> Full_Sdu" "um_sn_size h = Size6bits"
  shows "\<exists>b. rlc_um_write_data_pdu_header h =
           b # (if um_so h \<noteq> 0 then [ucast (drop_bit 8 (um_so h)), ucast (um_so h AND 255)] else [])
         \<and> drop_bit 6 b AND 3 = ucast (to_number_si (um_si h)) \<and> ucast (b AND 63) = um_sn h"
proof -
  have sn: "\<And>n. bit (um_sn h) n \<Longrightarrow> n < 6" using um_sn_bits [OF assms(1)] assms(3) by simp
  show ?thesis
    by (rule exI, rule conjI [OF _ conjI [OF um_first_byte_6 um_sn_6 [OF sn]]])
       (use assms in \<open>simp_all only: rlc_um_write_data_pdu_header_def Let_def append.simps if_True if_False
          simp_thms\<close>)
qed

lemma um_write_12:
  assumes "um_header_ok h" "um_si h \<noteq> Full_Sdu" "um_sn_size h = Size12bits"
  shows "\<exists>b b2. rlc_um_write_data_pdu_header h =
           b # b2 # (if um_so h \<noteq> 0 then [ucast (drop_bit 8 (um_so h)), ucast (um_so h AND 255)] else [])
         \<and> drop_bit 6 b AND 3 = ucast (to_number_si (um_si h)) \<and> drop_bit 4 b AND 3 = 0
         \<and> push_bit 8 (ucast (b AND 15)) OR ucast (b2 AND 255) = um_sn h"
proof -
  have sn: "\<And>n. bit (um_sn h) n \<Longrightarrow> n < 12" using um_sn_bits [OF assms(1)] assms(3) by simp
  show ?thesis
    by (rule exI, rule exI,
        rule conjI [OF _ conjI [OF um_first_byte_12 conjI [OF um_reserved_12 um_sn_12 [OF sn]]]])
       (use assms in \<open>simp_all only: rlc_um_write_data_pdu_header_def Let_def append.simps if_True if_False
          simp_thms rlc_um_sn_size.distinct\<close>)
qed

lemma um_read_segment:
  assumes ok: "um_header_ok h" and seg: "um_si h \<noteq> Full_Sdu"
  shows "rlc_um_read_data_pdu_header (rlc_um_write_data_pdu_header h @ pay) (um_sn_size h) empty_um_header
    = Some h"
proof (cases "um_sn_size h")
  case Size6bits
  then show ?thesis
    using um_write_6 [OF ok seg] ok seg
    by (auto simp: um_read_6 um_header_ok_def read_so_none read_so_write [simplified] empty_um_header_def)
next
  case Size12bits
  then show ?thesis
    using um_write_12 [OF ok seg] ok seg
    by (auto simp: um_read_12 um_header_ok_def read_so_none read_so_write [simplified] empty_um_header_def)
qed

lemma um_read_write:
  assumes "um_header_ok h"
  shows "rlc_um_read_data_pdu_header (rlc_um_write_data_pdu_header h @ payload) (um_sn_size h)
           empty_um_header = Some h
       \<and> drop (rlc_um_nr_packed_length h) (rlc_um_write_data_pdu_header h @ payload) = payload"
proof (cases "um_si h = Full_Sdu")
  case True
  then show ?thesis
    using assms um_read_full [of h payload]
    by (simp add: um_header_ok_def flip: length_write_um)
next
  case False
  then show ?thesis using um_read_segment [OF assms] by (simp flip: length_write_um)
qed



section \<open>What the parser accepts\<close>

lemma si_masked_cases: "si_of_number (drop_bit 6 b AND 3) = Full_Sdu \<longleftrightarrow> drop_bit 6 b AND 3 = 0"
  by (simp add: si_of_number_def)

text \<open>The number of header bytes that the parser consumes, by the SI field.\<close>

definition um_consumed :: "rlc_um_pdu_header \<Rightarrow> nat" where
  "um_consumed h =
     (if um_si h = Full_Sdu then rlc_um_pdu_header_size_complete_sdu
      else if has_so (um_si h) then rlc_um_pdu_header_size_with_so (um_sn_size h)
      else rlc_um_pdu_header_size_no_so (um_sn_size h))"

lemma um_read_so_Some:
  assumes "rlc_um_read_so rest h = Some h'"
  shows "um_si h' = um_si h" "um_sn h' = um_sn h" "um_sn_size h' = um_sn_size h"
    "\<not> has_so (um_si h) \<Longrightarrow> um_so h' = um_so h"
    "has_so (um_si h) \<Longrightarrow> \<exists>b1 b2 rest'. rest = b1 # b2 # rest' \<and>
        um_so h' = push_bit 8 (ucast (b1 AND 255)) OR ucast (b2 AND 255)"
  using assms
  by (auto simp: rlc_um_read_so_def has_so_iff Let_def split: list.splits if_splits)

lemmas um_read_splits = list.splits if_splits rlc_um_sn_size.splits

lemma um_read_sn_size:
  "rlc_um_read_data_pdu_header pdu s h0 = Some h \<Longrightarrow> um_sn_size h = s"
  by (auto simp: rlc_um_read_data_pdu_header_def Let_def split: um_read_splits dest!: um_read_so_Some(3))

lemma low_bits_less:
  "ucast (b AND 63 :: u8) < (64 :: u16)"
  "push_bit 8 (ucast (b AND 15 :: u8)) < (4096 :: u16)"
  "push_bit 8 (ucast (b AND 15 :: u8)) OR ucast (b2 AND 255 :: u8) < (4096 :: u16)"
proof -
  have "take_bit 6 (ucast (b AND 63 :: u8) :: u16) = ucast (b AND 63)"
    "take_bit 12 (push_bit 8 (ucast (b AND 15 :: u8)) :: u16) = push_bit 8 (ucast (b AND 15))"
    "take_bit 12 (push_bit 8 (ucast (b AND 15 :: u8)) OR ucast (b2 AND 255 :: u8) :: u16)
       = push_bit 8 (ucast (b AND 15)) OR ucast (b2 AND 255)"
    by (rule bit_word_eqI; auto simp: mask_simps bit_simps)+
  moreover have "take_bit 6 x < 64" "take_bit 12 x < 4096" for x :: u16
    using take_bit_nat_less_exp [of 6 "unat x"] take_bit_nat_less_exp [of 12 "unat x"]
    by (simp_all add: word_less_nat_alt unsigned_take_bit_eq)
  ultimately show
    "ucast (b AND 63 :: u8) < (64 :: u16)"
    "push_bit 8 (ucast (b AND 15 :: u8)) < (4096 :: u16)"
    "push_bit 8 (ucast (b AND 15 :: u8)) OR ucast (b2 AND 255 :: u8) < (4096 :: u16)"
    by metis+
qed

lemma cards_u16: "push_bit 6 1 = (64 :: u16)" "push_bit 12 1 = (4096 :: u16)"
  by (simp_all add: push_bit_eq_mult)

lemma um_read_sn_less:
  assumes "rlc_um_read_data_pdu_header pdu s h0 = Some h"
  shows "um_sn h < push_bit (to_number_um_sn s) 1"
  using assms
  by (auto simp: rlc_um_read_data_pdu_header_def Let_def low_bits_less cards_u16
      split: um_read_splits dest!: um_read_so_Some(2))

lemma um_read_split:
  assumes "rlc_um_read_data_pdu_header pdu s h0 = Some h"
  shows "\<exists>fixed rest h1. pdu = fixed @ rest \<and> rlc_um_read_so rest h1 = Some h \<and> um_so h1 = um_so h0 \<and>
    length fixed = (if um_si h1 = Full_Sdu then 1 else rlc_um_pdu_header_size_no_so s)"
proof -
  obtain b rest where pdu: "pdu = b # rest"
    using assms by (cases pdu) (auto simp: rlc_um_read_data_pdu_header_def)
  show ?thesis
  proof (cases s)
    case Size6bits
    then show ?thesis using assms
      by (intro exI [where x = "[b]"] exI [where x = rest])
         (auto simp: rlc_um_read_data_pdu_header_def Let_def pdu split: if_splits intro!: exI)
  next
    case Size12bits
    show ?thesis
  proof (cases "si_of_number (drop_bit 6 b AND 3) = Full_Sdu")
    case True
    then show ?thesis using assms
      by (intro exI [where x = "[b]"] exI [where x = rest])
         (auto simp: rlc_um_read_data_pdu_header_def Let_def Size12bits pdu split: if_splits intro!: exI)
  next
    case False
    then obtain b2 rest2 where "rest = b2 # rest2"
      using assms by (cases rest) (auto simp: rlc_um_read_data_pdu_header_def Let_def Size12bits pdu
            split: if_splits)
    with False show ?thesis using assms
      by (intro exI [where x = "[b, b2]"] exI [where x = rest2])
         (auto simp: rlc_um_read_data_pdu_header_def Let_def Size12bits pdu split: if_splits intro!: exI)
  qed
 qed
qed

lemma um_read_consumed:
  assumes "rlc_um_read_data_pdu_header pdu s h0 = Some h"
  shows "um_consumed h \<le> length pdu"
    and "\<not> has_so (um_si h) \<Longrightarrow> um_so h = um_so h0"
    and "has_so (um_si h) \<Longrightarrow> \<exists>fixed b1 b2 rest. pdu = fixed @ b1 # b2 # rest \<and>
          length fixed = rlc_um_pdu_header_size_no_so s \<and>
          um_so h = push_bit 8 (ucast (b1 AND 255)) OR ucast (b2 AND 255)"
proof -
  obtain fixed rest h1 where *: "pdu = fixed @ rest" "rlc_um_read_so rest h1 = Some h"
    "um_so h1 = um_so h0"
    "length fixed = (if um_si h1 = Full_Sdu then 1 else rlc_um_pdu_header_size_no_so s)"
    using um_read_split [OF assms] by blast
  note so = um_read_so_Some [OF *(2)]
  show "um_consumed h \<le> length pdu"
    using * so um_read_sn_size [OF assms]
    by (cases s; cases "has_so (um_si h)")
       (auto simp: um_consumed_def rlc_um_pdu_header_size_complete_sdu_def)
  show "\<not> has_so (um_si h) \<Longrightarrow> um_so h = um_so h0" using * so by simp
  show "has_so (um_si h) \<Longrightarrow> \<exists>fixed b1 b2 rest. pdu = fixed @ b1 # b2 # rest \<and>
          length fixed = rlc_um_pdu_header_size_no_so s \<and>
          um_so h = push_bit 8 (ucast (b1 AND 255)) OR ucast (b2 AND 255)"
    using * so by (metis has_so.simps(3))
qed

lemma join_zero_bytes:
  "push_bit 8 (ucast (b1 AND 255 :: u8)) OR ucast (b2 AND 255 :: u8) = (0 :: u16) \<Longrightarrow> b1 = 0 \<and> b2 = 0"
proof -
  assume *: "push_bit 8 (ucast (b1 AND 255 :: u8)) OR ucast (b2 AND 255 :: u8) = (0 :: u16)"
  have "bit (push_bit 8 (ucast (b1 AND 255 :: u8)) OR ucast (b2 AND 255 :: u8) :: u16) n
      \<longleftrightarrow> (8 \<le> n \<and> n < 16 \<and> bit b1 (n - 8)) \<or> bit b2 n" for n
    by (auto simp: mask_simps bit_simps dest: bit_imp_le_length)
  then have **: "\<not> ((8 \<le> n \<and> n < 16 \<and> bit b1 (n - 8)) \<or> bit b2 n)" for n
    unfolding * by simp
  have "b1 = 0"
    by (rule bit_word_eqI) (use ** [of "n + 8" for n] in simp)
  moreover have "b2 = 0"
    by (rule bit_word_eqI) (use ** in simp)
  ultimately show ?thesis by simp
qed

text \<open>
  The parser and \<open>rlc_um_nr_packed_length\<close> disagree on a last or middle segment with SO = 0: the
  parser reads the two SO bytes, the length function does not count them, so that the payload taken
  from the PDU starts with the two zero bytes of the SO field.
\<close>

theorem um_zero_so_in_payload:
  assumes "rlc_um_read_data_pdu_header pdu s empty_um_header = Some h"
    and "has_so (um_si h)" and "um_so h = 0"
  shows "drop (rlc_um_nr_packed_length h) pdu = 0 # 0 # drop (rlc_um_pdu_header_size_with_so s) pdu"
proof -
  obtain fixed b1 b2 rest where *: "pdu = fixed @ b1 # b2 # rest"
    "length fixed = rlc_um_pdu_header_size_no_so s"
    "push_bit 8 (ucast (b1 AND 255)) OR ucast (b2 AND 255) = (0 :: u16)"
    using um_read_consumed(3) [OF assms(1,2)] assms(3) by auto
  have "rlc_um_nr_packed_length h = rlc_um_pdu_header_size_no_so s"
    using assms um_read_sn_size [OF assms(1)]
    by (auto simp: packed_length_sizes has_so_iff)
  moreover have with_so: "rlc_um_pdu_header_size_with_so s = length fixed + 2"
    using *(2) by (cases s) simp_all
  ultimately show ?thesis
    using join_zero_bytes [OF *(3)] with_so by (simp add: *(1) flip: *(2))
qed

theorem um_zero_so_in_payload_witness:
  "rlc_um_read_data_pdu_header [0x81, 0, 0, 0xaa] Size6bits empty_um_header
     = Some \<lparr>um_si = Last_Segment, um_sn_size = Size6bits, um_sn = 1, um_so = 0\<rparr>
   \<and> drop (rlc_um_nr_packed_length \<lparr>um_si = Last_Segment, um_sn_size = Size6bits, um_sn = 1, um_so = 0\<rparr>)
       [0x81, 0, 0, 0xaa] = [0, 0, 0xaa :: u8]"
proof -
  have r: "rlc_um_read_data_pdu_header [0x81, 0, 0, 0xaa] Size6bits empty_um_header
     = Some \<lparr>um_si = Last_Segment, um_sn_size = Size6bits, um_sn = 1, um_so = 0\<rparr>"
    by code_simp
  show ?thesis using r um_zero_so_in_payload [OF r] by simp
qed

end
