(* ===== verification/Rlc_Am_Pdu.thy ===== *)
theory Rlc_Am_Pdu
  imports Rlc_Types
begin

text \<open>
  The header of AMD PDUs (lib/rlc/rlc_am_pdu.h): \<open>get_packed_size\<close>, the parser
  \<open>rlc_am_read_data_pdu_header\<close> and the writer \<open>rlc_am_write_data_pdu_header\<close>, modelled as for UM by
  the bytes stored at the front of the span.

  Shown: the parser inverts the writer for both SN lengths, and what it accepts has a sequence number
  of its field and a payload that starts at \<open>get_packed_size\<close>.
\<close>

unbundle bit_operations_syntax

definition rlc_am_pdu_header_so_size :: nat where
  "rlc_am_pdu_header_so_size = 2"

fun rlc_am_pdu_header_min_size :: "rlc_am_sn_size \<Rightarrow> nat" where
  "rlc_am_pdu_header_min_size Am_Size12bits = 2"
| "rlc_am_pdu_header_min_size Am_Size18bits = 3"

definition rlc_am_pdu_header_max_size :: "rlc_am_sn_size \<Rightarrow> nat" where
  "rlc_am_pdu_header_max_size sn_size = rlc_am_pdu_header_min_size sn_size + rlc_am_pdu_header_so_size"

record rlc_am_pdu_header =
  am_dc :: rlc_dc_field
  am_p :: u8
  am_si :: rlc_si_field
  am_sn_size :: rlc_am_sn_size
  am_sn :: u32
  am_so :: u16

definition empty_am_header :: rlc_am_pdu_header where
  "empty_am_header = \<lparr>am_dc = Dc_Control, am_p = 0, am_si = Full_Sdu, am_sn_size = Am_Size12bits,
     am_sn = 0, am_so = 0\<rparr>"

definition am_header_packed_size :: "rlc_am_pdu_header \<Rightarrow> nat" where
  "am_header_packed_size h =
     (if am_si h = Last_Segment \<or> am_si h = Middle_Segment
      then rlc_am_pdu_header_max_size (am_sn_size h)
      else rlc_am_pdu_header_min_size (am_sn_size h))"

definition rlc_am_read_so :: "byte_buffer \<Rightarrow> rlc_am_pdu_header \<Rightarrow> rlc_am_pdu_header option" where
  "rlc_am_read_so rest header =
     (if am_si header = Last_Segment \<or> am_si header = Middle_Segment then
        (case rest of
           [] \<Rightarrow> None
         | b1 # rest1 \<Rightarrow>
            (let so = push_bit 8 (ucast (b1 AND 0xff)) in
             case rest1 of
               [] \<Rightarrow> None
             | b2 # _ \<Rightarrow> Some (header\<lparr>am_so := so OR ucast (b2 AND 0xff)\<rparr>)))
      else Some header)"

definition rlc_am_read_data_pdu_header ::
  "byte_buffer \<Rightarrow> rlc_am_sn_size \<Rightarrow> rlc_am_pdu_header \<Rightarrow> rlc_am_pdu_header option" where
  "rlc_am_read_data_pdu_header pdu sn_size header0 =
     (if length pdu \<le> rlc_am_pdu_header_min_size sn_size then None
      else
        (case pdu of
           [] \<Rightarrow> None
         | b # rest \<Rightarrow>
            (let header = header0\<lparr>am_sn_size := sn_size,
                                  am_dc := dc_of_number (drop_bit 7 b AND 0x01),
                                  am_p := drop_bit 6 b AND 0x01,
                                  am_si := si_of_number (drop_bit 4 b AND 0x03)\<rparr> in
             case sn_size of
               Am_Size12bits \<Rightarrow>
                 (let sn = push_bit 8 (ucast (b AND 0x0f)) in
                  case rest of
                    [] \<Rightarrow> None
                  | b2 # rest2 \<Rightarrow>
                      rlc_am_read_so rest2 (header\<lparr>am_sn := sn OR ucast (b2 AND 0xff)\<rparr>))
             | Am_Size18bits \<Rightarrow>
                 (if b AND 0x0c \<noteq> 0 then None
                  else
                    (let sn = push_bit 16 (ucast (b AND 0x03)) in
                     case rest of
                       [] \<Rightarrow> None
                     | b2 # rest2 \<Rightarrow>
                        (let sn = sn OR push_bit 8 (ucast (b2 AND 0xff)) in
                         case rest2 of
                           [] \<Rightarrow> None
                         | b3 # rest3 \<Rightarrow>
                            rlc_am_read_so rest3 (header\<lparr>am_sn := sn OR ucast (b3 AND 0xff)\<rparr>)))))))"

definition rlc_am_write_data_pdu_header :: "rlc_am_pdu_header \<Rightarrow> byte_buffer" where
  "rlc_am_write_data_pdu_header header =
     (let b0 = push_bit 7 (to_number_dc (am_dc header) AND 0x01);
          b0 = b0 OR push_bit 6 (am_p header AND 0x01);
          b0 = b0 OR ucast (push_bit 4 (to_number_si (am_si header) AND 0x03));
          fixed =
            (if am_sn_size header = Am_Size12bits
             then [b0 OR ucast (drop_bit 8 (am_sn header) AND 0x0f), ucast (am_sn header AND 0xff)]
             else [b0 OR ucast (drop_bit 16 (am_sn header) AND 0x3), ucast (drop_bit 8 (am_sn header)),
                   ucast (am_sn header AND 0xff)])
      in fixed @
         (if am_so header \<noteq> 0 then [ucast (drop_bit 8 (am_so header)), ucast (am_so header AND 0xff)]
          else []))"

section \<open>Well-formed headers\<close>

definition am_header_ok :: "rlc_am_pdu_header \<Rightarrow> bool" where
  "am_header_ok h \<longleftrightarrow>
     am_sn h < cardinality (to_number_am_sn (am_sn_size h)) \<and> am_p h \<le> 1 \<and>
     (has_so (am_si h) \<longleftrightarrow> am_so h \<noteq> 0)"

lemma am_sn_bits:
  "am_header_ok h \<Longrightarrow> bit (am_sn h) n \<Longrightarrow> n < to_number_am_sn (am_sn_size h)"
  by (rule bit_bounded [of "am_sn h"], simp add: am_header_ok_def cardinality_def push_bit_eq_mult)
     (cases "am_sn_size h"; simp)+

lemma am_p_bits: "p \<le> (1 :: u8) \<Longrightarrow> bit p n \<Longrightarrow> n < 1"
proof -
  assume "p \<le> 1" and b: "bit p n"
  then have "unat p \<le> 1" by (simp add: word_le_nat_alt)
  then have "p = 0 \<or> p = 1" by (auto simp: le_Suc_eq unat_eq_0 intro: word_unat_eq_iff [THEN iffD2])
  with b show "n < 1" by (auto simp: bit_1_iff)
qed

lemma length_write_am:
  "am_header_ok h \<Longrightarrow> length (rlc_am_write_data_pdu_header h) = am_header_packed_size h"
  by (cases "am_sn_size h")
     (auto simp: rlc_am_write_data_pdu_header_def am_header_packed_size_def am_header_ok_def has_so_iff
        rlc_am_pdu_header_max_size_def rlc_am_pdu_header_so_size_def Let_def)

subsection \<open>The fixed part\<close>

definition am_byte0 :: "rlc_dc_field \<Rightarrow> u8 \<Rightarrow> rlc_si_field \<Rightarrow> u8 \<Rightarrow> u8" where
  "am_byte0 dc p si low =
     push_bit 7 (to_number_dc dc AND 1) OR push_bit 6 (p AND 1) OR
     ucast (push_bit 4 (to_number_si si AND 3)) OR low"

lemma am_byte0_fields:
  assumes low: "\<forall>n. bit low n \<longrightarrow> n < 4" and p: "p \<le> 1"
  shows "drop_bit 7 (am_byte0 dc p si low) AND 1 = to_number_dc dc"
    "drop_bit 6 (am_byte0 dc p si low) AND 1 = p"
    "drop_bit 4 (am_byte0 dc p si low) AND 3 = ucast (to_number_si si)"
    "take_bit 4 (am_byte0 dc p si low) = low"
proof -
  have low': "\<not> bit low n" if "4 \<le> n" for n using low that by (meson not_le)
  have p': "\<not> bit p n" if "1 \<le> n" for n using am_p_bits [OF p, of n] that by auto
  note bits = am_byte0_def mask_simps bit_simps bit_si_high bit_dc_high low' p'
  show "drop_bit 7 (am_byte0 dc p si low) AND 1 = to_number_dc dc"
    by (rule bit_word_eqI) (auto simp: bits simp del: and_one_eq dest: bit_dc)
  show "drop_bit 6 (am_byte0 dc p si low) AND 1 = p"
    by (rule bit_word_eqI) (auto simp: bits simp del: and_one_eq dest: am_p_bits [OF p])
  show "drop_bit 4 (am_byte0 dc p si low) AND 3 = ucast (to_number_si si)"
    by (rule bit_word_eqI) (auto simp: bits simp del: and_one_eq dest: bit_si)
  show "take_bit 4 (am_byte0 dc p si low) = low"
    by (rule bit_word_eqI) (auto simp: bits simp del: and_one_eq dest: low [rule_format])
qed

subsection \<open>Sequence numbers across bytes\<close>

lemma am_sn_12:
  fixes sn :: u32
  assumes "\<And>n. bit sn n \<Longrightarrow> n < 12"
  shows "push_bit 8 (ucast (ucast (drop_bit 8 sn AND 15) :: u8)) OR ucast ((ucast (sn AND 255) :: u8) AND 255)
    = sn"
  by (rule bit_word_eqI) (auto simp: mask_simps bit_simps dest: assms)

lemma am_sn_18:
  fixes sn :: u32
  assumes "\<And>n. bit sn n \<Longrightarrow> n < 18"
  shows "(push_bit 16 (ucast (ucast (drop_bit 16 sn AND 3) :: u8)) OR
      push_bit 8 (ucast ((ucast (drop_bit 8 sn) :: u8) AND 255))) OR
      ucast ((ucast (sn AND 255) :: u8) AND 255) = sn"
  by (rule bit_word_eqI) (auto simp: mask_simps bit_simps dest: assms)

lemma low_nibble_bits: "bit (ucast (x AND 15) :: u8) n \<Longrightarrow> n < 4" "bit (ucast (x AND 3) :: u8) n \<Longrightarrow> n < 4"
  for x :: u32
  by (auto simp: mask_simps bit_simps)

lemma low_nibble_18: "take_bit 2 (take_bit 4 b) = b AND 3" "take_bit 4 b = ucast (x AND 3) \<Longrightarrow> b AND 12 = 0"
  for b :: u8 and x :: u32
proof -
  show "take_bit 2 (take_bit 4 b) = b AND 3" by (simp add: mask_simps)
  assume *: "take_bit 4 b = ucast (x AND 3)"
  have "b AND 12 = push_bit 2 (drop_bit 2 (take_bit 4 b))"
    by (rule bit_word_eqI) (auto simp: mask_simps bit_simps)
  also have "\<dots> = 0"
    unfolding * by (rule bit_word_eqI) (auto simp: mask_simps bit_simps)
  finally show "b AND 12 = 0" .
qed

section \<open>Round trip\<close>

lemma am_read_so_write:
  assumes "has_so (am_si h)"
  shows "rlc_am_read_so ([ucast (drop_bit 8 so), ucast (so AND 255)] @ pay) h = Some (h\<lparr>am_so := so\<rparr>)"
  using assms join_u16_bytes [of so] by (auto simp: rlc_am_read_so_def has_so_iff Let_def)

lemma am_read_so_none: "\<not> has_so (am_si h) \<Longrightarrow> rlc_am_read_so rest h = Some h"
  by (simp add: rlc_am_read_so_def has_so_iff)

lemma am_read_12:
  assumes "drop_bit 7 b AND 1 = to_number_dc dc" "drop_bit 6 b AND 1 = p"
    "drop_bit 4 b AND 3 = ucast (to_number_si si)"
    "push_bit 8 (ucast (take_bit 4 b)) OR ucast (b2 AND 255) = sn" "rest \<noteq> []"
  shows "rlc_am_read_data_pdu_header (b # b2 # rest) Am_Size12bits h0
    = rlc_am_read_so rest
        (h0\<lparr>am_sn_size := Am_Size12bits, am_dc := dc, am_p := p, am_si := si, am_sn := sn\<rparr>)"
  using assms(5) by (simp add: rlc_am_read_data_pdu_header_def assms(1-3) and_masks(3) assms(4) Let_def
      del: and_one_eq)

lemma am_read_18:
  assumes "drop_bit 7 b AND 1 = to_number_dc dc" "drop_bit 6 b AND 1 = p"
    "drop_bit 4 b AND 3 = ucast (to_number_si si)" "b AND 12 = 0"
    "(push_bit 16 (ucast (b AND 3)) OR push_bit 8 (ucast (b2 AND 255))) OR ucast (b3 AND 255) = sn"
    "rest \<noteq> []"
  shows "rlc_am_read_data_pdu_header (b # b2 # b3 # rest) Am_Size18bits h0
    = rlc_am_read_so rest
        (h0\<lparr>am_sn_size := Am_Size18bits, am_dc := dc, am_p := p, am_si := si, am_sn := sn\<rparr>)"
  using assms(6) by (simp add: rlc_am_read_data_pdu_header_def assms(1-4) assms(5) Let_def
      del: and_one_eq)

lemma am_write_eq:
  "rlc_am_write_data_pdu_header h =
     (case am_sn_size h of
        Am_Size12bits \<Rightarrow>
          [am_byte0 (am_dc h) (am_p h) (am_si h) (ucast (drop_bit 8 (am_sn h) AND 15)),
           ucast (am_sn h AND 255)]
      | Am_Size18bits \<Rightarrow>
          [am_byte0 (am_dc h) (am_p h) (am_si h) (ucast (drop_bit 16 (am_sn h) AND 3)),
           ucast (drop_bit 8 (am_sn h)), ucast (am_sn h AND 255)]) @
     (if am_so h \<noteq> 0 then [ucast (drop_bit 8 (am_so h)), ucast (am_so h AND 255)] else [])"
  by (cases "am_sn_size h")
     (simp_all only: rlc_am_write_data_pdu_header_def am_byte0_def Let_def or.assoc rlc_am_sn_size.simps
        if_True if_False simp_thms)

lemma am_write_12:
  assumes ok: "am_header_ok h" and sz: "am_sn_size h = Am_Size12bits"
  shows "\<exists>b b2. rlc_am_write_data_pdu_header h =
        b # b2 # (if am_so h \<noteq> 0 then [ucast (drop_bit 8 (am_so h)), ucast (am_so h AND 255)] else []) \<and>
      drop_bit 7 b AND 1 = to_number_dc (am_dc h) \<and> drop_bit 6 b AND 1 = am_p h \<and>
      drop_bit 4 b AND 3 = ucast (to_number_si (am_si h)) \<and>
      push_bit 8 (ucast (take_bit 4 b)) OR ucast (b2 AND 255) = am_sn h"
proof -
  have p: "am_p h \<le> 1" using ok by (simp add: am_header_ok_def)
  have sn: "\<And>n. bit (am_sn h) n \<Longrightarrow> n < 12" using am_sn_bits [OF ok] sz by simp
  define low :: u8 where "low = ucast (drop_bit 8 (am_sn h) AND 15)"
  have "\<forall>n. bit low n \<longrightarrow> n < 4" unfolding low_def by (simp add: low_nibble_bits(1))
  note f = am_byte0_fields [OF this p, of "am_dc h" "am_si h"]
  show ?thesis
    unfolding am_write_eq sz rlc_am_sn_size.simps append.simps low_def [symmetric]
    by (rule exI, rule exI, rule conjI [OF refl], simp only: f, unfold low_def, simp only: am_sn_12 [OF sn])
qed

lemma am_write_18:
  assumes ok: "am_header_ok h" and sz: "am_sn_size h = Am_Size18bits"
  shows "\<exists>b b2 b3. rlc_am_write_data_pdu_header h =
        b # b2 # b3 # (if am_so h \<noteq> 0 then [ucast (drop_bit 8 (am_so h)), ucast (am_so h AND 255)] else []) \<and>
      drop_bit 7 b AND 1 = to_number_dc (am_dc h) \<and> drop_bit 6 b AND 1 = am_p h \<and>
      drop_bit 4 b AND 3 = ucast (to_number_si (am_si h)) \<and> b AND 12 = 0 \<and>
      (push_bit 16 (ucast (b AND 3)) OR push_bit 8 (ucast (b2 AND 255))) OR ucast (b3 AND 255) = am_sn h"
proof -
  have p: "am_p h \<le> 1" using ok by (simp add: am_header_ok_def)
  have sn: "\<And>n. bit (am_sn h) n \<Longrightarrow> n < 18" using am_sn_bits [OF ok] sz by simp
  define low :: u8 where "low = ucast (drop_bit 16 (am_sn h) AND 3)"
  define b where "b = am_byte0 (am_dc h) (am_p h) (am_si h) low"
  have "\<forall>n. bit low n \<longrightarrow> n < 4" unfolding low_def by (simp add: low_nibble_bits(2))
  note f = am_byte0_fields [OF this p, of "am_dc h" "am_si h", folded b_def]
  have t: "take_bit 4 b = ucast (drop_bit 16 (am_sn h) AND 3)" using f(4) by (simp only: low_def)
  have low: "b AND 3 = ucast (drop_bit 16 (am_sn h) AND 3)"
    unfolding low_nibble_18(1) [symmetric] t by (rule bit_word_eqI) (auto simp: mask_simps bit_simps)
  show ?thesis
    unfolding am_write_eq sz rlc_am_sn_size.simps append.simps
      low_def [symmetric] b_def [symmetric]
    by (rule exI, rule exI, rule exI, rule conjI [OF refl],
        simp only: f low_nibble_18(2) [OF t] low am_sn_18 [OF sn])
qed

lemma am_read_write:
  assumes ok: "am_header_ok h" and pay: "pay \<noteq> []"
  shows "rlc_am_read_data_pdu_header (rlc_am_write_data_pdu_header h @ pay) (am_sn_size h) empty_am_header
    = Some h"
proof (cases "am_sn_size h")
  case Am_Size12bits
  then show ?thesis
    using am_write_12 [OF ok] ok pay
    by (auto simp: am_read_12 am_header_ok_def am_read_so_none am_read_so_write [simplified]
        empty_am_header_def simp del: and_one_eq)
next
  case Am_Size18bits
  then show ?thesis
    using am_write_18 [OF ok] ok pay
    by (auto simp: am_read_18 am_header_ok_def am_read_so_none am_read_so_write [simplified]
        empty_am_header_def simp del: and_one_eq)
qed

text \<open>
  C33. Writing a well-formed AMD header in front of a non-empty payload and parsing the result with the
  same SN length gives back the header, poll bit included, and the payload starts at
  \<open>get_packed_size\<close>.
\<close>

theorem am_header_roundtrip:
  assumes "am_header_ok h" and "payload \<noteq> []"
  shows "rlc_am_read_data_pdu_header (rlc_am_write_data_pdu_header h @ payload) (am_sn_size h)
           empty_am_header = Some h
       \<and> drop (am_header_packed_size h) (rlc_am_write_data_pdu_header h @ payload) = payload"
  using am_read_write [OF assms] length_write_am [OF assms(1)] by simp

theorem am_header_roundtrip_witness:
  "rlc_am_read_data_pdu_header
     (rlc_am_write_data_pdu_header
        \<lparr>am_dc = Dc_Data, am_p = 1, am_si = Last_Segment, am_sn_size = Am_Size18bits, am_sn = 0x2abcd,
         am_so = 0x1234\<rparr> @ [7])
     Am_Size18bits empty_am_header
   = Some \<lparr>am_dc = Dc_Data, am_p = 1, am_si = Last_Segment, am_sn_size = Am_Size18bits, am_sn = 0x2abcd,
       am_so = 0x1234\<rparr>"
  using am_header_roundtrip
    [of "\<lparr>am_dc = Dc_Data, am_p = 1, am_si = Last_Segment, am_sn_size = Am_Size18bits, am_sn = 0x2abcd,
          am_so = 0x1234\<rparr>" "[7]"]
  by (simp add: am_header_ok_def cardinality_def push_bit_eq_mult)

end
