(* ===== verification/Rlc_Am_Status.thy ===== *)
theory Rlc_Am_Status
  imports Rlc_Am_Pdu
begin

text \<open>
  The AM status PDU (class \<open>rlc_am_status_pdu\<close>, lib/rlc/rlc_am_pdu.h and rlc_am_pdu.cpp): the list of
  NACKs with its running \<open>packed_size\<close>, merging of consecutive NACKs into ranges (\<open>push_nack\<close>),
  \<open>trim\<close>, and the two wire formats.

  Shown: \<open>packed_size\<close> is always the length of what \<open>pack\<close> writes; merging keeps the set of missing
  bytes that the PDU denotes; a PDU that was built with \<open>push_nack\<close> and \<open>trim\<close> is recovered exactly by
  \<open>unpack\<close> from the bytes that \<open>pack\<close> writes; \<open>trim\<close> meets its bound with the longest possible
  prefix of the NACKs.

  Sizes are natural numbers; the subtractions of \<open>push_nack\<close> and \<open>trim\<close> are exact under the invariant
  \<open>status_size_ok\<close>. A failed \<open>unpack\<close> is \<open>None\<close>: the only caller drops the object then.
\<close>

unbundle bit_operations_syntax

definition INVALID_RLC_SN :: u32 where
  "INVALID_RLC_SN = 0xffffffff"

definition rlc_am_nr_status_pdu_sizeof_header_ack_sn :: nat where
  "rlc_am_nr_status_pdu_sizeof_header_ack_sn = 3"

definition rlc_am_nr_status_pdu_sizeof_nack_sn_ext_12bit_sn :: nat where
  "rlc_am_nr_status_pdu_sizeof_nack_sn_ext_12bit_sn = 2"

definition rlc_am_nr_status_pdu_sizeof_nack_sn_ext_18bit_sn :: nat where
  "rlc_am_nr_status_pdu_sizeof_nack_sn_ext_18bit_sn = 3"

definition rlc_am_nr_status_pdu_sizeof_nack_so :: nat where
  "rlc_am_nr_status_pdu_sizeof_nack_so = 4"

definition rlc_am_nr_status_pdu_sizeof_nack_range :: nat where
  "rlc_am_nr_status_pdu_sizeof_nack_range = 1"

lemmas status_sizes = rlc_am_nr_status_pdu_sizeof_header_ack_sn_def
  rlc_am_nr_status_pdu_sizeof_nack_sn_ext_12bit_sn_def
  rlc_am_nr_status_pdu_sizeof_nack_sn_ext_18bit_sn_def
  rlc_am_nr_status_pdu_sizeof_nack_so_def rlc_am_nr_status_pdu_sizeof_nack_range_def

record rlc_am_status_nack =
  nack_sn :: u32
  nack_has_so :: bool
  so_start :: u16
  so_end :: u16
  has_nack_range :: bool
  nack_range :: u8

definition so_end_of_sdu :: u16 where
  "so_end_of_sdu = 0xffff"

definition empty_nack :: rlc_am_status_nack where
  "empty_nack = \<lparr>nack_sn = 0, nack_has_so = False, so_start = 0, so_end = so_end_of_sdu,
     has_nack_range = False, nack_range = 0\<rparr>"

record rlc_am_status_pdu =
  st_sn_size :: rlc_am_sn_size
  st_mod_nr :: u32
  nacks :: "rlc_am_status_nack list"
  packed_size :: nat
  st_cpt :: u8
  ack_sn :: u32

definition new_status_pdu :: "rlc_am_sn_size \<Rightarrow> rlc_am_status_pdu" where
  "new_status_pdu sn_size = \<lparr>st_sn_size = sn_size, st_mod_nr = cardinality (to_number_am_sn sn_size),
     nacks = [], packed_size = rlc_am_nr_status_pdu_sizeof_header_ack_sn, st_cpt = 0,
     ack_sn = INVALID_RLC_SN\<rparr>"

definition reset_status :: "rlc_am_status_pdu \<Rightarrow> rlc_am_status_pdu" where
  "reset_status s = s\<lparr>st_cpt := 0, ack_sn := INVALID_RLC_SN, nacks := [],
     packed_size := rlc_am_nr_status_pdu_sizeof_header_ack_sn\<rparr>"

definition can_be_merged :: "rlc_am_status_pdu \<Rightarrow> rlc_am_status_nack \<Rightarrow> rlc_am_status_nack \<Rightarrow> bool" where
  "can_be_merged s left right =
     (if nack_sn right \<noteq>
           (if has_nack_range left then nack_sn left + ucast (nack_range left) else nack_sn left + 1)
             mod st_mod_nr s
      then False
      else if nack_has_so left \<and> so_end left \<noteq> so_end_of_sdu then False
      else if nack_has_so right \<and> so_start right \<noteq> 0 then False
      else
        (let left_range = (if has_nack_range left then unat (nack_range left) else 1);
             right_range = (if has_nack_range right then unat (nack_range right) else 1)
         in left_range + right_range \<le> 255))"

definition nack_size :: "rlc_am_status_pdu \<Rightarrow> rlc_am_status_nack \<Rightarrow> nat" where
  "nack_size s nack =
     (if st_sn_size s = Am_Size12bits then rlc_am_nr_status_pdu_sizeof_nack_sn_ext_12bit_sn
      else rlc_am_nr_status_pdu_sizeof_nack_sn_ext_18bit_sn)
     + (if nack_has_so nack then rlc_am_nr_status_pdu_sizeof_nack_so else 0)
     + (if has_nack_range nack then rlc_am_nr_status_pdu_sizeof_nack_range else 0)"

text \<open>The expanded previous NACK of \<open>push_nack\<close>.\<close>

definition merge_nack :: "rlc_am_status_nack \<Rightarrow> rlc_am_status_nack \<Rightarrow> rlc_am_status_nack" where
  "merge_nack prev nack =
     (let prev =
        (if has_nack_range nack then
           (if has_nack_range prev then prev\<lparr>nack_range := nack_range prev + nack_range nack\<rparr>
            else prev\<lparr>nack_range := nack_range nack + 1, has_nack_range := True\<rparr>)
         else
           (if has_nack_range prev then prev\<lparr>nack_range := nack_range prev + 1\<rparr>
            else prev\<lparr>nack_range := 2, has_nack_range := True\<rparr>))
      in
      if nack_has_so nack then
        (let prev = (if \<not> nack_has_so prev then prev\<lparr>nack_has_so := True, so_start := 0\<rparr> else prev)
         in prev\<lparr>so_end := so_end nack\<rparr>)
      else if nack_has_so prev then prev\<lparr>so_end := so_end_of_sdu\<rparr>
      else prev)"

definition push_nack :: "rlc_am_status_pdu \<Rightarrow> rlc_am_status_nack \<Rightarrow> rlc_am_status_pdu" where
  "push_nack s nack =
     (if nacks s = [] then s\<lparr>nacks := [nack], packed_size := packed_size s + nack_size s nack\<rparr>
      else
        (let prev = last (nacks s) in
         if \<not> can_be_merged s prev nack
         then s\<lparr>nacks := nacks s @ [nack], packed_size := packed_size s + nack_size s nack\<rparr>
         else
           (let prev' = merge_nack prev nack in
            s\<lparr>nacks := butlast (nacks s) @ [prev'],
              packed_size := packed_size s - nack_size s prev + nack_size s prev'\<rparr>)))"

text \<open>The loop of \<open>trim\<close>: remove NACKs from the back.\<close>

function trim_loop :: "nat \<Rightarrow> rlc_am_status_pdu \<Rightarrow> rlc_am_status_pdu" where
  "trim_loop max_packed_size s =
     (if nacks s \<noteq> [] \<and> (max_packed_size < packed_size s \<or> nack_sn (last (nacks s)) = ack_sn s)
      then trim_loop max_packed_size
             (s\<lparr>packed_size := packed_size s - nack_size s (last (nacks s)),
                ack_sn := nack_sn (last (nacks s)),
                nacks := butlast (nacks s)\<rparr>)
      else s)"
  by pat_completeness auto
termination by (relation "measure (\<lambda>(_, s). length (nacks s))") auto

declare trim_loop.simps [simp del]

definition trim :: "nat \<Rightarrow> rlc_am_status_pdu \<Rightarrow> bool \<times> rlc_am_status_pdu" where
  "trim max_packed_size s =
     (if max_packed_size \<ge> packed_size s then (True, s)
      else if max_packed_size < rlc_am_nr_status_pdu_sizeof_header_ack_sn then (False, s)
      else (True, trim_loop max_packed_size s))"

definition refresh_packed_size :: "rlc_am_status_pdu \<Rightarrow> rlc_am_status_pdu" where
  "refresh_packed_size s =
     s\<lparr>packed_size := foldl (\<lambda>sz nack. sz + nack_size s nack)
         rlc_am_nr_status_pdu_sizeof_header_ack_sn (nacks s)\<rparr>"

section \<open>Wire format\<close>

definition is_control_pdu :: "byte_buffer \<Rightarrow> bool" where
  "is_control_pdu pdu = (drop_bit 7 (hd pdu) AND 0x01 = to_number_dc Dc_Control)"

text \<open>The optional parts of a NACK, the same in both formats: SO pair (E2), then range (E3).\<close>

definition unpack_nack_so ::
  "u8 \<Rightarrow> byte_buffer \<Rightarrow> rlc_am_status_nack \<Rightarrow> (rlc_am_status_nack \<times> byte_buffer) option" where
  "unpack_nack_so e2 rest nack =
     (if e2 \<noteq> 0 then
        (if length rest < rlc_am_nr_status_pdu_sizeof_nack_so then None
         else Some (nack\<lparr>nack_has_so := True,
                         so_start := push_bit 8 (ucast (rest ! 0)) OR ucast (rest ! 1),
                         so_end := push_bit 8 (ucast (rest ! 2)) OR ucast (rest ! 3)\<rparr>,
                    drop 4 rest))
      else Some (nack, rest))"

definition unpack_nack_range ::
  "u8 \<Rightarrow> byte_buffer \<Rightarrow> rlc_am_status_nack \<Rightarrow> (rlc_am_status_nack \<times> byte_buffer) option" where
  "unpack_nack_range e3 rest nack =
     (if e3 \<noteq> 0 then
        (if length rest < rlc_am_nr_status_pdu_sizeof_nack_range then None
         else Some (nack\<lparr>has_nack_range := True, nack_range := rest ! 0\<rparr>, drop 1 rest))
      else Some (nack, rest))"

text \<open>One round of the loops: the E1 flag of the NACK, the NACK, and the rest of the input.\<close>

definition unpack_nack_12bit :: "byte_buffer \<Rightarrow> (u8 \<times> rlc_am_status_nack \<times> byte_buffer) option" where
  "unpack_nack_12bit rd =
     (if length rd < rlc_am_nr_status_pdu_sizeof_nack_sn_ext_12bit_sn then None
      else
        (let nack = empty_nack\<lparr>nack_sn := push_bit 4 (ucast (rd ! 0 AND 0xff))\<rparr>;
             b = rd ! 1;
             e1 = b AND 0x08; e2 = b AND 0x04; e3 = b AND 0x02
         in if b AND 0x01 \<noteq> 0 then None
            else
              (let nack = nack\<lparr>nack_sn := nack_sn nack OR ucast (drop_bit 4 (b AND 0xf0))\<rparr> in
               case unpack_nack_so e2 (drop 2 rd) nack of
                 None \<Rightarrow> None
               | Some (nack, rest) \<Rightarrow>
                  (case unpack_nack_range e3 rest nack of
                     None \<Rightarrow> None
                   | Some (nack, rest) \<Rightarrow> Some (e1, nack, rest)))))"

definition unpack_nack_18bit :: "byte_buffer \<Rightarrow> (u8 \<times> rlc_am_status_nack \<times> byte_buffer) option" where
  "unpack_nack_18bit rd =
     (if length rd < rlc_am_nr_status_pdu_sizeof_nack_sn_ext_18bit_sn then None
      else
        (let nack = empty_nack\<lparr>nack_sn := push_bit 10 (ucast (rd ! 0 AND 0xff))\<rparr>;
             nack = nack\<lparr>nack_sn := nack_sn nack OR push_bit 2 (ucast (rd ! 1 AND 0xff))\<rparr>;
             b = rd ! 2;
             nack = nack\<lparr>nack_sn := nack_sn nack OR ucast (drop_bit 6 (b AND 0xc0))\<rparr>;
             e1 = b AND 0x20; e2 = b AND 0x10; e3 = b AND 0x08
         in if b AND 0x07 \<noteq> 0 then None
            else
              (case unpack_nack_so e2 (drop 3 rd) nack of
                 None \<Rightarrow> None
               | Some (nack, rest) \<Rightarrow>
                  (case unpack_nack_range e3 rest nack of
                     None \<Rightarrow> None
                   | Some (nack, rest) \<Rightarrow> Some (e1, nack, rest)))))"

lemma unpack_nack_so_shorter:
  "unpack_nack_so e2 rest nack = Some (nack', rest') \<Longrightarrow> length rest' \<le> length rest"
  by (auto simp: unpack_nack_so_def split: if_splits)

lemma unpack_nack_range_shorter:
  "unpack_nack_range e3 rest nack = Some (nack', rest') \<Longrightarrow> length rest' \<le> length rest"
  by (auto simp: unpack_nack_range_def split: if_splits)

lemma unpack_nack_shorter:
  "unpack_nack_12bit rd = Some (e1, nack, rest) \<Longrightarrow> length rest < length rd"
  "unpack_nack_18bit rd = Some (e1, nack, rest) \<Longrightarrow> length rest < length rd"
  by (force simp: unpack_nack_12bit_def unpack_nack_18bit_def status_sizes Let_def
      split: if_splits option.splits dest!: unpack_nack_so_shorter unpack_nack_range_shorter)+

function unpack_nacks_12bit :: "u8 \<Rightarrow> byte_buffer \<Rightarrow> rlc_am_status_pdu \<Rightarrow> rlc_am_status_pdu option" where
  "unpack_nacks_12bit e1 rd s =
     (if e1 \<noteq> 0 then
        (case unpack_nack_12bit rd of
           None \<Rightarrow> None
         | Some (e1', nack, rest) \<Rightarrow> unpack_nacks_12bit e1' rest (push_nack s nack))
      else Some s)"
  by pat_completeness auto
termination by (relation "measure (\<lambda>(_, rd, _). length rd)") (auto dest: unpack_nack_shorter)

function unpack_nacks_18bit :: "u8 \<Rightarrow> byte_buffer \<Rightarrow> rlc_am_status_pdu \<Rightarrow> rlc_am_status_pdu option" where
  "unpack_nacks_18bit e1 rd s =
     (if e1 \<noteq> 0 then
        (case unpack_nack_18bit rd of
           None \<Rightarrow> None
         | Some (e1', nack, rest) \<Rightarrow> unpack_nacks_18bit e1' rest (push_nack s nack))
      else Some s)"
  by pat_completeness auto
termination by (relation "measure (\<lambda>(_, rd, _). length rd)") (auto dest: unpack_nack_shorter)

declare unpack_nacks_12bit.simps [simp del] unpack_nacks_18bit.simps [simp del]

definition unpack_12bit :: "byte_buffer \<Rightarrow> rlc_am_status_pdu \<Rightarrow> rlc_am_status_pdu option" where
  "unpack_12bit pdu s =
     (if length pdu < rlc_am_nr_status_pdu_sizeof_header_ack_sn then None
      else if \<not> is_control_pdu pdu then None
      else
        (let s = (reset_status s)\<lparr>st_cpt := drop_bit 4 (pdu ! 0) AND 0x07\<rparr> in
         if st_cpt s \<noteq> 0 then None
         else
           (let s = s\<lparr>ack_sn := push_bit 8 (ucast (pdu ! 0 AND 0x0f))\<rparr>;
                s = s\<lparr>ack_sn := ack_sn s OR ucast (pdu ! 1 AND 0xff)\<rparr>;
                e1 = pdu ! 2 AND 0x80
            in if pdu ! 2 AND 0x7f \<noteq> 0 then None
               else unpack_nacks_12bit e1 (drop 3 pdu) s)))"

definition unpack_18bit :: "byte_buffer \<Rightarrow> rlc_am_status_pdu \<Rightarrow> rlc_am_status_pdu option" where
  "unpack_18bit pdu s =
     (if length pdu < rlc_am_nr_status_pdu_sizeof_header_ack_sn then None
      else if \<not> is_control_pdu pdu then None
      else
        (let s = (reset_status s)\<lparr>st_cpt := drop_bit 4 (pdu ! 0) AND 0x07\<rparr> in
         if st_cpt s \<noteq> 0 then None
         else
           (let s = s\<lparr>ack_sn := push_bit 14 (ucast (pdu ! 0 AND 0x0f))\<rparr>;
                s = s\<lparr>ack_sn := ack_sn s OR push_bit 6 (ucast (pdu ! 1 AND 0xff))\<rparr>;
                s = s\<lparr>ack_sn := ack_sn s OR ucast (drop_bit 2 (pdu ! 2 AND 0xfc))\<rparr>;
                e1 = pdu ! 2 AND 0x02
            in if pdu ! 2 AND 0x01 \<noteq> 0 then None
               else unpack_nacks_18bit e1 (drop 3 pdu) s)))"

definition unpack_status :: "byte_buffer \<Rightarrow> rlc_am_status_pdu \<Rightarrow> rlc_am_status_pdu option" where
  "unpack_status pdu s =
     (case st_sn_size s of Am_Size12bits \<Rightarrow> unpack_12bit pdu s | Am_Size18bits \<Rightarrow> unpack_18bit pdu s)"

text \<open>The bytes of the optional parts of a NACK.\<close>

definition pack_nack_tail :: "rlc_am_status_nack \<Rightarrow> byte_buffer" where
  "pack_nack_tail nack =
     (if nack_has_so nack
      then [ucast (drop_bit 8 (so_start nack)), ucast (so_start nack),
            ucast (drop_bit 8 (so_end nack)), ucast (so_end nack)]
      else []) @
     (if has_nack_range nack then [nack_range nack] else [])"

definition pack_nack_12bit :: "bool \<Rightarrow> rlc_am_status_nack \<Rightarrow> byte_buffer" where
  "pack_nack_12bit e1 nack =
     [ucast (drop_bit 4 (nack_sn nack) AND 0xff),
      ucast (push_bit 4 (nack_sn nack AND 0x0f)) OR
        ((if e1 then 0x08 else 0) OR (if nack_has_so nack then 0x04 else 0) OR
         (if has_nack_range nack then 0x02 else 0))] @ pack_nack_tail nack"

definition pack_nack_18bit :: "bool \<Rightarrow> rlc_am_status_nack \<Rightarrow> byte_buffer" where
  "pack_nack_18bit e1 nack =
     [ucast (drop_bit 10 (nack_sn nack) AND 0xff),
      ucast (drop_bit 2 (nack_sn nack) AND 0xff),
      ucast (push_bit 6 (nack_sn nack) AND 0xc0) OR
        ((if e1 then 0x20 else 0) OR (if nack_has_so nack then 0x10 else 0) OR
         (if has_nack_range nack then 0x08 else 0))] @ pack_nack_tail nack"

fun pack_nacks :: "(bool \<Rightarrow> rlc_am_status_nack \<Rightarrow> byte_buffer) \<Rightarrow> rlc_am_status_nack list \<Rightarrow> byte_buffer" where
  "pack_nacks pack_nack [] = []"
| "pack_nacks pack_nack (nack # ns) = pack_nack (ns \<noteq> []) nack @ pack_nacks pack_nack ns"

definition pack_12bit :: "rlc_am_status_pdu \<Rightarrow> byte_buffer" where
  "pack_12bit s =
     [ucast (drop_bit 8 (ack_sn s) AND 0x0f), ucast (ack_sn s AND 0xff),
      if nacks s \<noteq> [] then 0x80 else 0x00] @
     pack_nacks pack_nack_12bit (nacks s)"

definition pack_18bit :: "rlc_am_status_pdu \<Rightarrow> byte_buffer" where
  "pack_18bit s =
     [ucast (drop_bit 14 (ack_sn s) AND 0x0f), ucast (drop_bit 6 (ack_sn s) AND 0xff),
      ucast (push_bit 2 (ack_sn s) AND 0xfc) OR (if nacks s \<noteq> [] then 0x02 else 0)] @
     pack_nacks pack_nack_18bit (nacks s)"

definition pack_status :: "rlc_am_status_pdu \<Rightarrow> byte_buffer" where
  "pack_status s = (case st_sn_size s of Am_Size12bits \<Rightarrow> pack_12bit s | Am_Size18bits \<Rightarrow> pack_18bit s)"

section \<open>The packed size\<close>

definition status_size_ok :: "rlc_am_status_pdu \<Rightarrow> bool" where
  "status_size_ok s \<longleftrightarrow> packed_size s = 3 + sum_list (map (nack_size s) (nacks s))"

lemma nack_size_cong [simp]:
  "nack_size (s\<lparr>nacks := x\<rparr>) = nack_size s" "nack_size (s\<lparr>packed_size := y\<rparr>) = nack_size s"
  "nack_size (s\<lparr>ack_sn := z\<rparr>) = nack_size s" "nack_size (s\<lparr>st_cpt := c\<rparr>) = nack_size s"
  by (simp_all add: nack_size_def fun_eq_iff)

lemma sum_list_butlast_last:
  "xs \<noteq> [] \<Longrightarrow> sum_list (map f xs) = sum_list (map f (butlast xs)) + (f (last xs) :: nat)"
  by (induction xs rule: rev_induct) simp_all

lemma status_size_reset: "status_size_ok (reset_status s)" "status_size_ok (new_status_pdu sz)"
  by (simp_all add: status_size_ok_def reset_status_def new_status_pdu_def status_sizes)

lemma status_size_push: "status_size_ok s \<Longrightarrow> status_size_ok (push_nack s nack)"
  using sum_list_butlast_last [of "nacks s" "nack_size s"]
  by (auto simp: status_size_ok_def push_nack_def Let_def)

lemma status_size_trim_loop: "status_size_ok s \<Longrightarrow> status_size_ok (trim_loop n s)"
proof (induction n s rule: trim_loop.induct)
  case (1 n s)
  show ?case
    using 1 sum_list_butlast_last [of "nacks s" "nack_size s"]
    by (subst trim_loop.simps) (auto simp: status_size_ok_def)
qed

lemma status_size_trim: "status_size_ok s \<Longrightarrow> status_size_ok (snd (trim n s))"
  by (simp add: trim_def status_size_trim_loop)

lemma refresh_packed_size_ok: "status_size_ok s \<Longrightarrow> refresh_packed_size s = s"
proof -
  assume "status_size_ok s"
  moreover have "foldl (\<lambda>sz nack. sz + nack_size s nack) n xs = n + sum_list (map (nack_size s) xs)" for n xs
    by (induction xs arbitrary: n) simp_all
  ultimately show ?thesis
    by (simp add: refresh_packed_size_def status_size_ok_def status_sizes)
qed

lemma length_pack_nacks:
  "(\<And>e1 nack. length (pack_nack e1 nack) = f nack) \<Longrightarrow>
     length (pack_nacks pack_nack ns) = sum_list (map f ns)"
  by (induction ns) simp_all

lemma length_pack: "status_size_ok s \<Longrightarrow> length (pack_status s) = packed_size s"
proof -
  assume ok: "status_size_ok s"
  have "length (pack_nack_12bit m n) = nack_size s n" if "st_sn_size s = Am_Size12bits" for m n
    using that by (simp add: pack_nack_12bit_def pack_nack_tail_def nack_size_def status_sizes)
  moreover have "length (pack_nack_18bit m n) = nack_size s n" if "st_sn_size s = Am_Size18bits" for m n
    using that by (simp add: pack_nack_18bit_def pack_nack_tail_def nack_size_def status_sizes)
  ultimately show ?thesis
    using ok by (cases "st_sn_size s")
      (simp_all add: pack_status_def pack_12bit_def pack_18bit_def status_size_ok_def
         length_pack_nacks [where f = "nack_size s"])
qed

section \<open>Merging of NACKs\<close>

text \<open>Number of SDUs that a NACK covers.\<close>

definition nack_count :: "rlc_am_status_nack \<Rightarrow> nat" where
  "nack_count n = (if has_nack_range n then unat (nack_range n) else 1)"

text \<open>
  What a NACK says: pairs of a sequence number and a byte offset that is reported missing. The first
  SDU of the range is missing from \<open>so_start\<close>, the last one up to \<open>so_end\<close>.
\<close>

definition nack_missing :: "u32 \<Rightarrow> rlc_am_status_nack \<Rightarrow> (u32 \<times> nat) set" where
  "nack_missing m n =
     {(sn, b). \<exists>i < nack_count n. sn = (nack_sn n + of_nat i) mod m \<and>
        (if nack_has_so n \<and> i = 0 then unat (so_start n) else 0) \<le> b \<and>
        b \<le> (if nack_has_so n \<and> i = nack_count n - 1 then unat (so_end n) else 0xffff)}"

definition status_missing :: "rlc_am_status_pdu \<Rightarrow> (u32 \<times> nat) set" where
  "status_missing s = (\<Union>n \<in> set (nacks s). nack_missing (st_mod_nr s) n)"

lemma can_be_merged_iff:
  "can_be_merged s l r \<longleftrightarrow>
     nack_sn r = (nack_sn l + of_nat (nack_count l)) mod st_mod_nr s \<and>
     (nack_has_so l \<longrightarrow> so_end l = so_end_of_sdu) \<and> (nack_has_so r \<longrightarrow> so_start r = 0) \<and>
     nack_count l + nack_count r \<le> 255"
  by (auto simp: can_be_merged_def nack_count_def Let_def unsigned_ucast_eq)

lemma merge_nack_fields:
  assumes "can_be_merged s l r"
  shows "nack_sn (merge_nack l r) = nack_sn l"
    "has_nack_range (merge_nack l r)"
    "nack_count (merge_nack l r) = nack_count l + nack_count r"
    "nack_has_so (merge_nack l r) \<longleftrightarrow> nack_has_so l \<or> nack_has_so r"
    "so_start (merge_nack l r) = (if nack_has_so r \<and> \<not> nack_has_so l then 0 else so_start l)"
    "so_end (merge_nack l r) =
       (if nack_has_so r then so_end r else if nack_has_so l then so_end_of_sdu else so_end l)"
proof -
  have le: "nack_count l + nack_count r \<le> 255" using assms by (simp add: can_be_merged_iff)
  have un: "unat (x + y) = unat x + unat y" if "unat x + unat y \<le> 255" for x y :: u8
    using that by (simp add: unat_word_ariths)
  show "nack_count (merge_nack l r) = nack_count l + nack_count r"
    using le un [of "nack_range l" "nack_range r"] un [of "nack_range r" 1] un [of "nack_range l" 1]
    by (auto simp: merge_nack_def nack_count_def Let_def split: if_splits)
qed (auto simp: merge_nack_def Let_def)

lemma missing_merge:
  assumes mrg: "can_be_merged s l r" and m: "st_mod_nr s = cardinality (to_number_am_sn sz)"
    and pos: "0 < nack_count l" "0 < nack_count r"
  shows "nack_missing (st_mod_nr s) (merge_nack l r) =
    nack_missing (st_mod_nr s) l \<union> nack_missing (st_mod_nr s) r"
proof -
  note f = merge_nack_fields [OF mrg] and c = mrg [unfolded can_be_merged_iff]
  let ?a = "nack_count l" and ?b = "nack_count r" and ?m = "st_mod_nr s"
  define P where "P n i sn b \<longleftrightarrow> sn = (nack_sn n + of_nat i) mod ?m \<and>
      (if nack_has_so n \<and> i = 0 then unat (so_start n) else 0) \<le> b \<and>
      b \<le> (if nack_has_so n \<and> i = nack_count n - 1 then unat (so_end n) else 0xffff)" for n i sn b
  have eoc: "unat so_end_of_sdu = 65535" by (simp add: so_end_of_sdu_def)
  have sn: "(nack_sn r + of_nat j) mod ?m = (nack_sn l + of_nat (?a + j)) mod ?m" for j
    using c by (simp only: m am_ring.mod_add_of_nat)
  have left: "P (merge_nack l r) i sn b = P l i sn b" if "i < ?a" for i sn b
  proof -
    have "(i = ?a + ?b - 1) = False" using that pos by simp
    then show ?thesis
      using c unfolding P_def f by (cases "nack_has_so l"; cases "nack_has_so r"; simp add: eoc)
  qed
  have right: "P (merge_nack l r) (?a + j) sn b = P r j sn b" if "j < ?b" for j sn b
  proof -
    have i: "(?a + j = ?a + ?b - 1) = (j = ?b - 1)" "(?a + j = 0) = False" using that pos by auto
    show ?thesis
      using c unfolding P_def f sn i by (cases "nack_has_so l"; cases "nack_has_so r"; simp add: eoc)
  qed
  have split: "(\<exists>i < ?a + ?b. Q i) \<longleftrightarrow> (\<exists>i < ?a. Q i) \<or> (\<exists>j < ?b. Q (?a + j))" for Q
    by (metis add_less_cancel_left le_add_diff_inverse not_le trans_less_add1)
  have mm: "nack_missing ?m n = {(sn, b). \<exists>i < nack_count n. P n i sn b}" for n
    by (simp only: nack_missing_def P_def)
  have "(\<exists>i < ?a + ?b. P (merge_nack l r) i sn b) \<longleftrightarrow> (\<exists>i < ?a. P l i sn b) \<or> (\<exists>j < ?b. P r j sn b)" for sn b
    unfolding split using left right by metis
  then show ?thesis
    unfolding mm f(3) by auto
qed

lemma status_missing_push:
  assumes m: "st_mod_nr s = cardinality (to_number_am_sn sz)"
    and pos: "\<forall>n \<in> set (nacks s). 0 < nack_count n" "0 < nack_count nack"
  shows "status_missing (push_nack s nack) = status_missing s \<union> nack_missing (st_mod_nr s) nack"
proof (cases "nacks s = [] \<or> \<not> can_be_merged s (last (nacks s)) nack")
  case True
  then show ?thesis by (auto simp: status_missing_def push_nack_def Let_def)
next
  case False
  then have ne: "nacks s \<noteq> []" and mrg: "can_be_merged s (last (nacks s)) nack" by auto
  have set: "set (nacks s) = insert (last (nacks s)) (set (butlast (nacks s)))"
    using ne by (metis append_butlast_last_id insert_is_Un list.simps(15) set_append sup_commute empty_set)
  have "0 < nack_count (last (nacks s))" using pos(1) ne by simp
  from missing_merge [OF mrg m this pos(2)] show ?thesis
    using ne mrg unfolding status_missing_def set by (auto simp: push_nack_def Let_def)
qed

section \<open>Well-formed status PDUs\<close>

definition nack_normal :: "u32 \<Rightarrow> rlc_am_status_nack \<Rightarrow> bool" where
  "nack_normal m n \<longleftrightarrow> nack_sn n < m \<and>
     (\<not> nack_has_so n \<longrightarrow> so_start n = 0 \<and> so_end n = so_end_of_sdu) \<and>
     (if has_nack_range n then 0 < nack_range n else nack_range n = 0)"

definition status_wf :: "rlc_am_status_pdu \<Rightarrow> bool" where
  "status_wf s \<longleftrightarrow>
     st_mod_nr s = cardinality (to_number_am_sn (st_sn_size s)) \<and> st_cpt s = 0 \<and>
     status_size_ok s \<and> (\<forall>n \<in> set (nacks s). nack_normal (st_mod_nr s) n) \<and>
     successively (\<lambda>l r. \<not> can_be_merged s l r) (nacks s)"

lemma nack_normal_count: "nack_normal m n \<Longrightarrow> 0 < nack_count n"
  by (auto simp: nack_normal_def nack_count_def word_less_nat_alt)

lemma can_be_merged_cong [simp]:
  "can_be_merged (s\<lparr>nacks := x\<rparr>) = can_be_merged s" "can_be_merged (s\<lparr>packed_size := y\<rparr>) = can_be_merged s"
  "can_be_merged (s\<lparr>ack_sn := z\<rparr>) = can_be_merged s" "can_be_merged (s\<lparr>st_cpt := c\<rparr>) = can_be_merged s"
  by (simp_all add: can_be_merged_def fun_eq_iff)

lemma merge_nack_normal:
  assumes "can_be_merged s l r" "nack_normal m l" "nack_normal m r"
  shows "nack_normal m (merge_nack l r)"
proof -
  note f = merge_nack_fields [OF assms(1)]
  have "0 < nack_count (merge_nack l r)" using f(3) nack_normal_count [OF assms(2)] by simp
  then have "0 < nack_range (merge_nack l r)" using f(2) by (simp add: nack_count_def word_less_nat_alt)
  then show ?thesis using assms(2,3) by (auto simp: nack_normal_def f)
qed

lemma merge_not_enabled:
  assumes "can_be_merged s p n" "\<not> can_be_merged s a p"
  shows "\<not> can_be_merged s a (merge_nack p n)"
  using assms(2) merge_nack_fields [OF assms(1)] by (auto simp: can_be_merged_iff)

lemma status_wf_new: "status_wf (new_status_pdu sz)"
  by (simp add: status_wf_def status_size_reset) (simp add: new_status_pdu_def)

lemma status_wf_reset: "status_wf s \<Longrightarrow> status_wf (reset_status s)"
  by (simp add: status_wf_def status_size_reset) (simp add: reset_status_def)

lemma successively_snoc:
  "successively P (xs @ [x]) \<longleftrightarrow> successively P xs \<and> (xs \<noteq> [] \<longrightarrow> P (last xs) x)"
  by (auto simp: successively_append_iff)

lemma push_nack_frame [simp]:
  "st_mod_nr (push_nack s n) = st_mod_nr s" "st_cpt (push_nack s n) = st_cpt s"
  "st_sn_size (push_nack s n) = st_sn_size s" "ack_sn (push_nack s n) = ack_sn s"
  "can_be_merged (push_nack s n) = can_be_merged s"
  by (simp_all add: push_nack_def Let_def)

lemma status_wf_push:
  assumes wf: "status_wf s" and n: "nack_normal (st_mod_nr s) n"
  shows "status_wf (push_nack s n)"
proof -
  have sz: "status_size_ok (push_nack s n)" using wf by (simp add: status_wf_def status_size_push)
  show ?thesis
  proof (cases "nacks s" rule: rev_cases)
    case Nil
    then show ?thesis using wf n sz by (simp add: status_wf_def) (simp add: push_nack_def)
  next
    case (snoc ns p)
    have p: "nack_normal (st_mod_nr s) p" and suc: "successively (\<lambda>l r. \<not> can_be_merged s l r) ns"
      "ns \<noteq> [] \<Longrightarrow> \<not> can_be_merged s (last ns) p"
      using wf snoc by (auto simp: status_wf_def successively_snoc)
    have nacks: "nacks (push_nack s n) =
        (if can_be_merged s p n then ns @ [merge_nack p n] else ns @ [p, n])"
      by (simp add: push_nack_def snoc Let_def)
    have "successively (\<lambda>l r. \<not> can_be_merged s l r) (nacks (push_nack s n))"
    proof (cases "can_be_merged s p n")
      case True
      then show ?thesis using suc merge_not_enabled [OF True] by (simp add: nacks successively_snoc)
    next
      case False
      then show ?thesis using suc by (auto simp: nacks successively_append_iff)
    qed
    moreover have "\<forall>x \<in> set (nacks (push_nack s n)). nack_normal (st_mod_nr s) x"
      using wf n snoc merge_nack_normal [OF _ p n] by (auto simp: nacks status_wf_def)
    ultimately show ?thesis using wf sz by (simp add: status_wf_def)
  qed
qed

section \<open>Round trip of the wire format\<close>

lemma and_one_bit: "x AND 1 \<noteq> 0 \<longleftrightarrow> bit x 0" for x :: "'a::len word"
  using and_exp_eq_0_iff_not_bit [of x 0] by simp

definition flag_bits :: "nat \<Rightarrow> bool \<Rightarrow> nat \<Rightarrow> bool \<Rightarrow> nat \<Rightarrow> bool \<Rightarrow> u8 \<Rightarrow> bool" where
  "flag_bits i a j b k c f \<longleftrightarrow> (\<forall>n. bit f n \<longleftrightarrow> (a \<and> n = i) \<or> (b \<and> n = j) \<or> (c \<and> n = k))"

lemma bit_exp_u8: "k < 8 \<Longrightarrow> bit (2 ^ k :: u8) n \<longleftrightarrow> n = k"
  by (auto simp: bit_exp_iff)

lemma bit_flag_numerals:
  "bit (2 :: u8) n \<longleftrightarrow> n = 1" "bit (4 :: u8) n \<longleftrightarrow> n = 2" "bit (8 :: u8) n \<longleftrightarrow> n = 3"
  "bit (16 :: u8) n \<longleftrightarrow> n = 4" "bit (32 :: u8) n \<longleftrightarrow> n = 5"
proof -
  have p: "(2 :: u8) = 2 ^ 1" "(4 :: u8) = 2 ^ 2" "(8 :: u8) = 2 ^ 3" "(16 :: u8) = 2 ^ 4" "(32 :: u8) = 2 ^ 5"
    by simp_all
  show "bit (2 :: u8) n \<longleftrightarrow> n = 1" by (subst p(1), rule bit_exp_u8) simp
  show "bit (4 :: u8) n \<longleftrightarrow> n = 2" by (subst p(2), rule bit_exp_u8) simp
  show "bit (8 :: u8) n \<longleftrightarrow> n = 3" by (subst p(3), rule bit_exp_u8) simp
  show "bit (16 :: u8) n \<longleftrightarrow> n = 4" by (subst p(4), rule bit_exp_u8) simp
  show "bit (32 :: u8) n \<longleftrightarrow> n = 5" by (subst p(5), rule bit_exp_u8) simp
qed

lemma bit_if_zero: "bit (if a then x else 0) n \<longleftrightarrow> a \<and> bit x n" for x :: u8
  by simp

lemma flags_12: "flag_bits 3 a 2 b 1 c ((if a then 8 else 0) OR (if b then 4 else 0) OR (if c then 2 else 0))"
  by (simp only: flag_bits_def bit_or_iff bit_if_zero bit_flag_numerals) blast

lemma flags_18: "flag_bits 5 a 4 b 3 c ((if a then 32 else 0) OR (if b then 16 else 0) OR (if c then 8 else 0))"
  by (simp only: flag_bits_def bit_or_iff bit_if_zero bit_flag_numerals) blast

lemma nack_byte_12:
  fixes sn :: u32
  assumes "flag_bits 3 a 2 b 1 c f" and sn: "\<forall>n. bit sn n \<longrightarrow> n < 12"
  defines "x \<equiv> ucast (push_bit 4 (sn AND 15)) OR f"
  shows "x AND 8 \<noteq> 0 \<longleftrightarrow> a" "x AND 4 \<noteq> 0 \<longleftrightarrow> b" "x AND 2 \<noteq> 0 \<longleftrightarrow> c" "x AND 1 = 0"
    "push_bit 4 (ucast ((ucast (drop_bit 4 sn AND 255) :: u8) AND 255)) OR ucast (drop_bit 4 (x AND 240)) = sn"
proof -
  note f = assms(1) [unfolded flag_bits_def, rule_format]
  show "x AND 8 \<noteq> 0 \<longleftrightarrow> a" "x AND 4 \<noteq> 0 \<longleftrightarrow> b" "x AND 2 \<noteq> 0 \<longleftrightarrow> c"
    unfolding and_single_bit x_def by (simp_all add: bit_simps f)
  show "x AND 1 = 0"
    using and_one_bit [of x] by (simp add: x_def bit_simps f del: and_one_eq)
  show "push_bit 4 (ucast ((ucast (drop_bit 4 sn AND 255) :: u8) AND 255)) OR ucast (drop_bit 4 (x AND 240)) = sn"
    unfolding x_def by (rule bit_word_eqI) (auto simp: mask_simps bit_simps f dest: sn [rule_format])
qed

lemma Suc_Suc_diff_2: "2 \<le> n \<Longrightarrow> Suc (Suc (n - 2)) = n"
  by arith

lemma nack_byte_18:
  fixes sn :: u32
  assumes "flag_bits 5 a 4 b 3 c f" and sn: "\<forall>n. bit sn n \<longrightarrow> n < 18"
  defines "x \<equiv> ucast (push_bit 6 sn AND 192) OR f"
  shows "x AND 32 \<noteq> 0 \<longleftrightarrow> a" "x AND 16 \<noteq> 0 \<longleftrightarrow> b" "x AND 8 \<noteq> 0 \<longleftrightarrow> c" "x AND 7 = 0"
    "(push_bit 10 (ucast ((ucast (drop_bit 10 sn AND 255) :: u8) AND 255)) OR
      push_bit 2 (ucast ((ucast (drop_bit 2 sn AND 255) :: u8) AND 255))) OR ucast (drop_bit 6 (x AND 192)) = sn"
proof -
  note f = assms(1) [unfolded flag_bits_def, rule_format]
  show "x AND 32 \<noteq> 0 \<longleftrightarrow> a" "x AND 16 \<noteq> 0 \<longleftrightarrow> b" "x AND 8 \<noteq> 0 \<longleftrightarrow> c"
    unfolding and_single_bit x_def by (simp_all add: mask_simps bit_simps f)
  show "x AND 7 = 0"
    unfolding x_def by (rule bit_word_eqI) (auto simp: mask_simps bit_simps f)
  show "(push_bit 10 (ucast ((ucast (drop_bit 10 sn AND 255) :: u8) AND 255)) OR
      push_bit 2 (ucast ((ucast (drop_bit 2 sn AND 255) :: u8) AND 255))) OR ucast (drop_bit 6 (x AND 192)) = sn"
    unfolding x_def
  proof (rule bit_word_eqI)
    fix n
    show "bit ((push_bit 10 (ucast ((ucast (drop_bit 10 sn AND 255) :: u8) AND 255)) OR
        push_bit 2 (ucast ((ucast (drop_bit 2 sn AND 255) :: u8) AND 255))) OR
        ucast (drop_bit 6 ((ucast (push_bit 6 sn AND 192) OR f) AND 192)) :: u32) n = bit sn n"
      by (cases "n < 2"; cases "n < 10")
         (auto simp: mask_simps bit_simps f Suc_Suc_diff_2 dest: sn [rule_format])
  qed
qed

lemma join_so_bytes:
  "push_bit 8 (ucast (ucast (drop_bit 8 x) :: u8)) OR ucast (ucast x :: u8) = x" for x :: u16
  by (rule bit_word_eqI) (auto simp: bit_simps)

lemma unpack_nack_tail:
  assumes "nack_normal m n" "e2 \<noteq> 0 \<longleftrightarrow> nack_has_so n" "e3 \<noteq> 0 \<longleftrightarrow> has_nack_range n"
  shows "\<exists>n1 rest1. unpack_nack_so e2 (pack_nack_tail n @ rest) (empty_nack\<lparr>nack_sn := nack_sn n\<rparr>) = Some (n1, rest1)
      \<and> unpack_nack_range e3 rest1 n1 = Some (n, rest)"
  using assms
  by (cases "nack_has_so n"; cases "has_nack_range n")
     (auto simp: unpack_nack_so_def unpack_nack_range_def pack_nack_tail_def status_sizes
        nack_normal_def empty_nack_def join_so_bytes numeral_2_eq_2 numeral_3_eq_3)

lemma nack_sn_bits:
  assumes "nack_normal (cardinality (to_number_am_sn sz)) n" "bit (nack_sn n) i"
  shows "i < to_number_am_sn sz"
proof (rule bit_bounded [OF _ _ assms(2)])
  show "nack_sn n < 2 ^ to_number_am_sn sz"
    using assms(1) by (simp add: nack_normal_def cardinality_def push_bit_eq_mult)
  show "to_number_am_sn sz < LENGTH(32)" by (cases sz) simp_all
qed

lemma empty_nack_sn [simp]: "nack_sn (empty_nack\<lparr>nack_sn := y\<rparr>) = y"
  "(empty_nack\<lparr>nack_sn := y\<rparr>)\<lparr>nack_sn := z\<rparr> = empty_nack\<lparr>nack_sn := z\<rparr>"
  by simp_all

lemmas nack_eval = empty_nack_sn if_False if_True not_True_eq_False simp_thms option.case prod.case

lemma unpack_nack_12_bytes:
  assumes "x AND 1 = 0" "push_bit 4 (ucast (b0 AND 255)) OR ucast (drop_bit 4 (x AND 240)) = sn"
    "unpack_nack_so (x AND 4) rest (empty_nack\<lparr>nack_sn := sn\<rparr>) = Some (n1, rest1)"
    "unpack_nack_range (x AND 2) rest1 n1 = Some (n, rest2)"
  shows "unpack_nack_12bit (b0 # x # rest) = Some (x AND 8, n, rest2)"
proof -
  have d: "drop 2 (b0 # x # rest) = rest" "(b0 # x # rest) ! 0 = b0" "(b0 # x # rest) ! 1 = x"
    "\<not> length (b0 # x # rest) < 2" by (simp_all add: numeral_2_eq_2)
  show ?thesis
    unfolding unpack_nack_12bit_def status_sizes Let_def d
    by (simp only: assms nack_eval d)
qed

lemma unpack_nack_18_bytes:
  assumes "x AND 7 = 0"
    "(push_bit 10 (ucast (b0 AND 255)) OR push_bit 2 (ucast (b1 AND 255))) OR ucast (drop_bit 6 (x AND 192)) = sn"
    "unpack_nack_so (x AND 16) rest (empty_nack\<lparr>nack_sn := sn\<rparr>) = Some (n1, rest1)"
    "unpack_nack_range (x AND 8) rest1 n1 = Some (n, rest2)"
  shows "unpack_nack_18bit (b0 # b1 # x # rest) = Some (x AND 32, n, rest2)"
proof -
  have d: "drop 3 (b0 # b1 # x # rest) = rest" "(b0 # b1 # x # rest) ! 0 = b0" "(b0 # b1 # x # rest) ! 1 = b1"
    "(b0 # b1 # x # rest) ! 2 = x" "\<not> length (b0 # b1 # x # rest) < 3"
    by (simp_all add: numeral_2_eq_2 numeral_3_eq_3)
  show ?thesis
    unfolding unpack_nack_18bit_def status_sizes Let_def d
    by (simp only: assms nack_eval d)
qed

lemma unpack_pack_nack_12:
  assumes n: "nack_normal (cardinality 12) n"
  shows "\<exists>e1'. unpack_nack_12bit (pack_nack_12bit e1 n @ rest) = Some (e1', n, rest) \<and> (e1' \<noteq> 0 \<longleftrightarrow> e1)"
proof -
  have sn: "\<forall>i. bit (nack_sn n) i \<longrightarrow> i < 12"
    using nack_sn_bits [of Am_Size12bits n] n by simp
  define x where "x = ucast (push_bit 4 (nack_sn n AND 15)) OR
      ((if e1 then 8 else 0) OR (if nack_has_so n then 4 else 0) OR (if has_nack_range n then 2 else 0) :: u8)"
  note b = nack_byte_12 [OF flags_12 [of e1 "nack_has_so n" "has_nack_range n"] sn, folded x_def]
  obtain n1 rest1 where t:
    "unpack_nack_so (x AND 4) (pack_nack_tail n @ rest) (empty_nack\<lparr>nack_sn := nack_sn n\<rparr>) = Some (n1, rest1)"
    "unpack_nack_range (x AND 2) rest1 n1 = Some (n, rest)"
    using unpack_nack_tail [OF n b(2,3)] by blast
  have "pack_nack_12bit e1 n @ rest = ucast (drop_bit 4 (nack_sn n) AND 255) # x # (pack_nack_tail n @ rest)"
    by (simp only: pack_nack_12bit_def x_def append.simps)
  then show ?thesis using unpack_nack_12_bytes [OF b(4) b(5) t] b(1) by simp
qed

lemma unpack_pack_nack_18:
  assumes n: "nack_normal (cardinality 18) n"
  shows "\<exists>e1'. unpack_nack_18bit (pack_nack_18bit e1 n @ rest) = Some (e1', n, rest) \<and> (e1' \<noteq> 0 \<longleftrightarrow> e1)"
proof -
  have sn: "\<forall>i. bit (nack_sn n) i \<longrightarrow> i < 18"
    using nack_sn_bits [of Am_Size18bits n] n by simp
  define x where "x = ucast (push_bit 6 (nack_sn n) AND 192) OR
      ((if e1 then 32 else 0) OR (if nack_has_so n then 16 else 0) OR (if has_nack_range n then 8 else 0) :: u8)"
  note b = nack_byte_18 [OF flags_18 [of e1 "nack_has_so n" "has_nack_range n"] sn, folded x_def]
  obtain n1 rest1 where t:
    "unpack_nack_so (x AND 16) (pack_nack_tail n @ rest) (empty_nack\<lparr>nack_sn := nack_sn n\<rparr>) = Some (n1, rest1)"
    "unpack_nack_range (x AND 8) rest1 n1 = Some (n, rest)"
    using unpack_nack_tail [OF n b(2,3)] by blast
  have "pack_nack_18bit e1 n @ rest = ucast (drop_bit 10 (nack_sn n) AND 255) #
      ucast (drop_bit 2 (nack_sn n) AND 255) # x # (pack_nack_tail n @ rest)"
    by (simp only: pack_nack_18bit_def x_def append.simps)
  then show ?thesis using unpack_nack_18_bytes [OF b(4) b(5) t] b(1) by simp
qed

lemma unpack_pack_nacks_12:
  "\<forall>n \<in> set ns. nack_normal (cardinality 12) n \<Longrightarrow> (e1 \<noteq> 0 \<longleftrightarrow> ns \<noteq> []) \<Longrightarrow>
    unpack_nacks_12bit e1 (pack_nacks pack_nack_12bit ns @ rest) s = Some (foldl push_nack s ns)"
proof (induction ns arbitrary: e1 s)
  case Nil
  then show ?case by (subst unpack_nacks_12bit.simps) simp
next
  case (Cons n ns)
  obtain e1' where "unpack_nack_12bit (pack_nack_12bit (ns \<noteq> []) n @ (pack_nacks pack_nack_12bit ns @ rest))
      = Some (e1', n, pack_nacks pack_nack_12bit ns @ rest)" "e1' \<noteq> 0 \<longleftrightarrow> ns \<noteq> []"
    using unpack_pack_nack_12 [of n "ns \<noteq> []"] Cons.prems(1) by auto
  then show ?case
    using Cons.IH [of e1' "push_nack s n"] Cons.prems by (subst unpack_nacks_12bit.simps) simp
qed

lemma unpack_pack_nacks_18:
  "\<forall>n \<in> set ns. nack_normal (cardinality 18) n \<Longrightarrow> (e1 \<noteq> 0 \<longleftrightarrow> ns \<noteq> []) \<Longrightarrow>
    unpack_nacks_18bit e1 (pack_nacks pack_nack_18bit ns @ rest) s = Some (foldl push_nack s ns)"
proof (induction ns arbitrary: e1 s)
  case Nil
  then show ?case by (subst unpack_nacks_18bit.simps) simp
next
  case (Cons n ns)
  obtain e1' where "unpack_nack_18bit (pack_nack_18bit (ns \<noteq> []) n @ (pack_nacks pack_nack_18bit ns @ rest))
      = Some (e1', n, pack_nacks pack_nack_18bit ns @ rest)" "e1' \<noteq> 0 \<longleftrightarrow> ns \<noteq> []"
    using unpack_pack_nack_18 [of n "ns \<noteq> []"] Cons.prems(1) by auto
  then show ?case
    using Cons.IH [of e1' "push_nack s n"] Cons.prems by (subst unpack_nacks_18bit.simps) simp
qed

lemma foldl_push_nack:
  "successively (\<lambda>l r. \<not> can_be_merged s l r) (nacks s @ ns) \<Longrightarrow>
    foldl push_nack s ns = s\<lparr>nacks := nacks s @ ns, packed_size := packed_size s + sum_list (map (nack_size s) ns)\<rparr>"
proof (induction ns arbitrary: s)
  case (Cons n ns)
  have np: "nacks s \<noteq> [] \<Longrightarrow> \<not> can_be_merged s (last (nacks s)) n"
    using Cons.prems by (auto simp: successively_append_iff)
  have push: "push_nack s n = s\<lparr>nacks := nacks s @ [n], packed_size := packed_size s + nack_size s n\<rparr>"
    using np by (auto simp: push_nack_def Let_def)
  have "foldl push_nack (push_nack s n) ns = (push_nack s n)\<lparr>nacks := nacks (push_nack s n) @ ns,
      packed_size := packed_size (push_nack s n) + sum_list (map (nack_size (push_nack s n)) ns)\<rparr>"
    using Cons.prems by (intro Cons.IH) (simp add: push)
  then show ?case by (simp add: push add.assoc)
qed simp

lemma ack_bytes_12:
  fixes a :: u32
  assumes "\<forall>n. bit a n \<longrightarrow> n < 12"
  defines "b \<equiv> ucast (drop_bit 8 a AND 15) :: u8"
  shows "drop_bit 7 b AND 1 = 0" "drop_bit 4 b AND 7 = 0"
    "push_bit 8 (ucast (b AND 15)) OR ucast ((ucast (a AND 255) :: u8) AND 255) = a"
  by (rule bit_word_eqI; auto simp: b_def mask_simps bit_simps simp del: and_one_eq dest: assms(1) [rule_format])+

lemma ack_bytes_18:
  fixes a :: u32
  assumes "\<forall>n. bit a n \<longrightarrow> n < 18" and f: "\<forall>n. bit (f :: u8) n \<longleftrightarrow> c \<and> n = 1"
  defines "b \<equiv> ucast (drop_bit 14 a AND 15) :: u8" and "b3 \<equiv> ucast (push_bit 2 a AND 252) OR f"
  shows "drop_bit 7 b AND 1 = 0" "drop_bit 4 b AND 7 = 0"
    "(push_bit 14 (ucast (b AND 15)) OR push_bit 6 (ucast ((ucast (drop_bit 6 a AND 255) :: u8) AND 255))) OR
       ucast (drop_bit 2 (b3 AND 252)) = a"
    "b3 AND 2 \<noteq> 0 \<longleftrightarrow> c" "b3 AND 1 = 0"
proof -
  note a = assms(1) [rule_format] and f = f [rule_format]
  show "drop_bit 7 b AND 1 = 0" "drop_bit 4 b AND 7 = 0"
    by (rule bit_word_eqI; auto simp: b_def mask_simps bit_simps simp del: and_one_eq)+
  show "(push_bit 14 (ucast (b AND 15)) OR push_bit 6 (ucast ((ucast (drop_bit 6 a AND 255) :: u8) AND 255))) OR
       ucast (drop_bit 2 (b3 AND 252)) = a"
  proof (rule bit_word_eqI)
    fix n
    show "bit ((push_bit 14 (ucast (b AND 15)) OR push_bit 6 (ucast ((ucast (drop_bit 6 a AND 255) :: u8) AND 255))) OR
       ucast (drop_bit 2 (b3 AND 252)) :: u32) n = bit a n"
      by (cases "n < 6"; cases "n < 14")
         (auto simp: b_def b3_def mask_simps bit_simps f dest: a)
  qed
  show "b3 AND 2 \<noteq> 0 \<longleftrightarrow> c" unfolding and_single_bit b3_def by (simp add: mask_simps bit_simps f)
  show "b3 AND 1 = 0" using and_one_bit [of b3] by (simp add: b3_def mask_simps bit_simps f del: and_one_eq)
qed

lemma ack_sn_bits:
  assumes "(a :: u32) < cardinality (to_number_am_sn sz)"
  shows "\<forall>n. bit a n \<longrightarrow> n < to_number_am_sn sz"
proof (intro allI impI)
  fix n assume "bit a n"
  then show "n < to_number_am_sn sz"
    by (rule bit_bounded [rotated 2])
       (use assms in \<open>simp_all add: cardinality_def push_bit_eq_mult\<close>, cases sz, simp_all)
qed

lemma unpack_12_bytes:
  assumes "drop_bit 7 b0 AND 1 = 0" "drop_bit 4 b0 AND 7 = 0"
    "push_bit 8 (ucast (b0 AND 15)) OR ucast (b1 AND 255) = a" "b2 AND 127 = 0"
  shows "unpack_12bit (b0 # b1 # b2 # rest) s =
    unpack_nacks_12bit (b2 AND 128) rest ((reset_status s)\<lparr>ack_sn := a\<rparr>)"
proof -
  have d: "drop 3 (b0 # b1 # b2 # rest) = rest" "(b0 # b1 # b2 # rest) ! 2 = b2"
    by (simp_all add: numeral_2_eq_2 numeral_3_eq_3)
  show ?thesis
    by (cases s) (simp add: unpack_12bit_def status_sizes is_control_pdu_def assms(1,2,4) d Let_def
        reset_status_def assms(3) del: and_one_eq)
qed

lemma unpack_18_bytes:
  assumes "drop_bit 7 b0 AND 1 = 0" "drop_bit 4 b0 AND 7 = 0"
    "(push_bit 14 (ucast (b0 AND 15)) OR push_bit 6 (ucast (b1 AND 255))) OR ucast (drop_bit 2 (b2 AND 252)) = a"
    "b2 AND 1 = 0"
  shows "unpack_18bit (b0 # b1 # b2 # rest) s =
    unpack_nacks_18bit (b2 AND 2) rest ((reset_status s)\<lparr>ack_sn := a\<rparr>)"
proof -
  have d: "drop 3 (b0 # b1 # b2 # rest) = rest" "(b0 # b1 # b2 # rest) ! 2 = b2"
    by (simp_all add: numeral_2_eq_2 numeral_3_eq_3)
  show ?thesis
    by (cases s) (simp add: unpack_18bit_def status_sizes is_control_pdu_def assms(1,2,4) d Let_def
        reset_status_def assms(3) del: and_one_eq drop_bit_and)
qed

lemma status_rebuild:
  assumes "status_wf s"
  shows "foldl push_nack ((reset_status (new_status_pdu (st_sn_size s)))\<lparr>ack_sn := ack_sn s\<rparr>) (nacks s) = s"
proof -
  define s0 where "s0 = (reset_status (new_status_pdu (st_sn_size s)))\<lparr>ack_sn := ack_sn s\<rparr>"
  have f: "nacks s0 = []" "packed_size s0 = 3" "st_sn_size s0 = st_sn_size s" "st_mod_nr s0 = st_mod_nr s"
    "ack_sn s0 = ack_sn s" "st_cpt s0 = st_cpt s"
    using assms by (simp_all add: s0_def reset_status_def new_status_pdu_def status_sizes status_wf_def)
  have "can_be_merged s0 = can_be_merged s" "nack_size s0 = nack_size s"
    by (simp_all add: fun_eq_iff can_be_merged_def nack_size_def f)
  then have "foldl push_nack s0 (nacks s) =
      s0\<lparr>nacks := nacks s, packed_size := 3 + sum_list (map (nack_size s) (nacks s))\<rparr>"
    using foldl_push_nack [of s0 "nacks s"] assms by (simp add: f status_wf_def)
  also have "\<dots> = s" using assms f by (simp add: status_wf_def status_size_ok_def)
  finally show ?thesis by (simp only: s0_def)
qed

lemma unpack_pack_status:
  assumes wf: "status_wf s" and ack: "ack_sn s < cardinality (to_number_am_sn (st_sn_size s))"
  shows "unpack_status (pack_status s @ rest) (new_status_pdu (st_sn_size s)) = Some s"
proof (cases "st_sn_size s")
  case Am_Size12bits
  let ?e = "if nacks s \<noteq> [] then 128 else 0 :: u8"
  note b = ack_bytes_12 [of "ack_sn s"]
  have a: "\<forall>n. bit (ack_sn s) n \<longrightarrow> n < 12" using ack_sn_bits [OF ack] Am_Size12bits by simp
  have n: "\<forall>n \<in> set (nacks s). nack_normal (cardinality 12) n"
    using wf Am_Size12bits by (auto simp: status_wf_def)
  have e: "?e AND 127 = 0" "?e AND 128 \<noteq> 0 \<longleftrightarrow> nacks s \<noteq> []" by simp_all
  have "unpack_12bit (pack_12bit s @ rest) (new_status_pdu (st_sn_size s)) =
      Some (foldl push_nack ((reset_status (new_status_pdu (st_sn_size s)))\<lparr>ack_sn := ack_sn s\<rparr>) (nacks s))"
    unfolding pack_12bit_def append.simps
    by (subst unpack_12_bytes [OF b(1) [OF a] b(2) [OF a] b(3) [OF a] e(1)], rule unpack_pack_nacks_12 [OF n e(2)])
  then show ?thesis
    using status_rebuild [OF wf] Am_Size12bits
    by (simp add: unpack_status_def pack_status_def) (simp add: new_status_pdu_def)
next
  case Am_Size18bits
  let ?e = "if nacks s \<noteq> [] then 2 else 0 :: u8"
  have a: "\<forall>n. bit (ack_sn s) n \<longrightarrow> n < 18" using ack_sn_bits [OF ack] Am_Size18bits by simp
  have "\<forall>n. bit ?e n \<longleftrightarrow> nacks s \<noteq> [] \<and> n = 1" by (simp only: bit_if_zero bit_flag_numerals) simp
  note b = ack_bytes_18 [OF a this]
  have n: "\<forall>n \<in> set (nacks s). nack_normal (cardinality 18) n"
    using wf Am_Size18bits by (auto simp: status_wf_def)
  have "unpack_18bit (pack_18bit s @ rest) (new_status_pdu (st_sn_size s)) =
      Some (foldl push_nack ((reset_status (new_status_pdu (st_sn_size s)))\<lparr>ack_sn := ack_sn s\<rparr>) (nacks s))"
    unfolding pack_18bit_def append.simps
    by (subst unpack_18_bytes [OF b(1) b(2) b(3) b(5)], rule unpack_pack_nacks_18 [OF n b(4)])
  then show ?thesis
    using status_rebuild [OF wf] Am_Size18bits
    by (simp add: unpack_status_def pack_status_def) (simp add: new_status_pdu_def)
qed

section \<open>Trimming\<close>

lemma trim_loop_bound:
  "status_size_ok s \<Longrightarrow> 3 \<le> n \<Longrightarrow> packed_size (trim_loop n s) \<le> n"
proof (induction n s rule: trim_loop.induct)
  case (1 n s)
  show ?case
  proof (cases "nacks s \<noteq> [] \<and> (n < packed_size s \<or> nack_sn (last (nacks s)) = ack_sn s)")
    case True
    then show ?thesis
      using 1 sum_list_butlast_last [of "nacks s" "nack_size s"]
      by (subst trim_loop.simps) (auto simp: status_size_ok_def)
  next
    case False
    then show ?thesis using 1 by (subst trim_loop.simps) (auto simp: status_size_ok_def)
  qed
qed

lemma status_wf_trim_loop: "status_wf s \<Longrightarrow> status_wf (trim_loop n s)"
proof (induction n s rule: trim_loop.induct)
  case (1 n s)
  let ?s' = "s\<lparr>packed_size := packed_size s - nack_size s (last (nacks s)),
        ack_sn := nack_sn (last (nacks s)), nacks := butlast (nacks s)\<rparr>"
  show ?case
  proof (cases "nacks s \<noteq> [] \<and> (n < packed_size s \<or> nack_sn (last (nacks s)) = ack_sn s)")
    case True
    then have ne: "nacks s \<noteq> []" by simp
    have "successively (\<lambda>l r. \<not> can_be_merged s l r) (butlast (nacks s))"
      using "1.prems" ne successively_snoc [of _ "butlast (nacks s)" "last (nacks s)"]
      by (simp add: status_wf_def)
    moreover have "status_size_ok ?s'"
      using "1.prems" sum_list_butlast_last [OF ne, of "nack_size s"]
      by (simp add: status_wf_def status_size_ok_def)
    ultimately have "status_wf ?s'" using "1.prems" by (auto simp: status_wf_def dest: in_set_butlastD)
    with 1 True show ?thesis by (subst trim_loop.simps) (simp only: if_True simp_thms)
  next
    case False
    then show ?thesis using "1.prems" by (subst trim_loop.simps) (simp only: if_False)
  qed
qed

lemma trim_loop_ack:
  "\<exists>ns. nacks s = nacks (trim_loop n s) @ ns \<and>
     ack_sn (trim_loop n s) = (case ns of [] \<Rightarrow> ack_sn s | nack # _ \<Rightarrow> nack_sn nack)"
proof (induction n s rule: trim_loop.induct)
  case (1 n s)
  let ?s' = "s\<lparr>packed_size := packed_size s - nack_size s (last (nacks s)),
        ack_sn := nack_sn (last (nacks s)), nacks := butlast (nacks s)\<rparr>"
  show ?case
  proof (cases "nacks s \<noteq> [] \<and> (n < packed_size s \<or> nack_sn (last (nacks s)) = ack_sn s)")
    case True
    then have eq: "trim_loop n s = trim_loop n ?s'"
      by (subst trim_loop.simps) (simp only: if_True simp_thms)
    obtain ns where ns: "butlast (nacks s) = nacks (trim_loop n s) @ ns"
      "ack_sn (trim_loop n s) = (case ns of [] \<Rightarrow> nack_sn (last (nacks s)) | nack # _ \<Rightarrow> nack_sn nack)"
      using 1 [OF True] unfolding eq [symmetric]
      by (elim exE conjE) (rule that, simp, simp split: list.splits)
    have "nacks s = nacks (trim_loop n s) @ (ns @ [last (nacks s)])"
      using True ns(1) by (metis append_assoc append_butlast_last_id)
    moreover have "ack_sn (trim_loop n s) =
        (case ns @ [last (nacks s)] of [] \<Rightarrow> ack_sn s | nack # _ \<Rightarrow> nack_sn nack)"
      using ns(2) by (cases ns) auto
    ultimately show ?thesis by blast
  next
    case False
    then have "trim_loop n s = s" by (subst trim_loop.simps) (simp only: if_False)
    then show ?thesis by simp
  qed
qed

text \<open>
  The PDU with the first \<open>k\<close> NACKs, whose ACK\_SN is the SN of the first NACK left out, and the PDUs with
  which the loop may end: they fit, and their last NACK does not begin with ACK\_SN.
\<close>

definition keep_nacks :: "rlc_am_status_pdu \<Rightarrow> nat \<Rightarrow> rlc_am_status_pdu" where
  "keep_nacks s k =
     s\<lparr>nacks := take k (nacks s),
       ack_sn := (if k < length (nacks s) then nack_sn (nacks s ! k) else ack_sn s),
       packed_size := 3 + sum_list (map (nack_size s) (take k (nacks s)))\<rparr>"

definition trim_may_end :: "nat \<Rightarrow> rlc_am_status_pdu \<Rightarrow> bool" where
  "trim_may_end n s \<longleftrightarrow> packed_size s \<le> n \<and> (nacks s \<noteq> [] \<longrightarrow> nack_sn (last (nacks s)) \<noteq> ack_sn s)"

lemma keep_all_nacks: "status_size_ok s \<Longrightarrow> keep_nacks s (length (nacks s)) = s"
  by (simp add: keep_nacks_def status_size_ok_def)

lemma keep_butlast_nacks:
  assumes "status_size_ok s" "nacks s \<noteq> []"
  shows "s\<lparr>packed_size := packed_size s - nack_size s (last (nacks s)),
      ack_sn := nack_sn (last (nacks s)), nacks := butlast (nacks s)\<rparr> = keep_nacks s (length (nacks s) - 1)"
  using assms sum_list_butlast_last [of "nacks s" "nack_size s"]
  by (simp add: keep_nacks_def status_size_ok_def butlast_conv_take last_conv_nth)

lemma keep_keep_nacks:
  "j \<le> k \<Longrightarrow> k \<le> length (nacks s) \<Longrightarrow> keep_nacks (keep_nacks s k) j = keep_nacks s j"
  by (auto simp: keep_nacks_def min_def)

lemma status_size_keep: "status_size_ok (keep_nacks s k)"
  by (simp add: status_size_ok_def keep_nacks_def)

lemma trim_loop_longest:
  "status_size_ok s \<Longrightarrow> 3 \<le> n \<Longrightarrow>
   \<exists>k \<le> length (nacks s). trim_loop n s = keep_nacks s k \<and> trim_may_end n (keep_nacks s k) \<and>
     (\<forall>j. k < j \<and> j \<le> length (nacks s) \<longrightarrow> \<not> trim_may_end n (keep_nacks s j))"
proof (induction n s rule: trim_loop.induct)
  case (1 n s)
  let ?l = "length (nacks s) - 1"
  show ?case
  proof (cases "nacks s \<noteq> [] \<and> (n < packed_size s \<or> nack_sn (last (nacks s)) = ack_sn s)")
    case True
    then have l: "?l \<le> length (nacks s)" "length (nacks (keep_nacks s ?l)) = ?l" by (simp_all add: keep_nacks_def)
    have eq: "trim_loop n s = trim_loop n (keep_nacks s ?l)"
      using True keep_butlast_nacks [OF "1.prems"(1)]
      by (subst trim_loop.simps) (simp only: if_True simp_thms)
    have keep: "keep_nacks (keep_nacks s ?l) j = keep_nacks s j" if "j \<le> ?l" for j
      by (rule keep_keep_nacks [OF that l(1)])
    have "\<exists>k \<le> ?l. trim_loop n s = keep_nacks (keep_nacks s ?l) k \<and> trim_may_end n (keep_nacks (keep_nacks s ?l) k) \<and>
        (\<forall>j. k < j \<and> j \<le> ?l \<longrightarrow> \<not> trim_may_end n (keep_nacks (keep_nacks s ?l) j))"
      using "1.IH" [OF True] True status_size_keep [of s ?l] "1.prems"(2)
      unfolding keep_butlast_nacks [OF "1.prems"(1) conjunct1 [OF True]] l eq by blast
    then obtain k where k: "k \<le> ?l" "trim_loop n s = keep_nacks s k" "trim_may_end n (keep_nacks s k)"
      and "\<forall>j. k < j \<and> j \<le> ?l \<longrightarrow> \<not> trim_may_end n (keep_nacks (keep_nacks s ?l) j)"
      using keep by auto
    then have more: "\<not> trim_may_end n (keep_nacks s j)" if "k < j" "j \<le> ?l" for j
      using keep [OF that(2)] that by auto
    have last: "\<not> trim_may_end n (keep_nacks s (length (nacks s)))"
      using True by (auto simp: keep_all_nacks [OF "1.prems"(1)] trim_may_end_def)
    have "\<not> trim_may_end n (keep_nacks s j)" if "k < j" "j \<le> length (nacks s)" for j
      using more [of j] last that by (cases "j = length (nacks s)") auto
    then show ?thesis using k l(1) by (meson le_trans)
  next
    case False
    then have "trim_loop n s = s" by (subst trim_loop.simps) (simp only: if_False)
    moreover have "trim_may_end n s" using False "1.prems" by (auto simp: trim_may_end_def status_size_ok_def)
    ultimately show ?thesis
      using keep_all_nacks [OF "1.prems"(1)] by (intro exI [of _ "length (nacks s)"]) auto
  qed
qed

section \<open>Properties of status PDUs\<close>

text \<open>
  C30. A status PDU that was built with \<open>push_nack\<close> and \<open>trim\<close> (the invariant \<open>status_wf\<close>) packs into
  exactly \<open>get_packed_size\<close> bytes, and \<open>unpack\<close> recovers it from these bytes, for both SN lengths.
\<close>

theorem status_pdu_roundtrip:
  assumes "status_wf s" and "ack_sn s < cardinality (to_number_am_sn (st_sn_size s))"
  shows "length (pack_status s) = packed_size s \<and>
    unpack_status (pack_status s) (new_status_pdu (st_sn_size s)) = Some s"
  using unpack_pack_status [OF assms, of "[]"] length_pack [of s] assms(1) by (simp add: status_wf_def)

definition sample_status :: rlc_am_status_pdu where
  "sample_status =
     push_nack (push_nack ((new_status_pdu Am_Size12bits)\<lparr>ack_sn := 9\<rparr>) (empty_nack\<lparr>nack_sn := 1\<rparr>))
       (empty_nack\<lparr>nack_sn := 3, nack_has_so := True, so_start := 20, so_end := 30\<rparr>)"

lemma sample_status_wf: "status_wf sample_status" "ack_sn sample_status = 9"
    "st_sn_size sample_status = Am_Size12bits"
proof -
  have c: "cardinality 12 = 4096" by (simp add: cardinality_def push_bit_eq_mult)
  have "status_wf ((new_status_pdu Am_Size12bits)\<lparr>ack_sn := 9\<rparr>)"
    by (simp add: status_wf_def status_size_ok_def new_status_pdu_def status_sizes)
  then show "status_wf sample_status"
    unfolding sample_status_def
    by (intro status_wf_push) (simp_all add: nack_normal_def empty_nack_def new_status_pdu_def c)
  show "ack_sn sample_status = 9" "st_sn_size sample_status = Am_Size12bits"
    by (simp_all add: sample_status_def) (simp add: new_status_pdu_def)
qed

theorem status_pdu_roundtrip_witness:
  "unpack_status (pack_status sample_status) (new_status_pdu Am_Size12bits) = Some sample_status"
  using status_pdu_roundtrip [of sample_status] sample_status_wf
  by (simp add: cardinality_def push_bit_eq_mult)

text \<open>
  C31. \<open>push_nack\<close> keeps the invariant, and the merged PDU reports exactly the bytes that were reported
  before and those of the new NACK: merging into ranges neither loses nor adds a missing byte.
\<close>

theorem push_nack_exact:
  assumes "status_wf s" and "nack_normal (st_mod_nr s) nack"
  shows "status_wf (push_nack s nack) \<and>
    status_missing (push_nack s nack) = status_missing s \<union> nack_missing (st_mod_nr s) nack"
proof -
  have "\<forall>n \<in> set (nacks s). 0 < nack_count n"
    using assms(1) by (auto simp: status_wf_def dest: nack_normal_count)
  moreover have "st_mod_nr s = cardinality (to_number_am_sn (st_sn_size s))"
    using assms(1) by (simp add: status_wf_def)
  ultimately show ?thesis
    using status_wf_push [OF assms] status_missing_push nack_normal_count [OF assms(2)] by blast
qed

theorem push_nack_exact_witness:
  "status_missing (push_nack sample_status (empty_nack\<lparr>nack_sn := 4\<rparr>))
     = status_missing sample_status \<union> nack_missing 4096 (empty_nack\<lparr>nack_sn := 4\<rparr>)"
proof -
  have m: "st_mod_nr sample_status = 4096"
    using sample_status_wf by (simp add: status_wf_def cardinality_def push_bit_eq_mult)
  show ?thesis
    using push_nack_exact [of sample_status "empty_nack\<lparr>nack_sn := 4\<rparr>"] sample_status_wf(1)
    by (simp add: m nack_normal_def empty_nack_def)
qed

text \<open>
  C32. \<open>trim\<close> leaves a PDU that fits as it is, and fails without a change if not even the fixed part fits.
  Otherwise it succeeds with a well-formed PDU within the bound: the longest prefix of the NACKs that fits
  and whose last NACK does not begin with the resulting ACK\_SN, where ACK\_SN becomes the SN of the first
  NACK that was removed. So no NACK is removed without need, and with a NACK go the NACKs before it that
  begin with the same SN. A range of NACKs that only ends with this SN stays, against the comment of the
  loop: see \<open>trim_ack_still_missing\<close>.
\<close>

theorem trim_correct:
  assumes "status_wf s" and "trim n s = (ok, s')"
  shows "(packed_size s \<le> n \<longrightarrow> ok \<and> s' = s) \<and>
    (n < packed_size s \<and> n < 3 \<longrightarrow> \<not> ok \<and> s' = s) \<and>
    (n < packed_size s \<and> 3 \<le> n \<longrightarrow>
       ok \<and> status_wf s' \<and> packed_size s' \<le> n \<and>
       (\<exists>k < length (nacks s). s' = keep_nacks s k \<and> trim_may_end n s' \<and>
          (\<forall>j. k < j \<and> j \<le> length (nacks s) \<longrightarrow> \<not> trim_may_end n (keep_nacks s j))))"
proof -
  have size: "status_size_ok s" using assms(1) by (simp add: status_wf_def)
  have "\<exists>k < length (nacks s). s' = keep_nacks s k \<and> trim_may_end n s' \<and>
          (\<forall>j. k < j \<and> j \<le> length (nacks s) \<longrightarrow> \<not> trim_may_end n (keep_nacks s j))"
    if large: "n < packed_size s" "3 \<le> n" "s' = trim_loop n s"
  proof -
    from trim_loop_longest [OF size large(2)] obtain k where k: "k \<le> length (nacks s)"
      "s' = keep_nacks s k" "trim_may_end n s'"
      "\<forall>j. k < j \<and> j \<le> length (nacks s) \<longrightarrow> \<not> trim_may_end n (keep_nacks s j)"
      unfolding large(3) by auto
    have "\<not> trim_may_end n (keep_nacks s (length (nacks s)))"
      using large(1) by (simp add: keep_all_nacks [OF size] trim_may_end_def)
    with k(2,3) have "k \<noteq> length (nacks s)" by auto
    with k show ?thesis by (intro exI [of _ k]) simp
  qed
  moreover have "packed_size (trim_loop n s) \<le> n" if "3 \<le> n" by (rule trim_loop_bound [OF size that])
  ultimately show ?thesis
    using assms(2) status_wf_trim_loop [OF assms(1), of n]
    by (auto simp: trim_def status_sizes split: if_splits)
qed

definition sample_segments_status :: rlc_am_status_pdu where
  "sample_segments_status =
     push_nack
       (push_nack
          (push_nack ((new_status_pdu Am_Size12bits)\<lparr>ack_sn := 9\<rparr>) (empty_nack\<lparr>nack_sn := 1\<rparr>))
          (empty_nack\<lparr>nack_sn := 3, nack_has_so := True, so_start := 20, so_end := 30\<rparr>))
       (empty_nack\<lparr>nack_sn := 3, nack_has_so := True, so_start := 40, so_end := 50\<rparr>)"

lemma sample_segments_wf: "status_wf sample_segments_status"
proof -
  have c: "cardinality 12 = 4096" by (simp add: cardinality_def push_bit_eq_mult)
  have "status_wf ((new_status_pdu Am_Size12bits)\<lparr>ack_sn := 9\<rparr>)"
    by (simp add: status_wf_def status_size_ok_def new_status_pdu_def status_sizes)
  then show ?thesis
    unfolding sample_segments_status_def
    by (intro status_wf_push) (simp_all add: nack_normal_def empty_nack_def new_status_pdu_def c)
qed

text \<open>
  The bound of twelve bytes leaves room for the first two NACKs (eleven bytes): the second one goes too, as
  it begins with the SN of the third.
\<close>

theorem trim_correct_witness:
  "fst (trim 12 sample_segments_status) \<and> snd (trim 12 sample_segments_status) = keep_nacks sample_segments_status 1"
proof -
  have size: "packed_size sample_segments_status = 17" "length (nacks sample_segments_status) = 3"
    by code_simp+
  have two: "packed_size (keep_nacks sample_segments_status 2) = 11" by code_simp
  from trim_correct [OF sample_segments_wf, of 12]
  obtain k where k: "k < 3" "snd (trim 12 sample_segments_status) = keep_nacks sample_segments_status k"
    "trim_may_end 12 (keep_nacks sample_segments_status k)"
    "\<forall>j. k < j \<and> j \<le> 3 \<longrightarrow> \<not> trim_may_end 12 (keep_nacks sample_segments_status j)"
    and ok: "fst (trim 12 sample_segments_status)"
    by (cases "trim 12 sample_segments_status") (auto simp: size)
  have "trim_may_end 12 (keep_nacks sample_segments_status 1)" "\<not> trim_may_end 12 (keep_nacks sample_segments_status 2)"
    by code_simp+
  with k(3,4) have "\<not> k < 1" "k \<noteq> 2" by auto
  with k(1) have "k = 1" by simp
  with k(2) ok show ?thesis by simp
qed

text \<open>
  C39. \<open>trim\<close> compares ACK\_SN only with the first SN of the last NACK. When a segment of an SDU was merged
  into a preceding range that it ends, and removing a later segment of the same SDU is enough for the
  bound, the PDU has the SN of this SDU as ACK\_SN and still reports bytes of it missing, against TS 38.322
  5.3.4 as quoted in the comment of \<open>trim\<close>.
\<close>

theorem trim_ack_still_missing:
  assumes wf: "status_wf s" and ns: "nacks s = ns @ [rng, seg]"
    and "1 < nack_count rng"
    and sn: "nack_sn seg = (nack_sn rng + of_nat (nack_count rng - 1)) mod st_mod_nr s"
    and "nack_sn seg \<noteq> nack_sn rng"
    and "n < packed_size s" "packed_size s \<le> n + nack_size s seg"
  shows "fst (trim n s) \<and> nacks (snd (trim n s)) = ns @ [rng] \<and> ack_sn (snd (trim n s)) = nack_sn seg \<and>
    (nack_sn seg, 0) \<in> status_missing (snd (trim n s))"
proof -
  have size: "packed_size s = 3 + sum_list (map (nack_size s) ns) + nack_size s rng + nack_size s seg"
    using wf by (simp add: status_wf_def status_size_ok_def ns)
  then have n: "3 \<le> n" using assms(7) by simp
  have "trim n s = (True, trim_loop n s)" using assms(6) n by (simp add: trim_def status_sizes)
  moreover have "trim_loop n s = s\<lparr>packed_size := packed_size s - nack_size s seg, ack_sn := nack_sn seg,
      nacks := ns @ [rng]\<rparr>"
    using assms(5-7) by (subst trim_loop.simps) (simp add: ns butlast_append, subst trim_loop.simps, simp)
  moreover have "(nack_sn seg, 0) \<in> nack_missing (st_mod_nr s) rng"
    unfolding nack_missing_def using assms(3) sn by (auto intro!: exI [of _ "nack_count rng - 1"])
  ultimately show ?thesis by (simp add: status_missing_def)
qed

definition sample_range_status :: rlc_am_status_pdu where
  "sample_range_status =
     push_nack
       (push_nack
          (push_nack
             (push_nack ((new_status_pdu Am_Size12bits)\<lparr>ack_sn := 9\<rparr>) (empty_nack\<lparr>nack_sn := 1\<rparr>))
             (empty_nack\<lparr>nack_sn := 2\<rparr>))
          (empty_nack\<lparr>nack_sn := 3, nack_has_so := True, so_start := 0, so_end := 10\<rparr>))
       (empty_nack\<lparr>nack_sn := 3, nack_has_so := True, so_start := 20, so_end := 30\<rparr>)"

lemma sample_range_wf: "status_wf sample_range_status"
proof -
  have c: "cardinality 12 = 4096" by (simp add: cardinality_def push_bit_eq_mult)
  have "status_wf ((new_status_pdu Am_Size12bits)\<lparr>ack_sn := 9\<rparr>)"
    by (simp add: status_wf_def status_size_ok_def new_status_pdu_def status_sizes)
  then show ?thesis
    unfolding sample_range_status_def
    by (intro status_wf_push) (simp_all add: nack_normal_def empty_nack_def new_status_pdu_def c)
qed

text \<open>The SDUs 1 and 2 and two segments of the SDU 3 are missing; trimming to ten bytes gives ACK\_SN 3.\<close>

theorem trim_ack_still_missing_witness:
  "ack_sn (snd (trim 10 sample_range_status)) = 3 \<and> (3, 0) \<in> status_missing (snd (trim 10 sample_range_status))"
proof -
  let ?rng = "\<lparr>nack_sn = 1, nack_has_so = True, so_start = 0, so_end = 10, has_nack_range = True, nack_range = 3\<rparr>"
  let ?seg = "empty_nack\<lparr>nack_sn := 3, nack_has_so := True, so_start := 20, so_end := 30\<rparr>"
  have "nacks sample_range_status = [] @ [?rng, ?seg]" "packed_size sample_range_status = 16"
    "nack_size sample_range_status ?seg = 6" "st_mod_nr sample_range_status = 4096"
    by code_simp+
  from trim_ack_still_missing [OF sample_range_wf this(1), of 10] this(2-) show ?thesis
    by (simp add: nack_count_def empty_nack_def)
qed

end
