(* ===== verification/Rlc_Segments.thy ===== *)
theory Rlc_Segments
  imports Rlc_Types
begin

text \<open>
  Buffering of SDU segments until an SDU is complete: \<open>store_segment\<close>, \<open>update_segment_inventory\<close> and
  \<open>reassemble_sdu\<close>. The UM and the AM receiver (lib/rlc/rlc_rx_um_entity.cpp, rlc_rx_am_entity.cpp) have
  the same code for the three; the definitions here are used by both.

  A \<open>std::set\<close> of segments ordered by SO is a list sorted by SO without duplicates, \<open>set_insert\<close> is its
  \<open>insert\<close> (which ignores the hint and keeps an equal key). Offsets of bytes are natural numbers, the
  SO that is written back is truncated to 16 bits as in the code.

  Shown: the stored segments stay disjoint and sorted, they cover exactly the bytes that were offered,
  and if all segments are slices of one SDU then the SDU counts as fully received exactly when all its
  bytes are covered, and its reassembly is that SDU. The contract is the locale \<open>reassembly\<close>, with the
  statement for a whole sequence of received segments proved once.
\<close>

record rlc_rx_sdu_segment =
  seg_si :: rlc_si_field
  seg_so :: u16
  seg_payload :: byte_buffer

text \<open>One past the last byte: \<open>so + payload.length()\<close>.\<close>

definition seg_end :: "rlc_rx_sdu_segment \<Rightarrow> nat" where
  "seg_end s = unat (seg_so s) + length (seg_payload s)"

fun set_insert :: "rlc_rx_sdu_segment \<Rightarrow> rlc_rx_sdu_segment list \<Rightarrow> rlc_rx_sdu_segment list" where
  "set_insert x [] = [x]"
| "set_insert x (y # ys) =
     (if seg_so x < seg_so y then x # y # ys
      else if seg_so y < seg_so x then y # set_insert x ys
      else y # ys)"

text \<open>
  The loop of \<open>store_segment\<close>: \<open>pre\<close> are the segments before the iterator, the list argument those
  from the iterator on. The result holds the remaining segments and the segment that is left to be
  inserted, if the new segment was not discarded.
\<close>

fun store_loop ::
  "rlc_rx_sdu_segment list \<Rightarrow> rlc_rx_sdu_segment list \<Rightarrow> rlc_rx_sdu_segment \<Rightarrow>
     rlc_rx_sdu_segment list \<times> rlc_rx_sdu_segment option" where
  "store_loop pre [] new_segment = (pre, Some new_segment)"
| "store_loop pre (cur # rest) new_segment =
     (let cur_last_byte = seg_end cur - 1;
          new_last_byte = seg_end new_segment - 1
      in
      if unat (seg_so new_segment) > cur_last_byte then store_loop (pre @ [cur]) rest new_segment
      else if seg_so new_segment \<ge> seg_so cur then
        (if new_last_byte \<le> cur_last_byte then (pre @ cur # rest, None)
         else store_loop (pre @ [cur]) rest
                (new_segment\<lparr>seg_payload :=
                   drop (cur_last_byte + 1 - unat (seg_so new_segment)) (seg_payload new_segment),
                   seg_so := of_nat (cur_last_byte + 1)\<rparr>))
      else if new_last_byte < unat (seg_so cur) then (pre @ cur # rest, Some new_segment)
      else if new_last_byte < cur_last_byte then
        (let cut_segment = cur\<lparr>seg_payload :=
               drop (new_last_byte + 1 - unat (seg_so cur)) (seg_payload cur),
               seg_so := of_nat (new_last_byte + 1)\<rparr>
         in (set_insert cut_segment (pre @ rest), Some new_segment))
      else store_loop pre rest new_segment)"

definition store_segment ::
  "rlc_rx_sdu_segment list \<Rightarrow> rlc_rx_sdu_segment \<Rightarrow> bool \<times> rlc_rx_sdu_segment list" where
  "store_segment segments new_segment =
     (case store_loop [] segments new_segment of
        (segments', None) \<Rightarrow> (False, segments')
      | (segments', Some seg) \<Rightarrow> (True, set_insert seg segments'))"

text \<open>The flags \<open>(fully_received, has_gap)\<close>.\<close>

fun inventory_loop :: "nat \<Rightarrow> rlc_rx_sdu_segment list \<Rightarrow> bool \<times> bool" where
  "inventory_loop next_byte [] = (False, False)"
| "inventory_loop next_byte (segm # segments) =
     (if unat (seg_so segm) \<noteq> next_byte then (False, True)
      else if seg_si segm = Last_Segment then (True, False)
      else inventory_loop (next_byte + length (seg_payload segm)) segments)"

definition update_segment_inventory :: "rlc_rx_sdu_segment list \<Rightarrow> bool \<times> bool" where
  "update_segment_inventory segments =
     (if segments = [] then (False, False) else inventory_loop 0 segments)"

definition reassemble_segments :: "rlc_rx_sdu_segment list \<Rightarrow> byte_buffer" where
  "reassemble_segments segments = concat (map seg_payload segments)"

section \<open>Disjoint segments\<close>

definition seg_ok :: "rlc_rx_sdu_segment \<Rightarrow> bool" where
  "seg_ok s \<longleftrightarrow> seg_payload s \<noteq> [] \<and> seg_end s \<le> 65536"

definition segs_ok :: "rlc_rx_sdu_segment list \<Rightarrow> bool" where
  "segs_ok segs \<longleftrightarrow> sorted_wrt (\<lambda>a b. seg_end a \<le> unat (seg_so b)) segs \<and> (\<forall>s \<in> set segs. seg_ok s)"

definition seg_cover :: "rlc_rx_sdu_segment \<Rightarrow> nat set" where
  "seg_cover s = {unat (seg_so s) ..< seg_end s}"

definition segs_cover :: "rlc_rx_sdu_segment list \<Rightarrow> nat set" where
  "segs_cover segs = (\<Union>s \<in> set segs. seg_cover s)"

text \<open>A segment that was cut at its front, and the property that it keeps: it is a slice of the SDU.\<close>

definition seg_cut :: "rlc_rx_sdu_segment \<Rightarrow> nat \<Rightarrow> rlc_rx_sdu_segment" where
  "seg_cut s k = s\<lparr>seg_payload := drop (k - unat (seg_so s)) (seg_payload s), seg_so := of_nat k\<rparr>"

definition seg_slice :: "byte_buffer \<Rightarrow> rlc_rx_sdu_segment \<Rightarrow> bool" where
  "seg_slice sdu s \<longleftrightarrow> seg_end s \<le> length sdu \<and>
     seg_payload s = take (length (seg_payload s)) (drop (unat (seg_so s)) sdu) \<and>
     (seg_si s = Last_Segment \<longleftrightarrow> seg_end s = length sdu)"

lemma segs_ok_simps [simp]:
  "segs_ok []"
  "segs_ok (x # xs) \<longleftrightarrow> seg_ok x \<and> (\<forall>y \<in> set xs. seg_end x \<le> unat (seg_so y)) \<and> segs_ok xs"
  by (auto simp: segs_ok_def)

lemma segs_ok_append:
  "segs_ok (xs @ ys) \<longleftrightarrow> segs_ok xs \<and> segs_ok ys \<and>
     (\<forall>x \<in> set xs. \<forall>y \<in> set ys. seg_end x \<le> unat (seg_so y))"
  by (auto simp: segs_ok_def sorted_wrt_append)

lemma segs_cover_simps [simp]:
  "segs_cover [] = {}" "segs_cover (x # xs) = seg_cover x \<union> segs_cover xs"
  "segs_cover (xs @ ys) = segs_cover xs \<union> segs_cover ys"
  by (auto simp: segs_cover_def)

lemma seg_so_less_end: "seg_ok s \<Longrightarrow> unat (seg_so s) < seg_end s"
  by (simp add: seg_ok_def seg_end_def)

lemma seg_cut_facts:
  assumes "seg_ok s" "unat (seg_so s) \<le> k" "k < seg_end s"
  shows "seg_ok (seg_cut s k)" "unat (seg_so (seg_cut s k)) = k" "seg_end (seg_cut s k) = seg_end s"
    "seg_si (seg_cut s k) = seg_si s" "seg_cover (seg_cut s k) = {k ..< seg_end s}"
proof -
  have k: "k < 65536" using assms(1,3) by (simp add: seg_ok_def)
  then show so: "unat (seg_so (seg_cut s k)) = k" by (simp add: seg_cut_def unat_of_nat)
  show e: "seg_end (seg_cut s k) = seg_end s"
    using assms(2,3) so by (simp add: seg_end_def) (simp add: seg_cut_def)
  show "seg_ok (seg_cut s k)"
    using assms e by (auto simp: seg_ok_def seg_cut_def seg_end_def)
  show "seg_si (seg_cut s k) = seg_si s" by (simp add: seg_cut_def)
  show "seg_cover (seg_cut s k) = {k ..< seg_end s}" by (simp add: seg_cover_def so e)
qed

lemma seg_slice_cut:
  assumes "seg_ok s" "unat (seg_so s) \<le> k" "k < seg_end s" "seg_slice sdu s"
  shows "seg_slice sdu (seg_cut s k)"
proof -
  note f = seg_cut_facts [OF assms(1-3)]
  let ?d = "k - unat (seg_so s)"
  have pay: "seg_payload (seg_cut s k) = drop ?d (seg_payload s)" by (simp add: seg_cut_def)
  have "drop ?d (seg_payload s) = drop ?d (take (length (seg_payload s)) (drop (unat (seg_so s)) sdu))"
    using assms(4) by (simp add: seg_slice_def)
  also have "\<dots> = take (length (seg_payload s) - ?d) (drop k sdu)"
    using assms(2) by (simp add: drop_take)
  finally show ?thesis
    using assms(4) unfolding seg_slice_def pay length_drop f by blast
qed

lemma set_insert_set: "set (set_insert x xs) \<subseteq> insert x (set xs)"
  by (induction x xs rule: set_insert.induct) auto

lemma set_insert_disjoint:
  assumes "segs_ok xs" "seg_ok x" "\<forall>y \<in> set xs. seg_end y \<le> unat (seg_so x) \<or> seg_end x \<le> unat (seg_so y)"
  shows "segs_ok (set_insert x xs)" "segs_cover (set_insert x xs) = seg_cover x \<union> segs_cover xs"
proof -
  have "segs_ok (set_insert x xs) \<and> segs_cover (set_insert x xs) = seg_cover x \<union> segs_cover xs"
    using assms
  proof (induction x xs rule: set_insert.induct)
    case (2 x y ys)
    note so = seg_so_less_end [OF "2.prems"(2)] seg_so_less_end [of y]
    have y: "seg_ok y" using "2.prems" by simp
    consider "seg_so x < seg_so y" | "seg_so y < seg_so x" | "seg_so x = seg_so y"
      by fastforce
    then show ?case
    proof cases
      case 1
      then have e: "seg_end x \<le> unat (seg_so y)"
        using "2.prems" so y by (auto simp: word_less_nat_alt)
      have "seg_end x \<le> unat (seg_so z)" if "z \<in> set ys" for z
        using e that "2.prems"(1) so y by fastforce
      then show ?thesis using 1 e "2.prems" by auto
    next
      case 2
      then have e: "seg_end y \<le> unat (seg_so x)"
        using "2.prems" so y by (auto simp: word_less_nat_alt)
      show ?thesis
        using 2 e "2.prems" "2.IH" set_insert_set [of x ys] by (auto simp: less_imp_not_less)
    next
      case 3
      then show ?thesis using "2.prems" so y by auto
    qed
  qed simp
  then show "segs_ok (set_insert x xs)" "segs_cover (set_insert x xs) = seg_cover x \<union> segs_cover xs"
    by simp_all
qed

section \<open>Storing a segment\<close>

definition store_post ::
  "nat set \<Rightarrow> rlc_rx_sdu_segment list \<times> rlc_rx_sdu_segment option \<Rightarrow> bool" where
  "store_post cover r \<longleftrightarrow>
     segs_ok (fst r) \<and>
     (case snd r of
        None \<Rightarrow> segs_cover (fst r) = cover
      | Some n \<Rightarrow> seg_ok n \<and> segs_cover (fst r) \<union> seg_cover n = cover \<and>
          (\<forall>x \<in> set (fst r). seg_end x \<le> unat (seg_so n) \<or> seg_end n \<le> unat (seg_so x)))"

lemma store_loop_cut:
  "store_loop pre (cur # rest) new =
     (if seg_end cur \<le> unat (seg_so new) then store_loop (pre @ [cur]) rest new
      else if seg_so cur \<le> seg_so new then
        (if seg_end new \<le> seg_end cur then (pre @ cur # rest, None)
         else store_loop (pre @ [cur]) rest (seg_cut new (seg_end cur)))
      else if seg_end new \<le> unat (seg_so cur) then (pre @ cur # rest, Some new)
      else if seg_end new < seg_end cur then (set_insert (seg_cut cur (seg_end new)) (pre @ rest), Some new)
      else store_loop pre rest new)"
  if "seg_ok cur" "seg_ok new"
  using seg_so_less_end [OF that(1)] seg_so_less_end [OF that(2)]
  by (subst store_loop.simps) (auto simp: Let_def seg_cut_def)

declare store_loop.simps(2) [simp del]

lemma store_loop_correct:
  assumes "segs_ok (pre @ rest)" "\<forall>x \<in> set pre. seg_end x \<le> unat (seg_so new)" "seg_ok new"
  shows "store_post (segs_cover (pre @ rest) \<union> seg_cover new) (store_loop pre rest new)"
  using assms
proof (induction rest arbitrary: pre new)
  case Nil
  then show ?case by (auto simp: store_post_def)
next
  case (Cons cur rest)
  have ok: "seg_ok cur" "seg_ok new" using Cons.prems by (simp_all add: segs_ok_append)
  note lt = seg_so_less_end [OF ok(1)] seg_so_less_end [OF ok(2)]
  note eq = store_loop_cut [OF ok, of pre rest]
  consider (after) "seg_end cur \<le> unat (seg_so new)"
    | (inside) "unat (seg_so new) < seg_end cur" "seg_so cur \<le> seg_so new" "seg_end new \<le> seg_end cur"
    | (trim_new) "unat (seg_so new) < seg_end cur" "seg_so cur \<le> seg_so new" "seg_end cur < seg_end new"
    | (before) "unat (seg_so new) < seg_end cur" "seg_so new < seg_so cur" "seg_end new \<le> unat (seg_so cur)"
    | (trim_cur) "unat (seg_so new) < seg_end cur" "seg_so new < seg_so cur" "unat (seg_so cur) < seg_end new"
        "seg_end new < seg_end cur"
    | (covered) "unat (seg_so new) < seg_end cur" "seg_so new < seg_so cur" "unat (seg_so cur) < seg_end new"
        "seg_end cur \<le> seg_end new"
    by fastforce
  then show ?case
  proof cases
    case after
    then show ?thesis
      using Cons.IH [of "pre @ [cur]" new] Cons.prems by (auto simp: eq)
  next
    case inside
    then have "seg_cover new \<subseteq> seg_cover cur" by (auto simp: seg_cover_def word_le_nat_alt)
    then show ?thesis using inside Cons.prems by (auto simp: eq store_post_def)
  next
    case trim_new
    note f = seg_cut_facts [OF ok(2), of "seg_end cur"]
    have "seg_cover new \<union> seg_cover cur = seg_cover (seg_cut new (seg_end cur)) \<union> seg_cover cur"
      using trim_new f by (auto simp: seg_cover_def word_le_nat_alt)
    moreover have "\<forall>x \<in> set (pre @ [cur]). seg_end x \<le> unat (seg_so (seg_cut new (seg_end cur)))"
      using trim_new f Cons.prems lt by (fastforce simp: segs_ok_append)
    moreover have "segs_cover (pre @ cur # rest) \<union> seg_cover new
        = segs_cover ((pre @ [cur]) @ rest) \<union> seg_cover (seg_cut new (seg_end cur))"
      using calculation(1) by auto
    ultimately show ?thesis
      using Cons.IH [of "pre @ [cur]" "seg_cut new (seg_end cur)"] trim_new f Cons.prems
      by (simp add: eq)
  next
    case before
    have "\<forall>x \<in> set (pre @ cur # rest). seg_end x \<le> unat (seg_so new) \<or> seg_end new \<le> unat (seg_so x)"
      using before Cons.prems lt by (fastforce simp: segs_ok_append)
    then show ?thesis using before Cons.prems by (auto simp: eq store_post_def)
  next
    case trim_cur
    have so: "unat (seg_so cur) \<le> seg_end new" using trim_cur by simp
    note f = seg_cut_facts [OF ok(1) so trim_cur(4)]
    have r: "store_loop pre (cur # rest) new = (set_insert (seg_cut cur (seg_end new)) (pre @ rest), Some new)"
      using trim_cur by (auto simp: eq word_le_nat_alt word_less_nat_alt)
    have d: "\<forall>x \<in> set (pre @ rest). seg_end x \<le> seg_end new \<or> seg_end cur \<le> unat (seg_so x)"
      using Cons.prems lt by (fastforce simp: segs_ok_append)
    have prerest: "segs_ok (pre @ rest)" using Cons.prems by (auto simp: segs_ok_append)
    have ins: "segs_ok (set_insert (seg_cut cur (seg_end new)) (pre @ rest))"
      "segs_cover (set_insert (seg_cut cur (seg_end new)) (pre @ rest))
        = seg_cover (seg_cut cur (seg_end new)) \<union> segs_cover (pre @ rest)"
      using set_insert_disjoint [OF prerest f(1)] d f by auto
    have cov: "seg_cover (seg_cut cur (seg_end new)) \<union> seg_cover new = seg_cover cur \<union> seg_cover new"
      using trim_cur f by (auto simp: seg_cover_def word_less_nat_alt)
    have "seg_end x \<le> unat (seg_so new) \<or> seg_end new \<le> unat (seg_so x)"
      if "x \<in> set (set_insert (seg_cut cur (seg_end new)) (pre @ rest))" for x
      using that set_insert_set [of "seg_cut cur (seg_end new)" "pre @ rest"] f Cons.prems trim_cur
      by (fastforce simp: segs_ok_append)
    then show ?thesis
      unfolding r store_post_def using ins cov Cons.prems(3) by auto
  next
    case covered
    then have "seg_cover cur \<subseteq> seg_cover new" by (auto simp: seg_cover_def word_less_nat_alt)
    moreover have "store_loop pre (cur # rest) new = store_loop pre rest new"
      using covered by (auto simp: eq word_le_nat_alt word_less_nat_alt)
    moreover have "segs_ok (pre @ rest)" using Cons.prems by (auto simp: segs_ok_append)
    moreover have "segs_cover (pre @ cur # rest) \<union> seg_cover new = segs_cover (pre @ rest) \<union> seg_cover new"
      using calculation(1) by auto
    ultimately show ?thesis using Cons.IH [of pre new] Cons.prems by simp
  qed
qed

lemma store_loop_slices:
  assumes "segs_ok (pre @ rest)" "seg_ok new" "\<forall>x \<in> set (pre @ rest). seg_slice sdu x" "seg_slice sdu new"
    and "store_loop pre rest new = (segs', r)"
  shows "(\<forall>x \<in> set segs'. seg_slice sdu x) \<and> (case r of None \<Rightarrow> True | Some n \<Rightarrow> seg_slice sdu n)"
  using assms
proof (induction rest arbitrary: pre new)
  case (Cons cur rest)
  have ok: "seg_ok cur" "seg_ok new" using Cons.prems by (simp_all add: segs_ok_append)
  have pr: "segs_ok (pre @ rest)" "segs_ok ((pre @ [cur]) @ rest)" using Cons.prems by (auto simp: segs_ok_append)
  note lt = seg_so_less_end [OF ok(1)] seg_so_less_end [OF ok(2)]
  note r = Cons.prems(5) [unfolded store_loop_cut [OF ok]]
  let ?A = "seg_end cur \<le> unat (seg_so new)" and ?B = "seg_so cur \<le> seg_so new"
    and ?C = "seg_end new \<le> seg_end cur" and ?D = "seg_end new \<le> unat (seg_so cur)"
    and ?E = "seg_end new < seg_end cur"
  consider (app) ?A | (keep1) "\<not> ?A" ?B ?C | (trim_new) "\<not> ?A" ?B "\<not> ?C"
    | (keep2) "\<not> ?A" "\<not> ?B" ?D | (trim_cur) "\<not> ?A" "\<not> ?B" "\<not> ?D" ?E
    | (drop) "\<not> ?A" "\<not> ?B" "\<not> ?D" "\<not> ?E"
    by blast
  then show ?case
  proof cases
    case app
    then show ?thesis using r Cons.IH [of "pre @ [cur]" new] Cons.prems pr by simp
  next
    case keep1
    then show ?thesis using r Cons.prems by auto
  next
    case trim_new
    then show ?thesis
      using r Cons.IH [of "pre @ [cur]" "seg_cut new (seg_end cur)"] Cons.prems pr
        seg_cut_facts(1) [OF ok(2), of "seg_end cur"] seg_slice_cut [OF ok(2), of "seg_end cur" sdu] by simp
  next
    case keep2
    then show ?thesis using r Cons.prems by auto
  next
    case trim_cur
    then have "segs' = set_insert (seg_cut cur (seg_end new)) (pre @ rest)" "r = Some new" using r by simp_all
    moreover have "seg_slice sdu (seg_cut cur (seg_end new))"
      using seg_slice_cut [OF ok(1), of "seg_end new" sdu] trim_cur Cons.prems by simp
    ultimately show ?thesis
      using set_insert_set [of "seg_cut cur (seg_end new)" "pre @ rest"] Cons.prems(3,4) by auto
  next
    case drop
    then show ?thesis using r Cons.IH [of pre new] Cons.prems pr by simp
  qed
qed auto

lemma store_segment_ok:
  assumes "segs_ok segs" "seg_ok new"
  shows "segs_ok (snd (store_segment segs new))"
    "segs_cover (snd (store_segment segs new)) = segs_cover segs \<union> seg_cover new"
proof -
  obtain segs' r where l: "store_loop [] segs new = (segs', r)" by fastforce
  have post: "store_post (segs_cover segs \<union> seg_cover new) (segs', r)"
    using store_loop_correct [of "[]" segs new] assms l by simp
  show "segs_ok (snd (store_segment segs new))"
    "segs_cover (snd (store_segment segs new)) = segs_cover segs \<union> seg_cover new"
    using post set_insert_disjoint [of segs']
    by (auto simp: store_segment_def l store_post_def split: option.splits)
qed

lemma store_segment_slices:
  assumes "segs_ok segs" "seg_ok new" "\<forall>x \<in> set segs. seg_slice sdu x" "seg_slice sdu new"
  shows "\<forall>x \<in> set (snd (store_segment segs new)). seg_slice sdu x"
proof -
  obtain segs' r where l: "store_loop [] segs new = (segs', r)" by fastforce
  show ?thesis
    using store_loop_slices [of "[]" segs new sdu segs' r] assms l set_insert_set [of _ segs']
    by (fastforce simp: store_segment_def split: option.splits)
qed

section \<open>The inventory\<close>

lemma cover_split:
  fixes n e l :: nat
  assumes "c \<subseteq> {e ..}" "n \<le> e" "e \<le> l"
  shows "{n ..< e} \<union> c = {n ..< l} \<longleftrightarrow> c = {e ..< l}"
proof
  assume *: "{n ..< e} \<union> c = {n ..< l}"
  have "c = ({n ..< e} \<union> c) \<inter> {e ..}" using assms(1) by auto
  also have "\<dots> = {e ..< l}" unfolding * using assms(2) by auto
  finally show "c = {e ..< l}" .
next
  assume "c = {e ..< l}"
  then show "{n ..< e} \<union> c = {n ..< l}" using assms(2,3) by auto
qed

lemma inventory_full:
  assumes "segs_ok segs" "\<forall>s \<in> set segs. seg_slice sdu s \<and> n \<le> unat (seg_so s)" "n < length sdu"
  shows "(fst (inventory_loop n segs) \<longleftrightarrow> segs_cover segs = {n ..< length sdu}) \<and>
    (fst (inventory_loop n segs) \<longrightarrow> concat (map seg_payload segs) = drop n sdu)"
  using assms
proof (induction segs arbitrary: n)
  case Nil
  then show ?case by auto
next
  case (Cons s segs)
  have ok: "seg_ok s" and sl: "seg_slice sdu s" and n: "n \<le> unat (seg_so s)" using Cons.prems by auto
  note lt = seg_so_less_end [OF ok]
  have tl: "\<forall>x \<in> set segs. seg_slice sdu x \<and> seg_end s \<le> unat (seg_so x)" using Cons.prems by auto
  have cov: "segs_cover segs \<subseteq> {seg_end s ..< length sdu}"
    using tl by (fastforce simp: segs_cover_def seg_cover_def seg_slice_def)
  show ?case
  proof (cases "unat (seg_so s) = n")
    case False
    then have "n \<notin> segs_cover (s # segs)" using n lt cov by (auto simp: seg_cover_def)
    then show ?thesis using False Cons.prems(3) by auto
  next
    case so: True
    have pay: "drop n sdu = seg_payload s @ drop (seg_end s) sdu"
      using sl so unfolding seg_slice_def seg_end_def
      by (metis append_take_drop_id drop_drop add.commute)
    show ?thesis
    proof (cases "seg_si s = Last_Segment")
      case True
      then have e: "seg_end s = length sdu" using sl by (simp add: seg_slice_def)
      have "segs = []"
      proof (rule ccontr)
        assume "segs \<noteq> []"
        then obtain x where x: "x \<in> set segs" by (cases segs) auto
        then have "seg_ok x" using Cons.prems(1) by (auto simp: segs_ok_def)
        then show False using seg_so_less_end [of x] tl x e by (fastforce simp: seg_slice_def)
      qed
      then show ?thesis using so True e pay by (auto simp: seg_cover_def)
    next
      case False
      then have e: "seg_end s < length sdu" using sl by (auto simp: seg_slice_def)
      have nx: "n + length (seg_payload s) = seg_end s" using so by (simp add: seg_end_def)
      have "segs_cover segs \<subseteq> {seg_end s ..}" using cov by auto
      then have "segs_cover (s # segs) = {n ..< length sdu} \<longleftrightarrow> segs_cover segs = {seg_end s ..< length sdu}"
        using cover_split [of "segs_cover segs" "seg_end s" n "length sdu"] so lt e by (simp add: seg_cover_def)
      then show ?thesis
        using Cons.IH [of "seg_end s"] Cons.prems(1) tl e so False pay nx by simp
    qed
  qed
qed

lemma inventory_gap:
  assumes "segs_ok segs" "\<forall>s \<in> set segs. seg_slice sdu s \<and> n \<le> unat (seg_so s)" "n < length sdu" "segs \<noteq> []"
  shows "snd (inventory_loop n segs) \<longleftrightarrow> segs_cover segs \<noteq> {n ..< seg_end (last segs)}"
  using assms
proof (induction segs arbitrary: n)
  case (Cons s segs)
  have ok: "seg_ok s" and sl: "seg_slice sdu s" and n: "n \<le> unat (seg_so s)" using Cons.prems by auto
  note lt = seg_so_less_end [OF ok]
  have tl: "\<forall>x \<in> set segs. seg_slice sdu x \<and> seg_end s \<le> unat (seg_so x)" using Cons.prems by auto
  have cov: "segs_cover segs \<subseteq> {seg_end s ..}"
    using tl by (fastforce simp: segs_cover_def seg_cover_def)
  have le: "seg_end s \<le> seg_end (last (s # segs))"
  proof (cases "segs = []")
    case False
    then have l: "last segs \<in> set segs" by simp
    then have "seg_ok (last segs)" using Cons.prems(1) by (auto simp: segs_ok_def)
    then show ?thesis using seg_so_less_end [of "last segs"] tl l False by fastforce
  qed simp
  show ?case
  proof (cases "unat (seg_so s) = n")
    case False
    then have "n \<notin> segs_cover (s # segs)" using n lt cov by (auto simp: seg_cover_def)
    moreover have "n \<in> {n ..< seg_end (last (s # segs))}" using n lt le by simp
    ultimately have "segs_cover (s # segs) \<noteq> {n ..< seg_end (last (s # segs))}" by blast
    then show ?thesis using False by simp
  next
    case so: True
    show ?thesis
    proof (cases "segs = []")
      case True
      then show ?thesis using so by (auto simp: seg_cover_def)
    next
      case ne: False
      then have x: "hd segs \<in> set segs" by simp
      then have "seg_ok (hd segs)" using Cons.prems(1) by (auto simp: segs_ok_def)
      then have e: "seg_end s < length sdu"
        using seg_so_less_end [of "hd segs"] tl x by (fastforce simp: seg_slice_def)
      then have nl: "seg_si s \<noteq> Last_Segment" using sl by (auto simp: seg_slice_def)
      have nx: "n + length (seg_payload s) = seg_end s" using so by (simp add: seg_end_def)
      have le': "seg_end s \<le> seg_end (last segs)" using le ne by simp
      have "segs_cover (s # segs) = {n ..< seg_end (last segs)} \<longleftrightarrow>
          segs_cover segs = {seg_end s ..< seg_end (last segs)}"
        using cover_split [OF cov _ le', of n] so lt by (simp add: seg_cover_def)
      then show ?thesis
        using Cons.IH [of "seg_end s"] Cons.prems(1) tl e so nl nx ne by simp
    qed
  qed
qed simp

section \<open>The contract of reassembly\<close>

text \<open>
  What a receiver relies on: segments of one SDU may arrive in any order, overlap and repeat; the SDU is
  complete exactly when all of its bytes were offered, and then it is reassembled as it was sent.
\<close>

locale reassembly =
  fixes start :: 's
    and inv :: "byte_buffer \<Rightarrow> 's \<Rightarrow> bool"
    and cover :: "'s \<Rightarrow> nat set"
    and store :: "'s \<Rightarrow> rlc_rx_sdu_segment \<Rightarrow> bool \<times> 's"
    and full :: "'s \<Rightarrow> bool"
    and assemble :: "'s \<Rightarrow> byte_buffer"
  assumes start: "inv sdu start" "cover start = {}"
    and store_inv: "inv sdu s \<Longrightarrow> seg_ok x \<Longrightarrow> seg_slice sdu x \<Longrightarrow> inv sdu (snd (store s x))"
    and store_cover: "inv sdu s \<Longrightarrow> seg_ok x \<Longrightarrow> seg_slice sdu x \<Longrightarrow>
          cover (snd (store s x)) = cover s \<union> seg_cover x"
    and full_iff: "inv sdu s \<Longrightarrow> sdu \<noteq> [] \<Longrightarrow> full s \<longleftrightarrow> cover s = {0 ..< length sdu}"
    and assemble_full: "inv sdu s \<Longrightarrow> sdu \<noteq> [] \<Longrightarrow> full s \<Longrightarrow> assemble s = sdu"
begin

definition receive :: "rlc_rx_sdu_segment list \<Rightarrow> 's" where
  "receive xs = foldl (\<lambda>s x. snd (store s x)) start xs"

lemma receive_inv:
  "\<forall>x \<in> set xs. seg_ok x \<and> seg_slice sdu x \<Longrightarrow> inv sdu (receive xs) \<and> cover (receive xs) = segs_cover xs"
  by (induction xs rule: rev_induct) (auto simp: receive_def start store_inv store_cover)

lemma receive_full_iff:
  "\<forall>x \<in> set xs. seg_ok x \<and> seg_slice sdu x \<Longrightarrow> sdu \<noteq> [] \<Longrightarrow>
    full (receive xs) \<longleftrightarrow> segs_cover xs = {0 ..< length sdu}"
  using receive_inv [of xs sdu] full_iff [of sdu "receive xs"] by simp

lemma receive_assemble:
  "\<forall>x \<in> set xs. seg_ok x \<and> seg_slice sdu x \<Longrightarrow> sdu \<noteq> [] \<Longrightarrow> segs_cover xs = {0 ..< length sdu} \<Longrightarrow>
    assemble (receive xs) = sdu"
  using receive_inv [of xs sdu] receive_full_iff [of xs sdu] assemble_full [of sdu "receive xs"] by simp

end

definition segs_inv :: "byte_buffer \<Rightarrow> rlc_rx_sdu_segment list \<Rightarrow> bool" where
  "segs_inv sdu segs \<longleftrightarrow> segs_ok segs \<and> (\<forall>s \<in> set segs. seg_slice sdu s)"

lemma inventory_correct:
  assumes "segs_inv sdu segs" "sdu \<noteq> []"
  shows "fst (update_segment_inventory segs) \<longleftrightarrow> segs_cover segs = {0 ..< length sdu}"
    "fst (update_segment_inventory segs) \<Longrightarrow> reassemble_segments segs = sdu"
    "snd (update_segment_inventory segs) \<longleftrightarrow> segs \<noteq> [] \<and> segs_cover segs \<noteq> {0 ..< seg_end (last segs)}"
proof -
  have ok: "segs_ok segs" "\<forall>s \<in> set segs. seg_slice sdu s \<and> 0 \<le> unat (seg_so s)" "0 < length sdu"
    using assms by (auto simp: segs_inv_def)
  note f = inventory_full [OF ok] and g = inventory_gap [OF ok]
  have ne: "segs_cover [] \<noteq> {0 ..< length sdu}" using ok(3) by auto
  show "fst (update_segment_inventory segs) \<longleftrightarrow> segs_cover segs = {0 ..< length sdu}"
    using f ne by (cases "segs = []") (simp_all add: update_segment_inventory_def)
  show "fst (update_segment_inventory segs) \<Longrightarrow> reassemble_segments segs = sdu"
    using f by (cases "segs = []") (simp_all add: update_segment_inventory_def reassemble_segments_def)
  show "snd (update_segment_inventory segs) \<longleftrightarrow> segs \<noteq> [] \<and> segs_cover segs \<noteq> {0 ..< seg_end (last segs)}"
    using g by (cases "segs = []") (simp_all add: update_segment_inventory_def)
qed

interpretation segs: reassembly "[]" segs_inv segs_cover store_segment
  "\<lambda>segs. fst (update_segment_inventory segs)" reassemble_segments
proof (unfold_locales, goal_cases)
  case (1 sdu) show ?case by (simp add: segs_inv_def)
next
  case 2 show ?case by simp
next
  case (3 sdu s x) then show ?case
    using store_segment_ok(1) [of s x] store_segment_slices [of s x sdu] by (simp add: segs_inv_def)
next
  case (4 sdu s x) then show ?case by (simp add: segs_inv_def store_segment_ok(2))
next
  case (5 sdu s) then show ?case by (rule inventory_correct(1))
next
  case (6 sdu s) then show ?case by (rule inventory_correct(2))
qed

text \<open>
  C12. Segments of one SDU that arrive in any order, overlapping and repeated: the SDU is marked as fully
  received exactly when every byte was offered, and then its reassembly is the SDU that was segmented.
\<close>

theorem reassembly_correct:
  assumes "\<forall>x \<in> set xs. seg_ok x \<and> seg_slice sdu x" and "sdu \<noteq> []"
  defines "segs \<equiv> foldl (\<lambda>s x. snd (store_segment s x)) [] xs"
  shows "(fst (update_segment_inventory segs) \<longleftrightarrow> segs_cover xs = {0 ..< length sdu}) \<and>
    (segs_cover xs = {0 ..< length sdu} \<longrightarrow> reassemble_segments segs = sdu)"
  using segs.receive_full_iff [OF assms(1,2)] segs.receive_assemble [OF assms(1,2)]
  by (simp add: segs_def segs.receive_def)

theorem reassembly_correct_witness:
  "reassemble_segments
     (foldl (\<lambda>s x. snd (store_segment s x)) []
        [\<lparr>seg_si = Last_Segment, seg_so = 2, seg_payload = [12, 13, 14]\<rparr>,
         \<lparr>seg_si = Middle_Segment, seg_so = 1, seg_payload = [11, 12]\<rparr>,
         \<lparr>seg_si = First_Segment, seg_so = 0, seg_payload = [10, 11]\<rparr>]) = [10, 11, 12, 13, 14]"
proof -
  have "{2::nat ..< 5} \<union> ({Suc 0 ..< Suc (Suc (Suc 0))} \<union> {0 ..< Suc (Suc 0)})
      = {0 ..< Suc (Suc (Suc (Suc (Suc 0))))}" by auto
  then show ?thesis
    using reassembly_correct
      [of "[\<lparr>seg_si = Last_Segment, seg_so = 2, seg_payload = [12, 13, 14]\<rparr>,
            \<lparr>seg_si = Middle_Segment, seg_so = 1, seg_payload = [11, 12]\<rparr>,
            \<lparr>seg_si = First_Segment, seg_so = 0, seg_payload = [10, 11]\<rparr>]" "[10, 11, 12, 13, 14]"]
    by (simp add: seg_ok_def seg_slice_def seg_end_def seg_cover_def)
qed

text \<open>
  Storing a segment keeps the buffered segments sorted and disjoint and adds exactly its bytes; the
  gap flag is set exactly if a byte before the last buffered one is missing.
\<close>

theorem store_segment_correct:
  assumes "segs_inv sdu segs" "seg_ok new" "seg_slice sdu new" "sdu \<noteq> []"
  shows "segs_inv sdu (snd (store_segment segs new)) \<and>
    segs_cover (snd (store_segment segs new)) = segs_cover segs \<union> seg_cover new \<and>
    (snd (update_segment_inventory segs) \<longleftrightarrow>
       segs \<noteq> [] \<and> segs_cover segs \<noteq> {0 ..< seg_end (last segs)})"
  using assms segs.store_inv segs.store_cover inventory_correct(3) by blast

theorem store_segment_correct_witness:
  "segs_cover (snd (store_segment [] \<lparr>seg_si = Last_Segment, seg_so = 2, seg_payload = [12, 13]\<rparr>)) = {2 ..< 4}"
  using store_segment_correct
    [of "[10, 11, 12, 13]" "[]" "\<lparr>seg_si = Last_Segment, seg_so = 2, seg_payload = [12, 13]\<rparr>"]
  by (simp add: segs_inv_def seg_ok_def seg_slice_def seg_end_def seg_cover_def)

end
