(* ===== verification/Rlc_Rx_Um.thy ===== *)
theory Rlc_Rx_Um
  imports Rlc_Um_Pdu Rlc_Segments
begin

text \<open>
  The receiving UM entity (lib/rlc/rlc_rx_um_entity.h, rlc_rx_um_entity.cpp): window of incomplete SDUs,
  the state variables RX\_Next\_Reassembly, RX\_Timer\_Trigger and RX\_Next\_Highest, t-Reassembly.

  \<open>handle_pdu_um\<close> and \<open>on_expired_reassembly_timer_um\<close> return the new state and the actions in their
  order, or a fault. The loops over sequence numbers are bounded by the number of sequence numbers.
  \<open>alloc\<close> says whether the allocations of a byte buffer chain in the call succeed, \<open>now\<close> is the reading
  of the clock; logging, tracing and latency measurements are left out. Where the code calls \<open>has_sn\<close>
  and then \<open>operator[]\<close> of the window, the model uses \<open>cm_lookup\<close>.

  Shown: no handler faults if t-Reassembly is configured, over any history of PDUs and expiries; the
  state variables and the keys of the window keep their order if the peer sends what the transmitter
  writes; t-Reassembly runs whenever more than one SDU is outstanding; and the divergences recorded in
  the manifest.
\<close>

unbundle bit_operations_syntax

record rlc_rx_um_sdu_info =
  fully_received :: bool
  has_gap :: bool
  segments :: "rlc_rx_sdu_segment list"
  time_of_arrival :: nat

record rlc_rx_um_state =
  rx_next_reassembly :: u32
  rx_timer_trigger :: u32
  rx_next_highest :: u32

record rlc_rx_um_entity = rlc_rx_um_state +
  rum_cfg :: rlc_rx_um_config
  rum_mod :: u32
  um_window_size :: u32
  rum_window :: "rlc_rx_um_sdu_info sdu_window"
  rum_reassembly_timer :: unique_timer

definition new_rx_um :: "rlc_rx_um_config \<Rightarrow> rlc_rx_um_entity" where
  "new_rx_um cfg =
     (let sn_size = to_number_um_sn (rxum_sn_field_length cfg) in
      \<lparr>rx_next_reassembly = 0, rx_timer_trigger = 0, rx_next_highest = 0,
       rum_cfg = cfg, rum_mod = cardinality sn_size, um_window_size = window_size sn_size,
       rum_window = new_circular_map (unat (window_size sn_size)),
       rum_reassembly_timer = new_timer (rxum_t_reassembly cfg)\<rparr>)"

definition rx_mod_base_um :: "rlc_rx_um_entity \<Rightarrow> u32 \<Rightarrow> u32" where
  "rx_mod_base_um s x = (x - rx_next_highest s - um_window_size s) mod rum_mod s"

definition sn_in_reassembly_window_um :: "rlc_rx_um_entity \<Rightarrow> u32 \<Rightarrow> bool" where
  "sn_in_reassembly_window_um s sn \<longleftrightarrow>
     rx_mod_base_um s (rx_next_highest s - um_window_size s) \<le> rx_mod_base_um s sn \<and>
     rx_mod_base_um s sn < rx_mod_base_um s (rx_next_highest s)"

definition sn_invalid_for_rx_buffer_um :: "rlc_rx_um_entity \<Rightarrow> u32 \<Rightarrow> bool" where
  "sn_invalid_for_rx_buffer_um s sn \<longleftrightarrow>
     rx_mod_base_um s (rx_next_highest s - um_window_size s) \<le> rx_mod_base_um s sn \<and>
     rx_mod_base_um s sn < rx_mod_base_um s (rx_next_reassembly s)"

definition handle_segment_data_sdu_um ::
  "nat \<Rightarrow> rlc_um_pdu_header \<Rightarrow> byte_buffer \<Rightarrow> rlc_rx_um_entity \<Rightarrow> (bool \<times> rlc_rx_um_entity) res" where
  "handle_segment_data_sdu_um now header payload s =
     (if um_si header = Full_Sdu then Inr (False, s)
      else
        (let sn = ucast (um_sn header) :: u32;
             segment = \<lparr>seg_si = um_si header, seg_so = um_so header, seg_payload = payload\<rparr>;
             store = (\<lambda>rx_sdu. let (stored, segs) = store_segment (segments rx_sdu) segment;
                                   (full, gap) = update_segment_inventory segs
                               in (stored, rx_sdu\<lparr>segments := segs, fully_received := full, has_gap := gap\<rparr>))
         in case cm_lookup (rum_window s) sn of
              Some rx_sdu \<Rightarrow>
                (let (stored, rx_sdu) = store rx_sdu
                 in Inr (stored, s\<lparr>rum_window := assign_cm (rum_window s) sn rx_sdu\<rparr>))
            | None \<Rightarrow>
                (let (stored, rx_sdu) =
                       store \<lparr>fully_received = False, has_gap = False, segments = [], time_of_arrival = now\<rparr>
                 in bind_res (add_sn (rum_window s) sn rx_sdu)
                      (\<lambda>w. Inr (stored, s\<lparr>rum_window := w\<rparr>)))))"

text \<open>The reassembled SDU, or no value if it is not complete or the buffer cannot be allocated.\<close>

definition reassemble_sdu_um :: "bool \<Rightarrow> rlc_rx_um_sdu_info \<Rightarrow> byte_buffer option" where
  "reassemble_sdu_um alloc sdu_info =
     (if \<not> fully_received sdu_info then None
      else if \<not> alloc then None
      else Some (reassemble_segments (segments sdu_info)))"

text \<open>
  The loop that moves over fully received SDUs from \<open>sn_upd\<close> towards RX\_Next\_Highest and removes them from
  the window (it occurs twice in \<open>handle_pdu\<close>).
\<close>

fun advance_um :: "nat \<Rightarrow> u32 \<Rightarrow> rlc_rx_um_entity \<Rightarrow> (u32 \<times> rlc_rx_um_entity) res" where
  "advance_um 0 sn_upd s = Inl Loop_Bound_Exceeded"
| "advance_um (Suc fuel) sn_upd s =
     (if rx_mod_base_um s sn_upd < rx_mod_base_um s (rx_next_highest s) then
        (case cm_lookup (rum_window s) sn_upd of
           None \<Rightarrow> Inr (sn_upd, s)
         | Some info \<Rightarrow>
             if \<not> fully_received info then Inr (sn_upd, s)
             else bind_res (remove_sn (rum_window s) sn_upd)
                    (\<lambda>w. advance_um fuel ((sn_upd + 1) mod rum_mod s) (s\<lparr>rum_window := w\<rparr>)))
      else Inr (sn_upd, s))"

text \<open>Dropping one SN: incomplete and missing SDUs count as lost.\<close>

definition discard_sn_um :: "u32 \<Rightarrow> rlc_rx_um_entity \<Rightarrow> (rlc_rx_um_entity \<times> rlc_rx_action list) res" where
  "discard_sn_um sn_upd s =
     (case cm_lookup (rum_window s) sn_upd of
        None \<Rightarrow> Inr (s, [Metrics_Add_Lost_Pdus 1])
      | Some info \<Rightarrow>
          bind_res (remove_sn (rum_window s) sn_upd)
            (\<lambda>w. Inr (s\<lparr>rum_window := w\<rparr>, if \<not> fully_received info then [Metrics_Add_Lost_Pdus 1] else [])))"

text \<open>The loop that cleans everything outside of the reassembly window.\<close>

fun clean_um :: "nat \<Rightarrow> u32 \<Rightarrow> rlc_rx_um_entity \<Rightarrow> (u32 \<times> rlc_rx_um_entity \<times> rlc_rx_action list) res" where
  "clean_um 0 sn_upd s = Inl Loop_Bound_Exceeded"
| "clean_um (Suc fuel) sn_upd s =
     (if sn_in_reassembly_window_um s sn_upd then Inr (sn_upd, s, [])
      else bind_res (discard_sn_um sn_upd s)
             (\<lambda>(s', as). bind_res (clean_um fuel ((sn_upd + 1) mod rum_mod s) s')
                (\<lambda>(sn', s'', as'). Inr (sn', s'', as @ as'))))"

definition loop_bound_um :: "rlc_rx_um_entity \<Rightarrow> nat" where
  "loop_bound_um s = Suc (unat (rum_mod s))"

text \<open>The branch for an SN outside of the reassembly window.\<close>

definition move_highest_um ::
  "u32 \<Rightarrow> rlc_rx_um_entity \<Rightarrow> (rlc_rx_um_entity \<times> rlc_rx_action list) res" where
  "move_highest_um sn s =
     (let s = s\<lparr>rx_next_highest := (sn + 1) mod rum_mod s\<rparr> in
      bind_res (clean_um (loop_bound_um s) (rx_next_reassembly s mod rum_mod s) s)
        (\<lambda>(sn_upd, s, as). bind_res (advance_um (loop_bound_um s) sn_upd s)
           (\<lambda>(sn_upd, s). Inr (s\<lparr>rx_next_reassembly := sn_upd\<rparr>, as))))"

text \<open>The branch for an SDU of which all segments are there.\<close>

definition complete_sdu_um ::
  "bool \<Rightarrow> u32 \<Rightarrow> rlc_rx_um_sdu_info \<Rightarrow> rlc_rx_um_entity \<Rightarrow> (rlc_rx_um_entity \<times> rlc_rx_action list) res" where
  "complete_sdu_um alloc sn sdu_info s =
     (let as = (case reassemble_sdu_um alloc sdu_info of
                  None \<Rightarrow> [Metrics_Add_Lost_Pdus 1]
                | Some sdu \<Rightarrow> [Metrics_Add_Sdus 1 (length sdu), On_New_Sdu sdu]);
          s = s\<lparr>rum_window := assign_cm (rum_window s) sn (sdu_info\<lparr>segments := []\<rparr>)\<rparr>
      in if sn = rx_next_reassembly s then
           bind_res (advance_um (loop_bound_um s) (rx_next_reassembly s mod rum_mod s) s)
             (\<lambda>(sn_upd, s). Inr (s\<lparr>rx_next_reassembly := sn_upd\<rparr>, as))
         else Inr (s, as))"

text \<open>Actions when a PDU is placed in the reception buffer, up to the update of t-Reassembly.\<close>

definition place_um ::
  "bool \<Rightarrow> u32 \<Rightarrow> rlc_rx_um_entity \<Rightarrow> (rlc_rx_um_entity \<times> rlc_rx_action list) res" where
  "place_um alloc sn s =
     (let outside = (if \<not> sn_in_reassembly_window_um s sn then move_highest_um sn s else Inr (s, []))
      in case cm_lookup (rum_window s) sn of
           Some sdu_info \<Rightarrow> if fully_received sdu_info then complete_sdu_um alloc sn sdu_info s else outside
         | None \<Rightarrow> outside)"

definition has_gap_at_um :: "rlc_rx_um_entity \<Rightarrow> u32 \<Rightarrow> bool \<Rightarrow> bool" where
  "has_gap_at_um s sn gap \<longleftrightarrow>
     (case cm_lookup (rum_window s) sn of None \<Rightarrow> False | Some info \<Rightarrow> has_gap info = gap)"

definition stop_timer_um :: "rlc_rx_um_entity \<Rightarrow> rlc_rx_um_entity" where
  "stop_timer_um s =
     (if is_running (rum_reassembly_timer s) then
        (let stop = rx_timer_trigger s \<le> rx_next_reassembly s \<or>
               (\<not> sn_in_reassembly_window_um s (rx_timer_trigger s) \<and>
                rx_timer_trigger s \<noteq> rx_next_highest s) \<or>
               (rx_next_highest s = rx_next_reassembly s + 1 \<and>
                has_gap_at_um s (rx_next_highest s) False)
         in if stop then s\<lparr>rum_reassembly_timer := timer_stop (rum_reassembly_timer s)\<rparr> else s)
      else s)"

text \<open>The condition and the actions for starting t-Reassembly, the same in both handlers.\<close>

definition restart_timer_um :: "rlc_rx_um_entity \<Rightarrow> rlc_rx_um_entity res" where
  "restart_timer_um s =
     (let restart =
        rx_mod_base_um s (rx_next_highest s) > rx_mod_base_um s (rx_next_reassembly s + 1) \<or>
        (rx_mod_base_um s (rx_next_highest s) = rx_mod_base_um s (rx_next_reassembly s + 1) \<and>
         has_gap_at_um s (rx_next_highest s) True)
      in if restart then
           bind_res (timer_run (rum_reassembly_timer s))
             (\<lambda>t. Inr (s\<lparr>rum_reassembly_timer := t, rx_timer_trigger := rx_next_highest s\<rparr>))
         else Inr s)"

definition update_timer_um :: "rlc_rx_um_entity \<Rightarrow> rlc_rx_um_entity res" where
  "update_timer_um s =
     (let s = stop_timer_um s in
      if \<not> is_running (rum_reassembly_timer s) then restart_timer_um s else Inr s)"

definition handle_pdu_um ::
  "bool \<Rightarrow> nat \<Rightarrow> byte_buffer \<Rightarrow> rlc_rx_um_entity \<Rightarrow> (rlc_rx_um_entity \<times> rlc_rx_action list) res" where
  "handle_pdu_um alloc now buf s =
     (let as = [Metrics_Add_Pdus 1 (length buf)] in
      case rlc_um_read_data_pdu_header buf (rxum_sn_field_length (rum_cfg s)) empty_um_header of
        None \<Rightarrow> Inr (s, as @ [Metrics_Add_Malformed_Pdus 1])
      | Some header \<Rightarrow>
          (let header_len = rlc_um_nr_packed_length header in
           if length buf \<le> header_len then Inr (s, as)
           else
             (let payload = drop header_len buf; sn = ucast (um_sn header) :: u32 in
              if um_si header = Full_Sdu then
                (if \<not> alloc then Inr (s, as @ [Metrics_Add_Lost_Pdus 1])
                 else Inr (s, as @ [Metrics_Add_Sdus 1 (length payload), On_New_Sdu payload]))
              else if sn_invalid_for_rx_buffer_um s sn then Inr (s, as)
              else
                bind_res (handle_segment_data_sdu_um now header payload s)
                  (\<lambda>(_, s). bind_res (place_um alloc sn s)
                     (\<lambda>(s, as'). bind_res (update_timer_um s)
                        (\<lambda>s. Inr (s, as @ as')))))))"

text \<open>The loop of the expiry handler.\<close>

fun expire_um :: "nat \<Rightarrow> u32 \<Rightarrow> rlc_rx_um_entity \<Rightarrow> (u32 \<times> rlc_rx_um_entity \<times> rlc_rx_action list) res" where
  "expire_um 0 sn_upd s = Inl Loop_Bound_Exceeded"
| "expire_um (Suc fuel) sn_upd s =
     (if rx_mod_base_um s sn_upd < rx_mod_base_um s (rx_next_highest s) then
        (let next = (\<lambda>(s', as). bind_res (expire_um fuel ((sn_upd + 1) mod rum_mod s) s')
                       (\<lambda>(sn', s'', as'). Inr (sn', s'', as @ as')))
         in if rx_mod_base_um s sn_upd < rx_mod_base_um s (rx_timer_trigger s) then
              bind_res (discard_sn_um sn_upd s) next
            else
              (case cm_lookup (rum_window s) sn_upd of
                 None \<Rightarrow> Inr (sn_upd, s, [])
               | Some info \<Rightarrow>
                   if \<not> fully_received info then Inr (sn_upd, s, [])
                   else bind_res (remove_sn (rum_window s) sn_upd) (\<lambda>w. next (s\<lparr>rum_window := w\<rparr>, []))))
      else Inr (sn_upd, s, []))"

definition on_expired_reassembly_timer_um ::
  "rlc_rx_um_entity \<Rightarrow> (rlc_rx_um_entity \<times> rlc_rx_action list) res" where
  "on_expired_reassembly_timer_um s =
     bind_res (expire_um (loop_bound_um s) (rx_next_reassembly s) s)
       (\<lambda>(sn_upd, s, as). bind_res (restart_timer_um (s\<lparr>rx_next_reassembly := sn_upd\<rparr>))
          (\<lambda>s. Inr (s, as)))"

definition stop_um :: "rlc_rx_um_entity \<Rightarrow> rlc_rx_um_entity" where
  "stop_um s = s\<lparr>rum_reassembly_timer := timer_stop (rum_reassembly_timer s)\<rparr>"

section \<open>Positions in the window\<close>

text \<open>
  \<open>um_pos s x\<close> is \<open>rx_mod_base(x)\<close> as a number: the distance of \<open>x\<close> from the lower edge of the
  reassembly window, RX\_Next\_Highest minus the window size. RX\_Next\_Highest is at the window size \<open>um_w\<close>.
\<close>

definition um_pos :: "rlc_rx_um_entity \<Rightarrow> u32 \<Rightarrow> nat" where
  "um_pos s x = unat (rx_mod_base_um s x)"

definition um_w :: "rlc_rx_um_entity \<Rightarrow> nat" where
  "um_w s = unat (um_window_size s)"

definition um_wf :: "rlc_rx_um_entity \<Rightarrow> bool" where
  "um_wf s \<longleftrightarrow>
     (let k = to_number_um_sn (rxum_sn_field_length (rum_cfg s)) in
      rum_mod s = cardinality k \<and> um_window_size s = window_size k \<and>
      cm_wf (rum_window s) \<and> cm_max_size (rum_window s) = um_w s \<and>
      rx_next_highest s < rum_mod s \<and> rx_next_reassembly s < rum_mod s \<and> rx_timer_trigger s < rum_mod s)"

lemma um_wf_less:
  "um_wf s \<Longrightarrow> rx_next_highest s < rum_mod s" "um_wf s \<Longrightarrow> rx_next_reassembly s < rum_mod s"
  "um_wf s \<Longrightarrow> rx_timer_trigger s < rum_mod s"
  by (auto simp: um_wf_def Let_def)

lemma um_wf_sizes:
  assumes "um_wf s"
  shows "unat (rum_mod s) = 2 * um_w s" "0 < um_w s" "1 < um_w s"
  using assms by (auto simp: um_wf_def Let_def um_w_def cardinality_um window_size_um split: rlc_um_sn_size.splits)

lemma um_pos_dist:
  assumes "um_wf s"
  shows "um_pos s x = um_ring.dist (rxum_sn_field_length (rum_cfg s)) (rx_next_highest s + um_window_size s) x"
  using assms by (simp add: um_pos_def rx_mod_base_um_def um_ring.dist_def sn_dist_def um_wf_def Let_def diff_diff_eq)

lemma um_ring_N:
  assumes "um_wf s"
  shows "um_ring.N (rxum_sn_field_length (rum_cfg s)) = 2 * um_w s"
  using um_wf_sizes(1) [OF assms] assms
  by (simp add: um_wf_def Let_def um_ring.unat_m)

lemma um_pos_less: "um_wf s \<Longrightarrow> um_pos s x < 2 * um_w s"
  using um_ring.dist_less by (simp add: um_pos_dist flip: um_ring_N)

lemma um_pos_inj: "um_wf s \<Longrightarrow> x < rum_mod s \<Longrightarrow> y < rum_mod s \<Longrightarrow> um_pos s x = um_pos s y \<Longrightarrow> x = y"
  by (simp add: um_pos_dist) (rule um_ring.dist_inj, auto simp: um_wf_def Let_def)

lemma um_mod_less: "um_wf s \<Longrightarrow> x mod rum_mod s < rum_mod s"
  using um_ring.mod_m_less by (simp add: um_wf_def Let_def)

lemma um_mod_ident: "um_wf s \<Longrightarrow> x < rum_mod s \<Longrightarrow> x mod rum_mod s = x"
  using um_ring.mod_m_ident by (simp add: um_wf_def Let_def)

lemma um_pos_mod:
  assumes "um_wf s"
  shows "um_pos s (x mod rum_mod s) = um_pos s x"
  using um_ring.dist_mod [of "rxum_sn_field_length (rum_cfg s)" "rx_next_highest s + um_window_size s" x] assms
  by (simp add: um_pos_dist) (simp add: um_wf_def Let_def)

lemma um_pos_succ:
  assumes "um_wf s"
  shows "um_pos s ((x + 1) mod rum_mod s) = (um_pos s x + 1) mod (2 * um_w s)"
  using um_ring.dist_succ [of "rxum_sn_field_length (rum_cfg s)" "rx_next_highest s + um_window_size s" x] assms
  by (simp add: um_pos_dist flip: um_ring_N) (simp add: um_wf_def Let_def)

lemma um_pos_highest:
  assumes wf: "um_wf s"
  shows "um_pos s (rx_next_highest s) = um_w s"
proof -
  let ?z = "rxum_sn_field_length (rum_cfg s)" and ?h = "rx_next_highest s" and ?w = "um_window_size s"
  have "um_ring.dist ?z ?h (?h + ?w) = um_w s"
    using um_ring.dist_add [of ?z ?h ?h ?w] um_wf_sizes [OF wf] by (simp add: um_ring_N [OF wf] um_w_def)
  then show ?thesis
    using um_ring.dist_rebase [of ?z "?h + ?w" ?h ?h] um_wf_sizes [OF wf]
    by (simp add: um_pos_dist [OF wf] um_ring_N [OF wf])
qed

lemma um_pos_low:
  assumes wf: "um_wf s"
  shows "um_pos s (rx_next_highest s - um_window_size s) = 0"
proof -
  let ?z = "rxum_sn_field_length (rum_cfg s)" and ?h = "rx_next_highest s" and ?w = "um_window_size s"
  have "um_ring.dist ?z (?h + ?w) ((?h - ?w) + (?w + ?w)) = 0"
    using um_ring.dist_self [of ?z "?h + ?w"] by (simp add: add.commute)
  moreover have "um_ring.dist ?z (?h + ?w) ((?h - ?w) + (?w + ?w))
      = (um_ring.dist ?z (?h + ?w) (?h - ?w) + unat (?w + ?w)) mod (2 * um_w s)"
    by (simp only: um_ring.dist_add um_ring_N [OF wf])
  moreover have "unat (?w + ?w) = 2 * um_w s"
    using wf by (auto simp: um_wf_def Let_def um_w_def window_size_um split: rlc_um_sn_size.splits)
  ultimately show ?thesis
    using um_pos_less [OF wf, of "?h - ?w"] by (simp add: um_pos_dist [OF wf])
qed

lemma um_in_window: "um_wf s \<Longrightarrow> sn_in_reassembly_window_um s x \<longleftrightarrow> um_pos s x < um_w s"
  using um_pos_highest [of s] um_pos_low [of s]
  by (simp add: sn_in_reassembly_window_um_def word_le_nat_alt word_less_nat_alt flip: um_pos_def)

lemma um_invalid: "um_wf s \<Longrightarrow> sn_invalid_for_rx_buffer_um s x \<longleftrightarrow> um_pos s x < um_pos s (rx_next_reassembly s)"
  using um_pos_low [of s]
  by (simp add: sn_invalid_for_rx_buffer_um_def word_le_nat_alt word_less_nat_alt flip: um_pos_def)

lemma um_below_highest: "um_wf s \<Longrightarrow>
    rx_mod_base_um s x < rx_mod_base_um s (rx_next_highest s) \<longleftrightarrow> um_pos s x < um_w s"
  using um_pos_highest [of s] by (simp add: word_less_nat_alt flip: um_pos_def)

lemma um_frame [simp]:
  "um_pos (s\<lparr>rum_window := w\<rparr>) = um_pos s" "um_pos (s\<lparr>rx_next_reassembly := r\<rparr>) = um_pos s"
  "um_pos (s\<lparr>rx_timer_trigger := r\<rparr>) = um_pos s" "um_pos (s\<lparr>rum_reassembly_timer := t\<rparr>) = um_pos s"
  "um_w (s\<lparr>rum_window := w\<rparr>) = um_w s" "um_w (s\<lparr>rx_next_reassembly := r\<rparr>) = um_w s"
  "um_w (s\<lparr>rx_timer_trigger := r\<rparr>) = um_w s" "um_w (s\<lparr>rum_reassembly_timer := t\<rparr>) = um_w s"
  "um_w (s\<lparr>rx_next_highest := r\<rparr>) = um_w s"
  by (simp_all add: um_pos_def um_w_def rx_mod_base_um_def fun_eq_iff)

lemma um_wf_window:
  "um_wf s \<Longrightarrow> cm_wf w \<Longrightarrow> cm_max_size w = cm_max_size (rum_window s) \<Longrightarrow> um_wf (s\<lparr>rum_window := w\<rparr>)"
  by (auto simp: um_wf_def Let_def)

lemma um_wf_upd:
  "um_wf s \<Longrightarrow> r < rum_mod s \<Longrightarrow> um_wf (s\<lparr>rx_next_reassembly := r\<rparr>)"
  "um_wf s \<Longrightarrow> r < rum_mod s \<Longrightarrow> um_wf (s\<lparr>rx_timer_trigger := r\<rparr>)"
  "um_wf s \<Longrightarrow> r < rum_mod s \<Longrightarrow> um_wf (s\<lparr>rx_next_highest := r\<rparr>)"
  "um_wf (s\<lparr>rum_reassembly_timer := t\<rparr>) = um_wf s"
  by (auto simp: um_wf_def Let_def)

lemma um_wf_new: "um_wf (new_rx_um cfg)"
proof -
  have "\<exists>j. unat (window_size (to_number_um_sn z)) = 2 ^ j" for z
    using window_size_um [of z] by (cases z) (auto intro: exI [of _ 5] exI [of _ 11])
  then have "cm_wf (new_circular_map (unat (window_size (to_number_um_sn z))))" for z
    using cm_wf_new by metis
  then show ?thesis
    using um_ring.m_pos by (simp add: um_wf_def new_rx_um_def Let_def um_w_def)
qed

section \<open>The loops\<close>

text \<open>A window from which the SNs at positions \<open>lo\<close> up to \<open>hi\<close> were removed.\<close>

definition um_cleared :: "rlc_rx_um_entity \<Rightarrow> nat \<Rightarrow> nat \<Rightarrow> rlc_rx_um_sdu_info sdu_window \<Rightarrow> bool" where
  "um_cleared s lo hi w \<longleftrightarrow>
     cm_wf w \<and> cm_max_size w = cm_max_size (rum_window s) \<and>
     cm_lookup w = (\<lambda>x. if x < rum_mod s \<and> lo \<le> um_pos s x \<and> um_pos s x < hi then None
                        else cm_lookup (rum_window s) x)"

lemma um_cleared_refl: "um_wf s \<Longrightarrow> hi \<le> lo \<Longrightarrow> um_cleared s lo hi (rum_window s)"
  by (auto simp: um_cleared_def um_wf_def Let_def fun_eq_iff)

lemma um_cleared_absent:
  assumes "um_wf s" "x < rum_mod s" "cm_lookup (rum_window s) x = None"
  shows "um_cleared s (um_pos s x) (Suc (um_pos s x)) (rum_window s)"
proof -
  have "y = x" if "y < rum_mod s" "um_pos s x \<le> um_pos s y" "um_pos s y < Suc (um_pos s x)" for y
    using um_pos_inj [OF assms(1)] that assms(2) by simp
  then have "cm_lookup (rum_window s) = (\<lambda>y. if y < rum_mod s \<and> um_pos s x \<le> um_pos s y \<and>
      um_pos s y < Suc (um_pos s x) then None else cm_lookup (rum_window s) y)"
    using assms(3) by (auto simp: fun_eq_iff)
  then show ?thesis using assms(1) by (auto simp: um_cleared_def um_wf_def Let_def)
qed

lemma um_cleared_remove:
  assumes "um_wf s" "x < rum_mod s" "remove_sn (rum_window s) x = Inr w"
  shows "um_cleared s (um_pos s x) (Suc (um_pos s x)) w"
proof -
  have l: "cm_lookup (rum_window s) x \<noteq> None"
    using win.rem_none [of "rum_window s" x] assms(3) by force
  have w: "w = snd (erase (rum_window s) x)" using remove_sn_old [OF l] assms(3) by simp
  have wf: "cm_wf (rum_window s)" using assms(1) by (simp add: um_wf_def Let_def)
  have "y = x" if "y < rum_mod s" "um_pos s x \<le> um_pos s y" "um_pos s y < Suc (um_pos s x)" for y
    using um_pos_inj [OF assms(1)] that assms(2) by simp
  then show ?thesis
    unfolding um_cleared_def w cm_lookup_erase [OF wf] using assms(2) cm_wf_erase [OF wf] by (auto simp: fun_eq_iff)
qed

lemma um_cleared_trans:
  assumes "um_cleared s lo mid w1" "um_cleared (s\<lparr>rum_window := w1\<rparr>) mid hi w2" "lo \<le> mid" "mid \<le> hi"
  shows "um_cleared s lo hi w2"
  using assms by (auto simp: um_cleared_def fun_eq_iff)

lemma um_cleared_wf: "um_wf s \<Longrightarrow> um_cleared s lo hi w \<Longrightarrow> um_wf (s\<lparr>rum_window := w\<rparr>)"
  by (rule um_wf_window) (auto simp: um_cleared_def)

lemma remove_present: "cm_lookup w x = Some v \<Longrightarrow> \<exists>w'. remove_sn w x = Inr w'"
  by (simp add: remove_sn_def has_sn_lookup)

lemma advance_um_spec:
  assumes "um_wf s" "sn < rum_mod s" "um_w s - um_pos s sn < fuel"
  shows "\<exists>sn' w. advance_um fuel sn s = Inr (sn', s\<lparr>rum_window := w\<rparr>) \<and> sn' < rum_mod s \<and>
    um_pos s sn \<le> um_pos s sn' \<and> (um_pos s sn \<le> um_w s \<longrightarrow> um_pos s sn' \<le> um_w s) \<and>
    um_cleared s (um_pos s sn) (um_pos s sn') w \<and>
    (um_pos s sn' < um_w s \<longrightarrow> (\<forall>info. cm_lookup w sn' = Some info \<longrightarrow> \<not> fully_received info))"
  using assms
proof (induction fuel arbitrary: sn s)
  case (Suc fuel)
  note wf = Suc.prems(1)
  let ?stop = "advance_um (Suc fuel) sn s = Inr (sn, s\<lparr>rum_window := rum_window s\<rparr>)"
  have stop: ?case if ?stop "um_pos s sn < um_w s \<longrightarrow>
      (\<forall>info. cm_lookup (rum_window s) sn = Some info \<longrightarrow> \<not> fully_received info)"
    using that Suc.prems um_cleared_refl [OF wf, of "um_pos s sn" "um_pos s sn"] by blast
  show ?case
  proof (cases "um_pos s sn < um_w s \<and> (\<exists>info. cm_lookup (rum_window s) sn = Some info \<and> fully_received info)")
    case False
    then show ?thesis
      by (intro stop) (auto simp: um_below_highest [OF wf] split: option.splits)
  next
    case True
    then obtain info where info: "cm_lookup (rum_window s) sn = Some info" "fully_received info" by blast
    obtain w where w: "remove_sn (rum_window s) sn = Inr w" using remove_present [OF info(1)] by blast
    let ?s = "s\<lparr>rum_window := w\<rparr>" and ?sn = "(sn + 1) mod rum_mod s"
    have cl: "um_cleared s (um_pos s sn) (Suc (um_pos s sn)) w"
      by (rule um_cleared_remove [OF wf Suc.prems(2) w])
    have pos: "um_pos s ?sn = Suc (um_pos s sn)"
      using True um_pos_succ [OF wf, of sn] by simp
    have "\<exists>sn' w'. advance_um fuel ?sn ?s = Inr (sn', ?s\<lparr>rum_window := w'\<rparr>) \<and> sn' < rum_mod ?s \<and>
      um_pos ?s ?sn \<le> um_pos ?s sn' \<and> (um_pos ?s ?sn \<le> um_w ?s \<longrightarrow> um_pos ?s sn' \<le> um_w ?s) \<and>
      um_cleared ?s (um_pos ?s ?sn) (um_pos ?s sn') w' \<and>
      (um_pos ?s sn' < um_w ?s \<longrightarrow> (\<forall>info. cm_lookup w' sn' = Some info \<longrightarrow> \<not> fully_received info))"
      using Suc.prems True pos um_cleared_wf [OF wf cl] um_mod_less [OF wf]
      by (intro Suc.IH) auto
    then obtain sn' w' where r: "advance_um fuel ?sn ?s = Inr (sn', s\<lparr>rum_window := w'\<rparr>)" "sn' < rum_mod s"
      "Suc (um_pos s sn) \<le> um_pos s sn'" "um_pos s sn' \<le> um_w s"
      "um_cleared ?s (Suc (um_pos s sn)) (um_pos s sn') w'"
      "um_pos s sn' < um_w s \<longrightarrow> (\<forall>info. cm_lookup w' sn' = Some info \<longrightarrow> \<not> fully_received info)"
      using True by (auto simp: pos)
    have "um_cleared s (um_pos s sn) (um_pos s sn') w'"
      by (rule um_cleared_trans [OF cl r(5)]) (use r(3) in auto)
    moreover have "advance_um (Suc fuel) sn s = Inr (sn', s\<lparr>rum_window := w'\<rparr>)"
      using True info w r(1) by (simp add: um_below_highest [OF wf])
    ultimately show ?thesis using r by auto
  qed
qed simp

lemma discard_sn_um_spec:
  assumes "um_wf s" "sn < rum_mod s"
  shows "\<exists>w as. discard_sn_um sn s = Inr (s\<lparr>rum_window := w\<rparr>, as) \<and> delivered as = [] \<and>
    um_cleared s (um_pos s sn) (Suc (um_pos s sn)) w"
proof (cases "cm_lookup (rum_window s) sn")
  case None
  then show ?thesis
    using um_cleared_absent [OF assms None]
    by (intro exI [of _ "rum_window s"]) (auto simp: discard_sn_um_def)
next
  case (Some info)
  obtain w where w: "remove_sn (rum_window s) sn = Inr w" using remove_present [OF Some] by blast
  then show ?thesis
    using Some um_cleared_remove [OF assms w] by (auto simp: discard_sn_um_def)
qed

lemma clean_um_spec:
  assumes "um_wf s" "sn < rum_mod s" "um_w s \<le> um_pos s sn \<longrightarrow> 2 * um_w s - um_pos s sn < fuel" "0 < fuel"
  shows "\<exists>sn' w as. clean_um fuel sn s = Inr (sn', s\<lparr>rum_window := w\<rparr>, as) \<and> sn' < rum_mod s \<and> delivered as = [] \<and>
    (if um_pos s sn < um_w s then sn' = sn \<and> w = rum_window s
     else um_pos s sn' = 0 \<and> um_cleared s (um_pos s sn) (2 * um_w s) w)"
  using assms
proof (induction fuel arbitrary: sn s)
  case (Suc fuel)
  note wf = Suc.prems(1)
  show ?case
  proof (cases "um_pos s sn < um_w s")
    case True
    then show ?thesis using Suc.prems(2) by (auto simp: um_in_window [OF wf])
  next
    case False
    obtain w as where d: "discard_sn_um sn s = Inr (s\<lparr>rum_window := w\<rparr>, as)" "delivered as = []"
      and cl: "um_cleared s (um_pos s sn) (Suc (um_pos s sn)) w"
      using discard_sn_um_spec [OF wf Suc.prems(2)] by blast
    let ?s = "s\<lparr>rum_window := w\<rparr>" and ?sn = "(sn + 1) mod rum_mod s"
    have wf': "um_wf ?s" by (rule um_cleared_wf [OF wf cl])
    have sn': "?sn < rum_mod ?s" using um_mod_less [OF wf] by simp
    have pos: "um_pos s ?sn = (if Suc (um_pos s sn) = 2 * um_w s then 0 else Suc (um_pos s sn))"
      using um_pos_succ [OF wf, of sn] um_pos_less [OF wf, of sn] by auto
    have f: "um_w ?s \<le> um_pos ?s ?sn \<longrightarrow> 2 * um_w ?s - um_pos ?s ?sn < fuel" "0 < fuel"
      using Suc.prems(3) False pos um_pos_less [OF wf, of sn] by auto
    obtain sn2 w2 as2 where r: "clean_um fuel ?sn ?s = Inr (sn2, ?s\<lparr>rum_window := w2\<rparr>, as2)" "sn2 < rum_mod ?s"
      "delivered as2 = []" "if um_pos ?s ?sn < um_w ?s then sn2 = ?sn \<and> w2 = rum_window ?s
        else um_pos ?s sn2 = 0 \<and> um_cleared ?s (um_pos ?s ?sn) (2 * um_w ?s) w2"
      using Suc.IH [OF wf' sn' f] by blast
    have "um_pos s sn2 = 0 \<and> um_cleared s (um_pos s sn) (2 * um_w s) w2"
    proof (cases "Suc (um_pos s sn) = 2 * um_w s")
      case True
      then show ?thesis using r(4) pos cl um_wf_sizes(2) [OF wf] by simp
    next
      case ne: False
      then have c2: "um_cleared ?s (Suc (um_pos s sn)) (2 * um_w s) w2" "um_pos s sn2 = 0"
        using r(4) pos False by (auto simp: not_less)
      then show ?thesis
        using um_cleared_trans [OF cl c2(1)] um_pos_less [OF wf, of sn] by simp
    qed
    then show ?thesis using False d r by (auto simp: um_in_window [OF wf])
  qed
qed simp

lemma expire_um_spec:
  assumes "um_wf s" "sn < rum_mod s" "um_w s - um_pos s sn < fuel"
  shows "\<exists>sn' w as. expire_um fuel sn s = Inr (sn', s\<lparr>rum_window := w\<rparr>, as) \<and> sn' < rum_mod s \<and>
    delivered as = [] \<and> um_pos s sn \<le> um_pos s sn' \<and> (um_pos s sn \<le> um_w s \<longrightarrow> um_pos s sn' \<le> um_w s) \<and>
    um_cleared s (um_pos s sn) (um_pos s sn') w \<and>
    (um_pos s sn' < um_w s \<longrightarrow> um_pos s (rx_timer_trigger s) \<le> um_pos s sn' \<and>
       (\<forall>info. cm_lookup w sn' = Some info \<longrightarrow> \<not> fully_received info))"
  using assms
proof (induction fuel arbitrary: sn s)
  case (Suc fuel)
  note wf = Suc.prems(1)
  let ?T = "um_pos s (rx_timer_trigger s)"
  have tr: "rx_mod_base_um s sn < rx_mod_base_um s (rx_timer_trigger s) \<longleftrightarrow> um_pos s sn < ?T"
    by (simp add: word_less_nat_alt um_pos_def)
  have go: ?case if lt: "um_pos s sn < um_w s" and cl: "um_cleared s (um_pos s sn) (Suc (um_pos s sn)) w"
    and eq: "expire_um (Suc fuel) sn s = bind_res (expire_um fuel ((sn + 1) mod rum_mod s) (s\<lparr>rum_window := w\<rparr>))
        (\<lambda>(sn', s'', as'). Inr (sn', s'', as @ as'))" and as: "delivered as = []" for w as
  proof -
    let ?s = "s\<lparr>rum_window := w\<rparr>" and ?sn = "(sn + 1) mod rum_mod s"
    have pos: "um_pos s ?sn = Suc (um_pos s sn)" using lt um_pos_succ [OF wf, of sn] by simp
    have pre: "um_wf ?s" "?sn < rum_mod ?s" "um_w ?s - um_pos ?s ?sn < fuel"
      using um_cleared_wf [OF wf cl] um_mod_less [OF wf] Suc.prems(3) lt pos by auto
    obtain sn2 w2 as2 where r: "expire_um fuel ?sn ?s = Inr (sn2, ?s\<lparr>rum_window := w2\<rparr>, as2)" "sn2 < rum_mod ?s"
      "delivered as2 = []" "um_pos ?s ?sn \<le> um_pos ?s sn2" "um_pos ?s ?sn \<le> um_w ?s \<longrightarrow> um_pos ?s sn2 \<le> um_w ?s"
      "um_cleared ?s (um_pos ?s ?sn) (um_pos ?s sn2) w2"
      "um_pos ?s sn2 < um_w ?s \<longrightarrow> um_pos ?s (rx_timer_trigger ?s) \<le> um_pos ?s sn2 \<and>
         (\<forall>info. cm_lookup w2 sn2 = Some info \<longrightarrow> \<not> fully_received info)"
      using Suc.IH [OF pre] by blast
    have "um_cleared s (um_pos s sn) (um_pos s sn2) w2"
      using um_cleared_trans [OF cl, of "um_pos s sn2" w2] r(4,6) pos by simp
    then show ?thesis using eq r as lt pos by auto
  qed
  show ?case
  proof (cases "um_pos s sn < um_w s")
    case False
    then show ?thesis
      using Suc.prems um_cleared_refl [OF wf, of "um_pos s sn" "um_pos s sn"]
      by (intro exI [of _ sn] exI [of _ "rum_window s"]) (auto simp: um_below_highest [OF wf])
  next
    case lt: True
    show ?thesis
    proof (cases "um_pos s sn < ?T")
      case True
      obtain w as where d: "discard_sn_um sn s = Inr (s\<lparr>rum_window := w\<rparr>, as)" "delivered as = []"
        and cl: "um_cleared s (um_pos s sn) (Suc (um_pos s sn)) w"
        using discard_sn_um_spec [OF wf Suc.prems(2)] by blast
      show ?thesis
        by (rule go [OF lt cl _ d(2)]) (use True lt d in \<open>simp add: um_below_highest [OF wf] tr\<close>)
    next
      case False
      show ?thesis
      proof (cases "\<exists>info. cm_lookup (rum_window s) sn = Some info \<and> fully_received info")
        case True
        then obtain info where info: "cm_lookup (rum_window s) sn = Some info" "fully_received info" by blast
        obtain w where w: "remove_sn (rum_window s) sn = Inr w" using remove_present [OF info(1)] by blast
        show ?thesis
          by (rule go [OF lt um_cleared_remove [OF wf Suc.prems(2) w], of "[]"])
             (use False lt w info in \<open>simp_all add: um_below_highest [OF wf] tr\<close>)
      next
        case nf: False
        then show ?thesis
          using False lt Suc.prems um_cleared_refl [OF wf, of "um_pos s sn" "um_pos s sn"]
          by (intro exI [of _ sn] exI [of _ "rum_window s"])
             (auto simp: um_below_highest [OF wf] tr split: option.splits)
      qed
    qed
  qed
qed simp

declare advance_um.simps [simp del] clean_um.simps [simp del] expire_um.simps [simp del]

section \<open>The handlers never fault\<close>

lemma overwrite_views:
  assumes "cm_wf w"
  shows "cm_lookup (overwrite w sn v) sn = Some v"
    "x \<noteq> sn \<Longrightarrow> cm_lookup (overwrite w sn v) x = None \<or> cm_lookup (overwrite w sn v) x = cm_lookup w x"
  by (auto simp: cm_lookup_overwrite_evict [OF assms] split: option.splits)

text \<open>The info object after a segment was stored in it.\<close>

definition um_stored :: "rlc_um_pdu_header \<Rightarrow> byte_buffer \<Rightarrow> rlc_rx_um_sdu_info \<Rightarrow> rlc_rx_um_sdu_info" where
  "um_stored header payload info =
     (let segs = snd (store_segment (segments info)
                  \<lparr>seg_si = um_si header, seg_so = um_so header, seg_payload = payload\<rparr>)
      in info\<lparr>segments := segs, fully_received := fst (update_segment_inventory segs),
              has_gap := snd (update_segment_inventory segs)\<rparr>)"

definition um_fresh :: "nat \<Rightarrow> rlc_rx_um_sdu_info" where
  "um_fresh now = \<lparr>fully_received = False, has_gap = False, segments = [], time_of_arrival = now\<rparr>"

lemma handle_segment_um_spec:
  fixes now :: nat and payload :: byte_buffer
  assumes "um_wf s" "um_si h \<noteq> Full_Sdu"
  defines "sn \<equiv> ucast (um_sn h) :: u32"
  defines "info \<equiv> um_stored h payload
    (case cm_lookup (rum_window s) sn of None \<Rightarrow> um_fresh now | Some i \<Rightarrow> i)"
  shows "\<exists>st w. handle_segment_data_sdu_um now h payload s = Inr (st, s\<lparr>rum_window := w\<rparr>) \<and>
    cm_wf w \<and> cm_max_size w = cm_max_size (rum_window s) \<and> cm_lookup w sn = Some info \<and>
    (\<forall>x. x \<noteq> sn \<longrightarrow> cm_lookup w x = None \<or> cm_lookup w x = cm_lookup (rum_window s) x)"
proof -
  have wf: "cm_wf (rum_window s)" using assms(1) by (simp add: um_wf_def Let_def)
  show ?thesis
  proof (cases "cm_lookup (rum_window s) sn")
    case None
    have "add_sn (rum_window s) sn info = Inr (overwrite (rum_window s) sn info)"
      using None by (simp add: add_sn_def has_sn_lookup)
    then have "\<exists>st. handle_segment_data_sdu_um now h payload s =
        Inr (st, s\<lparr>rum_window := overwrite (rum_window s) sn info\<rparr>)"
      using None assms(2)
      by (simp add: handle_segment_data_sdu_um_def info_def um_stored_def um_fresh_def sn_def [symmetric] Let_def
          case_prod_beta)
    then obtain st where st: "handle_segment_data_sdu_um now h payload s =
        Inr (st, s\<lparr>rum_window := overwrite (rum_window s) sn info\<rparr>)" by blast
    show ?thesis
      by (rule exI [of _ st], rule exI [of _ "overwrite (rum_window s) sn info"])
         (use overwrite_views [OF wf] in \<open>simp add: st cm_wf_overwrite [OF wf]\<close>)
  next
    case (Some i)
    have c: "contains (rum_window s) sn" using Some by (simp add: contains_lookup)
    have "\<exists>st. handle_segment_data_sdu_um now h payload s =
        Inr (st, s\<lparr>rum_window := assign_cm (rum_window s) sn info\<rparr>)"
      using Some assms(2)
      by (simp add: handle_segment_data_sdu_um_def info_def um_stored_def sn_def [symmetric] Let_def case_prod_beta)
    then obtain st where st: "handle_segment_data_sdu_um now h payload s =
        Inr (st, s\<lparr>rum_window := assign_cm (rum_window s) sn info\<rparr>)" by blast
    show ?thesis
      by (rule exI [of _ st], rule exI [of _ "assign_cm (rum_window s) sn info"])
         (simp add: st cm_lookup_assign [OF wf c] cm_wf_assign [OF wf c])
  qed
qed

text \<open>What the parts of a handler leave unchanged.\<close>

definition um_same :: "rlc_rx_um_entity \<Rightarrow> rlc_rx_um_entity \<Rightarrow> bool" where
  "um_same s s' \<longleftrightarrow> rum_cfg s' = rum_cfg s \<and> rum_mod s' = rum_mod s \<and> rum_reassembly_timer s' = rum_reassembly_timer s"

lemma loop_bound_um_wf: "um_wf s \<Longrightarrow> loop_bound_um s = Suc (2 * um_w s)"
  by (simp add: loop_bound_um_def um_wf_sizes)

lemma move_highest_um_spec:
  fixes sn :: u32
  assumes wf: "um_wf s"
  defines "s1 \<equiv> s\<lparr>rx_next_highest := (sn + 1) mod rum_mod s\<rparr>"
  shows "\<exists>r1 w1 r w as. move_highest_um sn s = Inr (s1\<lparr>rum_window := w, rx_next_reassembly := r\<rparr>, as) \<and>
     delivered as = [] \<and> r1 < rum_mod s \<and> r < rum_mod s \<and>
     (if um_pos s1 (rx_next_reassembly s) < um_w s then r1 = rx_next_reassembly s \<and> w1 = rum_window s
      else um_pos s1 r1 = 0 \<and> um_cleared s1 (um_pos s1 (rx_next_reassembly s)) (2 * um_w s) w1) \<and>
     um_pos s1 r1 \<le> um_pos s1 r \<and> um_pos s1 r \<le> um_w s \<and>
     um_cleared (s1\<lparr>rum_window := w1\<rparr>) (um_pos s1 r1) (um_pos s1 r) w \<and>
     (um_pos s1 r < um_w s \<longrightarrow> (\<forall>info. cm_lookup w r = Some info \<longrightarrow> \<not> fully_received info))"
proof -
  have wf1: "um_wf s1" unfolding s1_def by (intro um_wf_upd um_mod_less wf)
  have w: "um_w s1 = um_w s" "rum_mod s1 = rum_mod s" "rx_next_reassembly s1 = rx_next_reassembly s"
    "rum_window s1 = rum_window s" by (simp_all add: s1_def)
  have r0: "rx_next_reassembly s1 mod rum_mod s1 = rx_next_reassembly s"
    using um_mod_ident [OF wf um_wf_less(2) [OF wf]] w by simp
  have rlt: "rx_next_reassembly s < rum_mod s1" using um_wf_less(2) [OF wf] w by simp
  obtain r1 w1 as where c: "clean_um (loop_bound_um s1) (rx_next_reassembly s) s1 = Inr (r1, s1\<lparr>rum_window := w1\<rparr>, as)"
    "r1 < rum_mod s1" "delivered as = []"
    "if um_pos s1 (rx_next_reassembly s) < um_w s1 then r1 = rx_next_reassembly s \<and> w1 = rum_window s1
     else um_pos s1 r1 = 0 \<and> um_cleared s1 (um_pos s1 (rx_next_reassembly s)) (2 * um_w s1) w1"
    using clean_um_spec [OF wf1 rlt, of "loop_bound_um s1"] um_wf_sizes(2) [OF wf1] loop_bound_um_wf [OF wf1]
    by fastforce
  let ?s2 = "s1\<lparr>rum_window := w1\<rparr>"
  have wf2: "um_wf ?s2"
    using c(4) wf1 um_cleared_wf [OF wf1] by (auto split: if_splits)
  have p1: "um_pos s1 r1 \<le> um_w s1" using c(4) by (auto split: if_splits)
  have fuel: "um_w ?s2 - um_pos ?s2 r1 < loop_bound_um ?s2" by (simp add: loop_bound_um_wf [OF wf2])
  obtain r wr where a: "advance_um (loop_bound_um ?s2) r1 ?s2 = Inr (r, ?s2\<lparr>rum_window := wr\<rparr>)" "r < rum_mod s1"
    "um_pos s1 r1 \<le> um_pos s1 r" "um_pos s1 r \<le> um_w s1" "um_cleared ?s2 (um_pos s1 r1) (um_pos s1 r) wr"
    "um_pos s1 r < um_w s1 \<longrightarrow> (\<forall>info. cm_lookup wr r = Some info \<longrightarrow> \<not> fully_received info)"
    using advance_um_spec [OF wf2 _ fuel] c(2) p1 by auto
  have "move_highest_um sn s = Inr (s1\<lparr>rum_window := wr, rx_next_reassembly := r\<rparr>, as)"
    unfolding move_highest_um_def s1_def [symmetric] Let_def r0 c(1) using a(1) by simp
  then show ?thesis using c(2-4) a(2-6) unfolding w by blast
qed

lemma complete_sdu_um_spec:
  assumes wf: "um_wf s" and info: "cm_lookup (rum_window s) sn = Some info"
  defines "s1 \<equiv> s\<lparr>rum_window := assign_cm (rum_window s) sn (info\<lparr>segments := []\<rparr>)\<rparr>"
  shows "\<exists>r w as. complete_sdu_um alloc sn info s = Inr (s\<lparr>rum_window := w, rx_next_reassembly := r\<rparr>, as) \<and>
    r < rum_mod s \<and> um_wf (s\<lparr>rum_window := w\<rparr>) \<and>
    as = (case reassemble_sdu_um alloc info of None \<Rightarrow> [Metrics_Add_Lost_Pdus 1]
          | Some sdu \<Rightarrow> [Metrics_Add_Sdus 1 (length sdu), On_New_Sdu sdu]) \<and>
    (if sn = rx_next_reassembly s then
       um_pos s (rx_next_reassembly s) \<le> um_pos s r \<and>
       (um_pos s (rx_next_reassembly s) \<le> um_w s \<longrightarrow> um_pos s r \<le> um_w s) \<and>
       um_cleared s1 (um_pos s (rx_next_reassembly s)) (um_pos s r) w \<and>
       (um_pos s r < um_w s \<longrightarrow> (\<forall>info. cm_lookup w r = Some info \<longrightarrow> \<not> fully_received info))
     else r = rx_next_reassembly s \<and> w = rum_window s1)"
proof -
  have cw: "cm_wf (rum_window s)" using wf by (simp add: um_wf_def Let_def)
  have c: "contains (rum_window s) sn" using info by (simp add: contains_lookup)
  have wf1: "um_wf s1" unfolding s1_def by (rule um_wf_window [OF wf]) (simp_all add: cm_wf_assign [OF cw c])
  show ?thesis
  proof (cases "sn = rx_next_reassembly s")
    case True
    have r0: "rx_next_reassembly s1 mod rum_mod s1 = rx_next_reassembly s"
      using um_mod_ident [OF wf um_wf_less(2) [OF wf]] by (simp add: s1_def)
    have f: "um_w s1 - um_pos s1 (rx_next_reassembly s) < loop_bound_um s1"
      by (simp add: loop_bound_um_wf [OF wf1])
    have rlt: "rx_next_reassembly s < rum_mod s1" using um_wf_less(2) [OF wf] by (simp add: s1_def)
    obtain r w where a: "advance_um (loop_bound_um s1) (rx_next_reassembly s) s1 = Inr (r, s1\<lparr>rum_window := w\<rparr>)"
      "r < rum_mod s1" "um_pos s1 (rx_next_reassembly s) \<le> um_pos s1 r"
      "um_pos s1 (rx_next_reassembly s) \<le> um_w s1 \<longrightarrow> um_pos s1 r \<le> um_w s1"
      "um_cleared s1 (um_pos s1 (rx_next_reassembly s)) (um_pos s1 r) w"
      "um_pos s1 r < um_w s1 \<longrightarrow> (\<forall>info. cm_lookup w r = Some info \<longrightarrow> \<not> fully_received info)"
      using advance_um_spec [OF wf1 rlt f] by blast
    have p: "um_pos s1 = um_pos s" "um_w s1 = um_w s" "rum_mod s1 = rum_mod s" by (simp_all add: s1_def)
    have "um_wf (s1\<lparr>rum_window := w\<rparr>)" by (rule um_cleared_wf [OF wf1 a(5)])
    then have wfw: "um_wf (s\<lparr>rum_window := w\<rparr>)" by (simp add: s1_def)
    have "complete_sdu_um alloc sn info s = Inr (s\<lparr>rum_window := w, rx_next_reassembly := r\<rparr>,
        (case reassemble_sdu_um alloc info of None \<Rightarrow> [Metrics_Add_Lost_Pdus 1]
          | Some sdu \<Rightarrow> [Metrics_Add_Sdus 1 (length sdu), On_New_Sdu sdu]))"
      unfolding complete_sdu_um_def Let_def s1_def [symmetric] r0 a(1) using True by (simp add: s1_def)
    then show ?thesis using True wfw a(2-6) unfolding p by auto
  next
    case False
    have "complete_sdu_um alloc sn info s = Inr (s1, (case reassemble_sdu_um alloc info of
        None \<Rightarrow> [Metrics_Add_Lost_Pdus 1] | Some sdu \<Rightarrow> [Metrics_Add_Sdus 1 (length sdu), On_New_Sdu sdu]))"
      using False by (simp add: complete_sdu_um_def Let_def s1_def)
    then show ?thesis
      using False wf1 um_wf_less(2) [OF wf]
      by (intro exI [of _ "rx_next_reassembly s"] exI [of _ "rum_window s1"]) (simp add: s1_def)
  qed
qed

lemma place_um_ok:
  assumes wf: "um_wf s"
  shows "\<exists>s' as. place_um alloc sn s = Inr (s', as) \<and> um_wf s' \<and> um_same s s'"
proof (cases "\<exists>info. cm_lookup (rum_window s) sn = Some info \<and> fully_received info")
  case True
  then obtain info where i: "cm_lookup (rum_window s) sn = Some info" "fully_received info" by blast
  obtain r w as where c: "complete_sdu_um alloc sn info s = Inr (s\<lparr>rum_window := w, rx_next_reassembly := r\<rparr>, as)"
    "r < rum_mod s" "um_wf (s\<lparr>rum_window := w\<rparr>)"
    using complete_sdu_um_spec [OF wf i(1)] by blast
  then show ?thesis
    using um_wf_upd(1) [OF c(3), of r] i by (simp add: place_um_def um_same_def)
next
  case False
  then have eq: "place_um alloc sn s =
      (if \<not> sn_in_reassembly_window_um s sn then move_highest_um sn s else Inr (s, []))"
    by (auto simp: place_um_def Let_def split: option.splits)
  show ?thesis
  proof (cases "sn_in_reassembly_window_um s sn")
    case True
    then show ?thesis using wf by (auto simp: eq um_same_def)
  next
    case False
    let ?s1 = "s\<lparr>rx_next_highest := (sn + 1) mod rum_mod s\<rparr>"
    have wf1: "um_wf ?s1" by (intro um_wf_upd um_mod_less wf)
    obtain r1 w1 r w as where m: "move_highest_um sn s = Inr (?s1\<lparr>rum_window := w, rx_next_reassembly := r\<rparr>, as)"
      "r < rum_mod s" "um_cleared (?s1\<lparr>rum_window := w1\<rparr>) (um_pos ?s1 r1) (um_pos ?s1 r) w"
      "w1 = rum_window s \<or> (\<exists>lo hi. um_cleared ?s1 lo hi w1)"
      using move_highest_um_spec [OF wf, of sn]
      by (elim exE conjE) (rule that, assumption, assumption, assumption, auto split: if_splits)
    have wf2: "um_wf (?s1\<lparr>rum_window := w1\<rparr>)"
      using m(4) wf1 um_cleared_wf [OF wf1] by auto
    have "um_wf (?s1\<lparr>rum_window := w, rx_next_reassembly := r\<rparr>)"
      using um_wf_upd(1) [OF um_cleared_wf [OF wf2 m(3)], of r] m(2) by simp
    then show ?thesis using False m(1) by (simp add: eq um_same_def)
  qed
qed

text \<open>t-Reassembly is running whenever RX\_Next\_Highest is beyond RX\_Next\_Reassembly + 1.\<close>

definition um_live :: "rlc_rx_um_entity \<Rightarrow> bool" where
  "um_live s \<longleftrightarrow> is_running (rum_reassembly_timer s) \<or>
     \<not> rx_mod_base_um s (rx_next_highest s) > rx_mod_base_um s (rx_next_reassembly s + 1)"

definition um_ok :: "rlc_rx_um_entity \<Rightarrow> bool" where
  "um_ok s \<longleftrightarrow> um_wf s \<and> timer_set (rum_reassembly_timer s) \<and> um_live s"

lemma restart_timer_um_ok:
  assumes "um_wf s" "timer_set (rum_reassembly_timer s)"
  shows "\<exists>s'. restart_timer_um s = Inr s' \<and> um_ok s' \<and> rum_cfg s' = rum_cfg s"
  using assms um_wf_less(1) [OF assms(1)]
  by (auto simp: restart_timer_um_def Let_def um_ok_def um_live_def um_wf_upd rx_mod_base_um_def)

lemma update_timer_um_ok:
  assumes "um_wf s" "timer_set (rum_reassembly_timer s)"
  shows "\<exists>s'. update_timer_um s = Inr s' \<and> um_ok s' \<and> rum_cfg s' = rum_cfg s"
proof -
  have s: "um_wf (stop_timer_um s)" "timer_set (rum_reassembly_timer (stop_timer_um s))"
    "rum_cfg (stop_timer_um s) = rum_cfg s"
    using assms by (auto simp: stop_timer_um_def Let_def um_wf_upd)
  show ?thesis
    using restart_timer_um_ok [OF s(1,2)] s by (auto simp: update_timer_um_def Let_def um_ok_def um_live_def)
qed

lemma handle_pdu_um_ok:
  assumes ok: "um_ok s"
  shows "\<exists>s' as. handle_pdu_um alloc now buf s = Inr (s', as) \<and> um_ok s' \<and> rum_cfg s' = rum_cfg s"
proof -
  have wf: "um_wf s" and ts: "timer_set (rum_reassembly_timer s)" using ok by (auto simp: um_ok_def)
  have seg: ?thesis
    if h: "rlc_um_read_data_pdu_header buf (rxum_sn_field_length (rum_cfg s)) empty_um_header = Some h"
      and len: "\<not> length buf \<le> rlc_um_nr_packed_length h" and si: "um_si h \<noteq> Full_Sdu"
      and inv: "\<not> sn_invalid_for_rx_buffer_um s (ucast (um_sn h))" for h
  proof -
    obtain st w where w: "handle_segment_data_sdu_um now h (drop (rlc_um_nr_packed_length h) buf) s
        = Inr (st, s\<lparr>rum_window := w\<rparr>)" "cm_wf w" "cm_max_size w = cm_max_size (rum_window s)"
      using handle_segment_um_spec [OF wf si] by blast
    have wf1: "um_wf (s\<lparr>rum_window := w\<rparr>)" by (rule um_wf_window [OF wf w(2,3)])
    obtain s2 as where p: "place_um alloc (ucast (um_sn h)) (s\<lparr>rum_window := w\<rparr>) = Inr (s2, as)" "um_wf s2"
      "um_same (s\<lparr>rum_window := w\<rparr>) s2"
      using place_um_ok [OF wf1] by blast
    obtain s3 where "update_timer_um s2 = Inr s3" "um_ok s3" "rum_cfg s3 = rum_cfg s2"
      using update_timer_um_ok [OF p(2)] p(3) ts by (auto simp: um_same_def)
    then show ?thesis
      using h len si inv w(1) p by (auto simp: handle_pdu_um_def Let_def um_same_def)
  qed
  show ?thesis
    using ok seg
    by (cases "rlc_um_read_data_pdu_header buf (rxum_sn_field_length (rum_cfg s)) empty_um_header")
       (auto simp: handle_pdu_um_def Let_def)
qed

lemma expiry_um_ok:
  assumes ok: "um_wf s" "timer_set (rum_reassembly_timer s)"
  shows "\<exists>s' as. on_expired_reassembly_timer_um s = Inr (s', as) \<and> um_ok s' \<and> rum_cfg s' = rum_cfg s"
proof -
  note wf = ok(1)
  have f: "um_w s - um_pos s (rx_next_reassembly s) < loop_bound_um s" by (simp add: loop_bound_um_wf [OF wf])
  obtain sn w as where e: "expire_um (loop_bound_um s) (rx_next_reassembly s) s = Inr (sn, s\<lparr>rum_window := w\<rparr>, as)"
    "sn < rum_mod s" "um_cleared s (um_pos s (rx_next_reassembly s)) (um_pos s sn) w"
    using expire_um_spec [OF wf um_wf_less(2) [OF wf] f] by blast
  have wf1: "um_wf (s\<lparr>rum_window := w, rx_next_reassembly := sn\<rparr>)"
    using um_wf_upd(1) [OF um_cleared_wf [OF wf e(3)], of sn] e(2) by simp
  show ?thesis
    using restart_timer_um_ok [OF wf1] ok(2) e(1) by (auto simp: on_expired_reassembly_timer_um_def)
qed

section \<open>Histories of a receiver\<close>

text \<open>
  The states that a receiver can be in after PDUs (from a set \<open>P\<close>) and expiries of t-Reassembly, in any
  order. An expiry finds the timer running; the timer is stopped when the callback is invoked.
\<close>

inductive um_reach :: "(byte_buffer \<Rightarrow> bool) \<Rightarrow> rlc_rx_um_config \<Rightarrow> rlc_rx_um_entity \<Rightarrow> bool"
  for P cfg where
  um_init: "um_reach P cfg (new_rx_um cfg)"
| um_pdu: "um_reach P cfg s \<Longrightarrow> P buf \<Longrightarrow> handle_pdu_um alloc now buf s = Inr (s', as) \<Longrightarrow> um_reach P cfg s'"
| um_expiry: "um_reach P cfg s \<Longrightarrow> is_running (rum_reassembly_timer s) \<Longrightarrow>
    on_expired_reassembly_timer_um (s\<lparr>rum_reassembly_timer := timer_stop (rum_reassembly_timer s)\<rparr>) = Inr (s', as) \<Longrightarrow>
    um_reach P cfg s'"

lemma um_ok_new: "0 < rxum_t_reassembly cfg \<Longrightarrow> um_ok (new_rx_um cfg)"
proof -
  assume t: "0 < rxum_t_reassembly cfg"
  let ?s = "new_rx_um cfg"
  note wf = um_wf_new [of cfg]
  have r: "rx_next_highest ?s = 0" "rx_next_reassembly ?s = 0" by (simp_all add: new_rx_um_def Let_def)
  have w: "um_pos ?s 0 = um_w ?s" using um_pos_highest [OF wf] r by simp
  have pm: "um_pos ?s (0 + 1) = um_pos ?s ((0 + 1) mod rum_mod ?s)"
    by (rule um_pos_mod [OF wf, symmetric])
  have "um_pos ?s ((0 + 1) mod rum_mod ?s) = um_w ?s + 1"
    using um_pos_succ [OF wf, of 0] w um_wf_sizes(3) [OF wf] by simp
  then have "\<not> um_pos ?s (0 + 1) < um_pos ?s 0" using pm w by simp
  then have "um_live ?s" by (simp add: um_live_def r word_less_nat_alt um_pos_def)
  then show ?thesis using wf t by (simp add: um_ok_def) (simp add: new_rx_um_def Let_def)
qed

lemma um_reach_ok:
  assumes "um_reach P cfg s" "0 < rxum_t_reassembly cfg"
  shows "um_ok s \<and> rum_cfg s = cfg"
  using assms
proof (induction rule: um_reach.induct)
  case um_init
  then show ?case by (simp add: um_ok_new) (simp add: new_rx_um_def Let_def)
next
  case (um_pdu s buf alloc now s' as)
  then show ?case using handle_pdu_um_ok [of s alloc now buf] by auto
next
  case (um_expiry s s' as)
  then show ?case
    using expiry_um_ok [of "s\<lparr>rum_reassembly_timer := timer_stop (rum_reassembly_timer s)\<rparr>"]
    by (auto simp: um_ok_def um_wf_upd)
qed

text \<open>
  C17. Whatever bytes arrive and whenever t-Reassembly expires, a UM receiver with a configured
  t-Reassembly never fails an assertion and its loops end; and in every state that it reaches
  t-Reassembly runs if more than one SDU is outstanding, so that the window cannot stall.
\<close>

theorem rx_um_never_faults:
  assumes "um_reach (\<lambda>_. True) cfg s" and "0 < rxum_t_reassembly cfg"
  shows "is_ok (handle_pdu_um alloc now buf s) \<and>
    (is_running (rum_reassembly_timer s) \<longrightarrow>
       is_ok (on_expired_reassembly_timer_um (s\<lparr>rum_reassembly_timer := timer_stop (rum_reassembly_timer s)\<rparr>))) \<and>
    (rx_mod_base_um s (rx_next_highest s) > rx_mod_base_um s (rx_next_reassembly s + 1) \<longrightarrow>
       is_running (rum_reassembly_timer s))"
proof -
  have ok: "um_ok s" using um_reach_ok [OF assms] by blast
  then have "um_wf (s\<lparr>rum_reassembly_timer := timer_stop (rum_reassembly_timer s)\<rparr>)"
    "timer_set (rum_reassembly_timer (s\<lparr>rum_reassembly_timer := timer_stop (rum_reassembly_timer s)\<rparr>))"
    by (simp_all add: um_ok_def um_wf_upd)
  from expiry_um_ok [OF this] handle_pdu_um_ok [OF ok, of alloc now buf] ok
  show ?thesis by (auto simp: um_ok_def um_live_def)
qed

definition sample_um_cfg :: "int \<Rightarrow> rlc_rx_um_config" where
  "sample_um_cfg t = \<lparr>rxum_sn_field_length = Size6bits, rxum_t_reassembly = t\<rparr>"

theorem rx_um_never_faults_witness:
  "is_ok (handle_pdu_um True 0 [0x45, 1, 2] (new_rx_um (sample_um_cfg 50)))"
  using rx_um_never_faults [OF um_init, of "sample_um_cfg 50" True 0 "[0x45, 1, 2]"]
  by (simp add: sample_um_cfg_def)

section \<open>The order of the window\<close>

text \<open>
  PDUs as the transmitter writes them: segments that carry an SO field have a non-zero SO, and offsets
  stay within 16 bits.
\<close>

definition um_conform :: "rlc_um_sn_size \<Rightarrow> byte_buffer \<Rightarrow> bool" where
  "um_conform z buf \<longleftrightarrow>
     (\<forall>h. rlc_um_read_data_pdu_header buf z empty_um_header = Some h \<longrightarrow>
        (has_so (um_si h) \<longrightarrow> um_so h \<noteq> 0) \<and>
        unat (um_so h) + (length buf - rlc_um_nr_packed_length h) \<le> 65536)"

text \<open>A buffered SDU: its segments are disjoint and sorted, and none is left once it was delivered.\<close>

definition um_info_ok :: "rlc_rx_um_sdu_info \<Rightarrow> bool" where
  "um_info_ok info \<longleftrightarrow> segs_ok (segments info) \<and> (fully_received info \<longrightarrow> segments info = [])"

definition um_inv :: "rlc_rx_um_entity \<Rightarrow> bool" where
  "um_inv s \<longleftrightarrow> um_wf s \<and> um_pos s (rx_next_reassembly s) \<le> um_w s \<and>
     (\<forall>x info. cm_lookup (rum_window s) x = Some info \<longrightarrow>
        x < rum_mod s \<and> um_pos s (rx_next_reassembly s) \<le> um_pos s x \<and> um_pos s x < um_w s \<and> um_info_ok info) \<and>
     (\<forall>info. cm_lookup (rum_window s) (rx_next_reassembly s) = Some info \<longrightarrow> \<not> fully_received info)"

lemma um_invI:
  assumes "um_wf s" "um_pos s (rx_next_reassembly s) \<le> um_w s"
    and "\<And>x info. cm_lookup (rum_window s) x = Some info \<Longrightarrow>
      x < rum_mod s \<and> um_pos s (rx_next_reassembly s) \<le> um_pos s x \<and> um_pos s x < um_w s \<and> um_info_ok info"
    and "\<And>info. cm_lookup (rum_window s) (rx_next_reassembly s) = Some info \<Longrightarrow> \<not> fully_received info"
  shows "um_inv s"
  unfolding um_inv_def using assms by blast

lemma um_invD:
  assumes "um_inv s"
  shows "um_wf s" "um_pos s (rx_next_reassembly s) \<le> um_w s"
    "cm_lookup (rum_window s) x = Some info \<Longrightarrow>
      x < rum_mod s \<and> um_pos s (rx_next_reassembly s) \<le> um_pos s x \<and> um_pos s x < um_w s \<and> um_info_ok info"
    "cm_lookup (rum_window s) (rx_next_reassembly s) = Some info \<Longrightarrow> \<not> fully_received info"
  using assms unfolding um_inv_def by blast+

lemma um_pos_shift:
  assumes wf: "um_wf s" and out: "um_w s \<le> um_pos s sn"
  defines "s1 \<equiv> s\<lparr>rx_next_highest := (sn + 1) mod rum_mod s\<rparr>" and "d \<equiv> um_pos s sn + 1 - um_w s"
  shows "um_pos s1 x = (if d \<le> um_pos s x then um_pos s x - d else um_pos s x + 2 * um_w s - d)"
proof -
  let ?z = "rxum_sn_field_length (rum_cfg s)" and ?h = "rx_next_highest s" and ?w = "um_window_size s"
  let ?r = "?h + ?w" and ?r1 = "(sn + 1) mod rum_mod s + ?w"
  have wf1: "um_wf s1" unfolding s1_def by (intro um_wf_upd um_mod_less wf)
  have dlt: "d < 2 * um_w s" using um_pos_less [OF wf, of sn] um_wf_sizes(3) [OF wf] by (simp add: d_def)
  have "um_ring.dist ?z ?r ?r1 = (um_pos s ((sn + 1) mod rum_mod s) + um_w s) mod (2 * um_w s)"
    by (simp add: um_ring.dist_add um_ring_N [OF wf] um_pos_dist [OF wf] um_w_def)
  also have "\<dots> = (um_pos s sn + 1 + um_w s) mod (2 * um_w s)"
    unfolding um_pos_succ [OF wf] by (simp add: mod_simps)
  also have "um_pos s sn + 1 + um_w s = d + 2 * um_w s" using out by (simp add: d_def)
  also have "(d + 2 * um_w s) mod (2 * um_w s) = d" using dlt by simp
  finally have d: "um_ring.dist ?z ?r ?r1 = d" .
  have "um_pos s1 x = um_ring.dist ?z ?r1 x"
    using um_pos_dist [OF wf1, of x] by (simp add: s1_def)
  also have "\<dots> = (if d \<le> um_pos s x then um_pos s x - d else um_pos s x + 2 * um_w s - d)"
    using um_ring.dist_rebase_ge [of ?z ?r ?r1 x] um_ring.dist_rebase_less [of ?z ?r x ?r1] d
    by (simp add: um_pos_dist [OF wf] um_ring_N [OF wf])
  finally show ?thesis .
qed

lemma um_cleared_Some:
  "um_cleared s lo hi w \<Longrightarrow> cm_lookup w x = Some v \<Longrightarrow>
    cm_lookup (rum_window s) x = Some v \<and> \<not> (x < rum_mod s \<and> lo \<le> um_pos s x \<and> um_pos s x < hi)"
  by (auto simp: um_cleared_def split: if_splits)

lemma move_highest_um_inv:
  assumes wf: "um_wf s" and out: "um_w s \<le> um_pos s sn" and sn: "sn < rum_mod s"
    and r: "um_pos s (rx_next_reassembly s) \<le> um_w s"
    and keys: "\<And>x info. cm_lookup (rum_window s) x = Some info \<Longrightarrow> x < rum_mod s \<and> um_info_ok info \<and>
       (x = sn \<or> um_pos s (rx_next_reassembly s) \<le> um_pos s x \<and> um_pos s x < um_w s)"
    and mv: "move_highest_um sn s = Inr (s', as)"
  shows "um_inv s' \<and> um_same s s'"
proof -
  let ?s1 = "s\<lparr>rx_next_highest := (sn + 1) mod rum_mod s\<rparr>" and ?R = "rx_next_reassembly s"
  define d where "d = um_pos s sn + 1 - um_w s"
  have wf1: "um_wf ?s1" by (intro um_wf_upd um_mod_less wf)
  have pos: "um_pos ?s1 x = (if d \<le> um_pos s x then um_pos s x - d else um_pos s x + 2 * um_w s - d)" for x
    unfolding d_def by (rule um_pos_shift [OF wf out])
  have dw: "0 < d" "d \<le> um_w s" using out um_pos_less [OF wf, of sn] by (auto simp: d_def)
  obtain r1 w1 r2 w as2 where m: "move_highest_um sn s = Inr (?s1\<lparr>rum_window := w, rx_next_reassembly := r2\<rparr>, as2)"
      "r2 < rum_mod s"
      "if um_pos ?s1 ?R < um_w s then r1 = ?R \<and> w1 = rum_window s
       else um_pos ?s1 r1 = 0 \<and> um_cleared ?s1 (um_pos ?s1 ?R) (2 * um_w s) w1"
      "um_pos ?s1 r1 \<le> um_pos ?s1 r2" "um_pos ?s1 r2 \<le> um_w s"
      "um_cleared (?s1\<lparr>rum_window := w1\<rparr>) (um_pos ?s1 r1) (um_pos ?s1 r2) w"
      "um_pos ?s1 r2 < um_w s \<longrightarrow> (\<forall>info. cm_lookup w r2 = Some info \<longrightarrow> \<not> fully_received info)"
    using move_highest_um_spec [OF wf, of sn] by (elim exE conjE) (rule that, assumption+)
  have wf2: "um_wf (?s1\<lparr>rum_window := w1\<rparr>)"
    using m(3) wf1 um_cleared_wf [OF wf1] by (auto split: if_splits)
  have wf3: "um_wf (?s1\<lparr>rum_window := w, rx_next_reassembly := r2\<rparr>)"
    using um_wf_upd(1) [OF um_cleared_wf [OF wf2 m(6)], of r2] m(2) by simp
  have key: "x < rum_mod s \<and> um_info_ok info \<and> um_pos ?s1 r2 \<le> um_pos ?s1 x \<and> um_pos ?s1 x < um_w s"
    if l: "cm_lookup w x = Some info" for x info
  proof -
    have l1: "cm_lookup w1 x = Some info"
      "\<not> (x < rum_mod s \<and> um_pos ?s1 r1 \<le> um_pos ?s1 x \<and> um_pos ?s1 x < um_pos ?s1 r2)"
      using um_cleared_Some [OF m(6) l] by simp_all
    have l0: "cm_lookup (rum_window s) x = Some info"
      "\<not> um_pos ?s1 ?R < um_w s \<longrightarrow> \<not> (x < rum_mod s \<and> um_pos ?s1 ?R \<le> um_pos ?s1 x)"
      using m(3) l1(1) um_cleared_Some [of ?s1 _ _ w1 x info] um_pos_less [OF wf1, of x]
      by (auto split: if_splits)
    note k = keys [OF l0(1)]
    have "um_pos ?s1 r1 \<le> um_pos ?s1 x \<and> um_pos ?s1 x < um_w s"
    proof (cases "um_pos ?s1 ?R < um_w s")
      case True
      then have "r1 = ?R" "d \<le> um_pos s ?R" using m(3) pos [of ?R] dw by (auto split: if_splits)
      then show ?thesis using k pos [of x] pos [of ?R] pos [of sn] out dw True r by (auto simp: d_def)
    next
      case False
      then have "um_pos ?s1 r1 = 0" using m(3) by simp
      moreover have "um_pos s ?R < d" using False r dw pos [of ?R] by (auto split: if_splits)
      ultimately show ?thesis
        using k l0(2) False pos [of x] pos [of ?R] pos [of sn] out dw by (auto simp: d_def split: if_splits)
    qed
    then show ?thesis using k l1(2) by auto
  qed
  have np: "um_pos ?s1 r2 = um_w s \<Longrightarrow> cm_lookup w r2 = None"
    using key [of r2] by (cases "cm_lookup w r2") auto
  have "um_inv (?s1\<lparr>rum_window := w, rx_next_reassembly := r2\<rparr>)"
    unfolding um_inv_def using wf3 m(5,7) key np by (fastforce simp: le_less)
  then show ?thesis using m(1) mv by (simp add: um_same_def)
qed

lemma um_stored_segs:
  assumes "segs_ok (segments info)" "payload \<noteq> []" "unat (um_so h) + length payload \<le> 65536"
  shows "segs_ok (segments (um_stored h payload info))"
  using store_segment_ok(1) [OF assms(1), of "\<lparr>seg_si = um_si h, seg_so = um_so h, seg_payload = payload\<rparr>"] assms
  by (simp add: um_stored_def Let_def seg_ok_def seg_end_def)

lemma um_stored_fresh:
  assumes "has_so (um_si h) \<longrightarrow> um_so h \<noteq> 0"
  shows "\<not> fully_received (um_stored h payload (um_fresh now))"
proof (cases "um_si h = Last_Segment")
  case True
  then have "unat (um_so h) \<noteq> 0" using assms by (simp add: has_so_iff unat_eq_0)
  then show ?thesis
    by (simp add: um_stored_def um_fresh_def store_segment_def update_segment_inventory_def)
next
  case False
  then show ?thesis
    by (simp add: um_stored_def um_fresh_def store_segment_def update_segment_inventory_def)
qed

text \<open>The window between storing a segment with sequence number \<open>sn\<close> and acting on it.\<close>

definition um_mid :: "u32 \<Rightarrow> rlc_rx_um_sdu_info \<Rightarrow> rlc_rx_um_entity \<Rightarrow> bool" where
  "um_mid sn info s \<longleftrightarrow> um_wf s \<and> sn < rum_mod s \<and> um_pos s (rx_next_reassembly s) \<le> um_w s \<and>
     um_pos s (rx_next_reassembly s) \<le> um_pos s sn \<and> cm_lookup (rum_window s) sn = Some info \<and>
     segs_ok (segments info) \<and> (fully_received info \<longrightarrow> um_pos s sn < um_w s) \<and>
     (\<forall>x i. x \<noteq> sn \<longrightarrow> cm_lookup (rum_window s) x = Some i \<longrightarrow>
        x < rum_mod s \<and> um_pos s (rx_next_reassembly s) \<le> um_pos s x \<and> um_pos s x < um_w s \<and> um_info_ok i \<and>
        (x = rx_next_reassembly s \<longrightarrow> \<not> fully_received i))"

lemma um_midI:
  assumes "um_wf s" "sn < rum_mod s" "um_pos s (rx_next_reassembly s) \<le> um_w s"
    "um_pos s (rx_next_reassembly s) \<le> um_pos s sn" "cm_lookup (rum_window s) sn = Some info"
    "segs_ok (segments info)" "fully_received info \<Longrightarrow> um_pos s sn < um_w s"
    "\<And>x i. x \<noteq> sn \<Longrightarrow> cm_lookup (rum_window s) x = Some i \<Longrightarrow>
        x < rum_mod s \<and> um_pos s (rx_next_reassembly s) \<le> um_pos s x \<and> um_pos s x < um_w s \<and> um_info_ok i \<and>
        (x = rx_next_reassembly s \<longrightarrow> \<not> fully_received i)"
  shows "um_mid sn info s"
  unfolding um_mid_def using assms by blast

lemma complete_sdu_um_inv:
  assumes mid: "um_mid sn info s" and full: "fully_received info"
    and c: "complete_sdu_um alloc sn info s = Inr (s', as)"
  shows "um_inv s' \<and> um_same s s'"
proof -
  have wf: "um_wf s" and i: "cm_lookup (rum_window s) sn = Some info" using mid by (auto simp: um_mid_def)
  let ?s1 = "s\<lparr>rum_window := assign_cm (rum_window s) sn (info\<lparr>segments := []\<rparr>)\<rparr>" and ?R = "rx_next_reassembly s"
  have cw: "cm_wf (rum_window s)" using wf by (simp add: um_wf_def Let_def)
  have look: "cm_lookup (assign_cm (rum_window s) sn (info\<lparr>segments := []\<rparr>))
      = (cm_lookup (rum_window s))(sn \<mapsto> info\<lparr>segments := []\<rparr>)"
    using cm_lookup_assign [OF cw, of sn] i by (simp add: contains_lookup)
  obtain r w as2 where e: "complete_sdu_um alloc sn info s = Inr (s\<lparr>rum_window := w, rx_next_reassembly := r\<rparr>, as2)"
    "r < rum_mod s" "um_wf (s\<lparr>rum_window := w\<rparr>)"
    "if sn = ?R then um_pos s ?R \<le> um_pos s r \<and> (um_pos s ?R \<le> um_w s \<longrightarrow> um_pos s r \<le> um_w s) \<and>
       um_cleared ?s1 (um_pos s ?R) (um_pos s r) w \<and>
       (um_pos s r < um_w s \<longrightarrow> (\<forall>info. cm_lookup w r = Some info \<longrightarrow> \<not> fully_received info))
     else r = ?R \<and> w = rum_window ?s1"
    using complete_sdu_um_spec [OF wf i, of alloc] by (elim exE conjE) (rule that, assumption+)
  have k1: "x < rum_mod s \<and> um_pos s ?R \<le> um_pos s x \<and> um_pos s x < um_w s \<and> um_info_ok j"
    if "cm_lookup (rum_window ?s1) x = Some j" for x j
    using that mid full by (auto simp: look um_mid_def um_info_ok_def split: if_splits)
  have wf': "um_wf (s\<lparr>rum_window := w, rx_next_reassembly := r\<rparr>)"
    using um_wf_upd(1) [OF e(3), of r] e(2) by simp
  have key: "x < rum_mod s \<and> um_pos s r \<le> um_pos s x \<and> um_pos s x < um_w s \<and> um_info_ok j"
    if l: "cm_lookup w x = Some j" for x j
  proof (cases "sn = ?R")
    case True
    then have cl: "um_cleared ?s1 (um_pos s ?R) (um_pos s r) w" using e(4) by simp
    have "cm_lookup (rum_window ?s1) x = Some j" "\<not> (x < rum_mod s \<and> um_pos s ?R \<le> um_pos s x \<and> um_pos s x < um_pos s r)"
      using um_cleared_Some [OF cl l] by simp_all
    then show ?thesis using k1 [of x j] by auto
  next
    case False
    then show ?thesis using e(4) l k1 [of x j] by simp
  qed
  have rw: "um_pos s r \<le> um_w s" using e(4) mid by (auto simp: um_mid_def split: if_splits)
  have nf: "\<not> fully_received j" if l: "cm_lookup w r = Some j" for j
  proof (cases "sn = ?R")
    case True
    then show ?thesis using e(4) l key [OF l] by auto
  next
    case False
    then have "cm_lookup (rum_window s) ?R = Some j" "r = ?R" using e(4) l by (auto simp: look split: if_splits)
    then show ?thesis using mid False by (auto simp: um_mid_def)
  qed
  have "um_inv (s\<lparr>rum_window := w, rx_next_reassembly := r\<rparr>)"
    unfolding um_inv_def using wf' rw key nf by auto
  then show ?thesis using e(1) c by (simp add: um_same_def)
qed

lemma place_um_inv:
  assumes mid: "um_mid sn info s" and p: "place_um alloc sn s = Inr (s', as)"
  shows "um_inv s' \<and> um_same s s'"
proof -
  have wf: "um_wf s" and i: "cm_lookup (rum_window s) sn = Some info" using mid by (auto simp: um_mid_def)
  consider (full) "fully_received info" | (inside) "\<not> fully_received info" "um_pos s sn < um_w s"
    | (outside) "\<not> fully_received info" "um_w s \<le> um_pos s sn" by fastforce
  then show ?thesis
  proof cases
    case full
    then show ?thesis using complete_sdu_um_inv [OF mid full] p i by (simp add: place_um_def)
  next
    case inside
    then have "s' = s" using p i by (simp add: place_um_def um_in_window [OF wf])
    moreover have "x < rum_mod s \<and> um_pos s (rx_next_reassembly s) \<le> um_pos s x \<and> um_pos s x < um_w s \<and>
        um_info_ok j \<and> (x = rx_next_reassembly s \<longrightarrow> \<not> fully_received j)"
      if "cm_lookup (rum_window s) x = Some j" for x j
      using that mid inside i by (cases "x = sn") (auto simp: um_mid_def um_info_ok_def)
    then have "um_inv s" unfolding um_inv_def using mid by (auto simp: um_mid_def)
    ultimately show ?thesis by (simp add: um_same_def)
  next
    case outside
    then have mv: "move_highest_um sn s = Inr (s', as)"
      using p i by (simp add: place_um_def um_in_window [OF wf])
    have k: "x < rum_mod s \<and> um_info_ok j \<and>
        (x = sn \<or> um_pos s (rx_next_reassembly s) \<le> um_pos s x \<and> um_pos s x < um_w s)"
      if "cm_lookup (rum_window s) x = Some j" for x j
      using that mid outside(1) i by (cases "x = sn") (auto simp: um_mid_def um_info_ok_def)
    show ?thesis
      by (rule move_highest_um_inv [OF wf outside(2) _ _ k mv]) (use mid in \<open>simp_all add: um_mid_def\<close>)
  qed
qed

lemma um_inv_timer: "um_inv (s\<lparr>rum_reassembly_timer := t\<rparr>) = um_inv s"
  "r < rum_mod s \<Longrightarrow> um_inv s \<Longrightarrow> um_inv (s\<lparr>rum_reassembly_timer := t, rx_timer_trigger := r\<rparr>)"
  by (auto simp: um_inv_def um_wf_upd)

lemma restart_timer_um_inv: "um_inv s \<Longrightarrow> restart_timer_um s = Inr s' \<Longrightarrow> um_inv s'"
  using um_wf_less(1) [of s]
  by (auto simp: restart_timer_um_def Let_def bind_res_Inr_iff um_inv_def um_wf_upd split: if_splits)

lemma update_timer_um_inv: "um_inv s \<Longrightarrow> update_timer_um s = Inr s' \<Longrightarrow> um_inv s'"
proof -
  assume inv: "um_inv s" and u: "update_timer_um s = Inr s'"
  have "um_inv (stop_timer_um s)" using inv by (simp add: stop_timer_um_def Let_def um_inv_timer)
  then show ?thesis using u restart_timer_um_inv by (auto simp: update_timer_um_def Let_def split: if_splits)
qed

lemma um_header_sn_less:
  assumes "rlc_um_read_data_pdu_header buf z h0 = Some h"
  shows "(ucast (um_sn h) :: u32) < cardinality (to_number_um_sn z)"
proof -
  have "unat (ucast (um_sn h) :: u32) \<le> unat (um_sn h)"
    by (simp add: unsigned_ucast_eq take_bit_nat_less_eq_self)
  then show ?thesis
    using um_read_sn_less [OF assms]
    by (cases z) (auto simp: word_less_nat_alt cardinality_def push_bit_eq_mult)
qed

lemma handle_pdu_um_inv:
  assumes inv: "um_inv s" and cf: "um_conform (rxum_sn_field_length (rum_cfg s)) buf"
    and hp: "handle_pdu_um alloc now buf s = Inr (s', as)"
  shows "um_inv s'"
proof -
  have wf: "um_wf s" using inv by (simp add: um_inv_def)
  show ?thesis
  proof (cases "s' = s")
    case False
    then obtain h where h: "rlc_um_read_data_pdu_header buf (rxum_sn_field_length (rum_cfg s)) empty_um_header = Some h"
      and len: "\<not> length buf \<le> rlc_um_nr_packed_length h" and si: "um_si h \<noteq> Full_Sdu"
      and val: "\<not> sn_invalid_for_rx_buffer_um s (ucast (um_sn h))"
      using hp by (auto simp: handle_pdu_um_def Let_def split: option.splits if_splits)
    let ?sn = "ucast (um_sn h) :: u32" and ?pay = "drop (rlc_um_nr_packed_length h) buf"
    let ?old = "case cm_lookup (rum_window s) ?sn of None \<Rightarrow> um_fresh now | Some i \<Rightarrow> i"
    let ?info = "um_stored h ?pay ?old"
    obtain st w where w: "handle_segment_data_sdu_um now h ?pay s = Inr (st, s\<lparr>rum_window := w\<rparr>)"
      "cm_wf w" "cm_max_size w = cm_max_size (rum_window s)" "cm_lookup w ?sn = Some ?info"
      "\<forall>x. x \<noteq> ?sn \<longrightarrow> cm_lookup w x = None \<or> cm_lookup w x = cm_lookup (rum_window s) x"
      using handle_segment_um_spec [OF wf si] by blast
    have snlt: "?sn < rum_mod s" using um_header_sn_less [OF h] wf by (simp add: um_wf_def Let_def)
    have cfh: "has_so (um_si h) \<longrightarrow> um_so h \<noteq> 0" "unat (um_so h) + length ?pay \<le> 65536"
      using cf h by (simp_all add: um_conform_def)
    have old: "segs_ok (segments ?old)"
      using inv by (auto simp: um_inv_def um_info_ok_def um_fresh_def split: option.splits)
    have full: "fully_received ?info \<longrightarrow> um_pos s ?sn < um_w s"
      using um_stored_fresh [OF cfh(1)] inv
      by (cases "cm_lookup (rum_window s) ?sn") (auto simp: um_inv_def)
    have wfw: "um_wf (s\<lparr>rum_window := w\<rparr>)" by (rule um_wf_window [OF wf w(2,3)])
    have segs: "segs_ok (segments ?info)" using um_stored_segs [OF old _ cfh(2)] len by simp
    have posr: "um_pos s (rx_next_reassembly s) \<le> um_pos s ?sn" using val by (simp add: um_invalid [OF wf])
    have oldkey: "cm_lookup (rum_window s) x = Some i" if "x \<noteq> ?sn" "cm_lookup w x = Some i" for x i
      using that w(5) by (metis option.distinct(1))
    have others: "\<forall>x i. x \<noteq> ?sn \<longrightarrow> cm_lookup w x = Some i \<longrightarrow>
        x < rum_mod s \<and> um_pos s (rx_next_reassembly s) \<le> um_pos s x \<and> um_pos s x < um_w s \<and>
        um_info_ok i \<and> (x = rx_next_reassembly s \<longrightarrow> \<not> fully_received i)"
      using oldkey um_invD(3,4) [OF inv] by blast
    have "um_mid ?sn ?info (s\<lparr>rum_window := w\<rparr>)"
      by (rule um_midI; (simp only: um_frame)?)
         (use wfw snlt segs posr full w(4) um_invD(1,2) [OF inv] others in auto)
    moreover obtain s2 as2 where p: "place_um alloc ?sn (s\<lparr>rum_window := w\<rparr>) = Inr (s2, as2)" "update_timer_um s2 = Inr s'"
      using hp h len si val w(1) by (auto simp: handle_pdu_um_def Let_def bind_res_Inr_iff)
    ultimately have "um_inv s2" using place_um_inv by blast
    then show ?thesis using update_timer_um_inv p(2) by blast
  qed (use inv in simp)
qed

lemma expiry_um_inv:
  assumes inv: "um_inv s" and e: "on_expired_reassembly_timer_um s = Inr (s', as)"
  shows "um_inv s'"
proof -
  have wf: "um_wf s" using inv by (simp add: um_inv_def)
  have f: "um_w s - um_pos s (rx_next_reassembly s) < loop_bound_um s" by (simp add: loop_bound_um_wf [OF wf])
  let ?R = "rx_next_reassembly s"
  obtain r w as2 where x: "expire_um (loop_bound_um s) ?R s = Inr (r, s\<lparr>rum_window := w\<rparr>, as2)"
    "r < rum_mod s" "um_pos s ?R \<le> um_pos s r" "um_pos s ?R \<le> um_w s \<longrightarrow> um_pos s r \<le> um_w s"
    "um_cleared s (um_pos s ?R) (um_pos s r) w"
    "um_pos s r < um_w s \<longrightarrow> (\<forall>info. cm_lookup w r = Some info \<longrightarrow> \<not> fully_received info)"
    using expire_um_spec [OF wf um_wf_less(2) [OF wf] f] by blast
  have wf1: "um_wf (s\<lparr>rum_window := w, rx_next_reassembly := r\<rparr>)"
    using um_wf_upd(1) [OF um_cleared_wf [OF wf x(5)], of r] x(2) by simp
  have key: "y < rum_mod s \<and> um_pos s r \<le> um_pos s y \<and> um_pos s y < um_w s \<and> um_info_ok i"
    if "cm_lookup w y = Some i" for y i
  proof -
    have o: "cm_lookup (rum_window s) y = Some i"
      "\<not> (y < rum_mod s \<and> um_pos s ?R \<le> um_pos s y \<and> um_pos s y < um_pos s r)"
      using um_cleared_Some [OF x(5) that] by simp_all
    then have "y < rum_mod s \<and> um_pos s ?R \<le> um_pos s y \<and> um_pos s y < um_w s \<and> um_info_ok i"
      using inv unfolding um_inv_def by blast
    then show ?thesis using o(2) by auto
  qed
  have "um_inv (s\<lparr>rum_window := w, rx_next_reassembly := r\<rparr>)"
  proof (rule um_invI)
    show "um_pos (s\<lparr>rum_window := w, rx_next_reassembly := r\<rparr>)
        (rx_next_reassembly (s\<lparr>rum_window := w, rx_next_reassembly := r\<rparr>)) \<le>
        um_w (s\<lparr>rum_window := w, rx_next_reassembly := r\<rparr>)"
      using x(4) um_invD(2) [OF inv] by simp
    show "\<not> fully_received i" if "cm_lookup (rum_window (s\<lparr>rum_window := w, rx_next_reassembly := r\<rparr>))
        (rx_next_reassembly (s\<lparr>rum_window := w, rx_next_reassembly := r\<rparr>)) = Some i" for i
      using that x(6) key [of r i] by simp
  qed (use wf1 key in simp_all)
  then show ?thesis
    using e x(1) restart_timer_um_inv by (auto simp: on_expired_reassembly_timer_um_def bind_res_Inr_iff)
qed

lemma um_reach_inv:
  assumes "um_reach (um_conform (rxum_sn_field_length cfg)) cfg s" "0 < rxum_t_reassembly cfg"
  shows "um_inv s"
  using assms
proof (induction rule: um_reach.induct)
  case um_init
  have r: "rx_next_highest (new_rx_um cfg) = rx_next_reassembly (new_rx_um cfg)"
    "rum_window (new_rx_um cfg) = new_circular_map (unat (window_size (to_number_um_sn (rxum_sn_field_length cfg))))"
    by (simp_all add: new_rx_um_def Let_def)
  show ?case
    by (rule um_invI) (use um_wf_new [of cfg] um_pos_highest [OF um_wf_new [of cfg]] in \<open>simp_all add: r\<close>)
next
  case (um_pdu s buf alloc now s' as)
  then show ?case using handle_pdu_um_inv um_reach_ok by blast
next
  case (um_expiry s s' as)
  then show ?case using expiry_um_inv um_inv_timer(1) by blast
qed

text \<open>
  C19. Over every history of expiries and of PDUs of a conforming transmitter (a segment that carries an offset has
  one above 0, and no segment ends above 65536), with a positive t-Reassembly, the state variables are
  ordered, RX\_Next\_Highest minus the window size, RX\_Next\_Reassembly, RX\_Next\_Highest; every SDU kept in
  the window has its SN at or after RX\_Next\_Reassembly and before RX\_Next\_Highest; its segments are
  disjoint and sorted, or released if it was delivered; and the SDU RX\_Next\_Reassembly is not complete.
\<close>

theorem rx_um_window_order:
  assumes "um_reach (um_conform (rxum_sn_field_length cfg)) cfg s" and "0 < rxum_t_reassembly cfg"
  shows "um_inv s \<and> \<not> has_sn (rum_window s) (rx_next_highest s)"
proof -
  have inv: "um_inv s" by (rule um_reach_inv [OF assms])
  have "cm_lookup (rum_window s) (rx_next_highest s) = None"
    using um_invD(1) [OF inv] um_invD(3) [OF inv, of "rx_next_highest s"] um_pos_highest [of s]
    by (cases "cm_lookup (rum_window s) (rx_next_highest s)") auto
  then show ?thesis using inv by (simp add: has_sn_lookup)
qed

text \<open>The first segment of SN 1 arrives, while nothing of SN 0 did: SN 0 and 1 are in reassembly, and 1 is buffered.\<close>

theorem rx_um_window_order_witness:
  "(case handle_pdu_um True 0 [0x41, 1] (new_rx_um (sample_um_cfg 50)) of
      Inl _ \<Rightarrow> False
    | Inr (s, _) \<Rightarrow> rx_next_reassembly s = 0 \<and> rx_next_highest s = 2 \<and> has_sn (rum_window s) 1 \<and>
        um_inv s \<and> \<not> has_sn (rum_window s) (rx_next_highest s))"
proof -
  let ?c = "sample_um_cfg 50" and ?r = "handle_pdu_um True 0 [0x41, 1] (new_rx_um (sample_um_cfg 50))"
  have "case ?r of Inl _ \<Rightarrow> False | Inr (s, _) \<Rightarrow> rx_next_reassembly s = 0 \<and> rx_next_highest s = 2 \<and> has_sn (rum_window s) 1"
    by code_simp
  then obtain s as where s: "?r = Inr (s, as)" "rx_next_reassembly s = 0" "rx_next_highest s = 2" "has_sn (rum_window s) 1"
    by (auto split: sum.splits prod.splits)
  have "rlc_um_read_data_pdu_header [0x41, 1] Size6bits empty_um_header =
      Some \<lparr>um_si = First_Segment, um_sn_size = Size6bits, um_sn = 1, um_so = 0\<rparr>"
    by code_simp
  then have "um_conform (rxum_sn_field_length ?c) [0x41, 1]"
    by (simp add: um_conform_def sample_um_cfg_def)
  from rx_um_window_order [OF um_pdu [where P = "um_conform (rxum_sn_field_length ?c)", OF um_init this s(1)]] s
  show ?thesis by (simp add: sample_um_cfg_def)
qed

section \<open>Delivery\<close>

text \<open>
  \<open>f\<close> gives the SDU that the peer sends under each SN. The buffered segments are slices of these SDUs.
\<close>

definition um_consistent :: "(u32 \<Rightarrow> byte_buffer) \<Rightarrow> rlc_rx_um_entity \<Rightarrow> bool" where
  "um_consistent f s \<longleftrightarrow>
     (\<forall>x info. cm_lookup (rum_window s) x = Some info \<longrightarrow> (\<forall>seg \<in> set (segments info). seg_slice (f x) seg))"

lemma um_consistent_cleared:
  "um_consistent f s \<Longrightarrow> um_cleared s' lo hi w \<Longrightarrow> rum_window s' = rum_window s \<Longrightarrow>
    um_consistent f (s\<lparr>rum_window := w\<rparr>)"
  by (auto simp: um_consistent_def dest: um_cleared_Some)

lemma um_consistent_upd:
  "um_consistent f (s\<lparr>rx_next_reassembly := r\<rparr>) = um_consistent f s"
  "um_consistent f (s\<lparr>rx_next_highest := r\<rparr>) = um_consistent f s"
  "um_consistent f (s\<lparr>rum_window := w, rx_next_reassembly := r\<rparr>) = um_consistent f (s\<lparr>rum_window := w\<rparr>)"
  by (simp_all add: um_consistent_def)

lemma um_consistent_window:
  "rum_window s' = rum_window s \<Longrightarrow> um_consistent f s' = um_consistent f s"
  by (simp add: um_consistent_def)

lemma move_highest_um_delivery:
  assumes wf: "um_wf s" and c: "um_consistent f s" and mv: "move_highest_um sn s = Inr (s', as)"
  shows "um_consistent f s' \<and> delivered as = []"
proof -
  let ?s1 = "s\<lparr>rx_next_highest := (sn + 1) mod rum_mod s\<rparr>"
  obtain r1 w1 r2 w as2 where m: "move_highest_um sn s = Inr (?s1\<lparr>rum_window := w, rx_next_reassembly := r2\<rparr>, as2)"
      "delivered as2 = []"
      "if um_pos ?s1 (rx_next_reassembly s) < um_w s then r1 = rx_next_reassembly s \<and> w1 = rum_window s
       else um_pos ?s1 r1 = 0 \<and> um_cleared ?s1 (um_pos ?s1 (rx_next_reassembly s)) (2 * um_w s) w1"
      "um_cleared (?s1\<lparr>rum_window := w1\<rparr>) (um_pos ?s1 r1) (um_pos ?s1 r2) w"
    using move_highest_um_spec [OF wf, of sn] by (elim exE conjE) (rule that, assumption+)
  have "um_consistent f (s\<lparr>rum_window := w1\<rparr>)"
    using m(3) c um_consistent_cleared [OF c] by (auto split: if_splits)
  then have "um_consistent f (s\<lparr>rum_window := w1\<rparr>\<lparr>rum_window := w\<rparr>)"
    by (rule um_consistent_cleared [OF _ m(4)]) simp
  moreover have "rum_window s' = w" "delivered as = []" using m(1,2) mv by auto
  ultimately show ?thesis using um_consistent_window [of s' "s\<lparr>rum_window := w\<rparr>" f] by simp
qed

lemma place_um_delivery:
  assumes wf: "um_wf s" and i: "cm_lookup (rum_window s) sn = Some info"
    and c: "um_consistent f s" and p: "place_um True sn s = Inr (s', as)"
  shows "um_consistent f s' \<and>
    delivered as = (if fully_received info then [reassemble_segments (segments info)] else [])"
proof (cases "fully_received info")
  case True
  let ?s1 = "s\<lparr>rum_window := assign_cm (rum_window s) sn (info\<lparr>segments := []\<rparr>)\<rparr>"
  have cw: "cm_wf (rum_window s)" using wf by (simp add: um_wf_def Let_def)
  have c1: "um_consistent f ?s1"
    using c cm_lookup_assign [OF cw, of sn] i
    by (auto simp: um_consistent_def contains_lookup split: if_splits)
  obtain r w as2 where e: "complete_sdu_um True sn info s = Inr (s\<lparr>rum_window := w, rx_next_reassembly := r\<rparr>, as2)"
    "as2 = (case reassemble_sdu_um True info of None \<Rightarrow> [Metrics_Add_Lost_Pdus 1]
          | Some sdu \<Rightarrow> [Metrics_Add_Sdus 1 (length sdu), On_New_Sdu sdu])"
    "um_cleared ?s1 (um_pos s (rx_next_reassembly s)) (um_pos s r) w \<or> w = rum_window ?s1"
    using complete_sdu_um_spec [OF wf i, of True]
    by (elim exE conjE) (rule that, assumption, assumption, simp split: if_splits)
  have "um_consistent f (?s1\<lparr>rum_window := w\<rparr>)"
    using e(3) um_consistent_cleared [OF c1] c1 by auto
  moreover have "rum_window s' = w" "as = as2" using p i True e(1) by (auto simp: place_um_def)
  ultimately show ?thesis
    using True e(2) um_consistent_window [of s' "?s1\<lparr>rum_window := w\<rparr>" f] by (simp add: reassemble_sdu_um_def)
next
  case False
  then show ?thesis
    using p i c move_highest_um_delivery [OF wf c, of sn s' as]
    by (auto simp: place_um_def split: if_splits)
qed

lemma update_timer_um_window: "update_timer_um s = Inr s' \<Longrightarrow> rum_window s' = rum_window s"
  by (auto simp: update_timer_um_def stop_timer_um_def restart_timer_um_def Let_def bind_res_Inr_iff split: if_splits)

text \<open>
  C18. A valid segment of the SDU that the peer sends under its SN, received in any order with the other
  segments: if it completes the SDU, exactly this SDU is delivered, otherwise nothing is; and the
  window stays consistent with what the peer sends.
\<close>

theorem rx_um_delivers_sdu:
  assumes inv: "um_inv s" and cons: "um_consistent f s"
    and h: "rlc_um_read_data_pdu_header buf (rxum_sn_field_length (rum_cfg s)) empty_um_header = Some h"
    and len: "rlc_um_nr_packed_length h < length buf" and si: "um_si h \<noteq> Full_Sdu"
    and val: "\<not> sn_invalid_for_rx_buffer_um s (ucast (um_sn h))"
    and ne: "f (ucast (um_sn h)) \<noteq> []"
    and seg: "seg = \<lparr>seg_si = um_si h, seg_so = um_so h, seg_payload = drop (rlc_um_nr_packed_length h) buf\<rparr>"
    and sl: "seg_ok seg" "seg_slice (f (ucast (um_sn h))) seg"
    and hp: "handle_pdu_um True now buf s = Inr (s', as)"
  shows "um_consistent f s' \<and>
    delivered as =
      (if (case cm_lookup (rum_window s) (ucast (um_sn h)) of
             None \<Rightarrow> {} | Some info \<Rightarrow> segs_cover (segments info)) \<union> seg_cover seg
          = {0 ..< length (f (ucast (um_sn h)))}
       then [f (ucast (um_sn h))] else [])"
proof -
  have wf: "um_wf s" by (rule um_invD(1) [OF inv])
  let ?sn = "ucast (um_sn h) :: u32" and ?pay = "drop (rlc_um_nr_packed_length h) buf"
  let ?old = "case cm_lookup (rum_window s) ?sn of None \<Rightarrow> um_fresh now | Some i \<Rightarrow> i"
  let ?info = "um_stored h ?pay ?old"
  obtain st w where w: "handle_segment_data_sdu_um now h ?pay s = Inr (st, s\<lparr>rum_window := w\<rparr>)"
    "cm_wf w" "cm_max_size w = cm_max_size (rum_window s)" "cm_lookup w ?sn = Some ?info"
    "\<forall>x. x \<noteq> ?sn \<longrightarrow> cm_lookup w x = None \<or> cm_lookup w x = cm_lookup (rum_window s) x"
    using handle_segment_um_spec [OF wf si] by blast
  have wfw: "um_wf (s\<lparr>rum_window := w\<rparr>)" by (rule um_wf_window [OF wf w(2,3)])
  have old: "segs_inv (f ?sn) (segments ?old)"
    using um_invD(3) [OF inv, of ?sn] cons
    by (auto simp: segs_inv_def um_info_ok_def um_consistent_def um_fresh_def split: option.splits)
  have new: "segments ?info = snd (store_segment (segments ?old) seg)"
    "fully_received ?info = fst (update_segment_inventory (segments ?info))"
    by (simp_all add: um_stored_def seg Let_def)
  have inv': "segs_inv (f ?sn) (segments ?info)"
    unfolding new(1) by (rule segs.store_inv [OF old sl])
  have full: "fully_received ?info \<longleftrightarrow> segs_cover (segments ?old) \<union> seg_cover seg = {0 ..< length (f ?sn)}"
    unfolding new(2) inventory_correct(1) [OF inv' ne] unfolding new(1) by (simp add: segs.store_cover [OF old sl])
  have cw: "um_consistent f (s\<lparr>rum_window := w\<rparr>)"
    unfolding um_consistent_def
  proof (intro allI impI ballI)
    fix x i g
    assume l: "cm_lookup (rum_window (s\<lparr>rum_window := w\<rparr>)) x = Some i" and g: "g \<in> set (segments i)"
    show "seg_slice (f x) g"
    proof (cases "x = ?sn")
      case True
      then have "i = ?info" using l w(4) by simp
      then show ?thesis using inv' g True unfolding segs_inv_def by blast
    next
      case False
      then have "cm_lookup (rum_window s) x = Some i" using l w(5) by (metis option.distinct(1) rlc_rx_um_entity.select_convs(4) rlc_rx_um_entity.update_convs(4) rlc_rx_um_entity.surjective)
      then show ?thesis using cons g unfolding um_consistent_def by blast
    qed
  qed
  obtain s2 as2 where p: "place_um True ?sn (s\<lparr>rum_window := w\<rparr>) = Inr (s2, as2)" "update_timer_um s2 = Inr s'"
    "as = [Metrics_Add_Pdus 1 (length buf)] @ as2"
    using hp h len si val w(1) by (auto simp: handle_pdu_um_def Let_def bind_res_Inr_iff)
  have d: "um_consistent f s2 \<and>
      delivered as2 = (if fully_received ?info then [reassemble_segments (segments ?info)] else [])"
    by (rule place_um_delivery [OF wfw _ cw p(1)]) (simp add: w(4))
  have "fully_received ?info \<Longrightarrow> reassemble_segments (segments ?info) = f ?sn"
    using inventory_correct(2) [OF inv' ne] new(2) by simp
  moreover have "(case cm_lookup (rum_window s) ?sn of None \<Rightarrow> {} | Some info \<Rightarrow> segs_cover (segments info))
      = segs_cover (segments ?old)"
    by (simp add: um_fresh_def split: option.splits)
  ultimately show ?thesis
    using d p(3) full um_consistent_window [OF update_timer_um_window [OF p(2)], of f] by simp
qed

text \<open>The SDU of two bytes with SN 0: its first segment delivers nothing, and its last segment completes it.\<close>

theorem rx_um_delivers_sdu_witness:
  "\<exists>s1 as1 s2 as2. handle_pdu_um True 0 [0x40, 1] (new_rx_um (sample_um_cfg 50)) = Inr (s1, as1) \<and> delivered as1 = [] \<and>
     handle_pdu_um True 0 [0x80, 0, 1, 2] s1 = Inr (s2, as2) \<and> delivered as2 = [[1, 2]]"
proof -
  let ?c = "sample_um_cfg 50" and ?s = "new_rx_um (sample_um_cfg 50)"
  let ?h = "\<lparr>um_si = First_Segment, um_sn_size = Size6bits, um_sn = 0, um_so = 0\<rparr>"
  let ?seg = "\<lparr>seg_si = um_si ?h, seg_so = um_so ?h, seg_payload = drop (rlc_um_nr_packed_length ?h) [0x40, 1]\<rparr>"
  let ?h' = "\<lparr>um_si = Last_Segment, um_sn_size = Size6bits, um_sn = 0, um_so = 1\<rparr>"
  let ?seg' = "\<lparr>seg_si = um_si ?h', seg_so = um_so ?h', seg_payload = drop (rlc_um_nr_packed_length ?h') [0x80, 0, 1, 2]\<rparr>"
  have c: "rxum_sn_field_length ?c = Size6bits" "0 < rxum_t_reassembly ?c" "rum_cfg ?s = ?c"
    by (simp_all add: sample_um_cfg_def new_rx_um_def Let_def)
  have inv: "um_inv ?s" by (rule um_reach_inv [OF um_init c(2)])
  have look: "cm_lookup (rum_window ?s) x = None" for x by (simp add: new_rx_um_def Let_def)
  have cons: "um_consistent (\<lambda>_. [1, 2]) ?s" by (simp add: um_consistent_def look)
  have h: "rlc_um_read_data_pdu_header [0x40, 1] Size6bits empty_um_header = Some ?h"
    "rlc_um_read_data_pdu_header [0x80, 0, 1, 2] Size6bits empty_um_header = Some ?h'"
    by code_simp+
  have val: "\<not> sn_invalid_for_rx_buffer_um ?s (ucast (um_sn ?h))" by code_simp
  have len: "rlc_um_nr_packed_length ?h < length [0x40 :: u8, 1]" "um_si ?h \<noteq> Full_Sdu"
    "rlc_um_nr_packed_length ?h' < length [0x80 :: u8, 0, 1, 2]" "um_si ?h' \<noteq> Full_Sdu"
    by (simp_all add: rlc_um_nr_packed_length_def)
  have sl: "seg_ok ?seg" "seg_slice [1, 2] ?seg" "seg_cover ?seg = {0}"
    "seg_ok ?seg'" "seg_slice [1, 2] ?seg'" "seg_cover ?seg' = {1}"
    by (auto simp: seg_ok_def seg_slice_def seg_end_def seg_cover_def rlc_um_nr_packed_length_def)
  have "case handle_pdu_um True 0 [0x40, 1] ?s of
      Inl _ \<Rightarrow> False
    | Inr (s, _) \<Rightarrow> rum_cfg s = ?c \<and> \<not> sn_invalid_for_rx_buffer_um s (ucast (um_sn ?h')) \<and>
        map_option segments (cm_lookup (rum_window s) (ucast (um_sn ?h'))) =
          Some [\<lparr>seg_si = First_Segment, seg_so = 0, seg_payload = [1]\<rparr>]"
    by code_simp
  then obtain s1 as1 info where s1: "handle_pdu_um True 0 [0x40, 1] ?s = Inr (s1, as1)" "rum_cfg s1 = ?c"
    "\<not> sn_invalid_for_rx_buffer_um s1 (ucast (um_sn ?h'))" "cm_lookup (rum_window s1) (ucast (um_sn ?h')) = Some info"
    "segments info = [\<lparr>seg_si = First_Segment, seg_so = 0, seg_payload = [1]\<rparr>]"
    by (auto split: sum.splits prod.splits)
  have old: "segs_cover (segments info) = {0}"
    by (auto simp: s1(5) segs_cover_def seg_cover_def seg_end_def)
  have bytes: "{0 ..< length [1 :: u8, 2]} = {0, 1}" by auto
  have first: "um_consistent (\<lambda>_. [1, 2]) s1" "delivered as1 = []"
    using rx_um_delivers_sdu [OF inv cons _ len(1,2) val _ refl sl(1,2) s1(1)] h(1) c unfolding look sl(3) bytes by simp_all
  have "um_conform (rxum_sn_field_length ?c) [0x40, 1]"
    by (simp add: um_conform_def c(1) h(1))
  then have inv1: "um_inv s1"
    using um_reach_inv [OF um_pdu [where P = "um_conform (rxum_sn_field_length ?c)", OF um_init _ s1(1)] c(2)] by blast
  obtain s2 as2 where s2: "handle_pdu_um True 0 [0x80, 0, 1, 2] s1 = Inr (s2, as2)"
    using handle_pdu_um_ok [OF conjunct1 [OF um_reach_ok [OF um_pdu [where P = "\<lambda>_. True", OF um_init TrueI s1(1)] c(2)]]] by blast
  have "delivered as2 = [[1, 2]]"
    using rx_um_delivers_sdu [OF inv1 first(1) _ len(3,4) s1(3) _ refl sl(4,5) s2] h(2) c(1) s1(2) old
    unfolding s1(4) sl(6) bytes by (simp add: insert_commute)
  then show ?thesis using s1(1) first(2) s2 by blast
qed

section \<open>Divergences\<close>

text \<open>
  t-Reassembly of 0 ms is a value of the configuration, for which the constructor leaves the timer
  without duration. The second PDU that leaves a gap then fails the assertion of \<open>unique_timer::run\<close>.
\<close>

theorem rx_um_zero_timer_faults:
  "fault_of (bind_res (handle_pdu_um True 0 [0x40, 1] (new_rx_um (sample_um_cfg 0)))
       (\<lambda>(s, _). handle_pdu_um True 0 [0x41, 1] s))
     = Some (Assertion_Failure ''Calling timer::run with invalid duration'')"
  by code_simp

text \<open>
  The conditions on RX\_Next\_Highest = RX\_Next\_Reassembly + 1 look at the SDU RX\_Next\_Highest instead of
  RX\_Next\_Reassembly, which the window never holds: after the first and the last segment of one SDU
  arrived and a middle one is missing, the gap is recorded but t-Reassembly is not running.
\<close>

theorem rx_um_gap_without_timer:
  "(case bind_res (handle_pdu_um True 0 [0x40, 1] (new_rx_um (sample_um_cfg 50)))
       (\<lambda>(s, _). handle_pdu_um True 0 [0x80, 0, 5, 9] s) of
      Inl _ \<Rightarrow> False
    | Inr (s, _) \<Rightarrow> rx_next_highest s = rx_next_reassembly s + 1 \<and>
        has_gap_at_um s (rx_next_reassembly s) True \<and> \<not> is_running (rum_reassembly_timer s))"
  by code_simp

text \<open>
  A repeated segment of an SDU that was delivered, but whose predecessors are outstanding, is stored
  again: receiving both segments of the SDU with SN 1 twice while SN 0 is missing delivers it twice.
\<close>

theorem rx_um_duplicate_delivery:
  "delivered (concat (map (\<lambda>r. case r of Inl _ \<Rightarrow> [] | Inr (_, as) \<Rightarrow> as)
     (let s0 = new_rx_um (sample_um_cfg 50);
          r1 = handle_pdu_um True 0 [0x41, 1] s0;
          r2 = bind_res r1 (\<lambda>(s, _). handle_pdu_um True 0 [0x81, 0, 1, 2] s);
          r3 = bind_res r2 (\<lambda>(s, _). handle_pdu_um True 0 [0x41, 1] s);
          r4 = bind_res r3 (\<lambda>(s, _). handle_pdu_um True 0 [0x81, 0, 1, 2] s)
      in [r1, r2, r3, r4]))) = [[1, 2], [1, 2]]"
  by code_simp

end
