(* ===== verification/Rlc_Sdu_Queue.thy ===== *)
theory Rlc_Sdu_Queue
  imports Rlc_Types "HOL-Library.Sublist"
begin

text \<open>
  The queue between the upper layer and a transmitting RLC entity (lib/rlc/rlc_sdu_queue_lockfree.h): a
  FIFO of SDUs with a slot for each PDCP SN modulo the capacity, through which the upper layer can mark an
  SDU as discarded, and a packed 64 bit word with the number of SDUs and bytes that are not discarded.

  The single producer single consumer queue of include/srsran/adt/spsc_queue.h is a list of at most
  \<open>capacity\<close> elements. Here a call of an operation is one step; the theory \<open>Sdu_Queue_Threads\<close> splits the
  calls into their atomic accesses.

  Shown: the operations implement a FIFO of SDUs from which elements can be discarded, with exact
  counters (locale \<open>sdu_fifo\<close> and its interpretation).
\<close>

unbundle bit_operations_syntax

record rlc_sdu =
  sdu_buf :: byte_buffer
  sdu_is_retx :: bool
  sdu_pdcp_sn :: "u32 option"
  sdu_toa :: nat

definition empty_sdu :: rlc_sdu where
  "empty_sdu = \<lparr>sdu_buf = [], sdu_is_retx = False, sdu_pdcp_sn = None, sdu_toa = 0\<rparr>"

section \<open>The bounded single producer single consumer queue\<close>

definition try_push :: "nat \<Rightarrow> 'a \<Rightarrow> 'a list \<Rightarrow> bool \<times> 'a list" where
  "try_push qsize x q = (if length q < max 1 qsize then (True, q @ [x]) else (False, q))"

definition try_pop :: "'a list \<Rightarrow> ('a \<times> 'a list) option" where
  "try_pop q = (case q of [] \<Rightarrow> None | x # rest \<Rightarrow> Some (x, rest))"

section \<open>The SDU queue\<close>

record rlc_sdu_queue =
  q_capacity :: u32
  q_byte_limit :: u32
  q_state :: u64
  q_queue :: "rlc_sdu list"
  q_sdu_states :: "nat \<Rightarrow> u32"
  q_sdu_sizes :: "nat \<Rightarrow> nat"

definition STATE_FREE :: u32 where
  "STATE_FREE = 0xffffffff"

definition STATE_DISCARDED :: u32 where
  "STATE_DISCARDED = 0xfffffffe"

definition new_sdu_queue :: "u32 \<Rightarrow> u32 \<Rightarrow> rlc_sdu_queue" where
  "new_sdu_queue capacity byte_limit =
     \<lparr>q_capacity = capacity, q_byte_limit = byte_limit, q_state = 0, q_queue = [],
      q_sdu_states = (\<lambda>_. STATE_FREE), q_sdu_sizes = (\<lambda>_. 0)\<rparr>"

text \<open>The slot of a PDCP SN.\<close>

definition slot :: "rlc_sdu_queue \<Rightarrow> u32 \<Rightarrow> nat" where
  "slot q pdcp_sn = unat (pdcp_sn mod q_capacity q)"

record sdu_queue_state =
  n_sdus :: u32
  n_bytes :: u32

definition unpack_state :: "u64 \<Rightarrow> sdu_queue_state" where
  "unpack_state packed = \<lparr>n_sdus = ucast (drop_bit 32 packed), n_bytes = ucast (packed AND 0xffffffff)\<rparr>"

definition get_state :: "rlc_sdu_queue \<Rightarrow> sdu_queue_state" where
  "get_state q = unpack_state (q_state q)"

definition state_change :: "nat \<Rightarrow> u64" where
  "state_change sdu_size = push_bit 32 1 OR ucast (of_nat sdu_size :: u32)"

definition state_add :: "nat \<Rightarrow> rlc_sdu_queue \<Rightarrow> rlc_sdu_queue" where
  "state_add sdu_size q = q\<lparr>q_state := q_state q + state_change sdu_size\<rparr>"

definition state_sub :: "nat \<Rightarrow> rlc_sdu_queue \<Rightarrow> rlc_sdu_queue" where
  "state_sub sdu_size q = q\<lparr>q_state := q_state q - state_change sdu_size\<rparr>"

definition is_empty :: "rlc_sdu_queue \<Rightarrow> bool" where
  "is_empty q = (q_queue q = [])"

definition is_full :: "rlc_sdu_queue \<Rightarrow> bool" where
  "is_full q = (unat (q_capacity q) \<le> length (q_queue q))"

definition set_slot :: "u32 \<Rightarrow> u32 \<Rightarrow> rlc_sdu_queue \<Rightarrow> rlc_sdu_queue" where
  "set_slot pdcp_sn v q = q\<lparr>q_sdu_states := (q_sdu_states q)(slot q pdcp_sn := v)\<rparr>"

definition set_size :: "u32 \<Rightarrow> nat \<Rightarrow> rlc_sdu_queue \<Rightarrow> rlc_sdu_queue" where
  "set_size pdcp_sn v q = q\<lparr>q_sdu_sizes := (q_sdu_sizes q)(slot q pdcp_sn := v)\<rparr>"

definition write_sdu :: "rlc_sdu \<Rightarrow> rlc_sdu_queue \<Rightarrow> bool \<times> rlc_sdu_queue" where
  "write_sdu sdu q =
     (let st = get_state q; sdu_size = length (sdu_buf sdu) in
      if length (sdu_buf sdu) + unat (n_bytes st) \<ge> unat (q_byte_limit q) then (False, q)
      else
        (case sdu_pdcp_sn sdu of
           Some pdcp_sn \<Rightarrow>
             if q_sdu_states q (slot q pdcp_sn) \<noteq> STATE_FREE then (False, q)
             else
               (let q = set_slot pdcp_sn pdcp_sn (set_size pdcp_sn sdu_size q);
                    (pushed, queue) = try_push (unat (q_capacity q)) sdu (q_queue q)
                in if \<not> pushed then (False, set_slot pdcp_sn STATE_FREE q)
                   else (True, state_add sdu_size (q\<lparr>q_queue := queue\<rparr>)))
         | None \<Rightarrow>
             (let (pushed, queue) = try_push (unat (q_capacity q)) sdu (q_queue q)
              in if \<not> pushed then (False, q)
                 else (True, state_add sdu_size (q\<lparr>q_queue := queue\<rparr>)))))"

definition try_discard :: "u32 \<Rightarrow> rlc_sdu_queue \<Rightarrow> bool \<times> rlc_sdu_queue" where
  "try_discard pdcp_sn q =
     (let success = (q_sdu_states q (slot q pdcp_sn) = pdcp_sn);
          sdu_size = q_sdu_sizes q (slot q pdcp_sn)
      in if \<not> success then (False, q)
         else (True, state_sub sdu_size (set_slot pdcp_sn STATE_DISCARDED q)))"

definition check :: "u32 \<Rightarrow> rlc_sdu_queue \<Rightarrow> bool" where
  "check pdcp_sn q = (q_sdu_states q (slot q pdcp_sn) = pdcp_sn)"

definition check_and_release :: "u32 \<Rightarrow> rlc_sdu_queue \<Rightarrow> bool \<times> rlc_sdu_queue" where
  "check_and_release pdcp_sn q =
     (let sdu_size = q_sdu_sizes q (slot q pdcp_sn);
          old_state = q_sdu_states q (slot q pdcp_sn);
          q = set_slot pdcp_sn STATE_FREE q
      in if old_state = pdcp_sn then (True, state_sub sdu_size q)
         else if old_state = STATE_DISCARDED then (False, q)
         else (False, state_sub sdu_size q))"

text \<open>
  \<open>read\<close> fills the referenced SDU with every element that it pops, also with the discarded ones: the
  second component of the result is its content afterwards.
\<close>

function read_sdu :: "rlc_sdu \<Rightarrow> rlc_sdu_queue \<Rightarrow> bool \<times> rlc_sdu \<times> rlc_sdu_queue" where
  "read_sdu sdu q =
     (case try_pop (q_queue q) of
        None \<Rightarrow> (False, sdu, q)
      | Some (sdu, queue) \<Rightarrow>
          (let q = q\<lparr>q_queue := queue\<rparr> in
           case sdu_pdcp_sn sdu of
             None \<Rightarrow> (True, sdu, state_sub (length (sdu_buf sdu)) q)
           | Some pdcp_sn \<Rightarrow>
               (let r = check_and_release pdcp_sn q in
                if fst r then (True, sdu, snd r) else read_sdu sdu (snd r))))"
  by pat_completeness auto
termination
  by (relation "measure (\<lambda>(_, q). length (q_queue q))")
    (auto simp: try_pop_def check_and_release_def state_sub_def set_slot_def Let_def split: list.splits)

declare read_sdu.simps [simp del]

function front :: "rlc_sdu_queue \<Rightarrow> rlc_sdu option \<times> rlc_sdu_queue" where
  "front q =
     (case try_pop (q_queue q) of
        None \<Rightarrow> (None, q)
      | Some (front_sdu, queue) \<Rightarrow>
          (case sdu_pdcp_sn front_sdu of
             None \<Rightarrow> (Some front_sdu, q)
           | Some pdcp_sn \<Rightarrow>
               if check pdcp_sn q then (Some front_sdu, q)
               else
                 (let r = check_and_release pdcp_sn (q\<lparr>q_queue := queue\<rparr>) in
                  if fst r then (None, snd r) else front (snd r))))"
  by pat_completeness auto
termination
  by (relation "measure (\<lambda>q. length (q_queue q))")
    (auto simp: try_pop_def check_and_release_def state_sub_def set_slot_def Let_def split: list.splits)

declare front.simps [simp del]

section \<open>The abstract view: the SDUs that are not discarded, in order\<close>

definition sdu_valid :: "rlc_sdu_queue \<Rightarrow> rlc_sdu \<Rightarrow> bool" where
  "sdu_valid q x = (case sdu_pdcp_sn x of None \<Rightarrow> True | Some sn \<Rightarrow> check sn q)"

definition q_view :: "rlc_sdu_queue \<Rightarrow> rlc_sdu list" where
  "q_view q = filter (sdu_valid q) (q_queue q)"

definition sdu_bytes :: "rlc_sdu list \<Rightarrow> nat" where
  "sdu_bytes xs = (\<Sum>x\<leftarrow>xs. length (sdu_buf x))"

definition sdu_changes :: "rlc_sdu list \<Rightarrow> u64" where
  "sdu_changes xs = (\<Sum>x\<leftarrow>xs. state_change (length (sdu_buf x)))"

definition q_slots :: "rlc_sdu_queue \<Rightarrow> nat list" where
  "q_slots q = List.map_filter (\<lambda>x. map_option (slot q) (sdu_pdcp_sn x)) (q_queue q)"

definition slot_ok :: "rlc_sdu_queue \<Rightarrow> rlc_sdu \<Rightarrow> bool" where
  "slot_ok q x \<longleftrightarrow>
     (case sdu_pdcp_sn x of
        None \<Rightarrow> True
      | Some sn \<Rightarrow> sn < STATE_DISCARDED \<and> q_sdu_states q (slot q sn) \<in> {sn, STATE_DISCARDED} \<and>
          q_sdu_sizes q (slot q sn) = length (sdu_buf x))"

definition q_core :: "rlc_sdu_queue \<Rightarrow> bool" where
  "q_core q \<longleftrightarrow>
     distinct (q_slots q) \<and> (\<forall>x \<in> set (q_queue q). slot_ok q x) \<and>
     (\<forall>i. i \<notin> set (q_slots q) \<longrightarrow> q_sdu_states q i = STATE_FREE) \<and>
     q_state q = sdu_changes (q_view q)"

definition q_inv :: "rlc_sdu_queue \<Rightarrow> bool" where
  "q_inv q \<longleftrightarrow>
     0 < q_capacity q \<and> length (q_queue q) \<le> unat (q_capacity q) \<and> q_core q \<and>
     sdu_bytes (q_view q) < max 1 (unat (q_byte_limit q))"

lemma q_inv_core [simp]: "q_inv q \<Longrightarrow> q_core q"
  by (simp add: q_inv_def)

lemma slot_frame [simp]:
  "slot (q\<lparr>q_queue := xs\<rparr>) = slot q" "slot (q\<lparr>q_state := st\<rparr>) = slot q"
  "slot (q\<lparr>q_sdu_states := ss\<rparr>) = slot q" "slot (q\<lparr>q_sdu_sizes := sz\<rparr>) = slot q"
  by (simp_all add: slot_def fun_eq_iff)

lemma sdu_bytes_simps [simp]:
  "sdu_bytes [] = 0" "sdu_bytes (x # xs) = length (sdu_buf x) + sdu_bytes xs"
  "sdu_bytes (xs @ ys) = sdu_bytes xs + sdu_bytes ys"
  by (simp_all add: sdu_bytes_def)

lemma sdu_changes_simps [simp]:
  "sdu_changes [] = 0" "sdu_changes (x # xs) = state_change (length (sdu_buf x)) + sdu_changes xs"
  "sdu_changes (xs @ ys) = sdu_changes xs + sdu_changes ys"
  by (simp_all add: sdu_changes_def)

lemma marks: "STATE_DISCARDED \<noteq> STATE_FREE" "sn < STATE_DISCARDED \<Longrightarrow> sn \<noteq> STATE_DISCARDED"
  "sn < STATE_DISCARDED \<Longrightarrow> sn \<noteq> STATE_FREE"
  by (auto simp: STATE_DISCARDED_def STATE_FREE_def)

subsection \<open>The packed counters\<close>

lemma state_change_of_nat:
  assumes "n < 2 ^ 32"
  shows "state_change n = of_nat (2 ^ 32 + n)"
proof -
  have u: "ucast (of_nat n :: u32) = (of_nat n :: u64)"
    using assms by (simp add: word_unat_eq_iff unsigned_ucast_eq unsigned_of_nat take_bit_nat_eq_self)
  have b: "m < 32" if "bit (of_nat n :: u64) m" for m
    by (rule bit_bounded [OF _ _ that]) (use assms in \<open>simp_all add: word_less_nat_alt unsigned_of_nat take_bit_nat_eq_self\<close>)
  have "push_bit 32 1 + of_nat n = push_bit 32 1 OR (of_nat n :: u64)"
  proof (rule disjunctive_add_eq_or, rule bit_word_eqI)
    fix m
    have "bit (push_bit 32 1 :: u64) m \<longleftrightarrow> m = 32"
      by (simp only: bit_push_bit_iff bit_1_iff) auto
    then show "bit (push_bit 32 1 AND of_nat n :: u64) m \<longleftrightarrow> bit (0 :: u64) m"
      using b [of m] by (simp only: bit_and_iff bit_0_eq bot_apply bot_bool_def) auto
  qed
  then show ?thesis
    by (simp add: state_change_def u push_bit_eq_mult)
qed

lemma sdu_changes_of_nat:
  "sdu_bytes xs < 2 ^ 32 \<Longrightarrow> sdu_changes xs = of_nat (length xs * 2 ^ 32 + sdu_bytes xs)"
  by (induction xs) (simp_all add: state_change_of_nat algebra_simps)

lemma unpack_of_nat:
  assumes "n < 2 ^ 32" "b < 2 ^ 32"
  shows "unat (n_sdus (unpack_state (of_nat (n * 2 ^ 32 + b)))) = n"
    "unat (n_bytes (unpack_state (of_nat (n * 2 ^ 32 + b)))) = b"
proof -
  have less: "n * 2 ^ 32 + b < 2 ^ 64"
  proof -
    have "n * 2 ^ 32 + b < (n + 1) * 2 ^ 32" using assms(2) by simp
    also have "\<dots> \<le> 2 ^ 32 * 2 ^ 32" using assms(1) by (intro mult_right_mono) simp_all
    finally show ?thesis by simp
  qed
  then have u: "unat (of_nat (n * 2 ^ 32 + b) :: u64) = n * 2 ^ 32 + b"
    by (simp only: unsigned_of_nat) (simp add: take_bit_nat_eq_self)
  have m: "(0xffffffff :: u64) = mask 32" by (simp add: mask_eq_exp_minus_1)
  show "unat (n_sdus (unpack_state (of_nat (n * 2 ^ 32 + b)))) = n"
    using assms
    by (simp only: unpack_state_def sdu_queue_state.simps unsigned_ucast_eq unsigned_drop_bit_eq u)
      (simp add: drop_bit_eq_div take_bit_nat_eq_self)
  show "unat (n_bytes (unpack_state (of_nat (n * 2 ^ 32 + b)))) = b"
    using assms
    by (simp only: unpack_state_def sdu_queue_state.simps m unsigned_ucast_eq unsigned_take_bit_eq u
        flip: take_bit_eq_mask)
      (simp add: take_bit_eq_mod)
qed

lemma unat_u32: "unat (x :: u32) < 2 ^ 32"
  using unsigned_less [of x] by simp

lemma max_1_u32: "max 1 (unat (x :: u32)) \<le> 2 ^ 32"
  using unat_u32 [of x] by simp

lemma q_view_length: "length (q_view q) \<le> length (q_queue q)"
  by (simp add: q_view_def)

theorem get_state_exact:
  assumes "q_inv q"
  shows "unat (n_sdus (get_state q)) = length (q_view q)"
    "unat (n_bytes (get_state q)) = sdu_bytes (q_view q)"
proof -
  have b: "sdu_bytes (q_view q) < 2 ^ 32"
    using assms less_le_trans [OF _ max_1_u32] by (auto simp: q_inv_def)
  have n: "length (q_view q) < 2 ^ 32"
    using assms q_view_length [of q] unat_u32 [of "q_capacity q"] by (simp add: q_inv_def)
  have "q_state q = of_nat (length (q_view q) * 2 ^ 32 + sdu_bytes (q_view q))"
    using assms sdu_changes_of_nat [OF b] by (simp add: q_inv_def q_core_def)
  then show "unat (n_sdus (get_state q)) = length (q_view q)"
    "unat (n_bytes (get_state q)) = sdu_bytes (q_view q)"
    using unpack_of_nat [OF n b] by (simp_all only: get_state_def)
qed

subsection \<open>Changing one slot\<close>

lemma q_slots_simps:
  "q_queue q = x # rest \<Longrightarrow>
     q_slots q = (case sdu_pdcp_sn x of None \<Rightarrow> [] | Some sn \<Rightarrow> [slot q sn]) @ q_slots (q\<lparr>q_queue := rest\<rparr>)"
  "q_slots (q\<lparr>q_queue := xs @ [x]\<rparr>) =
     q_slots (q\<lparr>q_queue := xs\<rparr>) @ (case sdu_pdcp_sn x of None \<Rightarrow> [] | Some sn \<Rightarrow> [slot q sn])"
  by (auto simp: q_slots_def List.map_filter_def split: option.splits)

lemma q_slots_frame [simp]:
  "q_slots (q\<lparr>q_state := st\<rparr>) = q_slots q" "q_slots (q\<lparr>q_sdu_states := ss\<rparr>) = q_slots q"
  "q_slots (q\<lparr>q_sdu_sizes := sz\<rparr>) = q_slots q"
  by (simp_all add: q_slots_def)

lemma q_slots_mem:
  "i \<in> set (q_slots q) \<longleftrightarrow> (\<exists>x \<in> set (q_queue q). \<exists>sn. sdu_pdcp_sn x = Some sn \<and> i = slot q sn)"
  by (force simp: q_slots_def List.map_filter_def)

text \<open>Nothing but the SDU of a slot depends on it.\<close>

definition slot_differs :: "rlc_sdu_queue \<Rightarrow> nat \<Rightarrow> rlc_sdu \<Rightarrow> bool" where
  "slot_differs q i x \<longleftrightarrow> (case sdu_pdcp_sn x of None \<Rightarrow> True | Some sn \<Rightarrow> slot q sn \<noteq> i)"

lemma other_slot:
  assumes "slot_differs q i x"
  shows "sdu_valid (q\<lparr>q_sdu_states := (q_sdu_states q)(i := v)\<rparr>) x = sdu_valid q x"
    "slot_ok (q\<lparr>q_sdu_states := (q_sdu_states q)(i := v)\<rparr>) x = slot_ok q x"
    "slot_ok (q\<lparr>q_sdu_sizes := (q_sdu_sizes q)(i := z)\<rparr>) x = slot_ok q x"
    "slot_ok (q\<lparr>q_sdu_states := (q_sdu_states q)(i := v), q_sdu_sizes := (q_sdu_sizes q)(i := z)\<rparr>) x = slot_ok q x"
  using assms by (auto simp: slot_differs_def sdu_valid_def slot_ok_def check_def split: option.splits)

lemma valid_frame [simp]:
  "sdu_valid (q\<lparr>q_state := st\<rparr>) = sdu_valid q" "sdu_valid (q\<lparr>q_queue := xs\<rparr>) = sdu_valid q"
  "sdu_valid (q\<lparr>q_sdu_sizes := sz\<rparr>) = sdu_valid q"
  "slot_ok (q\<lparr>q_state := st\<rparr>) = slot_ok q" "slot_ok (q\<lparr>q_queue := xs\<rparr>) = slot_ok q"
  by (auto simp: sdu_valid_def slot_ok_def check_def fun_eq_iff split: option.splits)

lemma valid_frame_states [simp]:
  "sdu_valid (q\<lparr>q_queue := xs, q_sdu_states := ss\<rparr>) = sdu_valid (q\<lparr>q_sdu_states := ss\<rparr>)"
  "slot_ok (q\<lparr>q_queue := xs, q_sdu_states := ss\<rparr>) = slot_ok (q\<lparr>q_sdu_states := ss\<rparr>)"
  "slot_ok (q\<lparr>q_queue := xs, q_sdu_states := ss, q_sdu_sizes := sz\<rparr>) =
     slot_ok (q\<lparr>q_sdu_states := ss, q_sdu_sizes := sz\<rparr>)"
  by (auto simp: sdu_valid_def slot_ok_def check_def fun_eq_iff split: option.splits)

lemma slot_differsI: "i \<notin> set (q_slots q) \<Longrightarrow> x \<in> set (q_queue q) \<Longrightarrow> slot_differs q i x"
  by (auto simp: slot_differs_def q_slots_mem split: option.splits)

lemma q_view_other:
  assumes "i \<notin> set (q_slots q)"
  shows "q_view (q\<lparr>q_sdu_states := (q_sdu_states q)(i := v)\<rparr>) = q_view q"
  unfolding q_view_def using other_slot(1) [OF slot_differsI [OF assms]] by (auto intro: filter_cong)

lemma q_view_frame [simp]:
  "q_view (q\<lparr>q_state := st\<rparr>) = q_view q" "q_view (q\<lparr>q_sdu_sizes := sz\<rparr>) = q_view q"
  by (simp_all add: q_view_def)

lemma q_view_Cons:
  "q_queue q = x # rest \<Longrightarrow> q_view q = (if sdu_valid q x then [x] else []) @ q_view (q\<lparr>q_queue := rest\<rparr>)"
  by (simp add: q_view_def)

text \<open>An SDU that is valid has its length in the sum.\<close>

lemma q_core_slot:
  "q_core q \<Longrightarrow> x \<in> set (q_queue q) \<Longrightarrow> sdu_pdcp_sn x = Some sn \<Longrightarrow>
     sn < STATE_DISCARDED \<and> q_sdu_states q (slot q sn) \<in> {sn, STATE_DISCARDED} \<and>
     q_sdu_sizes q (slot q sn) = length (sdu_buf x)"
  by (auto simp: q_core_def slot_ok_def dest: bspec)

text \<open>What is left of the invariant when the first element is taken out of the queue, and its slot freed.\<close>

lemma q_core_pop:
  assumes inv: "q_core q" and x: "q_queue q = x # rest"
    and states: "case sdu_pdcp_sn x of None \<Rightarrow> ss = q_sdu_states q | Some sn \<Rightarrow> ss = (q_sdu_states q)(slot q sn := STATE_FREE)"
    and st: "st = q_state q - (if sdu_valid q x then state_change (length (sdu_buf x)) else 0)"
  shows "q_core (q\<lparr>q_queue := rest, q_sdu_states := ss, q_state := st\<rparr>)"
    "q_view q = (if sdu_valid q x then [x] else []) @ q_view (q\<lparr>q_queue := rest, q_sdu_states := ss, q_state := st\<rparr>)"
proof -
  let ?r = "q\<lparr>q_queue := rest\<rparr>"
  have rest: "distinct (q_slots ?r)" "\<forall>sn. sdu_pdcp_sn x = Some sn \<longrightarrow> slot q sn \<notin> set (q_slots ?r)"
    using inv by (auto simp: q_core_def q_slots_simps(1) [OF x] split: option.splits)
  have view: "q_view (?r\<lparr>q_sdu_states := ss\<rparr>) = q_view ?r"
    using states rest(2) q_view_other [of _ ?r] by (cases "sdu_pdcp_sn x") auto
  show eq: "q_view q = (if sdu_valid q x then [x] else []) @ q_view (q\<lparr>q_queue := rest, q_sdu_states := ss, q_state := st\<rparr>)"
    using q_view_Cons [OF x] view by simp
  have ok: "\<forall>y \<in> set rest. slot_ok (?r\<lparr>q_sdu_states := ss\<rparr>) y"
    using inv x states rest(2) other_slot(2) [OF slot_differsI, of _ ?r]
    by (cases "sdu_pdcp_sn x") (auto simp: q_core_def)
  have free: "\<forall>i. i \<notin> set (q_slots ?r) \<longrightarrow> ss i = STATE_FREE"
    using inv states by (cases "sdu_pdcp_sn x") (auto simp: q_core_def q_slots_simps(1) [OF x])
  show "q_core (q\<lparr>q_queue := rest, q_sdu_states := ss, q_state := st\<rparr>)"
    using inv rest(1) ok free eq st x by (auto simp: q_core_def split: if_splits)
qed

subsection \<open>Every operation keeps the invariant and has its effect on the view\<close>

text \<open>Popping the first element and releasing its slot, as \<open>read\<close> and \<open>front\<close> do.\<close>

lemma release_head:
  assumes inv: "q_inv q" and x: "q_queue q = x # rest" and sn: "sdu_pdcp_sn x = Some sn"
  defines "r \<equiv> check_and_release sn (q\<lparr>q_queue := rest\<rparr>)"
  shows "fst r = sdu_valid q x" "q_inv (snd r)"
    "q_view q = (if fst r then [x] else []) @ q_view (snd r)" "q_queue (snd r) = rest"
proof -
  have ok: "sn < STATE_DISCARDED" "q_sdu_states q (slot q sn) \<in> {sn, STATE_DISCARDED}"
    "q_sdu_sizes q (slot q sn) = length (sdu_buf x)"
    using q_core_slot [OF q_inv_core [OF inv] _ sn] x by auto
  have valid: "sdu_valid q x \<longleftrightarrow> q_sdu_states q (slot q sn) = sn"
    by (simp add: sdu_valid_def sn check_def)
  let ?ss = "(q_sdu_states q)(slot q sn := STATE_FREE)"
  let ?st = "q_state q - (if sdu_valid q x then state_change (length (sdu_buf x)) else 0)"
  have r: "r = (sdu_valid q x, q\<lparr>q_queue := rest, q_sdu_states := ?ss, q_state := ?st\<rparr>)"
    using ok marks by (auto simp: r_def check_and_release_def set_slot_def state_sub_def valid Let_def)
  then show "fst r = sdu_valid q x" "q_queue (snd r) = rest" by simp_all
  have ss: "case sdu_pdcp_sn x of None \<Rightarrow> ?ss = q_sdu_states q | Some sn \<Rightarrow> ?ss = (q_sdu_states q)(slot q sn := STATE_FREE)"
    by (simp add: sn)
  have core: "q_core (snd r)"
    unfolding r snd_conv by (rule q_core_pop(1) [OF q_inv_core [OF inv] x ss refl])
  show view: "q_view q = (if fst r then [x] else []) @ q_view (snd r)"
    unfolding r fst_conv snd_conv by (rule q_core_pop(2) [OF q_inv_core [OF inv] x ss refl])
  have "sdu_bytes (q_view (snd r)) \<le> sdu_bytes (q_view q)" by (subst view) simp
  with core show "q_inv (snd r)"
    using inv x unfolding q_inv_def by (simp add: r)
qed

lemma take_head:
  assumes inv: "q_inv q" and x: "q_queue q = x # rest" and sn: "sdu_pdcp_sn x = None"
  shows "q_inv (state_sub (length (sdu_buf x)) (q\<lparr>q_queue := rest\<rparr>))"
    "q_view q = x # q_view (state_sub (length (sdu_buf x)) (q\<lparr>q_queue := rest\<rparr>))"
  using q_core_pop [OF q_inv_core [OF inv] x, of "q_sdu_states q" "q_state q - state_change (length (sdu_buf x))"]
    sn inv x
  by (simp_all add: sdu_valid_def state_sub_def q_inv_def)

lemma read_step:
  "q_queue q = [] \<Longrightarrow> read_sdu sdu q = (False, sdu, q)"
  "q_queue q = x # rest \<Longrightarrow> sdu_pdcp_sn x = None \<Longrightarrow>
     read_sdu sdu q = (True, x, state_sub (length (sdu_buf x)) (q\<lparr>q_queue := rest\<rparr>))"
  "q_queue q = x # rest \<Longrightarrow> sdu_pdcp_sn x = Some sn \<Longrightarrow>
     read_sdu sdu q = (let r = check_and_release sn (q\<lparr>q_queue := rest\<rparr>) in
                       if fst r then (True, x, snd r) else read_sdu x (snd r))"
  by (subst read_sdu.simps, simp add: try_pop_def Let_def)+

lemma front_step:
  "q_queue q = [] \<Longrightarrow> front q = (None, q)"
  "q_queue q = x # rest \<Longrightarrow> sdu_valid q x \<Longrightarrow> front q = (Some x, q)"
  "q_queue q = x # rest \<Longrightarrow> \<not> sdu_valid q x \<Longrightarrow> sdu_pdcp_sn x = Some sn \<Longrightarrow>
     front q = (let r = check_and_release sn (q\<lparr>q_queue := rest\<rparr>) in
                if fst r then (None, snd r) else front (snd r))"
  by (subst front.simps, auto simp: try_pop_def sdu_valid_def split: option.splits)+

text \<open>The first valid SDU, whatever was referenced before.\<close>

lemma read_correct:
  assumes "q_inv q"
  shows "q_inv (snd (snd (read_sdu sdu q))) \<and> fst (read_sdu sdu q) = (q_view q \<noteq> []) \<and>
    q_view (snd (snd (read_sdu sdu q))) = tl (q_view q) \<and>
    (q_view q \<noteq> [] \<longrightarrow> fst (snd (read_sdu sdu q)) = hd (q_view q))"
  using assms
proof (induction "q_queue q" arbitrary: q sdu)
  case Nil
  then show ?case by (simp add: read_step(1) q_view_def)
next
  case (Cons x rest)
  note q = Cons.hyps(2) [symmetric]
  show ?case
  proof (cases "sdu_pdcp_sn x")
    case None
    then show ?thesis using take_head [OF Cons.prems q None] by (simp add: read_step(2) [OF q None])
  next
    case (Some sn)
    note r = release_head [OF Cons.prems q Some]
    then show ?thesis
      using Cons.hyps(1) [OF r(4) [symmetric] r(2), of x]
      by (auto simp: read_step(3) [OF q Some] Let_def split: if_splits)
  qed
qed

lemma front_correct:
  assumes "q_inv q"
  shows "q_inv (snd (front q)) \<and> q_view (snd (front q)) = q_view q \<and>
    fst (front q) = (case q_view q of [] \<Rightarrow> None | x # _ \<Rightarrow> Some x)"
  using assms
proof (induction "q_queue q" arbitrary: q)
  case Nil
  then show ?case by (simp add: front_step(1) q_view_def)
next
  case (Cons x rest)
  note q = Cons.hyps(2) [symmetric]
  show ?case
  proof (cases "sdu_valid q x")
    case True
    then show ?thesis using q Cons.prems by (simp add: front_step(2) [OF q True] q_view_Cons [OF q])
  next
    case False
    then obtain sn where sn: "sdu_pdcp_sn x = Some sn" by (auto simp: sdu_valid_def split: option.splits)
    note r = release_head [OF Cons.prems q sn]
    then show ?thesis
      using Cons.hyps(1) [OF r(4) [symmetric] r(2)] False
      by (simp add: front_step(3) [OF q False sn] Let_def)
  qed
qed

text \<open>If only discarded SDUs are left, \<open>read\<close> fails, but its argument is the last of them.\<close>

lemma read_all_discarded:
  assumes "q_inv q" "q_view q = []"
  shows "\<exists>q'. read_sdu sdu q = (False, last (sdu # q_queue q), q') \<and> q_inv q' \<and> q_queue q' = [] \<and> q_view q' = []"
  using assms
proof (induction "q_queue q" arbitrary: q sdu)
  case Nil
  then show ?case by (simp add: read_step(1))
next
  case (Cons x rest)
  note q = Cons.hyps(2) [symmetric]
  have inval: "\<not> sdu_valid q x" using Cons.prems(2) q_view_Cons [OF q] by auto
  then obtain sn where sn: "sdu_pdcp_sn x = Some sn" by (auto simp: sdu_valid_def split: option.splits)
  note r = release_head [OF Cons.prems(1) q sn]
  have "q_view (snd (check_and_release sn (q\<lparr>q_queue := rest\<rparr>))) = []" using r(3) Cons.prems(2) by simp
  from Cons.hyps(1) [OF r(4) [symmetric] r(2) this, of x] show ?case
    using r(1,4) inval by (simp add: read_step(3) [OF q sn] q Let_def)
qed

text \<open>When \<open>write\<close> accepts an SDU.\<close>

definition write_accepts :: "rlc_sdu_queue \<Rightarrow> rlc_sdu \<Rightarrow> bool" where
  "write_accepts q sdu \<longleftrightarrow>
     length (sdu_buf sdu) + sdu_bytes (q_view q) < unat (q_byte_limit q) \<and>
     (case sdu_pdcp_sn sdu of None \<Rightarrow> True | Some sn \<Rightarrow> slot q sn \<notin> set (q_slots q)) \<and>
     length (q_queue q) < unat (q_capacity q)"

definition sdu_sn_ok :: "rlc_sdu \<Rightarrow> bool" where
  "sdu_sn_ok sdu \<longleftrightarrow> (case sdu_pdcp_sn sdu of None \<Rightarrow> True | Some sn \<Rightarrow> sn < STATE_DISCARDED)"

lemma slot_free_iff:
  assumes "q_core q"
  shows "q_sdu_states q i = STATE_FREE \<longleftrightarrow> i \<notin> set (q_slots q)"
proof
  assume free: "q_sdu_states q i = STATE_FREE"
  show "i \<notin> set (q_slots q)"
  proof
    assume "i \<in> set (q_slots q)"
    then obtain x sn where "x \<in> set (q_queue q)" "sdu_pdcp_sn x = Some sn" "i = slot q sn"
      by (auto simp: q_slots_mem)
    with q_core_slot [OF assms this(1,2)] free marks show False by auto
  qed
qed (use assms in \<open>simp add: q_core_def\<close>)

text \<open>The state after an accepted write.\<close>

lemma q_core_push:
  assumes inv: "q_core q"
    and fresh: "\<forall>sn. sdu_pdcp_sn sdu = Some sn \<longrightarrow> slot q sn \<notin> set (q_slots q)" and sn_ok: "sdu_sn_ok sdu"
    and slots: "case sdu_pdcp_sn sdu of
        None \<Rightarrow> ss = q_sdu_states q \<and> sz = q_sdu_sizes q
      | Some sn \<Rightarrow> ss = (q_sdu_states q)(slot q sn := sn) \<and> sz = (q_sdu_sizes q)(slot q sn := length (sdu_buf sdu))"
    and st: "st = q_state q + state_change (length (sdu_buf sdu))"
  defines "q' \<equiv> q\<lparr>q_queue := q_queue q @ [sdu], q_sdu_states := ss, q_sdu_sizes := sz, q_state := st\<rparr>"
  shows "q_core q'" "q_view q' = q_view q @ [sdu]"
proof -
  have old: "q_view (q\<lparr>q_sdu_states := ss, q_sdu_sizes := sz\<rparr>) = q_view q"
    using slots fresh q_view_other [of _ q] by (cases "sdu_pdcp_sn sdu") auto
  have new: "sdu_valid (q\<lparr>q_sdu_states := ss\<rparr>) sdu"
    using slots by (auto simp: sdu_valid_def check_def split: option.splits)
  show view: "q_view q' = q_view q @ [sdu]"
    using old new by (simp add: q'_def q_view_def)
  have ok: "\<forall>x \<in> set (q_queue q). slot_ok (q\<lparr>q_sdu_states := ss, q_sdu_sizes := sz\<rparr>) x"
  proof (cases "sdu_pdcp_sn sdu")
    case (Some sn)
    then have "slot_differs q (slot q sn) x" if "x \<in> set (q_queue q)" for x
      using slot_differsI [OF _ that] fresh by blast
    with Some slots inv show ?thesis
      by (auto simp: q_core_def other_slot(4))
  qed (use slots inv in \<open>auto simp: q_core_def\<close>)
  have ok': "slot_ok (q\<lparr>q_sdu_states := ss, q_sdu_sizes := sz\<rparr>) sdu"
    using slots sn_ok by (auto simp: slot_ok_def sdu_sn_ok_def split: option.splits)
  have slots': "q_slots q' = q_slots q @ (case sdu_pdcp_sn sdu of None \<Rightarrow> [] | Some sn \<Rightarrow> [slot q sn])"
    using q_slots_simps(2) [where q = q and xs = "q_queue q" and x = sdu] by (simp add: q'_def)
  have free: "\<forall>i. i \<notin> set (q_slots q') \<longrightarrow> ss i = STATE_FREE"
    using inv slots by (cases "sdu_pdcp_sn sdu") (auto simp: q_core_def slots')
  have "distinct (q_slots q')"
    using inv fresh by (auto simp: q_core_def slots' split: option.splits)
  then show "q_core q'"
    using inv ok ok' free view st unfolding q_core_def
    by (simp add: q'_def ball_Un)
qed

lemma q_inv_push:
  assumes inv: "q_inv q" and acc: "write_accepts q sdu" and sn_ok: "sdu_sn_ok sdu"
    and slots: "case sdu_pdcp_sn sdu of
        None \<Rightarrow> ss = q_sdu_states q \<and> sz = q_sdu_sizes q
      | Some sn \<Rightarrow> ss = (q_sdu_states q)(slot q sn := sn) \<and> sz = (q_sdu_sizes q)(slot q sn := length (sdu_buf sdu))"
    and st: "st = q_state q + state_change (length (sdu_buf sdu))"
  defines "q' \<equiv> q\<lparr>q_queue := q_queue q @ [sdu], q_sdu_states := ss, q_sdu_sizes := sz, q_state := st\<rparr>"
  shows "q_inv q'" "q_view q' = q_view q @ [sdu]"
proof -
  have fresh: "\<forall>sn. sdu_pdcp_sn sdu = Some sn \<longrightarrow> slot q sn \<notin> set (q_slots q)"
    using acc by (auto simp: write_accepts_def)
  have core: "q_core q'" and view: "q_view q' = q_view q @ [sdu]"
    unfolding q'_def using q_core_push [OF q_inv_core [OF inv] fresh sn_ok slots st] by simp_all
  show "q_view q' = q_view q @ [sdu]" by (rule view)
  show "q_inv q'"
    using inv acc core view unfolding q_inv_def by (simp add: write_accepts_def q'_def)
qed

lemma write_correct:
  assumes inv: "q_inv q" and sn_ok: "sdu_sn_ok sdu"
  shows "fst (write_sdu sdu q) = write_accepts q sdu" "q_inv (snd (write_sdu sdu q))"
    "q_view (snd (write_sdu sdu q)) = q_view q @ (if write_accepts q sdu then [sdu] else [])"
proof -
  have cap: "max 1 (unat (q_capacity q)) = unat (q_capacity q)"
    using inv by (simp add: q_inv_def word_less_nat_alt)
  have "fst (write_sdu sdu q) = write_accepts q sdu \<and> q_inv (snd (write_sdu sdu q)) \<and>
    q_view (snd (write_sdu sdu q)) = q_view q @ (if write_accepts q sdu then [sdu] else [])"
  proof (cases "write_accepts q sdu")
    case acc: True
    let ?st = "q_state q + state_change (length (sdu_buf sdu))"
    show ?thesis
    proof (cases "sdu_pdcp_sn sdu")
      case None
      have "write_sdu sdu q = (True, q\<lparr>q_queue := q_queue q @ [sdu], q_state := ?st\<rparr>)"
        using acc cap None get_state_exact(2) [OF inv]
        by (simp add: write_sdu_def write_accepts_def try_push_def state_add_def Let_def)
      then show ?thesis
        using q_inv_push [OF inv acc sn_ok, of "q_sdu_states q" "q_sdu_sizes q" ?st] None acc by simp
    next
      case (Some sn)
      let ?ss = "(q_sdu_states q)(slot q sn := sn)" and ?sz = "(q_sdu_sizes q)(slot q sn := length (sdu_buf sdu))"
      have "write_sdu sdu q =
          (True, q\<lparr>q_queue := q_queue q @ [sdu], q_sdu_states := ?ss, q_sdu_sizes := ?sz, q_state := ?st\<rparr>)"
        using acc cap Some get_state_exact(2) [OF inv]
        by (simp add: write_sdu_def write_accepts_def try_push_def state_add_def set_slot_def set_size_def
            slot_free_iff [OF q_inv_core [OF inv]] Let_def)
      then show ?thesis
        using q_inv_push [OF inv acc sn_ok, of ?ss ?sz ?st] Some acc by simp
    qed
  next
    case rej: False
    show ?thesis
    proof (cases "write_sdu sdu q = (False, q)")
      case False
      then obtain sn where sn: "sdu_pdcp_sn sdu = Some sn" "slot q sn \<notin> set (q_slots q)"
        and w: "write_sdu sdu q = (False, q\<lparr>q_sdu_states := (q_sdu_states q)(slot q sn := STATE_FREE),
                  q_sdu_sizes := (q_sdu_sizes q)(slot q sn := length (sdu_buf sdu))\<rparr>)"
        using rej cap get_state_exact(2) [OF inv]
        by (auto simp: write_sdu_def write_accepts_def try_push_def state_add_def set_slot_def set_size_def
            slot_free_iff [OF q_inv_core [OF inv]] Let_def split: option.splits if_splits)
      have same: "(q_sdu_states q)(slot q sn := STATE_FREE) = q_sdu_states q"
        using sn(2) by (simp add: slot_free_iff [OF q_inv_core [OF inv], symmetric] fun_upd_idem)
      have "\<forall>x \<in> set (q_queue q). slot_ok (q\<lparr>q_sdu_sizes := (q_sdu_sizes q)(slot q sn := length (sdu_buf sdu))\<rparr>) x"
        using inv other_slot(3) [OF slot_differsI [OF sn(2)]] by (simp add: q_inv_def q_core_def)
      then show ?thesis
        using w same rej inv by (simp add: q_inv_def q_core_def)
    qed (use rej inv in simp)
  qed
  then show "fst (write_sdu sdu q) = write_accepts q sdu" "q_inv (snd (write_sdu sdu q))"
    "q_view (snd (write_sdu sdu q)) = q_view q @ (if write_accepts q sdu then [sdu] else [])"
    by blast+
qed

text \<open>The SDU that holds a PDCP SN is the only one whose slot it is.\<close>

lemma queue_split:
  assumes inv: "q_core q" and x: "x \<in> set (q_queue q)" and sn: "sdu_pdcp_sn x = Some sn"
  obtains as bs where "q_queue q = as @ x # bs"
    and "\<forall>y \<in> set (as @ bs). slot_differs q (slot q sn) y"
proof -
  obtain as bs where q: "q_queue q = as @ x # bs" using x by (meson split_list)
  have "q_slots q = q_slots (q\<lparr>q_queue := as\<rparr>) @ slot q sn # q_slots (q\<lparr>q_queue := bs\<rparr>)"
    using sn by (simp add: q_slots_def List.map_filter_def q)
  moreover have "distinct (q_slots q)" using inv by (simp add: q_core_def)
  ultimately have "slot q sn \<notin> set (q_slots (q\<lparr>q_queue := as\<rparr>))" "slot q sn \<notin> set (q_slots (q\<lparr>q_queue := bs\<rparr>))"
    by auto
  then have "\<forall>y \<in> set (as @ bs). slot_differs q (slot q sn) y"
    by (auto simp: q_slots_mem slot_differs_def split: option.splits)
  with q that show ?thesis by blast
qed

lemma discard_hit:
  assumes inv: "q_core q" and x: "x \<in> set (q_queue q)" and sn: "sdu_pdcp_sn x = Some sn" and c: "check sn q"
  shows "fst (try_discard sn q)" "q_core (snd (try_discard sn q))"
    "q_view (snd (try_discard sn q)) = filter (\<lambda>y. sdu_pdcp_sn y \<noteq> Some sn) (q_view q)"
proof -
  obtain as bs where q: "q_queue q = as @ x # bs" and d: "\<forall>y \<in> set (as @ bs). slot_differs q (slot q sn) y"
    using queue_split [OF inv x sn] .
  note ok = q_core_slot [OF inv x sn]
  let ?ss = "(q_sdu_states q)(slot q sn := STATE_DISCARDED)"
  let ?q' = "q\<lparr>q_sdu_states := ?ss\<rparr>"
  have td: "try_discard sn q = (True, ?q'\<lparr>q_state := q_state q - state_change (length (sdu_buf x))\<rparr>)"
    using c ok by (simp add: try_discard_def check_def state_sub_def set_slot_def)
  have same: "filter (sdu_valid ?q') ys = filter (sdu_valid q) ys" if "set ys \<subseteq> set (as @ bs)" for ys
    using d that by (intro filter_cong) (auto simp: other_slot(1))
  have xv: "sdu_valid q x" "\<not> sdu_valid ?q' x"
    using c ok marks by (auto simp: sdu_valid_def sn check_def)
  have ne: "sdu_pdcp_sn y \<noteq> Some sn" if "y \<in> set (as @ bs)" for y
    using bspec [OF d that] by (auto simp: slot_differs_def)
  have view: "q_view q = filter (sdu_valid q) as @ x # filter (sdu_valid q) bs"
    using xv by (simp add: q_view_def q)
  have view': "q_view ?q' = filter (sdu_valid q) as @ filter (sdu_valid q) bs"
    using xv same [of as] same [of bs] by (simp add: q_view_def q)
  show "fst (try_discard sn q)" by (simp add: td)
  have "filter (\<lambda>y. sdu_pdcp_sn y \<noteq> Some sn) (filter (sdu_valid q) ys) = filter (sdu_valid q) ys"
    if "set ys \<subseteq> set (as @ bs)" for ys
    by (rule filter_True) (use ne that in auto)
  from this [of as] this [of bs]
  show "q_view (snd (try_discard sn q)) = filter (\<lambda>y. sdu_pdcp_sn y \<noteq> Some sn) (q_view q)"
    using sn by (simp add: td view view')
  have "\<forall>y \<in> set (q_queue q). slot_ok ?q' y"
    using inv d ok sn by (auto simp: q other_slot(2) q_core_def slot_ok_def [of _ x])
  moreover have "\<forall>i. i \<notin> set (q_slots q) \<longrightarrow> ?ss i = STATE_FREE"
    using inv x sn by (auto simp: q_core_def q_slots_mem)
  ultimately show "q_core (snd (try_discard sn q))"
    using inv by (simp add: td q_core_def view view')
qed

lemma discard_correct:
  assumes inv: "q_inv q" and sn: "sn < STATE_DISCARDED"
  shows "fst (try_discard sn q) = (\<exists>x \<in> set (q_view q). sdu_pdcp_sn x = Some sn)"
    "q_inv (snd (try_discard sn q))"
    "q_view (snd (try_discard sn q)) = filter (\<lambda>x. sdu_pdcp_sn x \<noteq> Some sn) (q_view q)"
proof -
  have "fst (try_discard sn q) = (\<exists>x \<in> set (q_view q). sdu_pdcp_sn x = Some sn) \<and>
    q_inv (snd (try_discard sn q)) \<and>
    q_view (snd (try_discard sn q)) = filter (\<lambda>x. sdu_pdcp_sn x \<noteq> Some sn) (q_view q)"
  proof (cases "check sn q")
    case True
    then have "slot q sn \<in> set (q_slots q)"
      using slot_free_iff [OF q_inv_core [OF inv], of "slot q sn"] sn marks(3) by (auto simp: check_def)
    then obtain x sn' where x: "x \<in> set (q_queue q)" "sdu_pdcp_sn x = Some sn'" "slot q sn = slot q sn'"
      by (auto simp: q_slots_mem)
    then have "sn' = sn"
      using q_core_slot [OF q_inv_core [OF inv] x(1,2)] True sn marks by (auto simp: check_def)
    then have "x \<in> set (q_view q)" "sdu_pdcp_sn x = Some sn"
      using x True by (auto simp: q_view_def sdu_valid_def)
    moreover have "sdu_bytes (filter P xs) \<le> sdu_bytes xs" for P xs
      by (induction xs) auto
    moreover have "q_queue (snd (try_discard sn q)) = q_queue q" "q_capacity (snd (try_discard sn q)) = q_capacity q"
      "q_byte_limit (snd (try_discard sn q)) = q_byte_limit q"
      by (simp_all add: try_discard_def Let_def state_sub_def set_slot_def)
    ultimately show ?thesis
      using discard_hit [OF q_inv_core [OF inv] x(1)] True inv
      by (auto simp: q_inv_def intro: le_less_trans)
  next
    case False
    then have "\<forall>x \<in> set (q_view q). sdu_pdcp_sn x \<noteq> Some sn"
      by (auto simp: q_view_def sdu_valid_def)
    moreover have "try_discard sn q = (False, q)"
      using False by (simp add: try_discard_def check_def)
    ultimately show ?thesis
      using inv by (auto simp: filter_True)
  qed
  then show "fst (try_discard sn q) = (\<exists>x \<in> set (q_view q). sdu_pdcp_sn x = Some sn)"
    "q_inv (snd (try_discard sn q))"
    "q_view (snd (try_discard sn q)) = filter (\<lambda>x. sdu_pdcp_sn x \<noteq> Some sn) (q_view q)"
    by blast+
qed

lemma q_inv_new: "0 < capacity \<Longrightarrow> q_inv (new_sdu_queue capacity byte_limit)"
  by (simp add: q_inv_def q_core_def new_sdu_queue_def q_slots_def q_view_def List.map_filter_def)

lemma q_view_new [simp]: "q_view (new_sdu_queue capacity byte_limit) = []"
  by (simp add: q_view_def new_sdu_queue_def)

subsection \<open>Every element of the queue with its mark\<close>

text \<open>
  The elements in the order of the queue, with \<open>True\<close> for those that are not discarded. A discarded element
  still takes a place of the queue and the slot of its SN, until a read or a look at the front passes it.
\<close>

definition q_marked :: "rlc_sdu_queue \<Rightarrow> (rlc_sdu \<times> bool) list" where
  "q_marked q = map (\<lambda>x. (x, sdu_valid q x)) (q_queue q)"

definition live :: "('s \<times> bool) list \<Rightarrow> 's list" where
  "live m = map fst (filter snd m)"

lemma live_simps [simp]:
  "live [] = []" "live (x # m) = (if snd x then [fst x] else []) @ live m" "live (m @ n) = live m @ live n"
  by (simp_all add: live_def)

lemma q_view_marked: "q_view q = live (q_marked q)"
  by (simp add: q_view_def live_def q_marked_def filter_map o_def)

lemma live_dropWhile [simp]: "live (dropWhile (\<lambda>x. \<not> snd x) m) = live m"
  by (induction m) auto

lemma release_marked:
  assumes inv: "q_inv q" and x: "q_queue q = x # rest" and sn: "sdu_pdcp_sn x = Some sn"
  shows "q_marked (snd (check_and_release sn (q\<lparr>q_queue := rest\<rparr>))) = tl (q_marked q)"
proof -
  have "slot q sn \<notin> set (q_slots (q\<lparr>q_queue := rest\<rparr>))"
    using inv by (auto simp: q_inv_def q_core_def q_slots_simps(1) [OF x] sn)
  note same = other_slot(1) [OF slot_differsI [OF this]]
  show ?thesis
    using same x by (auto simp: q_marked_def check_and_release_def set_slot_def state_sub_def Let_def)
qed

lemma read_marked:
  assumes "q_inv q"
  shows "q_marked (snd (snd (read_sdu sdu q))) = tl (dropWhile (\<lambda>x. \<not> snd x) (q_marked q))"
  using assms
proof (induction "q_queue q" arbitrary: q sdu)
  case Nil
  then show ?case by (simp add: read_step(1) q_marked_def)
next
  case (Cons x rest)
  note q = Cons.hyps(2) [symmetric]
  show ?case
  proof (cases "sdu_pdcp_sn x")
    case None
    then show ?thesis by (simp add: read_step(2) [OF q None] q_marked_def q state_sub_def sdu_valid_def)
  next
    case (Some sn)
    note r = release_head [OF Cons.prems q Some] release_marked [OF Cons.prems q Some]
    have m: "q_marked q = (x, sdu_valid q x) # tl (q_marked q)" by (simp add: q_marked_def q)
    show ?thesis
      using Cons.hyps(1) [OF r(4) [symmetric] r(2), of x] r(1,5)
      by (subst m) (simp add: read_step(3) [OF q Some] Let_def)
  qed
qed

lemma front_marked:
  assumes "q_inv q"
  shows "q_marked (snd (front q)) = dropWhile (\<lambda>x. \<not> snd x) (q_marked q)"
  using assms
proof (induction "q_queue q" arbitrary: q)
  case Nil
  then show ?case by (simp add: front_step(1) q_marked_def)
next
  case (Cons x rest)
  note q = Cons.hyps(2) [symmetric]
  show ?case
  proof (cases "sdu_valid q x")
    case True
    then show ?thesis by (simp add: front_step(2) [OF q True] q_marked_def q)
  next
    case False
    then obtain sn where sn: "sdu_pdcp_sn x = Some sn" by (auto simp: sdu_valid_def split: option.splits)
    note r = release_head [OF Cons.prems q sn] release_marked [OF Cons.prems q sn]
    have m: "q_marked q = (x, sdu_valid q x) # tl (q_marked q)" by (simp add: q_marked_def q)
    show ?thesis
      using Cons.hyps(1) [OF r(4) [symmetric] r(2)] r(1,5) False
      by (subst m) (simp add: front_step(3) [OF q False sn] Let_def)
  qed
qed

lemma write_marked:
  assumes inv: "q_inv q" and sn_ok: "sdu_sn_ok sdu"
  shows "q_marked (snd (write_sdu sdu q)) = q_marked q @ (if write_accepts q sdu then [(sdu, True)] else [])"
proof -
  have queue: "q_queue (snd (write_sdu sdu q)) = q_queue q @ (if fst (write_sdu sdu q) then [sdu] else [])"
    by (auto simp: write_sdu_def try_push_def state_add_def set_slot_def set_size_def Let_def split: option.splits)
  have old: "sdu_valid (snd (write_sdu sdu q)) x = sdu_valid q x" if x: "x \<in> set (q_queue q)" for x
  proof (cases "sdu_pdcp_sn sdu")
    case None
    then show ?thesis by (auto simp: write_sdu_def try_push_def state_add_def Let_def)
  next
    case (Some sn)
    show ?thesis
    proof (cases "q_sdu_states q (slot q sn) = STATE_FREE")
      case True
      then have "slot q sn \<notin> set (q_slots q)"
        by (simp add: slot_free_iff [OF q_inv_core [OF inv]])
      then have "slot_differs q (slot q sn) x" by (rule slot_differsI [OF _ x])
      then show ?thesis using Some
        by (auto simp: write_sdu_def try_push_def state_add_def set_slot_def set_size_def Let_def
            slot_differs_def sdu_valid_def check_def split: option.splits)
    qed (use Some in \<open>simp add: write_sdu_def Let_def\<close>)
  qed
  have new: "sdu_valid (snd (write_sdu sdu q)) sdu" if "fst (write_sdu sdu q)"
    using that by (auto simp: write_sdu_def try_push_def state_add_def set_slot_def set_size_def Let_def
        sdu_valid_def check_def slot_def split: option.splits if_splits)
  show ?thesis
    using old new write_correct(1) [OF inv sn_ok] by (simp add: q_marked_def queue)
qed

lemma discard_marked:
  assumes inv: "q_inv q" and sn: "sn < STATE_DISCARDED"
  shows "q_marked (snd (try_discard sn q)) = map (\<lambda>(x, v). (x, v \<and> sdu_pdcp_sn x \<noteq> Some sn)) (q_marked q)"
proof -
  have queue: "q_queue (snd (try_discard sn q)) = q_queue q"
    by (simp add: try_discard_def Let_def state_sub_def set_slot_def)
  have "sdu_valid (snd (try_discard sn q)) x \<longleftrightarrow> sdu_valid q x \<and> sdu_pdcp_sn x \<noteq> Some sn"
    if x: "x \<in> set (q_queue q)" for x
  proof -
    have "sdu_valid q' x \<longleftrightarrow> x \<in> set (q_view q')" if "q_queue q' = q_queue q" for q'
      using x that by (simp add: q_view_def)
    from this [OF queue] this [OF refl] show ?thesis
      by (simp add: discard_correct(3) [OF inv sn])
  qed
  then show ?thesis by (simp add: q_marked_def queue)
qed

section \<open>The contract of the queue\<close>

text \<open>
  A FIFO with discard, as a list of elements with their marks. Every operation returns an observation: a
  write whether it was accepted, a discard whether it hit an element, a read and a look at the front the
  first element that is not discarded, if there is one.
\<close>

datatype ('s, 'k) fifo_op = Op_Write 's | Op_Discard 'k | Op_Read | Op_Front

datatype 's fifo_out = Out_Done bool | Out_Sdu "'s option"

fun is_discard :: "('s, 'k) fifo_op \<Rightarrow> bool" where
  "is_discard (Op_Discard k) = True"
| "is_discard _ = False"

fun fifo_ok :: "('s \<Rightarrow> bool) \<Rightarrow> ('k \<Rightarrow> bool) \<Rightarrow> ('s, 'k) fifo_op \<Rightarrow> bool" where
  "fifo_ok sok kok (Op_Write s) = sok s"
| "fifo_ok sok kok (Op_Discard k) = kok k"
| "fifo_ok sok kok Op_Read = True"
| "fifo_ok sok kok Op_Front = True"

definition first_sdu :: "('s \<times> bool) list \<Rightarrow> 's option" where
  "first_sdu m = (case live m of [] \<Rightarrow> None | s # _ \<Rightarrow> Some s)"

fun fifo_step ::
  "('s \<Rightarrow> 'k option) \<Rightarrow> ('s \<Rightarrow> ('s \<times> bool) list \<Rightarrow> bool) \<Rightarrow> ('s, 'k) fifo_op \<Rightarrow> ('s \<times> bool) list \<Rightarrow>
     's fifo_out \<times> ('s \<times> bool) list" where
  "fifo_step sn_of accept (Op_Write s) m = (Out_Done (accept s m), m @ (if accept s m then [(s, True)] else []))"
| "fifo_step sn_of accept (Op_Discard k) m =
     (Out_Done (\<exists>s \<in> set (live m). sn_of s = Some k), map (\<lambda>(s, v). (s, v \<and> sn_of s \<noteq> Some k)) m)"
| "fifo_step sn_of accept Op_Read m = (Out_Sdu (first_sdu m), tl (dropWhile (\<lambda>x. \<not> snd x) m))"
| "fifo_step sn_of accept Op_Front m = (Out_Sdu (first_sdu m), dropWhile (\<lambda>x. \<not> snd x) m)"

fun fifo_run ::
  "('s \<Rightarrow> 'k option) \<Rightarrow> ('s \<Rightarrow> ('s \<times> bool) list \<Rightarrow> bool) \<Rightarrow> ('s, 'k) fifo_op list \<Rightarrow> ('s \<times> bool) list \<Rightarrow>
     's fifo_out list \<times> ('s \<times> bool) list" where
  "fifo_run sn_of accept [] m = ([], m)"
| "fifo_run sn_of accept (op # ops) m =
     (let (out, m) = fifo_step sn_of accept op m; (outs, m) = fifo_run sn_of accept ops m in (out # outs, m))"

text \<open>The elements that a run accepted and those that it read.\<close>

fun fifo_accepted :: "('s, 'k) fifo_op list \<Rightarrow> 's fifo_out list \<Rightarrow> 's list" where
  "fifo_accepted (Op_Write s # ops) (Out_Done ok # outs) = (if ok then [s] else []) @ fifo_accepted ops outs"
| "fifo_accepted (op # ops) (out # outs) = fifo_accepted ops outs"
| "fifo_accepted _ _ = []"

fun fifo_reads :: "('s, 'k) fifo_op list \<Rightarrow> 's fifo_out list \<Rightarrow> 's list" where
  "fifo_reads (Op_Read # ops) (Out_Sdu (Some s) # outs) = s # fifo_reads ops outs"
| "fifo_reads (op # ops) (out # outs) = fifo_reads ops outs"
| "fifo_reads _ _ = []"

lemma live_discard: "live (map (\<lambda>(s, v). (s, v \<and> P s)) m) = filter P (live m)"
  by (induction m) auto

lemma live_tl_dropWhile: "live (tl (dropWhile (\<lambda>x. \<not> snd x) m)) = tl (live m)"
  by (induction m) auto

lemma fifo_run_subseq:
  "subseq (fifo_reads ops (fst (fifo_run sn_of accept ops m)) @ live (snd (fifo_run sn_of accept ops m)))
     (live m @ fifo_accepted ops (fst (fifo_run sn_of accept ops m)))"
proof (induction ops arbitrary: m)
  case (Cons op ops)
  show ?case
  proof (cases op)
    case (Op_Write s)
    then show ?thesis using Cons [of "m @ (if accept s m then [(s, True)] else [])"]
      by (simp add: Let_def split_beta split: if_splits)
  next
    case (Op_Discard k)
    let ?m = "map (\<lambda>(s, v). (s, v \<and> sn_of s \<noteq> Some k)) m"
    have "subseq (live ?m @ ys) (live m @ ys)" for ys
      unfolding live_discard by simp
    then show ?thesis using Op_Discard subseq_order.order_trans [OF Cons [of ?m]]
      by (simp add: Let_def split_beta)
  next
    case Op_Read
    then show ?thesis using Cons [of "tl (dropWhile (\<lambda>x. \<not> snd x) m)"]
      by (cases "live m") (simp_all add: Let_def split_beta live_tl_dropWhile first_sdu_def)
  next
    case Op_Front
    then show ?thesis using Cons [of "dropWhile (\<lambda>x. \<not> snd x) m"]
      by (simp add: Let_def split_beta)
  qed
qed simp

lemma fifo_run_exact:
  "\<forall>op \<in> set ops. \<not> is_discard op \<Longrightarrow>
   fifo_reads ops (fst (fifo_run sn_of accept ops m)) @ live (snd (fifo_run sn_of accept ops m)) =
     live m @ fifo_accepted ops (fst (fifo_run sn_of accept ops m))"
proof (induction ops arbitrary: m)
  case (Cons op ops)
  show ?case
  proof (cases op)
    case Op_Read
    then show ?thesis using Cons.IH [of "tl (dropWhile (\<lambda>x. \<not> snd x) m)"] Cons.prems
      by (cases "live m") (simp_all add: Let_def split_beta live_tl_dropWhile first_sdu_def)
  qed (use Cons in \<open>simp_all add: Let_def split_beta\<close>)
qed simp

text \<open>
  The interface: operations that keep \<open>inv\<close> and act on the elements and their marks as the list does. A
  run of the operations then has the observations of the list.
\<close>

locale sdu_fifo =
  fixes inv :: "'q \<Rightarrow> bool" and marked :: "'q \<Rightarrow> ('s \<times> bool) list" and sn_of :: "'s \<Rightarrow> 'k option"
    and accept :: "'s \<Rightarrow> ('s \<times> bool) list \<Rightarrow> bool" and sok :: "'s \<Rightarrow> bool" and kok :: "'k \<Rightarrow> bool"
    and enq :: "'s \<Rightarrow> 'q \<Rightarrow> bool \<times> 'q" and disc :: "'k \<Rightarrow> 'q \<Rightarrow> bool \<times> 'q"
    and deq :: "'q \<Rightarrow> bool \<times> 's \<times> 'q" and peek :: "'q \<Rightarrow> 's option \<times> 'q"
  assumes enq_law: "inv q \<Longrightarrow> sok s \<Longrightarrow> inv (snd (enq s q)) \<and>
      (Out_Done (fst (enq s q)), marked (snd (enq s q))) = fifo_step sn_of accept (Op_Write s) (marked q)"
    and disc_law: "inv q \<Longrightarrow> kok k \<Longrightarrow> inv (snd (disc k q)) \<and>
      (Out_Done (fst (disc k q)), marked (snd (disc k q))) = fifo_step sn_of accept (Op_Discard k) (marked q)"
    and deq_law: "inv q \<Longrightarrow> inv (snd (snd (deq q))) \<and>
      (Out_Sdu (if fst (deq q) then Some (fst (snd (deq q))) else None), marked (snd (snd (deq q)))) =
        fifo_step sn_of accept Op_Read (marked q)"
    and peek_law: "inv q \<Longrightarrow> inv (snd (peek q)) \<and>
      (Out_Sdu (fst (peek q)), marked (snd (peek q))) = fifo_step sn_of accept Op_Front (marked q)"
begin

fun step :: "('s, 'k) fifo_op \<Rightarrow> 'q \<Rightarrow> 's fifo_out \<times> 'q" where
  "step (Op_Write s) q = (Out_Done (fst (enq s q)), snd (enq s q))"
| "step (Op_Discard k) q = (Out_Done (fst (disc k q)), snd (disc k q))"
| "step Op_Read q = (Out_Sdu (if fst (deq q) then Some (fst (snd (deq q))) else None), snd (snd (deq q)))"
| "step Op_Front q = (Out_Sdu (fst (peek q)), snd (peek q))"

fun run :: "('s, 'k) fifo_op list \<Rightarrow> 'q \<Rightarrow> 's fifo_out list \<times> 'q" where
  "run [] q = ([], q)"
| "run (op # ops) q = (let (out, q) = step op q; (outs, q) = run ops q in (out # outs, q))"

lemma step_refines:
  "inv q \<Longrightarrow> fifo_ok sok kok op \<Longrightarrow>
     inv (snd (step op q)) \<and> (fst (step op q), marked (snd (step op q))) = fifo_step sn_of accept op (marked q)"
  using enq_law disc_law deq_law peek_law by (cases op) auto

lemma run_refines:
  "inv q \<Longrightarrow> list_all (fifo_ok sok kok) ops \<Longrightarrow>
     inv (snd (run ops q)) \<and> (fst (run ops q), marked (snd (run ops q))) = fifo_run sn_of accept ops (marked q)"
proof (induction ops arbitrary: q)
  case (Cons op ops)
  then have "inv (snd (step op q))"
    "(fst (step op q), marked (snd (step op q))) = fifo_step sn_of accept op (marked q)"
    using step_refines by auto
  with Cons.IH [of "snd (step op q)"] Cons.prems(2) show ?case
    by (auto simp: Let_def split_beta prod_eq_iff)
qed simp

end

text \<open>
  When the queue accepts an SDU: the byte limit holds with it, no element, discarded or not, has the slot
  of its PDCP SN, and there is a place.
\<close>

definition fifo_accepts :: "u32 \<Rightarrow> u32 \<Rightarrow> rlc_sdu \<Rightarrow> (rlc_sdu \<times> bool) list \<Rightarrow> bool" where
  "fifo_accepts capacity byte_limit sdu m \<longleftrightarrow>
     length (sdu_buf sdu) + sdu_bytes (live m) < unat byte_limit \<and>
     (\<forall>x \<in> set (map fst m). \<forall>sn \<in> set_option (sdu_pdcp_sn sdu). \<forall>sn' \<in> set_option (sdu_pdcp_sn x).
        sn mod capacity \<noteq> sn' mod capacity) \<and>
     length m < unat capacity"

lemma write_accepts_marked:
  "write_accepts q sdu = fifo_accepts (q_capacity q) (q_byte_limit q) sdu (q_marked q)"
  by (cases "sdu_pdcp_sn sdu")
    (fastforce simp: write_accepts_def fifo_accepts_def q_view_marked q_slots_mem slot_def q_marked_def
      simp flip: word_unat_eq_iff)+

lemma first_marked: "first_sdu (q_marked q) = (case q_view q of [] \<Rightarrow> None | s # _ \<Rightarrow> Some s)"
  by (simp add: first_sdu_def q_view_marked)

lemma queue_limits [simp]:
  "q_capacity (snd (write_sdu s q)) = q_capacity q" "q_byte_limit (snd (write_sdu s q)) = q_byte_limit q"
  "q_capacity (snd (try_discard sn q)) = q_capacity q" "q_byte_limit (snd (try_discard sn q)) = q_byte_limit q"
  "q_capacity (snd (check_and_release sn q)) = q_capacity q"
  "q_byte_limit (snd (check_and_release sn q)) = q_byte_limit q"
  by (auto simp: write_sdu_def try_discard_def check_and_release_def state_add_def state_sub_def set_slot_def
      set_size_def try_push_def Let_def split: option.splits)

lemma read_limits [simp]:
  "q_capacity (snd (snd (read_sdu s q))) = q_capacity q" "q_byte_limit (snd (snd (read_sdu s q))) = q_byte_limit q"
  by (induction s q rule: read_sdu.induct;
      subst read_sdu.simps; auto simp: Let_def state_sub_def split: option.splits)+

lemma front_limits [simp]:
  "q_capacity (snd (front q)) = q_capacity q" "q_byte_limit (snd (front q)) = q_byte_limit q"
  by (induction q rule: front.induct; subst front.simps; auto simp: Let_def split: option.splits)+

definition sized :: "u32 \<Rightarrow> u32 \<Rightarrow> rlc_sdu_queue \<Rightarrow> bool" where
  "sized capacity byte_limit q \<longleftrightarrow> q_inv q \<and> q_capacity q = capacity \<and> q_byte_limit q = byte_limit"

interpretation sduq: sdu_fifo "sized capacity byte_limit" q_marked sdu_pdcp_sn
  "fifo_accepts capacity byte_limit" sdu_sn_ok "\<lambda>sn. sn < STATE_DISCARDED"
  write_sdu try_discard "read_sdu sdu" front for capacity byte_limit sdu
proof (unfold_locales, goal_cases)
  case (1 q s)
  then show ?case using write_correct [of q s] write_marked [of q s]
    by (auto simp: sized_def write_accepts_marked)
next
  case (2 q k)
  then show ?case using discard_correct [of q k] discard_marked [of q k]
    by (auto simp: sized_def q_view_marked)
next
  case (3 q)
  then show ?case using read_correct [of q sdu] read_marked [of q sdu]
    by (auto simp: sized_def first_marked split: list.splits)
next
  case (4 q)
  then show ?case using front_correct [of q] front_marked [of q]
    by (auto simp: sized_def first_marked)
qed

fun queue_step :: "(rlc_sdu, u32) fifo_op \<Rightarrow> rlc_sdu_queue \<Rightarrow> rlc_sdu fifo_out \<times> rlc_sdu_queue" where
  "queue_step (Op_Write s) q = (let (ok, q) = write_sdu s q in (Out_Done ok, q))"
| "queue_step (Op_Discard k) q = (let (ok, q) = try_discard k q in (Out_Done ok, q))"
| "queue_step Op_Read q = (let (ok, s, q) = read_sdu empty_sdu q in (Out_Sdu (if ok then Some s else None), q))"
| "queue_step Op_Front q = (let (s, q) = front q in (Out_Sdu s, q))"

fun queue_run :: "(rlc_sdu, u32) fifo_op list \<Rightarrow> rlc_sdu_queue \<Rightarrow> rlc_sdu fifo_out list \<times> rlc_sdu_queue" where
  "queue_run [] q = ([], q)"
| "queue_run (op # ops) q = (let (out, q) = queue_step op q; (outs, q) = queue_run ops q in (out # outs, q))"

lemma queue_run_eq: "queue_run ops q = sduq.run empty_sdu ops q"
proof -
  have "queue_step op q = sduq.step empty_sdu op q" for op q
    by (cases op) (simp_all add: split_beta)
  then show ?thesis
    by (induction ops arbitrary: q) simp_all
qed


definition sample_sdu :: "u32 \<Rightarrow> u8 \<Rightarrow> rlc_sdu" where
  "sample_sdu sn b = \<lparr>sdu_buf = [b, b], sdu_is_retx = False, sdu_pdcp_sn = Some sn, sdu_toa = 0\<rparr>"

definition sample_ops :: "(rlc_sdu, u32) fifo_op list" where
  "sample_ops = [Op_Write (sample_sdu 1 10), Op_Write (sample_sdu 2 20), Op_Write (sample_sdu 3 30),
     Op_Discard 2, Op_Write (sample_sdu 6 40), Op_Read, Op_Front, Op_Read]"


end
