(* ===== verification/Sdu_Queue_Threads.thy ===== *)
theory Sdu_Queue_Threads
  imports Rlc_Sdu_Queue
begin

text \<open>
  The SDU queue under two threads (lib/rlc/rlc_sdu_queue_lockfree.h): the upper layer thread runs \<open>write\<close>
  and \<open>try_discard\<close>, the lower layer thread runs \<open>read\<close> and \<open>front\<close>. Every atomic access of the code is a
  step of its own, and the steps of the two threads interleave in any order (sequentially consistent; the
  weaker memory orders of the code are not modelled). A push to and a pop from the underlying queue is one
  step.

  The proof maps a state of the two threads to a queue (\<open>vq\<close>) that has the elements and counter updates
  that are under way: an access either leaves that queue as it is or is one operation on it.
  Shown: no interleaving loses or duplicates counter updates, so that the counters are exact whenever both
  threads are between calls; and a state where the counters are wrapped around can be observed.
\<close>

text \<open>Where the upper layer thread is in \<open>write\<close> or \<open>try_discard\<close>.\<close>

datatype producer =
    P_Idle
  | P_Check rlc_sdu
  | P_Slot rlc_sdu u32
  | P_Size rlc_sdu u32
  | P_Mark rlc_sdu u32
  | P_Push rlc_sdu
  | P_Undo rlc_sdu u32
  | P_Add nat
  | P_Load u32
  | P_Sub nat

text \<open>Where the lower layer thread is in \<open>read\<close> or \<open>front\<close>.\<close>

datatype consumer =
    C_Idle
  | C_Invalid u32
  | C_Size rlc_sdu u32
  | C_Exchange rlc_sdu u32 nat
  | C_Sub nat

type_synonym threads = "rlc_sdu_queue \<times> producer \<times> consumer"

inductive pstep :: "rlc_sdu_queue \<times> producer \<Rightarrow> rlc_sdu_queue \<times> producer \<Rightarrow> bool" where
  p_call: "sdu_sn_ok sdu \<Longrightarrow> pstep (q, P_Idle) (q, P_Check sdu)"
| p_limit: "length (sdu_buf sdu) + unat (n_bytes (get_state q)) \<ge> unat (q_byte_limit q) \<Longrightarrow>
    pstep (q, P_Check sdu) (q, P_Idle)"
| p_fits_sn: "length (sdu_buf sdu) + unat (n_bytes (get_state q)) < unat (q_byte_limit q) \<Longrightarrow>
    sdu_pdcp_sn sdu = Some sn \<Longrightarrow> pstep (q, P_Check sdu) (q, P_Slot sdu sn)"
| p_fits: "length (sdu_buf sdu) + unat (n_bytes (get_state q)) < unat (q_byte_limit q) \<Longrightarrow>
    sdu_pdcp_sn sdu = None \<Longrightarrow> pstep (q, P_Check sdu) (q, P_Push sdu)"
| p_busy: "q_sdu_states q (slot q sn) \<noteq> STATE_FREE \<Longrightarrow> pstep (q, P_Slot sdu sn) (q, P_Idle)"
| p_free: "q_sdu_states q (slot q sn) = STATE_FREE \<Longrightarrow> pstep (q, P_Slot sdu sn) (q, P_Size sdu sn)"
| p_size: "pstep (q, P_Size sdu sn) (set_size sn (length (sdu_buf sdu)) q, P_Mark sdu sn)"
| p_mark: "pstep (q, P_Mark sdu sn) (set_slot sn sn q, P_Push sdu)"
| p_push: "try_push (unat (q_capacity q)) sdu (q_queue q) = (True, queue) \<Longrightarrow>
    pstep (q, P_Push sdu) (q\<lparr>q_queue := queue\<rparr>, P_Add (length (sdu_buf sdu)))"
| p_full_sn: "try_push (unat (q_capacity q)) sdu (q_queue q) = (False, queue) \<Longrightarrow> sdu_pdcp_sn sdu = Some sn \<Longrightarrow>
    pstep (q, P_Push sdu) (q, P_Undo sdu sn)"
| p_full: "try_push (unat (q_capacity q)) sdu (q_queue q) = (False, queue) \<Longrightarrow> sdu_pdcp_sn sdu = None \<Longrightarrow>
    pstep (q, P_Push sdu) (q, P_Idle)"
| p_undo: "pstep (q, P_Undo sdu sn) (set_slot sn STATE_FREE q, P_Idle)"
| p_add: "pstep (q, P_Add n) (state_add n q, P_Idle)"
| p_discard: "sn < STATE_DISCARDED \<Longrightarrow> check sn q \<Longrightarrow>
    pstep (q, P_Idle) (set_slot sn STATE_DISCARDED q, P_Load sn)"
| p_miss: "sn < STATE_DISCARDED \<Longrightarrow> \<not> check sn q \<Longrightarrow> pstep (q, P_Idle) (q, P_Idle)"
| p_load: "pstep (q, P_Load sn) (q, P_Sub (q_sdu_sizes q (slot q sn)))"
| p_sub: "pstep (q, P_Sub n) (state_sub n q, P_Idle)"

inductive cstep :: "rlc_sdu_queue \<times> consumer \<Rightarrow> rlc_sdu_queue \<times> consumer \<Rightarrow> bool" where
  c_pop_sn: "q_queue q = x # rest \<Longrightarrow> sdu_pdcp_sn x = Some sn \<Longrightarrow>
    cstep (q, C_Idle) (q\<lparr>q_queue := rest\<rparr>, C_Size x sn)"
| c_pop: "q_queue q = x # rest \<Longrightarrow> sdu_pdcp_sn x = None \<Longrightarrow>
    cstep (q, C_Idle) (q\<lparr>q_queue := rest\<rparr>, C_Sub (length (sdu_buf x)))"
| c_size: "cstep (q, C_Size x sn) (q, C_Exchange x sn (q_sdu_sizes q (slot q sn)))"
| c_discarded: "q_sdu_states q (slot q sn) = STATE_DISCARDED \<Longrightarrow> sn \<noteq> STATE_DISCARDED \<Longrightarrow>
    cstep (q, C_Exchange x sn n) (set_slot sn STATE_FREE q, C_Idle)"
| c_release: "q_sdu_states q (slot q sn) = sn \<or> q_sdu_states q (slot q sn) \<noteq> STATE_DISCARDED \<Longrightarrow>
    cstep (q, C_Exchange x sn n) (set_slot sn STATE_FREE q, C_Sub n)"
| c_sub: "cstep (q, C_Sub n) (state_sub n q, C_Idle)"
| c_front: "q_queue q = x # rest \<Longrightarrow> sdu_pdcp_sn x = Some sn \<Longrightarrow> \<not> check sn q \<Longrightarrow>
    cstep (q, C_Idle) (q, C_Invalid sn)"
| c_front_pop: "q_queue q = x # rest \<Longrightarrow> sdu_pdcp_sn x = Some sn \<Longrightarrow>
    cstep (q, C_Invalid sn) (q\<lparr>q_queue := rest\<rparr>, C_Size x sn)"
| c_front_other: "q_queue q = x # rest \<Longrightarrow> sdu_pdcp_sn x \<noteq> Some sn \<Longrightarrow>
    cstep (q, C_Invalid sn) (q\<lparr>q_queue := rest\<rparr>, C_Idle)"
| c_front_none: "q_queue q = [] \<Longrightarrow> cstep (q, C_Invalid sn) (q, C_Idle)"

inductive tstep :: "threads \<Rightarrow> threads \<Rightarrow> bool" where
  upper: "pstep (q, p) (q', p') \<Longrightarrow> tstep (q, p, c) (q', p', c)"
| lower: "cstep (q, c) (q', c') \<Longrightarrow> tstep (q, p, c) (q', p, c')"

inductive_cases tstepE: "tstep s s'"

section \<open>The queue with everything that is under way\<close>

text \<open>
  SDUs that the lower layer thread has popped and not yet released, an SDU whose slot is marked and that
  is not yet in the queue, and the counter updates that are still to be done.
\<close>

fun held :: "consumer \<Rightarrow> rlc_sdu list" where
  "held (C_Size x sn) = [x]"
| "held (C_Exchange x sn n) = [x]"
| "held _ = []"

fun pushing :: "producer \<Rightarrow> rlc_sdu list" where
  "pushing (P_Push sdu) = [sdu]"
| "pushing (P_Undo sdu sn) = [sdu]"
| "pushing _ = []"

fun to_add :: "producer \<Rightarrow> nat option" where
  "to_add (P_Add n) = Some n"
| "to_add (P_Push sdu) = Some (length (sdu_buf sdu))"
| "to_add (P_Undo sdu sn) = Some (length (sdu_buf sdu))"
| "to_add _ = None"

fun p_to_sub :: "rlc_sdu_queue \<Rightarrow> producer \<Rightarrow> nat option" where
  "p_to_sub q (P_Load sn) = Some (q_sdu_sizes q (slot q sn))"
| "p_to_sub q (P_Sub n) = Some n"
| "p_to_sub q _ = None"

fun c_to_sub :: "consumer \<Rightarrow> nat option" where
  "c_to_sub (C_Sub n) = Some n"
| "c_to_sub _ = None"

definition change :: "nat option \<Rightarrow> u64" where
  "change n = (case n of None \<Rightarrow> 0 | Some n \<Rightarrow> state_change n)"

definition vq :: "rlc_sdu_queue \<Rightarrow> producer \<Rightarrow> consumer \<Rightarrow> rlc_sdu_queue" where
  "vq q p c = q\<lparr>q_queue := held c @ q_queue q @ pushing p,
                q_state := q_state q + change (to_add p) - change (p_to_sub q p) - change (c_to_sub c)\<rparr>"

definition total :: "rlc_sdu_queue \<Rightarrow> producer \<Rightarrow> consumer \<Rightarrow> nat" where
  "total q p c = sdu_bytes (q_view (vq q p c)) + (case p_to_sub q p of None \<Rightarrow> 0 | Some n \<Rightarrow> n) +
     (case c_to_sub c of None \<Rightarrow> 0 | Some n \<Rightarrow> n)"

text \<open>What each thread knows from its earlier accesses.\<close>

fun p_knows :: "rlc_sdu_queue \<Rightarrow> nat \<Rightarrow> producer \<Rightarrow> bool" where
  "p_knows q tot (P_Check sdu) = sdu_sn_ok sdu"
| "p_knows q tot (P_Slot sdu sn) \<longleftrightarrow> sdu_sn_ok sdu \<and> sdu_pdcp_sn sdu = Some sn \<and>
     length (sdu_buf sdu) + tot < unat (q_byte_limit q)"
| "p_knows q tot (P_Size sdu sn) \<longleftrightarrow> sdu_sn_ok sdu \<and> sdu_pdcp_sn sdu = Some sn \<and>
     length (sdu_buf sdu) + tot < unat (q_byte_limit q) \<and> q_sdu_states q (slot q sn) = STATE_FREE"
| "p_knows q tot (P_Mark sdu sn) \<longleftrightarrow> sdu_sn_ok sdu \<and> sdu_pdcp_sn sdu = Some sn \<and>
     length (sdu_buf sdu) + tot < unat (q_byte_limit q) \<and> q_sdu_states q (slot q sn) = STATE_FREE \<and>
     q_sdu_sizes q (slot q sn) = length (sdu_buf sdu)"
| "p_knows q tot (P_Push sdu) = sdu_valid q sdu"
| "p_knows q tot (P_Undo sdu sn) \<longleftrightarrow> sdu_valid q sdu \<and> sdu_pdcp_sn sdu = Some sn"
| "p_knows q tot _ = True"

fun c_knows :: "rlc_sdu_queue \<Rightarrow> consumer \<Rightarrow> bool" where
  "c_knows q (C_Invalid sn) = (\<exists>x rest. q_queue q = x # rest \<and> sdu_pdcp_sn x = Some sn)"
| "c_knows q (C_Size x sn) = (sdu_pdcp_sn x = Some sn)"
| "c_knows q (C_Exchange x sn n) \<longleftrightarrow> sdu_pdcp_sn x = Some sn \<and> n = length (sdu_buf x)"
| "c_knows q _ = True"

definition tinv :: "threads \<Rightarrow> bool" where
  "tinv s \<longleftrightarrow> (case s of (q, p, c) \<Rightarrow>
     0 < q_capacity q \<and> q_capacity q < 2 ^ 31 \<and> length (q_queue q) \<le> unat (q_capacity q) \<and> q_core (vq q p c) \<and>
     total q p c < max 1 (unat (q_byte_limit q)) \<and> p_knows q (total q p c) p \<and> c_knows q c)"

lemma tinvI:
  "0 < q_capacity q \<Longrightarrow> q_capacity q < 2 ^ 31 \<Longrightarrow> length (q_queue q) \<le> unat (q_capacity q) \<Longrightarrow> q_core (vq q p c) \<Longrightarrow>
     total q p c < max 1 (unat (q_byte_limit q)) \<Longrightarrow> p_knows q (total q p c) p \<Longrightarrow> c_knows q c \<Longrightarrow> tinv (q, p, c)"
  by (simp add: tinv_def)

lemma tinvD:
  assumes "tinv (q, p, c)"
  shows "0 < q_capacity q" "q_capacity q < 2 ^ 31" "length (q_queue q) \<le> unat (q_capacity q)" "q_core (vq q p c)"
    "total q p c < max 1 (unat (q_byte_limit q))" "p_knows q (total q p c) p" "c_knows q c"
  using assms by (simp_all add: tinv_def)

lemma change_simps [simp]: "change None = 0" "change (Some n) = state_change n"
  by (simp_all add: change_def)

section \<open>Steps that leave the queue as it is\<close>

lemma vq_slot [simp]: "slot (vq q p c) = slot q"
  by (simp add: vq_def)

lemma vq_fields [simp]:
  "q_sdu_states (vq q p c) = q_sdu_states q" "q_sdu_sizes (vq q p c) = q_sdu_sizes q"
  "q_queue (vq q p c) = held c @ q_queue q @ pushing p"
  by (simp_all add: vq_def)

lemma vq_same:
  assumes "vq q' p' c' = vq q p c" "tinv (q, p, c)"
    and "q_capacity q' = q_capacity q" "q_byte_limit q' = q_byte_limit q" "length (q_queue q') \<le> unat (q_capacity q)"
    and "total q' p' c' \<le> total q p c" "p_knows q' (total q' p' c') p'" "c_knows q' c'"
  shows "tinv (q', p', c')"
  using assms by (intro tinvI) (auto dest: tinvD)

lemma tinv_local:
  assumes "tinv (q, p, c)" "held c' = held c" "pushing p' = pushing p" "to_add p' = to_add p"
    and "p_to_sub q p' = p_to_sub q p" "c_to_sub c' = c_to_sub c" "p_knows q (total q p c) p'" "c_knows q c'"
  shows "tinv (q, p', c')"
proof -
  have "vq q p' c' = vq q p c" using assms by (simp add: vq_def)
  moreover from this have "total q p' c' = total q p c" using assms by (simp add: total_def)
  ultimately show ?thesis using assms by (intro vq_same [of q p' c' q p c]) (auto dest: tinvD)
qed

text \<open>The bytes that the upper layer thread reads include all SDUs and what the other thread has still to subtract.\<close>

lemma observed_bytes:
  assumes inv: "tinv (q, p, c)" and p: "to_add p = None" "p_to_sub q p = None"
    and push: "pushing p = []"
  shows "unat (n_bytes (get_state q)) = total q p c"
proof -
  let ?v = "q_view (vq q p c)"
  let ?n = "case c_to_sub c of None \<Rightarrow> 0 | Some n \<Rightarrow> n" and ?k = "case c_to_sub c of None \<Rightarrow> 0 | Some n \<Rightarrow> Suc 0"
  have tot: "total q p c = sdu_bytes ?v + ?n" using p by (simp add: total_def)
  have less: "sdu_bytes ?v + ?n < 2 ^ 32"
    using tinvD(5) [OF inv] less_le_trans [OF _ max_1_u32] tot by metis
  have "length ?v \<le> length (q_queue (vq q p c))" by (rule q_view_length)
  moreover have "length (held c) \<le> 1" by (cases c) simp_all
  moreover have "unat (q_capacity q) < 2 ^ 31" using tinvD(2) [OF inv] by (simp add: word_less_nat_alt)
  ultimately have n: "length ?v + ?k < 2 ^ 32"
    using tinvD(3) [OF inv] push by (auto split: option.split)
  have "q_state q = sdu_changes ?v + change (c_to_sub c)"
    using tinvD(4) [OF inv] p by (simp add: q_core_def) (simp add: vq_def algebra_simps)
  also have "\<dots> = of_nat (length ?v * 2 ^ 32 + sdu_bytes ?v) + of_nat (?k * 2 ^ 32 + ?n)"
    using less by (auto simp: sdu_changes_of_nat state_change_of_nat split: option.split)
  also have "\<dots> = of_nat ((length ?v + ?k) * 2 ^ 32 + (sdu_bytes ?v + ?n))"
    by (simp add: algebra_simps)
  finally show ?thesis
    using unpack_of_nat(2) [OF n less] by (simp only: get_state_def tot)
qed

text \<open>What one thread knows survives the steps of the other one.\<close>

lemma p_knows_frame:
  assumes "p_knows q tot p" "tot' \<le> tot" "q_byte_limit q' = q_byte_limit q" "q_capacity q' = q_capacity q"
    and "q_sdu_sizes q' = q_sdu_sizes q" "\<forall>i. q_sdu_states q i = STATE_FREE \<longrightarrow> q_sdu_states q' i = STATE_FREE"
    and "\<forall>x \<in> set (pushing p). sdu_valid q x \<longrightarrow> sdu_valid q' x"
  shows "p_knows q' tot' p"
proof -
  have "slot q' = slot q" using assms(4) by (simp add: slot_def fun_eq_iff)
  with assms show ?thesis by (cases p) auto
qed

lemma c_knows_frame: "c_knows q c \<Longrightarrow> q_queue q' = q_queue q @ zs \<Longrightarrow> c_knows q' c"
  by (cases c) auto

section \<open>Steps that are an operation on the queue\<close>

lemma q_core_size:
  assumes "q_core q" "i \<notin> set (q_slots q)"
  shows "q_core (q\<lparr>q_sdu_sizes := (q_sdu_sizes q)(i := z)\<rparr>)"
  using assms other_slot(3) [OF slot_differsI [OF assms(2)]] by (simp add: q_core_def)

text \<open>Taking the last element back.\<close>

lemma q_core_unpush:
  assumes core: "q_core q" and q: "q_queue q = xs @ [x]" and valid: "sdu_valid q x"
    and states: "case sdu_pdcp_sn x of None \<Rightarrow> ss = q_sdu_states q | Some sn \<Rightarrow> ss = (q_sdu_states q)(slot q sn := STATE_FREE)"
  defines "q' \<equiv> q\<lparr>q_queue := xs, q_sdu_states := ss, q_state := q_state q - state_change (length (sdu_buf x))\<rparr>"
  shows "q_core q'" "q_view q = q_view q' @ [x]"
proof -
  let ?r = "q\<lparr>q_queue := xs\<rparr>"
  have slots: "q_slots q = q_slots ?r @ (case sdu_pdcp_sn x of None \<Rightarrow> [] | Some sn \<Rightarrow> [slot q sn])"
    using q_slots_simps(2) [where q = q and xs = xs and x = x] by (simp add: q flip: q)
  have rest: "distinct (q_slots ?r)" "\<forall>sn. sdu_pdcp_sn x = Some sn \<longrightarrow> slot q sn \<notin> set (q_slots ?r)"
    using core by (auto simp: q_core_def slots split: option.splits)
  have view: "q_view (?r\<lparr>q_sdu_states := ss\<rparr>) = q_view ?r"
    using states rest(2) q_view_other [of _ ?r] by (cases "sdu_pdcp_sn x") auto
  have eq: "q_view q = q_view ?r @ [x]" using valid by (simp add: q_view_def q)
  then show eq': "q_view q = q_view q' @ [x]" using view by (simp add: q'_def)
  have ok: "\<forall>y \<in> set xs. slot_ok (?r\<lparr>q_sdu_states := ss\<rparr>) y"
    using core q states rest(2) other_slot(2) [OF slot_differsI, of _ ?r]
    by (cases "sdu_pdcp_sn x") (auto simp: q_core_def)
  have free: "\<forall>i. i \<notin> set (q_slots ?r) \<longrightarrow> ss i = STATE_FREE"
    using core states by (cases "sdu_pdcp_sn x") (auto simp: q_core_def slots)
  have "q_state q = sdu_changes (q_view q)" using core by (simp add: q_core_def)
  also have "\<dots> = sdu_changes (q_view ?r) + state_change (length (sdu_buf x))" by (simp add: eq)
  finally show "q_core q'"
    using rest(1) ok free view by (simp add: q_core_def q'_def)
qed

text \<open>A slot is marked for an SDU that is to be pushed, or an SDU without SN is to be pushed.\<close>

lemma tinv_mark:
  assumes inv: "tinv (q, p, c)" and p: "to_add p = None" "p_to_sub q p = None" "pushing p = []"
    and ok: "sdu_sn_ok sdu" and fits: "length (sdu_buf sdu) + total q p c < unat (q_byte_limit q)"
    and ss: "case sdu_pdcp_sn sdu of None \<Rightarrow> ss = q_sdu_states q
      | Some sn \<Rightarrow> ss = (q_sdu_states q)(slot q sn := sn) \<and> q_sdu_states q (slot q sn) = STATE_FREE \<and>
          q_sdu_sizes q (slot q sn) = length (sdu_buf sdu)"
  shows "tinv (q\<lparr>q_sdu_states := ss\<rparr>, P_Push sdu, c)"
proof -
  let ?v = "vq q p c" and ?st = "q_state (vq q p c) + state_change (length (sdu_buf sdu))"
  let ?q = "q\<lparr>q_sdu_states := ss\<rparr>"
  note core = tinvD(4) [OF inv]
  have fresh: "\<forall>sn. sdu_pdcp_sn sdu = Some sn \<longrightarrow> slot ?v sn \<notin> set (q_slots ?v)"
    using ss by (auto simp flip: slot_free_iff [OF core])
  have slots: "case sdu_pdcp_sn sdu of None \<Rightarrow> ss = q_sdu_states ?v \<and> q_sdu_sizes q = q_sdu_sizes ?v
      | Some sn \<Rightarrow> ss = (q_sdu_states ?v)(slot ?v sn := sn) \<and>
          q_sdu_sizes q = (q_sdu_sizes ?v)(slot ?v sn := length (sdu_buf sdu))"
    using ss by (cases "sdu_pdcp_sn sdu") (auto simp: fun_upd_idem)
  have vq': "vq ?q (P_Push sdu) c =
      ?v\<lparr>q_queue := q_queue ?v @ [sdu], q_sdu_states := ss, q_sdu_sizes := q_sdu_sizes q, q_state := ?st\<rparr>"
    using p by (simp add: vq_def)
  have core': "q_core (vq ?q (P_Push sdu) c)" and view: "q_view (vq ?q (P_Push sdu) c) = q_view ?v @ [sdu]"
    unfolding vq' by (rule q_core_push [OF core fresh ok slots refl])+
  have "total ?q (P_Push sdu) c = length (sdu_buf sdu) + total q p c"
    using p by (simp add: total_def view)
  moreover have "sdu_valid ?q sdu"
    using ss by (auto simp: sdu_valid_def check_def split: option.splits)
  ultimately show ?thesis
    using tinvD [OF inv] fits core' c_knows_frame [of q c ?q "[]"] by (intro tinvI) simp_all
qed

lemma tinv_undo:
  assumes inv: "tinv (q, p, c)" and p: "p = P_Push sdu \<or> p = P_Undo sdu sn'"
    and ss: "case sdu_pdcp_sn sdu of None \<Rightarrow> ss = q_sdu_states q
      | Some sn \<Rightarrow> ss = (q_sdu_states q)(slot q sn := STATE_FREE)"
  shows "tinv (q\<lparr>q_sdu_states := ss\<rparr>, P_Idle, c)"
proof -
  let ?v = "vq q p c" and ?q = "q\<lparr>q_sdu_states := ss\<rparr>"
  have q: "q_queue ?v = (held c @ q_queue q) @ [sdu]" using p by auto
  have valid: "sdu_valid ?v sdu"
    using p tinvD(6) [OF inv] by (auto simp: sdu_valid_def check_def split: option.splits)
  have states: "case sdu_pdcp_sn sdu of None \<Rightarrow> ss = q_sdu_states ?v | Some sn \<Rightarrow> ss = (q_sdu_states ?v)(slot ?v sn := STATE_FREE)"
    using ss by (cases "sdu_pdcp_sn sdu") simp_all
  have vq': "vq ?q P_Idle c = ?v\<lparr>q_queue := held c @ q_queue q, q_sdu_states := ss,
      q_state := q_state ?v - state_change (length (sdu_buf sdu))\<rparr>"
    using p by (auto simp: vq_def)
  have core': "q_core (vq ?q P_Idle c)" and view: "q_view ?v = q_view (vq ?q P_Idle c) @ [sdu]"
    unfolding vq' by (rule q_core_unpush [OF tinvD(4) [OF inv] q valid states])+
  have "total ?q P_Idle c \<le> total q p c"
    using p by (auto simp: total_def view)
  then show ?thesis
    using tinvD [OF inv] core' c_knows_frame [of q c ?q "[]"] by (intro tinvI) simp_all
qed

lemma tinv_size:
  assumes inv: "tinv (q, P_Size sdu sn, c)"
  shows "tinv (set_size sn (length (sdu_buf sdu)) q, P_Mark sdu sn, c)"
proof -
  let ?q = "set_size sn (length (sdu_buf sdu)) q"
  note core = tinvD(4) [OF inv]
  have "slot q sn \<notin> set (q_slots (vq q (P_Size sdu sn) c))"
    using tinvD(6) [OF inv] by (simp flip: slot_free_iff [OF core])
  moreover have vq': "vq ?q (P_Mark sdu sn) c = (vq q (P_Size sdu sn) c)\<lparr>q_sdu_sizes :=
      (q_sdu_sizes (vq q (P_Size sdu sn) c))(slot q sn := length (sdu_buf sdu))\<rparr>"
    by (simp add: vq_def set_size_def)
  ultimately have core': "q_core (vq ?q (P_Mark sdu sn) c)"
    using q_core_size [OF core] by (simp only: vq')
  have "q_view (vq ?q (P_Mark sdu sn) c) = q_view (vq q (P_Size sdu sn) c)"
    by (simp only: vq' q_view_frame)
  then have "total ?q (P_Mark sdu sn) c = total q (P_Size sdu sn) c" by (simp add: total_def)
  then show ?thesis
    using tinvD [OF inv] core' c_knows_frame [of q c ?q "[]"] by (intro tinvI) (simp_all add: set_size_def)
qed

lemma sdu_bytes_filter: "x \<in> set xs \<Longrightarrow> \<not> P x \<Longrightarrow> sdu_bytes (filter P xs) + length (sdu_buf x) \<le> sdu_bytes xs"
proof (induction xs)
  case (Cons y ys)
  have "sdu_bytes (filter P ys) \<le> sdu_bytes ys" by (induction ys) auto
  with Cons show ?case by auto
qed simp

lemma tinv_discard:
  assumes inv: "tinv (q, P_Idle, c)" and sn: "sn < STATE_DISCARDED" and check: "check sn q"
  shows "tinv (set_slot sn STATE_DISCARDED q, P_Load sn, c)"
proof -
  let ?v = "vq q P_Idle c" and ?q = "set_slot sn STATE_DISCARDED q"
  note core = tinvD(4) [OF inv]
  have c: "check sn ?v" using check by (simp add: check_def)
  have "slot q sn \<in> set (q_slots ?v)"
    using slot_free_iff [OF core, of "slot q sn"] check sn marks(3) by (auto simp: check_def)
  then obtain x sn' where x: "x \<in> set (q_queue ?v)" "sdu_pdcp_sn x = Some sn'" "slot q sn = slot q sn'"
    unfolding q_slots_mem by auto
  have "sn' = sn"
    using q_core_slot [OF core x(1,2)] check sn marks x(3) by (auto simp: check_def)
  with x have sn_x: "sdu_pdcp_sn x = Some sn" by simp
  note hit = discard_hit [OF core x(1) sn_x c]
  have size: "q_sdu_sizes q (slot q sn) = length (sdu_buf x)"
    using q_core_slot [OF core x(1) sn_x] by simp
  have vq': "vq ?q (P_Load sn) c = snd (try_discard sn ?v)"
    using c by (simp add: try_discard_def check_def vq_def state_sub_def set_slot_def)
  have "x \<in> set (q_view ?v)" using x(1) c sn_x by (simp add: q_view_def sdu_valid_def)
  then have "total ?q (P_Load sn) c \<le> total q P_Idle c"
    using sdu_bytes_filter [of x "q_view ?v" "\<lambda>y. sdu_pdcp_sn y \<noteq> Some sn"] sn_x
    by (simp add: total_def vq' hit(3)) (simp add: set_slot_def size)
  moreover have "q_core (vq ?q (P_Load sn) c)" using hit(2) by (simp only: vq')
  ultimately show ?thesis
    using tinvD [OF inv] c_knows_frame [of q c ?q "[]"]
    by (intro tinvI) (simp_all add: set_slot_def)
qed

text \<open>The lower layer thread takes the first element and frees its slot.\<close>

lemma p_to_sub_frame:
  "q_sdu_sizes q' = q_sdu_sizes q \<Longrightarrow> q_capacity q' = q_capacity q \<Longrightarrow> p_to_sub q' p = p_to_sub q p"
  by (cases p) (simp_all add: slot_def)

lemma tinv_take:
  assumes inv: "tinv (q, p, c)" and v: "q_queue (vq q p c) = x # rest" "set (pushing p) \<subseteq> set rest"
    and ss: "case sdu_pdcp_sn x of None \<Rightarrow> ss = q_sdu_states q | Some sn \<Rightarrow> ss = (q_sdu_states q)(slot q sn := STATE_FREE)"
    and q': "q' = q\<lparr>q_queue := ys, q_sdu_states := ss\<rparr>" and ys: "length ys \<le> length (q_queue q)" "held c' @ ys @ pushing p = rest"
    and c: "c_to_sub c = None" "c_to_sub c' = (if sdu_valid q x then Some (length (sdu_buf x)) else None)"
    and know: "c_knows q' c'"
  shows "tinv (q', p, c')"
proof -
  let ?v = "vq q p c" and ?st = "q_state (vq q p c) - (if sdu_valid (vq q p c) x then state_change (length (sdu_buf x)) else 0)"
  note core = tinvD(4) [OF inv]
  have valid: "sdu_valid ?v = sdu_valid q" by (simp add: vq_def)
  have states: "case sdu_pdcp_sn x of None \<Rightarrow> ss = q_sdu_states ?v | Some sn \<Rightarrow> ss = (q_sdu_states ?v)(slot ?v sn := STATE_FREE)"
    using ss by (cases "sdu_pdcp_sn x") simp_all
  have sub: "p_to_sub q' p = p_to_sub q p" by (rule p_to_sub_frame) (simp_all add: q')
  have "vq q' p c' = ?v\<lparr>q_queue := rest, q_sdu_states := ss,
      q_state := q_state ?v - (if sdu_valid q x then state_change (length (sdu_buf x)) else 0)\<rparr>"
    unfolding vq_def sub c using ys(2) by (simp add: q')
  then have vq': "vq q' p c' = ?v\<lparr>q_queue := rest, q_sdu_states := ss, q_state := ?st\<rparr>"
    by (simp only: valid)
  have core': "q_core (vq q' p c')"
    unfolding vq' by (rule q_core_pop(1) [OF core v(1) states refl])
  have view: "q_view ?v = (if sdu_valid ?v x then [x] else []) @ q_view (vq q' p c')"
    unfolding vq' by (rule q_core_pop(2) [OF core v(1) states refl])
  have "sdu_bytes (q_view ?v) = (if sdu_valid q x then length (sdu_buf x) else 0) + sdu_bytes (q_view (vq q' p c'))"
    by (subst view) (simp add: valid)
  then have tot: "total q' p c' = total q p c" using c sub by (simp add: total_def)
  have "sdu_valid q' y" if y: "y \<in> set (pushing p)" "sdu_valid q y" for y
  proof (cases "sdu_pdcp_sn x")
    case None
    then show ?thesis using y ss by (simp add: q')
  next
    case (Some sn)
    have "distinct (q_slots ?v)" using core by (simp add: q_core_def)
    then have "slot q sn \<notin> set (q_slots (?v\<lparr>q_queue := rest\<rparr>))"
      using q_slots_simps(1) [OF v(1)] Some by simp
    then have "slot_differs ?v (slot q sn) y"
      using slot_differsI [of "slot q sn" "?v\<lparr>q_queue := rest\<rparr>" y] y(1) v(2)
      by (auto simp: slot_differs_def split: option.splits)
    then have "slot_differs q (slot q sn) y" by (simp add: slot_differs_def split: option.splits)
    then show ?thesis using y(2) ss Some by (simp add: q' other_slot(1))
  qed
  moreover have "\<forall>i. q_sdu_states q i = STATE_FREE \<longrightarrow> q_sdu_states q' i = STATE_FREE"
    using ss by (cases "sdu_pdcp_sn x") (auto simp: q')
  moreover have same: "q_capacity q' = q_capacity q" "q_byte_limit q' = q_byte_limit q" "q_sdu_sizes q' = q_sdu_sizes q"
    "q_queue q' = ys"
    by (simp_all add: q')
  ultimately have "p_knows q' (total q' p c') p"
    by (intro p_knows_frame [OF tinvD(6) [OF inv]]) (simp_all add: tot)
  then show ?thesis
    using tinvD [OF inv] know core' ys(1) same by (intro tinvI) (simp_all add: tot)
qed

text \<open>An access of the lower layer thread that only moves an element or does a pending subtraction.\<close>

lemma consumer_same:
  assumes inv: "tinv (q, p, c)" and q': "q' = q\<lparr>q_queue := ys, q_state := st\<rparr>" "length ys \<le> length (q_queue q)"
    and elems: "held c' @ ys = held c @ q_queue q"
    and st: "st - change (c_to_sub c') = q_state q - change (c_to_sub c)" "c_to_sub c' = None \<or> c_to_sub c' = c_to_sub c"
    and know: "c_knows q' c'"
  shows "tinv (q', p, c')"
proof -
  have sub: "p_to_sub q' p = p_to_sub q p" by (rule p_to_sub_frame) (simp_all add: q')
  have "st = q_state q - change (c_to_sub c) + change (c_to_sub c')"
    using st(1) by (simp add: diff_eq_eq)
  then have vq': "vq q' p c' = vq q p c"
    using elems unfolding vq_def sub by (simp add: q' flip: append_assoc)
  have tot: "total q' p c' \<le> total q p c"
    using st(2) by (auto simp: total_def vq' sub split: option.split)
  have "p_knows q' (total q' p c') p"
    by (rule p_knows_frame [OF tinvD(6) [OF inv] tot]) (simp_all add: q')
  then show ?thesis
    using tinvD(3) [OF inv] know q' by (intro vq_same [OF vq' inv _ _ _ tot]) simp_all
qed

lemma consumer_step:
  assumes "cstep (q, c) (q', c')" and inv: "tinv (q, p, c)"
  shows "tinv (q', p, c')"
  using assms(1)
proof cases
  case (c_pop_sn x rest sn)
  then show ?thesis by (intro consumer_same [OF inv, of q' "q_state q" rest]) simp_all
next
  case (c_pop x rest)
  then show ?thesis
    by (intro tinv_take [OF inv, where x = x and rest = "rest @ pushing p" and ys = rest and ss = "q_sdu_states q"])
      (auto simp: sdu_valid_def)
next
  case (c_size x sn)
  have x: "sdu_pdcp_sn x = Some sn" "x \<in> set (q_queue (vq q p c))" using tinvD(7) [OF inv] c_size by auto
  from q_core_slot [OF tinvD(4) [OF inv] x(2,1)] show ?thesis
    using c_size x by (intro consumer_same [OF inv, of q' "q_state q" "q_queue q"]) simp_all
next
  case (c_discarded sn x n)
  then show ?thesis
    using tinvD(7) [OF inv]
    by (intro tinv_take [OF inv, where x = x and rest = "q_queue q @ pushing p" and ys = "q_queue q"
          and ss = "(q_sdu_states q)(slot q sn := STATE_FREE)"])
      (auto simp: sdu_valid_def check_def set_slot_def)
next
  case (c_release sn x n)
  have x: "sdu_pdcp_sn x = Some sn" "x \<in> set (q_queue (vq q p c))" "n = length (sdu_buf x)"
    using tinvD(7) [OF inv] c_release by auto
  have "sdu_valid q x"
    using q_core_slot [OF tinvD(4) [OF inv] x(2,1)] c_release(4) x(1) by (auto simp: sdu_valid_def check_def)
  then show ?thesis
    using c_release x
    by (intro tinv_take [OF inv, where x = x and rest = "q_queue q @ pushing p" and ys = "q_queue q"
          and ss = "(q_sdu_states q)(slot q sn := STATE_FREE)"])
      (auto simp: set_slot_def)
next
  case (c_sub n)
  then show ?thesis
    by (intro consumer_same [OF inv, of q' "q_state q - state_change n" "q_queue q"]) (simp_all add: state_sub_def)
next
  case (c_front x rest sn)
  then show ?thesis by (intro consumer_same [OF inv, of q' "q_state q" "q_queue q"]) simp_all
next
  case (c_front_pop x rest sn)
  then show ?thesis by (intro consumer_same [OF inv, of q' "q_state q" rest]) simp_all
next
  case (c_front_other x rest sn)
  then show ?thesis using tinvD(7) [OF inv] by auto
next
  case (c_front_none sn)
  then show ?thesis using tinvD(7) [OF inv] by auto
qed

text \<open>An access of the upper layer thread that only moves its SDU or does a pending update.\<close>

lemma producer_same:
  assumes inv: "tinv (q, p, c)" and q': "q' = q\<lparr>q_queue := q_queue q @ zs, q_state := st\<rparr>"
    and len: "length (q_queue q @ zs) \<le> unat (q_capacity q)" and elems: "zs @ pushing p' = pushing p"
    and st: "st + change (to_add p') - change (p_to_sub q p') = q_state q + change (to_add p) - change (p_to_sub q p)"
    and sub: "p_to_sub q p' = None \<or> p_to_sub q p' = p_to_sub q p" and know: "p_knows q' (total q p c) p'"
  shows "tinv (q', p', c)"
proof -
  have sub': "p_to_sub q' p' = p_to_sub q p'" by (rule p_to_sub_frame) (simp_all add: q')
  have "st = q_state q + change (to_add p) - change (p_to_sub q p) - change (to_add p') + change (p_to_sub q p')"
    using st by (simp add: algebra_simps)
  then have vq': "vq q' p' c = vq q p c"
    using elems unfolding vq_def sub' by (simp add: q')
  have tot: "total q' p' c \<le> total q p c"
    using sub by (auto simp: total_def vq' sub' split: option.split)
  have "p_knows q' (total q' p' c) p'"
    by (rule p_knows_frame [OF know tot]) simp_all
  then show ?thesis
    using tinvD(3) [OF inv] len q' c_knows_frame [OF tinvD(7) [OF inv], of q' zs]
    by (intro vq_same [OF vq' inv _ _ _ tot]) simp_all
qed

lemma producer_step:
  assumes "pstep (q, p) (q', p')" and inv: "tinv (q, p, c)"
  shows "tinv (q', p', c)"
  using assms(1)
proof cases
  case (p_fits_sn sdu sn)
  then show ?thesis
    using tinvD [OF inv] observed_bytes [OF inv]
    by (intro producer_same [OF inv, of q' "q_state q" "[]"]) simp_all
next
  case (p_fits sdu)
  then show ?thesis
    using tinv_mark [OF inv, of sdu "q_sdu_states q"] tinvD [OF inv] observed_bytes [OF inv] by simp
next
  case (p_size sdu sn)
  then show ?thesis using tinv_size inv by simp
next
  case (p_mark sdu sn)
  then show ?thesis
    using tinv_mark [OF inv, of sdu "(q_sdu_states q)(slot q sn := sn)"] tinvD(6) [OF inv]
    by (simp add: set_slot_def)
next
  case (p_push sdu queue)
  have "0 < unat (q_capacity q)" using tinvD(1) [OF inv] by (simp add: word_less_nat_alt)
  then show ?thesis
    using p_push by (intro producer_same [OF inv, of q' "q_state q" "[sdu]"])
      (auto simp: try_push_def split: if_splits)
next
  case (p_full sdu queue)
  then show ?thesis using tinv_undo [OF inv, of sdu 0 "q_sdu_states q"] by simp
next
  case (p_undo sdu sn)
  then show ?thesis
    using tinv_undo [OF inv, of sdu sn "(q_sdu_states q)(slot q sn := STATE_FREE)"] tinvD(6) [OF inv]
    by (simp add: set_slot_def)
next
  case (p_discard sn)
  then show ?thesis using tinv_discard inv by simp
next
  case (p_add n)
  then show ?thesis
    by (intro producer_same [OF inv, of q' "q_state q + state_change n" "[]"])
      (use tinvD(3) [OF inv] in \<open>simp_all add: state_add_def\<close>)
next
  case (p_sub n)
  then show ?thesis
    by (intro producer_same [OF inv, of q' "q_state q - state_change n" "[]"])
      (use tinvD(3) [OF inv] in \<open>simp_all add: state_sub_def\<close>)
qed (use tinvD [OF inv] in \<open>intro producer_same [OF inv, of q' "q_state q" "[]"]; simp\<close>)+

lemma tstep_inv: "tstep s s' \<Longrightarrow> tinv s \<Longrightarrow> tinv s'"
  by (auto elim!: tstep.cases intro: producer_step consumer_step)

section \<open>The counters\<close>

lemma tinv_init:
  assumes "0 < capacity" "capacity < 2 ^ 31"
  shows "tinv (new_sdu_queue capacity byte_limit, P_Idle, C_Idle)"
proof -
  let ?q = "new_sdu_queue capacity byte_limit"
  have vq: "vq ?q P_Idle C_Idle = ?q" by (simp add: vq_def)
  have "q_capacity ?q = capacity" by (simp add: new_sdu_queue_def)
  then show ?thesis
    using assms q_inv_new [OF assms(1), of byte_limit]
    by (intro tinvI) (simp_all add: total_def vq q_inv_def)
qed

lemma treach_inv:
  assumes "tstep\<^sup>*\<^sup>* s s'" "tinv s"
  shows "tinv s'"
  using assms by (induction rule: rtranclp_induct) (auto intro: tstep_inv)

text \<open>
  C28. Whatever the interleaving of the accesses of the two threads, when both are between calls the
  counters that \<open>get_state\<close> returns are exactly the number and the bytes of the SDUs that are not discarded,
  the queue is within its capacity and its bytes are below the limit.
\<close>

theorem threads_counters_exact:
  assumes "0 < capacity" "capacity < 2 ^ 31"
    and "tstep\<^sup>*\<^sup>* (new_sdu_queue capacity byte_limit, P_Idle, C_Idle) (q, P_Idle, C_Idle)"
  shows "unat (n_sdus (get_state q)) = length (q_view q) \<and> unat (n_bytes (get_state q)) = sdu_bytes (q_view q) \<and>
    length (q_queue q) \<le> unat (q_capacity q) \<and> sdu_bytes (q_view q) < max 1 (unat (q_byte_limit q))"
proof -
  have inv: "tinv (q, P_Idle, C_Idle)"
    using treach_inv [OF assms(3) tinv_init [OF assms(1,2)]] .
  have "vq q P_Idle C_Idle = q" by (simp add: vq_def)
  then have "q_inv q"
    using tinvD [OF inv] by (simp add: q_inv_def total_def)
  then show ?thesis using get_state_exact by (simp add: q_inv_def)
qed

definition plain_sdu :: rlc_sdu where
  "plain_sdu = \<lparr>sdu_buf = [7], sdu_is_retx = False, sdu_pdcp_sn = None, sdu_toa = 0\<rparr>"

definition pushed_queue :: rlc_sdu_queue where
  "pushed_queue = (new_sdu_queue 4 100)\<lparr>q_queue := [plain_sdu]\<rparr>"

definition taken_queue :: rlc_sdu_queue where
  "taken_queue = state_sub 1 (new_sdu_queue 4 100)"

lemma push_plain:
  "tstep\<^sup>*\<^sup>* (new_sdu_queue 4 100, P_Idle, C_Idle) (pushed_queue, P_Add 1, C_Idle)"
proof -
  let ?q = "new_sdu_queue 4 100"
  have "pstep (?q, P_Idle) (?q, P_Check plain_sdu)"
    by (rule p_call) (simp add: sdu_sn_ok_def plain_sdu_def)
  moreover have "pstep (?q, P_Check plain_sdu) (?q, P_Push plain_sdu)"
    by (rule p_fits) (simp_all add: plain_sdu_def new_sdu_queue_def get_state_def unpack_state_def)
  moreover have "pstep (?q, P_Push plain_sdu) (?q\<lparr>q_queue := [plain_sdu]\<rparr>, P_Add (length (sdu_buf plain_sdu)))"
    by (rule p_push) (simp add: try_push_def new_sdu_queue_def)
  moreover have "length (sdu_buf plain_sdu) = 1" by (simp add: plain_sdu_def)
  ultimately have steps: "tstep (?q, P_Idle, C_Idle) (?q, P_Check plain_sdu, C_Idle)"
    "tstep (?q, P_Check plain_sdu, C_Idle) (?q, P_Push plain_sdu, C_Idle)"
    "tstep (?q, P_Push plain_sdu, C_Idle) (pushed_queue, P_Add 1, C_Idle)"
    unfolding pushed_queue_def by (metis upper)+
  show ?thesis
    by (rule converse_rtranclp_into_rtranclp, rule steps(1), rule converse_rtranclp_into_rtranclp,
        rule steps(2), rule r_into_rtranclp, rule steps(3))
qed

theorem threads_counters_exact_witness:
  "(let q = state_add 1 pushed_queue in
    unat (n_sdus (get_state q)) = length (q_view q) \<and> q_view q = [plain_sdu])"
proof -
  have "tstep (pushed_queue, P_Add 1, C_Idle) (state_add 1 pushed_queue, P_Idle, C_Idle)"
    by (intro upper p_add)
  then have "tstep\<^sup>*\<^sup>* (new_sdu_queue 4 100, P_Idle, C_Idle) (state_add 1 pushed_queue, P_Idle, C_Idle)"
    using push_plain by (rule rtranclp.rtrancl_into_rtrancl [rotated])
  from threads_counters_exact [OF _ _ this]
  have "unat (n_sdus (get_state (state_add 1 pushed_queue))) = length (q_view (state_add 1 pushed_queue))"
    by simp
  moreover have "q_view (state_add 1 pushed_queue) = [plain_sdu]"
    by (simp add: q_view_def state_add_def pushed_queue_def sdu_valid_def plain_sdu_def)
  ultimately show ?thesis by (simp add: Let_def)
qed

text \<open>
  Between calls the counters are exact, but not during them: \<open>write\<close> adds to the counters after
  the SDU was pushed, so that the other thread can take the SDU and subtract it first. It then reads
  counters that have wrapped around, with 4294967294 SDUs and 4294967295 bytes for an empty queue.
\<close>

theorem threads_counters_wrap:
  "\<exists>q. tstep\<^sup>*\<^sup>* (new_sdu_queue 4 100, P_Idle, C_Idle) (q, P_Add 1, C_Idle) \<and> q_queue q = [] \<and>
     n_sdus (get_state q) = 4294967294 \<and> n_bytes (get_state q) = 4294967295"
proof -
  let ?e = "pushed_queue\<lparr>q_queue := []\<rparr>"
  have "cstep (pushed_queue, C_Idle) (?e, C_Sub (length (sdu_buf plain_sdu)))"
    by (rule c_pop) (simp_all add: pushed_queue_def plain_sdu_def)
  then have pop: "cstep (pushed_queue, C_Idle) (?e, C_Sub 1)" by (simp add: plain_sdu_def)
  have "state_sub 1 ?e = taken_queue"
    by (simp add: pushed_queue_def taken_queue_def new_sdu_queue_def state_sub_def)
  then have sub: "cstep (?e, C_Sub 1) (taken_queue, C_Idle)" by (metis c_sub)
  have "tstep\<^sup>*\<^sup>* (new_sdu_queue 4 100, P_Idle, C_Idle) (taken_queue, P_Add 1, C_Idle)"
    by (rule rtranclp.rtrancl_into_rtrancl [OF rtranclp.rtrancl_into_rtrancl [OF push_plain lower [OF pop]]
          lower [OF sub]])
  moreover have "q_queue taken_queue = []"
    by (simp add: taken_queue_def state_sub_def new_sdu_queue_def)
  moreover have "n_sdus (get_state taken_queue) = 4294967294" "n_bytes (get_state taken_queue) = 4294967295"
    by code_simp+
  ultimately show ?thesis by blast
qed

end
