(* ===== verification/Rlc_Tx_Common.thy ===== *)
theory Rlc_Tx_Common
  imports Rlc_Sdu_Queue Pdcp_Sn
begin

text \<open>
  What the transmitting entities share: the notifications to the upper and the lower layer
  (include/srsran/rlc/rlc_tx.h), the calls that add to the metrics (lib/rlc/rlc_tx_metrics_container.h), and
  the bound above which buffer state updates are suppressed (include/srsran/ran/pdsch/pdsch_constants.h).
\<close>

text \<open>
  An operation of a transmitting entity returns the actions it performs, in order.
  \<open>Defer_Buffer_State_Update\<close> is the task that \<open>handle_changed_buffer_state\<close> queues at the cell executor;
  it runs \<open>update_mac_buffer_state\<close> later. Latency metrics are left out.
\<close>

datatype rlc_tx_action =
    On_Transmitted_Sdu u32 nat
  | On_Retransmitted_Sdu u32
  | On_Delivered_Sdu u32
  | On_Delivered_Retransmitted_Sdu u32
  | On_Protocol_Failure
  | On_Max_Retx
  | Defer_Buffer_State_Update
  | On_Buffer_State_Update rlc_buffer_state
  | Tx_Add_Sdus nat nat
  | Tx_Add_Lost_Sdus nat
  | Tx_Add_Discard nat
  | Tx_Add_Discard_Failure nat
  | Tx_Add_Pulled_Sdus nat
  | Tx_Add_Pdus_No_Segmentation nat nat
  | Tx_Add_Pdus_With_Segmentation nat nat
  | Tx_Add_Retx_Pdus nat nat
  | Tx_Add_Ctrl_Pdus nat nat
  | Tx_Add_Small_Alloc nat

text \<open>156 resource elements per block, 275 blocks, 4 layers and 8 bits, in bytes.\<close>

definition MAX_DL_PDU_LENGTH :: nat where
  "MAX_DL_PDU_LENGTH = 156 * 275 * 4 * 8 div 8"

definition empty_buffer_state :: rlc_buffer_state where
  "empty_buffer_state = \<lparr>pending_bytes = 0, hol_toa = None\<rparr>"

text \<open>The SDU that \<open>handle_sdu\<close> puts into the queue.\<close>

definition make_sdu :: "nat \<Rightarrow> byte_buffer \<Rightarrow> bool \<Rightarrow> u32 option \<Rightarrow> rlc_sdu" where
  "make_sdu now buf is_retx sn = \<lparr>sdu_buf = buf, sdu_is_retx = is_retx, sdu_pdcp_sn = sn, sdu_toa = now\<rparr>"

lemma make_sdu_simps [simp]:
  "sdu_buf (make_sdu now buf is_retx sn) = buf" "sdu_pdcp_sn (make_sdu now buf is_retx sn) = sn"
  "sdu_toa (make_sdu now buf is_retx sn) = now" "sdu_is_retx (make_sdu now buf is_retx sn) = is_retx"
  by (simp_all add: make_sdu_def)

text \<open>The SN that is read from a PDU is a key that the queue accepts.\<close>

lemma make_sdu_sn_ok:
  assumes "get_pdcp_sn buf sz is_srb = Inr sn"
  shows "sdu_sn_ok (make_sdu now buf is_retx sn)"
proof (cases sn)
  case (Some k)
  have "k < 2 ^ 18" using get_pdcp_sn_bound assms Some by simp
  also have "\<dots> < STATE_DISCARDED" by (simp add: STATE_DISCARDED_def)
  finally show ?thesis using Some by (simp add: sdu_sn_ok_def)
qed (simp add: sdu_sn_ok_def)

text \<open>The segmentation info of \<open>n\<close> bytes at offset \<open>so\<close> of an SDU of length \<open>l\<close>.\<close>

definition si_of_cut :: "nat \<Rightarrow> nat \<Rightarrow> nat \<Rightarrow> rlc_si_field" where
  "si_of_cut so n l = (if so = 0 then (if n = l then Full_Sdu else First_Segment)
     else if so + n = l then Last_Segment else Middle_Segment)"

lemma of_nat_u16_0: "0 < k \<Longrightarrow> k < 65536 \<Longrightarrow> (of_nat k :: u16) \<noteq> 0"
  by (simp add: word_unat_eq_iff unsigned_of_nat take_bit_nat_eq_self)

end
