(* ===== verification/Rlc_Tx_Um.thy ===== *)
theory Rlc_Tx_Um
  imports Rlc_Um_Pdu Rlc_Tx_Common
begin

text \<open>
  The transmitting UM entity (lib/rlc/rlc_tx_um_entity.h, rlc_tx_um_entity.cpp): SDUs wait in the SDU
  queue, \<open>pull_pdu\<close> fills a grant of the MAC with the next SDU or a segment of it.

  \<open>pull_pdu_um\<close> returns the bytes that are written to the front of the grant (none if the code returns 0),
  the new state and the actions. Offsets and lengths are natural numbers: they are bounded by the length of
  the SDU and of the grant, and the subtractions of the code are guarded by comparisons. The SO field is
  truncated to 16 bits as in the code. Logging, tracing, latency measurements and the checks of the
  paranoid build are left out.
\<close>

unbundle bit_operations_syntax

record rlc_tx_um_entity =
  tum_cfg :: rlc_tx_um_config
  tum_tx_next :: u32
  tum_queue :: rlc_sdu_queue
  tum_sdu :: rlc_sdu
  tum_next_so :: nat
  tum_mod :: u32
  tum_head_len_full :: nat
  tum_head_len_first :: nat
  tum_head_len_not_first :: nat
  tum_prev_buffer_state :: rlc_buffer_state
  tum_suspend_bs_notif_barring :: bool
  tum_pending_buffer_state :: bool

definition new_tx_um :: "rlc_tx_um_config \<Rightarrow> rlc_tx_um_entity res" where
  "new_tx_um cfg =
     bind_res (srsran_assert (txum_pdcp_sn_len cfg = Pdcp_Size12bits \<or> txum_pdcp_sn_len cfg = Pdcp_Size18bits)
         ''Cannot create RLC TX UM, unsupported pdcp_sn_len'')
       (\<lambda>_. Inr
         \<lparr>tum_cfg = cfg, tum_tx_next = 0,
          tum_queue = new_sdu_queue (of_nat (txum_queue_size cfg)) (of_nat (txum_queue_size_bytes cfg)),
          tum_sdu = empty_sdu, tum_next_so = 0,
          tum_mod = cardinality (to_number_um_sn (txum_sn_field_length cfg)),
          tum_head_len_full = rlc_um_pdu_header_size_complete_sdu,
          tum_head_len_first = rlc_um_pdu_header_size_no_so (txum_sn_field_length cfg),
          tum_head_len_not_first = rlc_um_pdu_header_size_with_so (txum_sn_field_length cfg),
          tum_prev_buffer_state = empty_buffer_state, tum_suspend_bs_notif_barring = True,
          tum_pending_buffer_state = False\<rparr>)"

definition handle_changed_buffer_state_um :: "rlc_tx_um_entity \<Rightarrow> rlc_tx_um_entity \<times> rlc_tx_action list" where
  "handle_changed_buffer_state_um s =
     (if \<not> tum_pending_buffer_state s then (s\<lparr>tum_pending_buffer_state := True\<rparr>, [Defer_Buffer_State_Update])
      else (s, []))"

definition handle_sdu_um ::
  "nat \<Rightarrow> byte_buffer \<Rightarrow> bool \<Rightarrow> rlc_tx_um_entity \<Rightarrow> (rlc_tx_um_entity \<times> rlc_tx_action list) res" where
  "handle_sdu_um now buf is_retx s =
     bind_res (get_pdcp_sn buf (txum_pdcp_sn_len (tum_cfg s)) False) (\<lambda>pdcp_sn.
       (let sdu = make_sdu now buf False pdcp_sn; (written, q) = write_sdu sdu (tum_queue s); s = s\<lparr>tum_queue := q\<rparr>
        in if written then
             (let (s, as) = handle_changed_buffer_state_um s in Inr (s, Tx_Add_Sdus 1 (length buf) # as))
           else Inr (s, [Tx_Add_Lost_Sdus 1])))"

definition discard_sdu_um :: "u32 \<Rightarrow> rlc_tx_um_entity \<Rightarrow> rlc_tx_um_entity \<times> rlc_tx_action list" where
  "discard_sdu_um pdcp_sn s =
     (let (discarded, q) = try_discard pdcp_sn (tum_queue s); s = s\<lparr>tum_queue := q\<rparr>
      in if discarded then
           (let (s, as) = handle_changed_buffer_state_um s in (s, Tx_Add_Discard 1 # as))
         else (s, [Tx_Add_Discard_Failure 1]))"

text \<open>The segmentation info and the header size for a grant, if some payload fits.\<close>

definition get_si_and_expected_header_size_um ::
  "nat \<Rightarrow> nat \<Rightarrow> nat \<Rightarrow> rlc_tx_um_entity \<Rightarrow> (rlc_si_field \<times> nat) option" where
  "get_si_and_expected_header_size_um so sdu_len grant_len s =
     (if so = 0 then
        (if sdu_len \<le> grant_len - tum_head_len_full s then Some (Full_Sdu, tum_head_len_full s)
         else if grant_len \<le> tum_head_len_first s then None
         else Some (First_Segment, tum_head_len_first s))
      else if grant_len \<le> tum_head_len_not_first s then None
      else if sdu_len - tum_next_so s \<le> grant_len - tum_head_len_not_first s then
        Some (Last_Segment, tum_head_len_not_first s)
      else Some (Middle_Segment, tum_head_len_not_first s))"

text \<open>The part of \<open>pull_pdu\<close> from the header on, for the current SDU.\<close>

definition build_pdu_um ::
  "nat \<Rightarrow> rlc_tx_um_entity \<Rightarrow> byte_buffer \<times> rlc_tx_um_entity \<times> rlc_tx_action list" where
  "build_pdu_um grant_len s =
     (let buf = sdu_buf (tum_sdu s); next_so = tum_next_so s in
      case get_si_and_expected_header_size_um next_so (length buf) grant_len s of
        None \<Rightarrow> ([], s, [])
      | Some (si, expected_hdr_len) \<Rightarrow>
          (let header = rlc_um_write_data_pdu_header
                 \<lparr>um_si = si, um_sn_size = txum_sn_field_length (tum_cfg s), um_sn = ucast (tum_tx_next s),
                  um_so = of_nat next_so\<rparr>;
               space = grant_len - length header;
               payload_len = (if space \<ge> length buf - next_so then length buf - next_so else space);
               payload = take payload_len (drop next_so buf);
               pdu = header @ payload
           in if payload = [] \<or> length payload \<noteq> payload_len then ([], s, [])
              else
                (let release = (si = Full_Sdu \<or> si = Last_Segment);
                     s = (if release then s\<lparr>tum_sdu := (tum_sdu s)\<lparr>sdu_buf := []\<rparr>, tum_next_so := 0\<rparr>
                          else s\<lparr>tum_next_so := next_so + payload_len\<rparr>);
                     s = (if si = Last_Segment then s\<lparr>tum_tx_next := (tum_tx_next s + 1) mod tum_mod s\<rparr> else s)
                 in (pdu, s,
                     (if release then [Tx_Add_Pulled_Sdus 1] else []) @
                     (if si = Full_Sdu then [Tx_Add_Pdus_No_Segmentation 1 (length pdu)]
                      else [Tx_Add_Pdus_With_Segmentation 1 (length pdu)])))))"

definition pull_pdu_um ::
  "nat \<Rightarrow> rlc_tx_um_entity \<Rightarrow> byte_buffer \<times> rlc_tx_um_entity \<times> rlc_tx_action list" where
  "pull_pdu_um grant_len s =
     (if grant_len \<le> tum_head_len_full s then ([], s, [])
      else if sdu_buf (tum_sdu s) = [] then
        (let (ok, sdu, q) = read_sdu (tum_sdu s) (tum_queue s); s = s\<lparr>tum_sdu := sdu, tum_queue := q\<rparr>
         in if \<not> ok then ([], s, [])
            else
              (let (pdu, s, as) = build_pdu_um grant_len s
               in (pdu, s,
                   (case sdu_pdcp_sn sdu of
                      None \<Rightarrow> []
                    | Some sn \<Rightarrow> [On_Transmitted_Sdu sn (txum_queue_size_bytes (tum_cfg s))]) @ as)))
      else build_pdu_um grant_len s)"

definition get_buffer_state_um :: "rlc_tx_um_entity \<Rightarrow> rlc_buffer_state \<times> rlc_tx_um_entity" where
  "get_buffer_state_um s =
     (let queue_state = get_state (tum_queue s);
          queue_bytes = n_bytes queue_state + n_sdus queue_state * of_nat (tum_head_len_full s) :: u32;
          (segment_bytes, toa, s) =
            (if sdu_buf (tum_sdu s) \<noteq> [] then
               (of_nat (length (sdu_buf (tum_sdu s)) - tum_next_so s + tum_head_len_not_first s) :: u32,
                Some (sdu_toa (tum_sdu s)), s)
             else
               (let (next_sdu, q) = front (tum_queue s)
                in (0, map_option sdu_toa next_sdu, s\<lparr>tum_queue := q\<rparr>)));
          pending = unat (queue_bytes + segment_bytes)
      in (\<lparr>pending_bytes = pending, hol_toa = toa\<rparr>,
          if pending \<le> MAX_DL_PDU_LENGTH then s\<lparr>tum_suspend_bs_notif_barring := True\<rparr> else s))"

definition update_mac_buffer_state_um :: "rlc_tx_um_entity \<Rightarrow> rlc_tx_um_entity \<times> rlc_tx_action list" where
  "update_mac_buffer_state_um s =
     (let (bs, s) = get_buffer_state_um (s\<lparr>tum_pending_buffer_state := False\<rparr>);
          (s, as) =
            (if pending_bytes bs \<le> MAX_DL_PDU_LENGTH \<or>
                pending_bytes (tum_prev_buffer_state s) \<le> MAX_DL_PDU_LENGTH \<or> tum_suspend_bs_notif_barring s
             then (s\<lparr>tum_suspend_bs_notif_barring := False\<rparr>, [On_Buffer_State_Update bs])
             else (s, []))
      in (s\<lparr>tum_prev_buffer_state := bs\<rparr>, as))"

section \<open>Segmentation\<close>

definition tum_wf :: "rlc_tx_um_entity \<Rightarrow> bool" where
  "tum_wf s \<longleftrightarrow>
     (let z = txum_sn_field_length (tum_cfg s) in
      q_inv (tum_queue s) \<and> tum_mod s = cardinality (to_number_um_sn z) \<and> tum_tx_next s < tum_mod s \<and>
      tum_head_len_full s = rlc_um_pdu_header_size_complete_sdu \<and>
      tum_head_len_first s = rlc_um_pdu_header_size_no_so z \<and>
      tum_head_len_not_first s = rlc_um_pdu_header_size_with_so z \<and>
      (tum_next_so s = 0 \<or> tum_next_so s < length (sdu_buf (tum_sdu s))) \<and>
      length (sdu_buf (tum_sdu s)) \<le> 65536)"

lemma tum_wfD:
  assumes "tum_wf s"
  shows "q_inv (tum_queue s)" "tum_mod s = cardinality (to_number_um_sn (txum_sn_field_length (tum_cfg s)))"
    "tum_tx_next s < tum_mod s" "tum_head_len_full s = 1"
    "tum_head_len_first s = rlc_um_pdu_header_size_no_so (txum_sn_field_length (tum_cfg s))"
    "tum_head_len_not_first s = rlc_um_pdu_header_size_with_so (txum_sn_field_length (tum_cfg s))"
    "tum_next_so s = 0 \<or> tum_next_so s < length (sdu_buf (tum_sdu s))" "length (sdu_buf (tum_sdu s)) \<le> 65536"
  using assms by (auto simp: tum_wf_def Let_def rlc_um_pdu_header_size_complete_sdu_def)

definition um_header_of :: "rlc_tx_um_entity \<Rightarrow> nat \<Rightarrow> rlc_um_pdu_header" where
  "um_header_of s n =
     \<lparr>um_si = si_of_cut (tum_next_so s) n (length (sdu_buf (tum_sdu s))),
      um_sn_size = txum_sn_field_length (tum_cfg s), um_sn = ucast (tum_tx_next s), um_so = of_nat (tum_next_so s)\<rparr>"

text \<open>The state after \<open>n\<close> bytes were sent.\<close>

definition tum_after :: "rlc_tx_um_entity \<Rightarrow> nat \<Rightarrow> rlc_tx_um_entity" where
  "tum_after s n =
     (let l = length (sdu_buf (tum_sdu s)); so = tum_next_so s in
      if so + n = l then
        s\<lparr>tum_sdu := (tum_sdu s)\<lparr>sdu_buf := []\<rparr>, tum_next_so := 0,
          tum_tx_next := (if so = 0 then tum_tx_next s else (tum_tx_next s + 1) mod tum_mod s)\<rparr>
      else s\<lparr>tum_next_so := so + n\<rparr>)"

lemma um_write_length:
  assumes "tum_wf s"
  shows "length (rlc_um_write_data_pdu_header (um_header_of s n)) =
    (if tum_next_so s = 0 then if n = length (sdu_buf (tum_sdu s)) then tum_head_len_full s else tum_head_len_first s
     else tum_head_len_not_first s)"
proof -
  have "0 < tum_next_so s \<Longrightarrow> (of_nat (tum_next_so s) :: u16) \<noteq> 0"
    using tum_wfD(7,8) [OF assms] by (intro of_nat_u16_0) auto
  then show ?thesis
    using tum_wfD(4-6) [OF assms]
    by (cases "txum_sn_field_length (tum_cfg s)")
      (auto simp: rlc_um_write_data_pdu_header_def um_header_of_def si_of_cut_def Let_def)
qed

lemma build_pdu_um_spec:
  assumes wf: "tum_wf s" and ne: "sdu_buf (tum_sdu s) \<noteq> []" and grant: "tum_head_len_full s < grant"
  obtains (none) "build_pdu_um grant s = ([], s, [])" "grant \<le> tum_head_len_not_first s"
  | (pdu) n as where "0 < n" "tum_next_so s + n \<le> length (sdu_buf (tum_sdu s))"
      "build_pdu_um grant s =
         (rlc_um_write_data_pdu_header (um_header_of s n) @ take n (drop (tum_next_so s) (sdu_buf (tum_sdu s))),
          tum_after s n, as)"
      "length (rlc_um_write_data_pdu_header (um_header_of s n)) + n \<le> grant"
proof -
  let ?l = "length (sdu_buf (tum_sdu s))" and ?so = "tum_next_so s"
  note d = tum_wfD [OF wf]
  have hd: "tum_head_len_first s < tum_head_len_not_first s" "tum_head_len_full s \<le> tum_head_len_first s"
    using d(4-6) by (cases "txum_sn_field_length (tum_cfg s)"; simp)+
  have so: "?so < ?l" using d(7) ne by auto
  define h where "h = (if ?so = 0 then if ?l \<le> grant - tum_head_len_full s then tum_head_len_full s
     else tum_head_len_first s else tum_head_len_not_first s)"
  define n where "n = (if ?l - ?so \<le> grant - h then ?l - ?so else grant - h)"
  show thesis
  proof (cases "grant \<le> h")
    case True
    then have "get_si_and_expected_header_size_um ?so ?l grant s = None"
      using hd grant by (auto simp: get_si_and_expected_header_size_um_def h_def split: if_splits)
    then have "build_pdu_um grant s = ([], s, [])" by (simp add: build_pdu_um_def)
    moreover have "grant \<le> tum_head_len_not_first s" using True hd by (auto simp: h_def split: if_splits)
    ultimately show thesis by (rule none)
  next
    case False
    have n: "0 < n" "?so + n \<le> ?l" using False so by (auto simp: n_def)
    have full: "?so = 0 \<Longrightarrow> (n = ?l) = (?l \<le> grant - tum_head_len_full s)"
      using hd grant so by (auto simp: n_def h_def)
    have si: "get_si_and_expected_header_size_um ?so ?l grant s = Some (si_of_cut ?so n ?l, h)"
    proof (cases "?so = 0")
      case True
      then show ?thesis
        using False full by (auto simp: get_si_and_expected_header_size_um_def si_of_cut_def h_def split: if_splits)
    next
      case so0: False
      then have "?so + n = ?l \<longleftrightarrow> ?l - ?so \<le> grant - tum_head_len_not_first s"
        using so False by (auto simp: n_def h_def)
      then show ?thesis
        using False so0 by (simp add: get_si_and_expected_header_size_um_def si_of_cut_def h_def)
    qed
    have len: "length (rlc_um_write_data_pdu_header (um_header_of s n)) = h"
      unfolding um_write_length [OF wf] using full by (simp add: h_def)
    have n': "(if grant - h \<ge> ?l - ?so then ?l - ?so else grant - h) = n" by (simp add: n_def)
    have pay: "length (take n (drop ?so (sdu_buf (tum_sdu s)))) = n" using n by simp
    then have payne: "take n (drop ?so (sdu_buf (tum_sdu s))) \<noteq> []" using n(1) by auto
    have "\<exists>as. build_pdu_um grant s =
         (rlc_um_write_data_pdu_header (um_header_of s n) @ take n (drop ?so (sdu_buf (tum_sdu s))), tum_after s n, as)"
      unfolding build_pdu_um_def Let_def si option.case prod.case
      unfolding um_header_of_def [symmetric] len n'
      using pay payne n by (auto simp: tum_after_def si_of_cut_def Let_def)
    moreover have "h + n \<le> grant" using False by (auto simp: n_def)
    ultimately show thesis using n len that(2) by auto
  qed
qed

lemma tum_after_wf:
  assumes wf: "tum_wf s" and n: "tum_next_so s + n \<le> length (sdu_buf (tum_sdu s))"
  shows "tum_wf (tum_after s n)"
proof -
  have "(tum_tx_next s + 1) mod tum_mod s < tum_mod s"
    using um_ring.mod_m_less tum_wfD(2) [OF wf] by simp
  then show ?thesis using wf n by (auto simp: tum_wf_def tum_after_def Let_def)
qed

text \<open>The header of the PDU as the receiver parses it: a complete SDU carries no SN and no SO.\<close>

definition um_header_read :: "rlc_tx_um_entity \<Rightarrow> nat \<Rightarrow> rlc_um_pdu_header" where
  "um_header_read s n =
     (if um_si (um_header_of s n) = Full_Sdu then (um_header_of s n)\<lparr>um_sn := 0\<rparr> else um_header_of s n)"

lemma tum_sn_u16:
  assumes "tum_wf s"
  shows "unat (ucast (tum_tx_next s) :: u16) = unat (tum_tx_next s)" "ucast (ucast (tum_tx_next s) :: u16) = tum_tx_next s"
proof -
  have less: "unat (tum_tx_next s) < 65536"
    using tum_wfD(2,3) [OF assms] by (simp add: cardinality_um word_less_nat_alt split: rlc_um_sn_size.splits)
  then show u: "unat (ucast (tum_tx_next s) :: u16) = unat (tum_tx_next s)"
    by (simp add: unsigned_ucast_eq take_bit_nat_eq_self)
  have "unat (ucast (ucast (tum_tx_next s) :: u16) :: u32) = unat (tum_tx_next s)"
    using less by (simp add: unsigned_ucast_eq unsigned_take_bit_eq take_bit_nat_eq_self)
  then show "ucast (ucast (tum_tx_next s) :: u16) = tum_tx_next s" by (simp only: word_unat_eq_iff)
qed

lemma um_header_read_ok:
  assumes wf: "tum_wf s" and n: "0 < n" "tum_next_so s + n \<le> length (sdu_buf (tum_sdu s))"
  shows "um_header_ok (um_header_read s n)"
    "rlc_um_write_data_pdu_header (um_header_of s n) = rlc_um_write_data_pdu_header (um_header_read s n)"
proof -
  have so: "0 < tum_next_so s \<Longrightarrow> (of_nat (tum_next_so s) :: u16) \<noteq> 0"
    using tum_wfD(7,8) [OF wf] by (intro of_nat_u16_0) auto
  have "(ucast (tum_tx_next s) :: u16) < push_bit (to_number_um_sn (txum_sn_field_length (tum_cfg s))) 1"
    using tum_wfD(2,3) [OF wf] tum_sn_u16(1) [OF wf]
    by (simp add: cardinality_um word_less_nat_alt push_bit_eq_mult split: rlc_um_sn_size.splits)
  then show "um_header_ok (um_header_read s n)"
    using so n by (auto simp: um_header_ok_def um_header_read_def um_header_of_def si_of_cut_def push_bit_eq_mult
        split: if_splits intro: le_less_trans [OF word_zero_le])
  show "rlc_um_write_data_pdu_header (um_header_of s n) = rlc_um_write_data_pdu_header (um_header_read s n)"
    by (simp add: um_header_read_def rlc_um_write_data_pdu_header_def Let_def)
qed

text \<open>The bytes that are still to be sent, one entry per SDU.\<close>

definition tum_backlog :: "rlc_tx_um_entity \<Rightarrow> byte_buffer list" where
  "tum_backlog s = (if sdu_buf (tum_sdu s) = [] then [] else [drop (tum_next_so s) (sdu_buf (tum_sdu s))]) @
     map sdu_buf (q_view (tum_queue s))"

lemma tum_backlog_after:
  assumes "0 < n" "tum_next_so s + n \<le> length (sdu_buf (tum_sdu s))"
  shows "concat (tum_backlog s) = take n (drop (tum_next_so s) (sdu_buf (tum_sdu s))) @ concat (tum_backlog (tum_after s n))"
proof -
  have "drop (tum_next_so s) (sdu_buf (tum_sdu s)) = take n (drop (tum_next_so s) (sdu_buf (tum_sdu s))) @
      drop (tum_next_so s + n) (sdu_buf (tum_sdu s))"
    by (metis append_take_drop_id drop_drop add.commute)
  then show ?thesis
    using assms by (auto simp: tum_backlog_def tum_after_def Let_def)
qed

text \<open>
  The SDU that the next PDU is taken from, if the grant is larger than the smallest header: the current one
  or the first one of the queue. If an SDU is to be fetched, the queue must not consist of discarded SDUs
  only; the theorem below covers this case too.
\<close>

definition tum_fetch :: "rlc_tx_um_entity \<Rightarrow> rlc_tx_um_entity" where
  "tum_fetch s =
     (if sdu_buf (tum_sdu s) \<noteq> [] then s
      else let (ok, sdu, q) = read_sdu (tum_sdu s) (tum_queue s) in s\<lparr>tum_sdu := sdu, tum_queue := q\<rparr>)"

definition tum_only_discarded :: "rlc_tx_um_entity \<Rightarrow> bool" where
  "tum_only_discarded s \<longleftrightarrow>
     sdu_buf (tum_sdu s) = [] \<and> q_view (tum_queue s) = [] \<and> q_queue (tum_queue s) \<noteq> []"

definition tum_input_ok :: "rlc_tx_um_entity \<Rightarrow> bool" where
  "tum_input_ok s \<longleftrightarrow> (\<forall>x \<in> set (q_view (tum_queue s)). sdu_buf x \<noteq> [] \<and> length (sdu_buf x) \<le> 65536) \<and>
     \<not> tum_only_discarded s"

text \<open>The sizes of the SDUs in the queue, discarded or not.\<close>

definition tum_sizes_ok :: "rlc_tx_um_entity \<Rightarrow> bool" where
  "tum_sizes_ok s \<longleftrightarrow> (\<forall>x \<in> set (q_queue (tum_queue s)). sdu_buf x \<noteq> [] \<and> length (sdu_buf x) \<le> 65536)"

lemma tum_input_okI: "tum_sizes_ok s \<Longrightarrow> \<not> tum_only_discarded s \<Longrightarrow> tum_input_ok s"
  by (auto simp: tum_sizes_ok_def tum_input_ok_def q_view_def)

text \<open>With a queue of discarded SDUs only, nothing is sent and the last of them becomes the current SDU.\<close>

lemma pull_pdu_um_only_discarded:
  assumes wf: "tum_wf s" and sizes: "tum_sizes_ok s" and only: "tum_only_discarded s"
    and grant: "tum_head_len_full s < grant"
  obtains q where "pull_pdu_um grant s = ([], s\<lparr>tum_sdu := last (q_queue (tum_queue s)), tum_queue := q\<rparr>, [])"
    "q_queue q = []" "q_view q = []" "tum_wf (s\<lparr>tum_sdu := last (q_queue (tum_queue s)), tum_queue := q\<rparr>)"
proof -
  obtain q where q: "read_sdu (tum_sdu s) (tum_queue s) = (False, last (q_queue (tum_queue s)), q)"
    "q_inv q" "q_queue q = []" "q_view q = []"
    using read_all_discarded [OF tum_wfD(1) [OF wf], of "tum_sdu s"] only by (auto simp: tum_only_discarded_def)
  have "last (q_queue (tum_queue s)) \<in> set (q_queue (tum_queue s))" using only by (simp add: tum_only_discarded_def)
  then have len: "length (sdu_buf (last (q_queue (tum_queue s)))) \<le> 65536"
    using sizes by (simp add: tum_sizes_ok_def)
  have so: "tum_next_so s = 0" using tum_wfD(7) [OF wf] only by (auto simp: tum_only_discarded_def)
  show thesis
    by (rule that [OF _ q(3,4)])
      (use grant only q wf len so in \<open>auto simp: pull_pdu_um_def tum_only_discarded_def tum_wf_def Let_def\<close>)
qed

lemma tum_fetch_ok:
  assumes wf: "tum_wf s" and inp: "tum_input_ok s"
  shows "tum_wf (tum_fetch s)" "tum_backlog (tum_fetch s) = tum_backlog s"
    "sdu_buf (tum_sdu (tum_fetch s)) = [] \<longleftrightarrow> tum_backlog s = []"
    "tum_next_so (tum_fetch s) = tum_next_so s" "tum_cfg (tum_fetch s) = tum_cfg s" "tum_tx_next (tum_fetch s) = tum_tx_next s"
    "tum_mod (tum_fetch s) = tum_mod s" "tum_head_len_not_first (tum_fetch s) = tum_head_len_not_first s"
    "set (q_view (tum_queue (tum_fetch s))) \<subseteq> set (q_view (tum_queue s))"
proof -
  obtain ok sdu q where r: "read_sdu (tum_sdu s) (tum_queue s) = (ok, sdu, q)" by (cases "read_sdu (tum_sdu s) (tum_queue s)") auto
  note c = read_correct [OF tum_wfD(1) [OF wf], of "tum_sdu s", unfolded r fst_conv snd_conv]
  have so: "sdu_buf (tum_sdu s) = [] \<Longrightarrow> tum_next_so s = 0" using tum_wfD(7) [OF wf] by auto
  have hd: "sdu_buf (hd (q_view (tum_queue s))) \<noteq> [] \<and> length (sdu_buf (hd (q_view (tum_queue s)))) \<le> 65536"
    if "q_view (tum_queue s) \<noteq> []"
    using inp hd_in_set [OF that] by (auto simp: tum_input_ok_def)
  have none: "(ok, sdu, q) = (False, tum_sdu s, tum_queue s)" if "q_view (tum_queue s) = []" "sdu_buf (tum_sdu s) = []"
    using that inp r by (simp add: tum_input_ok_def tum_only_discarded_def read_step(1))
  have "tum_wf (tum_fetch s) \<and> tum_backlog (tum_fetch s) = tum_backlog s \<and>
      (sdu_buf (tum_sdu (tum_fetch s)) = [] \<longleftrightarrow> tum_backlog s = []) \<and>
      set (q_view (tum_queue (tum_fetch s))) \<subseteq> set (q_view (tum_queue s))"
  proof (cases "sdu_buf (tum_sdu s) = [] \<and> q_view (tum_queue s) \<noteq> []")
    case True
    then have "sdu = hd (q_view (tum_queue s))" "q_view q = tl (q_view (tum_queue s))" using c by simp_all
    with True hd have q: "q_view (tum_queue s) = sdu # q_view q" "sdu_buf sdu \<noteq> []" "length (sdu_buf sdu) \<le> 65536"
      by simp_all
    have "tum_fetch s = s\<lparr>tum_sdu := sdu, tum_queue := q\<rparr>" using True by (simp add: tum_fetch_def r)
    then show ?thesis
      using wf conjunct1 [OF c] q so True by (auto simp: tum_wf_def Let_def tum_backlog_def)
  next
    case False
    then have "tum_fetch s = s" using none by (auto simp: tum_fetch_def r)
    then show ?thesis using wf False so by (auto simp: tum_backlog_def)
  qed
  then show "tum_wf (tum_fetch s)" "tum_backlog (tum_fetch s) = tum_backlog s"
    "sdu_buf (tum_sdu (tum_fetch s)) = [] \<longleftrightarrow> tum_backlog s = []"
    "set (q_view (tum_queue (tum_fetch s))) \<subseteq> set (q_view (tum_queue s))" by blast+
qed (simp_all add: tum_fetch_def split: prod.split)

lemma pull_pdu_um_spec:
  assumes wf: "tum_wf s" and inp: "tum_input_ok s" and grant: "tum_head_len_full s < grant"
  defines "f \<equiv> tum_fetch s"
  obtains (none) as where "pull_pdu_um grant s = ([], f, as)" "tum_backlog s = [] \<or> grant \<le> tum_head_len_not_first s"
  | (pdu) n as where "0 < n" "tum_next_so f + n \<le> length (sdu_buf (tum_sdu f))"
      "pull_pdu_um grant s =
         (rlc_um_write_data_pdu_header (um_header_read f n) @ take n (drop (tum_next_so f) (sdu_buf (tum_sdu f))),
          tum_after f n, as)"
      "length (rlc_um_write_data_pdu_header (um_header_read f n)) + n \<le> grant"
proof (cases "sdu_buf (tum_sdu f) = []")
  case True
  then have none: "sdu_buf (tum_sdu s) = []" "q_view (tum_queue s) = []" "tum_backlog s = []"
    using tum_fetch_ok(3) [OF wf inp] by (auto simp: f_def tum_backlog_def split: if_splits)
  then have "pull_pdu_um grant s = ([], f, [])"
    using inp grant
    by (simp add: pull_pdu_um_def f_def tum_fetch_def tum_input_ok_def tum_only_discarded_def read_step(1))
  with none that(1) show thesis by blast
next
  case ne: False
  note fo = tum_fetch_ok [OF wf inp, folded f_def]
  have gf: "tum_head_len_full f < grant" using grant wf fo(1) by (simp add: tum_wf_def Let_def)
  have eq: "\<exists>as0. pull_pdu_um grant s = (fst (build_pdu_um grant f), fst (snd (build_pdu_um grant f)), as0 @ snd (snd (build_pdu_um grant f)))"
  proof (cases "sdu_buf (tum_sdu s) = []")
    case True
    then have "fst (read_sdu (tum_sdu s) (tum_queue s))"
      using ne read_correct [OF tum_wfD(1) [OF wf], of "tum_sdu s"] fo(3) by (auto simp: tum_backlog_def)
    then show ?thesis using True grant by (auto simp: pull_pdu_um_def f_def tum_fetch_def split: prod.split)
  next
    case False
    then show ?thesis using grant by (intro exI [of _ "[]"]) (simp add: pull_pdu_um_def f_def tum_fetch_def)
  qed
  show thesis
  proof (cases rule: build_pdu_um_spec [OF fo(1) ne gf])
    case 1
    then show ?thesis using eq fo(8) that(1) by auto
  next
    case (2 n as)
    then show ?thesis using eq that(2) um_header_read_ok(2) [OF fo(1) 2(1,2)] by auto
  qed
qed

lemma pull_pdu_um_sends:
  assumes "tum_wf s" "tum_input_ok s" "pull_pdu_um grant s = (pdu, s', as)"
  shows "length pdu \<le> grant \<and> tum_wf s' \<and>
    (pdu = [] \<longrightarrow> tum_backlog s' = tum_backlog s \<and> (tum_backlog s = [] \<or> grant \<le> tum_head_len_not_first s)) \<and>
    (pdu \<noteq> [] \<longrightarrow> (\<exists>h payload. payload \<noteq> [] \<and>
       rlc_um_read_data_pdu_header pdu (txum_sn_field_length (tum_cfg s)) empty_um_header = Some h \<and>
       drop (rlc_um_nr_packed_length h) pdu = payload \<and>
       concat (tum_backlog s) = payload @ concat (tum_backlog s') \<and>
       um_so h = of_nat (tum_next_so s) \<and>
       (um_si h = Full_Sdu \<or> um_si h = First_Segment \<longleftrightarrow> tum_next_so s = 0) \<and>
       (um_si h = Full_Sdu \<or> um_si h = Last_Segment \<longleftrightarrow> payload = hd (tum_backlog s)) \<and>
       (um_si h \<noteq> Full_Sdu \<longrightarrow> ucast (um_sn h) = tum_tx_next s)))"
proof (cases "tum_head_len_full s < grant")
  case False
  then have "pdu = []" "s' = s" using assms(3) by (simp_all add: pull_pdu_um_def)
  moreover have "tum_head_len_full s \<le> tum_head_len_not_first s"
    using tum_wfD(4,6) [OF assms(1)] by (cases "txum_sn_field_length (tum_cfg s)") simp_all
  ultimately show ?thesis using assms(1) False by auto
next
  case True
  let ?f = "tum_fetch s"
  note fo = tum_fetch_ok [OF assms(1,2)]
  show ?thesis
  proof (cases rule: pull_pdu_um_spec [OF assms(1,2) True])
    case (1 as0)
    then show ?thesis using assms(3) fo(1,2) by auto
  next
    case (2 n as0)
    let ?h = "um_header_read ?f n" and ?pay = "take n (drop (tum_next_so ?f) (sdu_buf (tum_sdu ?f)))"
    have hf: "um_so ?h = of_nat (tum_next_so s)" "um_sn_size ?h = txum_sn_field_length (tum_cfg s)"
      "um_si ?h = si_of_cut (tum_next_so s) n (length (sdu_buf (tum_sdu ?f)))"
      "um_si ?h \<noteq> Full_Sdu \<Longrightarrow> um_sn ?h = ucast (tum_tx_next s)"
      using fo(4-6) by (auto simp: um_header_read_def um_header_of_def split: if_splits)
    have pdu: "pdu = rlc_um_write_data_pdu_header ?h @ ?pay" "s' = tum_after ?f n"
      using 2(3) assms(3) by simp_all
    have ne: "?pay \<noteq> []" using 2(1,2) by auto
    have bk: "concat (tum_backlog s) = ?pay @ concat (tum_backlog s')"
      using tum_backlog_after [OF 2(1,2)] fo(2) pdu(2) by simp
    have "hd (tum_backlog ?f) = drop (tum_next_so ?f) (sdu_buf (tum_sdu ?f))"
      using 2(1,2) by (auto simp: tum_backlog_def)
    then have hd: "hd (tum_backlog s) = drop (tum_next_so ?f) (sdu_buf (tum_sdu ?f))" by (simp only: fo(2))
    have lastp: "?pay = hd (tum_backlog s) \<longleftrightarrow> tum_next_so ?f + n = length (sdu_buf (tum_sdu ?f))"
      unfolding hd using 2(2) by (auto simp: take_all_iff dest: arg_cong [where f = length])
    note rt = um_read_write [OF um_header_read_ok(1) [OF fo(1) 2(1,2)], of ?pay, unfolded hf(2)]
    have "length ?pay \<le> n" by simp
    with 2(4) have len: "length pdu \<le> grant" unfolding pdu(1) length_append by linarith
    have wf': "tum_wf s'" using tum_after_wf [OF fo(1) 2(2)] pdu(2) by simp
    have nonempty: "pdu \<noteq> []" using ne by (simp add: pdu(1))
    have si: "um_si ?h = Full_Sdu \<or> um_si ?h = First_Segment \<longleftrightarrow> tum_next_so s = 0"
      "um_si ?h = Full_Sdu \<or> um_si ?h = Last_Segment \<longleftrightarrow> ?pay = hd (tum_backlog s)"
      unfolding lastp using fo(4) 2(2) by (auto simp: hf(3) si_of_cut_def)
    have sn: "um_si ?h \<noteq> Full_Sdu \<longrightarrow> ucast (um_sn ?h) = tum_tx_next s"
      using hf(4) tum_sn_u16(2) [OF assms(1)] by simp
    have "\<exists>h payload. payload \<noteq> [] \<and>
       rlc_um_read_data_pdu_header pdu (txum_sn_field_length (tum_cfg s)) empty_um_header = Some h \<and>
       drop (rlc_um_nr_packed_length h) pdu = payload \<and>
       concat (tum_backlog s) = payload @ concat (tum_backlog s') \<and>
       um_so h = of_nat (tum_next_so s) \<and>
       (um_si h = Full_Sdu \<or> um_si h = First_Segment \<longleftrightarrow> tum_next_so s = 0) \<and>
       (um_si h = Full_Sdu \<or> um_si h = Last_Segment \<longleftrightarrow> payload = hd (tum_backlog s)) \<and>
       (um_si h \<noteq> Full_Sdu \<longrightarrow> ucast (um_sn h) = tum_tx_next s)"
      unfolding pdu(1) by (intro exI [of _ ?h] exI [of _ ?pay] conjI ne rt [THEN conjunct1] rt [THEN conjunct2] bk hf(1) si sn)
    with len wf' nonempty show ?thesis by simp
  qed
qed

text \<open>
  C20. A PDU pulled from an entity whose queued SDUs have between 1 and 65536 bytes fits into the grant and the
  state stays well-formed. If a complete SDU is to be fetched and the queue holds only discarded SDUs, nothing
  is sent, and the last discarded SDU becomes the current SDU, so that it is the whole backlog of the
  next call: the code sends a discarded SDU. In every other case the payload is the next part of
  the bytes that are to be sent, with a header from which the receiver reads the segmentation info, the SN
  and the offset of that part, and nothing is sent only if nothing is waiting or the grant holds no more than
  the largest header.
\<close>

theorem pull_pdu_um_correct:
  assumes "tum_wf s" "tum_sizes_ok s" "pull_pdu_um grant s = (pdu, s', as)"
  shows "length pdu \<le> grant \<and> tum_wf s' \<and>
    (tum_only_discarded s \<and> tum_head_len_full s < grant \<longrightarrow>
       pdu = [] \<and> tum_backlog s = [] \<and> q_queue (tum_queue s') = [] \<and>
       tum_sdu s' = last (q_queue (tum_queue s)) \<and> tum_backlog s' = [sdu_buf (last (q_queue (tum_queue s)))]) \<and>
    (\<not> (tum_only_discarded s \<and> tum_head_len_full s < grant) \<longrightarrow>
       (pdu = [] \<longrightarrow> tum_backlog s' = tum_backlog s \<and> (tum_backlog s = [] \<or> grant \<le> tum_head_len_not_first s)) \<and>
       (pdu \<noteq> [] \<longrightarrow> (\<exists>h payload. payload \<noteq> [] \<and>
          rlc_um_read_data_pdu_header pdu (txum_sn_field_length (tum_cfg s)) empty_um_header = Some h \<and>
          drop (rlc_um_nr_packed_length h) pdu = payload \<and>
          concat (tum_backlog s) = payload @ concat (tum_backlog s') \<and>
          um_so h = of_nat (tum_next_so s) \<and>
          (um_si h = Full_Sdu \<or> um_si h = First_Segment \<longleftrightarrow> tum_next_so s = 0) \<and>
          (um_si h = Full_Sdu \<or> um_si h = Last_Segment \<longleftrightarrow> payload = hd (tum_backlog s)) \<and>
          (um_si h \<noteq> Full_Sdu \<longrightarrow> ucast (um_sn h) = tum_tx_next s))))"
proof (cases "tum_only_discarded s")
  case True
  have empty: "tum_backlog s = []" using True by (simp add: tum_only_discarded_def tum_backlog_def)
  show ?thesis
  proof (cases "tum_head_len_full s < grant")
    case g: True
    obtain q where q: "pull_pdu_um grant s = ([], s\<lparr>tum_sdu := last (q_queue (tum_queue s)), tum_queue := q\<rparr>, [])"
      "q_queue q = []" "q_view q = []" "tum_wf (s\<lparr>tum_sdu := last (q_queue (tum_queue s)), tum_queue := q\<rparr>)"
      by (rule pull_pdu_um_only_discarded [OF assms(1,2) True g])
    have so: "tum_next_so s = 0" using tum_wfD(7) [OF assms(1)] True by (auto simp: tum_only_discarded_def)
    have "last (q_queue (tum_queue s)) \<in> set (q_queue (tum_queue s))" using True by (simp add: tum_only_discarded_def)
    then have "sdu_buf (last (q_queue (tum_queue s))) \<noteq> []" using assms(2) by (simp add: tum_sizes_ok_def)
    then have "tum_backlog s' = [sdu_buf (last (q_queue (tum_queue s)))]"
      using q(1,3) assms(3) so by (auto simp: tum_backlog_def)
    then show ?thesis using q assms(3) True g empty by auto
  next
    case False
    then have "pdu = []" "s' = s" using assms(3) by (simp_all add: pull_pdu_um_def)
    then show ?thesis using assms(1) False empty by simp
  qed
next
  case False
  from pull_pdu_um_sends [OF assms(1) tum_input_okI [OF assms(2) False] assms(3)] False show ?thesis by blast
qed

definition sample_tx_um_cfg :: rlc_tx_um_config where
  "sample_tx_um_cfg = \<lparr>txum_sn_field_length = Size12bits, txum_pdcp_sn_len = Pdcp_Size12bits,
     txum_queue_size = 16, txum_queue_size_bytes = 1000\<rparr>"

lemma new_tx_um_wf:
  assumes "new_tx_um cfg = Inr s" "0 < txum_queue_size cfg" "txum_queue_size cfg < 2 ^ 32"
  shows "tum_wf s" "tum_backlog s = []" "q_queue (tum_queue s) = []" "tum_cfg s = cfg"
    "tum_tx_next s = 0" "tum_next_so s = 0" "sdu_buf (tum_sdu s) = []"
proof -
  have "(0 :: u32) < of_nat (txum_queue_size cfg)"
    using assms(2,3) by (simp add: word_less_nat_alt unsigned_of_nat take_bit_nat_eq_self)
  note q = q_inv_new [OF this]
  show "tum_wf s"
    using assms(1) q um_ring.m_pos
    by (auto simp: new_tx_um_def bind_res_Inr_iff tum_wf_def Let_def empty_sdu_def)
  show "tum_backlog s = []" "q_queue (tum_queue s) = []" "tum_cfg s = cfg"
    "tum_tx_next s = 0" "tum_next_so s = 0" "sdu_buf (tum_sdu s) = []"
    using assms(1) by (auto simp: new_tx_um_def bind_res_Inr_iff tum_backlog_def empty_sdu_def)
      (simp add: new_sdu_queue_def)
qed

text \<open>Writing an SDU adds it to the backlog if the queue accepts it, and changes nothing else that is sent.\<close>

lemma handle_sdu_um_spec:
  assumes wf: "tum_wf s"
  obtains s' as acc where "handle_sdu_um now buf is_retx s = Inr (s', as)" "tum_wf s'"
    "tum_backlog s' = tum_backlog s @ (if acc then [buf] else [])"
    "map sdu_buf (q_view (tum_queue s')) = map sdu_buf (q_view (tum_queue s)) @ (if acc then [buf] else [])"
    "q_queue (tum_queue s') = q_view (tum_queue s') \<or> q_queue (tum_queue s) \<noteq> q_view (tum_queue s)"
    "tum_cfg s' = tum_cfg s" "tum_tx_next s' = tum_tx_next s" "tum_sdu s' = tum_sdu s" "tum_next_so s' = tum_next_so s"
    "Tx_Add_Sdus 1 (length buf) \<in> set as \<longleftrightarrow> acc"
proof -
  obtain sn where sn: "get_pdcp_sn buf (txum_pdcp_sn_len (tum_cfg s)) False = Inr sn"
    using get_pdcp_sn_ok by blast
  let ?x = "make_sdu now buf False sn"
  note w = write_correct [OF tum_wfD(1) [OF wf] make_sdu_sn_ok [OF sn]]
  obtain acc q where wr: "write_sdu ?x (tum_queue s) = (acc, q)" by fastforce
  have raw: "q_queue q = q_queue (tum_queue s) @ (if acc then [?x] else [])"
    using wr by (auto simp: write_sdu_def try_push_def state_add_def set_slot_def set_size_def Let_def
        split: if_splits option.splits)
  have view: "q_inv q" "q_view q = q_view (tum_queue s) @ (if acc then [?x] else [])"
    using w [of now False] wr by simp_all
  have "\<exists>s' as. handle_sdu_um now buf is_retx s = Inr (s', as) \<and> s' = s\<lparr>tum_queue := q, tum_pending_buffer_state :=
      tum_pending_buffer_state s'\<rparr> \<and> (Tx_Add_Sdus 1 (length buf) \<in> set as \<longleftrightarrow> acc)"
    by (auto simp: handle_sdu_um_def sn wr handle_changed_buffer_state_um_def Let_def)
  then obtain s' as b where h: "handle_sdu_um now buf is_retx s = Inr (s', as)"
    "s' = s\<lparr>tum_queue := q, tum_pending_buffer_state := b\<rparr>" "Tx_Add_Sdus 1 (length buf) \<in> set as \<longleftrightarrow> acc" by blast
  show thesis
    by (rule that [OF h(1) _ _ _ _ _ _ _ _ h(3)])
      (use h(2) wf view raw in \<open>auto simp: tum_wf_def Let_def tum_backlog_def\<close>)
qed

text \<open>A transmitter with one SDU of five bytes, and the segment that fits into five bytes.\<close>

definition sample_tx_um :: "rlc_tx_um_entity res" where
  "sample_tx_um = bind_res (new_tx_um sample_tx_um_cfg)
     (\<lambda>s. bind_res (handle_sdu_um 1 [0x80, 7, 1, 2, 3] False s) (\<lambda>(s, as). Inr s))"

theorem pull_pdu_um_correct_witness:
  "\<exists>s pdu s' as. sample_tx_um = Inr s \<and> pull_pdu_um 5 s = (pdu, s', as) \<and> pdu = [64, 0, 128, 7, 1] \<and>
     length pdu \<le> 5 \<and> concat (tum_backlog s) = [128, 7, 1] @ concat (tum_backlog s')"
proof -
  obtain s0 where s0: "new_tx_um sample_tx_um_cfg = Inr s0"
    by (simp add: new_tx_um_def sample_tx_um_cfg_def srsran_assert_def)
  note w = new_tx_um_wf [OF s0]
  have wf0: "tum_wf s0" using w(1) by (simp add: sample_tx_um_cfg_def)
  obtain s as acc where s: "handle_sdu_um 1 [0x80, 7, 1, 2, 3] False s0 = Inr (s, as)" "tum_wf s"
    "map sdu_buf (q_view (tum_queue s)) = map sdu_buf (q_view (tum_queue s0)) @ (if acc then [[0x80, 7, 1, 2, 3]] else [])"
    "q_queue (tum_queue s) = q_view (tum_queue s) \<or> q_queue (tum_queue s0) \<noteq> q_view (tum_queue s0)"
    "tum_cfg s = tum_cfg s0"
    by (rule handle_sdu_um_spec [OF wf0]) (rule that)
  have sample: "sample_tx_um = Inr s" by (simp add: sample_tx_um_def s0 s(1) del: One_nat_def)
  have v0: "q_view (tum_queue s0) = []" using w(3) by (simp add: q_view_def sample_tx_um_cfg_def)
  then have "set (map sdu_buf (q_view (tum_queue s))) \<subseteq> {[0x80, 7, 1, 2, 3]}" using s(3) by auto
  then have inp: "tum_sizes_ok s" and nd: "\<not> tum_only_discarded s"
    using s(4) w(3) v0 by (auto simp: tum_sizes_ok_def tum_only_discarded_def sample_tx_um_cfg_def)
  obtain pdu s' as' where p: "pull_pdu_um 5 s = (pdu, s', as')" by (cases "pull_pdu_um 5 s") auto
  have "(case sample_tx_um of Inl e \<Rightarrow> [] | Inr s \<Rightarrow> fst (pull_pdu_um 5 s)) = [64, 0, 128, 7, 1]" by code_simp
  then have pdu: "pdu = [64, 0, 128, 7, 1]" by (simp add: sample p)
  have "tum_cfg s = sample_tx_um_cfg" using s(5) w(4) by (simp add: sample_tx_um_cfg_def)
  then have h: "rlc_um_read_data_pdu_header pdu (txum_sn_field_length (tum_cfg s)) empty_um_header =
      Some \<lparr>um_si = First_Segment, um_sn_size = Size12bits, um_sn = 0, um_so = 0\<rparr>"
    unfolding pdu by (simp add: sample_tx_um_cfg_def) code_simp
  have "length pdu \<le> 5" "concat (tum_backlog s) = [128, 7, 1] @ concat (tum_backlog s')"
    using pull_pdu_um_correct [OF s(2) inp p] nd unfolding h by (simp_all add: pdu rlc_um_nr_packed_length_def)
  then show ?thesis using p sample pdu by blast
qed

text \<open>
  An SDU that was discarded successfully can still be sent. \<open>read\<close> fills its argument with every element
  that it pops, also with a discarded one that is followed by nothing; \<open>pull_pdu\<close> then returns 0, but its
  current SDU is now the discarded one, and the next call sends it. Here the SDU with SN 2 is discarded
  while the one with SN 1 is half sent, in the order of the calls: the fourth PDU carries it.
\<close>

theorem tx_um_sends_discarded:
  "fault_of (new_tx_um sample_tx_um_cfg) = None \<and>
   (case bind_res sample_tx_um (handle_sdu_um 2 [0x80, 8, 4, 5] False) of
      Inl e \<Rightarrow> False
    | Inr (s, as) \<Rightarrow>
        (let (pdu1, s, as1) = pull_pdu_um 5 s; (s, as2) = discard_sdu_um 8 s;
             (pdu2, s, as4) = pull_pdu_um 50 s; (pdu3, s, as5) = pull_pdu_um 50 s; (pdu4, s, as6) = pull_pdu_um 50 s
         in as2 = [Tx_Add_Discard 1] \<and> pdu2 = [128, 0, 0, 3, 2, 3] \<and> pdu3 = [] \<and> pdu4 = [0, 0x80, 8, 4, 5]))"
  by code_simp

end
