(* ===== verification/Rlc_Um_Link.thy ===== *)
theory Rlc_Um_Link
  imports Rlc_Rx_Um Rlc_Tx_Um
begin

text \<open>
  The UM transmitter and the UM receiver together, over a channel that keeps the PDUs in order and loses
  none: the upper layer writes SDUs at any time, the MAC pulls PDUs with grants of any size.

  Shown: whatever the grants, the SDUs that were delivered, followed by those that are still to be sent, are
  exactly the SDUs that were accepted, in order; no assertion fails on either side. The relation between
  the two entities is \<open>um_sync\<close>.
\<close>

section \<open>The receiver in step with the transmitter\<close>

text \<open>The receiver has the first \<open>so\<close> bytes of the SDU \<open>buf\<close> with sequence number \<open>n\<close>.\<close>

definition um_sync :: "rlc_um_sn_size \<Rightarrow> byte_buffer \<Rightarrow> nat \<Rightarrow> u32 \<Rightarrow> rlc_rx_um_entity \<Rightarrow> bool" where
  "um_sync z buf so n s \<longleftrightarrow>
     um_wf s \<and> rxum_sn_field_length (rum_cfg s) = z \<and> \<not> is_running (rum_reassembly_timer s) \<and>
     rx_next_reassembly s = n \<and>
     (if so = 0 then rx_next_highest s = n \<and> cm_lookup (rum_window s) = (\<lambda>_. None)
      else rx_next_highest s = (n + 1) mod rum_mod s \<and>
        (\<exists>info. cm_lookup (rum_window s) = (\<lambda>_. None)(n := Some info) \<and> segs_inv buf (segments info) \<and>
           segs_cover (segments info) = {0 ..< so}))"

lemma um_next_neq:
  assumes "um_wf s" "x < rum_mod s"
  shows "(x + 1) mod rum_mod s \<noteq> x"
proof
  assume eq: "(x + 1) mod rum_mod s = x"
  have "(um_pos s x + 1) mod (2 * um_w s) = um_pos s x"
    using um_pos_succ [OF assms(1), of x] by (simp add: eq)
  then show False
    using um_pos_less [OF assms(1), of x] um_wf_sizes(3) [OF assms(1)]
    by (cases "um_pos s x + 1 = 2 * um_w s") auto
qed

text \<open>With at most one SDU outstanding and none at RX\_Next\_Highest the timer is left alone.\<close>

lemma timer_idle:
  assumes wf: "um_wf s" and run: "\<not> is_running (rum_reassembly_timer s)"
    and h: "rx_next_highest s = rx_next_reassembly s \<or> rx_next_highest s = (rx_next_reassembly s + 1) mod rum_mod s"
    and none: "cm_lookup (rum_window s) (rx_next_highest s) = None"
  shows "update_timer_um s = Inr s"
proof -
  let ?r = "rx_next_reassembly s"
  have p: "um_pos s (?r + 1) = (um_pos s ?r + 1) mod (2 * um_w s)"
    using um_pos_succ [OF wf, of ?r] by (simp add: um_pos_mod [OF wf])
  have "um_w s \<le> um_pos s (?r + 1)"
  proof (cases "rx_next_highest s = ?r")
    case True
    then show ?thesis using p um_pos_highest [OF wf] um_wf_sizes(3) [OF wf] by simp
  next
    case False
    then have "um_pos s (?r + 1) = um_w s"
      using h um_pos_highest [OF wf] um_pos_mod [OF wf, of "?r + 1"] by simp
    then show ?thesis by simp
  qed
  then have "\<not> rx_mod_base_um s (rx_next_highest s) > rx_mod_base_um s (?r + 1)"
    using um_pos_highest [OF wf] by (simp add: word_less_nat_alt flip: um_pos_def)
  then show ?thesis
    using run none by (simp add: update_timer_um_def stop_timer_um_def restart_timer_um_def has_gap_at_um_def Let_def)
qed

text \<open>The first segment moves RX\_Next\_Highest one up and stays in the window.\<close>

lemma move_highest_first:
  assumes wf: "um_wf s" and r: "rx_next_reassembly s = n" "rx_next_highest s = n"
    and i: "cm_lookup (rum_window s) n = Some info" "\<not> fully_received info"
  shows "move_highest_um n s = Inr (s\<lparr>rx_next_highest := (n + 1) mod rum_mod s\<rparr>, [])"
proof -
  let ?s = "s\<lparr>rx_next_highest := (n + 1) mod rum_mod s\<rparr>"
  have wf1: "um_wf ?s" by (intro um_wf_upd um_mod_less wf)
  have n: "n < rum_mod s" using um_wf_less(2) [OF wf] r by simp
  have "um_pos ?s n = um_w s - 1"
    using um_pos_shift [OF wf, of n n] um_pos_highest [OF wf] r um_wf_sizes(3) [OF wf] by simp
  then have below: "um_pos ?s n < um_w ?s" using um_wf_sizes(3) [OF wf] by simp
  have idn: "n mod rum_mod s = n" by (rule um_mod_ident [OF wf n])
  have bound: "loop_bound_um ?s = Suc (unat (rum_mod s))" by (simp add: loop_bound_um_def)
  have cl: "clean_um (loop_bound_um ?s) n ?s = Inr (n, ?s, [])"
    unfolding bound using below by (simp add: clean_um.simps um_in_window [OF wf1])
  have ad: "advance_um (loop_bound_um ?s) n ?s = Inr (n, ?s)"
    unfolding bound using i by (simp add: advance_um.simps)
  have "s\<lparr>rx_next_reassembly := n\<rparr> = s" by (cases s) (use r in simp)
  then have "?s\<lparr>rx_next_reassembly := n\<rparr> = ?s" by (cases s) (use r in simp)
  then show ?thesis
    using cl ad r idn by (simp add: move_highest_um_def Let_def)
qed

text \<open>The last segment empties the window and brings RX\_Next\_Reassembly to RX\_Next\_Highest.\<close>

lemma complete_last:
  assumes wf: "um_wf s" and r: "rx_next_reassembly s = n" "rx_next_highest s = (n + 1) mod rum_mod s"
    and l: "cm_lookup (rum_window s) = (\<lambda>_. None)(n := Some info)" and full: "fully_received info"
  shows "\<exists>w. complete_sdu_um True n info s = Inr (s\<lparr>rum_window := w, rx_next_reassembly := (n + 1) mod rum_mod s\<rparr>,
      [Metrics_Add_Sdus 1 (length (reassemble_segments (segments info))), On_New_Sdu (reassemble_segments (segments info))]) \<and>
    cm_wf w \<and> cm_max_size w = cm_max_size (rum_window s) \<and> cm_lookup w = (\<lambda>_. None)"
proof -
  let ?w1 = "assign_cm (rum_window s) n (info\<lparr>segments := []\<rparr>)"
  let ?s1 = "s\<lparr>rum_window := ?w1\<rparr>"
  have cw: "cm_wf (rum_window s)" using wf by (simp add: um_wf_def Let_def)
  have c: "contains (rum_window s) n" by (simp add: contains_lookup l)
  have cw1: "cm_wf ?w1" and l1: "cm_lookup ?w1 = (\<lambda>_. None)(n := Some (info\<lparr>segments := []\<rparr>))"
    by (simp_all add: cm_wf_assign [OF cw c] cm_lookup_assign [OF cw c] l)
  let ?w2 = "snd (erase ?w1 n)"
  have rem: "remove_sn ?w1 n = Inr ?w2" by (rule remove_sn_old) (simp add: l1)
  have l2: "cm_lookup ?w2 = (\<lambda>_. None)" by (simp add: cm_lookup_erase [OF cw1] l1 fun_eq_iff)
  have wf1: "um_wf ?s1" by (rule um_wf_window [OF wf]) (simp_all add: cw1)
  have wf2: "um_wf (s\<lparr>rum_window := ?w2\<rparr>)" by (rule um_wf_window [OF wf]) (simp_all add: cm_wf_erase [OF cw1])
  have n: "n < rum_mod s" using um_wf_less(2) [OF wf] r by simp
  have "(um_pos s n + 1) mod (2 * um_w s) = um_w s"
    using um_pos_succ [OF wf, of n] um_pos_highest [OF wf] r by simp
  then have below: "um_pos s n < um_w s"
    using um_pos_less [OF wf, of n] um_wf_sizes(2) [OF wf]
    by (cases "um_pos s n + 1 = 2 * um_w s") auto
  have idn: "n mod rum_mod s = n" by (rule um_mod_ident [OF wf n])
  obtain k where bound: "loop_bound_um ?s1 = Suc (Suc k)"
    using um_wf_sizes(2,3) [OF wf] loop_bound_um_wf [OF wf1] by (cases "2 * um_w s") auto
  have "um_pos s (rx_next_highest s) = um_w s" by (rule um_pos_highest [OF wf])
  then have "advance_um (loop_bound_um ?s1) n ?s1 = Inr (rx_next_highest s, s\<lparr>rum_window := ?w2\<rparr>)"
    unfolding bound using below l1 full rem um_below_highest [OF wf1] um_below_highest [OF wf2]
    by (simp add: advance_um.simps r(2) [symmetric])
  then have adv: "advance_um (loop_bound_um ?s1) n ?s1 = Inr ((n + 1) mod rum_mod s, s\<lparr>rum_window := ?w2\<rparr>)"
    by (simp only: r(2))
  have "complete_sdu_um True n info s = Inr (s\<lparr>rum_window := ?w2, rx_next_reassembly := (n + 1) mod rum_mod s\<rparr>,
      [Metrics_Add_Sdus 1 (length (reassemble_segments (segments info))), On_New_Sdu (reassemble_segments (segments info))])"
    using adv r idn full by (simp add: complete_sdu_um_def reassemble_sdu_um_def Let_def)
  then show ?thesis using l2 cm_wf_erase [OF cw1] by auto
qed

section \<open>One PDU\<close>

text \<open>The window after a segment was stored.\<close>

lemma um_sync_store:
  assumes sy: "um_sync z buf so n s" and seg: "um_si h \<noteq> Full_Sdu"
    and pay: "0 < k" "so + k \<le> length buf" and len: "length buf \<le> 65536"
    and hd: "um_si h = si_of_cut so k (length buf)" "um_so h = of_nat so" "ucast (um_sn h) = n"
  obtains st w info where
    "handle_segment_data_sdu_um now h (take k (drop so buf)) s = Inr (st, s\<lparr>rum_window := w\<rparr>)"
    "um_wf (s\<lparr>rum_window := w\<rparr>)" "cm_max_size w = cm_max_size (rum_window s)"
    "cm_lookup w = (\<lambda>_. None)(n := Some info)" "segs_inv buf (segments info)" "segs_cover (segments info) = {0 ..< so + k}"
    "fully_received info \<longleftrightarrow> so + k = length buf" "fully_received info \<Longrightarrow> reassemble_segments (segments info) = buf"
proof -
  let ?pay = "take k (drop so buf)"
  have wf: "um_wf s" using sy by (simp add: um_sync_def)
  define sg where "sg = \<lparr>seg_si = um_si h, seg_so = um_so h, seg_payload = ?pay\<rparr>"
  have "so < 65536" using pay len by simp
  then have uso: "unat (um_so h) = so" by (simp add: hd(2) unsigned_of_nat take_bit_nat_eq_self)
  have ok: "seg_ok sg" "seg_slice buf sg" "seg_cover sg = {so ..< so + k}"
    using pay len hd(1) seg
    by (auto simp: sg_def seg_ok_def seg_slice_def seg_cover_def seg_end_def uso si_of_cut_def min_def split: if_splits)
  have bne: "buf \<noteq> []" using pay by auto
  define old where "old = (case cm_lookup (rum_window s) n of None \<Rightarrow> um_fresh now | Some i \<Rightarrow> i)"
  define info where "info = um_stored h ?pay old"
  have old: "segs_inv buf (segments old)" "segs_cover (segments old) = {0 ..< so}"
    "\<And>x. x \<noteq> n \<Longrightarrow> cm_lookup (rum_window s) x = None"
    using sy by (auto simp: um_sync_def old_def um_fresh_def segs_inv_def split: if_splits)
  have sgs: "segments info = snd (store_segment (segments old) sg)"
    "fully_received info = fst (update_segment_inventory (segments info))"
    by (simp_all add: info_def um_stored_def sg_def Let_def)
  have inv: "segs_inv buf (segments info)" "segs_cover (segments info) = {0 ..< so + k}"
    using segs.store_inv [OF old(1) ok(1,2)] segs.store_cover [OF old(1) ok(1,2)] old(2) ok(3)
    unfolding sgs(1) by auto
  have full: "fully_received info \<longleftrightarrow> so + k = length buf"
    unfolding sgs(2) inventory_correct(1) [OF inv(1) bne] inv(2) using pay by auto
  have asm: "fully_received info \<Longrightarrow> reassemble_segments (segments info) = buf"
    using inventory_correct(2) [OF inv(1) bne] sgs(2) by simp
  obtain st w where w: "handle_segment_data_sdu_um now h ?pay s = Inr (st, s\<lparr>rum_window := w\<rparr>)"
    "cm_wf w" "cm_max_size w = cm_max_size (rum_window s)" "cm_lookup w n = Some info"
    "\<forall>x. x \<noteq> n \<longrightarrow> cm_lookup w x = None \<or> cm_lookup w x = cm_lookup (rum_window s) x"
    using handle_segment_um_spec [OF wf seg, of now ?pay] hd(3) unfolding info_def old_def by auto
  have "cm_lookup w = (\<lambda>_. None)(n := Some info)"
    using w(4,5) old(3) by (auto simp: fun_eq_iff)
  from that [OF w(1) um_wf_window [OF wf w(2,3)] w(3) this inv full asm] show thesis .
qed

text \<open>The three kinds of segments, after the segment was stored.\<close>

lemma place_last:
  assumes wf: "um_wf s" and run: "\<not> is_running (rum_reassembly_timer s)"
    and r: "rx_next_reassembly s = n" "rx_next_highest s = (n + 1) mod rum_mod s"
    and l: "cm_lookup (rum_window s) = (\<lambda>_. None)(n := Some info)"
    and full: "fully_received info" "reassemble_segments (segments info) = buf"
  shows "\<exists>s' as. place_um True n s = Inr (s', as) \<and> update_timer_um s' = Inr s' \<and> delivered as = [buf] \<and>
    um_sync (rxum_sn_field_length (rum_cfg s)) buf' 0 ((n + 1) mod rum_mod s) s' \<and> rum_mod s' = rum_mod s"
proof -
  obtain w where w: "complete_sdu_um True n info s =
      Inr (s\<lparr>rum_window := w, rx_next_reassembly := (n + 1) mod rum_mod s\<rparr>,
        [Metrics_Add_Sdus 1 (length buf), On_New_Sdu buf])"
    "cm_wf w" "cm_max_size w = cm_max_size (rum_window s)" "cm_lookup w = (\<lambda>_. None)"
    using complete_last [OF wf r l full(1)] full(2) by auto
  let ?s2 = "s\<lparr>rum_window := w, rx_next_reassembly := (n + 1) mod rum_mod s\<rparr>"
  have wf2: "um_wf ?s2"
    using um_wf_upd(1) [OF um_wf_window [OF wf w(2,3)], of "(n + 1) mod rum_mod s"] um_mod_less [OF wf] by simp
  have "update_timer_um ?s2 = Inr ?s2"
    by (rule timer_idle [OF wf2]) (use run r w(4) in simp_all)
  moreover have "place_um True n s = Inr (?s2, [Metrics_Add_Sdus 1 (length buf), On_New_Sdu buf])"
    using l full w(1) by (simp add: place_um_def)
  moreover have "um_sync (rxum_sn_field_length (rum_cfg s)) buf' 0 ((n + 1) mod rum_mod s) ?s2"
    using wf2 run r w(4) by (simp add: um_sync_def)
  ultimately show ?thesis by simp
qed

lemma place_more:
  assumes wf: "um_wf s" and run: "\<not> is_running (rum_reassembly_timer s)"
    and r: "rx_next_reassembly s = n" "rx_next_highest s = (if so = 0 then n else (n + 1) mod rum_mod s)"
    and l: "cm_lookup (rum_window s) = (\<lambda>_. None)(n := Some info)" "\<not> fully_received info"
    and inv: "segs_inv buf (segments info)" "segs_cover (segments info) = {0 ..< so + k}" "0 < k"
  shows "\<exists>s' as. place_um True n s = Inr (s', as) \<and> update_timer_um s' = Inr s' \<and> delivered as = [] \<and>
    um_sync (rxum_sn_field_length (rum_cfg s)) buf (so + k) n s' \<and> rum_mod s' = rum_mod s"
proof -
  have nlt: "n < rum_mod s" using um_wf_less(2) [OF wf] r by simp
  note nn = um_next_neq [OF wf nlt]
  let ?s2 = "s\<lparr>rx_next_highest := (n + 1) mod rum_mod s\<rparr>"
  have wf2: "um_wf ?s2" by (intro um_wf_upd um_mod_less wf)
  have place: "place_um True n s = Inr (?s2, [])"
  proof (cases "so = 0")
    case True
    then have "um_w s \<le> um_pos s n" using um_pos_highest [OF wf] r by simp
    then show ?thesis
      using move_highest_first [OF wf, of n info] l r True um_in_window [OF wf, of n] by (simp add: place_um_def)
  next
    case False
    have "(um_pos s n + 1) mod (2 * um_w s) = um_w s"
      using um_pos_succ [OF wf, of n] um_pos_highest [OF wf] r False by simp
    then have "um_pos s n < um_w s"
      using um_pos_less [OF wf, of n] um_wf_sizes(2) [OF wf]
      by (cases "um_pos s n + 1 = 2 * um_w s") auto
    moreover have "?s2 = s" by (cases s) (use r False in simp)
    ultimately show ?thesis using l um_in_window [OF wf, of n] by (simp add: place_um_def)
  qed
  moreover have "update_timer_um ?s2 = Inr ?s2"
    by (rule timer_idle [OF wf2]) (use run r l nn in simp_all)
  moreover have "um_sync (rxum_sn_field_length (rum_cfg s)) buf (so + k) n ?s2"
    using wf2 run r l inv by (simp add: um_sync_def) blast
  ultimately show ?thesis by simp
qed

lemma um_sync_pdu:
  assumes sy: "um_sync z buf so n s"
    and h: "rlc_um_read_data_pdu_header pdu z empty_um_header = Some h"
    and pay: "drop (rlc_um_nr_packed_length h) pdu = take k (drop so buf)" "0 < k" "so + k \<le> length buf"
    and len: "length buf \<le> 65536"
    and hd: "um_si h = si_of_cut so k (length buf)" "um_so h = of_nat so" "um_si h \<noteq> Full_Sdu \<longrightarrow> ucast (um_sn h) = n"
  shows "\<exists>s' as. handle_pdu_um True now pdu s = Inr (s', as) \<and>
    delivered as = (if so + k = length buf then [buf] else []) \<and>
    (if so + k = length buf then um_sync z buf' 0 (if so = 0 then n else (n + 1) mod rum_mod s) s'
     else um_sync z buf (so + k) n s') \<and> rum_mod s' = rum_mod s"
proof -
  have wf: "um_wf s" and cfg: "rxum_sn_field_length (rum_cfg s) = z" and run: "\<not> is_running (rum_reassembly_timer s)"
    and r: "rx_next_reassembly s = n" "rx_next_highest s = (if so = 0 then n else (n + 1) mod rum_mod s)"
    using sy by (auto simp: um_sync_def)
  have plen: "\<not> length pdu \<le> rlc_um_nr_packed_length h" using pay by auto
  show ?thesis
  proof (cases "um_si h = Full_Sdu")
    case True
    then have full: "so = 0" "k = length buf" using hd(1) by (auto simp: si_of_cut_def split: if_splits)
    then have "handle_pdu_um True now pdu s =
        Inr (s, [Metrics_Add_Pdus 1 (length pdu), Metrics_Add_Sdus 1 (length buf), On_New_Sdu buf])"
      using h cfg plen True pay(1) by (simp add: handle_pdu_um_def Let_def)
    then show ?thesis using full sy by (simp add: um_sync_def)
  next
    case seg: False
    obtain st w info where w: "handle_segment_data_sdu_um now h (take k (drop so buf)) s = Inr (st, s\<lparr>rum_window := w\<rparr>)"
      "um_wf (s\<lparr>rum_window := w\<rparr>)"
      "cm_lookup w = (\<lambda>_. None)(n := Some info)" "segs_inv buf (segments info)" "segs_cover (segments info) = {0 ..< so + k}"
      "fully_received info \<longleftrightarrow> so + k = length buf" "fully_received info \<Longrightarrow> reassemble_segments (segments info) = buf"
      by (rule um_sync_store [OF sy seg pay(2,3) len hd(1,2) hd(3) [rule_format, OF seg], of now]) (rule that)
    let ?s1 = "s\<lparr>rum_window := w\<rparr>"
    have "\<not> sn_invalid_for_rx_buffer_um s n" using um_invalid [OF wf] r by simp
    then have step: "handle_pdu_um True now pdu s = Inr (s', Metrics_Add_Pdus 1 (length pdu) # as)"
      if "place_um True n ?s1 = Inr (s', as)" "update_timer_um s' = Inr s'" for s' as
      using h cfg plen seg pay(1) w(1) that hd(3) [rule_format, OF seg] by (simp add: handle_pdu_um_def Let_def)
    show ?thesis
    proof (cases "so + k = length buf")
      case True
      then have so0: "so \<noteq> 0" using hd(1) seg by (auto simp: si_of_cut_def split: if_splits)
      have "\<exists>s' as. place_um True n ?s1 = Inr (s', as) \<and> update_timer_um s' = Inr s' \<and> delivered as = [buf] \<and>
          um_sync (rxum_sn_field_length (rum_cfg ?s1)) buf' 0 ((n + 1) mod rum_mod ?s1) s' \<and> rum_mod s' = rum_mod ?s1"
        by (rule place_last [OF w(2), where info = info]) (use run r so0 w True in simp_all)
      then show ?thesis using step True so0 cfg by fastforce
    next
      case False
      have "\<exists>s' as. place_um True n ?s1 = Inr (s', as) \<and> update_timer_um s' = Inr s' \<and> delivered as = [] \<and>
          um_sync (rxum_sn_field_length (rum_cfg ?s1)) buf (so + k) n s' \<and> rum_mod s' = rum_mod ?s1"
        by (rule place_more [OF w(2), where info = info]) (use run r w False pay(2) in simp_all)
      then show ?thesis using step False cfg by fastforce
    qed
  qed
qed

section \<open>The link\<close>

text \<open>An SDU from the upper layer, or a grant of the MAC whose PDU is received at once.\<close>

datatype um_link_op = Link_Write nat byte_buffer | Link_Pull nat nat

type_synonym um_link = "rlc_tx_um_entity \<times> rlc_rx_um_entity"

text \<open>The SDUs that a step accepts and delivers, and the new states.\<close>

fun um_link_step :: "um_link_op \<Rightarrow> um_link \<Rightarrow> (byte_buffer list \<times> byte_buffer list \<times> um_link) res" where
  "um_link_step (Link_Write now buf) (tx, rx) =
     bind_res (handle_sdu_um now buf False tx) (\<lambda>(tx', as).
       Inr (if Tx_Add_Sdus 1 (length buf) \<in> set as then [buf] else [], [], (tx', rx)))"
| "um_link_step (Link_Pull now grant) (tx, rx) =
     (let (pdu, tx', as) = pull_pdu_um grant tx in
      if pdu = [] then Inr ([], [], (tx', rx))
      else bind_res (handle_pdu_um True now pdu rx) (\<lambda>(rx', as'). Inr ([], delivered as', (tx', rx'))))"

fun um_link_run :: "um_link_op list \<Rightarrow> um_link \<Rightarrow> (byte_buffer list \<times> byte_buffer list \<times> um_link) res" where
  "um_link_run [] l = Inr ([], [], l)"
| "um_link_run (op # ops) l =
     bind_res (um_link_step op l) (\<lambda>(acc, del, l').
     bind_res (um_link_run ops l') (\<lambda>(acc', del', l''). Inr (acc @ acc', del @ del', l'')))"

text \<open>The SDUs that are not yet completely sent.\<close>

definition um_pending :: "rlc_tx_um_entity \<Rightarrow> byte_buffer list" where
  "um_pending tx = (if sdu_buf (tum_sdu tx) = [] then [] else [sdu_buf (tum_sdu tx)]) @ map sdu_buf (q_view (tum_queue tx))"

definition sdu_len_ok :: "byte_buffer \<Rightarrow> bool" where
  "sdu_len_ok buf \<longleftrightarrow> buf \<noteq> [] \<and> length buf \<le> 65536"

definition link_inv :: "um_link \<Rightarrow> bool" where
  "link_inv l \<longleftrightarrow> (case l of (tx, rx) \<Rightarrow>
     tum_wf tx \<and> q_queue (tum_queue tx) = q_view (tum_queue tx) \<and>
     (\<forall>x \<in> set (q_view (tum_queue tx)). sdu_len_ok (sdu_buf x)) \<and> rum_mod rx = tum_mod tx \<and>
     um_sync (txum_sn_field_length (tum_cfg tx)) (sdu_buf (tum_sdu tx)) (tum_next_so tx) (tum_tx_next tx) rx)"

lemma read_no_discard:
  assumes "q_inv q" "q_queue q = q_view q"
  shows "q_queue (snd (snd (read_sdu sdu q))) = q_view (snd (snd (read_sdu sdu q)))"
proof (cases "q_queue q")
  case Nil
  then show ?thesis using assms by (simp add: read_step(1))
next
  case (Cons x rest)
  have "filter (sdu_valid q) (q_queue q) = q_queue q" using assms(2) by (simp add: q_view_def)
  then have v: "sdu_valid q x" using Cons unfolding filter_id_conv by simp
  have "q_view (snd (snd (read_sdu sdu q))) = rest"
    using read_correct [OF assms(1), of sdu] Cons unfolding assms(2) [symmetric] by simp
  moreover have "q_queue (snd (snd (read_sdu sdu q))) = rest"
  proof (cases "sdu_pdcp_sn x")
    case None
    then show ?thesis by (simp add: read_step(2) [OF Cons] state_sub_def)
  next
    case (Some sn)
    then show ?thesis
      using release_head [OF assms(1) Cons Some] v by (simp add: read_step(3) [OF Cons Some] Let_def)
  qed
  ultimately show ?thesis by simp
qed

lemma link_fetch:
  assumes inv: "link_inv (tx, rx)"
  shows "link_inv (tum_fetch tx, rx)" "um_pending (tum_fetch tx) = um_pending tx" "tum_input_ok tx"
proof -
  have wf: "tum_wf tx" and q: "q_queue (tum_queue tx) = q_view (tum_queue tx)"
    and lens: "\<forall>x \<in> set (q_view (tum_queue tx)). sdu_len_ok (sdu_buf x)" and m: "rum_mod rx = tum_mod tx"
    and sy: "um_sync (txum_sn_field_length (tum_cfg tx)) (sdu_buf (tum_sdu tx)) (tum_next_so tx) (tum_tx_next tx) rx"
    using inv by (simp_all add: link_inv_def)
  show inp: "tum_input_ok tx" using lens q by (auto simp: tum_input_ok_def tum_only_discarded_def sdu_len_ok_def)
  note f = tum_fetch_ok [OF wf inp]
  have so: "sdu_buf (tum_sdu tx) = [] \<Longrightarrow> tum_next_so tx = 0" using tum_wfD(7) [OF wf] by auto
  have raw: "q_queue (tum_queue (tum_fetch tx)) = q_view (tum_queue (tum_fetch tx))"
    using read_no_discard [OF tum_wfD(1) [OF wf] q, of "tum_sdu tx"] q
    by (auto simp: tum_fetch_def split: prod.split)
  have "um_sync (txum_sn_field_length (tum_cfg tx)) (sdu_buf (tum_sdu (tum_fetch tx))) (tum_next_so tx) (tum_tx_next tx) rx"
  proof (cases "sdu_buf (tum_sdu tx) = []")
    case True
    then show ?thesis using sy so by (simp add: um_sync_def)
  next
    case False
    then show ?thesis using sy by (simp add: tum_fetch_def)
  qed
  then show "link_inv (tum_fetch tx, rx)"
    using f raw lens m by (auto simp: link_inv_def)
  have "map (drop 0) (um_pending t) = um_pending t" for t by simp
  show "um_pending (tum_fetch tx) = um_pending tx"
  proof (cases "sdu_buf (tum_sdu tx) = []")
    case True
    then have "tum_backlog tx = um_pending tx" "tum_backlog (tum_fetch tx) = um_pending (tum_fetch tx)"
      using so f(4) by (simp_all add: tum_backlog_def um_pending_def)
    then show ?thesis using f(2) by simp
  qed (simp add: tum_fetch_def)
qed

lemma um_pending_after:
  "0 < n \<Longrightarrow> tum_next_so tx + n \<le> length (sdu_buf (tum_sdu tx)) \<Longrightarrow>
     um_pending tx = (if tum_next_so tx + n = length (sdu_buf (tum_sdu tx)) then [sdu_buf (tum_sdu tx)] else []) @
       um_pending (tum_after tx n)"
  by (auto simp: um_pending_def tum_after_def Let_def)

lemma link_pull:
  assumes inv: "link_inv (tx, rx)"
  shows "\<exists>del l'. um_link_step (Link_Pull now grant) (tx, rx) = Inr ([], del, l') \<and> link_inv l' \<and>
    um_pending tx = del @ um_pending (fst l')"
proof (cases "tum_head_len_full tx < grant")
  case False
  then show ?thesis using inv by (simp add: pull_pdu_um_def)
next
  case True
  let ?f = "tum_fetch tx"
  note lf = link_fetch [OF inv]
  have wf: "tum_wf tx" using inv by (simp add: link_inv_def)
  note f = tum_fetch_ok [OF wf lf(3)]
  show ?thesis
  proof (cases rule: pull_pdu_um_spec [OF wf lf(3) True])
    case (1 as)
    then show ?thesis using lf(1,2) by simp
  next
    case (2 n as)
    let ?h = "um_header_read ?f n" and ?buf = "sdu_buf (tum_sdu ?f)" and ?so = "tum_next_so ?f"
    let ?pdu = "rlc_um_write_data_pdu_header ?h @ take n (drop ?so ?buf)"
    let ?z = "txum_sn_field_length (tum_cfg ?f)"
    have sy: "um_sync ?z ?buf ?so (tum_tx_next ?f) rx" and m: "rum_mod rx = tum_mod ?f"
      using lf(1) by (simp_all add: link_inv_def)
    have rt: "rlc_um_read_data_pdu_header ?pdu ?z empty_um_header = Some ?h"
      "drop (rlc_um_nr_packed_length ?h) ?pdu = take n (drop ?so ?buf)"
      using um_read_write [OF um_header_read_ok(1) [OF f(1) 2(1,2)], of "take n (drop ?so ?buf)"]
      by (simp_all add: um_header_read_def um_header_of_def split: if_splits)
    have hd: "um_si ?h = si_of_cut ?so n (length ?buf)" "um_so ?h = of_nat ?so"
      "um_si ?h \<noteq> Full_Sdu \<longrightarrow> ucast (um_sn ?h) = tum_tx_next ?f"
      using tum_sn_u16(2) [OF f(1)] by (auto simp: um_header_read_def um_header_of_def split: if_splits)
    have ne: "?pdu \<noteq> []" using 2(1,2) by auto
    obtain rx' as' where rx': "handle_pdu_um True now ?pdu rx = Inr (rx', as')"
      "delivered as' = (if ?so + n = length ?buf then [?buf] else [])"
      "if ?so + n = length ?buf then um_sync ?z [] 0 (if ?so = 0 then tum_tx_next ?f else (tum_tx_next ?f + 1) mod rum_mod rx) rx'
       else um_sync ?z ?buf (?so + n) (tum_tx_next ?f) rx'" "rum_mod rx' = rum_mod rx"
      using um_sync_pdu [OF sy rt 2(1,2) tum_wfD(8) [OF f(1)] hd, where now = now and buf' = "[]"]
      by (elim exE conjE) (rule that)
    have "um_link_step (Link_Pull now grant) (tx, rx) = Inr ([], delivered as', (tum_after ?f n, rx'))"
      using 2(3) ne rx'(1) by (simp del: append_is_Nil_conv)
    moreover have "link_inv (tum_after ?f n, rx')"
      using lf(1) tum_after_wf [OF f(1) 2(2)] rx'(3,4) m
      by (auto simp: link_inv_def tum_after_def Let_def split: if_splits)
    moreover have "um_pending tx = delivered as' @ um_pending (tum_after ?f n)"
      using um_pending_after [OF 2(1,2)] lf(2) rx'(2) by simp
    ultimately show ?thesis by simp
  qed
qed

lemma link_write:
  assumes inv: "link_inv (tx, rx)" and ok: "sdu_len_ok buf"
  shows "\<exists>acc l'. um_link_step (Link_Write now buf) (tx, rx) = Inr (acc, [], l') \<and> link_inv l' \<and>
    um_pending (fst l') = um_pending tx @ acc"
proof -
  have wf: "tum_wf tx" and q: "q_queue (tum_queue tx) = q_view (tum_queue tx)"
    and lens: "\<forall>b \<in> set (map sdu_buf (q_view (tum_queue tx))). sdu_len_ok b"
    using inv by (simp_all add: link_inv_def)
  obtain tx' as b where w: "handle_sdu_um now buf False tx = Inr (tx', as)" "tum_wf tx'"
    "map sdu_buf (q_view (tum_queue tx')) = map sdu_buf (q_view (tum_queue tx)) @ (if b then [buf] else [])"
    "q_queue (tum_queue tx') = q_view (tum_queue tx') \<or> q_queue (tum_queue tx) \<noteq> q_view (tum_queue tx)"
    "tum_cfg tx' = tum_cfg tx" "tum_tx_next tx' = tum_tx_next tx" "tum_sdu tx' = tum_sdu tx"
    "tum_next_so tx' = tum_next_so tx" "Tx_Add_Sdus 1 (length buf) \<in> set as \<longleftrightarrow> b"
    by (rule handle_sdu_um_spec [OF wf, of now buf False]) (rule that)
  have step: "um_link_step (Link_Write now buf) (tx, rx) = Inr (if b then [buf] else [], [], (tx', rx))"
    using w(1,9) by simp
  have "\<forall>b \<in> set (map sdu_buf (q_view (tum_queue tx'))). sdu_len_ok b"
    unfolding w(3) using lens ok by auto
  moreover have "tum_mod tx' = tum_mod tx" using tum_wfD(2) [OF wf] tum_wfD(2) [OF w(2)] w(5) by simp
  ultimately have "link_inv (tx', rx)" using inv w(2,4-8) q by (simp add: link_inv_def)
  then show ?thesis using step w(3,7) by (simp add: um_pending_def)
qed

definition link_op_ok :: "um_link_op \<Rightarrow> bool" where
  "link_op_ok op = (case op of Link_Write now buf \<Rightarrow> sdu_len_ok buf | Link_Pull now grant \<Rightarrow> True)"

lemma link_step:
  assumes "link_inv l" "link_op_ok op"
  shows "\<exists>acc del l'. um_link_step op l = Inr (acc, del, l') \<and> link_inv l' \<and>
    um_pending (fst l) @ acc = del @ um_pending (fst l')"
proof (cases l)
  case (Pair tx rx)
  show ?thesis
  proof (cases op)
    case (Link_Write now buf)
    then show ?thesis using link_write [of tx rx buf now] assms Pair by (fastforce simp: link_op_ok_def)
  next
    case (Link_Pull now grant)
    then show ?thesis using link_pull [of tx rx now grant] assms Pair by fastforce
  qed
qed

lemma link_run:
  assumes "link_inv l" "\<forall>op \<in> set ops. link_op_ok op"
  shows "\<exists>acc del l'. um_link_run ops l = Inr (acc, del, l') \<and> link_inv l' \<and>
    um_pending (fst l) @ acc = del @ um_pending (fst l')"
  using assms
proof (induction ops arbitrary: l)
  case (Cons op ops)
  obtain acc del l1 where 1: "um_link_step op l = Inr (acc, del, l1)" "link_inv l1"
    "um_pending (fst l) @ acc = del @ um_pending (fst l1)"
    using link_step [OF Cons.prems(1), of op] Cons.prems(2) by (auto simp del: um_link_step.simps)
  have ok: "\<forall>op \<in> set ops. link_op_ok op" using Cons.prems(2) by simp
  obtain acc' del' l2 where 2: "um_link_run ops l1 = Inr (acc', del', l2)" "link_inv l2"
    "um_pending (fst l1) @ acc' = del' @ um_pending (fst l2)"
    using Cons.IH [OF 1(2) ok] by (elim exE conjE) (rule that)
  have "um_pending (fst l) @ acc @ acc' = del @ um_pending (fst l1) @ acc'"
    using arg_cong [OF 1(3), of "\<lambda>x. x @ acc'"] by simp
  then have "um_pending (fst l) @ acc @ acc' = (del @ del') @ um_pending (fst l2)"
    by (simp only: 2(3) append_assoc)
  then show ?case using 1(1) 2(1,2) by simp
qed simp

lemma link_inv_new:
  assumes tx: "new_tx_um tcfg = Inr tx" "0 < txum_queue_size tcfg" "txum_queue_size tcfg < 2 ^ 32"
    and z: "rxum_sn_field_length rcfg = txum_sn_field_length tcfg"
  shows "link_inv (tx, new_rx_um rcfg)" "um_pending tx = []"
proof -
  note t = new_tx_um_wf [OF tx]
  have v: "q_view (tum_queue tx) = []" using t(3) by (simp add: q_view_def)
  show "um_pending tx = []" using t(7) v by (simp add: um_pending_def)
  have "um_sync (txum_sn_field_length tcfg) (sdu_buf (tum_sdu tx)) 0 0 (new_rx_um rcfg)"
    using um_wf_new [of rcfg] z by (simp add: um_sync_def) (simp add: new_rx_um_def Let_def fun_eq_iff)
  moreover have "rum_mod (new_rx_um rcfg) = tum_mod tx"
    using tum_wfD(2) [OF t(1)] t(4) z by (simp add: new_rx_um_def Let_def)
  ultimately show "link_inv (tx, new_rx_um rcfg)"
    using t v by (simp add: link_inv_def)
qed

text \<open>
  C11. Over a channel that keeps the order and loses nothing, the UM bearer delivers its SDUs without loss,
  duplication, reordering or corruption: whatever is written and however the MAC chooses its grants, no
  assertion of either entity fails, and the SDUs delivered so far followed by those the transmitter still
  holds are exactly the SDUs it accepted, in order. The SDUs have at most 65536 bytes, as the 16-bit segment
  offset requires.
\<close>

theorem um_link_lossless:
  assumes "new_tx_um tcfg = Inr tx" "0 < txum_queue_size tcfg" "txum_queue_size tcfg < 2 ^ 32"
    and "rxum_sn_field_length rcfg = txum_sn_field_length tcfg"
    and "\<forall>op \<in> set ops. link_op_ok op"
  shows "\<exists>acc del tx' rx'. um_link_run ops (tx, new_rx_um rcfg) = Inr (acc, del, (tx', rx')) \<and>
    acc = del @ um_pending tx'"
  using link_run [OF link_inv_new(1) [OF assms(1-4)] assms(5)] link_inv_new(2) [OF assms(1-4)] by fastforce

definition sample_link_ops :: "um_link_op list" where
  "sample_link_ops = [Link_Write 1 [0x80, 7, 1, 2, 3], Link_Pull 2 5, Link_Write 3 [0x80, 8, 9], Link_Pull 4 1,
     Link_Pull 5 20, Link_Pull 6 20]"

definition sample_link_cfg :: rlc_tx_um_config where
  "sample_link_cfg = sample_tx_um_cfg\<lparr>txum_sn_field_length := Size6bits\<rparr>"

theorem um_link_lossless_witness:
  "\<exists>tx acc del tx' rx'. new_tx_um sample_link_cfg = Inr tx \<and>
     um_link_run sample_link_ops (tx, new_rx_um \<lparr>rxum_sn_field_length = Size6bits, rxum_t_reassembly = 50\<rparr>) =
       Inr (acc, del, (tx', rx')) \<and> acc = [[0x80, 7, 1, 2, 3], [0x80, 8, 9]] \<and> acc = del @ um_pending tx' \<and> del = acc"
proof -
  let ?rx = "new_rx_um \<lparr>rxum_sn_field_length = Size6bits, rxum_t_reassembly = 50\<rparr>"
  obtain tx where tx: "new_tx_um sample_link_cfg = Inr tx"
    by (simp add: new_tx_um_def sample_link_cfg_def sample_tx_um_cfg_def srsran_assert_def)
  obtain acc del tx' rx' where r: "um_link_run sample_link_ops (tx, ?rx) = Inr (acc, del, (tx', rx'))" "acc = del @ um_pending tx'"
    using um_link_lossless [OF tx, of "\<lparr>rxum_sn_field_length = Size6bits, rxum_t_reassembly = 50\<rparr>" sample_link_ops]
    by (auto simp: sample_link_cfg_def sample_tx_um_cfg_def sample_link_ops_def link_op_ok_def sdu_len_ok_def)
  have "(case bind_res (new_tx_um sample_link_cfg) (\<lambda>tx. um_link_run sample_link_ops (tx, ?rx)) of
      Inl e \<Rightarrow> False | Inr (acc, del, l) \<Rightarrow> acc = [[0x80, 7, 1, 2, 3], [0x80, 8, 9]] \<and> del = acc)"
    by code_simp
  then have "acc = [[0x80, 7, 1, 2, 3], [0x80, 8, 9]] \<and> del = acc" using tx r(1) by simp
  then show ?thesis using tx r by blast
qed

end
