(* ===== verification/Rlc_Rx_Am.thy ===== *)
theory Rlc_Rx_Am
  imports Rlc_Am_Status Rlc_Segments
begin

text \<open>
  The receiving AM entity (lib/rlc/rlc_rx_am_entity.h, rlc_rx_am_entity.cpp): the receive window and its
  state variables, buffering of SDUs and SDU segments, t-Reassembly, t-StatusProhibit, and the status report
  that it builds for the transmitting side and hands over in three buffers.

  A handler returns the new state and the actions towards the upper layer and the metrics; a control PDU
  also gives the status PDU that is passed to the transmitting side. The loops over sequence numbers carry
  a bound, larger than the ring of sequence numbers: running out of it is a fault, so that the theorems that
  exclude faults include that the loops end. \<open>alloc\<close> says whether the buffers for an SDU can be allocated.
  An expiry of a timer finds it running and stops it before the handler is invoked. Logging, PCAP, tracing
  and latency measurements are left out.
\<close>

unbundle bit_operations_syntax

section \<open>State\<close>

datatype rlc_rx_am_sdu_data = Sdu_Slice byte_buffer | Segment_Set "rlc_rx_sdu_segment list"

record rlc_rx_am_sdu_info =
  am_fully_received :: bool
  am_has_gap :: bool
  sdu_data :: rlc_rx_am_sdu_data
  am_time_of_arrival :: nat

record rlc_rx_am_state =
  rx_next :: u32
  rx_next_status_trigger :: u32
  rx_highest_status :: u32
  ram_next_highest :: u32

record rlc_rx_am_entity = rlc_rx_am_state +
  ram_cfg :: rlc_rx_am_config
  max_nof_sn_per_status_report :: u32
  do_status :: bool
  ram_mod :: u32
  ram_window_size :: u32
  ram_window :: "rlc_rx_am_sdu_info sdu_window"
  status_owned_by_writer :: rlc_am_status_pdu
  status_for_exchange :: rlc_am_status_pdu
  status_owned_by_reader :: rlc_am_status_pdu
  status_report_size :: nat
  status_prohibit_timer_is_running :: bool
  status_prohibit_timer :: unique_timer
  ram_reassembly_timer :: unique_timer
  ram_stopped :: bool

definition max_sn_of_config :: "rlc_rx_am_config \<Rightarrow> u32 res" where
  "max_sn_of_config cfg =
     (let w = window_size (to_number_am_sn (rxam_sn_field_length cfg)) in
      case rxam_max_sn_per_status cfg of
        Some max_sn \<Rightarrow>
          bind_res (srsran_assert (max_sn \<le> w) ''Cannot create RLC RX AM, max_sn_per_status exceeds window_size.'')
            (\<lambda>_. bind_res (srsran_assert (max_sn > 0) ''Cannot create RLC RX AM, max_sn_per_status must not be zero.'')
              (\<lambda>_. Inr max_sn))
      | None \<Rightarrow> Inr w)"

definition new_rx_am :: "rlc_rx_am_config \<Rightarrow> rlc_rx_am_entity res" where
  "new_rx_am cfg =
     (let sn_size = rxam_sn_field_length cfg; k = to_number_am_sn sn_size;
          init = (new_status_pdu sn_size)\<lparr>ack_sn := 0\<rparr>
      in bind_res (max_sn_of_config cfg) (\<lambda>max_sn.
         Inr \<lparr>rx_next = 0, rx_next_status_trigger = 0, rx_highest_status = 0, ram_next_highest = 0,
           ram_cfg = cfg, max_nof_sn_per_status_report = max_sn, do_status = False,
           ram_mod = cardinality k, ram_window_size = window_size k,
           ram_window = new_circular_map (unat (window_size k)),
           status_owned_by_writer = new_status_pdu sn_size, status_for_exchange = init,
           status_owned_by_reader = new_status_pdu sn_size, status_report_size = packed_size init,
           status_prohibit_timer_is_running = False,
           status_prohibit_timer = new_timer (rxam_t_status_prohibit cfg),
           ram_reassembly_timer = new_timer (rxam_t_reassembly cfg), ram_stopped = False\<rparr>))"

definition stop_am :: "rlc_rx_am_entity \<Rightarrow> rlc_rx_am_entity" where
  "stop_am s =
     (if \<not> ram_stopped s then
        s\<lparr>status_prohibit_timer := timer_stop (status_prohibit_timer s),
          ram_reassembly_timer := timer_stop (ram_reassembly_timer s), ram_stopped := True\<rparr>
      else s)"

definition rx_mod_base_am :: "rlc_rx_am_entity \<Rightarrow> u32 \<Rightarrow> u32" where
  "rx_mod_base_am s sn = (sn - rx_next s) mod ram_mod s"

definition inside_rx_window :: "rlc_rx_am_entity \<Rightarrow> u32 \<Rightarrow> bool" where
  "inside_rx_window s sn \<longleftrightarrow> rx_mod_base_am s sn < ram_window_size s"

definition valid_ack_sn_rx :: "rlc_rx_am_entity \<Rightarrow> u32 \<Rightarrow> bool" where
  "valid_ack_sn_rx s sn \<longleftrightarrow> 0 < rx_mod_base_am s sn \<and> rx_mod_base_am s sn \<le> ram_window_size s"

text \<open>Whether the window holds the complete SDU with an SN.\<close>

definition received_am :: "rlc_rx_am_entity \<Rightarrow> u32 \<Rightarrow> bool" where
  "received_am s sn \<longleftrightarrow>
     (case cm_lookup (ram_window s) sn of None \<Rightarrow> False | Some info \<Rightarrow> am_fully_received info)"

definition loop_bound_am :: "rlc_rx_am_entity \<Rightarrow> nat" where
  "loop_bound_am s = Suc (unat (ram_mod s))"

section \<open>The status report\<close>

text \<open>The missing bytes between the segments of one SDU, then the end of the last segment and whether it is the end.\<close>

fun nack_segments ::
  "u32 \<Rightarrow> rlc_rx_sdu_segment list \<Rightarrow> nat \<Rightarrow> bool \<Rightarrow> rlc_am_status_pdu \<Rightarrow> (nat \<times> bool \<times> rlc_am_status_pdu) res" where
  "nack_segments sn [] last_so have_last status = Inr (last_so, have_last, status)"
| "nack_segments sn (segm # segms) last_so have_last status =
     bind_res
       (if unat (seg_so segm) \<noteq> last_so then
          (let nack = empty_nack\<lparr>nack_sn := sn, nack_has_so := True, so_start := of_nat last_so, so_end := seg_so segm - 1\<rparr>;
               status = push_nack status nack
           in bind_res (srsran_assert (so_start nack \<le> so_end nack) ''Invalid segment offsets in nack'')
                (\<lambda>_. Inr status))
        else Inr status)
       (\<lambda>status. nack_segments sn segms (seg_end segm) (have_last \<or> seg_si segm = Last_Segment) status)"

definition nack_sdu :: "u32 \<Rightarrow> rlc_rx_am_sdu_info option \<Rightarrow> rlc_am_status_pdu \<Rightarrow> rlc_am_status_pdu res" where
  "nack_sdu sn sdu status =
     (case sdu of
        None \<Rightarrow> Inr (push_nack status (empty_nack\<lparr>nack_sn := sn, nack_has_so := False\<rparr>))
      | Some info \<Rightarrow>
          if am_fully_received info then Inr status
          else
            (case sdu_data info of
               Sdu_Slice _ \<Rightarrow> Inl (Assertion_Failure ''Invalid sdu_data variant of incomplete SDU in rx_window'')
             | Segment_Set segms \<Rightarrow>
                 bind_res (nack_segments sn segms 0 False status)
                   (\<lambda>(last_so, have_last, status).
                      if \<not> have_last then
                        (let nack = empty_nack\<lparr>nack_sn := sn, nack_has_so := True, so_start := of_nat last_so,
                               so_end := so_end_of_sdu\<rparr>
                         in bind_res (srsran_assert (so_start nack \<le> so_end nack) ''Invalid segment offsets in nack'')
                              (\<lambda>_. Inr (push_nack status nack)))
                      else Inr status)))"

fun nack_loop :: "nat \<Rightarrow> u32 \<Rightarrow> u32 \<Rightarrow> rlc_rx_am_entity \<Rightarrow> rlc_am_status_pdu \<Rightarrow> rlc_am_status_pdu res" where
  "nack_loop 0 i stop_sn s status = Inl Loop_Bound_Exceeded"
| "nack_loop (Suc fuel) i stop_sn s status =
     (if rx_mod_base_am s i < rx_mod_base_am s stop_sn then
        bind_res (nack_sdu i (cm_lookup (ram_window s) i) status)
          (\<lambda>status. nack_loop fuel ((i + 1) mod ram_mod s) stop_sn s status)
      else Inr status)"

definition store_status_report :: "rlc_rx_am_entity \<Rightarrow> rlc_rx_am_entity" where
  "store_status_report s =
     s\<lparr>status_owned_by_writer := status_for_exchange s, status_for_exchange := status_owned_by_writer s,
       status_report_size := packed_size (status_owned_by_writer s)\<rparr>"

definition status_stop_sn :: "rlc_rx_am_entity \<Rightarrow> u32" where
  "status_stop_sn s =
     (let limit = (rx_next s + max_nof_sn_per_status_report s) mod ram_mod s in
      if rx_mod_base_am s (rx_highest_status s) > rx_mod_base_am s limit then limit else rx_highest_status s)"

definition refresh_status_report :: "rlc_rx_am_entity \<Rightarrow> rlc_rx_am_entity res" where
  "refresh_status_report s =
     bind_res (nack_loop (loop_bound_am s) (rx_next s) (status_stop_sn s) s (reset_status (status_owned_by_writer s)))
       (\<lambda>status. Inr (store_status_report (s\<lparr>status_owned_by_writer := status\<lparr>ack_sn := status_stop_sn s\<rparr>\<rparr>)))"

definition status_report_required :: "rlc_rx_am_entity \<Rightarrow> bool" where
  "status_report_required s \<longleftrightarrow> do_status s \<and> \<not> status_prohibit_timer_is_running s"

definition get_status_pdu_length :: "rlc_rx_am_entity \<Rightarrow> nat" where
  "get_status_pdu_length s = status_report_size s"

text \<open>
  Called by the transmitting side: the report in the exchange buffer. The flag says that a task was
  deferred that runs t-StatusProhibit, which is \<open>run_status_prohibit_timer\<close>.
\<close>

definition get_status_pdu :: "rlc_rx_am_entity \<Rightarrow> rlc_am_status_pdu \<times> bool \<times> rlc_rx_am_entity" where
  "get_status_pdu s =
     (let s = s\<lparr>do_status := False\<rparr>;
          prohibit = rxam_t_status_prohibit (ram_cfg s) > 0;
          s = (if prohibit then s\<lparr>status_prohibit_timer_is_running := True\<rparr> else s);
          s = s\<lparr>status_owned_by_reader := status_for_exchange s, status_for_exchange := status_owned_by_reader s\<rparr>
      in (status_owned_by_reader s, prohibit, s))"

definition run_status_prohibit_timer :: "rlc_rx_am_entity \<Rightarrow> rlc_rx_am_entity res" where
  "run_status_prohibit_timer s =
     bind_res (timer_run (status_prohibit_timer s)) (\<lambda>t. Inr (s\<lparr>status_prohibit_timer := t\<rparr>))"

definition notify_status_report_changed :: "rlc_rx_am_entity \<Rightarrow> rlc_rx_action list" where
  "notify_status_report_changed s = (if status_report_required s then [On_Status_Report_Changed] else [])"

definition on_expired_status_prohibit_timer :: "rlc_rx_am_entity \<Rightarrow> rlc_rx_am_entity \<times> rlc_rx_action list" where
  "on_expired_status_prohibit_timer s =
     (let s = s\<lparr>status_prohibit_timer_is_running := False\<rparr> in (s, notify_status_report_changed s))"

section \<open>Data PDUs\<close>

definition am_fresh :: "nat \<Rightarrow> rlc_rx_am_sdu_info" where
  "am_fresh now = \<lparr>am_fully_received = False, am_has_gap = False, sdu_data = Sdu_Slice [], am_time_of_arrival = now\<rparr>"

text \<open>Update of the SDU with an SN, which is added to the window if it is not there yet.\<close>

definition update_sdu_am ::
  "nat \<Rightarrow> u32 \<Rightarrow> (rlc_rx_am_sdu_info \<Rightarrow> rlc_rx_am_sdu_info) \<Rightarrow> rlc_rx_am_entity \<Rightarrow> rlc_rx_am_entity res" where
  "update_sdu_am now sn upd s =
     (case cm_lookup (ram_window s) sn of
        Some info \<Rightarrow> Inr (s\<lparr>ram_window := assign_cm (ram_window s) sn (upd info)\<rparr>)
      | None \<Rightarrow> bind_res (add_sn (ram_window s) sn (upd (am_fresh now))) (\<lambda>w. Inr (s\<lparr>ram_window := w\<rparr>)))"

definition handle_full_data_sdu_am ::
  "nat \<Rightarrow> rlc_am_pdu_header \<Rightarrow> byte_buffer \<Rightarrow> rlc_rx_am_entity \<Rightarrow> (bool \<times> rlc_rx_am_entity) res" where
  "handle_full_data_sdu_am now header payload s =
     (if am_si header \<noteq> Full_Sdu then Inr (False, s)
      else
        bind_res (update_sdu_am now (am_sn header)
            (\<lambda>info. info\<lparr>sdu_data := Sdu_Slice payload, am_fully_received := True, am_has_gap := False\<rparr>) s)
          (\<lambda>s. Inr (True, s)))"

definition segment_set :: "rlc_rx_am_sdu_info \<Rightarrow> rlc_rx_sdu_segment list" where
  "segment_set info = (case sdu_data info of Sdu_Slice _ \<Rightarrow> [] | Segment_Set segms \<Rightarrow> segms)"

definition store_segment_am :: "rlc_rx_sdu_segment \<Rightarrow> rlc_rx_am_sdu_info \<Rightarrow> bool \<times> rlc_rx_am_sdu_info" where
  "store_segment_am segment info =
     (let (stored, segms) = store_segment (segment_set info) segment
      in (stored, info\<lparr>sdu_data := Segment_Set segms\<rparr>))"

definition update_segment_inventory_am :: "rlc_rx_am_sdu_info \<Rightarrow> rlc_rx_am_sdu_info res" where
  "update_segment_inventory_am info =
     (case sdu_data info of
        Sdu_Slice _ \<Rightarrow> Inl (Assertion_Failure ''Invalid sdu_data variant for update of segment inventory'')
      | Segment_Set segms \<Rightarrow>
          (let (full, gap) = update_segment_inventory segms
           in Inr (info\<lparr>am_fully_received := full, am_has_gap := gap\<rparr>)))"

definition handle_segment_data_sdu_am ::
  "nat \<Rightarrow> rlc_am_pdu_header \<Rightarrow> byte_buffer \<Rightarrow> rlc_rx_am_entity \<Rightarrow> (bool \<times> rlc_rx_am_entity) res" where
  "handle_segment_data_sdu_am now header payload s =
     (if am_si header = Full_Sdu then Inr (False, s)
      else
        (let old = (case cm_lookup (ram_window s) (am_sn header) of None \<Rightarrow> am_fresh now | Some info \<Rightarrow> info);
             segment = \<lparr>seg_si = am_si header, seg_so = am_so header, seg_payload = payload\<rparr>;
             (stored, info) = store_segment_am segment old
         in bind_res (update_segment_inventory_am info)
              (\<lambda>info. bind_res (update_sdu_am now (am_sn header) (\<lambda>_. info) s) (\<lambda>s. Inr (stored, s)))))"

definition reassemble_sdu_am :: "bool \<Rightarrow> rlc_rx_am_sdu_info \<Rightarrow> byte_buffer option" where
  "reassemble_sdu_am alloc sdu_info =
     (if \<not> am_fully_received sdu_info then None
      else if \<not> alloc then None
      else case sdu_data sdu_info of
             Sdu_Slice payload \<Rightarrow> Some payload
           | Segment_Set segms \<Rightarrow> Some (reassemble_segments segms))"

text \<open>From an SN on, the first one below RX\_Next\_Highest that is not fully received, or RX\_Next\_Highest.\<close>

fun first_missing_am :: "nat \<Rightarrow> u32 \<Rightarrow> rlc_rx_am_entity \<Rightarrow> u32 res" where
  "first_missing_am 0 sn_upd s = Inl Loop_Bound_Exceeded"
| "first_missing_am (Suc fuel) sn_upd s =
     (if rx_mod_base_am s sn_upd < rx_mod_base_am s (ram_next_highest s) then
        (if \<not> received_am s sn_upd then Inr sn_upd
         else first_missing_am fuel ((sn_upd + 1) mod ram_mod s) s)
      else Inr sn_upd)"

text \<open>The same, removing the SDUs that it passes from the window.\<close>

fun advance_am :: "nat \<Rightarrow> u32 \<Rightarrow> rlc_rx_am_entity \<Rightarrow> (u32 \<times> rlc_rx_am_entity) res" where
  "advance_am 0 sn_upd s = Inl Loop_Bound_Exceeded"
| "advance_am (Suc fuel) sn_upd s =
     (if rx_mod_base_am s sn_upd < rx_mod_base_am s (ram_next_highest s) then
        (if \<not> received_am s sn_upd then Inr (sn_upd, s)
         else bind_res (remove_sn (ram_window s) sn_upd)
                (\<lambda>w. advance_am fuel ((sn_upd + 1) mod ram_mod s) (s\<lparr>ram_window := w\<rparr>)))
      else Inr (sn_upd, s))"

text \<open>The actions for an SDU of which all bytes are received.\<close>

definition complete_sdu_am ::
  "bool \<Rightarrow> u32 \<Rightarrow> rlc_rx_am_sdu_info \<Rightarrow> rlc_rx_am_entity \<Rightarrow> (rlc_rx_am_entity \<times> rlc_rx_action list) res" where
  "complete_sdu_am alloc sn sdu_info s =
     (let as = (case reassemble_sdu_am alloc sdu_info of
                  None \<Rightarrow> [Metrics_Add_Lost_Pdus 1]
                | Some sdu \<Rightarrow> [Metrics_Add_Sdus 1 (length sdu), On_New_Sdu sdu]);
          s = s\<lparr>ram_window := assign_cm (ram_window s) sn (sdu_info\<lparr>sdu_data := Sdu_Slice []\<rparr>)\<rparr>
      in bind_res
           (if rx_mod_base_am s sn = rx_mod_base_am s (rx_highest_status s) then
              bind_res (first_missing_am (loop_bound_am s) ((rx_highest_status s + 1) mod ram_mod s) s)
                (\<lambda>sn_upd. Inr (s\<lparr>rx_highest_status := sn_upd\<rparr>))
            else Inr s)
           (\<lambda>s. if rx_mod_base_am s sn = rx_mod_base_am s (rx_next s) then
                  bind_res (advance_am (loop_bound_am s) (rx_next s mod ram_mod s) s)
                    (\<lambda>(sn_upd, s). Inr (s\<lparr>rx_next := sn_upd\<rparr>, as))
                else Inr (s, as)))"

text \<open>The actions when a PDU is placed in the reception buffer, up to the update of t-Reassembly.\<close>

definition place_am ::
  "bool \<Rightarrow> u32 \<Rightarrow> rlc_rx_am_entity \<Rightarrow> (rlc_rx_am_entity \<times> rlc_rx_action list) res" where
  "place_am alloc sn s =
     (let s = (if rx_mod_base_am s sn \<ge> rx_mod_base_am s (ram_next_highest s)
               then s\<lparr>ram_next_highest := (sn + 1) mod ram_mod s\<rparr> else s)
      in case cm_lookup (ram_window s) sn of
           None \<Rightarrow> Inr (s, [])
         | Some sdu_info \<Rightarrow>
             if am_fully_received sdu_info then complete_sdu_am alloc sn sdu_info s else Inr (s, []))"

text \<open>Stopping and starting t-Reassembly; the test of the gap fails if RX\_Next is not in the window.\<close>

definition stop_timer_am :: "rlc_rx_am_entity \<Rightarrow> rlc_rx_am_entity res" where
  "stop_timer_am s =
     (if is_running (ram_reassembly_timer s) then
        bind_res
          (if rx_mod_base_am s (rx_next_status_trigger s) = rx_mod_base_am s (rx_next s + 1) then
             bind_res (at_cm (ram_window s) (rx_next s)) (\<lambda>info. Inr (\<not> am_has_gap info))
           else Inr False)
          (\<lambda>no_gap.
             (let stop = (rx_next_status_trigger s = rx_next s \<or> no_gap \<or>
                          \<not> inside_rx_window s (rx_next_status_trigger s))
              in if stop then Inr (s\<lparr>ram_reassembly_timer := timer_stop (ram_reassembly_timer s)\<rparr>) else Inr s))
      else Inr s)"

text \<open>\<open>sn\<close> is RX\_Next when a PDU was received and RX\_Highest\_Status when t-Reassembly has expired.\<close>

definition restart_timer_am :: "u32 \<Rightarrow> rlc_rx_am_entity \<Rightarrow> rlc_rx_am_entity res" where
  "restart_timer_am sn s =
     (let has_gap = (case cm_lookup (ram_window s) sn of None \<Rightarrow> False | Some info \<Rightarrow> am_has_gap info);
          restart = (rx_mod_base_am s (ram_next_highest s) > rx_mod_base_am s (sn + 1) \<or>
            (rx_mod_base_am s (ram_next_highest s) = rx_mod_base_am s (sn + 1) \<and> has_gap))
      in if restart then
           bind_res (timer_run (ram_reassembly_timer s))
             (\<lambda>t. Inr (s\<lparr>ram_reassembly_timer := t, rx_next_status_trigger := ram_next_highest s\<rparr>))
         else Inr s)"

definition update_timer_am :: "rlc_rx_am_entity \<Rightarrow> rlc_rx_am_entity res" where
  "update_timer_am s =
     bind_res (stop_timer_am s)
       (\<lambda>s. if \<not> is_running (ram_reassembly_timer s) then restart_timer_am (rx_next s) s else Inr s)"

text \<open>
  The body of \<open>handle_data_pdu\<close>, with the flags \<open>status_changed\<close> and \<open>status_requested\<close> at its exit.
\<close>

definition process_data_pdu ::
  "bool \<Rightarrow> nat \<Rightarrow> byte_buffer \<Rightarrow> rlc_rx_am_entity \<Rightarrow> (bool \<times> bool \<times> rlc_rx_am_entity \<times> rlc_rx_action list) res" where
  "process_data_pdu alloc now buf s =
     (case rlc_am_read_data_pdu_header buf (rxam_sn_field_length (ram_cfg s)) empty_am_header of
        None \<Rightarrow> Inr (False, False, s, [Metrics_Add_Malformed_Pdus 1])
      | Some header \<Rightarrow>
          (let header_len = am_header_packed_size header; sn = am_sn header in
           if length buf \<le> header_len then Inr (False, False, s, [])
           else
             (let payload = drop header_len buf; requested = (am_p header \<noteq> 0) in
              if \<not> inside_rx_window s sn then Inr (False, requested, s, [])
              else if received_am s sn then Inr (False, requested, s, [])
              else
                bind_res
                  (if am_si header = Full_Sdu then handle_full_data_sdu_am now header payload s
                   else handle_segment_data_sdu_am now header payload s)
                  (\<lambda>(changed, s). bind_res (place_am alloc sn s)
                     (\<lambda>(s, as). bind_res (update_timer_am s)
                        (\<lambda>s. Inr (changed, requested, s, as)))))))"

definition handle_data_pdu ::
  "bool \<Rightarrow> nat \<Rightarrow> byte_buffer \<Rightarrow> rlc_rx_am_entity \<Rightarrow> (rlc_rx_am_entity \<times> rlc_rx_action list) res" where
  "handle_data_pdu alloc now buf s =
     bind_res (process_data_pdu alloc now buf s) (\<lambda>(changed, requested, s, as).
       bind_res (if changed \<or> requested then refresh_status_report s else Inr s) (\<lambda>s.
         (let s = (if requested then s\<lparr>do_status := True\<rparr> else s)
          in Inr (s, as @ (if changed \<or> requested then notify_status_report_changed s else [])))))"

definition handle_control_pdu :: "byte_buffer \<Rightarrow> rlc_rx_am_entity \<Rightarrow> rlc_am_status_pdu option" where
  "handle_control_pdu buf s = unpack_status buf (new_status_pdu (rxam_sn_field_length (ram_cfg s)))"

definition handle_pdu_am ::
  "bool \<Rightarrow> nat \<Rightarrow> byte_buffer \<Rightarrow> rlc_rx_am_entity \<Rightarrow>
     (rlc_rx_am_entity \<times> rlc_rx_action list \<times> rlc_am_status_pdu option) res" where
  "handle_pdu_am alloc now buf s =
     (let as = [Metrics_Add_Pdus 1 (length buf)] in
      if buf = [] then Inr (s, as, None)
      else if is_control_pdu buf then
        Inr (s, as @ [Metrics_Add_Ctrl_Pdus 1 (length buf)], handle_control_pdu buf s)
      else bind_res (handle_data_pdu alloc now buf s) (\<lambda>(s, as'). Inr (s, as @ as', None)))"

section \<open>Expiry of t-Reassembly\<close>

definition on_expired_reassembly_timer_am ::
  "rlc_rx_am_entity \<Rightarrow> (rlc_rx_am_entity \<times> rlc_rx_action list) res" where
  "on_expired_reassembly_timer_am s =
     (if is_running (ram_reassembly_timer s) then Inr (s, [])
      else if \<not> valid_ack_sn_rx s (rx_next_status_trigger s) then Inr (s, [])
      else
        bind_res (first_missing_am (loop_bound_am s) (rx_next_status_trigger s) s) (\<lambda>sn_upd.
        bind_res (srsran_assert (valid_ack_sn_rx s sn_upd) ''Error: rx_highest_status outside RX window.'') (\<lambda>_.
        bind_res (restart_timer_am sn_upd (s\<lparr>rx_highest_status := sn_upd\<rparr>)) (\<lambda>s.
        bind_res (refresh_status_report s) (\<lambda>s.
          (let s = s\<lparr>do_status := True\<rparr> in Inr (s, notify_status_report_changed s)))))))"

section \<open>Histories\<close>

datatype rx_am_event = Rx_Pdu byte_buffer | Rx_Reassembly_Expiry

text \<open>A PDU at time 0 with buffers available; an expiry of t-Reassembly if it is running.\<close>

fun rx_am_step :: "rx_am_event \<Rightarrow> rlc_rx_am_entity \<Rightarrow> (rlc_rx_am_entity \<times> rlc_rx_action list) res" where
  "rx_am_step (Rx_Pdu buf) s = bind_res (handle_pdu_am True 0 buf s) (\<lambda>(s, as, _). Inr (s, as))"
| "rx_am_step Rx_Reassembly_Expiry s =
     (if is_running (ram_reassembly_timer s)
      then on_expired_reassembly_timer_am (s\<lparr>ram_reassembly_timer := timer_stop (ram_reassembly_timer s)\<rparr>)
      else Inr (s, []))"

fun rx_am_events :: "rx_am_event list \<Rightarrow> rlc_rx_am_entity \<Rightarrow> (rlc_rx_am_entity \<times> rlc_rx_action list) res" where
  "rx_am_events [] s = Inr (s, [])"
| "rx_am_events (e # es) s =
     bind_res (rx_am_step e s) (\<lambda>(s, as). bind_res (rx_am_events es s) (\<lambda>(s, as'). Inr (s, as @ as')))"

definition sample_rx_am_cfg :: "int \<Rightarrow> rlc_rx_am_config" where
  "sample_rx_am_cfg t = \<lparr>rxam_sn_field_length = Am_Size12bits, rxam_t_reassembly = t, rxam_t_status_prohibit = 10,
     rxam_max_sn_per_status = None\<rparr>"

text \<open>Evaluation by rewriting; the bounds of the loops are numerals.\<close>

lemma loop_am_numeral:
  "first_missing_am (numeral n) sn_upd s =
     (if rx_mod_base_am s sn_upd < rx_mod_base_am s (ram_next_highest s) then
        (if \<not> received_am s sn_upd then Inr sn_upd
         else first_missing_am (pred_numeral n) ((sn_upd + 1) mod ram_mod s) s)
      else Inr sn_upd)"
  "advance_am (numeral n) sn_upd s =
     (if rx_mod_base_am s sn_upd < rx_mod_base_am s (ram_next_highest s) then
        (if \<not> received_am s sn_upd then Inr (sn_upd, s)
         else bind_res (remove_sn (ram_window s) sn_upd)
                (\<lambda>w. advance_am (pred_numeral n) ((sn_upd + 1) mod ram_mod s) (s\<lparr>ram_window := w\<rparr>)))
      else Inr (sn_upd, s))"
  "nack_loop (numeral n) i stop_sn s status =
     (if rx_mod_base_am s i < rx_mod_base_am s stop_sn then
        bind_res (nack_sdu i (cm_lookup (ram_window s) i) status)
          (\<lambda>status. nack_loop (pred_numeral n) ((i + 1) mod ram_mod s) stop_sn s status)
      else Inr status)"
  by (simp_all add: numeral_eq_Suc)

lemmas rx_am_eval = loop_am_numeral new_rx_am_def max_sn_of_config_def sample_rx_am_cfg_def Let_def cardinality_def window_size_def
  handle_pdu_am_def handle_data_pdu_def process_data_pdu_def is_control_pdu_def rlc_am_read_data_pdu_header_def
  rlc_am_read_so_def si_of_number_def dc_of_number_def empty_am_header_def am_header_packed_size_def
  rlc_am_pdu_header_max_size_def rlc_am_pdu_header_so_size_def inside_rx_window_def rx_mod_base_am_def received_am_def
  handle_segment_data_sdu_am_def store_segment_am_def segment_set_def update_segment_inventory_am_def
  store_segment_def seg_end_def update_segment_inventory_def update_sdu_am_def am_fresh_def cm_lookup_def
  get_circular_idx_def new_circular_map_def add_sn_def has_sn_def contains_def overwrite_def insert_cm_def
  assign_cm_def at_cm_def place_am_def update_timer_am_def stop_timer_am_def restart_timer_am_def srsran_assert_def timer_run_def
  new_timer_def refresh_status_report_def loop_bound_am_def status_stop_sn_def store_status_report_def
  notify_status_report_changed_def status_report_required_def reset_status_def new_status_pdu_def

text \<open>
  A peer can make the receiver fail an assertion. Three middle segments of one SDU, two of them with an
  offset near 65535 and a payload that extends beyond it: trimming the third one stores a 16-bit offset that
  has wrapped around, the segments overlap, and the status report that is built when t-Reassembly expires
  finds a start offset above its end offset.
\<close>

theorem rx_am_segment_wrap_faults:
  "fault_of (bind_res (new_rx_am (sample_rx_am_cfg 50))
     (rx_am_events [Rx_Pdu ([0xB0, 0, 0, 1] @ replicate 5 7), Rx_Pdu ([0xB0, 0, 0xFF, 0xFF] @ replicate 10 7),
        Rx_Pdu ([0xB0, 0, 0xFF, 0xFA] @ replicate 8 7), Rx_Reassembly_Expiry])) =
   Some (Assertion_Failure ''Invalid segment offsets in nack'')"
  by (simp add: rx_am_eval on_expired_reassembly_timer_am_def timer_stop_def valid_ack_sn_rx_def nack_sdu_def
     empty_nack_def fault_of_def store_loop.simps)

text \<open>
  The transmitting side can be handed a report that is older than the one it sent before. The
  handler of a data PDU stores the new report and sets \<open>do_status\<close> afterwards. If the other thread fetches the report
  in between, it gets the new one and clears the flag, the flag is set again, and the next fetch exchanges the
  buffers back: here a report whose ACK\_SN was never set, after one that acknowledged two SDUs. t-StatusProhibit
  is not configured.
\<close>

theorem rx_am_stale_status:
  "case bind_res (new_rx_am (sample_rx_am_cfg 50\<lparr>rxam_t_status_prohibit := 0\<rparr>))
     (\<lambda>s. bind_res (handle_data_pdu True 0 [0xC0, 0, 7] s)
       (\<lambda>(s, as). bind_res (process_data_pdu True 0 [0xC0, 1, 8] s)
         (\<lambda>(changed, requested, s, as). bind_res (refresh_status_report s) (\<lambda>s. Inr (requested, s))))) of
     Inl e \<Rightarrow> False
   | Inr (requested, s) \<Rightarrow>
       (let required1 = status_report_required s; (p1, _, s) = get_status_pdu s;
            s = (if requested then s\<lparr>do_status := True\<rparr> else s);
            required2 = status_report_required s; (p2, _, s) = get_status_pdu s
        in required1 \<and> ack_sn p1 = 2 \<and> required2 \<and> ack_sn p2 = INVALID_RLC_SN)"
  by (simp add: rx_am_eval handle_full_data_sdu_am_def complete_sdu_am_def reassemble_sdu_am_def remove_sn_def
      erase_def get_status_pdu_def)

end
