(* ===== verification/Rlc_Rx_Am_Inv.thy ===== *)
theory Rlc_Rx_Am_Inv
  imports Rlc_Rx_Am
begin

text \<open>
  The invariant of the AM receiver and that every handler keeps it. Sequence numbers are compared by their
  distance from RX\_Next (\<open>am_pos\<close>), which is what \<open>rx_mod_base\<close> computes.
\<close>

section \<open>Positions in the receive window\<close>

definition am_z :: "rlc_rx_am_entity \<Rightarrow> rlc_am_sn_size" where
  "am_z s = rxam_sn_field_length (ram_cfg s)"

definition am_pos :: "rlc_rx_am_entity \<Rightarrow> u32 \<Rightarrow> nat" where
  "am_pos s x = am_ring.dist (am_z s) (rx_next s) x"

definition am_w :: "rlc_rx_am_entity \<Rightarrow> nat" where
  "am_w s = unat (window_size (to_number_am_sn (am_z s)))"

definition am_status_ok :: "rlc_am_sn_size \<Rightarrow> rlc_am_status_pdu \<Rightarrow> bool" where
  "am_status_ok z p \<longleftrightarrow> st_sn_size p = z \<and> st_mod_nr p = cardinality (to_number_am_sn z)"

definition am_wf :: "rlc_rx_am_entity \<Rightarrow> bool" where
  "am_wf s \<longleftrightarrow>
     (let k = to_number_am_sn (am_z s) in
      ram_mod s = cardinality k \<and> ram_window_size s = window_size k \<and>
      cm_wf (ram_window s) \<and> cm_max_size (ram_window s) = am_w s \<and>
      rx_next s < ram_mod s \<and> rx_next_status_trigger s < ram_mod s \<and> rx_highest_status s < ram_mod s \<and>
      ram_next_highest s < ram_mod s \<and>
      0 < max_nof_sn_per_status_report s \<and> max_nof_sn_per_status_report s \<le> window_size k \<and>
      am_status_ok (am_z s) (status_owned_by_writer s) \<and> am_status_ok (am_z s) (status_for_exchange s) \<and>
      am_status_ok (am_z s) (status_owned_by_reader s))"

lemma am_wfD:
  assumes "am_wf s"
  shows "ram_mod s = cardinality (to_number_am_sn (am_z s))" "unat (ram_window_size s) = am_w s"
    "cm_wf (ram_window s)" "cm_max_size (ram_window s) = am_w s" "rx_next s < ram_mod s"
    "rx_next_status_trigger s < ram_mod s" "rx_highest_status s < ram_mod s" "ram_next_highest s < ram_mod s"
  using assms by (auto simp: am_wf_def Let_def am_w_def)

lemma am_w_cases: "am_w s = 2048 \<or> am_w s = 131072"
  by (auto simp: am_w_def window_size_am split: rlc_am_sn_size.splits)

lemma am_w_pos [simp]: "0 < am_w s" "Suc 0 < am_w s"
  using am_w_cases [of s] by auto

lemma am_w_power:
  obtains j where "am_w s = 2 ^ j" "j \<le> to_number_am_sn (am_z s)"
proof (cases "am_z s")
  case Am_Size12bits
  then show thesis using that [of 11] by (simp add: am_w_def window_size_def cardinality_def push_bit_eq_mult)
next
  case Am_Size18bits
  then show thesis using that [of 17] by (simp add: am_w_def window_size_def cardinality_def push_bit_eq_mult)
qed

lemma am_ring_N: "am_ring.N (am_z s) = 2 * am_w s"
proof -
  have "am_ring.N (am_z s) = unat (cardinality (to_number_am_sn (am_z s)))" by (simp add: am_ring.unat_m)
  also have "\<dots> = 2 * am_w s" by (simp add: am_w_def cardinality_am window_size_am split: rlc_am_sn_size.split)
  finally show ?thesis .
qed

lemma unat_am_mod: "am_wf s \<Longrightarrow> unat (ram_mod s) = 2 * am_w s"
  by (simp add: am_wfD(1) am_ring.unat_m am_ring_N)

lemma unat_rx_mod_base: "am_wf s \<Longrightarrow> unat (rx_mod_base_am s x) = am_pos s x"
  by (simp add: rx_mod_base_am_def am_pos_def am_ring.dist_def sn_dist_def am_wfD(1))

lemma base_less_iff: "am_wf s \<Longrightarrow> rx_mod_base_am s x < rx_mod_base_am s y \<longleftrightarrow> am_pos s x < am_pos s y"
  by (simp add: word_less_nat_alt unat_rx_mod_base)

lemma base_le_iff: "am_wf s \<Longrightarrow> rx_mod_base_am s x \<le> rx_mod_base_am s y \<longleftrightarrow> am_pos s x \<le> am_pos s y"
  by (simp add: word_le_nat_alt unat_rx_mod_base)

lemma base_eq_iff: "am_wf s \<Longrightarrow> rx_mod_base_am s x = rx_mod_base_am s y \<longleftrightarrow> am_pos s x = am_pos s y"
  by (simp add: word_unat_eq_iff unat_rx_mod_base)

lemma inside_iff: "am_wf s \<Longrightarrow> inside_rx_window s x \<longleftrightarrow> am_pos s x < am_w s"
  by (simp add: inside_rx_window_def word_less_nat_alt unat_rx_mod_base am_wfD(2))

lemma valid_ack_iff: "am_wf s \<Longrightarrow> valid_ack_sn_rx s x \<longleftrightarrow> 0 < am_pos s x \<and> am_pos s x \<le> am_w s"
  by (simp add: valid_ack_sn_rx_def word_less_nat_alt word_le_nat_alt unat_rx_mod_base am_wfD(2))

lemmas am_base = base_less_iff base_le_iff base_eq_iff inside_iff valid_ack_iff

lemma am_pos_less: "am_pos s x < 2 * am_w s"
  using am_ring.dist_less [of "am_z s"] by (simp add: am_pos_def flip: am_ring_N)

lemma am_pos_next [simp]: "am_pos s (rx_next s) = 0"
  by (simp add: am_pos_def)

lemma am_pos_inj: "am_wf s \<Longrightarrow> x < ram_mod s \<Longrightarrow> y < ram_mod s \<Longrightarrow> am_pos s x = am_pos s y \<Longrightarrow> x = y"
  by (simp add: am_pos_def am_wfD(1)) (rule am_ring.dist_inj)

lemma am_mod_less: "am_wf s \<Longrightarrow> x mod ram_mod s < ram_mod s"
  by (simp add: am_wfD(1) am_ring.mod_m_less)

lemma am_mod_ident: "am_wf s \<Longrightarrow> x < ram_mod s \<Longrightarrow> x mod ram_mod s = x"
  by (simp add: am_wfD(1) am_ring.mod_m_ident)

lemma am_pos_mod: "am_wf s \<Longrightarrow> am_pos s (x mod ram_mod s) = am_pos s x"
  by (simp add: am_pos_def am_wfD(1))

lemma am_pos_succ: "am_wf s \<Longrightarrow> Suc (am_pos s x) < 2 * am_w s \<Longrightarrow> am_pos s ((x + 1) mod ram_mod s) = Suc (am_pos s x)"
  using am_ring.dist_succ_less [of "am_z s" "rx_next s" x] by (simp add: am_pos_def am_wfD(1) am_ring_N)

lemma am_pos_next_succ: "am_wf s \<Longrightarrow> am_pos s (rx_next s + 1) = 1"
  using am_pos_succ [of s "rx_next s"] am_pos_mod [of s "rx_next s + 1"] am_w_pos(2) [of s] by simp

lemma am_pos_rebase:
  "am_pos (s\<lparr>rx_next := r\<rparr>) x =
     (if am_pos s r \<le> am_pos s x then am_pos s x - am_pos s r else am_pos s x + 2 * am_w s - am_pos s r)"
  using am_ring.dist_rebase_ge [of "am_z s" "rx_next s" r x] am_ring.dist_rebase_less [of "am_z s" "rx_next s" x r]
  by (simp add: am_pos_def am_z_def am_ring_N [unfolded am_z_def])

lemma am_frame [simp]:
  "am_z (s\<lparr>ram_window := w\<rparr>) = am_z s" "am_z (s\<lparr>rx_highest_status := x\<rparr>) = am_z s"
  "am_z (s\<lparr>ram_next_highest := x\<rparr>) = am_z s" "am_z (s\<lparr>rx_next_status_trigger := x\<rparr>) = am_z s"
  "am_z (s\<lparr>ram_reassembly_timer := t\<rparr>) = am_z s" "am_z (s\<lparr>rx_next := x\<rparr>) = am_z s"
  "am_w (s\<lparr>ram_window := w\<rparr>) = am_w s" "am_w (s\<lparr>rx_highest_status := x\<rparr>) = am_w s"
  "am_w (s\<lparr>ram_next_highest := x\<rparr>) = am_w s" "am_w (s\<lparr>rx_next_status_trigger := x\<rparr>) = am_w s"
  "am_w (s\<lparr>ram_reassembly_timer := t\<rparr>) = am_w s" "am_w (s\<lparr>rx_next := x\<rparr>) = am_w s"
  "am_pos (s\<lparr>ram_window := w\<rparr>) = am_pos s" "am_pos (s\<lparr>rx_highest_status := x\<rparr>) = am_pos s"
  "am_pos (s\<lparr>ram_next_highest := x\<rparr>) = am_pos s" "am_pos (s\<lparr>rx_next_status_trigger := x\<rparr>) = am_pos s"
  "am_pos (s\<lparr>ram_reassembly_timer := t\<rparr>) = am_pos s"
  by (simp_all add: am_z_def am_w_def am_pos_def fun_eq_iff)

lemma am_wf_window:
  "am_wf s \<Longrightarrow> cm_wf w \<Longrightarrow> cm_max_size w = cm_max_size (ram_window s) \<Longrightarrow> am_wf (s\<lparr>ram_window := w\<rparr>)"
  by (auto simp: am_wf_def Let_def)

lemma am_wf_upd:
  "am_wf s \<Longrightarrow> x < ram_mod s \<Longrightarrow> am_wf (s\<lparr>rx_next := x\<rparr>)"
  "am_wf s \<Longrightarrow> x < ram_mod s \<Longrightarrow> am_wf (s\<lparr>rx_next_status_trigger := x\<rparr>)"
  "am_wf s \<Longrightarrow> x < ram_mod s \<Longrightarrow> am_wf (s\<lparr>rx_highest_status := x\<rparr>)"
  "am_wf s \<Longrightarrow> x < ram_mod s \<Longrightarrow> am_wf (s\<lparr>ram_next_highest := x\<rparr>)"
  "am_wf (s\<lparr>ram_reassembly_timer := t\<rparr>) = am_wf s"
  by (auto simp: am_wf_def Let_def)

lemma received_iff: "received_am s x \<longleftrightarrow> (\<exists>info. cm_lookup (ram_window s) x = Some info \<and> am_fully_received info)"
  by (auto simp: received_am_def split: option.splits)

section \<open>The invariant\<close>

text \<open>An SDU in the window: complete, or a non-empty set of disjoint segments and a correct gap flag.\<close>

definition am_info_ok :: "rlc_rx_am_sdu_info \<Rightarrow> bool" where
  "am_info_ok info \<longleftrightarrow>
     (if am_fully_received info then \<not> am_has_gap info
      else (case sdu_data info of
              Sdu_Slice _ \<Rightarrow> False
            | Segment_Set segms \<Rightarrow> segms \<noteq> [] \<and> segs_ok segms \<and> (\<forall>g \<in> set segms. seg_end g \<le> 65535) \<and>
                update_segment_inventory segms = (False, am_has_gap info)))"

text \<open>The SDU just below \<open>x\<close> is in the window.\<close>

definition am_prev :: "rlc_rx_am_entity \<Rightarrow> u32 \<Rightarrow> bool" where
  "am_prev s x \<longleftrightarrow> (\<forall>y. y < ram_mod s \<longrightarrow> Suc (am_pos s y) = am_pos s x \<longrightarrow> cm_lookup (ram_window s) y \<noteq> None)"

definition am_vars :: "rlc_rx_am_entity \<Rightarrow> bool" where
  "am_vars s \<longleftrightarrow> am_pos s (rx_highest_status s) \<le> am_pos s (ram_next_highest s) \<and>
     am_pos s (ram_next_highest s) \<le> am_w s"

definition am_keys :: "rlc_rx_am_entity \<Rightarrow> bool" where
  "am_keys s \<longleftrightarrow> (\<forall>x info. cm_lookup (ram_window s) x = Some info \<longrightarrow>
     x < ram_mod s \<and> am_pos s x < am_pos s (ram_next_highest s) \<and> am_info_ok info)"

definition am_first :: "rlc_rx_am_entity \<Rightarrow> bool" where
  "am_first s \<longleftrightarrow> \<not> received_am s (rx_next s) \<and> \<not> received_am s (rx_highest_status s)"

definition am_timer :: "rlc_rx_am_entity \<Rightarrow> bool" where
  "am_timer s \<longleftrightarrow> (is_running (ram_reassembly_timer s) \<longrightarrow>
     0 < am_pos s (rx_next_status_trigger s) \<and>
     am_pos s (rx_next_status_trigger s) \<le> am_pos s (ram_next_highest s) \<and> am_prev s (rx_next_status_trigger s))"

definition am_core :: "rlc_rx_am_entity \<Rightarrow> bool" where
  "am_core s \<longleftrightarrow> am_wf s \<and> am_vars s \<and> am_keys s \<and> am_prev s (ram_next_highest s) \<and> am_first s \<and>
     timer_set (ram_reassembly_timer s)"

definition am_inv :: "rlc_rx_am_entity \<Rightarrow> bool" where
  "am_inv s \<longleftrightarrow> am_core s \<and> am_timer s"

text \<open>Between a move of RX\_Next and the check of the timer: the trigger may be passed.\<close>

definition am_mid :: "rlc_rx_am_entity \<Rightarrow> bool" where
  "am_mid s \<longleftrightarrow> am_core s \<and> (is_running (ram_reassembly_timer s) \<longrightarrow>
     am_pos s (rx_next_status_trigger s) = 0 \<or> am_w s < am_pos s (rx_next_status_trigger s) \<or>
     am_pos s (rx_next_status_trigger s) \<le> am_pos s (ram_next_highest s) \<and> am_prev s (rx_next_status_trigger s))"

lemma am_coreD:
  assumes "am_core s"
  shows "am_wf s" "am_vars s" "am_keys s" "am_prev s (ram_next_highest s)" "am_first s"
    "timer_set (ram_reassembly_timer s)"
  using assms by (simp_all add: am_core_def)

lemma am_inv_mid: "am_inv s \<Longrightarrow> am_mid s"
  by (auto simp: am_inv_def am_mid_def am_timer_def)

section \<open>Storing a PDU\<close>

lemma update_sdu_am_spec:
  assumes wf: "am_wf s" and keys: "\<And>x. cm_lookup (ram_window s) x \<noteq> None \<Longrightarrow> x < ram_mod s \<and> am_pos s x < am_w s"
    and sn: "sn < ram_mod s" "am_pos s sn < am_w s"
  obtains w where "update_sdu_am now sn upd s = Inr (s\<lparr>ram_window := w\<rparr>)" "cm_wf w"
    "cm_max_size w = cm_max_size (ram_window s)"
    "cm_lookup w = (cm_lookup (ram_window s))(sn \<mapsto>
       upd (case cm_lookup (ram_window s) sn of None \<Rightarrow> am_fresh now | Some info \<Rightarrow> info))"
proof (cases "cm_lookup (ram_window s) sn")
  case None
  obtain j where j: "am_w s = 2 ^ j" "j \<le> to_number_am_sn (am_z s)" by (rule am_w_power)
  have m: "ram_mod s = cardinality (to_number_am_sn (am_z s))" by (rule am_wfD(1) [OF wf])
  have sz: "cm_max_size (ram_window s) = 2 ^ j" using am_wfD(4) [OF wf] j(1) by simp
  have free: "slot_free (ram_window s) sn"
    by (rule am_ring.slot_free_window [OF am_wfD(3) [OF wf] sz j(2), of _ "rx_next s"])
      (use keys sn in \<open>simp_all add: am_pos_def j(1) m\<close>)
  let ?w = "overwrite (ram_window s) sn (upd (am_fresh now))"
  have add: "add_sn (ram_window s) sn (upd (am_fresh now)) = Inr ?w"
    by (rule add_sn_new [OF am_wfD(3) [OF wf] free None])
  have "cm_wf ?w \<and> cm_lookup ?w = (cm_lookup (ram_window s))(sn \<mapsto> upd (am_fresh now))"
    using win.add_new [OF am_wfD(3) [OF wf] free None, of "upd (am_fresh now)"] add by simp
  then show thesis
    by (intro that [of ?w]) (simp_all add: update_sdu_am_def None add)
next
  case (Some info)
  then have "cm_wf (assign_cm (ram_window s) sn (upd info)) \<and>
      cm_lookup (assign_cm (ram_window s) sn (upd info)) = (cm_lookup (ram_window s))(sn \<mapsto> upd info)"
    using win.put_old [OF am_wfD(3) [OF wf], of sn "upd info"] by simp
  then show thesis
    by (intro that [of "assign_cm (ram_window s) sn (upd info)"]) (simp_all add: update_sdu_am_def Some)
qed

text \<open>The bytes of a segment fit below the offset that marks the end of an SDU.\<close>

definition am_segment_fits :: "rlc_am_pdu_header \<Rightarrow> byte_buffer \<Rightarrow> bool" where
  "am_segment_fits header payload \<longleftrightarrow> am_si header \<noteq> Full_Sdu \<longrightarrow> unat (am_so header) + length payload \<le> 65535"

text \<open>What the SDU becomes by a PDU.\<close>

definition am_stored :: "rlc_am_pdu_header \<Rightarrow> byte_buffer \<Rightarrow> rlc_rx_am_sdu_info \<Rightarrow> rlc_rx_am_sdu_info" where
  "am_stored header payload old =
     (if am_si header = Full_Sdu then old\<lparr>sdu_data := Sdu_Slice payload, am_fully_received := True, am_has_gap := False\<rparr>
      else
        (let segms = snd (store_segment (segment_set old)
               \<lparr>seg_si = am_si header, seg_so = am_so header, seg_payload = payload\<rparr>);
             (full, gap) = update_segment_inventory segms
         in old\<lparr>sdu_data := Segment_Set segms, am_fully_received := full, am_has_gap := gap\<rparr>))"

definition am_old :: "nat \<Rightarrow> u32 \<Rightarrow> rlc_rx_am_entity \<Rightarrow> rlc_rx_am_sdu_info" where
  "am_old now sn s = (case cm_lookup (ram_window s) sn of None \<Rightarrow> am_fresh now | Some info \<Rightarrow> info)"

lemma inventory_no_gap: "inventory_loop n segms = (True, gap) \<Longrightarrow> \<not> gap"
  by (induction segms arbitrary: n) (auto split: if_splits)

lemma am_stored_ok:
  assumes old: "segs_ok (segment_set old)" "\<forall>g \<in> set (segment_set old). seg_end g \<le> 65535"
    and pay: "payload \<noteq> []" "am_segment_fits header payload"
  shows "am_info_ok (am_stored header payload old)"
proof (cases "am_si header = Full_Sdu")
  case True
  then show ?thesis by (simp add: am_stored_def am_info_ok_def)
next
  case False
  define g where "g = \<lparr>seg_si = am_si header, seg_so = am_so header, seg_payload = payload\<rparr>"
  define segms where "segms = snd (store_segment (segment_set old) g)"
  obtain full gap where inv: "update_segment_inventory segms = (full, gap)" by fastforce
  have e: "seg_end g \<le> 65535" using pay False by (simp add: g_def seg_end_def am_segment_fits_def)
  have gok: "seg_ok g" using pay e by (simp add: seg_ok_def) (simp add: g_def)
  have ok: "segs_ok segms" and cov: "segs_cover segms = segs_cover (segment_set old) \<union> seg_cover g"
    using store_segment_ok [OF old(1) gok] by (simp_all add: segms_def)
  have "segs_cover segms \<subseteq> {..< 65535}"
    unfolding cov using old(2) e by (auto simp: segs_cover_def seg_cover_def)
  then have bound: "seg_end x \<le> 65535" if "x \<in> set segms" for x
  proof -
    have "seg_ok x" using ok that by (simp add: segs_ok_def)
    then have "unat (seg_so x) < seg_end x" by (rule seg_so_less_end)
    then have "seg_end x - 1 \<in> seg_cover x" by (simp add: seg_cover_def)
    then have "seg_end x - 1 \<in> segs_cover segms" using that by (auto simp: segs_cover_def)
    then show ?thesis using \<open>segs_cover segms \<subseteq> {..< 65535}\<close> \<open>unat (seg_so x) < seg_end x\<close> by fastforce
  qed
  have "unat (seg_so g) \<in> segs_cover segms" unfolding cov using seg_so_less_end [OF gok] by (simp add: seg_cover_def)
  then have ne: "segms \<noteq> []" by auto
  have st: "am_stored header payload old =
      old\<lparr>sdu_data := Segment_Set segms, am_fully_received := full, am_has_gap := gap\<rparr>"
    using False inv by (simp add: am_stored_def Let_def segms_def g_def)
  have "full \<Longrightarrow> \<not> gap"
    using inventory_no_gap [of 0 segms gap] inv ne by (simp add: update_segment_inventory_def)
  then show ?thesis using ok ne bound inv by (auto simp: st am_info_ok_def)
qed

lemma am_old_segments:
  assumes "am_keys s" "\<not> received_am s sn"
  shows "segs_ok (segment_set (am_old now sn s))" "\<forall>g \<in> set (segment_set (am_old now sn s)). seg_end g \<le> 65535"
proof -
  have "segs_ok (segment_set (am_old now sn s)) \<and> (\<forall>g \<in> set (segment_set (am_old now sn s)). seg_end g \<le> 65535)"
  proof (cases "cm_lookup (ram_window s) sn")
    case None
    then show ?thesis by (simp add: am_old_def am_fresh_def segment_set_def)
  next
    case (Some info)
    then have "am_info_ok info" "\<not> am_fully_received info" using assms by (auto simp: am_keys_def received_iff)
    then show ?thesis using Some by (auto simp: am_old_def am_info_ok_def segment_set_def split: rlc_rx_am_sdu_data.splits)
  qed
  then show "segs_ok (segment_set (am_old now sn s))"
    "\<forall>g \<in> set (segment_set (am_old now sn s)). seg_end g \<le> 65535" by auto
qed

lemma am_keys_window:
  "am_keys s \<Longrightarrow> am_vars s \<Longrightarrow> cm_lookup (ram_window s) x \<noteq> None \<Longrightarrow> x < ram_mod s \<and> am_pos s x < am_w s"
  by (fastforce simp: am_keys_def am_vars_def)

lemma store_pdu_am_spec:
  assumes wf: "am_wf s" "am_keys s" "am_vars s" and sn: "am_sn header < ram_mod s" "am_pos s (am_sn header) < am_w s"
  obtains changed w where
    "(if am_si header = Full_Sdu then handle_full_data_sdu_am now header payload s
      else handle_segment_data_sdu_am now header payload s) = Inr (changed, s\<lparr>ram_window := w\<rparr>)"
    "cm_wf w" "cm_max_size w = cm_max_size (ram_window s)"
    "cm_lookup w = (cm_lookup (ram_window s))(am_sn header \<mapsto> am_stored header payload (am_old now (am_sn header) s))"
proof (cases "am_si header = Full_Sdu")
  case True
  let ?upd = "\<lambda>info :: rlc_rx_am_sdu_info. info\<lparr>sdu_data := Sdu_Slice payload, am_fully_received := True, am_has_gap := False\<rparr>"
  obtain w where w: "update_sdu_am now (am_sn header) ?upd s = Inr (s\<lparr>ram_window := w\<rparr>)" "cm_wf w"
    "cm_max_size w = cm_max_size (ram_window s)"
    "cm_lookup w = (cm_lookup (ram_window s))(am_sn header \<mapsto> ?upd (am_old now (am_sn header) s))"
    by (rule update_sdu_am_spec [OF wf(1) am_keys_window [OF wf(2,3)] sn, of now ?upd]) (assumption, rule that, simp_all add: am_old_def)
  show thesis
    by (rule that [OF _ w(2,3), of True]) (simp_all add: True handle_full_data_sdu_am_def w(1,4) am_stored_def)
next
  case False
  define g where "g = \<lparr>seg_si = am_si header, seg_so = am_so header, seg_payload = payload\<rparr>"
  define old where "old = am_old now (am_sn header) s"
  obtain changed segms where st: "store_segment (segment_set old) g = (changed, segms)" by fastforce
  obtain full gap where inv: "update_segment_inventory segms = (full, gap)" by fastforce
  let ?info = "old\<lparr>sdu_data := Segment_Set segms, am_fully_received := full, am_has_gap := gap\<rparr>"
  obtain w where w: "update_sdu_am now (am_sn header) (\<lambda>_. ?info) s = Inr (s\<lparr>ram_window := w\<rparr>)" "cm_wf w"
    "cm_max_size w = cm_max_size (ram_window s)" "cm_lookup w = (cm_lookup (ram_window s))(am_sn header \<mapsto> ?info)"
    by (rule update_sdu_am_spec [OF wf(1) am_keys_window [OF wf(2,3)] sn, of now "\<lambda>_. ?info"]) (assumption, rule that)
  have h: "handle_segment_data_sdu_am now header payload s = Inr (changed, s\<lparr>ram_window := w\<rparr>)"
    using False st inv w(1)
    by (simp add: handle_segment_data_sdu_am_def Let_def store_segment_am_def update_segment_inventory_am_def
        flip: am_old_def g_def old_def)
  have i: "am_stored header payload old = ?info"
    using False st inv by (simp add: am_stored_def Let_def flip: g_def)
  show thesis
    by (rule that [OF _ w(2,3), of changed]) (simp_all add: False h w(4) i flip: old_def)
qed

section \<open>The loops\<close>

lemma first_missing_spec:
  assumes wf: "am_wf s" and "sn < ram_mod s" "am_pos s sn \<le> am_pos s (ram_next_highest s)"
    "am_pos s (ram_next_highest s) \<le> am_w s" "am_pos s (ram_next_highest s) - am_pos s sn < fuel" "am_keys s"
  shows "\<exists>sn'. first_missing_am fuel sn s = Inr sn' \<and> sn' < ram_mod s \<and> am_pos s sn \<le> am_pos s sn' \<and>
    am_pos s sn' \<le> am_pos s (ram_next_highest s) \<and> \<not> received_am s sn'"
  using assms(2,3,5)
proof (induction fuel arbitrary: sn)
  case (Suc fuel)
  show ?case
  proof (cases "am_pos s sn < am_pos s (ram_next_highest s) \<and> received_am s sn")
    case True
    then have p: "am_pos s ((sn + 1) mod ram_mod s) = Suc (am_pos s sn)"
      using am_pos_succ [OF wf, of sn] assms(4) by simp
    have "\<exists>sn'. first_missing_am fuel ((sn + 1) mod ram_mod s) s = Inr sn' \<and> sn' < ram_mod s \<and>
      am_pos s ((sn + 1) mod ram_mod s) \<le> am_pos s sn' \<and>
      am_pos s sn' \<le> am_pos s (ram_next_highest s) \<and> \<not> received_am s sn'"
      by (rule Suc.IH) (use True p Suc.prems am_mod_less [OF wf] in auto)
    then show ?thesis using True p by (auto simp: base_less_iff [OF wf])
  next
    case False
    moreover have "\<not> received_am s sn" if "am_pos s sn = am_pos s (ram_next_highest s)"
      using assms(6) that by (fastforce simp: received_iff am_keys_def)
    ultimately show ?thesis using Suc.prems by (auto simp: base_less_iff [OF wf])
  qed
qed simp

definition am_cleared :: "rlc_rx_am_entity \<Rightarrow> nat \<Rightarrow> nat \<Rightarrow> rlc_rx_am_sdu_info sdu_window \<Rightarrow> bool" where
  "am_cleared s lo hi w \<longleftrightarrow>
     cm_wf w \<and> cm_max_size w = cm_max_size (ram_window s) \<and>
     (\<forall>x. x < ram_mod s \<and> lo \<le> am_pos s x \<and> am_pos s x < hi \<longrightarrow> received_am s x) \<and>
     cm_lookup w = (\<lambda>x. if x < ram_mod s \<and> lo \<le> am_pos s x \<and> am_pos s x < hi then None
                        else cm_lookup (ram_window s) x)"

lemma am_cleared_remove:
  assumes wf: "am_wf s" and "x < ram_mod s" "received_am s x"
  obtains w where "remove_sn (ram_window s) x = Inr w" "am_cleared s (am_pos s x) (Suc (am_pos s x)) w"
proof -
  have l: "cm_lookup (ram_window s) x \<noteq> None" using assms(3) by (auto simp: received_iff)
  have cwf: "cm_wf (ram_window s)" by (rule am_wfD(3) [OF wf])
  have uniq: "y = x" if "y < ram_mod s" "am_pos s x \<le> am_pos s y" "am_pos s y < Suc (am_pos s x)" for y
    using am_pos_inj [OF wf] that assms(2) by simp
  have "am_cleared s (am_pos s x) (Suc (am_pos s x)) (snd (erase (ram_window s) x))"
    unfolding am_cleared_def cm_lookup_erase [OF cwf]
    using uniq assms(2,3) cm_wf_erase [OF cwf] by (auto simp: fun_eq_iff)
  with remove_sn_old [OF l] show thesis by (rule that)
qed

lemma am_cleared_trans:
  assumes "am_cleared s lo mid w1" "am_cleared (s\<lparr>ram_window := w1\<rparr>) mid hi w2" "lo \<le> mid" "mid \<le> hi"
  shows "am_cleared s lo hi w2"
proof -
  have "received_am s x" if x: "x < ram_mod s" "lo \<le> am_pos s x" "am_pos s x < hi" for x
  proof (cases "am_pos s x < mid")
    case True
    then show ?thesis using assms(1) x by (simp add: am_cleared_def)
  next
    case False
    then have "received_am (s\<lparr>ram_window := w1\<rparr>) x" using assms(2) x by (simp add: am_cleared_def)
    then show ?thesis using assms(1) by (auto simp: am_cleared_def received_iff split: if_splits)
  qed
  then show ?thesis using assms by (auto simp: am_cleared_def fun_eq_iff)
qed

lemma advance_am_spec:
  assumes "am_wf s" "sn < ram_mod s" "am_pos s sn \<le> am_pos s (ram_next_highest s)"
    "am_pos s (ram_next_highest s) \<le> am_w s" "am_pos s (ram_next_highest s) - am_pos s sn < fuel" "am_keys s"
  shows "\<exists>sn' w. advance_am fuel sn s = Inr (sn', s\<lparr>ram_window := w\<rparr>) \<and> sn' < ram_mod s \<and>
    am_pos s sn \<le> am_pos s sn' \<and> am_pos s sn' \<le> am_pos s (ram_next_highest s) \<and>
    am_cleared s (am_pos s sn) (am_pos s sn') w \<and> \<not> received_am s sn'"
  using assms
proof (induction fuel arbitrary: sn s)
  case (Suc fuel)
  note wf = Suc.prems(1)
  show ?case
  proof (cases "am_pos s sn < am_pos s (ram_next_highest s) \<and> received_am s sn")
    case False
    moreover have "\<not> received_am s sn" if "am_pos s sn = am_pos s (ram_next_highest s)"
      using Suc.prems(6) that by (fastforce simp: received_iff am_keys_def)
    ultimately have "advance_am (Suc fuel) sn s = Inr (sn, s)" "\<not> received_am s sn"
      using Suc.prems(3) by (auto simp: base_less_iff [OF wf])
    moreover have "am_cleared s (am_pos s sn) (am_pos s sn) (ram_window s)"
      using am_wfD(3) [OF wf] by (auto simp: am_cleared_def fun_eq_iff)
    ultimately show ?thesis
      using Suc.prems(2,3) by (intro exI [of _ sn] exI [of _ "ram_window s"]) simp
  next
    case True
    obtain w where w: "remove_sn (ram_window s) sn = Inr w" "am_cleared s (am_pos s sn) (Suc (am_pos s sn)) w"
      using True by (elim conjE) (rule am_cleared_remove [OF wf Suc.prems(2)])
    let ?s = "s\<lparr>ram_window := w\<rparr>" and ?sn = "(sn + 1) mod ram_mod s"
    have p: "am_pos s ?sn = Suc (am_pos s sn)" using am_pos_succ [OF wf, of sn] True Suc.prems(4) by simp
    have wf': "am_wf ?s" by (rule am_wf_window [OF wf]) (use w(2) in \<open>auto simp: am_cleared_def\<close>)
    have keys': "am_keys ?s" using Suc.prems(6) w(2) by (auto simp: am_keys_def am_cleared_def split: if_splits)
    have "\<exists>sn' w'. advance_am fuel ?sn ?s = Inr (sn', ?s\<lparr>ram_window := w'\<rparr>) \<and> sn' < ram_mod ?s \<and>
      am_pos ?s ?sn \<le> am_pos ?s sn' \<and> am_pos ?s sn' \<le> am_pos ?s (ram_next_highest ?s) \<and>
      am_cleared ?s (am_pos ?s ?sn) (am_pos ?s sn') w' \<and> \<not> received_am ?s sn'"
      by (rule Suc.IH [OF wf' _ _ _ _ keys']) (use True p Suc.prems(4,5) am_mod_less [OF wf] in auto)
    then obtain sn' w' where r: "advance_am fuel ?sn ?s = Inr (sn', s\<lparr>ram_window := w'\<rparr>)" "sn' < ram_mod s"
      "Suc (am_pos s sn) \<le> am_pos s sn'" "am_pos s sn' \<le> am_pos s (ram_next_highest s)"
      "am_cleared ?s (Suc (am_pos s sn)) (am_pos s sn') w'" "\<not> received_am ?s sn'"
      by (auto simp: p)
    have "am_cleared s (am_pos s sn) (am_pos s sn') w'"
      by (rule am_cleared_trans [OF w(2) r(5)]) (use r(3) in auto)
    moreover have "advance_am (Suc fuel) sn s = Inr (sn', s\<lparr>ram_window := w'\<rparr>)"
      using True w(1) r(1) by (simp add: base_less_iff [OF wf])
    moreover have "\<not> received_am s sn'"
      using r(3,6) w(2) by (auto simp: received_iff am_cleared_def split: if_splits)
    ultimately show ?thesis using r by auto
  qed
qed simp

section \<open>Placing a PDU\<close>

text \<open>RX\_Next\_Highest moves above a received SN; the SDU is stored.\<close>

definition am_placed :: "u32 \<Rightarrow> rlc_rx_am_sdu_info \<Rightarrow> rlc_rx_am_entity \<Rightarrow> rlc_rx_am_entity \<Rightarrow> bool" where
  "am_placed sn info s0 s \<longleftrightarrow>
     (\<exists>w. s = s0\<lparr>ram_window := w, ram_next_highest :=
        (if am_pos s0 (ram_next_highest s0) \<le> am_pos s0 sn then (sn + 1) mod ram_mod s0 else ram_next_highest s0)\<rparr> \<and>
       cm_wf w \<and> cm_max_size w = cm_max_size (ram_window s0) \<and>
       cm_lookup w = (cm_lookup (ram_window s0))(sn \<mapsto> info))"

lemma am_placed_facts:
  assumes inv: "am_inv s0" and sn: "sn < ram_mod s0" "am_pos s0 sn < am_w s0" and i: "am_info_ok info"
    and p: "am_placed sn info s0 s"
  shows "am_wf s" "am_vars s" "am_keys s" "am_prev s (ram_next_highest s)" "timer_set (ram_reassembly_timer s)"
    "am_timer s" "am_pos s = am_pos s0" "ram_mod s = ram_mod s0" "am_w s = am_w s0" "am_pos s sn < am_pos s (ram_next_highest s)"
    "cm_lookup (ram_window s) = (cm_lookup (ram_window s0))(sn \<mapsto> info)" "rx_next s = rx_next s0"
    "rx_highest_status s = rx_highest_status s0"
    "am_pos s0 (ram_next_highest s) = max (am_pos s0 (ram_next_highest s0)) (Suc (am_pos s0 sn))"
proof -
  obtain w where w: "s = s0\<lparr>ram_window := w, ram_next_highest :=
        (if am_pos s0 (ram_next_highest s0) \<le> am_pos s0 sn then (sn + 1) mod ram_mod s0 else ram_next_highest s0)\<rparr>"
    "cm_wf w" "cm_max_size w = cm_max_size (ram_window s0)" "cm_lookup w = (cm_lookup (ram_window s0))(sn \<mapsto> info)"
    using p by (auto simp: am_placed_def)
  note c = am_coreD [OF inv [unfolded am_inv_def, THEN conjunct1]]
  let ?old = "am_pos s0 (ram_next_highest s0)" and ?new = "am_pos s0 (ram_next_highest s)"
  show pos: "am_pos s = am_pos s0" and md: "ram_mod s = ram_mod s0" and ww: "am_w s = am_w s0"
    and "rx_next s = rx_next s0" and hs: "rx_highest_status s = rx_highest_status s0"
    by (simp_all add: w(1))
  have su: "am_pos s0 ((sn + 1) mod ram_mod s0) = Suc (am_pos s0 sn)" using am_pos_succ [OF c(1), of sn] sn(2) by simp
  have h: "?new = (if ?old \<le> am_pos s0 sn then Suc (am_pos s0 sn) else ?old)" by (simp add: w(1) su)
  then show "?new = max ?old (Suc (am_pos s0 sn))" by simp
  show look: "cm_lookup (ram_window s) = (cm_lookup (ram_window s0))(sn \<mapsto> info)" using w by simp
  show "am_wf s"
    unfolding w(1) using am_wf_upd(4) [OF am_wf_window [OF c(1) w(2,3)]] am_mod_less [OF c(1)] am_wfD(8) [OF c(1)] by simp
  have b: "am_pos s0 sn < ?new" and le: "?old \<le> ?new" and hw: "?new \<le> am_w s0"
    using h sn(2) c(2) by (simp_all add: am_vars_def)
  show below: "am_pos s sn < am_pos s (ram_next_highest s)" using b pos by simp
  show "am_vars s" using c(2) le hw by (simp add: am_vars_def pos ww hs)
  show "am_keys s"
    unfolding am_keys_def
  proof (intro allI impI)
    fix x info' assume "cm_lookup (ram_window s) x = Some info'"
    then have "x = sn \<and> info' = info \<or> cm_lookup (ram_window s0) x = Some info'" by (auto simp: look split: if_splits)
    then show "x < ram_mod s \<and> am_pos s x < am_pos s (ram_next_highest s) \<and> am_info_ok info'"
      using c(3) i sn(1) below le unfolding am_keys_def pos md by fastforce
  qed
  show "am_prev s (ram_next_highest s)"
    unfolding am_prev_def pos md look
  proof (intro allI impI)
    fix y assume y: "y < ram_mod s0" "Suc (am_pos s0 y) = am_pos s0 (ram_next_highest s)"
    show "((cm_lookup (ram_window s0))(sn \<mapsto> info)) y \<noteq> None"
    proof (cases "?old \<le> am_pos s0 sn")
      case True
      then have "y = sn" using am_pos_inj [OF c(1) y(1) sn(1)] y(2) h by simp
      then show ?thesis by simp
    next
      case False
      then show ?thesis using c(4) y h by (auto simp: am_prev_def)
    qed
  qed
  show "timer_set (ram_reassembly_timer s)" using c(6) by (simp add: w(1))
  have "am_timer s0" using inv by (simp add: am_inv_def)
  then show "am_timer s"
    unfolding am_timer_def am_prev_def pos md look using le by (auto simp: w(1))
qed

text \<open>RX\_Next moves up over complete SDUs, which are removed.\<close>

lemma am_advance:
  assumes wf: "am_wf s" and vars: "am_vars s" and keys: "am_keys s" and prev: "am_prev s (ram_next_highest s)"
    and hs: "\<not> received_am s (rx_highest_status s)" and set: "timer_set (ram_reassembly_timer s)" and timer: "am_timer s"
    and r: "r < ram_mod s" "am_pos s r \<le> am_pos s (ram_next_highest s)" "am_cleared s 0 (am_pos s r) w" "\<not> received_am s r"
  shows "am_mid (s\<lparr>ram_window := w, rx_next := r\<rparr>)"
proof -
  let ?s = "s\<lparr>ram_window := w, rx_next := r\<rparr>"
  have hi: "am_pos s (ram_next_highest s) \<le> am_w s" using vars by (simp add: am_vars_def)
  have pos: "am_pos ?s x = (if am_pos s r \<le> am_pos s x then am_pos s x - am_pos s r
      else am_pos s x + 2 * am_w s - am_pos s r)" for x
    using am_pos_rebase [where s = "s\<lparr>ram_window := w\<rparr>" and r = r and x = x] by simp
  have look: "cm_lookup w x = (if x < ram_mod s \<and> am_pos s x < am_pos s r then None else cm_lookup (ram_window s) x)" for x
    using r(3) by (simp add: am_cleared_def)
  have passed: "am_pos s r \<le> am_pos s (rx_highest_status s)"
    using r(3) hs am_wfD(7) [OF wf] by (force simp: am_cleared_def)
  have "am_wf ?s"
    using am_wf_upd(1) [OF am_wf_window [OF wf], of w r] r(1,3) by (simp add: am_cleared_def)
  moreover have "am_vars ?s"
    using vars passed r(2) unfolding am_vars_def pos by (auto simp: am_w_def am_z_def)
  moreover have "am_keys ?s"
    unfolding am_keys_def
  proof (intro allI impI)
    fix x info assume "cm_lookup (ram_window ?s) x = Some info"
    then have x: "cm_lookup (ram_window s) x = Some info" "\<not> (x < ram_mod s \<and> am_pos s x < am_pos s r)"
      by (auto simp: look split: if_splits)
    then have "x < ram_mod s" "am_pos s x < am_pos s (ram_next_highest s)" "am_info_ok info"
      using keys by (auto simp: am_keys_def)
    then show "x < ram_mod ?s \<and> am_pos ?s x < am_pos ?s (ram_next_highest ?s) \<and> am_info_ok info"
      using x(2) r(2) unfolding pos by auto
  qed
  moreover have prev': "am_prev ?s x" if "am_prev s x" "am_pos s x \<le> am_w s" "am_pos s r < am_pos s x" for x
    unfolding am_prev_def
  proof (intro allI impI)
    fix y assume y: "y < ram_mod ?s" "Suc (am_pos ?s y) = am_pos ?s x"
    have "am_pos s r \<le> am_pos s y" using y(2) that r(2) hi unfolding pos by (auto split: if_splits)
    moreover from this have "Suc (am_pos s y) = am_pos s x" using y(2) that unfolding pos by (auto split: if_splits)
    ultimately show "cm_lookup (ram_window ?s) y \<noteq> None" using that(1) y(1) by (simp add: look am_prev_def)
  qed
  have "am_prev ?s (ram_next_highest ?s)"
  proof (cases "am_pos s r = am_pos s (ram_next_highest s)")
    case True
    then show ?thesis by (simp add: am_prev_def pos)
  next
    case False
    then show ?thesis using prev' [OF prev hi] r(2) by simp
  qed
  moreover have "am_first ?s"
    using r(4) hs by (auto simp: am_first_def received_iff look split: if_splits)
  ultimately have core: "am_core ?s" using set by (simp add: am_core_def)
  have "am_pos ?s (rx_next_status_trigger ?s) = 0 \<or> am_w ?s < am_pos ?s (rx_next_status_trigger ?s) \<or>
     am_pos ?s (rx_next_status_trigger ?s) \<le> am_pos ?s (ram_next_highest ?s) \<and> am_prev ?s (rx_next_status_trigger ?s)"
    if "is_running (ram_reassembly_timer s)"
  proof -
    let ?t = "rx_next_status_trigger s"
    have t: "0 < am_pos s ?t" "am_pos s ?t \<le> am_pos s (ram_next_highest s)" "am_prev s ?t"
      using timer that by (auto simp: am_timer_def)
    consider "am_pos s ?t < am_pos s r" | "am_pos s ?t = am_pos s r" | "am_pos s r < am_pos s ?t" by linarith
    then show ?thesis
    proof cases
      case 1
      then have "am_w ?s < am_pos ?s ?t" using t(1) r(2) hi unfolding pos by simp
      then show ?thesis by simp
    next
      case 2
      then show ?thesis by (simp add: pos)
    next
      case 3
      then have "am_prev ?s ?t" using prev' t hi by simp
      moreover have "am_pos ?s ?t \<le> am_pos ?s (ram_next_highest s)" using 3 t(2) r(2) unfolding pos by simp
      ultimately show ?thesis by simp
    qed
  qed
  then show ?thesis using core by (simp add: am_mid_def)
qed

lemma am_upd_status:
  assumes "am_pos s x \<le> am_pos s (ram_next_highest s)" "x < ram_mod s"
  shows "am_wf s \<Longrightarrow> am_wf (s\<lparr>rx_highest_status := x\<rparr>)" "am_vars s \<Longrightarrow> am_vars (s\<lparr>rx_highest_status := x\<rparr>)"
    "am_keys (s\<lparr>rx_highest_status := x\<rparr>) = am_keys s" "am_prev (s\<lparr>rx_highest_status := x\<rparr>) = am_prev s"
    "am_timer (s\<lparr>rx_highest_status := x\<rparr>) = am_timer s" "received_am (s\<lparr>rx_highest_status := x\<rparr>) = received_am s"
  using assms by (simp_all add: am_wf_upd am_vars_def am_keys_def am_prev_def am_timer_def received_am_def fun_eq_iff)

lemma loop_bound_am_wf: "am_wf s \<Longrightarrow> loop_bound_am s = Suc (2 * am_w s)"
  by (simp add: loop_bound_am_def unat_am_mod)

text \<open>RX\_Highest\_Status moves over complete SDUs.\<close>

lemma complete_status:
  assumes wf: "am_wf s" "am_vars s" "am_keys s" and sn: "sn < ram_mod s" "am_pos s sn < am_pos s (ram_next_highest s)"
    and hs: "x = rx_highest_status s" "x \<noteq> sn \<longrightarrow> \<not> received_am s x"
  obtains y where
    "(if rx_mod_base_am s sn = rx_mod_base_am s x then
        bind_res (first_missing_am (loop_bound_am s) ((x + 1) mod ram_mod s) s)
          (\<lambda>sn_upd. Inr (s\<lparr>rx_highest_status := sn_upd\<rparr>))
      else Inr s) = Inr (s\<lparr>rx_highest_status := y\<rparr>)"
    "y < ram_mod s" "am_pos s y \<le> am_pos s (ram_next_highest s)" "\<not> received_am s y"
proof (cases "am_pos s sn = am_pos s x")
  case True
  have nh: "am_pos s (ram_next_highest s) \<le> am_w s" using wf(2) by (simp add: am_vars_def)
  then have p: "am_pos s ((x + 1) mod ram_mod s) = Suc (am_pos s x)" using am_pos_succ [OF wf(1), of x] sn(2) True by simp
  have "\<exists>y. first_missing_am (loop_bound_am s) ((x + 1) mod ram_mod s) s = Inr y \<and> y < ram_mod s \<and>
      am_pos s ((x + 1) mod ram_mod s) \<le> am_pos s y \<and> am_pos s y \<le> am_pos s (ram_next_highest s) \<and> \<not> received_am s y"
    by (rule first_missing_spec [OF wf(1) am_mod_less [OF wf(1)] _ nh _ wf(3)])
      (use p sn(2) True nh in \<open>simp_all add: loop_bound_am_wf [OF wf(1)]\<close>)
  then show thesis using that True by (auto simp: base_eq_iff [OF wf(1)])
next
  case False
  then have "x \<noteq> sn" by auto
  moreover have "s\<lparr>rx_highest_status := x\<rparr> = s" by (cases s) (use hs(1) in simp)
  ultimately show thesis
    using that [of x] False hs am_wfD(7) [OF wf(1)] wf(2) by (simp add: base_eq_iff [OF wf(1)] am_vars_def)
qed

text \<open>
  What a stored SDU does to the window and to the state variables: RX\_Next\_Highest is above it, RX\_Next moves over
  complete SDUs, which leave the window. The reports and their flags stay as they are.
\<close>

definition am_same_reports :: "rlc_rx_am_entity \<Rightarrow> rlc_rx_am_entity \<Rightarrow> bool" where
  "am_same_reports s s' \<longleftrightarrow>
     do_status s' = do_status s \<and> status_for_exchange s' = status_for_exchange s \<and> ram_cfg s' = ram_cfg s \<and>
     status_prohibit_timer s' = status_prohibit_timer s"

definition am_moved :: "u32 \<Rightarrow> rlc_rx_am_sdu_info \<Rightarrow> rlc_rx_am_entity \<Rightarrow> rlc_rx_am_entity \<Rightarrow> bool" where
  "am_moved sn info s s' \<longleftrightarrow>
     am_same_reports s s' \<and>
     am_pos s (ram_next_highest s') = max (am_pos s (ram_next_highest s)) (Suc (am_pos s sn)) \<and>
     am_pos s (rx_next s') \<le> am_pos s (ram_next_highest s') \<and>
     (\<forall>x < ram_mod s. am_pos s x < am_pos s (rx_next s') \<longrightarrow> received_am s x \<or> x = sn \<and> am_fully_received info) \<and>
     cm_lookup (ram_window s') = (\<lambda>x. if x < ram_mod s \<and> am_pos s x < am_pos s (rx_next s') then None
       else ((cm_lookup (ram_window s))(sn \<mapsto>
         (if am_fully_received info then info\<lparr>sdu_data := Sdu_Slice []\<rparr> else info))) x)"

lemma complete_sdu_am_spec:
  assumes inv: "am_inv s0" and sn: "sn < ram_mod s0" "am_pos s0 sn < am_w s0" and i: "am_info_ok info" "am_fully_received info"
    and p: "am_placed sn info s0 s"
  shows "\<exists>s' as. complete_sdu_am alloc sn info s = Inr (s', as) \<and> am_mid s' \<and> am_moved sn info s0 s' \<and>
    delivered as = (case reassemble_sdu_am alloc info of None \<Rightarrow> [] | Some sdu \<Rightarrow> [sdu])"
proof -
  let ?info = "info\<lparr>sdu_data := Sdu_Slice []\<rparr>"
  define s3 where "s3 = s\<lparr>ram_window := assign_cm (ram_window s) sn ?info\<rparr>"
  note f0 = am_placed_facts [OF inv sn i(1) p]
  have lk: "cm_lookup (ram_window s) sn \<noteq> None" by (simp add: f0(11))
  have p3: "am_placed sn ?info s0 s3"
  proof -
    obtain w where w: "s = s0\<lparr>ram_window := w, ram_next_highest :=
        (if am_pos s0 (ram_next_highest s0) \<le> am_pos s0 sn then (sn + 1) mod ram_mod s0 else ram_next_highest s0)\<rparr>"
      "cm_max_size w = cm_max_size (ram_window s0)" "cm_lookup w = (cm_lookup (ram_window s0))(sn \<mapsto> info)"
      using p by (auto simp: am_placed_def)
    have "cm_wf (assign_cm (ram_window s) sn ?info) \<and>
        cm_lookup (assign_cm (ram_window s) sn ?info) = (cm_lookup (ram_window s))(sn \<mapsto> ?info)"
      by (rule win.put_old [OF am_wfD(3) [OF f0(1)] lk])
    then show ?thesis
      unfolding am_placed_def
      by (intro exI [of _ "assign_cm (ram_window s) sn ?info"]) (simp add: s3_def w)
  qed
  have iok: "am_info_ok ?info" using i by (simp add: am_info_ok_def)
  note f = am_placed_facts [OF inv sn iok p3]
  have rec: "received_am s3 x \<longleftrightarrow> x = sn \<or> received_am s0 x" for x
    using i(2) by (simp add: received_iff f(11))
  have first: "\<not> received_am s0 (rx_next s0)" "\<not> received_am s0 (rx_highest_status s0)"
    using inv by (auto simp: am_inv_def am_core_def am_first_def)
  have snm: "sn < ram_mod s3" using sn(1) f(8) by simp
  have hsx: "rx_highest_status s3 \<noteq> sn \<longrightarrow> \<not> received_am s3 (rx_highest_status s3)" using first rec f(13) by simp
  obtain y where y: "(if rx_mod_base_am s3 sn = rx_mod_base_am s3 (rx_highest_status s3) then
        bind_res (first_missing_am (loop_bound_am s3) ((rx_highest_status s3 + 1) mod ram_mod s3) s3)
          (\<lambda>sn_upd. Inr (s3\<lparr>rx_highest_status := sn_upd\<rparr>))
      else Inr s3) = Inr (s3\<lparr>rx_highest_status := y\<rparr>)"
    "y < ram_mod s3" "am_pos s3 y \<le> am_pos s3 (ram_next_highest s3)" "\<not> received_am s3 y"
    by (rule complete_status [OF f(1,2,3) snm f(10) refl hsx]) (rule that)
  let ?s4 = "s3\<lparr>rx_highest_status := y\<rparr>"
  note u = am_upd_status [OF y(3,2)]
  have ok4: "am_wf ?s4" "am_vars ?s4" "am_keys ?s4" "am_prev ?s4 (ram_next_highest ?s4)" "am_timer ?s4"
    "timer_set (ram_reassembly_timer ?s4)"
    using u f(1-6) by simp_all
  define as where "as = (case reassemble_sdu_am alloc info of
      None \<Rightarrow> [Metrics_Add_Lost_Pdus 1] | Some sdu \<Rightarrow> [Metrics_Add_Sdus 1 (length sdu), On_New_Sdu sdu])"
  have del: "delivered as = (case reassemble_sdu_am alloc info of None \<Rightarrow> [] | Some sdu \<Rightarrow> [sdu])"
    by (simp add: as_def split: option.splits)
  have same: "am_same_reports s0 s3" using p3 by (auto simp: am_placed_def am_same_reports_def)
  show ?thesis
  proof (cases "am_pos ?s4 sn = 0")
    case True
    have nh: "am_pos ?s4 (ram_next_highest ?s4) \<le> am_w ?s4" using ok4(2) by (simp add: am_vars_def)
    have r0: "rx_next ?s4 mod ram_mod ?s4 = rx_next ?s4" by (rule am_mod_ident [OF ok4(1) am_wfD(5) [OF ok4(1)]])
    have low: "am_pos ?s4 (rx_next ?s4) \<le> am_pos ?s4 (ram_next_highest ?s4)" by (simp only: am_pos_next le0)
    have fuel: "am_pos ?s4 (ram_next_highest ?s4) - am_pos ?s4 (rx_next ?s4) < loop_bound_am ?s4"
      unfolding loop_bound_am_wf [OF ok4(1)] using nh by linarith
    have "\<exists>sn' w. advance_am (loop_bound_am ?s4) (rx_next ?s4) ?s4 = Inr (sn', ?s4\<lparr>ram_window := w\<rparr>) \<and> sn' < ram_mod ?s4 \<and>
        am_pos ?s4 (rx_next ?s4) \<le> am_pos ?s4 sn' \<and> am_pos ?s4 sn' \<le> am_pos ?s4 (ram_next_highest ?s4) \<and>
        am_cleared ?s4 (am_pos ?s4 (rx_next ?s4)) (am_pos ?s4 sn') w \<and> \<not> received_am ?s4 sn'"
      by (rule advance_am_spec [OF ok4(1) am_wfD(5) [OF ok4(1)] low nh fuel ok4(3)])
    then obtain r w where r: "advance_am (loop_bound_am ?s4) (rx_next ?s4) ?s4 = Inr (r, ?s4\<lparr>ram_window := w\<rparr>)"
      "r < ram_mod ?s4" "am_pos ?s4 r \<le> am_pos ?s4 (ram_next_highest ?s4)" "am_cleared ?s4 0 (am_pos ?s4 r) w" "\<not> received_am ?s4 r"
      unfolding am_pos_next by blast
    have mid: "am_mid (?s4\<lparr>ram_window := w, rx_next := r\<rparr>)"
      by (rule am_advance [OF ok4(1-4) _ ok4(6,5) r(2-5)]) (use y(4) u(6) in simp)
    have eq: "complete_sdu_am alloc sn info s = Inr (?s4\<lparr>ram_window := w, rx_next := r\<rparr>, as)"
      unfolding complete_sdu_am_def Let_def s3_def [symmetric] as_def [symmetric] y(1) bind_res_simps
        base_eq_iff [OF ok4(1)] r0 r(1) am_pos_next True by simp
    have "am_moved sn info s0 (?s4\<lparr>ram_window := w, rx_next := r\<rparr>)"
      using same r(3,4) i(2) rec f(7,8,11,14) u(6)
      by (simp add: am_moved_def am_same_reports_def am_cleared_def cong: if_cong) blast
    with mid eq del show ?thesis by blast
  next
    case False
    have "rx_next s0 \<noteq> sn"
    proof
      assume "rx_next s0 = sn"
      then have "am_pos ?s4 sn = 0" using f(12) am_pos_next [of ?s4] by simp
      then show False using False by contradiction
    qed
    then have "am_first ?s4" using y(4) u(6) first(1) rec f(12) by (simp add: am_first_def)
    then have mid: "am_mid ?s4" using ok4 by (intro am_inv_mid) (simp only: am_inv_def am_core_def)
    have eq: "complete_sdu_am alloc sn info s = Inr (?s4, as)"
      unfolding complete_sdu_am_def Let_def s3_def [symmetric] as_def [symmetric] y(1) bind_res_simps
        base_eq_iff [OF ok4(1)] am_pos_next by (simp only: False if_False)
    have "am_moved sn info s0 ?s4"
      using same i(2) f(11,12,14) by (simp add: am_moved_def am_same_reports_def fun_eq_iff)
    with mid eq del show ?thesis by blast
  qed
qed

lemma place_am_spec:
  assumes inv: "am_inv s" and sn: "sn < ram_mod s" "am_pos s sn < am_w s" and i: "am_info_ok info" and rc: "\<not> received_am s sn"
    and w: "cm_wf w" "cm_max_size w = cm_max_size (ram_window s)" "cm_lookup w = (cm_lookup (ram_window s))(sn \<mapsto> info)"
  shows "\<exists>s' as. place_am alloc sn (s\<lparr>ram_window := w\<rparr>) = Inr (s', as) \<and> am_mid s' \<and> am_moved sn info s s' \<and>
    delivered as = (case reassemble_sdu_am alloc info of None \<Rightarrow> [] | Some sdu \<Rightarrow> [sdu])"
proof -
  let ?s1 = "s\<lparr>ram_window := w\<rparr>"
  define s2 where "s2 = (if rx_mod_base_am ?s1 sn \<ge> rx_mod_base_am ?s1 (ram_next_highest ?s1)
               then ?s1\<lparr>ram_next_highest := (sn + 1) mod ram_mod ?s1\<rparr> else ?s1)"
  have wf: "am_wf s" using inv by (simp add: am_inv_def am_core_def)
  have wf1: "am_wf ?s1" by (rule am_wf_window [OF wf w(1,2)])
  have "?s1\<lparr>ram_next_highest := ram_next_highest s\<rparr> = ?s1" by simp
  then have s2: "s2 = s\<lparr>ram_window := w, ram_next_highest :=
        (if am_pos s (ram_next_highest s) \<le> am_pos s sn then (sn + 1) mod ram_mod s else ram_next_highest s)\<rparr>"
    by (simp add: s2_def base_le_iff [OF wf1])
  then have p: "am_placed sn info s s2" using w by (auto simp: am_placed_def)
  note f = am_placed_facts [OF inv sn i p]
  have lk: "cm_lookup (ram_window s2) sn = Some info" by (simp add: f(11))
  show ?thesis
  proof (cases "am_fully_received info")
    case True
    then have "place_am alloc sn ?s1 = complete_sdu_am alloc sn info s2"
      unfolding place_am_def Let_def s2_def [symmetric] using lk by simp
    then show ?thesis using complete_sdu_am_spec [OF inv sn i True p, of alloc] by simp
  next
    case False
    have "am_first s2"
      using inv False by (auto simp: am_first_def am_inv_def am_core_def received_iff f(11-13))
    then have "am_inv s2" using f(1-6) by (simp add: am_inv_def am_core_def)
    moreover have "place_am alloc sn ?s1 = Inr (s2, [])"
      unfolding place_am_def Let_def s2_def [symmetric] using lk False by simp
    moreover have "am_moved sn info s s2"
      using False f(11,12,14) by (simp add: am_moved_def am_same_reports_def fun_eq_iff) (simp add: s2)
    ultimately show ?thesis using False am_inv_mid by (simp add: reassemble_sdu_am_def)
  qed
qed

section \<open>t-Reassembly\<close>

text \<open>The timer does not touch the window.\<close>

definition am_same_window :: "rlc_rx_am_entity \<Rightarrow> rlc_rx_am_entity \<Rightarrow> bool" where
  "am_same_window s s' \<longleftrightarrow>
     am_same_reports s s' \<and> rx_next s' = rx_next s \<and> ram_next_highest s' = ram_next_highest s \<and>
     ram_window s' = ram_window s"

lemma am_same_windowD:
  assumes "am_same_window s s'"
  shows "am_same_reports s s'" "rx_next s' = rx_next s" "ram_next_highest s' = ram_next_highest s" "ram_window s' = ram_window s"
    "ram_cfg s' = ram_cfg s" "do_status s' = do_status s" "status_for_exchange s' = status_for_exchange s"
    "status_prohibit_timer s' = status_prohibit_timer s" "am_z s' = am_z s" "am_pos s' = am_pos s"
  using assms by (simp_all add: am_same_window_def am_same_reports_def am_z_def am_pos_def fun_eq_iff)

lemma am_same_window_trans: "am_same_window s s1 \<Longrightarrow> am_same_window s1 s2 \<Longrightarrow> am_same_window s s2"
  by (simp add: am_same_window_def am_same_reports_def)

lemma am_moved_same: "am_moved sn info s s1 \<Longrightarrow> am_same_window s1 s2 \<Longrightarrow> am_moved sn info s s2"
  by (simp add: am_moved_def am_same_window_def am_same_reports_def)

lemma am_moved_cfg: "am_moved sn info s s' \<Longrightarrow> ram_cfg s' = ram_cfg s"
  by (simp add: am_moved_def am_same_reports_def)

lemma am_core_timer:
  assumes "am_core s" "timer_set t"
  shows "am_core (s\<lparr>ram_reassembly_timer := t\<rparr>)"
    "x < ram_mod s \<Longrightarrow> am_core (s\<lparr>ram_reassembly_timer := t, rx_next_status_trigger := x\<rparr>)"
  using assms
  by (simp_all add: am_core_def am_wf_upd am_vars_def am_keys_def am_prev_def am_first_def received_am_def)

lemma restart_timer_am_ok:
  assumes core: "am_core s" and run: "\<not> is_running (ram_reassembly_timer s)"
    and sn: "am_pos s (sn + 1) = Suc (am_pos s sn)"
  shows "\<exists>s'. restart_timer_am sn s = Inr s' \<and> am_inv s' \<and> am_same_window s s' \<and>
    (Suc (am_pos s sn) < am_pos s (ram_next_highest s) \<longrightarrow> is_running (ram_reassembly_timer s')) \<and>
    am_pos s' = am_pos s \<and> ram_next_highest s' = ram_next_highest s"
proof -
  note wf = am_coreD(1) [OF core] and ts = am_coreD(6) [OF core]
  let ?s = "s\<lparr>ram_reassembly_timer := (ram_reassembly_timer s)\<lparr>is_running := True\<rparr>, rx_next_status_trigger := ram_next_highest s\<rparr>"
  have cases: "restart_timer_am sn s = Inr s \<and> \<not> Suc (am_pos s sn) < am_pos s (ram_next_highest s) \<or>
      restart_timer_am sn s = Inr ?s \<and> 0 < am_pos s (ram_next_highest s)"
    using ts sn by (auto simp: restart_timer_am_def Let_def base_less_iff [OF wf] base_eq_iff [OF wf])
  have "am_core ?s" by (rule am_core_timer(2) [OF core]) (use ts am_wfD(8) [OF wf] in simp_all)
  moreover have "am_prev ?s (ram_next_highest s)" using am_coreD(4) [OF core] by (simp add: am_prev_def)
  ultimately have "0 < am_pos s (ram_next_highest s) \<Longrightarrow> am_inv ?s" by (simp add: am_inv_def am_timer_def)
  moreover have "am_inv s" using core run by (simp add: am_inv_def am_timer_def)
  ultimately show ?thesis using cases by (auto simp: am_same_window_def am_same_reports_def)
qed

lemma stop_timer_am_ok:
  assumes mid: "am_mid s"
  shows "\<exists>s'. stop_timer_am s = Inr s' \<and> am_inv s' \<and> am_same_window s s'"
proof (cases "is_running (ram_reassembly_timer s)")
  case False
  then have "am_inv s" using mid by (simp add: am_mid_def am_inv_def am_timer_def)
  then show ?thesis using False by (simp add: stop_timer_am_def am_same_window_def am_same_reports_def)
next
  case True
  have core: "am_core s" using mid by (simp add: am_mid_def)
  note wf = am_coreD(1) [OF core]
  let ?t = "rx_next_status_trigger s" and ?s = "s\<lparr>ram_reassembly_timer := timer_stop (ram_reassembly_timer s)\<rparr>"
  have t: "am_pos s ?t = 0 \<or> am_w s < am_pos s ?t \<or> am_pos s ?t \<le> am_pos s (ram_next_highest s) \<and> am_prev s ?t"
    using mid True by (simp add: am_mid_def)
  have gap: "\<exists>b. (if rx_mod_base_am s ?t = rx_mod_base_am s (rx_next s + 1) then
             bind_res (at_cm (ram_window s) (rx_next s)) (\<lambda>info. Inr (\<not> am_has_gap info)) else Inr False) = Inr b"
  proof (cases "am_pos s ?t = 1")
    case True
    then have "am_prev s ?t" using t am_w_pos(2) [of s] by simp
    then have "cm_lookup (ram_window s) (rx_next s) \<noteq> None"
      using am_wfD(5) [OF wf] True by (simp add: am_prev_def)
    then obtain info where "at_cm (ram_window s) (rx_next s) = Inr info" using at_cm_Some by fastforce
    then show ?thesis using True by (simp add: base_eq_iff [OF wf] am_pos_next_succ [OF wf])
  next
    case False
    then show ?thesis by (auto simp: base_eq_iff [OF wf] am_pos_next_succ [OF wf])
  qed
  then obtain b where b: "(if rx_mod_base_am s ?t = rx_mod_base_am s (rx_next s + 1) then
             bind_res (at_cm (ram_window s) (rx_next s)) (\<lambda>info. Inr (\<not> am_has_gap info)) else Inr False) = Inr b" by blast
  have stopped: "am_inv ?s"
    using am_core_timer(1) [OF core, of "timer_stop (ram_reassembly_timer s)"] am_coreD(6) [OF core]
    by (simp add: am_inv_def am_timer_def)
  have kept: "am_inv s" if "\<not> (?t = rx_next s \<or> b \<or> \<not> inside_rx_window s ?t)"
  proof -
    have "am_pos s ?t \<noteq> 0"
      using that am_pos_inj [OF wf am_wfD(6) [OF wf] am_wfD(5) [OF wf]] by auto
    then show ?thesis using that t core by (simp add: am_inv_def am_timer_def inside_iff [OF wf])
  qed
  have "stop_timer_am s = (if ?t = rx_next s \<or> b \<or> \<not> inside_rx_window s ?t then Inr ?s else Inr s)"
    unfolding stop_timer_am_def b using True by (simp add: Let_def)
  then show ?thesis using stopped kept
    by (cases "?t = rx_next s \<or> b \<or> \<not> inside_rx_window s ?t") (simp_all add: am_same_window_def am_same_reports_def)
qed

lemma update_timer_am_ok:
  assumes "am_mid s"
  shows "\<exists>s'. update_timer_am s = Inr s' \<and> am_inv s' \<and> am_same_window s s'"
proof -
  obtain s1 where s1: "stop_timer_am s = Inr s1" "am_inv s1" "am_same_window s s1"
    using stop_timer_am_ok [OF assms] by blast
  show ?thesis
  proof (cases "is_running (ram_reassembly_timer s1)")
    case True
    then show ?thesis using s1 by (simp add: update_timer_am_def)
  next
    case False
    have core: "am_core s1" using s1(2) by (simp add: am_inv_def)
    have "am_pos s1 (rx_next s1 + 1) = Suc (am_pos s1 (rx_next s1))"
      using am_pos_next_succ [OF am_coreD(1) [OF core]] by simp
    from restart_timer_am_ok [OF core False this] show ?thesis
      using s1 False am_same_window_trans [OF s1(3)] by (auto simp: update_timer_am_def)
  qed
qed

section \<open>The status report\<close>

text \<open>The bytes of an SDU that were not received. Without the last segment its end is not known.\<close>

definition sdu_missing :: "rlc_rx_am_sdu_info option \<Rightarrow> nat set" where
  "sdu_missing sdu =
     (case sdu of
        None \<Rightarrow> {..0xffff}
      | Some info \<Rightarrow>
          if am_fully_received info then {}
          else {b. b \<le> 0xffff \<and> b \<notin> segs_cover (segment_set info) \<and>
                  ((\<exists>g \<in> set (segment_set info). seg_si g = Last_Segment) \<longrightarrow> b < seg_end (last (segment_set info)))})"

definition am_status_wf :: "rlc_am_sn_size \<Rightarrow> rlc_am_status_pdu \<Rightarrow> bool" where
  "am_status_wf z p \<longleftrightarrow> status_wf p \<and> st_sn_size p = z"

lemma am_status_wf_push:
  assumes "am_status_wf z p" "sn < cardinality (to_number_am_sn z)"
  shows "am_status_wf z (push_nack p (empty_nack\<lparr>nack_sn := sn, nack_has_so := True, so_start := a, so_end := b\<rparr>))"
    "status_missing (push_nack p (empty_nack\<lparr>nack_sn := sn, nack_has_so := True, so_start := a, so_end := b\<rparr>)) =
       status_missing p \<union> {sn} \<times> {unat a .. unat b}"
    "am_status_wf z (push_nack p (empty_nack\<lparr>nack_sn := sn, nack_has_so := False\<rparr>))"
    "status_missing (push_nack p (empty_nack\<lparr>nack_sn := sn, nack_has_so := False\<rparr>)) = status_missing p \<union> {sn} \<times> {..0xffff}"
proof -
  let ?n = "empty_nack\<lparr>nack_sn := sn, nack_has_so := True, so_start := a, so_end := b\<rparr>"
    and ?f = "empty_nack\<lparr>nack_sn := sn, nack_has_so := False\<rparr>"
  have m: "st_mod_nr p = cardinality (to_number_am_sn z)" and wf: "status_wf p"
    using assms(1) by (auto simp: am_status_wf_def status_wf_def)
  have n: "nack_normal (st_mod_nr p) ?n" "nack_normal (st_mod_nr p) ?f"
    using assms(2) m by (simp_all add: nack_normal_def empty_nack_def)
  show "am_status_wf z (push_nack p ?n)" "am_status_wf z (push_nack p ?f)"
    using status_wf_push [OF wf n(1)] status_wf_push [OF wf n(2)] assms(1) by (simp_all add: am_status_wf_def)
  have c: "\<forall>n \<in> set (nacks p). 0 < nack_count n" using wf nack_normal_count by (auto simp: status_wf_def)
  have sn: "sn mod cardinality (to_number_am_sn z) = sn" by (rule am_ring.mod_m_ident [OF assms(2)])
  have one: "nack_count ?n = 1" "nack_count ?f = 1" by (simp_all add: nack_count_def empty_nack_def)
  have mn: "nack_missing (st_mod_nr p) ?n = {sn} \<times> {unat a .. unat b}" "nack_missing (st_mod_nr p) ?f = {sn} \<times> {..0xffff}"
    unfolding nack_missing_def one by (auto simp: empty_nack_def m sn)
  show "status_missing (push_nack p ?n) = status_missing p \<union> {sn} \<times> {unat a .. unat b}"
    "status_missing (push_nack p ?f) = status_missing p \<union> {sn} \<times> {..0xffff}"
    using status_missing_push [OF m c, of ?n] status_missing_push [OF m c, of ?f] by (simp_all add: one mn)
qed

lemma segs_ok_last: "segs_ok segms \<Longrightarrow> g \<in> set segms \<Longrightarrow> seg_end g \<le> seg_end (last segms)"
proof (induction segms)
  case (Cons a as)
  show ?case
  proof (cases "as = []")
    case False
    then have l: "last as \<in> set as" by simp
    then have "seg_end a \<le> unat (seg_so (last as))" "seg_ok (last as)" using Cons.prems(1) by (auto simp: segs_ok_def)
    then have "seg_end a \<le> seg_end (last as)" using seg_so_less_end [of "last as"] by linarith
    then show ?thesis using Cons False by auto
  qed (use Cons.prems(2) in simp)
qed simp

lemma nack_segments_spec:
  assumes "am_status_wf z p" "sn < cardinality (to_number_am_sn z)" "segs_ok segms" "last_so \<le> 65535"
    "\<forall>g \<in> set segms. last_so \<le> unat (seg_so g) \<and> seg_end g \<le> 65535"
  shows "\<exists>p'. nack_segments sn segms last_so hl p =
      Inr (if segms = [] then last_so else seg_end (last segms), hl \<or> (\<exists>g \<in> set segms. seg_si g = Last_Segment), p') \<and>
    am_status_wf z p' \<and> status_missing p' = status_missing p \<union>
      {sn} \<times> {b. last_so \<le> b \<and> b < (if segms = [] then last_so else seg_end (last segms)) \<and> b \<notin> segs_cover segms}"
  using assms(1,3-5)
proof (induction segms arbitrary: last_so hl p)
  case Nil
  then show ?case by auto
next
  case (Cons g gs)
  have g: "seg_ok g" "last_so \<le> unat (seg_so g)" "seg_end g \<le> 65535" using Cons.prems by auto
  have lt: "unat (seg_so g) < seg_end g" by (rule seg_so_less_end [OF g(1)])
  let ?n = "empty_nack\<lparr>nack_sn := sn, nack_has_so := True, so_start := of_nat last_so, so_end := seg_so g - 1\<rparr>"
  define p1 where "p1 = (if unat (seg_so g) \<noteq> last_so then push_nack p ?n else p)"
  have so: "unat (of_nat last_so :: u16) = last_so"
    using Cons.prems(3) by (simp add: unsigned_of_nat take_bit_nat_eq_self)
  have sub: "unat (seg_so g - 1) = unat (seg_so g) - 1" if "unat (seg_so g) \<noteq> last_so"
    using that g(2) by (subst unat_sub) (auto simp: word_le_nat_alt)
  have p1: "am_status_wf z p1" "status_missing p1 = status_missing p \<union> {sn} \<times> {last_so ..< unat (seg_so g)}"
    using am_status_wf_push(1,2) [OF Cons.prems(1) assms(2), where a = "of_nat last_so" and b = "seg_so g - 1"] Cons.prems(1) so sub g(2)
    by (auto simp: p1_def)
  have step: "nack_segments sn (g # gs) last_so hl p = nack_segments sn gs (seg_end g) (hl \<or> seg_si g = Last_Segment) p1"
    using so sub g(2) by (auto simp: p1_def Let_def srsran_assert_def word_le_nat_alt)
  obtain p' where p': "nack_segments sn gs (seg_end g) (hl \<or> seg_si g = Last_Segment) p1 =
      Inr (if gs = [] then seg_end g else seg_end (last gs), (hl \<or> seg_si g = Last_Segment) \<or> (\<exists>g \<in> set gs. seg_si g = Last_Segment), p')"
    "am_status_wf z p'" "status_missing p' = status_missing p1 \<union>
      {sn} \<times> {b. seg_end g \<le> b \<and> b < (if gs = [] then seg_end g else seg_end (last gs)) \<and> b \<notin> segs_cover gs}"
    using Cons.IH [of p1 "seg_end g" "hl \<or> seg_si g = Last_Segment"] p1(1) Cons.prems(2,4) g(3) by auto
  have cov: "segs_cover gs \<subseteq> {seg_end g ..}" using Cons.prems(2) by (fastforce simp: segs_cover_def seg_cover_def)
  have le: "seg_end g \<le> (if gs = [] then seg_end g else seg_end (last gs))"
    using segs_ok_last [OF Cons.prems(2), of g] by (simp split: if_splits)
  have un: "{last_so ..< unat (seg_so g)} \<union>
      {b. seg_end g \<le> b \<and> b < (if gs = [] then seg_end g else seg_end (last gs)) \<and> b \<notin> segs_cover gs} =
      {b. last_so \<le> b \<and> b < (if gs = [] then seg_end g else seg_end (last gs)) \<and> b \<notin> segs_cover (g # gs)}"
    using cov le lt g(2) by (auto simp: seg_cover_def)
  have "status_missing p' = status_missing p \<union>
      {sn} \<times> {b. last_so \<le> b \<and> b < (if gs = [] then seg_end g else seg_end (last gs)) \<and> b \<notin> segs_cover (g # gs)}"
    by (simp only: p'(3) p1(2) Un_assoc Sigma_Un_distrib2 [symmetric] un)
  then show ?case
    unfolding step using p'(1,2) by auto
qed

lemma nack_sdu_spec:
  assumes p: "am_status_wf z p" "sn < cardinality (to_number_am_sn z)" and i: "\<forall>info. sdu = Some info \<longrightarrow> am_info_ok info"
  shows "\<exists>p'. nack_sdu sn sdu p = Inr p' \<and> am_status_wf z p' \<and> status_missing p' = status_missing p \<union> {sn} \<times> sdu_missing sdu"
proof (cases sdu)
  case None
  then show ?thesis using am_status_wf_push(3,4) [OF p] by (simp add: nack_sdu_def sdu_missing_def)
next
  case (Some info)
  show ?thesis
  proof (cases "am_fully_received info")
    case True
    then show ?thesis using Some p by (simp add: nack_sdu_def sdu_missing_def)
  next
    case False
    then obtain segms where s: "sdu_data info = Segment_Set segms" "segms \<noteq> []" "segs_ok segms" "\<forall>g \<in> set segms. seg_end g \<le> 65535"
      using i Some by (auto simp: am_info_ok_def split: rlc_rx_am_sdu_data.splits)
    let ?e = "seg_end (last segms)" and ?hl = "\<exists>g \<in> set segms. seg_si g = Last_Segment"
    obtain p1 where p1: "nack_segments sn segms 0 False p = Inr (?e, ?hl, p1)" "am_status_wf z p1"
      "status_missing p1 = status_missing p \<union> {sn} \<times> {b. b < ?e \<and> b \<notin> segs_cover segms}"
      using nack_segments_spec [OF p s(3), of 0 False] s(2,4) by auto
    have e: "?e \<le> 65535" using s(2,4) by simp
    then have ue: "unat (of_nat ?e :: u16) = ?e" by (simp add: unsigned_of_nat take_bit_nat_eq_self)
    have cov: "segs_cover segms \<subseteq> {..< ?e}"
      using segs_ok_last [OF s(3)] by (fastforce simp: segs_cover_def seg_cover_def)
    have set: "segment_set info = segms" using s(1) by (simp add: segment_set_def)
    show ?thesis
    proof (cases ?hl)
      case True
      then have "sdu_missing sdu = {b. b < ?e \<and> b \<notin> segs_cover segms}"
        using Some False e by (auto simp: sdu_missing_def set)
      then show ?thesis using Some False s(1) p1 True by (simp add: nack_sdu_def)
    next
      case hl: False
      then have "sdu_missing sdu = {b. b < ?e \<and> b \<notin> segs_cover segms} \<union> {?e .. 0xffff}"
        using Some False e cov by (auto simp: sdu_missing_def set)
      moreover have "unat so_end_of_sdu = 0xffff" by (simp add: so_end_of_sdu_def)
      ultimately show ?thesis
        using Some False s(1) p1 hl ue e am_status_wf_push(1,2) [OF p1(2) p(2), where a = "of_nat ?e" and b = so_end_of_sdu]
        by (simp add: nack_sdu_def Let_def srsran_assert_def word_le_nat_alt Sigma_Un_distrib2 Un_assoc)
    qed
  qed
qed

lemma nack_loop_spec:
  assumes wf: "am_wf s" and keys: "am_keys s" and stop: "am_pos s stop_sn \<le> am_w s"
    and "am_status_wf (am_z s) p" "i < ram_mod s" "am_pos s i \<le> am_pos s stop_sn" "am_pos s stop_sn - am_pos s i < fuel"
  shows "\<exists>p'. nack_loop fuel i stop_sn s p = Inr p' \<and> am_status_wf (am_z s) p' \<and>
    status_missing p' = status_missing p \<union> {(x, b). x < ram_mod s \<and> am_pos s i \<le> am_pos s x \<and> am_pos s x < am_pos s stop_sn \<and>
      b \<in> sdu_missing (cm_lookup (ram_window s) x)}"
  using assms(4-7)
proof (induction fuel arbitrary: i p)
  case (Suc fuel)
  show ?case
  proof (cases "am_pos s i < am_pos s stop_sn")
    case False
    then have "status_missing p = status_missing p \<union> {(x, b). x < ram_mod s \<and> am_pos s i \<le> am_pos s x \<and>
        am_pos s x < am_pos s stop_sn \<and> b \<in> sdu_missing (cm_lookup (ram_window s) x)}" by auto
    moreover have "nack_loop (Suc fuel) i stop_sn s p = Inr p" using False by (simp add: base_less_iff [OF wf])
    ultimately show ?thesis using Suc.prems(1) by blast
  next
    case True
    let ?i = "(i + 1) mod ram_mod s"
    have su: "am_pos s ?i = Suc (am_pos s i)" using am_pos_succ [OF wf, of i] True stop by simp
    have "i < cardinality (to_number_am_sn (am_z s))" using Suc.prems(2) am_wfD(1) [OF wf] by simp
    moreover have "\<forall>info. cm_lookup (ram_window s) i = Some info \<longrightarrow> am_info_ok info" using keys by (auto simp: am_keys_def)
    ultimately obtain p1 where p1: "nack_sdu i (cm_lookup (ram_window s) i) p = Inr p1" "am_status_wf (am_z s) p1"
      "status_missing p1 = status_missing p \<union> {i} \<times> sdu_missing (cm_lookup (ram_window s) i)"
      using nack_sdu_spec [OF Suc.prems(1)] by blast
    have le: "am_pos s ?i \<le> am_pos s stop_sn" and fuel: "am_pos s stop_sn - am_pos s ?i < fuel"
      using True su Suc.prems(4) by linarith+
    obtain p2 where p2: "nack_loop fuel ?i stop_sn s p1 = Inr p2" "am_status_wf (am_z s) p2"
      "status_missing p2 = status_missing p1 \<union> {(x, b). x < ram_mod s \<and> am_pos s ?i \<le> am_pos s x \<and>
        am_pos s x < am_pos s stop_sn \<and> b \<in> sdu_missing (cm_lookup (ram_window s) x)}"
      using Suc.IH [OF p1(2) am_mod_less [OF wf, of "i + 1"] le fuel] by blast
    have same: "x = i" if "x < ram_mod s" "am_pos s x = am_pos s i" for x
      using am_pos_inj [OF wf that(1) Suc.prems(2) that(2)] .
    have "{i} \<times> sdu_missing (cm_lookup (ram_window s) i) \<union> {(x, b). x < ram_mod s \<and> am_pos s ?i \<le> am_pos s x \<and>
        am_pos s x < am_pos s stop_sn \<and> b \<in> sdu_missing (cm_lookup (ram_window s) x)} =
      {(x, b). x < ram_mod s \<and> am_pos s i \<le> am_pos s x \<and> am_pos s x < am_pos s stop_sn \<and>
        b \<in> sdu_missing (cm_lookup (ram_window s) x)}"
    proof -
      have "x < ram_mod s \<and> am_pos s i \<le> am_pos s x \<longleftrightarrow> x = i \<or> x < ram_mod s \<and> Suc (am_pos s i) \<le> am_pos s x" for x
        using same [of x] Suc.prems(2) by (auto simp: Suc_le_eq le_less)
      with True show ?thesis unfolding su by (intro set_eqI) (clarsimp, metis)
    qed
    then have "status_missing p2 = status_missing p \<union> {(x, b). x < ram_mod s \<and> am_pos s i \<le> am_pos s x \<and>
        am_pos s x < am_pos s stop_sn \<and> b \<in> sdu_missing (cm_lookup (ram_window s) x)}"
      by (simp only: p2(3) p1(3) Un_assoc)
    moreover have "nack_loop (Suc fuel) i stop_sn s p = Inr p2"
      using p1(1) p2(1) True by (simp add: base_less_iff [OF wf])
    ultimately show ?thesis using p2(2) by blast
  qed
qed simp

lemma status_stop:
  assumes wf: "am_wf s" and v: "am_vars s"
  shows "am_pos s (status_stop_sn s) = min (am_pos s (rx_highest_status s)) (unat (max_nof_sn_per_status_report s))"
    "status_stop_sn s < ram_mod s"
proof -
  have mx: "unat (max_nof_sn_per_status_report s) \<le> am_w s"
    using wf by (simp add: am_wf_def Let_def am_w_def word_le_nat_alt)
  have small: "unat (max_nof_sn_per_status_report s) mod (2 * am_w s) = unat (max_nof_sn_per_status_report s)"
    by (rule mod_less) (use mx am_w_pos(1) [of s] in linarith)
  have "am_pos s ((rx_next s + max_nof_sn_per_status_report s) mod ram_mod s) = unat (max_nof_sn_per_status_report s)"
    using mx am_ring.dist_add [of "am_z s" "rx_next s" "rx_next s" "max_nof_sn_per_status_report s"]
    unfolding am_pos_mod [OF wf] by (simp add: am_pos_def am_ring_N small)
  then show "am_pos s (status_stop_sn s) = min (am_pos s (rx_highest_status s)) (unat (max_nof_sn_per_status_report s))"
    by (simp add: status_stop_sn_def Let_def base_less_iff [OF wf] min_def)
  show "status_stop_sn s < ram_mod s"
    using am_wfD(7) [OF wf] am_mod_less [OF wf] by (simp add: status_stop_sn_def Let_def)
qed

lemma am_status_wf_reset: "am_status_ok z p \<Longrightarrow> am_status_wf z (reset_status p) \<and> status_missing (reset_status p) = {}"
  by (auto simp: am_status_wf_def am_status_ok_def status_wf_def status_size_reset)
    (auto simp: reset_status_def status_missing_def)

lemma refresh_status_report_spec:
  assumes core: "am_core s"
  obtains p where
    "refresh_status_report s = Inr (s\<lparr>status_owned_by_writer := status_for_exchange s, status_for_exchange := p,
       status_report_size := packed_size p\<rparr>)"
    "am_status_wf (am_z s) p" "ack_sn p = status_stop_sn s"
    "status_missing p = {(x, b). x < ram_mod s \<and> am_pos s x < am_pos s (status_stop_sn s) \<and>
       b \<in> sdu_missing (cm_lookup (ram_window s) x)}"
proof -
  note c = am_coreD [OF core] and st = status_stop [OF am_coreD(1,2) [OF core]]
  have ok: "am_status_ok (am_z s) (status_owned_by_writer s)" using c(1) by (simp add: am_wf_def Let_def)
  note rs = am_status_wf_reset [OF ok]
  have le: "am_pos s (status_stop_sn s) \<le> am_w s" using st(1) c(2) by (auto simp: am_vars_def)
  have fuel: "am_pos s (status_stop_sn s) - am_pos s (rx_next s) < loop_bound_am s"
    using am_pos_less [of s "status_stop_sn s"] by (simp add: loop_bound_am_wf [OF c(1)])
  obtain q where q: "nack_loop (loop_bound_am s) (rx_next s) (status_stop_sn s) s (reset_status (status_owned_by_writer s)) = Inr q"
    "am_status_wf (am_z s) q" "status_missing q = {(x, b). x < ram_mod s \<and> am_pos s x < am_pos s (status_stop_sn s) \<and>
       b \<in> sdu_missing (cm_lookup (ram_window s) x)}"
    using nack_loop_spec [OF c(1,3) le rs [THEN conjunct1] am_wfD(5) [OF c(1)] _ fuel] rs by auto
  let ?p = "q\<lparr>ack_sn := status_stop_sn s\<rparr>"
  have "am_status_wf (am_z s) ?p"
    using q(2) by (auto simp: am_status_wf_def status_wf_def status_size_ok_def)
  moreover have "status_missing ?p = status_missing q" by (simp add: status_missing_def)
  ultimately show thesis
    using that [of ?p] q(1,3) by (simp add: refresh_status_report_def store_status_report_def)
qed

section \<open>The handlers\<close>

text \<open>The sequence number of a parsed header is below the modulus.\<close>

lemma word_less_bits:
  fixes x :: u32
  assumes "k < 32" "\<And>n. bit x n \<Longrightarrow> n < k"
  shows "x < push_bit k 1"
proof -
  have "take_bit k x = x" by (rule bit_word_eqI) (use assms(2) in \<open>auto simp: bit_take_bit_iff\<close>)
  then have "unat x < 2 ^ k" by (metis take_bit_nat_less_exp unsigned_take_bit_eq)
  then show ?thesis using assms(1) by (simp add: word_less_nat_alt push_bit_eq_mult unat_exp)
qed

lemma am_read_so_sn: "rlc_am_read_so rest h = Some h' \<Longrightarrow> am_sn h' = am_sn h"
  by (auto simp: rlc_am_read_so_def Let_def split: if_splits list.splits)

lemma am_read_sn_less:
  assumes "rlc_am_read_data_pdu_header pdu z h0 = Some h"
  shows "am_sn h < cardinality (to_number_am_sn z)"
proof (cases z)
  case Am_Size12bits
  then obtain b b2 :: u8 where sn: "am_sn h = push_bit 8 (ucast (b AND 0x0f)) OR ucast (b2 AND 0xff)"
    using assms by (auto simp: rlc_am_read_data_pdu_header_def Let_def dest!: am_read_so_sn split: if_splits list.splits)
  show ?thesis
    unfolding sn cardinality_def Am_Size12bits to_number_am_sn.simps
    by (rule word_less_bits) (auto simp: mask_simps bit_simps)
next
  case Am_Size18bits
  then obtain b b2 b3 :: u8 where sn: "am_sn h = (push_bit 16 (ucast (b AND 0x03)) OR push_bit 8 (ucast (b2 AND 0xff))) OR ucast (b3 AND 0xff)"
    using assms by (auto simp: rlc_am_read_data_pdu_header_def Let_def dest!: am_read_so_sn split: if_splits list.splits)
  show ?thesis
    unfolding sn cardinality_def Am_Size18bits to_number_am_sn.simps
    by (rule word_less_bits) (auto simp: mask_simps bit_simps)
qed

definition am_pdu_fits :: "rlc_am_sn_size \<Rightarrow> byte_buffer \<Rightarrow> bool" where
  "am_pdu_fits z buf \<longleftrightarrow>
     (case rlc_am_read_data_pdu_header buf z empty_am_header of
        None \<Rightarrow> True
      | Some header \<Rightarrow> am_segment_fits header (drop (am_header_packed_size header) buf))"

lemma process_data_pdu_inside:
  assumes inv: "am_inv s" and h: "rlc_am_read_data_pdu_header buf (am_z s) empty_am_header = Some h"
    and win: "am_header_packed_size h < length buf" "inside_rx_window s (am_sn h)" "\<not> received_am s (am_sn h)"
    and fit: "am_segment_fits h (drop (am_header_packed_size h) buf)"
  shows "\<exists>c s' as. process_data_pdu alloc now buf s = Inr (c, am_p h \<noteq> 0, s', as) \<and> am_inv s' \<and>
    am_moved (am_sn h) (am_stored h (drop (am_header_packed_size h) buf) (am_old now (am_sn h) s)) s s' \<and>
    delivered as = (case reassemble_sdu_am alloc (am_stored h (drop (am_header_packed_size h) buf) (am_old now (am_sn h) s)) of
      None \<Rightarrow> [] | Some sdu \<Rightarrow> [sdu])"
proof -
  let ?len = "am_header_packed_size h" and ?sn = "am_sn h"
  let ?pay = "drop ?len buf"
  let ?info = "am_stored h ?pay (am_old now ?sn s)"
  have core: "am_core s" using inv by (simp add: am_inv_def)
  note c = am_coreD [OF core]
  have sn: "?sn < ram_mod s" "am_pos s ?sn < am_w s" and ne: "?pay \<noteq> []"
    using am_read_sn_less [OF h] win am_wfD(1) [OF c(1)] by (auto simp: inside_iff [OF c(1)])
  have iok: "am_info_ok ?info" by (rule am_stored_ok [OF am_old_segments [OF c(3) win(3)] ne fit])
  obtain changed w where w: "(if am_si h = Full_Sdu then handle_full_data_sdu_am now h ?pay s
    else handle_segment_data_sdu_am now h ?pay s) = Inr (changed, s\<lparr>ram_window := w\<rparr>)"
    "cm_wf w" "cm_max_size w = cm_max_size (ram_window s)" "cm_lookup w = (cm_lookup (ram_window s))(?sn \<mapsto> ?info)"
    by (rule store_pdu_am_spec [OF c(1,3,2) sn, of now ?pay]) (rule that)
  obtain s1 as where s1: "place_am alloc ?sn (s\<lparr>ram_window := w\<rparr>) = Inr (s1, as)" "am_mid s1" "am_moved ?sn ?info s s1"
    "delivered as = (case reassemble_sdu_am alloc ?info of None \<Rightarrow> [] | Some sdu \<Rightarrow> [sdu])"
    using place_am_spec [OF inv sn iok win(3) w(2-4), of alloc] by blast
  obtain s2 where s2: "update_timer_am s1 = Inr s2" "am_inv s2" "am_same_window s1 s2"
    using update_timer_am_ok [OF s1(2)] by blast
  have "process_data_pdu alloc now buf s = Inr (changed, am_p h \<noteq> 0, s2, as)"
    using win h unfolding process_data_pdu_def am_z_def [symmetric] Let_def by (simp add: w(1) s1(1) s2(1))
  then show ?thesis using am_moved_same [OF s1(3) s2(3)] s1(4) s2(2) by simp
qed

lemma process_data_pdu_outside:
  assumes h: "rlc_am_read_data_pdu_header buf (am_z s) empty_am_header = Some h"
    and win: "am_header_packed_size h < length buf" "\<not> inside_rx_window s (am_sn h) \<or> received_am s (am_sn h)"
  shows "process_data_pdu alloc now buf s = Inr (False, am_p h \<noteq> 0, s, [])"
  using h win by (auto simp: process_data_pdu_def am_z_def Let_def)

lemma process_data_pdu_ok:
  assumes inv: "am_inv s" and fits: "am_pdu_fits (am_z s) buf"
  shows "\<exists>c r s' as. process_data_pdu alloc now buf s = Inr (c, r, s', as) \<and> am_inv s' \<and> ram_cfg s' = ram_cfg s"
proof (cases "rlc_am_read_data_pdu_header buf (am_z s) empty_am_header")
  case None
  then show ?thesis using inv by (auto simp: process_data_pdu_def am_z_def)
next
  case (Some h)
  have fit: "am_segment_fits h (drop (am_header_packed_size h) buf)" using fits Some by (simp add: am_pdu_fits_def)
  consider "length buf \<le> am_header_packed_size h"
    | "am_header_packed_size h < length buf" "\<not> inside_rx_window s (am_sn h) \<or> received_am s (am_sn h)"
    | "am_header_packed_size h < length buf" "inside_rx_window s (am_sn h)" "\<not> received_am s (am_sn h)" by fastforce
  then show ?thesis
  proof cases
    case 1
    then show ?thesis using inv Some by (auto simp: process_data_pdu_def am_z_def Let_def)
  next
    case 2
    then show ?thesis using process_data_pdu_outside [OF Some 2] inv by auto
  next
    case 3
    then show ?thesis using process_data_pdu_inside [OF inv Some 3 fit, of alloc now] am_moved_cfg by blast
  qed
qed

text \<open>The invariant does not depend on the reports and the flags for them.\<close>

lemma am_inv_cong:
  assumes "am_inv s" "rlc_rx_am_state.truncate s' = rlc_rx_am_state.truncate s" "ram_cfg s' = ram_cfg s"
    "max_nof_sn_per_status_report s' = max_nof_sn_per_status_report s" "ram_mod s' = ram_mod s"
    "ram_window_size s' = ram_window_size s" "ram_window s' = ram_window s"
    "ram_reassembly_timer s' = ram_reassembly_timer s" "am_status_ok (am_z s) (status_owned_by_writer s')"
    "am_status_ok (am_z s) (status_for_exchange s')" "am_status_ok (am_z s) (status_owned_by_reader s')"
  shows "am_inv s'"
proof -
  have st: "rx_next s' = rx_next s" "rx_next_status_trigger s' = rx_next_status_trigger s"
    "rx_highest_status s' = rx_highest_status s" "ram_next_highest s' = ram_next_highest s"
    using assms(2) by (simp_all add: rlc_rx_am_state.defs)
  have z: "am_z s' = am_z s" "am_w s' = am_w s" "am_pos s' = am_pos s"
    using assms(3) st by (simp_all add: am_z_def am_w_def am_pos_def fun_eq_iff)
  note same = st z assms(3-8)
  have core: "am_wf s" "am_vars s" "am_keys s" "am_prev s (ram_next_highest s)" "am_first s"
    "timer_set (ram_reassembly_timer s)" "am_timer s"
    using assms(1) by (simp_all add: am_inv_def am_core_def)
  have "am_wf s'" using core(1) assms(9-11) unfolding am_wf_def Let_def same by auto
  moreover have "am_vars s'" using core(2) unfolding am_vars_def same .
  moreover have "am_keys s'" using core(3) unfolding am_keys_def same .
  moreover have prev: "am_prev s' = am_prev s" by (simp add: am_prev_def same fun_eq_iff)
  moreover have "am_first s'" using core(5) unfolding am_first_def received_am_def same .
  moreover have "am_timer s'" using core(7) unfolding am_timer_def prev same .
  ultimately show ?thesis using core(4,6) by (simp add: am_inv_def am_core_def same)
qed

lemma am_inv_status_ok:
  assumes "am_inv s"
  shows "am_status_ok (am_z s) (status_owned_by_writer s)" "am_status_ok (am_z s) (status_for_exchange s)"
    "am_status_ok (am_z s) (status_owned_by_reader s)"
  using assms by (simp_all add: am_inv_def am_core_def am_wf_def Let_def)

lemma refresh_status_report_ok:
  assumes "am_inv s"
  shows "\<exists>s'. refresh_status_report s = Inr s' \<and> am_inv s' \<and> ram_cfg s' = ram_cfg s"
proof -
  have core: "am_core s" using assms by (simp add: am_inv_def)
  obtain p where p: "refresh_status_report s = Inr (s\<lparr>status_owned_by_writer := status_for_exchange s, status_for_exchange := p,
       status_report_size := packed_size p\<rparr>)" "am_status_wf (am_z s) p"
    by (rule refresh_status_report_spec [OF core]) (rule that)
  have "am_status_ok (am_z s) p" using p(2) by (auto simp: am_status_wf_def am_status_ok_def status_wf_def)
  then have "am_inv (s\<lparr>status_owned_by_writer := status_for_exchange s, status_for_exchange := p,
       status_report_size := packed_size p\<rparr>)"
    using am_inv_status_ok [OF assms] by (intro am_inv_cong [OF assms]) (simp_all add: rlc_rx_am_state.defs)
  then show ?thesis using p(1) by simp
qed

lemma am_inv_do_status: "am_inv s \<Longrightarrow> am_inv (s\<lparr>do_status := d\<rparr>)"
  by (rule am_inv_cong, assumption) (simp_all add: rlc_rx_am_state.defs am_inv_status_ok)

lemma handle_data_pdu_after:
  assumes "process_data_pdu alloc now buf s = Inr (c, r, s1, as)" "am_inv s1" "ram_cfg s1 = ram_cfg s"
  shows "\<exists>s' as'. handle_data_pdu alloc now buf s = Inr (s', as') \<and> am_inv s' \<and> ram_cfg s' = ram_cfg s \<and>
    delivered as' = delivered as \<and>
    (if c \<or> r then \<exists>s2. refresh_status_report s1 = Inr s2 \<and> s' = (if r then s2\<lparr>do_status := True\<rparr> else s2) else s' = s1)"
proof -
  obtain s2 where s2: "refresh_status_report s1 = Inr s2" "am_inv s2" "ram_cfg s2 = ram_cfg s1"
    using refresh_status_report_ok [OF assms(2)] by blast
  have n: "delivered (notify_status_report_changed t) = []" for t by (simp add: notify_status_report_changed_def)
  show ?thesis using assms s2 am_inv_do_status n by (auto simp: handle_data_pdu_def Let_def)
qed

lemma handle_pdu_am_ok:
  assumes inv: "am_inv s" and fits: "am_pdu_fits (am_z s) buf"
  shows "\<exists>s' as st. handle_pdu_am alloc now buf s = Inr (s', as, st) \<and> am_inv s' \<and> ram_cfg s' = ram_cfg s"
proof -
  obtain c r s1 as where p: "process_data_pdu alloc now buf s = Inr (c, r, s1, as)" "am_inv s1" "ram_cfg s1 = ram_cfg s"
    using process_data_pdu_ok [OF assms] by blast
  have "\<exists>s' as. handle_data_pdu alloc now buf s = Inr (s', as) \<and> am_inv s' \<and> ram_cfg s' = ram_cfg s"
    using handle_data_pdu_after [OF p] by blast
  then show ?thesis using inv by (auto simp: handle_pdu_am_def Let_def)
qed

lemma expiry_am_ok:
  assumes inv: "am_inv s" and run: "is_running (ram_reassembly_timer s)"
  shows "\<exists>s' as. on_expired_reassembly_timer_am (s\<lparr>ram_reassembly_timer := timer_stop (ram_reassembly_timer s)\<rparr>) = Inr (s', as) \<and>
    am_inv s' \<and> ram_cfg s' = ram_cfg s \<and>
    (\<exists>s1 s2. am_inv s1 \<and> am_same_window s s1 \<and> refresh_status_report s1 = Inr s2 \<and> s' = s2\<lparr>do_status := True\<rparr>)"
proof -
  let ?s = "s\<lparr>ram_reassembly_timer := timer_stop (ram_reassembly_timer s)\<rparr>"
  let ?t = "rx_next_status_trigger ?s"
  have core0: "am_core s" using inv by (simp add: am_inv_def)
  have core: "am_core ?s"
    using am_core_timer(1) [OF core0, of "timer_stop (ram_reassembly_timer s)"] am_coreD(6) [OF core0] by simp
  note c = am_coreD [OF core]
  have t: "0 < am_pos ?s ?t" "am_pos ?s ?t \<le> am_pos ?s (ram_next_highest ?s)"
    using inv run by (auto simp: am_inv_def am_timer_def)
  have nh: "am_pos ?s (ram_next_highest ?s) \<le> am_w ?s" using c(2) by (simp add: am_vars_def)
  have fuel: "am_pos ?s (ram_next_highest ?s) - am_pos ?s ?t < loop_bound_am ?s"
    unfolding loop_bound_am_wf [OF c(1)] using nh by linarith
  obtain y where y: "first_missing_am (loop_bound_am ?s) ?t ?s = Inr y" "y < ram_mod ?s" "am_pos ?s ?t \<le> am_pos ?s y"
    "am_pos ?s y \<le> am_pos ?s (ram_next_highest ?s)" "\<not> received_am ?s y"
    using first_missing_spec [OF c(1) am_wfD(6) [OF c(1)] t(2) nh fuel c(3)] by blast
  have va: "valid_ack_sn_rx ?s ?t" "valid_ack_sn_rx ?s y"
    unfolding valid_ack_iff [OF c(1)] using t y(3,4) nh by linarith+
  let ?s1 = "?s\<lparr>rx_highest_status := y\<rparr>"
  note u = am_upd_status [OF y(4,2)]
  have "am_first ?s1" using c(5) y(5) u(6) by (simp add: am_first_def)
  then have core1: "am_core ?s1" using u c by (simp add: am_core_def)
  have "Suc (am_pos ?s y) < 2 * am_w ?s" using y(4) nh am_w_pos [of ?s] by linarith
  then have sp: "am_pos ?s1 (y + 1) = Suc (am_pos ?s1 y)"
    using am_pos_succ [OF c(1), of y] am_pos_mod [OF c(1), of "y + 1"] by simp
  have nr: "\<not> is_running (ram_reassembly_timer ?s1)" by simp
  obtain s2 where s2: "restart_timer_am y ?s1 = Inr s2" "am_inv s2" "am_same_window ?s1 s2"
    using restart_timer_am_ok [OF core1 nr sp] by blast
  obtain s3 where s3: "refresh_status_report s2 = Inr s3" "am_inv s3" "ram_cfg s3 = ram_cfg s2"
    using refresh_status_report_ok [OF s2(2)] by blast
  have "on_expired_reassembly_timer_am ?s = Inr (s3\<lparr>do_status := True\<rparr>, notify_status_report_changed (s3\<lparr>do_status := True\<rparr>))"
    unfolding on_expired_reassembly_timer_am_def using va y(1) s2(1) s3(1) by (simp add: srsran_assert_def Let_def)
  moreover have "am_same_window s s2"
    by (rule am_same_window_trans [OF _ s2(3)]) (simp add: am_same_window_def am_same_reports_def)
  ultimately show ?thesis using am_inv_do_status [OF s3(2)] am_same_windowD(5) [OF s2(3)] s2(2) s3(1,3) by auto
qed

section \<open>Histories of a receiver\<close>

text \<open>
  The states after any sequence of PDUs, expiries of the two timers, reports fetched (and possibly trimmed) by
  the transmitting side, and stops. The segments stay below the offset that marks the end of an SDU.
\<close>

inductive am_reach :: "rlc_rx_am_config \<Rightarrow> rlc_rx_am_entity \<Rightarrow> bool" for cfg where
  am_new: "new_rx_am cfg = Inr s \<Longrightarrow> am_reach cfg s"
| am_pdu: "am_reach cfg s \<Longrightarrow> am_pdu_fits (rxam_sn_field_length cfg) buf \<Longrightarrow>
    handle_pdu_am alloc now buf s = Inr (s', as, st) \<Longrightarrow> am_reach cfg s'"
| am_expiry: "am_reach cfg s \<Longrightarrow> is_running (ram_reassembly_timer s) \<Longrightarrow>
    on_expired_reassembly_timer_am (s\<lparr>ram_reassembly_timer := timer_stop (ram_reassembly_timer s)\<rparr>) = Inr (s', as) \<Longrightarrow>
    am_reach cfg s'"
| am_get: "am_reach cfg s \<Longrightarrow> get_status_pdu s = (p, b, s') \<Longrightarrow> am_reach cfg (s'\<lparr>status_owned_by_reader := snd (trim n p)\<rparr>)"
| am_prohibit_run: "am_reach cfg s \<Longrightarrow> run_status_prohibit_timer s = Inr s' \<Longrightarrow> am_reach cfg s'"
| am_prohibit_expiry: "am_reach cfg s \<Longrightarrow>
    on_expired_status_prohibit_timer (s\<lparr>status_prohibit_timer := timer_stop (status_prohibit_timer s)\<rparr>) = (s', as) \<Longrightarrow>
    am_reach cfg s'"
| am_stop: "am_reach cfg s \<Longrightarrow> am_reach cfg (stop_am s)"

lemma trim_loop_frame: "st_sn_size (trim_loop n p) = st_sn_size p" "st_mod_nr (trim_loop n p) = st_mod_nr p"
proof (induction n p rule: trim_loop.induct)
  case (1 n p)
  { case 1 then show ?case using "1.IH" by (subst trim_loop.simps) auto }
  { case 2 then show ?case using "1.IH" by (subst trim_loop.simps) auto }
qed

lemma am_status_ok_trim: "am_status_ok z p \<Longrightarrow> am_status_ok z (snd (trim n p))"
  by (simp add: trim_def am_status_ok_def trim_loop_frame)

lemma new_rx_am_inv:
  assumes "new_rx_am cfg = Inr s" "0 < rxam_t_reassembly cfg"
  shows "am_inv s" "ram_cfg s = cfg" "cm_lookup (ram_window s) x = None"
proof -
  let ?z = "rxam_sn_field_length cfg"
  let ?w = "window_size (to_number_am_sn ?z)"
  obtain m where m: "max_sn_of_config cfg = Inr m" using assms(1) by (auto simp: new_rx_am_def Let_def bind_res_Inr_iff)
  have "0 < ?w" by (simp add: window_size_am split: rlc_am_sn_size.split)
  then have mx: "0 < m \<and> m \<le> ?w"
    using m by (auto simp: max_sn_of_config_def Let_def srsran_assert_def split: option.splits if_splits)
  have s: "s = \<lparr>rx_next = 0, rx_next_status_trigger = 0, rx_highest_status = 0, ram_next_highest = 0,
           ram_cfg = cfg, max_nof_sn_per_status_report = m, do_status = False,
           ram_mod = cardinality (to_number_am_sn ?z), ram_window_size = ?w, ram_window = new_circular_map (unat ?w),
           status_owned_by_writer = new_status_pdu ?z, status_for_exchange = (new_status_pdu ?z)\<lparr>ack_sn := 0\<rparr>,
           status_owned_by_reader = new_status_pdu ?z, status_report_size = packed_size (new_status_pdu ?z),
           status_prohibit_timer_is_running = False,
           status_prohibit_timer = new_timer (rxam_t_status_prohibit cfg),
           ram_reassembly_timer = new_timer (rxam_t_reassembly cfg), ram_stopped = False\<rparr>"
    using assms(1) m by (simp add: new_rx_am_def Let_def)
  have "\<exists>j. unat ?w = 2 ^ j" using window_size_am [of ?z] by (cases ?z) (auto intro: exI [of _ 11] exI [of _ 17])
  then have "cm_wf (new_circular_map (unat ?w) :: rlc_rx_am_sdu_info circular_map)" using cm_wf_new by metis
  moreover have "cm_max_size (new_circular_map (unat ?w) :: rlc_rx_am_sdu_info circular_map) = unat ?w"
    by (simp add: new_circular_map_def)
  ultimately have wf: "am_wf s"
    using mx am_ring.m_pos
    by (simp add: am_wf_def Let_def am_w_def am_z_def s am_status_ok_def new_status_pdu_def)
  show look: "cm_lookup (ram_window s) x = None" for x by (simp add: s)
  have p0: "am_pos s 0 = 0" using am_pos_next [of s] by (simp add: s)
  have "am_vars s" "am_keys s" "am_prev s (ram_next_highest s)" "am_first s" "am_timer s" "timer_set (ram_reassembly_timer s)"
    using p0 assms(2) look by (simp_all add: am_vars_def am_keys_def am_prev_def am_first_def am_timer_def received_iff) (simp_all add: s)
  with wf show "am_inv s" by (simp add: am_inv_def am_core_def)
  show "ram_cfg s = cfg" by (simp add: s)
qed

definition am_reach_inv :: "rlc_rx_am_config \<Rightarrow> rlc_rx_am_entity \<Rightarrow> bool" where
  "am_reach_inv cfg s \<longleftrightarrow> am_inv s \<and> ram_cfg s = cfg"

lemma stop_am_inv:
  assumes "am_inv s"
  shows "am_inv (stop_am s)"
proof -
  have core: "am_core s" using assms by (simp add: am_inv_def)
  let ?s = "s\<lparr>ram_reassembly_timer := timer_stop (ram_reassembly_timer s)\<rparr>"
  have s1: "am_inv ?s"
    using am_core_timer(1) [OF core, of "timer_stop (ram_reassembly_timer s)"] am_coreD(6) [OF core]
    by (simp add: am_inv_def am_timer_def)
  then show ?thesis
    using assms am_inv_status_ok [OF s1] am_inv_cong [OF s1, of "stop_am s"] by (auto simp: stop_am_def rlc_rx_am_state.defs)
qed

lemma am_reach_ok:
  assumes "am_reach cfg s" "0 < rxam_t_reassembly cfg"
  shows "am_reach_inv cfg s"
  using assms(1)
proof induction
  case (am_new s)
  then show ?case using new_rx_am_inv [OF _ assms(2)] by (simp add: am_reach_inv_def)
next
  case (am_pdu s buf alloc now s' as st)
  then show ?case using handle_pdu_am_ok [of s buf alloc now] by (auto simp: am_reach_inv_def am_z_def)
next
  case (am_expiry s s' as)
  then show ?case using expiry_am_ok [of s] by (auto simp: am_reach_inv_def)
next
  case (am_get s p b s' n)
  then have inv: "am_inv s" and cfg: "ram_cfg s = cfg" by (simp_all add: am_reach_inv_def)
  note ok = am_inv_status_ok [OF inv]
  have p: "p = status_for_exchange s" and c: "ram_cfg s' = ram_cfg s" "status_for_exchange s' = status_owned_by_reader s"
    using am_get.hyps(2) by (auto simp: get_status_pdu_def Let_def split: if_splits)
  have "am_inv (s'\<lparr>status_owned_by_reader := snd (trim n p)\<rparr>)"
    by (rule am_inv_cong [OF inv])
      (use am_get.hyps(2) ok am_status_ok_trim [OF ok(2), of n] in
        \<open>auto simp: get_status_pdu_def Let_def p rlc_rx_am_state.defs split: if_splits\<close>)
  then show ?case using cfg c by (simp add: am_reach_inv_def)
next
  case (am_prohibit_run s s')
  then have inv: "am_inv s" and cfg: "ram_cfg s = cfg" by (simp_all add: am_reach_inv_def)
  have "\<exists>t. s' = s\<lparr>status_prohibit_timer := t\<rparr>"
    using am_prohibit_run.hyps(2) by (auto simp: run_status_prohibit_timer_def bind_res_Inr_iff)
  then show ?case
    using cfg am_inv_status_ok [OF inv] am_inv_cong [OF inv, of s'] by (auto simp: am_reach_inv_def rlc_rx_am_state.defs)
next
  case (am_prohibit_expiry s s' as)
  then have inv: "am_inv s" and cfg: "ram_cfg s = cfg" by (simp_all add: am_reach_inv_def)
  show ?case
    using am_prohibit_expiry.hyps(2) cfg am_inv_status_ok [OF inv] am_inv_cong [OF inv, of s']
    by (auto simp: am_reach_inv_def rlc_rx_am_state.defs on_expired_status_prohibit_timer_def Let_def)
next
  case (am_stop s)
  then show ?case using stop_am_inv by (auto simp: am_reach_inv_def stop_am_def)
qed

text \<open>
  C5. Whatever PDUs arrive and whenever the timers expire, an AM receiver with a configured t-Reassembly
  never fails an assertion, in particular those of the window, of the status report and of RX\_Highest\_Status,
  and its loops end, provided that the bytes of a segment stay below the offset 65535.
\<close>

theorem rx_am_never_faults:
  assumes "am_reach cfg s" "0 < rxam_t_reassembly cfg" "am_pdu_fits (rxam_sn_field_length cfg) buf"
  shows "is_ok (handle_pdu_am alloc now buf s) \<and> is_ok (refresh_status_report s) \<and>
    (is_running (ram_reassembly_timer s) \<longrightarrow>
      is_ok (on_expired_reassembly_timer_am (s\<lparr>ram_reassembly_timer := timer_stop (ram_reassembly_timer s)\<rparr>)))"
proof -
  have inv: "am_inv s" "ram_cfg s = cfg" using am_reach_ok [OF assms(1,2)] by (simp_all add: am_reach_inv_def)
  then show ?thesis
    using handle_pdu_am_ok [OF inv(1), of buf alloc now] refresh_status_report_ok [OF inv(1)] expiry_am_ok [OF inv(1)] assms(3)
    by (auto simp: am_z_def)
qed

theorem rx_am_never_faults_witness:
  "\<exists>s. new_rx_am (sample_rx_am_cfg 50) = Inr s \<and> is_ok (handle_pdu_am True 0 [0xB0, 0, 0, 1, 7] s)"
proof -
  have f: "am_pdu_fits (rxam_sn_field_length (sample_rx_am_cfg 50)) [0xB0, 0, 0, 1, 7]"
    by (simp add: am_pdu_fits_def am_segment_fits_def rx_am_eval)
  obtain s where s: "new_rx_am (sample_rx_am_cfg 50) = Inr s" by (simp add: rx_am_eval)
  from rx_am_never_faults [OF am_new [OF s] _ f, of True 0] show ?thesis using s by (simp add: sample_rx_am_cfg_def)
qed

text \<open>
  C14. The state variables of the AM receiver keep their order, counted from RX\_Next: RX\_Highest\_Status,
  RX\_Next\_Highest, the end of the window. The window holds SDUs between RX\_Next and RX\_Next\_Highest only, the
  one just below RX\_Next\_Highest among them. The SDUs at RX\_Next and RX\_Highest\_Status are not complete, and a
  running t-Reassembly has its trigger above RX\_Next.
\<close>

theorem rx_am_window_order:
  assumes "am_reach cfg s" "0 < rxam_t_reassembly cfg"
  shows "rx_mod_base_am s (rx_highest_status s) \<le> rx_mod_base_am s (ram_next_highest s) \<and>
    rx_mod_base_am s (ram_next_highest s) \<le> ram_window_size s \<and>
    (\<forall>x. has_sn (ram_window s) x \<longrightarrow> x < ram_mod s \<and> rx_mod_base_am s x < rx_mod_base_am s (ram_next_highest s)) \<and>
    (rx_next s \<noteq> ram_next_highest s \<longrightarrow> has_sn (ram_window s) ((ram_next_highest s - 1) mod ram_mod s)) \<and>
    \<not> received_am s (rx_next s) \<and> \<not> received_am s (rx_highest_status s) \<and>
    (is_running (ram_reassembly_timer s) \<longrightarrow> 0 < rx_mod_base_am s (rx_next_status_trigger s) \<and>
      rx_mod_base_am s (rx_next_status_trigger s) \<le> rx_mod_base_am s (ram_next_highest s))"
proof (intro conjI allI impI)
  have inv: "am_inv s" using am_reach_ok [OF assms] by (simp add: am_reach_inv_def)
  then have core: "am_core s" and t: "am_timer s" by (simp_all add: am_inv_def)
  note c = am_coreD [OF core]
  show "rx_mod_base_am s (rx_highest_status s) \<le> rx_mod_base_am s (ram_next_highest s)"
    "rx_mod_base_am s (ram_next_highest s) \<le> ram_window_size s"
    using c(2) by (simp_all add: base_le_iff [OF c(1)] am_vars_def word_le_nat_alt unat_rx_mod_base [OF c(1)] am_wfD(2) [OF c(1)])
  show "x < ram_mod s" "rx_mod_base_am s x < rx_mod_base_am s (ram_next_highest s)" if "has_sn (ram_window s) x" for x
    using c(3) that by (auto simp: am_keys_def has_sn_lookup base_less_iff [OF c(1)])
  show "\<not> received_am s (rx_next s)" "\<not> received_am s (rx_highest_status s)" using c(5) by (simp_all add: am_first_def)
  show "0 < rx_mod_base_am s (rx_next_status_trigger s)"
    "rx_mod_base_am s (rx_next_status_trigger s) \<le> rx_mod_base_am s (ram_next_highest s)"
    if "is_running (ram_reassembly_timer s)"
    using t that by (simp_all add: am_timer_def word_less_nat_alt word_le_nat_alt unat_rx_mod_base [OF c(1)])
  assume ne: "rx_next s \<noteq> ram_next_highest s"
  let ?h = "ram_next_highest s" and ?y = "(ram_next_highest s - 1) mod ram_mod s"
  have pos: "am_pos s ?h \<noteq> 0" using am_pos_inj [OF c(1) am_wfD(8) [OF c(1)] am_wfD(5) [OF c(1)]] ne by auto
  have "am_pos s ((?y + 1) mod ram_mod s) = am_pos s ?h"
    using am_ring.mod_add_of_nat [of "?h - 1" 0 "am_z s" 1] am_pos_mod [OF c(1), of ?h] by (simp add: am_wfD(1) [OF c(1)])
  moreover have "am_pos s ((?y + 1) mod ram_mod s) = (am_pos s ?y + 1) mod (2 * am_w s)"
    using am_ring.dist_succ [of "am_z s" "rx_next s" ?y] by (simp add: am_pos_def am_wfD(1) [OF c(1)] am_ring_N)
  ultimately have "Suc (am_pos s ?y) = am_pos s ?h"
    using pos am_pos_less [of s ?y] by (cases "Suc (am_pos s ?y) = 2 * am_w s") auto
  then show "has_sn (ram_window s) ?y"
    using c(4) am_mod_less [OF c(1)] by (simp add: am_prev_def has_sn_lookup)
qed

text \<open>
  The SDU 1 arrives while nothing of the SDU 0 did, and t-Reassembly expires: the SDUs 0 and 1 are reported, and 1
  is buffered.
\<close>

definition sample_am_gap :: "(rlc_rx_am_entity \<times> rlc_rx_am_entity) res" where
  "sample_am_gap =
     bind_res (new_rx_am (sample_rx_am_cfg 50)) (\<lambda>s. bind_res (handle_pdu_am True 0 [0x80, 1, 9] s) (\<lambda>(s1, as, st).
       bind_res (on_expired_reassembly_timer_am (s1\<lparr>ram_reassembly_timer := timer_stop (ram_reassembly_timer s1)\<rparr>))
         (\<lambda>(s2, as). Inr (s1, s2))))"

lemma sample_am_gap_reach:
  obtains s1 s2 where "sample_am_gap = Inr (s1, s2)" "am_reach (sample_rx_am_cfg 50) s1" "am_reach (sample_rx_am_cfg 50) s2"
    "is_running (ram_reassembly_timer s1)" "rx_next s1 = 0" "ram_next_highest s1 = 2" "rx_next_status_trigger s1 = 2"
    "rx_next s2 = 0" "rx_highest_status s2 = 2" "cm_lookup (ram_window s2) 0 = None" "received_am s2 1"
    "ram_mod s2 = 4096" "max_nof_sn_per_status_report s2 = 2048"
proof -
  have f: "am_pdu_fits (rxam_sn_field_length (sample_rx_am_cfg 50)) [0x80, 1, 9]"
    by (simp add: am_pdu_fits_def am_segment_fits_def rx_am_eval)
  have "case sample_am_gap of Inl _ \<Rightarrow> False
    | Inr (s1, s2) \<Rightarrow> is_running (ram_reassembly_timer s1) \<and> rx_next s1 = 0 \<and> ram_next_highest s1 = 2 \<and>
        rx_next_status_trigger s1 = 2 \<and> rx_next s2 = 0 \<and> rx_highest_status s2 = 2 \<and> \<not> has_sn (ram_window s2) 0 \<and>
        received_am s2 1 \<and> ram_mod s2 = 4096 \<and> max_nof_sn_per_status_report s2 = 2048"
    by (simp add: sample_am_gap_def rx_am_eval handle_full_data_sdu_am_def complete_sdu_am_def reassemble_sdu_am_def
        on_expired_reassembly_timer_am_def timer_stop_def valid_ack_sn_rx_def nack_sdu_def empty_nack_def)
  then obtain s1 s2 where s: "sample_am_gap = Inr (s1, s2)" "is_running (ram_reassembly_timer s1)" "rx_next s1 = 0"
    "ram_next_highest s1 = 2" "rx_next_status_trigger s1 = 2" "rx_next s2 = 0" "rx_highest_status s2 = 2"
    "\<not> has_sn (ram_window s2) 0" "received_am s2 1" "ram_mod s2 = 4096" "max_nof_sn_per_status_report s2 = 2048"
    by (auto split: sum.splits prod.splits)
  obtain s0 as st as' where e: "new_rx_am (sample_rx_am_cfg 50) = Inr s0"
    "handle_pdu_am True 0 [0x80, 1, 9] s0 = Inr (s1, as, st)"
    "on_expired_reassembly_timer_am (s1\<lparr>ram_reassembly_timer := timer_stop (ram_reassembly_timer s1)\<rparr>) = Inr (s2, as')"
    using s(1) by (auto simp: sample_am_gap_def bind_res_Inr_iff)
  note r1 = am_pdu [OF am_new [OF e(1)] f e(2)]
  from s(8) have "cm_lookup (ram_window s2) 0 = None" by (simp add: has_sn_lookup)
  from that [OF s(1) r1 am_expiry [OF r1 s(2) e(3)] s(2-7) this s(9-11)] show thesis .
qed

theorem rx_am_window_order_witness:
  "\<exists>s1 s2. sample_am_gap = Inr (s1, s2) \<and> is_running (ram_reassembly_timer s1) \<and> rx_next s1 = 0 \<and> ram_next_highest s1 = 2 \<and>
     has_sn (ram_window s1) 1 \<and> \<not> received_am s1 0 \<and> 0 < rx_mod_base_am s1 (rx_next_status_trigger s1)"
proof -
  obtain s1 s2 where s: "sample_am_gap = Inr (s1, s2)" "am_reach (sample_rx_am_cfg 50) s1" "am_reach (sample_rx_am_cfg 50) s2"
    "is_running (ram_reassembly_timer s1)" "rx_next s1 = 0" "ram_next_highest s1 = 2" "rx_next_status_trigger s1 = 2"
    by (rule sample_am_gap_reach)
  have "ram_mod s1 = 4096"
    using am_reach_ok [OF s(2)] am_wfD(1) [of s1]
    by (auto simp: am_reach_inv_def am_inv_def am_core_def am_z_def sample_rx_am_cfg_def cardinality_def push_bit_eq_mult)
  with rx_am_window_order [OF s(2)] s(4-7)
  have "has_sn (ram_window s1) 1 \<and> \<not> received_am s1 0 \<and> 0 < rx_mod_base_am s1 (rx_next_status_trigger s1)"
    by (simp add: sample_rx_am_cfg_def)
  with s show ?thesis by blast
qed

text \<open>
  C8. The status report is exact: in every reachable state the report that is built acknowledges up to
  the smaller of RX\_Highest\_Status and the configured limit above RX\_Next, and the bytes that it reports as missing
  are exactly the bytes below that SN that have not been received: all of an SDU without segments, the gaps
  between its segments, and what follows its last segment unless that is marked as the last one. Its length is
  announced to the transmitting side.
\<close>

theorem rx_am_status_exact:
  assumes "am_reach cfg s" "0 < rxam_t_reassembly cfg"
  shows "\<exists>s'. refresh_status_report s = Inr s' \<and>
    (let p = status_for_exchange s' in
     get_status_pdu_length s' = packed_size p \<and> status_wf p \<and> st_sn_size p = rxam_sn_field_length cfg \<and>
     unat (rx_mod_base_am s (ack_sn p)) =
       min (unat (rx_mod_base_am s (rx_highest_status s))) (unat (max_nof_sn_per_status_report s)) \<and>
     status_missing p = {(x, b). x < ram_mod s \<and> rx_mod_base_am s x < rx_mod_base_am s (ack_sn p) \<and>
       b \<in> sdu_missing (cm_lookup (ram_window s) x)})"
proof -
  have inv: "am_inv s" and cfg: "am_z s = rxam_sn_field_length cfg"
    using am_reach_ok [OF assms] by (auto simp: am_reach_inv_def am_z_def)
  then have core: "am_core s" by (simp add: am_inv_def)
  note c = am_coreD [OF core]
  obtain p where p: "refresh_status_report s = Inr (s\<lparr>status_owned_by_writer := status_for_exchange s, status_for_exchange := p,
       status_report_size := packed_size p\<rparr>)"
    "am_status_wf (am_z s) p" "ack_sn p = status_stop_sn s"
    "status_missing p = {(x, b). x < ram_mod s \<and> am_pos s x < am_pos s (status_stop_sn s) \<and>
       b \<in> sdu_missing (cm_lookup (ram_window s) x)}"
    by (rule refresh_status_report_spec [OF core]) (rule that)
  show ?thesis
    using p cfg status_stop(1) [OF c(1,2)]
    by (simp add: Let_def get_status_pdu_length_def am_status_wf_def unat_rx_mod_base [OF c(1)] base_less_iff [OF c(1)])
qed

theorem rx_am_status_exact_witness:
  "\<exists>s1 s s'. sample_am_gap = Inr (s1, s) \<and> refresh_status_report s = Inr s' \<and>
     unat (rx_mod_base_am s (ack_sn (status_for_exchange s'))) = 2 \<and>
     (0, 5) \<in> status_missing (status_for_exchange s') \<and> (1, 5) \<notin> status_missing (status_for_exchange s')"
proof -
  obtain s1 s where s: "sample_am_gap = Inr (s1, s)" "am_reach (sample_rx_am_cfg 50) s" "rx_next s = 0" "rx_highest_status s = 2"
    "cm_lookup (ram_window s) 0 = None" "received_am s 1" "ram_mod s = 4096" "max_nof_sn_per_status_report s = 2048"
    by (rule sample_am_gap_reach)
  let ?M = "\<lambda>p. {(x, b). x < ram_mod s \<and> rx_mod_base_am s x < rx_mod_base_am s (ack_sn p) \<and> b \<in> sdu_missing (cm_lookup (ram_window s) x)}"
  obtain s' where s': "refresh_status_report s = Inr s'"
    "unat (rx_mod_base_am s (ack_sn (status_for_exchange s'))) =
       min (unat (rx_mod_base_am s (rx_highest_status s))) (unat (max_nof_sn_per_status_report s))"
    "status_missing (status_for_exchange s') = ?M (status_for_exchange s')"
    using rx_am_status_exact [OF s(2)] by (auto simp: Let_def sample_rx_am_cfg_def)
  have base: "rx_mod_base_am s x = x mod 4096" for x by (simp add: rx_mod_base_am_def s(3,7))
  have ack: "unat (rx_mod_base_am s (ack_sn (status_for_exchange s'))) = 2"
    using s'(2) by (simp add: s(4,8) base)
  then have "rx_mod_base_am s 0 < rx_mod_base_am s (ack_sn (status_for_exchange s'))"
    by (simp add: word_less_nat_alt base)
  moreover have "sdu_missing (cm_lookup (ram_window s) 1) = {}"
    using s(6) by (auto simp: received_am_def sdu_missing_def split: option.splits)
  moreover have "5 \<in> sdu_missing (cm_lookup (ram_window s) 0)" by (simp add: s(5) sdu_missing_def)
  ultimately have "(0, 5) \<in> status_missing (status_for_exchange s')" "(1, 5) \<notin> status_missing (status_for_exchange s')"
    unfolding s'(3) by (simp_all add: s(7))
  with s(1) s'(1) ack show ?thesis by blast
qed

section \<open>Delivery\<close>

text \<open>The SDU of which a PDU is a part: a complete one, or a segment of it that starts at its offset.\<close>

definition am_part_of :: "byte_buffer \<Rightarrow> rlc_am_pdu_header \<Rightarrow> byte_buffer \<Rightarrow> bool" where
  "am_part_of sdu h payload \<longleftrightarrow>
     (if am_si h = Full_Sdu then payload = sdu
      else seg_slice sdu \<lparr>seg_si = am_si h, seg_so = am_so h, seg_payload = payload\<rparr>)"

lemma reassemble_stored:
  assumes old: "segs_ok (segment_set old)" "\<forall>g \<in> set (segment_set old). seg_slice sdu g"
    and pay: "payload \<noteq> []" "am_part_of sdu h payload" and sdu: "sdu \<noteq> []" "length sdu \<le> 65535"
  shows "reassemble_sdu_am True (am_stored h payload old) =
    (if am_si h = Full_Sdu \<or> segs_cover (segment_set old) \<union> {unat (am_so h) ..< unat (am_so h) + length payload} =
         {0 ..< length sdu} then Some sdu else None)"
proof (cases "am_si h = Full_Sdu")
  case True
  then show ?thesis using pay(2) by (simp add: am_stored_def reassemble_sdu_am_def am_part_of_def)
next
  case False
  define g where "g = \<lparr>seg_si = am_si h, seg_so = am_so h, seg_payload = payload\<rparr>"
  define segms where "segms = snd (store_segment (segment_set old) g)"
  have g: "seg_slice sdu g" using pay(2) False by (simp add: am_part_of_def g_def)
  then have ok: "seg_ok g" using pay(1) sdu(2) by (simp add: seg_ok_def seg_slice_def) (simp add: g_def)
  have inv: "segs_inv sdu (segment_set old)" using old by (simp add: segs_inv_def)
  have sinv: "segs_inv sdu segms" and cov: "segs_cover segms = segs_cover (segment_set old) \<union> seg_cover g"
    using segs.store_inv [OF inv ok g] segs.store_cover [OF inv ok g] by (simp_all add: segms_def)
  obtain full gap where iv: "update_segment_inventory segms = (full, gap)" by fastforce
  have st: "am_stored h payload old = old\<lparr>sdu_data := Segment_Set segms, am_fully_received := full, am_has_gap := gap\<rparr>"
    using False iv by (simp add: am_stored_def Let_def segms_def g_def)
  have c: "seg_cover g = {unat (am_so h) ..< unat (am_so h) + length payload}" by (simp add: seg_cover_def seg_end_def g_def)
  show ?thesis
    using inventory_correct(1,2) [OF sinv sdu(1)] iv False by (simp add: st reassemble_sdu_am_def cov c)
qed

text \<open>
  C7. Delivery: a data PDU inside the window that is a part of an SDU, all parts that were buffered for
  its SN being parts of the same SDU, is delivered exactly when with it every byte of the SDU has been received, and
  what is delivered is that SDU; nothing is delivered for PDUs outside of the window or for complete SDUs.
\<close>

theorem rx_am_delivers_sdu:
  assumes "am_reach cfg s" "0 < rxam_t_reassembly cfg"
    and "rlc_am_read_data_pdu_header buf (rxam_sn_field_length cfg) empty_am_header = Some h"
    and "drop (am_header_packed_size h) buf = payload" "payload \<noteq> []"
    and "am_part_of sdu h payload" "sdu \<noteq> []" "length sdu \<le> 65535"
    and "\<forall>g \<in> set (segment_set (am_old now (am_sn h) s)). seg_slice sdu g"
  shows "\<exists>s' as. handle_data_pdu True now buf s = Inr (s', as) \<and>
    delivered as =
      (if inside_rx_window s (am_sn h) \<and> \<not> received_am s (am_sn h) \<and>
          (am_si h = Full_Sdu \<or>
           segs_cover (segment_set (am_old now (am_sn h) s)) \<union> {unat (am_so h) ..< unat (am_so h) + length payload} =
             {0 ..< length sdu})
       then [sdu] else [])"
proof -
  have inv: "am_inv s" and z: "am_z s = rxam_sn_field_length cfg"
    using am_reach_ok [OF assms(1,2)] by (auto simp: am_reach_inv_def am_z_def)
  have h: "rlc_am_read_data_pdu_header buf (am_z s) empty_am_header = Some h" using assms(3) z by simp
  have len: "am_header_packed_size h < length buf" using assms(4,5) by auto
  let ?old = "am_old now (am_sn h) s" and ?in = "inside_rx_window s (am_sn h) \<and> \<not> received_am s (am_sn h)"
  show ?thesis
  proof (cases ?in)
    case False
    then have "\<exists>s' as. handle_data_pdu True now buf s = Inr (s', as) \<and> delivered as = []"
      using handle_data_pdu_after [OF process_data_pdu_outside [OF h len, of True now] inv] by auto
    then show ?thesis using False by auto
  next
    case True
    have fit: "am_segment_fits h (drop (am_header_packed_size h) buf)"
      using assms(4,6,8) by (auto simp: am_segment_fits_def am_part_of_def seg_slice_def seg_end_def)
    have keys: "am_keys s" using inv by (simp add: am_inv_def am_core_def)
    obtain c s1 as where p: "process_data_pdu True now buf s = Inr (c, am_p h \<noteq> 0, s1, as)" "am_inv s1" "ram_cfg s1 = ram_cfg s"
      "delivered as = (case reassemble_sdu_am True (am_stored h payload ?old) of None \<Rightarrow> [] | Some sdu \<Rightarrow> [sdu])"
      using process_data_pdu_inside [OF inv h len _ _ fit, of True now] am_moved_cfg True assms(4) by blast
    have "reassemble_sdu_am True (am_stored h payload ?old) =
        (if am_si h = Full_Sdu \<or> segs_cover (segment_set ?old) \<union> {unat (am_so h) ..< unat (am_so h) + length payload} =
             {0 ..< length sdu} then Some sdu else None)"
      using True by (intro reassemble_stored am_old_segments(1) [OF keys] assms(5-9)) auto
    then have "delivered as = (if am_si h = Full_Sdu \<or>
          segs_cover (segment_set ?old) \<union> {unat (am_so h) ..< unat (am_so h) + length payload} = {0 ..< length sdu}
        then [sdu] else [])" using p(4) by simp
    then show ?thesis using handle_data_pdu_after [OF p(1-3)] True by (elim exE conjE) (intro exI conjI, assumption, simp)
  qed
qed

theorem rx_am_delivers_sdu_witness:
  "\<exists>s s' as. new_rx_am (sample_rx_am_cfg 50) = Inr s \<and> handle_data_pdu True 0 [0x80, 0, 1, 2, 3] s = Inr (s', as) \<and>
     delivered as = [[1, 2, 3]]"
proof -
  obtain s where s: "new_rx_am (sample_rx_am_cfg 50) = Inr s" by (simp add: rx_am_eval)
  have t: "0 < rxam_t_reassembly (sample_rx_am_cfg 50)" by (simp add: sample_rx_am_cfg_def)
  let ?h = "\<lparr>am_dc = Dc_Data, am_p = 0, am_si = Full_Sdu, am_sn_size = Am_Size12bits, am_sn = 0, am_so = 0\<rparr>"
  have h: "rlc_am_read_data_pdu_header [0x80, 0, 1, 2, 3] (rxam_sn_field_length (sample_rx_am_cfg 50)) empty_am_header = Some ?h"
    by (simp add: rx_am_eval)
  have pay: "drop (am_header_packed_size ?h) [0x80, 0, 1, 2, 3] = [1, 2, 3 :: u8]" by (simp add: am_header_packed_size_def)
  have none: "cm_lookup (ram_window s) 0 = None" by (rule new_rx_am_inv(3) [OF s t])
  then have "segment_set (am_old 0 (am_sn ?h) s) = []" by (simp add: am_old_def am_fresh_def segment_set_def)
  moreover have "inside_rx_window s 0" "\<not> received_am s 0"
    using s none by (auto simp: rx_am_eval received_am_def)
  ultimately show ?thesis
    using rx_am_delivers_sdu [OF am_new [OF s] t h pay, where sdu = "[1, 2, 3]" and now = 0] s
    by (auto simp: am_part_of_def)
qed

end
