(* ===== verification/Rlc_Retx_Queue.thy ===== *)
theory Rlc_Retx_Queue
  imports Rlc_Am_Pdu
begin

text \<open>
  The queue of retransmissions of the AM transmitter (lib/rlc/rlc_retx_queue.h): a bounded ring buffer
  in which \<open>remove_sn\<close> only marks elements as invalid, with counters of the queued bytes and headers.

  The locale \<open>retx_fifo\<close> is what the transmitter relies on: a queue whose content is a list, whose
  counters summarise that list and whose operations act on it as on a FIFO without invalid elements. It is
  interpreted on the model of the code; the only condition is that the queued bytes fit into 32 bits.
\<close>

record rlc_tx_amd_retx =
  rtx_sn :: u32
  rtx_so :: u32
  rtx_length :: u32

definition includes_range :: "u32 \<Rightarrow> u32 \<Rightarrow> rlc_tx_amd_retx \<Rightarrow> bool" where
  "includes_range segment_offset segment_length r \<longleftrightarrow>
     segment_offset \<ge> rtx_so r \<and> segment_offset + segment_length \<le> rtx_so r + rtx_length r"

record rlc_retx_queue_state =
  retx_bytes :: u32
  n_retx_so_zero :: u32
  n_retx_so_nonzero :: u32

definition empty_retx_state :: rlc_retx_queue_state where
  "empty_retx_state = \<lparr>retx_bytes = 0, n_retx_so_zero = 0, n_retx_so_nonzero = 0\<rparr>"

definition add_retx :: "rlc_tx_amd_retx \<Rightarrow> rlc_retx_queue_state \<Rightarrow> rlc_retx_queue_state" where
  "add_retx r st =
     (let st = st\<lparr>retx_bytes := retx_bytes st + rtx_length r\<rparr>
      in if rtx_so r = 0 then st\<lparr>n_retx_so_zero := n_retx_so_zero st + 1\<rparr>
         else st\<lparr>n_retx_so_nonzero := n_retx_so_nonzero st + 1\<rparr>)"

definition subtract_retx :: "rlc_tx_amd_retx \<Rightarrow> rlc_retx_queue_state \<Rightarrow> rlc_retx_queue_state" where
  "subtract_retx r st =
     (let st = (if retx_bytes st \<ge> rtx_length r then st\<lparr>retx_bytes := retx_bytes st - rtx_length r\<rparr>
                else st\<lparr>retx_bytes := 0\<rparr>)
      in if rtx_so r = 0 then
           (if n_retx_so_zero st > 0 then st\<lparr>n_retx_so_zero := n_retx_so_zero st - 1\<rparr> else st)
         else
           (if n_retx_so_nonzero st > 0 then st\<lparr>n_retx_so_nonzero := n_retx_so_nonzero st - 1\<rparr> else st))"

record rlc_retx_queue_item =
  item_invalid :: bool
  item_retx :: rlc_tx_amd_retx

text \<open>The content of the ring buffer, its size and the counters.\<close>

record rlc_retx_queue =
  rq_queue :: "rlc_retx_queue_item list"
  rq_capacity :: nat
  rq_st :: rlc_retx_queue_state

definition new_retx_queue :: "nat \<Rightarrow> rlc_retx_queue" where
  "new_retx_queue capacity = \<lparr>rq_queue = [], rq_capacity = capacity, rq_st = empty_retx_state\<rparr>"

definition retx_item :: "rlc_tx_amd_retx \<Rightarrow> rlc_retx_queue_item" where
  "retx_item r = \<lparr>item_invalid = False, item_retx = r\<rparr>"

definition try_push_retx :: "rlc_tx_amd_retx \<Rightarrow> rlc_retx_queue \<Rightarrow> bool \<times> rlc_retx_queue" where
  "try_push_retx r q =
     (if length (rq_queue q) = rq_capacity q then (False, q)
      else (True, q\<lparr>rq_queue := rq_queue q @ [retx_item r], rq_st := add_retx r (rq_st q)\<rparr>))"

fun clean_invalid_front :: "rlc_retx_queue_item list \<Rightarrow> rlc_retx_queue_item list" where
  "clean_invalid_front [] = []"
| "clean_invalid_front (x # xs) = (if item_invalid x then clean_invalid_front xs else x # xs)"

fun pop_retx_items :: "rlc_retx_queue_item list \<Rightarrow> rlc_retx_queue_state \<Rightarrow>
    rlc_retx_queue_item list \<times> rlc_retx_queue_state" where
  "pop_retx_items [] st = ([], st)"
| "pop_retx_items (x # xs) st = (clean_invalid_front xs, subtract_retx (item_retx x) st)"

definition pop_retx :: "rlc_retx_queue \<Rightarrow> rlc_retx_queue" where
  "pop_retx q = (let (xs, st) = pop_retx_items (rq_queue q) (rq_st q) in q\<lparr>rq_queue := xs, rq_st := st\<rparr>)"

definition empty_retx :: "rlc_retx_queue \<Rightarrow> bool" where
  "empty_retx q \<longleftrightarrow> rq_queue q = []"

definition front_retx :: "rlc_retx_queue \<Rightarrow> rlc_tx_amd_retx res" where
  "front_retx q =
     (case rq_queue q of
        [] \<Rightarrow> Inl (Assertion_Failure ''Cannot return front element of empty queue.'')
      | x # xs \<Rightarrow> bind_res (srsran_assert (\<not> item_invalid x) ''Cannot return front element. The front is invalid.'')
          (\<lambda>_. Inr (item_retx x)))"

definition replace_front :: "rlc_tx_amd_retx \<Rightarrow> rlc_retx_queue \<Rightarrow> rlc_retx_queue res" where
  "replace_front r q =
     (case rq_queue q of
        [] \<Rightarrow> Inl (Assertion_Failure ''Cannot replace front element of empty queue.'')
      | x # xs \<Rightarrow> bind_res (srsran_assert (\<not> item_invalid x) ''Cannot replace front element. The front is invalid.'')
          (\<lambda>_. Inr (q\<lparr>rq_queue := retx_item r # xs,
             rq_st := add_retx r (subtract_retx (item_retx x) (rq_st q))\<rparr>)))"

definition clear_retx :: "rlc_retx_queue \<Rightarrow> rlc_retx_queue" where
  "clear_retx q = q\<lparr>rq_queue := [], rq_st := empty_retx_state\<rparr>"

definition has_sn_retx :: "u32 \<Rightarrow> rlc_retx_queue \<Rightarrow> bool" where
  "has_sn_retx sn q \<longleftrightarrow> (\<exists>x \<in> set (rq_queue q). \<not> item_invalid x \<and> rtx_sn (item_retx x) = sn)"

definition has_sn_segment :: "u32 \<Rightarrow> u32 \<Rightarrow> u32 \<Rightarrow> rlc_retx_queue \<Rightarrow> bool" where
  "has_sn_segment sn so len q \<longleftrightarrow>
     (\<exists>x \<in> set (rq_queue q). \<not> item_invalid x \<and> rtx_sn (item_retx x) = sn \<and> includes_range so len (item_retx x))"

text \<open>The loop visits an element that it marks twice, and passes it the second time.\<close>

fun remove_sn_loop :: "u32 \<Rightarrow> rlc_retx_queue_item list \<Rightarrow> rlc_retx_queue_state \<Rightarrow>
    bool \<times> rlc_retx_queue_item list \<times> rlc_retx_queue_state" where
  "remove_sn_loop sn [] st = (False, [], st)"
| "remove_sn_loop sn (x # xs) st =
     (if \<not> item_invalid x \<and> rtx_sn (item_retx x) = sn then
        (let (r, ys, st) = remove_sn_loop sn xs (subtract_retx (item_retx x) st)
         in (True, x\<lparr>item_invalid := True\<rparr> # ys, st))
      else (let (r, ys, st) = remove_sn_loop sn xs st in (r, x # ys, st)))"

definition remove_sn_retx :: "u32 \<Rightarrow> rlc_retx_queue \<Rightarrow> bool \<times> rlc_retx_queue" where
  "remove_sn_retx sn q =
     (if rq_queue q = [] then (False, q)
      else (let (r, xs, st) = remove_sn_loop sn (rq_queue q) (rq_st q)
            in (r, q\<lparr>rq_queue := clean_invalid_front xs, rq_st := st\<rparr>)))"

section \<open>The contract\<close>

text \<open>What the counters say of the elements that are queued.\<close>

definition retx_total :: "rlc_tx_amd_retx list \<Rightarrow> nat" where
  "retx_total xs = sum_list (map (unat \<circ> rtx_length) xs)"

definition retx_summary :: "rlc_tx_amd_retx list \<Rightarrow> rlc_retx_queue_state" where
  "retx_summary xs =
     \<lparr>retx_bytes = of_nat (retx_total xs),
      n_retx_so_zero = of_nat (length (filter (\<lambda>r. rtx_so r = 0) xs)),
      n_retx_so_nonzero = of_nat (length (filter (\<lambda>r. rtx_so r \<noteq> 0) xs))\<rparr>"

definition retx_fits :: "rlc_tx_amd_retx list \<Rightarrow> bool" where
  "retx_fits xs \<longleftrightarrow> retx_total xs < 2 ^ 32"

locale retx_fifo =
  fixes rview :: "'q \<Rightarrow> rlc_tx_amd_retx list" and rinv :: "'q \<Rightarrow> bool" and rstate :: "'q \<Rightarrow> rlc_retx_queue_state"
    and rpush :: "rlc_tx_amd_retx \<Rightarrow> 'q \<Rightarrow> bool \<times> 'q" and rpop :: "'q \<Rightarrow> 'q"
    and rfront :: "'q \<Rightarrow> rlc_tx_amd_retx res" and rreplace :: "rlc_tx_amd_retx \<Rightarrow> 'q \<Rightarrow> 'q res"
    and rremove :: "u32 \<Rightarrow> 'q \<Rightarrow> bool \<times> 'q"
  assumes state_exact: "rinv q \<Longrightarrow> rstate q = retx_summary (rview q)"
    and front_ok: "rinv q \<Longrightarrow> rview q \<noteq> [] \<Longrightarrow> rfront q = Inr (hd (rview q))"
    and front_fault: "rinv q \<Longrightarrow> rview q = [] \<Longrightarrow> \<not> is_ok (rfront q)"
    and push_ok: "rinv q \<Longrightarrow> retx_fits (rview q @ [r]) \<Longrightarrow> rpush r q = (b, q') \<Longrightarrow>
      rinv q' \<and> rview q' = rview q @ (if b then [r] else [])"
    and pop_ok: "rinv q \<Longrightarrow> rinv (rpop q) \<and> rview (rpop q) = tl (rview q)"
    and replace_ok: "rinv q \<Longrightarrow> rview q \<noteq> [] \<Longrightarrow> retx_fits (r # tl (rview q)) \<Longrightarrow>
      \<exists>q'. rreplace r q = Inr q' \<and> rinv q' \<and> rview q' = r # tl (rview q)"
    and remove_ok: "rinv q \<Longrightarrow> rremove sn q = (b, q') \<Longrightarrow>
      rinv q' \<and> rview q' = filter (\<lambda>r. rtx_sn r \<noteq> sn) (rview q) \<and> (b \<longleftrightarrow> sn \<in> rtx_sn ` set (rview q))"
begin

text \<open>Popping until the queue is empty, the way the status handler clears it, ends and leaves zero counters.\<close>

lemma drain:
  assumes "rinv q"
  shows "rinv ((rpop ^^ length (rview q)) q)" "rview ((rpop ^^ length (rview q)) q) = []"
proof -
  have "rinv ((rpop ^^ n) q) \<and> rview ((rpop ^^ n) q) = drop n (rview q)" for n
    by (induction n) (use assms pop_ok in \<open>auto simp: drop_Suc tl_drop\<close>)
  then show "rinv ((rpop ^^ length (rview q)) q)" "rview ((rpop ^^ length (rview q)) q) = []" by simp_all
qed

lemma drained_state: "rinv q \<Longrightarrow> rview q = [] \<Longrightarrow> rstate q = empty_retx_state"
  using state_exact [of q] by (simp add: retx_summary_def empty_retx_state_def retx_total_def)

text \<open>The bytes reported for the queue: every element with the header that it will need.\<close>

lemma reported_bytes:
  assumes "rinv q" "retx_total (rview q) + length (rview q) * unat hi < 2 ^ 32" "lo \<le> hi"
  shows "unat (retx_bytes (rstate q) + n_retx_so_zero (rstate q) * lo + n_retx_so_nonzero (rstate q) * hi) =
    sum_list (map (\<lambda>r. unat (rtx_length r) + (if rtx_so r = 0 then unat lo else unat hi)) (rview q))"
proof -
  let ?z = "\<lambda>xs. length (filter (\<lambda>r. rtx_so r = 0) xs)" and ?n = "\<lambda>xs. length (filter (\<lambda>r. rtx_so r \<noteq> 0) xs)"
  let ?s = "\<lambda>xs. sum_list (map (\<lambda>r. unat (rtx_length r) + (if rtx_so r = 0 then unat lo else unat hi)) xs)"
  have eq: "?s xs = retx_total xs + ?z xs * unat lo + ?n xs * unat hi" for xs
    by (induction xs) (simp_all add: retx_total_def algebra_simps)
  have "?s xs \<le> retx_total xs + length xs * unat hi" for xs
    using assms(3) by (induction xs) (auto simp: retx_total_def word_le_nat_alt algebra_simps)
  from this [of "rview q"] have small: "?s (rview q) < 2 ^ 32" using assms(2) by linarith
  have "retx_bytes (rstate q) + n_retx_so_zero (rstate q) * lo + n_retx_so_nonzero (rstate q) * hi =
      of_nat (?s (rview q))"
    unfolding eq state_exact [OF assms(1)] by (simp add: retx_summary_def)
  then show ?thesis using small by (simp add: unsigned_of_nat take_bit_nat_eq_self)
qed

end

section \<open>The code meets the contract\<close>

definition retx_valid :: "rlc_retx_queue_item list \<Rightarrow> rlc_tx_amd_retx list" where
  "retx_valid xs = map item_retx (filter (\<lambda>x. \<not> item_invalid x) xs)"

definition retx_view :: "rlc_retx_queue \<Rightarrow> rlc_tx_amd_retx list" where
  "retx_view q = retx_valid (rq_queue q)"

definition front_valid :: "rlc_retx_queue_item list \<Rightarrow> bool" where
  "front_valid xs \<longleftrightarrow> (case xs of [] \<Rightarrow> True | x # _ \<Rightarrow> \<not> item_invalid x)"

definition retx_inv :: "rlc_retx_queue \<Rightarrow> bool" where
  "retx_inv q \<longleftrightarrow> front_valid (rq_queue q) \<and> length (rq_queue q) \<le> rq_capacity q \<and> rq_capacity q < 2 ^ 32 \<and>
     retx_fits (retx_view q) \<and> rq_st q = retx_summary (retx_view q)"

lemma retx_valid_simps [simp]:
  "retx_valid [] = []"
  "retx_valid (x # xs) = (if item_invalid x then retx_valid xs else item_retx x # retx_valid xs)"
  "retx_valid (xs @ ys) = retx_valid xs @ retx_valid ys"
  by (simp_all add: retx_valid_def)

lemma retx_total_simps [simp]:
  "retx_total [] = 0" "retx_total (r # xs) = unat (rtx_length r) + retx_total xs"
  "retx_total (xs @ ys) = retx_total xs + retx_total ys"
  by (simp_all add: retx_total_def)

lemma add_retx_summary: "add_retx r (retx_summary xs) = retx_summary (xs @ [r])"
  by (simp add: add_retx_def retx_summary_def)

lemma retx_summary_perm: "retx_summary (xs @ r # ys) = retx_summary (r # xs @ ys)"
  by (simp add: retx_summary_def)

lemma subtract_retx_summary:
  assumes "retx_total xs + unat (rtx_length r) < 2 ^ 32" "length xs + 1 < 2 ^ 32"
  shows "subtract_retx r (retx_summary (r # xs)) = retx_summary xs"
proof -
  have b: "unat (of_nat (unat (rtx_length r) + retx_total xs) :: u32) = unat (rtx_length r) + retx_total xs"
    using assms(1) by (subst unsigned_of_nat) (simp add: take_bit_nat_eq_self)
  then have le: "rtx_length r \<le> of_nat (unat (rtx_length r) + retx_total xs)"
    unfolding word_le_nat_alt by simp
  have pos: "(0 :: u32) < of_nat (Suc (length (filter P xs)))" for P
  proof -
    have "Suc (length (filter P xs)) < 2 ^ 32" using assms(2) length_filter_le [of P xs] by linarith
    then have "unat (of_nat (Suc (length (filter P xs))) :: u32) = Suc (length (filter P xs))"
      by (subst unsigned_of_nat) (simp add: take_bit_nat_eq_self)
    then show ?thesis unfolding word_less_nat_alt by simp
  qed
  show ?thesis
    using le pos [of "\<lambda>r. rtx_so r = 0"] pos [of "\<lambda>r. rtx_so r \<noteq> 0"]
    by (simp add: subtract_retx_def retx_summary_def)
qed

lemma clean_invalid_front_ok:
  "retx_valid (clean_invalid_front xs) = retx_valid xs" "front_valid (clean_invalid_front xs)"
  "length (clean_invalid_front xs) \<le> length xs"
  by (induction xs) (auto simp: front_valid_def)

lemma front_valid_Nil: "front_valid xs \<Longrightarrow> retx_valid xs = [] \<longleftrightarrow> xs = []"
  by (cases xs) (auto simp: front_valid_def)

lemma retx_valid_length: "length (retx_valid xs) \<le> length xs"
  by (simp add: retx_valid_def)

text \<open>The loop of \<open>remove_sn\<close>: the counters stay those of what is left, for any elements \<open>ys\<close> in front.\<close>

lemma remove_sn_loop_ok:
  assumes "retx_fits (ys @ retx_valid xs)" "length ys + length xs < 2 ^ 32"
    and "remove_sn_loop sn xs (retx_summary (ys @ retx_valid xs)) = (b, xs', st')"
  shows "retx_valid xs' = filter (\<lambda>r. rtx_sn r \<noteq> sn) (retx_valid xs) \<and> length xs' = length xs \<and>
    st' = retx_summary (ys @ retx_valid xs') \<and> (b \<longleftrightarrow> sn \<in> rtx_sn ` set (retx_valid xs))"
  using assms
proof (induction xs arbitrary: ys b xs' st')
  case (Cons x xs)
  show ?case
  proof (cases "\<not> item_invalid x \<and> rtx_sn (item_retx x) = sn")
    case True
    have "subtract_retx (item_retx x) (retx_summary (ys @ retx_valid (x # xs))) = retx_summary (ys @ retx_valid xs)"
      using True Cons.prems(1,2) retx_valid_length [of xs]
      by (simp add: retx_summary_perm subtract_retx_summary retx_fits_def)
    moreover obtain b1 xs1 st1 where l: "remove_sn_loop sn xs (retx_summary (ys @ retx_valid xs)) = (b1, xs1, st1)"
      by (metis prod_cases3)
    moreover have "retx_fits (ys @ retx_valid xs)" using Cons.prems(1) by (auto simp: retx_fits_def split: if_splits)
    ultimately show ?thesis using Cons.IH [of ys b1 xs1 st1] Cons.prems True by auto
  next
    case False
    let ?y = "if item_invalid x then [] else [item_retx x]"
    have e: "ys @ retx_valid (x # xs) = (ys @ ?y) @ retx_valid xs" by simp
    obtain b1 xs1 st1 where l: "remove_sn_loop sn xs (retx_summary ((ys @ ?y) @ retx_valid xs)) = (b1, xs1, st1)"
      by (metis prod_cases3)
    then have r: "b = b1" "xs' = x # xs1" "st' = st1"
      using Cons.prems(3) False unfolding e by (auto split: if_splits)
    have "retx_valid xs1 = filter (\<lambda>r. rtx_sn r \<noteq> sn) (retx_valid xs) \<and> length xs1 = length xs \<and>
      st1 = retx_summary ((ys @ ?y) @ retx_valid xs1) \<and> (b1 \<longleftrightarrow> sn \<in> rtx_sn ` set (retx_valid xs))"
      by (rule Cons.IH [OF _ _ l]) (use Cons.prems(1,2) in \<open>auto simp: e [symmetric]\<close>)
    then show ?thesis using r False by auto
  qed
qed auto

lemma retx_invD:
  assumes "retx_inv q"
  shows "front_valid (rq_queue q)" "length (rq_queue q) \<le> rq_capacity q" "rq_capacity q < 2 ^ 32"
    "retx_fits (retx_view q)" "rq_st q = retx_summary (retx_view q)"
  using assms by (simp_all add: retx_inv_def)

lemma retx_inv_cons:
  assumes "retx_inv q" "retx_view q \<noteq> []"
  obtains x xs where "rq_queue q = x # xs" "\<not> item_invalid x" "retx_view q = item_retx x # retx_valid xs"
proof -
  obtain x xs where "rq_queue q = x # xs" using assms(2) by (cases "rq_queue q") (auto simp: retx_view_def)
  moreover have "\<not> item_invalid x" using retx_invD(1) [OF assms(1)] calculation by (simp add: front_valid_def)
  ultimately show thesis using that by (simp add: retx_view_def)
qed

lemma retx_inv_head:
  assumes "retx_inv q" "rq_queue q = x # xs" "\<not> item_invalid x"
  shows "subtract_retx (item_retx x) (rq_st q) = retx_summary (retx_valid xs)" "retx_fits (retx_valid xs)"
    "length xs < rq_capacity q"
  using retx_invD [OF assms(1)] assms(2,3) retx_valid_length [of xs]
  by (auto simp: retx_view_def retx_fits_def subtract_retx_summary)

lemma front_retx_ok:
  assumes inv: "retx_inv q"
  shows "retx_view q \<noteq> [] \<Longrightarrow> front_retx q = Inr (hd (retx_view q))"
    "retx_view q = [] \<Longrightarrow> \<not> is_ok (front_retx q)"
proof -
  show "front_retx q = Inr (hd (retx_view q))" if "retx_view q \<noteq> []"
    by (rule retx_inv_cons [OF inv that]) (simp add: front_retx_def srsran_assert_def)
  show "\<not> is_ok (front_retx q)" if "retx_view q = []"
    using front_valid_Nil [OF retx_invD(1) [OF inv]] that by (simp add: front_retx_def retx_view_def)
qed

lemma try_push_retx_ok:
  assumes "retx_inv q" "retx_fits (retx_view q @ [r])" "try_push_retx r q = (b, q')"
  shows "retx_inv q' \<and> retx_view q' = retx_view q @ (if b then [r] else [])"
proof (cases "length (rq_queue q) = rq_capacity q")
  case True
  then show ?thesis using assms by (simp add: try_push_retx_def)
next
  case False
  note i = retx_invD [OF assms(1)]
  have q': "b" "q' = q\<lparr>rq_queue := rq_queue q @ [retx_item r], rq_st := add_retx r (rq_st q)\<rparr>"
    using assms(3) False by (simp_all add: try_push_retx_def)
  then have v: "retx_view q' = retx_view q @ [r]" by (simp add: retx_view_def retx_item_def)
  have "front_valid (rq_queue q @ [retx_item r])"
    using i(1) by (cases "rq_queue q") (simp_all add: front_valid_def retx_item_def)
  then have "retx_inv q'"
    using i(2,3,5) False assms(2) by (simp add: retx_inv_def v) (simp add: q'(2) add_retx_summary)
  then show ?thesis using q'(1) v by simp
qed

lemma pop_retx_ok:
  assumes inv: "retx_inv q"
  shows "retx_inv (pop_retx q) \<and> retx_view (pop_retx q) = tl (retx_view q)"
proof (cases "retx_view q = []")
  case True
  then have "rq_queue q = []" using front_valid_Nil [OF retx_invD(1) [OF inv]] by (simp add: retx_view_def)
  then show ?thesis using inv by (simp add: pop_retx_def retx_view_def retx_inv_def)
next
  case False
  then obtain x xs where x: "rq_queue q = x # xs" "\<not> item_invalid x" "retx_view q = item_retx x # retx_valid xs"
    by (rule retx_inv_cons [OF inv])
  note h = retx_inv_head [OF inv x(1,2)]
  have "length (clean_invalid_front xs) \<le> rq_capacity q"
    using clean_invalid_front_ok(3) [of xs] h(3) by linarith
  then show ?thesis
    using h x clean_invalid_front_ok(1,2) [of xs] retx_invD(3) [OF inv]
    by (simp add: pop_retx_def retx_inv_def retx_view_def)
qed

lemma replace_front_ok:
  assumes inv: "retx_inv q" and ne: "retx_view q \<noteq> []" and fits: "retx_fits (r # tl (retx_view q))"
  shows "\<exists>q'. replace_front r q = Inr q' \<and> retx_inv q' \<and> retx_view q' = r # tl (retx_view q)"
proof -
  obtain x xs where x: "rq_queue q = x # xs" "\<not> item_invalid x" "retx_view q = item_retx x # retx_valid xs"
    by (rule retx_inv_cons [OF inv ne])
  have "add_retx r (retx_summary (retx_valid xs)) = retx_summary (r # retx_valid xs)"
    using retx_summary_perm [of "retx_valid xs" r "[]"] by (simp add: add_retx_summary)
  then show ?thesis
    using retx_inv_head [OF inv x(1,2)] x fits retx_invD(3) [OF inv]
    by (simp add: replace_front_def srsran_assert_def retx_inv_def retx_view_def retx_item_def front_valid_def)
qed

lemma remove_sn_retx_ok:
  assumes inv: "retx_inv q" and rem: "remove_sn_retx sn q = (b, q')"
  shows "retx_inv q' \<and> retx_view q' = filter (\<lambda>r. rtx_sn r \<noteq> sn) (retx_view q) \<and>
    (b \<longleftrightarrow> sn \<in> rtx_sn ` set (retx_view q))"
proof (cases "rq_queue q = []")
  case True
  then show ?thesis using rem inv by (auto simp: remove_sn_retx_def retx_view_def)
next
  case False
  note i = retx_invD [OF inv]
  obtain b1 xs st where l: "remove_sn_loop sn (rq_queue q) (rq_st q) = (b1, xs, st)" by (metis prod_cases3)
  have "retx_valid xs = filter (\<lambda>r. rtx_sn r \<noteq> sn) (retx_valid (rq_queue q)) \<and> length xs = length (rq_queue q) \<and>
    st = retx_summary ([] @ retx_valid xs) \<and> (b1 \<longleftrightarrow> sn \<in> rtx_sn ` set (retx_valid (rq_queue q)))"
    by (rule remove_sn_loop_ok) (use i l in \<open>auto simp: retx_view_def\<close>)
  then have v: "retx_valid xs = filter (\<lambda>r. rtx_sn r \<noteq> sn) (retx_view q)" "length xs = length (rq_queue q)"
    "st = retx_summary (retx_valid xs)" "b1 \<longleftrightarrow> sn \<in> rtx_sn ` set (retx_view q)"
    by (simp_all add: retx_view_def)
  have q': "b = b1" "q' = q\<lparr>rq_queue := clean_invalid_front xs, rq_st := st\<rparr>"
    using rem False l by (simp_all add: remove_sn_retx_def)
  then have view: "retx_view q' = filter (\<lambda>r. rtx_sn r \<noteq> sn) (retx_view q)"
    by (simp add: retx_view_def clean_invalid_front_ok v(1) [unfolded retx_view_def])
  have "retx_total (filter P ys) \<le> retx_total ys" for P ys by (induction ys) auto
  then have "retx_fits (retx_view q')" using i(4) unfolding view retx_fits_def by (rule le_less_trans)
  moreover have "length (clean_invalid_front xs) \<le> rq_capacity q"
    using clean_invalid_front_ok(3) [of xs] i(2) v(2) by linarith
  ultimately have "retx_inv q'"
    using i(3) v(1,3) view q'(2) clean_invalid_front_ok(2) [of xs] by (simp add: retx_inv_def)
  then show ?thesis using view v(4) q'(1) by simp
qed

interpretation retxq: retx_fifo retx_view retx_inv rq_st try_push_retx pop_retx front_retx replace_front remove_sn_retx
  by (unfold_locales; fact retx_invD(5) front_retx_ok try_push_retx_ok pop_retx_ok replace_front_ok remove_sn_retx_ok)

lemma retx_inv_new: "capacity < 2 ^ 32 \<Longrightarrow> retx_inv (new_retx_queue capacity) \<and> retx_view (new_retx_queue capacity) = []"
  by (simp add: retx_inv_def new_retx_queue_def retx_view_def front_valid_def retx_fits_def retx_summary_def empty_retx_state_def)

section \<open>Refinement of a list\<close>

datatype retx_op = Retx_Push rlc_tx_amd_retx | Retx_Pop | Retx_Replace rlc_tx_amd_retx | Retx_Remove u32

fun retx_step :: "retx_op \<Rightarrow> rlc_retx_queue \<Rightarrow> (bool \<times> rlc_retx_queue) res" where
  "retx_step (Retx_Push r) q = Inr (try_push_retx r q)"
| "retx_step Retx_Pop q = Inr (True, pop_retx q)"
| "retx_step (Retx_Replace r) q = bind_res (replace_front r q) (\<lambda>q. Inr (True, q))"
| "retx_step (Retx_Remove sn) q = Inr (remove_sn_retx sn q)"

text \<open>The same on a list; the flag is what the operation returns, and a full queue may refuse a push.\<close>

fun retx_spec :: "retx_op \<Rightarrow> bool \<Rightarrow> rlc_tx_amd_retx list \<Rightarrow> rlc_tx_amd_retx list option" where
  "retx_spec (Retx_Push r) b xs = Some (if b then xs @ [r] else xs)"
| "retx_spec Retx_Pop b xs = Some (tl xs)"
| "retx_spec (Retx_Replace r) b xs = (if xs = [] then None else Some (r # tl xs))"
| "retx_spec (Retx_Remove sn) b xs =
     (if b \<longleftrightarrow> sn \<in> rtx_sn ` set xs then Some (filter (\<lambda>r. rtx_sn r \<noteq> sn) xs) else None)"

fun retx_op_fits :: "retx_op \<Rightarrow> rlc_tx_amd_retx list \<Rightarrow> bool" where
  "retx_op_fits (Retx_Push r) xs = retx_fits (xs @ [r])"
| "retx_op_fits (Retx_Replace r) xs = retx_fits (r # tl xs)"
| "retx_op_fits _ xs = True"

inductive retx_reach :: "nat \<Rightarrow> rlc_retx_queue \<Rightarrow> bool" for capacity where
  retx_init: "retx_reach capacity (new_retx_queue capacity)"
| retx_next: "retx_reach capacity q \<Longrightarrow> retx_op_fits op (retx_view q) \<Longrightarrow> retx_step op q = Inr (b, q') \<Longrightarrow>
    retx_reach capacity q'"

lemma retx_step_sim:
  assumes "retx_inv q" "retx_op_fits op (retx_view q)"
  shows "case retx_step op q of
      Inl e \<Rightarrow> (\<forall>b. retx_spec op b (retx_view q) = None)
    | Inr (b, q') \<Rightarrow> retx_inv q' \<and> retx_spec op b (retx_view q) = Some (retx_view q')"
proof (cases op)
  case (Retx_Push r)
  then show ?thesis using retxq.push_ok [OF assms(1), of r] assms(2) by (auto split: prod.split)
next
  case Retx_Pop
  then show ?thesis using retxq.pop_ok [OF assms(1)] by simp
next
  case (Retx_Replace r)
  show ?thesis
  proof (cases "retx_view q = []")
    case True
    then have "rq_queue q = []" using front_valid_Nil [OF retx_invD(1) [OF assms(1)]] by (simp add: retx_view_def)
    then show ?thesis using Retx_Replace True by (simp add: replace_front_def)
  next
    case False
    then show ?thesis using retxq.replace_ok [OF assms(1) False, of r] assms(2) Retx_Replace by auto
  qed
next
  case (Retx_Remove sn)
  then show ?thesis using retxq.remove_ok [OF assms(1), of sn] by (auto split: prod.split)
qed

lemma retx_reach_inv:
  assumes "retx_reach capacity q" "capacity < 2 ^ 32"
  shows "retx_inv q"
  using assms(1)
proof induction
  case retx_init
  then show ?case using retx_inv_new [OF assms(2)] by simp
next
  case (retx_next q op b q')
  then show ?case using retx_step_sim [of q op] by simp
qed

text \<open>
  C29. The retransmission queue, whose removals only mark elements, refines a plain list: in every state
  that pushes, pops, replacements and removals reach without exceeding 32 bits of queued bytes, the counters
  are exactly the bytes and the numbers of headers of the list, each further operation does to the list what it
  says and returns the right flag, and \<open>front\<close> and \<open>replace_front\<close> fail their assertions only on the empty list.
\<close>

theorem retx_queue_refines:
  assumes "retx_reach capacity q" "capacity < 2 ^ 32"
  shows "rq_st q = retx_summary (retx_view q) \<and>
    (case front_retx q of Inl e \<Rightarrow> retx_view q = [] | Inr r \<Rightarrow> retx_view q \<noteq> [] \<and> r = hd (retx_view q)) \<and>
    (\<forall>op. retx_op_fits op (retx_view q) \<longrightarrow>
      (case retx_step op q of
         Inl e \<Rightarrow> (\<forall>b. retx_spec op b (retx_view q) = None)
       | Inr (b, q') \<Rightarrow> retx_reach capacity q' \<and> retx_spec op b (retx_view q) = Some (retx_view q')))"
proof (intro conjI allI impI)
  note inv = retx_reach_inv [OF assms]
  show "rq_st q = retx_summary (retx_view q)" by (rule retxq.state_exact [OF inv])
  show "case front_retx q of Inl e \<Rightarrow> retx_view q = [] | Inr r \<Rightarrow> retx_view q \<noteq> [] \<and> r = hd (retx_view q)"
    using retxq.front_ok [OF inv] retxq.front_fault [OF inv]
    by (cases "retx_view q = []") (auto simp: is_ok_def split: sum.splits)
  fix op
  assume fits: "retx_op_fits op (retx_view q)"
  show "case retx_step op q of Inl e \<Rightarrow> (\<forall>b. retx_spec op b (retx_view q) = None)
     | Inr (b, q') \<Rightarrow> retx_reach capacity q' \<and> retx_spec op b (retx_view q) = Some (retx_view q')"
    using retx_step_sim [OF inv fits] retx_next [OF assms(1) fits] by (auto split: sum.splits)
qed

definition sample_retx :: "u32 \<Rightarrow> rlc_tx_amd_retx" where
  "sample_retx sn = \<lparr>rtx_sn = sn, rtx_so = 0, rtx_length = 10\<rparr>"

theorem retx_queue_refines_witness:
  "case retx_step (Retx_Push (sample_retx 3)) (new_retx_queue 4) of
     Inl e \<Rightarrow> False | Inr (b, q) \<Rightarrow> retx_reach 4 q \<and> retx_view q = [sample_retx 3] \<and> rq_st q = retx_summary [sample_retx 3]"
proof -
  let ?op = "Retx_Push (sample_retx 3)"
  obtain q where q: "retx_step ?op (new_retx_queue 4) = Inr (True, q)"
    by (simp add: try_push_retx_def new_retx_queue_def)
  have v: "retx_view (new_retx_queue 4) = []" by (simp add: retx_view_def new_retx_queue_def)
  have "retx_op_fits ?op []" by (simp add: retx_fits_def sample_retx_def)
  then have r: "retx_reach 4 q" "retx_view q = [sample_retx 3]"
    using retx_queue_refines [OF retx_init, of 4, THEN conjunct2, THEN conjunct2, rule_format, of ?op] q
    by (simp_all add: v)
  have "rq_st q = retx_summary (retx_view q)" using retx_queue_refines [OF r(1)] by simp
  with r show ?thesis unfolding q by simp
qed

end
