(* ===== verification/Rlc_Tx_Am.thy ===== *)
theory Rlc_Tx_Am
  imports Rlc_Am_Status Rlc_Retx_Queue Rlc_Tx_Common
begin

text \<open>
  The transmitting AM entity (lib/rlc/rlc_tx_am_entity.h, rlc_tx_am_entity.cpp): the SDU queue, the
  transmit window with the SDUs that wait for an acknowledgement, the queue of retransmissions, polling and
  t-PollRetransmit, the handling of status PDUs and the buffer state reports.

  An operation returns the new state and its actions in order, or a fault; \<open>pull_pdu_am\<close> also returns the
  bytes that are written to the front of the grant (none if the code returns 0). The status provider, the
  receiving side of the same bearer, is given by what it answers (\<open>status_provider\<close>); when the status PDU is
  fetched, \<open>pull_pdu_am\<close> returns it as it is left in the buffer of the reader. Lengths and offsets within an
  SDU are natural numbers where the subtractions of the code are guarded; offsets in headers and NACKs have
  16 bits and the fields of a retransmission 32 bits as in the code. The tasks that report a protocol
  failure are accepted by the executor. Logging, PCAP, tracing, latency measurements and the recycling of
  buffers are left out. Loops over sequence numbers carry a bound above the size of the ring; running out of
  it is a fault.
\<close>

unbundle bit_operations_syntax

section \<open>State\<close>

definition RETX_COUNT_NOT_STARTED :: u32 where
  "RETX_COUNT_NOT_STARTED = 0xffffffff"

record rlc_tx_am_sdu_info =
  tsi_sdu :: byte_buffer
  tsi_is_retx :: bool
  tsi_pdcp_sn :: "u32 option"
  tsi_toa :: nat
  tsi_next_so :: nat
  tsi_retx_count :: u32

record rlc_tx_am_state =
  tx_next_ack :: u32
  tx_next :: u32
  poll_sn :: u32
  pdu_without_poll :: u32
  byte_without_poll :: u32

record rlc_tx_am_entity = rlc_tx_am_state +
  tam_cfg :: rlc_tx_am_config
  tam_is_srb :: bool
  tam_queue :: rlc_sdu_queue
  sn_under_segmentation :: u32
  retx_queue :: rlc_retx_queue
  retx_sn :: u32
  tam_mod :: u32
  tam_window_size :: u32
  tx_window :: "rlc_tx_am_sdu_info sdu_window"
  head_min_size :: nat
  head_max_size :: nat
  poll_retransmit_timer :: unique_timer
  tam_prev_buffer_state :: rlc_buffer_state
  tam_suspend_bs_notif_barring :: bool
  tam_pending_buffer_state :: bool
  stopped_upper :: bool
  stopped_lower :: bool
  max_retx_reached :: bool

text \<open>The answers of the receiving side.\<close>

record status_provider =
  sp_required :: bool
  sp_length :: nat
  sp_status :: rlc_am_status_pdu

definition new_tx_am :: "rlc_tx_am_config \<Rightarrow> bool \<Rightarrow> rlc_tx_am_entity res" where
  "new_tx_am cfg is_srb =
     (let z = txam_sn_field_length cfg; k = to_number_am_sn z in
      bind_res (srsran_assert (txam_pdcp_sn_len cfg = Pdcp_Size12bits \<or> txam_pdcp_sn_len cfg = Pdcp_Size18bits)
          ''Cannot create RLC TX AM, unsupported pdcp_sn_len'')
        (\<lambda>_. Inr
          \<lparr>tx_next_ack = 0, tx_next = 0, poll_sn = 0, pdu_without_poll = 0, byte_without_poll = 0,
           tam_cfg = cfg, tam_is_srb = is_srb,
           tam_queue = new_sdu_queue (of_nat (txam_queue_size cfg)) (of_nat (txam_queue_size_bytes cfg)),
           sn_under_segmentation = INVALID_RLC_SN,
           retx_queue = new_retx_queue (unat (window_size k)), retx_sn = INVALID_RLC_SN,
           tam_mod = cardinality k, tam_window_size = window_size k,
           tx_window = new_circular_map (unat (window_size k)),
           head_min_size = rlc_am_pdu_header_min_size z, head_max_size = rlc_am_pdu_header_max_size z,
           poll_retransmit_timer = new_timer (txam_t_poll_retx cfg),
           tam_prev_buffer_state = empty_buffer_state, tam_suspend_bs_notif_barring = True,
           tam_pending_buffer_state = False, stopped_upper = False, stopped_lower = False,
           max_retx_reached = False\<rparr>))"

text \<open>The executor of the cell runs the second part.\<close>

definition stop_lower_am :: "rlc_tx_am_entity \<Rightarrow> rlc_tx_am_entity" where
  "stop_lower_am s = s\<lparr>stopped_lower := True, poll_retransmit_timer := timer_stop (poll_retransmit_timer s)\<rparr>"

definition stop_tx_am :: "rlc_tx_am_entity \<Rightarrow> rlc_tx_am_entity" where
  "stop_tx_am s = (if \<not> stopped_upper s then stop_lower_am (s\<lparr>stopped_upper := True\<rparr>) else s)"

definition tx_mod_base :: "rlc_tx_am_entity \<Rightarrow> u32 \<Rightarrow> u32" where
  "tx_mod_base s x = (x - tx_next_ack s) mod tam_mod s"

definition loop_bound_tx :: "rlc_tx_am_entity \<Rightarrow> nat" where
  "loop_bound_tx s = Suc (unat (tam_mod s))"

definition inside_tx_window :: "rlc_tx_am_entity \<Rightarrow> u32 \<Rightarrow> bool" where
  "inside_tx_window s sn \<longleftrightarrow> tx_mod_base s sn < tam_window_size s"

definition is_tx_window_full :: "rlc_tx_am_entity \<Rightarrow> bool" where
  "is_tx_window_full s \<longleftrightarrow>
     full_cm (tx_window s) \<or>
     (txam_max_window (tam_cfg s) \<noteq> 0 \<and> tx_mod_base s (tx_next s) > txam_max_window (tam_cfg s))"

definition valid_ack_sn :: "rlc_tx_am_entity \<Rightarrow> u32 \<Rightarrow> bool" where
  "valid_ack_sn s sn \<longleftrightarrow> 0 < tx_mod_base s sn \<and> tx_mod_base s sn \<le> tam_window_size s"

text \<open>Both buffers are empty, or no new SDU can be sent.\<close>

definition tx_stalled :: "rlc_tx_am_entity \<Rightarrow> bool" where
  "tx_stalled s \<longleftrightarrow>
     (is_empty (tam_queue s) \<and> empty_retx (retx_queue s) \<and> sn_under_segmentation s = INVALID_RLC_SN) \<or>
     is_tx_window_full s"

section \<open>Upper layer\<close>

definition handle_changed_buffer_state_am :: "rlc_tx_am_entity \<Rightarrow> rlc_tx_am_entity \<times> rlc_tx_action list" where
  "handle_changed_buffer_state_am s =
     (if \<not> tam_pending_buffer_state s then (s\<lparr>tam_pending_buffer_state := True\<rparr>, [Defer_Buffer_State_Update])
      else (s, []))"

definition on_status_report_changed :: "rlc_tx_am_entity \<Rightarrow> rlc_tx_am_entity \<times> rlc_tx_action list" where
  "on_status_report_changed s = handle_changed_buffer_state_am s"

definition handle_sdu_am ::
  "nat \<Rightarrow> byte_buffer \<Rightarrow> bool \<Rightarrow> rlc_tx_am_entity \<Rightarrow> (rlc_tx_am_entity \<times> rlc_tx_action list) res" where
  "handle_sdu_am now buf is_retx s =
     bind_res (get_pdcp_sn buf (txam_pdcp_sn_len (tam_cfg s)) (tam_is_srb s)) (\<lambda>pdcp_sn.
       (let sdu = make_sdu now buf (if tam_is_srb s \<and> is_retx then False else is_retx) pdcp_sn;
            (written, q) = write_sdu sdu (tam_queue s); s = s\<lparr>tam_queue := q\<rparr>
        in if written then
             (let (s, as) = handle_changed_buffer_state_am s in Inr (s, Tx_Add_Sdus 1 (length buf) # as))
           else Inr (s, [Tx_Add_Lost_Sdus 1])))"

definition discard_sdu_am :: "u32 \<Rightarrow> rlc_tx_am_entity \<Rightarrow> rlc_tx_am_entity \<times> rlc_tx_action list" where
  "discard_sdu_am pdcp_sn s =
     (let (discarded, q) = try_discard pdcp_sn (tam_queue s); s = s\<lparr>tam_queue := q\<rparr>
      in if discarded then
           (let (s, as) = handle_changed_buffer_state_am s in (s, Tx_Add_Discard 1 # as))
         else (s, [Tx_Add_Discard_Failure 1]))"

section \<open>Polling\<close>

definition get_polling_bit ::
  "u32 \<Rightarrow> bool \<Rightarrow> nat \<Rightarrow> rlc_tx_am_entity \<Rightarrow> (u8 \<times> rlc_tx_am_entity) res" where
  "get_polling_bit sn is_retx payload_size s =
     (let cfg = tam_cfg s;
          s = (if \<not> is_retx
               then s\<lparr>pdu_without_poll := pdu_without_poll s + 1,
                      byte_without_poll := byte_without_poll s + of_nat payload_size\<rparr>
               else s);
          poll = (\<not> is_retx \<and>
             (txam_poll_pdu cfg > 0 \<and> pdu_without_poll s \<ge> word_of_int (txam_poll_pdu cfg) \<or>
              txam_poll_byte cfg > 0 \<and> byte_without_poll s \<ge> word_of_int (txam_poll_byte cfg)) \<or> tx_stalled s)
      in if poll then
           (let s = s\<lparr>pdu_without_poll := 0, byte_without_poll := 0\<rparr>;
                s = (if \<not> is_retx then s\<lparr>poll_sn := sn\<rparr> else s)
            in if txam_t_poll_retx cfg > 0 \<and> \<not> stopped_lower s then
                 bind_res (timer_run (if is_running (poll_retransmit_timer s)
                                      then timer_stop (poll_retransmit_timer s) else poll_retransmit_timer s))
                   (\<lambda>t. Inr (1, s\<lparr>poll_retransmit_timer := t\<rparr>))
               else Inr (1, s))
         else Inr (0, s))"

section \<open>Building PDUs\<close>

text \<open>A header with its payload: \<open>len\<close> bytes of the SDU at the offset of the header, cut to the grant.\<close>

definition am_data_header ::
  "rlc_tx_am_entity \<Rightarrow> u8 \<Rightarrow> rlc_si_field \<Rightarrow> u32 \<Rightarrow> u16 \<Rightarrow> rlc_am_pdu_header" where
  "am_data_header s p si sn so = \<lparr>am_dc = Dc_Data, am_p = p, am_si = si,
     am_sn_size = txam_sn_field_length (tam_cfg s), am_sn = sn, am_so = so\<rparr>"

definition copy_payload :: "byte_buffer \<Rightarrow> nat \<Rightarrow> nat \<Rightarrow> nat \<Rightarrow> byte_buffer" where
  "copy_payload sdu so len space = take space (take len (drop so sdu))"

definition build_first_sdu_segment ::
  "nat \<Rightarrow> rlc_tx_am_sdu_info \<Rightarrow> rlc_tx_am_entity \<Rightarrow> (byte_buffer \<times> rlc_tx_am_entity \<times> rlc_tx_action list) res" where
  "build_first_sdu_segment grant_len sdu_info s =
     (if length (tsi_sdu sdu_info) + head_min_size s \<le> grant_len then Inr ([], s, [])
      else if grant_len \<le> head_min_size s then Inr ([], s, [])
      else
        (let segment_payload_len = grant_len - head_min_size s; sn = tx_next s;
             s = s\<lparr>sn_under_segmentation := sn\<rparr>
         in bind_res (get_polling_bit sn False segment_payload_len s) (\<lambda>(p, s).
            (let so = of_nat (tsi_next_so sdu_info);
                 header = rlc_am_write_data_pdu_header (am_data_header s p First_Segment sn so);
                 payload = copy_payload (tsi_sdu sdu_info) (unat so) segment_payload_len (grant_len - length header);
                 pdu = header @ payload
             in if payload = [] \<or> length payload \<noteq> segment_payload_len then Inr ([], s, [])
                else Inr (pdu,
                  s\<lparr>tx_window := assign_cm (tx_window s) sn
                      (sdu_info\<lparr>tsi_next_so := tsi_next_so sdu_info + segment_payload_len\<rparr>)\<rparr>,
                  [Tx_Add_Pdus_With_Segmentation 1 (length pdu)])))))"

text \<open>The notification of the upper layer when the transfer of an SDU begins.\<close>

definition sdu_notify :: "rlc_tx_am_entity \<Rightarrow> rlc_sdu \<Rightarrow> rlc_tx_action list" where
  "sdu_notify s sdu =
     (case sdu_pdcp_sn sdu of
        None \<Rightarrow> []
      | Some pdcp_sn \<Rightarrow>
          if sdu_is_retx sdu then [On_Retransmitted_Sdu pdcp_sn]
          else [On_Transmitted_Sdu pdcp_sn (txam_queue_size_bytes (tam_cfg s))])"

definition build_new_pdu ::
  "nat \<Rightarrow> rlc_tx_am_entity \<Rightarrow> (byte_buffer \<times> rlc_tx_am_entity \<times> rlc_tx_action list) res" where
  "build_new_pdu grant_len s =
     (if grant_len \<le> head_min_size s then Inr ([], s, [])
      else if is_tx_window_full s then Inr ([], s, [])
      else
        (let (ok, sdu, q) = read_sdu empty_sdu (tam_queue s); s = s\<lparr>tam_queue := q\<rparr> in
         if \<not> ok then Inr ([], s, [])
         else
           (let sdu_info = \<lparr>tsi_sdu = sdu_buf sdu, tsi_is_retx = sdu_is_retx sdu, tsi_pdcp_sn = sdu_pdcp_sn sdu,
                  tsi_toa = sdu_toa sdu, tsi_next_so = 0, tsi_retx_count = RETX_COUNT_NOT_STARTED\<rparr>;
                notify = sdu_notify s sdu
            in bind_res (add_sn (tx_window s) (tx_next s) sdu_info) (\<lambda>w.
               (let s = s\<lparr>tx_window := w\<rparr> in
                if length (tsi_sdu sdu_info) + head_min_size s > grant_len then
                  bind_res (build_first_sdu_segment grant_len sdu_info s)
                    (\<lambda>(pdu, s, as). Inr (pdu, s, notify @ as))
                else
                  bind_res (get_polling_bit (tx_next s) False 0 s) (\<lambda>(p, s).
                    (let header = rlc_am_write_data_pdu_header (am_data_header s p Full_Sdu (tx_next s) 0);
                         payload = take (grant_len - length header) (tsi_sdu sdu_info);
                         pdu = header @ payload
                     in if payload = [] then Inr ([], s, notify)
                        else Inr (pdu, s\<lparr>tx_next := (tx_next s + 1) mod tam_mod s\<rparr>,
                          notify @ [Tx_Add_Pulled_Sdus 1, Tx_Add_Pdus_No_Segmentation 1 (length pdu)]))))))))"

definition build_continued_sdu_segment ::
  "nat \<Rightarrow> rlc_tx_am_sdu_info \<Rightarrow> rlc_tx_am_entity \<Rightarrow> (byte_buffer \<times> rlc_tx_am_entity \<times> rlc_tx_action list) res" where
  "build_continued_sdu_segment grant_len sdu_info s =
     (let sdu = tsi_sdu sdu_info; next_so = tsi_next_so sdu_info; sn_seg = sn_under_segmentation s in
      if next_so = 0 then Inr ([], s\<lparr>sn_under_segmentation := INVALID_RLC_SN\<rparr>, [])
      else if next_so \<ge> length sdu then Inr ([], s\<lparr>sn_under_segmentation := INVALID_RLC_SN\<rparr>, [])
      else if grant_len \<le> head_max_size s then Inr ([], s, [])
      else
        (let (si, segment_payload_len, s) =
               (if length sdu - next_so + head_max_size s > grant_len
                then (Middle_Segment, grant_len - head_max_size s, s)
                else (Last_Segment, length sdu - next_so, s\<lparr>sn_under_segmentation := INVALID_RLC_SN\<rparr>))
         in bind_res (get_polling_bit (tx_next s) False segment_payload_len s) (\<lambda>(p, s).
            (let so = of_nat next_so;
                 header = rlc_am_write_data_pdu_header (am_data_header s p si (tx_next s) so);
                 payload = copy_payload sdu (unat so) segment_payload_len (grant_len - length header);
                 pdu = header @ payload
             in if payload = [] \<or> length payload \<noteq> segment_payload_len then Inr ([], s, [])
                else
                  (let s = s\<lparr>tx_window := assign_cm (tx_window s) sn_seg
                             (sdu_info\<lparr>tsi_next_so := next_so + segment_payload_len\<rparr>)\<rparr>;
                       s = (if si = Last_Segment then s\<lparr>tx_next := (tx_next s + 1) mod tam_mod s\<rparr> else s)
                   in Inr (pdu, s,
                        (if si = Last_Segment then [Tx_Add_Pulled_Sdus 1] else []) @
                        [Tx_Add_Pdus_With_Segmentation 1 (length pdu)]))))))"

text \<open>Dropping retransmissions from the front whose SN is not in the window.\<close>

lemma clean_length: "length (clean_invalid_front xs) \<le> length xs"
  by (induction xs) auto

lemma pop_length [simp]: "rq_queue q \<noteq> [] \<Longrightarrow> length (rq_queue (pop_retx q)) < length (rq_queue q)"
  by (cases "rq_queue q") (auto simp: pop_retx_def clean_length le_imp_less_Suc)

lemma front_nonempty: "front_retx q = Inr r \<Longrightarrow> rq_queue q \<noteq> []"
  by (auto simp: front_retx_def)

function drop_missing_retx :: "rlc_tx_am_sdu_info sdu_window \<Rightarrow> rlc_retx_queue \<Rightarrow> rlc_retx_queue res" where
  "drop_missing_retx w q =
     (if empty_retx q then Inr q
      else case front_retx q of
             Inl e \<Rightarrow> Inl e
           | Inr retx \<Rightarrow> if \<not> has_sn w (rtx_sn retx) then drop_missing_retx w (pop_retx q) else Inr q)"
  by pat_completeness auto
termination
  by (relation "measure (\<lambda>(w, q). length (rq_queue q))") (auto simp: front_nonempty)

declare drop_missing_retx.simps [simp del]

definition get_retx_expected_hdr_len :: "rlc_tx_amd_retx \<Rightarrow> rlc_tx_am_entity \<Rightarrow> nat" where
  "get_retx_expected_hdr_len retx s = (if rtx_so retx = 0 then head_min_size s else head_max_size s)"

definition retx_si :: "rlc_tx_amd_retx \<Rightarrow> bool \<Rightarrow> rlc_si_field" where
  "retx_si retx sdu_complete =
     (if rtx_so retx = 0 then (if sdu_complete then Full_Sdu else First_Segment)
      else (if sdu_complete then Last_Segment else Middle_Segment))"

definition update_retx_queue :: "rlc_tx_amd_retx \<Rightarrow> nat \<Rightarrow> rlc_tx_am_entity \<Rightarrow> rlc_tx_am_entity res" where
  "update_retx_queue retx retx_payload_len s =
     (if retx_payload_len = unat (rtx_length retx) then
        bind_res (at_cm (tx_window s) (rtx_sn retx)) (\<lambda>info.
          (let s = (if tsi_retx_count info = txam_max_retx_thresh (tam_cfg s) then s\<lparr>max_retx_reached := True\<rparr> else s)
           in Inr (s\<lparr>retx_queue := pop_retx (retx_queue s)\<rparr>)))
      else
        bind_res (front_retx (retx_queue s)) (\<lambda>rem.
        bind_res (replace_front (rem\<lparr>rtx_so := rtx_so rem + of_nat retx_payload_len,
             rtx_length := rtx_length rem - of_nat retx_payload_len\<rparr>) (retx_queue s))
          (\<lambda>q. Inr (s\<lparr>retx_queue := q\<rparr>))))"

text \<open>The part of \<open>build_retx_pdu\<close> for the retransmission at the front, whose SDU is in the window.\<close>

definition send_retx ::
  "nat \<Rightarrow> rlc_tx_amd_retx \<Rightarrow> rlc_tx_am_sdu_info \<Rightarrow> rlc_tx_am_entity \<Rightarrow>
     (byte_buffer \<times> rlc_tx_am_entity \<times> rlc_tx_action list) res" where
  "send_retx grant_len retx sdu_info s =
     (let sdu = tsi_sdu sdu_info; expected_hdr_len = get_retx_expected_hdr_len retx s in
      if unat (rtx_so retx + rtx_length retx) > length sdu then
        Inr ([], s\<lparr>retx_queue := pop_retx (retx_queue s)\<rparr>, [])
      else if grant_len \<le> expected_hdr_len then Inr ([], s, [])
      else
        (let retx_payload_len = min (unat (rtx_length retx)) (grant_len - expected_hdr_len);
             sdu_complete = (unat (rtx_so retx) + retx_payload_len \<ge> length sdu)
         in bind_res (update_retx_queue retx retx_payload_len s) (\<lambda>s.
            bind_res (get_polling_bit (rtx_sn retx) True 0 s) (\<lambda>(p, s).
            (let so = ucast (rtx_so retx);
                 header = rlc_am_write_data_pdu_header
                   (am_data_header s p (retx_si retx sdu_complete) (rtx_sn retx) so)
             in bind_res (srsran_assert (length header = expected_hdr_len) ''RETX header_len differs from expected_hdr_len'')
                (\<lambda>_.
                  (let payload = copy_payload sdu (unat so) retx_payload_len (grant_len - length header);
                       pdu = header @ payload
                   in if payload = [] \<or> length payload \<noteq> retx_payload_len then Inr ([], s, [])
                      else Inr (pdu, s, [Tx_Add_Retx_Pdus 1 (length pdu)])))))))) "

definition build_retx_pdu ::
  "nat \<Rightarrow> rlc_tx_am_entity \<Rightarrow> (byte_buffer \<times> rlc_tx_am_entity \<times> rlc_tx_action list) res" where
  "build_retx_pdu grant_len s =
     (if empty_retx (retx_queue s) then Inr ([], s, [])
      else
        bind_res (drop_missing_retx (tx_window s) (retx_queue s)) (\<lambda>q.
          (let s = s\<lparr>retx_queue := q\<rparr> in
           if empty_retx q then Inr ([], s, [])
           else
             bind_res (front_retx q) (\<lambda>retx.
             bind_res (at_cm (tx_window s) (rtx_sn retx)) (\<lambda>sdu_info.
               send_retx grant_len retx sdu_info (s\<lparr>retx_sn := rtx_sn retx\<rparr>))))))"

text \<open>The status PDU as it is sent within the grant, and as it is left to the reader.\<close>

definition send_status :: "nat \<Rightarrow> rlc_am_status_pdu \<Rightarrow> byte_buffer \<times> rlc_am_status_pdu" where
  "send_status grant_len status =
     (if packed_size status > grant_len then
        (let (ok, status) = trim grant_len status in if \<not> ok then ([], status) else (pack_status status, status))
      else (pack_status status, status))"

text \<open>The part of \<open>pull_pdu\<close> after the status report.\<close>

definition pull_data_am ::
  "nat \<Rightarrow> rlc_tx_am_entity \<Rightarrow> (byte_buffer \<times> rlc_tx_am_entity \<times> rlc_tx_action list) res" where
  "pull_data_am grant_len s =
     (if \<not> empty_retx (retx_queue s) then build_retx_pdu grant_len s
      else if sn_under_segmentation s \<noteq> INVALID_RLC_SN \<and> has_sn (tx_window s) (sn_under_segmentation s) then
        bind_res (at_cm (tx_window s) (sn_under_segmentation s))
          (\<lambda>sdu_info. build_continued_sdu_segment grant_len sdu_info s)
      else
        (let s = s\<lparr>sn_under_segmentation := INVALID_RLC_SN\<rparr>
         in if is_empty (tam_queue s) then Inr ([], s, []) else build_new_pdu grant_len s))"

definition pull_pdu_am ::
  "status_provider \<Rightarrow> nat \<Rightarrow> rlc_tx_am_entity \<Rightarrow>
     (byte_buffer \<times> rlc_am_status_pdu option \<times> rlc_tx_am_entity \<times> rlc_tx_action list) res" where
  "pull_pdu_am sp grant_len s =
     (if max_retx_reached s then Inr ([], None, s, [])
      else if sp_required sp then
        (if grant_len < rlc_am_nr_status_pdu_sizeof_header_ack_sn then Inr ([], None, s, [])
         else
           (let (pdu, status) = send_status grant_len (sp_status sp)
            in Inr (pdu, Some status, s, if pdu = [] then [] else [Tx_Add_Ctrl_Pdus 1 (length pdu)])))
      else bind_res (pull_data_am grant_len s) (\<lambda>(pdu, s, as). Inr (pdu, None, s, as)))"

section \<open>Buffer state\<close>

text \<open>The order of optional values: no value is less than any value.\<close>

fun toa_less :: "nat option \<Rightarrow> nat option \<Rightarrow> bool" where
  "toa_less None (Some _) = True"
| "toa_less (Some a) (Some b) = (a < b)"
| "toa_less _ None = False"

definition get_buffer_state_am ::
  "status_provider \<Rightarrow> rlc_tx_am_entity \<Rightarrow> (rlc_buffer_state \<times> rlc_tx_am_entity) res" where
  "get_buffer_state_am sp s =
     (let queue_state = get_state (tam_queue s);
          queue_bytes = n_bytes queue_state + n_sdus queue_state * of_nat (head_min_size s) :: u32;
          (segment_bytes, toa, s) =
            (if sn_under_segmentation s \<noteq> INVALID_RLC_SN then
               (case cm_lookup (tx_window s) (sn_under_segmentation s) of
                  Some sdu_info \<Rightarrow>
                    (of_nat (length (tsi_sdu sdu_info)) - of_nat (tsi_next_so sdu_info) + of_nat (head_max_size s) :: u32,
                     Some (tsi_toa sdu_info), s)
                | None \<Rightarrow> (0, None, s))
             else
               (let (next_sdu, q) = front (tam_queue s)
                in (0, map_option sdu_toa next_sdu, s\<lparr>tam_queue := q\<rparr>)));
          st = rq_st (retx_queue s);
          rtx_bytes = retx_bytes st + n_retx_so_zero st * of_nat (head_min_size s) +
            n_retx_so_nonzero st * of_nat (head_max_size s)
      in bind_res (drop_missing_retx (tx_window s) (retx_queue s)) (\<lambda>q.
         bind_res
           (if empty_retx q then Inr toa
            else bind_res (front_retx q) (\<lambda>retx.
                 bind_res (at_cm (tx_window s) (rtx_sn retx)) (\<lambda>sdu_info. Inr (Some (tsi_toa sdu_info)))))
           (\<lambda>toa.
             (let s = s\<lparr>retx_queue := q\<rparr>;
                  status_bytes = (if sp_required sp then of_nat (sp_length sp) else 0);
                  pending = unat (queue_bytes + segment_bytes + rtx_bytes + status_bytes)
              in Inr (\<lparr>pending_bytes = pending, hol_toa = toa\<rparr>,
                   if pending \<le> MAX_DL_PDU_LENGTH then s\<lparr>tam_suspend_bs_notif_barring := True\<rparr> else s)))))"

definition update_mac_buffer_state_am ::
  "status_provider \<Rightarrow> bool \<Rightarrow> rlc_tx_am_entity \<Rightarrow> (rlc_tx_am_entity \<times> rlc_tx_action list) res" where
  "update_mac_buffer_state_am sp force_notify s =
     bind_res (get_buffer_state_am sp (s\<lparr>tam_pending_buffer_state := False\<rparr>)) (\<lambda>(bs, s).
       (let prev = tam_prev_buffer_state s;
            (s, as) =
              (if force_notify \<or> pending_bytes bs \<le> MAX_DL_PDU_LENGTH \<or> pending_bytes prev \<le> MAX_DL_PDU_LENGTH \<or>
                  tam_suspend_bs_notif_barring s \<or> toa_less (hol_toa bs) (hol_toa prev)
               then (s\<lparr>tam_suspend_bs_notif_barring := False\<rparr>, [On_Buffer_State_Update bs])
               else (s, []))
        in Inr (s\<lparr>tam_prev_buffer_state := bs\<rparr>, as)))"

section \<open>Status PDUs\<close>

definition check_sn_reached_max_retx :: "u32 \<Rightarrow> rlc_tx_am_entity \<Rightarrow> rlc_tx_action list res" where
  "check_sn_reached_max_retx sn s =
     bind_res (at_cm (tx_window s) sn) (\<lambda>info.
       Inr (if tsi_retx_count info = txam_max_retx_thresh (tam_cfg s) then [On_Max_Retx] else []))"

definition increment_retx_count :: "u32 \<Rightarrow> rlc_tx_am_entity \<Rightarrow> (rlc_tx_am_entity \<times> rlc_tx_action list) res" where
  "increment_retx_count sn s =
     bind_res (at_cm (tx_window s) sn) (\<lambda>info.
       (let count = (if tsi_retx_count info = RETX_COUNT_NOT_STARTED then 0 else tsi_retx_count info + 1);
            s = s\<lparr>tx_window := assign_cm (tx_window s) sn (info\<lparr>tsi_retx_count := count\<rparr>)\<rparr>
        in bind_res (check_sn_reached_max_retx sn s) (\<lambda>as. Inr (s, as))))"

definition decrement_retx_count :: "u32 \<Rightarrow> rlc_tx_am_entity \<Rightarrow> rlc_tx_am_entity res" where
  "decrement_retx_count sn s =
     bind_res (at_cm (tx_window s) sn) (\<lambda>info.
       (if tsi_retx_count info = RETX_COUNT_NOT_STARTED then Inr s
        else
          (let count = (if tsi_retx_count info = 0 then RETX_COUNT_NOT_STARTED else tsi_retx_count info - 1)
           in Inr (s\<lparr>tx_window := assign_cm (tx_window s) sn (info\<lparr>tsi_retx_count := count\<rparr>)\<rparr>))))"

text \<open>The last SN of the range of a NACK, in 32 bits.\<close>

definition nack_last_sn :: "rlc_am_status_nack \<Rightarrow> u32" where
  "nack_last_sn nack = nack_sn nack + ucast (nack_range nack) - 1"

definition valid_nack :: "u32 \<Rightarrow> rlc_am_status_nack \<Rightarrow> rlc_tx_am_entity \<Rightarrow> bool \<times> rlc_tx_action list" where
  "valid_nack ack nack s =
     (if tx_mod_base s (nack_sn nack) \<ge> tx_mod_base s ack then (False, [])
      else if has_nack_range nack \<and> tx_mod_base s (nack_last_sn nack) \<ge> tx_mod_base s ack then (False, [])
      else if \<not> inside_tx_window s (nack_sn nack) then (False, [])
      else if has_nack_range nack \<and> \<not> inside_tx_window s (nack_last_sn nack) then (False, [])
      else if tx_mod_base s (nack_sn nack) > tx_mod_base s (tx_next s) then (False, [On_Protocol_Failure])
      else if has_nack_range nack \<and> tx_mod_base s (nack_last_sn nack) > tx_mod_base s (tx_next s)
        then (False, [On_Protocol_Failure])
      else (True, []))"

fun valid_nacks :: "u32 \<Rightarrow> rlc_am_status_nack list \<Rightarrow> rlc_tx_am_entity \<Rightarrow> bool \<times> rlc_tx_action list" where
  "valid_nacks ack [] s = (True, [])"
| "valid_nacks ack (n # ns) s =
     (let (ok, as) = valid_nack ack n s in if \<not> ok then (False, as) else valid_nacks ack ns s)"

text \<open>The segment of the SDU that a NACK asks for, if any, and the protocol failures that it causes.\<close>

definition nack_segment ::
  "rlc_am_status_nack \<Rightarrow> rlc_tx_am_sdu_info \<Rightarrow> u32 \<Rightarrow> ((u16 \<times> u16) \<times> rlc_tx_action list) option" where
  "nack_segment nack sdu_info sn_seg =
     (let sdu_length = of_nat (length (tsi_sdu sdu_info)) :: u32; next_so = tsi_next_so sdu_info;
          start = (if \<not> nack_has_so nack then 0 else so_start nack);
          end' = (if \<not> nack_has_so nack then ucast (sdu_length - 1) else so_end nack)
      in case (if end' = so_end_of_sdu then
                 (if nack_sn nack \<noteq> sn_seg then Some (ucast (sdu_length - 1))
                  else if next_so = 0 then None
                  else if unat start > next_so then None
                  else if unat start = next_so then None
                  else Some (of_nat (next_so - 1)))
               else Some end') of
           None \<Rightarrow> None
         | Some end' \<Rightarrow>
             (let (start, as1) = (if start > end' then (0, [On_Protocol_Failure]) else (start, []));
                  (start, as2) = (if ucast start \<ge> sdu_length then (0, [On_Protocol_Failure]) else (start, []));
                  (end', as3) = (if ucast end' \<ge> sdu_length
                    then (ucast (sdu_length - 1), [On_Protocol_Failure, On_Protocol_Failure]) else (end', []))
              in Some ((start, end'), as1 @ as2 @ as3)))"

definition handle_nack ::
  "rlc_am_status_nack \<Rightarrow> rlc_tx_am_entity \<Rightarrow> (bool \<times> rlc_tx_am_entity \<times> rlc_tx_action list) res" where
  "handle_nack nack s =
     (if has_nack_range nack then Inr (False, s, [])
      else if \<not> (tx_mod_base s (tx_next_ack s) \<le> tx_mod_base s (nack_sn nack) \<and>
                 tx_mod_base s (nack_sn nack) \<le> tx_mod_base s (tx_next s)) then Inr (False, s, [])
      else
        bind_res (at_cm (tx_window s) (nack_sn nack)) (\<lambda>sdu_info.
          (case nack_segment nack sdu_info (sn_under_segmentation s) of
             None \<Rightarrow> Inr (False, s, [])
           | Some ((start, end'), as) \<Rightarrow>
               (let retx = \<lparr>rtx_sn = nack_sn nack, rtx_so = ucast start,
                      rtx_length = ucast end' - ucast start + 1\<rparr>;
                    (pushed, q) = try_push_retx retx (retx_queue s)
                in Inr (pushed, s\<lparr>retx_queue := q\<rparr>, as)))))"

text \<open>One NACK without range: the retransmission counter is incremented once for each SN.\<close>

definition process_nack ::
  "rlc_am_status_nack \<Rightarrow> u32 \<Rightarrow> rlc_tx_am_entity \<Rightarrow> (u32 \<times> rlc_tx_am_entity \<times> rlc_tx_action list) res" where
  "process_nack nack prev s =
     bind_res (handle_nack nack s) (\<lambda>(queued, s, as).
       (if queued \<and> prev \<noteq> nack_sn nack then
          bind_res (increment_retx_count (nack_sn nack) s) (\<lambda>(s, as'). Inr (nack_sn nack, s, as @ as'))
        else Inr (prev, s, as)))"

text \<open>The NACK for one SN of a range.\<close>

definition range_item :: "u32 \<Rightarrow> rlc_am_status_nack \<Rightarrow> u32 \<Rightarrow> rlc_am_status_nack" where
  "range_item m nack sn =
     (let start = (if nack_has_so nack \<and> sn = nack_sn nack then so_start nack else 0);
          end' = (if nack_has_so nack \<and> sn = nack_last_sn nack mod m then so_end nack else so_end_of_sdu)
      in empty_nack\<lparr>nack_sn := sn, so_start := start, so_end := end',
           nack_has_so := nack_has_so nack \<and> (start \<noteq> 0 \<or> end' \<noteq> so_end_of_sdu)\<rparr>)"

fun process_range ::
  "nat \<Rightarrow> u32 \<Rightarrow> u32 \<Rightarrow> rlc_am_status_nack \<Rightarrow> u32 \<Rightarrow> rlc_tx_am_entity \<Rightarrow>
     (u32 \<times> rlc_tx_am_entity \<times> rlc_tx_action list) res" where
  "process_range 0 range_sn ack nack prev s = Inl Loop_Bound_Exceeded"
| "process_range (Suc fuel) range_sn ack nack prev s =
     (if range_sn = (nack_sn nack + ucast (nack_range nack)) mod tam_mod s then Inr (prev, s, [])
      else if range_sn = ack then Inr (prev, s, [])
      else
        bind_res (process_nack (range_item (tam_mod s) nack range_sn) prev s) (\<lambda>(prev, s, as).
        bind_res (process_range fuel ((range_sn + 1) mod tam_mod s) ack nack prev s) (\<lambda>(prev, s, as').
          Inr (prev, s, as @ as'))))"

fun process_nacks ::
  "u32 \<Rightarrow> rlc_am_status_nack list \<Rightarrow> u32 \<Rightarrow> rlc_tx_am_entity \<Rightarrow> (rlc_tx_am_entity \<times> rlc_tx_action list) res" where
  "process_nacks ack [] prev s = Inr (s, [])"
| "process_nacks ack (nack # ns) prev s =
     bind_res (if has_nack_range nack then process_range (loop_bound_tx s) (nack_sn nack) ack nack prev s
               else process_nack nack prev s) (\<lambda>(prev, s, as).
     bind_res (process_nacks ack ns prev s) (\<lambda>(s, as'). Inr (s, as @ as')))"

text \<open>The last PDCP SN of a first transmission and of a retransmission that is delivered.\<close>

definition note_delivered :: "u32 option \<times> u32 option \<Rightarrow> rlc_tx_am_sdu_info \<Rightarrow> u32 option \<times> u32 option" where
  "note_delivered deliv sdu_info =
     (if tsi_pdcp_sn sdu_info \<noteq> None
      then (if tsi_is_retx sdu_info then (fst deliv, tsi_pdcp_sn sdu_info) else (tsi_pdcp_sn sdu_info, snd deliv))
      else deliv)"

text \<open>Removal of the SDUs below the first NACK, or below ACK\_SN if there is none.\<close>

fun process_acks ::
  "nat \<Rightarrow> u32 \<Rightarrow> u32 \<Rightarrow> u32 option \<times> u32 option \<Rightarrow> rlc_tx_am_entity \<Rightarrow>
     ((u32 option \<times> u32 option) \<times> rlc_tx_am_entity) res" where
  "process_acks 0 sn stop_sn deliv s = Inl Loop_Bound_Exceeded"
| "process_acks (Suc fuel) sn stop_sn deliv s =
     (if tx_mod_base s sn < tx_mod_base s stop_sn then
        (case cm_lookup (tx_window s) sn of
           None \<Rightarrow> Inr (deliv, s)
         | Some sdu_info \<Rightarrow>
             bind_res (remove_sn (tx_window s) sn) (\<lambda>w.
               process_acks fuel ((sn + 1) mod tam_mod s) stop_sn (note_delivered deliv sdu_info)
                 (s\<lparr>tx_window := w, tx_next_ack := (sn + 1) mod tam_mod s\<rparr>)))
      else Inr (deliv, s))"

function clear_retx_queue :: "rlc_tx_am_entity \<Rightarrow> rlc_tx_am_entity res" where
  "clear_retx_queue s =
     (if empty_retx (retx_queue s) then Inr (s\<lparr>retx_sn := INVALID_RLC_SN\<rparr>)
      else case front_retx (retx_queue s) of
             Inl e \<Rightarrow> Inl e
           | Inr retx \<Rightarrow>
               (let first = (retx_sn s \<noteq> rtx_sn retx) in
                case (if first \<and> has_sn (tx_window s) (rtx_sn retx) then decrement_retx_count (rtx_sn retx) s else Inr s) of
                  Inl e \<Rightarrow> Inl e
                | Inr s' \<Rightarrow> clear_retx_queue
                    (s'\<lparr>retx_sn := (if first then rtx_sn retx else retx_sn s), retx_queue := pop_retx (retx_queue s)\<rparr>)))"
  by pat_completeness auto
termination
  by (relation "measure (\<lambda>s. length (rq_queue (retx_queue s)))") (auto simp: front_nonempty)

declare clear_retx_queue.simps [simp del]

definition delivered_actions :: "u32 option \<times> u32 option \<Rightarrow> rlc_tx_action list" where
  "delivered_actions deliv =
     (case fst deliv of None \<Rightarrow> [] | Some sn \<Rightarrow> [On_Delivered_Sdu sn]) @
     (case snd deliv of None \<Rightarrow> [] | Some sn \<Rightarrow> [On_Delivered_Retransmitted_Sdu sn])"

definition stop_poll_timer :: "u32 \<Rightarrow> rlc_tx_am_entity \<Rightarrow> rlc_tx_am_entity" where
  "stop_poll_timer ack s =
     (if tx_mod_base s (poll_sn s) < tx_mod_base s ack \<and> is_running (poll_retransmit_timer s)
      then s\<lparr>poll_retransmit_timer := timer_stop (poll_retransmit_timer s)\<rparr> else s)"

definition handle_status_pdu ::
  "status_provider \<Rightarrow> rlc_am_status_pdu \<Rightarrow> rlc_tx_am_entity \<Rightarrow> (rlc_tx_am_entity \<times> rlc_tx_action list) res" where
  "handle_status_pdu sp status s =
     (if \<not> valid_ack_sn s (ack_sn status) then Inr (s, [])
      else if tx_mod_base s (ack_sn status) > tx_mod_base s (tx_next s + 1) then Inr (s, [On_Protocol_Failure])
      else
        (let (ok, as) = valid_nacks (ack_sn status) (nacks status) s in
         if \<not> ok then Inr (s, as)
         else
           (let s = stop_poll_timer (ack_sn status) s;
                stop_sn = (case nacks status of [] \<Rightarrow> ack_sn status | n # _ \<Rightarrow> nack_sn n)
            in bind_res (process_acks (loop_bound_tx s) (tx_next_ack s) stop_sn (None, None) s) (\<lambda>(deliv, s).
               bind_res (clear_retx_queue s) (\<lambda>s.
               bind_res (process_nacks (ack_sn status) (nacks status) INVALID_RLC_SN s) (\<lambda>(s, as).
               bind_res (update_mac_buffer_state_am sp True s) (\<lambda>(s, as').
                 Inr (s, delivered_actions deliv @ as @ as'))))))))"

section \<open>Expiry of t-PollRetransmit\<close>

definition on_expired_poll_retransmit_timer ::
  "status_provider \<Rightarrow> rlc_tx_am_entity \<Rightarrow> (rlc_tx_am_entity \<times> rlc_tx_action list) res" where
  "on_expired_poll_retransmit_timer sp s =
     (if tx_stalled s then
        (if empty_cm (tx_window s) then Inr (s, [])
         else if \<not> has_sn (tx_window s) (tx_next_ack s) then Inr (s, [])
         else
           bind_res (at_cm (tx_window s) (tx_next_ack s)) (\<lambda>info.
             (let retx = \<lparr>rtx_sn = tx_next_ack s, rtx_so = 0, rtx_length = of_nat (length (tsi_sdu info))\<rparr>;
                  (queued, q) = try_push_retx retx (retx_queue s); s = s\<lparr>retx_queue := q\<rparr>
              in bind_res (if queued then increment_retx_count (tx_next_ack s) s else Inr (s, [])) (\<lambda>(s, as).
                 bind_res (update_mac_buffer_state_am sp True s) (\<lambda>(s, as'). Inr (s, as @ as'))))))
      else Inr (s, []))"

end
