(* ===== verification/Rlc_Tx_Am_Win.thy ===== *)
theory Rlc_Tx_Am_Win
  imports Rlc_Tx_Am
begin

text \<open>
  The invariant of the transmitting AM entity: the transmit window holds exactly the SDUs from TX\_Next\_Ack
  to TX\_Next, and the SDU under segmentation (\<open>twin_ok\<close>); every queued retransmission lies within an SDU of
  the window (\<open>retx_ok\<close>). With the effect of adding, sending and acknowledging an SDU on the window, of the
  poll bit on the state, and the form of the PDUs that are sent (\<open>am_cut_pdu\<close>).
\<close>

section \<open>Positions relative to TX\_Next\_Ack\<close>

definition sn_half :: "rlc_am_sn_size \<Rightarrow> nat" where
  "sn_half z = unat (window_size (to_number_am_sn z))"

abbreviation sn_mod :: "rlc_am_sn_size \<Rightarrow> u32" where
  "sn_mod z \<equiv> cardinality (to_number_am_sn z)"

abbreviation sn_pos :: "rlc_am_sn_size \<Rightarrow> u32 \<Rightarrow> u32 \<Rightarrow> nat" where
  "sn_pos z \<equiv> am_ring.dist z"

lemma sn_half_cases: "sn_half z = 2048 \<or> sn_half z = 131072"
  by (auto simp: sn_half_def window_size_am split: rlc_am_sn_size.splits)

lemma sn_half_pos [simp]: "0 < sn_half z" "Suc 0 < sn_half z"
  using sn_half_cases [of z] by auto

lemma sn_half_power:
  obtains j where "sn_half z = 2 ^ j" "j \<le> to_number_am_sn z"
proof (cases z)
  case Am_Size12bits
  then show thesis using that [of 11] by (simp add: sn_half_def window_size_def cardinality_def push_bit_eq_mult)
next
  case Am_Size18bits
  then show thesis using that [of 17] by (simp add: sn_half_def window_size_def cardinality_def push_bit_eq_mult)
qed

lemma sn_ring_N: "am_ring.N z = 2 * sn_half z"
proof -
  have "am_ring.N z = unat (sn_mod z)" by (simp add: am_ring.unat_m)
  also have "\<dots> = 2 * sn_half z" by (simp add: sn_half_def cardinality_am window_size_am split: rlc_am_sn_size.split)
  finally show ?thesis .
qed

lemma sn_mod_small: "sn_mod z \<le> 262144"
  by (simp add: cardinality_am split: rlc_am_sn_size.split)

lemma sn_valid: "x < sn_mod z \<Longrightarrow> x \<noteq> INVALID_RLC_SN"
  using sn_mod_small [of z] by (auto simp: INVALID_RLC_SN_def dest: less_le_trans)

lemma sn_pos_less: "sn_pos z a x < 2 * sn_half z"
  using am_ring.dist_less [of z] by (simp flip: sn_ring_N)

lemma sn_pos_succ: "Suc (sn_pos z a x) < 2 * sn_half z \<Longrightarrow> sn_pos z a ((x + 1) mod sn_mod z) = Suc (sn_pos z a x)"
  using am_ring.dist_succ_less [of z a x] by (simp add: sn_ring_N)

lemma sn_pos_base_succ: "sn_pos z a ((a + 1) mod sn_mod z) = 1"
  using sn_pos_succ [of z a a] sn_half_pos(2) [of z] by simp

lemma sn_pos_rebase:
  "sn_pos z b x = (if sn_pos z a b \<le> sn_pos z a x then sn_pos z a x - sn_pos z a b
     else sn_pos z a x + 2 * sn_half z - sn_pos z a b)"
  using am_ring.dist_rebase_ge [of z a b x] am_ring.dist_rebase_less [of z a x b] by (simp add: sn_ring_N)

lemma sn_pos_eq: "x < sn_mod z \<Longrightarrow> y < sn_mod z \<Longrightarrow> sn_pos z a x = sn_pos z a y \<longleftrightarrow> x = y"
  using am_ring.dist_inj [of x z y a] by auto

lemma sn_pos_0: "x < sn_mod z \<Longrightarrow> a < sn_mod z \<Longrightarrow> sn_pos z a x = 0 \<longleftrightarrow> x = a"
  using am_ring.dist_0_iff [of x z a] by auto

text \<open>Every position is the position of a sequence number.\<close>

lemma sn_pos_surj:
  assumes "i < 2 * sn_half z"
  shows "\<exists>x < sn_mod z. sn_pos z a x = i"
  using assms
proof (induction i)
  case 0
  show ?case by (rule exI [of _ "a mod sn_mod z"]) (simp add: am_ring.mod_m_less)
next
  case (Suc i)
  then obtain x where "x < sn_mod z" "sn_pos z a x = i" by auto
  then show ?case
    using sn_pos_succ [of z a x] Suc.prems by (intro exI [of _ "(x + 1) mod sn_mod z"]) (simp add: am_ring.mod_m_less)
qed

section \<open>The window\<close>

text \<open>The largest SDU: the counters of a full retransmission queue stay below \<open>2 ^ 32\<close>.\<close>

definition max_am_sdu :: nat where
  "max_am_sdu = 16383"

definition am_sdu_ok :: "byte_buffer \<Rightarrow> bool" where
  "am_sdu_ok b \<longleftrightarrow> b \<noteq> [] \<and> length b \<le> max_am_sdu"

text \<open>The keys of the window, for TX\_Next\_Ack \<open>a\<close>, TX\_Next \<open>n\<close> and the SN under segmentation \<open>sg\<close>.\<close>

definition tx_key :: "rlc_am_sn_size \<Rightarrow> u32 \<Rightarrow> u32 \<Rightarrow> u32 \<Rightarrow> u32 \<Rightarrow> bool" where
  "tx_key z a n sg x \<longleftrightarrow> x < sn_mod z \<and> (sn_pos z a x < sn_pos z a n \<or> sg \<noteq> INVALID_RLC_SN \<and> x = n)"

definition twin_ok ::
  "rlc_am_sn_size \<Rightarrow> u32 \<Rightarrow> u32 \<Rightarrow> u32 \<Rightarrow> rlc_tx_am_sdu_info sdu_window \<Rightarrow> bool" where
  "twin_ok z a n sg w \<longleftrightarrow>
     cm_wf w \<and> cm_max_size w = sn_half z \<and> a < sn_mod z \<and> n < sn_mod z \<and> sn_pos z a n \<le> sn_half z \<and>
     (sg = INVALID_RLC_SN \<or> sg = n \<and> sn_pos z a n < sn_half z) \<and>
     (\<forall>x. cm_lookup w x \<noteq> None \<longleftrightarrow> tx_key z a n sg x) \<and>
     (\<forall>x info. cm_lookup w x = Some info \<longrightarrow> am_sdu_ok (tsi_sdu info)) \<and>
     (\<forall>info. sg \<noteq> INVALID_RLC_SN \<longrightarrow> cm_lookup w n = Some info \<longrightarrow>
        0 < tsi_next_so info \<and> tsi_next_so info < length (tsi_sdu info))"

lemma twin_okD:
  assumes "twin_ok z a n sg w"
  shows "cm_wf w" "cm_max_size w = sn_half z" "a < sn_mod z" "n < sn_mod z" "sn_pos z a n \<le> sn_half z"
    "sg = INVALID_RLC_SN \<or> sg = n \<and> sn_pos z a n < sn_half z"
    "\<And>x. cm_lookup w x \<noteq> None \<longleftrightarrow> tx_key z a n sg x"
    "\<And>x info. cm_lookup w x = Some info \<Longrightarrow> am_sdu_ok (tsi_sdu info)"
    "\<And>info. sg \<noteq> INVALID_RLC_SN \<Longrightarrow> cm_lookup w n = Some info \<Longrightarrow>
        0 < tsi_next_so info \<and> tsi_next_so info < length (tsi_sdu info)"
  using assms unfolding twin_ok_def by blast+

text \<open>Every SN of the window has a position below the window size.\<close>

lemma twin_key_pos:
  assumes "twin_ok z a n sg w" "cm_lookup w x \<noteq> None"
  shows "x < sn_mod z" "sn_pos z a x < sn_half z"
proof -
  have "tx_key z a n sg x" using twin_okD(7) [OF assms(1)] assms(2) by blast
  then show "x < sn_mod z" "sn_pos z a x < sn_half z"
    using twin_okD(5,6) [OF assms(1)] by (auto simp: tx_key_def)
qed

text \<open>If the window is not full, there is room for TX\_Next.\<close>

lemma twin_not_full:
  assumes w: "twin_ok z a n INVALID_RLC_SN w" and "\<not> full_cm w"
  shows "sn_pos z a n < sn_half z"
proof (rule ccontr)
  assume "\<not> sn_pos z a n < sn_half z"
  then have n: "sn_pos z a n = sn_half z" using twin_okD(5) [OF w] by simp
  obtain j where j: "sn_half z = 2 ^ j" "j \<le> to_number_am_sn z" by (rule sn_half_power)
  let ?K = "{x. x < sn_mod z \<and> sn_pos z a x < sn_half z}"
  have "inj_on (get_circular_idx w) ?K"
  proof (rule inj_onI)
    fix x y assume "x \<in> ?K" "y \<in> ?K" "get_circular_idx w x = get_circular_idx w y"
    then show "x = y"
      using am_ring.window_slots_inj [OF j(2), of a x y] twin_okD(2) [OF w] j(1) by (simp add: idx_mod [of w j])
  qed
  then have img: "card (get_circular_idx w ` ?K) = card ?K" by (rule card_image)
  have half: "card ?K = sn_half z"
  proof -
    have "inj_on (sn_pos z a) ?K" by (rule inj_onI) (simp add: sn_pos_eq)
    then have "card ?K = card (sn_pos z a ` ?K)" by (simp add: card_image)
    also have "sn_pos z a ` ?K = {..< sn_half z}"
    proof (rule set_eqI, rule iffI)
      fix i assume "i \<in> {..< sn_half z}"
      then have "i < sn_half z" "i < 2 * sn_half z" by simp_all
      then show "i \<in> sn_pos z a ` ?K" using sn_pos_surj [of i z a] by blast
    qed auto
    finally show ?thesis by simp
  qed
  have sub: "get_circular_idx w ` ?K \<subseteq> {i. cm_data w i \<noteq> None}"
  proof
    fix i assume "i \<in> get_circular_idx w ` ?K"
    then obtain x where x: "i = get_circular_idx w x" "x < sn_mod z" "sn_pos z a x < sn_half z" by auto
    then have "cm_lookup w x \<noteq> None" using twin_okD(7) [OF w, of x] n by (simp add: tx_key_def)
    then show "i \<in> {i. cm_data w i \<noteq> None}" using x(1) by (auto simp: cm_lookup_def split: option.splits)
  qed
  have "sn_half z \<le> card {i. cm_data w i \<noteq> None}"
    using card_mono [OF finite_slots [OF twin_okD(1) [OF w]] sub] unfolding img half .
  then have "cm_count w = cm_max_size w"
    using cm_count_le [OF twin_okD(1) [OF w]] twin_okD(1,2) [OF w] by (simp add: cm_wf_def)
  with assms(2) show False by (simp add: full_cm_def)
qed

text \<open>The SDU with an SN, as far as retransmissions see it.\<close>

definition tx_sdu :: "rlc_tx_am_sdu_info sdu_window \<Rightarrow> u32 \<Rightarrow> byte_buffer option" where
  "tx_sdu w x = map_option tsi_sdu (cm_lookup w x)"

lemma tx_sdu_Some: "tx_sdu w x = Some b \<longleftrightarrow> (\<exists>info. cm_lookup w x = Some info \<and> tsi_sdu info = b)"
  by (auto simp: tx_sdu_def)

text \<open>Writing to an SDU of the window without changing its bytes.\<close>

lemma twin_put:
  assumes w: "twin_ok z a n sg w" and x: "cm_lookup w x = Some info" "tsi_sdu info' = tsi_sdu info"
    and seg: "x = n \<Longrightarrow> sg \<noteq> INVALID_RLC_SN \<Longrightarrow> 0 < tsi_next_so info' \<and> tsi_next_so info' < length (tsi_sdu info')"
  shows "twin_ok z a n sg (assign_cm w x info')" "tx_sdu (assign_cm w x info') = tx_sdu w"
    "cm_lookup (assign_cm w x info') = (cm_lookup w)(x \<mapsto> info')"
proof -
  note d = twin_okD [OF w]
  have p: "cm_wf (assign_cm w x info')" "cm_lookup (assign_cm w x info') = (cm_lookup w)(x \<mapsto> info')"
    using win.put_old [OF d(1), of x info'] x(1) by simp_all
  have key: "tx_key z a n sg x" using d(7) [of x] x(1) by simp
  show "twin_ok z a n sg (assign_cm w x info')"
    unfolding twin_ok_def p(2)
    using p(1) d(2-6) key d(7) d(8) [OF x(1)] d(8) d(9) x(2) seg by simp blast
  show "tx_sdu (assign_cm w x info') = tx_sdu w"
    using x by (auto simp: tx_sdu_def p(2))
  show "cm_lookup (assign_cm w x info') = (cm_lookup w)(x \<mapsto> info')" by (rule p(2))
qed

text \<open>Adding the SDU with SN TX\_Next.\<close>

lemma twin_add:
  assumes w: "twin_ok z a n INVALID_RLC_SN w" and room: "sn_pos z a n < sn_half z"
  shows "add_sn w n info = Inr (overwrite w n info)" "cm_wf (overwrite w n info)"
    "cm_lookup (overwrite w n info) = (cm_lookup w)(n \<mapsto> info)" "cm_lookup w n = None"
proof -
  note d = twin_okD [OF w]
  obtain j where j: "sn_half z = 2 ^ j" "j \<le> to_number_am_sn z" by (rule sn_half_power)
  have "\<not> tx_key z a n INVALID_RLC_SN n" by (simp add: tx_key_def)
  then show none: "cm_lookup w n = None" using d(7) [of n] by blast
  have free: "slot_free w n"
    by (rule am_ring.slot_free_window [OF d(1) _ j(2) d(4)])
      (use d(2) room twin_key_pos [OF w] j(1) in auto)
  show "add_sn w n info = Inr (overwrite w n info)" by (rule add_sn_new [OF d(1) free none])
  show "cm_wf (overwrite w n info)" by (rule cm_wf_overwrite [OF d(1)])
  show "cm_lookup (overwrite w n info) = (cm_lookup w)(n \<mapsto> info)" by (rule cm_lookup_overwrite [OF d(1) free])
qed

lemma tx_key_advance:
  assumes "n < sn_mod z" "sn_pos z a n < sn_half z"
  shows "tx_key z a ((n + 1) mod sn_mod z) INVALID_RLC_SN x \<longleftrightarrow> tx_key z a n INVALID_RLC_SN x \<or> x = n"
proof -
  have "sn_pos z a ((n + 1) mod sn_mod z) = Suc (sn_pos z a n)"
    using assms(2) by (intro sn_pos_succ) simp
  then show ?thesis
    using assms sn_pos_eq [of x z n a] by (auto simp: tx_key_def less_Suc_eq)
qed

text \<open>TX\_Next is sent completely, from the queue or as the last segment.\<close>

lemma twin_advance:
  assumes w: "twin_ok z a n sg w" and room: "sn_pos z a n < sn_half z"
    and w': "cm_wf w'" "cm_max_size w' = cm_max_size w" "cm_lookup w' = (cm_lookup w)(n \<mapsto> info)" "am_sdu_ok (tsi_sdu info)"
  shows "twin_ok z a ((n + 1) mod sn_mod z) INVALID_RLC_SN w'"
proof -
  note d = twin_okD [OF w]
  have pos: "sn_pos z a ((n + 1) mod sn_mod z) = Suc (sn_pos z a n)"
    using room by (intro sn_pos_succ) simp
  have "cm_lookup w' x \<noteq> None \<longleftrightarrow> tx_key z a ((n + 1) mod sn_mod z) INVALID_RLC_SN x" for x
    unfolding tx_key_advance [OF d(4) room] using d(7) [of x] by (auto simp: w'(3) tx_key_def)
  then show ?thesis
    unfolding twin_ok_def using w' d(2,3) d(8) pos room by (simp add: am_ring.mod_m_less)
qed

text \<open>TX\_Next stays under segmentation.\<close>

lemma twin_segment:
  assumes w: "twin_ok z a n sg w" and room: "sn_pos z a n < sn_half z"
    and w': "cm_wf w'" "cm_max_size w' = cm_max_size w" "cm_lookup w' = (cm_lookup w)(n \<mapsto> info)" "am_sdu_ok (tsi_sdu info)"
      "0 < tsi_next_so info" "tsi_next_so info < length (tsi_sdu info)"
  shows "twin_ok z a n n w'"
proof -
  note d = twin_okD [OF w]
  have "cm_lookup w' x \<noteq> None \<longleftrightarrow> tx_key z a n n x" for x
    using d(7) [of x] d(4) sn_valid [OF d(4)] by (auto simp: w'(3) tx_key_def)
  then show ?thesis
    unfolding twin_ok_def using w' d(2,3,4) d(8) room by simp
qed

text \<open>TX\_Next\_Ack is acknowledged.\<close>

lemma twin_remove:
  assumes w: "twin_ok z a n sg w" and ne: "sn_pos z a n \<noteq> 0"
  obtains w' where "remove_sn w a = Inr w'" "twin_ok z ((a + 1) mod sn_mod z) n sg w'"
    "cm_lookup w' = (cm_lookup w)(a := None)" "cm_lookup w a \<noteq> None"
    "sn_pos z ((a + 1) mod sn_mod z) n = sn_pos z a n - 1"
proof -
  note d = twin_okD [OF w]
  let ?b = "(a + 1) mod sn_mod z"
  have key: "cm_lookup w a \<noteq> None" using d(7) [of a] d(3) ne by (simp add: tx_key_def)
  then obtain w' where r: "remove_sn w a = Inr w'" "cm_wf w'" "cm_lookup w' = (cm_lookup w)(a := None)"
    using win.rem_old [OF d(1)] by metis
  have sz: "cm_max_size w' = cm_max_size w" using remove_sn_old [OF key] r(1) by auto
  have b: "sn_pos z a ?b = 1" by (rule sn_pos_base_succ)
  have rb: "sn_pos z ?b x = (if x = a then 2 * sn_half z - 1 else sn_pos z a x - 1)" if "x < sn_mod z" for x
    using sn_pos_rebase [of z ?b x a] b sn_pos_0 [OF that d(3)] that by auto
  have pn: "sn_pos z ?b n = sn_pos z a n - 1" using rb [OF d(4)] ne sn_pos_0 [OF d(4,3)] by auto
  have n: "n \<noteq> a" using ne by auto
  have "tx_key z ?b n sg x \<longleftrightarrow> tx_key z a n sg x \<and> x \<noteq> a" for x
  proof (cases "x < sn_mod z")
    case True
    then show ?thesis
      using rb [OF True] pn d(5) ne n sn_pos_0 [OF True d(3)] by (auto simp: tx_key_def)
  qed (simp add: tx_key_def)
  then have "cm_lookup w' x \<noteq> None \<longleftrightarrow> tx_key z ?b n sg x" for x
    using d(7) [of x] by (auto simp: r(3))
  then have "twin_ok z ?b n sg w'"
    unfolding twin_ok_def using r(2) sz d(2,4,5,6,8,9) pn n by (auto simp: am_ring.mod_m_less r(3) split: if_splits)
  then show thesis using that r(1,3) key pn by blast
qed

section \<open>The invariant\<close>

definition retx_in :: "rlc_tx_am_sdu_info sdu_window \<Rightarrow> rlc_tx_amd_retx \<Rightarrow> bool" where
  "retx_in w r \<longleftrightarrow>
     (\<exists>b. tx_sdu w (rtx_sn r) = Some b \<and> 0 < unat (rtx_length r) \<and> unat (rtx_so r) + unat (rtx_length r) \<le> length b)"

definition retx_ok :: "rlc_am_sn_size \<Rightarrow> rlc_tx_am_sdu_info sdu_window \<Rightarrow> rlc_retx_queue \<Rightarrow> bool" where
  "retx_ok z w q \<longleftrightarrow> retx_inv q \<and> rq_capacity q = sn_half z \<and> (\<forall>r \<in> set (retx_view q). retx_in w r)"

definition tam_z :: "rlc_tx_am_entity \<Rightarrow> rlc_am_sn_size" where
  "tam_z s = txam_sn_field_length (tam_cfg s)"

definition tam_wf :: "rlc_tx_am_entity \<Rightarrow> bool" where
  "tam_wf s \<longleftrightarrow>
     tam_mod s = sn_mod (tam_z s) \<and> unat (tam_window_size s) = sn_half (tam_z s) \<and>
     head_min_size s = rlc_am_pdu_header_min_size (tam_z s) \<and> head_max_size s = rlc_am_pdu_header_max_size (tam_z s) \<and>
     q_inv (tam_queue s) \<and> (\<forall>x \<in> set (q_view (tam_queue s)). am_sdu_ok (sdu_buf x)) \<and>
     (0 < txam_t_poll_retx (tam_cfg s) \<longrightarrow> timer_set (poll_retransmit_timer s))"

definition tam_win :: "rlc_tx_am_entity \<Rightarrow> bool" where
  "tam_win s \<longleftrightarrow> twin_ok (tam_z s) (tx_next_ack s) (tx_next s) (sn_under_segmentation s) (tx_window s)"

definition tam_inv :: "rlc_tx_am_entity \<Rightarrow> bool" where
  "tam_inv s \<longleftrightarrow> tam_wf s \<and> tam_win s \<and> retx_ok (tam_z s) (tx_window s) (retx_queue s)"

lemma tam_wfD:
  assumes "tam_wf s"
  shows "tam_mod s = sn_mod (tam_z s)" "unat (tam_window_size s) = sn_half (tam_z s)"
    "head_min_size s = rlc_am_pdu_header_min_size (tam_z s)" "head_max_size s = rlc_am_pdu_header_max_size (tam_z s)"
    "q_inv (tam_queue s)" "\<And>x. x \<in> set (q_view (tam_queue s)) \<Longrightarrow> am_sdu_ok (sdu_buf x)"
    "0 < txam_t_poll_retx (tam_cfg s) \<Longrightarrow> timer_set (poll_retransmit_timer s)"
  using assms unfolding tam_wf_def by blast+

lemma tam_z_frame [simp]:
  "tam_z (s\<lparr>tam_queue := q\<rparr>) = tam_z s" "tam_z (s\<lparr>retx_queue := r\<rparr>) = tam_z s" "tam_z (s\<lparr>tx_window := w\<rparr>) = tam_z s"
  "tam_z (s\<lparr>tx_next := n\<rparr>) = tam_z s" "tam_z (s\<lparr>tx_next_ack := a\<rparr>) = tam_z s" "tam_z (s\<lparr>retx_sn := x\<rparr>) = tam_z s"
  "tam_z (s\<lparr>sn_under_segmentation := x\<rparr>) = tam_z s" "tam_z (s\<lparr>poll_sn := x\<rparr>) = tam_z s"
  "tam_z (s\<lparr>pdu_without_poll := x\<rparr>) = tam_z s" "tam_z (s\<lparr>byte_without_poll := x\<rparr>) = tam_z s"
  "tam_z (s\<lparr>poll_retransmit_timer := t\<rparr>) = tam_z s" "tam_z (s\<lparr>max_retx_reached := b\<rparr>) = tam_z s"
  "tam_z (s\<lparr>tam_pending_buffer_state := b\<rparr>) = tam_z s" "tam_z (s\<lparr>tam_suspend_bs_notif_barring := b\<rparr>) = tam_z s"
  "tam_z (s\<lparr>tam_prev_buffer_state := bs\<rparr>) = tam_z s" "tam_z (s\<lparr>stopped_upper := b\<rparr>) = tam_z s"
  "tam_z (s\<lparr>stopped_lower := b\<rparr>) = tam_z s"
  by (simp_all add: tam_z_def)

lemma unat_tx_mod_base: "tam_wf s \<Longrightarrow> unat (tx_mod_base s x) = sn_pos (tam_z s) (tx_next_ack s) x"
  by (simp add: tx_mod_base_def am_ring.dist_def sn_dist_def tam_wfD(1))

lemma tx_base:
  assumes "tam_wf s"
  shows "tx_mod_base s x < tx_mod_base s y \<longleftrightarrow> sn_pos (tam_z s) (tx_next_ack s) x < sn_pos (tam_z s) (tx_next_ack s) y"
    "tx_mod_base s x \<le> tx_mod_base s y \<longleftrightarrow> sn_pos (tam_z s) (tx_next_ack s) x \<le> sn_pos (tam_z s) (tx_next_ack s) y"
    "inside_tx_window s x \<longleftrightarrow> sn_pos (tam_z s) (tx_next_ack s) x < sn_half (tam_z s)"
    "valid_ack_sn s x \<longleftrightarrow> 0 < sn_pos (tam_z s) (tx_next_ack s) x \<and> sn_pos (tam_z s) (tx_next_ack s) x \<le> sn_half (tam_z s)"
  by (simp_all add: word_less_nat_alt word_le_nat_alt unat_tx_mod_base [OF assms] inside_tx_window_def valid_ack_sn_def
      tam_wfD(2) [OF assms])

lemma tam_invI: "tam_wf s \<Longrightarrow> tam_win s \<Longrightarrow> retx_ok (tam_z s) (tx_window s) (retx_queue s) \<Longrightarrow> tam_inv s"
  by (simp add: tam_inv_def)

lemma tam_invD:
  assumes "tam_inv s"
  shows "tam_wf s" "tam_win s" "twin_ok (tam_z s) (tx_next_ack s) (tx_next s) (sn_under_segmentation s) (tx_window s)"
    "retx_ok (tam_z s) (tx_window s) (retx_queue s)"
  using assms by (simp_all add: tam_inv_def tam_win_def)

section \<open>Polling\<close>

definition set_poll :: "u32 \<Rightarrow> u32 \<Rightarrow> u32 \<Rightarrow> unique_timer \<Rightarrow> rlc_tx_am_entity \<Rightarrow> rlc_tx_am_entity" where
  "set_poll a b c t s =
     s\<lparr>pdu_without_poll := a, byte_without_poll := b, poll_sn := c, poll_retransmit_timer := t\<rparr>"

lemma set_poll_simps [simp]:
  "tx_next_ack (set_poll a b c t s) = tx_next_ack s" "tx_next (set_poll a b c t s) = tx_next s"
  "tam_cfg (set_poll a b c t s) = tam_cfg s" "tam_queue (set_poll a b c t s) = tam_queue s"
  "sn_under_segmentation (set_poll a b c t s) = sn_under_segmentation s" "retx_queue (set_poll a b c t s) = retx_queue s"
  "retx_sn (set_poll a b c t s) = retx_sn s" "tam_mod (set_poll a b c t s) = tam_mod s"
  "tam_window_size (set_poll a b c t s) = tam_window_size s" "tx_window (set_poll a b c t s) = tx_window s"
  "head_min_size (set_poll a b c t s) = head_min_size s" "head_max_size (set_poll a b c t s) = head_max_size s"
  "poll_retransmit_timer (set_poll a b c t s) = t" "tam_z (set_poll a b c t s) = tam_z s"
  "max_retx_reached (set_poll a b c t s) = max_retx_reached s" "stopped_lower (set_poll a b c t s) = stopped_lower s"
  "poll_sn (set_poll a b c t s) = c"
  by (simp_all add: set_poll_def tam_z_def)

text \<open>
  The poll bit never fails; it is set when nothing more can be sent, and then t-PollRetransmit runs.
\<close>

definition polled :: "u32 \<Rightarrow> bool \<Rightarrow> u8 \<Rightarrow> rlc_tx_am_entity \<Rightarrow> rlc_tx_am_entity \<Rightarrow> bool" where
  "polled sn is_retx p s s' \<longleftrightarrow>
     p \<le> 1 \<and> (\<exists>a b c t. s' = set_poll a b c t s) \<and>
     (timer_set (poll_retransmit_timer s') \<longleftrightarrow> timer_set (poll_retransmit_timer s)) \<and> (tx_stalled s \<longrightarrow> p = 1) \<and>
     (p = 1 \<longrightarrow> 0 < txam_t_poll_retx (tam_cfg s) \<longrightarrow> \<not> stopped_lower s \<longrightarrow> is_running (poll_retransmit_timer s')) \<and>
     (p = 1 \<longrightarrow> \<not> is_retx \<longrightarrow> poll_sn s' = sn)"

lemma polling_ok:
  assumes "tam_wf s"
  obtains p s' where "get_polling_bit sn is_retx n s = Inr (p, s')" "polled sn is_retx p s s'"
proof -
  let ?s = "if is_retx then s else s\<lparr>pdu_without_poll := pdu_without_poll s + 1,
    byte_without_poll := byte_without_poll s + of_nat n\<rparr>"
  let ?c = "if is_retx then poll_sn s else sn"
  define poll where "poll \<longleftrightarrow> \<not> is_retx \<and>
     (txam_poll_pdu (tam_cfg s) > 0 \<and> pdu_without_poll ?s \<ge> word_of_int (txam_poll_pdu (tam_cfg s)) \<or>
      txam_poll_byte (tam_cfg s) > 0 \<and> byte_without_poll ?s \<ge> word_of_int (txam_poll_byte (tam_cfg s))) \<or> tx_stalled s"
  define run where "run \<longleftrightarrow> 0 < txam_t_poll_retx (tam_cfg s) \<and> \<not> stopped_lower s"
  have st: "tx_stalled ?s = tx_stalled s"
    by (simp add: tx_stalled_def is_tx_window_full_def tx_mod_base_def)
  have eq: "get_polling_bit sn is_retx n s =
      (if poll then
         (if run then bind_res (timer_run (if is_running (poll_retransmit_timer s)
                 then timer_stop (poll_retransmit_timer s) else poll_retransmit_timer s))
               (\<lambda>t. Inr (1, set_poll 0 0 ?c t s))
          else Inr (1, set_poll 0 0 ?c (poll_retransmit_timer s) s))
       else Inr (0, set_poll (pdu_without_poll ?s) (byte_without_poll ?s) (poll_sn s) (poll_retransmit_timer s) s))"
    using st by (cases is_retx) (simp_all add: get_polling_bit_def Let_def poll_def run_def set_poll_def)
  consider (no) "\<not> poll" | (yes) "poll" "\<not> run" | (run) "poll" "run" by blast
  then show thesis
  proof cases
    case no
    then show thesis
      by (intro that [of 0 "set_poll (pdu_without_poll ?s) (byte_without_poll ?s) (poll_sn s) (poll_retransmit_timer s) s"])
        (simp only: eq if_False, auto simp: polled_def poll_def)
  next
    case yes
    then show thesis
      by (intro that [of 1 "set_poll 0 0 ?c (poll_retransmit_timer s) s"])
        (simp only: eq if_True if_False, auto simp: polled_def run_def)
  next
    case run
    then have "timer_set (poll_retransmit_timer s)" using tam_wfD(7) [OF assms] by (simp add: run_def)
    then show thesis
      using run by (intro that [of 1 "set_poll 0 0 ?c (poll_retransmit_timer s\<lparr>is_running := True\<rparr>) s"])
        (auto simp: eq polled_def timer_stop_def)
  qed
qed

lemma polled_frame:
  assumes "polled sn is_retx p s s'"
  shows "tx_next_ack s' = tx_next_ack s" "tx_next s' = tx_next s" "tam_cfg s' = tam_cfg s" "tam_queue s' = tam_queue s"
    "sn_under_segmentation s' = sn_under_segmentation s" "retx_queue s' = retx_queue s" "retx_sn s' = retx_sn s"
    "tam_mod s' = tam_mod s" "tam_window_size s' = tam_window_size s" "tx_window s' = tx_window s"
    "head_min_size s' = head_min_size s" "head_max_size s' = head_max_size s" "tam_z s' = tam_z s"
    "max_retx_reached s' = max_retx_reached s" "stopped_lower s' = stopped_lower s" "p \<le> 1"
    "timer_set (poll_retransmit_timer s') \<longleftrightarrow> timer_set (poll_retransmit_timer s)"
  using assms by (auto simp: polled_def)

lemma polled_wf: "polled sn is_retx p s s' \<Longrightarrow> tam_wf s' \<longleftrightarrow> tam_wf s"
  by (simp add: tam_wf_def polled_frame)

section \<open>Data PDUs\<close>

text \<open>A PDU that carries \<open>n\<close> bytes at offset \<open>so\<close> of the SDU \<open>b\<close>, with a header that says so.\<close>

definition am_cut_header :: "rlc_am_sn_size \<Rightarrow> u32 \<Rightarrow> u8 \<Rightarrow> nat \<Rightarrow> nat \<Rightarrow> nat \<Rightarrow> rlc_am_pdu_header" where
  "am_cut_header z sn p so n l =
     \<lparr>am_dc = Dc_Data, am_p = p, am_si = si_of_cut so n l, am_sn_size = z, am_sn = sn, am_so = of_nat so\<rparr>"

definition am_cut_pdu :: "rlc_am_sn_size \<Rightarrow> u32 \<Rightarrow> u8 \<Rightarrow> nat \<Rightarrow> nat \<Rightarrow> byte_buffer \<Rightarrow> byte_buffer" where
  "am_cut_pdu z sn p so n b =
     rlc_am_write_data_pdu_header (am_cut_header z sn p so n (length b)) @ take n (drop so b)"

lemma has_so_cut: "has_so (si_of_cut so n l) \<longleftrightarrow> so \<noteq> 0"
  by (simp add: si_of_cut_def has_so_iff)

lemma of_nat_so: "so \<le> max_am_sdu \<Longrightarrow> unat (of_nat so :: u16) = so"
  by (simp add: max_am_sdu_def unsigned_of_nat take_bit_nat_eq_self)

lemma am_cut_header_ok:
  assumes "sn < sn_mod z" "p \<le> 1" "so \<le> max_am_sdu"
  shows "am_header_ok (am_cut_header z sn p so n l)"
proof -
  have "(of_nat so :: u16) \<noteq> 0 \<longleftrightarrow> so \<noteq> 0" using of_nat_so [OF assms(3)] by (simp add: word_unat_eq_iff)
  then show ?thesis using assms(1,2) by (simp add: am_header_ok_def am_cut_header_def has_so_cut)
qed

lemma am_cut_header_length:
  assumes "sn < sn_mod z" "p \<le> 1" "so \<le> max_am_sdu"
  shows "length (rlc_am_write_data_pdu_header (am_cut_header z sn p so n l)) =
    (if so = 0 then rlc_am_pdu_header_min_size z else rlc_am_pdu_header_max_size z)"
  using length_write_am [OF am_cut_header_ok [OF assms]]
  by (simp add: am_header_packed_size_def am_cut_header_def si_of_cut_def)

text \<open>What the receiver reads from such a PDU.\<close>

lemma am_cut_pdu_read:
  assumes "sn < sn_mod z" "p \<le> 1" "so \<le> max_am_sdu" "0 < n" "so + n \<le> length b"
  shows "rlc_am_read_data_pdu_header (am_cut_pdu z sn p so n b) z empty_am_header = Some (am_cut_header z sn p so n (length b))"
    "drop (am_header_packed_size (am_cut_header z sn p so n (length b))) (am_cut_pdu z sn p so n b) = take n (drop so b)"
proof -
  have "take n (drop so b) \<noteq> []" using assms(4,5) by (cases "drop so b") auto
  then show "rlc_am_read_data_pdu_header (am_cut_pdu z sn p so n b) z empty_am_header = Some (am_cut_header z sn p so n (length b))"
    using am_read_write [OF am_cut_header_ok [OF assms(1-3)], of "take n (drop so b)" n "length b"]
    by (simp add: am_cut_pdu_def) (simp add: am_cut_header_def)
  show "drop (am_header_packed_size (am_cut_header z sn p so n (length b))) (am_cut_pdu z sn p so n b) = take n (drop so b)"
    using length_write_am [OF am_cut_header_ok [OF assms(1-3)], of n "length b"] by (simp add: am_cut_pdu_def)
qed

lemma data_header_cut:
  "si = si_of_cut so n l \<Longrightarrow> am_data_header s p si sn (of_nat so) = am_cut_header (tam_z s) sn p so n l"
  by (simp add: am_data_header_def am_cut_header_def tam_z_def)

lemma head_sizes: "rlc_am_pdu_header_min_size z < rlc_am_pdu_header_max_size z" "2 \<le> rlc_am_pdu_header_min_size z"
  by (cases z; simp add: rlc_am_pdu_header_max_size_def rlc_am_pdu_header_so_size_def)+

lemma copy_payload_fits: "so + n \<le> length b \<Longrightarrow> n \<le> space \<Longrightarrow> copy_payload b so n space = take n (drop so b)"
  by (simp add: copy_payload_def)

lemma length_cut: "so + n \<le> length b \<Longrightarrow> length (take n (drop so b)) = n"
  by simp

text \<open>The first segment of the SDU with SN TX\_Next, which was just added to the window.\<close>

lemma build_first_ok:
  assumes wf: "tam_wf s" and n: "tx_next s < sn_mod (tam_z s)"
    and g: "head_min_size s < grant" "grant < length (tsi_sdu info) + head_min_size s" and i: "tsi_next_so info = 0"
  obtains p s' where
    "build_first_sdu_segment grant info s =
       Inr (am_cut_pdu (tam_z s) (tx_next s) p 0 (grant - head_min_size s) (tsi_sdu info),
            s'\<lparr>tx_window := assign_cm (tx_window s) (tx_next s) (info\<lparr>tsi_next_so := grant - head_min_size s\<rparr>)\<rparr>,
            [Tx_Add_Pdus_With_Segmentation 1 grant])"
    "polled (tx_next s) False p (s\<lparr>sn_under_segmentation := tx_next s\<rparr>) s'"
proof -
  let ?n = "grant - head_min_size s" and ?b = "tsi_sdu info" and ?s = "s\<lparr>sn_under_segmentation := tx_next s\<rparr>"
  have wf': "tam_wf ?s" using wf by (simp add: tam_wf_def)
  obtain p s' where p: "get_polling_bit (tx_next s) False ?n ?s = Inr (p, s')" "polled (tx_next s) False p ?s s'"
    by (rule polling_ok [OF wf'])
  note fr = polled_frame [OF p(2)]
  have si: "First_Segment = si_of_cut 0 ?n (length ?b)" using g by (simp add: si_of_cut_def)
  have h: "length (rlc_am_write_data_pdu_header (am_cut_header (tam_z s) (tx_next s) p 0 ?n (length ?b))) = head_min_size s"
    using am_cut_header_length [OF n fr(16), of 0 ?n "length ?b"] tam_wfD(3) [OF wf] by simp
  have hd: "am_data_header s' p First_Segment (tx_next s) 0 =
      am_cut_header (tam_z s) (tx_next s) p 0 ?n (length ?b)"
    using data_header_cut [OF si, of s'] fr(13) by simp
  have n: "0 < ?n" "?n \<le> length ?b" using g by auto
  then have ne: "?b \<noteq> []" by auto
  have pay: "copy_payload ?b 0 ?n (grant - head_min_size s) = take ?n ?b" using copy_payload_fits [of 0 ?n ?b ?n] n by simp
  show thesis
    by (rule that [OF _ p(2)])
      (use g p(1) n ne fr(10) in \<open>simp add: build_first_sdu_segment_def Let_def i hd h pay am_cut_pdu_def\<close>)
qed

end
