(* ===== verification/Rlc_Tx_Am_Inv.thy ===== *)
theory Rlc_Tx_Am_Inv
  imports Rlc_Tx_Am_Win
begin

text \<open>
  What the operations of the transmitting AM entity do under its invariant: no operation fails an assertion
  or loops forever, provided that SDUs are neither empty nor longer than \<open>max_am_sdu\<close> bytes and that a
  status PDU that acknowledges TX\_Next itself carries a NACK while that SDU is under segmentation.
\<close>

section \<open>What a pull sends\<close>

text \<open>Nothing is left to send.\<close>

definition tx_idle :: "rlc_tx_am_entity \<Rightarrow> bool" where
  "tx_idle s \<longleftrightarrow> is_empty (tam_queue s) \<and> empty_retx (retx_queue s) \<and> sn_under_segmentation s = INVALID_RLC_SN"

text \<open>The number of bytes of the SDU with SN TX\_Next that were sent.\<close>

definition tx_progress :: "rlc_tx_am_entity \<Rightarrow> nat" where
  "tx_progress s = (if sn_under_segmentation s = INVALID_RLC_SN then 0
     else case cm_lookup (tx_window s) (tx_next s) of None \<Rightarrow> 0 | Some info \<Rightarrow> tsi_next_so info)"

text \<open>\<open>n\<close> bytes of the retransmission at the front of the queue.\<close>

definition sends_retx :: "rlc_tx_am_entity \<Rightarrow> rlc_tx_am_entity \<Rightarrow> u32 \<Rightarrow> nat \<Rightarrow> nat \<Rightarrow> bool" where
  "sends_retx s s' sn so n \<longleftrightarrow>
     tx_next s' = tx_next s \<and> sn_under_segmentation s' = sn_under_segmentation s \<and> tx_window s' = tx_window s \<and>
     tam_queue s' = tam_queue s \<and>
     (\<exists>r rest. retx_view (retx_queue s) = r # rest \<and> sn = rtx_sn r \<and> so = unat (rtx_so r) \<and> n \<le> unat (rtx_length r) \<and>
        retx_view (retx_queue s') =
          (if n = unat (rtx_length r) then rest
           else r\<lparr>rtx_so := rtx_so r + of_nat n, rtx_length := rtx_length r - of_nat n\<rparr> # rest))"

text \<open>\<open>n\<close> new bytes: the next ones of the SDU with SN TX\_Next, taken from the queue if it is not under segmentation.\<close>

definition sends_new :: "rlc_tx_am_entity \<Rightarrow> rlc_tx_am_entity \<Rightarrow> u32 \<Rightarrow> nat \<Rightarrow> nat \<Rightarrow> byte_buffer \<Rightarrow> bool" where
  "sends_new s s' sn so n b \<longleftrightarrow>
     retx_view (retx_queue s) = [] \<and> retx_queue s' = retx_queue s \<and> sn = tx_next s \<and> so = tx_progress s \<and>
     (if sn_under_segmentation s = INVALID_RLC_SN
      then \<exists>sdu. q_view (tam_queue s) = sdu # q_view (tam_queue s') \<and> sdu_buf sdu = b \<and> tx_sdu (tx_window s) sn = None
      else tam_queue s' = tam_queue s \<and> tx_sdu (tx_window s) sn = Some b) \<and>
     tx_sdu (tx_window s') = (tx_sdu (tx_window s))(sn \<mapsto> b) \<and>
     (if so + n = length b
      then tx_next s' = (tx_next s + 1) mod tam_mod s \<and> sn_under_segmentation s' = INVALID_RLC_SN
      else tx_next s' = tx_next s \<and> sn_under_segmentation s' = tx_next s \<and> tx_progress s' = so + n)"

definition sends :: "nat \<Rightarrow> rlc_tx_am_entity \<Rightarrow> byte_buffer \<Rightarrow> rlc_tx_am_entity \<Rightarrow> bool" where
  "sends grant s pdu s' \<longleftrightarrow>
     (\<exists>sn p so n b. pdu = am_cut_pdu (tam_z s) sn p so n b \<and> sn < sn_mod (tam_z s) \<and> p \<le> 1 \<and>
        0 < n \<and> so + n \<le> length b \<and> length b \<le> max_am_sdu \<and> tx_sdu (tx_window s') sn = Some b \<and>
        n + (if so = 0 then head_min_size s else head_max_size s) \<le> grant \<and>
        (sends_retx s s' sn so n \<or> sends_new s s' sn so n b) \<and>
        (tx_idle s' \<longrightarrow> p = 1 \<and>
           (0 < txam_t_poll_retx (tam_cfg s) \<longrightarrow> \<not> stopped_lower s \<longrightarrow> is_running (poll_retransmit_timer s'))))"

text \<open>Nothing can be sent: no retransmission, no SDU under segmentation and no new SDU that fits the window.\<close>

definition tx_done :: "rlc_tx_am_entity \<Rightarrow> bool" where
  "tx_done s \<longleftrightarrow>
     retx_view (retx_queue s) = [] \<and> sn_under_segmentation s = INVALID_RLC_SN \<and>
     (q_view (tam_queue s) = [] \<or> is_tx_window_full s)"

text \<open>After a pull: the invariant, the part of the state that a pull never changes, and what was sent.\<close>

definition pull_post :: "nat \<Rightarrow> rlc_tx_am_entity \<Rightarrow> byte_buffer \<Rightarrow> rlc_tx_am_entity \<Rightarrow> bool" where
  "pull_post grant s pdu s' \<longleftrightarrow>
     tam_inv s' \<and> tam_cfg s' = tam_cfg s \<and> tx_next_ack s' = tx_next_ack s \<and>
     (if pdu = [] then q_view (tam_queue s') = q_view (tam_queue s) \<and> retx_queue s' = retx_queue s \<and>
        tx_next s' = tx_next s \<and> sn_under_segmentation s' = sn_under_segmentation s \<and> tx_window s' = tx_window s \<and>
        (grant \<le> head_max_size s \<or> tx_done s)
      else sends grant s pdu s')"

lemma am_cut_pdu_ne: "0 < n \<Longrightarrow> so + n \<le> length b \<Longrightarrow> am_cut_pdu z sn p so n b \<noteq> []"
  by (cases "drop so b") (auto simp: am_cut_pdu_def)

lemma am_cut_pdu_length:
  assumes "sn < sn_mod z" "p \<le> 1" "length b \<le> max_am_sdu" "so + n \<le> length b"
  shows "length (am_cut_pdu z sn p so n b) =
    n + (if so = 0 then rlc_am_pdu_header_min_size z else rlc_am_pdu_header_max_size z)"
  using am_cut_header_length [OF assms(1,2), of so n "length b"] assms(3,4) by (simp add: am_cut_pdu_def)

lemma polled_idle:
  assumes "polled sn r p s s'" "is_empty (tam_queue s)" "empty_retx (retx_queue s)" "sn_under_segmentation s = INVALID_RLC_SN"
  shows "p = 1 \<and> (0 < txam_t_poll_retx (tam_cfg s) \<longrightarrow> \<not> stopped_lower s \<longrightarrow> is_running (poll_retransmit_timer s'))"
  using assms by (auto simp: polled_def tx_stalled_def)

lemma pull_nothing:
  assumes "tam_inv s" "q_inv q" "q_view q = q_view (tam_queue s)" "tx_done s"
  shows "pull_post grant s [] (s\<lparr>tam_queue := q\<rparr>)"
  using assms by (simp add: pull_post_def tam_inv_def tam_win_def tam_wf_def)

lemma retx_ok_tx_sdu: "retx_ok z w q \<Longrightarrow> (\<And>x b. tx_sdu w x = Some b \<Longrightarrow> tx_sdu w' x = Some b) \<Longrightarrow> retx_ok z w' q"
  unfolding retx_ok_def retx_in_def by blast

text \<open>The SDU that a pull takes from the queue.\<close>

definition fresh_info :: "rlc_sdu \<Rightarrow> rlc_tx_am_sdu_info" where
  "fresh_info sdu = \<lparr>tsi_sdu = sdu_buf sdu, tsi_is_retx = sdu_is_retx sdu, tsi_pdcp_sn = sdu_pdcp_sn sdu,
     tsi_toa = sdu_toa sdu, tsi_next_so = 0, tsi_retx_count = RETX_COUNT_NOT_STARTED\<rparr>"

lemma fresh_info_simps [simp]: "tsi_sdu (fresh_info sdu) = sdu_buf sdu" "tsi_next_so (fresh_info sdu) = 0"
  by (simp_all add: fresh_info_def)

text \<open>The state in which that SDU is in the window.\<close>

definition take_sdu :: "rlc_sdu \<Rightarrow> rlc_sdu_queue \<Rightarrow> rlc_tx_am_entity \<Rightarrow> rlc_tx_am_entity" where
  "take_sdu sdu q s = s\<lparr>tam_queue := q, tx_window := overwrite (tx_window s) (tx_next s) (fresh_info sdu)\<rparr>"

lemma take_sdu_simps [simp]:
  "tam_z (take_sdu sdu q s) = tam_z s" "tx_next (take_sdu sdu q s) = tx_next s" "tam_queue (take_sdu sdu q s) = q"
  "tx_window (take_sdu sdu q s) = overwrite (tx_window s) (tx_next s) (fresh_info sdu)"
  "head_min_size (take_sdu sdu q s) = head_min_size s" "tam_cfg (take_sdu sdu q s) = tam_cfg s"
  "retx_queue (take_sdu sdu q s) = retx_queue s" "tx_next_ack (take_sdu sdu q s) = tx_next_ack s"
  "sn_under_segmentation (take_sdu sdu q s) = sn_under_segmentation s" "stopped_lower (take_sdu sdu q s) = stopped_lower s"
  "tam_mod (take_sdu sdu q s) = tam_mod s" "poll_retransmit_timer (take_sdu sdu q s) = poll_retransmit_timer s"
  "head_max_size (take_sdu sdu q s) = head_max_size s" "tam_window_size (take_sdu sdu q s) = tam_window_size s"
  by (simp_all add: take_sdu_def)

lemma sdu_notify_frame [simp]: "sdu_notify (s\<lparr>tam_queue := q\<rparr>) sdu = sdu_notify s sdu"
  by (simp add: sdu_notify_def split: option.split)

lemma build_new_eq:
  assumes "head_min_size s < grant" "\<not> is_tx_window_full s" "read_sdu empty_sdu (tam_queue s) = (True, sdu, q)"
    and "add_sn (tx_window s) (tx_next s) (fresh_info sdu) = Inr (overwrite (tx_window s) (tx_next s) (fresh_info sdu))"
  shows "build_new_pdu grant s =
    (if length (sdu_buf sdu) + head_min_size s > grant
     then bind_res (build_first_sdu_segment grant (fresh_info sdu) (take_sdu sdu q s)) (\<lambda>(pdu, s', as). Inr (pdu, s', sdu_notify s sdu @ as))
     else bind_res (get_polling_bit (tx_next s) False 0 (take_sdu sdu q s)) (\<lambda>(p, s').
       (let header = rlc_am_write_data_pdu_header (am_data_header s' p Full_Sdu (tx_next s') 0);
            payload = take (grant - length header) (sdu_buf sdu);
            pdu = header @ payload
        in if payload = [] then Inr ([], s', sdu_notify s sdu)
           else Inr (pdu, s'\<lparr>tx_next := (tx_next s' + 1) mod tam_mod s'\<rparr>,
             sdu_notify s sdu @ [Tx_Add_Pulled_Sdus 1, Tx_Add_Pdus_No_Segmentation 1 (length pdu)]))))"
  using assms
  by (simp add: build_new_pdu_def Let_def fresh_info_def [symmetric] take_sdu_def)

lemma pull_post_newI:
  assumes inv: "tam_inv s" "tam_wf s'" "tam_cfg s' = tam_cfg s" "tx_next_ack s' = tx_next_ack s"
    and w: "twin_ok (tam_z s) (tx_next_ack s) (tx_next s') (sn_under_segmentation s') (tx_window s')"
    and n: "sends_new s s' (tx_next s) so n b" "0 < n" "so + n \<le> length b" "am_sdu_ok b"
      "n + (if so = 0 then head_min_size s else head_max_size s) \<le> grant"
    and p: "p \<le> 1" "tx_idle s' \<Longrightarrow> p = 1 \<and>
        (0 < txam_t_poll_retx (tam_cfg s) \<longrightarrow> \<not> stopped_lower s \<longrightarrow> is_running (poll_retransmit_timer s'))"
  shows "pull_post grant s (am_cut_pdu (tam_z s) (tx_next s) p so n b) s'"
proof -
  have z: "tam_z s' = tam_z s" using inv(3) by (simp add: tam_z_def)
  have v: "retx_view (retx_queue s) = []" "retx_queue s' = retx_queue s"
    "tx_sdu (tx_window s') = (tx_sdu (tx_window s))(tx_next s \<mapsto> b)"
    using n(1) by (auto simp: sends_new_def)
  have "retx_ok (tam_z s') (tx_window s') (retx_queue s')"
    using tam_invD(4) [OF inv(1)] v z by (simp add: retx_ok_def)
  then have "tam_inv s'" using inv(2,4) w z by (simp add: tam_inv_def tam_win_def)
  moreover have "tx_next s < sn_mod (tam_z s)" using twin_okD(4) [OF tam_invD(3) [OF inv(1)]] .
  moreover have "length b \<le> max_am_sdu" using n(4) by (simp add: am_sdu_ok_def)
  ultimately have "sends grant s (am_cut_pdu (tam_z s) (tx_next s) p so n b) s'"
    unfolding sends_def using n p v(3) by (intro exI conjI) (auto simp: fun_upd_same)
  then show ?thesis
    using \<open>tam_inv s'\<close> inv(3,4) am_cut_pdu_ne [OF n(2,3)] by (simp add: pull_post_def)
qed

text \<open>A new SDU or its first segment.\<close>

lemma build_new_ok:
  assumes inv: "tam_inv s" and seg: "sn_under_segmentation s = INVALID_RLC_SN" and nr: "retx_view (retx_queue s) = []"
  obtains pdu s' as where "build_new_pdu grant s = Inr (pdu, s', as)" "pull_post grant s pdu s'"
proof -
  note wf = tam_invD(1) [OF inv] note w = tam_invD(3) [OF inv] note rx = tam_invD(4) [OF inv]
  note d = twin_okD [OF w]
  let ?q = "snd (snd (read_sdu empty_sdu (tam_queue s)))"
  note rd = read_correct [OF tam_wfD(5) [OF wf], of empty_sdu]
  consider (small) "grant \<le> head_min_size s \<or> is_tx_window_full s"
    | (none) "\<not> grant \<le> head_min_size s" "\<not> is_tx_window_full s" "q_view (tam_queue s) = []"
    | (some) sdu rest where "\<not> grant \<le> head_min_size s" "\<not> is_tx_window_full s" "q_view (tam_queue s) = sdu # rest"
    by (cases "q_view (tam_queue s)") auto
  then show thesis
  proof cases
    case small
    moreover have "grant \<le> head_max_size s \<or> tx_done s"
      using small seg nr head_sizes(1) [of "tam_z s"] tam_wfD(3,4) [OF wf] by (auto simp: tx_done_def)
    ultimately show thesis using that [of "[]" s "[]"] inv by (auto simp: build_new_pdu_def pull_post_def)
  next
    case none
    obtain x q where r: "read_sdu empty_sdu (tam_queue s) = (False, x, q)" using rd none(3) by (metis prod.collapse)
    then have "build_new_pdu grant s = Inr ([], s\<lparr>tam_queue := q\<rparr>, [])" using none by (simp add: build_new_pdu_def)
    moreover have "tx_done s" using none(3) seg nr by (simp add: tx_done_def)
    ultimately show thesis using that pull_nothing [OF inv, of q] rd r none(3) by simp
  next
    case some
    let ?b = "sdu_buf sdu" and ?z = "tam_z s" and ?n = "tx_next s"
    have b: "am_sdu_ok ?b" using tam_wfD(6) [OF wf] some(3) by simp
    obtain q where r: "read_sdu empty_sdu (tam_queue s) = (True, sdu, q)" "q_inv q" "q_view q = rest"
      using rd some(3) by (metis list.distinct(1) list.sel(1,3) prod.collapse)
    have w0: "twin_ok ?z (tx_next_ack s) ?n INVALID_RLC_SN (tx_window s)" using w seg by simp
    have room: "sn_pos ?z (tx_next_ack s) ?n < sn_half ?z"
      by (rule twin_not_full [OF w0]) (use some(2) in \<open>simp add: is_tx_window_full_def\<close>)
    note add = twin_add(1-3) [OF w0 room, of "fresh_info sdu"] twin_add(4) [OF w0 room]
    note eq = build_new_eq [OF some(1) [unfolded not_le] some(2) r(1) add(1)]
    let ?s = "take_sdu sdu q s"
    have wf1: "tam_wf ?s" using wf r(2,3) some(3) by (simp add: tam_wf_def)
    have none: "tx_sdu (tx_window s) ?n = None" using add(4) by (simp add: tx_sdu_def)
    show thesis
    proof (cases "grant < length ?b + head_min_size s")
      case True
      obtain p s2 where f: "build_first_sdu_segment grant (fresh_info sdu) ?s =
         Inr (am_cut_pdu ?z ?n p 0 (grant - head_min_size s) ?b,
            s2\<lparr>tx_window := assign_cm (tx_window ?s) ?n ((fresh_info sdu)\<lparr>tsi_next_so := grant - head_min_size s\<rparr>)\<rparr>,
            [Tx_Add_Pdus_With_Segmentation 1 grant])"
         "polled ?n False p (?s\<lparr>sn_under_segmentation := ?n\<rparr>) s2"
        by (rule build_first_ok [OF wf1, where grant = grant and info = "fresh_info sdu"]) (use d(4) some(1) True that in simp_all)
      note fr = polled_frame [OF f(2)]
      let ?k = "grant - head_min_size s"
      let ?i = "(fresh_info sdu)\<lparr>tsi_next_so := ?k\<rparr>"
      let ?w = "assign_cm (overwrite (tx_window s) ?n (fresh_info sdu)) ?n ?i"
      let ?s' = "s2\<lparr>tx_window := ?w\<rparr>"
      have w2: "cm_wf ?w" "cm_lookup ?w = (cm_lookup (tx_window s))(?n \<mapsto> ?i)"
        using win.put_old [OF add(2), of ?n ?i] add(3) by simp_all
      have k: "0 < ?k" "?k < length ?b" using some(1) True by auto
      have tw: "twin_ok ?z (tx_next_ack s) ?n ?n ?w"
        by (rule twin_segment [OF w0 room w2(1) _ w2(2)]) (use b k in simp_all)
      have sdu: "tx_sdu ?w = (tx_sdu (tx_window s))(?n \<mapsto> ?b)" by (rule ext) (simp add: tx_sdu_def w2(2))
      have prog: "tx_progress ?s' = ?k" using sn_valid [OF d(4)] by (simp add: tx_progress_def fr w2(2))
      have snew: "sends_new s ?s' ?n 0 ?k ?b"
        using nr seg r(3) some(3) none sdu prog k by (simp add: sends_new_def fr) (simp add: tx_progress_def)
      have "pull_post grant s (am_cut_pdu ?z ?n p 0 ?k ?b) ?s'"
      proof (rule pull_post_newI [OF inv])
        show "tam_wf ?s'" using polled_wf [OF f(2)] wf1 by (simp add: tam_wf_def)
        show "tx_idle ?s' \<Longrightarrow> p = 1 \<and> (0 < txam_t_poll_retx (tam_cfg s) \<longrightarrow> \<not> stopped_lower s \<longrightarrow>
            is_running (poll_retransmit_timer ?s'))"
          using sn_valid [OF d(4)] by (simp add: tx_idle_def fr)
      qed (use fr tw snew k b in simp_all)
      then show thesis using that eq True f(1) by simp
    next
      case False
      obtain p s2 where f: "get_polling_bit ?n False 0 ?s = Inr (p, s2)" "polled ?n False p ?s s2"
        by (rule polling_ok [OF wf1])
      note fr = polled_frame [OF f(2)]
      let ?k = "length ?b" and ?s' = "s2\<lparr>tx_next := (tx_next s2 + 1) mod tam_mod s2\<rparr>"
      have k: "0 < ?k" "?k \<le> grant - head_min_size s" using b False by (auto simp: am_sdu_ok_def)
      have h: "am_data_header s2 p Full_Sdu (tx_next s2) 0 = am_cut_header ?z ?n p 0 ?k ?k"
        using data_header_cut [of Full_Sdu 0 ?k ?k s2] fr by (simp add: si_of_cut_def)
      have l: "length (rlc_am_write_data_pdu_header (am_cut_header ?z ?n p 0 ?k ?k)) = head_min_size s"
        using am_cut_header_length [OF d(4) fr(16), of 0 ?k ?k] tam_wfD(3) [OF wf] by simp
      have e: "build_new_pdu grant s = Inr (am_cut_pdu ?z ?n p 0 ?k ?b, ?s',
          sdu_notify s sdu @ [Tx_Add_Pulled_Sdus 1, Tx_Add_Pdus_No_Segmentation 1 (head_min_size s + ?k)])"
        using False k b f(1) some(1) by (simp add: eq h l Let_def am_cut_pdu_def am_sdu_ok_def)
      have tw: "twin_ok ?z (tx_next_ack s) ((?n + 1) mod sn_mod ?z) INVALID_RLC_SN (tx_window ?s)"
        by (rule twin_advance [OF w0 room, where info = "fresh_info sdu"]) (use add b in simp_all)
      have sdu: "tx_sdu (tx_window ?s) = (tx_sdu (tx_window s))(?n \<mapsto> ?b)" by (rule ext) (simp add: tx_sdu_def add(3))
      have snew: "sends_new s ?s' ?n 0 ?k ?b"
        using nr seg r(3) some(3) none sdu k by (simp add: sends_new_def fr tx_progress_def)
      have "pull_post grant s (am_cut_pdu ?z ?n p 0 ?k ?b) ?s'"
      proof (rule pull_post_newI [OF inv])
        show "tam_wf ?s'" using polled_wf [OF f(2)] wf1 by (simp add: tam_wf_def)
        show "tx_idle ?s' \<Longrightarrow> p = 1 \<and> (0 < txam_t_poll_retx (tam_cfg s) \<longrightarrow> \<not> stopped_lower s \<longrightarrow>
            is_running (poll_retransmit_timer ?s'))"
          using polled_idle [OF f(2)] by (simp add: tx_idle_def fr)
        show "twin_ok (tam_z s) (tx_next_ack s) (tx_next ?s') (sn_under_segmentation ?s') (tx_window ?s')"
          using tw seg tam_wfD(1) [OF wf] by (simp add: fr)
      qed (use fr snew k b False in simp_all)
      then show thesis using that e by simp
    qed
  qed
qed

text \<open>The next segment of the SDU under segmentation.\<close>

lemma build_continued_ok:
  assumes inv: "tam_inv s" and seg: "sn_under_segmentation s \<noteq> INVALID_RLC_SN" and nr: "retx_view (retx_queue s) = []"
    and info: "cm_lookup (tx_window s) (sn_under_segmentation s) = Some info"
  obtains pdu s' as where "build_continued_sdu_segment grant info s = Inr (pdu, s', as)" "pull_post grant s pdu s'"
proof -
  note wf = tam_invD(1) [OF inv] note w = tam_invD(3) [OF inv]
  note d = twin_okD [OF w]
  let ?b = "tsi_sdu info" and ?z = "tam_z s" and ?n = "tx_next s" and ?so = "tsi_next_so info"
  have sg: "sn_under_segmentation s = ?n" and room: "sn_pos ?z (tx_next_ack s) ?n < sn_half ?z" using d(6) seg by auto
  have so: "0 < ?so" "?so < length ?b" using d(9) [OF seg] info sg by auto
  have b: "am_sdu_ok ?b" using d(8) [OF info] .
  then have so2: "?so \<le> max_am_sdu" using so by (simp add: am_sdu_ok_def)
  have prog: "tx_progress s = ?so" using seg info sg by (simp add: tx_progress_def)
  have sdu0: "tx_sdu (tx_window s) ?n = Some ?b" using info sg by (simp add: tx_sdu_def)
  show thesis
  proof (cases "grant \<le> head_max_size s")
    case True
    then show thesis using that [of "[]" s "[]"] inv so by (simp add: build_continued_sdu_segment_def Let_def pull_post_def)
  next
    case False
    define last where "last \<longleftrightarrow> length ?b - ?so + head_max_size s \<le> grant"
    define k where "k = (if last then length ?b - ?so else grant - head_max_size s)"
    define si where "si = si_of_cut ?so k (length ?b)"
    define s1 where "s1 = (if last then s\<lparr>sn_under_segmentation := INVALID_RLC_SN\<rparr> else s)"
    have k: "0 < k" "?so + k \<le> length ?b" "?so + k = length ?b \<longleftrightarrow> last" "k + head_max_size s \<le> grant"
      using so False by (auto simp: k_def last_def)
    have si: "si = (if last then Last_Segment else Middle_Segment)" using so(1) k(3) by (simp add: si_def si_of_cut_def)
    have wf1: "tam_wf s1" using wf by (simp add: s1_def tam_wf_def)
    obtain p s2 where f: "get_polling_bit ?n False k s1 = Inr (p, s2)" "polled ?n False p s1 s2"
      by (rule polling_ok [OF wf1])
    note fr = polled_frame [OF f(2)]
    have s1: "tx_next s1 = ?n" "tx_window s1 = tx_window s" "tam_z s1 = ?z" "tam_mod s1 = tam_mod s" "tam_cfg s1 = tam_cfg s"
      "tam_queue s1 = tam_queue s" "retx_queue s1 = retx_queue s" "tx_next_ack s1 = tx_next_ack s" "stopped_lower s1 = stopped_lower s"
      "sn_under_segmentation s1 = (if last then INVALID_RLC_SN else ?n)"
      using sg by (simp_all add: s1_def)
    let ?i = "info\<lparr>tsi_next_so := ?so + k\<rparr>"
    let ?w = "assign_cm (tx_window s) ?n ?i"
    let ?s2 = "s2\<lparr>tx_window := ?w\<rparr>"
    let ?s' = "if last then ?s2\<lparr>tx_next := (?n + 1) mod tam_mod s\<rparr> else ?s2"
    have h: "am_data_header s2 p (if last then Last_Segment else Middle_Segment) ?n (of_nat ?so) =
        am_cut_header ?z ?n p ?so k (length ?b)"
      using data_header_cut [OF si_def, of s2] fr s1(3) unfolding si by simp
    have l: "length (rlc_am_write_data_pdu_header (am_cut_header ?z ?n p ?so k (length ?b))) = head_max_size s"
      using am_cut_header_length [OF d(4) fr(16) so2, of k "length ?b"] tam_wfD(4) [OF wf] so(1) by simp
    have pay: "copy_payload ?b ?so k (grant - head_max_size s) = take k (drop ?so ?b)"
      using copy_payload_fits [of ?so k ?b] k(2,4) by simp
    have e: "build_continued_sdu_segment grant info s = Inr (am_cut_pdu ?z ?n p ?so k ?b, ?s',
        (if last then [Tx_Add_Pulled_Sdus 1] else []) @ [Tx_Add_Pdus_With_Segmentation 1 (head_max_size s + k)])"
    proof (cases last)
      case True
      then have g: "\<not> length ?b - ?so + head_max_size s > grant" "length ?b - ?so = k"
        "s\<lparr>sn_under_segmentation := INVALID_RLC_SN\<rparr> = s1" by (auto simp: last_def k_def s1_def)
      show ?thesis
        using so False True k(1,2,4) f(1) h l pay of_nat_so [OF so2] fr(2,8,10) s1 sg
        by (simp add: build_continued_sdu_segment_def Let_def g am_cut_pdu_def)
    next
      case no: False
      then have g: "length ?b - ?so + head_max_size s > grant" "grant - head_max_size s = k" "s1 = s"
        "grant < length ?b + head_max_size s - ?so"
        using so by (auto simp: last_def k_def s1_def)
      show ?thesis
        using so False no k(1,2) f(1) h l pay of_nat_so [OF so2] fr(2,8,10) s1 sg
        by (simp add: build_continued_sdu_segment_def Let_def g am_cut_pdu_def)
    qed
    have less: "\<not> last \<Longrightarrow> ?so + k < length ?b" using k(2,3) by linarith
    have put: "cm_wf ?w" "cm_lookup ?w = (cm_lookup (tx_window s))(?n \<mapsto> ?i)"
      using win.put_old [OF d(1), of ?n ?i] info sg by simp_all
    have sdu: "tx_sdu ?w = (tx_sdu (tx_window s))(?n \<mapsto> ?b)" by (rule ext) (simp add: tx_sdu_def put(2))
    have "pull_post grant s (am_cut_pdu ?z ?n p ?so k ?b) ?s'"
    proof (rule pull_post_newI [OF inv])
      show "tam_wf ?s'" using polled_wf [OF f(2)] wf1 by (simp add: tam_wf_def)
      show "twin_ok ?z (tx_next_ack s) (tx_next ?s') (sn_under_segmentation ?s') (tx_window ?s')"
        using twin_advance [OF w room put(1) _ put(2)] twin_segment [OF w room put(1) _ put(2)] b k(1,3) so less
          tam_wfD(1) [OF wf] by (simp add: fr s1)
      show "sends_new s ?s' ?n ?so k ?b"
        using nr seg prog sdu sdu0 k(3) sn_valid [OF d(4)] by (simp add: sends_new_def fr s1) (simp add: tx_progress_def fr s1 put(2))
      show "tx_idle ?s' \<Longrightarrow> p = 1 \<and> (0 < txam_t_poll_retx (tam_cfg s) \<longrightarrow> \<not> stopped_lower s \<longrightarrow>
            is_running (poll_retransmit_timer ?s'))"
        using polled_idle [OF f(2)] by (simp add: tx_idle_def fr s1 split: if_splits)
    qed (use fr s1 k b so in simp_all)
    then show thesis using that e by blast
  qed
qed

text \<open>A retransmission.\<close>

lemma empty_retx_view: "retx_inv q \<Longrightarrow> empty_retx q \<longleftrightarrow> retx_view q = []"
  using front_valid_Nil [OF retx_invD(1)] by (simp add: empty_retx_def retx_view_def)

lemma retx_ok_front:
  assumes "retx_ok z w q" "\<not> empty_retx q"
  obtains r rest b where "retx_view q = r # rest" "front_retx q = Inr r" "tx_sdu w (rtx_sn r) = Some b" "has_sn w (rtx_sn r)"
    "0 < unat (rtx_length r)" "unat (rtx_so r) + unat (rtx_length r) \<le> length b"
proof -
  have q: "retx_inv q" using assms(1) by (simp add: retx_ok_def)
  obtain r rest where v: "retx_view q = r # rest"
    using assms(2) empty_retx_view [OF q] by (cases "retx_view q") auto
  then have f: "front_retx q = Inr r" using front_retx_ok(1) [OF q] by simp
  have "retx_in w r" using assms(1) v by (simp add: retx_ok_def)
  then obtain b where b: "tx_sdu w (rtx_sn r) = Some b" "0 < unat (rtx_length r)"
    "unat (rtx_so r) + unat (rtx_length r) \<le> length b" by (auto simp: retx_in_def)
  have "has_sn w (rtx_sn r)" using b(1) by (auto simp: has_sn_lookup tx_sdu_def)
  then show thesis using that v f b by blast
qed

text \<open>No retransmission has lost its SDU, so none is dropped.\<close>

lemma drop_missing_ok: "retx_ok z w q \<Longrightarrow> drop_missing_retx w q = Inr q"
proof (cases "empty_retx q")
  case False
  assume "retx_ok z w q"
  then obtain r rest b where "front_retx q = Inr r" "has_sn w (rtx_sn r)" using retx_ok_front [OF _ False] by metis
  then show ?thesis using False by (simp add: drop_missing_retx.simps [of w q])
qed (simp add: drop_missing_retx.simps [of w q])

lemma retx_pop_ok: "retx_ok z w q \<Longrightarrow> retx_ok z w (pop_retx q)"
  using pop_retx_ok [of q] list.set_sel(2) [of "retx_view q"]
  by (cases "retx_view q") (auto simp: retx_ok_def pop_retx_def split: prod.splits)

lemma retx_total_cons [simp]: "retx_fits (r # rs) \<longleftrightarrow> unat (rtx_length r) + retx_total rs < 2 ^ 32"
  by (simp add: retx_fits_def)

lemma retx_replace_ok:
  assumes q: "retx_ok z w q" "retx_view q = r # rest"
    and k: "0 < k" "k < unat (rtx_length r)" and b: "tx_sdu w (rtx_sn r) = Some b" "unat (rtx_so r) + unat (rtx_length r) \<le> length b"
      "length b \<le> max_am_sdu"
  defines "r' \<equiv> r\<lparr>rtx_so := rtx_so r + of_nat k, rtx_length := rtx_length r - of_nat k\<rparr>"
  obtains q' where "replace_front r' q = Inr q'" "retx_ok z w q'" "retx_view q' = r' # rest"
proof -
  have k32: "unat (of_nat k :: u32) = k"
    using k(2) unat_u32 [of "rtx_length r"] by (simp add: unsigned_of_nat take_bit_nat_eq_self)
  have len: "unat (rtx_length r') = unat (rtx_length r) - k"
    using k(2) k32 by (simp add: r'_def unat_sub word_le_nat_alt)
  have "unat (rtx_so r) + unat (of_nat k :: u32) < 2 ^ 32" using b k k32 by (simp add: max_am_sdu_def)
  then have so: "unat (rtx_so r') = unat (rtx_so r) + k" using k32 by (simp add: r'_def unat_word_ariths(1))
  have inv: "retx_inv q" and cap: "rq_capacity q = sn_half z" using q(1) by (simp_all add: retx_ok_def)
  have "retx_fits (r' # tl (retx_view q))" using retx_invD(4) [OF inv] q(2) len by simp
  then obtain q' where q': "replace_front r' q = Inr q'" "retx_inv q'" "retx_view q' = r' # rest"
    using replace_front_ok [OF inv, of r'] q(2) by auto
  have "rq_capacity q' = sn_half z"
    using q'(1) cap by (auto simp: replace_front_def srsran_assert_def split: list.splits if_splits)
  moreover have "retx_in w r'" using b k len so by (simp add: retx_in_def) (simp add: r'_def)
  ultimately have "retx_ok z w q'" using q'(2,3) q by (simp add: retx_ok_def)
  then show thesis using that q' by blast
qed

text \<open>The queue after \<open>k\<close> bytes of the retransmission at its front were sent.\<close>

lemma update_retx_ok:
  assumes q: "retx_ok (tam_z s) (tx_window s) (retx_queue s)" "retx_view (retx_queue s) = r # rest"
    and k: "0 < k" "k \<le> unat (rtx_length r)" and b: "tx_sdu (tx_window s) (rtx_sn r) = Some b"
      "unat (rtx_so r) + unat (rtx_length r) \<le> length b" "length b \<le> max_am_sdu"
  obtains q' m where "update_retx_queue r k s = Inr (s\<lparr>retx_queue := q', max_retx_reached := m\<rparr>)"
    "retx_ok (tam_z s) (tx_window s) q'"
    "retx_view q' = (if k = unat (rtx_length r) then rest
       else r\<lparr>rtx_so := rtx_so r + of_nat k, rtx_length := rtx_length r - of_nat k\<rparr> # rest)"
proof (cases "k = unat (rtx_length r)")
  case True
  obtain info where i: "cm_lookup (tx_window s) (rtx_sn r) = Some info" using b(1) by (auto simp: tx_sdu_def)
  have v: "retx_view (pop_retx (retx_queue s)) = rest" using pop_retx_ok [of "retx_queue s"] q by (simp add: retx_ok_def)
  show thesis
    by (rule that [where q' = "pop_retx (retx_queue s)" and m = "max_retx_reached s \<or> tsi_retx_count info = txam_max_retx_thresh (tam_cfg s)"])
      (use True v retx_pop_ok [OF q(1)] in \<open>simp_all add: update_retx_queue_def at_cm_Some [OF i] Let_def\<close>)
next
  case False
  then have less: "k < unat (rtx_length r)" using k(2) by simp
  let ?r = "r\<lparr>rtx_so := rtx_so r + of_nat k, rtx_length := rtx_length r - of_nat k\<rparr>"
  obtain q' where q': "replace_front ?r (retx_queue s) = Inr q'" "retx_ok (tam_z s) (tx_window s) q'" "retx_view q' = ?r # rest"
    by (rule retx_replace_ok [OF q k(1) less b])
  have "front_retx (retx_queue s) = Inr r" using front_retx_ok(1) [of "retx_queue s"] q by (simp add: retx_ok_def)
  then show thesis
    by (intro that [where q' = q' and m = "max_retx_reached s"]) (use False q' in \<open>simp_all add: update_retx_queue_def\<close>)
qed

lemma retx_si_cut: "so + n \<le> l \<Longrightarrow> rtx_so r = of_nat so \<Longrightarrow> so \<le> max_am_sdu \<Longrightarrow> retx_si r (l \<le> so + n) = si_of_cut so n l"
  by (auto simp: retx_si_def si_of_cut_def max_am_sdu_def word_unat_eq_iff unsigned_of_nat take_bit_nat_eq_self)

lemma send_retx_ok:
  assumes inv: "tam_inv s" and q: "retx_view (retx_queue s) = r # rest"
    and i: "cm_lookup (tx_window s) (rtx_sn r) = Some info"
  obtains pdu s' as where "send_retx grant r info s = Inr (pdu, s', as)" "pull_post grant s pdu s'"
proof -
  note wf = tam_invD(1) [OF inv] note w = tam_invD(3) [OF inv] note rx = tam_invD(4) [OF inv]
  let ?b = "tsi_sdu info" and ?z = "tam_z s" and ?sn = "rtx_sn r"
  define so where "so = unat (rtx_so r)"
  have ri: "0 < unat (rtx_length r)" "so + unat (rtx_length r) \<le> length ?b"
    using rx q i by (auto simp: retx_ok_def retx_in_def tx_sdu_def so_def)
  have b: "length ?b \<le> max_am_sdu" using twin_okD(8) [OF w i] by (simp add: am_sdu_ok_def)
  have sn: "?sn < sn_mod ?z" using twin_key_pos(1) [OF w] i by simp
  have so: "so \<le> max_am_sdu" "rtx_so r = of_nat so" "(ucast (rtx_so r) :: u16) = of_nat so"
    using ri(2) b by (simp_all add: so_def)
  let ?h = "if so = 0 then head_min_size s else head_max_size s"
  have hl: "get_retx_expected_hdr_len r s = ?h" using so(2) by (auto simp: get_retx_expected_hdr_len_def so_def unat_eq_0)
  have sum: "unat (rtx_so r + rtx_length r) = so + unat (rtx_length r)"
    using ri(2) b by (simp add: so_def unat_word_ariths(1) max_am_sdu_def)
  show thesis
  proof (cases "grant \<le> ?h")
    case True
    then have "send_retx grant r info s = Inr ([], s, [])" using ri sum by (simp add: send_retx_def Let_def hl)
    moreover have "grant \<le> head_max_size s"
      using True head_sizes(1) [of "tam_z s"] tam_wfD(3,4) [OF wf] by (simp split: if_splits)
    ultimately show thesis using that [of "[]" s "[]"] inv by (simp add: pull_post_def)
  next
    case False
    define k where "k = min (unat (rtx_length r)) (grant - ?h)"
    have k: "0 < k" "k \<le> unat (rtx_length r)" "so + k \<le> length ?b" "k + ?h \<le> grant"
      using ri False by (auto simp: k_def)
    obtain q' m where u: "update_retx_queue r k s = Inr (s\<lparr>retx_queue := q', max_retx_reached := m\<rparr>)"
      "retx_ok ?z (tx_window s) q'"
      "retx_view q' = (if k = unat (rtx_length r) then rest
         else r\<lparr>rtx_so := rtx_so r + of_nat k, rtx_length := rtx_length r - of_nat k\<rparr> # rest)"
      by (rule update_retx_ok [OF rx q k(1,2)]) (use i ri(2) b that in \<open>auto simp: tx_sdu_def so_def\<close>)
    let ?s = "s\<lparr>retx_queue := q', max_retx_reached := m\<rparr>"
    have wf1: "tam_wf ?s" using wf by (simp add: tam_wf_def)
    obtain p s2 where f: "get_polling_bit ?sn True 0 ?s = Inr (p, s2)" "polled ?sn True p ?s s2"
      by (rule polling_ok [OF wf1])
    note fr = polled_frame [OF f(2)]
    have h: "am_data_header s2 p (retx_si r (length ?b \<le> so + k)) ?sn (of_nat so) = am_cut_header ?z ?sn p so k (length ?b)"
      using data_header_cut [OF retx_si_cut [OF k(3) so(2,1)], of s2] fr by simp
    have l: "length (rlc_am_write_data_pdu_header (am_cut_header ?z ?sn p so k (length ?b))) = ?h"
      using am_cut_header_length [OF sn fr(16) so(1), of k "length ?b"] tam_wfD(3,4) [OF wf] by simp
    have pay: "copy_payload ?b so k (grant - ?h) = take k (drop so ?b)" using copy_payload_fits [OF k(3)] k(4) by simp
    have e: "send_retx grant r info s = Inr (am_cut_pdu ?z ?sn p so k ?b, s2, [Tx_Add_Retx_Pdus 1 (?h + k)])"
      using ri sum False k(1,3) u(1) f(1) h l pay of_nat_so [OF so(1)] so(3)
      by (simp add: send_retx_def Let_def hl k_def [symmetric] so_def [symmetric] srsran_assert_def am_cut_pdu_def)
    have "sends_retx s s2 ?sn so k"
      using q k(2) u(3) by (simp add: sends_retx_def fr so_def)
    moreover have "tx_idle s2 \<Longrightarrow> p = 1 \<and>
        (0 < txam_t_poll_retx (tam_cfg s) \<longrightarrow> \<not> stopped_lower s \<longrightarrow> is_running (poll_retransmit_timer s2))"
      using polled_idle [OF f(2)] by (simp add: tx_idle_def fr)
    ultimately have "sends grant s (am_cut_pdu ?z ?sn p so k ?b) s2"
      unfolding sends_def using sn fr(16) k b i
      by (intro exI [of _ ?sn] exI [of _ p] exI [of _ so] exI [of _ k] exI [of _ ?b] conjI) (auto simp: fr tx_sdu_def)
    moreover have "tam_inv s2"
      using polled_wf [OF f(2)] wf1 w u(2) by (simp add: tam_inv_def tam_win_def fr)
    ultimately have "pull_post grant s (am_cut_pdu ?z ?sn p so k ?b) s2"
      using am_cut_pdu_ne [OF k(1,3)] by (simp add: pull_post_def fr)
    then show thesis using that e by blast
  qed
qed

lemma pull_post_retx_sn:
  assumes "pull_post grant (s\<lparr>retx_sn := x\<rparr>) pdu s'"
  shows "pull_post grant s pdu s'"
proof -
  have "tx_progress (s\<lparr>retx_sn := x\<rparr>) = tx_progress s" by (simp add: tx_progress_def)
  then have "sends_new (s\<lparr>retx_sn := x\<rparr>) s' sn so n b \<longleftrightarrow> sends_new s s' sn so n b"
    "sends_retx (s\<lparr>retx_sn := x\<rparr>) s' sn so n \<longleftrightarrow> sends_retx s s' sn so n" for sn so n b
    by (simp_all only: sends_new_def sends_retx_def) simp_all
  then have "sends grant (s\<lparr>retx_sn := x\<rparr>) pdu s' \<longleftrightarrow> sends grant s pdu s'" by (simp add: sends_def)
  moreover have "tx_done (s\<lparr>retx_sn := x\<rparr>) = tx_done s"
    by (simp add: tx_done_def is_tx_window_full_def tx_mod_base_def)
  ultimately show ?thesis using assms by (cases "pdu = []") (simp_all add: pull_post_def)
qed

lemma build_retx_ok:
  assumes inv: "tam_inv s" and ne: "\<not> empty_retx (retx_queue s)"
  obtains pdu s' as where "build_retx_pdu grant s = Inr (pdu, s', as)" "pull_post grant s pdu s'"
proof -
  note rx = tam_invD(4) [OF inv]
  obtain r rest b where r: "retx_view (retx_queue s) = r # rest" "front_retx (retx_queue s) = Inr r"
      "tx_sdu (tx_window s) (rtx_sn r) = Some b"
    by (rule retx_ok_front [OF rx ne]) (rule that)
  then obtain info where i: "cm_lookup (tx_window s) (rtx_sn r) = Some info" by (auto simp: tx_sdu_def)
  let ?s = "s\<lparr>retx_sn := rtx_sn r\<rparr>"
  have inv1: "tam_inv ?s" using inv by (simp add: tam_inv_def tam_win_def tam_wf_def)
  obtain pdu s' as where p: "send_retx grant r info ?s = Inr (pdu, s', as)" "pull_post grant ?s pdu s'"
    by (rule send_retx_ok [OF inv1, of r rest info grant]) (use r(1) i that in simp_all)
  have "build_retx_pdu grant s = Inr (pdu, s', as)"
    using p(1) by (simp add: build_retx_pdu_def ne drop_missing_ok [OF rx] r(2) at_cm_Some [OF i])
  moreover have "pull_post grant s pdu s'"
    using p(2) by (rule pull_post_retx_sn)
  ultimately show thesis using that by blast
qed

lemma pull_data_ok:
  assumes inv: "tam_inv s"
  obtains pdu s' as where "pull_data_am grant s = Inr (pdu, s', as)" "pull_post grant s pdu s'"
proof -
  note rx = tam_invD(4) [OF inv] note d = twin_okD [OF tam_invD(3) [OF inv]]
  have v: "empty_retx (retx_queue s) \<longleftrightarrow> retx_view (retx_queue s) = []"
    using empty_retx_view rx by (auto simp: retx_ok_def)
  consider (retx) "\<not> empty_retx (retx_queue s)"
    | (seg) "empty_retx (retx_queue s)" "sn_under_segmentation s \<noteq> INVALID_RLC_SN"
    | (none) "empty_retx (retx_queue s)" "sn_under_segmentation s = INVALID_RLC_SN" "is_empty (tam_queue s)"
    | (new) "empty_retx (retx_queue s)" "sn_under_segmentation s = INVALID_RLC_SN" "\<not> is_empty (tam_queue s)"
    by blast
  then show thesis
  proof cases
    case retx
    show thesis by (rule build_retx_ok [OF inv retx, of grant]) (rule that, use retx in \<open>simp_all add: pull_data_am_def\<close>)
  next
    case seg
    have sg: "sn_under_segmentation s = tx_next s" using d(6) seg(2) by simp
    have "tx_key (tam_z s) (tx_next_ack s) (tx_next s) (sn_under_segmentation s) (tx_next s)"
      using d(4) seg(2) by (simp add: tx_key_def)
    then have "cm_lookup (tx_window s) (sn_under_segmentation s) \<noteq> None" using d(7) sg by simp
    then obtain info where i: "cm_lookup (tx_window s) (sn_under_segmentation s) = Some info" by auto
    show thesis
      by (rule build_continued_ok [OF inv seg(2) _ i, of grant])
        (use that i seg v in \<open>simp_all add: pull_data_am_def has_sn_lookup at_cm_Some\<close>)
  next
    case none
    moreover have "tx_done s" using none v by (simp add: tx_done_def is_empty_def q_view_def)
    ultimately show thesis using that [of "[]" s "[]"] inv by (simp add: pull_data_am_def pull_post_def)
  next
    case new
    have s: "s\<lparr>sn_under_segmentation := INVALID_RLC_SN\<rparr> = s" using new(2) by simp
    show thesis
      by (rule build_new_ok [OF inv new(2), of grant]) (use that new s v in \<open>simp_all add: pull_data_am_def\<close>)
  qed
qed

text \<open>
  A grant of the MAC: a required status report goes first; then retransmissions, then the rest of the SDU
  under segmentation, then a new SDU.
\<close>

lemma pull_pdu_am_ok:
  assumes "tam_inv s"
  obtains pdu st s' as where "pull_pdu_am sp grant s = Inr (pdu, st, s', as)"
    "max_retx_reached s \<longrightarrow> pdu = [] \<and> st = None \<and> s' = s"
    "\<not> max_retx_reached s \<longrightarrow> sp_required sp \<longrightarrow> s' = s \<and>
       (if grant < 3 then pdu = [] \<and> st = None else st = Some (snd (send_status grant (sp_status sp))) \<and> pdu = fst (send_status grant (sp_status sp)))"
    "\<not> max_retx_reached s \<longrightarrow> \<not> sp_required sp \<longrightarrow> st = None \<and> pull_post grant s pdu s'"
    "tam_inv s'" "tam_cfg s' = tam_cfg s" "tx_next_ack s' = tx_next_ack s"
proof -
  consider "max_retx_reached s" | (st) "\<not> max_retx_reached s" "sp_required sp" | (data) "\<not> max_retx_reached s" "\<not> sp_required sp"
    by blast
  then show thesis
  proof cases
    case 1
    then show thesis using that [of "[]" None s "[]"] assms by (simp add: pull_pdu_am_def)
  next
    case st
    obtain pdu status where "send_status grant (sp_status sp) = (pdu, status)" by (metis prod.collapse)
    then have eq: "pull_pdu_am sp grant s = Inr (if grant < 3 then ([], None, s, [])
        else (pdu, Some status, s, if pdu = [] then [] else [Tx_Add_Ctrl_Pdus 1 (length pdu)]))"
      and p: "fst (send_status grant (sp_status sp)) = pdu" "snd (send_status grant (sp_status sp)) = status"
      using st by (simp_all add: pull_pdu_am_def rlc_am_nr_status_pdu_sizeof_header_ack_sn_def)
    show thesis
    proof (cases "grant < 3")
      case True
      show thesis by (rule that [of "[]" None s "[]"]) (use eq True st assms in simp_all)
    next
      case False
      show thesis
        by (rule that [of pdu "Some status" s "if pdu = [] then [] else [Tx_Add_Ctrl_Pdus 1 (length pdu)]"])
          (use eq False p st assms in simp_all)
    qed
  next
    case data
    obtain pdu s' as where p: "pull_data_am grant s = Inr (pdu, s', as)" "pull_post grant s pdu s'" by (rule pull_data_ok [OF assms])
    show thesis by (rule that [of pdu None s' as]) (use p data in \<open>simp_all add: pull_pdu_am_def\<close>, use p(2) in \<open>simp_all add: pull_post_def\<close>)
  qed
qed

end
