(* ===== verification/Rlc_Tx_Am_Ack.thy ===== *)
theory Rlc_Tx_Am_Ack
  imports Rlc_Tx_Am_Inv
begin

text \<open>
  The operations of the transmitting AM entity that are not a grant of the MAC, under its invariant: SDUs and
  discards of the upper layer, buffer state reports, status PDUs of the peer and the expiry of
  t-PollRetransmit.
\<close>

section \<open>Upper layer and buffer state\<close>

lemma tam_inv_frame [simp]:
  "tam_inv (s\<lparr>tam_pending_buffer_state := p\<rparr>) = tam_inv s" "tam_inv (s\<lparr>tam_prev_buffer_state := bs\<rparr>) = tam_inv s"
  "tam_inv (s\<lparr>tam_suspend_bs_notif_barring := p\<rparr>) = tam_inv s" "tam_inv (s\<lparr>retx_sn := x\<rparr>) = tam_inv s"
  by (simp_all add: tam_inv_def tam_win_def tam_wf_def)

lemma tam_inv_queue:
  "tam_inv s \<Longrightarrow> q_inv q \<Longrightarrow> (\<forall>x \<in> set (q_view q). am_sdu_ok (sdu_buf x)) \<Longrightarrow> tam_inv (s\<lparr>tam_queue := q\<rparr>)"
  by (simp add: tam_inv_def tam_win_def tam_wf_def)

lemma changed_buffer_state_inv: "tam_inv (fst (handle_changed_buffer_state_am s)) = tam_inv s"
  by (simp add: handle_changed_buffer_state_am_def)

text \<open>An SDU of the upper layer is queued or dropped; the queue says which.\<close>

lemma handle_sdu_am_ok:
  assumes inv: "tam_inv s" and b: "am_sdu_ok buf"
  obtains s' as where "handle_sdu_am now buf is_retx s = Inr (s', as)" "tam_inv s'"
proof -
  note wf = tam_invD(1) [OF inv]
  obtain sn where sn: "get_pdcp_sn buf (txam_pdcp_sn_len (tam_cfg s)) (tam_is_srb s) = Inr sn" using get_pdcp_sn_ok by blast
  let ?sdu = "make_sdu now buf (if tam_is_srb s \<and> is_retx then False else is_retx) sn"
  note w = write_correct [OF tam_wfD(5) [OF wf] make_sdu_sn_ok [OF sn], of now "if tam_is_srb s \<and> is_retx then False else is_retx"]
  let ?s = "s\<lparr>tam_queue := snd (write_sdu ?sdu (tam_queue s))\<rparr>"
  have inv': "tam_inv ?s"
    by (rule tam_inv_queue [OF inv w(2)]) (use w(3) b tam_wfD(6) [OF wf] in auto)
  obtain ok q where r: "write_sdu ?sdu (tam_queue s) = (ok, q)" by (metis prod.collapse)
  show thesis
    by (rule that [of "if ok then fst (handle_changed_buffer_state_am ?s) else ?s"
          "if ok then Tx_Add_Sdus 1 (length buf) # snd (handle_changed_buffer_state_am ?s) else [Tx_Add_Lost_Sdus 1]"])
      (use inv' in \<open>simp_all add: handle_sdu_am_def sn r Let_def case_prod_beta changed_buffer_state_inv\<close>)
qed

lemma discard_sdu_am_ok:
  assumes inv: "tam_inv s" and sn: "pdcp_sn < STATE_DISCARDED"
  shows "tam_inv (fst (discard_sdu_am pdcp_sn s))"
proof -
  note wf = tam_invD(1) [OF inv]
  note d = discard_correct [OF tam_wfD(5) [OF wf] sn]
  have "tam_inv (s\<lparr>tam_queue := snd (try_discard pdcp_sn (tam_queue s))\<rparr>)"
    by (rule tam_inv_queue [OF inv d(2)]) (use d(3) tam_wfD(6) [OF wf] in auto)
  then show ?thesis
    by (simp add: discard_sdu_am_def Let_def case_prod_beta changed_buffer_state_inv)
qed

text \<open>The buffer state: no SDU under segmentation or queued for retransmission is missing from the window.\<close>

definition retx_report :: "rlc_tx_am_entity \<Rightarrow> nat" where
  "retx_report s = sum_list (map (\<lambda>r. unat (rtx_length r) + (if rtx_so r = 0 then head_min_size s else head_max_size s))
     (retx_view (retx_queue s)))"

definition segment_report :: "rlc_tx_am_entity \<Rightarrow> nat" where
  "segment_report s = (if sn_under_segmentation s = INVALID_RLC_SN then 0
     else case tx_sdu (tx_window s) (tx_next s) of None \<Rightarrow> 0 | Some b \<Rightarrow> length b - tx_progress s + head_max_size s)"

definition tx_report :: "status_provider \<Rightarrow> rlc_tx_am_entity \<Rightarrow> nat" where
  "tx_report sp s =
     sdu_bytes (q_view (tam_queue s)) + length (q_view (tam_queue s)) * head_min_size s + segment_report s +
     retx_report s + (if sp_required sp then sp_length sp else 0)"

lemma retx_view_bounds:
  assumes "retx_ok z w q" "twin_ok z a n sg w"
  shows "length (retx_view q) \<le> sn_half z" "\<And>r. r \<in> set (retx_view q) \<Longrightarrow> unat (rtx_length r) \<le> max_am_sdu"
    "retx_total (retx_view q) \<le> sn_half z * max_am_sdu"
proof -
  have "length (retx_view q) \<le> length (rq_queue q)" by (simp add: retx_view_def retx_valid_length)
  also have "\<dots> \<le> sn_half z" using assms(1) by (auto simp: retx_ok_def dest: retx_invD(2))
  finally show l: "length (retx_view q) \<le> sn_half z" .
  show b: "unat (rtx_length r) \<le> max_am_sdu" if r: "r \<in> set (retx_view q)" for r
  proof -
    obtain b where "tx_sdu w (rtx_sn r) = Some b" "unat (rtx_so r) + unat (rtx_length r) \<le> length b"
      using assms(1) r by (auto simp: retx_ok_def retx_in_def)
    moreover from this(1) have "length b \<le> max_am_sdu" using twin_okD(8) [OF assms(2)] by (auto simp: tx_sdu_def am_sdu_ok_def)
    ultimately show ?thesis by linarith
  qed
  have "retx_total rs \<le> length rs * max_am_sdu" if "\<forall>r \<in> set rs. unat (rtx_length r) \<le> max_am_sdu" for rs
    using that by (induction rs) auto
  then have "retx_total (retx_view q) \<le> length (retx_view q) * max_am_sdu" using b by blast
  also have "\<dots> \<le> sn_half z * max_am_sdu" using l by simp
  finally show "retx_total (retx_view q) \<le> sn_half z * max_am_sdu" .
qed

lemma retx_report_exact:
  assumes "tam_inv s"
  defines "st \<equiv> rq_st (retx_queue s)"
  shows "unat (retx_bytes st + n_retx_so_zero st * of_nat (head_min_size s) + n_retx_so_nonzero st * of_nat (head_max_size s)) =
    retx_report s"
proof -
  note inv = tam_invD [OF assms(1)]
  have h: "head_min_size s \<le> head_max_size s" "head_max_size s \<le> 5"
    using tam_wfD(3,4) [OF inv(1)] by (cases "tam_z s"; simp add: rlc_am_pdu_header_max_size_def rlc_am_pdu_header_so_size_def)+
  then have u: "unat (of_nat (head_min_size s) :: u32) = head_min_size s" "unat (of_nat (head_max_size s) :: u32) = head_max_size s"
    by (simp_all add: unsigned_of_nat take_bit_nat_eq_self)
  note b = retx_view_bounds [OF inv(4,3)]
  have "retx_total (retx_view (retx_queue s)) + length (retx_view (retx_queue s)) * head_max_size s \<le>
      sn_half (tam_z s) * max_am_sdu + sn_half (tam_z s) * 5"
    using b(1,3) h(2) by (intro add_mono mult_mono) auto
  also have "\<dots> < 2 ^ 32" using sn_half_cases [of "tam_z s"] by (auto simp: max_am_sdu_def)
  finally show ?thesis
    unfolding st_def retx_report_def
    using retxq.reported_bytes [of "retx_queue s" "of_nat (head_max_size s)" "of_nat (head_min_size s)"] inv(4) h u
    by (simp add: retx_ok_def word_le_nat_alt cong: if_cong)
qed

lemma segment_report_exact:
  assumes inv: "tam_inv s" and seg: "sn_under_segmentation s \<noteq> INVALID_RLC_SN"
  obtains info where "cm_lookup (tx_window s) (sn_under_segmentation s) = Some info" "sn_under_segmentation s = tx_next s"
    "of_nat (length (tsi_sdu info)) - of_nat (tsi_next_so info) + of_nat (head_max_size s) = (of_nat (segment_report s) :: u32)"
proof -
  note d = twin_okD [OF tam_invD(3) [OF inv]]
  have sg: "sn_under_segmentation s = tx_next s" using d(6) seg by simp
  have "tx_key (tam_z s) (tx_next_ack s) (tx_next s) (sn_under_segmentation s) (tx_next s)" using d(4) seg by (simp add: tx_key_def)
  then obtain info where i: "cm_lookup (tx_window s) (tx_next s) = Some info" using d(7) by blast
  have "tsi_next_so info \<le> length (tsi_sdu info)" using d(9) [OF seg i] by simp
  then have "of_nat (length (tsi_sdu info)) - of_nat (tsi_next_so info) + of_nat (head_max_size s) = (of_nat (segment_report s) :: u32)"
    using seg i by (simp add: segment_report_def tx_sdu_def tx_progress_def)
  then show thesis using that i sg by simp
qed

lemma get_buffer_state_am_ok:
  assumes inv: "tam_inv s"
  obtains bs s' where "get_buffer_state_am sp s = Inr (bs, s')" "tam_inv s'"
    "tam_cfg s' = tam_cfg s" "tx_next_ack s' = tx_next_ack s" "tx_next s' = tx_next s" "tx_window s' = tx_window s"
    "retx_queue s' = retx_queue s" "sn_under_segmentation s' = sn_under_segmentation s" "q_view (tam_queue s') = q_view (tam_queue s)"
    "tx_report sp s < 2 ^ 32 \<longrightarrow> pending_bytes bs = tx_report sp s"
proof -
  note wf = tam_invD(1) [OF inv] note rx = tam_invD(4) [OF inv]
  let ?q = "get_state (tam_queue s)" and ?st = "rq_st (retx_queue s)"
  let ?seg = "sn_under_segmentation s \<noteq> INVALID_RLC_SN"
  let ?s = "if ?seg then s else s\<lparr>tam_queue := snd (front (tam_queue s))\<rparr>"
  let ?qb = "n_bytes ?q + n_sdus ?q * of_nat (head_min_size s)"
  let ?rb = "retx_bytes ?st + n_retx_so_zero ?st * of_nat (head_min_size s) + n_retx_so_nonzero ?st * of_nat (head_max_size s)"
  let ?sb = "if sp_required sp then of_nat (sp_length sp) else 0 :: u32"
  let ?pending = "unat (?qb + of_nat (segment_report s) + ?rb + ?sb)"
  note fr = front_correct [OF tam_wfD(5) [OF wf]]
  have inv1: "tam_inv ?s" using inv fr tam_wfD(6) [OF wf] by (auto intro: tam_inv_queue)
  have s1: "tx_window ?s = tx_window s" "retx_queue ?s = retx_queue s" "head_min_size ?s = head_min_size s"
    "head_max_size ?s = head_max_size s" "tx_next_ack ?s = tx_next_ack s" "tam_cfg ?s = tam_cfg s" "tx_next ?s = tx_next s"
    "sn_under_segmentation ?s = sn_under_segmentation s" "q_view (tam_queue ?s) = q_view (tam_queue s)"
    using fr by simp_all
  obtain toa0 where part: "(if ?seg then
       (case cm_lookup (tx_window s) (sn_under_segmentation s) of
          Some sdu_info \<Rightarrow>
            (of_nat (length (tsi_sdu sdu_info)) - of_nat (tsi_next_so sdu_info) + of_nat (head_max_size s) :: u32,
             Some (tsi_toa sdu_info), s)
        | None \<Rightarrow> (0, None, s))
     else (let (next_sdu, q) = front (tam_queue s) in (0, map_option sdu_toa next_sdu, s\<lparr>tam_queue := q\<rparr>))) =
     (of_nat (segment_report s), toa0, ?s)"
  proof (cases ?seg)
    case True
    obtain info where "cm_lookup (tx_window s) (sn_under_segmentation s) = Some info"
      "of_nat (length (tsi_sdu info)) - of_nat (tsi_next_so info) + of_nat (head_max_size s) = (of_nat (segment_report s) :: u32)"
      by (rule segment_report_exact [OF inv True]) (rule that)
    then show thesis using True by (intro that) simp
  next
    case False
    then show thesis by (intro that [of "map_option sdu_toa (fst (front (tam_queue s)))"]) (simp add: segment_report_def case_prod_beta)
  qed
  obtain toa where toa: "(if empty_retx (retx_queue s) then Inr toa0
            else bind_res (front_retx (retx_queue s)) (\<lambda>retx.
                 bind_res (at_cm (tx_window s) (rtx_sn retx)) (\<lambda>sdu_info. Inr (Some (tsi_toa sdu_info))))) = Inr toa"
  proof (cases "empty_retx (retx_queue s)")
    case False
    obtain r b where r: "front_retx (retx_queue s) = Inr r" "tx_sdu (tx_window s) (rtx_sn r) = Some b"
      by (rule retx_ok_front [OF rx False]) (rule that)
    then obtain info where "cm_lookup (tx_window s) (rtx_sn r) = Some info" by (auto simp: tx_sdu_def)
    then show thesis using that r False by (simp add: at_cm_Some)
  qed (use that in simp)
  have q: "?s\<lparr>retx_queue := retx_queue s\<rparr> = ?s" by simp
  have eq: "get_buffer_state_am sp s = Inr (\<lparr>pending_bytes = ?pending, hol_toa = toa\<rparr>,
      if ?pending \<le> MAX_DL_PDU_LENGTH then ?s\<lparr>tam_suspend_bs_notif_barring := True\<rparr> else ?s)"
    unfolding get_buffer_state_am_def Let_def part [unfolded Let_def] prod.case s1 drop_missing_ok [OF rx] bind_res_simps toa q
    by simp
  have "unat (of_nat (tx_report sp s) :: u32) = tx_report sp s" if "tx_report sp s < 2 ^ 32"
    using that by (simp add: unsigned_of_nat take_bit_nat_eq_self)
  moreover have "?qb = of_nat (sdu_bytes (q_view (tam_queue s)) + length (q_view (tam_queue s)) * head_min_size s)"
    by (simp flip: get_state_exact [OF tam_wfD(5) [OF wf]])
  moreover have "?rb = of_nat (retx_report s)" by (simp flip: retx_report_exact [OF inv])
  ultimately have "pending_bytes \<lparr>pending_bytes = ?pending, hol_toa = toa\<rparr> = tx_report sp s" if "tx_report sp s < 2 ^ 32"
    using that by (cases "sp_required sp") (simp_all add: tx_report_def)
  then show thesis
    by (intro that [OF eq]) (use inv1 s1 in simp_all)
qed

lemma update_mac_buffer_state_am_ok:
  assumes inv: "tam_inv s"
  obtains s' as where "update_mac_buffer_state_am sp force s = Inr (s', as)" "tam_inv s'"
    "tam_cfg s' = tam_cfg s" "tx_next_ack s' = tx_next_ack s" "tx_next s' = tx_next s" "tx_window s' = tx_window s"
    "retx_queue s' = retx_queue s" "sn_under_segmentation s' = sn_under_segmentation s" "q_view (tam_queue s') = q_view (tam_queue s)"
    "tx_report sp s < 2 ^ 32 \<longrightarrow> force \<longrightarrow> (\<exists>toa. as = [On_Buffer_State_Update \<lparr>pending_bytes = tx_report sp s, hol_toa = toa\<rparr>])"
proof -
  let ?s = "s\<lparr>tam_pending_buffer_state := False\<rparr>"
  have inv1: "tam_inv ?s" using inv by simp
  have r: "tx_report sp ?s = tx_report sp s"
    by (simp add: tx_report_def segment_report_def retx_report_def tx_progress_def cong: option.case_cong if_cong)
  obtain bs s1 where g: "get_buffer_state_am sp ?s = Inr (bs, s1)" "tam_inv s1"
    "tam_cfg s1 = tam_cfg ?s" "tx_next_ack s1 = tx_next_ack ?s" "tx_next s1 = tx_next ?s" "tx_window s1 = tx_window ?s"
    "retx_queue s1 = retx_queue ?s" "sn_under_segmentation s1 = sn_under_segmentation ?s" "q_view (tam_queue s1) = q_view (tam_queue ?s)"
    "tx_report sp ?s < 2 ^ 32 \<longrightarrow> pending_bytes bs = tx_report sp ?s"
    by (rule get_buffer_state_am_ok [OF inv1, of sp])
  let ?notify = "force \<or> pending_bytes bs \<le> MAX_DL_PDU_LENGTH \<or> pending_bytes (tam_prev_buffer_state s1) \<le> MAX_DL_PDU_LENGTH \<or>
      tam_suspend_bs_notif_barring s1 \<or> toa_less (hol_toa bs) (hol_toa (tam_prev_buffer_state s1))"
  let ?s' = "if ?notify then s1\<lparr>tam_suspend_bs_notif_barring := False, tam_prev_buffer_state := bs\<rparr> else s1\<lparr>tam_prev_buffer_state := bs\<rparr>"
  have eq: "update_mac_buffer_state_am sp force s = Inr (?s', if ?notify then [On_Buffer_State_Update bs] else [])"
    by (simp add: update_mac_buffer_state_am_def g(1) Let_def)
  show thesis
    by (rule that [OF eq]) (use g in \<open>cases bs; simp add: r\<close>)+
qed

section \<open>Retransmission counters\<close>

text \<open>Two windows that agree up to the retransmission counters.\<close>

definition same_sdus :: "rlc_tx_am_sdu_info sdu_window \<Rightarrow> rlc_tx_am_sdu_info sdu_window \<Rightarrow> bool" where
  "same_sdus w w' \<longleftrightarrow>
     (\<forall>x. map_option (tsi_retx_count_update (\<lambda>_. 0)) (cm_lookup w x) = map_option (tsi_retx_count_update (\<lambda>_. 0)) (cm_lookup w' x))"

lemma same_sdus_refl [simp]: "same_sdus w w"
  by (simp add: same_sdus_def)

lemma same_sdus_trans: "same_sdus w w' \<Longrightarrow> same_sdus w' w'' \<Longrightarrow> same_sdus w w''"
  by (simp add: same_sdus_def)

lemma count_update_eq:
  "tsi_retx_count_update (\<lambda>_. 0) i = tsi_retx_count_update (\<lambda>_. 0) j \<Longrightarrow> tsi_sdu i = tsi_sdu j \<and> tsi_next_so i = tsi_next_so j"
  by (cases i; cases j) simp

lemma same_sdus_lookup:
  assumes "same_sdus w w'" "cm_lookup w' x = Some info'"
  obtains info where "cm_lookup w x = Some info" "tsi_sdu info = tsi_sdu info'" "tsi_next_so info = tsi_next_so info'"
proof -
  have "map_option (tsi_retx_count_update (\<lambda>_. 0)) (cm_lookup w x) = Some (tsi_retx_count_update (\<lambda>_. 0) info')"
    using assms by (simp add: same_sdus_def)
  then obtain info where "cm_lookup w x = Some info" "tsi_retx_count_update (\<lambda>_. 0) info = tsi_retx_count_update (\<lambda>_. 0) info'"
    by blast
  then show thesis using that count_update_eq by blast
qed

lemma same_sdus_tx_sdu: "same_sdus w w' \<Longrightarrow> tx_sdu w = tx_sdu w'"
proof (rule ext)
  fix x assume "same_sdus w w'"
  then have "map_option (tsi_retx_count_update (\<lambda>_. 0)) (cm_lookup w x) = map_option (tsi_retx_count_update (\<lambda>_. 0)) (cm_lookup w' x)"
    by (simp add: same_sdus_def)
  then show "tx_sdu w x = tx_sdu w' x"
    using count_update_eq by (cases "cm_lookup w x"; cases "cm_lookup w' x") (auto simp: tx_sdu_def)
qed

lemma same_sdus_progress:
  assumes "same_sdus (tx_window s) (tx_window s')" "tx_next s' = tx_next s" "sn_under_segmentation s' = sn_under_segmentation s"
  shows "tx_progress s' = tx_progress s"
proof (cases "cm_lookup (tx_window s') (tx_next s)")
  case None
  then have "cm_lookup (tx_window s) (tx_next s) = None" using assms(1) [unfolded same_sdus_def, rule_format, of "tx_next s"] by simp
  then show ?thesis using None assms by (simp add: tx_progress_def)
next
  case (Some info')
  obtain info where "cm_lookup (tx_window s) (tx_next s) = Some info" "tsi_next_so info = tsi_next_so info'"
    by (rule same_sdus_lookup [OF assms(1) Some])
  then show ?thesis using Some assms(2,3) by (simp add: tx_progress_def)
qed

text \<open>Setting a counter.\<close>

lemma set_count_ok:
  assumes w: "twin_ok z a n sg w" and x: "cm_lookup w x = Some info"
  shows "twin_ok z a n sg (assign_cm w x (info\<lparr>tsi_retx_count := c\<rparr>))" "same_sdus w (assign_cm w x (info\<lparr>tsi_retx_count := c\<rparr>))"
    "cm_lookup (assign_cm w x (info\<lparr>tsi_retx_count := c\<rparr>)) x = Some (info\<lparr>tsi_retx_count := c\<rparr>)"
proof -
  note p = twin_put [OF w x, of "info\<lparr>tsi_retx_count := c\<rparr>"]
  show "twin_ok z a n sg (assign_cm w x (info\<lparr>tsi_retx_count := c\<rparr>))"
    by (rule p(1)) (use twin_okD(9) [OF w] x in auto)
  have l: "cm_lookup (assign_cm w x (info\<lparr>tsi_retx_count := c\<rparr>)) = (cm_lookup w)(x \<mapsto> info\<lparr>tsi_retx_count := c\<rparr>)"
    by (rule p(3)) (use twin_okD(9) [OF w] x in auto)
  then show "same_sdus w (assign_cm w x (info\<lparr>tsi_retx_count := c\<rparr>))" using x by (simp add: same_sdus_def)
  show "cm_lookup (assign_cm w x (info\<lparr>tsi_retx_count := c\<rparr>)) x = Some (info\<lparr>tsi_retx_count := c\<rparr>)" by (simp add: l)
qed

lemma increment_ok:
  assumes w: "tam_win s" and x: "cm_lookup (tx_window s) sn \<noteq> None"
  obtains w' as where "increment_retx_count sn s = Inr (s\<lparr>tx_window := w'\<rparr>, as)" "tam_win (s\<lparr>tx_window := w'\<rparr>)" "same_sdus (tx_window s) w'"
proof -
  obtain info where i: "cm_lookup (tx_window s) sn = Some info" using x by auto
  let ?c = "if tsi_retx_count info = RETX_COUNT_NOT_STARTED then 0 else tsi_retx_count info + 1"
  note c = set_count_ok [OF w [unfolded tam_win_def] i, of ?c]
  show thesis
    by (rule that) (use c in \<open>simp_all add: increment_retx_count_def check_sn_reached_max_retx_def at_cm_Some [OF i]
      at_cm_Some [OF c(3)] Let_def tam_win_def del: if_split\<close>)
qed

lemma decrement_ok:
  assumes w: "tam_win s" and x: "cm_lookup (tx_window s) sn \<noteq> None"
  obtains w' where "decrement_retx_count sn s = Inr (s\<lparr>tx_window := w'\<rparr>)" "tam_win (s\<lparr>tx_window := w'\<rparr>)" "same_sdus (tx_window s) w'"
proof -
  obtain info where i: "cm_lookup (tx_window s) sn = Some info" using x by auto
  let ?c = "if tsi_retx_count info = 0 then RETX_COUNT_NOT_STARTED else tsi_retx_count info - 1"
  note c = set_count_ok [OF w [unfolded tam_win_def] i, of ?c]
  show thesis
  proof (cases "tsi_retx_count info = RETX_COUNT_NOT_STARTED")
    case True
    show thesis by (rule that [of "tx_window s"]) (use True w in \<open>simp_all add: decrement_retx_count_def at_cm_Some [OF i]\<close>)
  next
    case False
    show thesis
      by (rule that) (use c False in \<open>simp_all add: decrement_retx_count_def at_cm_Some [OF i] Let_def tam_win_def del: if_split\<close>)
  qed
qed

section \<open>Acknowledgements\<close>

text \<open>The first \<open>n\<close> sequence numbers from \<open>a\<close> on.\<close>

definition sn_seq :: "rlc_am_sn_size \<Rightarrow> u32 \<Rightarrow> nat \<Rightarrow> u32 list" where
  "sn_seq z a n = map (\<lambda>i. (a + of_nat i) mod sn_mod z) [0..<n]"

lemma sn_seq_0 [simp]: "sn_seq z a 0 = []"
  by (simp add: sn_seq_def)

lemma sn_seq_Suc: "a < sn_mod z \<Longrightarrow> sn_seq z a (Suc n) = a # sn_seq z ((a + 1) mod sn_mod z) n"
proof -
  assume "a < sn_mod z"
  then have "sn_seq z a (Suc n) = a # map (\<lambda>i. (a + of_nat (Suc i)) mod sn_mod z) [0..<n]"
    by (simp add: sn_seq_def upt_conv_Cons map_Suc_upt [symmetric] am_ring.mod_m_ident del: upt_Suc of_nat_Suc)
  also have "map (\<lambda>i. (a + of_nat (Suc i)) mod sn_mod z) [0..<n] = sn_seq z ((a + 1) mod sn_mod z) n"
    using am_ring.mod_add_of_nat [of a 1 z] by (simp add: sn_seq_def)
  finally show ?thesis .
qed

lemma sn_pos_add:
  assumes "i < 2 * sn_half z"
  shows "sn_pos z a ((a + of_nat i) mod sn_mod z) = i"
proof -
  have "i < 2 ^ 32" using assms sn_half_cases [of z] by auto
  then have "unat (of_nat i :: u32) = i" by (simp add: unsigned_of_nat take_bit_nat_eq_self)
  then show ?thesis using am_ring.dist_add [of z a a "of_nat i"] assms by (simp add: sn_ring_N)
qed

lemma sn_seq_set:
  assumes "n \<le> 2 * sn_half z"
  shows "set (sn_seq z a n) = {x. x < sn_mod z \<and> sn_pos z a x < n}"
proof (rule set_eqI, rule iffI)
  fix x assume "x \<in> set (sn_seq z a n)"
  then obtain i where "i < n" "x = (a + of_nat i) mod sn_mod z" by (auto simp: sn_seq_def)
  then show "x \<in> {x. x < sn_mod z \<and> sn_pos z a x < n}" using assms sn_pos_add [of i z a] by (simp add: am_ring.mod_m_less)
next
  fix x assume x: "x \<in> {x. x < sn_mod z \<and> sn_pos z a x < n}"
  let ?i = "sn_pos z a x"
  have "sn_pos z a ((a + of_nat ?i) mod sn_mod z) = ?i" using sn_pos_less by (rule sn_pos_add)
  then have "x = (a + of_nat ?i) mod sn_mod z" using x sn_pos_eq [of "(a + of_nat ?i) mod sn_mod z" z x a] by (simp add: am_ring.mod_m_less)
  then show "x \<in> set (sn_seq z a n)" using x by (auto simp: sn_seq_def)
qed

lemma process_acks_ok:
  assumes "tam_wf s" "tam_win s" "stop < sn_mod (tam_z s)"
    and "sn_pos (tam_z s) (tx_next_ack s) stop \<le> sn_pos (tam_z s) (tx_next_ack s) (tx_next s)"
    and "sn_pos (tam_z s) (tx_next_ack s) stop < fuel"
  shows "\<exists>w'. process_acks fuel (tx_next_ack s) stop deliv s =
      Inr (foldl note_delivered deliv
             (map (the \<circ> cm_lookup (tx_window s)) (sn_seq (tam_z s) (tx_next_ack s) (sn_pos (tam_z s) (tx_next_ack s) stop))),
           s\<lparr>tx_window := w', tx_next_ack := stop\<rparr>) \<and>
    tam_win (s\<lparr>tx_window := w', tx_next_ack := stop\<rparr>) \<and>
    (\<forall>x. cm_lookup w' x =
       (if x < sn_mod (tam_z s) \<and> sn_pos (tam_z s) (tx_next_ack s) x < sn_pos (tam_z s) (tx_next_ack s) stop then None
        else cm_lookup (tx_window s) x))"
  using assms
proof (induction fuel arbitrary: s deliv)
  case (Suc fuel)
  let ?z = "tam_z s" and ?a = "tx_next_ack s" and ?n = "tx_next s" and ?w = "tx_window s"
  note wf = Suc.prems(1)
  have w: "twin_ok ?z ?a ?n (sn_under_segmentation s) ?w" using Suc.prems(2) by (simp add: tam_win_def)
  note d = twin_okD [OF w]
  show ?case
  proof (cases "sn_pos ?z ?a stop = 0")
    case True
    then have "stop = ?a" using sn_pos_0 [OF Suc.prems(3) d(3)] by simp
    then have "process_acks (Suc fuel) ?a stop deliv s = Inr (deliv, s)" "s\<lparr>tx_window := ?w, tx_next_ack := stop\<rparr> = s"
      by (simp_all add: tx_base [OF wf])
    then show ?thesis using Suc.prems(2) True by (intro exI [of _ ?w]) simp
  next
    case False
    let ?b = "(?a + 1) mod sn_mod ?z"
    have ne: "sn_pos ?z ?a ?n \<noteq> 0" using False Suc.prems(4) by simp
    obtain w1 where w1: "remove_sn ?w ?a = Inr w1" "twin_ok ?z ?b ?n (sn_under_segmentation s) w1"
      "cm_lookup w1 = (cm_lookup ?w)(?a := None)" "cm_lookup ?w ?a \<noteq> None" "sn_pos ?z ?b ?n = sn_pos ?z ?a ?n - 1"
      by (rule twin_remove [OF w ne])
    then obtain info where i: "cm_lookup ?w ?a = Some info" by auto
    let ?s = "s\<lparr>tx_window := w1, tx_next_ack := ?b\<rparr>"
    have b: "sn_pos ?z ?a ?b = 1" by (rule sn_pos_base_succ)
    have pb: "sn_pos ?z ?b x = sn_pos ?z ?a x - 1" if "sn_pos ?z ?a x \<noteq> 0" for x
      using sn_pos_rebase [of ?z ?b x ?a] b that by simp
    have pa: "sn_pos ?z ?b ?a = 2 * sn_half ?z - 1" using sn_pos_rebase [of ?z ?b ?a ?a] b by simp
    have stop: "sn_pos ?z ?b stop = sn_pos ?z ?a stop - 1" using pb [OF False] .
    have "\<exists>w'. process_acks fuel (tx_next_ack ?s) stop (note_delivered deliv info) ?s =
        Inr (foldl note_delivered (note_delivered deliv info)
               (map (the \<circ> cm_lookup (tx_window ?s)) (sn_seq (tam_z ?s) (tx_next_ack ?s) (sn_pos (tam_z ?s) (tx_next_ack ?s) stop))),
             ?s\<lparr>tx_window := w', tx_next_ack := stop\<rparr>) \<and>
      tam_win (?s\<lparr>tx_window := w', tx_next_ack := stop\<rparr>) \<and>
      (\<forall>x. cm_lookup w' x =
         (if x < sn_mod (tam_z ?s) \<and> sn_pos (tam_z ?s) (tx_next_ack ?s) x < sn_pos (tam_z ?s) (tx_next_ack ?s) stop then None
          else cm_lookup (tx_window ?s) x))"
      by (rule Suc.IH) (use wf w1(2,5) stop Suc.prems(3-5) False in \<open>simp_all add: tam_wf_def tam_win_def\<close>)
    then obtain w' where w': "process_acks fuel ?b stop (note_delivered deliv info) ?s =
        Inr (foldl note_delivered (note_delivered deliv info) (map (the \<circ> cm_lookup w1) (sn_seq ?z ?b (sn_pos ?z ?b stop))),
             s\<lparr>tx_window := w', tx_next_ack := stop\<rparr>)"
      "tam_win (s\<lparr>tx_window := w', tx_next_ack := stop\<rparr>)"
      "\<And>x. cm_lookup w' x = (if x < sn_mod ?z \<and> sn_pos ?z ?b x < sn_pos ?z ?b stop then None else cm_lookup w1 x)"
      by auto
    have seq: "sn_seq ?z ?a (sn_pos ?z ?a stop) = ?a # sn_seq ?z ?b (sn_pos ?z ?b stop)"
      using sn_seq_Suc [OF d(3), of "sn_pos ?z ?b stop"] stop False by simp
    have "?a \<notin> set (sn_seq ?z ?b (sn_pos ?z ?b stop))"
      unfolding sn_seq_set [OF less_imp_le [OF sn_pos_less [of ?z ?b stop]]] using pa sn_pos_less [of ?z ?b stop] by (simp add: not_less) linarith
    then have l: "map (the \<circ> cm_lookup w1) (sn_seq ?z ?b (sn_pos ?z ?b stop)) =
        map (the \<circ> cm_lookup ?w) (sn_seq ?z ?b (sn_pos ?z ?b stop))"
      by (auto simp: w1(3))
    have eq: "process_acks (Suc fuel) ?a stop deliv s =
        Inr (foldl note_delivered deliv (map (the \<circ> cm_lookup ?w) (sn_seq ?z ?a (sn_pos ?z ?a stop))),
             s\<lparr>tx_window := w', tx_next_ack := stop\<rparr>)"
      using False w'(1) unfolding l seq by (simp add: tx_base [OF wf] i w1(1) tam_wfD(1) [OF wf])
    have look: "cm_lookup w' x = (if x < sn_mod ?z \<and> sn_pos ?z ?a x < sn_pos ?z ?a stop then None else cm_lookup ?w x)" for x
      using w'(3) [of x] pa pb [of x] stop False d(5) Suc.prems(4) sn_pos_0 [of x ?z ?a] d(3) sn_pos_less [of ?z ?a x]
      by (cases "x = ?a") (auto simp: w1(3) split: if_splits)
    show ?thesis using eq w'(2) look by blast
  qed
qed simp

text \<open>The queue of retransmissions is emptied; only the counters of the window change.\<close>

lemma pop_capacity [simp]: "rq_capacity (pop_retx q) = rq_capacity q"
  by (simp add: pop_retx_def split: prod.split)

lemma clear_retx_queue_ok:
  assumes "retx_inv (retx_queue s)" "tam_win s"
  shows "\<exists>w' q'. clear_retx_queue s = Inr (s\<lparr>tx_window := w', retx_queue := q', retx_sn := INVALID_RLC_SN\<rparr>) \<and>
    tam_win (s\<lparr>tx_window := w'\<rparr>) \<and> same_sdus (tx_window s) w' \<and>
    retx_inv q' \<and> retx_view q' = [] \<and> rq_capacity q' = rq_capacity (retx_queue s)"
  using assms
proof (induction "length (retx_view (retx_queue s))" arbitrary: s)
  case 0
  then have "empty_retx (retx_queue s)" by (simp add: empty_retx_view)
  then have "clear_retx_queue s = Inr (s\<lparr>tx_window := tx_window s, retx_queue := retx_queue s, retx_sn := INVALID_RLC_SN\<rparr>)"
    by (simp add: clear_retx_queue.simps [of s])
  then show ?case using 0 by (intro exI [of _ "tx_window s"] exI [of _ "retx_queue s"]) simp
next
  case (Suc n)
  let ?q = "retx_queue s"
  obtain r rest where v: "retx_view ?q = r # rest" using Suc.hyps(2) by (cases "retx_view ?q") auto
  have ne: "\<not> empty_retx ?q" using v Suc.prems(1) by (simp add: empty_retx_view)
  have f: "front_retx ?q = Inr r" using front_retx_ok(1) [OF Suc.prems(1)] v by simp
  have pop: "retx_inv (pop_retx ?q)" "retx_view (pop_retx ?q) = rest" using pop_retx_ok [OF Suc.prems(1)] v by simp_all
  let ?first = "retx_sn s \<noteq> rtx_sn r"
  let ?sn = "if ?first then rtx_sn r else retx_sn s"
  obtain w1 where w1: "(if ?first \<and> has_sn (tx_window s) (rtx_sn r) then decrement_retx_count (rtx_sn r) s else Inr s) =
      Inr (s\<lparr>tx_window := w1\<rparr>)" "tam_win (s\<lparr>tx_window := w1\<rparr>)" "same_sdus (tx_window s) w1"
  proof (cases "?first \<and> has_sn (tx_window s) (rtx_sn r)")
    case True
    then have "cm_lookup (tx_window s) (rtx_sn r) \<noteq> None" by (simp add: has_sn_lookup)
    from decrement_ok [OF Suc.prems(2) this] that True show thesis by auto
  next
    case False
    show thesis by (rule that [of "tx_window s"]) (use False Suc.prems(2) in auto)
  qed
  let ?s = "s\<lparr>tx_window := w1, retx_sn := ?sn, retx_queue := pop_retx ?q\<rparr>"
  have "\<exists>w' q'. clear_retx_queue ?s = Inr (?s\<lparr>tx_window := w', retx_queue := q', retx_sn := INVALID_RLC_SN\<rparr>) \<and>
    tam_win (?s\<lparr>tx_window := w'\<rparr>) \<and> same_sdus (tx_window ?s) w' \<and>
    retx_inv q' \<and> retx_view q' = [] \<and> rq_capacity q' = rq_capacity (retx_queue ?s)"
    by (rule Suc.hyps(1)) (use Suc.hyps(2) v pop w1(2) in \<open>simp_all add: tam_win_def\<close>)
  then obtain w' q' where r: "clear_retx_queue ?s = Inr (s\<lparr>tx_window := w', retx_queue := q', retx_sn := INVALID_RLC_SN\<rparr>)"
    "tam_win (s\<lparr>tx_window := w'\<rparr>)" "same_sdus w1 w'" "retx_inv q'" "retx_view q' = []" "rq_capacity q' = rq_capacity ?q"
    by (auto simp: tam_win_def)
  have "clear_retx_queue s = clear_retx_queue ?s"
    by (subst clear_retx_queue.simps) (simp add: ne f Let_def w1(1) [unfolded Let_def])
  then have "clear_retx_queue s = Inr (s\<lparr>tx_window := w', retx_queue := q', retx_sn := INVALID_RLC_SN\<rparr>)"
    using r(1) by (rule trans)
  then show ?case using r(2,4-6) same_sdus_trans [OF w1(3) r(3)] by blast
qed

section \<open>Negative acknowledgements\<close>

text \<open>The segment that is scheduled lies within the SDU.\<close>

lemma u16_len: "l \<le> max_am_sdu \<Longrightarrow> 0 < l \<Longrightarrow> unat (ucast (of_nat l - 1 :: u32) :: u16) = l - 1"
proof -
  assume l: "l \<le> max_am_sdu" "0 < l"
  then obtain k where k: "l = Suc k" by (cases l) auto
  then show ?thesis using l by (simp add: max_am_sdu_def unsigned_ucast_eq unsigned_of_nat take_bit_nat_eq_self)
qed

lemma u16_le_len: "l \<le> max_am_sdu \<Longrightarrow> of_nat l \<le> (ucast (x :: u16) :: u32) \<longleftrightarrow> l \<le> unat x"
proof -
  assume l: "l \<le> max_am_sdu"
  have "unat x < 2 ^ 32" using unsigned_less [of x] by (rule less_trans) simp
  then show ?thesis using l
    by (simp add: word_le_nat_alt max_am_sdu_def unsigned_of_nat take_bit_nat_eq_self unsigned_ucast_eq)
qed

lemma nack_segment_ok:
  assumes b: "am_sdu_ok (tsi_sdu info)" and r: "nack_segment nack info sg = Some ((st, en), as)"
  shows "st \<le> en" "unat en < length (tsi_sdu info)"
proof -
  let ?l = "length (tsi_sdu info)"
  have l: "0 < ?l" "?l \<le> max_am_sdu" using b by (auto simp: am_sdu_ok_def)
  have "\<exists>st0 en0. let st1 = (if st0 > en0 then 0 else st0); st2 = (if ucast st1 \<ge> (of_nat ?l :: u32) then 0 else st1) in
      st = st2 \<and> en = (if ucast en0 \<ge> (of_nat ?l :: u32) then ucast (of_nat ?l - 1 :: u32) else en0)"
    using r by (force simp: nack_segment_def Let_def split: option.splits prod.splits if_splits)
  then obtain st0 en0 where e:
      "st = (if ?l \<le> unat (if unat en0 < unat st0 then 0 else st0) then 0 else if unat en0 < unat st0 then 0 else st0)"
      "en = (if ?l \<le> unat en0 then ucast (of_nat ?l - 1 :: u32) else en0)"
    unfolding Let_def u16_le_len [OF l(2)] word_less_nat_alt by blast
  show "unat en < ?l" using l u16_len [OF l(2,1)] by (simp add: e(2))
  show "st \<le> en" using l u16_len [OF l(2,1)] by (auto simp: e word_le_nat_alt)
qed

text \<open>The bytes that a NACK without range asks for, and the bytes that are scheduled for retransmission.\<close>

definition nack_bytes :: "rlc_am_status_nack \<Rightarrow> nat set" where
  "nack_bytes n = {(if nack_has_so n then unat (so_start n) else 0) .. (if nack_has_so n then unat (so_end n) else 0xffff)}"

definition retx_bytes_of :: "rlc_tx_amd_retx \<Rightarrow> (u32 \<times> nat) set" where
  "retx_bytes_of r = {rtx_sn r} \<times> {unat (rtx_so r) ..< unat (rtx_so r) + unat (rtx_length r)}"

definition retx_cover :: "rlc_retx_queue \<Rightarrow> (u32 \<times> nat) set" where
  "retx_cover q = (\<Union>r \<in> set (retx_view q). retx_bytes_of r)"

text \<open>A NACK that starts within the SDU and does not end before it starts.\<close>

definition nack_fits :: "rlc_am_status_nack \<Rightarrow> nat \<Rightarrow> bool" where
  "nack_fits n l \<longleftrightarrow> (nack_has_so n \<longrightarrow> so_start n \<le> so_end n \<and> unat (so_start n) < l)"

definition nack_fits_window :: "rlc_tx_am_sdu_info sdu_window \<Rightarrow> rlc_am_status_nack \<Rightarrow> bool" where
  "nack_fits_window w n \<longleftrightarrow> (case tx_sdu w (nack_sn n) of None \<Rightarrow> True | Some b \<Rightarrow> nack_fits n (length b))"

text \<open>The bytes of the window that a NACK asks for.\<close>

definition nack_wants :: "rlc_tx_am_sdu_info sdu_window \<Rightarrow> rlc_am_status_nack \<Rightarrow> (u32 \<times> nat) set" where
  "nack_wants w n = (case tx_sdu w (nack_sn n) of None \<Rightarrow> {} | Some b \<Rightarrow> {nack_sn n} \<times> (nack_bytes n \<inter> {..< length b}))"

lemma nack_segment_exact:
  assumes b: "am_sdu_ok (tsi_sdu info)" and sg: "nack_sn n \<noteq> sg" and fits: "nack_fits n (length (tsi_sdu info))"
  obtains st en as where "nack_segment n info sg = Some ((st, en), as)"
    "{unat st .. unat en} = nack_bytes n \<inter> {..< length (tsi_sdu info)}"
proof -
  let ?l = "length (tsi_sdu info)"
  have l: "0 < ?l" "?l \<le> max_am_sdu" using b by (auto simp: am_sdu_ok_def)
  have l1: "\<not> ?l \<le> ?l - Suc 0" and l2: "x \<le> ?l - Suc 0 \<longleftrightarrow> x < ?l" for x using l(1) by linarith+
  let ?e = "ucast (of_nat ?l - 1 :: u32) :: u16"
  note e = u16_len [OF l(2,1)] note le = u16_le_len [OF l(2)]
  have ff: "unat (so_end_of_sdu) = 65535" by (simp add: so_end_of_sdu_def)
  have ne: "?e \<noteq> so_end_of_sdu"
  proof
    assume "?e = so_end_of_sdu"
    then have "?l - 1 = 65535" using e ff by simp
    then show False using l by (simp add: max_am_sdu_def)
  qed
  consider (full) "\<not> nack_has_so n" | (last) "nack_has_so n" "so_end n = so_end_of_sdu"
    | (part) "nack_has_so n" "so_end n \<noteq> so_end_of_sdu" by blast
  then show thesis
  proof cases
    case full
    have "nack_segment n info sg = Some ((0, ?e), [])"
      using full sg ne l l1 e by (simp add: nack_segment_def Let_def le)
    moreover have "{unat (0 :: u16) .. unat ?e} = nack_bytes n \<inter> {..< ?l}"
      using full l e by (auto simp: nack_bytes_def max_am_sdu_def l2)
    ultimately show thesis by (rule that)
  next
    case last
    have st: "unat (so_start n) < ?l" using fits last by (simp add: nack_fits_def)
    have "nack_segment n info sg = Some ((so_start n, ?e), [])"
      using last sg st l l1 e by (auto simp: nack_segment_def Let_def le word_less_nat_alt)
    moreover have "{unat (so_start n) .. unat ?e} = nack_bytes n \<inter> {..< ?l}"
      using last l e ff by (auto simp: nack_bytes_def max_am_sdu_def l2)
    ultimately show thesis by (rule that)
  next
    case part
    have st: "so_start n \<le> so_end n" "unat (so_start n) < ?l" using fits part by (simp_all add: nack_fits_def)
    let ?en = "if ?l \<le> unat (so_end n) then ?e else so_end n"
    have "nack_segment n info sg = Some ((so_start n, ?en), if ?l \<le> unat (so_end n) then [On_Protocol_Failure, On_Protocol_Failure] else [])"
      using part sg st(2) leD [OF st(1)] unfolding nack_segment_def Let_def by (simp add: le not_le)
    moreover have "{unat (so_start n) .. unat ?en} = nack_bytes n \<inter> {..< ?l}"
      using part l e by (auto simp: nack_bytes_def l2)
    ultimately show thesis by (rule that)
  qed
qed

lemma u16_retx:
  fixes st en :: u16
  assumes "st \<le> en"
  shows "unat (ucast st :: u32) = unat st" "unat (ucast en - ucast st + 1 :: u32) = Suc (unat en) - unat st"
proof -
  have b: "unat x < 2 ^ 32" "unat x < 2 ^ 16" for x :: u16
    using unsigned_less [of x] by (auto intro: less_trans)
  then have u: "unat (ucast x :: u32) = unat x" for x :: u16 by (simp add: unsigned_ucast_eq take_bit_nat_eq_self)
  then show "unat (ucast st :: u32) = unat st" .
  have "unat (ucast en - ucast st :: u32) = unat en - unat st"
    using assms u by (simp add: unat_sub word_le_nat_alt)
  then show "unat (ucast en - ucast st + 1 :: u32) = Suc (unat en) - unat st"
    using assms b(2) [of en] by (simp add: unat_word_ariths(1) word_le_nat_alt)
qed

text \<open>
  Of the SDU under segmentation only the part that was sent is retransmitted, provided that a NACK for it has
  offsets that end within that part, or the open end.
\<close>

definition retx_sent :: "rlc_tx_am_entity \<Rightarrow> bool" where
  "retx_sent s \<longleftrightarrow> (sn_under_segmentation s \<noteq> INVALID_RLC_SN \<longrightarrow>
     (\<forall>r \<in> set (retx_view (retx_queue s)). rtx_sn r = tx_next s \<longrightarrow>
        unat (rtx_so r) + unat (rtx_length r) \<le> tx_progress s))"

definition nack_sent :: "rlc_tx_am_entity \<Rightarrow> rlc_am_status_nack \<Rightarrow> bool" where
  "nack_sent s n \<longleftrightarrow> (sn_under_segmentation s \<noteq> INVALID_RLC_SN \<longrightarrow> nack_sn n = sn_under_segmentation s \<longrightarrow>
     nack_has_so n \<and> (so_end n = so_end_of_sdu \<or> unat (so_end n) < tx_progress s))"

lemma nack_segment_sent:
  assumes "nack_segment n info sn_seg = Some ((st, en), as)" "nack_sn n = sn_seg" "nack_has_so n"
    and "so_end n = so_end_of_sdu \<or> unat (so_end n) < tsi_next_so info" "tsi_next_so info < length (tsi_sdu info)"
    and "length (tsi_sdu info) \<le> max_am_sdu"
  shows "unat en < tsi_next_so info"
proof -
  let ?so = "tsi_next_so info" and ?l = "length (tsi_sdu info)"
  have small: "unat (of_nat (?so - 1) :: u16) = ?so - 1"
    using assms(5,6) by (simp add: unsigned_of_nat take_bit_nat_eq_self max_am_sdu_def)
  have keep: "\<not> of_nat ?l \<le> (ucast e :: u32)" if "unat (e :: u16) < ?so" for e
    using u16_le_len [OF assms(6), of e] that assms(5) by simp
  obtain e where e: "(if so_end n = so_end_of_sdu then
       (if nack_sn n \<noteq> sn_seg then Some (ucast (of_nat ?l - 1 :: u32))
        else if ?so = 0 then None
        else if unat (so_start n) > ?so then None
        else if unat (so_start n) = ?so then None
        else Some (of_nat (?so - 1)))
     else Some (so_end n)) = Some e"
    "en = (if of_nat ?l \<le> (ucast e :: u32) then ucast (of_nat ?l - 1 :: u32) else e)"
    using assms(1,3) by (auto simp: nack_segment_def Let_def case_prod_beta simp del: of_nat_diff split: option.splits)
  have "unat e < ?so"
  proof (cases "so_end n = so_end_of_sdu")
    case True
    then have "e = of_nat (?so - 1)" "0 < ?so" using e(1) assms(2) by (auto simp del: of_nat_diff split: if_splits)
    then show ?thesis using small by simp
  next
    case False
    then show ?thesis using e(1) assms(4) by simp
  qed
  then show ?thesis using keep e(2) by simp
qed

lemma handle_nack_ok:
  assumes inv: "tam_inv s" and nr: "\<not> has_nack_range n" and sn: "nack_sn n < sn_mod (tam_z s)"
    and seg: "nack_sn n = tx_next s \<Longrightarrow> sn_under_segmentation s \<noteq> INVALID_RLC_SN"
  obtains ok q as where "handle_nack n s = Inr (ok, s\<lparr>retx_queue := q\<rparr>, as)" "tam_inv (s\<lparr>retx_queue := q\<rparr>)"
    "ok \<longrightarrow> cm_lookup (tx_window s) (nack_sn n) \<noteq> None" "length (rq_queue q) \<le> length (rq_queue (retx_queue s)) + 1"
    "nack_sn n \<noteq> sn_under_segmentation s \<longrightarrow> nack_fits_window (tx_window s) n \<longrightarrow>
       length (rq_queue (retx_queue s)) < sn_half (tam_z s) \<longrightarrow>
       retx_cover q = retx_cover (retx_queue s) \<union> nack_wants (tx_window s) n"
    "retx_sent s \<longrightarrow> nack_sent s n \<longrightarrow> retx_sent (s\<lparr>retx_queue := q\<rparr>)"
proof -
  note wf = tam_invD(1) [OF inv] note w = tam_invD(3) [OF inv] note rx = tam_invD(4) [OF inv]
  note d = twin_okD [OF w]
  let ?q = "retx_queue s" and ?w = "tx_window s"
  have same: "s\<lparr>retx_queue := ?q\<rparr> = s" by simp
  show thesis
  proof (cases "sn_pos (tam_z s) (tx_next_ack s) (nack_sn n) \<le> sn_pos (tam_z s) (tx_next_ack s) (tx_next s)")
    case False
    then have "\<not> tx_key (tam_z s) (tx_next_ack s) (tx_next s) (sn_under_segmentation s) (nack_sn n)" by (auto simp: tx_key_def)
    then have none: "cm_lookup ?w (nack_sn n) = None" using d(7) by blast
    show thesis
      by (rule that [of False ?q "[]"]) (use False inv nr none in \<open>simp_all add: handle_nack_def tx_base [OF wf] tx_sdu_def nack_wants_def\<close>)
  next
    case True
    have "tx_key (tam_z s) (tx_next_ack s) (tx_next s) (sn_under_segmentation s) (nack_sn n)"
      using True sn seg sn_pos_eq [OF sn d(4), of "tx_next_ack s"] by (auto simp: tx_key_def)
    then obtain info where i: "cm_lookup ?w (nack_sn n) = Some info" using d(7) by blast
    have b: "am_sdu_ok (tsi_sdu info)" using d(8) [OF i] .
    have eq: "handle_nack n s = (case nack_segment n info (sn_under_segmentation s) of
         None \<Rightarrow> Inr (False, s, [])
       | Some ((start, end'), as) \<Rightarrow>
           (let (pushed, q) = try_push_retx \<lparr>rtx_sn = nack_sn n, rtx_so = ucast start, rtx_length = ucast end' - ucast start + 1\<rparr> ?q
            in Inr (pushed, s\<lparr>retx_queue := q\<rparr>, as)))"
      using True nr by (simp add: handle_nack_def tx_base [OF wf] at_cm_Some [OF i] Let_def split: option.split)
    show thesis
    proof (cases "nack_segment n info (sn_under_segmentation s)")
      case None
      have "\<not> (nack_sn n \<noteq> sn_under_segmentation s \<and> nack_fits n (length (tsi_sdu info)))"
        using nack_segment_exact [OF b, of n "sn_under_segmentation s"] None by fastforce
      then show thesis
        by (intro that [of False ?q "[]"]) (use None inv eq i in \<open>auto simp: tx_sdu_def nack_fits_window_def\<close>)
    next
      case (Some res)
      obtain st en as where r: "res = ((st, en), as)" by (metis prod.collapse)
      note so = nack_segment_ok [OF b Some [unfolded r]]
      let ?r = "\<lparr>rtx_sn = nack_sn n, rtx_so = ucast st, rtx_length = ucast en - ucast st + 1\<rparr> :: rlc_tx_amd_retx"
      obtain ok q where p: "try_push_retx ?r ?q = (ok, q)" by (metis prod.collapse)
      have r': "unat (rtx_so ?r) = unat st" "unat (rtx_length ?r) = Suc (unat en) - unat st"
        using u16_retx [OF so(1)] by simp_all
      have in_w: "retx_in ?w ?r" using r' so i by (simp add: retx_in_def tx_sdu_def word_le_nat_alt)
      have len: "unat (rtx_length ?r) \<le> max_am_sdu" using r' so b by (auto simp: am_sdu_ok_def word_le_nat_alt)
      have fits: "retx_fits (retx_view ?q @ [?r])"
        using retx_view_bounds(3) [OF rx w] len sn_half_cases [of "tam_z s"] by (auto simp: retx_fits_def retx_total_def max_am_sdu_def)
      have push: "retx_inv q \<and> retx_view q = retx_view ?q @ (if ok then [?r] else [])"
        by (rule try_push_retx_ok [OF _ fits p]) (use rx in \<open>simp add: retx_ok_def\<close>)
      have cap: "rq_capacity q = sn_half (tam_z s)" "length (rq_queue q) \<le> length (rq_queue ?q) + 1"
        "length (rq_queue ?q) < sn_half (tam_z s) \<Longrightarrow> ok"
        using p rx by (auto simp: try_push_retx_def retx_ok_def split: if_splits)
      have inv': "tam_inv (s\<lparr>retx_queue := q\<rparr>)"
        using inv push cap in_w by (auto simp: tam_inv_def tam_win_def tam_wf_def retx_ok_def)
      have cov: "retx_cover q = retx_cover ?q \<union> (if ok then {nack_sn n} \<times> {unat st .. unat en} else {})"
      proof -
        have "retx_bytes_of ?r = {nack_sn n} \<times> {unat st .. unat en}"
          using r' so(1) by (auto simp: retx_bytes_of_def word_le_nat_alt)
        then show ?thesis using push by (auto simp: retx_cover_def)
      qed
      have sent: "retx_sent (s\<lparr>retx_queue := q\<rparr>)" if rs: "retx_sent s" and ns: "nack_sent s n"
      proof -
        have "unat (rtx_so ?r) + unat (rtx_length ?r) \<le> tx_progress s"
          if g: "sn_under_segmentation s \<noteq> INVALID_RLC_SN" "nack_sn n = tx_next s"
        proof -
          have u: "nack_sn n = sn_under_segmentation s" using d(6) g by auto
          have pr: "tx_progress s = tsi_next_so info" using g i by (simp add: tx_progress_def)
          have "unat en < tsi_next_so info"
            by (rule nack_segment_sent [OF Some [unfolded r] u])
              (use ns g(1) u pr d(9) [OF g(1)] i g(2) b in \<open>auto simp: nack_sent_def am_sdu_ok_def\<close>)
          then show ?thesis using r' so(1) pr by (simp add: word_le_nat_alt)
        qed
        moreover have "tx_progress (s\<lparr>retx_queue := q\<rparr>) = tx_progress s" by (simp add: tx_progress_def)
        ultimately show ?thesis using rs push by (auto simp: retx_sent_def)
      qed
      show thesis
      proof (rule that [of ok q as])
        show "handle_nack n s = Inr (ok, s\<lparr>retx_queue := q\<rparr>, as)" using eq p by (simp add: Some r)
        show "nack_sn n \<noteq> sn_under_segmentation s \<longrightarrow> nack_fits_window ?w n \<longrightarrow>
           length (rq_queue ?q) < sn_half (tam_z s) \<longrightarrow> retx_cover q = retx_cover ?q \<union> nack_wants ?w n"
        proof (intro impI)
          assume h: "nack_sn n \<noteq> sn_under_segmentation s" "nack_fits_window ?w n" "length (rq_queue ?q) < sn_half (tam_z s)"
          have sb: "tx_sdu ?w (nack_sn n) = Some (tsi_sdu info)" using i by (simp add: tx_sdu_def)
          obtain st' en' as' where "nack_segment n info (sn_under_segmentation s) = Some ((st', en'), as')"
              "{unat st' .. unat en'} = nack_bytes n \<inter> {..< length (tsi_sdu info)}"
            by (rule nack_segment_exact [OF b h(1)]) (use h(2) sb that in \<open>auto simp: nack_fits_window_def\<close>)
          then have "{unat st .. unat en} = nack_bytes n \<inter> {..< length (tsi_sdu info)}" using Some r by simp
          then show "retx_cover q = retx_cover ?q \<union> nack_wants ?w n"
            using cov cap(3) [OF h(3)] sb by (simp add: nack_wants_def)
        qed
      qed (use inv' cap i sent in simp_all)
    qed
  qed
qed

text \<open>A NACK without range: it is queued, and the counter of its SDU is incremented.\<close>

lemma process_nack_ok:
  assumes inv: "tam_inv s" and nr: "\<not> has_nack_range n" and sn: "nack_sn n < sn_mod (tam_z s)"
    and seg: "nack_sn n = tx_next s \<Longrightarrow> sn_under_segmentation s \<noteq> INVALID_RLC_SN"
  obtains p q w as where "process_nack n prev s = Inr (p, s\<lparr>retx_queue := q, tx_window := w\<rparr>, as)"
    "tam_inv (s\<lparr>retx_queue := q, tx_window := w\<rparr>)" "same_sdus (tx_window s) w"
    "length (rq_queue q) \<le> length (rq_queue (retx_queue s)) + 1"
    "nack_sn n \<noteq> sn_under_segmentation s \<longrightarrow> nack_fits_window (tx_window s) n \<longrightarrow>
       length (rq_queue (retx_queue s)) < sn_half (tam_z s) \<longrightarrow>
       retx_cover q = retx_cover (retx_queue s) \<union> nack_wants (tx_window s) n"
    "retx_sent s \<longrightarrow> nack_sent s n \<longrightarrow> retx_sent (s\<lparr>retx_queue := q, tx_window := w\<rparr>)"
proof -
  obtain ok q as where h: "handle_nack n s = Inr (ok, s\<lparr>retx_queue := q\<rparr>, as)" "tam_inv (s\<lparr>retx_queue := q\<rparr>)"
    "ok \<longrightarrow> cm_lookup (tx_window s) (nack_sn n) \<noteq> None" "length (rq_queue q) \<le> length (rq_queue (retx_queue s)) + 1"
    "nack_sn n \<noteq> sn_under_segmentation s \<longrightarrow> nack_fits_window (tx_window s) n \<longrightarrow>
       length (rq_queue (retx_queue s)) < sn_half (tam_z s) \<longrightarrow>
       retx_cover q = retx_cover (retx_queue s) \<union> nack_wants (tx_window s) n"
    "retx_sent s \<longrightarrow> nack_sent s n \<longrightarrow> retx_sent (s\<lparr>retx_queue := q\<rparr>)"
    by (rule handle_nack_ok [OF inv nr sn seg])
  let ?s = "s\<lparr>retx_queue := q\<rparr>"
  show thesis
  proof (cases "ok \<and> prev \<noteq> nack_sn n")
    case True
    obtain w as' where w: "increment_retx_count (nack_sn n) ?s = Inr (?s\<lparr>tx_window := w\<rparr>, as')" "tam_win (?s\<lparr>tx_window := w\<rparr>)"
        "same_sdus (tx_window ?s) w"
      by (rule increment_ok [OF tam_invD(2) [OF h(2)], of "nack_sn n"]) (use h(3) True in simp, rule that)
    have "tx_sdu w = tx_sdu (tx_window s)" using same_sdus_tx_sdu [OF w(3)] by simp
    then have "tam_inv (?s\<lparr>tx_window := w\<rparr>)"
      using h(2) w(2) by (simp add: tam_inv_def tam_wf_def retx_ok_def retx_in_def)
    moreover have "process_nack n prev s = Inr (nack_sn n, s\<lparr>retx_queue := q, tx_window := w\<rparr>, as @ as')"
      using True by (simp add: process_nack_def h(1) w(1))
    moreover have "retx_sent (?s\<lparr>tx_window := w\<rparr>) = retx_sent ?s"
      using same_sdus_progress [of ?s "?s\<lparr>tx_window := w\<rparr>"] w(3) by (simp add: retx_sent_def)
    ultimately show thesis by (intro that [OF _ _ _ h(4,5)]) (use w(3) h(6) in auto)
  next
    case False
    then have "process_nack n prev s = Inr (prev, s\<lparr>retx_queue := q, tx_window := tx_window s\<rparr>, as)"
      by (auto simp: process_nack_def h(1))
    then show thesis by (rule that [OF _ _ _ h(4,5)]) (use h(2,6) in simp_all)
  qed
qed

text \<open>A list of NACKs without ranges.\<close>

fun process_items ::
  "rlc_am_status_nack list \<Rightarrow> u32 \<Rightarrow> rlc_tx_am_entity \<Rightarrow> (u32 \<times> rlc_tx_am_entity \<times> rlc_tx_action list) res" where
  "process_items [] prev s = Inr (prev, s, [])"
| "process_items (n # ns) prev s =
     bind_res (process_nack n prev s) (\<lambda>(prev, s, as).
     bind_res (process_items ns prev s) (\<lambda>(prev, s, as'). Inr (prev, s, as @ as')))"

lemma process_items_append:
  "process_items (ns @ ms) prev s =
     bind_res (process_items ns prev s) (\<lambda>(prev, s, as).
     bind_res (process_items ms prev s) (\<lambda>(prev, s, as'). Inr (prev, s, as @ as')))"
proof (induction ns arbitrary: prev s)
  case Nil
  show ?case by (cases "process_items ms prev s") auto
next
  case (Cons n ns)
  then show ?case
    by (cases "process_nack n prev s") (auto simp: bind_res_def split: sum.splits)
qed

lemma handle_nack_mod: "handle_nack n s = Inr (ok, s', as) \<Longrightarrow> tam_mod s' = tam_mod s"
  by (auto simp: handle_nack_def Let_def bind_res_Inr_iff case_prod_beta split: if_splits option.splits)

lemma increment_mod: "increment_retx_count sn s = Inr (s', as) \<Longrightarrow> tam_mod s' = tam_mod s"
  by (auto simp: increment_retx_count_def Let_def bind_res_Inr_iff)

lemma process_nack_mod: "process_nack n prev s = Inr (p, s', as) \<Longrightarrow> tam_mod s' = tam_mod s"
  by (auto simp: process_nack_def bind_res_Inr_iff dest!: handle_nack_mod increment_mod split: if_splits)

lemma process_items_mod: "process_items ns prev s = Inr (p, s', as) \<Longrightarrow> tam_mod s' = tam_mod s"
proof (induction ns arbitrary: prev s as)
  case (Cons n ns)
  then obtain p1 s1 as1 as2 where "process_nack n prev s = Inr (p1, s1, as1)" "process_items ns p1 s1 = Inr (p, s', as2)"
    by (auto simp: bind_res_Inr_iff)
  then show ?case using Cons.IH process_nack_mod by metis
qed simp

lemma process_items_ok:
  assumes "tam_inv s" "\<forall>n \<in> set ns. \<not> has_nack_range n \<and> nack_sn n < sn_mod (tam_z s) \<and>
    (nack_sn n = tx_next s \<longrightarrow> sn_under_segmentation s \<noteq> INVALID_RLC_SN)"
  shows "\<exists>p q w as. process_items ns prev s = Inr (p, s\<lparr>retx_queue := q, tx_window := w\<rparr>, as) \<and>
    tam_inv (s\<lparr>retx_queue := q, tx_window := w\<rparr>) \<and> same_sdus (tx_window s) w \<and>
    ((\<forall>n \<in> set ns. nack_sn n \<noteq> sn_under_segmentation s \<and> nack_fits_window (tx_window s) n) \<longrightarrow>
     length (rq_queue (retx_queue s)) + length ns \<le> sn_half (tam_z s) \<longrightarrow>
     retx_cover q = retx_cover (retx_queue s) \<union> (\<Union>n \<in> set ns. nack_wants (tx_window s) n)) \<and>
    (retx_sent s \<longrightarrow> (\<forall>n \<in> set ns. nack_sent s n) \<longrightarrow> retx_sent (s\<lparr>retx_queue := q, tx_window := w\<rparr>))"
  using assms
proof (induction ns arbitrary: prev s)
  case Nil
  then show ?case by (intro exI [of _ prev] exI [of _ "retx_queue s"] exI [of _ "tx_window s"]) simp
next
  case (Cons n ns)
  obtain p q w as where n: "process_nack n prev s = Inr (p, s\<lparr>retx_queue := q, tx_window := w\<rparr>, as)"
    "tam_inv (s\<lparr>retx_queue := q, tx_window := w\<rparr>)" "same_sdus (tx_window s) w"
    "length (rq_queue q) \<le> length (rq_queue (retx_queue s)) + 1"
    "nack_sn n \<noteq> sn_under_segmentation s \<longrightarrow> nack_fits_window (tx_window s) n \<longrightarrow>
       length (rq_queue (retx_queue s)) < sn_half (tam_z s) \<longrightarrow>
       retx_cover q = retx_cover (retx_queue s) \<union> nack_wants (tx_window s) n"
    "retx_sent s \<longrightarrow> nack_sent s n \<longrightarrow> retx_sent (s\<lparr>retx_queue := q, tx_window := w\<rparr>)"
    by (rule process_nack_ok [OF Cons.prems(1), of n prev]) (use Cons.prems(2) that in simp_all)
  let ?s = "s\<lparr>retx_queue := q, tx_window := w\<rparr>"
  have sdu: "tx_sdu w = tx_sdu (tx_window s)" using same_sdus_tx_sdu [OF n(3)] by simp
  have eq: "nack_wants w = nack_wants (tx_window s)" "nack_fits_window w = nack_fits_window (tx_window s)"
    by (simp_all add: fun_eq_iff nack_wants_def nack_fits_window_def sdu)
  have prem: "\<forall>n \<in> set ns. \<not> has_nack_range n \<and> nack_sn n < sn_mod (tam_z ?s) \<and>
    (nack_sn n = tx_next ?s \<longrightarrow> sn_under_segmentation ?s \<noteq> INVALID_RLC_SN)"
    using Cons.prems(2) by simp
  obtain p' q' w' as' where r: "process_items ns p ?s = Inr (p', ?s\<lparr>retx_queue := q', tx_window := w'\<rparr>, as')"
    "tam_inv (?s\<lparr>retx_queue := q', tx_window := w'\<rparr>)" "same_sdus (tx_window ?s) w'"
    "(\<forall>n \<in> set ns. nack_sn n \<noteq> sn_under_segmentation ?s \<and> nack_fits_window (tx_window ?s) n) \<longrightarrow>
     length (rq_queue (retx_queue ?s)) + length ns \<le> sn_half (tam_z ?s) \<longrightarrow>
     retx_cover q' = retx_cover (retx_queue ?s) \<union> (\<Union>n \<in> set ns. nack_wants (tx_window ?s) n)"
    "retx_sent ?s \<longrightarrow> (\<forall>n \<in> set ns. nack_sent ?s n) \<longrightarrow> retx_sent (?s\<lparr>retx_queue := q', tx_window := w'\<rparr>)"
    using Cons.IH [OF n(2) prem, of p] by (elim exE conjE) (rule that)
  have cov: "retx_cover q' = retx_cover (retx_queue s) \<union> (\<Union>n \<in> set (n # ns). nack_wants (tx_window s) n)"
    if "\<forall>n \<in> set (n # ns). nack_sn n \<noteq> sn_under_segmentation s \<and> nack_fits_window (tx_window s) n"
      "length (rq_queue (retx_queue s)) + length (n # ns) \<le> sn_half (tam_z s)"
  proof -
    have "retx_cover q = retx_cover (retx_queue s) \<union> nack_wants (tx_window s) n" using that n(5) by simp
    moreover have "retx_cover q' = retx_cover q \<union> (\<Union>n \<in> set ns. nack_wants (tx_window s) n)"
      using that n(4) r(4) by (simp add: eq)
    ultimately show ?thesis by auto
  qed
  have eqn: "process_items (n # ns) prev s = Inr (p', s\<lparr>retx_queue := q', tx_window := w'\<rparr>, as @ as')"
    using n(1) r(1) by simp
  have "nack_sent ?s = nack_sent s"
    using same_sdus_progress [of s ?s] n(3) by (simp add: fun_eq_iff nack_sent_def)
  then have "retx_sent s \<longrightarrow> (\<forall>n \<in> set (n # ns). nack_sent s n) \<longrightarrow> retx_sent (s\<lparr>retx_queue := q', tx_window := w'\<rparr>)"
    using n(6) r(5) by simp
  moreover have "same_sdus (tx_window s) w'" using same_sdus_trans [OF n(3)] r(3) by simp
  ultimately show ?case using eqn r(2) cov
    by (intro exI [of _ p'] exI [of _ q'] exI [of _ w'] exI [of _ "as @ as'"]) simp
qed

text \<open>The loop over a range processes its SNs up to ACK\_SN.\<close>

lemma process_range_items:
  assumes "tam_mod s = sn_mod z" "sn < sn_mod z" and "sn_pos z sn ((nack_sn n + ucast (nack_range n)) mod sn_mod z) < fuel"
  shows "process_range fuel sn ack n prev s =
    process_items (map (range_item (sn_mod z) n) (takeWhile (\<lambda>x. x \<noteq> ack)
      (sn_seq z sn (sn_pos z sn ((nack_sn n + ucast (nack_range n)) mod sn_mod z))))) prev s"
  using assms
proof (induction fuel arbitrary: sn prev s)
  case (Suc fuel)
  let ?e = "(nack_sn n + ucast (nack_range n)) mod sn_mod z" and ?sn = "(sn + 1) mod sn_mod z"
  show ?case
  proof (cases "sn = ?e")
    case True
    then show ?thesis using Suc.prems(1) by simp
  next
    case False
    have e: "?e < sn_mod z" by (rule am_ring.mod_m_less)
    have pos: "sn_pos z sn ?e \<noteq> 0" using sn_pos_0 [OF e Suc.prems(2)] False by auto
    have p1: "sn_pos z ?sn ?e = sn_pos z sn ?e - 1"
      using sn_pos_rebase [of z ?sn ?e sn] sn_pos_base_succ [of z sn] pos by simp
    have seq: "sn_seq z sn (sn_pos z sn ?e) = sn # sn_seq z ?sn (sn_pos z ?sn ?e)"
      using sn_seq_Suc [OF Suc.prems(2), of "sn_pos z ?sn ?e"] p1 pos by simp
    have ih: "process_range fuel ?sn ack n prev' s' =
        process_items (map (range_item (sn_mod z) n) (takeWhile (\<lambda>x. x \<noteq> ack) (sn_seq z ?sn (sn_pos z ?sn ?e)))) prev' s'"
      if "tam_mod s' = sn_mod z" for prev' s'
      by (rule Suc.IH) (use that p1 pos Suc.prems(3) in \<open>simp_all add: am_ring.mod_m_less\<close>)
    show ?thesis
    proof (cases "process_nack (range_item (sn_mod z) n sn) prev s")
      case (Inl e)
      show ?thesis unfolding seq using Suc.prems(1) False by (simp add: Inl)
    next
      case (Inr r)
      obtain p s' as where r: "r = (p, s', as)" by (metis prod.collapse)
      have "tam_mod s' = sn_mod z" using process_nack_mod [OF Inr [unfolded r]] Suc.prems(1) by simp
      then show ?thesis unfolding seq using Suc.prems(1) False by (simp add: Inr r ih)
    qed
  qed
qed simp

text \<open>All SNs of a status report with their NACKs.\<close>

definition nack_items :: "rlc_am_sn_size \<Rightarrow> u32 \<Rightarrow> rlc_am_status_nack \<Rightarrow> rlc_am_status_nack list" where
  "nack_items z ack n =
     (if has_nack_range n
      then map (range_item (sn_mod z) n) (takeWhile (\<lambda>x. x \<noteq> ack) (sn_seq z (nack_sn n) (unat (nack_range n))))
      else [n])"

lemma range_end:
  "nack_sn n < sn_mod z \<Longrightarrow> sn_pos z (nack_sn n) ((nack_sn n + ucast (nack_range n)) mod sn_mod z) = unat (nack_range n)"
proof -
  have r: "unat (nack_range n) < 256" using unsigned_less [of "nack_range n"] by simp
  then have "unat (nack_range n) < 2 * sn_half z" using sn_half_cases [of z] by auto
  then show ?thesis using sn_pos_add [of "unat (nack_range n)" z "nack_sn n"] by simp
qed

lemma process_nacks_items:
  assumes "tam_mod s = sn_mod z" "\<forall>n \<in> set ns. nack_sn n < sn_mod z"
  shows "process_nacks ack ns prev s =
    bind_res (process_items (concat (map (nack_items z ack) ns)) prev s) (\<lambda>(prev, s, as). Inr (s, as))"
  using assms
proof (induction ns arbitrary: prev s)
  case (Cons n ns)
  have n: "nack_sn n < sn_mod z" using Cons.prems(2) by simp
  have "unat (nack_range n) < 256" using unsigned_less [of "nack_range n"] by simp
  then have "unat (nack_range n) < Suc (unat (sn_mod z))"
    using am_ring.unat_m [of z] sn_half_cases [of z] by (auto simp: sn_ring_N)
  then have "(if has_nack_range n then process_range (loop_bound_tx s) (nack_sn n) ack n prev s else process_nack n prev s) =
      process_items (nack_items z ack n) prev s"
    using process_range_items [OF Cons.prems(1) n, of n "loop_bound_tx s" ack prev] range_end [OF n] Cons.prems(1)
    by (cases "process_nack n prev s") (auto simp: nack_items_def loop_bound_tx_def)
  then have eq: "process_nacks ack (n # ns) prev s = bind_res (process_items (nack_items z ack n) prev s) (\<lambda>(prev, s, as).
     bind_res (process_nacks ack ns prev s) (\<lambda>(s, as'). Inr (s, as @ as')))" by simp
  show ?case
  proof (cases "process_items (nack_items z ack n) prev s")
    case (Inr r)
    obtain p s' as where r: "r = (p, s', as)" by (metis prod.collapse)
    have "tam_mod s' = sn_mod z" using process_items_mod Inr r Cons.prems(1) by simp
    then have "process_nacks ack ns p s' =
        bind_res (process_items (concat (map (nack_items z ack) ns)) p s') (\<lambda>(prev, s, as). Inr (s, as))"
      using Cons.IH [of s' p] Cons.prems(2) by simp
    then show ?thesis
      unfolding eq
      by (cases "process_items (concat (map (nack_items z ack) ns)) p s'") (auto simp: Inr r process_items_append)
  qed (unfold eq, simp add: process_items_append)
qed simp

end
