(* ===== verification/Rlc_Tx_Am_Status.thy ===== *)
theory Rlc_Tx_Am_Status
  imports Rlc_Tx_Am_Ack
begin

text \<open>
  Status PDUs of the peer and the expiry of t-PollRetransmit under the invariant of the transmitting AM
  entity. A status PDU that is accepted removes the SDUs below its first NACK from the window and replaces
  the queued retransmissions by the bytes that it reports missing.
\<close>

section \<open>The NACKs of a status PDU\<close>

lemma sn_seq_before:
  assumes "x \<in> set (takeWhile (\<lambda>x. x \<noteq> ack) (sn_seq z sn n))" "sn < sn_mod z" "ack < sn_mod z"
    and "sn_pos z a sn < sn_pos z a ack"
  shows "x < sn_mod z \<and> sn_pos z a x < sn_pos z a ack"
  using assms
proof (induction n arbitrary: sn)
  case (Suc n)
  let ?sn = "(sn + 1) mod sn_mod z"
  have seq: "sn_seq z sn (Suc n) = sn # sn_seq z ?sn n" by (rule sn_seq_Suc [OF Suc.prems(2)])
  have pos: "sn_pos z a ?sn = Suc (sn_pos z a sn)"
    using Suc.prems(4) sn_pos_less [of z a ack] by (intro sn_pos_succ) linarith
  show ?case
  proof (cases "x = sn")
    case False
    then have x: "x \<in> set (takeWhile (\<lambda>x. x \<noteq> ack) (sn_seq z ?sn n))"
      using Suc.prems(1) unfolding seq by (auto split: if_splits)
    have ne: "?sn \<noteq> ack"
    proof
      assume "?sn = ack"
      then show False using x sn_seq_Suc [OF Suc.prems(3)] by (cases n) simp_all
    qed
    then have "sn_pos z a ?sn \<noteq> sn_pos z a ack" using sn_pos_eq [OF am_ring.mod_m_less Suc.prems(3)] by blast
    then show ?thesis
      by (intro Suc.IH [OF x am_ring.mod_m_less Suc.prems(3)]) (use pos Suc.prems(4) in linarith)
  qed (use Suc.prems in simp)
qed simp

lemma range_item_simps [simp]: "nack_sn (range_item m n sn) = sn" "\<not> has_nack_range (range_item m n sn)"
  by (simp_all add: range_item_def Let_def empty_nack_def)

lemma nack_items_pos:
  assumes "m \<in> set (nack_items z ack n)" "nack_sn n < sn_mod z" "ack < sn_mod z" "sn_pos z a (nack_sn n) < sn_pos z a ack"
  shows "\<not> has_nack_range m \<and> nack_sn m < sn_mod z \<and> sn_pos z a (nack_sn m) < sn_pos z a ack"
proof (cases "has_nack_range n")
  case True
  then obtain x where "m = range_item (sn_mod z) n x" "x \<in> set (takeWhile (\<lambda>x. x \<noteq> ack) (sn_seq z (nack_sn n) (unat (nack_range n))))"
    using assms(1) by (auto simp: nack_items_def)
  then show ?thesis using sn_seq_before [OF _ assms(2-4)] by simp
qed (use assms in \<open>simp add: nack_items_def\<close>)

text \<open>A range below ACK\_SN is processed completely.\<close>

lemma range_complete:
  assumes "nack_sn n < sn_mod z" "ack < sn_mod z" "sn_pos z a ack \<le> sn_half z"
    and "sn_pos z a (nack_sn n) < sn_pos z a ack" "sn_pos z a (nack_last_sn n) < sn_pos z a ack"
  shows "takeWhile (\<lambda>x. x \<noteq> ack) (sn_seq z (nack_sn n) (unat (nack_range n))) = sn_seq z (nack_sn n) (unat (nack_range n))"
proof (rule ccontr)
  let ?r = "unat (nack_range n)"
  assume "\<not> ?thesis"
  then have "ack \<in> set (sn_seq z (nack_sn n) ?r)" by (auto simp: takeWhile_eq_all_conv)
  then obtain i where i: "i < ?r" "ack = (nack_sn n + of_nat i) mod sn_mod z" by (auto simp: sn_seq_def)
  have r: "?r < 256" using unsigned_less [of "nack_range n"] by simp
  have h: "2048 \<le> sn_half z" using sn_half_cases [of z] by auto
  have u: "unat (of_nat j :: u32) = j" if "j < 256" for j using that by (simp add: unsigned_of_nat take_bit_nat_eq_self)
  have p: "sn_pos z a ((nack_sn n + of_nat j) mod sn_mod z) = sn_pos z a (nack_sn n) + j" if "j < 256" for j
    using am_ring.dist_add [of z a "nack_sn n" "of_nat j"] that u assms(3,4) h by (simp add: sn_ring_N)
  have last: "nack_last_sn n = nack_sn n + of_nat (?r - 1)"
    using i(1) by (simp add: nack_last_sn_def of_nat_diff)
  have "sn_pos z a (nack_last_sn n) = sn_pos z a (nack_sn n) + (?r - 1)"
    using p [of "?r - 1"] r unfolding last by simp
  moreover have "sn_pos z a ack = sn_pos z a (nack_sn n) + i" using p [of i] i r by simp
  ultimately show False using assms(5) i(1) by linarith
qed

lemma range_item_bytes:
  assumes "nack_sn n < sn_mod z" "i < unat (nack_range n)" "has_nack_range n"
  shows "nack_bytes (range_item (sn_mod z) n ((nack_sn n + of_nat i) mod sn_mod z)) =
    {(if nack_has_so n \<and> i = 0 then unat (so_start n) else 0) ..
     (if nack_has_so n \<and> i = nack_count n - 1 then unat (so_end n) else 0xffff)}"
proof -
  let ?r = "unat (nack_range n)" and ?sn = "(nack_sn n + of_nat i) mod sn_mod z"
  have r: "?r < 256" using unsigned_less [of "nack_range n"] by simp
  have h: "2048 \<le> sn_half z" using sn_half_cases [of z] by auto
  have pos: "sn_pos z (nack_sn n) ((nack_sn n + of_nat j) mod sn_mod z) = j" if "j < 256" for j
    using that h by (intro sn_pos_add) simp
  have last: "nack_last_sn n = nack_sn n + of_nat (?r - 1)" using assms(2) by (simp add: nack_last_sn_def of_nat_diff)
  have first: "?sn = nack_sn n \<longleftrightarrow> i = 0"
  proof
    assume "?sn = nack_sn n"
    then show "i = 0" using pos [of i] assms(2) r by simp
  qed (use assms(1) in \<open>simp add: am_ring.mod_m_ident\<close>)
  have lst: "?sn = nack_last_sn n mod sn_mod z \<longleftrightarrow> i = ?r - 1"
  proof
    assume "?sn = nack_last_sn n mod sn_mod z"
    then show "i = ?r - 1" using pos [of i] pos [of "?r - 1"] assms(2) r unfolding last by simp
  qed (simp add: last)
  have ff: "unat (so_end_of_sdu) = 65535" by (simp add: so_end_of_sdu_def)
  show ?thesis
    using assms(3) by (simp add: range_item_def Let_def first lst nack_bytes_def nack_count_def ff empty_nack_def)
qed

lemma UN_intervals:
  fixes lo hi :: "nat \<Rightarrow> nat"
  shows "(\<Union>i < r. {f i} \<times> {lo i .. hi i}) = {(x, b). \<exists>i < r. x = f i \<and> lo i \<le> b \<and> b \<le> hi i}"
  by auto

lemma nack_items_missing:
  assumes "nack_sn n < sn_mod z" "ack < sn_mod z" "sn_pos z a ack \<le> sn_half z" "sn_pos z a (nack_sn n) < sn_pos z a ack"
    and "has_nack_range n \<Longrightarrow> sn_pos z a (nack_last_sn n) < sn_pos z a ack"
  shows "(\<Union>m \<in> set (nack_items z ack n). {nack_sn m} \<times> nack_bytes m) = nack_missing (sn_mod z) n"
proof (cases "has_nack_range n")
  case True
  let ?r = "unat (nack_range n)"
  have "nack_items z ack n = map (range_item (sn_mod z) n) (sn_seq z (nack_sn n) ?r)"
    using True by (simp only: nack_items_def if_True range_complete [OF assms(1-4) assms(5) [OF True]])
  then have it: "set (nack_items z ack n) = (\<lambda>i. range_item (sn_mod z) n ((nack_sn n + of_nat i) mod sn_mod z)) ` {..< ?r}"
    by (auto simp: sn_seq_def)
  have "(\<Union>m \<in> set (nack_items z ack n). {nack_sn m} \<times> nack_bytes m) =
     (\<Union>i < ?r. {(nack_sn n + of_nat i) mod sn_mod z} \<times>
        {(if nack_has_so n \<and> i = 0 then unat (so_start n) else 0) ..
         (if nack_has_so n \<and> i = nack_count n - 1 then unat (so_end n) else 0xffff)})"
    unfolding it image_image using range_item_bytes [OF assms(1) _ True] by (intro SUP_cong) (simp_all del: split_paired_All)
  also have "\<dots> = nack_missing (sn_mod z) n"
    unfolding UN_intervals nack_missing_def using True by (simp only: nack_count_def if_True)
  finally show ?thesis .
next
  case False
  have "{nack_sn n} \<times> nack_bytes n = nack_missing (sn_mod z) n"
    using False assms(1) by (simp add: nack_missing_def nack_count_def nack_bytes_def am_ring.mod_m_ident cong: conj_cong)
      (simp add: atLeastAtMost_def atLeast_def atMost_def Collect_conj_eq)
  then show ?thesis using False by (simp add: nack_items_def)
qed

section \<open>Accepted status PDUs\<close>

lemma valid_nacks_all: "fst (valid_nacks ack ns s) \<longleftrightarrow> (\<forall>n \<in> set ns. fst (valid_nack ack n s))"
  by (induction ns) (auto simp: case_prod_beta Let_def)

lemma valid_nack_pos:
  assumes "tam_wf s" "fst (valid_nack ack n s)"
  shows "sn_pos (tam_z s) (tx_next_ack s) (nack_sn n) < sn_pos (tam_z s) (tx_next_ack s) ack"
    "has_nack_range n \<Longrightarrow> sn_pos (tam_z s) (tx_next_ack s) (nack_last_sn n) < sn_pos (tam_z s) (tx_next_ack s) ack"
  using assms(2) by (auto simp: valid_nack_def tx_base [OF assms(1)] split: if_splits)

definition status_accepted :: "rlc_am_status_pdu \<Rightarrow> rlc_tx_am_entity \<Rightarrow> bool" where
  "status_accepted p s \<longleftrightarrow>
     valid_ack_sn s (ack_sn p) \<and> \<not> tx_mod_base s (ack_sn p) > tx_mod_base s (tx_next s + 1) \<and>
     fst (valid_nacks (ack_sn p) (nacks p) s)"

text \<open>The first SN that is not acknowledged.\<close>

definition status_stop :: "rlc_am_status_pdu \<Rightarrow> u32" where
  "status_stop p = (case nacks p of [] \<Rightarrow> ack_sn p | n # _ \<Rightarrow> nack_sn n)"

text \<open>
  The SNs of a status PDU fit their fields, and a peer that acknowledges past TX\_Next does so for an SDU
  under segmentation and reports something missing.
\<close>

definition status_sns_ok :: "rlc_am_sn_size \<Rightarrow> rlc_am_status_pdu \<Rightarrow> bool" where
  "status_sns_ok z p \<longleftrightarrow> ack_sn p < sn_mod z \<and> (\<forall>n \<in> set (nacks p). nack_sn n < sn_mod z)"

definition status_peer_ok :: "rlc_am_status_pdu \<Rightarrow> rlc_tx_am_entity \<Rightarrow> bool" where
  "status_peer_ok p s \<longleftrightarrow> status_sns_ok (tam_z s) p \<and>
     (ack_sn p = (tx_next s + 1) mod tam_mod s \<longrightarrow> sn_under_segmentation s \<noteq> INVALID_RLC_SN \<and> nacks p \<noteq> [])"

text \<open>The NACKs of the status PDU, one for each SN.\<close>

definition status_items :: "rlc_am_sn_size \<Rightarrow> rlc_am_status_pdu \<Rightarrow> rlc_am_status_nack list" where
  "status_items z p = concat (map (nack_items z (ack_sn p)) (nacks p))"

lemma status_stop_pos:
  assumes inv: "tam_inv s" and acc: "status_accepted p s" and peer: "status_peer_ok p s"
  defines "pos \<equiv> sn_pos (tam_z s) (tx_next_ack s)"
  shows "0 < pos (ack_sn p)" "pos (ack_sn p) \<le> sn_half (tam_z s)" "status_stop p < sn_mod (tam_z s)"
    "pos (status_stop p) \<le> pos (tx_next s)" "pos (status_stop p) \<le> pos (ack_sn p)"
    "pos (ack_sn p) \<le> pos (tx_next s) \<or> sn_under_segmentation s \<noteq> INVALID_RLC_SN"
    "\<And>n. n \<in> set (nacks p) \<Longrightarrow> nack_sn n < sn_mod (tam_z s) \<and> pos (nack_sn n) < pos (ack_sn p) \<and>
       (has_nack_range n \<longrightarrow> pos (nack_last_sn n) < pos (ack_sn p))"
proof -
  note wf = tam_invD(1) [OF inv] note d = twin_okD [OF tam_invD(3) [OF inv]]
  let ?z = "tam_z s"
  have ack: "ack_sn p < sn_mod ?z" using peer by (simp add: status_peer_ok_def status_sns_ok_def)
  show v: "0 < pos (ack_sn p)" "pos (ack_sn p) \<le> sn_half ?z"
    using acc tx_base(4) [OF wf, of "ack_sn p"] by (simp_all add: status_accepted_def pos_def)
  have nn: "pos ((tx_next s + 1) mod sn_mod ?z) = Suc (pos (tx_next s))"
    unfolding pos_def using d(5) sn_half_pos(2) [of ?z] by (intro sn_pos_succ) linarith
  have le: "pos (ack_sn p) \<le> Suc (pos (tx_next s))"
  proof -
    have "pos (ack_sn p) \<le> pos (tx_next s + 1)"
      using acc tx_base(1) [OF wf, of "tx_next s + 1" "ack_sn p"] by (simp add: status_accepted_def pos_def)
    also have "pos (tx_next s + 1) = pos ((tx_next s + 1) mod sn_mod ?z)" by (simp add: pos_def)
    finally show ?thesis by (simp add: nn)
  qed
  have seg: "pos (ack_sn p) = Suc (pos (tx_next s)) \<Longrightarrow> sn_under_segmentation s \<noteq> INVALID_RLC_SN \<and> nacks p \<noteq> []"
  proof -
    assume "pos (ack_sn p) = Suc (pos (tx_next s))"
    then have "pos (ack_sn p) = pos ((tx_next s + 1) mod sn_mod ?z)" using nn by (rule trans [OF _ sym])
    then have "ack_sn p = (tx_next s + 1) mod sn_mod ?z"
      unfolding pos_def by (rule iffD1 [OF sn_pos_eq [OF ack am_ring.mod_m_less]])
    then show ?thesis using peer by (simp add: status_peer_ok_def tam_wfD(1) [OF wf])
  qed
  then show "pos (ack_sn p) \<le> pos (tx_next s) \<or> sn_under_segmentation s \<noteq> INVALID_RLC_SN" using le by linarith
  show n: "nack_sn n < sn_mod ?z \<and> pos (nack_sn n) < pos (ack_sn p) \<and>
       (has_nack_range n \<longrightarrow> pos (nack_last_sn n) < pos (ack_sn p))" if "n \<in> set (nacks p)" for n
    using that peer acc valid_nack_pos [OF wf, of "ack_sn p" n]
    by (auto simp: status_peer_ok_def status_sns_ok_def status_accepted_def valid_nacks_all pos_def)
  show stop: "status_stop p < sn_mod ?z" "pos (status_stop p) \<le> pos (ack_sn p)"
    using n ack by (auto simp: status_stop_def less_imp_le split: list.splits)
  show "pos (status_stop p) \<le> pos (tx_next s)"
  proof (cases "nacks p")
    case Nil
    then have "pos (ack_sn p) \<noteq> Suc (pos (tx_next s))" using seg by auto
    then show ?thesis using le stop(2) by linarith
  next
    case (Cons m ms)
    then have "pos (status_stop p) < pos (ack_sn p)" using n by (simp add: status_stop_def)
    then show ?thesis using le by linarith
  qed
qed

lemma stop_poll_frame:
  "tx_next_ack (stop_poll_timer ack s) = tx_next_ack s" "tx_next (stop_poll_timer ack s) = tx_next s"
  "tam_cfg (stop_poll_timer ack s) = tam_cfg s" "tam_z (stop_poll_timer ack s) = tam_z s" "tam_queue (stop_poll_timer ack s) = tam_queue s"
  "tx_window (stop_poll_timer ack s) = tx_window s" "retx_queue (stop_poll_timer ack s) = retx_queue s"
  "tam_mod (stop_poll_timer ack s) = tam_mod s" "sn_under_segmentation (stop_poll_timer ack s) = sn_under_segmentation s"
  "tam_inv (stop_poll_timer ack s) = tam_inv s" "loop_bound_tx (stop_poll_timer ack s) = loop_bound_tx s"
  by (simp_all add: stop_poll_timer_def loop_bound_tx_def tam_inv_def tam_wf_def tam_win_def timer_stop_def)

text \<open>What an accepted status PDU does to the state.\<close>

definition status_post :: "rlc_am_status_pdu \<Rightarrow> rlc_tx_am_entity \<Rightarrow> rlc_tx_am_entity \<Rightarrow> bool" where
  "status_post p s s' \<longleftrightarrow>
     tam_cfg s' = tam_cfg s \<and> tx_next s' = tx_next s \<and> sn_under_segmentation s' = sn_under_segmentation s \<and>
     q_view (tam_queue s') = q_view (tam_queue s) \<and> tx_next_ack s' = status_stop p \<and> tx_progress s' = tx_progress s \<and>
     (\<forall>x. tx_sdu (tx_window s') x =
        (if x < sn_mod (tam_z s) \<and> sn_pos (tam_z s) (tx_next_ack s) x < sn_pos (tam_z s) (tx_next_ack s) (status_stop p) then None
         else tx_sdu (tx_window s) x))"

text \<open>Every byte that is reported missing and that the window still holds.\<close>

definition status_wants :: "rlc_am_status_pdu \<Rightarrow> rlc_tx_am_entity \<Rightarrow> (u32 \<times> nat) set" where
  "status_wants p s = {(sn, x). (sn, x) \<in> status_missing p \<and> (\<exists>b. tx_sdu (tx_window s) sn = Some b \<and> x < length b)}"

lemma status_items_ok:
  assumes inv: "tam_inv s" and acc: "status_accepted p s" and peer: "status_peer_ok p s"
  shows "\<forall>n \<in> set (status_items (tam_z s) p). \<not> has_nack_range n \<and> nack_sn n < sn_mod (tam_z s) \<and>
      sn_pos (tam_z s) (tx_next_ack s) (nack_sn n) < sn_pos (tam_z s) (tx_next_ack s) (ack_sn p)"
    "(\<Union>n \<in> set (status_items (tam_z s) p). {nack_sn n} \<times> nack_bytes n) =
       (\<Union>n \<in> set (nacks p). nack_missing (sn_mod (tam_z s)) n)"
proof -
  note st = status_stop_pos [OF inv acc peer]
  have ack: "ack_sn p < sn_mod (tam_z s)" using peer by (simp add: status_peer_ok_def status_sns_ok_def)
  show "\<forall>n \<in> set (status_items (tam_z s) p). \<not> has_nack_range n \<and> nack_sn n < sn_mod (tam_z s) \<and>
      sn_pos (tam_z s) (tx_next_ack s) (nack_sn n) < sn_pos (tam_z s) (tx_next_ack s) (ack_sn p)"
  proof
    fix m assume "m \<in> set (status_items (tam_z s) p)"
    then obtain n where "n \<in> set (nacks p)" "m \<in> set (nack_items (tam_z s) (ack_sn p) n)" by (auto simp: status_items_def)
    then show "\<not> has_nack_range m \<and> nack_sn m < sn_mod (tam_z s) \<and>
        sn_pos (tam_z s) (tx_next_ack s) (nack_sn m) < sn_pos (tam_z s) (tx_next_ack s) (ack_sn p)"
      using nack_items_pos [of m "tam_z s" "ack_sn p" n "tx_next_ack s"] st(7) ack by blast
  qed
  have "(\<Union>m \<in> set (nack_items (tam_z s) (ack_sn p) n). {nack_sn m} \<times> nack_bytes m) = nack_missing (sn_mod (tam_z s)) n"
    if "n \<in> set (nacks p)" for n
    using nack_items_missing [of n "tam_z s" "ack_sn p" "tx_next_ack s"] st(2,7) that ack by blast
  then show "(\<Union>n \<in> set (status_items (tam_z s) p). {nack_sn n} \<times> nack_bytes n) =
       (\<Union>n \<in> set (nacks p). nack_missing (sn_mod (tam_z s)) n)"
    by (simp add: status_items_def)
qed

lemma wants_union:
  "(\<Union>n \<in> N. nack_wants w n) =
     {(sn, x). (sn, x) \<in> (\<Union>n \<in> N. {nack_sn n} \<times> nack_bytes n) \<and> (\<exists>b. tx_sdu w sn = Some b \<and> x < length b)}"
  by (auto simp: nack_wants_def split: option.splits)

text \<open>The first part of the handler: acknowledgements, and the old retransmissions are dropped.\<close>

lemma status_acks_ok:
  assumes inv: "tam_inv s" and acc: "status_accepted p s" and peer: "status_peer_ok p s"
  defines "infos \<equiv> map (the \<circ> cm_lookup (tx_window s))
      (sn_seq (tam_z s) (tx_next_ack s) (sn_pos (tam_z s) (tx_next_ack s) (status_stop p)))"
  obtains s1 s2 where
    "process_acks (loop_bound_tx s) (tx_next_ack s) (status_stop p) (None, None) (stop_poll_timer (ack_sn p) s) =
       Inr (foldl note_delivered (None, None) infos, s1)"
    "clear_retx_queue s1 = Inr s2" "tam_inv s2" "status_post p s s2" "rq_queue (retx_queue s2) = []" "tam_mod s2 = tam_mod s"
proof -
  let ?s = "stop_poll_timer (ack_sn p) s"
  note fr = stop_poll_frame [of "ack_sn p" s]
  have inv0: "tam_inv ?s" using inv fr by simp
  note st = status_stop_pos [OF inv acc peer]
  let ?z = "tam_z s" and ?a = "tx_next_ack s"
  have "sn_pos ?z ?a (status_stop p) < loop_bound_tx s"
    using less_SucI [OF am_ring.dist_less [of ?z ?a "status_stop p"]] by (simp add: loop_bound_tx_def tam_wfD(1) [OF tam_invD(1) [OF inv]] am_ring.unat_m)
  then obtain w1 where w1: "process_acks (loop_bound_tx s) ?a (status_stop p) (None, None) ?s =
      Inr (foldl note_delivered (None, None) infos, ?s\<lparr>tx_window := w1, tx_next_ack := status_stop p\<rparr>)"
    "tam_win (?s\<lparr>tx_window := w1, tx_next_ack := status_stop p\<rparr>)"
    "\<forall>x. cm_lookup w1 x = (if x < sn_mod ?z \<and> sn_pos ?z ?a x < sn_pos ?z ?a (status_stop p) then None else cm_lookup (tx_window s) x)"
    using process_acks_ok [OF tam_invD(1,2) [OF inv0], of "status_stop p" "loop_bound_tx s" "(None, None)"] st(3,4)
    unfolding fr infos_def by blast
  let ?s1 = "?s\<lparr>tx_window := w1, tx_next_ack := status_stop p\<rparr>"
  have "retx_inv (retx_queue ?s1)" using inv fr by (simp add: tam_inv_def retx_ok_def)
  from clear_retx_queue_ok [OF this w1(2)]
  obtain w2 q2 where c: "clear_retx_queue ?s1 = Inr (?s1\<lparr>tx_window := w2, retx_queue := q2, retx_sn := INVALID_RLC_SN\<rparr>)"
    "tam_win (?s1\<lparr>tx_window := w2\<rparr>)" "same_sdus (tx_window ?s1) w2" "retx_inv q2" "retx_view q2 = []"
    "rq_capacity q2 = rq_capacity (retx_queue ?s1)"
    by (elim exE conjE) (rule that)
  let ?s2 = "?s1\<lparr>tx_window := w2, retx_queue := q2, retx_sn := INVALID_RLC_SN\<rparr>"
  have inv2: "tam_inv ?s2"
    using inv0 c(2,4-6) fr by (simp add: tam_inv_def tam_wf_def tam_win_def retx_ok_def)
  have "tx_sdu w2 = tx_sdu w1" using same_sdus_tx_sdu [OF c(3)] by simp
  moreover have "tx_progress ?s2 = tx_progress s"
  proof -
    have "cm_lookup w1 (tx_next s) = cm_lookup (tx_window s) (tx_next s)" using w1(3) st(4) by simp
    then have "tx_progress ?s1 = tx_progress s" using fr by (simp add: tx_progress_def)
    then show ?thesis using same_sdus_progress [of ?s1 ?s2] c(3) by simp
  qed
  ultimately have post: "status_post p s ?s2" using w1(3) fr by (auto simp: status_post_def tx_sdu_def)
  have "empty_retx q2" using empty_retx_view [OF c(4)] c(5) by simp
  then have "rq_queue q2 = []" by (simp add: empty_retx_def)
  then show thesis by (intro that [OF w1(1) c(1) inv2 post]) (simp_all add: fr)
qed

lemma status_post_trans:
  assumes "status_post p s s2" and "tam_cfg s' = tam_cfg s2" "tx_next s' = tx_next s2"
    "sn_under_segmentation s' = sn_under_segmentation s2" "q_view (tam_queue s') = q_view (tam_queue s2)"
    "tx_next_ack s' = tx_next_ack s2" "tx_sdu (tx_window s') = tx_sdu (tx_window s2)"
    "tx_progress s' = tx_progress s2"
  shows "status_post p s s'"
  using assms by (simp add: status_post_def)

text \<open>The second part: the retransmissions that the NACKs ask for.\<close>

lemma status_nacks_ok:
  assumes inv: "tam_inv s" and acc: "status_accepted p s" and peer: "status_peer_ok p s"
    and s2: "tam_inv s2" "status_post p s s2" "rq_queue (retx_queue s2) = []"
  obtains s3 as where "process_nacks (ack_sn p) (nacks p) INVALID_RLC_SN s2 = Inr (s3, as)" "tam_inv s3" "status_post p s s3"
    "st_mod_nr p = tam_mod s \<longrightarrow> sn_pos (tam_z s) (tx_next_ack s) (ack_sn p) \<le> sn_pos (tam_z s) (tx_next_ack s) (tx_next s) \<longrightarrow>
     (\<forall>n \<in> set (status_items (tam_z s) p). nack_fits_window (tx_window s) n) \<longrightarrow>
     length (status_items (tam_z s) p) \<le> sn_half (tam_z s) \<longrightarrow> retx_cover (retx_queue s3) = status_wants p s3"
    "(\<forall>n \<in> set (status_items (tam_z s) p). nack_sent s n) \<longrightarrow> retx_sent s3"
proof -
  note st = status_stop_pos [OF inv acc peer] note it = status_items_ok [OF inv acc peer]
  note wf = tam_invD(1) [OF inv] note d = twin_okD [OF tam_invD(3) [OF inv]]
  have z: "tam_z s2 = tam_z s" using s2(2) by (simp add: status_post_def tam_z_def)
  have fr: "tx_next s2 = tx_next s" "sn_under_segmentation s2 = sn_under_segmentation s" using s2(2) by (simp_all add: status_post_def)
  let ?it = "status_items (tam_z s) p"
  have ok: "\<forall>n \<in> set ?it. \<not> has_nack_range n \<and> nack_sn n < sn_mod (tam_z s2) \<and>
      (nack_sn n = tx_next s2 \<longrightarrow> sn_under_segmentation s2 \<noteq> INVALID_RLC_SN)"
    using it(1) st(6) unfolding z fr by (auto dest: leD)
  obtain p3 q w as where r: "process_items ?it INVALID_RLC_SN s2 = Inr (p3, s2\<lparr>retx_queue := q, tx_window := w\<rparr>, as)"
    "tam_inv (s2\<lparr>retx_queue := q, tx_window := w\<rparr>)" "same_sdus (tx_window s2) w"
    "(\<forall>n \<in> set ?it. nack_sn n \<noteq> sn_under_segmentation s2 \<and> nack_fits_window (tx_window s2) n) \<longrightarrow>
     length (rq_queue (retx_queue s2)) + length ?it \<le> sn_half (tam_z s2) \<longrightarrow>
     retx_cover q = retx_cover (retx_queue s2) \<union> (\<Union>n \<in> set ?it. nack_wants (tx_window s2) n)"
    "retx_sent s2 \<longrightarrow> (\<forall>n \<in> set ?it. nack_sent s2 n) \<longrightarrow> retx_sent (s2\<lparr>retx_queue := q, tx_window := w\<rparr>)"
    using process_items_ok [OF s2(1) ok, of INVALID_RLC_SN] by (elim exE conjE) (rule that)
  let ?s3 = "s2\<lparr>retx_queue := q, tx_window := w\<rparr>"
  have sdu: "tx_sdu w = tx_sdu (tx_window s2)" using same_sdus_tx_sdu [OF r(3)] by simp
  have eq: "process_nacks (ack_sn p) (nacks p) INVALID_RLC_SN s2 = Inr (?s3, as)"
    using process_nacks_items [of s2 "tam_z s" "nacks p" "ack_sn p" INVALID_RLC_SN] tam_wfD(1) [OF tam_invD(1) [OF s2(1)]] st(7) r(1)
    by (simp add: z status_items_def)
  have post: "status_post p s ?s3" by (rule status_post_trans [OF s2(2)]) (use same_sdus_progress [of s2 ?s3] r(3) in \<open>simp_all add: sdu\<close>)
  have cov: "retx_cover q = status_wants p ?s3"
    if m: "st_mod_nr p = tam_mod s" and a: "sn_pos (tam_z s) (tx_next_ack s) (ack_sn p) \<le> sn_pos (tam_z s) (tx_next_ack s) (tx_next s)"
      and f: "\<forall>n \<in> set ?it. nack_fits_window (tx_window s) n" and l: "length ?it \<le> sn_half (tam_z s)"
  proof -
    have "nack_sn n \<noteq> sn_under_segmentation s2 \<and> nack_fits_window (tx_window s2) n" if "n \<in> set ?it" for n
    proof
      have "nack_sn n < sn_mod (tam_z s)" "sn_pos (tam_z s) (tx_next_ack s) (nack_sn n) < sn_pos (tam_z s) (tx_next_ack s) (tx_next s)"
        using it(1) that a by (auto intro: less_le_trans)
      then show "nack_sn n \<noteq> sn_under_segmentation s2" using d(6) sn_valid unfolding fr by (metis nat_neq_iff)
      show "nack_fits_window (tx_window s2) n"
        using f that s2(2) by (auto simp: nack_fits_window_def status_post_def)
    qed
    then have "retx_cover q = retx_cover (retx_queue s2) \<union> (\<Union>n \<in> set ?it. nack_wants (tx_window s2) n)"
      using r(4) l s2(3) z by simp
    also have "retx_cover (retx_queue s2) = {}" using s2(3) by (simp add: retx_cover_def retx_view_def)
    finally show ?thesis
      unfolding wants_union it(2) using m by (simp add: status_wants_def status_missing_def sdu tam_wfD(1) [OF wf])
  qed
  have "retx_sent s2" using s2(3) by (simp add: retx_sent_def retx_view_def)
  moreover have "nack_sent s2 = nack_sent s" using s2(2) by (simp add: fun_eq_iff nack_sent_def status_post_def)
  ultimately have "(\<forall>n \<in> set ?it. nack_sent s n) \<longrightarrow> retx_sent ?s3" using r(5) by simp
  then show thesis by (intro that [OF eq r(2) post]) (use cov in simp_all)
qed

lemma handle_status_ok:
  assumes inv: "tam_inv s" and acc: "status_accepted p s" and peer: "status_peer_ok p s"
  defines "infos \<equiv> map (the \<circ> cm_lookup (tx_window s))
      (sn_seq (tam_z s) (tx_next_ack s) (sn_pos (tam_z s) (tx_next_ack s) (status_stop p)))"
  obtains s' as bs where "handle_status_pdu sp p s =
      Inr (s', delivered_actions (foldl note_delivered (None, None) infos) @ as @ [On_Buffer_State_Update bs])"
    "tam_inv s'" "status_post p s s'"
    "st_mod_nr p = tam_mod s \<longrightarrow> sn_pos (tam_z s) (tx_next_ack s) (ack_sn p) \<le> sn_pos (tam_z s) (tx_next_ack s) (tx_next s) \<longrightarrow>
     (\<forall>n \<in> set (status_items (tam_z s) p). nack_fits_window (tx_window s) n) \<longrightarrow>
     length (status_items (tam_z s) p) \<le> sn_half (tam_z s) \<longrightarrow> retx_cover (retx_queue s') = status_wants p s'"
    "(\<forall>n \<in> set (status_items (tam_z s) p). nack_sent s n) \<longrightarrow> retx_sent s'"
proof -
  obtain s1 s2 where a: "process_acks (loop_bound_tx s) (tx_next_ack s) (status_stop p) (None, None) (stop_poll_timer (ack_sn p) s) =
       Inr (foldl note_delivered (None, None) infos, s1)"
    "clear_retx_queue s1 = Inr s2" "tam_inv s2" "status_post p s s2" "rq_queue (retx_queue s2) = []"
    by (rule status_acks_ok [OF inv acc peer, folded infos_def]) (rule that)
  obtain s3 as where n: "process_nacks (ack_sn p) (nacks p) INVALID_RLC_SN s2 = Inr (s3, as)" "tam_inv s3" "status_post p s s3"
    "st_mod_nr p = tam_mod s \<longrightarrow> sn_pos (tam_z s) (tx_next_ack s) (ack_sn p) \<le> sn_pos (tam_z s) (tx_next_ack s) (tx_next s) \<longrightarrow>
     (\<forall>n \<in> set (status_items (tam_z s) p). nack_fits_window (tx_window s) n) \<longrightarrow>
     length (status_items (tam_z s) p) \<le> sn_half (tam_z s) \<longrightarrow> retx_cover (retx_queue s3) = status_wants p s3"
    "(\<forall>n \<in> set (status_items (tam_z s) p). nack_sent s n) \<longrightarrow> retx_sent s3"
    by (rule status_nacks_ok [OF inv acc peer a(3-5)])
  obtain s4 as4 where u: "update_mac_buffer_state_am sp True s3 = Inr (s4, as4)" "tam_inv s4"
    "tam_cfg s4 = tam_cfg s3" "tx_next_ack s4 = tx_next_ack s3" "tx_next s4 = tx_next s3" "tx_window s4 = tx_window s3"
    "retx_queue s4 = retx_queue s3" "sn_under_segmentation s4 = sn_under_segmentation s3" "q_view (tam_queue s4) = q_view (tam_queue s3)"
    by (rule update_mac_buffer_state_am_ok [OF n(2), of sp True]) (rule that)
  obtain bs where bs: "as4 = [On_Buffer_State_Update bs]"
    using u(1) by (auto simp: update_mac_buffer_state_am_def bind_res_Inr_iff Let_def split: if_splits)
  have post: "status_post p s s4" by (rule status_post_trans [OF n(3)]) (simp_all add: u tx_progress_def)
  have "status_wants p s4 = status_wants p s3" by (simp add: status_wants_def u)
  moreover have "handle_status_pdu sp p s =
      Inr (s4, delivered_actions (foldl note_delivered (None, None) infos) @ as @ [On_Buffer_State_Update bs])"
    using acc a(1,2) n(1) u(1) bs stop_poll_frame [of "ack_sn p" s]
    by (simp add: handle_status_pdu_def status_accepted_def status_stop_def Let_def case_prod_beta not_less)
  moreover have "retx_sent s4 = retx_sent s3" by (simp add: retx_sent_def tx_progress_def u)
  ultimately show thesis by (intro that [OF _ u(2) post]) (use n(4,5) u(7) in simp_all)
qed

text \<open>A status PDU that is not accepted changes nothing.\<close>

lemma valid_nacks_actions: "set (snd (valid_nacks ack ns s)) \<subseteq> {On_Protocol_Failure}"
proof (induction ns)
  case (Cons n ns)
  have "set (snd (valid_nack ack n s)) \<subseteq> {On_Protocol_Failure}" by (simp add: valid_nack_def)
  then show ?case using Cons by (simp add: case_prod_beta Let_def)
qed simp

lemma handle_status_rejected:
  assumes "\<not> status_accepted p s"
  shows "\<exists>as. handle_status_pdu sp p s = Inr (s, as) \<and> set as \<subseteq> {On_Protocol_Failure}"
proof -
  consider "\<not> valid_ack_sn s (ack_sn p)" | "valid_ack_sn s (ack_sn p)" "tx_mod_base s (ack_sn p) > tx_mod_base s (tx_next s + 1)"
    | "valid_ack_sn s (ack_sn p)" "\<not> tx_mod_base s (ack_sn p) > tx_mod_base s (tx_next s + 1)" "\<not> fst (valid_nacks (ack_sn p) (nacks p) s)"
    using assms by (auto simp: status_accepted_def)
  then show ?thesis
  proof cases
    case 3
    then show ?thesis using valid_nacks_actions [of "ack_sn p" "nacks p" s] by (simp add: handle_status_pdu_def case_prod_beta)
  qed (simp_all add: handle_status_pdu_def)
qed

section \<open>Expiry of t-PollRetransmit\<close>

lemma poll_expired_ok:
  assumes inv: "tam_inv s"
  obtains s' as where "on_expired_poll_retransmit_timer sp s = Inr (s', as)" "tam_inv s'" "tam_cfg s' = tam_cfg s"
    "tx_stalled s \<longrightarrow> \<not> empty_cm (tx_window s) \<longrightarrow> has_sn (tx_window s) (tx_next_ack s) \<longrightarrow>
     length (rq_queue (retx_queue s)) < sn_half (tam_z s) \<longrightarrow>
     retx_view (retx_queue s') = retx_view (retx_queue s) @ [\<lparr>rtx_sn = tx_next_ack s, rtx_so = 0,
       rtx_length = of_nat (length (the (tx_sdu (tx_window s) (tx_next_ack s))))\<rparr>]"
    "tx_next_ack s' = tx_next_ack s" "tx_next s' = tx_next s" "sn_under_segmentation s' = sn_under_segmentation s"
    "tx_sdu (tx_window s') = tx_sdu (tx_window s)" "tx_progress s' = tx_progress s" "q_view (tam_queue s') = q_view (tam_queue s)"
    "retx_view (retx_queue s') = retx_view (retx_queue s) \<or>
       tx_stalled s \<and> (\<exists>r. rtx_sn r = tx_next_ack s \<and> retx_view (retx_queue s') = retx_view (retx_queue s) @ [r])"
proof (cases "tx_stalled s \<and> \<not> empty_cm (tx_window s) \<and> has_sn (tx_window s) (tx_next_ack s)")
  case True
  note rx = tam_invD(4) [OF inv] note w = tam_invD(3) [OF inv]
  obtain info where i: "cm_lookup (tx_window s) (tx_next_ack s) = Some info" using True by (auto simp: has_sn_lookup)
  have b: "am_sdu_ok (tsi_sdu info)" by (rule twin_okD(8) [OF w i])
  let ?r = "\<lparr>rtx_sn = tx_next_ack s, rtx_so = 0, rtx_length = of_nat (length (tsi_sdu info))\<rparr>"
  have l: "unat (of_nat (length (tsi_sdu info)) :: u32) = length (tsi_sdu info)" "0 < length (tsi_sdu info)" "length (tsi_sdu info) \<le> max_am_sdu"
    using b by (auto simp: am_sdu_ok_def max_am_sdu_def unsigned_of_nat take_bit_nat_eq_self)
  obtain ok q where p: "try_push_retx ?r (retx_queue s) = (ok, q)" by (metis prod.collapse)
  have fits: "retx_fits (retx_view (retx_queue s) @ [?r])"
    using retx_view_bounds(3) [OF rx w] l sn_half_cases [of "tam_z s"] by (auto simp: retx_fits_def retx_total_def max_am_sdu_def)
  have push: "retx_inv q \<and> retx_view q = retx_view (retx_queue s) @ (if ok then [?r] else [])"
    by (rule try_push_retx_ok [OF _ fits p]) (use rx in \<open>simp add: retx_ok_def\<close>)
  have cap: "rq_capacity q = sn_half (tam_z s)" using p rx by (auto simp: try_push_retx_def retx_ok_def split: if_splits)
  have "retx_in (tx_window s) ?r" using i l by (simp add: retx_in_def tx_sdu_def)
  then have inv1: "tam_inv (s\<lparr>retx_queue := q\<rparr>)"
    using inv push cap by (auto simp: tam_inv_def tam_win_def tam_wf_def retx_ok_def)
  let ?s = "s\<lparr>retx_queue := q\<rparr>"
  obtain w' as1 where c: "(if ok then increment_retx_count (tx_next_ack ?s) ?s else Inr (?s, [])) = Inr (?s\<lparr>tx_window := w'\<rparr>, as1)"
    "tam_win (?s\<lparr>tx_window := w'\<rparr>)" "same_sdus (tx_window ?s) w'"
  proof (cases ok)
    case True
    obtain w' as1 where "increment_retx_count (tx_next_ack ?s) ?s = Inr (?s\<lparr>tx_window := w'\<rparr>, as1)"
      "tam_win (?s\<lparr>tx_window := w'\<rparr>)" "same_sdus (tx_window ?s) w'"
      by (rule increment_ok [OF tam_invD(2) [OF inv1], of "tx_next_ack ?s"]) (use i in simp, rule that)
    then show thesis using True by (intro that) simp_all
  next
    case False
    show thesis by (rule that [of "tx_window s" "[]"]) (use False tam_invD(2) [OF inv1] in simp_all)
  qed
  have inv2: "tam_inv (?s\<lparr>tx_window := w'\<rparr>)"
    using inv1 c(2) same_sdus_tx_sdu [OF c(3), symmetric] by (simp add: tam_inv_def tam_wf_def retx_ok_def retx_in_def)
  obtain s' as2 where u: "update_mac_buffer_state_am sp True (?s\<lparr>tx_window := w'\<rparr>) = Inr (s', as2)" "tam_inv s'"
      "tam_cfg s' = tam_cfg (?s\<lparr>tx_window := w'\<rparr>)" "retx_queue s' = retx_queue (?s\<lparr>tx_window := w'\<rparr>)"
      "tx_next_ack s' = tx_next_ack (?s\<lparr>tx_window := w'\<rparr>)" "tx_next s' = tx_next (?s\<lparr>tx_window := w'\<rparr>)"
      "tx_window s' = tx_window (?s\<lparr>tx_window := w'\<rparr>)" "sn_under_segmentation s' = sn_under_segmentation (?s\<lparr>tx_window := w'\<rparr>)"
      "q_view (tam_queue s') = q_view (tam_queue (?s\<lparr>tx_window := w'\<rparr>))"
    by (rule update_mac_buffer_state_am_ok [OF inv2, of sp True]) (rule that)
  have pr: "tx_progress s' = tx_progress s" "tx_sdu (tx_window s') = tx_sdu (tx_window s)"
    using same_sdus_progress [of s s'] same_sdus_tx_sdu [OF c(3)] c(3) u(6-8) by simp_all
  have eq: "on_expired_poll_retransmit_timer sp s = Inr (s', as1 @ as2)"
    using True p u(1) c(1) by (simp add: on_expired_poll_retransmit_timer_def at_cm_Some [OF i] Let_def)
  have ok: "length (rq_queue (retx_queue s)) < sn_half (tam_z s) \<Longrightarrow> ok"
    using p rx by (auto simp: try_push_retx_def retx_ok_def split: if_splits)
  have v: "retx_view (retx_queue s') = retx_view (retx_queue s) @ (if ok then [?r] else [])" using u(4) push by simp
  have "retx_view (retx_queue s') = retx_view (retx_queue s) \<or>
       tx_stalled s \<and> (\<exists>r. rtx_sn r = tx_next_ack s \<and> retx_view (retx_queue s') = retx_view (retx_queue s) @ [r])"
    using v True by (cases ok) auto
  moreover have "tx_stalled s \<longrightarrow> \<not> empty_cm (tx_window s) \<longrightarrow> has_sn (tx_window s) (tx_next_ack s) \<longrightarrow>
     length (rq_queue (retx_queue s)) < sn_half (tam_z s) \<longrightarrow>
     retx_view (retx_queue s') = retx_view (retx_queue s) @ [\<lparr>rtx_sn = tx_next_ack s, rtx_so = 0,
       rtx_length = of_nat (length (the (tx_sdu (tx_window s) (tx_next_ack s))))\<rparr>]"
    using v ok i by (simp add: tx_sdu_def)
  ultimately show thesis by (intro that [OF eq u(2) _ _ _ _ _ pr(2,1)]) (use u in simp_all)
next
  case False
  then have "on_expired_poll_retransmit_timer sp s = Inr (s, [])"
    unfolding on_expired_poll_retransmit_timer_def by (metis (full_types))
  then show thesis by (rule that [OF _ inv]) (use False in auto)
qed

end
