(* ===== verification/Rlc_Tx_Am_Props.thy ===== *)
theory Rlc_Tx_Am_Props
  imports Rlc_Tx_Am_Status
begin

text \<open>
  The properties of the transmitting AM entity, over every history of its operations: it never fails, its
  window and its retransmissions are consistent, every PDU that it sends is what its header says, a status
  PDU is answered by exactly the bytes it reports missing, the buffer state is exact, and the backlog is
  sent after finitely many grants. Then the inputs on which the code fails or does not poll.
\<close>

section \<open>Histories\<close>

text \<open>An operation of the environment.\<close>

datatype tx_am_op =
    Op_Sdu nat byte_buffer bool
  | Op_Discard u32
  | Op_Pull status_provider nat
  | Op_Buffer_State status_provider bool
  | Op_Status_Changed
  | Op_Status status_provider rlc_am_status_pdu
  | Op_Poll_Expired status_provider
  | Op_Stop

definition exec_tx_am :: "tx_am_op \<Rightarrow> rlc_tx_am_entity \<Rightarrow> rlc_tx_am_entity res" where
  "exec_tx_am op s =
     (case op of
        Op_Sdu now buf is_retx \<Rightarrow> bind_res (handle_sdu_am now buf is_retx s) (\<lambda>(s, as). Inr s)
      | Op_Discard pdcp_sn \<Rightarrow> Inr (fst (discard_sdu_am pdcp_sn s))
      | Op_Pull sp grant \<Rightarrow> bind_res (pull_pdu_am sp grant s) (\<lambda>(pdu, st, s, as). Inr s)
      | Op_Buffer_State sp force \<Rightarrow> bind_res (update_mac_buffer_state_am sp force s) (\<lambda>(s, as). Inr s)
      | Op_Status_Changed \<Rightarrow> Inr (fst (on_status_report_changed s))
      | Op_Status sp p \<Rightarrow> bind_res (handle_status_pdu sp p s) (\<lambda>(s, as). Inr s)
      | Op_Poll_Expired sp \<Rightarrow>
          bind_res (on_expired_poll_retransmit_timer sp
            (s\<lparr>poll_retransmit_timer := timer_stop (poll_retransmit_timer s)\<rparr>)) (\<lambda>(s, as). Inr s)
      | Op_Stop \<Rightarrow> Inr (stop_tx_am s))"

text \<open>
  The obligations of the environment: SDUs are not empty and have at most \<open>max_am_sdu\<close> bytes, a discard names a
  possible PDCP SN, and the peer does not report an SDU missing that was never sent.
\<close>

definition tx_am_allowed :: "tx_am_op \<Rightarrow> rlc_tx_am_entity \<Rightarrow> bool" where
  "tx_am_allowed op s =
     (case op of
        Op_Sdu now buf is_retx \<Rightarrow> am_sdu_ok buf
      | Op_Discard pdcp_sn \<Rightarrow> pdcp_sn < STATE_DISCARDED
      | Op_Status sp p \<Rightarrow> status_peer_ok p s
      | _ \<Rightarrow> True)"

inductive tx_am_reach :: "rlc_tx_am_config \<Rightarrow> bool \<Rightarrow> rlc_tx_am_entity \<Rightarrow> bool" for cfg is_srb where
  tx_am_new: "new_tx_am cfg is_srb = Inr s \<Longrightarrow> tx_am_reach cfg is_srb s"
| tx_am_op: "tx_am_reach cfg is_srb s \<Longrightarrow> tx_am_allowed op s \<Longrightarrow> exec_tx_am op s = Inr s' \<Longrightarrow> tx_am_reach cfg is_srb s'"

definition tx_am_cfg_ok :: "rlc_tx_am_config \<Rightarrow> bool" where
  "tx_am_cfg_ok cfg \<longleftrightarrow> 0 < txam_queue_size cfg \<and> txam_queue_size cfg < 2 ^ 32"

lemma new_tx_am_ok:
  assumes n: "new_tx_am cfg is_srb = Inr s" and c: "tx_am_cfg_ok cfg"
  shows "tam_inv s" "tam_cfg s = cfg"
proof -
  let ?z = "txam_sn_field_length cfg"
  obtain j where j: "sn_half ?z = 2 ^ j" by (rule sn_half_power)
  have f: "tam_cfg s = cfg" "tx_next_ack s = 0" "tx_next s = 0" "sn_under_segmentation s = INVALID_RLC_SN"
    "retx_queue s = new_retx_queue (sn_half ?z)" "tam_mod s = sn_mod ?z" "unat (tam_window_size s) = sn_half ?z"
    "tx_window s = new_circular_map (sn_half ?z)" "head_min_size s = rlc_am_pdu_header_min_size ?z"
    "head_max_size s = rlc_am_pdu_header_max_size ?z" "poll_retransmit_timer s = new_timer (txam_t_poll_retx cfg)"
    "tam_queue s = new_sdu_queue (of_nat (txam_queue_size cfg)) (of_nat (txam_queue_size_bytes cfg))"
    using n by (auto simp: new_tx_am_def Let_def bind_res_Inr_iff sn_half_def)
  show "tam_cfg s = cfg" by (rule f(1))
  have z: "tam_z s = ?z" by (simp add: tam_z_def f)
  have cap: "(of_nat (txam_queue_size cfg) :: u32) > 0"
    using c by (simp add: tx_am_cfg_ok_def word_greater_zero_iff word_unat_eq_iff unsigned_of_nat take_bit_nat_eq_self)
  have "tam_wf s"
    unfolding tam_wf_def z using q_inv_new [OF cap, of "of_nat (txam_queue_size_bytes cfg)"] by (simp add: f)
  moreover have "tam_win s"
  proof -
    have "0 < sn_mod ?z" by (simp add: cardinality_am split: rlc_am_sn_size.split)
    moreover have "cm_wf (new_circular_map (2 ^ j) :: rlc_tx_am_sdu_info sdu_window)" by (rule cm_wf_new)
    ultimately show ?thesis unfolding tam_win_def z twin_ok_def by (simp add: f j tx_key_def)
  qed
  moreover have "retx_ok (tam_z s) (tx_window s) (retx_queue s)"
    unfolding z retx_ok_def using retx_inv_new [of "sn_half ?z"] sn_half_cases [of ?z] by (auto simp: f new_retx_queue_def)
  ultimately show "tam_inv s" by (rule tam_invI)
qed

lemma tam_inv_timer: "tam_inv s \<Longrightarrow> tam_inv (s\<lparr>poll_retransmit_timer := timer_stop (poll_retransmit_timer s)\<rparr>)"
  by (simp add: tam_inv_def tam_wf_def tam_win_def)

lemma tam_inv_stopped [simp]:
  "tam_inv (s\<lparr>stopped_upper := b\<rparr>) = tam_inv s" "tam_inv (s\<lparr>stopped_lower := b\<rparr>) = tam_inv s"
  by (simp_all add: tam_inv_def tam_wf_def tam_win_def)

lemma stop_tx_am_inv: "tam_inv s \<Longrightarrow> tam_inv (stop_tx_am s)"
  using tam_inv_timer [of "s\<lparr>stopped_upper := True, stopped_lower := True\<rparr>"] by (simp add: stop_tx_am_def stop_lower_am_def)

lemma handle_status_any:
  assumes "tam_inv s" "status_peer_ok p s"
  obtains s' as where "handle_status_pdu sp p s = Inr (s', as)" "tam_inv s'"
proof (cases "status_accepted p s")
  case True
  show thesis by (rule handle_status_ok [OF assms(1) True assms(2), of sp]) (rule that)
next
  case False
  then show thesis using handle_status_rejected [OF False, of sp] that assms(1) by auto
qed

text \<open>Every allowed operation succeeds and keeps the invariant.\<close>

lemma exec_tx_am_ok:
  assumes inv: "tam_inv s" and al: "tx_am_allowed op s"
  shows "\<exists>s'. exec_tx_am op s = Inr s' \<and> tam_inv s'"
proof (cases op)
  case (Op_Sdu now buf is_retx)
  then have b: "am_sdu_ok buf" using al by (simp add: tx_am_allowed_def)
  obtain s' as where "handle_sdu_am now buf is_retx s = Inr (s', as)" "tam_inv s'" by (rule handle_sdu_am_ok [OF inv b])
  then show ?thesis by (simp add: Op_Sdu exec_tx_am_def)
next
  case (Op_Discard sn)
  then show ?thesis using discard_sdu_am_ok [OF inv, of sn] al by (simp add: exec_tx_am_def tx_am_allowed_def)
next
  case (Op_Pull sp grant)
  obtain pdu st s' as where "pull_pdu_am sp grant s = Inr (pdu, st, s', as)" "tam_inv s'"
    by (rule pull_pdu_am_ok [OF inv, of sp grant]) (rule that)
  then show ?thesis by (simp add: Op_Pull exec_tx_am_def)
next
  case (Op_Buffer_State sp force)
  obtain s' as where "update_mac_buffer_state_am sp force s = Inr (s', as)" "tam_inv s'"
    by (rule update_mac_buffer_state_am_ok [OF inv, of sp force]) (rule that)
  then show ?thesis by (simp add: Op_Buffer_State exec_tx_am_def)
next
  case Op_Status_Changed
  then show ?thesis using inv by (simp add: exec_tx_am_def on_status_report_changed_def changed_buffer_state_inv)
next
  case (Op_Status sp p)
  then have "status_peer_ok p s" using al by (simp add: tx_am_allowed_def)
  from handle_status_any [OF inv this, of sp] obtain s' as where "handle_status_pdu sp p s = Inr (s', as)" "tam_inv s'" .
  then show ?thesis by (simp add: Op_Status exec_tx_am_def)
next
  case (Op_Poll_Expired sp)
  obtain s' as where "on_expired_poll_retransmit_timer sp (s\<lparr>poll_retransmit_timer := timer_stop (poll_retransmit_timer s)\<rparr>) =
      Inr (s', as)" "tam_inv s'"
    by (rule poll_expired_ok [OF tam_inv_timer [OF inv], of sp]) (rule that)
  then show ?thesis by (simp add: Op_Poll_Expired exec_tx_am_def)
next
  case Op_Stop
  then show ?thesis using stop_tx_am_inv [OF inv] by (simp add: exec_tx_am_def)
qed

lemma tx_am_reach_inv: "tx_am_reach cfg is_srb s \<Longrightarrow> tx_am_cfg_ok cfg \<Longrightarrow> tam_inv s"
proof (induction rule: tx_am_reach.induct)
  case (tx_am_new s)
  then show ?case by (rule new_tx_am_ok)
next
  case (tx_am_op s op s')
  then show ?case using exec_tx_am_ok [of s op] by auto
qed

section \<open>Safety and the window\<close>

definition sample_tx_am_cfg :: rlc_tx_am_config where
  "sample_tx_am_cfg = \<lparr>txam_sn_field_length = Am_Size12bits, txam_pdcp_sn_len = Pdcp_Size12bits, txam_t_poll_retx = 45,
     txam_max_retx_thresh = 4, txam_poll_pdu = 4, txam_poll_byte = 25, txam_queue_size = 8, txam_queue_size_bytes = 1000,
     txam_max_window = 0\<rparr>"

lemma sample_tx_am: "\<exists>s. new_tx_am sample_tx_am_cfg False = Inr s" "tx_am_cfg_ok sample_tx_am_cfg"
  by (simp_all add: new_tx_am_def sample_tx_am_cfg_def srsran_assert_def Let_def tx_am_cfg_ok_def)

text \<open>
  C6. The transmitting AM entity never fails an assertion, never looks up a missing SDU and never runs out of
  a loop bound: in every state that a history of SDUs, discards, grants of any size, buffer state reports,
  status PDUs, expiries of t-PollRetransmit and stops reaches, every further operation returns. The
  environment keeps to nonempty SDUs of at most 16383 bytes, and the peer does not acknowledge past TX\_Next
  without an SDU under segmentation.
\<close>

theorem tx_am_never_faults:
  assumes "tx_am_reach cfg is_srb s" "tx_am_cfg_ok cfg" "tx_am_allowed op s"
  shows "\<exists>s'. exec_tx_am op s = Inr s' \<and> tx_am_reach cfg is_srb s'"
proof -
  obtain s' where "exec_tx_am op s = Inr s'" using exec_tx_am_ok [OF tx_am_reach_inv [OF assms(1,2)] assms(3)] by blast
  then show ?thesis using tx_am_op [OF assms(1,3)] by blast
qed

theorem tx_am_never_faults_witness:
  "\<exists>s s1 s2. new_tx_am sample_tx_am_cfg False = Inr s \<and> exec_tx_am (Op_Sdu 1 [0x80, 7, 1, 2, 3] False) s = Inr s1 \<and>
     exec_tx_am (Op_Pull \<lparr>sp_required = False, sp_length = 0, sp_status = new_status_pdu Am_Size12bits\<rparr> 5) s1 = Inr s2"
proof -
  obtain s where s: "new_tx_am sample_tx_am_cfg False = Inr s" using sample_tx_am(1) by blast
  have "tx_am_allowed (Op_Sdu 1 [0x80, 7, 1, 2, 3] False) s" by (simp add: tx_am_allowed_def am_sdu_ok_def max_am_sdu_def)
  from tx_am_never_faults [OF tx_am_new [OF s] sample_tx_am(2) this]
  obtain s1 where s1: "exec_tx_am (Op_Sdu 1 [0x80, 7, 1, 2, 3] False) s = Inr s1" "tx_am_reach sample_tx_am_cfg False s1" by blast
  have "tx_am_allowed (Op_Pull \<lparr>sp_required = False, sp_length = 0, sp_status = new_status_pdu Am_Size12bits\<rparr> 5) s1"
    by (simp add: tx_am_allowed_def)
  from tx_am_never_faults [OF s1(2) sample_tx_am(2) this] s s1(1) show ?thesis by blast
qed

text \<open>
  C13. The transmit window of a reachable state holds exactly the SNs from TX\_Next\_Ack up to TX\_Next, and TX\_Next
  itself while its SDU is under segmentation; there are at most as many as the window size, half of the SN space. An
  SDU under segmentation is partly sent. Every queued retransmission is a nonempty range of bytes of an SDU of
  the window.
\<close>

theorem tx_am_window:
  assumes "tx_am_reach cfg is_srb s" "tx_am_cfg_ok cfg"
  shows "(\<forall>x. has_sn (tx_window s) x \<longleftrightarrow> x < tam_mod s \<and>
       (tx_mod_base s x < tx_mod_base s (tx_next s) \<or> sn_under_segmentation s \<noteq> INVALID_RLC_SN \<and> x = tx_next s)) \<and>
     tx_mod_base s (tx_next s) \<le> tam_window_size s \<and>
     (sn_under_segmentation s \<noteq> INVALID_RLC_SN \<longrightarrow> sn_under_segmentation s = tx_next s \<and>
        0 < tx_progress s \<and> tx_progress s < length (the (tx_sdu (tx_window s) (tx_next s)))) \<and>
     (\<forall>r \<in> set (retx_view (retx_queue s)). \<exists>b. tx_sdu (tx_window s) (rtx_sn r) = Some b \<and>
        0 < unat (rtx_length r) \<and> unat (rtx_so r) + unat (rtx_length r) \<le> length b)"
proof -
  have inv: "tam_inv s" by (rule tx_am_reach_inv [OF assms])
  note wf = tam_invD(1) [OF inv] note d = twin_okD [OF tam_invD(3) [OF inv]]
  have "has_sn (tx_window s) x \<longleftrightarrow> x < tam_mod s \<and>
       (tx_mod_base s x < tx_mod_base s (tx_next s) \<or> sn_under_segmentation s \<noteq> INVALID_RLC_SN \<and> x = tx_next s)" for x
    using d(7) [of x] by (simp add: has_sn_lookup tx_key_def tx_base [OF wf] tam_wfD(1) [OF wf])
  moreover have "tx_mod_base s (tx_next s) \<le> tam_window_size s"
    using d(5) by (simp add: word_le_nat_alt unat_tx_mod_base [OF wf] tam_wfD(2) [OF wf])
  moreover have "sn_under_segmentation s = tx_next s \<and>
        0 < tx_progress s \<and> tx_progress s < length (the (tx_sdu (tx_window s) (tx_next s)))"
    if seg: "sn_under_segmentation s \<noteq> INVALID_RLC_SN"
  proof -
    have "cm_lookup (tx_window s) (tx_next s) \<noteq> None" using d(4) d(7) [of "tx_next s"] seg by (simp add: tx_key_def)
    then obtain info where "cm_lookup (tx_window s) (tx_next s) = Some info" by auto
    then show ?thesis using d(6) d(9) seg by (simp add: tx_progress_def tx_sdu_def)
  qed
  moreover have "\<exists>b. tx_sdu (tx_window s) (rtx_sn r) = Some b \<and> 0 < unat (rtx_length r) \<and>
      unat (rtx_so r) + unat (rtx_length r) \<le> length b" if "r \<in> set (retx_view (retx_queue s))" for r
    using tam_invD(4) [OF inv] that by (simp add: retx_ok_def retx_in_def)
  ultimately show ?thesis by blast
qed

text \<open>A history of the sample: one SDU is accepted and its first segment is sent.\<close>

definition sample_sp :: status_provider where
  "sample_sp = \<lparr>sp_required = False, sp_length = 0, sp_status = new_status_pdu Am_Size12bits\<rparr>"

definition run_tx_am :: "tx_am_op list \<Rightarrow> rlc_tx_am_entity res" where
  "run_tx_am ops = foldl (\<lambda>r op. bind_res r (exec_tx_am op)) (new_tx_am sample_tx_am_cfg False) ops"

fun tx_am_allowed_all :: "tx_am_op list \<Rightarrow> rlc_tx_am_entity \<Rightarrow> bool" where
  "tx_am_allowed_all [] s = True"
| "tx_am_allowed_all (op # ops) s = (tx_am_allowed op s \<and> (case exec_tx_am op s of Inl e \<Rightarrow> False | Inr s' \<Rightarrow> tx_am_allowed_all ops s'))"

lemma run_tx_am_reach:
  assumes "case new_tx_am sample_tx_am_cfg False of Inl e \<Rightarrow> False | Inr s \<Rightarrow> tx_am_allowed_all ops s"
  obtains s where "run_tx_am ops = Inr s" "tx_am_reach sample_tx_am_cfg False s"
proof -
  obtain s0 where s0: "new_tx_am sample_tx_am_cfg False = Inr s0" using sample_tx_am(1) by blast
  have "\<exists>s. foldl (\<lambda>r op. bind_res r (exec_tx_am op)) (Inr s1) ops = Inr s \<and> tx_am_reach sample_tx_am_cfg False s"
    if "tx_am_allowed_all ops s1" "tx_am_reach sample_tx_am_cfg False s1" for s1 ops
    using that
  proof (induction ops arbitrary: s1)
    case (Cons op ops)
    then obtain s2 where "exec_tx_am op s1 = Inr s2" "tx_am_allowed op s1" "tx_am_allowed_all ops s2" by (auto split: sum.splits)
    then show ?case using Cons.IH [of s2] tx_am_op [OF Cons.prems(2)] by simp
  qed simp
  then show thesis using that assms tx_am_new [OF s0] s0 by (auto simp: run_tx_am_def)
qed

theorem tx_am_window_witness:
  "\<exists>s. run_tx_am [Op_Sdu 1 [0x80, 7, 1, 2, 3] False, Op_Pull sample_sp 5] = Inr s \<and>
     (has_sn (tx_window s) 0 \<longleftrightarrow> 0 < tam_mod s \<and>
       (tx_mod_base s 0 < tx_mod_base s (tx_next s) \<or> sn_under_segmentation s \<noteq> INVALID_RLC_SN \<and> 0 = tx_next s))"
proof -
  have "case new_tx_am sample_tx_am_cfg False of Inl e \<Rightarrow> False
      | Inr s \<Rightarrow> tx_am_allowed_all [Op_Sdu 1 [0x80, 7, 1, 2, 3] False, Op_Pull sample_sp 5] s" by code_simp
  from run_tx_am_reach [OF this] obtain s where
    "run_tx_am [Op_Sdu 1 [0x80, 7, 1, 2, 3] False, Op_Pull sample_sp 5] = Inr s" "tx_am_reach sample_tx_am_cfg False s" .
  with tx_am_window [OF this(2) sample_tx_am(2)] show ?thesis by blast
qed

section \<open>Grants\<close>

text \<open>
  C10. What a grant of the MAC is answered with when no status report is due. A PDU that is sent fits the
  grant; the receiver parses a header from it that names an SDU of the window, and the payload are the bytes
  of that SDU at the offset of the header, as the segmentation information says. They are the next bytes of
  the retransmission at the front of the queue or, if there is none, the next bytes of the SDU with SN TX\_Next,
  which is taken from the SDU queue unless it is under segmentation. If afterwards both buffers are empty by the
  test of the code (\<open>tx_idle\<close>, which counts a discarded SDU that is still in the queue), the PDU
  has its poll bit set and leaves t-PollRetransmit running; a last PDU behind which only discarded SDUs wait need
  not poll, see \<open>tx_am_discard_no_poll\<close>. Nothing is sent only if the entity reached
  the maximum of retransmissions, the grant is not longer than a header, or there is nothing to send within the
  window.
\<close>

theorem pull_pdu_am_correct:
  assumes "tx_am_reach cfg is_srb s" "tx_am_cfg_ok cfg" "\<not> sp_required sp" "pull_pdu_am sp grant s = Inr (pdu, st, s', as)"
  shows "if pdu = [] then max_retx_reached s \<or> grant \<le> head_max_size s \<or> tx_done s
    else length pdu \<le> grant \<and>
      (\<exists>h b payload. rlc_am_read_data_pdu_header pdu (tam_z s) empty_am_header = Some h \<and>
         payload = drop (am_header_packed_size h) pdu \<and> payload \<noteq> [] \<and>
         tx_sdu (tx_window s') (am_sn h) = Some b \<and> unat (am_so h) + length payload \<le> length b \<and>
         payload = take (length payload) (drop (unat (am_so h)) b) \<and>
         am_si h = si_of_cut (unat (am_so h)) (length payload) (length b) \<and>
         (sends_retx s s' (am_sn h) (unat (am_so h)) (length payload) \<or>
          sends_new s s' (am_sn h) (unat (am_so h)) (length payload) b) \<and>
         (tx_idle s' \<longrightarrow> am_p h = 1 \<and>
           (0 < txam_t_poll_retx (tam_cfg s) \<and> \<not> stopped_lower s \<longrightarrow> is_running (poll_retransmit_timer s'))))"
proof -
  have inv: "tam_inv s" by (rule tx_am_reach_inv [OF assms(1,2)])
  obtain pdu' st' s1 as1 where p: "pull_pdu_am sp grant s = Inr (pdu', st', s1, as1)"
    "max_retx_reached s \<longrightarrow> pdu' = [] \<and> st' = None \<and> s1 = s"
    "\<not> max_retx_reached s \<longrightarrow> \<not> sp_required sp \<longrightarrow> st' = None \<and> pull_post grant s pdu' s1"
    by (rule pull_pdu_am_ok [OF inv, of sp grant]) (rule that)
  then have eq: "pdu' = pdu" "s1 = s'" using assms(4) by simp_all
  show ?thesis
  proof (cases "pdu = []")
    case True
    then show ?thesis using p(2,3) assms(3) eq by (auto simp: pull_post_def)
  next
    case False
    then have "sends grant s pdu s'" using p(2,3) assms(3) eq by (auto simp: pull_post_def)
    then obtain sn p so n b where k: "pdu = am_cut_pdu (tam_z s) sn p so n b" "sn < sn_mod (tam_z s)" "p \<le> 1"
      "0 < n" "so + n \<le> length b" "length b \<le> max_am_sdu" "tx_sdu (tx_window s') sn = Some b"
      "n + (if so = 0 then head_min_size s else head_max_size s) \<le> grant"
      "sends_retx s s' sn so n \<or> sends_new s s' sn so n b"
      "tx_idle s' \<longrightarrow> p = 1 \<and> (0 < txam_t_poll_retx (tam_cfg s) \<longrightarrow> \<not> stopped_lower s \<longrightarrow> is_running (poll_retransmit_timer s'))"
      unfolding sends_def by (elim exE conjE) (rule that)
    have so: "so \<le> max_am_sdu" using k(5,6) by simp
    note wf = tam_invD(1) [OF inv]
    have len: "length pdu \<le> grant"
      using am_cut_pdu_length [OF k(2,3,6,5)] k(8) tam_wfD(3,4) [OF wf] unfolding k(1) by (cases "so = 0") simp_all
    note rd = am_cut_pdu_read [OF k(2,3) so k(4,5)]
    let ?h = "am_cut_header (tam_z s) sn p so n (length b)"
    have pay: "length (take n (drop so b)) = n" "take n (drop so b) \<noteq> []" using k(4,5) by auto
    have h: "am_sn ?h = sn" "unat (am_so ?h) = so" "am_si ?h = si_of_cut so n (length b)" "am_p ?h = p"
      using of_nat_so [OF so] by (simp_all add: am_cut_header_def)
    have "\<exists>h b payload. rlc_am_read_data_pdu_header pdu (tam_z s) empty_am_header = Some h \<and>
         payload = drop (am_header_packed_size h) pdu \<and> payload \<noteq> [] \<and>
         tx_sdu (tx_window s') (am_sn h) = Some b \<and> unat (am_so h) + length payload \<le> length b \<and>
         payload = take (length payload) (drop (unat (am_so h)) b) \<and>
         am_si h = si_of_cut (unat (am_so h)) (length payload) (length b) \<and>
         (sends_retx s s' (am_sn h) (unat (am_so h)) (length payload) \<or>
          sends_new s s' (am_sn h) (unat (am_so h)) (length payload) b) \<and>
         (tx_idle s' \<longrightarrow> am_p h = 1 \<and>
           (0 < txam_t_poll_retx (tam_cfg s) \<and> \<not> stopped_lower s \<longrightarrow> is_running (poll_retransmit_timer s')))"
      by (rule exI [of _ ?h], rule exI [of _ b], rule exI [of _ "take n (drop so b)"])
        (use rd k(1,5,7,9,10) pay in \<open>simp only: h pay, simp\<close>)
    then show ?thesis using False len by simp
  qed
qed

theorem pull_pdu_am_correct_witness:
  "\<exists>s pdu st s' as. run_tx_am [Op_Sdu 1 [0x80, 7, 1, 2, 3] False] = Inr s \<and>
     pull_pdu_am sample_sp 6 s = Inr (pdu, st, s', as) \<and> pdu = [0x90, 0, 0x80, 7, 1, 2] \<and> length pdu \<le> 6"
proof -
  have "case new_tx_am sample_tx_am_cfg False of Inl e \<Rightarrow> False
      | Inr s \<Rightarrow> tx_am_allowed_all [Op_Sdu 1 [0x80, 7, 1, 2, 3] False] s" by code_simp
  from run_tx_am_reach [OF this] obtain s where
    s: "run_tx_am [Op_Sdu 1 [0x80, 7, 1, 2, 3] False] = Inr s" "tx_am_reach sample_tx_am_cfg False s" .
  have "(case run_tx_am [Op_Sdu 1 [0x80, 7, 1, 2, 3] False] of Inl e \<Rightarrow> None
     | Inr s \<Rightarrow> (case pull_pdu_am sample_sp 6 s of Inl e \<Rightarrow> None | Inr r \<Rightarrow> Some (fst r))) = Some [0x90, 0, 0x80, 7, 1, 2]"
    by code_simp
  then obtain r where "pull_pdu_am sample_sp 6 s = Inr r" "fst r = [0x90, 0, 0x80, 7, 1, 2]"
    unfolding s(1) by (auto split: sum.splits)
  then obtain st s' as where r: "pull_pdu_am sample_sp 6 s = Inr ([0x90, 0, 0x80, 7, 1, 2], st, s', as)" by (metis prod.collapse)
  have "\<not> sp_required sample_sp" by (simp add: sample_sp_def)
  from pull_pdu_am_correct [OF s(2) sample_tx_am(2) this r] show ?thesis using s(1) r by auto
qed

section \<open>The backlog is sent\<close>

text \<open>The bytes that are still to be sent.\<close>

definition tx_backlog :: "rlc_tx_am_entity \<Rightarrow> nat" where
  "tx_backlog s = sdu_bytes (q_view (tam_queue s)) + retx_total (retx_view (retx_queue s)) +
     (if sn_under_segmentation s = INVALID_RLC_SN then 0
      else length (the (tx_sdu (tx_window s) (tx_next s))) - tx_progress s)"

text \<open>A number of grants of the same size.\<close>

fun drain :: "nat \<Rightarrow> status_provider \<Rightarrow> nat \<Rightarrow> rlc_tx_am_entity \<Rightarrow> (byte_buffer list \<times> rlc_tx_am_entity) res" where
  "drain 0 sp grant s = Inr ([], s)"
| "drain (Suc k) sp grant s =
     bind_res (pull_pdu_am sp grant s) (\<lambda>(pdu, st, s, as).
     bind_res (drain k sp grant s) (\<lambda>(pdus, s). Inr (pdu # pdus, s)))"

lemma sends_retx_backlog:
  assumes "sends_retx s s' sn so n" "0 < n"
  shows "tx_backlog s' < tx_backlog s"
proof -
  obtain r rest where r: "retx_view (retx_queue s) = r # rest" "n \<le> unat (rtx_length r)"
    "retx_view (retx_queue s') = (if n = unat (rtx_length r) then rest
       else r\<lparr>rtx_so := rtx_so r + of_nat n, rtx_length := rtx_length r - of_nat n\<rparr> # rest)"
    using assms(1) by (auto simp: sends_retx_def)
  have "n < 2 ^ 32" using r(2) unsigned_less [of "rtx_length r"] by (rule le_less_trans [OF _ less_le_trans]) simp
  then have "unat (of_nat n :: u32) = n" by (simp add: unsigned_of_nat take_bit_nat_eq_self)
  then have "unat (rtx_length r - of_nat n) = unat (rtx_length r) - n" using r(2) by (simp add: unat_sub word_le_nat_alt)
  then have "retx_total (retx_view (retx_queue s')) < retx_total (retx_view (retx_queue s))"
    using r assms(2) by (simp add: retx_total_def)
  moreover have "tx_progress s' = tx_progress s" using assms(1) by (simp add: sends_retx_def tx_progress_def)
  ultimately show ?thesis using assms(1) by (simp add: tx_backlog_def sends_retx_def)
qed

lemma sends_new_backlog:
  assumes "sends_new s s' sn so n b" "0 < n" "so + n \<le> length b" "tx_next s \<noteq> INVALID_RLC_SN"
  shows "tx_backlog s' < tx_backlog s"
proof -
  have v: "retx_view (retx_queue s) = []" "retx_view (retx_queue s') = []" "so = tx_progress s"
    "tx_sdu (tx_window s') (tx_next s) = Some b"
    using assms(1) by (auto simp: sends_new_def)
  have rest: "(if sn_under_segmentation s' = INVALID_RLC_SN then 0
      else length (the (tx_sdu (tx_window s') (tx_next s'))) - tx_progress s') = length b - (so + n)"
    using assms v by (auto simp: sends_new_def split: if_splits)
  show ?thesis
  proof (cases "sn_under_segmentation s = INVALID_RLC_SN")
    case True
    then obtain sdu where "q_view (tam_queue s) = sdu # q_view (tam_queue s')" "sdu_buf sdu = b"
      using assms(1) by (auto simp: sends_new_def)
    moreover have "so = 0" using v(3) True by (simp add: tx_progress_def)
    ultimately show ?thesis using rest v assms(2,3) True by (simp add: tx_backlog_def sdu_bytes_def)
  next
    case False
    then have "tam_queue s' = tam_queue s" "tx_sdu (tx_window s) (tx_next s) = Some b" using assms(1) by (auto simp: sends_new_def)
    then show ?thesis using rest v assms(2,3) False by (simp add: tx_backlog_def)
  qed
qed

lemma sends_backlog: "tam_inv s \<Longrightarrow> sends grant s pdu s' \<Longrightarrow> tx_backlog s' < tx_backlog s"
proof -
  assume inv: "tam_inv s" and "sends grant s pdu s'"
  then obtain sn so n b where "0 < n" "so + n \<le> length b" "sends_retx s s' sn so n \<or> sends_new s s' sn so n b"
    unfolding sends_def by blast
  moreover have "tx_next s \<noteq> INVALID_RLC_SN" using twin_okD(4) [OF tam_invD(3) [OF inv]] by (rule sn_valid)
  ultimately show ?thesis using sends_retx_backlog sends_new_backlog by blast
qed

definition polls :: "rlc_am_sn_size \<Rightarrow> byte_buffer \<Rightarrow> bool" where
  "polls z pdu \<longleftrightarrow> (case rlc_am_read_data_pdu_header pdu z empty_am_header of None \<Rightarrow> False | Some h \<Rightarrow> am_p h = 1)"

lemma sends_polls: "sends grant s pdu s' \<Longrightarrow> tx_idle s' \<Longrightarrow> polls (tam_z s) pdu"
proof -
  assume s: "sends grant s pdu s'" and i: "tx_idle s'"
  obtain sn p so n b where k: "pdu = am_cut_pdu (tam_z s) sn p so n b" "sn < sn_mod (tam_z s)" "p \<le> 1"
      "0 < n" "so + n \<le> length b" "length b \<le> max_am_sdu" "p = 1"
    using s i unfolding sends_def by blast
  then have "so \<le> max_am_sdu" by simp
  from am_cut_pdu_read(1) [OF k(2,3) this k(4,5)] show ?thesis using k(7) unfolding k(1)
    by (simp add: polls_def am_cut_header_def)
qed

lemma drain_ok:
  assumes "tam_inv s" "\<not> sp_required sp" "head_max_size s < grant"
  shows "\<exists>k pdus s'. k \<le> tx_backlog s \<and> drain k sp grant s = Inr (pdus, s') \<and> [] \<notin> set pdus \<and>
    (max_retx_reached s' \<or> tx_done s') \<and> (pdus \<noteq> [] \<longrightarrow> tx_idle s' \<longrightarrow> polls (tam_z s) (last pdus))"
  using assms
proof (induction "tx_backlog s" arbitrary: s rule: less_induct)
  case less
  obtain pdu st s1 as where p: "pull_pdu_am sp grant s = Inr (pdu, st, s1, as)"
    "\<not> max_retx_reached s \<longrightarrow> \<not> sp_required sp \<longrightarrow> st = None \<and> pull_post grant s pdu s1" "tam_inv s1" "tam_cfg s1 = tam_cfg s"
    by (rule pull_pdu_am_ok [OF less.prems(1), of sp grant]) (rule that)
  show ?case
  proof (cases "max_retx_reached s \<or> tx_done s")
    case True
    then show ?thesis by (intro exI [of _ 0] exI [of _ "[]"] exI [of _ s]) simp
  next
    case False
    then have "pdu \<noteq> []" "sends grant s pdu s1" using p(2) less.prems(2,3) by (auto simp: pull_post_def split: if_splits)
    note snd = sends_backlog [OF less.prems(1) this(2)]
    have z: "tam_z s1 = tam_z s" by (simp add: tam_z_def p(4))
    have "head_max_size s1 = head_max_size s"
      using tam_wfD(4) [OF tam_invD(1) [OF p(3)]] tam_wfD(4) [OF tam_invD(1) [OF less.prems(1)]] z by simp
    then obtain k pdus s' where r: "k \<le> tx_backlog s1" "drain k sp grant s1 = Inr (pdus, s')" "[] \<notin> set pdus"
      "max_retx_reached s' \<or> tx_done s'" "pdus \<noteq> [] \<longrightarrow> tx_idle s' \<longrightarrow> polls (tam_z s) (last pdus)"
      using less.hyps [OF snd p(3) less.prems(2)] less.prems(3) z by auto
    have "drain (Suc k) sp grant s = Inr (pdu # pdus, s')" using p(1) r(2) by simp
    moreover have "tx_idle s' \<longrightarrow> polls (tam_z s) (last (pdu # pdus))"
    proof (cases "pdus = []")
      case True
      then have "s' = s1" using r(2) by (cases k) (auto simp: bind_res_Inr_iff)
      then show ?thesis using sends_polls [OF \<open>sends grant s pdu s1\<close>] True by simp
    qed (use r(5) in simp)
    ultimately show ?thesis
      using r(1,3,4) snd \<open>pdu \<noteq> []\<close> by (intro exI [of _ "Suc k"] exI [of _ "pdu # pdus"] exI [of _ s']) simp
  qed
qed

text \<open>
  C15. The backlog is sent after finitely many grants: if no status report is due, at most as many grants as
  there are bytes to send, each longer than a header, lead to a state in which there is no retransmission and no
  SDU under segmentation left and the queue is empty or the window full, or in which the maximum number of
  retransmissions was reached. Every one of these grants is used. If at the end both buffers are empty by the test of
  the code (\<open>tx_idle\<close>, which counts discarded SDUs that are still in the queue), the last PDU polls the peer.
\<close>

theorem tx_am_drains:
  assumes "tx_am_reach cfg is_srb s" "tx_am_cfg_ok cfg" "\<not> sp_required sp" "head_max_size s < grant"
  shows "\<exists>k pdus s'. k \<le> tx_backlog s \<and> drain k sp grant s = Inr (pdus, s') \<and> [] \<notin> set pdus \<and>
    (max_retx_reached s' \<or> tx_done s') \<and> (pdus \<noteq> [] \<longrightarrow> tx_idle s' \<longrightarrow> polls (tam_z s) (last pdus))"
  by (rule drain_ok [OF tx_am_reach_inv [OF assms(1,2)] assms(3,4)])

theorem tx_am_drains_witness:
  "\<exists>s k pdus s'. run_tx_am [Op_Sdu 1 [0x80, 7, 1, 2, 3] False] = Inr s \<and>
     k \<le> tx_backlog s \<and> drain k sample_sp 5 s = Inr (pdus, s') \<and> (max_retx_reached s' \<or> tx_done s')"
proof -
  have "case new_tx_am sample_tx_am_cfg False of Inl e \<Rightarrow> False
      | Inr s \<Rightarrow> tx_am_allowed_all [Op_Sdu 1 [0x80, 7, 1, 2, 3] False] s" by code_simp
  from run_tx_am_reach [OF this] obtain s where
    s: "run_tx_am [Op_Sdu 1 [0x80, 7, 1, 2, 3] False] = Inr s" "tx_am_reach sample_tx_am_cfg False s" .
  have "(case run_tx_am [Op_Sdu 1 [0x80, 7, 1, 2, 3] False] of Inl e \<Rightarrow> 9 | Inr s \<Rightarrow> head_max_size s) = 4" by code_simp
  then have "head_max_size s < 5" unfolding s(1) by simp
  moreover have "\<not> sp_required sample_sp" by (simp add: sample_sp_def)
  ultimately show ?thesis using tx_am_drains [OF s(2) sample_tx_am(2)] s(1) by blast
qed

section \<open>Status PDUs\<close>

text \<open>
  C9. A status PDU that is accepted: TX\_Next\_Ack moves to the SN of the first NACK, or to ACK\_SN if there is none, and exactly the
  SDUs below it leave the window; an SDU above the first NACK stays, also if the status PDU acknowledges it. The upper layer is notified of
  the last delivered PDCP SN among the removed ones, for first
  transmissions and for retransmissions; the MAC gets a new buffer state. The retransmissions that were queued
  are replaced: the bytes queued for retransmission are exactly the bytes that the status PDU
  reports missing of the SDUs in the window. This is for a status PDU that acknowledges nothing above TX\_Next, whose segment offsets
  lie within the SDUs, and whose NACKs the retransmission queue has room for.
\<close>

theorem tx_am_status_exact:
  assumes "tx_am_reach cfg is_srb s" "tx_am_cfg_ok cfg" "status_accepted p s" "status_peer_ok p s" "st_mod_nr p = tam_mod s"
    and "tx_mod_base s (ack_sn p) \<le> tx_mod_base s (tx_next s)"
    and "\<forall>n \<in> set (status_items (tam_z s) p). nack_fits_window (tx_window s) n"
    and "length (status_items (tam_z s) p) \<le> sn_half (tam_z s)"
  shows "\<exists>s' as bs. handle_status_pdu sp p s =
      Inr (s', delivered_actions (foldl note_delivered (None, None) (map (the \<circ> cm_lookup (tx_window s))
                 (sn_seq (tam_z s) (tx_next_ack s) (unat (tx_mod_base s (status_stop p)))))) @
               as @ [On_Buffer_State_Update bs]) \<and>
    status_post p s s' \<and> retx_cover (retx_queue s') = status_wants p s'"
proof -
  have inv: "tam_inv s" by (rule tx_am_reach_inv [OF assms(1,2)])
  note wf = tam_invD(1) [OF inv]
  obtain s' as bs where h: "handle_status_pdu sp p s =
      Inr (s', delivered_actions (foldl note_delivered (None, None) (map (the \<circ> cm_lookup (tx_window s))
        (sn_seq (tam_z s) (tx_next_ack s) (sn_pos (tam_z s) (tx_next_ack s) (status_stop p))))) @ as @ [On_Buffer_State_Update bs])"
    "status_post p s s'"
    "st_mod_nr p = tam_mod s \<longrightarrow> sn_pos (tam_z s) (tx_next_ack s) (ack_sn p) \<le> sn_pos (tam_z s) (tx_next_ack s) (tx_next s) \<longrightarrow>
     (\<forall>n \<in> set (status_items (tam_z s) p). nack_fits_window (tx_window s) n) \<longrightarrow>
     length (status_items (tam_z s) p) \<le> sn_half (tam_z s) \<longrightarrow> retx_cover (retx_queue s') = status_wants p s'"
    by (rule handle_status_ok [OF inv assms(3,4), of sp]) (rule that)
  have "retx_cover (retx_queue s') = status_wants p s'" using h(3) assms(5-8) tx_base(2) [OF wf] by simp
  then show ?thesis using h(1,2) unfolding unat_tx_mod_base [OF wf] by blast
qed

text \<open>The sample: an SDU is sent, and the peer reports its last three bytes missing.\<close>

definition sample_history :: "tx_am_op list" where
  "sample_history = [Op_Sdu 1 [0x80, 7, 1, 2, 3] False, Op_Pull sample_sp 50]"

definition sample_nack_status :: rlc_am_status_pdu where
  "sample_nack_status = (new_status_pdu Am_Size12bits)\<lparr>ack_sn := 1,
     nacks := [empty_nack\<lparr>nack_sn := 0, nack_has_so := True, so_start := 2, so_end := 4\<rparr>]\<rparr>"

definition sample_ok :: "rlc_tx_am_entity res \<Rightarrow> rlc_am_status_pdu \<Rightarrow> bool" where
  "sample_ok r p =
     (case r of Inl e \<Rightarrow> False
      | Inr s \<Rightarrow> status_accepted p s \<and> status_peer_ok p s \<and> st_mod_nr p = tam_mod s \<and>
          tx_mod_base s (ack_sn p) \<le> tx_mod_base s (tx_next s) \<and>
          list_all (nack_fits_window (tx_window s)) (status_items (tam_z s) p) \<and>
          length (status_items (tam_z s) p) \<le> sn_half (tam_z s))"

lemma sample_reach:
  obtains s where "run_tx_am sample_history = Inr s" "tx_am_reach sample_tx_am_cfg False s"
proof -
  have "case new_tx_am sample_tx_am_cfg False of Inl e \<Rightarrow> False | Inr s \<Rightarrow> tx_am_allowed_all sample_history s" by code_simp
  from run_tx_am_reach [OF this] that show thesis by blast
qed

theorem tx_am_status_exact_witness:
  "\<exists>s s' as. run_tx_am sample_history = Inr s \<and> handle_status_pdu sample_sp sample_nack_status s = Inr (s', as) \<and>
     status_post sample_nack_status s s' \<and> retx_cover (retx_queue s') = status_wants sample_nack_status s'"
proof -
  obtain s where s: "run_tx_am sample_history = Inr s" "tx_am_reach sample_tx_am_cfg False s" by (rule sample_reach)
  have "sample_ok (run_tx_am sample_history) sample_nack_status" by code_simp
  then have ok: "status_accepted sample_nack_status s" "status_peer_ok sample_nack_status s"
    "st_mod_nr sample_nack_status = tam_mod s" "tx_mod_base s (ack_sn sample_nack_status) \<le> tx_mod_base s (tx_next s)"
    "\<forall>n \<in> set (status_items (tam_z s) sample_nack_status). nack_fits_window (tx_window s) n"
    "length (status_items (tam_z s) sample_nack_status) \<le> sn_half (tam_z s)"
    unfolding s(1) by (simp_all add: sample_ok_def list_all_iff)
  from tx_am_status_exact [OF s(2) sample_tx_am(2) ok, of sample_sp] s(1) show ?thesis by blast
qed

section \<open>Buffer state and poll retransmission\<close>

text \<open>
  C35. The buffer state that a forced report gives to the MAC is exact, as long as the sum fits 32 bits: the
  bytes of every queued SDU with a minimum header each, the rest of the SDU under segmentation and every
  queued retransmission with the header each needs, and the status report if one is due. It is 0 only if there
  is nothing to send.
\<close>

theorem tx_am_buffer_state_exact:
  assumes "tx_am_reach cfg is_srb s" "tx_am_cfg_ok cfg" "tx_report sp s < 2 ^ 32"
  shows "\<exists>s' toa. update_mac_buffer_state_am sp True s =
      Inr (s', [On_Buffer_State_Update \<lparr>pending_bytes = tx_report sp s, hol_toa = toa\<rparr>]) \<and>
    (tx_report sp s = 0 \<longrightarrow> q_view (tam_queue s) = [] \<and> retx_view (retx_queue s) = [] \<and> sn_under_segmentation s = INVALID_RLC_SN)"
proof -
  have inv: "tam_inv s" by (rule tx_am_reach_inv [OF assms(1,2)])
  obtain s' as where u: "update_mac_buffer_state_am sp True s = Inr (s', as)"
    "tx_report sp s < 2 ^ 32 \<longrightarrow> True \<longrightarrow> (\<exists>toa. as = [On_Buffer_State_Update \<lparr>pending_bytes = tx_report sp s, hol_toa = toa\<rparr>])"
    by (rule update_mac_buffer_state_am_ok [OF inv, of sp True]) (rule that)
  have h: "0 < head_min_size s" "0 < head_max_size s"
    using tam_wfD(3,4) [OF tam_invD(1) [OF inv]] head_sizes [of "tam_z s"] by linarith+
  have "q_view (tam_queue s) = [] \<and> retx_view (retx_queue s) = [] \<and> sn_under_segmentation s = INVALID_RLC_SN"
    if z: "tx_report sp s = 0"
  proof (intro conjI)
    show "q_view (tam_queue s) = []" using z h by (simp add: tx_report_def)
    have "retx_report s = 0" using z by (simp add: tx_report_def)
    then show "retx_view (retx_queue s) = []"
      using h by (cases "retx_view (retx_queue s)") (auto simp: retx_report_def split: if_splits)
    show "sn_under_segmentation s = INVALID_RLC_SN"
    proof (rule ccontr)
      assume seg: "sn_under_segmentation s \<noteq> INVALID_RLC_SN"
      obtain info where "cm_lookup (tx_window s) (sn_under_segmentation s) = Some info" "sn_under_segmentation s = tx_next s"
        by (rule segment_report_exact [OF inv seg]) (rule that)
      then show False using z seg h by (simp add: tx_report_def segment_report_def tx_sdu_def)
    qed
  qed
  moreover obtain toa where "as = [On_Buffer_State_Update \<lparr>pending_bytes = tx_report sp s, hol_toa = toa\<rparr>]"
    using u(2) assms(3) by auto
  ultimately show ?thesis using u(1) by auto
qed

theorem tx_am_buffer_state_exact_witness:
  "\<exists>s s' toa. run_tx_am sample_history = Inr s \<and> tx_report sample_sp s < 2 ^ 32 \<and> update_mac_buffer_state_am sample_sp True s =
      Inr (s', [On_Buffer_State_Update \<lparr>pending_bytes = tx_report sample_sp s, hol_toa = toa\<rparr>])"
proof -
  obtain s where s: "run_tx_am sample_history = Inr s" "tx_am_reach sample_tx_am_cfg False s" by (rule sample_reach)
  have "(case run_tx_am sample_history of Inl e \<Rightarrow> False | Inr s \<Rightarrow> tx_report sample_sp s = 0)" by code_simp
  then have r: "tx_report sample_sp s < 2 ^ 32" unfolding s(1) by simp
  from tx_am_buffer_state_exact [OF s(2) sample_tx_am(2) r] s(1) r show ?thesis by blast
qed

lemma lookup_not_empty: "cm_wf w \<Longrightarrow> cm_lookup w x \<noteq> None \<Longrightarrow> \<not> empty_cm w"
proof
  assume w: "cm_wf w" "cm_lookup w x \<noteq> None" "empty_cm w"
  then have "get_circular_idx w x \<in> {i. cm_data w i \<noteq> None}" by (auto simp: cm_lookup_def split: option.splits)
  moreover have "card {i. cm_data w i \<noteq> None} = 0" using w(1,3) by (simp add: cm_wf_def empty_cm_def)
  ultimately show False using finite_slots [OF w(1)] by auto
qed

text \<open>
  C16. An SDU that waits for its acknowledgement is not forgotten: when t-PollRetransmit expires while nothing
  else can be sent and an SDU below TX\_Next is not acknowledged, the first such SDU, the one with SN
  TX\_Next\_Ack, is scheduled for retransmission from its first to its last byte, if the retransmission queue has room.
\<close>

theorem tx_am_poll_retransmits:
  assumes "tx_am_reach cfg is_srb s" "tx_am_cfg_ok cfg" "tx_stalled s" "tx_next_ack s \<noteq> tx_next s"
    and "length (rq_queue (retx_queue s)) < sn_half (tam_z s)"
  shows "\<exists>s' as b. on_expired_poll_retransmit_timer sp (s\<lparr>poll_retransmit_timer := timer_stop (poll_retransmit_timer s)\<rparr>) = Inr (s', as) \<and>
    tx_sdu (tx_window s) (tx_next_ack s) = Some b \<and>
    retx_view (retx_queue s') = retx_view (retx_queue s) @ [\<lparr>rtx_sn = tx_next_ack s, rtx_so = 0, rtx_length = of_nat (length b)\<rparr>]"
proof -
  let ?s = "s\<lparr>poll_retransmit_timer := timer_stop (poll_retransmit_timer s)\<rparr>"
  have inv: "tam_inv s" by (rule tx_am_reach_inv [OF assms(1,2)])
  note d = twin_okD [OF tam_invD(3) [OF inv]]
  have "sn_pos (tam_z s) (tx_next_ack s) (tx_next s) \<noteq> 0" using sn_pos_0 [OF d(4,3)] assms(4) by simp
  then have "cm_lookup (tx_window s) (tx_next_ack s) \<noteq> None" using d(3) d(7) [of "tx_next_ack s"] by (simp add: tx_key_def)
  then obtain info where i: "cm_lookup (tx_window s) (tx_next_ack s) = Some info" by auto
  have ne: "\<not> empty_cm (tx_window s)" using lookup_not_empty [OF d(1)] i by auto
  have st: "tx_stalled ?s" using assms(3) by (simp add: tx_stalled_def is_tx_window_full_def tx_mod_base_def)
  obtain s' as where e: "on_expired_poll_retransmit_timer sp ?s = Inr (s', as)"
    "tx_stalled ?s \<longrightarrow> \<not> empty_cm (tx_window ?s) \<longrightarrow> has_sn (tx_window ?s) (tx_next_ack ?s) \<longrightarrow>
     length (rq_queue (retx_queue ?s)) < sn_half (tam_z ?s) \<longrightarrow>
     retx_view (retx_queue s') = retx_view (retx_queue ?s) @ [\<lparr>rtx_sn = tx_next_ack ?s, rtx_so = 0,
       rtx_length = of_nat (length (the (tx_sdu (tx_window ?s) (tx_next_ack ?s))))\<rparr>]"
    by (rule poll_expired_ok [OF tam_inv_timer [OF inv], of sp]) (rule that)
  have "has_sn (tx_window s) (tx_next_ack s)" using i by (simp add: has_sn_lookup)
  then show ?thesis using e st ne assms(5) i by (simp add: tx_sdu_def)
qed

theorem tx_am_poll_retransmits_witness:
  "\<exists>s s' as b. run_tx_am sample_history = Inr s \<and> tx_sdu (tx_window s) (tx_next_ack s) = Some b \<and>
     on_expired_poll_retransmit_timer sample_sp (s\<lparr>poll_retransmit_timer := timer_stop (poll_retransmit_timer s)\<rparr>) = Inr (s', as) \<and>
     retx_view (retx_queue s') = retx_view (retx_queue s) @ [\<lparr>rtx_sn = tx_next_ack s, rtx_so = 0, rtx_length = of_nat (length b)\<rparr>]"
proof -
  obtain s where s: "run_tx_am sample_history = Inr s" "tx_am_reach sample_tx_am_cfg False s" by (rule sample_reach)
  have "(case run_tx_am sample_history of Inl e \<Rightarrow> False
     | Inr s \<Rightarrow> tx_stalled s \<and> tx_next_ack s \<noteq> tx_next s \<and> length (rq_queue (retx_queue s)) < sn_half (tam_z s))" by code_simp
  then have ok: "tx_stalled s" "tx_next_ack s \<noteq> tx_next s" "length (rq_queue (retx_queue s)) < sn_half (tam_z s)"
    unfolding s(1) by simp_all
  from tx_am_poll_retransmits [OF s(2) sample_tx_am(2) ok, of sample_sp] s(1) show ?thesis by blast
qed

section \<open>Where the code fails\<close>

lemma unsent_nack_accepted:
  assumes inv: "tam_inv s" and room: "inside_tx_window s (tx_next s)"
    and p: "ack_sn p = (tx_next s + 1) mod tam_mod s" "nacks p = [n]" "nack_sn n = tx_next s" "\<not> has_nack_range n"
  shows "status_accepted p s"
proof -
  note wf = tam_invD(1) [OF inv] note d = twin_okD [OF tam_invD(3) [OF inv]]
  let ?pos = "sn_pos (tam_z s) (tx_next_ack s)"
  have lt: "?pos (tx_next s) < sn_half (tam_z s)" using room tx_base(3) [OF wf] by simp
  have "?pos ((tx_next s + 1) mod sn_mod (tam_z s)) = Suc (?pos (tx_next s))"
    using lt sn_half_pos(2) [of "tam_z s"] by (intro sn_pos_succ) linarith
  then have ack: "?pos (ack_sn p) = Suc (?pos (tx_next s))" using p(1) tam_wfD(1) [OF wf] by simp
  then have succ: "?pos (tx_next s + 1) = Suc (?pos (tx_next s))" using p(1) tam_wfD(1) [OF wf] by simp
  show ?thesis
    using p(2-4) ack succ lt
    by (simp add: status_accepted_def valid_nack_def tx_base [OF wf] not_less not_le Let_def)
qed

text \<open>
  C36. A peer can make the transmitting AM entity fail an assertion in every reachable state in which the window
  has room for one more SN and no SDU is under segmentation: a status PDU with ACK\_SN = TX\_Next + 1 and a
  NACK for TX\_Next, which was never sent, passes all checks, since both comparisons with TX\_Next allow
  equality; the window is then accessed at an SN that it does not hold.
\<close>

theorem tx_am_unsent_nack_faults:
  assumes "tx_am_reach cfg is_srb s" "tx_am_cfg_ok cfg" "sn_under_segmentation s = INVALID_RLC_SN"
    and "inside_tx_window s (tx_next s)"
    and "ack_sn p = (tx_next s + 1) mod tam_mod s" "nacks p = [n]" "nack_sn n = tx_next s" "\<not> has_nack_range n"
  shows "handle_status_pdu sp p s = Inl (Assertion_Failure ''Accessing non-existent ID'')"
proof -
  have inv: "tam_inv s" by (rule tx_am_reach_inv [OF assms(1,2)])
  note acc = unsent_nack_accepted [OF inv assms(4-8)]
  note wf = tam_invD(1) [OF inv] note d = twin_okD [OF tam_invD(3) [OF inv]]
  let ?s = "stop_poll_timer (ack_sn p) s" and ?z = "tam_z s" and ?a = "tx_next_ack s" and ?n = "tx_next s"
  note fr = stop_poll_frame [of "ack_sn p" s]
  have inv0: "tam_inv ?s" using inv fr by simp
  have "sn_pos ?z ?a ?n < loop_bound_tx s"
    using less_SucI [OF am_ring.dist_less [of ?z ?a ?n]] by (simp add: loop_bound_tx_def tam_wfD(1) [OF wf] am_ring.unat_m)
  then obtain dl w1 where w1: "process_acks (loop_bound_tx s) ?a ?n (None, None) ?s =
      Inr (dl, ?s\<lparr>tx_window := w1, tx_next_ack := ?n\<rparr>)"
    "tam_win (?s\<lparr>tx_window := w1, tx_next_ack := ?n\<rparr>)"
    "\<forall>x. cm_lookup w1 x = (if x < sn_mod ?z \<and> sn_pos ?z ?a x < sn_pos ?z ?a ?n then None else cm_lookup (tx_window s) x)"
    using process_acks_ok [OF tam_invD(1,2) [OF inv0], of ?n "loop_bound_tx s" "(None, None)"] d(4) unfolding fr by blast
  let ?s1 = "?s\<lparr>tx_window := w1, tx_next_ack := ?n\<rparr>"
  have "retx_inv (retx_queue ?s1)" using inv fr by (simp add: tam_inv_def retx_ok_def)
  from clear_retx_queue_ok [OF this w1(2)]
  obtain w2 q2 where c: "clear_retx_queue ?s1 = Inr (?s1\<lparr>tx_window := w2, retx_queue := q2, retx_sn := INVALID_RLC_SN\<rparr>)"
    "same_sdus (tx_window ?s1) w2"
    by (elim exE conjE) (rule that)
  have "cm_lookup w1 ?n = None" using w1(3) d(7) [of ?n] assms(3) by (auto simp: tx_key_def)
  then have "cm_lookup w2 ?n = None" using c(2) by (simp add: same_sdus_def) (metis option.map_disc_iff)
  then have "\<not> contains w2 ?n" using has_sn_lookup [of w2 ?n] by (simp add: has_sn_def)
  then have fault: "at_cm w2 ?n = Inl (Assertion_Failure ''Accessing non-existent ID'')"
    by (simp add: at_cm_def srsran_assert_def)
  show ?thesis
    using acc w1(1) c(1) fault assms(6-8) fr
    by (simp add: handle_status_pdu_def status_accepted_def case_prod_beta process_nack_def handle_nack_def
        tx_mod_base_def not_less)
qed

definition sample_unsent_status :: rlc_am_status_pdu where
  "sample_unsent_status = (new_status_pdu Am_Size12bits)\<lparr>ack_sn := 2, nacks := [empty_nack\<lparr>nack_sn := 1\<rparr>]\<rparr>"

theorem tx_am_unsent_nack_faults_witness:
  "\<exists>s. run_tx_am sample_history = Inr s \<and>
     handle_status_pdu sample_sp sample_unsent_status s = Inl (Assertion_Failure ''Accessing non-existent ID'')"
proof -
  obtain s where s: "run_tx_am sample_history = Inr s" "tx_am_reach sample_tx_am_cfg False s" by (rule sample_reach)
  have "case run_tx_am sample_history of Inl e \<Rightarrow> False
    | Inr s \<Rightarrow> sn_under_segmentation s = INVALID_RLC_SN \<and> inside_tx_window s (tx_next s) \<and> tx_next s = 1 \<and> tam_mod s = 4096"
    by code_simp
  then have ok: "sn_under_segmentation s = INVALID_RLC_SN" "inside_tx_window s (tx_next s)" "tx_next s = 1" "tam_mod s = 4096"
    unfolding s(1) by auto
  have "handle_status_pdu sample_sp sample_unsent_status s = Inl (Assertion_Failure ''Accessing non-existent ID'')"
    by (rule tx_am_unsent_nack_faults [OF s(2) sample_tx_am(2) ok(1,2), where n = "empty_nack\<lparr>nack_sn := 1\<rparr>"])
      (simp_all add: ok(3,4) sample_unsent_status_def empty_nack_def)
  with s(1) show ?thesis by blast
qed

text \<open>
  An SDU without bytes is added to the window under TX\_Next, but TX\_Next is not advanced, so that the SDU after it
  fails to be added under the same SN.
\<close>

theorem tx_am_empty_sdu_faults:
  "case run_tx_am [Op_Sdu 1 [] False, Op_Sdu 2 [0x80, 8] False, Op_Pull sample_sp 50] of
     Inl e \<Rightarrow> False | Inr s \<Rightarrow> fault_of (exec_tx_am (Op_Pull sample_sp 50) s) \<noteq> None"
  by code_simp

text \<open>
  The poll for the last SDU can be lost. The check for an empty transmission buffer counts discarded SDUs that
  are still in the queue: when the SDU behind the last one is discarded, the last one is sent without a poll and
  t-PollRetransmit is not started, although its acknowledgement is outstanding; the buffer state is then 0, so that
  no further grant is requested.
\<close>

theorem tx_am_discard_no_poll:
  "case run_tx_am [Op_Sdu 1 [0x80, 7] False, Op_Sdu 2 [0x80, 8] False, Op_Discard 8] of
     Inl e \<Rightarrow> False
   | Inr s \<Rightarrow>
       (case pull_pdu_am sample_sp 50 s of
          Inl e \<Rightarrow> False
        | Inr (pdu, st, s', as) \<Rightarrow> pdu = [0x80, 0, 0x80, 7] \<and> \<not> polls Am_Size12bits pdu \<and>
            \<not> is_running (poll_retransmit_timer s') \<and> tx_report sample_sp s' = 0 \<and> tx_next_ack s' \<noteq> tx_next s')"
  by code_simp

end
