(* ===== verification/Rlc_Am_Report.thy ===== *)
theory Rlc_Am_Report
  imports Rlc_Rx_Am_Inv Rlc_Tx_Am_Status
begin

text \<open>
  Status reports between the two sides of an AM bearer. The SDUs of a sender are numbered without wrap-around;
  \<open>sn_of\<close> gives their sequence numbers. A report that the receiver builds acknowledges the SDUs below RX\_Next and
  reports nothing missing that was not sent, in the sense that the transmitter needs to process it: this part
  connects the exactness of the report with the obligations of the environment of the transmitter.
\<close>

section \<open>Sequence numbers of numbered SDUs\<close>

definition sn_of :: "rlc_am_sn_size \<Rightarrow> nat \<Rightarrow> u32" where
  "sn_of z n = of_nat n mod sn_mod z"

lemma sn_of_less [simp]: "sn_of z n < sn_mod z"
  by (simp add: sn_of_def am_ring.mod_m_less)

lemma unat_sn_of: "unat (sn_of z n) = n mod (2 * sn_half z)"
proof -
  have "unat (sn_of z n) = unat (of_nat n :: u32) mod am_ring.N z"
    by (simp add: sn_of_def unat_mod am_ring.unat_m)
  also have "\<dots> = n mod am_ring.N z"
    by (simp add: unsigned_of_nat take_bit_eq_mod mod_mod_cancel [OF am_ring.N_dvd_card])
  finally show ?thesis by (simp add: sn_ring_N)
qed

lemma sn_of_0 [simp]: "sn_of z 0 = 0"
  by (simp add: sn_of_def)

lemma sn_of_add: "(sn_of z n + of_nat k) mod sn_mod z = sn_of z (n + k)"
  using am_ring.mod_add_of_nat [of 0 n z k] by (simp add: sn_of_def)

lemma sn_of_Suc: "(sn_of z n + 1) mod sn_mod z = sn_of z (Suc n)"
  using sn_of_add [of z n 1] by simp

lemma sn_pos_of: "a \<le> n \<Longrightarrow> n < a + 2 * sn_half z \<Longrightarrow> sn_pos z (sn_of z a) (sn_of z n) = n - a"
proof -
  assume a: "a \<le> n" "n < a + 2 * sn_half z"
  let ?M = "2 * sn_half z"
  have "int (sn_pos z (sn_of z a) (sn_of z n)) = (int (n mod ?M) - int (a mod ?M)) mod int ?M"
    using am_ring.dist_int [of z "sn_of z a" "sn_of z n"] by (simp add: unat_sn_of sn_ring_N)
  also have "\<dots> = (int n - int a) mod int ?M" by (simp add: zmod_int mod_diff_eq)
  also have "\<dots> = int (n - a)" using a by (simp add: of_nat_diff)
  finally show ?thesis by simp
qed

lemma sn_pos_of_below:
  assumes "n < a" "a \<le> n + 2 * sn_half z"
  shows "sn_pos z (sn_of z a) (sn_of z n) = n + 2 * sn_half z - a"
proof -
  have "sn_of z (n + 2 * sn_half z) = sn_of z n" by (simp add: word_unat_eq_iff unat_sn_of)
  then show ?thesis using sn_pos_of [of a "n + 2 * sn_half z" z] assms by simp
qed

lemma sn_of_eq:
  assumes "a \<le> n" "n < a + 2 * sn_half z" "a \<le> k" "k < a + 2 * sn_half z"
  shows "sn_of z n = sn_of z k \<longleftrightarrow> n = k"
  using sn_pos_of [OF assms(1,2)] sn_pos_of [OF assms(3,4)] assms(1,3) by (metis le_add_diff_inverse)

lemma sn_of_pos: "x < sn_mod z \<Longrightarrow> x = sn_of z (a + sn_pos z (sn_of z a) x)"
proof -
  assume x: "x < sn_mod z"
  have "sn_pos z (sn_of z a) (sn_of z (a + sn_pos z (sn_of z a) x)) = sn_pos z (sn_of z a) x"
    using sn_pos_of [of a "a + sn_pos z (sn_of z a) x" z] sn_pos_less [of z "sn_of z a" x] by simp
  then show ?thesis using sn_pos_eq [OF x sn_of_less] by metis
qed

lemma sn_of_valid [simp]: "sn_of z n \<noteq> INVALID_RLC_SN"
  by (rule sn_valid [OF sn_of_less])

section \<open>The NACKs that the receiver reports\<close>

text \<open>
  A NACK of a report in the state \<open>s\<close> ends with an SDU below RX\_Next\_Highest, which is missing completely, or whose
  missing bytes end at a received segment, or with the open end after a received segment.
\<close>

definition nack_last_pos :: "rlc_rx_am_entity \<Rightarrow> rlc_am_status_nack \<Rightarrow> nat" where
  "nack_last_pos s n = am_pos s (nack_sn n) + (nack_count n - 1)"

definition nack_reported :: "rlc_rx_am_entity \<Rightarrow> rlc_am_status_nack \<Rightarrow> bool" where
  "nack_reported s n \<longleftrightarrow> nack_sn n < ram_mod s \<and> 0 < nack_count n \<and> nack_last_pos s n < am_pos s (ram_next_highest s) \<and>
     (\<exists>x. x < ram_mod s \<and> am_pos s x = nack_last_pos s n \<and>
       (if nack_has_so n \<and> so_end n \<noteq> so_end_of_sdu
        then \<exists>info. cm_lookup (ram_window s) x = Some info \<and> \<not> am_fully_received info \<and>
               (\<exists>g \<in> set (segment_set info). unat (so_end n) < seg_end g)
        else cm_lookup (ram_window s) x = None \<or> nack_has_so n \<and> so_start n \<noteq> 0 \<and> \<not> has_nack_range n))"

lemma hd_snoc: "hd (xs @ [x]) = (if xs = [] then x else hd xs)"
  by (cases xs) simp_all

lemma merge_nack_simps [simp]:
  "nack_sn (merge_nack l r) = nack_sn l" "has_nack_range (merge_nack l r)"
  by (simp_all add: merge_nack_def Let_def)

lemma push_nack_hd: "nack_sn (hd (nacks (push_nack p n))) = (if nacks p = [] then nack_sn n else nack_sn (hd (nacks p)))"
proof (cases "nacks p" rule: rev_cases)
  case (snoc ns l)
  then show ?thesis by (cases ns) (simp_all add: push_nack_def Let_def)
qed (simp add: push_nack_def)

lemma push_nack_ne [simp]: "nacks (push_nack p n) \<noteq> []"
  by (simp add: push_nack_def Let_def)

text \<open>Merging: the range gets the SN and the end of the new NACK, which is no range itself.\<close>

lemma merge_nack_count:
  assumes "can_be_merged p l r" "\<not> has_nack_range r" "0 < nack_count l"
  shows "nack_count (merge_nack l r) = Suc (nack_count l)"
proof -
  have "nack_count l + 1 \<le> 255" using assms(1,2) by (simp add: can_be_merged_def nack_count_def Let_def split: if_splits)
  then have "unat (nack_range l + 1) = Suc (unat (nack_range l))" if "has_nack_range l"
    using that by (simp add: nack_count_def unat_word_ariths)
  then show ?thesis using assms(2) by (simp add: nack_count_def merge_nack_def Let_def)
qed

lemma merge_nack_end:
  "nack_has_so r \<Longrightarrow> nack_has_so (merge_nack l r) \<and> so_end (merge_nack l r) = so_end r"
  "\<not> nack_has_so r \<Longrightarrow> nack_has_so (merge_nack l r) \<Longrightarrow> so_end (merge_nack l r) = so_end_of_sdu"
  by (auto simp: merge_nack_def Let_def split: if_splits)

lemma am_pos_add:
  assumes "am_wf s" "am_pos s x + k < 2 * am_w s"
  shows "am_pos s ((x + of_nat k) mod ram_mod s) = am_pos s x + k"
proof -
  have w: "am_w s \<le> 131072" using am_w_cases [of s] by auto
  then have "k < 2 ^ 32" using assms(2) by simp
  then have "unat (of_nat k :: u32) = k" by (simp add: unsigned_of_nat take_bit_nat_eq_self)
  then show ?thesis
    using am_ring.dist_add [of "am_z s" "rx_next s" x "of_nat k"] assms by (simp add: am_pos_def am_ring_N am_wfD(1))
qed

lemma can_be_merged_sn:
  assumes "can_be_merged p l r" "\<not> has_nack_range r" "0 < nack_count l"
  shows "nack_sn r = (nack_sn l + of_nat (nack_count l)) mod st_mod_nr p" "nack_has_so r \<Longrightarrow> so_start r = 0"
  using assms by (auto simp: can_be_merged_def nack_count_def Let_def split: if_splits)

lemma push_reported:
  assumes wf: "am_wf s" and h: "am_pos s (ram_next_highest s) \<le> am_w s" and m: "st_mod_nr p = ram_mod s"
    and old: "\<forall>n \<in> set (nacks p). nack_reported s n" and r: "nack_reported s r" "\<not> has_nack_range r"
  shows "\<forall>n \<in> set (nacks (push_nack p r)). nack_reported s n"
proof (cases "nacks p = [] \<or> \<not> can_be_merged p (last (nacks p)) r")
  case True
  then show ?thesis using old r by (auto simp: push_nack_def Let_def)
next
  case False
  define l where "l = last (nacks p)"
  have l: "nack_reported s l" and mrg: "can_be_merged p l r" using False old by (simp_all add: l_def)
  have cnt: "0 < nack_count l" and ll: "nack_last_pos s l < am_w s" using l h by (auto simp: nack_reported_def)
  note e = can_be_merged_sn [OF mrg r(2) cnt]
  have "am_pos s (nack_sn l) + nack_count l < 2 * am_w s" using ll cnt am_w_pos [of s] by (simp add: nack_last_pos_def)
  then have pr: "am_pos s (nack_sn r) = am_pos s (nack_sn l) + nack_count l" using am_pos_add [OF wf] e(1) m by simp
  have lp: "nack_last_pos s (merge_nack l r) = nack_last_pos s r"
    using pr r(2) by (simp add: nack_last_pos_def merge_nack_count [OF mrg r(2) cnt]) (simp add: nack_count_def)
  have "nack_reported s (merge_nack l r)"
    using r(1) l merge_nack_end [of r l] e(2) unfolding nack_reported_def lp
    by (cases "nack_has_so r") (auto simp: merge_nack_count [OF mrg r(2) cnt])
  then show ?thesis using False old by (auto simp: push_nack_def Let_def l_def dest: in_set_butlastD)
qed

lemma nack_reportedI:
  assumes "x < ram_mod s" "am_pos s x < am_pos s (ram_next_highest s)"
    and "if nack_has_so n \<and> so_end n \<noteq> so_end_of_sdu
        then \<exists>info. cm_lookup (ram_window s) x = Some info \<and> \<not> am_fully_received info \<and>
               (\<exists>g \<in> set (segment_set info). unat (so_end n) < seg_end g)
        else cm_lookup (ram_window s) x = None \<or> nack_has_so n \<and> so_start n \<noteq> 0"
    and "nack_sn n = x" "\<not> has_nack_range n"
  shows "nack_reported s n"
  using assms by (auto simp: nack_reported_def nack_last_pos_def nack_count_def)

definition reported_ok :: "rlc_rx_am_entity \<Rightarrow> rlc_am_status_pdu \<Rightarrow> bool" where
  "reported_ok s p \<longleftrightarrow> st_mod_nr p = ram_mod s \<and> (\<forall>n \<in> set (nacks p). nack_reported s n)"

lemma push_nack_mod [simp]: "st_mod_nr (push_nack p n) = st_mod_nr p"
  by (simp add: push_nack_def Let_def)

lemma reported_ok_push:
  "am_wf s \<Longrightarrow> am_pos s (ram_next_highest s) \<le> am_w s \<Longrightarrow> reported_ok s p \<Longrightarrow> nack_reported s r \<Longrightarrow> \<not> has_nack_range r \<Longrightarrow>
    reported_ok s (push_nack p r)"
  using push_reported [of s p r] by (simp add: reported_ok_def)

lemma nack_segments_reported:
  assumes wf: "am_wf s" and h: "am_pos s (ram_next_highest s) \<le> am_w s"
    and x: "x < ram_mod s" "am_pos s x < am_pos s (ram_next_highest s)"
    and i: "cm_lookup (ram_window s) x = Some info" "\<not> am_fully_received info"
    and "reported_ok s p" "nack_segments x segms last_so hl p = Inr (l, hl', p')" "segs_ok segms"
    "\<forall>g \<in> set segms. last_so \<le> unat (seg_so g) \<and> g \<in> set (segment_set info)"
  shows "reported_ok s p'"
  using assms(7-10)
proof (induction segms arbitrary: last_so hl p)
  case (Cons g gs)
  let ?n = "empty_nack\<lparr>nack_sn := x, nack_has_so := True, so_start := of_nat last_so, so_end := seg_so g - 1\<rparr>"
  have g: "seg_ok g" "last_so \<le> unat (seg_so g)" "g \<in> set (segment_set info)" using Cons.prems by auto
  have rest: "\<forall>g' \<in> set gs. seg_end g \<le> unat (seg_so g') \<and> g' \<in> set (segment_set info)" "segs_ok gs" using Cons.prems by auto
  show ?case
  proof (cases "unat (seg_so g) = last_so")
    case True
    then show ?thesis using Cons.IH [OF Cons.prems(1) _ rest(2,1)] Cons.prems(2) by simp
  next
    case False
    have "unat (seg_so g - 1) = unat (seg_so g) - 1" using False g(2) by (subst unat_sub) (auto simp: word_le_nat_alt)
    then have "unat (seg_so g - 1) < seg_end g" using seg_so_less_end [OF g(1)] by simp
    moreover have "seg_so g - 1 \<noteq> so_end_of_sdu"
    proof
      assume "seg_so g - 1 = so_end_of_sdu"
      then have "unat (seg_so g) - 1 = 65535" using \<open>unat (seg_so g - 1) = unat (seg_so g) - 1\<close> by (simp add: so_end_of_sdu_def)
      moreover have "unat (seg_so g) < 65536" using unsigned_less [of "seg_so g"] by simp
      ultimately show False by simp
    qed
    ultimately have "nack_reported s ?n"
      using i g(3) by (intro nack_reportedI [OF x]) (auto simp: empty_nack_def)
    then have "reported_ok s (push_nack p ?n)" by (intro reported_ok_push [OF wf h Cons.prems(1)]) (simp_all add: empty_nack_def)
    then show ?thesis using Cons.IH [OF _ _ rest(2,1)] Cons.prems(2) False by (auto simp: Let_def bind_res_Inr_iff)
  qed
qed simp

lemma am_info_segments:
  assumes "am_info_ok info" "\<not> am_fully_received info"
  obtains segms where "sdu_data info = Segment_Set segms" "segment_set info = segms" "segms \<noteq> []" "segs_ok segms"
    "\<forall>g \<in> set segms. seg_end g \<le> 65535" "inventory_loop 0 segms = (False, am_has_gap info)"
  using assms that
  by (auto simp: am_info_ok_def segment_set_def update_segment_inventory_def split: rlc_rx_am_sdu_data.splits)

lemma nack_segments_end:
  "segs_ok segms \<Longrightarrow> \<forall>g \<in> set segms. seg_end g \<le> 65535 \<Longrightarrow> nack_segments sn segms last_so hl p = Inr (l, hl', p') \<Longrightarrow>
    l = (if segms = [] then last_so else seg_end (last segms))"
  by (induction segms arbitrary: last_so hl p) (auto simp: bind_res_Inr_iff Let_def split: if_splits)

lemma nack_sdu_reported:
  assumes wf: "am_wf s" and h: "am_pos s (ram_next_highest s) \<le> am_w s" and keys: "am_keys s"
    and x: "x < ram_mod s" "am_pos s x < am_pos s (ram_next_highest s)"
    and p: "reported_ok s p" "nack_sdu x (cm_lookup (ram_window s) x) p = Inr p'"
  shows "reported_ok s p'"
proof (cases "cm_lookup (ram_window s) x")
  case None
  have "nack_reported s (empty_nack\<lparr>nack_sn := x, nack_has_so := False\<rparr>)"
    by (rule nack_reportedI [OF x]) (simp_all add: None empty_nack_def)
  from reported_ok_push [OF wf h p(1) this] show ?thesis using p(2) by (auto simp: nack_sdu_def None empty_nack_def)
next
  case (Some info)
  show ?thesis
  proof (cases "am_fully_received info")
    case True
    then show ?thesis using p by (simp add: nack_sdu_def Some)
  next
    case False
    have "am_info_ok info" using keys Some by (simp add: am_keys_def)
    then obtain segms where g: "sdu_data info = Segment_Set segms" "segment_set info = segms" "segms \<noteq> []" "segs_ok segms"
      "\<forall>g \<in> set segms. seg_end g \<le> 65535" by (rule am_info_segments [OF _ False])
    obtain l hl q where q: "nack_segments x segms 0 False p = Inr (l, hl, q)"
      and p': "p' = q \<or> p' = push_nack q (empty_nack\<lparr>nack_sn := x, nack_has_so := True, so_start := of_nat l, so_end := so_end_of_sdu\<rparr>)"
      using p(2) False by (auto simp: nack_sdu_def Some g(1) bind_res_Inr_iff Let_def split: if_splits)
    have q_ok: "reported_ok s q"
      by (rule nack_segments_reported [OF wf h x Some False p(1) q g(4)]) (use g in simp)
    have l: "l = seg_end (last segms)" using nack_segments_end [OF g(4,5) q] g(3) by simp
    have "seg_ok (last segms)" using g(3,4) by (simp add: segs_ok_def)
    then have "0 < l" "l \<le> 65535" using l g(3,5) seg_so_less_end [of "last segms"] by auto
    then have "(of_nat l :: u16) \<noteq> 0" by (intro of_nat_u16_0) simp_all
    then have "nack_reported s (empty_nack\<lparr>nack_sn := x, nack_has_so := True, so_start := of_nat l, so_end := so_end_of_sdu\<rparr>)"
      by (intro nack_reportedI [OF x]) (simp_all add: empty_nack_def)
    then show ?thesis using p' q_ok reported_ok_push [OF wf h q_ok] by (auto simp: empty_nack_def)
  qed
qed

lemma nack_loop_reported:
  assumes "am_wf s" "am_pos s (ram_next_highest s) \<le> am_w s" "am_keys s"
    and "am_pos s stop \<le> am_pos s (ram_next_highest s)"
    and "i < ram_mod s" "reported_ok s p" "nack_loop fuel i stop s p = Inr p'"
  shows "reported_ok s p'"
  using assms(5-)
proof (induction fuel arbitrary: i p)
  case (Suc fuel)
  show ?case
  proof (cases "am_pos s i < am_pos s stop")
    case True
    then obtain q where q: "nack_sdu i (cm_lookup (ram_window s) i) p = Inr q" "nack_loop fuel ((i + 1) mod ram_mod s) stop s q = Inr p'"
      using Suc.prems(3) by (auto simp: base_less_iff [OF assms(1)] bind_res_Inr_iff)
    have "reported_ok s q"
      by (rule nack_sdu_reported [OF assms(1-3) Suc.prems(1) _ Suc.prems(2) q(1)]) (use True assms(4) in simp)
    from Suc.IH [OF am_mod_less [OF assms(1)] this q(2)] show ?thesis .
  next
    case False
    then show ?thesis using Suc.prems by (simp add: base_less_iff [OF assms(1)])
  qed
qed simp

text \<open>The first NACK is for the first SN with missing bytes.\<close>

definition first_sn :: "u32 \<Rightarrow> rlc_am_status_pdu \<Rightarrow> u32" where
  "first_sn d p = (if nacks p = [] then d else nack_sn (hd (nacks p)))"

lemma first_sn_push: "first_sn d (push_nack p n) = first_sn (nack_sn n) p"
  by (simp add: first_sn_def push_nack_hd)

lemma nack_segments_first:
  "nack_segments sn segms last_so hl p = Inr (l, hl', p') \<Longrightarrow> first_sn sn p' = first_sn sn p \<and> (nacks p \<noteq> [] \<longrightarrow> nacks p' \<noteq> [])"
proof (induction segms arbitrary: last_so hl p)
  case (Cons g gs)
  then obtain q where q: "nack_segments sn gs (seg_end g) (hl \<or> seg_si g = Last_Segment) q = Inr (l, hl', p')"
    "q = p \<or> q = push_nack p (empty_nack\<lparr>nack_sn := sn, nack_has_so := True, so_start := of_nat last_so, so_end := seg_so g - 1\<rparr>)"
    by (auto simp: bind_res_Inr_iff Let_def split: if_splits)
  then show ?case using Cons.IH [OF q(1)] by (auto simp: first_sn_push)
qed simp

text \<open>An SDU that is not complete has a missing byte.\<close>

lemma inventory_missing:
  assumes "segs_ok segms" "\<forall>g \<in> set segms. n \<le> unat (seg_so g)" "inventory_loop n segms = (False, gap)"
  shows "(\<exists>b \<ge> n. b \<notin> segs_cover segms \<and> (\<exists>g \<in> set segms. b < seg_end g)) \<or> (\<forall>g \<in> set segms. seg_si g \<noteq> Last_Segment)"
  using assms
proof (induction segms arbitrary: n)
  case (Cons g gs)
  have g: "seg_ok g" "n \<le> unat (seg_so g)" "segs_ok gs" "\<forall>x \<in> set gs. seg_end g \<le> unat (seg_so x)" using Cons.prems by auto
  note lt = seg_so_less_end [OF g(1)]
  show ?case
  proof (cases "unat (seg_so g) = n")
    case True
    then have "seg_si g \<noteq> Last_Segment" "inventory_loop (seg_end g) gs = (False, gap)"
      using Cons.prems(3) by (auto simp: seg_end_def split: if_splits)
    have ih: "(\<exists>b \<ge> seg_end g. b \<notin> segs_cover gs \<and> (\<exists>g \<in> set gs. b < seg_end g)) \<or> (\<forall>g \<in> set gs. seg_si g \<noteq> Last_Segment)"
      by (rule Cons.IH [OF g(3,4)]) fact
    show ?thesis
    proof (cases "\<forall>g \<in> set gs. seg_si g \<noteq> Last_Segment")
      case False
      then obtain b x where "seg_end g \<le> b" "b \<notin> segs_cover gs" "x \<in> set gs" "b < seg_end x" using ih by blast
      then show ?thesis using lt g(2) by (intro disjI1 exI [of _ b]) (auto simp: seg_cover_def)
    qed (use \<open>seg_si g \<noteq> Last_Segment\<close> in simp)
  next
    case False
    then have "n \<notin> segs_cover (g # gs)" using g(2,4) lt by (force simp: segs_cover_def seg_cover_def)
    then show ?thesis using False g(2) lt by (intro disjI1 exI [of _ n]) auto
  qed
qed simp

lemma nack_sdu_first:
  "nack_sdu sn sdu p = Inr p' \<Longrightarrow> first_sn sn p' = first_sn sn p \<and> (nacks p \<noteq> [] \<longrightarrow> nacks p' \<noteq> [])"
  by (auto simp: nack_sdu_def bind_res_Inr_iff Let_def first_sn_push empty_nack_def dest!: nack_segments_first
      split: option.splits if_splits rlc_rx_am_sdu_data.splits)

lemma nack_loop_first:
  "nack_loop fuel i stop s p = Inr p' \<Longrightarrow> nacks p \<noteq> [] \<Longrightarrow> nacks p' \<noteq> [] \<and> first_sn d p' = first_sn d p"
proof (induction fuel arbitrary: i p)
  case (Suc fuel)
  show ?case
  proof (cases "rx_mod_base_am s i < rx_mod_base_am s stop")
    case True
    then obtain q where q: "nack_sdu i (cm_lookup (ram_window s) i) p = Inr q" "nack_loop fuel ((i + 1) mod ram_mod s) stop s q = Inr p'"
      using Suc.prems(1) by (auto simp: bind_res_Inr_iff)
    have "nacks q \<noteq> []" "first_sn i q = first_sn i p" using nack_sdu_first [OF q(1)] Suc.prems(2) by simp_all
    then show ?thesis using Suc.IH [OF q(2)] Suc.prems(2) by (auto simp: first_sn_def)
  next
    case False
    then show ?thesis using Suc.prems by simp
  qed
qed simp

lemma sdu_missing_ne:
  assumes "\<forall>info. sdu = Some info \<longrightarrow> am_info_ok info \<and> \<not> am_fully_received info"
  shows "sdu_missing sdu \<noteq> {}"
proof (cases sdu)
  case (Some info)
  have i: "am_info_ok info" "\<not> am_fully_received info" using assms Some by simp_all
  obtain segms where g: "segment_set info = segms" "segms \<noteq> []" "segs_ok segms" "\<forall>g \<in> set segms. seg_end g \<le> 65535"
    "inventory_loop 0 segms = (False, am_has_gap info)" by (rule am_info_segments [OF i])
  note last = segs_ok_last [OF g(3)]
  have "(\<exists>b \<ge> 0. b \<notin> segs_cover segms \<and> (\<exists>g \<in> set segms. b < seg_end g)) \<or> (\<forall>g \<in> set segms. seg_si g \<noteq> Last_Segment)"
    by (rule inventory_missing [OF g(3) _ g(5)]) simp
  then consider b x where "b \<notin> segs_cover segms" "x \<in> set segms" "b < seg_end x"
    | "\<forall>g \<in> set segms. seg_si g \<noteq> Last_Segment" by blast
  then show ?thesis
  proof cases
    case 1
    then have "b < seg_end (last segms)" "b \<le> 65535" using last [of x] g(4) by fastforce+
    then have "b \<in> sdu_missing sdu" using 1(1) i(2) by (simp add: sdu_missing_def Some g(1))
    then show ?thesis by blast
  next
    case 2
    have "seg_end (last segms) \<notin> segs_cover segms" using last by (force simp: segs_cover_def seg_cover_def)
    moreover have "seg_end (last segms) \<le> 65535" using g(2,4) by simp
    ultimately have "seg_end (last segms) \<in> sdu_missing sdu" using 2 i(2) by (auto simp: sdu_missing_def Some g(1))
    then show ?thesis by blast
  qed
qed (auto simp: sdu_missing_def)

text \<open>The report that a receiver builds, as the transmitter reads it: the first SN that is not acknowledged is RX\_Next.\<close>

lemma refresh_reported:
  assumes core: "am_core s"
  obtains p where
    "refresh_status_report s = Inr (s\<lparr>status_owned_by_writer := status_for_exchange s, status_for_exchange := p,
       status_report_size := packed_size p\<rparr>)"
    "am_status_wf (am_z s) p" "ack_sn p < ram_mod s" "am_pos s (ack_sn p) \<le> am_pos s (ram_next_highest s)"
    "reported_ok s p" "status_stop p = rx_next s"
proof -
  note c = am_coreD [OF core] and st = status_stop [OF am_coreD(1,2) [OF core]]
  let ?stop = "status_stop_sn s" and ?p0 = "reset_status (status_owned_by_writer s)"
  have h: "am_pos s (ram_next_highest s) \<le> am_w s" and le: "am_pos s ?stop \<le> am_pos s (ram_next_highest s)"
    using c(2) st(1) by (auto simp: am_vars_def)
  obtain p where p: "refresh_status_report s = Inr (s\<lparr>status_owned_by_writer := status_for_exchange s, status_for_exchange := p,
       status_report_size := packed_size p\<rparr>)" "am_status_wf (am_z s) p" "ack_sn p = ?stop"
    by (rule refresh_status_report_spec [OF core]) (rule that)
  have "\<exists>q. nack_loop (loop_bound_am s) (rx_next s) ?stop s ?p0 = Inr q \<and> p = q\<lparr>ack_sn := ?stop\<rparr>"
    using p(1) by (auto simp: refresh_status_report_def store_status_report_def bind_res_Inr_iff dest: arg_cong [of _ _ status_for_exchange])
  then obtain q where q: "nack_loop (loop_bound_am s) (rx_next s) ?stop s ?p0 = Inr q" "p = q\<lparr>ack_sn := ?stop\<rparr>" by blast
  have ok: "am_status_ok (am_z s) (status_owned_by_writer s)" using c(1) by (simp add: am_wf_def Let_def)
  have p0: "reported_ok s ?p0" "nacks ?p0 = []" using ok am_wfD(1) [OF c(1)] by (simp_all add: reported_ok_def reset_status_def am_status_ok_def)
  have rep: "reported_ok s p"
    using nack_loop_reported [OF c(1) h c(3) le am_wfD(5) [OF c(1)] p0(1) q(1)] by (simp add: reported_ok_def q(2))
  have "status_stop p = rx_next s"
  proof (cases "am_pos s ?stop = 0")
    case True
    then have "?stop = rx_next s" using am_pos_inj [OF c(1) st(2) am_wfD(5) [OF c(1)]] by simp
    moreover have "nacks q = []" using q(1) True p0(2) by (cases "loop_bound_am s") (simp_all add: base_less_iff [OF c(1)] reset_status_def)
    ultimately show ?thesis by (simp add: status_stop_def q(2))
  next
    case False
    obtain fuel where f: "loop_bound_am s = Suc fuel" by (auto simp: loop_bound_am_def)
    let ?sdu = "cm_lookup (ram_window s) (rx_next s)"
    obtain q1 where q1: "nack_sdu (rx_next s) ?sdu ?p0 = Inr q1" "nack_loop fuel ((rx_next s + 1) mod ram_mod s) ?stop s q1 = Inr q"
      using q(1) False by (auto simp: f base_less_iff [OF c(1)] bind_res_Inr_iff)
    have i: "\<forall>info. ?sdu = Some info \<longrightarrow> am_info_ok info \<and> \<not> am_fully_received info"
      using c(3,5) by (auto simp: am_keys_def am_first_def received_iff)
    have "status_missing q1 = status_missing ?p0 \<union> {rx_next s} \<times> sdu_missing ?sdu"
      using nack_sdu_spec [of "am_z s" ?p0 "rx_next s" ?sdu] am_status_wf_reset [OF ok] i am_wfD(1,5) [OF c(1)] q1(1) by auto
    then have "status_missing q1 \<noteq> {}" using sdu_missing_ne [of ?sdu] i by auto
    then have ne: "nacks q1 \<noteq> []" by (auto simp: status_missing_def)
    have "first_sn (rx_next s) q1 = rx_next s" using nack_sdu_first [OF q1(1)] p0(2) by (simp add: first_sn_def)
    then have "nacks q \<noteq> []" "first_sn (rx_next s) q = rx_next s" using nack_loop_first [OF q1(2) ne, of "rx_next s"] by simp_all
    then show ?thesis by (cases "nacks q") (simp_all add: status_stop_def first_sn_def q(2))
  qed
  then show thesis using that [OF p(1,2)] p(3) st(2) le rep by simp
qed

section \<open>Reports over numbered SDUs\<close>

text \<open>
  The bytes that were sent: all of the SDUs below \<open>c\<close> and the first \<open>u\<close> ones of the SDU \<open>c\<close>. \<open>sent_upto\<close> says that the first \<open>e\<close>
  bytes of the SDU \<open>i\<close> were sent.
\<close>

definition sent_upto :: "nat \<Rightarrow> nat \<Rightarrow> nat \<Rightarrow> nat \<Rightarrow> bool" where
  "sent_upto c u i e \<longleftrightarrow> i < c \<or> i = c \<and> e \<le> u"

definition later :: "nat \<Rightarrow> nat \<Rightarrow> nat \<Rightarrow> nat \<Rightarrow> bool" where
  "later c u c' u' \<longleftrightarrow> c < c' \<or> c = c' \<and> u \<le> u'"

lemma sent_upto_later: "sent_upto c u i e \<Longrightarrow> later c u c' u' \<Longrightarrow> sent_upto c' u' i e"
  by (auto simp: sent_upto_def later_def)

text \<open>
  A report that acknowledges the SDUs below \<open>r\<close>: these were sent completely, and a NACK ends with an SDU that was sent
  completely or with bytes of the SDU under segmentation that were sent, or with its open end.
\<close>

definition nack_ends :: "rlc_am_sn_size \<Rightarrow> nat \<Rightarrow> nat \<Rightarrow> nat \<Rightarrow> rlc_am_status_nack \<Rightarrow> bool" where
  "nack_ends z c u r n \<longleftrightarrow> 0 < nack_count n \<and>
     (\<exists>i \<ge> r. nack_sn n = sn_of z i \<and>
       (i + nack_count n - 1 < c \<or>
        i + nack_count n - 1 = c \<and> 0 < u \<and> nack_has_so n \<and>
          (if so_end n = so_end_of_sdu then \<not> has_nack_range n else unat (so_end n) < u)))"

definition report_ok :: "rlc_am_sn_size \<Rightarrow> nat \<Rightarrow> nat \<Rightarrow> nat \<Rightarrow> rlc_am_status_pdu \<Rightarrow> bool" where
  "report_ok z c u r p \<longleftrightarrow> am_status_wf z p \<and> status_stop p = sn_of z r \<and> r \<le> c \<and>
     (\<exists>a \<ge> r. ack_sn p = sn_of z a \<and> (a \<le> c \<or> a = Suc c \<and> 0 < u)) \<and>
     (\<forall>n \<in> set (nacks p). nack_ends z c u r n)"

lemma nack_ends_later: "nack_ends z c u r n \<Longrightarrow> later c u c' u' \<Longrightarrow> nack_ends z c' u' r n"
  unfolding nack_ends_def later_def by (elim conjE exE disjE) (auto intro: order.strict_trans split: if_splits)

lemma report_ok_later: "report_ok z c u r p \<Longrightarrow> later c u c' u' \<Longrightarrow> report_ok z c' u' r p"
  using nack_ends_later unfolding report_ok_def by (auto simp: later_def) 

lemma report_ok_trim:
  assumes "report_ok z c u r p"
  shows "report_ok z c u r (trim_loop n p)"
proof -
  let ?t = "trim_loop n p"
  obtain ns where ns: "nacks p = nacks ?t @ ns" "ack_sn ?t = (case ns of [] \<Rightarrow> ack_sn p | nack # _ \<Rightarrow> nack_sn nack)"
    using trim_loop_ack [of p n] by blast
  have wf: "am_status_wf z ?t" using assms status_wf_trim_loop [of p n] by (simp add: report_ok_def am_status_wf_def trim_loop_frame)
  have stop: "status_stop ?t = status_stop p"
    using ns by (cases "nacks ?t"; cases ns) (simp_all add: status_stop_def)
  have "\<exists>a \<ge> r. ack_sn ?t = sn_of z a \<and> (a \<le> c \<or> a = Suc c \<and> 0 < u)"
  proof (cases ns)
    case Nil
    then show ?thesis using ns(2) assms by (simp add: report_ok_def)
  next
    case (Cons m ms)
    then have "nack_ends z c u r m" using assms ns(1) by (simp add: report_ok_def)
    then obtain i where "i \<ge> r" "nack_sn m = sn_of z i" "i \<le> c" "0 < nack_count m" by (fastforce simp: nack_ends_def)
    then show ?thesis using ns(2) Cons by auto
  qed
  then show ?thesis using assms wf stop ns(1) by (simp add: report_ok_def)
qed

end
