(* ===== verification/Rlc_Am_Flow.thy ===== *)
theory Rlc_Am_Flow
  imports Rlc_Am_Report Rlc_Tx_Am_Props
begin

text \<open>
  One direction of an AM bearer: a transmitter, a receiver, the data PDUs on their way from one to the other and
  the status PDUs on their way back. The channels keep the order of PDUs; they may lose and delay them. The SDUs that the
  transmitter has taken from its queue are numbered; the invariant relates TX\_Next\_Ack, the acknowledgements on
  their way, RX\_Next, RX\_Next\_Highest and TX\_Next on this scale, so that sequence numbers are never confused.
\<close>

section \<open>The transmitter\<close>

definition tx_seg :: "rlc_tx_am_entity \<Rightarrow> nat" where
  "tx_seg s = (if sn_under_segmentation s = INVALID_RLC_SN then 0 else 1)"

text \<open>\<open>sent\<close> are the SDUs that were taken from the queue, \<open>c\<close> of them are sent completely, \<open>a\<close> are acknowledged.\<close>

definition flow_tx :: "rlc_am_sn_size \<Rightarrow> byte_buffer list \<Rightarrow> nat \<Rightarrow> nat \<Rightarrow> rlc_tx_am_entity \<Rightarrow> bool" where
  "flow_tx z sent a c s \<longleftrightarrow>
     tam_inv s \<and> tam_z s = z \<and> retx_sent s \<and> tx_next_ack s = sn_of z a \<and> tx_next s = sn_of z c \<and>
     a \<le> c \<and> length sent = c + tx_seg s \<and> length sent \<le> a + sn_half z \<and>
     (\<forall>i. a \<le> i \<longrightarrow> i < length sent \<longrightarrow> tx_sdu (tx_window s) (sn_of z i) = Some (sent ! i))"

lemma flow_txD:
  assumes "flow_tx z sent a c s"
  shows "tam_inv s" "tam_z s = z" "retx_sent s" "tx_next_ack s = sn_of z a" "tx_next s = sn_of z c" "a \<le> c"
    "length sent = c + tx_seg s" "length sent \<le> a + sn_half z"
    "\<And>i. a \<le> i \<Longrightarrow> i < length sent \<Longrightarrow> tx_sdu (tx_window s) (sn_of z i) = Some (sent ! i)"
    "twin_ok z (sn_of z a) (sn_of z c) (sn_under_segmentation s) (tx_window s)" "tam_mod s = sn_mod z"
  using assms tam_invD(3) [of s] tam_wfD(1) [OF tam_invD(1), of s] by (auto simp: flow_tx_def)

lemma tx_seg_progress:
  assumes "flow_tx z sent a c s"
  shows "0 < tx_progress s \<longleftrightarrow> tx_seg s = 1" "tx_progress s < max_am_sdu"
    "tx_seg s = 1 \<Longrightarrow> tx_progress s < length (sent ! c)" "tx_seg s = 0 \<Longrightarrow> tx_progress s = 0"
proof -
  note d = flow_txD [OF assms] note t = twin_okD [OF d(10)]
  have "0 < tx_progress s \<and> tx_progress s < length (sent ! c) \<and> tx_progress s < max_am_sdu" if sg: "tx_seg s = 1"
  proof -
    have v: "sn_under_segmentation s \<noteq> INVALID_RLC_SN" using sg by (auto simp: tx_seg_def split: if_splits)
    obtain info where i: "cm_lookup (tx_window s) (sn_of z c) = Some info" "tsi_sdu info = sent ! c"
      using d(9) [of c] d(6,7) sg by (auto simp: tx_sdu_Some)
    have "am_sdu_ok (tsi_sdu info)" using t(8) i by blast
    then show ?thesis using t(9) [OF v i(1)] i v d(5) by (auto simp: tx_progress_def am_sdu_ok_def)
  qed
  moreover have "tx_progress s = 0" if "tx_seg s \<noteq> 1" using that by (simp add: tx_seg_def tx_progress_def split: if_splits)
  moreover have "0 < max_am_sdu" by (simp add: max_am_sdu_def)
  ultimately show "0 < tx_progress s \<longleftrightarrow> tx_seg s = 1" "tx_progress s < max_am_sdu"
    "tx_seg s = 1 \<Longrightarrow> tx_progress s < length (sent ! c)" "tx_seg s = 0 \<Longrightarrow> tx_progress s = 0"
    by (cases "tx_seg s = 1"; simp)+
qed

text \<open>An SN of the window is the number of an SDU that is not acknowledged.\<close>

lemma flow_tx_index:
  assumes f: "flow_tx z sent a c s" and x: "tx_sdu (tx_window s) x = Some b"
  obtains i where "a \<le> i" "i < length sent" "x = sn_of z i" "b = sent ! i"
proof -
  note d = flow_txD [OF f] note t = twin_okD [OF d(10)]
  have k: "tx_key z (sn_of z a) (sn_of z c) (sn_under_segmentation s) x"
    using t(7) [of x] x by (auto simp: tx_sdu_Some)
  let ?i = "a + sn_pos z (sn_of z a) x"
  have xi: "x = sn_of z ?i" by (rule sn_of_pos) (use k in \<open>simp add: tx_key_def\<close>)
  have "c < a + 2 * sn_half z" using d(7,8) sn_half_pos(1) [of z] by linarith
  then have pc: "sn_pos z (sn_of z a) (sn_of z c) = c - a" using sn_pos_of [OF d(6)] by simp
  have "?i < length sent"
  proof (cases "sn_pos z (sn_of z a) x < sn_pos z (sn_of z a) (sn_of z c)")
    case True
    then show ?thesis using pc d(6,7) by linarith
  next
    case False
    then have "sn_under_segmentation s \<noteq> INVALID_RLC_SN" "x = sn_of z c" using k by (auto simp: tx_key_def)
    then show ?thesis using pc d(6,7) by (simp add: tx_seg_def)
  qed
  moreover have "a \<le> ?i" by simp
  ultimately show thesis using that [OF _ _ xi] d(9) [of ?i] x xi by simp
qed

text \<open>The operations that do not touch the window.\<close>

definition tx_same :: "rlc_tx_am_entity \<Rightarrow> rlc_tx_am_entity \<Rightarrow> bool" where
  "tx_same s s' \<longleftrightarrow> tam_cfg s' = tam_cfg s \<and> tx_next_ack s' = tx_next_ack s \<and> tx_next s' = tx_next s \<and>
     sn_under_segmentation s' = sn_under_segmentation s \<and> tx_sdu (tx_window s') = tx_sdu (tx_window s) \<and>
     tx_progress s' = tx_progress s"

lemma flow_tx_same:
  "flow_tx z sent a c s \<Longrightarrow> tx_same s s' \<Longrightarrow> tam_inv s' \<Longrightarrow> retx_sent s' \<Longrightarrow> flow_tx z sent a c s' \<and> tx_seg s' = tx_seg s"
  by (simp add: flow_tx_def tx_same_def tam_z_def tx_seg_def)

lemma retx_sent_same: "tx_same s s' \<Longrightarrow> retx_queue s' = retx_queue s \<Longrightarrow> retx_sent s' = retx_sent s"
  by (simp add: tx_same_def retx_sent_def)

lemma twin_full_ne:
  assumes w: "twin_ok z a n sg w" and full: "full_cm w"
  shows "a \<noteq> n"
proof
  assume "a = n"
  then have one: "x = n" if "cm_lookup w x \<noteq> None" for x using twin_okD(7) [OF w, of x] that by (auto simp: tx_key_def)
  have "{i. cm_data w i \<noteq> None} \<subseteq> {get_circular_idx w n}"
  proof
    fix i assume "i \<in> {i. cm_data w i \<noteq> None}"
    then obtain k v where k: "cm_data w i = Some (k, v)" by auto
    then have i: "get_circular_idx w k = i" using twin_okD(1) [OF w] by (auto simp: cm_wf_def)
    then have "cm_lookup w k = Some v" using k by (simp add: cm_lookup_def)
    then show "i \<in> {get_circular_idx w n}" using one [of k] i by auto
  qed
  then have "card {i. cm_data w i \<noteq> None} \<le> 1" using card_mono [of "{get_circular_idx w n}"] by fastforce
  moreover have "card {i. cm_data w i \<noteq> None} = sn_half z" using full twin_okD(1,2) [OF w] by (simp add: full_cm_def cm_wf_def)
  ultimately show False using sn_half_pos(2) [of z] by simp
qed

lemma handle_changed_same:
  "tx_same s (fst (handle_changed_buffer_state_am s))" "retx_queue (fst (handle_changed_buffer_state_am s)) = retx_queue s"
  "tam_queue (fst (handle_changed_buffer_state_am s)) = tam_queue s"
  by (simp_all add: handle_changed_buffer_state_am_def tx_same_def tx_progress_def)

lemma tx_same_queue: "tx_same s (s\<lparr>tam_queue := q\<rparr>)"
  by (simp add: tx_same_def tx_progress_def)

lemma tx_same_trans: "tx_same s s1 \<Longrightarrow> tx_same s1 s2 \<Longrightarrow> tx_same s s2"
  by (simp add: tx_same_def)

lemma flow_sdu:
  assumes f: "flow_tx z sent a c s" and b: "am_sdu_ok buf"
  shows "\<exists>s' as. handle_sdu_am now buf is_retx s = Inr (s', as) \<and> flow_tx z sent a c s' \<and> tx_same s s' \<and>
    map sdu_buf (q_view (tam_queue s')) = map sdu_buf (q_view (tam_queue s)) @ (if Tx_Add_Lost_Sdus 1 \<in> set as then [] else [buf])"
proof -
  note d = flow_txD [OF f]
  obtain s' as where h: "handle_sdu_am now buf is_retx s = Inr (s', as)" "tam_inv s'" by (rule handle_sdu_am_ok [OF d(1) b])
  obtain sn where sn: "get_pdcp_sn buf (txam_pdcp_sn_len (tam_cfg s)) (tam_is_srb s) = Inr sn" using get_pdcp_sn_ok by blast
  let ?sdu = "make_sdu now buf (if tam_is_srb s \<and> is_retx then False else is_retx) sn"
  note w = write_correct [OF tam_wfD(5) [OF tam_invD(1) [OF d(1)]] make_sdu_sn_ok [OF sn], of now "if tam_is_srb s \<and> is_retx then False else is_retx"]
  obtain ok q where r: "write_sdu ?sdu (tam_queue s) = (ok, q)" by (metis prod.collapse)
  let ?s = "s\<lparr>tam_queue := q\<rparr>"
  have e: "s' = (if ok then fst (handle_changed_buffer_state_am ?s) else ?s)"
    "as = (if ok then Tx_Add_Sdus 1 (length buf) # snd (handle_changed_buffer_state_am ?s) else [Tx_Add_Lost_Sdus 1])"
    using h(1) by (auto simp: handle_sdu_am_def sn r Let_def case_prod_beta split: if_splits)
  have same: "tx_same s s'" "retx_queue s' = retx_queue s" "tam_queue s' = q"
    using e(1) handle_changed_same [of ?s] tx_same_trans [OF tx_same_queue] tx_same_queue by auto
  have "Tx_Add_Lost_Sdus 1 \<in> set as \<longleftrightarrow> \<not> ok" by (auto simp: e(2) handle_changed_buffer_state_am_def)
  moreover have "map sdu_buf (q_view q) = map sdu_buf (q_view (tam_queue s)) @ (if ok then [buf] else [])"
    using w(1,3) r by simp
  moreover have "flow_tx z sent a c s'" using flow_tx_same [OF f same(1) h(2)] retx_sent_same [OF same(1,2)] d(3) by simp
  ultimately show ?thesis using h(1) same by auto
qed

lemma flow_discard:
  assumes f: "flow_tx z sent a c s" and k: "k < STATE_DISCARDED"
  shows "flow_tx z sent a c (fst (discard_sdu_am k s)) \<and> tx_same s (fst (discard_sdu_am k s)) \<and>
    subseq (map sdu_buf (q_view (tam_queue (fst (discard_sdu_am k s))))) (map sdu_buf (q_view (tam_queue s)))"
proof -
  note d = flow_txD [OF f]
  let ?s = "s\<lparr>tam_queue := snd (try_discard k (tam_queue s))\<rparr>" and ?s' = "fst (discard_sdu_am k s)"
  have e: "?s' = ?s \<or> ?s' = fst (handle_changed_buffer_state_am ?s)"
    by (simp add: discard_sdu_am_def Let_def case_prod_beta)
  have same: "tx_same s ?s'" "retx_queue ?s' = retx_queue s" "tam_queue ?s' = snd (try_discard k (tam_queue s))"
    using e handle_changed_same [of ?s] tx_same_trans [OF tx_same_queue] tx_same_queue by auto
  have "flow_tx z sent a c ?s'"
    using flow_tx_same [OF f same(1) discard_sdu_am_ok [OF d(1) k]] retx_sent_same [OF same(1,2)] d(3) by simp
  moreover have "subseq (map sdu_buf (q_view (tam_queue ?s'))) (map sdu_buf (q_view (tam_queue s)))"
    using discard_correct(3) [OF tam_wfD(5) [OF tam_invD(1) [OF d(1)]] k] same(3) by (simp add: subseq_map)
  ultimately show ?thesis using same(1) by blast
qed

lemma flow_buffer_state:
  assumes f: "flow_tx z sent a c s"
  shows "\<exists>s' as. update_mac_buffer_state_am sp force s = Inr (s', as) \<and> flow_tx z sent a c s' \<and> tx_same s s' \<and>
    q_view (tam_queue s') = q_view (tam_queue s)"
proof -
  note d = flow_txD [OF f]
  obtain s' as where u: "update_mac_buffer_state_am sp force s = Inr (s', as)" "tam_inv s'"
    "tam_cfg s' = tam_cfg s" "tx_next_ack s' = tx_next_ack s" "tx_next s' = tx_next s" "tx_window s' = tx_window s"
    "retx_queue s' = retx_queue s" "sn_under_segmentation s' = sn_under_segmentation s" "q_view (tam_queue s') = q_view (tam_queue s)"
    by (rule update_mac_buffer_state_am_ok [OF d(1), of sp force]) (rule that)
  have same: "tx_same s s'" by (simp add: tx_same_def tx_progress_def u)
  show ?thesis using flow_tx_same [OF f same u(2)] retx_sent_same [OF same u(7)] d(3) u(1,9) same by simp
qed

lemma flow_status_changed:
  assumes f: "flow_tx z sent a c s"
  shows "flow_tx z sent a c (fst (on_status_report_changed s)) \<and> tx_same s (fst (on_status_report_changed s)) \<and>
    tam_queue (fst (on_status_report_changed s)) = tam_queue s"
  using flow_tx_same [OF f handle_changed_same(1)] retx_sent_same [OF handle_changed_same(1,2)] flow_txD(1,3) [OF f]
    handle_changed_same by (simp add: on_status_report_changed_def changed_buffer_state_inv)

lemma flow_stop:
  assumes f: "flow_tx z sent a c s"
  shows "flow_tx z sent a c (stop_tx_am s) \<and> tx_same s (stop_tx_am s) \<and> tam_queue (stop_tx_am s) = tam_queue s"
proof -
  have same: "tx_same s (stop_tx_am s)" "retx_queue (stop_tx_am s) = retx_queue s" "tam_queue (stop_tx_am s) = tam_queue s"
    by (simp_all add: stop_tx_am_def stop_lower_am_def tx_same_def tx_progress_def)
  then show ?thesis
    using flow_tx_same [OF f same(1) stop_tx_am_inv] retx_sent_same [OF same(1,2)] flow_txD(1,3) [OF f] by simp
qed

lemma flow_poll_expired:
  assumes f: "flow_tx z sent a c s"
  shows "\<exists>s' as. on_expired_poll_retransmit_timer sp (s\<lparr>poll_retransmit_timer := timer_stop (poll_retransmit_timer s)\<rparr>) = Inr (s', as) \<and>
    flow_tx z sent a c s' \<and> tx_same s s' \<and> q_view (tam_queue s') = q_view (tam_queue s)"
proof -
  note d = flow_txD [OF f]
  let ?s = "s\<lparr>poll_retransmit_timer := timer_stop (poll_retransmit_timer s)\<rparr>"
  have t: "tam_inv ?s" by (rule tam_inv_timer [OF d(1)])
  obtain s' as where u: "on_expired_poll_retransmit_timer sp ?s = Inr (s', as)" "tam_inv s'" "tam_cfg s' = tam_cfg ?s"
    "tx_next_ack s' = tx_next_ack ?s" "tx_next s' = tx_next ?s" "sn_under_segmentation s' = sn_under_segmentation ?s"
    "tx_sdu (tx_window s') = tx_sdu (tx_window ?s)" "tx_progress s' = tx_progress ?s" "q_view (tam_queue s') = q_view (tam_queue ?s)"
    "retx_view (retx_queue s') = retx_view (retx_queue ?s) \<or>
       tx_stalled ?s \<and> (\<exists>r. rtx_sn r = tx_next_ack ?s \<and> retx_view (retx_queue s') = retx_view (retx_queue ?s) @ [r])"
    by (rule poll_expired_ok [OF t, of sp]) (rule that)
  have pr: "tx_progress ?s = tx_progress s" by (simp add: tx_progress_def)
  have same: "tx_same s s'" using u pr by (simp add: tx_same_def)
  have ne: "tx_next_ack s \<noteq> tx_next s" if "tx_stalled ?s" "sn_under_segmentation s \<noteq> INVALID_RLC_SN"
  proof -
    have "tx_mod_base ?s = tx_mod_base s" by (simp add: fun_eq_iff tx_mod_base_def)
    then have "full_cm (tx_window s) \<or> tx_mod_base s (tx_next s) \<noteq> 0"
      using that by (auto simp: tx_stalled_def is_tx_window_full_def)
    then show ?thesis using twin_full_ne [OF d(10)] d(4,5) by (auto simp: tx_mod_base_def)
  qed
  have "retx_sent s'"
    using d(3) u(5,6,8,10) pr ne by (auto simp: retx_sent_def)
  then show ?thesis using flow_tx_same [OF f same u(2)] same u(1,9) by auto
qed

section \<open>Status PDUs at the transmitter\<close>

text \<open>A report of the receiver fulfils the obligations of the transmitter towards its peer.\<close>

lemma report_peer_ok:
  assumes f: "flow_tx z sent a c s" and p: "report_ok z c (tx_progress s) r p" and r: "a \<le> r"
  shows "status_peer_ok p s"
proof -
  note d = flow_txD [OF f] note sg = tx_seg_progress [OF f]
  have wf: "am_status_wf z p" and rc: "r \<le> c" and stop: "status_stop p = sn_of z r" using p by (simp_all add: report_ok_def)
  obtain k where k: "r \<le> k" "ack_sn p = sn_of z k" "k \<le> c \<or> k = Suc c \<and> 0 < tx_progress s" using p by (auto simp: report_ok_def)
  have half: "2048 \<le> sn_half z" using sn_half_cases [of z] by auto
  have c: "c \<le> a + sn_half z" using d(7,8) by simp
  have "status_sns_ok z p" using wf k(2) by (auto simp: status_sns_ok_def am_status_wf_def status_wf_def nack_normal_def)
  moreover have "sn_under_segmentation s \<noteq> INVALID_RLC_SN \<and> nacks p \<noteq> []" if e: "ack_sn p = (tx_next s + 1) mod tam_mod s"
  proof -
    have "sn_of z k = sn_of z (Suc c)" using e k(2) d(5,11) by (simp add: sn_of_Suc)
    moreover have "a \<le> k" "k < a + 2 * sn_half z" "Suc c < a + 2 * sn_half z" using k(1,3) r c half by auto
    ultimately have ks: "k = Suc c" using sn_of_eq [of a k z "Suc c"] d(6) by simp
    then have sg1: "tx_seg s = 1" using k(3) sg(1) by simp
    have "nacks p \<noteq> []"
    proof
      assume "nacks p = []"
      then have "sn_of z r = sn_of z k" using stop k(2) by (simp add: status_stop_def)
      then have "r = k" using sn_of_eq [of a r z k] r rc c half \<open>a \<le> k\<close> \<open>k < a + 2 * sn_half z\<close> by simp
      then show False using rc ks by simp
    qed
    then show ?thesis using sg1 by (simp add: tx_seg_def split: if_splits)
  qed
  ultimately show ?thesis using d(2) by (auto simp: status_peer_ok_def)
qed

lemma sn_seq_index:
  assumes "m \<in> set (nack_items z ack n)" "nack_sn n = sn_of z i" "0 < nack_count n"
  obtains k where "k < nack_count n" "nack_sn m = sn_of z (i + k)"
    "m = (if has_nack_range n then range_item (sn_mod z) n (sn_of z (i + k)) else n)"
proof (cases "has_nack_range n")
  case True
  then obtain x where x: "m = range_item (sn_mod z) n x" "x \<in> set (sn_seq z (nack_sn n) (unat (nack_range n)))"
    using assms(1) by (auto simp: nack_items_def dest: set_takeWhileD)
  then obtain k where k: "k < unat (nack_range n)" "x = sn_of z (i + k)"
    using assms(2) by (auto simp: sn_seq_def sn_of_add)
  show thesis by (rule that [of k]) (use k x True in \<open>simp_all add: nack_count_def\<close>)
next
  case False
  show thesis by (rule that [of 0]) (use assms False in \<open>simp_all add: nack_items_def\<close>)
qed

lemma report_nack_sent:
  assumes f: "flow_tx z sent a c s" and p: "report_ok z c (tx_progress s) r p" and r: "a \<le> r"
    and m: "m \<in> set (status_items z p)"
  shows "nack_sent s m"
  unfolding nack_sent_def
proof (intro impI)
  assume v: "sn_under_segmentation s \<noteq> INVALID_RLC_SN" and ms: "nack_sn m = sn_under_segmentation s"
  note d = flow_txD [OF f]
  have half: "2048 \<le> sn_half z" using sn_half_cases [of z] by auto
  have c: "c \<le> a + sn_half z" using d(7,8) by simp
  obtain n where n: "n \<in> set (nacks p)" "m \<in> set (nack_items z (ack_sn p) n)" using m by (auto simp: status_items_def)
  obtain i where i: "r \<le> i" "nack_sn n = sn_of z i" "0 < nack_count n"
    "i + nack_count n - 1 < c \<or> i + nack_count n - 1 = c \<and> nack_has_so n \<and>
       (if so_end n = so_end_of_sdu then \<not> has_nack_range n else unat (so_end n) < tx_progress s)"
    using p n(1) by (auto simp: report_ok_def nack_ends_def)
  obtain k where k: "k < nack_count n" "nack_sn m = sn_of z (i + k)"
    "m = (if has_nack_range n then range_item (sn_mod z) n (sn_of z (i + k)) else n)"
    by (rule sn_seq_index [OF n(2) i(2,3)])
  have "sn_of z (i + k) = sn_of z c" using ms k(2) twin_okD(6) [OF d(10)] v by auto
  moreover have "i + k \<le> c" using i(4) k(1) by auto
  ultimately have ik: "i + k = c" using sn_of_eq [of a "i + k" z c] i(1) r c half d(6) by simp
  then have last: "i + nack_count n - 1 = c" "nack_has_so n"
    "if so_end n = so_end_of_sdu then \<not> has_nack_range n else unat (so_end n) < tx_progress s"
    using i(4) k(1) by auto
  show "nack_has_so m \<and> (so_end m = so_end_of_sdu \<or> unat (so_end m) < tx_progress s)"
  proof (cases "has_nack_range n")
    case False
    then show ?thesis using k(3) last by (auto split: if_splits)
  next
    case True
    have "nack_last_sn n mod sn_mod z = sn_of z c"
    proof -
      have "nack_last_sn n = sn_of z i + of_nat (nack_count n - 1)"
        using True i(2,3) by (simp add: nack_last_sn_def nack_count_def of_nat_diff)
      then show ?thesis using sn_of_add [of z i "nack_count n - 1"] last(1) i(3) by simp
    qed
    then show ?thesis using k(3) last(2,3) True ik by (simp add: range_item_def Let_def empty_nack_def split: if_splits)
  qed
qed

lemma flow_status:
  assumes f: "flow_tx z sent a c s" and p: "report_ok z c (tx_progress s) r p" and r: "a \<le> r"
  shows "\<exists>s' as a'. handle_status_pdu sp p s = Inr (s', as) \<and> a' \<in> {a, r} \<and> flow_tx z sent a' c s' \<and>
    tx_progress s' = tx_progress s \<and> q_view (tam_queue s') = q_view (tam_queue s)"
proof (cases "status_accepted p s")
  case False
  then show ?thesis using handle_status_rejected [OF False, of sp] f by blast
next
  case True
  note d = flow_txD [OF f]
  have rc: "r \<le> c" and stop: "status_stop p = sn_of z r" using p by (simp_all add: report_ok_def)
  have c: "c < a + 2 * sn_half z" using d(7,8) sn_half_pos(1) [of z] by linarith
  obtain s' as where h: "handle_status_pdu sp p s = Inr (s', as)" "tam_inv s'" "status_post p s s'"
    "(\<forall>n \<in> set (status_items (tam_z s) p). nack_sent s n) \<longrightarrow> retx_sent s'"
    by (rule handle_status_ok [OF d(1) True report_peer_ok [OF f p r], of sp]) (rule that)
  have ps: "tam_cfg s' = tam_cfg s" "tx_next s' = tx_next s" "sn_under_segmentation s' = sn_under_segmentation s"
    "q_view (tam_queue s') = q_view (tam_queue s)" "tx_next_ack s' = sn_of z r" "tx_progress s' = tx_progress s"
    using h(3) stop by (simp_all add: status_post_def)
  have z: "tam_z s' = z" "tx_seg s' = tx_seg s" using ps d(2) by (simp_all add: tam_z_def tx_seg_def)
  have rs: "retx_sent s'" using h(4) report_nack_sent [OF f p r] d(2) by simp
  have "tx_sdu (tx_window s') (sn_of z i) = Some (sent ! i)" if i: "r \<le> i" "i < length sent" for i
  proof -
    have "i < a + 2 * sn_half z" using i d(8) by simp
    then have "sn_pos z (sn_of z a) (sn_of z r) \<le> sn_pos z (sn_of z a) (sn_of z i)"
      using sn_pos_of [of a r z] sn_pos_of [of a i z] r rc c i by simp
    then show ?thesis using h(3) d(2,4) d(9) [of i] i r stop by (simp add: status_post_def)
  qed
  then have "flow_tx z sent r c s'"
    using d(5,7,8) r rc h(2) z rs ps by (simp add: flow_tx_def)
  then show ?thesis using h(1) ps by blast
qed

section \<open>Data PDUs of the transmitter\<close>

text \<open>The SDU that a pull took from the queue.\<close>

definition tx_taken :: "rlc_tx_am_entity \<Rightarrow> rlc_tx_am_entity \<Rightarrow> byte_buffer list" where
  "tx_taken s s' =
     (if tx_sdu (tx_window s) (tx_next s) = None
      then (case tx_sdu (tx_window s') (tx_next s) of None \<Rightarrow> [] | Some b \<Rightarrow> [b]) else [])"

text \<open>A PDU that carries bytes of the SDU \<open>i\<close> that were sent.\<close>

definition cut_of :: "rlc_am_sn_size \<Rightarrow> byte_buffer list \<Rightarrow> nat \<Rightarrow> nat \<Rightarrow> nat \<Rightarrow> byte_buffer \<Rightarrow> bool" where
  "cut_of z sent c u i pdu \<longleftrightarrow> i < length sent \<and> am_sdu_ok (sent ! i) \<and>
     (\<exists>p so k. pdu = am_cut_pdu z (sn_of z i) p so k (sent ! i) \<and> p \<le> 1 \<and> 0 < k \<and>
        so + k \<le> length (sent ! i) \<and> sent_upto c u i (so + k))"

lemma cut_ofI:
  "i < length sent \<Longrightarrow> am_sdu_ok (sent ! i) \<Longrightarrow> pdu = am_cut_pdu z (sn_of z i) p so k (sent ! i) \<Longrightarrow> p \<le> 1 \<Longrightarrow> 0 < k \<Longrightarrow>
    so + k \<le> length (sent ! i) \<Longrightarrow> sent_upto c u i (so + k) \<Longrightarrow> cut_of z sent c u i pdu"
  by (auto simp: cut_of_def)

lemma cut_of_later: "cut_of z sent c u i pdu \<Longrightarrow> later c u c' u' \<Longrightarrow> cut_of z (sent @ new) c' u' i pdu"
  unfolding cut_of_def using sent_upto_later by (simp add: nth_append) blast

lemma flow_tx_sdu_ok: "flow_tx z sent a c s \<Longrightarrow> a \<le> i \<Longrightarrow> i < length sent \<Longrightarrow> am_sdu_ok (sent ! i)"
  using flow_txD(9) twin_okD(8) [OF flow_txD(10)] by (fastforce simp: tx_sdu_Some)

text \<open>What a pull has to establish.\<close>

definition pulled :: "rlc_am_sn_size \<Rightarrow> byte_buffer list \<Rightarrow> nat \<Rightarrow> nat \<Rightarrow> rlc_tx_am_entity \<Rightarrow> byte_buffer \<Rightarrow> rlc_tx_am_entity \<Rightarrow> bool" where
  "pulled z sent a c s pdu s' \<longleftrightarrow>
     (\<exists>c'. flow_tx z (sent @ tx_taken s s') a c' s' \<and> later c (tx_progress s) c' (tx_progress s') \<and>
       map sdu_buf (q_view (tam_queue s)) = tx_taken s s' @ map sdu_buf (q_view (tam_queue s')) \<and>
       (pdu \<noteq> [] \<longrightarrow> (\<exists>i \<ge> a. cut_of z (sent @ tx_taken s s') c' (tx_progress s') i pdu)))"

lemma pulled_retx:
  assumes f: "flow_tx z sent a c s" and inv: "tam_inv s'" "tam_cfg s' = tam_cfg s" "tx_next_ack s' = tx_next_ack s"
    and r: "sends_retx s s' sn so n" and pdu: "pdu = am_cut_pdu z sn p so n b" "p \<le> 1" "0 < n" "so + n \<le> length b"
    "tx_sdu (tx_window s') sn = Some b"
  shows "pulled z sent a c s pdu s'"
proof -
  note d = flow_txD [OF f]
  have e: "tx_next s' = tx_next s" "sn_under_segmentation s' = sn_under_segmentation s" "tx_window s' = tx_window s" "tam_queue s' = tam_queue s"
    using r by (simp_all add: sends_retx_def)
  obtain q rest where q: "retx_view (retx_queue s) = q # rest" "sn = rtx_sn q" "so = unat (rtx_so q)" "n \<le> unat (rtx_length q)"
    "retx_view (retx_queue s') = (if n = unat (rtx_length q) then rest
        else q\<lparr>rtx_so := rtx_so q + of_nat n, rtx_length := rtx_length q - of_nat n\<rparr> # rest)"
    using r unfolding sends_retx_def by blast
  have pr: "tx_progress s' = tx_progress s" by (simp add: tx_progress_def e)
  have same: "tx_same s s'" using inv e pr by (simp add: tx_same_def)
  have "unat (rtx_so q + of_nat n) + unat (rtx_length q - of_nat n) \<le> unat (rtx_so q) + unat (rtx_length q)"
  proof -
    have l: "unat (rtx_length q) < 2 ^ 32" using unsigned_less [of "rtx_length q"] by simp
    then have un: "unat (of_nat n :: u32) = n" using q(4) by (simp add: unsigned_of_nat take_bit_nat_eq_self)
    then have "unat (rtx_length q - of_nat n) = unat (rtx_length q) - n" using q(4) by (simp add: unat_sub word_le_nat_alt)
    moreover have "unat (rtx_so q + of_nat n) \<le> unat (rtx_so q) + n" using un by (simp add: unat_word_ariths)
    ultimately show ?thesis using q(4) by linarith
  qed
  then have rs: "retx_sent s'" using d(3) q(1,5) e pr by (auto simp: retx_sent_def)
  have f': "flow_tx z sent a c s'" using flow_tx_same [OF f same inv(1) rs] by simp
  obtain i where i: "a \<le> i" "i < length sent" "sn = sn_of z i" "b = sent ! i" by (rule flow_tx_index [OF f' pdu(5)])
  have "sent_upto c (tx_progress s') i (so + n)"
  proof (cases "i < c")
    case False
    then have ic: "i = c" "tx_seg s = 1" using i(2) d(7) by (auto simp: tx_seg_def split: if_splits)
    then have "unat (rtx_so q) + unat (rtx_length q) \<le> tx_progress s"
      using d(3,5) q(1,2) i(3) by (auto simp: retx_sent_def tx_seg_def split: if_splits)
    then show ?thesis using q(3,4) ic pr by (simp add: sent_upto_def)
  qed (simp add: sent_upto_def)
  then have "cut_of z sent c (tx_progress s') i pdu"
    by (intro cut_ofI [OF i(2) flow_tx_sdu_ok [OF f i(1,2)]]) (use pdu i in simp_all)
  moreover have "tx_taken s s' = []" by (simp add: tx_taken_def e split: option.split)
  ultimately show ?thesis unfolding pulled_def using f' i(1) pr e(4) by (intro exI [of _ c]) (auto simp: later_def)
qed

lemma pulled_new:
  assumes f: "flow_tx z sent a c s" and inv: "tam_inv s'" "tam_cfg s' = tam_cfg s" "tx_next_ack s' = tx_next_ack s"
    and r: "sends_new s s' sn so n b" and pdu: "pdu = am_cut_pdu z sn p so n b" "p \<le> 1" "0 < n" "so + n \<le> length b"
  shows "pulled z sent a c s pdu s'"
proof -
  note d = flow_txD [OF f] note sg = tx_seg_progress [OF f]
  let ?sent = "sent @ tx_taken s s'"
  have sn: "sn = sn_of z c" "so = tx_progress s" using r d(5) by (simp_all add: sends_new_def)
  have w: "tx_sdu (tx_window s') = (tx_sdu (tx_window s))(sn_of z c \<mapsto> b)" and rq: "retx_view (retx_queue s') = []"
    using r sn by (auto simp: sends_new_def)
  have taken: "length ?sent = Suc c" "?sent ! c = b" "map sdu_buf (q_view (tam_queue s)) = tx_taken s s' @ map sdu_buf (q_view (tam_queue s'))"
  proof -
    have "length ?sent = Suc c \<and> ?sent ! c = b \<and> map sdu_buf (q_view (tam_queue s)) = tx_taken s s' @ map sdu_buf (q_view (tam_queue s'))"
    proof (cases "sn_under_segmentation s = INVALID_RLC_SN")
      case True
      then obtain sdu where q: "q_view (tam_queue s) = sdu # q_view (tam_queue s')" "sdu_buf sdu = b" "tx_sdu (tx_window s) sn = None"
        using r by (auto simp: sends_new_def)
      then have "tx_taken s s' = [b]" using w sn d(5) by (simp add: tx_taken_def)
      moreover have "length sent = c" using d(7) True by (simp add: tx_seg_def)
      ultimately show ?thesis using q by (simp add: nth_append)
    next
      case False
      then have "tam_queue s' = tam_queue s" "tx_sdu (tx_window s) sn = Some b" using r by (auto simp: sends_new_def)
      then show ?thesis using d(5,6,7) d(9) [of c] sn False by (simp add: tx_taken_def tx_seg_def)
    qed
    then show "length ?sent = Suc c" "?sent ! c = b" "map sdu_buf (q_view (tam_queue s)) = tx_taken s s' @ map sdu_buf (q_view (tam_queue s'))" by auto
  qed
  define c' where "c' = (if so + n = length b then Suc c else c)"
  have nx: "tx_next s' = sn_of z c'" "tx_seg s' = Suc c - c'" "tx_progress s' = (if so + n = length b then 0 else so + n)"
    using r d(5,11) sn by (auto simp: sends_new_def c'_def sn_of_Suc tx_seg_def tx_progress_def)
  have z: "tam_z s' = z" "tx_next_ack s' = sn_of z a" using inv d(2,4) by (simp_all add: tam_z_def)
  have half: "2048 \<le> sn_half z" using sn_half_cases [of z] by auto
  have cb: "c \<le> a + sn_half z" using d(7,8) by simp
  have len: "length ?sent \<le> a + sn_half z"
  proof -
    note t = twin_okD [OF tam_invD(3) [OF inv(1)], unfolded z nx(1)]
    have pos: "sn_pos z (sn_of z a) (sn_of z c') = c' - a" using sn_pos_of [of a c' z] cb half d(6) by (simp add: c'_def)
    show ?thesis
    proof (cases "so + n = length b")
      case True
      then show ?thesis using t(5) pos taken(1) d(6) by (simp add: c'_def)
    next
      case False
      then have "sn_under_segmentation s' \<noteq> INVALID_RLC_SN" using nx(2) by (auto simp: c'_def tx_seg_def split: if_splits)
      then have "c - a < sn_half z" using t(6) pos False by (auto simp: c'_def)
      then show ?thesis using taken(1) d(6) by simp
    qed
  qed
  have "tx_sdu (tx_window s') (sn_of z i) = Some (?sent ! i)" if i: "a \<le> i" "i < length ?sent" for i
  proof (cases "i = c")
    case False
    then have "i < c" using i(2) taken(1) by simp
    moreover have "sn_of z i \<noteq> sn_of z c" using sn_of_eq [of a i z c] i(1) \<open>i < c\<close> cb half d(6) by simp
    ultimately show ?thesis using w d(9) [of i] i(1) d(7) by (simp add: nth_append)
  qed (use w taken in simp)
  moreover have "retx_sent s'" using rq by (simp add: retx_sent_def)
  ultimately have f': "flow_tx z ?sent a c' s'"
    unfolding flow_tx_def using inv(1) z nx(1,2) d(6) taken(1) len by (auto simp: c'_def)
  have "sent_upto c' (tx_progress s') c (so + n)" using nx(3) by (simp add: sent_upto_def c'_def)
  then have cut: "cut_of z ?sent c' (tx_progress s') c pdu"
    by (intro cut_ofI [OF _ flow_tx_sdu_ok [OF f']]) (use taken pdu sn d(6) in simp_all)
  have "later c (tx_progress s) c' (tx_progress s')" using nx(3) sn(2) by (simp add: later_def c'_def)
  then show ?thesis
    unfolding pulled_def using f' taken(3) cut d(6) by (intro exI [of _ c']) auto
qed

lemma flow_pull:
  assumes f: "flow_tx z sent a c s" and p: "pull_post grant s pdu s'"
  shows "pulled z sent a c s pdu s'"
proof (cases "pdu = []")
  case True
  note d = flow_txD [OF f]
  have e: "tam_inv s'" "tam_cfg s' = tam_cfg s" "tx_next_ack s' = tx_next_ack s" "q_view (tam_queue s') = q_view (tam_queue s)"
    "retx_queue s' = retx_queue s" "tx_next s' = tx_next s" "sn_under_segmentation s' = sn_under_segmentation s" "tx_window s' = tx_window s"
    using p True by (simp_all add: pull_post_def)
  have same: "tx_same s s'" using e by (simp add: tx_same_def tx_progress_def)
  have "flow_tx z sent a c s'" using flow_tx_same [OF f same e(1)] retx_sent_same [OF same e(5)] d(3) by simp
  moreover have "tx_taken s s' = []" by (simp add: tx_taken_def e split: option.split)
  ultimately show ?thesis using True same e(4) by (auto simp: pulled_def later_def tx_same_def)
next
  case False
  note d = flow_txD [OF f]
  have e: "tam_inv s'" "tam_cfg s' = tam_cfg s" "tx_next_ack s' = tx_next_ack s" "sends grant s pdu s'"
    using p False by (simp_all add: pull_post_def)
  then obtain sn p so n b where k: "pdu = am_cut_pdu z sn p so n b" "p \<le> 1" "0 < n" "so + n \<le> length b"
    "tx_sdu (tx_window s') sn = Some b" "sends_retx s s' sn so n \<or> sends_new s s' sn so n b"
    unfolding sends_def d(2) by (elim exE conjE) (rule that)
  from k(6) show ?thesis using pulled_retx [OF f e(1-3) _ k(1-5)] pulled_new [OF f e(1-3) _ k(1-4)] by blast
qed

end
