(* ===== verification/Rlc_Am_Flow_Rx.thy ===== *)
theory Rlc_Am_Flow_Rx
  imports Rlc_Am_Flow
begin

text \<open>
  The receiver of one direction of an AM bearer: what it holds are parts of the SDUs that were sent, a data PDU of the
  transmitter completes at most the SDU that it is a part of, and the reports that it builds are reports over the
  SDUs that were sent.
\<close>

section \<open>The receiver\<close>

lemma am_w_half: "am_w s = sn_half (am_z s)"
  by (simp add: am_w_def sn_half_def)

lemma sent_upto_mono: "sent_upto c u i e \<Longrightarrow> e' \<le> e \<Longrightarrow> sent_upto c u i e'"
  by (auto simp: sent_upto_def)

definition info_sent :: "byte_buffer list \<Rightarrow> nat \<Rightarrow> nat \<Rightarrow> nat \<Rightarrow> rlc_rx_am_sdu_info \<Rightarrow> bool" where
  "info_sent sent c u i info \<longleftrightarrow>
     (if am_fully_received info then i < c
      else \<forall>g \<in> set (segment_set info). seg_slice (sent ! i) g \<and> sent_upto c u i (seg_end g))"

definition flow_rx :: "rlc_am_sn_size \<Rightarrow> byte_buffer list \<Rightarrow> nat \<Rightarrow> nat \<Rightarrow> nat \<Rightarrow> nat \<Rightarrow> rlc_rx_am_entity \<Rightarrow> bool" where
  "flow_rx z sent c u r h s \<longleftrightarrow>
     am_inv s \<and> am_z s = z \<and> rx_next s = sn_of z r \<and> ram_next_highest s = sn_of z h \<and> r \<le> h \<and> h \<le> r + sn_half z \<and>
     h \<le> length sent \<and> r \<le> c \<and>
     (\<forall>i info. r \<le> i \<longrightarrow> i < h \<longrightarrow> cm_lookup (ram_window s) (sn_of z i) = Some info \<longrightarrow> info_sent sent c u i info)"

lemma flow_rxD:
  assumes "flow_rx z sent c u r h s"
  shows "am_inv s" "am_z s = z" "rx_next s = sn_of z r" "ram_next_highest s = sn_of z h" "r \<le> h" "h \<le> r + sn_half z"
    "h \<le> length sent" "r \<le> c" "am_core s" "am_wf s" "ram_mod s = sn_mod z"
    "\<And>i info. r \<le> i \<Longrightarrow> i < h \<Longrightarrow> cm_lookup (ram_window s) (sn_of z i) = Some info \<Longrightarrow> info_sent sent c u i info"
  using assms am_wfD(1) [of s] by (auto simp: flow_rx_def am_inv_def am_core_def)

lemma flow_rx_pos:
  assumes "flow_rx z sent c u r h s"
  shows "r \<le> i \<Longrightarrow> i < r + 2 * sn_half z \<Longrightarrow> am_pos s (sn_of z i) = i - r"
    "i < r \<Longrightarrow> r \<le> i + 2 * sn_half z \<Longrightarrow> am_pos s (sn_of z i) = i + 2 * sn_half z - r"
    "am_pos s (ram_next_highest s) = h - r" "am_w s = sn_half z"
    "x < sn_mod z \<Longrightarrow> x = sn_of z (r + am_pos s x)"
  using flow_rxD [OF assms] sn_pos_of [of r i z] sn_pos_of_below [of i r z] sn_pos_of [of r h z] sn_half_pos(1) [of z]
    sn_of_pos [of x z r]
  by (simp_all add: am_pos_def am_w_half)

lemma flow_rx_cong:
  assumes "flow_rx z sent c u r h s" "am_inv s'" "ram_cfg s' = ram_cfg s" "rx_next s' = rx_next s"
    "ram_next_highest s' = ram_next_highest s" "ram_window s' = ram_window s"
  shows "flow_rx z sent c u r h s'"
  using assms by (simp add: flow_rx_def am_z_def)

lemma flow_rx_later:
  assumes f: "flow_rx z sent c u r h s" and l: "later c u c' u'"
  shows "flow_rx z (sent @ new) c' u' r h s"
proof -
  note d = flow_rxD [OF f]
  have "info_sent (sent @ new) c' u' i info" if "r \<le> i" "i < h" "cm_lookup (ram_window s) (sn_of z i) = Some info" for i info
    using d(12) [OF that] that(2) d(7) l sent_upto_later [OF _ l]
    by (auto simp: info_sent_def nth_append later_def split: if_splits)
  then show ?thesis using d l by (auto simp: flow_rx_def later_def)
qed

text \<open>The window holds nothing above RX\_Next\_Highest, and the SDU just below it.\<close>

lemma flow_rx_keys:
  assumes f: "flow_rx z sent c u r h s" and i: "r \<le> i" "i < r + 2 * sn_half z"
  shows "cm_lookup (ram_window s) (sn_of z i) \<noteq> None \<Longrightarrow> i < h" "Suc i = h \<Longrightarrow> cm_lookup (ram_window s) (sn_of z i) \<noteq> None"
proof -
  note d = flow_rxD [OF f] note p = flow_rx_pos [OF f] note c = am_coreD [OF d(9)]
  show "i < h" if l: "cm_lookup (ram_window s) (sn_of z i) \<noteq> None"
  proof -
    obtain info where "cm_lookup (ram_window s) (sn_of z i) = Some info" using l by auto
    then have "am_pos s (sn_of z i) < am_pos s (ram_next_highest s)" using c(3) unfolding am_keys_def by blast
    then show ?thesis using p(1) [OF i] p(3) by simp
  qed
  show "cm_lookup (ram_window s) (sn_of z i) \<noteq> None" if "Suc i = h"
    using c(4) p(1) [OF i] p(3) that i(1) d(11) by (simp add: am_prev_def)
qed

text \<open>The report that is built.\<close>

lemma flow_rx_report:
  assumes f: "flow_rx z sent c u r h s" and len: "length sent = c + (if 0 < u then 1 else 0)"
    and p: "am_status_wf z p" "ack_sn p < ram_mod s" "am_pos s (ack_sn p) \<le> am_pos s (ram_next_highest s)"
    "reported_ok s p" "status_stop p = rx_next s"
  shows "report_ok z c u r p"
proof -
  note d = flow_rxD [OF f] note q = flow_rx_pos [OF f]
  have "ack_sn p = sn_of z (r + am_pos s (ack_sn p))" using q(5) p(2) d(11) by simp
  moreover have "r + am_pos s (ack_sn p) \<le> h" using p(3) q(3) d(5) by simp
  ultimately have ack: "\<exists>k \<ge> r. ack_sn p = sn_of z k \<and> (k \<le> c \<or> k = Suc c \<and> 0 < u)"
    using d(7) len by (intro exI [of _ "r + am_pos s (ack_sn p)"]) (auto split: if_splits)
  have "nack_ends z c u r n" if n: "n \<in> set (nacks p)" for n
  proof -
    have rep: "nack_reported s n" using p(4) n by (simp add: reported_ok_def)
    let ?i = "r + am_pos s (nack_sn n)"
    have i: "nack_sn n = sn_of z ?i" using q(5) rep d(11) by (simp add: nack_reported_def)
    obtain x where x: "x < ram_mod s" "am_pos s x = nack_last_pos s n" and cnt: "0 < nack_count n" and lt: "nack_last_pos s n < h - r"
      and e: "if nack_has_so n \<and> so_end n \<noteq> so_end_of_sdu
        then \<exists>info. cm_lookup (ram_window s) x = Some info \<and> \<not> am_fully_received info \<and>
               (\<exists>g \<in> set (segment_set info). unat (so_end n) < seg_end g)
        else cm_lookup (ram_window s) x = None \<or> nack_has_so n \<and> so_start n \<noteq> 0 \<and> \<not> has_nack_range n"
      using rep q(3) by (auto simp: nack_reported_def)
    define j where "j = ?i + nack_count n - 1"
    have j: "j = r + nack_last_pos s n" "j < h" using cnt lt d(5) by (auto simp: j_def nack_last_pos_def)
    have xj: "x = sn_of z j" using q(5) [of x] x d(11) j(1) by simp
    have jc: "j < c \<or> j = c \<and> 0 < u" using j(2) d(7) len by (auto split: if_splits)
    have "j < c \<or> j = c \<and> 0 < u \<and> nack_has_so n \<and> (if so_end n = so_end_of_sdu then \<not> has_nack_range n else unat (so_end n) < u)"
    proof (cases "nack_has_so n \<and> so_end n \<noteq> so_end_of_sdu")
      case True
      then obtain info g where g: "cm_lookup (ram_window s) (sn_of z j) = Some info" "\<not> am_fully_received info"
        "g \<in> set (segment_set info)" "unat (so_end n) < seg_end g" using e xj by auto
      have "sent_upto c u j (seg_end g)" using d(12) [of j info] g(1-3) j by (auto simp: info_sent_def)
      then show ?thesis using jc True g(4) by (auto simp: sent_upto_def)
    next
      case False
      have "Suc j \<noteq> h" if "cm_lookup (ram_window s) (sn_of z j) = None"
        using flow_rx_keys(2) [OF f, of j] that j d(6) sn_half_pos(1) [of z] by auto
      then have "j < c" if "cm_lookup (ram_window s) (sn_of z j) = None" using that j(2) d(7) len by (auto split: if_splits)
      then show ?thesis using False e xj jc by auto
    qed
    then show ?thesis using cnt i unfolding nack_ends_def j_def by (intro conjI exI [of _ ?i]) simp_all
  qed
  then show ?thesis using p(1,5) d(3,8) ack by (simp add: report_ok_def)
qed

section \<open>Data PDUs\<close>

text \<open>The numbers of the SDUs that are received completely.\<close>

definition rx_got :: "rlc_am_sn_size \<Rightarrow> nat \<Rightarrow> nat \<Rightarrow> rlc_rx_am_entity \<Rightarrow> nat set" where
  "rx_got z r h s = {i. i < r \<or> r \<le> i \<and> i < h \<and> received_am s (sn_of z i)}"

lemma rx_got_finite [simp]: "finite (rx_got z r h s)"
  by (rule finite_subset [of _ "{..< r} \<union> {..< h}"]) (auto simp: rx_got_def)

lemma rx_got_cong: "ram_window s' = ram_window s \<Longrightarrow> rx_got z r h s' = rx_got z r h s"
  by (simp add: rx_got_def received_am_def)

lemma flow_rx_received:
  assumes f: "flow_rx z sent c u r h s" and i: "r \<le> i" "i < r + 2 * sn_half z"
  shows "received_am s (sn_of z i) \<Longrightarrow> i < h \<and> i < c"
  using flow_rx_keys(1) [OF f i] flow_rxD(12) [OF f i(1)] by (fastforce simp: received_iff info_sent_def)

lemma flow_rx_moved:
  assumes f: "flow_rx z sent c u r h s" and inv': "am_inv s'" and i: "r \<le> i" "i < r + sn_half z" "i < length sent"
    and nr: "\<not> received_am s (sn_of z i)" and m: "am_moved (sn_of z i) info s s'" and inf: "info_sent sent c u i info"
  shows "\<exists>r' \<ge> r. flow_rx z sent c u r' (max h (Suc i)) s' \<and>
    rx_got z r' (max h (Suc i)) s' = rx_got z r h s \<union> (if am_fully_received info then {i} else {}) \<and> i \<notin> rx_got z r h s"
proof -
  note d = flow_rxD [OF f] note q = flow_rx_pos [OF f]
  define h' where "h' = max h (Suc i)"
  define r' where "r' = r + am_pos s (rx_next s')"
  have z': "am_z s' = z" using am_moved_cfg [OF m] d(2) by (simp add: am_z_def)
  note wf' = am_coreD(1) [OF inv' [unfolded am_inv_def, THEN conjunct1]]
  have m': "ram_mod s' = sn_mod z" using am_wfD(1) [OF wf'] z' by simp
  have ip: "am_pos s (sn_of z i) = i - r" using q(1) [OF i(1)] i(2) by simp
  have hp: "am_pos s (ram_next_highest s') = h' - r" using m ip q(3) d(5) i(1) by (simp add: am_moved_def h'_def)
  have hb: "h' \<le> r + sn_half z" "h \<le> h'" "r \<le> h'" using d(5,6) i by (simp_all add: h'_def)
  have nh: "ram_next_highest s' = sn_of z h'" using q(5) [of "ram_next_highest s'"] am_wfD(8) [OF wf'] m' hp hb by simp
  have nx: "rx_next s' = sn_of z r'" using q(5) [of "rx_next s'"] am_wfD(5) [OF wf'] m' by (simp add: r'_def)
  have "am_pos s (rx_next s') \<le> am_pos s (ram_next_highest s')" using m unfolding am_moved_def by blast
  then have r': "r \<le> r'" "r' \<le> h'" using hp hb(3) by (simp_all add: r'_def)
  have lk: "cm_lookup (ram_window s') x = (if x < sn_mod z \<and> am_pos s x < am_pos s (rx_next s') then None
      else if x = sn_of z i then Some (if am_fully_received info then info\<lparr>sdu_data := Sdu_Slice []\<rparr> else info)
      else cm_lookup (ram_window s) x)" for x
    using m d(11) by (simp add: am_moved_def)
  have bl: "\<forall>x < sn_mod z. am_pos s x < am_pos s (rx_next s') \<longrightarrow> received_am s x \<or> x = sn_of z i \<and> am_fully_received info"
    using m d(11) by (simp add: am_moved_def)
  have pj: "am_pos s (sn_of z j) = j - r" if "r \<le> j" "j < h'" for j using q(1) [of j] that hb by simp
  have ji: "sn_of z j = sn_of z i \<longleftrightarrow> j = i" if "r \<le> j" "j < h'" for j using sn_of_eq [of r j z i] that hb i by simp
  let ?info = "if am_fully_received info then info\<lparr>sdu_data := Sdu_Slice []\<rparr> else info"
  have look: "cm_lookup (ram_window s') (sn_of z j) = (if j = i then Some ?info else cm_lookup (ram_window s) (sn_of z j))"
    if j: "r' \<le> j" "j < h'" for j
  proof -
    have "\<not> am_pos s (sn_of z j) < am_pos s (rx_next s')" using pj [of j] j r' by (simp add: r'_def)
    then show ?thesis using lk ji [of j] j r' by simp
  qed
  have below: "received_am s (sn_of z j) \<or> j = i \<and> am_fully_received info" if j: "r \<le> j" "j < r'" for j
  proof -
    have "am_pos s (sn_of z j) < am_pos s (rx_next s')" using pj [of j] j r' by (simp add: r'_def)
    then show ?thesis using bl ji [of j] j r' by (metis order.strict_trans2 sn_of_less)
  qed
  have rc: "received_am s (sn_of z j) \<Longrightarrow> j < h \<and> j < c" if "r \<le> j" "j < h'" for j
    using flow_rx_received [OF f that(1)] that hb by simp
  have "r' \<le> c"
  proof (cases "r' = r")
    case False
    then have "r \<le> r' - 1" "r' - 1 < r'" "r' - 1 < h'" using r' by auto
    then have "r' - 1 < c" using below [of "r' - 1"] rc [of "r' - 1"] inf by (auto simp: info_sent_def)
    then show ?thesis by simp
  qed (use d(8) in simp)
  moreover have "info_sent sent c u j info'" if j: "r' \<le> j" "j < h'" "cm_lookup (ram_window s') (sn_of z j) = Some info'" for j info'
  proof (cases "j = i")
    case True
    then show ?thesis using look [OF j(1,2)] j(3) inf by (cases "am_fully_received info") (auto simp: info_sent_def)
  next
    case False
    then have l: "cm_lookup (ram_window s) (sn_of z j) = Some info'" using look [OF j(1,2)] j(3) by simp
    then have "j < h" using flow_rx_keys(1) [OF f, of j] j r' hb by simp
    then show ?thesis using d(12) [OF _ _ l] j(1) r' by simp
  qed
  moreover have "h' \<le> r' + sn_half z"
  proof -
    have "h' < r' + 2 * sn_half z" using r' hb sn_half_pos(1) [of z] by linarith
    then have "am_pos s' (ram_next_highest s') = h' - r'" using sn_pos_of [OF r'(2)] z' nx nh by (simp add: am_pos_def)
    moreover have "am_pos s' (ram_next_highest s') \<le> am_w s'" using inv' by (simp add: am_inv_def am_core_def am_vars_def)
    ultimately show ?thesis using z' by (simp add: am_w_half)
  qed
  ultimately have f': "flow_rx z sent c u r' h' s'"
    using inv' z' nx nh r' d(7) i(3) by (simp add: flow_rx_def h'_def)
  have rec': "received_am s' (sn_of z j) \<longleftrightarrow> (if j = i then am_fully_received info else received_am s (sn_of z j))" if "r' \<le> j" "j < h'" for j
    using look [OF that] by (simp add: received_am_def)
  have "j \<in> rx_got z r' h' s' \<longleftrightarrow> j \<in> rx_got z r h s \<or> j = i \<and> am_fully_received info" for j
  proof -
    consider "j < r" | "r \<le> j" "j < r'" | "r' \<le> j" "j < h'" | "h' \<le> j" by linarith
    then show ?thesis
    proof cases
      case 1
      then show ?thesis using r' by (simp add: rx_got_def)
    next
      case 2
      then show ?thesis using below [OF 2] rc [of j] r' by (auto simp: rx_got_def)
    next
      case 3
      then show ?thesis using rec' [OF 3] rc [of j] r' nr by (auto simp: rx_got_def)
    next
      case 4
      then show ?thesis using r' hb by (auto simp: rx_got_def h'_def)
    qed
  qed
  then have "rx_got z r' h' s' = rx_got z r h s \<union> (if am_fully_received info then {i} else {})" by auto
  moreover have "i \<notin> rx_got z r h s" using nr i(1) by (simp add: rx_got_def)
  ultimately show ?thesis using f' r'(1) unfolding h'_def by blast
qed

text \<open>What a part of an SDU makes of what was received before.\<close>

lemma stored_sent:
  assumes old: "segs_ok (segment_set old)" "\<forall>g \<in> set (segment_set old). seg_slice (sent ! i) g \<and> sent_upto c u i (seg_end g)"
    and pay: "payload \<noteq> []" "am_part_of (sent ! i) h payload" "am_si h = Full_Sdu \<Longrightarrow> am_so h = 0"
    and sdu: "sent ! i \<noteq> []" "length (sent ! i) \<le> 65535"
    and upto: "sent_upto c u i (unat (am_so h) + length payload)" "sent_upto c u i (length (sent ! i)) \<Longrightarrow> i < c"
  shows "info_sent sent c u i (am_stored h payload old)"
    "reassemble_sdu_am True (am_stored h payload old) = (if am_fully_received (am_stored h payload old) then Some (sent ! i) else None)"
proof -
  let ?sdu = "sent ! i" and ?info = "am_stored h payload old"
  have re: "reassemble_sdu_am True ?info =
      (if am_si h = Full_Sdu \<or> segs_cover (segment_set old) \<union> {unat (am_so h) ..< unat (am_so h) + length payload} =
         {0 ..< length ?sdu} then Some ?sdu else None)"
    by (rule reassemble_stored [OF old(1) _ pay(1,2) sdu]) (use old(2) in blast)
  have none: "reassemble_sdu_am True ?info = None \<longleftrightarrow> \<not> am_fully_received ?info"
    by (simp add: reassemble_sdu_am_def split: rlc_rx_am_sdu_data.split)
  show "reassemble_sdu_am True ?info = (if am_fully_received ?info then Some ?sdu else None)" using re none by (auto split: if_splits)
  show "info_sent sent c u i ?info"
  proof (cases "am_si h = Full_Sdu")
    case True
    then have "sent_upto c u i (length ?sdu)" using upto(1) pay(2,3) by (simp add: am_part_of_def)
    then show ?thesis using upto(2) True by (simp add: info_sent_def am_stored_def)
  next
    case False
    define g where "g = \<lparr>seg_si = am_si h, seg_so = am_so h, seg_payload = payload\<rparr>"
    define segms where "segms = snd (store_segment (segment_set old) g)"
    have g: "seg_slice ?sdu g" using pay(2) False by (simp add: am_part_of_def g_def)
    then have ok: "seg_ok g" using pay(1) sdu(2) by (simp add: seg_ok_def seg_slice_def) (simp add: g_def)
    have inv: "segs_inv ?sdu (segment_set old)" using old by (simp add: segs_inv_def)
    have sinv: "segs_inv ?sdu segms" and cov: "segs_cover segms = segs_cover (segment_set old) \<union> seg_cover g"
      using segs.store_inv [OF inv ok g] segs.store_cover [OF inv ok g] by (simp_all add: segms_def)
    have byte: "sent_upto c u i (Suc b)" if b: "b \<in> segs_cover segms" for b
    proof -
      consider x where "x \<in> set (segment_set old)" "b < seg_end x" | "b < seg_end g"
        using b unfolding cov by (auto simp: segs_cover_def seg_cover_def)
      then show ?thesis
      proof cases
        case 1
        then show ?thesis using old(2) sent_upto_mono [of c u i "seg_end x" "Suc b"] by auto
      next
        case 2
        then show ?thesis using upto(1) sent_upto_mono [of c u i "seg_end g" "Suc b"] by (simp add: seg_end_def g_def)
      qed
    qed
    have seg: "seg_slice ?sdu x \<and> sent_upto c u i (seg_end x)" if "x \<in> set segms" for x
    proof -
      have x: "seg_ok x" "seg_slice ?sdu x" using sinv that by (auto simp: segs_inv_def segs_ok_def)
      then have "seg_end x - 1 \<in> segs_cover segms" using that seg_so_less_end [OF x(1)] by (force simp: segs_cover_def seg_cover_def)
      then show ?thesis using byte [of "seg_end x - 1"] x(2) seg_so_less_end [OF x(1)] by simp
    qed
    obtain full gap where iv: "update_segment_inventory segms = (full, gap)" by fastforce
    have st: "?info = old\<lparr>sdu_data := Segment_Set segms, am_fully_received := full, am_has_gap := gap\<rparr>"
      using False iv by (simp add: am_stored_def Let_def segms_def g_def)
    have "i < c" if full
    proof -
      have "segs_cover segms = {0 ..< length ?sdu}" using inventory_correct(1) [OF sinv sdu(1)] iv that by simp
      then show ?thesis using byte [of "length ?sdu - 1"] sdu(1) upto(2) by simp
    qed
    then show ?thesis using seg by (simp add: info_sent_def st segment_set_def)
  qed
qed

lemma part_of_cut:
  assumes "so + k \<le> length b" "length b \<le> max_am_sdu" "0 < k"
  shows "am_part_of b (am_cut_header z sn p so k (length b)) (take k (drop so b))"
proof -
  have "unat (of_nat so :: u16) = so" using assms by (intro of_nat_so) simp
  then show ?thesis
    using assms by (auto simp: am_part_of_def am_cut_header_def si_of_cut_def seg_slice_def seg_end_def min_def split: if_splits)
qed

lemma am_read_dc: "rlc_am_read_data_pdu_header (x # xs) z h0 = Some h \<Longrightarrow> am_dc h = dc_of_number (drop_bit 7 x AND 1)"
  by (auto simp: rlc_am_read_data_pdu_header_def rlc_am_read_so_def Let_def split: if_splits rlc_am_sn_size.splits list.splits)

lemma cut_not_control:
  assumes "sn < sn_mod z" "p \<le> 1" "so \<le> max_am_sdu" "0 < k" "so + k \<le> length b"
  shows "\<not> is_control_pdu (am_cut_pdu z sn p so k b)"
proof -
  let ?pdu = "am_cut_pdu z sn p so k b"
  obtain x xs where x: "?pdu = x # xs" using am_cut_pdu_ne [OF assms(4,5), of z sn p] by (cases ?pdu) auto
  have "dc_of_number (drop_bit 7 x AND 1) = Dc_Data"
    using am_read_dc [OF am_cut_pdu_read(1) [OF assms, unfolded x]] by (simp add: am_cut_header_def)
  then show ?thesis by (auto simp: is_control_pdu_def x dc_of_number_def split: if_splits)
qed

text \<open>
  A data PDU that was sent when all SDUs below \<open>t\<close> were: it is dropped, or it completes nothing, or it completes the SDU that it is
  a part of, which is then delivered.
\<close>

lemma flow_rx_process:
  assumes f: "flow_rx z sent c u r h s" and cut: "cut_of z sent c u i pdu" and t: "h \<le> t" "t \<le> i + sn_half z"
    and len: "length sent \<le> r + sn_half z" and u: "c < length sent \<longrightarrow> u < length (sent ! c)"
  shows "\<exists>ch rq s' as r' h'. process_data_pdu True now pdu s = Inr (ch, rq, s', as) \<and> r \<le> r' \<and> h' \<le> max h (Suc i) \<and>
    flow_rx z sent c u r' h' s' \<and> am_same_reports s s' \<and> 
    (rx_got z r' h' s' = rx_got z r h s \<and> delivered as = [] \<or>
     i \<notin> rx_got z r h s \<and> rx_got z r' h' s' = insert i (rx_got z r h s) \<and> delivered as = [sent ! i])"
proof -
  note d = flow_rxD [OF f] note q = flow_rx_pos [OF f]
  obtain p so k where il: "i < length sent" "am_sdu_ok (sent ! i)" and pdu: "pdu = am_cut_pdu z (sn_of z i) p so k (sent ! i)"
    and k: "p \<le> 1" "0 < k" "so + k \<le> length (sent ! i)" "sent_upto c u i (so + k)"
    using cut by (auto simp: cut_of_def)
  have sdu: "length (sent ! i) \<le> max_am_sdu" "sent ! i \<noteq> []" using il(2) by (simp_all add: am_sdu_ok_def)
  then have sdu16: "length (sent ! i) \<le> 65535" and so: "so \<le> max_am_sdu" using k(3) by (simp_all add: max_am_sdu_def)
  let ?h = "am_cut_header z (sn_of z i) p so k (length (sent ! i))" and ?pay = "take k (drop so (sent ! i))"
  note rd = am_cut_pdu_read [OF sn_of_less [of z i] k(1) so k(2,3), folded pdu]
  have sn: "am_sn ?h = sn_of z i" and soh: "unat (am_so ?h) = so" using of_nat_so [OF so] by (simp_all add: am_cut_header_def)
  have pay: "length ?pay = k" "?pay \<noteq> []" using k(2,3) by auto
  have hl: "am_header_packed_size ?h < length pdu" using rd(2) pay(2) by (cases "length pdu \<le> am_header_packed_size ?h") (simp_all del: take_drop)
  have h: "rlc_am_read_data_pdu_header pdu (am_z s) empty_am_header = Some ?h" using rd(1) d(2) by simp
  show ?thesis
  proof (cases "inside_rx_window s (am_sn ?h) \<and> \<not> received_am s (am_sn ?h)")
    case False
    then have "process_data_pdu True now pdu s = Inr (False, am_p ?h \<noteq> 0, s, [])"
      by (intro process_data_pdu_outside [OF h hl]) blast
    then show ?thesis
      using f by (intro exI [of _ False] exI [of _ "am_p ?h \<noteq> 0"] exI [of _ s] exI [of _ "[]"] exI [of _ r] exI [of _ h])
        (simp add: am_same_reports_def)
  next
    case True
    then have nr: "\<not> received_am s (sn_of z i)" and win: "am_pos s (sn_of z i) < sn_half z"
      using inside_iff [OF d(10)] q(4) sn by auto
    have ir: "r \<le> i" "i < r + sn_half z"
    proof -
      show "r \<le> i"
      proof (rule ccontr)
        assume "\<not> r \<le> i"
        moreover have "r \<le> i + sn_half z" using t d(5) by simp
        ultimately show False using q(2) [of i] win by simp
      qed
      show "i < r + sn_half z" using il(1) len by simp
    qed
    let ?old = "am_old now (sn_of z i) s"
    let ?info = "am_stored ?h ?pay ?old"
    have keys: "am_keys s" using am_coreD(3) [OF d(9)] .
    have old: "segs_ok (segment_set ?old)" by (rule am_old_segments(1) [OF keys nr])
    have parts: "\<forall>g \<in> set (segment_set ?old). seg_slice (sent ! i) g \<and> sent_upto c u i (seg_end g)"
    proof (cases "cm_lookup (ram_window s) (sn_of z i)")
      case (Some info)
      then have "i < h" using flow_rx_keys(1) [OF f ir(1)] ir(2) by simp
      moreover have "\<not> am_fully_received info" using nr Some by (auto simp: received_iff)
      ultimately show ?thesis using d(12) [OF ir(1) _ Some] Some by (simp add: am_old_def info_sent_def)
    qed (simp add: am_old_def am_fresh_def segment_set_def)
    have part: "am_part_of (sent ! i) ?h ?pay" by (rule part_of_cut [OF k(3) sdu(1) k(2)])
    have full: "i < c" if "sent_upto c u i (length (sent ! i))"
      using that u il(1) by (cases "i < c") (auto simp: sent_upto_def)
    have zero: "am_so ?h = 0" if "am_si ?h = Full_Sdu" using that by (simp add: am_cut_header_def si_of_cut_def split: if_splits)
    have up: "sent_upto c u i (unat (am_so ?h) + length ?pay)" using k(4) soh pay(1) by simp
    have inf: "info_sent sent c u i ?info"
      by (rule stored_sent(1) [OF old parts pay(2) part _ sdu(2) sdu16 up]) (erule zero, erule full)
    have re: "reassemble_sdu_am True ?info = (if am_fully_received ?info then Some (sent ! i) else None)"
      by (rule stored_sent(2) [OF old parts pay(2) part _ sdu(2) sdu16 up]) (erule zero, erule full)
    have fit: "am_segment_fits ?h (drop (am_header_packed_size ?h) pdu)"
      using soh pay(1) k(3) sdu16 unfolding rd(2) by (simp add: am_segment_fits_def)
    obtain ch s' as where pr: "process_data_pdu True now pdu s = Inr (ch, am_p ?h \<noteq> 0, s', as)" "am_inv s'"
      "am_moved (sn_of z i) ?info s s'" "delivered as = (case reassemble_sdu_am True ?info of None \<Rightarrow> [] | Some sdu \<Rightarrow> [sdu])"
      using process_data_pdu_inside [OF d(1) h hl True [THEN conjunct1] True [THEN conjunct2] fit, of True now]
      unfolding rd(2) sn by (elim exE conjE) (rule that)
    obtain r' where r': "r \<le> r'" "flow_rx z sent c u r' (max h (Suc i)) s'"
      "rx_got z r' (max h (Suc i)) s' = rx_got z r h s \<union> (if am_fully_received ?info then {i} else {})" "i \<notin> rx_got z r h s"
      using flow_rx_moved [OF f pr(2) ir il(1) nr pr(3) inf] by blast
    have "am_same_reports s s'" using pr(3) by (simp add: am_moved_def)
    moreover have "delivered as = (if am_fully_received ?info then [sent ! i] else [])" using pr(4) re by simp
    ultimately show ?thesis
      using pr(1) r' by (intro exI [of _ ch] exI [of _ "am_p ?h \<noteq> 0"] exI [of _ s'] exI [of _ as] exI [of _ r'] exI [of _ "max h (Suc i)"])
        (simp split: if_splits)
  qed
qed

section \<open>Reports of the receiver\<close>

text \<open>
  The report that waits to be fetched stays the same or is a report of the state that was reached; \<open>do_status\<close> is only set together
  with a new report.
\<close>

definition rx_step :: "rlc_am_sn_size \<Rightarrow> nat \<Rightarrow> nat \<Rightarrow> nat \<Rightarrow> rlc_rx_am_entity \<Rightarrow> rlc_rx_am_entity \<Rightarrow> bool" where
  "rx_step z c u r s s' \<longleftrightarrow>
     ram_cfg s' = ram_cfg s \<and> timer_set (status_prohibit_timer s') = timer_set (status_prohibit_timer s) \<and>
     (do_status s' \<longrightarrow> do_status s \<and> status_for_exchange s' = status_for_exchange s \<or> report_ok z c u r (status_for_exchange s'))"

lemma rx_step_same: "am_same_reports s s' \<Longrightarrow> rx_step z c u r s s'"
  by (simp add: am_same_reports_def rx_step_def)

lemma flow_rx_refresh:
  assumes f: "flow_rx z sent c u r h s" and len: "length sent = c + (if 0 < u then 1 else 0)" and inv: "refresh_status_report s = Inr s'"
  shows "flow_rx z sent c u r h (s'\<lparr>do_status := b\<rparr>)" "report_ok z c u r (status_for_exchange s')"
    "ram_window s' = ram_window s" "ram_cfg s' = ram_cfg s" "status_prohibit_timer s' = status_prohibit_timer s"
    "do_status s' = do_status s"
proof -
  note d = flow_rxD [OF f]
  obtain p where p: "refresh_status_report s = Inr (s\<lparr>status_owned_by_writer := status_for_exchange s, status_for_exchange := p,
       status_report_size := packed_size p\<rparr>)"
    "am_status_wf (am_z s) p" "ack_sn p < ram_mod s" "am_pos s (ack_sn p) \<le> am_pos s (ram_next_highest s)"
    "reported_ok s p" "status_stop p = rx_next s" by (rule refresh_reported [OF d(9)])
  have s': "s' = s\<lparr>status_owned_by_writer := status_for_exchange s, status_for_exchange := p, status_report_size := packed_size p\<rparr>"
    using p(1) inv by simp
  have "am_inv s'" using refresh_status_report_ok [OF d(1)] inv by auto
  then show "flow_rx z sent c u r h (s'\<lparr>do_status := b\<rparr>)"
    by (intro flow_rx_cong [OF f] am_inv_do_status) (simp_all add: s')
  show "report_ok z c u r (status_for_exchange s')"
    using flow_rx_report [OF f len _ p(3-6)] p(2) d(2) by (simp add: s')
  show "ram_window s' = ram_window s" "ram_cfg s' = ram_cfg s" "status_prohibit_timer s' = status_prohibit_timer s" "do_status s' = do_status s"
    by (simp_all add: s')
qed

lemma flow_rx_pdu:
  assumes f: "flow_rx z sent c u r h s" and cut: "cut_of z sent c u i pdu" and t: "h \<le> t" "i < t" "t \<le> i + sn_half z"
    and half: "length sent \<le> r + sn_half z" and u: "c < length sent \<longrightarrow> u < length (sent ! c)"
    and len: "length sent = c + (if 0 < u then 1 else 0)"
  shows "\<exists>s' as r' h'. handle_pdu_am True now pdu s = Inr (s', as, None) \<and> r \<le> r' \<and> h' \<le> t \<and>
    flow_rx z sent c u r' h' s' \<and> rx_step z c u r' s s' \<and>
    (rx_got z r' h' s' = rx_got z r h s \<and> delivered as = [] \<or>
     i \<notin> rx_got z r h s \<and> rx_got z r' h' s' = insert i (rx_got z r h s) \<and> delivered as = [sent ! i])"
proof -
  obtain ch rq s1 as r' h' where p: "process_data_pdu True now pdu s = Inr (ch, rq, s1, as)" "r \<le> r'" "h' \<le> max h (Suc i)"
    "flow_rx z sent c u r' h' s1" "am_same_reports s s1"
    "rx_got z r' h' s1 = rx_got z r h s \<and> delivered as = [] \<or>
     i \<notin> rx_got z r h s \<and> rx_got z r' h' s1 = insert i (rx_got z r h s) \<and> delivered as = [sent ! i]"
    using flow_rx_process [OF f cut t(1,3) half u, of now] by (elim exE conjE) (rule that)
  have cfg: "ram_cfg s1 = ram_cfg s" using p(5) by (simp add: am_same_reports_def)
  obtain s' as' where h: "handle_data_pdu True now pdu s = Inr (s', as')" "delivered as' = delivered as"
    "if ch \<or> rq then \<exists>s2. refresh_status_report s1 = Inr s2 \<and> s' = (if rq then s2\<lparr>do_status := True\<rparr> else s2) else s' = s1"
    using handle_data_pdu_after [OF p(1) flow_rxD(1) [OF p(4)] cfg] by blast
  have pdu: "pdu \<noteq> []" "\<not> is_control_pdu pdu"
    using cut cut_not_control [OF sn_of_less] am_cut_pdu_ne by (auto simp: cut_of_def am_sdu_ok_def)
  have "flow_rx z sent c u r' h' s' \<and> rx_step z c u r' s s' \<and> rx_got z r' h' s' = rx_got z r' h' s1"
  proof (cases "ch \<or> rq")
    case False
    then show ?thesis using h(3) p(4) rx_step_same [OF p(5)] by simp
  next
    case True
    then obtain s2 where s2: "refresh_status_report s1 = Inr s2" "s' = s2\<lparr>do_status := rq \<or> do_status s2\<rparr>" using h(3) by auto
    note rf = flow_rx_refresh [OF p(4) len s2(1)]
    have "flow_rx z sent c u r' h' s'" unfolding s2(2) by (rule rf(1))
    moreover have "rx_step z c u r' s s'" using p(5) rf by (simp add: rx_step_def s2(2) am_same_reports_def)
    ultimately show ?thesis using rx_got_cong [of s' s1] rf(3) s2(2) by simp
  qed
  moreover have "handle_pdu_am True now pdu s = Inr (s', Metrics_Add_Pdus 1 (length pdu) # as', None)"
    using h(1) pdu by (simp add: handle_pdu_am_def Let_def)
  moreover have "h' \<le> t" using p(3) t by simp
  ultimately show ?thesis using p(2,6) h(2)
    by (intro exI [of _ s'] exI [of _ "Metrics_Add_Pdus 1 (length pdu) # as'"] exI [of _ r'] exI [of _ h']) simp
qed

lemma flow_rx_expiry:
  assumes f: "flow_rx z sent c u r h s" and len: "length sent = c + (if 0 < u then 1 else 0)" and run: "is_running (ram_reassembly_timer s)"
  shows "\<exists>s' as. on_expired_reassembly_timer_am (s\<lparr>ram_reassembly_timer := timer_stop (ram_reassembly_timer s)\<rparr>) = Inr (s', as) \<and>
    flow_rx z sent c u r h s' \<and> rx_step z c u r s s' \<and> rx_got z r h s' = rx_got z r h s"
proof -
  obtain s' as s1 s2 where e: "on_expired_reassembly_timer_am (s\<lparr>ram_reassembly_timer := timer_stop (ram_reassembly_timer s)\<rparr>) = Inr (s', as)"
    "am_inv s1" "am_same_window s s1" "refresh_status_report s1 = Inr s2" "s' = s2\<lparr>do_status := True\<rparr>"
    using expiry_am_ok [OF flow_rxD(1) [OF f] run] by blast
  note w = am_same_windowD [OF e(3)]
  have f1: "flow_rx z sent c u r h s1" using flow_rx_cong [OF f e(2)] w by simp
  note rf = flow_rx_refresh [OF f1 len e(4)]
  have "rx_step z c u r s s'" using rf w by (simp add: rx_step_def e(5))
  moreover have "flow_rx z sent c u r h s'" unfolding e(5) by (rule rf(1))
  ultimately show ?thesis using e(1) rx_got_cong [of s' s] rf(3) w(4) by (simp add: e(5))
qed

text \<open>The operations that concern only the reports and the timers.\<close>

lemma flow_rx_get:
  assumes f: "flow_rx z sent c u r h s" and p: "am_status_ok z p"
  shows "flow_rx z sent c u r h ((snd (snd (get_status_pdu s)))\<lparr>status_owned_by_reader := p\<rparr>)"
  using am_inv_status_ok [OF flow_rxD(1) [OF f]] flow_rxD(2) [OF f] p
  by (intro flow_rx_cong [OF f] am_inv_cong [OF flow_rxD(1) [OF f]])
    (simp_all add: get_status_pdu_def Let_def rlc_rx_am_state.defs)

lemma flow_rx_prohibit:
  assumes f: "flow_rx z sent c u r h s"
  shows "flow_rx z sent c u r h (s\<lparr>status_prohibit_timer := t\<rparr>)" "flow_rx z sent c u r h (s\<lparr>status_prohibit_timer_is_running := b\<rparr>)"
  using am_inv_status_ok [OF flow_rxD(1) [OF f]]
  by (intro flow_rx_cong [OF f] am_inv_cong [OF flow_rxD(1) [OF f]], simp_all add: rlc_rx_am_state.defs)+

lemma flow_rx_stop:
  assumes f: "flow_rx z sent c u r h s"
  shows "flow_rx z sent c u r h (stop_am s)"
  by (intro flow_rx_cong [OF f] stop_am_inv flow_rxD(1) [OF f]) (simp_all add: stop_am_def)

end
