(* ===== verification/Rlc_Am_Dir.thy ===== *)
theory Rlc_Am_Dir
  imports Rlc_Am_Flow_Rx "HOL-Library.Multiset"
begin

text \<open>
  One direction of an AM bearer: the transmitter of one end, the receiver of the other, the data PDUs on their way and the
  reports on their way back. \<open>am_dir\<close> is the invariant; it is kept by every operation of either side and by the loss of PDUs.
\<close>

section \<open>PDUs on their way\<close>

text \<open>
  Every data PDU carries bytes of an SDU \<open>i\<close> and was sent when the SDUs below some \<open>t\<close> had been taken from the queue, no more than
  half of the sequence numbers above \<open>i\<close>. These times increase along the channel.
\<close>

fun data_chain :: "rlc_am_sn_size \<Rightarrow> byte_buffer list \<Rightarrow> nat \<Rightarrow> nat \<Rightarrow> nat \<Rightarrow> byte_buffer list \<Rightarrow> bool" where
  "data_chain z sent c u lo [] = True"
| "data_chain z sent c u lo (pdu # pdus) =
     (\<exists>i t. lo \<le> t \<and> i < t \<and> t \<le> i + sn_half z \<and> t \<le> length sent \<and> cut_of z sent c u i pdu \<and> data_chain z sent c u t pdus)"

lemma data_chain_ConsI:
  "lo \<le> t \<Longrightarrow> i < t \<Longrightarrow> t \<le> i + sn_half z \<Longrightarrow> t \<le> length sent \<Longrightarrow> cut_of z sent c u i pdu \<Longrightarrow> data_chain z sent c u t pdus \<Longrightarrow>
    data_chain z sent c u lo (pdu # pdus)"
  by auto

lemma data_chain_lo: "data_chain z sent c u lo pdus \<Longrightarrow> lo' \<le> lo \<Longrightarrow> data_chain z sent c u lo' pdus"
  by (cases pdus) (auto intro: order.trans)

lemma data_chain_later:
  "data_chain z sent c u lo pdus \<Longrightarrow> later c u c' u' \<Longrightarrow> data_chain z (sent @ new) c' u' lo pdus"
proof (induction pdus arbitrary: lo)
  case (Cons pdu pdus)
  then obtain i t where "lo \<le> t" "i < t" "t \<le> i + sn_half z" "t \<le> length sent" "cut_of z sent c u i pdu" "data_chain z sent c u t pdus"
    by auto
  moreover from this have "cut_of z (sent @ new) c' u' i pdu" "data_chain z (sent @ new) c' u' t pdus"
    using Cons.IH Cons.prems(2) cut_of_later by blast+
  ultimately show ?case by (intro data_chain_ConsI [of lo t i]) simp_all
qed simp

lemma data_chain_snoc:
  assumes "data_chain z sent c u lo pdus" "lo \<le> length sent" "length sent \<le> i + sn_half z" "cut_of z sent c u i pdu"
  shows "data_chain z sent c u lo (pdus @ [pdu])"
  using assms
proof (induction pdus arbitrary: lo)
  case Nil
  then have "i < length sent" by (simp add: cut_of_def)
  then show ?case using Nil.prems unfolding append_Nil by (intro data_chain_ConsI [of lo "length sent" i]) simp_all
next
  case (Cons p pdus)
  then obtain j t where t: "lo \<le> t" "j < t" "t \<le> j + sn_half z" "t \<le> length sent" "cut_of z sent c u j p" "data_chain z sent c u t pdus"
    by auto
  from Cons.IH [OF t(6,4) Cons.prems(3,4)] show ?case unfolding append_Cons by (intro data_chain_ConsI [of lo t j] t)
qed

lemma data_chain_tl: "data_chain z sent c u lo (pdu # pdus) \<Longrightarrow> data_chain z sent c u lo pdus"
  using data_chain_lo by auto

text \<open>
  Every report acknowledges the SDUs below some number. These numbers increase along the channel; they are at least
  the number of SDUs that are acknowledged at the transmitter and at most the number of RX\_Next.
\<close>

fun stat_chain :: "rlc_am_sn_size \<Rightarrow> nat \<Rightarrow> nat \<Rightarrow> nat \<Rightarrow> rlc_am_status_pdu list \<Rightarrow> nat \<Rightarrow> bool" where
  "stat_chain z c u a [] r = (a \<le> r)"
| "stat_chain z c u a (p # ps) r = (\<exists>k \<ge> a. report_ok z c u k p \<and> stat_chain z c u k ps r)"

lemma stat_chain_lo: "stat_chain z c u a ps r \<Longrightarrow> a' \<le> a \<Longrightarrow> stat_chain z c u a' ps r"
  by (cases ps) (auto intro: order.trans)

lemma stat_chain_le: "stat_chain z c u a ps r \<Longrightarrow> a \<le> r"
  by (induction ps arbitrary: a) (auto intro: order.trans)

lemma stat_chain_hi: "stat_chain z c u a ps r \<Longrightarrow> r \<le> r' \<Longrightarrow> stat_chain z c u a ps r'"
  by (induction ps arbitrary: a) auto

lemma stat_chain_later: "stat_chain z c u a ps r \<Longrightarrow> later c u c' u' \<Longrightarrow> stat_chain z c' u' a ps r"
  by (induction ps arbitrary: a) (auto intro: report_ok_later)

lemma stat_chain_snoc: "stat_chain z c u a ps r \<Longrightarrow> report_ok z c u r p \<Longrightarrow> stat_chain z c u a (ps @ [p]) r"
  by (induction ps arbitrary: a) auto

lemma stat_chain_drop: "stat_chain z c u a (ps @ p # qs) r \<Longrightarrow> stat_chain z c u a (ps @ qs) r"
  by (induction ps arbitrary: a) (auto intro: stat_chain_lo)

lemma stat_chain_trim:
  "stat_chain z c u a (ps @ [p]) r \<Longrightarrow> (\<And>k. report_ok z c u k p \<Longrightarrow> report_ok z c u k q) \<Longrightarrow> stat_chain z c u a (ps @ [q]) r"
  by (induction ps arbitrary: a) auto

lemma stat_chain_last: "stat_chain z c u a (ps @ [p]) r \<Longrightarrow> \<exists>k. report_ok z c u k p"
  by (induction ps arbitrary: a) auto

section \<open>The invariant of a direction\<close>

text \<open>The report that waits to be fetched by the transmitter of the same end.\<close>

definition rx_pending :: "rlc_rx_am_entity \<Rightarrow> rlc_am_status_pdu list" where
  "rx_pending s = (if do_status s then [status_for_exchange s] else [])"

text \<open>
  \<open>data\<close> and \<open>stats\<close> are on their way, \<open>accepted\<close> are the SDUs that the queue of the transmitter accepted, and \<open>dlv\<close> the ones that the
  receiver delivered.
\<close>

definition am_dir ::
  "rlc_am_sn_size \<Rightarrow> byte_buffer list \<Rightarrow> byte_buffer list \<Rightarrow> rlc_am_status_pdu list \<Rightarrow> byte_buffer list \<Rightarrow>
     rlc_tx_am_entity \<Rightarrow> rlc_rx_am_entity \<Rightarrow> bool" where
  "am_dir z accepted data stats dlv tx rx \<longleftrightarrow>
     (\<exists>sent a c r h. flow_tx z sent a c tx \<and> flow_rx z sent c (tx_progress tx) r h rx \<and>
        data_chain z sent c (tx_progress tx) h data \<and> stat_chain z c (tx_progress tx) a (stats @ rx_pending rx) r \<and>
        subseq (sent @ map sdu_buf (q_view (tam_queue tx))) accepted \<and>
        mset dlv = image_mset (nth sent) (mset_set (rx_got z r h rx)))"

lemma am_dirI:
  "flow_tx z sent a c tx \<Longrightarrow> flow_rx z sent c (tx_progress tx) r h rx \<Longrightarrow> data_chain z sent c (tx_progress tx) h data \<Longrightarrow>
    stat_chain z c (tx_progress tx) a (stats @ rx_pending rx) r \<Longrightarrow>
    subseq (sent @ map sdu_buf (q_view (tam_queue tx))) accepted \<Longrightarrow>
    mset dlv = image_mset (nth sent) (mset_set (rx_got z r h rx)) \<Longrightarrow> am_dir z accepted data stats dlv tx rx"
  unfolding am_dir_def by blast

lemma am_dirE:
  assumes "am_dir z accepted data stats dlv tx rx"
  obtains sent a c r h where "flow_tx z sent a c tx" "flow_rx z sent c (tx_progress tx) r h rx"
    "data_chain z sent c (tx_progress tx) h data" "stat_chain z c (tx_progress tx) a (stats @ rx_pending rx) r"
    "subseq (sent @ map sdu_buf (q_view (tam_queue tx))) accepted"
    "mset dlv = image_mset (nth sent) (mset_set (rx_got z r h rx))"
  using assms unfolding am_dir_def by blast

section \<open>Operations of the transmitter\<close>

lemma dir_tx_same:
  assumes d: "am_dir z accepted data stats dlv tx rx"
    and keeps: "\<And>sent a c. flow_tx z sent a c tx \<Longrightarrow> flow_tx z sent a c tx' \<and> tx_same tx tx'"
    and q: "subseq (map sdu_buf (q_view (tam_queue tx'))) (map sdu_buf (q_view (tam_queue tx)) @ new)"
  shows "am_dir z (accepted @ new) data stats dlv tx' rx"
proof -
  from d obtain sent a c r h where f: "flow_tx z sent a c tx" "flow_rx z sent c (tx_progress tx) r h rx"
    "data_chain z sent c (tx_progress tx) h data" "stat_chain z c (tx_progress tx) a (stats @ rx_pending rx) r"
    "subseq (sent @ map sdu_buf (q_view (tam_queue tx))) accepted"
    "mset dlv = image_mset (nth sent) (mset_set (rx_got z r h rx))" by (rule am_dirE)
  have k: "flow_tx z sent a c tx'" "tx_progress tx' = tx_progress tx" using keeps [OF f(1)] by (auto simp: tx_same_def)
  have "subseq (sent @ map sdu_buf (q_view (tam_queue tx'))) ((sent @ map sdu_buf (q_view (tam_queue tx))) @ new)"
    unfolding append_assoc by (intro list_emb_append_mono q) simp
  also have "subseq \<dots> (accepted @ new)" by (intro list_emb_append_mono f(5)) simp
  finally show ?thesis by (intro am_dirI [of z sent a c _ r h]) (use f k in simp_all)
qed

lemmas dir_tx_keeps = dir_tx_same [where new = "[]", simplified]

lemma dir_sdu:
  assumes d: "am_dir z accepted data stats dlv tx rx" and b: "am_sdu_ok buf"
  shows "\<exists>tx' as. handle_sdu_am now buf is_retx tx = Inr (tx', as) \<and>
    am_dir z (if Tx_Add_Lost_Sdus 1 \<in> set as then accepted else accepted @ [buf]) data stats dlv tx' rx"
proof -
  from d obtain sent a c where f: "flow_tx z sent a c tx" by (rule am_dirE)
  obtain tx' as where h: "handle_sdu_am now buf is_retx tx = Inr (tx', as)"
    "map sdu_buf (q_view (tam_queue tx')) = map sdu_buf (q_view (tam_queue tx)) @ (if Tx_Add_Lost_Sdus 1 \<in> set as then [] else [buf])"
    using flow_sdu [OF f b, of now is_retx] by blast
  have k: "flow_tx z sent a c tx' \<and> tx_same tx tx'" if "flow_tx z sent a c tx" for sent a c
    using flow_sdu [OF that b, of now is_retx] h(1) by auto
  have "am_dir z (accepted @ (if Tx_Add_Lost_Sdus 1 \<in> set as then [] else [buf])) data stats dlv tx' rx"
    by (rule dir_tx_same [OF d k]) (simp_all add: h(2))
  then show ?thesis using h(1) by (auto split: if_splits)
qed

lemma dir_discard:
  "am_dir z accepted data stats dlv tx rx \<Longrightarrow> k < STATE_DISCARDED \<Longrightarrow> am_dir z accepted data stats dlv (fst (discard_sdu_am k tx)) rx"
  by (rule dir_tx_keeps, assumption) (use flow_discard in \<open>auto elim!: am_dirE\<close>)

lemma dir_status_changed:
  "am_dir z accepted data stats dlv tx rx \<Longrightarrow> am_dir z accepted data stats dlv (fst (on_status_report_changed tx)) rx"
  by (rule dir_tx_keeps, assumption) (use flow_status_changed in \<open>auto elim!: am_dirE\<close>)

lemma dir_stop_tx: "am_dir z accepted data stats dlv tx rx \<Longrightarrow> am_dir z accepted data stats dlv (stop_tx_am tx) rx"
  by (rule dir_tx_keeps, assumption) (use flow_stop in \<open>auto elim!: am_dirE\<close>)

lemma dir_buffer_state:
  assumes d: "am_dir z accepted data stats dlv tx rx"
  shows "\<exists>tx' as. update_mac_buffer_state_am sp force tx = Inr (tx', as) \<and> am_dir z accepted data stats dlv tx' rx"
proof -
  from d obtain sent a c where f: "flow_tx z sent a c tx" by (rule am_dirE)
  obtain tx' as where u: "update_mac_buffer_state_am sp force tx = Inr (tx', as)" "q_view (tam_queue tx') = q_view (tam_queue tx)"
    using flow_buffer_state [OF f, of sp force] by blast
  have "flow_tx z sent a c tx' \<and> tx_same tx tx'" if "flow_tx z sent a c tx" for sent a c
    using flow_buffer_state [OF that, of sp force] u(1) by auto
  from dir_tx_keeps [OF d this] u show ?thesis by simp
qed

lemma dir_poll_expired:
  assumes d: "am_dir z accepted data stats dlv tx rx"
  shows "\<exists>tx' as. on_expired_poll_retransmit_timer sp (tx\<lparr>poll_retransmit_timer := timer_stop (poll_retransmit_timer tx)\<rparr>) = Inr (tx', as) \<and>
    am_dir z accepted data stats dlv tx' rx"
proof -
  from d obtain sent a c where f: "flow_tx z sent a c tx" by (rule am_dirE)
  obtain tx' as where u: "on_expired_poll_retransmit_timer sp (tx\<lparr>poll_retransmit_timer := timer_stop (poll_retransmit_timer tx)\<rparr>) = Inr (tx', as)"
    "q_view (tam_queue tx') = q_view (tam_queue tx)" using flow_poll_expired [OF f, of sp] by blast
  have "flow_tx z sent a c tx' \<and> tx_same tx tx'" if "flow_tx z sent a c tx" for sent a c
    using flow_poll_expired [OF that, of sp] u(1) by auto
  from dir_tx_keeps [OF d this] u show ?thesis by simp
qed

text \<open>A pull of data.\<close>

lemma got_less: "flow_rx z sent c u r h s \<Longrightarrow> c \<le> length sent \<Longrightarrow> i \<in> rx_got z r h s \<Longrightarrow> i < length sent"
  using flow_rxD(5,7,8) [of z sent c u r h s] by (auto simp: rx_got_def)

lemma dir_pull:
  assumes d: "am_dir z accepted data stats dlv tx rx" and p: "pull_post grant tx pdu tx'"
  shows "am_dir z accepted (if pdu = [] then data else data @ [pdu]) stats dlv tx' rx"
proof -
  from d obtain sent a c r h where f: "flow_tx z sent a c tx" "flow_rx z sent c (tx_progress tx) r h rx"
    "data_chain z sent c (tx_progress tx) h data" "stat_chain z c (tx_progress tx) a (stats @ rx_pending rx) r"
    "subseq (sent @ map sdu_buf (q_view (tam_queue tx))) accepted"
    "mset dlv = image_mset (nth sent) (mset_set (rx_got z r h rx))" by (rule am_dirE)
  obtain c' where c': "flow_tx z (sent @ tx_taken tx tx') a c' tx'" "later c (tx_progress tx) c' (tx_progress tx')"
    "map sdu_buf (q_view (tam_queue tx)) = tx_taken tx tx' @ map sdu_buf (q_view (tam_queue tx'))"
    "pdu \<noteq> [] \<longrightarrow> (\<exists>i \<ge> a. cut_of z (sent @ tx_taken tx tx') c' (tx_progress tx') i pdu)"
    using flow_pull [OF f(1) p] unfolding pulled_def by blast
  let ?sent = "sent @ tx_taken tx tx'"
  have ch: "data_chain z ?sent c' (tx_progress tx') h data" by (rule data_chain_later [OF f(3) c'(2)])
  have "data_chain z ?sent c' (tx_progress tx') h (if pdu = [] then data else data @ [pdu])"
  proof (cases "pdu = []")
    case False
    then obtain i where i: "a \<le> i" "cut_of z ?sent c' (tx_progress tx') i pdu" using c'(4) by blast
    have "length ?sent \<le> i + sn_half z" using flow_txD(8) [OF c'(1)] i(1) by simp
    then have "data_chain z ?sent c' (tx_progress tx') h (data @ [pdu])"
      using flow_rxD(7) [OF f(2)] by (intro data_chain_snoc [OF ch _ _ i(2)]) simp_all
    then show ?thesis using False by simp
  qed (use ch in simp)
  moreover have "mset dlv = image_mset (nth ?sent) (mset_set (rx_got z r h rx))"
    unfolding f(6) using got_less [OF f(2)] flow_txD(7) [OF f(1)] by (intro image_mset_cong) (simp add: nth_append)
  ultimately show ?thesis
    using f(5) c'(3) by (intro am_dirI [OF c'(1) flow_rx_later [OF f(2) c'(2)] _ stat_chain_later [OF f(4) c'(2)]]) simp_all
qed

lemma dir_status:
  assumes d: "am_dir z accepted data (p # stats) dlv tx rx"
  shows "\<exists>tx' as. handle_status_pdu sp p tx = Inr (tx', as) \<and> am_dir z accepted data stats dlv tx' rx"
proof -
  from d obtain sent a c r h where f: "flow_tx z sent a c tx" "flow_rx z sent c (tx_progress tx) r h rx"
    "data_chain z sent c (tx_progress tx) h data" "stat_chain z c (tx_progress tx) a ((p # stats) @ rx_pending rx) r"
    "subseq (sent @ map sdu_buf (q_view (tam_queue tx))) accepted"
    "mset dlv = image_mset (nth sent) (mset_set (rx_got z r h rx))" by (rule am_dirE)
  obtain k where k: "a \<le> k" "report_ok z c (tx_progress tx) k p" "stat_chain z c (tx_progress tx) k (stats @ rx_pending rx) r"
    using f(4) by auto
  obtain tx' as a' where s: "handle_status_pdu sp p tx = Inr (tx', as)" "a' \<in> {a, k}" "flow_tx z sent a' c tx'"
    "tx_progress tx' = tx_progress tx" "q_view (tam_queue tx') = q_view (tam_queue tx)"
    using flow_status [OF f(1) k(2,1), of sp] by blast
  have "stat_chain z c (tx_progress tx) a' (stats @ rx_pending rx) r" by (rule stat_chain_lo [OF k(3)]) (use s(2) k(1) in auto)
  then have "am_dir z accepted data stats dlv tx' rx" by (intro am_dirI [OF s(3)]) (use f s(4,5) in simp_all)
  then show ?thesis using s(1) by blast
qed

section \<open>Operations of the receiver\<close>

text \<open>What the receiver keeps besides.\<close>

definition rx_frame :: "rlc_rx_am_entity \<Rightarrow> rlc_rx_am_entity \<Rightarrow> bool" where
  "rx_frame rx rx' \<longleftrightarrow> ram_cfg rx' = ram_cfg rx \<and> timer_set (status_prohibit_timer rx') = timer_set (status_prohibit_timer rx)"

lemma rx_step_pending:
  assumes "stat_chain z c u a (stats @ rx_pending rx) r" "r \<le> r'" "rx_step z c u r' rx rx'"
  shows "stat_chain z c u a (stats @ rx_pending rx') r'"
proof -
  note hi = stat_chain_hi [OF assms(1,2)]
  have base: "stat_chain z c u a stats r'" using hi stat_chain_drop [of z c u a stats _ "[]"] by (auto simp: rx_pending_def split: if_splits)
  show ?thesis using hi base assms(3) stat_chain_snoc [OF base] by (auto simp: rx_pending_def rx_step_def)
qed

lemma dir_lens:
  assumes f: "flow_tx z sent a c tx" and st: "stat_chain z c u a ps r"
  shows "length sent \<le> r + sn_half z" "c < length sent \<longrightarrow> tx_progress tx < length (sent ! c)"
    "length sent = c + (if 0 < tx_progress tx then 1 else 0)"
  using flow_txD(7,8) [OF f] tx_seg_progress [OF f] stat_chain_le [OF st] by (auto simp: tx_seg_def split: if_splits)

lemma dir_data:
  assumes d: "am_dir z accepted (pdu # data) stats dlv tx rx"
  shows "\<exists>rx' as. handle_pdu_am True now pdu rx = Inr (rx', as, None) \<and>
    am_dir z accepted data stats (dlv @ delivered as) tx rx' \<and> rx_frame rx rx'"
proof -
  from d obtain sent a c r h where f: "flow_tx z sent a c tx" "flow_rx z sent c (tx_progress tx) r h rx"
    "data_chain z sent c (tx_progress tx) h (pdu # data)" "stat_chain z c (tx_progress tx) a (stats @ rx_pending rx) r"
    "subseq (sent @ map sdu_buf (q_view (tam_queue tx))) accepted"
    "mset dlv = image_mset (nth sent) (mset_set (rx_got z r h rx))" by (rule am_dirE)
  obtain i t where t: "h \<le> t" "i < t" "t \<le> i + sn_half z" "cut_of z sent c (tx_progress tx) i pdu" "data_chain z sent c (tx_progress tx) t data"
    using f(3) by auto
  obtain rx' as r' h' where p: "handle_pdu_am True now pdu rx = Inr (rx', as, None)" "r \<le> r'" "h' \<le> t"
    "flow_rx z sent c (tx_progress tx) r' h' rx'" "rx_step z c (tx_progress tx) r' rx rx'"
    "rx_got z r' h' rx' = rx_got z r h rx \<and> delivered as = [] \<or>
     i \<notin> rx_got z r h rx \<and> rx_got z r' h' rx' = insert i (rx_got z r h rx) \<and> delivered as = [sent ! i]"
    using flow_rx_pdu [OF f(2) t(4,1-3) dir_lens [OF f(1,4)], of now] by (elim exE conjE) (rule that)
  have "mset (dlv @ delivered as) = image_mset (nth sent) (mset_set (rx_got z r' h' rx'))"
    using p(6) f(6) by auto
  then have "am_dir z accepted data stats (dlv @ delivered as) tx rx'"
    by (intro am_dirI [OF f(1) p(4) data_chain_lo [OF t(5) p(3)] rx_step_pending [OF f(4) p(2,5)] f(5)])
  moreover have "rx_frame rx rx'" using p(5) by (simp add: rx_frame_def rx_step_def)
  ultimately show ?thesis using p(1) by blast
qed

lemma dir_expiry:
  assumes d: "am_dir z accepted data stats dlv tx rx" and run: "is_running (ram_reassembly_timer rx)"
  shows "\<exists>rx' as. on_expired_reassembly_timer_am (rx\<lparr>ram_reassembly_timer := timer_stop (ram_reassembly_timer rx)\<rparr>) = Inr (rx', as) \<and>
    am_dir z accepted data stats dlv tx rx' \<and> rx_frame rx rx'"
proof -
  from d obtain sent a c r h where f: "flow_tx z sent a c tx" "flow_rx z sent c (tx_progress tx) r h rx"
    "data_chain z sent c (tx_progress tx) h data" "stat_chain z c (tx_progress tx) a (stats @ rx_pending rx) r"
    "subseq (sent @ map sdu_buf (q_view (tam_queue tx))) accepted"
    "mset dlv = image_mset (nth sent) (mset_set (rx_got z r h rx))" by (rule am_dirE)
  obtain rx' as where e: "on_expired_reassembly_timer_am (rx\<lparr>ram_reassembly_timer := timer_stop (ram_reassembly_timer rx)\<rparr>) = Inr (rx', as)"
    "flow_rx z sent c (tx_progress tx) r h rx'" "rx_step z c (tx_progress tx) r rx rx'" "rx_got z r h rx' = rx_got z r h rx"
    using flow_rx_expiry [OF f(2) dir_lens(3) [OF f(1,4)] run] by blast
  have "am_dir z accepted data stats dlv tx rx'"
    by (rule am_dirI [OF f(1) e(2) f(3) rx_step_pending [OF f(4) order_refl e(3)] f(5)]) (simp add: f(6) e(4))
  moreover have "rx_frame rx rx'" using e(3) by (simp add: rx_frame_def rx_step_def)
  ultimately show ?thesis using e(1) by blast
qed

text \<open>The report is fetched, trimmed to the grant, and sent.\<close>

lemma send_status_cases:
  "\<exists>q. snd (send_status grant p) = q \<and> (q = p \<or> q = trim_loop grant p) \<and> (fst (send_status grant p) = [] \<or> fst (send_status grant p) = pack_status q)"
  by (auto simp: send_status_def trim_def Let_def)

lemma dir_get:
  assumes d: "am_dir z accepted data stats dlv tx rx" and do: "do_status rx"
    and p: "send_status grant (status_for_exchange rx) = (pdu, q)"
  shows "am_dir z accepted data (if pdu = [] then stats else stats @ [q]) dlv tx ((snd (snd (get_status_pdu rx)))\<lparr>status_owned_by_reader := q\<rparr>)"
    "pdu \<noteq> [] \<Longrightarrow> is_control_pdu pdu \<and> unpack_status pdu (new_status_pdu z) = Some q"
proof -
  from d obtain sent a c r h where f: "flow_tx z sent a c tx" "flow_rx z sent c (tx_progress tx) r h rx"
    "data_chain z sent c (tx_progress tx) h data" "stat_chain z c (tx_progress tx) a (stats @ rx_pending rx) r"
    "subseq (sent @ map sdu_buf (q_view (tam_queue tx))) accepted"
    "mset dlv = image_mset (nth sent) (mset_set (rx_got z r h rx))" by (rule am_dirE)
  have q: "q = status_for_exchange rx \<or> q = trim_loop grant (status_for_exchange rx)" "pdu = [] \<or> pdu = pack_status q"
    using send_status_cases [of grant "status_for_exchange rx"] p by auto
  have rep: "report_ok z c (tx_progress tx) k q" if "report_ok z c (tx_progress tx) k (status_for_exchange rx)" for k
    using q(1) that report_ok_trim [OF that] by auto
  have ch: "stat_chain z c (tx_progress tx) a (stats @ [q]) r"
    using f(4) do stat_chain_trim [of z c "tx_progress tx" a stats "status_for_exchange rx" r q] rep by (simp add: rx_pending_def)
  obtain k where k: "report_ok z c (tx_progress tx) k q" using stat_chain_last [OF ch] by blast
  then have wf: "status_wf q" "st_sn_size q = z" "ack_sn q < sn_mod z" by (auto simp: report_ok_def am_status_wf_def)
  then have ok: "am_status_ok z q" by (simp add: am_status_ok_def status_wf_def)
  let ?rx = "(snd (snd (get_status_pdu rx)))\<lparr>status_owned_by_reader := q\<rparr>"
  have g: "ram_window ?rx = ram_window rx" "\<not> do_status ?rx" by (simp_all add: get_status_pdu_def Let_def)
  have "stat_chain z c (tx_progress tx) a ((if pdu = [] then stats else stats @ [q]) @ rx_pending ?rx) r"
    using ch stat_chain_drop [of z c "tx_progress tx" a stats q "[]"] g(2) by (simp add: rx_pending_def)
  then show "am_dir z accepted data (if pdu = [] then stats else stats @ [q]) dlv tx ?rx"
    using f(6) rx_got_cong [OF g(1)] by (intro am_dirI [OF f(1) flow_rx_get [OF f(2) ok] f(3) _ f(5)]) simp_all
  assume "pdu \<noteq> []"
  then have u: "unpack_status pdu (new_status_pdu z) = Some q" using unpack_pack_status [of q "[]"] wf q(2) by simp
  then have "is_control_pdu pdu"
    by (auto simp: unpack_status_def unpack_12bit_def unpack_18bit_def split: if_splits rlc_am_sn_size.splits)
  then show "is_control_pdu pdu \<and> unpack_status pdu (new_status_pdu z) = Some q" using u by blast
qed

lemma dir_rx_same:
  assumes d: "am_dir z accepted data stats dlv tx rx"
    and keeps: "\<And>sent c u r h. flow_rx z sent c u r h rx \<Longrightarrow> flow_rx z sent c u r h rx'"
    and same: "do_status rx' = do_status rx" "status_for_exchange rx' = status_for_exchange rx" "ram_window rx' = ram_window rx"
  shows "am_dir z accepted data stats dlv tx rx'"
  using d same rx_got_cong [of rx' rx] by (elim am_dirE) (rule am_dirI, auto intro: keeps simp: rx_pending_def)

section \<open>Loss\<close>

lemma dir_lose_data: "am_dir z accepted (pdu # data) stats dlv tx rx \<Longrightarrow> am_dir z accepted data stats dlv tx rx"
  by (elim am_dirE) (rule am_dirI, auto intro: data_chain_tl simp del: data_chain.simps)

lemma dir_lose_status: "am_dir z accepted data (ps @ p # qs) dlv tx rx \<Longrightarrow> am_dir z accepted data (ps @ qs) dlv tx rx"
  by (elim am_dirE) (rule am_dirI, auto intro: stat_chain_drop)

end
