(* ===== verification/Rlc_Am_Link.thy ===== *)
theory Rlc_Am_Link
  imports Rlc_Am_Dir
begin

text \<open>
  The AM entity (lib/rlc/rlc\_am\_entity.h): a transmitter and a receiver, each of which is the other's peer for status
  reports. The receiver provides the reports that the transmitter sends, hands it the reports that it receives, and
  tells it when the report has changed. Reports are handled in tasks of the executor of the cell, t-StatusProhibit is started
  in a task of the executor of the UE; both are kept as pending tasks of the entity.

  Two entities are connected by two channels that keep the order of the PDUs, lose some and delay them arbitrarily. Shown: nothing
  that can happen to the two entities makes an assertion fail, every SDU is delivered at most once, and an SDU that the transmitter
  has released because it was acknowledged has been delivered.
\<close>

section \<open>The AM entity\<close>

record rlc_am_config =
  amc_rx :: rlc_rx_am_config
  amc_tx :: rlc_tx_am_config

record rlc_am_entity =
  ent_tx :: rlc_tx_am_entity
  ent_rx :: rlc_rx_am_entity
  ent_status_tasks :: "rlc_am_status_pdu list"
  ent_prohibit_tasks :: nat

definition new_am_entity :: "rlc_am_config \<Rightarrow> bool \<Rightarrow> rlc_am_entity res" where
  "new_am_entity config is_srb =
     bind_res (new_tx_am (amc_tx config) is_srb) (\<lambda>tx.
     bind_res (new_rx_am (amc_rx config)) (\<lambda>rx.
       Inr \<lparr>ent_tx = tx, ent_rx = rx, ent_status_tasks = [], ent_prohibit_tasks = 0\<rparr>))"

text \<open>The receiver as the status provider of the transmitter.\<close>

definition ent_provider :: "rlc_am_entity \<Rightarrow> status_provider" where
  "ent_provider e =
     \<lparr>sp_required = status_report_required (ent_rx e), sp_length = get_status_pdu_length (ent_rx e),
      sp_status = fst (get_status_pdu (ent_rx e))\<rparr>"

text \<open>The transmitter as the status notifier of the receiver, and as its status handler: \<open>on_status_pdu\<close> defers the handling.\<close>

definition ent_notify :: "rlc_rx_action list \<Rightarrow> rlc_am_entity \<Rightarrow> rlc_am_entity" where
  "ent_notify as e =
     (if On_Status_Report_Changed \<in> set as then e\<lparr>ent_tx := fst (on_status_report_changed (ent_tx e))\<rparr> else e)"

definition on_status_pdu :: "rlc_am_status_pdu \<Rightarrow> rlc_am_entity \<Rightarrow> rlc_am_entity" where
  "on_status_pdu status e = e\<lparr>ent_status_tasks := ent_status_tasks e @ [status]\<rparr>"

definition ent_run_status :: "rlc_am_entity \<Rightarrow> rlc_am_entity res" where
  "ent_run_status e =
     (case ent_status_tasks e of
        [] \<Rightarrow> Inr e
      | status # tasks \<Rightarrow>
          bind_res (handle_status_pdu (ent_provider e) status (ent_tx e))
            (\<lambda>(tx, as). Inr (e\<lparr>ent_tx := tx, ent_status_tasks := tasks\<rparr>)))"

text \<open>The interfaces to the upper and to the lower layer.\<close>

definition ent_handle_sdu :: "nat \<Rightarrow> byte_buffer \<Rightarrow> bool \<Rightarrow> rlc_am_entity \<Rightarrow> (bool \<times> rlc_am_entity) res" where
  "ent_handle_sdu now buf is_retx e =
     bind_res (handle_sdu_am now buf is_retx (ent_tx e))
       (\<lambda>(tx, as). Inr (Tx_Add_Lost_Sdus 1 \<notin> set as, e\<lparr>ent_tx := tx\<rparr>))"

definition ent_discard_sdu :: "u32 \<Rightarrow> rlc_am_entity \<Rightarrow> rlc_am_entity" where
  "ent_discard_sdu pdcp_sn e = e\<lparr>ent_tx := fst (discard_sdu_am pdcp_sn (ent_tx e))\<rparr>"

definition ent_pull_pdu :: "nat \<Rightarrow> rlc_am_entity \<Rightarrow> (byte_buffer \<times> rlc_am_entity) res" where
  "ent_pull_pdu grant_len e =
     bind_res (pull_pdu_am (ent_provider e) grant_len (ent_tx e)) (\<lambda>(pdu, st, tx, as).
       Inr (pdu,
         case st of
           None \<Rightarrow> e\<lparr>ent_tx := tx\<rparr>
         | Some status \<Rightarrow>
             (let (_, task, rx) = get_status_pdu (ent_rx e)
              in e\<lparr>ent_tx := tx, ent_rx := rx\<lparr>status_owned_by_reader := status\<rparr>,
                   ent_prohibit_tasks := ent_prohibit_tasks e + (if task then 1 else 0)\<rparr>)))"

definition ent_handle_pdu :: "bool \<Rightarrow> nat \<Rightarrow> byte_buffer \<Rightarrow> rlc_am_entity \<Rightarrow> (byte_buffer list \<times> rlc_am_entity) res" where
  "ent_handle_pdu alloc now buf e =
     bind_res (handle_pdu_am alloc now buf (ent_rx e)) (\<lambda>(rx, as, st).
       (let e = ent_notify as (e\<lparr>ent_rx := rx\<rparr>)
        in Inr (delivered as, case st of None \<Rightarrow> e | Some status \<Rightarrow> on_status_pdu status e)))"

definition ent_buffer_state :: "bool \<Rightarrow> rlc_am_entity \<Rightarrow> rlc_am_entity res" where
  "ent_buffer_state force e =
     bind_res (update_mac_buffer_state_am (ent_provider e) force (ent_tx e)) (\<lambda>(tx, as). Inr (e\<lparr>ent_tx := tx\<rparr>))"

text \<open>Timers and pending tasks; an expiry happens only while the timer is running.\<close>

definition ent_reassembly_expiry :: "rlc_am_entity \<Rightarrow> rlc_am_entity res" where
  "ent_reassembly_expiry e =
     (let rx = ent_rx e in
      if is_running (ram_reassembly_timer rx) then
        bind_res (on_expired_reassembly_timer_am (rx\<lparr>ram_reassembly_timer := timer_stop (ram_reassembly_timer rx)\<rparr>))
          (\<lambda>(rx, as). Inr (ent_notify as (e\<lparr>ent_rx := rx\<rparr>)))
      else Inr e)"

definition ent_poll_expiry :: "rlc_am_entity \<Rightarrow> rlc_am_entity res" where
  "ent_poll_expiry e =
     (let tx = ent_tx e in
      if is_running (poll_retransmit_timer tx) then
        bind_res (on_expired_poll_retransmit_timer (ent_provider e)
            (tx\<lparr>poll_retransmit_timer := timer_stop (poll_retransmit_timer tx)\<rparr>))
          (\<lambda>(tx, as). Inr (e\<lparr>ent_tx := tx\<rparr>))
      else Inr e)"

definition ent_run_prohibit :: "rlc_am_entity \<Rightarrow> rlc_am_entity res" where
  "ent_run_prohibit e =
     (case ent_prohibit_tasks e of
        0 \<Rightarrow> Inr e
      | Suc n \<Rightarrow> bind_res (run_status_prohibit_timer (ent_rx e)) (\<lambda>rx. Inr (e\<lparr>ent_rx := rx, ent_prohibit_tasks := n\<rparr>)))"

definition ent_prohibit_expiry :: "rlc_am_entity \<Rightarrow> rlc_am_entity" where
  "ent_prohibit_expiry e =
     (let rx = ent_rx e in
      if is_running (status_prohibit_timer rx) then
        (let (rx, as) = on_expired_status_prohibit_timer (rx\<lparr>status_prohibit_timer := timer_stop (status_prohibit_timer rx)\<rparr>)
         in ent_notify as (e\<lparr>ent_rx := rx\<rparr>))
      else e)"

definition stop_entity :: "rlc_am_entity \<Rightarrow> rlc_am_entity" where
  "stop_entity e = e\<lparr>ent_tx := stop_tx_am (ent_tx e), ent_rx := stop_am (ent_rx e)\<rparr>"

section \<open>Two connected entities\<close>

text \<open>
  The ends are \<open>True\<close> and \<open>False\<close>. \<open>lk_chan s x\<close> are the PDUs that the end \<open>x\<close> sent, \<open>lk_accepted s x\<close> the SDUs that its queue accepted, and
  \<open>lk_delivered s x\<close> the SDUs that it delivered.
\<close>

record am_link =
  lk_ent :: "bool \<Rightarrow> rlc_am_entity"
  lk_chan :: "bool \<Rightarrow> byte_buffer list"
  lk_accepted :: "bool \<Rightarrow> byte_buffer list"
  lk_delivered :: "bool \<Rightarrow> byte_buffer list"

datatype am_link_op =
    Link_Sdu nat byte_buffer bool
  | Link_Discard u32
  | Link_Pull nat
  | Link_Receive nat
  | Link_Lose
  | Link_Status_Task
  | Link_Buffer_State bool
  | Link_Reassembly_Expiry
  | Link_Poll_Expiry
  | Link_Prohibit_Task
  | Link_Prohibit_Expiry
  | Link_Stop

definition with_ent :: "bool \<Rightarrow> am_link \<Rightarrow> rlc_am_entity res \<Rightarrow> am_link res" where
  "with_ent x s r = bind_res r (\<lambda>e. Inr (s\<lparr>lk_ent := (lk_ent s)(x := e)\<rparr>))"

text \<open>An operation of the end \<open>x\<close>; \<open>Link_Receive\<close> takes the next PDU from the other end, \<open>Link_Lose\<close> loses it.\<close>

definition exec_am_link :: "bool \<Rightarrow> am_link_op \<Rightarrow> am_link \<Rightarrow> am_link res" where
  "exec_am_link x op s =
     (let e = lk_ent s x in
      case op of
        Link_Sdu now buf is_retx \<Rightarrow>
          bind_res (ent_handle_sdu now buf is_retx e) (\<lambda>(ok, e).
            Inr (s\<lparr>lk_ent := (lk_ent s)(x := e),
                   lk_accepted := (lk_accepted s)(x := lk_accepted s x @ (if ok then [buf] else []))\<rparr>))
      | Link_Discard pdcp_sn \<Rightarrow> with_ent x s (Inr (ent_discard_sdu pdcp_sn e))
      | Link_Pull grant_len \<Rightarrow>
          bind_res (ent_pull_pdu grant_len e) (\<lambda>(pdu, e).
            Inr (s\<lparr>lk_ent := (lk_ent s)(x := e),
                   lk_chan := (lk_chan s)(x := lk_chan s x @ (if pdu = [] then [] else [pdu]))\<rparr>))
      | Link_Receive now \<Rightarrow>
          (case lk_chan s (\<not> x) of
             [] \<Rightarrow> Inr s
           | pdu # pdus \<Rightarrow>
               bind_res (ent_handle_pdu True now pdu e) (\<lambda>(sdus, e).
                 Inr (s\<lparr>lk_ent := (lk_ent s)(x := e), lk_chan := (lk_chan s)(\<not> x := pdus),
                        lk_delivered := (lk_delivered s)(x := lk_delivered s x @ sdus)\<rparr>)))
      | Link_Lose \<Rightarrow> Inr (s\<lparr>lk_chan := (lk_chan s)(\<not> x := tl (lk_chan s (\<not> x)))\<rparr>)
      | Link_Status_Task \<Rightarrow> with_ent x s (ent_run_status e)
      | Link_Buffer_State force \<Rightarrow> with_ent x s (ent_buffer_state force e)
      | Link_Reassembly_Expiry \<Rightarrow> with_ent x s (ent_reassembly_expiry e)
      | Link_Poll_Expiry \<Rightarrow> with_ent x s (ent_poll_expiry e)
      | Link_Prohibit_Task \<Rightarrow> with_ent x s (ent_run_prohibit e)
      | Link_Prohibit_Expiry \<Rightarrow> with_ent x s (Inr (ent_prohibit_expiry e))
      | Link_Stop \<Rightarrow> with_ent x s (Inr (stop_entity e)))"

fun exec_am_links :: "(bool \<times> am_link_op) list \<Rightarrow> am_link \<Rightarrow> am_link res" where
  "exec_am_links [] s = Inr s"
| "exec_am_links ((x, op) # ops) s = bind_res (exec_am_link x op s) (exec_am_links ops)"

text \<open>The obligations of the upper layers: as for a single transmitter.\<close>

fun am_link_allowed :: "am_link_op \<Rightarrow> bool" where
  "am_link_allowed (Link_Sdu now buf is_retx) = am_sdu_ok buf"
| "am_link_allowed (Link_Discard pdcp_sn) = (pdcp_sn < STATE_DISCARDED)"
| "am_link_allowed _ = True"

definition new_am_link :: "(bool \<Rightarrow> rlc_am_config) \<Rightarrow> bool \<Rightarrow> am_link res" where
  "new_am_link cfg is_srb =
     bind_res (new_am_entity (cfg True) is_srb) (\<lambda>e1.
     bind_res (new_am_entity (cfg False) is_srb) (\<lambda>e0.
       Inr \<lparr>lk_ent = (\<lambda>x. if x then e1 else e0), lk_chan = (\<lambda>_. []), lk_accepted = (\<lambda>_. []), lk_delivered = (\<lambda>_. [])\<rparr>))"

text \<open>
  The configurations fit: the same SN length at both ends and in both directions, since a received report is parsed with the
  SN length of the receiver.
\<close>

definition am_link_cfg_ok :: "rlc_am_sn_size \<Rightarrow> (bool \<Rightarrow> rlc_am_config) \<Rightarrow> bool" where
  "am_link_cfg_ok z cfg \<longleftrightarrow>
     (\<forall>x. txam_sn_field_length (amc_tx (cfg x)) = z \<and> rxam_sn_field_length (amc_rx (cfg x)) = z \<and>
        tx_am_cfg_ok (amc_tx (cfg x)) \<and> 0 < rxam_t_reassembly (amc_rx (cfg x)))"

inductive am_link_reach :: "(bool \<Rightarrow> rlc_am_config) \<Rightarrow> bool \<Rightarrow> am_link \<Rightarrow> bool" for cfg is_srb where
  am_link_new: "new_am_link cfg is_srb = Inr s \<Longrightarrow> am_link_reach cfg is_srb s"
| am_link_step: "am_link_reach cfg is_srb s \<Longrightarrow> am_link_allowed op \<Longrightarrow> exec_am_link x op s = Inr s' \<Longrightarrow> am_link_reach cfg is_srb s'"

section \<open>The invariant\<close>

definition chan_data :: "byte_buffer list \<Rightarrow> byte_buffer list" where
  "chan_data pdus = filter (\<lambda>pdu. \<not> is_control_pdu pdu) pdus"

definition chan_stats :: "rlc_am_sn_size \<Rightarrow> byte_buffer list \<Rightarrow> rlc_am_status_pdu list" where
  "chan_stats z pdus = map (\<lambda>pdu. the (unpack_status pdu (new_status_pdu z))) (filter is_control_pdu pdus)"

definition chan_ok :: "rlc_am_sn_size \<Rightarrow> byte_buffer list \<Rightarrow> bool" where
  "chan_ok z pdus \<longleftrightarrow> (\<forall>pdu \<in> set pdus. pdu \<noteq> [] \<and> (is_control_pdu pdu \<longrightarrow> unpack_status pdu (new_status_pdu z) \<noteq> None))"

lemmas chan_defs = chan_data_def chan_stats_def chan_ok_def

definition ent_ok :: "rlc_am_entity \<Rightarrow> bool" where
  "ent_ok e \<longleftrightarrow>
     (0 < rxam_t_status_prohibit (ram_cfg (ent_rx e)) \<longrightarrow> timer_set (status_prohibit_timer (ent_rx e))) \<and>
     (0 < ent_prohibit_tasks e \<longrightarrow> 0 < rxam_t_status_prohibit (ram_cfg (ent_rx e)))"

text \<open>The direction from \<open>x\<close> to the other end: \<open>e\<close> is the entity of \<open>x\<close> and \<open>e'\<close> the other one, \<open>out\<close> is sent by \<open>e\<close> and \<open>inn\<close> by \<open>e'\<close>.\<close>

definition ent_dir ::
  "rlc_am_sn_size \<Rightarrow> byte_buffer list \<Rightarrow> byte_buffer list \<Rightarrow> byte_buffer list \<Rightarrow> byte_buffer list \<Rightarrow>
     rlc_am_entity \<Rightarrow> rlc_am_entity \<Rightarrow> bool" where
  "ent_dir z accepted out inn dlv e e' \<longleftrightarrow>
     am_dir z accepted (chan_data out) (ent_status_tasks e @ chan_stats z inn) dlv (ent_tx e) (ent_rx e')"

definition am_link_inv :: "rlc_am_sn_size \<Rightarrow> am_link \<Rightarrow> bool" where
  "am_link_inv z s \<longleftrightarrow>
     (\<forall>x. ent_dir z (lk_accepted s x) (lk_chan s x) (lk_chan s (\<not> x)) (lk_delivered s (\<not> x)) (lk_ent s x) (lk_ent s (\<not> x)) \<and>
        ent_ok (lk_ent s x) \<and> chan_ok z (lk_chan s x))"

lemma am_link_invD:
  assumes "am_link_inv z s"
  shows "ent_dir z (lk_accepted s x) (lk_chan s x) (lk_chan s (\<not> x)) (lk_delivered s (\<not> x)) (lk_ent s x) (lk_ent s (\<not> x))"
    "ent_dir z (lk_accepted s (\<not> x)) (lk_chan s (\<not> x)) (lk_chan s x) (lk_delivered s x) (lk_ent s (\<not> x)) (lk_ent s x)"
    "ent_ok (lk_ent s x)" "chan_ok z (lk_chan s x)" "chan_ok z (lk_chan s (\<not> x))"
  using assms [unfolded am_link_inv_def, rule_format, of x] assms [unfolded am_link_inv_def, rule_format, of "\<not> x"] by simp_all

lemma am_link_invI:
  assumes "am_link_inv z s" "lk_ent s' (\<not> x) = lk_ent s (\<not> x)"
    "ent_dir z (lk_accepted s' x) (lk_chan s' x) (lk_chan s' (\<not> x)) (lk_delivered s' (\<not> x)) (lk_ent s' x) (lk_ent s (\<not> x))"
    "ent_dir z (lk_accepted s' (\<not> x)) (lk_chan s' (\<not> x)) (lk_chan s' x) (lk_delivered s' x) (lk_ent s (\<not> x)) (lk_ent s' x)"
    "ent_ok (lk_ent s' x)" "chan_ok z (lk_chan s' x)" "chan_ok z (lk_chan s' (\<not> x))"
  shows "am_link_inv z s'"
  unfolding am_link_inv_def
proof
  fix y
  consider "y = x" | "y = (\<not> x)" by blast
  then show "ent_dir z (lk_accepted s' y) (lk_chan s' y) (lk_chan s' (\<not> y)) (lk_delivered s' (\<not> y)) (lk_ent s' y) (lk_ent s' (\<not> y)) \<and>
        ent_ok (lk_ent s' y) \<and> chan_ok z (lk_chan s' y)"
    using assms am_link_invD(3) [OF assms(1), of "\<not> x"] by cases simp_all
qed

section \<open>Steps of an entity\<close>

text \<open>Both directions, seen from the entity \<open>e\<close>: \<open>dlv\<close> is delivered by the other one, \<open>dlv'\<close> by \<open>e\<close>.\<close>

definition both_dirs ::
  "rlc_am_sn_size \<Rightarrow> byte_buffer list \<Rightarrow> byte_buffer list \<Rightarrow> byte_buffer list \<Rightarrow> byte_buffer list \<Rightarrow>
     byte_buffer list \<Rightarrow> byte_buffer list \<Rightarrow> rlc_am_entity \<Rightarrow> rlc_am_entity \<Rightarrow> bool" where
  "both_dirs z acc acc' out inn dlv dlv' e e' \<longleftrightarrow>
     ent_dir z acc out inn dlv e e' \<and> ent_dir z acc' inn out dlv' e' e \<and> ent_ok e"

lemma both_dirs_tx:
  "both_dirs z acc acc' out inn dlv dlv' e e' \<Longrightarrow>
    am_dir z acc1 (chan_data out) (ent_status_tasks e @ chan_stats z inn) dlv tx (ent_rx e') \<Longrightarrow>
    both_dirs z acc1 acc' out inn dlv dlv' (e\<lparr>ent_tx := tx\<rparr>) e'"
  by (simp add: both_dirs_def ent_dir_def ent_ok_def)

lemma both_dirs_rx:
  "both_dirs z acc acc' out inn dlv dlv' e e' \<Longrightarrow> rx_frame (ent_rx e) rx \<Longrightarrow>
    am_dir z acc' (chan_data inn1) (ent_status_tasks e' @ chan_stats z out) dlv1 (ent_tx e') rx \<Longrightarrow>
    chan_stats z inn1 = chan_stats z inn \<Longrightarrow> both_dirs z acc acc' out inn1 dlv dlv1 (e\<lparr>ent_rx := rx\<rparr>) e'"
  by (simp add: both_dirs_def ent_dir_def ent_ok_def rx_frame_def)

lemma both_dirsD:
  assumes "both_dirs z acc acc' out inn dlv dlv' e e'"
  shows "am_dir z acc (chan_data out) (ent_status_tasks e @ chan_stats z inn) dlv (ent_tx e) (ent_rx e')"
    "am_dir z acc' (chan_data inn) (ent_status_tasks e' @ chan_stats z out) dlv' (ent_tx e') (ent_rx e)" "ent_ok e"
  using assms by (simp_all add: both_dirs_def ent_dir_def)

lemma ent_notify_ok: "both_dirs z acc acc' out inn dlv dlv' e e' \<Longrightarrow> both_dirs z acc acc' out inn dlv dlv' (ent_notify as e) e'"
  using both_dirs_tx [OF _ dir_status_changed [OF both_dirsD(1)]] by (auto simp: ent_notify_def)

lemma ent_handle_sdu_ok:
  assumes d: "both_dirs z acc acc' out inn dlv dlv' e e'" and b: "am_sdu_ok buf"
  shows "\<exists>ok e1. ent_handle_sdu now buf is_retx e = Inr (ok, e1) \<and> both_dirs z (acc @ (if ok then [buf] else [])) acc' out inn dlv dlv' e1 e'"
proof -
  obtain tx as where h: "handle_sdu_am now buf is_retx (ent_tx e) = Inr (tx, as)"
    "am_dir z (if Tx_Add_Lost_Sdus 1 \<in> set as then acc else acc @ [buf]) (chan_data out) (ent_status_tasks e @ chan_stats z inn) dlv tx (ent_rx e')"
    using dir_sdu [OF both_dirsD(1) [OF d] b, of now is_retx] by blast
  then show ?thesis using both_dirs_tx [OF d h(2)] by (auto simp: ent_handle_sdu_def)
qed

lemma ent_discard_ok:
  "both_dirs z acc acc' out inn dlv dlv' e e' \<Longrightarrow> k < STATE_DISCARDED \<Longrightarrow> both_dirs z acc acc' out inn dlv dlv' (ent_discard_sdu k e) e'"
  using both_dirs_tx [OF _ dir_discard [OF both_dirsD(1)]] by (simp add: ent_discard_sdu_def)

lemma ent_buffer_state_ok:
  assumes d: "both_dirs z acc acc' out inn dlv dlv' e e'"
  shows "\<exists>e1. ent_buffer_state force e = Inr e1 \<and> both_dirs z acc acc' out inn dlv dlv' e1 e'"
  using dir_buffer_state [OF both_dirsD(1) [OF d], of "ent_provider e" force] both_dirs_tx [OF d]
  by (auto simp: ent_buffer_state_def)

lemma ent_poll_expiry_ok:
  assumes d: "both_dirs z acc acc' out inn dlv dlv' e e'"
  shows "\<exists>e1. ent_poll_expiry e = Inr e1 \<and> both_dirs z acc acc' out inn dlv dlv' e1 e'"
  using dir_poll_expired [OF both_dirsD(1) [OF d], of "ent_provider e"] both_dirs_tx [OF d] d
  by (auto simp: ent_poll_expiry_def Let_def)

lemma ent_run_status_ok:
  assumes d: "both_dirs z acc acc' out inn dlv dlv' e e'"
  shows "\<exists>e1. ent_run_status e = Inr e1 \<and> both_dirs z acc acc' out inn dlv dlv' e1 e'"
proof (cases "ent_status_tasks e")
  case (Cons p ps)
  obtain tx as where h: "handle_status_pdu (ent_provider e) p (ent_tx e) = Inr (tx, as)"
    "am_dir z acc (chan_data out) (ps @ chan_stats z inn) dlv tx (ent_rx e')"
    using dir_status [OF both_dirsD(1) [OF d, unfolded Cons append_Cons], of "ent_provider e"] by blast
  then show ?thesis using d Cons by (auto simp: ent_run_status_def both_dirs_def ent_dir_def ent_ok_def)
qed (use d in \<open>simp add: ent_run_status_def\<close>)

lemma ent_reassembly_expiry_ok:
  assumes d: "both_dirs z acc acc' out inn dlv dlv' e e'"
  shows "\<exists>e1. ent_reassembly_expiry e = Inr e1 \<and> both_dirs z acc acc' out inn dlv dlv' e1 e'"
  using dir_expiry [OF both_dirsD(2) [OF d]] both_dirs_rx [OF d _ _ refl] ent_notify_ok d
  by (fastforce simp: ent_reassembly_expiry_def Let_def)

lemma ent_run_prohibit_ok:
  assumes d: "both_dirs z acc acc' out inn dlv dlv' e e'"
  shows "\<exists>e1. ent_run_prohibit e = Inr e1 \<and> both_dirs z acc acc' out inn dlv dlv' e1 e'"
proof (cases "ent_prohibit_tasks e")
  case (Suc n)
  let ?rx = "(ent_rx e)\<lparr>status_prohibit_timer := (status_prohibit_timer (ent_rx e))\<lparr>is_running := True\<rparr>\<rparr>"
  have "timer_set (status_prohibit_timer (ent_rx e))" using both_dirsD(3) [OF d] Suc by (simp add: ent_ok_def)
  then have r: "run_status_prohibit_timer (ent_rx e) = Inr ?rx" by (simp add: run_status_prohibit_timer_def)
  have "am_dir z acc' (chan_data inn) (ent_status_tasks e' @ chan_stats z out) dlv' (ent_tx e') ?rx"
    by (rule dir_rx_same [OF both_dirsD(2) [OF d]]) (simp_all add: flow_rx_prohibit)
  then have "both_dirs z acc acc' out inn dlv dlv' (e\<lparr>ent_rx := ?rx\<rparr>) e'"
    by (intro both_dirs_rx [OF d]) (simp_all add: rx_frame_def)
  then show ?thesis using r Suc by (auto simp: ent_run_prohibit_def both_dirs_def ent_dir_def ent_ok_def)
qed (use d in \<open>simp add: ent_run_prohibit_def\<close>)

lemma ent_prohibit_expiry_ok:
  assumes d: "both_dirs z acc acc' out inn dlv dlv' e e'"
  shows "both_dirs z acc acc' out inn dlv dlv' (ent_prohibit_expiry e) e'"
proof -
  let ?rx = "(ent_rx e)\<lparr>status_prohibit_timer := timer_stop (status_prohibit_timer (ent_rx e)), status_prohibit_timer_is_running := False\<rparr>"
  have "am_dir z acc' (chan_data inn) (ent_status_tasks e' @ chan_stats z out) dlv' (ent_tx e') ?rx"
    by (rule dir_rx_same [OF both_dirsD(2) [OF d]]) (simp_all add: flow_rx_prohibit)
  then have "both_dirs z acc acc' out inn dlv dlv' (e\<lparr>ent_rx := ?rx\<rparr>) e'"
    by (intro both_dirs_rx [OF d]) (simp_all add: rx_frame_def)
  then show ?thesis
    using d ent_notify_ok by (auto simp: ent_prohibit_expiry_def on_expired_status_prohibit_timer_def Let_def)
qed

lemma stop_entity_ok:
  assumes d: "both_dirs z acc acc' out inn dlv dlv' e e'"
  shows "both_dirs z acc acc' out inn dlv dlv' (stop_entity e) e'"
proof -
  have "am_dir z acc' (chan_data inn) (ent_status_tasks e' @ chan_stats z out) dlv' (ent_tx e') (stop_am (ent_rx e))"
    by (rule dir_rx_same [OF both_dirsD(2) [OF d]]) (erule flow_rx_stop, simp_all add: stop_am_def)
  moreover have "rx_frame (ent_rx e) (stop_am (ent_rx e))" by (simp add: rx_frame_def stop_am_def)
  ultimately have "both_dirs z acc acc' out inn dlv dlv' (e\<lparr>ent_rx := stop_am (ent_rx e)\<rparr>) e'" by (rule both_dirs_rx [OF d _ _ refl, rotated])
  from both_dirs_tx [OF this dir_stop_tx [OF both_dirsD(1) [OF this]]] show ?thesis by (simp add: stop_entity_def both_dirs_def ent_dir_def ent_ok_def)
qed

section \<open>PDUs\<close>

lemma pull_post_data: "pull_post grant s pdu s' \<Longrightarrow> pdu \<noteq> [] \<Longrightarrow> \<not> is_control_pdu pdu"
  using cut_not_control by (fastforce simp: pull_post_def sends_def)

lemma chan_append:
  "chan_data (xs @ ys) = chan_data xs @ chan_data ys" "chan_stats z (xs @ ys) = chan_stats z xs @ chan_stats z ys"
  "chan_ok z (xs @ ys) \<longleftrightarrow> chan_ok z xs \<and> chan_ok z ys"
  by (auto simp: chan_defs)

lemma ent_pull_ok:
  assumes d: "both_dirs z acc acc' out inn dlv dlv' e e'"
  shows "\<exists>pdu e1. ent_pull_pdu grant e = Inr (pdu, e1) \<and> chan_ok z (if pdu = [] then [] else [pdu]) \<and>
    both_dirs z acc acc' (out @ (if pdu = [] then [] else [pdu])) inn dlv dlv' e1 e'"
proof -
  note tx = both_dirsD(1) [OF d] note rx = both_dirsD(2) [OF d]
  from tx have inv: "tam_inv (ent_tx e)" by (rule am_dirE) (rule flow_txD(1))
  obtain pdu st tx' as where p: "pull_pdu_am (ent_provider e) grant (ent_tx e) = Inr (pdu, st, tx', as)"
    "max_retx_reached (ent_tx e) \<longrightarrow> pdu = [] \<and> st = None \<and> tx' = ent_tx e"
    "\<not> max_retx_reached (ent_tx e) \<longrightarrow> sp_required (ent_provider e) \<longrightarrow> tx' = ent_tx e \<and>
       (if grant < 3 then pdu = [] \<and> st = None
        else st = Some (snd (send_status grant (sp_status (ent_provider e)))) \<and> pdu = fst (send_status grant (sp_status (ent_provider e))))"
    "\<not> max_retx_reached (ent_tx e) \<longrightarrow> \<not> sp_required (ent_provider e) \<longrightarrow> st = None \<and> pull_post grant (ent_tx e) pdu tx'"
    by (rule pull_pdu_am_ok [OF inv, of "ent_provider e" grant]) (rule that)
  consider (nothing) "pdu = []" "st = None" "tx' = ent_tx e"
    | (status) q where "do_status (ent_rx e)" "st = Some q" "send_status grant (status_for_exchange (ent_rx e)) = (pdu, q)" "tx' = ent_tx e"
    | (data) "st = None" "pull_post grant (ent_tx e) pdu tx'"
    using p(2-4) by (auto simp: ent_provider_def status_report_required_def get_status_pdu_def Let_def split: if_splits)
  then show ?thesis
  proof cases
    case nothing
    then show ?thesis using p(1) d by (simp add: ent_pull_pdu_def chan_ok_def)
  next
    case data
    let ?out = "out @ (if pdu = [] then [] else [pdu])"
    have nc: "pdu \<noteq> [] \<longrightarrow> \<not> is_control_pdu pdu" using pull_post_data [OF data(2)] by blast
    have "am_dir z acc (chan_data ?out) (ent_status_tasks e @ chan_stats z inn) dlv tx' (ent_rx e')"
      using dir_pull [OF tx data(2)] nc by (auto simp: chan_append chan_data_def)
    moreover have "chan_stats z ?out = chan_stats z out" using nc by (simp add: chan_append chan_stats_def)
    ultimately show ?thesis
      using p(1) d data(1) nc by (auto simp: ent_pull_pdu_def both_dirs_def ent_dir_def ent_ok_def chan_ok_def)
  next
    case status
    let ?out = "out @ (if pdu = [] then [] else [pdu])"
    let ?rx = "(snd (snd (get_status_pdu (ent_rx e))))\<lparr>status_owned_by_reader := q\<rparr>"
    note g = dir_get [OF rx status(1,3)]
    have "am_dir z acc' (chan_data inn) (ent_status_tasks e' @ chan_stats z ?out) dlv' (ent_tx e') ?rx"
      using g by (cases "pdu = []") (simp_all add: chan_append chan_stats_def)
    moreover have "chan_data ?out = chan_data out" using g(2) by (simp add: chan_append chan_data_def)
    moreover have "chan_ok z (if pdu = [] then [] else [pdu])" using g(2) by (simp add: chan_ok_def)
    moreover have "ent_ok (e\<lparr>ent_tx := tx', ent_rx := ?rx,
        ent_prohibit_tasks := ent_prohibit_tasks e + (if fst (snd (get_status_pdu (ent_rx e))) then 1 else 0)\<rparr>)"
      using both_dirsD(3) [OF d] by (simp add: ent_ok_def get_status_pdu_def Let_def)
    ultimately show ?thesis
      using p(1) status(2,4) tx by (simp add: ent_pull_pdu_def both_dirs_def ent_dir_def case_prod_beta)
  qed
qed

lemma ent_handle_pdu_ok:
  assumes d: "both_dirs z acc acc' out (pdu # inn) dlv dlv' e e'" and ok: "chan_ok z (pdu # inn)"
  shows "\<exists>sdus e1. ent_handle_pdu True now pdu e = Inr (sdus, e1) \<and> both_dirs z acc acc' out inn dlv (dlv' @ sdus) e1 e'"
proof (cases "is_control_pdu pdu")
  case False
  then have ch: "chan_data (pdu # inn) = pdu # chan_data inn" "chan_stats z inn = chan_stats z (pdu # inn)" by (simp_all add: chan_defs)
  obtain rx as where h: "handle_pdu_am True now pdu (ent_rx e) = Inr (rx, as, None)"
    "am_dir z acc' (chan_data inn) (ent_status_tasks e' @ chan_stats z out) (dlv' @ delivered as) (ent_tx e') rx" "rx_frame (ent_rx e) rx"
    using dir_data [OF both_dirsD(2) [OF d, unfolded ch(1)], of now] by blast
  from ent_notify_ok [OF both_dirs_rx [OF d h(3,2) ch(2)]] show ?thesis using h(1) by (simp add: ent_handle_pdu_def)
next
  case True
  from both_dirsD(2) [OF d] have z: "am_z (ent_rx e) = z" by (rule am_dirE) (rule flow_rxD(2))
  obtain q where q: "unpack_status pdu (new_status_pdu z) = Some q" and ne: "pdu \<noteq> []" using ok True by (auto simp: chan_ok_def)
  have ch: "chan_data (pdu # inn) = chan_data inn" "chan_stats z (pdu # inn) = q # chan_stats z inn" using True q by (simp_all add: chan_defs)
  have h: "handle_pdu_am True now pdu (ent_rx e) = Inr (ent_rx e, [Metrics_Add_Pdus 1 (length pdu), Metrics_Add_Ctrl_Pdus 1 (length pdu)], Some q)"
    using True ne q z by (simp add: handle_pdu_am_def handle_control_pdu_def am_z_def)
  have "e\<lparr>ent_rx := ent_rx e\<rparr> = e" by simp
  then show ?thesis
    using d ch by (simp add: ent_handle_pdu_def h ent_notify_def on_status_pdu_def both_dirs_def ent_dir_def ent_ok_def)
qed

section \<open>Steps of the link\<close>

lemma link_both:
  assumes "am_link_inv z s"
  shows "both_dirs z (lk_accepted s x) (lk_accepted s (\<not> x)) (lk_chan s x) (lk_chan s (\<not> x)) (lk_delivered s (\<not> x)) (lk_delivered s x)
    (lk_ent s x) (lk_ent s (\<not> x))"
  unfolding both_dirs_def using am_link_invD [OF assms, of x] by simp

lemma both_link:
  assumes "am_link_inv z s" "lk_ent s' (\<not> x) = lk_ent s (\<not> x)" "chan_ok z (lk_chan s' x)" "chan_ok z (lk_chan s' (\<not> x))"
    "both_dirs z (lk_accepted s' x) (lk_accepted s' (\<not> x)) (lk_chan s' x) (lk_chan s' (\<not> x)) (lk_delivered s' (\<not> x)) (lk_delivered s' x)
      (lk_ent s' x) (lk_ent s (\<not> x))"
  shows "am_link_inv z s'"
  using assms(5) unfolding both_dirs_def by (intro am_link_invI [OF assms(1,2)] assms(3,4)) simp_all

lemma with_ent_ok:
  assumes inv: "am_link_inv z s"
    and ok: "\<exists>e1. r = Inr e1 \<and> both_dirs z (lk_accepted s x) (lk_accepted s (\<not> x)) (lk_chan s x) (lk_chan s (\<not> x))
      (lk_delivered s (\<not> x)) (lk_delivered s x) e1 (lk_ent s (\<not> x))"
  shows "\<exists>s'. with_ent x s r = Inr s' \<and> am_link_inv z s'"
proof -
  from ok obtain e1 where e1: "r = Inr e1" "both_dirs z (lk_accepted s x) (lk_accepted s (\<not> x)) (lk_chan s x) (lk_chan s (\<not> x))
      (lk_delivered s (\<not> x)) (lk_delivered s x) e1 (lk_ent s (\<not> x))" by blast
  have "am_link_inv z (s\<lparr>lk_ent := (lk_ent s)(x := e1)\<rparr>)"
    using am_link_invD(4,5) [OF inv, of x] e1(2) by (intro both_link [OF inv, of _ x]) simp_all
  then show ?thesis using e1(1) by (simp add: with_ent_def)
qed

lemma link_sdu_ok:
  assumes inv: "am_link_inv z s" and b: "am_sdu_ok buf"
  shows "\<exists>s'. exec_am_link x (Link_Sdu now buf is_retx) s = Inr s' \<and> am_link_inv z s'"
proof -
  obtain ok e1 where h: "ent_handle_sdu now buf is_retx (lk_ent s x) = Inr (ok, e1)"
    "both_dirs z (lk_accepted s x @ (if ok then [buf] else [])) (lk_accepted s (\<not> x)) (lk_chan s x) (lk_chan s (\<not> x))
      (lk_delivered s (\<not> x)) (lk_delivered s x) e1 (lk_ent s (\<not> x))"
    using ent_handle_sdu_ok [OF link_both [OF inv, of x] b, of now is_retx] by blast
  have "am_link_inv z (s\<lparr>lk_ent := (lk_ent s)(x := e1), lk_accepted := (lk_accepted s)(x := lk_accepted s x @ (if ok then [buf] else []))\<rparr>)"
    using am_link_invD(4,5) [OF inv, of x] h(2) by (intro both_link [OF inv, of _ x]) simp_all
  then show ?thesis using h(1) by (simp add: exec_am_link_def)
qed

lemma link_pull_ok:
  assumes inv: "am_link_inv z s"
  shows "\<exists>s'. exec_am_link x (Link_Pull grant) s = Inr s' \<and> am_link_inv z s'"
proof -
  obtain pdu e1 where h: "ent_pull_pdu grant (lk_ent s x) = Inr (pdu, e1)" "chan_ok z (if pdu = [] then [] else [pdu])"
    "both_dirs z (lk_accepted s x) (lk_accepted s (\<not> x)) (lk_chan s x @ (if pdu = [] then [] else [pdu])) (lk_chan s (\<not> x))
      (lk_delivered s (\<not> x)) (lk_delivered s x) e1 (lk_ent s (\<not> x))"
    using ent_pull_ok [OF link_both [OF inv, of x], of grant] by blast
  have "am_link_inv z (s\<lparr>lk_ent := (lk_ent s)(x := e1), lk_chan := (lk_chan s)(x := lk_chan s x @ (if pdu = [] then [] else [pdu]))\<rparr>)"
    using am_link_invD(4,5) [OF inv, of x] h(2,3) by (intro both_link [OF inv, of _ x]) (simp_all add: chan_append)
  then show ?thesis using h(1) by (simp add: exec_am_link_def)
qed

lemma link_receive_ok:
  assumes inv: "am_link_inv z s"
  shows "\<exists>s'. exec_am_link x (Link_Receive now) s = Inr s' \<and> am_link_inv z s'"
proof (cases "lk_chan s (\<not> x)")
  case (Cons pdu pdus)
  have ok: "chan_ok z (pdu # pdus)" using am_link_invD(5) [OF inv, of x] Cons by simp
  obtain sdus e1 where h: "ent_handle_pdu True now pdu (lk_ent s x) = Inr (sdus, e1)"
    "both_dirs z (lk_accepted s x) (lk_accepted s (\<not> x)) (lk_chan s x) pdus
      (lk_delivered s (\<not> x)) (lk_delivered s x @ sdus) e1 (lk_ent s (\<not> x))"
    using ent_handle_pdu_ok [OF link_both [OF inv, of x, unfolded Cons] ok, of now] by blast
  have "am_link_inv z (s\<lparr>lk_ent := (lk_ent s)(x := e1), lk_chan := (lk_chan s)(\<not> x := pdus),
      lk_delivered := (lk_delivered s)(x := lk_delivered s x @ sdus)\<rparr>)"
    using am_link_invD(4) [OF inv, of x] ok h(2) by (intro both_link [OF inv, of _ x]) (simp_all add: chan_ok_def)
  then show ?thesis using h(1) Cons by (simp add: exec_am_link_def)
qed (use inv in \<open>simp add: exec_am_link_def\<close>)

lemma both_dirs_lose:
  assumes b: "both_dirs z acc acc' out (pdu # inn) dlv dlv' e e'"
  shows "both_dirs z acc acc' out inn dlv dlv' e e'"
proof (cases "is_control_pdu pdu")
  case True
  have "am_dir z acc (chan_data out) (ent_status_tasks e @ chan_stats z inn) dlv (ent_tx e) (ent_rx e')"
    by (rule dir_lose_status [where p = "the (unpack_status pdu (new_status_pdu z))"])
      (use both_dirsD(1) [OF b] True in \<open>simp add: chan_stats_def\<close>)
  then show ?thesis using b True by (simp add: both_dirs_def ent_dir_def chan_data_def)
next
  case False
  have "am_dir z acc' (chan_data inn) (ent_status_tasks e' @ chan_stats z out) dlv' (ent_tx e') (ent_rx e)"
    by (rule dir_lose_data [where pdu = pdu]) (use both_dirsD(2) [OF b] False in \<open>simp add: chan_data_def\<close>)
  then show ?thesis using b False by (simp add: both_dirs_def ent_dir_def chan_stats_def)
qed

lemma link_lose_ok:
  assumes inv: "am_link_inv z s"
  shows "\<exists>s'. exec_am_link x Link_Lose s = Inr s' \<and> am_link_inv z s'"
proof (cases "lk_chan s (\<not> x)")
  case (Cons pdu pdus)
  note b = link_both [OF inv, of x, unfolded Cons]
  have "both_dirs z (lk_accepted s x) (lk_accepted s (\<not> x)) (lk_chan s x) pdus (lk_delivered s (\<not> x)) (lk_delivered s x) (lk_ent s x) (lk_ent s (\<not> x))"
    by (rule both_dirs_lose [OF b])
  then have "am_link_inv z (s\<lparr>lk_chan := (lk_chan s)(\<not> x := pdus)\<rparr>)"
    using am_link_invD(4,5) [OF inv, of x] Cons by (intro both_link [OF inv, of _ x]) (simp_all add: chan_ok_def)
  then show ?thesis using Cons by (simp add: exec_am_link_def)
next
  case Nil
  then have "(lk_chan s)(\<not> x := []) = lk_chan s" by (simp add: fun_eq_iff)
  then show ?thesis using inv Nil by (simp add: exec_am_link_def)
qed

lemma exec_am_link_ent:
  "exec_am_link x (Link_Discard k) s = with_ent x s (Inr (ent_discard_sdu k (lk_ent s x)))"
  "exec_am_link x Link_Status_Task s = with_ent x s (ent_run_status (lk_ent s x))"
  "exec_am_link x (Link_Buffer_State force) s = with_ent x s (ent_buffer_state force (lk_ent s x))"
  "exec_am_link x Link_Reassembly_Expiry s = with_ent x s (ent_reassembly_expiry (lk_ent s x))"
  "exec_am_link x Link_Poll_Expiry s = with_ent x s (ent_poll_expiry (lk_ent s x))"
  "exec_am_link x Link_Prohibit_Task s = with_ent x s (ent_run_prohibit (lk_ent s x))"
  "exec_am_link x Link_Prohibit_Expiry s = with_ent x s (Inr (ent_prohibit_expiry (lk_ent s x)))"
  "exec_am_link x Link_Stop s = with_ent x s (Inr (stop_entity (lk_ent s x)))"
  by (simp_all add: exec_am_link_def)

lemma exec_am_link_ok:
  assumes inv: "am_link_inv z s" and a: "am_link_allowed op"
  shows "\<exists>s'. exec_am_link x op s = Inr s' \<and> am_link_inv z s'"
proof -
  note b = link_both [OF inv, of x]
  note w = with_ent_ok [OF inv]
  show ?thesis
    using a
    by (cases op)
      (simp_all only: exec_am_link_ent am_link_allowed.simps,
       rule link_sdu_ok [OF inv], assumption,
       rule w [OF exI, OF conjI [OF refl ent_discard_ok [OF b]]], assumption,
       rule link_pull_ok [OF inv], rule link_receive_ok [OF inv], rule link_lose_ok [OF inv],
       rule w [OF ent_run_status_ok [OF b]], rule w [OF ent_buffer_state_ok [OF b]],
       rule w [OF ent_reassembly_expiry_ok [OF b]], rule w [OF ent_poll_expiry_ok [OF b]],
       rule w [OF ent_run_prohibit_ok [OF b]],
       rule w [OF exI, OF conjI [OF refl ent_prohibit_expiry_ok [OF b]]],
       rule w [OF exI, OF conjI [OF refl stop_entity_ok [OF b]]])
qed

lemma new_rx_prohibit:
  "new_rx_am config = Inr rx \<Longrightarrow> timer_set (status_prohibit_timer rx) \<longleftrightarrow> 0 < rxam_t_status_prohibit (ram_cfg rx)"
  by (auto simp: new_rx_am_def Let_def bind_res_Inr_iff)

lemma new_am_entityD:
  "new_am_entity config is_srb = Inr e \<Longrightarrow>
    new_tx_am (amc_tx config) is_srb = Inr (ent_tx e) \<and> new_rx_am (amc_rx config) = Inr (ent_rx e) \<and>
    ent_status_tasks e = [] \<and> ent_prohibit_tasks e = 0"
  by (auto simp: new_am_entity_def bind_res_Inr_iff)

lemma new_dir:
  assumes tx: "new_tx_am txcfg is_srb = Inr tx" and rx: "new_rx_am rxcfg = Inr rx"
    and c: "txam_sn_field_length txcfg = z" "rxam_sn_field_length rxcfg = z" "tx_am_cfg_ok txcfg" "0 < rxam_t_reassembly rxcfg"
  shows "am_dir z [] [] [] [] tx rx"
proof -
  note t = new_tx_am_ok [OF tx c(3)] note r = new_rx_am_inv [OF rx c(4)]
  have tf: "tx_next_ack tx = 0" "tx_next tx = 0" "sn_under_segmentation tx = INVALID_RLC_SN" "tam_cfg tx = txcfg"
    "retx_queue tx = new_retx_queue (unat (window_size (to_number_am_sn z)))"
    "tam_queue tx = new_sdu_queue (of_nat (txam_queue_size txcfg)) (of_nat (txam_queue_size_bytes txcfg))"
    using tx c(1) by (auto simp: new_tx_am_def Let_def bind_res_Inr_iff)
  have "rx_next rx = 0 \<and> ram_next_highest rx = 0 \<and> \<not> do_status rx \<and> ram_cfg rx = rxcfg"
    using rx by (auto simp: new_rx_am_def Let_def bind_res_Inr_iff)
  then have rf: "rx_next rx = 0" "ram_next_highest rx = 0" "\<not> do_status rx" "ram_cfg rx = rxcfg" by auto
  have "flow_tx z [] 0 0 tx"
    using t(1) tf c(1) by (simp add: flow_tx_def tam_z_def tx_seg_def retx_sent_def)
  moreover have "flow_rx z [] 0 u 0 0 rx" for u
    using r(1) rf c(2) by (simp add: flow_rx_def am_z_def)
  moreover have "q_view (tam_queue tx) = []" by (simp add: tf)
  moreover have "rx_got z 0 0 rx = {}" by (simp add: rx_got_def)
  ultimately show ?thesis using rf(3) by (intro am_dirI [of z "[]" 0 0 _ 0 0]) (simp_all add: rx_pending_def)
qed

lemma new_am_link_inv:
  assumes n: "new_am_link cfg is_srb = Inr s" and c: "am_link_cfg_ok z cfg"
  shows "am_link_inv z s"
proof -
  obtain e1 e0 where e: "new_am_entity (cfg True) is_srb = Inr e1" "new_am_entity (cfg False) is_srb = Inr e0"
    "s = \<lparr>lk_ent = (\<lambda>x. if x then e1 else e0), lk_chan = (\<lambda>_. []), lk_accepted = (\<lambda>_. []), lk_delivered = (\<lambda>_. [])\<rparr>"
    using n by (auto simp: new_am_link_def bind_res_Inr_iff)
  have ent: "new_am_entity (cfg x) is_srb = Inr (lk_ent s x)" for x using e by (cases x) simp_all
  have dir: "ent_dir z [] [] [] [] (lk_ent s x) (lk_ent s y)" for x y
  proof -
    note n1 = new_am_entityD [OF ent [of x]] and n2 = new_am_entityD [OF ent [of y]]
    have "am_dir z [] [] [] [] (ent_tx (lk_ent s x)) (ent_rx (lk_ent s y))"
      by (rule new_dir [of "amc_tx (cfg x)" is_srb _ "amc_rx (cfg y)"]) (use n1 n2 c in \<open>simp_all add: am_link_cfg_ok_def\<close>)
    then show ?thesis using n1 by (simp add: ent_dir_def chan_data_def chan_stats_def)
  qed
  have ok: "ent_ok (lk_ent s x)" for x
    using new_am_entityD [OF ent [of x]] new_rx_prohibit by (auto simp: ent_ok_def)
  show ?thesis unfolding am_link_inv_def using dir ok e(3) by (auto simp: chan_ok_def)
qed

lemma am_link_reach_inv: "am_link_reach cfg is_srb s \<Longrightarrow> am_link_cfg_ok z cfg \<Longrightarrow> am_link_inv z s"
proof (induction rule: am_link_reach.induct)
  case (am_link_step s op x s')
  then show ?case using exec_am_link_ok [of z s op x] by auto
qed (rule new_am_link_inv)

section \<open>Properties\<close>

text \<open>A history in which an SDU is sent and received.\<close>

definition sample_am_cfg :: "bool \<Rightarrow> rlc_am_config" where
  "sample_am_cfg x = \<lparr>amc_rx = sample_rx_am_cfg 50, amc_tx = sample_tx_am_cfg\<rparr>"

definition sample_am_link_ops :: "(bool \<times> am_link_op) list" where
  "sample_am_link_ops = [(True, Link_Sdu 1 [0x80, 7, 1, 2, 3] False), (True, Link_Pull 9), (False, Link_Receive 2)]"

lemma sample_am_cfg_ok: "am_link_cfg_ok Am_Size12bits sample_am_cfg"
  using sample_tx_am(2) by (simp add: am_link_cfg_ok_def sample_am_cfg_def) (simp add: sample_rx_am_cfg_def sample_tx_am_cfg_def)

lemma am_links_reach:
  "am_link_reach cfg is_srb s \<Longrightarrow> list_all (\<lambda>(x, op). am_link_allowed op) ops \<Longrightarrow> exec_am_links ops s = Inr s' \<Longrightarrow> am_link_reach cfg is_srb s'"
  by (induction ops s rule: exec_am_links.induct) (auto simp: bind_res_Inr_iff intro: am_link_step)

lemma sample_am_link_run:
  "case bind_res (new_am_link sample_am_cfg False) (exec_am_links sample_am_link_ops) of Inl e \<Rightarrow> False
   | Inr s \<Rightarrow> lk_delivered s False = [[0x80, 7, 1, 2, 3]]"
  by code_simp

lemma sample_am_link:
  obtains s where "bind_res (new_am_link sample_am_cfg False) (exec_am_links sample_am_link_ops) = Inr s"
    "lk_delivered s False = [[0x80, 7, 1, 2, 3]]" "am_link_reach sample_am_cfg False s"
proof -
  obtain s where s: "bind_res (new_am_link sample_am_cfg False) (exec_am_links sample_am_link_ops) = Inr s" "lk_delivered s False = [[0x80, 7, 1, 2, 3]]"
    using sample_am_link_run by (auto split: sum.splits)
  then obtain s0 where s0: "new_am_link sample_am_cfg False = Inr s0" "exec_am_links sample_am_link_ops s0 = Inr s" by (auto simp: bind_res_Inr_iff)
  have "list_all (\<lambda>(x, op). am_link_allowed op) sample_am_link_ops" by (simp add: sample_am_link_ops_def am_sdu_ok_def max_am_sdu_def)
  from am_links_reach [OF am_link_new [OF s0(1)] this s0(2)] have "am_link_reach sample_am_cfg False s" .
  then show thesis using that s by blast
qed

text \<open>
  C3. Two AM entities that are connected by channels which keep the order of PDUs, lose some and delay them never fail: in
  every state that they can reach, every operation of either end succeeds, whether it is an SDU, a discard, a grant, the arrival or the loss
  of a PDU, a pending task, the expiry of a timer or a stop. In particular the obligations that the transmitter has
  towards its peer are fulfilled by the reports of the receiver. The conditions are on the upper layers and the configuration: SDUs are
  not empty and have at most 16383 bytes, a discard names a possible PDCP SN, both ends have the same SN length, queues have
  at least one place, t-Reassembly is positive; every handler is one step, and allocations succeed.
\<close>

theorem am_link_never_faults:
  assumes "am_link_reach cfg is_srb s" "am_link_cfg_ok z cfg" "am_link_allowed op"
  shows "\<exists>s'. exec_am_link x op s = Inr s' \<and> am_link_reach cfg is_srb s'"
  using exec_am_link_ok [OF am_link_reach_inv [OF assms(1,2)] assms(3), of x] am_link_step [OF assms(1,3)] by blast

theorem am_link_never_faults_witness:
  "\<exists>s s'. bind_res (new_am_link sample_am_cfg False) (exec_am_links sample_am_link_ops) = Inr s \<and> exec_am_link False (Link_Pull 9) s = Inr s'"
proof -
  obtain s where s: "bind_res (new_am_link sample_am_cfg False) (exec_am_links sample_am_link_ops) = Inr s"
    "am_link_reach sample_am_cfg False s" by (rule sample_am_link)
  from am_link_never_faults [OF s(2) sample_am_cfg_ok, of "Link_Pull 9" False] show ?thesis using s(1) by auto
qed

text \<open>
  C2. Reliable delivery: at any time, there is a numbering of the SDUs that the transmitter of an end has taken from its queue, which
  are accepted SDUs in the order of acceptance, such that the other end has delivered every SDU at most once and nothing
  else. The first \<open>a\<close> of them are acknowledged, where TX\_Next\_Ack is \<open>a\<close> modulo the number of sequence numbers, and all of these
  have been delivered. The transmit window holds exactly the others, so nothing is released before it is delivered.
\<close>

theorem am_link_exactly_once:
  assumes "am_link_reach cfg is_srb s" "am_link_cfg_ok z cfg" "tx = ent_tx (lk_ent s x)"
  shows "\<exists>sent got a. subseq (sent @ map sdu_buf (q_view (tam_queue tx))) (lk_accepted s x) \<and>
     got \<subseteq> {..< length sent} \<and> mset (lk_delivered s (\<not> x)) = image_mset (nth sent) (mset_set got) \<and>
     a \<le> length sent \<and> unat (tx_next_ack tx) = a mod 2 ^ to_number_am_sn z \<and> {..< a} \<subseteq> got \<and>
     (\<forall>sn sdu. tx_sdu (tx_window tx) sn = Some sdu \<longleftrightarrow>
        (\<exists>i. a \<le> i \<and> i < length sent \<and> sn = of_nat i mod cardinality (to_number_am_sn z) \<and> sdu = sent ! i))"
proof -
  have "ent_dir z (lk_accepted s x) (lk_chan s x) (lk_chan s (\<not> x)) (lk_delivered s (\<not> x)) (lk_ent s x) (lk_ent s (\<not> x))"
    by (rule am_link_invD(1) [OF am_link_reach_inv [OF assms(1,2)]])
  then obtain sent a c r h where f: "flow_tx z sent a c tx" "flow_rx z sent c (tx_progress tx) r h (ent_rx (lk_ent s (\<not> x)))"
    "subseq (sent @ map sdu_buf (q_view (tam_queue tx))) (lk_accepted s x)"
    "mset (lk_delivered s (\<not> x)) = image_mset (nth sent) (mset_set (rx_got z r h (ent_rx (lk_ent s (\<not> x)))))" "a \<le> r"
    unfolding ent_dir_def assms(3) [symmetric] by (auto elim!: am_dirE dest: stat_chain_le)
  note d = flow_txD [OF f(1)]
  let ?got = "rx_got z r h (ent_rx (lk_ent s (\<not> x)))"
  have "?got \<subseteq> {..< length sent}" using got_less [OF f(2)] d(7) by auto
  moreover have "{..< a} \<subseteq> ?got" using f(5) by (auto simp: rx_got_def)
  moreover have "a \<le> length sent" using d(6,7) by simp
  moreover have "unat (tx_next_ack tx) = a mod 2 ^ to_number_am_sn z"
    using d(4) unat_sn_of [of z a] by (cases z) (simp_all add: sn_half_def window_size_def cardinality_def push_bit_eq_mult)
  moreover have "tx_sdu (tx_window tx) sn = Some sdu \<longleftrightarrow> (\<exists>i. a \<le> i \<and> i < length sent \<and> sn = sn_of z i \<and> sdu = sent ! i)" for sn sdu
    using d(9) flow_tx_index [OF f(1), of sn sdu] by auto
  ultimately show ?thesis
    using f(3,4) unfolding sn_of_def by (intro exI [of _ sent] exI [of _ ?got] exI [of _ a]) simp
qed

theorem am_link_exactly_once_witness:
  "\<exists>s sent. bind_res (new_am_link sample_am_cfg False) (exec_am_links sample_am_link_ops) = Inr s \<and>
     lk_delivered s False = [[0x80, 7, 1, 2, 3]] \<and> subseq sent (lk_accepted s True) \<and> [0x80, 7, 1, 2, 3] \<in> set sent"
proof -
  obtain s where s: "bind_res (new_am_link sample_am_cfg False) (exec_am_links sample_am_link_ops) = Inr s"
    "lk_delivered s False = [[0x80, 7, 1, 2, 3]]" "am_link_reach sample_am_cfg False s" by (rule sample_am_link)
  obtain sent got where g: "subseq (sent @ map sdu_buf (q_view (tam_queue (ent_tx (lk_ent s True))))) (lk_accepted s True)"
    "got \<subseteq> {..< length sent}" "mset (lk_delivered s (\<not> True)) = image_mset (nth sent) (mset_set got)"
    using am_link_exactly_once [OF s(3) sample_am_cfg_ok refl, of True] by blast
  have fin: "finite got" using g(2) finite_subset by blast
  have "[0x80, 7, 1, 2, 3] \<in># image_mset (nth sent) (mset_set got)" using g(3) s(2) by (metis list.set_intros(1) not_True_eq_False set_mset_mset)
  then have "[0x80, 7, 1, 2, 3] \<in> set sent" using g(2) fin by (auto simp: subset_iff)
  moreover have "subseq sent (lk_accepted s True)" using g(1) by (meson list_emb_append_mono subseq_order.order_trans list_emb_Nil subseq_rev_drop_many subseq_order.order_refl)
  ultimately show ?thesis using s by blast
qed

end
