(* ===== verification/Rlc_Tm.thy ===== *)
theory Rlc_Tm
  imports Rlc_Tx_Common Rlc_Types
begin

text \<open>
  Transparent mode (lib/rlc/rlc_tx_tm_entity.h, rlc_tx_tm_entity.cpp, rlc_rx_tm_entity.cpp): SDUs pass through the SDU
  queue and are sent without a header, each in one PDU. As for the other entities an operation returns the
  new state and its actions; \<open>pull_pdu_tm\<close> also returns the bytes that are written to the grant. Logging, packet
  capture, latency measurements and the metrics timers are left out.
\<close>

record rlc_tx_tm_entity =
  ttm_cfg :: rlc_tx_tm_config
  ttm_queue :: rlc_sdu_queue
  ttm_sdu :: rlc_sdu
  ttm_pending_buffer_state :: bool

definition new_tx_tm :: "rlc_tx_tm_config \<Rightarrow> rlc_tx_tm_entity" where
  "new_tx_tm cfg = \<lparr>ttm_cfg = cfg,
     ttm_queue = new_sdu_queue (of_nat (txtm_queue_size cfg)) (of_nat (txtm_queue_size_bytes cfg)),
     ttm_sdu = empty_sdu, ttm_pending_buffer_state = False\<rparr>"

definition handle_changed_buffer_state_tm :: "rlc_tx_tm_entity \<Rightarrow> rlc_tx_tm_entity \<times> rlc_tx_action list" where
  "handle_changed_buffer_state_tm s =
     (if \<not> ttm_pending_buffer_state s then (s\<lparr>ttm_pending_buffer_state := True\<rparr>, [Defer_Buffer_State_Update])
      else (s, []))"

definition handle_sdu_tm :: "nat \<Rightarrow> byte_buffer \<Rightarrow> bool \<Rightarrow> rlc_tx_tm_entity \<Rightarrow> rlc_tx_tm_entity \<times> rlc_tx_action list" where
  "handle_sdu_tm now buf is_retx s =
     (let sdu = make_sdu now buf False None; (written, q) = write_sdu sdu (ttm_queue s); s = s\<lparr>ttm_queue := q\<rparr>
      in if written then (let (s, as) = handle_changed_buffer_state_tm s in (s, Tx_Add_Sdus 1 (length buf) # as))
         else (s, [Tx_Add_Lost_Sdus 1]))"

definition discard_sdu_tm :: "u32 \<Rightarrow> rlc_tx_tm_entity \<Rightarrow> rlc_tx_tm_entity \<times> rlc_tx_action list" where
  "discard_sdu_tm pdcp_sn s = (s, [Tx_Add_Discard_Failure 1])"

text \<open>The part of \<open>pull_pdu\<close> for the current SDU.\<close>

definition send_sdu_tm :: "nat \<Rightarrow> rlc_tx_tm_entity \<Rightarrow> byte_buffer \<times> rlc_tx_tm_entity \<times> rlc_tx_action list" where
  "send_sdu_tm grant_len s =
     (let sdu = ttm_sdu s; buf = sdu_buf sdu in
      if length buf > grant_len then ([], s, [Tx_Add_Small_Alloc 1])
      else (buf, s\<lparr>ttm_sdu := sdu\<lparr>sdu_buf := []\<rparr>\<rparr>,
            (case sdu_pdcp_sn sdu of None \<Rightarrow> [] | Some sn \<Rightarrow> [On_Transmitted_Sdu sn (txtm_queue_size_bytes (ttm_cfg s))]) @
            [Tx_Add_Pdus_No_Segmentation 1 (length buf)]))"

definition pull_pdu_tm :: "nat \<Rightarrow> rlc_tx_tm_entity \<Rightarrow> byte_buffer \<times> rlc_tx_tm_entity \<times> rlc_tx_action list" where
  "pull_pdu_tm grant_len s =
     (if sdu_buf (ttm_sdu s) = [] then
        (let (ok, sdu, q) = read_sdu (ttm_sdu s) (ttm_queue s); s = s\<lparr>ttm_sdu := sdu, ttm_queue := q\<rparr>
         in if \<not> ok then ([], s, []) else send_sdu_tm grant_len s)
      else send_sdu_tm grant_len s)"

definition get_buffer_state_tm :: "rlc_tx_tm_entity \<Rightarrow> rlc_buffer_state \<times> rlc_tx_tm_entity" where
  "get_buffer_state_tm s =
     (let (toa, s) =
            (if sdu_buf (ttm_sdu s) \<noteq> [] then (Some (sdu_toa (ttm_sdu s)), s)
             else (let (next_sdu, q) = front (ttm_queue s) in (map_option sdu_toa next_sdu, s\<lparr>ttm_queue := q\<rparr>)))
      in (\<lparr>pending_bytes = unat (n_bytes (get_state (ttm_queue s)) + of_nat (length (sdu_buf (ttm_sdu s))) :: u32), hol_toa = toa\<rparr>, s))"

definition update_mac_buffer_state_tm :: "rlc_tx_tm_entity \<Rightarrow> rlc_tx_tm_entity \<times> rlc_tx_action list" where
  "update_mac_buffer_state_tm s =
     (let (bs, s) = get_buffer_state_tm (s\<lparr>ttm_pending_buffer_state := False\<rparr>) in (s, [On_Buffer_State_Update bs]))"

text \<open>The receiving entity keeps no state. \<open>alloc\<close> says whether the SDU buffer can be created.\<close>

definition handle_pdu_tm :: "bool \<Rightarrow> byte_buffer \<Rightarrow> rlc_rx_action list" where
  "handle_pdu_tm alloc buf =
     Metrics_Add_Pdus 1 (length buf) #
     (if \<not> alloc then [Metrics_Add_Lost_Pdus 1] else [Metrics_Add_Sdus 1 (length buf), On_New_Sdu buf])"

section \<open>The pair of entities is a FIFO\<close>

definition ttm_wf :: "rlc_tx_tm_entity \<Rightarrow> bool" where
  "ttm_wf s \<longleftrightarrow> q_inv (ttm_queue s) \<and> (\<forall>x \<in> set (q_queue (ttm_queue s)). sdu_buf x \<noteq> [] \<and> sdu_pdcp_sn x = None)"

definition ttm_backlog :: "rlc_tx_tm_entity \<Rightarrow> byte_buffer list" where
  "ttm_backlog s = (if sdu_buf (ttm_sdu s) = [] then [] else [sdu_buf (ttm_sdu s)]) @ map sdu_buf (q_view (ttm_queue s))"

text \<open>No SDU of the queue has a PDCP SN, so that none can be discarded.\<close>

lemma q_view_unnumbered:
  "\<forall>x \<in> set (q_queue q). sdu_pdcp_sn x = None \<Longrightarrow> q_view q = q_queue q"
  by (auto simp: q_view_def sdu_valid_def intro: filter_True)

lemma read_sdu_unnumbered:
  assumes "\<forall>x \<in> set (q_queue q). sdu_pdcp_sn x = None"
  shows "read_sdu sdu q = (case q_queue q of [] \<Rightarrow> (False, sdu, q)
    | x # xs \<Rightarrow> (True, x, state_sub (length (sdu_buf x)) (q\<lparr>q_queue := xs\<rparr>)))"
  using assms by (simp add: read_sdu.simps [of sdu q] try_pop_def Let_def split: list.splits)

lemma write_sdu_unnumbered:
  "sdu_pdcp_sn x = None \<Longrightarrow> q_queue (snd (write_sdu x q)) = q_queue q @ (if fst (write_sdu x q) then [x] else [])"
  by (auto simp: write_sdu_def try_push_def state_add_def Let_def)

lemma ttm_view: "ttm_wf s \<Longrightarrow> q_view (ttm_queue s) = q_queue (ttm_queue s)"
  by (simp add: ttm_wf_def q_view_unnumbered)

lemma handle_changed_tm_simps [simp]:
  "ttm_queue (fst (handle_changed_buffer_state_tm s)) = ttm_queue s" "ttm_sdu (fst (handle_changed_buffer_state_tm s)) = ttm_sdu s"
  by (simp_all add: handle_changed_buffer_state_tm_def)

lemma handle_sdu_tm_ok:
  assumes "ttm_wf s" "buf \<noteq> []"
  shows "ttm_wf (fst (handle_sdu_tm now buf r s)) \<and>
    ttm_backlog (fst (handle_sdu_tm now buf r s)) = ttm_backlog s @
      (if Tx_Add_Lost_Sdus 1 \<in> set (snd (handle_sdu_tm now buf r s)) then [] else [buf])"
proof -
  let ?sdu = "make_sdu now buf False None"
  have "sdu_sn_ok ?sdu" by (simp add: sdu_sn_ok_def)
  note w = write_correct [OF _ this, of "ttm_queue s"]
  have "q_inv (ttm_queue s)" using assms by (simp add: ttm_wf_def)
  note w = w [OF this]
  show ?thesis using w assms write_sdu_unnumbered [of ?sdu "ttm_queue s"]
    by (cases "write_sdu ?sdu (ttm_queue s)")
      (auto simp: handle_sdu_tm_def Let_def case_prod_beta ttm_wf_def ttm_backlog_def handle_changed_buffer_state_tm_def)
qed

text \<open>A PDU is the next SDU as it is; nothing is lost if the grant is too short.\<close>

lemma pull_pdu_tm_ok:
  assumes "ttm_wf s" "pull_pdu_tm grant s = (pdu, s', as)"
  shows "ttm_wf s'" "ttm_backlog s = (if pdu = [] then [] else [pdu]) @ ttm_backlog s'" "length pdu \<le> grant"
    "pdu = [] \<Longrightarrow> ttm_backlog s = [] \<or> grant < length (hd (ttm_backlog s))"
proof -
  have q: "q_inv (ttm_queue s)" using assms(1) by (simp add: ttm_wf_def)
  note rd = read_correct [OF q, of "ttm_sdu s"]
  obtain ok sdu q' where r: "read_sdu (ttm_sdu s) (ttm_queue s) = (ok, sdu, q')" by (metis prod.collapse)
  have send: "ttm_wf s'' \<and> ttm_backlog t = (if pdu = [] then [] else [pdu]) @ ttm_backlog s'' \<and> length pdu \<le> grant \<and>
      (pdu = [] \<longrightarrow> grant < length (hd (ttm_backlog t)))"
    if "ttm_wf t" "sdu_buf (ttm_sdu t) \<noteq> []" "send_sdu_tm grant t = (pdu, s'', as)" for t s''
    using that by (auto simp: send_sdu_tm_def Let_def ttm_wf_def ttm_backlog_def split: if_splits)
  let ?t = "s\<lparr>ttm_sdu := sdu, ttm_queue := q'\<rparr>"
  consider (old) "sdu_buf (ttm_sdu s) \<noteq> []" | (none) "sdu_buf (ttm_sdu s) = []" "q_view (ttm_queue s) = []"
    | (new) x xs where "sdu_buf (ttm_sdu s) = []" "q_view (ttm_queue s) = x # xs"
    by (cases "q_view (ttm_queue s)") auto
  then have "ttm_wf s' \<and> ttm_backlog s = (if pdu = [] then [] else [pdu]) @ ttm_backlog s' \<and> length pdu \<le> grant \<and>
      (pdu = [] \<longrightarrow> ttm_backlog s = [] \<or> grant < length (hd (ttm_backlog s)))"
  proof cases
    case old
    then show ?thesis using send [OF assms(1) old, of s'] assms(2) by (auto simp: pull_pdu_tm_def)
  next
    case new
    have o: "ok" "sdu = x" "q_queue q' = xs" "q_view q' = xs" "q_inv q'"
      using rd r new(2) ttm_view [OF assms(1)] read_sdu_unnumbered [of "ttm_queue s" "ttm_sdu s"] assms(1)
      by (auto simp: ttm_wf_def state_sub_def)
    have t: "ttm_wf ?t" "sdu_buf (ttm_sdu ?t) \<noteq> []" "ttm_backlog ?t = ttm_backlog s"
      using assms(1) o new ttm_view [OF assms(1)] by (auto simp: ttm_wf_def ttm_backlog_def)
    then show ?thesis using send [OF t(1,2), of s'] assms(2) new(1) r o(1) by (auto simp: pull_pdu_tm_def)
  next
    case none
    then have "read_sdu (ttm_sdu s) (ttm_queue s) = (False, ttm_sdu s, ttm_queue s)"
      using assms(1) ttm_view [OF assms(1)] by (simp add: read_sdu_unnumbered ttm_wf_def)
    then have "pdu = []" "s' = s" using assms(2) none(1) by (auto simp: pull_pdu_tm_def)
    then show ?thesis using none assms(1) by (simp add: ttm_backlog_def)
  qed
  then show "ttm_wf s'" "ttm_backlog s = (if pdu = [] then [] else [pdu]) @ ttm_backlog s'" "length pdu \<le> grant"
    "pdu = [] \<Longrightarrow> ttm_backlog s = [] \<or> grant < length (hd (ttm_backlog s))" by blast+
qed

lemma new_tx_tm_ok:
  "0 < txtm_queue_size cfg \<Longrightarrow> txtm_queue_size cfg < 2 ^ 32 \<Longrightarrow> ttm_wf (new_tx_tm cfg) \<and> ttm_backlog (new_tx_tm cfg) = []"
  by (auto simp: ttm_wf_def ttm_backlog_def new_tx_tm_def empty_sdu_def new_sdu_queue_def q_view_def
      word_less_nat_alt unsigned_of_nat take_bit_nat_eq_self intro!: q_inv_new [unfolded new_sdu_queue_def])

text \<open>
  The buffer state is the number of bytes of the backlog, up to the wrap-around of the 32-bit counter, and asking
  for it changes nothing.
\<close>

lemma get_buffer_state_tm_ok:
  assumes "ttm_wf s"
  shows "ttm_backlog (snd (get_buffer_state_tm s)) = ttm_backlog s"
    "pending_bytes (fst (get_buffer_state_tm s)) = sum_list (map length (ttm_backlog s)) mod 2 ^ 32"
    "hol_toa (fst (get_buffer_state_tm s)) = None \<longleftrightarrow> ttm_backlog s = []"
proof -
  have q: "q_inv (ttm_queue s)" using assms by (simp add: ttm_wf_def)
  note f = front_correct [OF q]
  have n: "unat (n_bytes (get_state r) + of_nat k) = (sdu_bytes (q_view (ttm_queue s)) + k) mod 2 ^ 32"
    if "q_inv r" "q_view r = q_view (ttm_queue s)" for r k
    using get_state_exact(2) [OF that(1)] that(2) by (simp add: unat_word_ariths unsigned_of_nat take_bit_eq_mod mod_simps)
  have b: "sum_list (map length (map sdu_buf xs)) = sdu_bytes xs" for xs by (simp add: sdu_bytes_def comp_def)
  show "ttm_backlog (snd (get_buffer_state_tm s)) = ttm_backlog s"
    using f by (simp add: get_buffer_state_tm_def ttm_backlog_def Let_def case_prod_beta)
  show "pending_bytes (fst (get_buffer_state_tm s)) = sum_list (map length (ttm_backlog s)) mod 2 ^ 32"
    using n [OF q refl] n [of "snd (front (ttm_queue s))" 0] f
    by (simp add: get_buffer_state_tm_def ttm_backlog_def Let_def case_prod_beta b del: map_map) (simp add: add.commute)
  show "hol_toa (fst (get_buffer_state_tm s)) = None \<longleftrightarrow> ttm_backlog s = []"
    using f by (simp add: get_buffer_state_tm_def ttm_backlog_def Let_def case_prod_beta split: list.splits)
qed

end
