(* ===== verification/Ordered_Map.thy ===== *)
theory Ordered_Map
  imports Main
begin

text \<open>
  \<open>std::map\<close>: a list of keys with values in the order of the keys, which is the order in which the code iterates.
  The locale \<open>ordered_store\<close> is what a client relies on: the operations act on the function from keys to
  values, and the order is kept. The list interprets it.
\<close>

type_synonym ('k, 'v) omap = "('k \<times> 'v) list"

definition om_wf :: "('k :: linorder, 'v) omap \<Rightarrow> bool" where
  "om_wf m \<longleftrightarrow> sorted_wrt (<) (map fst m)"

definition om_get :: "('k, 'v) omap \<Rightarrow> 'k \<Rightarrow> 'v option" where
  "om_get m = map_of m"

text \<open>\<open>m[k] = v\<close>\<close>

fun om_put :: "'k :: linorder \<Rightarrow> 'v \<Rightarrow> ('k, 'v) omap \<Rightarrow> ('k, 'v) omap" where
  "om_put k v [] = [(k, v)]"
| "om_put k v ((k', v') # m) =
     (if k < k' then (k, v) # (k', v') # m else if k = k' then (k, v) # m else (k', v') # om_put k v m)"

text \<open>\<open>f(m[k])\<close>: a missing element is created with the value \<open>d\<close>.\<close>

definition om_modify :: "'v \<Rightarrow> 'k :: linorder \<Rightarrow> ('v \<Rightarrow> 'v) \<Rightarrow> ('k, 'v) omap \<Rightarrow> ('k, 'v) omap" where
  "om_modify d k f m = om_put k (f (case om_get m k of None \<Rightarrow> d | Some v \<Rightarrow> v)) m"

text \<open>A loop that erases the elements with a property, and a loop that changes every value.\<close>

definition om_erase_if :: "('k \<Rightarrow> 'v \<Rightarrow> bool) \<Rightarrow> ('k, 'v) omap \<Rightarrow> ('k, 'v) omap" where
  "om_erase_if P m = filter (\<lambda>(k, v). \<not> P k v) m"

definition om_erase :: "'k \<Rightarrow> ('k, 'v) omap \<Rightarrow> ('k, 'v) omap" where
  "om_erase k = om_erase_if (\<lambda>k' _. k' = k)"

definition om_map :: "('v \<Rightarrow> 'v) \<Rightarrow> ('k, 'v) omap \<Rightarrow> ('k, 'v) omap" where
  "om_map f m = map (\<lambda>(k, v). (k, f v)) m"

section \<open>Laws\<close>

lemma om_wf_empty [simp]: "om_wf []"
  by (simp add: om_wf_def)

lemma om_get_empty [simp]: "om_get [] k = None"
  by (simp add: om_get_def)

lemma om_put_keys: "fst ` set (om_put k v m) = insert k (fst ` set m)"
  by (induction k v m rule: om_put.induct) auto

lemma om_wf_put: "om_wf m \<Longrightarrow> om_wf (om_put k v m)"
proof (induction k v m rule: om_put.induct)
  case (2 k v k' v' m)
  then show ?case
    using om_put_keys [of k v m] by (auto simp: om_wf_def)
qed (simp add: om_wf_def)

lemma om_get_put: "om_wf m \<Longrightarrow> om_get (om_put k v m) = (om_get m)(k \<mapsto> v)"
proof (induction k v m rule: om_put.induct)
  case (2 k v k' v' m)
  then show ?case by (auto simp: om_get_def om_wf_def fun_eq_iff)
qed (simp add: om_get_def fun_eq_iff)

lemma om_wf_erase_if: "om_wf m \<Longrightarrow> om_wf (om_erase_if P m)"
proof (induction m)
  case (Cons x m)
  then show ?case by (cases x) (auto simp: om_wf_def om_erase_if_def)
qed (simp add: om_erase_if_def)

lemma om_get_erase_if:
  assumes "om_wf m"
  shows "om_get (om_erase_if P m) k = (case om_get m k of None \<Rightarrow> None | Some v \<Rightarrow> if P k v then None else Some v)"
  using assms
proof (induction m)
  case (Cons x m)
  obtain k' v where x: "x = (k', v)" by (cases x)
  have rest: "k \<noteq> k' \<or> map_of m k = None" using Cons.prems
    by (auto simp: om_wf_def x map_of_eq_None_iff)
  have "om_wf m" using Cons.prems by (simp add: om_wf_def)
  then show ?case using Cons.IH rest
    by (auto simp: x om_get_def om_erase_if_def map_of_eq_None_iff split: option.splits)
qed (simp add: om_erase_if_def)

lemma om_wf_map: "om_wf (om_map f m) = om_wf m"
  by (simp add: om_wf_def om_map_def comp_def case_prod_beta)

lemma om_get_map: "om_get (om_map f m) k = map_option f (om_get m k)"
  by (induction m) (auto simp: om_get_def om_map_def)

lemma om_get_set: "om_wf m \<Longrightarrow> (k, v) \<in> set m \<longleftrightarrow> om_get m k = Some v"
proof -
  assume "om_wf m"
  then have "distinct (map fst m)" by (simp add: om_wf_def strict_sorted_iff)
  then show ?thesis by (simp add: om_get_def)
qed

section \<open>The interface\<close>

locale ordered_store =
  fixes wf :: "'m \<Rightarrow> bool"
    and get :: "'m \<Rightarrow> 'k \<Rightarrow> 'v option"
    and put :: "'k \<Rightarrow> 'v \<Rightarrow> 'm \<Rightarrow> 'm"
    and erase_if :: "('k \<Rightarrow> 'v \<Rightarrow> bool) \<Rightarrow> 'm \<Rightarrow> 'm"
  assumes wf_put: "wf m \<Longrightarrow> wf (put k v m)"
    and get_put: "wf m \<Longrightarrow> get (put k v m) = (get m)(k \<mapsto> v)"
    and wf_erase_if: "wf m \<Longrightarrow> wf (erase_if P m)"
    and get_erase_if: "wf m \<Longrightarrow>
      get (erase_if P m) k = (case get m k of None \<Rightarrow> None | Some v \<Rightarrow> if P k v then None else Some v)"
begin

text \<open>Writing a list of values: the last one for a key counts.\<close>

lemma wf_put_all: "wf m \<Longrightarrow> wf (foldl (\<lambda>m (k, v). put k v m) m xs)"
  by (induction xs arbitrary: m) (auto simp: wf_put)

lemma get_put_all: "wf m \<Longrightarrow> get (foldl (\<lambda>m (k, v). put k v m) m xs) = get m ++ map_of (rev xs)"
proof (induction xs arbitrary: m)
  case (Cons x xs)
  obtain k v where x: "x = (k, v)" by (cases x)
  show ?case using Cons.IH [OF wf_put [OF Cons.prems, of k v]] by (auto simp: x get_put [OF Cons.prems] map_add_def fun_eq_iff split: option.split)
qed simp

text \<open>Erasing twice is erasing once.\<close>

lemma erase_twice: "wf m \<Longrightarrow> get (erase_if P (erase_if P m)) = get (erase_if P m)"
proof
  fix k assume w: "wf m"
  show "get (erase_if P (erase_if P m)) k = get (erase_if P m) k"
    by (simp add: get_erase_if [OF wf_erase_if [OF w]] get_erase_if [OF w] split: option.split)
qed

end

interpretation om: ordered_store om_wf om_get om_put om_erase_if
  by unfold_locales (simp_all add: om_wf_put om_get_put om_wf_erase_if om_get_erase_if)

lemma om_wf_modify: "om_wf m \<Longrightarrow> om_wf (om_modify d k f m)"
  by (simp add: om_modify_def om_wf_put)

lemma om_get_modify:
  "om_wf m \<Longrightarrow> om_get (om_modify d k f m) = (om_get m)(k \<mapsto> f (case om_get m k of None \<Rightarrow> d | Some v \<Rightarrow> v))"
  by (simp add: om_modify_def om_get_put)

lemma om_wf_erase: "om_wf m \<Longrightarrow> om_wf (om_erase k m)"
  by (simp add: om_erase_def om_wf_erase_if)

lemma om_get_erase: "om_wf m \<Longrightarrow> om_get (om_erase k m) = (om_get m)(k := None)"
  by (auto simp: om_erase_def om_get_erase_if fun_eq_iff split: option.split)

lemmas om_wfs = om_wf_put om_wf_modify om_wf_erase_if om_wf_erase om_wf_map

end
