(* ===== verification/Edgeric.thy ===== *)
theory Edgeric
  imports Prelude Ordered_Map "HOL-Library.Product_Lexorder"
begin

text \<open>
  The EdgeRIC agent (lib/edgeric/edgeric.h, edgeric.cpp): the store of metrics that the layers of the gNB write,
  the report that is published in every TTI, and the control messages (scheduling weights and MCS) with their
  freshness check.

  The static members of the class are a record. A \<open>float\<close> is its bit pattern; the arithmetic that is done on
  floats is a parameter (\<open>float_ops\<close>). The sockets are given by what they return: the bytes of a
  received message or nothing; the parser that protoc generates is a parameter from bytes to a message. A published
  message is a value of \<open>tti_metrics\<close>. Each operation holds the mutex of the map it uses, except where the
  code says otherwise in its comments; the operations are modelled as atomic. The log file is left out.
\<close>

type_synonym float32 = u32

record float_ops =
  fl_add :: "float32 \<Rightarrow> float32 \<Rightarrow> float32"
  fl_to_u32 :: "float32 \<Rightarrow> u32"

section \<open>Metrics\<close>

definition TTI_ROLLOVER :: u32 where
  "TTI_ROLLOVER = 10000"

type_synonym ue_drb_key = "u16 \<times> u8"
type_synonym cu_up_drb_key = "u32 \<times> u8"

record mac_drb_metrics =
  md_dl_buffer :: u32
  md_ul_buffer :: u32
  md_dl_bytes :: u32
  md_ul_bytes :: u32

record mac_ue_metrics =
  mu_cqi :: u32
  mu_snr :: float32
  mu_dl_buffer :: u32
  mu_ul_buffer :: u32
  mu_dl_tbs :: u32
  mu_ul_tbs :: u32
  mu_dl_acked_bytes :: u32
  mu_ul_ok_bytes :: u32
  mu_dl_mcs :: u32
  mu_ul_mcs :: u32
  mu_dl_prbs :: u32
  mu_ul_prbs :: u32
  mu_dl_harq_ack :: u32
  mu_dl_harq_nack :: u32
  mu_ul_crc_ok :: u32
  mu_ul_crc_fail :: u32
  mu_avg_ce_delay_ms :: float32
  mu_avg_crc_delay_ms :: float32
  mu_avg_pucch_harq_delay_ms :: float32
  mu_avg_pusch_harq_delay_ms :: float32
  mu_avg_sr_to_pusch_delay_ms :: float32
  mu_avg_sum_mac_delay_ms :: float32

record rlc_drb_metrics =
  rd_dl_buffer :: u32
  rd_ul_buffer :: u32
  rd_tx_sdus :: u64
  rd_tx_sdu_bytes :: u64
  rd_tx_pdus :: u64
  rd_tx_pdu_bytes :: u64
  rd_tx_dropped_sdus :: u64
  rd_tx_retx_pdus :: u64
  rd_tx_sdu_latency_us :: u32
  rd_rx_sdus :: u64
  rd_rx_sdu_bytes :: u64
  rd_rx_pdus :: u64
  rd_rx_pdu_bytes :: u64
  rd_rx_lost_pdus :: u64
  rd_rx_sdu_latency_us :: u32

record pdcp_drb_metrics =
  pd_tx_pdus :: u64
  pd_tx_pdu_bytes :: u64
  pd_tx_sdus :: u64
  pd_tx_dropped_sdus :: u64
  pd_tx_discard_timeouts :: u32
  pd_tx_pdu_latency_ns :: u32
  pd_rx_pdus :: u64
  pd_rx_pdu_bytes :: u64
  pd_rx_delivered_sdus :: u64
  pd_rx_dropped_pdus :: u64
  pd_rx_sdu_latency_ns :: u32

record gtp_ue_metrics =
  gu_dl_pkts :: u64
  gu_dl_bytes :: u64
  gu_ul_pkts :: u64
  gu_ul_bytes :: u64

text \<open>Default constructed values: every member is 0.\<close>

definition no_mac_drb :: mac_drb_metrics where
  "no_mac_drb = \<lparr>md_dl_buffer = 0, md_ul_buffer = 0, md_dl_bytes = 0, md_ul_bytes = 0\<rparr>"

definition no_mac_ue :: mac_ue_metrics where
  "no_mac_ue = \<lparr>mu_cqi = 0, mu_snr = 0, mu_dl_buffer = 0, mu_ul_buffer = 0, mu_dl_tbs = 0, mu_ul_tbs = 0,
     mu_dl_acked_bytes = 0, mu_ul_ok_bytes = 0, mu_dl_mcs = 0, mu_ul_mcs = 0, mu_dl_prbs = 0, mu_ul_prbs = 0,
     mu_dl_harq_ack = 0, mu_dl_harq_nack = 0, mu_ul_crc_ok = 0, mu_ul_crc_fail = 0, mu_avg_ce_delay_ms = 0,
     mu_avg_crc_delay_ms = 0, mu_avg_pucch_harq_delay_ms = 0, mu_avg_pusch_harq_delay_ms = 0,
     mu_avg_sr_to_pusch_delay_ms = 0, mu_avg_sum_mac_delay_ms = 0\<rparr>"

definition no_rlc_drb :: rlc_drb_metrics where
  "no_rlc_drb = \<lparr>rd_dl_buffer = 0, rd_ul_buffer = 0, rd_tx_sdus = 0, rd_tx_sdu_bytes = 0, rd_tx_pdus = 0,
     rd_tx_pdu_bytes = 0, rd_tx_dropped_sdus = 0, rd_tx_retx_pdus = 0, rd_tx_sdu_latency_us = 0, rd_rx_sdus = 0,
     rd_rx_sdu_bytes = 0, rd_rx_pdus = 0, rd_rx_pdu_bytes = 0, rd_rx_lost_pdus = 0, rd_rx_sdu_latency_us = 0\<rparr>"

definition no_gtp_ue :: gtp_ue_metrics where
  "no_gtp_ue = \<lparr>gu_dl_pkts = 0, gu_dl_bytes = 0, gu_ul_pkts = 0, gu_ul_bytes = 0\<rparr>"

section \<open>The agent\<close>

record edgeric =
  weights_recved :: "(u16, float32) omap"
  mcs_recved :: "(u16, u8) omap"
  mac_ue :: "(u16, mac_ue_metrics) omap"
  mac_drb :: "(ue_drb_key, mac_drb_metrics) omap"
  rlc_drb :: "(ue_drb_key, rlc_drb_metrics) omap"
  pdcp_drb :: "(cu_up_drb_key, pdcp_drb_metrics) omap"
  gtp_ue :: "(u32, gtp_ue_metrics) omap"
  ue_index_to_rnti :: "(u32, u16) omap"
  e1ap_id_to_rnti :: "(u32, u16) omap"
  cu_up_ue_to_e1ap_id :: "(u32, u32) omap"
  du_ue_to_rnti :: "(u32, u16) omap"
  er_ran_index_weights :: u32
  er_ran_index_mcs :: u32
  initialized :: bool
  er_weights_tti :: u32
  er_mcs_tti :: u32
  tti_cnt :: u32

definition STALENESS_THRESHOLD :: u32 where
  "STALENESS_THRESHOLD = 2"

definition new_edgeric :: edgeric where
  "new_edgeric = \<lparr>weights_recved = [], mcs_recved = [], mac_ue = [], mac_drb = [], rlc_drb = [], pdcp_drb = [], gtp_ue = [],
     ue_index_to_rnti = [], e1ap_id_to_rnti = [], cu_up_ue_to_e1ap_id = [], du_ue_to_rnti = [],
     er_ran_index_weights = 0, er_ran_index_mcs = 0, initialized = False, er_weights_tti = 0, er_mcs_tti = 0, tti_cnt = 0\<rparr>"

definition ensure_initialized :: "edgeric \<Rightarrow> edgeric" where
  "ensure_initialized s = (if \<not> initialized s then s\<lparr>initialized := True\<rparr> else s)"

definition setTTI :: "u32 \<Rightarrow> edgeric \<Rightarrow> edgeric" where
  "setTTI tti_count s = s\<lparr>tti_cnt := tti_count\<rparr>"

definition getTtiIndex :: "edgeric \<Rightarrow> u32" where
  "getTtiIndex s = tti_cnt s mod TTI_ROLLOVER"

section \<open>MAC metrics\<close>

definition on_mac_ue :: "u16 \<Rightarrow> (mac_ue_metrics \<Rightarrow> mac_ue_metrics) \<Rightarrow> edgeric \<Rightarrow> edgeric" where
  "on_mac_ue rnti f s = s\<lparr>mac_ue := om_modify no_mac_ue rnti f (mac_ue s)\<rparr>"

definition on_mac_drb :: "u16 \<Rightarrow> u8 \<Rightarrow> (mac_drb_metrics \<Rightarrow> mac_drb_metrics) \<Rightarrow> edgeric \<Rightarrow> edgeric" where
  "on_mac_drb rnti lcid f s = s\<lparr>mac_drb := om_modify no_mac_drb (rnti, lcid) f (mac_drb s)\<rparr>"

definition set_mac_ue :: "u16 \<Rightarrow> u32 \<Rightarrow> float32 \<Rightarrow> u32 \<Rightarrow> u32 \<Rightarrow> u32 \<Rightarrow> u32 \<Rightarrow> edgeric \<Rightarrow> edgeric" where
  "set_mac_ue rnti cqi snr dl_buffer ul_buffer dl_tbs ul_tbs = on_mac_ue rnti (\<lambda>m.
     m\<lparr>mu_cqi := cqi, mu_snr := snr, mu_dl_buffer := dl_buffer, mu_ul_buffer := ul_buffer, mu_dl_tbs := dl_tbs,
       mu_ul_tbs := ul_tbs\<rparr>)"

definition inc_dl_harq_ack :: "u16 \<Rightarrow> u32 \<Rightarrow> edgeric \<Rightarrow> edgeric" where
  "inc_dl_harq_ack rnti tbs s =
     on_mac_ue rnti (\<lambda>m. m\<lparr>mu_dl_acked_bytes := mu_dl_acked_bytes m + tbs\<rparr>)
       (on_mac_ue rnti (\<lambda>m. m\<lparr>mu_dl_harq_ack := mu_dl_harq_ack m + 1\<rparr>) s)"

definition inc_dl_harq_nack :: "u16 \<Rightarrow> edgeric \<Rightarrow> edgeric" where
  "inc_dl_harq_nack rnti = on_mac_ue rnti (\<lambda>m. m\<lparr>mu_dl_harq_nack := mu_dl_harq_nack m + 1\<rparr>)"

definition inc_ul_crc_ok :: "u16 \<Rightarrow> u32 \<Rightarrow> edgeric \<Rightarrow> edgeric" where
  "inc_ul_crc_ok rnti tbs s =
     on_mac_ue rnti (\<lambda>m. m\<lparr>mu_ul_ok_bytes := mu_ul_ok_bytes m + tbs\<rparr>)
       (on_mac_ue rnti (\<lambda>m. m\<lparr>mu_ul_crc_ok := mu_ul_crc_ok m + 1\<rparr>) s)"

definition inc_ul_crc_fail :: "u16 \<Rightarrow> edgeric \<Rightarrow> edgeric" where
  "inc_ul_crc_fail rnti = on_mac_ue rnti (\<lambda>m. m\<lparr>mu_ul_crc_fail := mu_ul_crc_fail m + 1\<rparr>)"

definition report_mac_delays ::
  "float_ops \<Rightarrow> u16 \<Rightarrow> float32 \<Rightarrow> float32 \<Rightarrow> float32 \<Rightarrow> float32 \<Rightarrow> float32 \<Rightarrow> edgeric \<Rightarrow> edgeric" where
  "report_mac_delays fl rnti ce crc pucch_harq pusch_harq sr_to_pusch = on_mac_ue rnti (\<lambda>m.
     m\<lparr>mu_avg_ce_delay_ms := ce, mu_avg_crc_delay_ms := crc, mu_avg_pucch_harq_delay_ms := pucch_harq,
       mu_avg_pusch_harq_delay_ms := pusch_harq, mu_avg_sr_to_pusch_delay_ms := sr_to_pusch,
       mu_avg_sum_mac_delay_ms := fl_add fl (fl_add fl (fl_add fl (fl_add fl ce crc) pucch_harq) pusch_harq) sr_to_pusch\<rparr>)"

definition set_mac_drb :: "u16 \<Rightarrow> u8 \<Rightarrow> u32 \<Rightarrow> u32 \<Rightarrow> u32 \<Rightarrow> u32 \<Rightarrow> edgeric \<Rightarrow> edgeric" where
  "set_mac_drb rnti lcid dl_buffer ul_buffer dl_bytes ul_bytes = on_mac_drb rnti lcid (\<lambda>m.
     m\<lparr>md_dl_buffer := dl_buffer, md_ul_buffer := ul_buffer, md_dl_bytes := dl_bytes, md_ul_bytes := ul_bytes\<rparr>)"

definition add_mac_drb_dl_bytes :: "u16 \<Rightarrow> u8 \<Rightarrow> u32 \<Rightarrow> edgeric \<Rightarrow> edgeric" where
  "add_mac_drb_dl_bytes rnti lcid bytes = on_mac_drb rnti lcid (\<lambda>m. m\<lparr>md_dl_bytes := md_dl_bytes m + bytes\<rparr>)"

definition add_mac_drb_ul_bytes :: "u16 \<Rightarrow> u8 \<Rightarrow> u32 \<Rightarrow> edgeric \<Rightarrow> edgeric" where
  "add_mac_drb_ul_bytes rnti lcid bytes = on_mac_drb rnti lcid (\<lambda>m. m\<lparr>md_ul_bytes := md_ul_bytes m + bytes\<rparr>)"

definition set_tx_bytes :: "float_ops \<Rightarrow> u16 \<Rightarrow> float32 \<Rightarrow> edgeric \<Rightarrow> edgeric" where
  "set_tx_bytes fl rnti tbs = on_mac_ue rnti (\<lambda>m. m\<lparr>mu_dl_tbs := mu_dl_tbs m + fl_to_u32 fl tbs\<rparr>)"

definition set_rx_bytes :: "float_ops \<Rightarrow> u16 \<Rightarrow> float32 \<Rightarrow> edgeric \<Rightarrow> edgeric" where
  "set_rx_bytes fl rnti tbs = on_mac_ue rnti (\<lambda>m. m\<lparr>mu_ul_tbs := mu_ul_tbs m + fl_to_u32 fl tbs\<rparr>)"

definition set_dl_tbs :: "u16 \<Rightarrow> u32 \<Rightarrow> edgeric \<Rightarrow> edgeric" where
  "set_dl_tbs rnti tbs = on_mac_ue rnti (\<lambda>m. m\<lparr>mu_dl_tbs := mu_dl_tbs m + tbs\<rparr>)"

definition set_ul_tbs :: "u16 \<Rightarrow> u32 \<Rightarrow> edgeric \<Rightarrow> edgeric" where
  "set_ul_tbs rnti tbs = on_mac_ue rnti (\<lambda>m. m\<lparr>mu_ul_tbs := mu_ul_tbs m + tbs\<rparr>)"

definition set_dl_mcs :: "u16 \<Rightarrow> u32 \<Rightarrow> edgeric \<Rightarrow> edgeric" where
  "set_dl_mcs rnti mcs = on_mac_ue rnti (\<lambda>m. if mcs > mu_dl_mcs m then m\<lparr>mu_dl_mcs := mcs\<rparr> else m)"

definition set_ul_mcs :: "u16 \<Rightarrow> u32 \<Rightarrow> edgeric \<Rightarrow> edgeric" where
  "set_ul_mcs rnti mcs = on_mac_ue rnti (\<lambda>m. if mcs > mu_ul_mcs m then m\<lparr>mu_ul_mcs := mcs\<rparr> else m)"

definition set_dl_prbs :: "u16 \<Rightarrow> u32 \<Rightarrow> edgeric \<Rightarrow> edgeric" where
  "set_dl_prbs rnti prbs = on_mac_ue rnti (\<lambda>m. m\<lparr>mu_dl_prbs := mu_dl_prbs m + prbs\<rparr>)"

definition set_ul_prbs :: "u16 \<Rightarrow> u32 \<Rightarrow> edgeric \<Rightarrow> edgeric" where
  "set_ul_prbs rnti prbs = on_mac_ue rnti (\<lambda>m. m\<lparr>mu_ul_prbs := mu_ul_prbs m + prbs\<rparr>)"

definition collect_ue_telemetry :: "float_ops \<Rightarrow> u16 \<Rightarrow> float32 \<Rightarrow> float32 \<Rightarrow> u32 \<Rightarrow> u32 \<Rightarrow> edgeric \<Rightarrow> edgeric" where
  "collect_ue_telemetry fl rnti cqi snr dl_buffer_bytes ul_buffer_bytes = on_mac_ue rnti (\<lambda>m.
     m\<lparr>mu_cqi := fl_to_u32 fl cqi, mu_snr := snr, mu_dl_buffer := dl_buffer_bytes, mu_ul_buffer := ul_buffer_bytes\<rparr>)"

text \<open>The inline setters of the legacy interface.\<close>

definition set_cqi :: "float_ops \<Rightarrow> u16 \<Rightarrow> float32 \<Rightarrow> edgeric \<Rightarrow> edgeric" where
  "set_cqi fl rnti cqi = on_mac_ue rnti (\<lambda>m. m\<lparr>mu_cqi := fl_to_u32 fl cqi\<rparr>)"

definition set_snr :: "u16 \<Rightarrow> float32 \<Rightarrow> edgeric \<Rightarrow> edgeric" where
  "set_snr rnti snr = on_mac_ue rnti (\<lambda>m. m\<lparr>mu_snr := snr\<rparr>)"

definition set_ul_buffer :: "u16 \<Rightarrow> u32 \<Rightarrow> edgeric \<Rightarrow> edgeric" where
  "set_ul_buffer rnti ul_buffer = on_mac_ue rnti (\<lambda>m. m\<lparr>mu_ul_buffer := ul_buffer\<rparr>)"

definition set_dl_buffer :: "u16 \<Rightarrow> u32 \<Rightarrow> edgeric \<Rightarrow> edgeric" where
  "set_dl_buffer rnti dl_buffer = on_mac_ue rnti (\<lambda>m. m\<lparr>mu_dl_buffer := dl_buffer\<rparr>)"

definition set_rlc_dl_buffer :: "u16 \<Rightarrow> u8 \<Rightarrow> u32 \<Rightarrow> edgeric \<Rightarrow> edgeric" where
  "set_rlc_dl_buffer rnti lcid dl_buffer s =
     s\<lparr>rlc_drb := om_modify no_rlc_drb (rnti, lcid) (\<lambda>m. m\<lparr>rd_dl_buffer := dl_buffer\<rparr>) (rlc_drb s)\<rparr>"

definition set_rlc_ul_buffer :: "u16 \<Rightarrow> u8 \<Rightarrow> u32 \<Rightarrow> edgeric \<Rightarrow> edgeric" where
  "set_rlc_ul_buffer rnti lcg ul_buffer s = s"

definition add_drb_tx_bytes :: "float_ops \<Rightarrow> u16 \<Rightarrow> u8 \<Rightarrow> float32 \<Rightarrow> edgeric \<Rightarrow> edgeric" where
  "add_drb_tx_bytes fl rnti lcid bytes = on_mac_drb rnti lcid (\<lambda>m. m\<lparr>md_dl_bytes := md_dl_bytes m + fl_to_u32 fl bytes\<rparr>)"

definition add_drb_rx_bytes :: "float_ops \<Rightarrow> u16 \<Rightarrow> u8 \<Rightarrow> float32 \<Rightarrow> edgeric \<Rightarrow> edgeric" where
  "add_drb_rx_bytes fl rnti lcid bytes = on_mac_drb rnti lcid (\<lambda>m. m\<lparr>md_ul_bytes := md_ul_bytes m + fl_to_u32 fl bytes\<rparr>)"

section \<open>RLC, PDCP and GTP metrics\<close>

definition report_rlc_metrics :: "u32 \<Rightarrow> u8 \<Rightarrow> rlc_drb_metrics \<Rightarrow> edgeric \<Rightarrow> edgeric" where
  "report_rlc_metrics du_ue_index lcid metrics s =
     (case om_get (du_ue_to_rnti s) du_ue_index of
        None \<Rightarrow> s
      | Some rnti \<Rightarrow> s\<lparr>rlc_drb := om_put (rnti, lcid) metrics (rlc_drb s)\<rparr>)"

definition register_du_ue :: "u32 \<Rightarrow> u16 \<Rightarrow> edgeric \<Rightarrow> edgeric" where
  "register_du_ue du_ue_index rnti s = s\<lparr>du_ue_to_rnti := om_put du_ue_index rnti (du_ue_to_rnti s)\<rparr>"

definition report_pdcp_metrics :: "u32 \<Rightarrow> u8 \<Rightarrow> pdcp_drb_metrics \<Rightarrow> edgeric \<Rightarrow> edgeric" where
  "report_pdcp_metrics cu_up_ue_index drb_id metrics s =
     s\<lparr>pdcp_drb := om_put (cu_up_ue_index, drb_id) metrics (pdcp_drb s)\<rparr>"

definition report_gtp_dl_pkt :: "u32 \<Rightarrow> u32 \<Rightarrow> edgeric \<Rightarrow> edgeric" where
  "report_gtp_dl_pkt cu_up_ue_index pdu_len s =
     s\<lparr>gtp_ue := om_modify no_gtp_ue cu_up_ue_index
         (\<lambda>m. m\<lparr>gu_dl_pkts := gu_dl_pkts m + 1, gu_dl_bytes := gu_dl_bytes m + ucast pdu_len\<rparr>) (gtp_ue s)\<rparr>"

definition report_gtp_ul_pkt :: "u32 \<Rightarrow> u32 \<Rightarrow> edgeric \<Rightarrow> edgeric" where
  "report_gtp_ul_pkt cu_up_ue_index pdu_len s =
     s\<lparr>gtp_ue := om_modify no_gtp_ue cu_up_ue_index
         (\<lambda>m. m\<lparr>gu_ul_pkts := gu_ul_pkts m + 1, gu_ul_bytes := gu_ul_bytes m + ucast pdu_len\<rparr>) (gtp_ue s)\<rparr>"

section \<open>Correlation of UE indices\<close>

definition register_ue :: "u32 \<Rightarrow> u16 \<Rightarrow> edgeric \<Rightarrow> edgeric" where
  "register_ue ue_index rnti s = s\<lparr>ue_index_to_rnti := om_put ue_index rnti (ue_index_to_rnti s)\<rparr>"

definition unregister_ue :: "u32 \<Rightarrow> edgeric \<Rightarrow> edgeric" where
  "unregister_ue ue_index s = s\<lparr>ue_index_to_rnti := om_erase ue_index (ue_index_to_rnti s)\<rparr>"

definition unregister_ue_by_rnti :: "u16 \<Rightarrow> edgeric \<Rightarrow> edgeric" where
  "unregister_ue_by_rnti rnti s =
     (let e1ap_ids_to_remove = map fst (filter (\<lambda>(_, r). r = rnti) (e1ap_id_to_rnti s));
          should_remove = (\<lambda>e1ap_id. e1ap_id \<in> set e1ap_ids_to_remove);
          cu_up_indices_to_remove = map fst (filter (\<lambda>(_, e). should_remove e) (cu_up_ue_to_e1ap_id s))
      in s\<lparr>mac_ue := om_erase rnti (mac_ue s),
           mac_drb := om_erase_if (\<lambda>key _. fst key = rnti) (mac_drb s),
           rlc_drb := om_erase_if (\<lambda>key _. fst key = rnti) (rlc_drb s),
           ue_index_to_rnti := om_erase_if (\<lambda>_ r. r = rnti) (ue_index_to_rnti s),
           du_ue_to_rnti := om_erase_if (\<lambda>_ r. r = rnti) (du_ue_to_rnti s),
           e1ap_id_to_rnti := om_erase_if (\<lambda>_ r. r = rnti) (e1ap_id_to_rnti s),
           cu_up_ue_to_e1ap_id := om_erase_if (\<lambda>_ e. should_remove e) (cu_up_ue_to_e1ap_id s),
           pdcp_drb := om_erase_if (\<lambda>key _. fst key \<in> set cu_up_indices_to_remove) (pdcp_drb s),
           gtp_ue := foldl (\<lambda>g i. om_erase i g) (gtp_ue s) cu_up_indices_to_remove\<rparr>)"

definition get_rnti_from_ue_index :: "u32 \<Rightarrow> edgeric \<Rightarrow> u16" where
  "get_rnti_from_ue_index ue_index s = (case om_get (ue_index_to_rnti s) ue_index of None \<Rightarrow> 0 | Some rnti \<Rightarrow> rnti)"

definition register_e1ap_rnti :: "u32 \<Rightarrow> u16 \<Rightarrow> edgeric \<Rightarrow> edgeric" where
  "register_e1ap_rnti e1ap_id rnti s = s\<lparr>e1ap_id_to_rnti := om_put e1ap_id rnti (e1ap_id_to_rnti s)\<rparr>"

definition register_cu_up_ue_e1ap :: "u32 \<Rightarrow> u32 \<Rightarrow> edgeric \<Rightarrow> edgeric" where
  "register_cu_up_ue_e1ap cu_up_ue_index e1ap_id s =
     s\<lparr>cu_up_ue_to_e1ap_id := om_put cu_up_ue_index e1ap_id (cu_up_ue_to_e1ap_id s)\<rparr>"

text \<open>The correlation by E1AP ids, if both are registered; the fallbacks take an index as a position.\<close>

definition e1ap_rnti :: "u32 \<Rightarrow> edgeric \<Rightarrow> u16 option" where
  "e1ap_rnti cu_up_ue_index s =
     (case om_get (cu_up_ue_to_e1ap_id s) cu_up_ue_index of
        None \<Rightarrow> None
      | Some e1ap_id \<Rightarrow> om_get (e1ap_id_to_rnti s) e1ap_id)"

definition get_rnti_from_cu_up_ue_index :: "u32 \<Rightarrow> edgeric \<Rightarrow> u16" where
  "get_rnti_from_cu_up_ue_index cu_up_ue_index s =
     (case e1ap_rnti cu_up_ue_index s of
        Some rnti \<Rightarrow> rnti
      | None \<Rightarrow>
          if unat cu_up_ue_index < length (ue_index_to_rnti s) then snd (ue_index_to_rnti s ! unat cu_up_ue_index)
          else if unat cu_up_ue_index < length (mac_ue s) then fst (mac_ue s ! unat cu_up_ue_index)
          else 0)"

section \<open>The report of a TTI\<close>

record pdcp_msg =
  pm_drb_id :: u32
  pm_lcid :: u32
  pm_metrics :: pdcp_drb_metrics

record ue_metrics_msg =
  um_rnti :: u32
  um_mac :: mac_ue_metrics
  um_mac_drb :: "(u32 \<times> mac_drb_metrics) list"
  um_rlc_drb :: "(u32 \<times> rlc_drb_metrics) list"
  um_pdcp_drb :: "pdcp_msg list"
  um_gtp :: "gtp_ue_metrics option"

record tti_metrics =
  tm_tti_index :: u32
  tm_timestamp_us :: u64
  tm_ues :: "ue_metrics_msg list"

definition drb_msgs :: "u16 \<Rightarrow> (ue_drb_key, 'm) omap \<Rightarrow> (u32 \<times> 'm) list" where
  "drb_msgs rnti m = map (\<lambda>(key, v). (ucast (snd key), v)) (filter (\<lambda>(key, v). fst key = rnti) m)"

definition pdcp_msgs :: "u16 \<Rightarrow> edgeric \<Rightarrow> pdcp_msg list" where
  "pdcp_msgs rnti s =
     map (\<lambda>(key, v). \<lparr>pm_drb_id = ucast (snd key), pm_lcid = ucast (snd key) + 3, pm_metrics = v\<rparr>)
       (filter (\<lambda>(key, v). get_rnti_from_cu_up_ue_index (fst key) s = rnti) (pdcp_drb s))"

definition gtp_msg :: "u16 \<Rightarrow> edgeric \<Rightarrow> gtp_ue_metrics option" where
  "gtp_msg rnti s =
     (case filter (\<lambda>(i, v). get_rnti_from_cu_up_ue_index i s = rnti) (gtp_ue s) of [] \<Rightarrow> None | (i, v) # _ \<Rightarrow> Some v)"

definition ue_msg :: "edgeric \<Rightarrow> u16 \<times> mac_ue_metrics \<Rightarrow> ue_metrics_msg" where
  "ue_msg s = (\<lambda>(rnti, mac). \<lparr>um_rnti = ucast rnti, um_mac = mac, um_mac_drb = drb_msgs rnti (mac_drb s),
     um_rlc_drb = drb_msgs rnti (rlc_drb s), um_pdcp_drb = pdcp_msgs rnti s, um_gtp = gtp_msg rnti s\<rparr>)"

text \<open>The counters of a TTI start at 0 again; buffers, CQI, SNR and delays are kept.\<close>

definition reset_mac_ue :: "mac_ue_metrics \<Rightarrow> mac_ue_metrics" where
  "reset_mac_ue m = m\<lparr>mu_dl_harq_ack := 0, mu_dl_harq_nack := 0, mu_ul_crc_ok := 0, mu_ul_crc_fail := 0, mu_dl_tbs := 0,
     mu_ul_tbs := 0, mu_dl_acked_bytes := 0, mu_ul_ok_bytes := 0, mu_dl_mcs := 0, mu_ul_mcs := 0, mu_dl_prbs := 0,
     mu_ul_prbs := 0\<rparr>"

definition reset_mac_drb :: "mac_drb_metrics \<Rightarrow> mac_drb_metrics" where
  "reset_mac_drb m = m\<lparr>md_dl_bytes := 0, md_ul_bytes := 0\<rparr>"

definition send_tti_metrics :: "u64 \<Rightarrow> edgeric \<Rightarrow> tti_metrics \<times> edgeric" where
  "send_tti_metrics now_us s0 =
     (let s = ensure_initialized s0
      in (\<lparr>tm_tti_index = tti_cnt s, tm_timestamp_us = now_us, tm_ues = map (ue_msg s) (mac_ue s)\<rparr>,
          s\<lparr>mac_ue := om_map reset_mac_ue (mac_ue s), mac_drb := om_map reset_mac_drb (mac_drb s)\<rparr>))"

definition send_to_er :: "u64 \<Rightarrow> edgeric \<Rightarrow> tti_metrics \<times> edgeric" where
  "send_to_er now_us s = send_tti_metrics now_us s"

section \<open>Control messages\<close>

record scheduling_weights =
  sw_ran_index :: u32
  sw_tti_index :: u32
  sw_ue_weights :: "(u32 \<times> float32) list"

record mcs_control =
  mc_ran_index :: u32
  mc_tti_index :: u32
  mc_ue_mcs :: "(u32 \<times> u32) list"

definition get_weights_from_er :: "(byte_buffer \<Rightarrow> scheduling_weights option) \<Rightarrow> byte_buffer option \<Rightarrow> edgeric \<Rightarrow> edgeric" where
  "get_weights_from_er parse recv s0 =
     (let s = ensure_initialized s0 in
      case recv of
        None \<Rightarrow> s
      | Some data \<Rightarrow>
          (case parse data of
             None \<Rightarrow> s
           | Some msg \<Rightarrow>
               s\<lparr>er_ran_index_weights := sw_ran_index msg, er_weights_tti := sw_tti_index msg,
                 weights_recved := foldl (\<lambda>m (k, v). om_put k v m) [] (map (\<lambda>(rnti, w). (ucast rnti, w)) (sw_ue_weights msg))\<rparr>))"

definition get_mcs_from_er :: "(byte_buffer \<Rightarrow> mcs_control option) \<Rightarrow> byte_buffer option \<Rightarrow> edgeric \<Rightarrow> edgeric" where
  "get_mcs_from_er parse recv s0 =
     (let s = ensure_initialized s0 in
      case recv of
        None \<Rightarrow> s
      | Some data \<Rightarrow>
          (case parse data of
             None \<Rightarrow> s
           | Some msg \<Rightarrow>
               s\<lparr>er_ran_index_mcs := mc_ran_index msg, er_mcs_tti := mc_tti_index msg,
                 mcs_recved := foldl (\<lambda>m (k, v). om_put k v m) []
                   (filter (\<lambda>(rnti, mcs). mcs < 255) (map (\<lambda>(rnti, mcs). (ucast rnti, ucast mcs)) (mc_ue_mcs msg)))\<rparr>))"

text \<open>The age of a decision; a decision from the future counts as stale.\<close>

definition control_age :: "u32 \<Rightarrow> u32 \<Rightarrow> u32" where
  "control_age current_tti received_tti =
     (if current_tti \<ge> received_tti then current_tti - received_tti else STALENESS_THRESHOLD + 1)"

definition are_weights_fresh :: "edgeric \<Rightarrow> bool" where
  "are_weights_fresh s \<longleftrightarrow> control_age (tti_cnt s) (er_weights_tti s) \<le> STALENESS_THRESHOLD"

definition get_weights_tti :: "edgeric \<Rightarrow> u32" where
  "get_weights_tti s = er_weights_tti s"

definition get_weights_unchecked :: "u16 \<Rightarrow> edgeric \<Rightarrow> float32 option" where
  "get_weights_unchecked rnti s = om_get (weights_recved s) rnti"

definition get_weights :: "u16 \<Rightarrow> edgeric \<Rightarrow> float32 option" where
  "get_weights rnti s = (if \<not> are_weights_fresh s then None else om_get (weights_recved s) rnti)"

definition are_mcs_fresh :: "edgeric \<Rightarrow> bool" where
  "are_mcs_fresh s \<longleftrightarrow> control_age (tti_cnt s) (er_mcs_tti s) \<le> STALENESS_THRESHOLD"

definition get_mcs :: "u16 \<Rightarrow> edgeric \<Rightarrow> u8 option" where
  "get_mcs rnti s = (if \<not> are_mcs_fresh s then None else om_get (mcs_recved s) rnti)"

section \<open>Queries\<close>

definition get_drb_lcids :: "u16 \<Rightarrow> edgeric \<Rightarrow> u8 list" where
  "get_drb_lcids rnti s = sorted_list_of_set (set (map (snd \<circ> fst) (filter (\<lambda>(key, _). fst key = rnti) (mac_drb s))))"

definition get_pdcp_drb_ids :: "u16 \<Rightarrow> edgeric \<Rightarrow> u8 list" where
  "get_pdcp_drb_ids rnti s = []"

definition get_pdcp_drb_ids_by_ue_index :: "u32 \<Rightarrow> edgeric \<Rightarrow> u8 list" where
  "get_pdcp_drb_ids_by_ue_index ue_index s =
     sorted_list_of_set (set (map (snd \<circ> fst) (filter (\<lambda>(key, _). fst key = ue_index) (pdcp_drb s))))"

definition get_gtp_metrics :: "u16 \<Rightarrow> edgeric \<Rightarrow> gtp_ue_metrics option" where
  "get_gtp_metrics rnti s =
     (case filter (\<lambda>(i, v). get_rnti_from_cu_up_ue_index i s = rnti) (gtp_ue s) of [] \<Rightarrow> None | (i, v) # _ \<Rightarrow> Some v)"

end
