(* ===== verification/Edgeric_Props.thy ===== *)
theory Edgeric_Props
  imports Edgeric
begin

text \<open>
  Properties of the EdgeRIC agent over all histories of its operations: what is counted for a UE is reported
  exactly once, the control getters answer from the last message as long as it is fresh, and a UE that is
  removed leaves nothing behind that belongs to it by its registrations.
\<close>

section \<open>Histories\<close>

datatype er_op =
    Er_Tti u32
  | Er_Weights "byte_buffer option"
  | Er_Mcs "byte_buffer option"
  | Er_Send u64
  | Er_Mac_Ue u16 u32 float32 u32 u32 u32 u32
  | Er_Dl_Ack u16 u32
  | Er_Dl_Nack u16
  | Er_Ul_Ok u16 u32
  | Er_Ul_Fail u16
  | Er_Mac_Delays u16 float32 float32 float32 float32 float32
  | Er_Mac_Drb u16 u8 u32 u32 u32 u32
  | Er_Add_Drb_Dl u16 u8 u32
  | Er_Add_Drb_Ul u16 u8 u32
  | Er_Dl_Tbs u16 u32
  | Er_Ul_Tbs u16 u32
  | Er_Dl_Mcs u16 u32
  | Er_Ul_Mcs u16 u32
  | Er_Dl_Prbs u16 u32
  | Er_Ul_Prbs u16 u32
  | Er_Telemetry u16 float32 float32 u32 u32
  | Er_Rlc_Buffer u16 u8 u32
  | Er_Rlc u32 u8 rlc_drb_metrics
  | Er_Pdcp u32 u8 pdcp_drb_metrics
  | Er_Gtp_Dl u32 u32
  | Er_Gtp_Ul u32 u32
  | Er_Register_Ue u32 u16
  | Er_Register_Du u32 u16
  | Er_Register_E1ap u32 u16
  | Er_Register_Cu_Up u32 u32
  | Er_Unregister_Ue u32
  | Er_Unregister_Rnti u16

text \<open>The parameters of a run: float arithmetic and the generated parsers.\<close>

record er_env =
  env_fl :: float_ops
  env_weights :: "byte_buffer \<Rightarrow> scheduling_weights option"
  env_mcs :: "byte_buffer \<Rightarrow> mcs_control option"

definition exec_er :: "er_env \<Rightarrow> er_op \<Rightarrow> edgeric \<Rightarrow> edgeric" where
  "exec_er e op s =
     (case op of
        Er_Tti t \<Rightarrow> setTTI t s
      | Er_Weights r \<Rightarrow> get_weights_from_er (env_weights e) r s
      | Er_Mcs r \<Rightarrow> get_mcs_from_er (env_mcs e) r s
      | Er_Send now \<Rightarrow> snd (send_tti_metrics now s)
      | Er_Mac_Ue rnti cqi snr db ub dt ut \<Rightarrow> set_mac_ue rnti cqi snr db ub dt ut s
      | Er_Dl_Ack rnti tbs \<Rightarrow> inc_dl_harq_ack rnti tbs s
      | Er_Dl_Nack rnti \<Rightarrow> inc_dl_harq_nack rnti s
      | Er_Ul_Ok rnti tbs \<Rightarrow> inc_ul_crc_ok rnti tbs s
      | Er_Ul_Fail rnti \<Rightarrow> inc_ul_crc_fail rnti s
      | Er_Mac_Delays rnti a b c d f \<Rightarrow> report_mac_delays (env_fl e) rnti a b c d f s
      | Er_Mac_Drb rnti lcid a b c d \<Rightarrow> set_mac_drb rnti lcid a b c d s
      | Er_Add_Drb_Dl rnti lcid n \<Rightarrow> add_mac_drb_dl_bytes rnti lcid n s
      | Er_Add_Drb_Ul rnti lcid n \<Rightarrow> add_mac_drb_ul_bytes rnti lcid n s
      | Er_Dl_Tbs rnti n \<Rightarrow> set_dl_tbs rnti n s
      | Er_Ul_Tbs rnti n \<Rightarrow> set_ul_tbs rnti n s
      | Er_Dl_Mcs rnti n \<Rightarrow> set_dl_mcs rnti n s
      | Er_Ul_Mcs rnti n \<Rightarrow> set_ul_mcs rnti n s
      | Er_Dl_Prbs rnti n \<Rightarrow> set_dl_prbs rnti n s
      | Er_Ul_Prbs rnti n \<Rightarrow> set_ul_prbs rnti n s
      | Er_Telemetry rnti cqi snr db ub \<Rightarrow> collect_ue_telemetry (env_fl e) rnti cqi snr db ub s
      | Er_Rlc_Buffer rnti lcid n \<Rightarrow> set_rlc_dl_buffer rnti lcid n s
      | Er_Rlc i lcid m \<Rightarrow> report_rlc_metrics i lcid m s
      | Er_Pdcp i drb m \<Rightarrow> report_pdcp_metrics i drb m s
      | Er_Gtp_Dl i n \<Rightarrow> report_gtp_dl_pkt i n s
      | Er_Gtp_Ul i n \<Rightarrow> report_gtp_ul_pkt i n s
      | Er_Register_Ue i rnti \<Rightarrow> register_ue i rnti s
      | Er_Register_Du i rnti \<Rightarrow> register_du_ue i rnti s
      | Er_Register_E1ap i rnti \<Rightarrow> register_e1ap_rnti i rnti s
      | Er_Register_Cu_Up i j \<Rightarrow> register_cu_up_ue_e1ap i j s
      | Er_Unregister_Ue i \<Rightarrow> unregister_ue i s
      | Er_Unregister_Rnti rnti \<Rightarrow> unregister_ue_by_rnti rnti s)"

text \<open>The reports that are published.\<close>

definition er_output :: "er_op \<Rightarrow> edgeric \<Rightarrow> tti_metrics list" where
  "er_output op s = (case op of Er_Send now \<Rightarrow> [fst (send_tti_metrics now s)] | _ \<Rightarrow> [])"

fun run_er :: "er_env \<Rightarrow> er_op list \<Rightarrow> edgeric \<Rightarrow> tti_metrics list \<times> edgeric" where
  "run_er e [] s = ([], s)"
| "run_er e (op # ops) s = (let (ms, s') = run_er e ops (exec_er e op s) in (er_output op s @ ms, s'))"

section \<open>The maps stay ordered\<close>

definition er_wf :: "edgeric \<Rightarrow> bool" where
  "er_wf s \<longleftrightarrow>
     om_wf (weights_recved s) \<and> om_wf (mcs_recved s) \<and> om_wf (mac_ue s) \<and> om_wf (mac_drb s) \<and> om_wf (rlc_drb s) \<and>
     om_wf (pdcp_drb s) \<and> om_wf (gtp_ue s) \<and> om_wf (ue_index_to_rnti s) \<and> om_wf (e1ap_id_to_rnti s) \<and>
     om_wf (cu_up_ue_to_e1ap_id s) \<and> om_wf (du_ue_to_rnti s)"

lemma er_wf_new: "er_wf new_edgeric"
  by (simp add: er_wf_def new_edgeric_def)

lemma om_wf_put_list: "om_wf (foldl (\<lambda>m (k, v). om_put k v m) [] xs)"
  by (rule om.wf_put_all) simp

lemma om_wf_erase_list: "om_wf m \<Longrightarrow> om_wf (foldl (\<lambda>g i. om_erase i g) m is)"
  by (induction "is" arbitrary: m) (auto simp: om_wfs)

named_theorems er_ops \<open>the operations of the agent\<close>

declare setTTI_def [er_ops] ensure_initialized_def [er_ops] set_mac_ue_def [er_ops] inc_dl_harq_ack_def [er_ops]
  inc_dl_harq_nack_def [er_ops] inc_ul_crc_ok_def [er_ops] inc_ul_crc_fail_def [er_ops] report_mac_delays_def [er_ops]
  set_mac_drb_def [er_ops] add_mac_drb_dl_bytes_def [er_ops] add_mac_drb_ul_bytes_def [er_ops] set_dl_tbs_def [er_ops]
  set_ul_tbs_def [er_ops] set_dl_mcs_def [er_ops] set_ul_mcs_def [er_ops] set_dl_prbs_def [er_ops] set_ul_prbs_def [er_ops]
  collect_ue_telemetry_def [er_ops] set_rlc_dl_buffer_def [er_ops] report_rlc_metrics_def [er_ops]
  report_pdcp_metrics_def [er_ops] report_gtp_dl_pkt_def [er_ops] report_gtp_ul_pkt_def [er_ops] register_ue_def [er_ops]
  register_du_ue_def [er_ops] register_e1ap_rnti_def [er_ops] register_cu_up_ue_e1ap_def [er_ops] unregister_ue_def [er_ops]
  on_mac_ue_def [er_ops] on_mac_drb_def [er_ops]

lemma er_wf_exec: "er_wf s \<Longrightarrow> er_wf (exec_er e op s)"
  by (cases op)
    (auto simp: exec_er_def er_wf_def er_ops om_wfs om_wf_put_list om_wf_erase_list get_weights_from_er_def get_mcs_from_er_def
       send_tti_metrics_def unregister_ue_by_rnti_def Let_def split: option.split)

lemma er_wf_run: "er_wf s \<Longrightarrow> er_wf (snd (run_er e ops s))"
  by (induction ops arbitrary: s) (auto simp: er_wf_exec case_prod_beta Let_def)

section \<open>Every count is reported once\<close>

datatype harq_counter = Dl_Ack | Dl_Nack | Ul_Ok | Ul_Fail | Dl_Acked_Bytes | Ul_Ok_Bytes

fun counter_of :: "harq_counter \<Rightarrow> mac_ue_metrics \<Rightarrow> u32" where
  "counter_of Dl_Ack m = mu_dl_harq_ack m"
| "counter_of Dl_Nack m = mu_dl_harq_nack m"
| "counter_of Ul_Ok m = mu_ul_crc_ok m"
| "counter_of Ul_Fail m = mu_ul_crc_fail m"
| "counter_of Dl_Acked_Bytes m = mu_dl_acked_bytes m"
| "counter_of Ul_Ok_Bytes m = mu_ul_ok_bytes m"

text \<open>What an operation adds to a counter of a UE.\<close>

definition er_gain :: "harq_counter \<Rightarrow> u16 \<Rightarrow> er_op \<Rightarrow> u32" where
  "er_gain c rnti op =
     (case op of
        Er_Dl_Ack r tbs \<Rightarrow> if r = rnti then (case c of Dl_Ack \<Rightarrow> 1 | Dl_Acked_Bytes \<Rightarrow> tbs | _ \<Rightarrow> 0) else 0
      | Er_Dl_Nack r \<Rightarrow> if r = rnti \<and> c = Dl_Nack then 1 else 0
      | Er_Ul_Ok r tbs \<Rightarrow> if r = rnti then (case c of Ul_Ok \<Rightarrow> 1 | Ul_Ok_Bytes \<Rightarrow> tbs | _ \<Rightarrow> 0) else 0
      | Er_Ul_Fail r \<Rightarrow> if r = rnti \<and> c = Ul_Fail then 1 else 0
      | _ \<Rightarrow> 0)"

text \<open>What a report says, and what is not reported yet.\<close>

definition reported :: "harq_counter \<Rightarrow> u16 \<Rightarrow> tti_metrics \<Rightarrow> u32" where
  "reported c rnti m = sum_list (map (counter_of c \<circ> um_mac) (filter (\<lambda>u. um_rnti u = ucast rnti) (tm_ues m)))"

definition unreported :: "harq_counter \<Rightarrow> u16 \<Rightarrow> edgeric \<Rightarrow> u32" where
  "unreported c rnti s = (case om_get (mac_ue s) rnti of None \<Rightarrow> 0 | Some m \<Rightarrow> counter_of c m)"

lemma ucast_u16_inj: "(ucast (a :: u16) :: u32) = ucast b \<longleftrightarrow> a = b"
proof -
  have "unat (ucast x :: u32) = unat x" for x :: u16
  proof -
    have "unat x < 2 ^ 32" using unsigned_less [of x] by (rule less_trans) simp
    then show ?thesis by (simp add: unsigned_ucast_eq take_bit_nat_eq_self)
  qed
  then show ?thesis by (metis word_unat_eq_iff)
qed

lemma reported_send:
  assumes "om_wf (mac_ue s)"
  shows "reported c rnti (fst (send_tti_metrics now s)) = unreported c rnti s"
proof -
  have u: "um_rnti (ue_msg s' x) = ucast (fst x)" "um_mac (ue_msg s' x) = snd x" for s' x
    by (simp_all add: ue_msg_def case_prod_beta)
  have "sum_list (map (counter_of c \<circ> snd) (filter (\<lambda>x. fst x = rnti) m)) = (case om_get m rnti of None \<Rightarrow> 0 | Some v \<Rightarrow> counter_of c v)"
    if "om_wf m" for m :: "(u16, mac_ue_metrics) omap"
    using that
  proof (induction m)
    case (Cons x m)
    have w: "om_wf m" using Cons.prems by (simp add: om_wf_def)
    show ?case
    proof (cases "fst x = rnti")
      case True
      then have "rnti \<notin> fst ` set m" using Cons.prems by (auto simp: om_wf_def)
      then have "filter (\<lambda>x. fst x = rnti) m = []" by (auto simp: filter_empty_conv)
      then show ?thesis using True by (cases x) (simp add: om_get_def)
    qed (use Cons.IH [OF w] in \<open>cases x; simp add: om_get_def\<close>)
  qed simp
  moreover have "mac_ue (ensure_initialized s) = mac_ue s" by (simp add: ensure_initialized_def)
  ultimately show ?thesis using assms
    by (simp add: reported_def unreported_def send_tti_metrics_def Let_def filter_map comp_def u ucast_u16_inj)
qed

lemma counter_no_mac_ue [simp]: "counter_of c no_mac_ue = 0"
  by (cases c) (simp_all add: no_mac_ue_def)

lemma counter_reset [simp]: "counter_of c (reset_mac_ue m) = 0"
  by (cases c) (simp_all add: reset_mac_ue_def)

lemma unreported_on_mac_ue:
  assumes "om_wf (mac_ue s)" "\<And>m. counter_of c (f m) = counter_of c m + d"
  shows "unreported c rnti (on_mac_ue r f s) = unreported c rnti s + (if r = rnti then d else 0)"
  using assms by (auto simp: unreported_def on_mac_ue_def om_get_modify split: option.split)

lemma wf_on_mac_ue: "om_wf (mac_ue s) \<Longrightarrow> om_wf (mac_ue (on_mac_ue r f s))"
  by (simp add: on_mac_ue_def om_wfs)

text \<open>Operations that do not touch the metrics of the UEs.\<close>

lemma unreported_frame: "mac_ue s' = mac_ue s \<Longrightarrow> unreported c rnti s' = unreported c rnti s"
  by (simp add: unreported_def)

lemma mac_ue_controls [simp]:
  "mac_ue (get_weights_from_er p r s) = mac_ue s" "mac_ue (get_mcs_from_er q r s) = mac_ue s"
  "mac_ue (ensure_initialized s) = mac_ue s"
  by (auto simp: get_weights_from_er_def get_mcs_from_er_def ensure_initialized_def Let_def split: option.split)

lemma mac_ue_others [simp]:
  "mac_ue (setTTI t s) = mac_ue s" "mac_ue (set_mac_drb r l a b c d s) = mac_ue s" "mac_ue (add_mac_drb_dl_bytes r l n s) = mac_ue s"
  "mac_ue (add_mac_drb_ul_bytes r l n s) = mac_ue s" "mac_ue (set_rlc_dl_buffer r l n s) = mac_ue s"
  "mac_ue (report_rlc_metrics i l rm s) = mac_ue s" "mac_ue (report_pdcp_metrics i l pm s) = mac_ue s"
  "mac_ue (report_gtp_dl_pkt i n s) = mac_ue s" "mac_ue (report_gtp_ul_pkt i n s) = mac_ue s" "mac_ue (register_ue i r s) = mac_ue s"
  "mac_ue (register_du_ue i r s) = mac_ue s" "mac_ue (register_e1ap_rnti i r s) = mac_ue s"
  "mac_ue (register_cu_up_ue_e1ap i j s) = mac_ue s" "mac_ue (unregister_ue i s) = mac_ue s"
  by (simp_all add: er_ops split: option.split)

lemma unreported_same: "(\<And>m. counter_of c (f m) = counter_of c m) \<Longrightarrow> om_wf (mac_ue s) \<Longrightarrow>
    unreported c rnti (on_mac_ue r f s) = unreported c rnti s"
  using unreported_on_mac_ue [of s c f 0 rnti r] by simp

lemma unreported_quiet:
  assumes "om_wf (mac_ue s)"
  shows "unreported c rnti (set_mac_ue r x1 x2 x3 x4 x5 x6 s) = unreported c rnti s"
    "unreported c rnti (report_mac_delays fl r x1 x2 x3 x4 x5 s) = unreported c rnti s"
    "unreported c rnti (set_dl_tbs r n s) = unreported c rnti s" "unreported c rnti (set_ul_tbs r n s) = unreported c rnti s"
    "unreported c rnti (set_dl_mcs r n s) = unreported c rnti s" "unreported c rnti (set_ul_mcs r n s) = unreported c rnti s"
    "unreported c rnti (set_dl_prbs r n s) = unreported c rnti s" "unreported c rnti (set_ul_prbs r n s) = unreported c rnti s"
    "unreported c rnti (collect_ue_telemetry fl r x1 x2 x3 x4 s) = unreported c rnti s"
  unfolding set_mac_ue_def report_mac_delays_def set_dl_tbs_def set_ul_tbs_def set_dl_mcs_def set_ul_mcs_def set_dl_prbs_def
    set_ul_prbs_def collect_ue_telemetry_def
  by (rule unreported_same [OF _ assms], cases c; simp)+

lemmas unreported_frames =
  mac_ue_others [THEN unreported_frame] mac_ue_controls [THEN unreported_frame]

lemma unreported_exec:
  assumes w: "om_wf (mac_ue s)" and op: "op \<noteq> Er_Unregister_Rnti rnti"
  shows "sum_list (map (reported c rnti) (er_output op s)) + unreported c rnti (exec_er e op s) =
    unreported c rnti s + er_gain c rnti op"
proof (cases op)
  case (Er_Send now)
  have "unreported c rnti (snd (send_tti_metrics now s)) = 0"
    by (simp add: unreported_def send_tti_metrics_def Let_def om_get_map split: option.split)
  then show ?thesis using reported_send [OF w] by (simp add: Er_Send exec_er_def er_output_def er_gain_def)
next
  case (Er_Dl_Ack r tbs)
  show ?thesis
    by (cases c) (simp_all add: Er_Dl_Ack exec_er_def er_output_def er_gain_def inc_dl_harq_ack_def
        unreported_on_mac_ue [where d = 0] unreported_on_mac_ue [where d = 1] unreported_on_mac_ue [where d = tbs]
        wf_on_mac_ue w)
next
  case (Er_Ul_Ok r tbs)
  show ?thesis
    by (cases c) (simp_all add: Er_Ul_Ok exec_er_def er_output_def er_gain_def inc_ul_crc_ok_def
        unreported_on_mac_ue [where d = 0] unreported_on_mac_ue [where d = 1] unreported_on_mac_ue [where d = tbs]
        wf_on_mac_ue w)
next
  case (Er_Dl_Nack r)
  show ?thesis
    by (cases c) (simp_all add: Er_Dl_Nack exec_er_def er_output_def er_gain_def inc_dl_harq_nack_def
        unreported_on_mac_ue [where d = 0] unreported_on_mac_ue [where d = 1] w)
next
  case (Er_Ul_Fail r)
  show ?thesis
    by (cases c) (simp_all add: Er_Ul_Fail exec_er_def er_output_def er_gain_def inc_ul_crc_fail_def
        unreported_on_mac_ue [where d = 0] unreported_on_mac_ue [where d = 1] w)
next
  case (Er_Unregister_Rnti r)
  then have "r \<noteq> rnti" using op by simp
  then show ?thesis
    by (simp add: Er_Unregister_Rnti exec_er_def er_output_def er_gain_def unregister_ue_by_rnti_def Let_def unreported_def
        om_get_erase [OF w])
qed (use w in \<open>simp_all add: exec_er_def er_output_def er_gain_def unreported_quiet unreported_frames\<close>)

lemma run_er_counts:
  assumes "er_wf s" "Er_Unregister_Rnti rnti \<notin> set ops"
  shows "sum_list (map (reported c rnti) (fst (run_er e ops s))) + unreported c rnti (snd (run_er e ops s)) =
    unreported c rnti s + sum_list (map (er_gain c rnti) ops)"
  using assms
proof (induction ops arbitrary: s)
  case (Cons op ops)
  have w: "om_wf (mac_ue s)" using Cons.prems(1) by (simp add: er_wf_def)
  have ih: "sum_list (map (reported c rnti) (fst (run_er e ops (exec_er e op s)))) +
      unreported c rnti (snd (run_er e ops (exec_er e op s))) =
    unreported c rnti (exec_er e op s) + sum_list (map (er_gain c rnti) ops)"
    by (rule Cons.IH [OF er_wf_exec [OF Cons.prems(1)]]) (use Cons.prems(2) in simp)
  have st: "sum_list (map (reported c rnti) (er_output op s)) + unreported c rnti (exec_er e op s) =
      unreported c rnti s + er_gain c rnti op"
    by (rule unreported_exec [OF w]) (use Cons.prems(2) in auto)
  have "sum_list (map (reported c rnti) (fst (run_er e (op # ops) s))) + unreported c rnti (snd (run_er e (op # ops) s)) =
      sum_list (map (reported c rnti) (er_output op s)) + (sum_list (map (reported c rnti) (fst (run_er e ops (exec_er e op s)))) +
        unreported c rnti (snd (run_er e ops (exec_er e op s))))"
    by (simp add: case_prod_beta Let_def add.assoc)
  also have "\<dots> = (unreported c rnti s + er_gain c rnti op) + sum_list (map (er_gain c rnti) ops)"
    unfolding ih st [symmetric] by (simp add: add.assoc)
  finally show ?case by (simp add: add.assoc)
qed simp

text \<open>
  C24. HARQ feedback and decoded bytes are reported exactly once. From the start of the agent, over every history in which
  the UE is not removed by its RNTI (what was not published before a removal is lost): the sum of a counter (DL ACKs and NACKs, UL CRC
  passes and failures, acknowledged DL bytes and
  decoded UL bytes) over all published reports and the part that is not published yet is the sum of what was counted,
  whatever else is written in between, and whatever the control messages, the float arithmetic and the message
  parsers are. All sums are modulo \<open>2 ^ 32\<close>, as the counters.
\<close>

theorem er_counts_reported_once:
  assumes "Er_Unregister_Rnti rnti \<notin> set ops"
  shows "sum_list (map (reported c rnti) (fst (run_er e ops new_edgeric))) + unreported c rnti (snd (run_er e ops new_edgeric)) =
    sum_list (map (er_gain c rnti) ops)"
  using run_er_counts [OF er_wf_new assms, of c e] by (simp add: unreported_def new_edgeric_def)

definition sample_env :: er_env where
  "sample_env = \<lparr>env_fl = \<lparr>fl_add = (+), fl_to_u32 = id\<rparr>,
     env_weights = (\<lambda>b. if b = [1] then Some \<lparr>sw_ran_index = 0, sw_tti_index = 7, sw_ue_weights = [(17, 5), (18, 9)]\<rparr> else None),
     env_mcs = (\<lambda>b. None)\<rparr>"

definition sample_er_ops :: "er_op list" where
  "sample_er_ops = [Er_Dl_Ack 17 100, Er_Dl_Tbs 17 50, Er_Send 1, Er_Dl_Ack 18 7, Er_Dl_Ack 17 30, Er_Send 2, Er_Dl_Ack 17 5]"

theorem er_counts_reported_once_witness:
  "sum_list (map (reported Dl_Acked_Bytes 17) (fst (run_er sample_env sample_er_ops new_edgeric))) +
     unreported Dl_Acked_Bytes 17 (snd (run_er sample_env sample_er_ops new_edgeric)) = 135"
proof -
  have "Er_Unregister_Rnti 17 \<notin> set sample_er_ops" by (simp add: sample_er_ops_def)
  from er_counts_reported_once [OF this, of Dl_Acked_Bytes sample_env] show ?thesis
    by (simp add: sample_er_ops_def er_gain_def)
qed

section \<open>Control messages\<close>

text \<open>The last message of a history that was received and parsed, and the TTI that was set last.\<close>

definition weights_msg :: "er_env \<Rightarrow> er_op \<Rightarrow> scheduling_weights option" where
  "weights_msg e op = (case op of Er_Weights (Some b) \<Rightarrow> env_weights e b | _ \<Rightarrow> None)"

definition mcs_msg :: "er_env \<Rightarrow> er_op \<Rightarrow> mcs_control option" where
  "mcs_msg e op = (case op of Er_Mcs (Some b) \<Rightarrow> env_mcs e b | _ \<Rightarrow> None)"

definition tti_msg :: "er_op \<Rightarrow> u32 option" where
  "tti_msg op = (case op of Er_Tti t \<Rightarrow> Some t | _ \<Rightarrow> None)"

definition last_of :: "('op \<Rightarrow> 'm option) \<Rightarrow> 'op list \<Rightarrow> 'm option" where
  "last_of f ops = (case List.map_filter f ops of [] \<Rightarrow> None | ms \<Rightarrow> Some (last ms))"

lemma last_of_Nil [simp]: "last_of f [] = None"
  by (simp add: last_of_def List.map_filter_def)

lemma last_of_Cons: "last_of f (op # ops) = (case last_of f ops of None \<Rightarrow> f op | Some m \<Rightarrow> Some m)"
  by (auto simp: last_of_def List.map_filter_def split: list.split option.split)

text \<open>What the messages and the TTI leave in the state.\<close>

definition weights_of :: "scheduling_weights \<Rightarrow> u16 \<Rightarrow> float32 option" where
  "weights_of msg = map_of (rev (map (\<lambda>(rnti, w). (ucast rnti, w)) (sw_ue_weights msg)))"

definition mcs_of :: "mcs_control \<Rightarrow> u16 \<Rightarrow> u8 option" where
  "mcs_of msg = map_of (rev (filter (\<lambda>(rnti, mcs). mcs < 255) (map (\<lambda>(rnti, mcs). (ucast rnti, ucast mcs)) (mc_ue_mcs msg))))"

lemma control_frame_exec:
  "tti_cnt (exec_er e op s) = (case tti_msg op of None \<Rightarrow> tti_cnt s | Some t \<Rightarrow> t)"
  "er_weights_tti (exec_er e op s) = (case weights_msg e op of None \<Rightarrow> er_weights_tti s | Some m \<Rightarrow> sw_tti_index m)"
  "om_get (weights_recved (exec_er e op s)) = (case weights_msg e op of None \<Rightarrow> om_get (weights_recved s) | Some m \<Rightarrow> weights_of m)"
  "er_mcs_tti (exec_er e op s) = (case mcs_msg e op of None \<Rightarrow> er_mcs_tti s | Some m \<Rightarrow> mc_tti_index m)"
  "om_get (mcs_recved (exec_er e op s)) = (case mcs_msg e op of None \<Rightarrow> om_get (mcs_recved s) | Some m \<Rightarrow> mcs_of m)"
  using om.get_put_all [of "[] :: (u16, float32) omap"] om.get_put_all [of "[] :: (u16, u8) omap"]
  by (cases op; simp add: exec_er_def tti_msg_def weights_msg_def mcs_msg_def er_ops get_weights_from_er_def get_mcs_from_er_def
       send_tti_metrics_def unregister_ue_by_rnti_def Let_def weights_of_def mcs_of_def fun_eq_iff map_add_def
       split: option.split)+

lemma control_frame_run:
  "tti_cnt (snd (run_er e ops s)) = (case last_of tti_msg ops of None \<Rightarrow> tti_cnt s | Some t \<Rightarrow> t)"
  "er_weights_tti (snd (run_er e ops s)) = (case last_of (weights_msg e) ops of None \<Rightarrow> er_weights_tti s | Some m \<Rightarrow> sw_tti_index m)"
  "om_get (weights_recved (snd (run_er e ops s))) =
     (case last_of (weights_msg e) ops of None \<Rightarrow> om_get (weights_recved s) | Some m \<Rightarrow> weights_of m)"
  "er_mcs_tti (snd (run_er e ops s)) = (case last_of (mcs_msg e) ops of None \<Rightarrow> er_mcs_tti s | Some m \<Rightarrow> mc_tti_index m)"
  "om_get (mcs_recved (snd (run_er e ops s))) =
     (case last_of (mcs_msg e) ops of None \<Rightarrow> om_get (mcs_recved s) | Some m \<Rightarrow> mcs_of m)"
  by (induction ops arbitrary: s) (auto simp: last_of_Cons control_frame_exec case_prod_beta Let_def split: option.split)

text \<open>A decision is fresh in its own TTI and in the two TTIs after it.\<close>

definition fresh :: "u32 \<Rightarrow> u32 \<Rightarrow> bool" where
  "fresh current decided \<longleftrightarrow> unat decided \<le> unat current \<and> unat current \<le> unat decided + 2"

lemma control_age_fresh: "control_age t d \<le> STALENESS_THRESHOLD \<longleftrightarrow> fresh t d"
proof (cases "d \<le> t")
  case True
  then have "unat (t - d) = unat t - unat d" by (rule unat_sub)
  then show ?thesis using True by (auto simp: control_age_def STALENESS_THRESHOLD_def fresh_def word_le_nat_alt)
next
  case False
  then show ?thesis by (simp add: control_age_def STALENESS_THRESHOLD_def fresh_def word_le_nat_alt)
qed

lemma control_none: "tti_cnt new_edgeric = 0" "om_get (weights_recved new_edgeric) rnti = None"
    "om_get (mcs_recved new_edgeric) rnti = None"
  by (simp_all add: new_edgeric_def)

text \<open>
  C25. The MCS override of a UE, over every history: it is the one of the last message that was received and parsed, if
  the TTI of the message is the current one or one of the two before it (\<open>STALENESS_THRESHOLD\<close>, as documented for
  \<open>get_mcs\<close>), and none otherwise. If a message names a UE twice, the last entry counts; MCS values are reduced
  to 8 bits, and 255 is no override. An earlier message is never used, also for UEs that the last one
  does not name.
\<close>

theorem er_mcs_last_fresh:
  "get_mcs rnti (snd (run_er e ops new_edgeric)) =
     (case last_of (mcs_msg e) ops of
        None \<Rightarrow> None
      | Some m \<Rightarrow> if fresh (case last_of tti_msg ops of None \<Rightarrow> 0 | Some t \<Rightarrow> t) (mc_tti_index m) then mcs_of m rnti else None)"
  unfolding get_mcs_def are_mcs_fresh_def control_age_fresh control_frame_run
  by (auto simp: control_none split: option.split)

text \<open>The documented rule for weights: the current TTI is that of the message or the next one.\<close>

definition documented_fresh :: "u32 \<Rightarrow> u32 \<Rightarrow> bool" where
  "documented_fresh current received \<longleftrightarrow> unat current = unat received \<or> unat current = unat received + 1"

text \<open>
  C40. The scheduling weight of a UE, over every history: the one of the last message that was received and parsed, as
  long as the documented rule of \<open>get_weights\<close> holds (current TTI minus received TTI at most 1), and also one
  TTI longer, at an age of 2, where the documentation promises none; none otherwise. The code compares with
  \<open>STALENESS_THRESHOLD\<close>, which is 2.
\<close>

theorem er_weights_one_tti_longer:
  "get_weights rnti (snd (run_er e ops new_edgeric)) =
     (case last_of (weights_msg e) ops of
        None \<Rightarrow> None
      | Some m \<Rightarrow>
          (let t = (case last_of tti_msg ops of None \<Rightarrow> 0 | Some t \<Rightarrow> t) in
           if documented_fresh t (sw_tti_index m) \<or> unat t = unat (sw_tti_index m) + 2 then weights_of m rnti else None))"
proof -
  have "fresh t d \<longleftrightarrow> documented_fresh t d \<or> unat t = unat d + 2" for t d
    by (auto simp: fresh_def documented_fresh_def)
  then show ?thesis
    unfolding get_weights_def are_weights_fresh_def control_age_fresh control_frame_run
    by (auto simp: control_none Let_def split: option.split)
qed

section \<open>Removal of a UE\<close>

lemma om_get_erase_list: "om_wf m \<Longrightarrow> om_get (foldl (\<lambda>g i. om_erase i g) m is) k = (if k \<in> set is then None else om_get m k)"
  by (induction "is" arbitrary: m) (auto simp: om_get_erase om_wf_erase)

text \<open>The CU-UP indices that belong to a RNTI by the E1AP registrations.\<close>

definition e1ap_belongs :: "u16 \<Rightarrow> edgeric \<Rightarrow> u32 \<Rightarrow> bool" where
  "e1ap_belongs rnti s i \<longleftrightarrow> e1ap_rnti i s = Some rnti"

lemma removed_indices:
  assumes "er_wf s"
  shows "i \<in> set (map fst (filter (\<lambda>(_, e). e \<in> set (map fst (filter (\<lambda>(_, r). r = rnti) (e1ap_id_to_rnti s)))) (cu_up_ue_to_e1ap_id s)))
    \<longleftrightarrow> e1ap_belongs rnti s i"
proof -
  have "(k, r) \<in> set (e1ap_id_to_rnti s) \<longleftrightarrow> om_get (e1ap_id_to_rnti s) k = Some r"
    "(j, k) \<in> set (cu_up_ue_to_e1ap_id s) \<longleftrightarrow> om_get (cu_up_ue_to_e1ap_id s) j = Some k" for j k r
    using assms by (simp_all add: er_wf_def om_get_set)
  then show ?thesis by (force simp: e1ap_belongs_def e1ap_rnti_def split: option.split)
qed

text \<open>
  C26. The removal of a UE deletes exactly what belongs to it by its registrations, after every history: the MAC metrics,
  the MAC and RLC metrics of its bearers, the three registrations with its RNTI, the CU-UP indices registered for one
  of its E1AP ids, and the PDCP and GTP metrics of these indices. Everything of another RNTI and of every other index,
  and the rest of the state, is as before, and the next report does not name the UE. PDCP and GTP
  metrics that are attributed to the UE only by the position of its index stay, although the declaration says that all
  metrics of the RNTI are cleaned up: see \<open>er_gtp_misattributed\<close>.
\<close>

theorem er_unregister_exact:
  fixes e ops rnti
  defines "s \<equiv> snd (run_er e ops new_edgeric)" and "s' \<equiv> unregister_ue_by_rnti rnti (snd (run_er e ops new_edgeric))"
  shows "om_get (mac_ue s') r = (if r = rnti then None else om_get (mac_ue s) r) \<and>
    om_get (mac_drb s') (r, l) = (if r = rnti then None else om_get (mac_drb s) (r, l)) \<and>
    om_get (rlc_drb s') (r, l) = (if r = rnti then None else om_get (rlc_drb s) (r, l)) \<and>
    om_get (ue_index_to_rnti s') i = (if om_get (ue_index_to_rnti s) i = Some rnti then None else om_get (ue_index_to_rnti s) i) \<and>
    om_get (du_ue_to_rnti s') i = (if om_get (du_ue_to_rnti s) i = Some rnti then None else om_get (du_ue_to_rnti s) i) \<and>
    om_get (e1ap_id_to_rnti s') i = (if om_get (e1ap_id_to_rnti s) i = Some rnti then None else om_get (e1ap_id_to_rnti s) i) \<and>
    om_get (cu_up_ue_to_e1ap_id s') i = (if e1ap_belongs rnti s i then None else om_get (cu_up_ue_to_e1ap_id s) i) \<and>
    om_get (pdcp_drb s') (i, d) = (if e1ap_belongs rnti s i then None else om_get (pdcp_drb s) (i, d)) \<and>
    om_get (gtp_ue s') i = (if e1ap_belongs rnti s i then None else om_get (gtp_ue s) i) \<and>
    s'\<lparr>mac_ue := mac_ue s, mac_drb := mac_drb s, rlc_drb := rlc_drb s, ue_index_to_rnti := ue_index_to_rnti s,
       du_ue_to_rnti := du_ue_to_rnti s, e1ap_id_to_rnti := e1ap_id_to_rnti s,
       cu_up_ue_to_e1ap_id := cu_up_ue_to_e1ap_id s, pdcp_drb := pdcp_drb s, gtp_ue := gtp_ue s\<rparr> = s \<and>
    ucast rnti \<notin> um_rnti ` set (tm_ues (fst (send_tti_metrics now s')))"
proof -
  have w: "er_wf s" unfolding s_def by (rule er_wf_run [OF er_wf_new])
  have s': "s' = unregister_ue_by_rnti rnti s" by (simp add: s_def s'_def)
  note ws = w [unfolded er_wf_def]
  have gone: "om_get (mac_ue s') rnti = None" and w': "om_wf (mac_ue s')"
    using ws by (simp_all add: s' unregister_ue_by_rnti_def Let_def om_get_erase om_wf_erase)
  have "ucast rnti \<notin> um_rnti ` set (tm_ues (fst (send_tti_metrics now s')))"
  proof
    assume "ucast rnti \<in> um_rnti ` set (tm_ues (fst (send_tti_metrics now s')))"
    then obtain r m where "(r, m) \<in> set (mac_ue s')" "(ucast rnti :: u32) = ucast r"
      by (auto simp: send_tti_metrics_def Let_def ue_msg_def)
    then show False using gone om_get_set [OF w', of r m] ucast_u16_inj [of rnti r] by auto
  qed
  moreover have "om_get (mac_ue s') r = (if r = rnti then None else om_get (mac_ue s) r)"
    "om_get (mac_drb s') (r, l) = (if r = rnti then None else om_get (mac_drb s) (r, l))"
    "om_get (rlc_drb s') (r, l) = (if r = rnti then None else om_get (rlc_drb s) (r, l))"
    "om_get (ue_index_to_rnti s') i = (if om_get (ue_index_to_rnti s) i = Some rnti then None else om_get (ue_index_to_rnti s) i)"
    "om_get (du_ue_to_rnti s') i = (if om_get (du_ue_to_rnti s) i = Some rnti then None else om_get (du_ue_to_rnti s) i)"
    "om_get (e1ap_id_to_rnti s') i = (if om_get (e1ap_id_to_rnti s) i = Some rnti then None else om_get (e1ap_id_to_rnti s) i)"
    using ws by (auto simp: s' unregister_ue_by_rnti_def Let_def om_get_erase om_get_erase_if split: option.split)
  moreover have "s'\<lparr>mac_ue := mac_ue s, mac_drb := mac_drb s, rlc_drb := rlc_drb s, ue_index_to_rnti := ue_index_to_rnti s,
       du_ue_to_rnti := du_ue_to_rnti s, e1ap_id_to_rnti := e1ap_id_to_rnti s,
       cu_up_ue_to_e1ap_id := cu_up_ue_to_e1ap_id s, pdcp_drb := pdcp_drb s, gtp_ue := gtp_ue s\<rparr> = s"
    by (simp add: s' unregister_ue_by_rnti_def Let_def)
  moreover have "om_get (pdcp_drb s') (i, d) = (if e1ap_belongs rnti s i then None else om_get (pdcp_drb s) (i, d))"
    "om_get (gtp_ue s') i = (if e1ap_belongs rnti s i then None else om_get (gtp_ue s) i)"
    "om_get (cu_up_ue_to_e1ap_id s') i = (if e1ap_belongs rnti s i then None else om_get (cu_up_ue_to_e1ap_id s) i)"
  proof -
    let ?I = "map fst (filter (\<lambda>(_, e). e \<in> set (map fst (filter (\<lambda>(_, r). r = rnti) (e1ap_id_to_rnti s)))) (cu_up_ue_to_e1ap_id s))"
    have p: "pdcp_drb s' = om_erase_if (\<lambda>key _. fst key \<in> set ?I) (pdcp_drb s)"
      "gtp_ue s' = foldl (\<lambda>g i. om_erase i g) (gtp_ue s) ?I"
      unfolding s' unregister_ue_by_rnti_def Let_def by simp_all
    have q: "om_wf (pdcp_drb s)" "om_wf (gtp_ue s)" "om_wf (cu_up_ue_to_e1ap_id s)" "om_wf (e1ap_id_to_rnti s)"
      using ws by simp_all
    show "om_get (pdcp_drb s') (i, d) = (if e1ap_belongs rnti s i then None else om_get (pdcp_drb s) (i, d))"
      unfolding p(1) om_get_erase_if [OF q(1)] fst_conv removed_indices [OF w] by (simp split: option.split)
    show "om_get (gtp_ue s') i = (if e1ap_belongs rnti s i then None else om_get (gtp_ue s) i)"
      unfolding p(2) om_get_erase_list [OF q(2)] removed_indices [OF w] ..
    have "k \<in> set (map fst (filter (\<lambda>(_, r). r = rnti) (e1ap_id_to_rnti s))) \<longleftrightarrow> om_get (e1ap_id_to_rnti s) k = Some rnti" for k
      by (force simp: om_get_set [OF q(4), symmetric])
    then have "cu_up_ue_to_e1ap_id s' =
        om_erase_if (\<lambda>_ k. om_get (e1ap_id_to_rnti s) k = Some rnti) (cu_up_ue_to_e1ap_id s)"
      unfolding s' unregister_ue_by_rnti_def Let_def by simp
    then show "om_get (cu_up_ue_to_e1ap_id s') i = (if e1ap_belongs rnti s i then None else om_get (cu_up_ue_to_e1ap_id s) i)"
      by (simp add: om_get_erase_if [OF q(3)] e1ap_belongs_def e1ap_rnti_def split: option.split)
  qed
  ultimately show ?thesis by blast
qed

section \<open>Correlation by position\<close>

text \<open>
  The GTP metrics of a UE can be reported for another one. The E1AP registrations are never made by the
  code, so that a CU-UP index is taken as a position in the list of registered UEs. When the first of two UEs leaves, the
  position of the second one changes: its report then carries the packet counts of the UE that left, which the
  removal has not deleted, and its own counts are not reported for any UE.
\<close>

theorem er_gtp_misattributed:
  "(let s = snd (run_er sample_env [Er_Register_Ue 0 17, Er_Register_Ue 1 18, Er_Dl_Nack 17, Er_Dl_Nack 18, Er_Gtp_Dl 0 1000,
         Er_Gtp_Dl 1 20, Er_Gtp_Dl 1 20, Er_Unregister_Ue 0, Er_Unregister_Rnti 17] new_edgeric)
    in map (\<lambda>u. (um_rnti u, map_option (\<lambda>g. (gu_dl_pkts g, gu_dl_bytes g)) (um_gtp u))) (tm_ues (fst (send_tti_metrics 5 s)))) =
   [(18, Some (1, 1000))]"
  by code_simp

end
