(* ===== verification/Spec2Isabelle.thy ===== *)
theory Spec2Isabelle
  imports Prelude Circular_Map Pdcp_Rx_Props Rlc_Types Rlc_Um_Pdu Rlc_Am_Pdu Rlc_Am_Status Rlc_Rx_Um Sdu_Queue_Threads Rlc_Um_Link
    Rlc_Rx_Am_Inv Rlc_Retx_Queue Rlc_Tx_Am_Props Rlc_Am_Link Rlc_Tm Edgeric_Props
begin

text \<open>
  A verification development for the RLC layer, the PDCP receiver and the EdgeRIC agent of the EdgeRIC fork of the srsRAN 5G stack.

  \<^bold>\<open>The program.\<close> The repository is a 5G gNB. A radio bearer passes through an RLC entity (lib/rlc) between PDCP
  above and the MAC scheduler below. A transmitting entity queues SDUs of the upper layer, cuts them into PDUs
  that fit the grants of the MAC, and reports its buffer state; a receiving entity puts the segments together
  again and hands SDUs up. Unacknowledged mode (UM) delivers what arrives; acknowledged mode (AM) adds a window on
  both sides, status reports of the receiver, retransmissions of the transmitter and polling. Both sides of an AM
  bearer meet in the interfaces of rlc\_am\_interconnect.h: the receiver forwards received status PDUs to the
  transmitter, the transmitter fetches the status report of the receiver when it has a grant. The upper layer and
  the MAC run on different threads; they meet in the lock-free SDU queue and in the buffers of the status report.
  Transparent mode (TM) passes SDUs through. Above RLC, the receiving PDCP entity
  (lib/pdcp) reconstructs the COUNT of each PDU from its sequence number, hands deciphering and integrity verification to the
  workers of a cryptographic executor, which finish in any order, puts the SDUs back into the order of COUNT, and waits at most
  t-Reordering for a missing one; the security engine (lib/security) deciphers and verifies. Next to the stack runs the EdgeRIC agent (lib/edgeric): MAC, RLC, PDCP and
  GTP-U count into its maps, once per TTI it publishes a report for each UE and resets the counters of the interval, and
  it receives scheduling weights and MCS values, which the scheduler asks for and which the code takes as valid up to an age of two TTIs.

  \<^bold>\<open>Theories.\<close> In the order of the code below them:
  \<^item> \<open>Prelude\<close>: fixed-width integers, results with faults, distances on the ring of sequence numbers (a locale that
    every SN length interprets).
  \<^item> \<open>Circular_Map\<close>: include/srsran/adt/circular\_map.h and support/sdu\_window.h; the window contract is a locale
    that the circular map interprets.
  \<^item> \<open>Rlc_Types\<close>: rlc\_config.h, buffer states, timers as their owner sees them, the actions of entities on their
    environment (deliveries, notifications, metrics).
  \<^item> \<open>Rlc_Um_Pdu\<close>, \<open>Rlc_Am_Pdu\<close>: parsers and writers of the data PDU headers, with round trips.
  \<^item> \<open>Rlc_Am_Status\<close>: the status PDU (rlc\_am\_pdu.h, rlc\_am\_pdu.cpp): merging of NACKs into ranges, trimming, both
    wire formats. \<open>status_missing\<close> is what a status PDU says: a set of pairs of SN and byte offset.
  \<^item> \<open>Rlc_Segments\<close>: the buffering and reassembly of segments that both receivers share.
  \<^item> \<open>Rlc_Rx_Um\<close>: rlc\_rx\_um\_entity.
  \<^item> \<open>Pdcp_Sn\<close>: the PDCP SN that RLC reads from an SDU (pdcp\_sn\_util.h) over the bit decoder (bit\_encoding.cpp).
  \<^item> \<open>Rlc_Sdu_Queue\<close>: rlc\_sdu\_queue\_lockfree.h with one call after the other, as a refinement of a list of SDUs with discard marks;
    \<open>Sdu_Queue_Threads\<close>: the same operations as interleaved atomic steps of the two threads.
  \<^item> \<open>Rlc_Tx_Common\<close>, \<open>Rlc_Tx_Um\<close>: rlc\_tx\_um\_entity; \<open>Rlc_Um_Link\<close>: both UM entities over an ordered channel.
  \<^item> \<open>Rlc_Rx_Am\<close>, \<open>Rlc_Rx_Am_Inv\<close>: rlc\_rx\_am\_entity, its invariant and properties.
  \<^item> \<open>Rlc_Retx_Queue\<close>: rlc\_retx\_queue.h as a refinement of a list; a locale states what the reported counters mean.
  \<^item> \<open>Rlc_Tx_Am\<close>: rlc\_tx\_am\_entity; \<open>Rlc_Tx_Am_Win\<close>: its window invariant; \<open>Rlc_Tx_Am_Inv\<close>: grants;
    \<open>Rlc_Tx_Am_Ack\<close>, \<open>Rlc_Tx_Am_Status\<close>: SDUs, buffer states, status PDUs and t-PollRetransmit; \<open>Rlc_Tx_Am_Props\<close>:
    the properties over all histories.
  \<^item> \<open>Rlc_Am_Report\<close>, \<open>Rlc_Am_Flow\<close>, \<open>Rlc_Am_Flow_Rx\<close>, \<open>Rlc_Am_Dir\<close>: SDUs numbered without wrap-around, what a report says of them, and
    one direction of an AM bearer with the PDUs on their way; \<open>Rlc_Am_Link\<close>: the AM entity (rlc\_am\_entity.h) and two
    of them over lossy channels.
  \<^item> \<open>Rlc_Tm\<close>: rlc\_tx\_tm\_entity and rlc\_rx\_tm\_entity.
  \<^item> \<open>Security_Engine\<close>: security\_engine\_impl with its integrity and ciphering engines over cryptographic functions that are
    parameters. \<open>Pdcp_Common\<close>: SN, HFN and COUNT (pdcp\_sn.h), the header of a data PDU, the counter of cryptographic
    tasks (pdcp\_crypto\_token.h). \<open>Pdcp_Rx\<close>: pdcp\_entity\_rx and the entity with its tasks in flight; \<open>Pdcp_Rx_Inv\<close>,
    \<open>Pdcp_Rx_Reorder\<close>, \<open>Pdcp_Rx_Sys\<close>: its invariants, for the loops, for reordering, and for every call and task;
    \<open>Pdcp_Status\<close>: the status report over the bit encoder (bit\_encoding.cpp); \<open>Pdcp_Rx_Props\<close>: the properties over all
    histories.
  \<^item> \<open>Ordered_Map\<close>: std::map as a sorted association list with the contract of a store as a locale; \<open>Edgeric\<close>: the agent
    (edgeric.h, edgeric.cpp); \<open>Edgeric_Props\<close>: its properties over all histories.

  \<^bold>\<open>How the code is represented.\<close> A class is a record, an operation a function from the state to the new state and
  the actions on the environment in their order, or a fault: a failed assertion, an access to a missing element,
  or a loop that exceeds its bound. Sequence numbers and counters are words of the width of the code with its
  wrap-around; lengths within an SDU are natural numbers where the code guards its subtractions. The loops over
  sequence numbers carry a bound of one more than the size of the SN space; the safety theorems show that it is never
  reached, so that the loops of the code end. Byte buffers are lists of bytes; logging, packet capture, tracing and
  latency measurements are left out.

  \<^bold>\<open>What is shown.\<close> For each entity: no history of calls makes it fail (with the conditions on the peer that this
  needs), the state variables and the window keep their order, and what it sends or delivers is right: the receivers
  deliver exactly the SDU whose last byte arrived, a status report denotes exactly the missing bytes, a status
  PDU makes the transmitter drop exactly the SDUs below its first NACK (below ACK\_SN without NACKs) and, if it acknowledges
  nothing above TX\_Next, its offsets fit and the queue has room, queue exactly the missing bytes; each PDU fits its grant
  and carries what its header says; the backlog is sent after finitely many grants, unless the window is full or the maximum of retransmissions
  reached, with a poll at the end if the buffers are empty by the test of the code, which counts discarded SDUs; buffer
  states are exact. The counters of the agent are reported exactly once modulo \<open>2 ^ 32\<close> for a UE that is not removed, the MCS override is that
  of the last message if it is fresh, the weight too but for one TTI longer than documented, the removal of a UE deletes exactly what is registered for it. The header codecs and the status PDU round-trip. The UM pair over an ordered lossless channel
  is a FIFO. Two AM entities with SDUs of 1 to 16383 bytes over ordered channels that lose and delay PDUs never fail, deliver every SDU at most once, and
  an SDU that was acknowledged has been delivered; there the conditions on the peer are discharged. The SDU queue and the retransmission queue refine lists, the former also for every interleaving of
  its two threads. The PDCP receiver never fails for any interleaving of PDUs, tasks of its executors, timer and control calls
  that keeps the obligations of its caller; it delivers exactly what the peer sent with each COUNT, in ascending order and at most
  once, as long as each arriving COUNT is within a window of RX\_DELIV and the keys stay the same; the event that tells that all tasks have finished is exact; its status report tells
  exactly what is stored. The theorems on errors show inputs and histories on which the code fails an assertion (for the AM transmitter in every state with room in
  the window), delivers
  twice, sends a discarded SDU, omits a poll, reports a stale status or its own ACK\_SN as missing, or attributes counters to another UE, and on which PDCP fails for a short PDU or
  accepts a COUNT that has wrapped around.

  \<^bold>\<open>Bounds.\<close> SDUs of the AM transmitter have at most 16383 bytes (\<open>max_am_sdu\<close>): then 131072 queued retransmissions stay
  within the 32-bit counters; PDCP PDUs have at most about 9000 bytes. The AM receiver is shown not to fail for PDUs
  whose segments end below offset 65535; the theorem \<open>rx_am_segment_wrap_faults\<close> shows why.

  The loops of the PDCP receiver end in every state and are total functions. What the theorems on it assume of the cryptographic
  functions is \<open>crypto_ok\<close>: a MAC has four bytes, and a cipher keeps the length of a message and undoes itself. The hard limit
  of COUNT is at least half of the range of sequence numbers below the end of its range (\<open>rx_config_ok\<close>); the theorem
  \<open>pdcp_rx_default_limit_wraps\<close> shows why.

  \<^bold>\<open>Not modelled.\<close> The factory of the entities and the collection of metrics; sockets, protobuf
  serialisation (parameters of the agent) and the log file of the agent; floating point arithmetic of the agent (a parameter);
  the transmitting PDCP entity, of which only the header that it writes and the protection of its PDUs are modelled, the
  publication of PDCP metrics, the cryptographic algorithms and the key derivation; the layers around (SDAP, GTP-U, F1-U,
  MAC, scheduler), which RLC and PDCP meet only through the interfaces above; the control
  plane, which is asynchronous code over generated ASN.1 codecs; the PHY and the radio, which are signal processing;
  third-party and generated code.
\<close>

end
